(* ===== verification/Prelude.thy ===== *)
theory Prelude
  imports Main "HOL-Library.Word"
begin

text \<open>
  Shared ground of the development: the machine integer types of \<open>include/types.h\<close>,
  the collections the component proofs feed to the simplifier, and generic facts about
  bits, words and lists.

  A C integer of width w is a w-bit word: arithmetic wraps as in C, the bitwise operators and
  shifts are those of the Word library, and a conversion between unsigned widths is
  \<open>ucast\<close>.
  A machine fault of the model (an array index out of range, a spin lock the same
  control flow already holds) is the value \<^term>\<open>None\<close> of an option type; an error value of
  the C code itself (\<open>NULL\<close>, \<open>FALSE\<close>) stays an ordinary value.
\<close>

unbundle bit_operations_syntax

section \<open>Types\<close>

type_synonym u8 = "8 word"
type_synonym u16 = "16 word"
type_synonym u32 = "32 word"

text \<open>
  \<open>c_eval\<close> collects the equations that evaluate closed calls of the model;
  \<open>heap_simps\<close> the read-over-write laws of the linked-list heap.
\<close>

named_theorems c_eval
named_theorems heap_simps

section \<open>Lowest bits\<close>

text \<open>
  \<open>lowest p i\<close> says that \<open>i\<close> is the least index where the bit predicate holds: what a
  find-first table of the code returns.
\<close>

definition lowest :: "(nat \<Rightarrow> bool) \<Rightarrow> nat \<Rightarrow> bool" where
  "lowest p i \<longleftrightarrow> p i \<and> (\<forall>j<i. \<not> p j)"

lemma lowestD: "lowest p i \<Longrightarrow> p i"
  by (simp add: lowest_def)

lemma lowest_below: "lowest p i \<Longrightarrow> j < i \<Longrightarrow> \<not> p j"
  by (simp add: lowest_def)

lemma lowest_le: "lowest p i \<Longrightarrow> p j \<Longrightarrow> i \<le> j"
  using lowest_below not_le by blast

lemma lowest_unique: "lowest p i \<Longrightarrow> lowest p j \<Longrightarrow> i = j"
  by (meson le_antisym lowestD lowest_le)

lemma lowest_Least: "lowest p i \<Longrightarrow> (LEAST i. p i) = i"
  by (rule Least_equality) (auto dest: lowestD lowest_le)

lemma lowest_cong: "lowest p i \<Longrightarrow> (\<And>j. j \<le> i \<Longrightarrow> p j = q j) \<Longrightarrow> lowest q i"
  by (auto simp: lowest_def)

text \<open>
  A two-level search: the least row that has a hit, then the least hit in that row, is the
  least hit overall when cell \<open>x\<close> of row \<open>y\<close> stands for the number \<open>w * y + x\<close>.
\<close>

locale two_level =
  fixes w :: nat and rows :: nat
    and cell :: "nat \<Rightarrow> nat \<Rightarrow> bool"
  assumes w_pos: "0 < w"
begin

definition flat :: "nat \<Rightarrow> bool" where
  "flat p \<longleftrightarrow> p < rows * w \<and> cell (p div w) (p mod w)"

definition row_hit :: "nat \<Rightarrow> bool" where
  "row_hit y \<longleftrightarrow> y < rows \<and> (\<exists>x<w. cell y x)"

lemma flat_index: "y < rows \<Longrightarrow> x < w \<Longrightarrow> flat (w * y + x) = cell y x"
proof -
  assume a: "y < rows" "x < w"
  have "w * y + x < w * Suc y" using a by simp
  also have "\<dots> \<le> w * rows" using a by (intro mult_le_mono2) simp
  finally show ?thesis using a w_pos by (simp add: flat_def mult.commute)
qed

lemma row_hit_flat: "row_hit y \<longleftrightarrow> (\<exists>x<w. y < rows \<and> flat (w * y + x))"
  by (auto simp: row_hit_def flat_index)

lemma two_level_lowest:
  assumes y: "lowest row_hit y" and x: "lowest (\<lambda>x. x < w \<and> cell y x) x"
  shows "lowest flat (w * y + x)"
proof -
  have yr: "y < rows" using lowestD [OF y] by (simp add: row_hit_def)
  have xw: "x < w" "cell y x" using lowestD [OF x] by auto
  have "\<not> flat p" if p: "p < w * y + x" for p
  proof
    assume f: "flat p"
    have pd: "p = w * (p div w) + p mod w" by simp
    have pm: "p mod w < w" using w_pos by simp
    have row: "row_hit (p div w)"
      using f w_pos by (auto simp: flat_def row_hit_def div_less_iff_less_mult intro: exI [of _ "p mod w"])
    have "y \<le> p div w" by (rule lowest_le [OF y row])
    moreover have "p div w \<le> y"
    proof (rule ccontr)
      assume "\<not> p div w \<le> y"
      then have "w * Suc y \<le> w * (p div w)" by (intro mult_le_mono2) simp
      then have "w * y + w \<le> w * (p div w)" by simp
      with p pd xw(1) show False by linarith
    qed
    ultimately have eq: "p div w = y" by simp
    with pd have "p mod w < x" using p by simp
    with lowest_below [OF x] pm f eq show False by (auto simp: flat_def)
  qed
  with flat_index [OF yr xw(1)] xw show ?thesis by (simp add: lowest_def)
qed

lemma no_row_no_flat: "\<not> row_hit (p div w) \<Longrightarrow> \<not> flat p"
  using w_pos by (auto simp: flat_def row_hit_def div_less_iff_less_mult)

end

section \<open>Find-first tables\<close>

text \<open>
  The code finds the lowest set or clear bit of a byte in a 256-entry table. \<open>scan_table\<close>
  walks a table with the index it belongs to, so that one evaluation checks every entry;
  \<open>set_at\<close> and \<open>clear_at\<close> are the arithmetic form of the two checks.
\<close>

fun scan_table :: "(int \<Rightarrow> u8 \<Rightarrow> bool) \<Rightarrow> int \<Rightarrow> u8 list \<Rightarrow> bool" where
  "scan_table P b [] = True"
| "scan_table P b (t # ts) = (P b t \<and> scan_table P (b + 1) ts)"

lemma scan_table_nth: "scan_table P b ts \<Longrightarrow> n < length ts \<Longrightarrow> P (b + int n) (ts ! n)"
proof (induction P b ts arbitrary: n rule: scan_table.induct)
  case (2 P b t ts)
  then show ?case by (cases n) (auto simp: algebra_simps)
qed simp

definition set_at :: "int \<Rightarrow> u8 \<Rightarrow> bool" where
  "set_at b t \<longleftrightarrow> b AND 2 ^ unat t \<noteq> 0 \<and> b AND (2 ^ unat t - 1) = 0"

definition clear_at :: "int \<Rightarrow> u8 \<Rightarrow> bool" where
  "clear_at b t \<longleftrightarrow> b AND 2 ^ unat t = 0 \<and> b AND (2 ^ unat t - 1) = 2 ^ unat t - 1"

lemma set_at_lowest:
  fixes w :: u8
  assumes "set_at (uint w) t"
  shows "lowest (bit w) (unat t)"
proof -
  have eq: "bit (uint w AND mask (unat t)) j = bit (0::int) j" for j
    using assms by (simp add: set_at_def mask_eq_exp_minus_1)
  have "\<not> bit w j" if "j < unat t" for j
    using eq [of j] that by (auto simp: bit_and_iff bit_mask_iff bit_uint_iff dest: bit_imp_le_length)
  moreover have "bit (uint w) (unat t)"
    using assms by (simp add: set_at_def and_exp_eq_0_iff_not_bit)
  ultimately show ?thesis by (simp add: lowest_def bit_uint_iff)
qed

lemma clear_at_lowest:
  fixes w :: u8
  assumes "clear_at (uint w) t"
  shows "lowest (\<lambda>i. \<not> bit w i) (unat t)"
proof -
  have eq: "bit (uint w AND mask (unat t)) j = bit (mask (unat t) :: int) j" for j
    using assms by (simp add: clear_at_def mask_eq_exp_minus_1)
  have "bit w j" if "j < unat t" for j
    using eq [of j] that by (auto simp: bit_and_iff bit_mask_iff bit_uint_iff)
  moreover have "\<not> bit (uint w) (unat t)"
    using assms by (simp add: clear_at_def and_exp_eq_0_iff_not_bit)
  ultimately show ?thesis by (auto simp: lowest_def bit_uint_iff dest: bit_imp_le_length)
qed

lemma scan_table_at:
  fixes w :: u8
  assumes "scan_table P 0 ts" and "unat w < length ts"
  shows "P (uint w) (ts ! unat w)"
  using scan_table_nth [OF assms] by simp

section \<open>Bits of words\<close>

lemma bit_one_shift: "bit (push_bit n (1::'a::len word)) m \<longleftrightarrow> m = n \<and> n < LENGTH('a)"
  by (auto simp: bit_push_bit_iff bit_1_iff possible_bit_def simp del: push_bit_of_1)

lemma bit_word_eq_iff': "(v::'a::len word) = w \<longleftrightarrow> (\<forall>i<LENGTH('a). bit v i = bit w i)"
  by (auto intro: bit_word_eqI)

lemma u8_lt: "unat (w::u8) < 256"
  using unsigned_less [of w, where 'a = nat] by simp

lemma u16_lt: "unat (w::u16) < 65536"
  using unsigned_less [of w, where 'a = nat] by simp

lemma u32_lt: "unat (w::u32) < 4294967296"
  using unsigned_less [of w, where 'a = nat] by simp

lemma unat_small: "n < 4294967296 \<Longrightarrow> unat (of_nat n :: u32) = n"
  by (simp add: unsigned_of_nat take_bit_nat_eq_self)

lemma of_nat_eq_word: "m < 4294967296 \<Longrightarrow> n < 4294967296 \<Longrightarrow> (of_nat m :: u32) = of_nat n \<longleftrightarrow> m = n"
  by (metis unat_small)

lemma unat_ucast_up:
  "LENGTH('a) \<le> LENGTH('b) \<Longrightarrow> unat (ucast (w::'a::len word) :: 'b::len word) = unat w"
  by (metis (mono_tags) unsigned_less unsigned_ucast_eq take_bit_nat_eq_self power_increasing
      one_le_numeral order_less_le_trans)

lemma u8_max: "(- 1 :: u8) = 255" and u16_max: "(- 1 :: u16) = 65535"
  by simp_all

lemma word_not_all_ones:
  "(w::'a::len word) \<noteq> - 1 \<longleftrightarrow> (\<exists>i<LENGTH('a). \<not> bit w i)"
  by (auto simp: bit_word_eq_iff')

lemma word_nonzero: "(w::'a::len word) \<noteq> 0 \<longleftrightarrow> (\<exists>i<LENGTH('a). bit w i)"
  by (auto simp: bit_word_eq_iff')

section \<open>Signed bytes\<close>

lemma wrap_256: "0 \<le> u \<Longrightarrow> u < 256 \<Longrightarrow> (u + 128) mod 256 - 128 = (if u < 128 then u else u - 256)" for u :: int
  by (cases "u < 128") (simp_all add: mod_pos_geq mod_pos_pos_trivial)

lemma sint_u8: "sint (c :: u8) = (if uint c < 128 then uint c else uint c - 256)"
proof -
  have "sint c = (uint c + 128) mod 256 - 128"
    by (simp add: sint_uint signed_take_bit_eq_take_bit_shift take_bit_eq_mod)
  then show ?thesis using unsigned_less [of c, where 'a = int] wrap_256 [OF unsigned_greater_eq, of c] by simp
qed

lemma sint_char_ge: "0 < n \<Longrightarrow> n \<le> sint (c :: u8) \<longleftrightarrow> n \<le> int (unat c) \<and> unat c < 128"
proof -
  obtain k where k: "unat c = k" "uint c = int k" "k < 256" using u8_lt [of c] by simp
  assume "0 < n"
  with k(3) show ?thesis unfolding sint_u8 k(1,2) by auto
qed

end
