(* ===== verification/Cstring.thy ===== *)
theory Cstring
  imports Prelude
begin

text \<open>
  The byte functions of \<open>include/string.h\<close> over a memory of bytes addressed by \<^typ>\<open>u32\<close>. A load and
  a store of a word are four little-endian bytes. The loops that count down end by their measure; the
  loops that look for the end of a string end only when there is one, so they are partial functions and
  \<^term>\<open>None\<close> says that the loop does not end.

  \<open>copied\<close> is what a copy is to achieve; \<open>memcpy\<close> achieves it on its word path and on its byte path.
  \<open>cstring m a cs\<close> says that the string \<open>cs\<close> with its terminator is at \<open>a\<close>.
\<close>

section \<open>The code\<close>

type_synonym mem = "u32 \<Rightarrow> u8"

definition word_at :: "mem \<Rightarrow> u32 \<Rightarrow> u32" where
  "word_at m a = ucast (m a) OR push_bit 8 (ucast (m (a + 1))) OR push_bit 16 (ucast (m (a + 2)))
     OR push_bit 24 (ucast (m (a + 3)))"

definition put_word :: "u32 \<Rightarrow> u32 \<Rightarrow> mem \<Rightarrow> mem" where
  "put_word a w m = m(a := ucast w, a + 1 := ucast (drop_bit 8 w), a + 2 := ucast (drop_bit 16 w),
     a + 3 := ucast (drop_bit 24 w))"

function memcpy_words :: "u32 \<Rightarrow> u32 \<Rightarrow> u32 \<Rightarrow> mem \<Rightarrow> u32 \<times> u32 \<times> u32 \<times> mem" where
  "memcpy_words dest_w src_w len m =
    (if len \<ge> 4 then memcpy_words (dest_w + 4) (src_w + 4) (len - 4) (put_word dest_w (word_at m src_w) m)
     else (dest_w, src_w, len, m))"
  by pat_completeness auto

termination memcpy_words
  by (relation "measure (\<lambda>(d, s, len, m). unat len)") (simp_all add: unat_sub word_le_nat_alt)

function memcpy_bytes :: "u32 \<Rightarrow> u32 \<Rightarrow> u32 \<Rightarrow> mem \<Rightarrow> mem" where
  "memcpy_bytes dest_b src_b len m =
    (if len \<noteq> 0 then memcpy_bytes (dest_b + 1) (src_b + 1) (len - 1) (m(dest_b := m src_b)) else m)"
  by pat_completeness auto

lemma unat_pred: "w \<noteq> 0 \<Longrightarrow> unat (w - 1 :: u32) < unat w"
  by (simp add: unat_minus_one unat_gt_0)

termination memcpy_bytes
  by (relation "measure (\<lambda>(d, s, len, m). unat len)") (simp_all add: unat_pred)

definition memcpy :: "u32 \<Rightarrow> u32 \<Rightarrow> u32 \<Rightarrow> mem \<Rightarrow> mem" where
  "memcpy dest src len m =
    (let (dest_b, src_b, len, m) =
       (if (dest OR src) AND 0x03 = 0 then memcpy_words dest src len m else (dest, src, len, m))
     in memcpy_bytes dest_b src_b len m)"

function memset :: "u32 \<Rightarrow> u8 \<Rightarrow> u32 \<Rightarrow> mem \<Rightarrow> mem" where
  "memset dest_b val len m =
    (if len \<noteq> 0 then memset (dest_b + 1) val (len - 1) (m(dest_b := val)) else m)"
  by pat_completeness auto

termination memset
  by (relation "measure (\<lambda>(d, v, len, m). unat len)") (simp_all add: unat_pred)

definition bzero :: "u32 \<Rightarrow> u32 \<Rightarrow> mem \<Rightarrow> mem" where
  "bzero dest len m = memset dest 0 len m"

partial_function (option) strcmp :: "mem \<Rightarrow> u32 \<Rightarrow> u32 \<Rightarrow> int option" where
  "strcmp m str1 str2 =
    (let ret = uint (m str1) - uint (m str2)
     in if ret \<noteq> 0 \<or> m str1 = 0 then Some ret else strcmp m (str1 + 1) (str2 + 1))"

partial_function (option) strcpy :: "u32 \<Rightarrow> u32 \<Rightarrow> mem \<Rightarrow> mem option" where
  "strcpy dest src m =
    (let c = m src; m = m(dest := c)
     in if c \<noteq> 0 then strcpy (dest + 1) (src + 1) m else Some m)"

partial_function (option) strcat :: "u32 \<Rightarrow> u32 \<Rightarrow> mem \<Rightarrow> mem option" where
  "strcat dest src m = (if m dest \<noteq> 0 then strcat (dest + 1) src m else strcpy dest src m)"

partial_function (option) strlen_loop :: "mem \<Rightarrow> u32 \<Rightarrow> u32 \<Rightarrow> u32 option" where
  "strlen_loop m src len = (if m src \<noteq> 0 then strlen_loop m (src + 1) (len + 1) else Some len)"

definition strlen :: "mem \<Rightarrow> u32 \<Rightarrow> u32 option" where
  "strlen m src = strlen_loop m src 0"

declare memcpy_words.simps [simp del] memcpy_bytes.simps [simp del] memset.simps [simp del]

section \<open>Copying\<close>

definition copied :: "u32 \<Rightarrow> u32 \<Rightarrow> nat \<Rightarrow> mem \<Rightarrow> mem" where
  "copied d s n m = (\<lambda>a. if unat (a - d) < n then m (s + (a - d)) else m a)"

text \<open>The two regions of \<open>n\<close> bytes have no byte in common.\<close>

definition apart_mem :: "u32 \<Rightarrow> u32 \<Rightarrow> nat \<Rightarrow> bool" where
  "apart_mem d s n \<longleftrightarrow> (\<forall>x. unat (x - d) < n \<longrightarrow> n \<le> unat (x - s))"

lemma copied_0 [simp]: "copied d s 0 m = m"
  by (simp add: copied_def)

lemma copied_append:
  assumes ap: "apart_mem d s (k + j)" and n: "k + j < 4294967296"
  shows "copied (d + of_nat k) (s + of_nat k) j (copied d s k m) = copied d s (k + j) m"
proof
  fix a
  define x where "x = a - d"
  have uk: "unat (of_nat k :: u32) = k" using n by (simp add: unat_small)
  have ax: "a - (d + of_nat k) = x - of_nat k" by (simp add: x_def algebra_simps)
  have ux: "unat (x - of_nat k) = (if k \<le> unat x then unat x - k else unat x + 4294967296 - k)"
    by (simp add: unat_sub_if' uk)
  have src: "s + of_nat k + (a - (d + of_nat k)) = s + x" by (simp add: x_def algebra_simps)
  have out: "\<not> unat (s + x - d) < k" if "unat x < k + j"
  proof
    assume "unat (s + x - d) < k"
    then have "k + j \<le> unat (s + x - s)" using ap unfolding apart_mem_def by (metis trans_less_add1)
    then show False using that by simp
  qed
  show "copied (d + of_nat k) (s + of_nat k) j (copied d s k m) a = copied d s (k + j) m a"
  proof (cases "k \<le> unat x")
    case True
    then have "unat (a - (d + of_nat k)) < j \<longleftrightarrow> unat x < k + j" by (simp add: ax ux less_diff_conv2 add.commute)
    then show ?thesis using True out unfolding copied_def src x_def [symmetric] by auto
  next
    case False
    then have "\<not> unat (a - (d + of_nat k)) < j" using n by (simp add: ax ux)
    then show ?thesis using False unfolding copied_def x_def [symmetric] by simp
  qed
qed

lemma copied_one: "copied d s 1 m = m(d := m s)"
proof
  fix a
  have "unat (a - d) < 1 \<longleftrightarrow> a = d" by (simp add: unat_eq_0)
  then show "copied d s 1 m a = (m(d := m s)) a" by (simp add: copied_def)
qed

lemma apart_mem_le: "apart_mem d s n \<Longrightarrow> k \<le> n \<Longrightarrow> apart_mem d s k"
  unfolding apart_mem_def by (meson le_trans less_le_trans)

lemma apart_mem_shift:
  assumes ap: "apart_mem d s (k + j)" and n: "k + j < 4294967296"
  shows "apart_mem (d + of_nat k) (s + of_nat k) j"
  unfolding apart_mem_def
proof (intro allI impI)
  fix x assume x: "unat (x - (d + of_nat k)) < j"
  have uk: "unat (of_nat k :: u32) = k" using n by (simp add: unat_small)
  have sub: "unat (y - of_nat k :: u32) = (if k \<le> unat y then unat y - k else unat y + 4294967296 - k)" for y
    by (simp add: unat_sub_if' uk)
  have "unat (x - d) < k + j" using x sub [of "x - d"] n by (auto simp: algebra_simps split: if_splits)
  then have "k + j \<le> unat (x - s)" using ap by (simp add: apart_mem_def)
  then show "j \<le> unat (x - (s + of_nat k))" using sub [of "x - s"] by (simp add: algebra_simps)
qed

lemma memcpy_bytes_copied:
  "apart_mem d s n \<Longrightarrow> n < 4294967296 \<Longrightarrow> memcpy_bytes d s (of_nat n) m = copied d s n m"
proof (induction n arbitrary: d s m)
  case 0
  then show ?case by (subst memcpy_bytes.simps) simp
next
  case (Suc n)
  have nz: "(of_nat (Suc n) :: u32) \<noteq> 0" using unat_small [OF Suc.prems(2)] by auto
  have ap: "apart_mem (d + of_nat 1) (s + of_nat 1) n" by (rule apart_mem_shift) (use Suc.prems in simp_all)
  have "memcpy_bytes d s (of_nat (Suc n)) m = memcpy_bytes (d + 1) (s + 1) (of_nat n) (m(d := m s))"
    using nz by (subst memcpy_bytes.simps) simp
  also have "\<dots> = copied (d + of_nat 1) (s + of_nat 1) n (copied d s 1 m)"
    using Suc.IH [OF ap] Suc.prems(2) by (simp add: copied_one [unfolded One_nat_def])
  also have "\<dots> = copied d s (1 + n) m" by (rule copied_append) (use Suc.prems in simp_all)
  finally show ?case by simp
qed

lemma u8_high: "8 \<le> n \<Longrightarrow> \<not> bit (w :: u8) n"
  using bit_imp_le_length [of w n] by auto

lemma word_at_bytes:
  "ucast (word_at m a) = m a" "ucast (drop_bit 8 (word_at m a)) = m (a + 1)"
  "ucast (drop_bit 16 (word_at m a)) = m (a + 2)" "ucast (drop_bit 24 (word_at m a)) = m (a + 3)"
  by (rule bit_word_eqI; auto simp: word_at_def bit_ucast_iff bit_or_iff bit_push_bit_iff bit_drop_bit_eq u8_high)+

lemma put_word_copied: "put_word d (word_at m s) m = copied d s 4 m"
proof
  fix a
  define x where "x = a - d"
  have a: "a = d + x" by (simp add: x_def)
  have "x = 0 \<or> x = 1 \<or> x = 2 \<or> x = 3 \<or> 4 \<le> unat x"
    by (cases "unat x < 4") (auto simp: word_unat_eq_iff)
  then show "put_word d (word_at m s) m a = copied d s 4 m a"
    unfolding put_word_def word_at_bytes copied_def a by (elim disjE) auto
qed

lemma memcpy_words_copied:
  "apart_mem d s (4 * k + r) \<Longrightarrow> 4 * k + r < 4294967296 \<Longrightarrow> r < 4 \<Longrightarrow>
    memcpy_words d s (of_nat (4 * k + r)) m =
      (d + of_nat (4 * k), s + of_nat (4 * k), of_nat r, copied d s (4 * k) m)"
proof (induction k arbitrary: d s m)
  case 0
  have "\<not> (4 :: u32) \<le> of_nat r" using 0 by (simp add: word_le_nat_alt unat_small)
  then show ?case by (subst memcpy_words.simps) simp
next
  case (Suc k)
  let ?n = "4 * Suc k + r"
  have un: "unat (of_nat ?n :: u32) = ?n" using Suc.prems(2) by (rule unat_small)
  have ge: "(4 :: u32) \<le> of_nat ?n" by (simp only: word_le_nat_alt un) simp
  have len: "(of_nat ?n - 4 :: u32) = of_nat (4 * k + r)" by simp
  have n4: "?n = 4 + (4 * k + r)" by simp
  have ap: "apart_mem (d + of_nat 4) (s + of_nat 4) (4 * k + r)"
    using Suc.prems(1,2) unfolding n4 by (rule apart_mem_shift)
  have "memcpy_words d s (of_nat ?n) m = memcpy_words (d + of_nat 4) (s + of_nat 4) (of_nat (4 * k + r)) (copied d s 4 m)"
    by (subst memcpy_words.simps) (simp only: ge if_True len put_word_copied, simp)
  also have "\<dots> = (d + of_nat 4 + of_nat (4 * k), s + of_nat 4 + of_nat (4 * k), of_nat r,
      copied (d + of_nat 4) (s + of_nat 4) (4 * k) (copied d s 4 m))"
    by (rule Suc.IH [OF ap]) (use Suc.prems in simp_all)
  also have "copied (d + of_nat 4) (s + of_nat 4) (4 * k) (copied d s 4 m) = copied d s (4 + 4 * k) m"
    by (rule copied_append) (use Suc.prems apart_mem_le [of d s ?n "4 + 4 * k"] in simp_all)
  finally show ?case by (simp add: algebra_simps)
qed

lemma memcpy_copied:
  assumes ap: "apart_mem d s n" and n: "n < 4294967296"
  shows "memcpy d s (of_nat n) m = copied d s n m"
proof (cases "(d OR s) AND 0x03 = 0")
  case False
  then show ?thesis using memcpy_bytes_copied [OF assms] by (simp add: memcpy_def)
next
  case True
  define k r where "k = n div 4" and "r = n mod 4"
  have kr: "n = 4 * k + r" "r < 4" by (simp_all add: k_def r_def)
  have w: "memcpy_words d s (of_nat n) m = (d + of_nat (4 * k), s + of_nat (4 * k), of_nat r, copied d s (4 * k) m)"
    unfolding kr(1) by (rule memcpy_words_copied) (use assms kr in simp_all)
  have "memcpy d s (of_nat n) m = memcpy_bytes (d + of_nat (4 * k)) (s + of_nat (4 * k)) (of_nat r) (copied d s (4 * k) m)"
    using True w by (simp add: memcpy_def)
  also have "\<dots> = copied (d + of_nat (4 * k)) (s + of_nat (4 * k)) r (copied d s (4 * k) m)"
    by (rule memcpy_bytes_copied) (use assms kr apart_mem_shift [of d s "4 * k" r] in simp_all)
  also have "\<dots> = copied d s n m" unfolding kr(1) by (rule copied_append) (use assms kr in simp_all)
  finally show ?thesis .
qed

lemma memset_filled:
  "n < 4294967296 \<Longrightarrow> memset d v (of_nat n) m = (\<lambda>a. if unat (a - d) < n then v else m a)"
proof (induction n arbitrary: d m)
  case 0
  then show ?case by (subst memset.simps) simp
next
  case (Suc n)
  have nz: "(of_nat (Suc n) :: u32) \<noteq> 0" using unat_small [OF Suc.prems] by auto
  have "memset d v (of_nat (Suc n)) m = memset (d + 1) v (of_nat n) (m(d := v))"
    using nz by (subst memset.simps) simp
  also have "\<dots> = (\<lambda>a. if unat (a - (d + 1)) < n then v else (m(d := v)) a)" using Suc by simp
  also have "\<dots> = (\<lambda>a. if unat (a - d) < Suc n then v else m a)"
  proof
    fix a
    have "unat (a - (d + 1)) = unat (a - d) - 1" if "a \<noteq> d"
    proof -
      have "a - d \<noteq> 0" using that by simp
      then have "unat (a - d - 1) = unat (a - d) - 1" by (rule unat_minus_one)
      then show ?thesis by (simp add: algebra_simps)
    qed
    moreover have "unat (a - d) \<noteq> 0" if "a \<noteq> d" using that by (simp add: unat_eq_0)
    ultimately show "(if unat (a - (d + 1)) < n then v else (m(d := v)) a) = (if unat (a - d) < Suc n then v else m a)"
      by (cases "a = d") auto
  qed
  finally show ?case .
qed

section \<open>Strings\<close>

fun cstring :: "mem \<Rightarrow> u32 \<Rightarrow> u8 list \<Rightarrow> bool" where
  "cstring m a [] \<longleftrightarrow> m a = 0"
| "cstring m a (c # cs) \<longleftrightarrow> m a = c \<and> c \<noteq> 0 \<and> cstring m (a + 1) cs"

lemma cstring_nth:
  "cstring m a cs \<Longrightarrow> i \<le> length cs \<Longrightarrow> m (a + of_nat i) = (if i < length cs then cs ! i else 0)"
proof (induction cs arbitrary: a i)
  case (Cons c cs)
  then show ?case using Cons.IH [of "a + 1" "i - 1"] by (cases i) (auto simp: add.assoc)
qed simp

lemma cstring_iff:
  "cstring m a cs \<longleftrightarrow> (\<forall>i<length cs. m (a + of_nat i) = cs ! i \<and> cs ! i \<noteq> 0) \<and> m (a + of_nat (length cs)) = 0"
proof (induction cs arbitrary: a)
  case (Cons c cs)
  then show ?case by (auto simp: All_less_Suc2 add.assoc)
qed simp

lemma strlen_loop_spec: "cstring m a cs \<Longrightarrow> strlen_loop m a n = Some (n + of_nat (length cs))"
proof (induction cs arbitrary: a n)
  case Nil
  then show ?case by (subst strlen_loop.simps) simp
next
  case (Cons c cs)
  then show ?case by (subst strlen_loop.simps) (simp add: add.assoc)
qed

lemma strlen_spec: "cstring m a cs \<Longrightarrow> strlen m a = Some (of_nat (length cs))"
  by (simp add: strlen_def strlen_loop_spec)

lemma strcpy_copied:
  "cstring m s cs \<Longrightarrow> apart_mem d s (Suc (length cs)) \<Longrightarrow> Suc (length cs) < 4294967296 \<Longrightarrow>
    strcpy d s m = Some (copied d s (Suc (length cs)) m)"
proof (induction cs arbitrary: d s m)
  case Nil
  then show ?case by (subst strcpy.simps) (simp add: copied_one [unfolded One_nat_def])
next
  case (Cons c cs)
  let ?n = "Suc (length cs)"
  have ap: "apart_mem (d + of_nat 1) (s + of_nat 1) ?n" by (rule apart_mem_shift) (use Cons.prems in simp_all)
  have keep: "(copied d s 1 m) (s + 1 + of_nat i) = m (s + 1 + of_nat i)" if "i \<le> length cs" for i
  proof -
    have "s + 1 + of_nat i \<noteq> d"
    proof
      assume "s + 1 + of_nat i = d"
      then have "d - s = of_nat (Suc i)" by (simp add: algebra_simps)
      moreover have "Suc i < 4294967296" using that Cons.prems(3) by simp
      ultimately have "unat (d - s) = Suc i" using unat_small by metis
      moreover have "length (c # cs) < unat (d - s)" using Cons.prems(2) by (simp add: apart_mem_def Suc_le_eq)
      ultimately show False using that by simp
    qed
    then show ?thesis by (simp add: copied_one [unfolded One_nat_def])
  qed
  have "cstring m (s + 1) cs" using Cons.prems(1) by simp
  then have "cstring (copied d s 1 m) (s + 1) cs" using keep unfolding cstring_iff by simp
  then have "strcpy (d + of_nat 1) (s + of_nat 1) (copied d s 1 m)
      = Some (copied (d + of_nat 1) (s + of_nat 1) ?n (copied d s 1 m))"
    using Cons.IH [OF _ ap] Cons.prems(3) by simp
  also have "copied (d + of_nat 1) (s + of_nat 1) ?n (copied d s 1 m) = copied d s (1 + ?n) m"
    by (rule copied_append) (use Cons.prems in simp_all)
  finally have "strcpy (d + 1) (s + 1) (m(d := m s)) = Some (copied d s (Suc ?n) m)"
    by (simp add: copied_one [unfolded One_nat_def] fun_upd_def)
  then show ?case using Cons.prems(1) by (subst strcpy.simps) (simp add: Let_def)
qed

lemma strcat_spec:
  "cstring m d ds \<Longrightarrow> strcat d s m = strcpy (d + of_nat (length ds)) s m"
proof (induction ds arbitrary: d)
  case Nil
  then show ?case by (subst strcat.simps) simp
next
  case (Cons c ds)
  then show ?case by (subst strcat.simps) (simp add: add.assoc)
qed

lemma copied_cstring:
  assumes "cstring m s cs" and "Suc (length cs) < 4294967296"
  shows "cstring (copied d s (Suc (length cs)) m) d cs"
proof -
  have "copied d s (Suc (length cs)) m (d + of_nat i) = m (s + of_nat i)" if "i \<le> length cs" for i
    using that assms(2) by (simp add: copied_def unat_small)
  then show ?thesis using assms(1) by (simp add: cstring_iff)
qed

text \<open>\<open>strcmp\<close> returns, and the sign of what it returns is the order of the strings.\<close>

fun str_less :: "u8 list \<Rightarrow> u8 list \<Rightarrow> bool" where
  "str_less xs [] \<longleftrightarrow> False"
| "str_less [] (y # ys) \<longleftrightarrow> True"
| "str_less (x # xs) (y # ys) \<longleftrightarrow> x < y \<or> x = y \<and> str_less xs ys"

lemma u8_pos: "w \<noteq> 0 \<Longrightarrow> 0 < uint (w :: u8)"
  using uint_0_iff [of w] unsigned_greater_eq [of w] by (metis order_le_less)

lemma strcmp_spec:
  "cstring m a xs \<Longrightarrow> cstring m b ys \<Longrightarrow>
    \<exists>r. strcmp m a b = Some r \<and> (r = 0 \<longleftrightarrow> xs = ys) \<and> (r < 0 \<longleftrightarrow> str_less xs ys)"
proof (induction xs ys arbitrary: a b rule: str_less.induct)
  case (1 xs)
  then show ?case
    by (subst strcmp.simps) (cases xs; auto simp: Let_def word_less_iff_unsigned uint_0_iff)
next
  case (2 y ys)
  then have "0 < uint (m b)" using u8_pos by simp
  then show ?case using 2 by (subst strcmp.simps) (auto simp: Let_def)
next
  case (3 x xs y ys)
  show ?case
  proof (cases "x = y")
    case True
    then show ?thesis using 3 by (subst strcmp.simps) (simp add: Let_def)
  next
    case False
    then have "uint x - uint y \<noteq> 0" by (simp add: word_uint_eq_iff)
    then show ?thesis using 3(2,3) False by (subst strcmp.simps) (simp add: Let_def word_less_def)
  qed
qed

lemma copied_outside: "n \<le> unat (a - d) \<Longrightarrow> copied d s n m a = m a"
  by (simp add: copied_def)

section \<open>Properties\<close>

text \<open>
  When the two regions do not overlap, \<open>memcpy\<close> is the copy of \<open>n\<close> bytes and changes no other byte,
  on both of its paths: by words with the rest by bytes when both addresses are word-aligned, by bytes
  otherwise.
\<close>

theorem memcpy_copies:
  assumes "apart_mem dest src n" and "n < 4294967296"
  shows "memcpy dest src (of_nat n) m = (\<lambda>a. if unat (a - dest) < n then m (src + (a - dest)) else m a)"
  using memcpy_copied [OF assms, of m] by (simp add: copied_def)

lemma apart_far: "n \<le> unat (s - d) \<Longrightarrow> n \<le> unat (d - s) \<Longrightarrow> apart_mem d s n"
  unfolding apart_mem_def
proof (intro allI impI)
  fix x assume far: "n \<le> unat (s - d)" "n \<le> unat (d - s)" and x: "unat (x - d) < n"
  define y t where "y = x - d" and "t = s - d"
  have "x - s = y - t" "d - s = - t" by (simp_all add: y_def t_def)
  moreover have "unat (- t) = (if unat t = 0 then 0 else 4294967296 - unat t)"
    using unat_sub_if' [of 0 t] by (auto simp: word_unat_eq_iff)
  ultimately show "n \<le> unat (x - s)" using far x u32_lt [of t]
    unfolding y_def [symmetric] t_def [symmetric] by (auto simp: unat_sub_if' split: if_splits)
qed

theorem memcpy_copies_witness:
  "memcpy 0x1000 0x2000 7 (\<lambda>a. ucast a) 0x1006 = 6 \<and> memcpy 0x1000 0x2001 7 (\<lambda>a. ucast a) 0x1007 = 7"
proof -
  have "memcpy 0x1000 0x2000 (of_nat 7) (\<lambda>a. ucast a) 0x1006 = 6"
    by (subst memcpy_copies) (simp_all add: apart_far)
  moreover have "memcpy 0x1000 0x2001 (of_nat 7) (\<lambda>a. ucast a) 0x1007 = 7"
    by (subst memcpy_copies) (simp_all add: apart_far)
  ultimately show ?thesis by simp
qed

text \<open>
  \<open>strcat\<close> returns; then the destination holds the two strings one after the other, and no byte
  outside the place of the second string and its terminator has changed.
\<close>

theorem strcat_appends:
  assumes ds: "cstring m dest ds" and cs: "cstring m src cs"
    and ap: "apart_mem (dest + of_nat (length ds)) src (Suc (length cs))"
    and n: "length ds + length cs < 4294967295"
  shows "\<exists>m'. strcat dest src m = Some m' \<and> cstring m' dest (ds @ cs) \<and> strlen m' dest = Some (of_nat (length (ds @ cs))) \<and>
    (\<forall>a. Suc (length cs) \<le> unat (a - (dest + of_nat (length ds))) \<longrightarrow> m' a = m a)"
proof -
  let ?e = "dest + of_nat (length ds)"
  let ?m = "copied ?e src (Suc (length cs)) m"
  have eq: "strcat dest src m = Some ?m" using strcat_spec [OF ds] strcpy_copied [OF cs ap] n by simp
  have tail: "cstring ?m ?e cs" by (rule copied_cstring [OF cs]) (use n in simp)
  have keep: "?m (dest + of_nat i) = m (dest + of_nat i)" if "i < length ds" for i
  proof (rule copied_outside)
    have "dest + of_nat i - ?e = of_nat i - of_nat (length ds)" by simp
    also have "unat \<dots> = i + 4294967296 - length ds"
      using that n by (simp add: unat_sub_if' unat_small del: of_nat_diff)
    finally show "Suc (length cs) \<le> unat (dest + of_nat i - ?e)" using n that by simp
  qed
  have "cstring ?m dest (ds @ cs)" unfolding cstring_iff
  proof (intro conjI allI impI)
    fix i assume i: "i < length (ds @ cs)"
    have "?m (dest + of_nat i) = (ds @ cs) ! i \<and> (ds @ cs) ! i \<noteq> 0"
    proof (cases "i < length ds")
      case True
      then show ?thesis using keep ds unfolding cstring_iff by (simp add: nth_append)
    next
      case False
      define j where "j = i - length ds"
      have "i = length ds + j" "j < length cs" using False i by (auto simp: j_def)
      then show ?thesis using tail unfolding cstring_iff by (simp add: nth_append add.assoc)
    qed
    then show "?m (dest + of_nat i) = (ds @ cs) ! i" "(ds @ cs) ! i \<noteq> 0" by simp_all
  next
    show "?m (dest + of_nat (length (ds @ cs))) = 0" using tail unfolding cstring_iff by (simp add: add.assoc)
  qed
  then show ?thesis using eq strlen_spec copied_outside by blast
qed

theorem strcat_appends_witness:
  "\<exists>m'. strcat 16 32 ((\<lambda>_. 0)(16 := 97, 17 := 98, 32 := 99)) = Some m' \<and> cstring m' 16 [97, 98, 99]"
  using strcat_appends [of "(\<lambda>_. 0)(16 := 97, 17 := 98, 32 := 99)" 16 "[97, 98]" 32 "[99]"]
  by (auto simp: apart_far)

text \<open>
  \<open>strcmp\<close> returns on two terminated strings; it returns zero exactly when they are equal and a
  negative number exactly when the first is before the second in the order of their unsigned bytes.
\<close>

theorem strcmp_orders:
  assumes "cstring m str1 xs" and "cstring m str2 ys"
  shows "\<exists>r. strcmp m str1 str2 = Some r \<and> (r = 0 \<longleftrightarrow> xs = ys) \<and> (r < 0 \<longleftrightarrow> str_less xs ys)"
  using assms by (rule strcmp_spec)

theorem strcmp_orders_witness:
  "\<exists>r. strcmp ((\<lambda>_. 0)(1 := 97, 8 := 200)) 1 8 = Some r \<and> r < 0"
  using strcmp_orders [of "(\<lambda>_. 0)(1 := 97, 8 := 200)" 1 "[97]" 8 "[200]"] by auto

end
