(* ===== verification/Ports.thy ===== *)
theory Ports
  imports Cstring "HOL-Library.Monad_Syntax"
begin

text \<open>
  The port instructions and the interrupt flag of \<open>include/common.h\<close>, the table of interrupt handlers of
  \<open>kernel/isr.c\<close> and the interrupt controller of \<open>drivers/pic.c\<close>. The hardware behind the ports is a
  parameter: \<open>env tr port\<close> is the byte that the port delivers after the accesses \<open>tr\<close> (latest last), so
  a device may answer differently at every access. A state that talks to ports carries the accesses done
  so far and the interrupt flag.
\<close>

datatype io_event = Out u16 u8 | In u16 u8

type_synonym ports = "io_event list \<Rightarrow> u16 \<Rightarrow> u8"

text \<open>The functions whose addresses the code stores in \<open>intr_handler_table\<close>; an empty entry is \<open>NULL\<close>.\<close>

datatype intr_handler = Page_fault | Clk_intr | Uart_intr

record cpu =
  iflag :: bool
  trace :: "io_event list"
  intr_handler_table :: "intr_handler option list"

definition outb :: "u16 \<Rightarrow> u8 \<Rightarrow> 'a cpu_scheme \<Rightarrow> 'a cpu_scheme" where
  "outb port val w = w\<lparr>trace := trace w @ [Out port val]\<rparr>"

definition inb :: "ports \<Rightarrow> u16 \<Rightarrow> 'a cpu_scheme \<Rightarrow> u8 \<times> 'a cpu_scheme" where
  "inb env port w = (let ret = env (trace w) port in (ret, w\<lparr>trace := trace w @ [In port ret]\<rparr>))"

definition cli :: "'a cpu_scheme \<Rightarrow> 'a cpu_scheme" where
  "cli w = w\<lparr>iflag := False\<rparr>"

definition sti :: "'a cpu_scheme \<Rightarrow> 'a cpu_scheme" where
  "sti w = w\<lparr>iflag := True\<rparr>"

definition register_intr_handler :: "u8 \<Rightarrow> intr_handler \<Rightarrow> 'a cpu_scheme \<Rightarrow> 'a cpu_scheme" where
  "register_intr_handler idx handler w =
    w\<lparr>intr_handler_table := (intr_handler_table w)[unat idx := Some handler]\<rparr>"

definition pic_init :: "'a cpu_scheme \<Rightarrow> 'a cpu_scheme" where
  "pic_init w =
    (let w = outb 0x20 0x11 w; w = outb 0xA0 0x11 w;
         w = outb 0x21 0x20 w; w = outb 0xA1 0x28 w;
         w = outb 0x21 0x04 w; w = outb 0xA1 0x02 w;
         w = outb 0x21 0x01 w; w = outb 0xA1 0x01 w;
         w = outb 0x21 0x00 w
     in outb 0xA1 0x00 w)"

definition clear_irq :: "u32 \<Rightarrow> 'a cpu_scheme \<Rightarrow> 'a cpu_scheme" where
  "clear_irq intr_no w =
    (let w = (if intr_no \<ge> 40 then outb 0xA0 0x20 w else w) in outb 0x20 0x20 w)"

lemma cpu_simps [simp]:
  "trace (outb p v w) = trace w @ [Out p v]" "iflag (outb p v w) = iflag w"
  "trace (cli w) = trace w" "iflag (cli w) = False"
  "trace (sti w) = trace w" "iflag (sti w) = True"
  "fst (inb env p w) = env (trace w) p" "trace (snd (inb env p w)) = trace w @ [In p (env (trace w) p)]"
  "iflag (snd (inb env p w)) = iflag w"
  by (simp_all add: outb_def cli_def sti_def inb_def Let_def)

text \<open>The bytes written to one port, in order.\<close>

fun outs_to :: "u16 \<Rightarrow> io_event list \<Rightarrow> u8 list" where
  "outs_to p [] = []"
| "outs_to p (Out q v # tr) = (if q = p then v # outs_to p tr else outs_to p tr)"
| "outs_to p (In q v # tr) = outs_to p tr"

lemma outs_to_append [simp]: "outs_to p (tr @ tr') = outs_to p tr @ outs_to p tr'"
  by (induction p tr rule: outs_to.induct) auto

end
