(* ===== verification/Console.thy ===== *)
theory Console
  imports Ports
begin

text \<open>
  The text console \<open>drivers/console.c\<close>: the cells of the video memory, the cursor and its two registers in
  the video controller. A store past the \<open>CON_ROWS\<close> times \<open>CON_COLS\<close> cells of the screen is \<^term>\<open>None\<close>.
  A \<open>char\<close> is signed: the comparison with the space leaves out the bytes from 128 on.

  \<open>paint\<close> is what a string with colour escapes is to show: its characters with their colours.
\<close>

section \<open>The code\<close>

definition CON_ROWS :: nat where "CON_ROWS = 25"
definition CON_COLS :: nat where "CON_COLS = 80"

type_synonym real_color = u32

definition rc_black :: real_color where "rc_black = 0"
definition rc_white :: real_color where "rc_white = 15"

record con_world = cpu +
  video_memory :: "u16 list"
  cursor_x :: u8
  cursor_y :: u8

definition move_cursor :: "'a con_world_scheme \<Rightarrow> 'a con_world_scheme" where
  "move_cursor w =
    (let cursor_location = (ucast (cursor_y w) * of_nat CON_COLS + ucast (cursor_x w) :: u16);
         w = outb 0x3D4 14 w;
         w = outb 0x3D5 (ucast (drop_bit 8 cursor_location)) w;
         w = outb 0x3D4 15 w
     in outb 0x3D5 (ucast cursor_location) w)"

definition blank :: u16 where
  "blank = (let attribute_byte = (push_bit 4 0 OR (15 AND 0x0F) :: u8) in 0x20 OR push_bit 8 (ucast attribute_byte))"

definition scroll :: "'a con_world_scheme \<Rightarrow> 'a con_world_scheme" where
  "scroll w =
    (if unat (cursor_y w) \<ge> CON_ROWS then
       let vm = fold (\<lambda>i vm. vm[i := vm ! (i + CON_COLS)]) [0..<(CON_ROWS - 1) * CON_COLS] (video_memory w);
           vm = fold (\<lambda>i vm. vm[i := blank]) [(CON_ROWS - 1) * CON_COLS..<CON_ROWS * CON_COLS] vm
       in w\<lparr>video_memory := vm, cursor_y := of_nat (CON_ROWS - 1)\<rparr>
     else w)"

definition console_clear :: "'a con_world_scheme \<Rightarrow> 'a con_world_scheme" where
  "console_clear w =
    move_cursor (w\<lparr>video_memory := fold (\<lambda>i vm. vm[i := blank]) [0..<CON_ROWS * CON_COLS] (video_memory w),
      cursor_x := 0, cursor_y := 0\<rparr>)"

definition cputc_put :: "u8 \<Rightarrow> u16 \<Rightarrow> 'a con_world_scheme \<Rightarrow> 'a con_world_scheme option" where
  "cputc_put c attribute w =
    (let i = unat (cursor_y w) * CON_COLS + unat (cursor_x w)
     in if i < length (video_memory w)
        then Some (w\<lparr>video_memory := (video_memory w)[i := ucast c OR attribute], cursor_x := cursor_x w + 1\<rparr>)
        else None)"

definition cputc :: "u8 \<Rightarrow> real_color \<Rightarrow> real_color \<Rightarrow> 'a con_world_scheme \<Rightarrow> 'a con_world_scheme option" where
  "cputc c back fore w =
    (let back_color = (ucast back :: u8);
         fore_color = (ucast fore :: u8);
         attribute_byte = push_bit 4 back_color OR (fore_color AND 0x0F);
         attribute = push_bit 8 (ucast attribute_byte)
     in do {
       w \<leftarrow> (if c = 0x08 \<and> cursor_x w \<noteq> 0 then Some (w\<lparr>cursor_x := cursor_x w - 1\<rparr>)
            else if c = 0x09 then Some (w\<lparr>cursor_x := (cursor_x w + 4) AND NOT 3\<rparr>)
            else if c = 13 then Some (w\<lparr>cursor_x := 0\<rparr>)
            else if c = 10 then Some (w\<lparr>cursor_x := 0, cursor_y := cursor_y w + 1\<rparr>)
            else if sint c \<ge> 32 then cputc_put c attribute w
            else Some w);
       let w = (if unat (cursor_x w) \<ge> CON_COLS then w\<lparr>cursor_x := 0, cursor_y := cursor_y w + 1\<rparr> else w);
       Some (move_cursor (scroll w))
     })"

definition color_digit :: "u8 \<Rightarrow> bool" where
  "color_digit c \<longleftrightarrow> 48 \<le> sint c \<and> sint c \<le> 57"

partial_function (option) scan_number :: "mem \<Rightarrow> u32 \<Rightarrow> int \<Rightarrow> (u32 \<times> int) option" where
  "scan_number m cstr n =
    (if color_digit (m cstr) then scan_number m (cstr + 1) (n * 10 + sint (m cstr) - 48) else Some (cstr, n))"

definition scan_color :: "mem \<Rightarrow> u32 \<Rightarrow> (real_color \<times> u32) option" where
  "scan_color m cstr =
    (let white = rc_white; tmp = cstr
     in if m cstr = 0 \<or> m cstr \<noteq> 91 then Some (white, cstr)
        else do {
          (cstr, n) \<leftarrow> scan_number m (cstr + 1) 0;
          if m cstr = 0 \<or> m cstr \<noteq> 109 then Some (white, tmp)
          else let cstr = cstr + 1
               in if 30 \<le> n \<and> n \<le> 45 then Some (of_int (n - 30), cstr) else Some (white, cstr)
        })"

partial_function (option) cputs_escapes :: "mem \<Rightarrow> u32 \<Rightarrow> real_color \<Rightarrow> (real_color \<times> u32) option" where
  "cputs_escapes m str fore =
    (if m str = 27 then do { (fore, str) \<leftarrow> scan_color m (str + 1); cputs_escapes m str fore }
     else Some (fore, str))"

partial_function (option) cputs_loop ::
  "mem \<Rightarrow> u32 \<Rightarrow> real_color \<Rightarrow> 'a con_world_scheme \<Rightarrow> 'a con_world_scheme option" where
  "cputs_loop m str fore w =
    (if m str \<noteq> 0 then do {
       (fore, str) \<leftarrow> cputs_escapes m str fore;
       w \<leftarrow> cputc (m str) rc_black fore w;
       cputs_loop m (str + 1) fore w
     } else Some w)"

definition cputs :: "mem \<Rightarrow> u32 \<Rightarrow> 'a con_world_scheme \<Rightarrow> 'a con_world_scheme option" where
  "cputs m str w = cputs_loop m str rc_white w"

section \<open>The screen\<close>

definition con_ok :: "'a con_world_scheme \<Rightarrow> bool" where
  "con_ok w \<longleftrightarrow> length (video_memory w) = 2000 \<and> unat (cursor_x w) < 80 \<and> unat (cursor_y w) < 25"

text \<open>The first \<open>k\<close> turns of a loop over the cells.\<close>

lemma fill_cells: "n \<le> length vm \<Longrightarrow> k \<le> n \<Longrightarrow> fold (\<lambda>i vm. vm[i := b]) [k..<n] vm = take k vm @ replicate (n - k) b @ drop n vm"
proof (induction n)
  case (Suc n)
  show ?case
  proof (cases "k = Suc n")
    case False
    then have "fold (\<lambda>i vm. vm[i := b]) [k..<Suc n] vm = (take k vm @ replicate (n - k) b @ drop n vm)[n := b]"
      using Suc by simp
    then show ?thesis using Suc.prems False
      by (simp add: list_update_append Cons_nth_drop_Suc [symmetric] Suc_diff_le replicate_app_Cons_same)
  qed simp
qed simp

lemma shift_cells:
  "n + d \<le> length vm \<Longrightarrow> 0 < d \<Longrightarrow> fold (\<lambda>i vm. vm[i := vm ! (i + d)]) [0..<n] vm = take n (drop d vm) @ drop n vm"
proof (induction n)
  case (Suc n)
  let ?t = "take n (drop d vm)"
  have "fold (\<lambda>i vm. vm[i := vm ! (i + d)]) [0..<Suc n] vm = (?t @ drop n vm)[n := (?t @ drop n vm) ! (n + d)]"
    using Suc by simp
  also have "(?t @ drop n vm) ! (n + d) = vm ! (n + d)" using Suc.prems by (simp add: nth_append)
  also have "(?t @ drop n vm)[n := vm ! (n + d)] = ?t @ vm ! (n + d) # drop (Suc n) vm"
    using Suc.prems by (simp add: list_update_append Cons_nth_drop_Suc [symmetric])
  also have "\<dots> = take (Suc n) (drop d vm) @ drop (Suc n) vm"
    using Suc.prems by (simp add: take_Suc_conv_app_nth add.commute)
  finally show ?case .
qed simp

lemma scroll_screen:
  assumes "length (video_memory w) = 2000"
  shows "scroll w = (if unat (cursor_y w) \<ge> 25
    then w\<lparr>video_memory := drop 80 (video_memory w) @ replicate 80 blank, cursor_y := 24\<rparr> else w)"
proof -
  define n where "n = (1920 :: nat)"
  have n: "(CON_ROWS - 1) * CON_COLS = n" "CON_ROWS * CON_COLS = n + 80" "CON_COLS = 80" "length (video_memory w) = n + 80"
    using assms by (simp_all add: n_def CON_ROWS_def CON_COLS_def)
  have "fold (\<lambda>i vm. vm[i := blank]) [n..<n + 80] (fold (\<lambda>i vm. vm[i := vm ! (i + 80)]) [0..<n] (video_memory w))
      = drop 80 (video_memory w) @ replicate 80 blank"
    using n(4) by (simp add: shift_cells fill_cells)
  then show ?thesis unfolding scroll_def n(1,2) Let_def unfolding n(3) by (simp add: CON_ROWS_def)
qed

lemma con_cpu_simps [simp]:
  "video_memory (outb p v w) = video_memory w" "cursor_x (outb p v w) = cursor_x w" "cursor_y (outb p v w) = cursor_y w"
  by (simp_all add: outb_def)

lemma move_cursor_simps [simp]:
  "video_memory (move_cursor w) = video_memory w" "cursor_x (move_cursor w) = cursor_x w" "cursor_y (move_cursor w) = cursor_y w"
  by (simp_all add: move_cursor_def Let_def)


text \<open>The cell a byte is shown in: the byte with the two colours in the high half.\<close>

definition cell :: "u8 \<Rightarrow> real_color \<Rightarrow> real_color \<Rightarrow> u16" where
  "cell c back fore = ucast c OR push_bit 8 (ucast (push_bit 4 (ucast back) OR (ucast fore AND 0x0F) :: u8))"

text \<open>The screen after the cursor has gone to row \<open>y\<close>: at row 25 it moves up by a line.\<close>

definition at_row :: "nat \<Rightarrow> u16 list \<Rightarrow> u16 list \<times> nat" where
  "at_row y vm = (if y < 25 then (vm, y) else (drop 80 vm @ replicate 80 blank, 24))"

text \<open>One byte on a screen with the cursor in column \<open>x\<close> of row \<open>y\<close>.\<close>

definition show_byte :: "u8 \<Rightarrow> real_color \<Rightarrow> real_color \<Rightarrow> u16 list \<times> nat \<times> nat \<Rightarrow> u16 list \<times> nat \<times> nat" where
  "show_byte c back fore s =
    (let (vm, x, y) = s;
         (vm, x, y) = (if c = 8 then (vm, x - 1, y)
           else if c = 9 then (vm, 4 * (x div 4 + 1), y)
           else if c = 13 then (vm, 0, y)
           else if c = 10 then (vm, 0, y + 1)
           else if 32 \<le> unat c \<and> unat c < 128 then (vm[80 * y + x := cell c back fore], x + 1, y)
           else (vm, x, y));
         (x, y) = (if x < 80 then (x, y) else (0, y + 1));
         (vm, y) = at_row y vm
     in (vm, x, y))"

definition screen :: "'a con_world_scheme \<Rightarrow> u16 list \<times> nat \<times> nat" where
  "screen w = (video_memory w, unat (cursor_x w), unat (cursor_y w))"

text \<open>The cursor position the video controller was told last.\<close>

definition cursor_told :: "nat \<Rightarrow> nat \<Rightarrow> io_event list \<Rightarrow> bool" where
  "cursor_told x y tr \<longleftrightarrow> (\<exists>tr' h l. tr = tr' @ [Out 0x3D4 14, Out 0x3D5 h, Out 0x3D4 15, Out 0x3D5 l] \<and>
     256 * unat h + unat l = 80 * y + x)"

lemma sint_char: "32 \<le> sint (c :: u8) \<longleftrightarrow> 32 \<le> unat c \<and> unat c < 128"
  by (simp only: sint_char_ge) linarith

lemma color_digit_iff: "color_digit c \<longleftrightarrow> 48 \<le> unat c \<and> unat c \<le> 57"
proof -
  have "sint c \<le> 57 \<longleftrightarrow> \<not> 58 \<le> sint c" by linarith
  then show ?thesis unfolding color_digit_def by (auto simp add: sint_char_ge simp del: of_nat_unat)
qed

lemma and_not_mask: "w AND NOT (mask n) = push_bit n (drop_bit n (w :: 'a :: len word))"
  by (rule bit_word_eqI) (auto simp: bit_and_iff bit_not_iff bit_mask_iff bit_push_bit_iff bit_drop_bit_eq)

lemma tab_stop:
  assumes "unat (x :: u8) < 80"
  shows "unat ((x + 4) AND NOT 3) = 4 * (unat x div 4 + 1)"
proof -
  have m: "(3 :: u8) = mask 2" by (simp add: mask_eq_exp_minus_1)
  have u: "unat (x + 4) = unat x + 4" using assms by (simp add: unat_word_ariths)
  have "unat (drop_bit 2 (x + 4)) = (unat x + 4) div 4"
    by (simp only: unat_drop_bit_eq u) (simp add: drop_bit_eq_div)
  moreover have "(unat x + 4) div 4 = unat x div 4 + 1" by simp
  moreover have "push_bit 2 (drop_bit 2 (x + 4)) = 4 * drop_bit 2 (x + 4)" by (simp only: push_bit_eq_mult) simp
  ultimately show ?thesis unfolding m and_not_mask using assms by (simp only: unat_word_ariths) simp
qed

lemma told_after_move:
  assumes "unat (cursor_x w) < 80" and "unat (cursor_y w) < 25"
  shows "cursor_told (unat (cursor_x w)) (unat (cursor_y w)) (trace (move_cursor w))"
proof -
  define l where "l = (ucast (cursor_y w) * of_nat CON_COLS + ucast (cursor_x w) :: u16)"
  have "unat (ucast (cursor_y w) * 80 + ucast (cursor_x w) :: u16) = 80 * unat (cursor_y w) + unat (cursor_x w)"
    using assms by (simp add: unat_word_ariths unat_ucast_up)
  then have ul: "unat l = 80 * unat (cursor_y w) + unat (cursor_x w)" by (simp add: l_def CON_COLS_def)
  have "unat (drop_bit 8 l) = unat l div 256" by (simp only: unat_drop_bit_eq) (simp add: drop_bit_eq_div)
  then have "unat (ucast (drop_bit 8 l) :: u8) = unat l div 256" and "unat (ucast l :: u8) = unat l mod 256"
    using assms ul by (simp_all add: unsigned_ucast_eq take_bit_eq_mod)
  then have "256 * unat (ucast (drop_bit 8 l) :: u8) + unat (ucast l :: u8) = unat l" by simp
  then show ?thesis unfolding cursor_told_def ul [symmetric] by (simp add: move_cursor_def Let_def l_def [symmetric])
qed

text \<open>The end of \<open>cputc\<close>: a full row is left, the screen scrolls, the controller is told.\<close>

definition settle :: "'a con_world_scheme \<Rightarrow> 'a con_world_scheme" where
  "settle w = move_cursor (scroll
    (if unat (cursor_x w) \<ge> CON_COLS then w\<lparr>cursor_x := 0, cursor_y := cursor_y w + 1\<rparr> else w))"

lemma settle_shows:
  assumes l: "length (video_memory w) = 2000" and x: "unat (cursor_x w) \<le> 80" and y: "unat (cursor_y w) \<le> 25"
    and xy: "unat (cursor_x w) = 80 \<longrightarrow> unat (cursor_y w) < 25"
  shows "con_ok (settle w) \<and> screen (settle w) =
      (let (x, y) = (if unat (cursor_x w) < 80 then (unat (cursor_x w), unat (cursor_y w)) else (0, unat (cursor_y w) + 1));
           (vm, y) = at_row y (video_memory w) in (vm, x, y)) \<and>
    cursor_told (unat (cursor_x (settle w))) (unat (cursor_y (settle w))) (trace (settle w))"
proof -
  let ?w = "if unat (cursor_x w) \<ge> CON_COLS then w\<lparr>cursor_x := 0, cursor_y := cursor_y w + 1\<rparr> else w"
  have l': "length (video_memory ?w) = 2000" using l by simp
  have y': "unat (cursor_y w + 1) = unat (cursor_y w) + 1" using y by (simp add: unat_word_ariths)
  have s: "con_ok (scroll ?w)" "screen (scroll ?w) =
      (let (x, y) = (if unat (cursor_x w) < 80 then (unat (cursor_x w), unat (cursor_y w)) else (0, unat (cursor_y w) + 1));
           (vm, y) = at_row y (video_memory w) in (vm, x, y))"
    unfolding scroll_screen [OF l'] using l x y y' xy
    by (auto simp: con_ok_def screen_def at_row_def CON_COLS_def)
  have "cursor_told (unat (cursor_x (scroll ?w))) (unat (cursor_y (scroll ?w))) (trace (move_cursor (scroll ?w)))"
    using s(1) by (intro told_after_move) (simp_all add: con_ok_def)
  then show ?thesis using s unfolding settle_def by (simp add: con_ok_def screen_def)
qed

lemma cputc_shows:
  assumes ok: "con_ok w"
  shows "\<exists>w'. cputc c back fore w = Some w' \<and> con_ok w' \<and> screen w' = show_byte c back fore (screen w) \<and>
    cursor_told (unat (cursor_x w')) (unat (cursor_y w')) (trace w')"
proof -
  let ?x = "unat (cursor_x w)" and ?y = "unat (cursor_y w)"
  have l: "length (video_memory w) = 2000" and x: "?x < 80" and y: "?y < 25" using ok by (simp_all add: con_ok_def)
  have x1: "unat (cursor_x w + 1) = ?x + 1" using x by (simp add: unat_word_ariths)
  have y1: "unat (cursor_y w + 1) = ?y + 1" using y by (simp add: unat_word_ariths)
  consider (bs) "c = 8 \<and> cursor_x w \<noteq> 0" | (bs0) "c = 8 \<and> cursor_x w = 0" | (tab) "c = 9" | (cr) "c = 13" | (lf) "c = 10"
    | (char) "c \<notin> {8, 9, 10, 13}" "32 \<le> unat c \<and> unat c < 128" | (other) "c \<notin> {8, 9, 10, 13}" "\<not> (32 \<le> unat c \<and> unat c < 128)"
    by blast
  then show ?thesis
  proof cases
    case bs
    let ?w = "w\<lparr>cursor_x := cursor_x w - 1\<rparr>"
    have u: "unat (cursor_x w - 1) = ?x - 1" "?x - 1 < 80" using bs x by (simp_all add: unat_minus_one)
    have "cputc c back fore w = Some (settle ?w)" using bs by (simp add: cputc_def settle_def Let_def)
    then show ?thesis using settle_shows [of ?w] l x y u bs by (simp add: show_byte_def screen_def)
  next
    case bs0
    have "cputc c back fore w = Some (settle w)" using bs0 by (simp add: cputc_def settle_def Let_def)
    then show ?thesis using settle_shows [of w] l x y bs0 by (simp add: show_byte_def screen_def)
  next
    case tab
    let ?w = "w\<lparr>cursor_x := (cursor_x w + 4) AND NOT 3\<rparr>"
    have "cputc c back fore w = Some (settle ?w)" using tab unfolding cputc_def settle_def Let_def by simp
    moreover have "4 * (?x div 4 + 1) \<le> 80" using x by simp
    ultimately show ?thesis using settle_shows [of ?w] l x y tab tab_stop [OF x] by (simp add: show_byte_def screen_def)
  next
    case cr
    have "cputc c back fore w = Some (settle (w\<lparr>cursor_x := 0\<rparr>))" using cr by (simp add: cputc_def settle_def Let_def)
    then show ?thesis using settle_shows [of "w\<lparr>cursor_x := 0\<rparr>"] l x y cr by (simp add: show_byte_def screen_def)
  next
    case lf
    let ?w = "w\<lparr>cursor_x := 0, cursor_y := cursor_y w + 1\<rparr>"
    have "cputc c back fore w = Some (settle ?w)" using lf by (simp add: cputc_def settle_def Let_def)
    then show ?thesis using settle_shows [of ?w] l x y y1 lf by (simp add: show_byte_def screen_def)
  next
    case char
    let ?w = "w\<lparr>video_memory := (video_memory w)[80 * ?y + ?x := cell c back fore], cursor_x := cursor_x w + 1\<rparr>"
    have "cputc c back fore w = Some (settle ?w)" using char l x y
      by (simp add: cputc_def settle_def Let_def sint_char cputc_put_def cell_def CON_COLS_def mult.commute)
    then show ?thesis using settle_shows [of ?w] l x y x1 char by (simp add: show_byte_def screen_def)
  next
    case other
    have "\<not> 32 \<le> sint c" using other(2) sint_char by blast
    then have "cputc c back fore w = Some (settle w)" using other(1) by (simp add: cputc_def settle_def Let_def)
    then show ?thesis using settle_shows [of w] l x y other by (auto simp: show_byte_def screen_def)
  qed
qed

section \<open>Colours in strings\<close>

text \<open>The text after an escape: a colour number between \<open>[\<close> and \<open>m\<close>, or nothing that is understood.\<close>

definition read_color :: "u8 list \<Rightarrow> real_color \<times> u8 list" where
  "read_color cs =
    (if cs \<noteq> [] \<and> hd cs = 91 then
       let n = foldl (\<lambda>n d. n * 10 + sint d - 48) 0 (takeWhile color_digit (tl cs));
           r = dropWhile color_digit (tl cs)
       in if r \<noteq> [] \<and> hd r = 109 then (if 30 \<le> n \<and> n \<le> 45 then of_int (n - 30) else rc_white, tl r)
          else (rc_white, cs)
     else (rc_white, cs))"

lemma read_color_length: "length (snd (read_color cs)) \<le> length cs"
proof -
  have "length (dropWhile color_digit (tl cs)) \<le> length cs" using length_dropWhile_le [of color_digit "tl cs"] by simp
  then show ?thesis by (auto simp: read_color_def Let_def intro: le_trans [OF diff_le_self])
qed

text \<open>
  The characters of a string with their colours. A string that ends in an escape has no such reading: the
  code goes past its terminator.
\<close>

function paint :: "real_color \<Rightarrow> u8 list \<Rightarrow> (u8 \<times> real_color) list option" where
  "paint fore [] = Some []"
| "paint fore (c # cs) =
    (if c = 27 then (let (f, r) = read_color cs in if r = [] then None else paint f r)
     else map_option ((#) (c, fore)) (paint fore cs))"
  by pat_completeness auto

termination paint
proof (relation "measure (length \<circ> snd)")
  fix c :: u8 and cs rc f r assume "rc = read_color cs" "(f, r) = rc"
  then show "((f, r), (fore, c # cs)) \<in> measure (length \<circ> snd)" for fore :: real_color
    using read_color_length [of cs] by (metis comp_apply in_measure le_imp_less_Suc length_Cons snd_conv)
qed simp_all

lemma scan_number_spec:
  "cstring m a cs \<Longrightarrow> scan_number m a n =
     Some (a + of_nat (length (takeWhile color_digit cs)), foldl (\<lambda>n d. n * 10 + sint d - 48) n (takeWhile color_digit cs)) \<and>
   cstring m (a + of_nat (length (takeWhile color_digit cs))) (dropWhile color_digit cs)"
proof (induction cs arbitrary: a n)
  case Nil
  then have "\<not> color_digit (m a)" by (simp add: color_digit_def)
  then show ?case using Nil by (subst scan_number.simps) simp
next
  case (Cons c cs)
  show ?case
  proof (cases "color_digit c")
    case True
    then show ?thesis using Cons.prems Cons.IH [of "a + 1" "n * 10 + sint c - 48"]
      by (subst scan_number.simps) (simp add: add.assoc)
  next
    case False
    then show ?thesis using Cons.prems by (subst scan_number.simps) simp
  qed
qed

lemma scan_color_spec:
  assumes "cstring m a cs"
  shows "\<exists>a'. scan_color m a = Some (fst (read_color cs), a') \<and> cstring m a' (snd (read_color cs))"
proof (cases cs)
  case Nil
  then show ?thesis using assms by (simp add: scan_color_def read_color_def Let_def)
next
  case (Cons c ds)
  show ?thesis
  proof (cases "c = 91")
    case True
    have d: "cstring m (a + 1) ds" and c: "m a = 91" using assms Cons True by simp_all
    let ?a = "a + 1 + of_nat (length (takeWhile color_digit ds))" and ?r = "dropWhile color_digit ds"
    have n: "scan_number m (a + 1) 0 = Some (?a, foldl (\<lambda>n d. n * 10 + sint d - 48) 0 (takeWhile color_digit ds))"
      and r: "cstring m ?a ?r" using scan_number_spec [OF d] by simp_all
    show ?thesis
    proof (cases "?r \<noteq> [] \<and> hd ?r = 109")
      case True
      then have "m ?a = 109" "cstring m (?a + 1) (tl ?r)" using r by (cases ?r; simp)+
      then show ?thesis using c n True Cons \<open>c = 91\<close> by (auto simp: scan_color_def read_color_def Let_def)
    next
      case False
      then have "m ?a = 0 \<or> m ?a \<noteq> 109" using r by (cases ?r) auto
      then show ?thesis using c n False assms Cons \<open>c = 91\<close> by (auto simp: scan_color_def read_color_def Let_def)
    qed
  next
    case False
    then show ?thesis using assms Cons by (simp add: scan_color_def read_color_def Let_def)
  qed
qed

definition show_all :: "(u8 \<times> real_color) list \<Rightarrow> u16 list \<times> nat \<times> nat \<Rightarrow> u16 list \<times> nat \<times> nat" where
  "show_all ps s = fold (\<lambda>(c, fore). show_byte c rc_black fore) ps s"

lemma cputs_loop_skip:
  assumes "m a = 27" and "scan_color m (a + 1) = Some (f, a')" and "m a' \<noteq> 0"
  shows "cputs_loop m a fore w = cputs_loop m a' f w"
proof -
  have "cputs_escapes m a fore = cputs_escapes m a' f" using assms(1,2) by (subst cputs_escapes.simps) simp
  then have "(if m a \<noteq> 0 then do { (fore, str) \<leftarrow> cputs_escapes m a fore;
       w \<leftarrow> cputc (m str) rc_black fore w; cputs_loop m (str + 1) fore w } else Some w)
    = (if m a' \<noteq> 0 then do { (fore, str) \<leftarrow> cputs_escapes m a' f;
       w \<leftarrow> cputc (m str) rc_black fore w; cputs_loop m (str + 1) fore w } else Some w)"
    using assms(1,3) by simp
  then show ?thesis by (simp only: cputs_loop.simps [symmetric])
qed

lemma cputs_loop_shows:
  "cstring m a cs \<Longrightarrow> paint fore cs = Some ps \<Longrightarrow> con_ok w \<Longrightarrow>
    \<exists>w'. cputs_loop m a fore w = Some w' \<and> con_ok w' \<and> screen w' = show_all ps (screen w)"
proof (induction fore cs arbitrary: a w ps rule: paint.induct)
  case (1 fore)
  then show ?case by (subst cputs_loop.simps) (simp add: show_all_def)
next
  case (2 fore c cs)
  have c: "m a = c" "c \<noteq> 0" "cstring m (a + 1) cs" using 2(3) by simp_all
  show ?case
  proof (cases "c = 27")
    case True
    obtain a' where a': "scan_color m (a + 1) = Some (fst (read_color cs), a')" "cstring m a' (snd (read_color cs))"
      using scan_color_spec [OF c(3)] by blast
    have r: "snd (read_color cs) \<noteq> []" "paint (fst (read_color cs)) (snd (read_color cs)) = Some ps"
      using 2(4) True by (auto simp: Let_def case_prod_beta split: if_splits)
    have "m a' \<noteq> 0" using a'(2) r(1) by (cases "snd (read_color cs)") auto
    then have "cputs_loop m a fore w = cputs_loop m a' (fst (read_color cs)) w"
      using cputs_loop_skip [OF _ a'(1)] c(1) True by simp
    then show ?thesis using 2(1) [OF True refl _ r(1) a'(2) r(2) 2(5)] by simp
  next
    case False
    obtain qs where ps: "paint fore cs = Some qs" "ps = (c, fore) # qs" using 2(4) False by auto
    obtain w1 where w1: "cputc c rc_black fore w = Some w1" "con_ok w1" "screen w1 = show_byte c rc_black fore (screen w)"
      using cputc_shows [OF 2(5)] by blast
    have e: "cputs_escapes m a fore = Some (fore, a)" using c(1) False by (subst cputs_escapes.simps) simp
    have "cputs_loop m a fore w = cputs_loop m (a + 1) fore w1"
      using c(1,2) by (subst cputs_loop.simps) (simp add: e w1(1))
    then show ?thesis using 2(2) [OF False c(3) ps(1) w1(2)] by (simp add: ps(2) show_all_def w1(3))
  qed
qed

lemma console_clear_shows:
  assumes "length (video_memory w) = 2000"
  shows "con_ok (console_clear w)" "screen (console_clear w) = (replicate 2000 blank, 0, 0)"
proof -
  define n where "n = (2000 :: nat)"
  have "fold (\<lambda>i vm. vm[i := blank]) [0..<n] (video_memory w) = replicate n blank"
    using assms by (subst fill_cells) (simp_all add: n_def)
  moreover have "CON_ROWS * CON_COLS = n" by (simp add: n_def CON_ROWS_def CON_COLS_def)
  ultimately have v: "fold (\<lambda>i vm. vm[i := blank]) [0..<CON_ROWS * CON_COLS] (video_memory w) = replicate n blank" by simp
  show "con_ok (console_clear w)" "screen (console_clear w) = (replicate 2000 blank, 0, 0)"
    unfolding console_clear_def v by (simp_all add: con_ok_def screen_def n_def)
qed

section \<open>Properties\<close>

text \<open>
  C23. On a screen with the cursor inside, \<open>cputc\<close> stores only into cells of the screen, for every byte and
  every pair of colours; the cursor stays inside, the screen shows the byte (or its effect: backspace, tab,
  return, line feed, the wrap at column 80 and the scroll at row 25) and the video controller is told the
  cell of the cursor.
\<close>

theorem cputc_on_screen:
  assumes "con_ok w"
  shows "\<exists>w'. cputc c back fore w = Some w' \<and> con_ok w' \<and> screen w' = show_byte c back fore (screen w) \<and>
    cursor_told (unat (cursor_x w')) (unat (cursor_y w')) (trace w')"
  using assms by (rule cputc_shows)

definition con_boot :: con_world where
  "con_boot = \<lparr>iflag = True, trace = [], intr_handler_table = replicate 256 None,
     video_memory = replicate 2000 blank, cursor_x = 79, cursor_y = 24\<rparr>"

lemma con_boot_ok: "con_ok con_boot"
  by (simp add: con_ok_def con_boot_def)

theorem cputc_on_screen_witness:
  "\<exists>w'. cputc 65 0 15 con_boot = Some w' \<and> unat (cursor_x w') = 0 \<and> unat (cursor_y w') = 24 \<and>
    video_memory w' ! 1919 = 0x0F41"
proof -
  have "cell 65 0 15 = 0x0F41" by (simp add: cell_def)
  then have "snd (show_byte 65 0 15 (screen con_boot)) = (0, 24) \<and> fst (show_byte 65 0 15 (screen con_boot)) ! 1919 = 0x0F41"
    by (simp add: show_byte_def screen_def con_boot_def at_row_def nth_append)
  moreover obtain w' where w': "cputc 65 0 15 con_boot = Some w'" "screen w' = show_byte 65 0 15 (screen con_boot)"
    using cputc_on_screen [OF con_boot_ok] by blast
  ultimately have "snd (screen w') = (0, 24)" "fst (screen w') ! 1919 = 0x0F41" by metis+
  then show ?thesis using w'(1) by (simp add: screen_def)
qed

text \<open>
  \<open>cputs\<close> returns on every terminated string in which a character follows each colour escape, and the
  screen shows the characters in turn, black background, in the colour of the last escape before them:
  \<open>ESC [ n m\<close> with \<open>n\<close> from 30 to 45 is colour \<open>n - 30\<close>, any other number and any other text after the
  escape is white.
\<close>

theorem cputs_paints:
  assumes "cstring m str cs" and "paint rc_white cs = Some ps" and "con_ok w"
  shows "\<exists>w'. cputs m str w = Some w' \<and> con_ok w' \<and> screen w' = show_all ps (screen w)"
  using cputs_loop_shows [OF assms] by (simp add: cputs_def)

lemma paint_example: "paint rc_white [27, 91, 51, 52, 109, 72, 105] = Some [(72, 4), (105, 4)]"
  by (simp add: read_color_def color_digit_def)

theorem cputs_paints_witness:
  "\<exists>w'. cputs ((\<lambda>_. 0)(8 := 27, 9 := 91, 10 := 51, 11 := 52, 12 := 109, 13 := 72, 14 := 105)) 8 con_boot = Some w' \<and>
    screen w' = show_all [(72, 4), (105, 4)] (screen con_boot)"
proof -
  have "cstring ((\<lambda>_. 0)(8 := 27, 9 := 91, 10 := 51, 11 := 52, 12 := 109, 13 := 72, 14 := 105)) 8
      [27, 91, 51, 52, 109, 72, 105]" by simp
  then show ?thesis using cputs_paints [OF _ paint_example con_boot_ok] by blast
qed

end
