(* ===== verification/Uart.thy ===== *)
theory Uart
  imports Ports
begin

text \<open>
  The serial port driver \<open>drivers/uart.c\<close>: two ring buffers of \<open>BUF_SIZE\<close> bytes between the threads and
  the interrupt handler. An access past a buffer is \<^term>\<open>None\<close>.

  The specification is a transmitter with an unbounded queue: \<open>tx_put\<close> and \<open>tx_done\<close> on the bytes handed
  to the device, the bytes waiting and whether the device is busy. As long as at most \<open>BUF_SIZE\<close> bytes
  wait, the driver implements it, and the receive buffer is a queue of the received bytes.
\<close>

section \<open>The code\<close>

definition PORT :: u16 where "PORT = 0x03F8"

definition BUF_SIZE :: u16 where "BUF_SIZE = 1024"

record uart_t =
  base :: u16
  uart_id :: u8
  tx_on :: u8
  ilen :: u16
  ihead :: u16
  itail :: u16
  olen :: u16
  ohead :: u16
  otail :: u16
  ibuf :: "u8 list"
  obuf :: "u8 list"

text \<open>\<open>static uart_t uart\<close> beside the processor.\<close>

record uart_world = cpu +
  uart :: uart_t

definition buf_get :: "u8 list \<Rightarrow> u16 \<Rightarrow> u8 option" where
  "buf_get buf i = (if unat i < length buf then Some (buf ! unat i) else None)"

definition buf_put :: "u8 list \<Rightarrow> u16 \<Rightarrow> u8 \<Rightarrow> u8 list option" where
  "buf_put buf i c = (if unat i < length buf then Some (buf[unat i := c]) else None)"

definition uputc :: "ports \<Rightarrow> u8 \<Rightarrow> 'a uart_world_scheme \<Rightarrow> 'a uart_world_scheme option" where
  "uputc env c w =
    (let w = cli w; u = uart w
     in do {
       w \<leftarrow> (if tx_on u = 1 then do {
                buf \<leftarrow> buf_put (obuf u) (otail u) c;
                Some (w\<lparr>uart := u\<lparr>obuf := buf, otail := (otail u + 1) mod BUF_SIZE, olen := olen u + 1\<rparr>\<rparr>)
              }
              else let w = w\<lparr>uart := u\<lparr>tx_on := 1\<rparr>\<rparr>;
                       (v, w) = inb env (base u + 1) w;
                       w = outb (base u + 1) (v OR 0x02) w
                   in Some (outb (base u) c w));
       Some (sti w)
     })"

partial_function (option) uputs :: "ports \<Rightarrow> mem \<Rightarrow> u32 \<Rightarrow> 'a uart_world_scheme \<Rightarrow> 'a uart_world_scheme option" where
  "uputs env m str w =
    (if m str \<noteq> 0 then do { w \<leftarrow> uputc env (m str) w; uputs env m (str + 1) w } else Some w)"

definition uart_transmitted :: "ports \<Rightarrow> 'a uart_world_scheme \<Rightarrow> 'a uart_world_scheme option" where
  "uart_transmitted env w =
    (let u = uart w
     in if olen u = 0 then
          let w = w\<lparr>uart := u\<lparr>tx_on := 0\<rparr>\<rparr>;
              (v, w) = inb env (base u + 1) w
          in Some (outb (base u + 1) (v AND 0xFD) w)
        else do {
          c \<leftarrow> buf_get (obuf u) (ohead u);
          Some (outb (base u) c (w\<lparr>uart := u\<lparr>ohead := (ohead u + 1) mod BUF_SIZE, olen := olen u - 1\<rparr>\<rparr>))
        })"

definition uart_echo :: "ports \<Rightarrow> u8 \<Rightarrow> 'a uart_world_scheme \<Rightarrow> 'a uart_world_scheme option" where
  "uart_echo env c w =
    (if c = 13 then uputc env 10 w
     else if c = 127 then do { w \<leftarrow> uputc env 8 w; w \<leftarrow> uputc env 32 w; uputc env 8 w }
     else uputc env c w)"

definition uart_received :: "ports \<Rightarrow> 'a uart_world_scheme \<Rightarrow> 'a uart_world_scheme option" where
  "uart_received env w =
    (let (c, w) = inb env (base (uart w)) w; u = uart w
     in do {
       buf \<leftarrow> buf_put (ibuf u) (itail u) c;
       uart_echo env c (w\<lparr>uart := u\<lparr>ibuf := buf, itail := (itail u + 1) mod BUF_SIZE, ilen := ilen u + 1\<rparr>\<rparr>)
     })"

definition uart_intr :: "ports \<Rightarrow> 'a uart_world_scheme \<Rightarrow> 'a uart_world_scheme option" where
  "uart_intr env w =
    (let (iir, w) = inb env (base (uart w) + 2) w
     in do {
       w \<leftarrow> (if iir AND 0x06 = 0x02 then uart_transmitted env w else Some w);
       if iir AND 0x06 = 0x04 then uart_received env w else Some w
     })"

text \<open>
  The processor takes an interrupt only with the flag set; the gate clears it and \<open>iret\<close> restores it.
  A turn of the waiting loop of \<open>ugetc\<close> in which no interrupt comes changes nothing and is not a step.
\<close>

definition uart_irq :: "ports \<Rightarrow> 'a uart_world_scheme \<Rightarrow> 'a uart_world_scheme option" where
  "uart_irq env w =
    (if iflag w then do { w \<leftarrow> uart_intr env (cli w); Some (sti w) } else Some w)"

partial_function (option) ugetc_wait :: "ports \<Rightarrow> 'a uart_world_scheme \<Rightarrow> 'a uart_world_scheme option" where
  "ugetc_wait env w = (if ilen (uart w) = 0 then do { w \<leftarrow> uart_irq env w; ugetc_wait env w } else Some w)"

definition ugetc :: "ports \<Rightarrow> 'a uart_world_scheme \<Rightarrow> (u8 \<times> 'a uart_world_scheme) option" where
  "ugetc env w = do {
     w \<leftarrow> ugetc_wait env w;
     let w = cli w;
     let u = uart w;
     c \<leftarrow> buf_get (ibuf u) (ihead u);
     Some (c, sti (w\<lparr>uart := u\<lparr>ihead := (ihead u + 1) mod BUF_SIZE, ilen := ilen u - 1\<rparr>\<rparr>))
   }"

partial_function (option) ugets_loop ::
  "ports \<Rightarrow> u32 \<Rightarrow> u32 \<Rightarrow> 'a uart_world_scheme \<Rightarrow> mem \<Rightarrow> (u32 \<times> 'a uart_world_scheme \<times> mem) option" where
  "ugets_loop env str p w m = do {
     (c, w) \<leftarrow> ugetc env w;
     let m = m(p := c);
     if c \<noteq> 13 then ugets_loop env str (if str < p \<and> c = 127 then p - 1 else p + 1) w m
     else Some (p, w, m)
   }"

definition ugets :: "ports \<Rightarrow> u32 \<Rightarrow> 'a uart_world_scheme \<Rightarrow> mem \<Rightarrow> ('a uart_world_scheme \<times> mem) option" where
  "ugets env str w m = do {
     let b = base (uart w);
     let (v, w) = inb env (b + 1) w;
     (p, w, m) \<leftarrow> ugets_loop env str str (outb (b + 1) (v OR 0x01) w) m;
     let m = m(p := 0);
     let (v, w) = inb env (base (uart w) + 1) w;
     Some (outb (base (uart w) + 1) (v AND 0xFE) w, m)
   }"

definition uart_init :: "'a uart_world_scheme \<Rightarrow> 'a uart_world_scheme" where
  "uart_init w =
    (let w = w\<lparr>uart := (uart w)\<lparr>base := PORT, uart_id := 1, tx_on := 0, ilen := 0, ihead := 0, itail := 0,
                olen := 0, ohead := 0, otail := 0\<rparr>\<rparr>;
         b = base (uart w);
         w = outb (b + 1) 0x00 w;
         w = outb (b + 3) 0x80 w;
         w = outb b 0x30 w;
         w = outb (b + 1) 0x00 w;
         w = outb (b + 3) 0x03 w;
         w = outb (b + 1) 0x06 w;
         w = outb (b + 2) 0x01 w
     in register_intr_handler 36 Uart_intr w)"


declare buf_get_def [simp]

section \<open>Ring buffers\<close>

definition ring_ok :: "u8 list \<Rightarrow> u16 \<Rightarrow> u16 \<Rightarrow> u16 \<Rightarrow> bool" where
  "ring_ok buf head tail len \<longleftrightarrow> length buf = 1024 \<and> unat head < 1024 \<and> unat len \<le> 1024 \<and>
     unat tail = (unat head + unat len) mod 1024"

definition ring :: "u8 list \<Rightarrow> u16 \<Rightarrow> u16 \<Rightarrow> u8 list" where
  "ring buf head len = map (\<lambda>i. buf ! ((unat head + i) mod 1024)) [0..<unat len]"

lemma ring_length [simp]: "length (ring buf head len) = unat len"
  by (simp add: ring_def)

lemma ring_0 [simp]: "ring buf head 0 = []"
  by (simp add: ring_def)

lemma mod_1024: "(a :: nat) < 2048 \<Longrightarrow> a mod 1024 = (if a < 1024 then a else a - 1024)"
  by (simp add: mod_if)

lemma unat_next: "unat t < 1024 \<Longrightarrow> unat ((t + 1) mod BUF_SIZE) = (unat t + 1) mod 1024"
  by (simp add: BUF_SIZE_def unat_mod_distrib unat_word_ariths)

lemma ring_put:
  assumes ok: "ring_ok buf head tail len" and room: "unat len < 1024"
  shows "\<exists>buf'. buf_put buf tail c = Some buf' \<and> ring_ok buf' head ((tail + 1) mod BUF_SIZE) (len + 1) \<and>
    ring buf' head (len + 1) = ring buf head len @ [c]"
proof -
  let ?n = "unat len"
  have un: "unat (len + 1) = Suc ?n" using room by (simp add: unat_word_ariths)
  have t: "unat tail < 1024" "unat tail = (unat head + ?n) mod 1024" and h: "unat head < 1024" and lb: "length buf = 1024"
    using ok by (simp_all add: ring_ok_def)
  have ne: "unat tail \<noteq> (unat head + i) mod 1024" if "i < ?n" for i
    using that h room t(2) by (auto simp: mod_1024 split: if_splits)
  have "ring (buf[unat tail := c]) head (len + 1) = ring buf head len @ [c]"
    using ne t(1) lb by (simp add: ring_def un t(2) [symmetric])
  moreover have "ring_ok (buf[unat tail := c]) head ((tail + 1) mod BUF_SIZE) (len + 1)"
    using ok room t by (simp add: ring_ok_def un unat_next mod_Suc_eq)
  ultimately show ?thesis using t lb by (simp add: buf_put_def)
qed

lemma ring_get:
  assumes ok: "ring_ok buf head tail len" and ne: "len \<noteq> 0"
  shows "unat head < length buf" "ring_ok buf ((head + 1) mod BUF_SIZE) tail (len - 1)"
    "ring buf head len = buf ! unat head # ring buf ((head + 1) mod BUF_SIZE) (len - 1)"
proof -
  have un: "unat len = Suc (unat (len - 1))" using ne by (simp add: unat_minus_one unat_gt_0)
  have h: "unat head < 1024" using ok by (simp add: ring_ok_def)
  show "unat head < length buf" using ok by (simp add: ring_ok_def)
  show "ring_ok buf ((head + 1) mod BUF_SIZE) tail (len - 1)"
    using ok h by (simp add: ring_ok_def un unat_next mod_add_left_eq)
  show "ring buf head len = buf ! unat head # ring buf ((head + 1) mod BUF_SIZE) (len - 1)"
    unfolding ring_def un using h
    by (simp add: unat_next mod_simps upt_conv_Cons map_Suc_upt [symmetric] comp_def del: upt_Suc)
qed

section \<open>The specification\<close>

text \<open>
  The transmitter: the bytes handed to the line, the bytes that wait and whether a byte is under way;
  and the received bytes nobody has read yet.
\<close>

record line =
  sent :: "u8 list"
  waiting :: "u8 list"
  busy :: bool
  pending :: "u8 list"

definition line_put :: "line \<Rightarrow> u8 \<Rightarrow> line" where
  "line_put s c = (if busy s then s\<lparr>waiting := waiting s @ [c]\<rparr> else s\<lparr>sent := sent s @ [c], busy := True\<rparr>)"

definition line_done :: "line \<Rightarrow> line" where
  "line_done s = (case waiting s of [] \<Rightarrow> s\<lparr>busy := False\<rparr>
     | c # cs \<Rightarrow> s\<lparr>sent := sent s @ [c], waiting := cs\<rparr>)"

fun echo :: "u8 \<Rightarrow> u8 list" where
  "echo c = (if c = 13 then [10] else if c = 127 then [8, 32, 8] else [c])"

definition line_receive :: "u8 \<Rightarrow> line \<Rightarrow> line" where
  "line_receive c s = foldl line_put (s\<lparr>pending := pending s @ [c]\<rparr>) (echo c)"

text \<open>
  What goes out on the line: the bytes written to the data register while bit 7 of the line control
  register (DLAB) is clear; with the bit set the same port is the low byte of the rate divisor.
\<close>

fun dlab_after :: "bool \<Rightarrow> io_event list \<Rightarrow> bool" where
  "dlab_after d [] = d"
| "dlab_after d (Out p v # tr) = dlab_after (if p = PORT + 3 then bit v 7 else d) tr"
| "dlab_after d (In p v # tr) = dlab_after d tr"

fun line_bytes :: "bool \<Rightarrow> io_event list \<Rightarrow> u8 list" where
  "line_bytes d [] = []"
| "line_bytes d (Out p v # tr) =
    (if p = PORT \<and> \<not> d then v # line_bytes d tr else line_bytes (if p = PORT + 3 then bit v 7 else d) tr)"
| "line_bytes d (In p v # tr) = line_bytes d tr"

lemma dlab_after_append [simp]: "dlab_after d (tr @ tr') = dlab_after (dlab_after d tr) tr'"
  by (induction d tr rule: dlab_after.induct) auto

lemma line_bytes_append [simp]:
  "line_bytes d (tr @ tr') = line_bytes d tr @ line_bytes (dlab_after d tr) tr'"
  by (induction d tr rule: dlab_after.induct) (auto simp: PORT_def)

definition line_of :: "'a uart_world_scheme \<Rightarrow> line" where
  "line_of w = \<lparr>sent = line_bytes False (trace w), waiting = ring (obuf (uart w)) (ohead (uart w)) (olen (uart w)),
     busy = (tx_on (uart w) = 1), pending = ring (ibuf (uart w)) (ihead (uart w)) (ilen (uart w))\<rparr>"

definition uart_ok :: "'a uart_world_scheme \<Rightarrow> bool" where
  "uart_ok w \<longleftrightarrow> base (uart w) = PORT \<and> \<not> dlab_after False (trace w) \<and>
     ring_ok (obuf (uart w)) (ohead (uart w)) (otail (uart w)) (olen (uart w)) \<and>
     ring_ok (ibuf (uart w)) (ihead (uart w)) (itail (uart w)) (ilen (uart w)) \<and>
     (tx_on (uart w) = 1 \<or> olen (uart w) = 0)"

lemma uart_cpu_simps [simp]:
  "uart (outb p v w) = uart w" "uart (snd (inb env p w)) = uart w" "uart (cli w) = uart w" "uart (sti w) = uart w"
  by (simp_all add: outb_def inb_def cli_def sti_def Let_def)

lemma uart_ok_flags [simp]: "uart_ok (cli w) = uart_ok w" "uart_ok (sti w) = uart_ok w"
  "line_of (cli w) = line_of w" "line_of (sti w) = line_of w"
  by (simp_all add: uart_ok_def line_of_def)

section \<open>The driver implements the specification\<close>

definition put_room :: "nat \<Rightarrow> line \<Rightarrow> bool" where
  "put_room n s \<longleftrightarrow> length (waiting s) + n \<le> 1024"

lemma uputc_refines:
  assumes ok: "uart_ok w" and room: "put_room 1 (line_of w)"
  shows "\<exists>w'. uputc env c w = Some w' \<and> uart_ok w' \<and> line_of w' = line_put (line_of w) c"
proof (cases "tx_on (uart w) = 1")
  case True
  have "ring_ok (obuf (uart w)) (ohead (uart w)) (otail (uart w)) (olen (uart w))" "unat (olen (uart w)) < 1024"
    using ok room by (simp_all add: uart_ok_def put_room_def line_of_def)
  from ring_put [OF this, of c] obtain buf' where b: "buf_put (obuf (uart w)) (otail (uart w)) c = Some buf'"
    "ring_ok buf' (ohead (uart w)) ((otail (uart w) + 1) mod BUF_SIZE) (olen (uart w) + 1)"
    "ring buf' (ohead (uart w)) (olen (uart w) + 1) = ring (obuf (uart w)) (ohead (uart w)) (olen (uart w)) @ [c]"
    by auto
  show ?thesis using True ok b
    by (simp add: uputc_def Let_def uart_ok_def line_of_def line_put_def cli_def sti_def)
next
  case False
  then show ?thesis using ok
    by (auto simp: uputc_def Let_def uart_ok_def line_of_def line_put_def cli_def sti_def inb_def outb_def PORT_def)
qed

lemma transmitted_refines:
  assumes ok: "uart_ok w"
  shows "\<exists>w'. uart_transmitted env w = Some w' \<and> uart_ok w' \<and> line_of w' = line_done (line_of w)"
proof (cases "olen (uart w) = 0")
  case True
  then show ?thesis using ok
    by (simp add: uart_transmitted_def Let_def uart_ok_def line_of_def line_done_def inb_def outb_def PORT_def)
next
  case False
  have r: "ring_ok (obuf (uart w)) (ohead (uart w)) (otail (uart w)) (olen (uart w))" using ok by (simp add: uart_ok_def)
  show ?thesis using False ok ring_get [OF r False]
    by (simp add: uart_transmitted_def Let_def uart_ok_def line_of_def line_done_def outb_def PORT_def)
qed

lemma put_room_put: "put_room (Suc n) s \<Longrightarrow> put_room n (line_put s c)"
  by (simp add: put_room_def line_put_def)

lemma uart_echo_refines:
  assumes ok: "uart_ok w" and room: "put_room (length (echo c)) (line_of w)"
  shows "\<exists>w'. uart_echo env c w = Some w' \<and> uart_ok w' \<and> line_of w' = foldl line_put (line_of w) (echo c)"
proof (cases "c = 127")
  case True
  have r3: "put_room 3 (line_of w)" using room True by (simp add: numeral_3_eq_3)
  obtain w1 where w1: "uputc env 8 w = Some w1" "uart_ok w1" "line_of w1 = line_put (line_of w) 8"
    using uputc_refines [OF ok, of env 8] r3 by (auto simp: put_room_def)
  have r2: "put_room 2 (line_of w1)" using r3 put_room_put [of 2] by (simp add: w1 numeral_3_eq_3 numeral_2_eq_2)
  obtain w2 where w2: "uputc env 32 w1 = Some w2" "uart_ok w2" "line_of w2 = line_put (line_of w1) 32"
    using uputc_refines [OF w1(2), of env 32] r2 by (auto simp: put_room_def)
  have r1: "put_room 1 (line_of w2)" using r2 put_room_put [of 1] by (simp add: w2 numeral_2_eq_2)
  show ?thesis using uputc_refines [OF w2(2) r1, of env 8] True w1 w2 by (simp add: uart_echo_def)
next
  case False
  then show ?thesis using assms uputc_refines by (auto simp: uart_echo_def)
qed

lemma received_refines:
  assumes ok: "uart_ok w" and rx: "length (pending (line_of w)) < 1024"
    and room: "put_room (length (echo (env (trace w) PORT))) (line_of w)"
  shows "\<exists>w'. uart_received env w = Some w' \<and> uart_ok w' \<and> line_of w' = line_receive (env (trace w) PORT) (line_of w)"
proof -
  let ?c = "env (trace w) PORT" and ?u = "uart w"
  have "ring_ok (ibuf ?u) (ihead ?u) (itail ?u) (ilen ?u)" "unat (ilen ?u) < 1024"
    using ok rx by (simp_all add: uart_ok_def line_of_def)
  from ring_put [OF this, of ?c] obtain buf' where b: "buf_put (ibuf ?u) (itail ?u) ?c = Some buf'"
    "ring_ok buf' (ihead ?u) ((itail ?u + 1) mod BUF_SIZE) (ilen ?u + 1)"
    "ring buf' (ihead ?u) (ilen ?u + 1) = ring (ibuf ?u) (ihead ?u) (ilen ?u) @ [?c]" by auto
  let ?w = "(snd (inb env PORT w))\<lparr>uart := ?u\<lparr>ibuf := buf', itail := (itail ?u + 1) mod BUF_SIZE, ilen := ilen ?u + 1\<rparr>\<rparr>"
  have ok': "uart_ok ?w" using ok b by (simp add: uart_ok_def inb_def Let_def)
  have l: "line_of ?w = (line_of w)\<lparr>pending := pending (line_of w) @ [?c]\<rparr>"
    using b by (simp add: line_of_def inb_def Let_def)
  have "uart_received env w = uart_echo env ?c ?w"
    using ok b by (simp add: uart_received_def uart_ok_def inb_def Let_def)
  then show ?thesis using uart_echo_refines [OF ok', of ?c env] room
    by (simp add: l line_receive_def put_room_def)
qed

lemma uart_ok_in [simp]:
  "uart_ok (snd (inb env p w)) = uart_ok w" "line_of (snd (inb env p w)) = line_of w"
  by (simp_all add: uart_ok_def line_of_def)

lemma ugetc_refines:
  assumes ok: "uart_ok w" and p: "pending (line_of w) = c # cs"
  shows "\<exists>w'. ugetc env w = Some (c, w') \<and> uart_ok w' \<and> line_of w' = (line_of w)\<lparr>pending := cs\<rparr> \<and> trace w' = trace w"
proof -
  have r: "ring_ok (ibuf (uart w)) (ihead (uart w)) (itail (uart w)) (ilen (uart w))" using ok by (simp add: uart_ok_def)
  have ne: "ilen (uart w) \<noteq> 0" using p by (auto simp: line_of_def)
  have "ugetc_wait env w = Some w" using ne by (subst ugetc_wait.simps) simp
  then show ?thesis using ok p ring_get [OF r ne]
    by (simp add: ugetc_def Let_def uart_ok_def line_of_def cli_def sti_def)
qed

section \<open>Sequences of calls\<close>

text \<open>
  What threads and device do: a thread puts a byte, an interrupt arrives, a thread reads a byte that is
  there. \<open>event_of\<close> is the event of the specification the call stands for; what an interrupt is about the
  device tells through its ports.
\<close>

datatype uart_call = Put u8 | Irq | Get

fun uart_do :: "ports \<Rightarrow> uart_call \<Rightarrow> 'a uart_world_scheme \<Rightarrow> 'a uart_world_scheme option" where
  "uart_do env (Put c) w = uputc env c w"
| "uart_do env Irq w = uart_irq env w"
| "uart_do env Get w = map_option snd (ugetc env w)"

datatype line_event = Queued u8 | Done | Received u8 | Nothing | Read u8

fun event_of :: "ports \<Rightarrow> uart_call \<Rightarrow> 'a uart_world_scheme \<Rightarrow> line_event" where
  "event_of env (Put c) w = Queued c"
| "event_of env Irq w =
    (let iir = env (trace w) (PORT + 2)
     in if \<not> iflag w then Nothing else if iir AND 0x06 = 0x02 then Done
        else if iir AND 0x06 = 0x04 then Received (env (trace w @ [In (PORT + 2) iir]) PORT) else Nothing)"
| "event_of env Get w = Read (fst (the (ugetc env w)))"

fun line_do :: "line_event \<Rightarrow> line \<Rightarrow> line" where
  "line_do (Queued c) s = line_put s c"
| "line_do Done s = line_done s"
| "line_do (Received c) s = line_receive c s"
| "line_do Nothing s = s"
| "line_do (Read c) s = s\<lparr>pending := tl (pending s)\<rparr>"

fun room :: "uart_call \<Rightarrow> line \<Rightarrow> bool" where
  "room (Put c) s \<longleftrightarrow> put_room 1 s"
| "room Irq s \<longleftrightarrow> put_room 3 s \<and> length (pending s) < 1024"
| "room Get s \<longleftrightarrow> pending s \<noteq> []"

lemma uart_intr_refines:
  assumes ok: "uart_ok w" and r: "room Irq (line_of w)" and i: "iflag w"
  shows "\<exists>w'. uart_intr env (cli w) = Some w' \<and> uart_ok w' \<and> line_of w' = line_do (event_of env Irq w) (line_of w)"
proof -
  let ?iir = "env (trace w) (PORT + 2)"
  let ?w = "snd (inb env (PORT + 2) (cli w))"
  have ok': "uart_ok ?w" and b: "base (uart w) = PORT" using ok by (simp_all add: uart_ok_def)
  have rv: "put_room (length (echo c)) (line_of w)" for c using r by (simp add: put_room_def)
  have eq: "uart_intr env (cli w) = (if ?iir AND 0x06 = 0x02 then uart_transmitted env ?w
      else if ?iir AND 0x06 = 0x04 then uart_received env ?w else Some ?w)"
    by (cases "uart_transmitted env ?w") (simp_all add: uart_intr_def b inb_def Let_def)
  show ?thesis unfolding eq
    using transmitted_refines [OF ok', of env] received_refines [OF ok', of env] ok' i r rv
    by (auto simp: Let_def)
qed

lemma uart_call_refines:
  assumes ok: "uart_ok w" and r: "room call (line_of w)"
  shows "\<exists>w'. uart_do env call w = Some w' \<and> uart_ok w' \<and> line_of w' = line_do (event_of env call w) (line_of w)"
proof (cases call)
  case (Put c)
  then show ?thesis using uputc_refines [OF ok] r by simp
next
  case Irq
  show ?thesis
  proof (cases "iflag w")
    case True
    then show ?thesis using uart_intr_refines [OF ok, of env] r Irq by (auto simp: uart_irq_def)
  next
    case False
    then show ?thesis using ok Irq by (simp add: uart_irq_def)
  qed
next
  case Get
  then obtain c cs where p: "pending (line_of w) = c # cs" using r by (cases "pending (line_of w)") auto
  show ?thesis using ugetc_refines [OF ok p, of env] Get p by auto
qed

text \<open>A run of calls, its events and the condition that no buffer overflows on the way.\<close>

fun uart_run :: "ports \<Rightarrow> uart_call list \<Rightarrow> 'a uart_world_scheme \<Rightarrow> 'a uart_world_scheme option" where
  "uart_run env [] w = Some w"
| "uart_run env (call # calls) w = do { w \<leftarrow> uart_do env call w; uart_run env calls w }"

fun uart_events :: "ports \<Rightarrow> uart_call list \<Rightarrow> 'a uart_world_scheme \<Rightarrow> line_event list" where
  "uart_events env [] w = []"
| "uart_events env (call # calls) w = event_of env call w #
    (case uart_do env call w of None \<Rightarrow> [] | Some w' \<Rightarrow> uart_events env calls w')"

fun fits :: "ports \<Rightarrow> uart_call list \<Rightarrow> 'a uart_world_scheme \<Rightarrow> bool" where
  "fits env [] w \<longleftrightarrow> True"
| "fits env (call # calls) w \<longleftrightarrow> room call (line_of w) \<and>
    (case uart_do env call w of None \<Rightarrow> True | Some w' \<Rightarrow> fits env calls w')"

lemma uart_run_refines:
  "uart_ok w \<Longrightarrow> fits env calls w \<Longrightarrow>
    \<exists>w'. uart_run env calls w = Some w' \<and> uart_ok w' \<and> line_of w' = fold line_do (uart_events env calls w) (line_of w)"
proof (induction calls arbitrary: w)
  case (Cons call calls)
  have "room call (line_of w)" using Cons.prems(2) by simp
  with Cons.prems(1) obtain w' where w': "uart_do env call w = Some w'" "uart_ok w'"
    "line_of w' = line_do (event_of env call w) (line_of w)" using uart_call_refines by blast
  have "fits env calls w'" using Cons.prems(2) w'(1) by simp
  from Cons.IH [OF w'(2) this] show ?case by (simp add: w'(1) w'(3) [symmetric])
qed simp

section \<open>Nothing is lost\<close>

fun queued_by :: "line_event \<Rightarrow> u8 list" where
  "queued_by (Queued c) = [c]"
| "queued_by (Received c) = echo c"
| "queued_by _ = []"

definition line_ok :: "line \<Rightarrow> bool" where
  "line_ok s \<longleftrightarrow> (busy s \<or> waiting s = [])"

lemma line_put_ok: "line_ok s \<Longrightarrow> line_ok (line_put s c) \<and>
    sent (line_put s c) @ waiting (line_put s c) = sent s @ waiting s @ [c]"
  by (auto simp: line_put_def line_ok_def)

lemma line_puts_ok: "line_ok s \<Longrightarrow> line_ok (foldl line_put s cs) \<and>
    sent (foldl line_put s cs) @ waiting (foldl line_put s cs) = sent s @ waiting s @ cs"
proof (induction cs arbitrary: s)
  case (Cons c cs)
  have "line_ok (line_put s c)" "sent (line_put s c) @ waiting (line_put s c) = sent s @ waiting s @ [c]"
    using line_put_ok [OF Cons.prems] by blast+
  then show ?case using Cons.IH [of "line_put s c"] by (metis append.assoc append_Cons append_Nil foldl_Cons)
qed simp

lemma line_do_bytes:
  assumes "line_ok s"
  shows "line_ok (line_do e s) \<and> sent (line_do e s) @ waiting (line_do e s) = sent s @ waiting s @ queued_by e"
proof (cases e)
  case (Received c)
  have "line_ok (s\<lparr>pending := pending s @ [c]\<rparr>)" using assms by (simp add: line_ok_def)
  from line_puts_ok [OF this, of "echo c"] show ?thesis by (simp add: Received line_receive_def del: echo.simps)
next
  case Done
  then show ?thesis using assms by (auto simp: line_done_def line_ok_def split: list.splits)
qed (use assms line_put_ok in \<open>auto simp: line_ok_def\<close>)

lemma line_run_bytes:
  "line_ok s \<Longrightarrow> sent (fold line_do es s) @ waiting (fold line_do es s) = sent s @ waiting s @ concat (map queued_by es)"
proof (induction es arbitrary: s)
  case (Cons e es)
  then show ?case using line_do_bytes [OF Cons.prems, of e] by (metis append.assoc concat.simps(2) fold_simps(2) list.simps(9))
qed simp

lemma line_of_ok: "uart_ok w \<Longrightarrow> line_ok (line_of w)"
  by (auto simp: uart_ok_def line_of_def line_ok_def)

lemma uart_init_ok:
  assumes "length (ibuf (uart w)) = 1024" and "length (obuf (uart w)) = 1024"
  shows "uart_ok (uart_init w)" "waiting (line_of (uart_init w)) = []" "pending (line_of (uart_init w)) = []"
    "intr_handler_table (uart_init w) = (intr_handler_table w)[36 := Some Uart_intr]"
  using assms
  by (simp_all add: uart_init_def Let_def uart_ok_def line_of_def register_intr_handler_def PORT_def outb_def ring_ok_def)

section \<open>Reading a line\<close>

text \<open>
  The line as it is edited: a DEL takes the last byte back. At the start of the line there is nothing to
  take back and the code keeps the DEL itself as a character.
\<close>

definition edit :: "u8 list \<Rightarrow> u8 \<Rightarrow> u8 list" where
  "edit line c = (if c = 127 \<and> line \<noteq> [] then butlast line else line @ [c])"

definition holds :: "mem \<Rightarrow> u32 \<Rightarrow> u8 list \<Rightarrow> bool" where
  "holds m a cs \<longleftrightarrow> (\<forall>i<length cs. m (a + of_nat i) = cs ! i)"

lemma holds_put: "holds m a cs \<Longrightarrow> length cs < 4294967296 \<Longrightarrow> holds (m(a + of_nat (length cs) := c)) a (cs @ [c])"
  unfolding holds_def by (auto simp: nth_append less_Suc_eq of_nat_eq_word)

lemma holds_prefix: "holds m a (cs @ ds) \<Longrightarrow> holds m a cs"
  unfolding holds_def by (auto simp: nth_append)

lemma holds_butlast: "holds m a cs \<Longrightarrow> holds m a (butlast cs)"
  by (cases cs rule: rev_cases) (auto dest: holds_prefix)

lemma edit_length: "length (edit ln c) \<le> Suc (length ln)"
  by (auto simp: edit_def)

lemma edits_length: "length (foldl edit ln xs) \<le> length ln + length xs"
proof (induction xs arbitrary: ln)
  case (Cons c xs)
  have "length (foldl edit (edit ln c) xs) \<le> length (edit ln c) + length xs" by (rule Cons.IH)
  then show ?case using edit_length [of ln c] by simp
qed simp

lemma ugets_loop_edits:
  "uart_ok w \<Longrightarrow> pending (line_of w) = xs @ 13 # ys \<Longrightarrow> 13 \<notin> set xs \<Longrightarrow> holds m str ln \<Longrightarrow>
    unat str + length ln + length xs < 4294967296 \<Longrightarrow>
    \<exists>w' m'. ugets_loop env str (str + of_nat (length ln)) w m = Some (str + of_nat (length (foldl edit ln xs)), w', m') \<and>
      uart_ok w' \<and> line_of w' = (line_of w)\<lparr>pending := ys\<rparr> \<and> holds m' str (foldl edit ln xs) \<and>
      (\<forall>a. length ln + length xs < unat (a - str) \<longrightarrow> m' a = m a)"
proof (induction xs arbitrary: w m ln)
  case Nil
  let ?p = "str + of_nat (length ln)"
  obtain w' where w': "ugetc env w = Some (13, w')" "uart_ok w'" "line_of w' = (line_of w)\<lparr>pending := ys\<rparr>"
    using ugetc_refines [OF Nil.prems(1), of 13 ys env] Nil.prems(2) by auto
  have "holds (m(?p := 13)) str ln" using holds_prefix [OF holds_put] Nil.prems by simp
  moreover have "(m(?p := 13)) a = m a" if "length ln < unat (a - str)" for a
    using that Nil.prems(5) by (auto simp: unat_small)
  ultimately show ?case using w' by (subst ugets_loop.simps) simp
next
  case (Cons c xs)
  let ?p = "str + of_nat (length ln)" and ?m = "m(str + of_nat (length ln) := c)"
  obtain w1 where w1: "ugetc env w = Some (c, w1)" "uart_ok w1" "line_of w1 = (line_of w)\<lparr>pending := xs @ 13 # ys\<rparr>"
    using ugetc_refines [OF Cons.prems(1), of c "xs @ 13 # ys" env] Cons.prems(2) by auto
  have c: "c \<noteq> 13" "13 \<notin> set xs" using Cons.prems(3) by auto
  have lt: "str < ?p \<longleftrightarrow> ln \<noteq> []"
    using Cons.prems(5) by (auto simp: word_less_nat_alt unat_word_ariths unat_small)
  have hp: "holds ?m str (ln @ [c])" using holds_put Cons.prems(4,5) by simp
  have h: "holds ?m str (edit ln c)"
    using hp holds_butlast [OF holds_prefix [OF hp]] by (auto simp: edit_def)
  have p': "(if str < ?p \<and> c = 127 then ?p - 1 else ?p + 1) = str + of_nat (length (edit ln c))"
    unfolding lt by (cases ln rule: rev_cases) (auto simp: edit_def)
  have len: "length (edit ln c) \<le> Suc (length ln)" by (rule edit_length)
  obtain w' m' where loop: "ugets_loop env str (str + of_nat (length (edit ln c))) w1 ?m
        = Some (str + of_nat (length (foldl edit (edit ln c) xs)), w', m')"
      "uart_ok w'" "line_of w' = (line_of w1)\<lparr>pending := ys\<rparr>" "holds m' str (foldl edit (edit ln c) xs)"
      "\<forall>a. length (edit ln c) + length xs < unat (a - str) \<longrightarrow> m' a = ?m a"
    using Cons.IH [OF w1(2) _ c(2) h] w1(3) len Cons.prems(5) by fastforce
  have "ugets_loop env str ?p w m = ugets_loop env str (str + of_nat (length (edit ln c))) w1 ?m"
    using c(1) unfolding p' [symmetric] by (subst ugets_loop.simps) (simp add: w1(1))
  moreover have "m' a = m a" if "length ln + length (c # xs) < unat (a - str)" for a
  proof -
    have "a \<noteq> ?p" using that Cons.prems(5) by (auto simp: unat_small)
    moreover have "m' a = ?m a" using loop(5) that len by simp
    ultimately show ?thesis by simp
  qed
  ultimately show ?case using loop w1(3) by auto
qed

lemma uart_ok_out [simp]:
  "uart_ok w \<Longrightarrow> uart_ok (outb (PORT + 1) v w)"
  "line_of (outb (PORT + 1) v w) = line_of w"
  by (simp_all add: uart_ok_def line_of_def PORT_def)

section \<open>Properties\<close>

text \<open>
  C22. The driver implements the transmitter and the receive queue: in every sequence of writes, interrupts
  and reads in which no buffer overflows each call returns, the state abstracts to the one the
  specification reaches by the same events, and the bytes that went out followed by those that wait are
  the bytes queued and echoed, in order.
\<close>

theorem uart_refines_line:
  assumes "uart_ok w" and "fits env calls w"
  shows "\<exists>w'. uart_run env calls w = Some w' \<and> uart_ok w' \<and>
    line_of w' = fold line_do (uart_events env calls w) (line_of w) \<and>
    sent (line_of w') @ waiting (line_of w') =
      sent (line_of w) @ waiting (line_of w) @ concat (map queued_by (uart_events env calls w))"
  using uart_run_refines [OF assms] line_run_bytes [OF line_of_ok [OF assms(1)]] by metis

definition uart_boot :: uart_world where
  "uart_boot = uart_init \<lparr>iflag = True, trace = [], intr_handler_table = replicate 256 None,
     uart = \<lparr>base = 0, uart_id = 0, tx_on = 0, ilen = 0, ihead = 0, itail = 0, olen = 0, ohead = 0, otail = 0,
       ibuf = replicate 1024 0, obuf = replicate 1024 0\<rparr>\<rparr>"

lemma uart_boot_ok: "uart_ok uart_boot" "waiting (line_of uart_boot) = []" "pending (line_of uart_boot) = []"
  unfolding uart_boot_def by (rule uart_init_ok; simp)+

lemma uart_boot_sent: "sent (line_of uart_boot) = []"
  by (simp add: uart_boot_def uart_init_def Let_def line_of_def register_intr_handler_def PORT_def outb_def)

theorem uart_refines_line_witness:
  "\<exists>w'. uart_run (\<lambda>_ _. 0) [Put 104, Put 105] uart_boot = Some w' \<and> sent (line_of w') @ waiting (line_of w') = [104, 105]"
proof -
  have "fits (\<lambda>_ _. 0) [Put 104, Put 105] uart_boot"
    using uputc_refines [OF uart_boot_ok(1), of "\<lambda>_ _. 0" 104]
    by (auto simp: put_room_def uart_boot_ok line_put_def split: option.splits)
  moreover have "concat (map queued_by (uart_events (\<lambda>_ _. 0) [Put 104, Put 105] uart_boot)) = [104, 105]"
    using uputc_refines [OF uart_boot_ok(1), of "\<lambda>_ _. 0" 104] by (auto simp: put_room_def uart_boot_ok)
  moreover have "sent (line_of uart_boot) = []" by (rule uart_boot_sent)
  ultimately show ?thesis using uart_refines_line [OF uart_boot_ok(1)] uart_boot_ok(2) by fastforce
qed

text \<open>
  \<open>ugets\<close> with a whole line received returns the line as edited with DEL, terminated, without the
  carriage return; the bytes after it stay in the receive queue, nothing is sent, and no byte beyond the
  typed ones and the terminator is written.
\<close>

theorem ugets_reads_line:
  assumes ok: "uart_ok w" and typed: "pending (line_of w) = xs @ 13 # ys" and cr: "13 \<notin> set xs"
    and mem: "unat str + length xs < 4294967296"
  shows "\<exists>w' m'. ugets env str w m = Some (w', m') \<and> uart_ok w' \<and> line_of w' = (line_of w)\<lparr>pending := ys\<rparr> \<and>
    (\<forall>i<length (foldl edit [] xs). m' (str + of_nat i) = foldl edit [] xs ! i) \<and>
    m' (str + of_nat (length (foldl edit [] xs))) = 0 \<and>
    (\<forall>a. length xs < unat (a - str) \<longrightarrow> m' a = m a)"
proof -
  have b: "base (uart w) = PORT" using ok by (simp add: uart_ok_def)
  let ?e = "foldl edit [] xs"
  let ?w = "outb (PORT + 1) (env (trace w) (PORT + 1) OR 0x01) (snd (inb env (PORT + 1) w))"
  have ok': "uart_ok ?w" using ok by simp
  obtain w' m' where loop: "ugets_loop env str str ?w m = Some (str + of_nat (length ?e), w', m')"
      "uart_ok w'" "line_of w' = (line_of w)\<lparr>pending := ys\<rparr>" "holds m' str ?e"
      "\<forall>a. length xs < unat (a - str) \<longrightarrow> m' a = m a"
    using ugets_loop_edits [OF ok' _ cr, of ys m str "[]" env] typed mem by (auto simp: holds_def)
  have le: "length ?e \<le> length xs" using edits_length [of "[]" xs] by simp
  have b': "base (uart w') = PORT" using loop(2) by (simp add: uart_ok_def)
  let ?m = "m'(str + of_nat (length ?e) := 0)"
  let ?w2 = "outb (PORT + 1) (env (trace w') (PORT + 1) AND 0xFE) (snd (inb env (PORT + 1) w'))"
  have "ugets env str w m = Some (?w2, ?m)"
    using loop(1) by (simp add: ugets_def b b' inb_def Let_def)
  moreover have "holds ?m str ?e" using holds_prefix [OF holds_put [OF loop(4)]] le mem by simp
  moreover have "?m a = m a" if "length xs < unat (a - str)" for a
    using that loop(5) le mem by (auto simp: unat_small)
  ultimately show ?thesis using loop(2,3) unfolding holds_def by simp
qed

definition uart_typed :: uart_world where
  "uart_typed = uart_boot\<lparr>uart := (uart uart_boot)\<lparr>ibuf := [97, 127, 98, 13] @ replicate 1020 0, itail := 4, ilen := 4\<rparr>\<rparr>"

theorem ugets_reads_line_witness:
  "\<exists>w' m'. ugets (\<lambda>_ _. 0) 0x1000 uart_typed (\<lambda>_. 7) = Some (w', m') \<and> m' 0x1000 = 98 \<and> m' 0x1001 = 0"
proof -
  have "uart_ok uart_typed" using uart_boot_ok(1) unfolding uart_typed_def
    by (simp add: uart_ok_def uart_boot_def uart_init_def Let_def register_intr_handler_def ring_ok_def)
  moreover have "pending (line_of uart_typed) = [97, 127, 98] @ 13 # []"
    by (simp add: uart_typed_def uart_boot_def uart_init_def Let_def register_intr_handler_def line_of_def ring_def upt_conv_Cons)
  moreover have "foldl edit [] [97, 127, 98] = [98]" by (simp add: edit_def)
  ultimately show ?thesis
    using ugets_reads_line [of uart_typed "[97, 127, 98]" "[]" "0x1000" "\<lambda>_ _. 0" "\<lambda>_. 7"] by fastforce
qed

text \<open>
  With \<open>BUF_SIZE\<close> bytes waiting nothing stops \<open>uputc\<close>: the new byte replaces the oldest one that waits, and
  the count says there are more bytes than the buffer holds.
\<close>

lemma uputc_overflow:
  assumes "uart_ok w" and "tx_on (uart w) = 1" and full: "unat (olen (uart w)) = 1024"
  shows "\<exists>w'. uputc env c w = Some w' \<and> obuf (uart w') ! unat (ohead (uart w')) = c \<and> unat (olen (uart w')) = 1025"
proof -
  have r: "ring_ok (obuf (uart w)) (ohead (uart w)) (otail (uart w)) (olen (uart w))" using assms(1) by (simp add: uart_ok_def)
  then have "unat (otail (uart w)) = unat (ohead (uart w))" "unat (otail (uart w)) < length (obuf (uart w))"
    using full by (simp_all add: ring_ok_def mod_1024)
  then show ?thesis using assms(2) full by (simp add: uputc_def Let_def buf_put_def cli_def sti_def unat_word_ariths)
qed

end
