(* ===== verification/Vsprintf.thy ===== *)
theory Vsprintf
  imports Cstring "HOL-Library.Monad_Syntax"
begin

text \<open>
  The formatted output of \<open>kernel/vsprintf.c\<close>. The output goes to the memory of \<open>Cstring\<close> behind a moving
  pointer; the format, a constant string, is the list of its bytes before the terminator, so \<open>*fmt\<close> is
  \<open>cur fmt\<close> and \<open>++fmt\<close> is \<open>tl fmt\<close>. The arguments are the words the caller pushed, the first one at
  index 0. Widths, precisions and \<open>size\<close> are C \<open>int\<close>s whose overflow C leaves undefined: they are \<open>int\<close>s
  here and no wrap-around is written out. The number to print is a word, read as signed where the code
  compares it with 0 and unsigned by \<open>divl\<close>.

  \<open>render\<close> says which text is to come out: it reads the directives (\<open>read_directive\<close>) and writes their texts
  (\<open>directive_text\<close>, \<open>number_form\<close>) without a definition of the code but \<open>va_list\<close>. \<open>parse_spec_reads\<close>
  shows that the code reads a directive the same way, \<open>convert_text_meant\<close> that its flag word leads to the same text.
\<close>

section \<open>The code\<close>

definition is_digit :: "u8 \<Rightarrow> bool" where
  "is_digit c \<longleftrightarrow> sint c \<ge> 48 \<and> sint c \<le> 57"

definition cur :: "u8 list \<Rightarrow> u8" where
  "cur fmt = (case fmt of [] \<Rightarrow> 0 | c # _ \<Rightarrow> c)"

fun skip_atoi :: "u8 list \<Rightarrow> int \<Rightarrow> int \<times> u8 list" where
  "skip_atoi [] i = (i, [])"
| "skip_atoi (c # s) i = (if is_digit c then skip_atoi s (i * 10 + sint c - 48) else (i, c # s))"

definition ZEROPAD :: u32 where "ZEROPAD = 1"
definition SIGN :: u32 where "SIGN = 2"
definition PLUS :: u32 where "PLUS = 4"
definition SPACE :: u32 where "SPACE = 8"
definition LEFT :: u32 where "LEFT = 16"
definition SPECIAL :: u32 where "SPECIAL = 32"
definition SMALL :: u32 where "SMALL = 64"

text \<open>\<open>*str++ = c\<close>\<close>

definition put :: "u8 \<Rightarrow> u32 \<times> mem \<Rightarrow> u32 \<times> mem" where
  "put c o' = (let (str, m) = o' in (str + 1, m(str := c)))"

definition do_div :: "u32 \<Rightarrow> int \<Rightarrow> u32 \<times> nat" where
  "do_div n base = (n div of_int base, unat (n mod of_int base))"

text \<open>\<open>while (num != 0) tmp[i++] = digits[do_div(num, base)];\<close>\<close>

function number_digits :: "u8 list \<Rightarrow> u32 \<Rightarrow> int \<Rightarrow> u8 list \<Rightarrow> nat \<Rightarrow> (u8 list \<times> nat) option" where
  "number_digits digits num base tmp i =
    (if num \<noteq> 0 then
       let (num, res) = do_div num base
       in if i < 36 then number_digits digits num base (tmp[i := digits ! res]) (i + 1) else None
     else Some (tmp, i))"
  by pat_completeness auto

termination number_digits
  by (relation "measure (\<lambda>(d, n, b, t, i). 36 - i)") auto

text \<open>\<open>while (size-- > 0) *str++ = c;\<close>\<close>

function pad :: "u8 \<Rightarrow> int \<Rightarrow> u32 \<times> mem \<Rightarrow> int \<times> u32 \<times> mem" where
  "pad c sz o' = (if sz > 0 then pad c (sz - 1) (put c o') else (sz - 1, o'))"
  by pat_completeness auto

termination pad
  by (relation "measure (\<lambda>(c, n, o'). nat n)") auto

text \<open>\<open>while (i < precision--) *str++ = '0';\<close> with the space of \<open>%s\<close> as \<open>c\<close>\<close>

function pad_above :: "u8 \<Rightarrow> int \<Rightarrow> int \<Rightarrow> u32 \<times> mem \<Rightarrow> int \<times> u32 \<times> mem" where
  "pad_above c i precision o' = (if i < precision then pad_above c i (precision - 1) (put c o') else (precision - 1, o'))"
  by pat_completeness auto

termination pad_above
  by (relation "measure (\<lambda>(c, i, n, o'). nat (n - i))") auto

text \<open>\<open>while (i-- > 0) *str++ = tmp[i];\<close>\<close>

fun put_digits :: "nat \<Rightarrow> u8 list \<Rightarrow> u32 \<times> mem \<Rightarrow> u32 \<times> mem" where
  "put_digits 0 tmp o' = o'"
| "put_digits (Suc i) tmp o' = put_digits i tmp (put (tmp ! i) o')"

definition upper_digits :: "u8 list" where
  "upper_digits = map of_char ''0123456789ABCDEFGHIJKLMNOPQRSTUVWXYZ''"

definition lower_digits :: "u8 list" where
  "lower_digits = map of_char ''0123456789abcdefghijklmnopqrstuvwxyz''"

definition put_lead :: "u32 \<Rightarrow> int \<Rightarrow> u8 \<Rightarrow> u8 list \<Rightarrow> u32 \<times> mem \<Rightarrow> u32 \<times> mem" where
  "put_lead type base sign digits o' =
    (let o' = (if sign \<noteq> 0 then put sign o' else o')
     in if type AND SPECIAL \<noteq> 0 then
          if base = 8 then put 48 o' else if base = 16 then put (digits ! 33) (put 48 o') else o'
        else o')"

text \<open>The part of \<open>number\<close> that writes, once \<open>size\<close> is what is left for padding.\<close>

definition number_write ::
  "u32 \<Rightarrow> int \<Rightarrow> u8 \<Rightarrow> u8 \<Rightarrow> u8 list \<Rightarrow> nat \<Rightarrow> int \<Rightarrow> int \<Rightarrow> u8 list \<Rightarrow> u32 \<times> mem \<Rightarrow> u32 \<times> mem" where
  "number_write type base c sign digits i precision sz tmp o' =
    (let (sz, o') = (if type AND (ZEROPAD + LEFT) = 0 then pad 32 sz o' else (sz, o'));
         o' = put_lead type base sign digits o';
         (sz, o') = (if type AND LEFT = 0 then pad c sz o' else (sz, o'));
         (precision, o') = pad_above 48 (int i) precision o';
         o' = put_digits i tmp o';
         (sz, o') = pad 32 sz o'
     in o')"

definition number :: "u32 \<Rightarrow> u32 \<Rightarrow> int \<Rightarrow> int \<Rightarrow> int \<Rightarrow> u32 \<Rightarrow> mem \<Rightarrow> (u32 \<times> mem) option" where
  "number str num base sz precision type m =
    (let digits = (if type AND SMALL \<noteq> 0 then lower_digits else upper_digits);
         type = (if type AND LEFT \<noteq> 0 then type AND NOT ZEROPAD else type)
     in if base < 2 \<or> base > 36 then Some (0, m)
        else let
          c = (if type AND ZEROPAD \<noteq> 0 then 48 else 32);
          (sign, num) = (if type AND SIGN \<noteq> 0 \<and> sint num < 0 then (45, - num)
            else (if type AND PLUS \<noteq> 0 then 43 else if type AND SPACE \<noteq> 0 then 32 else 0, num));
          sz = (if sign \<noteq> 0 then sz - 1 else sz);
          sz = (if type AND SPECIAL \<noteq> 0 then if base = 16 then sz - 2 else if base = 8 then sz - 1 else sz
            else sz);
          tmp = replicate 36 0
        in do {
          (tmp, i) \<leftarrow> (if num = 0 then Some (tmp[0 := 48], 1) else number_digits digits num base tmp 0);
          let precision = (if int i > precision then int i else precision);
          let sz = sz - precision;
          Some (number_write type base c sign digits i precision sz tmp (str, m))
        })"

type_synonym va_list = "nat \<Rightarrow> u32"

definition va_arg :: "va_list \<Rightarrow> u32 \<times> va_list" where
  "va_arg args = (args 0, \<lambda>n. args (Suc n))"

text \<open>\<open>repeat: ++fmt; switch (*fmt)\<close>: the flags after the percent sign.\<close>

fun parse_flags :: "u8 list \<Rightarrow> u32 \<Rightarrow> u32 \<times> u8 list" where
  "parse_flags [] flags = (flags, [])"
| "parse_flags (c # fmt) flags =
    (if c = 45 then parse_flags fmt (flags OR LEFT)
     else if c = 43 then parse_flags fmt (flags OR PLUS)
     else if c = 32 then parse_flags fmt (flags OR SPACE)
     else if c = 35 then parse_flags fmt (flags OR SPECIAL)
     else if c = 48 then parse_flags fmt (flags OR ZEROPAD)
     else (flags, c # fmt))"

definition parse_width :: "u8 list \<Rightarrow> u32 \<Rightarrow> va_list \<Rightarrow> int \<times> u32 \<times> u8 list \<times> va_list" where
  "parse_width fmt flags args =
    (if is_digit (cur fmt) then let (field_width, fmt) = skip_atoi fmt 0 in (field_width, flags, fmt, args)
     else if cur fmt = 42 then
       let (w, args) = va_arg args; field_width = sint w
       in if field_width < 0 then (- field_width, flags OR LEFT, fmt, args) else (field_width, flags, fmt, args)
     else (-1, flags, fmt, args))"

definition parse_precision :: "u8 list \<Rightarrow> va_list \<Rightarrow> int \<times> u8 list \<times> va_list" where
  "parse_precision fmt args =
    (if cur fmt = 46 then
       let fmt = tl fmt;
           (precision, fmt, args) =
             (if is_digit (cur fmt) then let (precision, fmt) = skip_atoi fmt 0 in (precision, fmt, args)
              else if cur fmt = 42 then let (w, args) = va_arg args in (sint w, fmt, args)
              else (-1, fmt, args))
       in (if precision < 0 then 0 else precision, fmt, args)
     else (-1, fmt, args))"

definition parse_qualifier :: "u8 list \<Rightarrow> u8 list" where
  "parse_qualifier fmt = (if cur fmt = 104 \<or> cur fmt = 108 \<or> cur fmt = 76 then tl fmt else fmt)"

text \<open>\<open>while (--field_width > 0) *str++ = ' ';\<close>\<close>

function pad_before :: "int \<Rightarrow> u32 \<times> mem \<Rightarrow> int \<times> u32 \<times> mem" where
  "pad_before field_width o' =
    (if field_width - 1 > 0 then pad_before (field_width - 1) (put 32 o') else (field_width - 1, o'))"
  by pat_completeness auto

termination pad_before
  by (relation "measure (\<lambda>(n, o'). nat n)") auto

text \<open>\<open>for (i = 0; i < len; ++i) *str++ = *s++;\<close>\<close>

fun copy_str :: "nat \<Rightarrow> u32 \<Rightarrow> u32 \<times> mem \<Rightarrow> u32 \<times> mem" where
  "copy_str 0 s o' = o'"
| "copy_str (Suc n) s o' = copy_str n (s + 1) (put (snd o' s) o')"

definition convert_char :: "u32 \<Rightarrow> u32 \<Rightarrow> int \<Rightarrow> u32 \<times> mem \<Rightarrow> u32 \<times> mem" where
  "convert_char a flags field_width o' =
    (let (field_width, o') = (if flags AND LEFT = 0 then pad_before field_width o' else (field_width, o'));
         o' = put (ucast a) o'
     in snd (pad_before field_width o'))"

definition convert_string :: "u32 \<Rightarrow> u32 \<Rightarrow> int \<Rightarrow> int \<Rightarrow> u32 \<times> mem \<Rightarrow> (u32 \<times> mem) option" where
  "convert_string s flags field_width precision o' = do {
     n \<leftarrow> strlen (snd o') s;
     let len = sint n;
     let len = (if precision < 0 then len else if len > precision then precision else len);
     let (field_width, o') = (if flags AND LEFT = 0 then pad_above 32 len field_width o' else (field_width, o'));
     let o' = copy_str (nat len) s o';
     Some (snd (pad_above 32 len field_width o'))
   }"

definition convert_other :: "u8 list \<Rightarrow> u32 \<times> mem \<Rightarrow> u32 \<times> mem" where
  "convert_other fmt o' =
    (let o' = (if cur fmt \<noteq> 37 then put 37 o' else o') in if cur fmt \<noteq> 0 then put (cur fmt) o' else o')"

text \<open>
  \<open>switch (*fmt)\<close>: the conversion. At the end of the format \<open>--fmt\<close> and the \<open>++fmt\<close> of the loop leave
  the pointer at the terminator, as \<^term>\<open>tl\<close> does of the empty list.
\<close>

definition convert ::
  "u32 \<Rightarrow> u8 list \<Rightarrow> u32 \<Rightarrow> int \<Rightarrow> int \<Rightarrow> va_list \<Rightarrow> u32 \<times> mem \<Rightarrow> (va_list \<times> u32 \<times> mem) option" where
  "convert buf fmt flags field_width precision args o' =
    (let c = cur fmt; (a, rest) = va_arg args;
         num = (\<lambda>base width fl. map_option (Pair rest) (number (fst o') a base width precision fl (snd o')))
     in if c = 99 then Some (rest, convert_char a flags field_width o')
        else if c = 115 then map_option (Pair rest) (convert_string a flags field_width precision o')
        else if c = 111 then num 8 field_width flags
        else if c = 112 then
          if field_width = -1 then num 16 8 (flags OR ZEROPAD) else num 16 field_width flags
        else if c = 120 then num 16 field_width (flags OR SMALL)
        else if c = 88 then num 16 field_width flags
        else if c = 100 \<or> c = 105 then num 10 field_width (flags OR SIGN)
        else if c = 117 then num 10 field_width flags
        else if c = 98 then num 2 field_width flags
        else if c = 110 then Some (rest, fst o', put_word a (fst o' - buf) (snd o'))
        else Some (args, convert_other fmt o'))"

lemma parse_flags_length: "length (snd (parse_flags fmt flags)) \<le> length fmt"
  by (induction fmt flags rule: parse_flags.induct) auto

lemma skip_atoi_length: "length (snd (skip_atoi s i)) \<le> length s"
  by (induction s i rule: skip_atoi.induct) auto

lemma parse_width_length: "length (fst (snd (snd (parse_width fmt flags args)))) \<le> length fmt"
  using skip_atoi_length [of fmt 0] by (auto simp: parse_width_def va_arg_def Let_def case_prod_beta)

lemma parse_precision_length: "length (fst (snd (parse_precision fmt args))) \<le> length fmt"
  using skip_atoi_length [of "tl fmt" 0] by (auto simp: parse_precision_def va_arg_def Let_def case_prod_beta)

lemma parse_qualifier_length: "length (parse_qualifier fmt) \<le> length fmt"
  by (simp add: parse_qualifier_def)

definition parse_spec :: "u8 list \<Rightarrow> va_list \<Rightarrow> u32 \<times> int \<times> int \<times> u8 list \<times> va_list" where
  "parse_spec fmt args =
    (let (flags, fmt) = parse_flags fmt 0;
         (field_width, flags, fmt, args) = parse_width fmt flags args;
         (precision, fmt, args) = parse_precision fmt args;
         fmt = parse_qualifier fmt
     in (flags, field_width, precision, fmt, args))"

lemma parse_spec_length:
  assumes "parse_spec fmt args = (flags, w, p, rest, args')"
  shows "length rest \<le> length fmt"
proof -
  obtain f1 r1 where 1: "parse_flags fmt 0 = (f1, r1)" by (cases "parse_flags fmt 0")
  obtain w2 f2 r2 a2 where 2: "parse_width r1 f1 args = (w2, f2, r2, a2)" by (cases "parse_width r1 f1 args")
  obtain p3 r3 a3 where 3: "parse_precision r2 a2 = (p3, r3, a3)" by (cases "parse_precision r2 a2")
  have "rest = parse_qualifier r3" using assms by (simp add: parse_spec_def 1 2 3)
  then show ?thesis
    using parse_flags_length [of fmt 0] parse_width_length [of r1 f1 args] parse_precision_length [of r2 a2]
      parse_qualifier_length [of r3] by (simp add: 1 2 3)
qed

function vsprintf_loop :: "u32 \<Rightarrow> u8 list \<Rightarrow> va_list \<Rightarrow> u32 \<times> mem \<Rightarrow> (u32 \<times> mem) option" where
  "vsprintf_loop buf [] args o' = Some o'"
| "vsprintf_loop buf (c # fmt) args o' =
    (if c \<noteq> 37 then vsprintf_loop buf fmt args (put c o')
     else let (flags, field_width, precision, fmt, args) = parse_spec fmt args
       in do {
         (args, o') \<leftarrow> convert buf fmt flags field_width precision args o';
         vsprintf_loop buf (tl fmt) args o'
       })"
  by pat_completeness auto

termination vsprintf_loop
proof (relation "measure (\<lambda>(b, fmt, a, o'). length fmt)")
  fix buf c fmt args o' x flags y w z p x' rest args' a' o''
  assume "x = parse_spec fmt args" "(flags, y) = x" "(w, z) = y" "(p, x') = z" "(rest, args') = x'"
  then have "parse_spec fmt args = (flags, w, p, rest, args')" by simp
  then have "length rest \<le> length fmt" by (rule parse_spec_length)
  then show "((buf, tl rest, a', o''), buf, c # fmt, args, o') \<in> measure (\<lambda>(b, fmt, a, o'). length fmt)" by simp
qed simp_all

definition vsprintf :: "u32 \<Rightarrow> u8 list \<Rightarrow> va_list \<Rightarrow> mem \<Rightarrow> (u32 \<times> mem) option" where
  "vsprintf buf fmt args m = do {
     (str, m) \<leftarrow> vsprintf_loop buf fmt args (buf, m);
     Some (str - buf, m(str := 0))
   }"

declare number_digits.simps [simp del] pad.simps [simp del] pad_above.simps [simp del] pad_before.simps [simp del]

section \<open>Writing a text\<close>

definition emit :: "u8 list \<Rightarrow> u32 \<times> mem \<Rightarrow> u32 \<times> mem" where
  "emit cs o' = fold put cs o'"

lemma emit_simps [simp]: "emit [] o' = o'" "emit (c # cs) o' = emit cs (put c o')" "emit (xs @ ys) o' = emit ys (emit xs o')"
  by (simp_all add: emit_def)

lemma emit_one: "put c o' = emit [c] o'"
  by simp

lemma emit_fst [simp]: "fst (emit cs o') = fst o' + of_nat (length cs)"
  by (induction cs arbitrary: o') (auto simp: put_def case_prod_beta Let_def)

lemma emit_outside: "length cs \<le> unat (a - fst o') \<Longrightarrow> snd (emit cs o') a = snd o' a"
proof (induction cs arbitrary: o')
  case (Cons c cs)
  have ne: "a - fst o' \<noteq> 0" using Cons.prems by auto
  then have "unat (a - fst (put c o')) = unat (a - fst o') - 1"
    using unat_minus_one [OF ne] by (simp add: put_def case_prod_beta Let_def algebra_simps)
  then have "snd (emit cs (put c o')) a = snd (put c o') a" using Cons by simp
  then show ?case using ne by (auto simp: put_def case_prod_beta Let_def)
qed simp

lemma emit_inside: "length cs < 4294967296 \<Longrightarrow> i < length cs \<Longrightarrow> snd (emit cs o') (fst o' + of_nat i) = cs ! i"
proof (induction cs arbitrary: i o')
  case (Cons c cs)
  show ?case
  proof (cases i)
    case 0
    have "fst o' - fst (put c o') = - 1" by (simp add: put_def case_prod_beta Let_def)
    moreover have "unat (- 1 :: u32) = 4294967295" by (simp only: unsigned_minus_1_eq_mask) (simp add: mask_eq_exp_minus_1)
    ultimately have "length cs \<le> unat (fst o' - fst (put c o'))" using Cons.prems(1) by (simp only:) simp
    then show ?thesis using 0 emit_outside [of cs "fst o'" "put c o'"] by (simp add: put_def case_prod_beta Let_def)
  next
    case (Suc j)
    then show ?thesis using Cons.prems Cons.IH [of j "put c o'"] by (simp add: put_def case_prod_beta Let_def add.assoc)
  qed
qed simp

lemma pad_emit: "pad c n o' = (if n > 0 then -1 else n - 1, emit (replicate (nat n) c) o')"
proof (induction c n o' rule: pad.induct)
  case (1 c n o')
  show ?case
  proof (cases "n > 0")
    case True
    then have "nat n = Suc (nat (n - 1))" by simp
    then show ?thesis using True 1 by (subst pad.simps) auto
  next
    case False
    then show ?thesis by (subst pad.simps) simp
  qed
qed

lemma pad_above_emit: "snd (pad_above c i n o') = emit (replicate (nat (n - i)) c) o'"
proof (induction c i n o' rule: pad_above.induct)
  case (1 c i n o')
  show ?case
  proof (cases "i < n")
    case True
    then have "nat (n - i) = Suc (nat (n - 1 - i))" by simp
    then show ?thesis using True 1 by (subst pad_above.simps) simp
  next
    case False
    then show ?thesis by (subst pad_above.simps) simp
  qed
qed

lemma pad_above_left: "fst (pad_above c i n o') = (if i < n then i - 1 else n - 1)"
proof (induction c i n o' rule: pad_above.induct)
  case (1 c i n o')
  then show ?case by (subst pad_above.simps) auto
qed

lemma pad_before_emit: "pad_before n o' = (if n > 1 then 0 else n - 1, emit (replicate (nat (n - 1)) 32) o')"
proof (induction n o' rule: pad_before.induct)
  case (1 n o')
  show ?case
  proof (cases "n > 1")
    case True
    then have "nat (n - 1) = Suc (nat (n - 2))" by simp
    then show ?thesis using True 1 by (subst pad_before.simps) auto
  next
    case False
    then show ?thesis by (subst pad_before.simps) simp
  qed
qed

lemma put_digits_emit: "i \<le> length tmp \<Longrightarrow> put_digits i tmp o' = emit (rev (take i tmp)) o'"
  by (induction i tmp o' rule: put_digits.induct) (auto simp: take_Suc_conv_app_nth)

section \<open>Digits\<close>

function digs :: "nat \<Rightarrow> nat \<Rightarrow> nat list" where
  "digs b n = (if n = 0 \<or> b < 2 then [] else digs b (n div b) @ [n mod b])"
  by pat_completeness auto

termination digs
  by (relation "measure snd") auto

declare digs.simps [simp del]

lemma digs_length: "n < 2 ^ k \<Longrightarrow> length (digs b n) \<le> k"
proof (induction k arbitrary: n)
  case 0
  then show ?case by (subst digs.simps) simp
next
  case (Suc k)
  show ?case
  proof (cases "n = 0 \<or> b < 2")
    case True
    then show ?thesis by (subst digs.simps) simp
  next
    case False
    then have "n div b \<le> n div 2" by (intro div_le_mono2) simp_all
    moreover have "n div 2 < 2 ^ k" using Suc.prems by simp
    ultimately have "length (digs b (n div b)) \<le> k" by (intro Suc.IH) linarith
    then show ?thesis using False by (subst digs.simps) simp
  qed
qed

lemma digs_value: "2 \<le> b \<Longrightarrow> foldl (\<lambda>v d. v * b + d) 0 (digs b n) = n"
proof (induction b n rule: digs.induct)
  case (1 b n)
  then show ?case by (subst digs.simps) simp
qed

lemma digs_bound: "2 \<le> b \<Longrightarrow> d \<in> set (digs b n) \<Longrightarrow> d < b"
proof (induction b n rule: digs.induct)
  case (1 b n)
  then show ?case by (subst (asm) (2) digs.simps) (auto split: if_splits)
qed

lemma number_digits_spec:
  "2 \<le> b \<Longrightarrow> b \<le> 36 \<Longrightarrow> length tmp = 36 \<Longrightarrow> i + length (digs b (unat num)) \<le> 36 \<Longrightarrow>
    \<exists>tmp'. number_digits digits num (int b) tmp i = Some (tmp', i + length (digs b (unat num))) \<and> length tmp' = 36 \<and>
      take (i + length (digs b (unat num))) tmp' = take i tmp @ rev (map ((!) digits) (digs b (unat num)))"
proof (induction digits num "int b" tmp i rule: number_digits.induct)
  case (1 digits num tmp i)
  show ?case
  proof (cases "num = 0")
    case True
    then show ?thesis using 1(4) by (subst number_digits.simps) (simp add: digs.simps)
  next
    case False
    let ?n = "unat num div b"
    have un: "unat (num div of_nat b) = ?n" "unat (num mod of_nat b) = unat num mod b"
      using 1(2,3) by (simp_all add: unat_div_distrib unat_mod_distrib unat_small)
    have d: "digs b (unat num) = digs b ?n @ [unat num mod b]"
      using False 1(2) by (subst digs.simps) (simp add: unat_eq_0)
    let ?t = "tmp[i := digits ! (unat num mod b)]"
    have i: "i < 36" and l: "Suc i + length (digs b ?n) \<le> 36" using 1(5) by (simp_all add: d)
    obtain tmp' where t: "number_digits digits (num div of_nat b) (int b) ?t (i + 1) = Some (tmp', i + 1 + length (digs b ?n))"
      "length tmp' = 36" "take (i + 1 + length (digs b ?n)) tmp' = take (i + 1) ?t @ rev (map ((!) digits) (digs b ?n))"
      using 1(1) [OF False refl, of "num div of_nat b" "unat num mod b"] i l 1(2-4) by (auto simp: do_div_def un)
    have "number_digits digits num (int b) tmp i = Some (tmp', i + length (digs b (unat num)))"
      using False i t(1) by (subst number_digits.simps) (simp add: do_div_def un d)
    moreover have "take (i + 1) ?t = take i tmp @ [digits ! (unat num mod b)]"
      using i 1(4) by (simp add: take_Suc_conv_app_nth)
    ultimately show ?thesis using t by (simp add: d)
  qed
qed

section \<open>What a format means\<close>

text \<open>
  The fields of a directive, read off the bytes after the percent sign: the flags; the digits of a width; a dot and the
  digits of a precision, 0 without digits; a letter \<open>h\<close>, \<open>l\<close> or \<open>L\<close>, which changes nothing; the conversion, empty
  at the end of the format. A star for a width or a precision has no meaning here (\<open>vsprintf_star\<close> shows what the code
  makes of it).
\<close>

definition is_flag :: "u8 \<Rightarrow> bool" where
  "is_flag c \<longleftrightarrow> c \<in> set [45, 43, 32, 35, 48]"

definition digit_byte :: "u8 \<Rightarrow> bool" where
  "digit_byte c \<longleftrightarrow> 48 \<le> unat c \<and> unat c \<le> 57"

definition decimal :: "u8 list \<Rightarrow> nat" where
  "decimal ds = foldl (\<lambda>v c. 10 * v + (unat c - 48)) 0 ds"

definition after_flags :: "u8 list \<Rightarrow> u8 list" where
  "after_flags fmt = dropWhile is_flag fmt"

definition after_width :: "u8 list \<Rightarrow> u8 list" where
  "after_width fmt = dropWhile digit_byte (after_flags fmt)"

definition after_precision :: "u8 list \<Rightarrow> u8 list" where
  "after_precision fmt = (let s = after_width fmt in if take 1 s = [46] then dropWhile digit_byte (tl s) else s)"

definition after_fields :: "u8 list \<Rightarrow> u8 list" where
  "after_fields fmt = (let s = after_precision fmt in if take 1 s \<in> set [[104], [108], [76]] then tl s else s)"

definition has_star :: "u8 list \<Rightarrow> bool" where
  "has_star fmt \<longleftrightarrow> take 1 (after_flags fmt) = [42] \<or> take 2 (after_width fmt) = [46, 42]"

record directive =
  f_minus :: bool
  f_plus :: bool
  f_space :: bool
  f_hash :: bool
  f_zero :: bool
  f_width :: "nat option"
  f_precision :: "nat option"
  f_conv :: "u8 list"

definition read_directive :: "u8 list \<Rightarrow> directive" where
  "read_directive fmt =
    (let flags = set (takeWhile is_flag fmt); width = takeWhile digit_byte (after_flags fmt); s = after_width fmt
     in \<lparr>f_minus = 45 \<in> flags, f_plus = 43 \<in> flags, f_space = 32 \<in> flags, f_hash = 35 \<in> flags, f_zero = 48 \<in> flags,
         f_width = (if width = [] then None else Some (decimal width)),
         f_precision = (if take 1 s = [46] then Some (decimal (takeWhile digit_byte (tl s))) else None),
         f_conv = take 1 (after_fields fmt)\<rparr>)"

definition default_to :: "nat \<Rightarrow> nat option \<Rightarrow> nat" where
  "default_to n x = (case x of None \<Rightarrow> n | Some k \<Rightarrow> k)"

text \<open>
  A number: the sign, which \<open>+\<close> and the blank ask for whether the conversion is signed or not, the prefix of the base for
  \<open>#\<close>, zeros up to the precision and the digits; then up to the width blanks on the right for \<open>-\<close>, zeros
  after the prefix for \<open>0\<close>, blanks on the left otherwise.
\<close>

definition digit_char :: "bool \<Rightarrow> nat \<Rightarrow> u8" where
  "digit_char small k = of_nat (if k < 10 then 48 + k else if small then 87 + k else 55 + k)"

definition number_form :: "directive \<Rightarrow> nat \<Rightarrow> bool \<Rightarrow> bool \<Rightarrow> nat \<Rightarrow> u8 list" where
  "number_form d base small neg n =
    (let sign = (if neg then [45] else if f_plus d then [43] else if f_space d then [32] else []);
         prefix = (if f_hash d \<and> base = 8 then [48]
           else if f_hash d \<and> base = 16 then [48, if small then 120 else 88] else []);
         digits = (if n = 0 then [48] else map (digit_char small) (digs base n));
         digits = replicate (default_to 0 (f_precision d) - length digits) 48 @ digits;
         fill = default_to 0 (f_width d) - length (sign @ prefix @ digits)
     in if f_minus d then sign @ prefix @ digits @ replicate fill 32
        else if f_zero d then sign @ prefix @ replicate fill 48 @ digits
        else replicate fill 32 @ sign @ prefix @ digits)"

definition in_field :: "directive \<Rightarrow> u8 list \<Rightarrow> u8 list" where
  "in_field d cs =
    (let fill = replicate (default_to 0 (f_width d) - length cs) 32 in if f_minus d then cs @ fill else fill @ cs)"

text \<open>
  The conversions \<open>c s o p x X d i u b n\<close>. \<open>strs\<close> gives the strings at the addresses \<open>%s\<close> may be called with. \<open>%n\<close> stores
  instead of writing and has no text. Two percent signs are one; any other byte is printed after the percent
  sign, the fields are not.
\<close>

type_synonym strings = "u32 \<Rightarrow> u8 list option"

definition directive_text :: "strings \<Rightarrow> directive \<Rightarrow> va_list \<Rightarrow> (va_list \<times> u8 list) option" where
  "directive_text strs d args =
    (let a = args 0; rest = (\<lambda>n. args (Suc n)); c = f_conv d
     in if c = [99] then Some (rest, in_field d [ucast a])
        else if c = [115] then
          map_option (\<lambda>cs. (rest, in_field d (take (default_to (length cs) (f_precision d)) cs))) (strs a)
        else if c = [111] then Some (rest, number_form d 8 False False (unat a))
        else if c = [112] then
          Some (rest, number_form (if f_width d = None then d\<lparr>f_width := Some 8, f_zero := True\<rparr> else d) 16 False False (unat a))
        else if c = [120] then Some (rest, number_form d 16 True False (unat a))
        else if c = [88] then Some (rest, number_form d 16 False False (unat a))
        else if c = [100] \<or> c = [105] then Some (rest, number_form d 10 False (sint a < 0) (nat \<bar>sint a\<bar>))
        else if c = [117] then Some (rest, number_form d 10 False False (unat a))
        else if c = [98] then Some (rest, number_form d 2 False False (unat a))
        else if c = [110] then None
        else if c = [37] then Some (args, [37])
        else Some (args, 37 # c))"

lemma length_dropWhile: "length (dropWhile P xs) \<le> length xs"
  by (induction xs) auto

lemma after_fields_length: "length (after_fields fmt) \<le> length fmt"
proof -
  have "length (after_width fmt) \<le> length fmt" unfolding after_width_def after_flags_def
    by (meson length_dropWhile order_trans)
  moreover have "length (after_precision fmt) \<le> length (after_width fmt)"
    using length_dropWhile [of digit_byte "tl (after_width fmt)"] by (auto simp: after_precision_def Let_def)
  ultimately show ?thesis by (auto simp: after_fields_def Let_def)
qed

function render :: "strings \<Rightarrow> u8 list \<Rightarrow> va_list \<Rightarrow> u8 list option" where
  "render strs [] args = Some []"
| "render strs (c # fmt) args =
    (if c \<noteq> 37 then map_option ((#) c) (render strs fmt args)
     else if has_star fmt then None
     else case directive_text strs (read_directive fmt) args of None \<Rightarrow> None
       | Some (args, cs) \<Rightarrow> map_option ((@) cs) (render strs (tl (after_fields fmt)) args))"
  by pat_completeness auto

termination render
proof (relation "measure (\<lambda>(b, fmt, a). length fmt)")
  fix strs c fmt args a' cs
  show "((strs, tl (after_fields fmt), a'), strs, c # fmt, args) \<in> measure (\<lambda>(b, fmt, a). length fmt)"
    using after_fields_length [of fmt] by simp
qed simp_all

text \<open>The conversions of a format, in order; a star ends the fields of its directive.\<close>

function conversions :: "u8 list \<Rightarrow> u8 list" where
  "conversions [] = []"
| "conversions (c # fmt) =
    (if c \<noteq> 37 then conversions fmt else take 1 (after_fields fmt) @ conversions (tl (after_fields fmt)))"
  by pat_completeness auto

termination conversions
proof (relation "measure length")
  fix c :: u8 and fmt
  show "(tl (after_fields fmt), c # fmt) \<in> measure length" using after_fields_length [of fmt] by simp
qed simp_all

section \<open>The text of a number\<close>

definition digit_table :: "u32 \<Rightarrow> u8 list" where
  "digit_table type = (if type AND SMALL \<noteq> 0 then lower_digits else upper_digits)"

definition sign_text :: "u32 \<Rightarrow> u32 \<Rightarrow> u8 list" where
  "sign_text type a = (if type AND SIGN \<noteq> 0 \<and> sint a < 0 then [45]
     else if type AND PLUS \<noteq> 0 then [43] else if type AND SPACE \<noteq> 0 then [32] else [])"

definition prefix_text :: "u32 \<Rightarrow> int \<Rightarrow> u8 list" where
  "prefix_text type base = (if type AND SPECIAL \<noteq> 0 \<and> base = 8 then [48]
     else if type AND SPECIAL \<noteq> 0 \<and> base = 16 then [48, digit_table type ! 33] else [])"

definition magnitude :: "u32 \<Rightarrow> u32 \<Rightarrow> nat" where
  "magnitude type a = (if type AND SIGN \<noteq> 0 \<and> sint a < 0 then unat (- a) else unat a)"

definition digit_text :: "u32 \<Rightarrow> int \<Rightarrow> nat \<Rightarrow> u8 list" where
  "digit_text type base n = (if n = 0 then [48] else map ((!) (digit_table type)) (digs (nat base) n))"

text \<open>
  Sign, base prefix, zeros up to the precision, digits; then up to the width blanks on the left, blanks on
  the right (\<open>LEFT\<close>) or zeros after the prefix (\<open>ZEROPAD\<close>).
\<close>

definition number_text :: "u32 \<Rightarrow> int \<Rightarrow> int \<Rightarrow> int \<Rightarrow> u32 \<Rightarrow> u8 list" where
  "number_text a base width precision type =
    (let lead = sign_text type a @ prefix_text type base;
         body = digit_text type base (magnitude type a);
         body = replicate (nat precision - length body) 48 @ body;
         fill = nat width - (length lead + length body)
     in if type AND LEFT \<noteq> 0 then lead @ body @ replicate fill 32
        else if type AND ZEROPAD \<noteq> 0 then lead @ replicate fill 48 @ body
        else replicate fill 32 @ lead @ body)"

lemmas flag_defs = ZEROPAD_def SIGN_def PLUS_def SPACE_def LEFT_def SPECIAL_def SMALL_def

lemma pad_flags: "type AND (ZEROPAD + LEFT) = 0 \<longleftrightarrow> type AND ZEROPAD = 0 \<and> type AND LEFT = 0"
proof -
  have "ZEROPAD + LEFT = 1 OR 16" by (simp add: flag_defs)
  moreover have "w AND (1 OR 16) = 0 \<longleftrightarrow> w AND 1 = 0 \<and> w AND 16 = 0" for w :: u32
    by (simp only: bit.conj_disj_distrib or_eq_0_iff)
  ultimately show ?thesis by (simp add: flag_defs)
qed

lemma no_zeropad:
  "(type AND NOT ZEROPAD) AND ZEROPAD = 0" "(type AND NOT ZEROPAD) AND SIGN = type AND SIGN"
  "(type AND NOT ZEROPAD) AND PLUS = type AND PLUS" "(type AND NOT ZEROPAD) AND SPACE = type AND SPACE"
  "(type AND NOT ZEROPAD) AND LEFT = type AND LEFT" "(type AND NOT ZEROPAD) AND SPECIAL = type AND SPECIAL"
  by (simp_all add: flag_defs and.assoc)

definition lead_text :: "u32 \<Rightarrow> int \<Rightarrow> u8 \<Rightarrow> u8 list \<Rightarrow> u8 list" where
  "lead_text type base sign digits = (if sign \<noteq> 0 then [sign] else []) @
     (if type AND SPECIAL \<noteq> 0 then if base = 8 then [48] else if base = 16 then [48, digits ! 33] else [] else [])"

lemma put_lead_emit: "put_lead type base sign digits o' = emit (lead_text type base sign digits) o'"
  by (simp add: put_lead_def lead_text_def)

lemma number_write_emit:
  assumes i: "i \<le> length tmp" and c: "c = (if type AND ZEROPAD \<noteq> 0 then 48 else 32)"
  shows "number_write type base c sign digits i precision sz tmp o' =
    (let lead = lead_text type base sign digits;
         body = replicate (nat (precision - int i)) 48 @ rev (take i tmp)
     in emit (if type AND LEFT \<noteq> 0 then lead @ body @ replicate (nat sz) 32
        else if type AND ZEROPAD \<noteq> 0 then lead @ replicate (nat sz) 48 @ body
        else replicate (nat sz) 32 @ lead @ body) o')"
proof (cases "type AND LEFT = 0"; cases "type AND ZEROPAD = 0")
  assume "type AND LEFT = 0" "type AND ZEROPAD = 0"
  then show ?thesis
    by (simp add: number_write_def Let_def case_prod_beta put_lead_emit pad_above_emit put_digits_emit [OF i] pad_flags pad_emit)
next
  assume "type AND LEFT = 0" "type AND ZEROPAD \<noteq> 0"
  then show ?thesis
    by (simp add: number_write_def Let_def case_prod_beta put_lead_emit pad_above_emit put_digits_emit [OF i] pad_flags pad_emit c)
next
  assume "type AND LEFT \<noteq> 0"
  then show ?thesis
    by (simp add: number_write_def Let_def case_prod_beta put_lead_emit pad_above_emit put_digits_emit [OF i] pad_flags pad_emit)
next
  assume "type AND LEFT \<noteq> 0"
  then show ?thesis
    by (simp add: number_write_def Let_def case_prod_beta put_lead_emit pad_above_emit put_digits_emit [OF i] pad_flags pad_emit)
qed

lemma digit_run:
  assumes b: "2 \<le> b" "b \<le> 36"
  shows "\<exists>tmp i. (if n = 0 then Some ((replicate 36 0)[0 := 48], 1) else number_digits (digit_table type) n (int b) (replicate 36 0) 0)
      = Some (tmp, i) \<and> i \<le> length tmp \<and> rev (take i tmp) = digit_text type (int b) (unat n) \<and>
      i = length (digit_text type (int b) (unat n))"
proof (cases "n = 0")
  case True
  then show ?thesis by (simp add: digit_text_def take_Suc_conv_app_nth)
next
  case False
  have l: "length (digs b (unat n)) \<le> 32" by (rule digs_length) (use u32_lt [of n] in simp)
  obtain tmp where "number_digits (digit_table type) n (int b) (replicate 36 0) 0 = Some (tmp, length (digs b (unat n)))"
    "length tmp = 36" "take (length (digs b (unat n))) tmp = rev (map ((!) (digit_table type)) (digs b (unat n)))"
    using number_digits_spec [OF b, of "replicate 36 0" 0 n "digit_table type"] l by auto
  then show ?thesis using False l by (simp add: digit_text_def unat_eq_0)
qed

lemma number_emit:
  assumes b: "2 \<le> b" "b \<le> 36"
  shows "number str a (int b) width precision type m = Some (emit (number_text a (int b) width precision type) (str, m))"
proof -
  define T where "T = (if type AND LEFT \<noteq> 0 then type AND NOT ZEROPAD else type)"
  define sign :: u8 where "sign = (if T AND SIGN \<noteq> 0 \<and> sint a < 0 then 45
    else if T AND PLUS \<noteq> 0 then 43 else if T AND SPACE \<noteq> 0 then 32 else 0)"
  define n where "n = (if T AND SIGN \<noteq> 0 \<and> sint a < 0 then - a else a)"
  have T: "T AND SIGN = type AND SIGN" "T AND PLUS = type AND PLUS" "T AND SPACE = type AND SPACE"
    "T AND LEFT = type AND LEFT" "T AND SPECIAL = type AND SPECIAL"
    "T AND ZEROPAD \<noteq> 0 \<longleftrightarrow> type AND ZEROPAD \<noteq> 0 \<and> type AND LEFT = 0"
    by (simp_all add: T_def no_zeropad)
  let ?body = "digit_text type (int b) (unat n)"
  let ?lead = "lead_text T (int b) sign (digit_table type)"
  obtain tmp i where t: "(if n = 0 then Some ((replicate 36 0)[0 := 48], 1)
        else number_digits (digit_table type) n (int b) (replicate 36 0) 0) = Some (tmp, i)"
    "i \<le> length tmp" "rev (take i tmp) = ?body" "i = length ?body" using digit_run [OF b] by blast
  have lead: "?lead = sign_text type a @ prefix_text type (int b)"
    by (simp add: lead_text_def sign_text_def prefix_text_def sign_def T)
  have mag: "unat n = magnitude type a" by (simp add: n_def magnitude_def T)
  have pair: "(if T AND SIGN \<noteq> 0 \<and> sint a < 0 then (45, - a)
      else (if T AND PLUS \<noteq> 0 then 43 else if T AND SPACE \<noteq> 0 then 32 else 0, a)) = (sign, n)"
    by (simp add: sign_def n_def)
  define P where "P = (if int i > precision then int i else precision)"
  define sz1 where "sz1 = (if sign \<noteq> 0 then width - 1 else width)"
  define sz where "sz = (if T AND SPECIAL \<noteq> 0 then if int b = 16 then sz1 - 2 else if int b = 8 then sz1 - 1 else sz1 else sz1)"
  have "number str a (int b) width precision type m
      = Some (number_write T (int b) (if T AND ZEROPAD \<noteq> 0 then 48 else 32) sign (digit_table type) i P (sz - P) tmp (str, m))"
    using b t(1) unfolding number_def digit_table_def [symmetric] T_def [symmetric] Let_def pair case_prod_conv
    unfolding P_def sz_def sz1_def by simp
  moreover have sz: "sz = width - int (length ?lead)" by (auto simp: sz_def sz1_def lead_text_def)
  have zeros: "nat (P - int i) = nat precision - length ?body" using t(4) by (auto simp: P_def)
  have fill: "nat (sz - P) = nat width - (length ?lead + length (replicate (nat precision - length ?body) 48 @ ?body))"
    unfolding sz using t(4) by (auto simp: P_def)
  ultimately show ?thesis
    unfolding number_write_emit [OF t(2) refl] Let_def t(3) zeros fill number_text_def lead mag
    by (simp add: T)
qed

section \<open>The text of a directive, with the flags as the code keeps them\<close>

definition fill_text :: "u32 \<Rightarrow> int \<Rightarrow> u8 list \<Rightarrow> u8 list" where
  "fill_text flags width cs = (if flags AND LEFT \<noteq> 0 then cs @ replicate (nat width - length cs) 32
     else replicate (nat width - length cs) 32 @ cs)"

definition other_text :: "u8 list \<Rightarrow> u8 list" where
  "other_text fmt = (case fmt of [] \<Rightarrow> [37] | c # _ \<Rightarrow> if c = 37 then [37] else [37, c])"

definition convert_text ::
  "strings \<Rightarrow> u8 list \<Rightarrow> u32 \<Rightarrow> int \<Rightarrow> int \<Rightarrow> va_list \<Rightarrow> (va_list \<times> u8 list) option" where
  "convert_text strs fmt flags width precision args =
    (let c = cur fmt; (a, rest) = va_arg args;
         num = (\<lambda>base width fl. Some (rest, number_text a base width precision fl))
     in if c = 99 then Some (rest, fill_text flags width [ucast a])
        else if c = 115 then
          map_option (\<lambda>cs. (rest, fill_text flags width (if precision < 0 then cs else take (nat precision) cs))) (strs a)
        else if c = 111 then num 8 width flags
        else if c = 112 then if width = -1 then num 16 8 (flags OR ZEROPAD) else num 16 width flags
        else if c = 120 then num 16 width (flags OR SMALL)
        else if c = 88 then num 16 width flags
        else if c = 100 \<or> c = 105 then num 10 width (flags OR SIGN)
        else if c = 117 then num 10 width flags
        else if c = 98 then num 2 width flags
        else if c = 110 then None
        else Some (args, other_text fmt))"

text \<open>A string that lies outside the \<open>N\<close> bytes of a buffer is still there after writing into the buffer.\<close>

definition str_away :: "u32 \<Rightarrow> u8 list \<Rightarrow> u32 \<Rightarrow> nat \<Rightarrow> bool" where
  "str_away s cs buf N \<longleftrightarrow> (\<forall>i\<le>length cs. N \<le> unat (s + of_nat i - buf))"

lemma offset_far:
  assumes "N \<le> unat (a - buf)" and "k + n \<le> N" and "N < 4294967296"
  shows "n \<le> unat (a - (buf + of_nat k) :: u32)"
proof -
  define x where "x = a - buf"
  have e: "a - (buf + of_nat k) = x - of_nat k" by (simp add: x_def)
  have "unat (of_nat k :: u32) = k" using assms by (intro unat_small) linarith
  then show ?thesis using assms unfolding e x_def [symmetric] by (simp add: unat_sub_if')
qed

lemma cstring_emit:
  assumes "cstring m s cs" and "str_away s cs buf N" and "k + length xs \<le> N" and "N < 4294967296"
  shows "cstring (snd (emit xs (buf + of_nat k, m))) s cs"
proof -
  have "snd (emit xs (buf + of_nat k, m)) (s + of_nat i) = m (s + of_nat i)" if "i \<le> length cs" for i
    using offset_far [of N "s + of_nat i" buf k "length xs"] that assms emit_outside [of xs "s + of_nat i" "(buf + of_nat k, m)"]
    by (simp add: str_away_def)
  then show ?thesis using assms(1) by (simp add: cstring_iff)
qed

lemma copy_str_emit:
  "cstring m s cs \<Longrightarrow> str_away s cs buf N \<Longrightarrow> k + n \<le> N \<Longrightarrow> N < 4294967296 \<Longrightarrow> n \<le> length cs \<Longrightarrow>
    copy_str n s (buf + of_nat k, m) = emit (take n cs) (buf + of_nat k, m)"
proof (induction n arbitrary: s cs k m)
  case (Suc n)
  obtain c ds where cs: "cs = c # ds" using Suc.prems(5) by (cases cs) auto
  have p: "put c (buf + of_nat k, m) = (buf + of_nat (Suc k), m(buf + of_nat k := c))"
    by (simp add: put_def algebra_simps)
  have "cstring (snd (emit [c] (buf + of_nat k, m))) s cs"
    by (rule cstring_emit [OF Suc.prems(1,2)]) (use Suc.prems in simp_all)
  then have "cstring (m(buf + of_nat k := c)) (s + 1) ds" by (simp add: cs p)
  moreover have "str_away (s + 1) ds buf N" unfolding str_away_def
  proof (intro allI impI)
    fix i assume "i \<le> length ds"
    then show "N \<le> unat (s + 1 + of_nat i - buf)"
      using Suc.prems(2) [unfolded str_away_def, rule_format, of "Suc i"] by (simp add: cs add.assoc)
  qed
  ultimately have "copy_str n (s + 1) (buf + of_nat (Suc k), m(buf + of_nat k := c))
      = emit (take n ds) (buf + of_nat (Suc k), m(buf + of_nat k := c))"
    by (rule Suc.IH) (use Suc.prems cs in simp_all)
  then show ?case using Suc.prems(1) by (simp add: cs p del: of_nat_Suc)
qed simp

lemma sint_of_small: "n < 2147483648 \<Longrightarrow> sint (of_nat n :: u32) = int n"
  by (simp add: signed_of_nat signed_take_bit_int_eq_self)

lemma convert_char_emit: "convert_char a flags w o' = emit (fill_text flags w [ucast a]) o'"
  by (cases "w > 1") (simp_all add: convert_char_def fill_text_def pad_before_emit Let_def case_prod_beta nat_diff_distrib)

lemma convert_other_emit: "0 \<notin> set fmt \<Longrightarrow> convert_other fmt o' = emit (other_text fmt) o'"
  by (cases fmt) (auto simp: convert_other_def other_text_def cur_def Let_def)

lemma convert_string_emit:
  assumes s: "cstring m s cs" "str_away s cs buf N" and n: "length cs < 2147483648" "N < 4294967296"
    and fit: "k + length (fill_text flags w (if p < 0 then cs else take (nat p) cs)) \<le> N"
  shows "convert_string s flags w p (buf + of_nat k, m) =
    Some (emit (fill_text flags w (if p < 0 then cs else take (nat p) cs)) (buf + of_nat k, m))"
proof -
  define l where "l = (if p < 0 then length cs else min (nat p) (length cs))"
  have tk: "(if p < 0 then cs else take (nat p) cs) = take l cs" and lc: "l \<le> length cs"
    by (auto simp: l_def min_def)
  have len: "(if p < 0 then sint (of_nat (length cs) :: u32) else if sint (of_nat (length cs) :: u32) > p then p
      else sint (of_nat (length cs) :: u32)) = int l"
    unfolding sint_of_small [OF n(1)] by (auto simp: l_def)
  have fill: "nat (w - int l) = nat w - l" by simp
  have fit': "k + (nat w - l) + l \<le> N" using fit lc by (simp add: tk fill_text_def split: if_splits)
  have eq: "convert_string s flags w p (buf + of_nat k, m) =
      (let (w', o') = (if flags AND LEFT = 0 then pad_above 32 (int l) w (buf + of_nat k, m) else (w, (buf + of_nat k, m)))
       in Some (snd (pad_above 32 (int l) w' (copy_str l s o'))))"
    using strlen_spec [OF s(1)] len by (simp add: convert_string_def Let_def case_prod_beta)
  show ?thesis
  proof (cases "flags AND LEFT = 0")
    case True
    let ?sp = "replicate (nat w - l) 32"
    let ?m = "snd (emit ?sp (buf + of_nat k, m))"
    have e: "emit ?sp (buf + of_nat k, m) = (buf + of_nat (k + (nat w - l)), ?m)" by (rule prod_eqI) simp_all
    have "cstring ?m s cs" by (rule cstring_emit [OF s]) (use fit' n in simp_all)
    then have "copy_str l s (buf + of_nat (k + (nat w - l)), ?m) = emit (take l cs) (buf + of_nat (k + (nat w - l)), ?m)"
      by (rule copy_str_emit [OF _ s(2)]) (use fit' n lc in simp_all)
    then have c: "copy_str l s (emit ?sp (buf + of_nat k, m)) = emit (take l cs) (emit ?sp (buf + of_nat k, m))"
      unfolding e [symmetric] .
    obtain w' where w': "pad_above 32 (int l) w (buf + of_nat k, m) = (w', emit ?sp (buf + of_nat k, m))" "nat (w' - int l) = 0"
      using pad_above_emit [of 32 "int l" w "(buf + of_nat k, m)"] pad_above_left [of 32 "int l" w "(buf + of_nat k, m)"]
      by (cases "pad_above 32 (int l) w (buf + of_nat k, m)") (simp add: fill)
    have "snd (pad_above 32 (int l) w' o') = o'" for o' by (simp only: pad_above_emit w'(2)) simp
    then show ?thesis using True lc unfolding eq tk by (simp add: w'(1) c fill_text_def)
  next
    case False
    have "copy_str l s (buf + of_nat k, m) = emit (take l cs) (buf + of_nat k, m)"
      by (rule copy_str_emit [OF s]) (use fit' n lc in simp_all)
    then show ?thesis using False lc unfolding eq tk
      by (simp add: Let_def pad_above_emit fill fill_text_def)
  qed
qed

text \<open>The strings the arguments may point to, outside the buffer.\<close>

definition strs_ok :: "strings \<Rightarrow> mem \<Rightarrow> u32 \<Rightarrow> nat \<Rightarrow> bool" where
  "strs_ok strs m buf N \<longleftrightarrow>
     (\<forall>s cs. strs s = Some cs \<longrightarrow> cstring m s cs \<and> str_away s cs buf N \<and> length cs < 2147483648)"

lemma strs_ok_emit: "strs_ok strs m buf N \<Longrightarrow> k + length xs \<le> N \<Longrightarrow> N < 4294967296 \<Longrightarrow>
    strs_ok strs (snd (emit xs (buf + of_nat k, m))) buf N"
  unfolding strs_ok_def using cstring_emit by blast

lemma number_fits:
  assumes "2 \<le> b" "b \<le> (36 :: int)"
  shows "number str a b width precision type m = Some (emit (number_text a b width precision type) (str, m))"
  using number_emit [of "nat b"] assms by simp

lemma convert_emit:
  assumes t: "convert_text strs fmt flags w p args = Some (args', cs)" and ok: "strs_ok strs m buf N"
    and fit: "k + length cs \<le> N" "N < 4294967296" and nz: "0 \<notin> set fmt"
  shows "convert b fmt flags w p args (buf + of_nat k, m) = Some (args', emit cs (buf + of_nat k, m))"
proof -
  consider (char) "cur fmt = 99" | (str) "cur fmt = 115" | (other) "cur fmt \<noteq> 99 \<and> cur fmt \<noteq> 115" by blast
  then show ?thesis
  proof cases
    case char
    then show ?thesis using t by (auto simp: convert_text_def convert_def va_arg_def convert_char_emit)
  next
    case str
    then obtain ds where ds: "strs (args 0) = Some ds" "cs = fill_text flags w (if p < 0 then ds else take (nat p) ds)"
      "args' = (\<lambda>n. args (Suc n))" using t by (auto simp: convert_text_def va_arg_def)
    have "convert_string (args 0) flags w p (buf + of_nat k, m) = Some (emit cs (buf + of_nat k, m))"
      unfolding ds(2) by (rule convert_string_emit [of m "args 0" ds buf N]) (use ok ds fit in \<open>auto simp: strs_ok_def\<close>)
    then show ?thesis using str ds(3) by (simp add: convert_def va_arg_def)
  next
    case other
    then show ?thesis using t nz
      by (auto simp: convert_text_def convert_def va_arg_def Let_def number_fits convert_other_emit split: if_splits)
  qed
qed

lemma parse_flags_set: "set (snd (parse_flags fmt flags)) \<subseteq> set fmt"
  by (induction fmt flags rule: parse_flags.induct) auto

lemma skip_atoi_set: "set (snd (skip_atoi s i)) \<subseteq> set s"
  by (induction s i rule: skip_atoi.induct) auto

lemma parse_width_set: "set (fst (snd (snd (parse_width fmt flags args)))) \<subseteq> set fmt"
  using skip_atoi_set [of fmt 0] by (auto simp: parse_width_def va_arg_def Let_def case_prod_beta)

lemma set_tl: "set (tl xs) \<subseteq> set xs"
  by (cases xs) auto

lemma parse_precision_set: "set (fst (snd (parse_precision fmt args))) \<subseteq> set fmt"
  using skip_atoi_set [of "tl fmt" 0] set_tl [of fmt]
  by (auto simp: parse_precision_def va_arg_def Let_def case_prod_beta)

lemma parse_spec_set:
  assumes "parse_spec fmt args = (flags, w, p, rest, args')"
  shows "set rest \<subseteq> set fmt"
proof -
  obtain f1 r1 where 1: "parse_flags fmt 0 = (f1, r1)" by (cases "parse_flags fmt 0")
  obtain w2 f2 r2 a2 where 2: "parse_width r1 f1 args = (w2, f2, r2, a2)" by (cases "parse_width r1 f1 args")
  obtain p3 r3 a3 where 3: "parse_precision r2 a2 = (p3, r3, a3)" by (cases "parse_precision r2 a2")
  have "rest = parse_qualifier r3" using assms by (simp add: parse_spec_def 1 2 3)
  then have "set rest \<subseteq> set r3" using set_tl [of r3] by (simp add: parse_qualifier_def)
  then show ?thesis
    using parse_flags_set [of fmt 0] parse_width_set [of r1 f1 args] parse_precision_set [of r2 a2] by (simp add: 1 2 3)
qed

section \<open>The code reads a directive as it is meant\<close>

lemma and_flag: "w AND 2 ^ n = 0 \<longleftrightarrow> \<not> bit (w :: u32) n"
  by (rule and_exp_eq_0_iff_not_bit)

lemma flag_tests:
  "w AND ZEROPAD = 0 \<longleftrightarrow> \<not> bit w 0" "w AND SIGN = 0 \<longleftrightarrow> \<not> bit w 1" "w AND PLUS = 0 \<longleftrightarrow> \<not> bit w 2"
  "w AND SPACE = 0 \<longleftrightarrow> \<not> bit w 3" "w AND LEFT = 0 \<longleftrightarrow> \<not> bit w 4" "w AND SPECIAL = 0 \<longleftrightarrow> \<not> bit w 5"
  "w AND SMALL = 0 \<longleftrightarrow> \<not> bit w 6"
  using and_flag [of w 0] and_flag [of w 1] and_flag [of w 2] and_flag [of w 3] and_flag [of w 4] and_flag [of w 5] and_flag [of w 6]
  by (simp_all add: flag_defs)

lemma bit_or_flag: "n < 32 \<Longrightarrow> bit (w OR 2 ^ n :: u32) i \<longleftrightarrow> bit w i \<or> i = n"
  by (auto simp: bit_or_iff bit_exp_iff)

lemma bit_flags:
  "bit (w OR ZEROPAD) i \<longleftrightarrow> bit w i \<or> i = 0" "bit (w OR SIGN) i \<longleftrightarrow> bit w i \<or> i = 1" "bit (w OR PLUS) i \<longleftrightarrow> bit w i \<or> i = 2"
  "bit (w OR SPACE) i \<longleftrightarrow> bit w i \<or> i = 3" "bit (w OR LEFT) i \<longleftrightarrow> bit w i \<or> i = 4" "bit (w OR SPECIAL) i \<longleftrightarrow> bit w i \<or> i = 5"
  "bit (w OR SMALL) i \<longleftrightarrow> bit w i \<or> i = 6"
  using bit_or_flag [of 0 w i] bit_or_flag [of 1 w i] bit_or_flag [of 2 w i] bit_or_flag [of 3 w i] bit_or_flag [of 4 w i]
    bit_or_flag [of 5 w i] bit_or_flag [of 6 w i]
  by (simp_all add: flag_defs)

lemma parse_flags_reads:
  "snd (parse_flags fmt w) = dropWhile is_flag fmt"
  "bit (fst (parse_flags fmt w)) i \<longleftrightarrow> bit w i \<or> (i, True) \<in>
     (\<lambda>(i, c). (i, c \<in> set (takeWhile is_flag fmt))) ` {(0, 48), (2, 43), (3, 32), (4, 45), (5, 35)}"
proof (induction fmt w rule: parse_flags.induct)
  case (2 c fmt w)
  {
    case 1
    then show ?case using 2 by (auto simp: is_flag_def)
  next
    case 2
    then show ?case using "2.IH" by (auto simp: is_flag_def bit_flags)
  }
qed simp_all

lemma is_digit_byte: "is_digit c \<longleftrightarrow> digit_byte c"
proof -
  obtain k where "unat c = k" "uint c = int k" "k < 256" using u8_lt [of c] by simp
  then show ?thesis by (auto simp: is_digit_def digit_byte_def sint_u8)
qed

lemma skip_atoi_reads:
  "skip_atoi s (int v) = (int (foldl (\<lambda>v c. 10 * v + (unat c - 48)) v (takeWhile digit_byte s)), dropWhile digit_byte s)"
proof (induction s arbitrary: v)
  case (Cons c s)
  show ?case
  proof (cases "digit_byte c")
    case True
    obtain k where "unat c = k" "uint c = int k" "k < 256" using u8_lt [of c] by simp
    then have "sint c = int (unat c)" "48 \<le> unat c" using True by (auto simp: digit_byte_def sint_u8)
    then have e: "int v * 10 + sint c - 48 = int (10 * v + (unat c - 48))" by simp
    have "skip_atoi (c # s) (int v) = skip_atoi s (int (10 * v + (unat c - 48)))"
      by (simp only: skip_atoi.simps is_digit_byte True if_True e)
    then show ?thesis using True unfolding Cons.IH by simp
  qed (simp add: is_digit_byte)
qed simp

lemma skip_atoi_decimal: "skip_atoi s 0 = (int (decimal (takeWhile digit_byte s)), dropWhile digit_byte s)"
  using skip_atoi_reads [of s 0] by (simp add: decimal_def)

definition as_int :: "nat option \<Rightarrow> int" where
  "as_int x = (case x of None \<Rightarrow> - 1 | Some n \<Rightarrow> int n)"

lemma cur_take: "cur s = c \<longleftrightarrow> take 1 s = [c]" if "c \<noteq> 0"
  using that by (cases s) (auto simp: cur_def)

lemma no_digit: "\<not> digit_byte (cur s) \<Longrightarrow> dropWhile digit_byte s = s" "\<not> digit_byte (cur s) \<Longrightarrow> takeWhile digit_byte s = []"
  by (cases s; simp add: cur_def)+

lemma some_digit: "digit_byte (cur s) \<Longrightarrow> takeWhile digit_byte s \<noteq> []"
  by (cases s) (auto simp: cur_def digit_byte_def)

lemma star_no_digit: "take 1 s = [42] \<Longrightarrow> \<not> digit_byte (cur s)"
  by (cases s) (auto simp: cur_def digit_byte_def)

lemma parse_width_reads:
  "fst (snd (snd (parse_width s flags args))) = dropWhile digit_byte s"
  "take 1 s \<noteq> [42] \<Longrightarrow> parse_width s flags args =
    (as_int (if takeWhile digit_byte s = [] then None else Some (decimal (takeWhile digit_byte s))), flags, dropWhile digit_byte s, args)"
  using no_digit [of s] some_digit [of s] star_no_digit [of s]
  by (auto simp: parse_width_def is_digit_byte skip_atoi_decimal cur_take as_int_def va_arg_def Let_def)

lemma parse_precision_reads:
  "fst (snd (parse_precision s args)) = (if take 1 s = [46] then dropWhile digit_byte (tl s) else s)"
  "take 2 s \<noteq> [46, 42] \<Longrightarrow> parse_precision s args =
    (as_int (if take 1 s = [46] then Some (decimal (takeWhile digit_byte (tl s))) else None),
     if take 1 s = [46] then dropWhile digit_byte (tl s) else s, args)"
proof -
  have star: "take 1 s = [46] \<Longrightarrow> take 1 (tl s) = [42] \<Longrightarrow> take 2 s = [46, 42]"
    by (cases s) (auto simp: numeral_2_eq_2)
  show "fst (snd (parse_precision s args)) = (if take 1 s = [46] then dropWhile digit_byte (tl s) else s)"
    using no_digit [of "tl s"]
    by (auto simp: parse_precision_def is_digit_byte skip_atoi_decimal cur_take va_arg_def Let_def)
  show "parse_precision s args =
    (as_int (if take 1 s = [46] then Some (decimal (takeWhile digit_byte (tl s))) else None),
     if take 1 s = [46] then dropWhile digit_byte (tl s) else s, args)" if "take 2 s \<noteq> [46, 42]"
    using that star no_digit [of "tl s"]
    by (auto simp: parse_precision_def is_digit_byte skip_atoi_decimal cur_take as_int_def decimal_def Let_def)
qed

definition flags_agree :: "u32 \<Rightarrow> directive \<Rightarrow> bool" where
  "flags_agree w d \<longleftrightarrow> bit w 0 = f_zero d \<and> bit w 2 = f_plus d \<and> bit w 3 = f_space d \<and> bit w 4 = f_minus d \<and> bit w 5 = f_hash d"

lemma parse_spec_rest:
  assumes "parse_spec fmt args = (flags, w, p, rest, args')"
  shows "rest = after_fields fmt"
proof -
  obtain f1 r1 where 1: "parse_flags fmt 0 = (f1, r1)" by (cases "parse_flags fmt 0")
  obtain w2 f2 r2 a2 where 2: "parse_width r1 f1 args = (w2, f2, r2, a2)" by (cases "parse_width r1 f1 args")
  obtain p3 r3 a3 where 3: "parse_precision r2 a2 = (p3, r3, a3)" by (cases "parse_precision r2 a2")
  have "rest = parse_qualifier r3" using assms by (simp add: parse_spec_def 1 2 3)
  moreover have "r1 = after_flags fmt" using parse_flags_reads(1) [of fmt 0] by (simp add: 1 after_flags_def)
  moreover from this [symmetric] have "r2 = after_width fmt" using parse_width_reads(1) [of r1 f1 args] by (simp add: 2 after_width_def)
  moreover from this [symmetric] have "r3 = after_precision fmt"
    using parse_precision_reads(1) [of r2 a2] by (simp add: 3 after_precision_def Let_def)
  ultimately show ?thesis by (auto simp: after_fields_def parse_qualifier_def cur_take Let_def)
qed

lemma parse_spec_reads:
  assumes "\<not> has_star fmt"
  obtains flags where "parse_spec fmt args =
      (flags, as_int (f_width (read_directive fmt)), as_int (f_precision (read_directive fmt)), after_fields fmt, args)"
    and "flags_agree flags (read_directive fmt)" and "\<not> bit flags 1" and "\<not> bit flags 6"
proof -
  obtain f where f: "parse_flags fmt 0 = (f, after_flags fmt)"
    using parse_flags_reads(1) [of fmt 0] by (cases "parse_flags fmt 0") (simp add: after_flags_def)
  note bits = parse_flags_reads(2) [of fmt 0, unfolded f fst_conv]
  have star: "take 1 (after_flags fmt) \<noteq> [42]" "take 2 (after_width fmt) \<noteq> [46, 42]" using assms by (simp_all add: has_star_def)
  have "parse_spec fmt args =
      (f, as_int (f_width (read_directive fmt)), as_int (f_precision (read_directive fmt)), after_fields fmt, args)"
    by (simp add: parse_spec_def f parse_width_reads(2) [OF star(1)] after_width_def [symmetric] parse_precision_reads(2) [OF star(2)]
        read_directive_def after_fields_def after_precision_def parse_qualifier_def cur_take Let_def)
  then show thesis
    by (rule that) (auto simp: flags_agree_def read_directive_def Let_def bits)
qed

lemma digit_table_char: "k < 36 \<Longrightarrow> digit_table w ! k = digit_char (bit w 6) k"
proof -
  have "list_all (\<lambda>k. lower_digits ! k = digit_char True k \<and> upper_digits ! k = digit_char False k) [0..<36]" by code_simp
  then have "lower_digits ! k = digit_char True k \<and> upper_digits ! k = digit_char False k" if "k < 36"
    using that unfolding list_all_iff set_upt by simp
  then show "k < 36 \<Longrightarrow> digit_table w ! k = digit_char (bit w 6) k" unfolding digit_table_def flag_tests by (cases "bit w 6") simp_all
qed

lemma magnitude_abs: "magnitude w a = (if bit w 1 then nat \<bar>sint a\<bar> else unat a)"
proof (cases "bit w 1")
  case True
  obtain k where k: "unat a = k" "uint a = int k" "k < 4294967296" using u32_lt [of a] by simp
  have "sint a = (int k + 2147483648) mod 4294967296 - 2147483648"
    using k(2) by (simp add: sint_uint signed_take_bit_eq_take_bit_shift take_bit_eq_mod)
  then have "sint a = (if k < 2147483648 then int k else int k - 4294967296)"
    using k(3) by (cases "k < 2147483648") (simp_all add: mod_pos_geq mod_pos_pos_trivial)
  moreover have "unat (- a) = 4294967296 - k" if "k \<noteq> 0" using k(1) that unat_sub_if' [of 0 a] by simp
  ultimately have "(if sint a < 0 then unat (- a) else unat a) = nat \<bar>sint a\<bar>"
    using k(1,3) by (cases "k < 2147483648") (simp_all add: nat_diff_distrib)
  then show ?thesis using True by (simp add: magnitude_def flag_tests)
qed (simp add: magnitude_def flag_tests)

lemma number_text_form:
  assumes w: "flags_agree w d" and b: "2 \<le> b" "b \<le> 36"
    and sz: "nat width = default_to 0 (f_width d)" and p: "nat precision = default_to 0 (f_precision d)"
  shows "number_text a (int b) width precision w =
    number_form d b (bit w 6) (bit w 1 \<and> sint a < 0) (if bit w 1 then nat \<bar>sint a\<bar> else unat a)"
proof -
  have sign: "sign_text w a = (if bit w 1 \<and> sint a < 0 then [45] else if f_plus d then [43] else if f_space d then [32] else [])"
    using w by (simp add: sign_text_def flag_tests flags_agree_def)
  have "digit_char (bit w 6) 33 = (if bit w 6 then 120 else 88)" by (simp add: digit_char_def)
  then have prefix: "prefix_text w (int b) = (if f_hash d \<and> b = 8 then [48]
      else if f_hash d \<and> b = 16 then [48, if bit w 6 then 120 else 88] else [])"
    using w digit_table_char [of 33 w] by (simp add: prefix_text_def flag_tests flags_agree_def)
  have "map ((!) (digit_table w)) (digs b n) = map (digit_char (bit w 6)) (digs b n)" for n
    using less_le_trans [OF digs_bound [OF b(1)] b(2)] by (intro map_cong refl digit_table_char)
  then have digits: "digit_text w (int b) n = (if n = 0 then [48] else map (digit_char (bit w 6)) (digs b n))" for n
    by (simp add: digit_text_def)
  have just: "w AND LEFT \<noteq> 0 \<longleftrightarrow> f_minus d" "w AND ZEROPAD \<noteq> 0 \<longleftrightarrow> f_zero d"
    using w by (simp_all add: flag_tests flags_agree_def)
  show ?thesis unfolding number_text_def number_form_def Let_def sign prefix digits magnitude_abs sz p just append_assoc length_append add.assoc ..
qed

lemma default_as_int [simp]: "nat (as_int x) = default_to 0 x" "nat (int n) = n"
  by (cases x) (simp_all add: as_int_def default_to_def)

lemma fill_text_field: "flags_agree w d \<Longrightarrow> fill_text w (as_int (f_width d)) cs = in_field d cs"
  by (simp add: fill_text_def in_field_def flag_tests flags_agree_def Let_def)

lemma flags_agree_or [simp]: "flags_agree (w OR SIGN) d = flags_agree w d" "flags_agree (w OR SMALL) d = flags_agree w d"
  "flags_agree w d \<Longrightarrow> flags_agree (w OR ZEROPAD) (d\<lparr>f_width := x, f_zero := True\<rparr>)"
  by (simp_all add: flags_agree_def bit_flags)

lemma convert_text_meant:
  assumes w: "flags_agree w d" "\<not> bit w 1" "\<not> bit w 6" and c: "f_conv d = take 1 s" "0 \<notin> set s"
  shows "convert_text strs s w (as_int (f_width d)) (as_int (f_precision d)) args = directive_text strs d args"
proof -
  define W where "W = as_int (f_width d)"
  define P where "P = as_int (f_precision d)"
  have num: "number_text a (int b) W P v =
      number_form d b (bit v 6) (bit v 1 \<and> sint a < 0) (if bit v 1 then nat \<bar>sint a\<bar> else unat a)"
    if "flags_agree v d" "2 \<le> b" "b \<le> 36" for a b v
    using number_text_form [OF that] by (simp add: W_def P_def)
  note nums = num [of w 8] num [of w 10] num [of w 2] num [of w 16] num [of "w OR SMALL" 16] num [of "w OR SIGN" 10]
  have ptr: "number_text a 16 8 P (w OR ZEROPAD)
      = number_form (d\<lparr>f_width := Some 8, f_zero := True\<rparr>) 16 False False (unat a)" for a
    using number_text_form [of "w OR ZEROPAD" "d\<lparr>f_width := Some 8, f_zero := True\<rparr>" 16 8 P a] w
    by (simp add: default_to_def bit_flags P_def)
  have prec: "(if P < 0 then cs else take (nat P) cs)
      = take (default_to (length cs) (f_precision d)) cs" for cs :: "u8 list"
    by (cases "f_precision d") (simp_all add: P_def as_int_def default_to_def)
  have none: "W = - 1 \<longleftrightarrow> f_width d = None" by (cases "f_width d") (simp_all add: W_def as_int_def)
  have tk: "f_conv d = [x] \<longleftrightarrow> cur s = x" if "x \<noteq> 0" for x unfolding c(1) using cur_take [OF that, of s] by simp
  have other: "other_text s = (if cur s = 37 then [37] else 37 # f_conv d)"
    using c by (cases s) (auto simp: other_text_def cur_def)
  have field: "fill_text w W cs = in_field d cs" for cs unfolding W_def by (rule fill_text_field [OF w(1)])
  show ?thesis unfolding W_def [symmetric] P_def [symmetric]
    using nums w unfolding convert_text_def directive_text_def Let_def va_arg_def case_prod_conv prec none
    by (simp add: tk field ptr other bit_flags)
qed

lemma vsprintf_loop_emit:
  "render strs fmt args = Some out \<Longrightarrow> strs_ok strs m buf N \<Longrightarrow> k + length out \<le> N \<Longrightarrow> N < 4294967296 \<Longrightarrow>
    0 \<notin> set fmt \<Longrightarrow> vsprintf_loop b fmt args (buf + of_nat k, m) = Some (emit out (buf + of_nat k, m))"
proof (induction strs fmt args arbitrary: out k m rule: render.induct)
  case (1 strs args)
  then show ?case by simp
next
  case (2 strs c fmt args)
  have fwd: "emit xs (buf + of_nat k, m) = (buf + of_nat (k + length xs), snd (emit xs (buf + of_nat k, m)))" for xs
    by (rule prod_eqI) simp_all
  show ?case
  proof (cases "c = 37")
    case False
    obtain t where t: "render strs fmt args = Some t" "out = c # t" using 2(3) False by auto
    have ok: "strs_ok strs (snd (emit [c] (buf + of_nat k, m))) buf N"
      by (rule strs_ok_emit [OF 2(4)]) (use 2(5,6) t in simp_all)
    have "vsprintf_loop b fmt args (emit [c] (buf + of_nat k, m)) = Some (emit t (emit [c] (buf + of_nat k, m)))"
      using 2(1) [OF False t(1) ok, of "k + 1"] 2(5-7) t(2) fwd [of "[c]"] by simp
    then show ?thesis using False t(2) by simp
  next
    case True
    let ?d = "read_directive fmt" and ?rest = "after_fields fmt"
    obtain args2 cs t where t: "\<not> has_star fmt" "directive_text strs ?d args = Some (args2, cs)"
      "render strs (tl ?rest) args2 = Some t" "out = cs @ t"
      using 2(3) True by (auto split: option.splits if_splits)
    obtain flags where ps: "parse_spec fmt args = (flags, as_int (f_width ?d), as_int (f_precision ?d), ?rest, args)"
      and fl: "flags_agree flags ?d" "\<not> bit flags 1" "\<not> bit flags 6" by (rule parse_spec_reads [OF t(1)])
    have nz: "0 \<notin> set ?rest" "0 \<notin> set (tl ?rest)" using parse_spec_set [OF ps] set_tl [of ?rest] 2(7) by auto
    have "f_conv ?d = take 1 ?rest" by (simp add: read_directive_def Let_def)
    from convert_text_meant [OF fl this nz(1), of strs args] t(2)
    have meant: "convert_text strs ?rest flags (as_int (f_width ?d)) (as_int (f_precision ?d)) args = Some (args2, cs)" by simp
    have c: "convert b ?rest flags (as_int (f_width ?d)) (as_int (f_precision ?d)) args (buf + of_nat k, m) = Some (args2, emit cs (buf + of_nat k, m))"
      by (rule convert_emit [OF meant 2(4)]) (use 2(5,6) t(4) nz in simp_all)
    have ok: "strs_ok strs (snd (emit cs (buf + of_nat k, m))) buf N"
      by (rule strs_ok_emit [OF 2(4)]) (use 2(5,6) t(4) in simp_all)
    have "vsprintf_loop b (tl ?rest) args2 (emit cs (buf + of_nat k, m)) = Some (emit t (emit cs (buf + of_nat k, m)))"
      using 2(2) [OF _ t(1,2) refl t(3) ok, of "k + length cs"] True 2(5,6) t(4) nz fwd [of cs] by simp
    then show ?thesis using True by (simp add: ps c t(4))
  qed
qed

section \<open>Reading a number back\<close>

lemma upper_digits_nth: "d < 10 \<Longrightarrow> upper_digits ! d = of_nat (48 + d)"
proof -
  have "\<forall>d<10. upper_digits ! d = of_nat (48 + d)" by (simp add: upper_digits_def All_less_Suc2 eval_nat_numeral)
  then show "d < 10 \<Longrightarrow> upper_digits ! d = of_nat (48 + d)" by blast
qed

lemma digit_char: "d < 10 \<Longrightarrow> is_digit (of_nat (48 + d)) \<and> sint (of_nat (48 + d) :: u8) = int (48 + d)"
  by (simp add: is_digit_def signed_of_nat signed_take_bit_int_eq_self del: of_nat_add)

lemma skip_atoi_digits:
  "\<forall>d\<in>set ds. d < 10 \<Longrightarrow> \<not> is_digit (cur rest) \<Longrightarrow>
    skip_atoi (map ((!) upper_digits) ds @ rest) (int v) = (int (foldl (\<lambda>v d. v * 10 + d) v ds), rest)"
proof (induction ds arbitrary: v)
  case Nil
  then show ?case by (cases rest) (simp_all add: cur_def)
next
  case (Cons d ds)
  have d: "upper_digits ! d = of_nat (48 + d)" "d < 10" using Cons.prems upper_digits_nth by auto
  have v: "int v * 10 + int (48 + d) - 48 = int (v * 10 + d)" by simp
  show ?case using Cons digit_char [OF d(2)] by (simp add: d(1) v del: of_nat_add of_nat_mult)
qed

lemma number_text_plain: "number_text a 10 (-1) (-1) 0 = digit_text 0 10 (unat a)"
  by (simp add: number_text_def sign_text_def prefix_text_def magnitude_def Let_def)

lemma skip_atoi_number:
  assumes "\<not> is_digit (cur rest)"
  shows "skip_atoi (digit_text 0 10 n @ rest) 0 = (int n, rest)"
proof (cases "n = 0")
  case True
  have "skip_atoi (map ((!) upper_digits) [0] @ rest) (int 0) = (int 0, rest)"
    using skip_atoi_digits [of "[0]" rest 0] assms by simp
  then show ?thesis using True upper_digits_nth [of 0] by (simp add: digit_text_def)
next
  case False
  have "\<forall>d\<in>set (digs 10 n). d < 10" using digs_bound [of 10] by simp
  from skip_atoi_digits [OF this assms, of 0] show ?thesis
    using False digs_value [of 10 n] by (simp add: digit_text_def digit_table_def)
qed

lemma vsprintf_renders_text:
  assumes r: "render strs fmt args = Some out" and fmt: "0 \<notin> set fmt"
    and ok: "strs_ok strs m buf (Suc (length out))" and n: "Suc (length out) < 4294967296"
  shows "\<exists>m'. vsprintf buf fmt args m = Some (of_nat (length out), m') \<and>
    (\<forall>i<length out. m' (buf + of_nat i) = out ! i) \<and> m' (buf + of_nat (length out)) = 0 \<and>
    (\<forall>a. length out < unat (a - buf) \<longrightarrow> m' a = m a)"
proof -
  let ?m = "snd (emit out (buf, m))"
  have loop: "vsprintf_loop buf fmt args (buf, m) = Some (emit out (buf, m))"
    using vsprintf_loop_emit [OF r ok, of 0] fmt n by simp
  have e: "emit out (buf, m) = (buf + of_nat (length out), ?m)" by (rule prod_eqI) simp_all
  have v: "vsprintf buf fmt args m = Some (of_nat (length out), ?m(buf + of_nat (length out) := 0))"
    unfolding vsprintf_def loop by (subst e) simp
  have "buf + of_nat i \<noteq> buf + of_nat (length out)" if "i < length out" for i
    using that n by (simp add: of_nat_eq_word)
  moreover have "?m (buf + of_nat i) = out ! i" if "i < length out" for i
    using emit_inside [of out i "(buf, m)"] that n by simp
  moreover have "?m a = m a \<and> a \<noteq> buf + of_nat (length out)" if "length out < unat (a - buf)" for a
    using emit_outside [of out a "(buf, m)"] that n by (auto simp: unat_small)
  ultimately show ?thesis using v by auto
qed

section \<open>Properties\<close>

text \<open>
  C24. \<open>vsprintf\<close> writes exactly the text the format and the arguments stand for, terminates it, returns its
  length and touches no other byte, for every format without \<open>%n\<close> and without a star for a width or a precision,
  whose \<open>%s\<close> arguments are strings outside the bytes written. The text is that of \<open>render\<close>, which reads flags, widths and
  precisions off the format on its own.
\<close>

theorem vsprintf_renders:
  assumes r: "render strs fmt args = Some out" and fmt: "0 \<notin> set fmt"
    and ok: "strs_ok strs m buf (Suc (length out))" and n: "Suc (length out) < 4294967296"
  shows "\<exists>m'. vsprintf buf fmt args m = Some (of_nat (length out), m') \<and>
    (\<forall>i<length out. m' (buf + of_nat i) = out ! i) \<and> m' (buf + of_nat (length out)) = 0 \<and>
    (\<forall>a. length out < unat (a - buf) \<longrightarrow> m' a = m a)"
  using assms by (rule vsprintf_renders_text)

definition example_format :: "u8 list" where "example_format = map of_char ''n=%-5d|%+.3d|%#x|%4.1s|%05i%%''"
definition example_text :: "u8 list" where "example_text = map of_char ''n=-42  |+007|0xff|   s|-0001%''"

definition example_args :: va_list where
  "example_args n = (if n = 0 then - 42 else if n = 1 then 7 else if n = 2 then 255 else if n = 3 then 0x2000 else - 1)"

lemma render_example: "render (\<lambda>s. if s = 0x2000 then Some [115, 121] else None) example_format example_args = Some example_text"
  by code_simp

lemma example_ends: "0 \<notin> set example_format" "0 \<notin> set example_text" "length example_text = 29"
  by code_simp+

theorem vsprintf_renders_witness:
  "\<exists>m'. vsprintf 0x1000 example_format example_args ((\<lambda>_. 0)(0x2000 := 115, 0x2001 := 121)) = Some (29, m') \<and>
    cstring m' 0x1000 example_text"
proof -
  let ?m = "(\<lambda>_. 0)(0x2000 := 115, 0x2001 := 121) :: mem"
  have ok: "strs_ok (\<lambda>s. if s = 0x2000 then Some [115, 121] else None) ?m 0x1000 (Suc (length example_text))"
    by (simp add: strs_ok_def str_away_def example_ends(3) All_less_Suc2 less_Suc_eq_le [symmetric])
  obtain m' where m': "vsprintf 0x1000 example_format example_args ?m = Some (of_nat (length example_text), m')"
    "\<forall>i<length example_text. m' (0x1000 + of_nat i) = example_text ! i" "m' (0x1000 + of_nat (length example_text)) = 0"
    using vsprintf_renders [OF render_example example_ends(1) ok] example_ends(3) by auto
  have "cstring m' 0x1000 example_text" using m'(2,3) example_ends(2) by (auto simp: cstring_iff in_set_conv_nth)
  then show ?thesis using m'(1) example_ends(3) by auto
qed

text \<open>
  A star stays where it is: its argument is taken, but the star is then read as the conversion and printed after
  the percent sign, and the rest of the directive as plain text, so \<open>%*d\<close> prints itself.
\<close>

theorem vsprintf_star: "vsprintf_loop buf (37 # 42 # fmt) args o' = vsprintf_loop buf fmt (snd (va_arg args)) (put 42 (put 37 o'))"
  by (simp add: parse_spec_def parse_width_def parse_precision_def parse_qualifier_def cur_def is_digit_def sint_u8 convert_def
      convert_other_def va_arg_def Let_def)

text \<open>
  What \<open>number\<close> prints for \<open>%u\<close> is read back by the \<open>skip_atoi\<close> of the same file: the value, and the
  pointer at what follows the digits.
\<close>

theorem number_reads_back:
  assumes "uint a < 2147483648" and "\<not> is_digit (cur rest)"
  shows "\<exists>ds. number str a 10 (-1) (-1) 0 m = Some (emit ds (str, m)) \<and> skip_atoi (ds @ rest) 0 = (uint a, rest)"
  using number_fits [of 10 str a "-1" "-1" 0 m] skip_atoi_number [OF assms(2), of "unat a"]
  by (auto simp: number_text_plain)

theorem number_reads_back_witness:
  "\<exists>ds. number 0 1205 10 (-1) (-1) 0 (\<lambda>_. 0) = Some (emit ds (0, \<lambda>_. 0)) \<and> skip_atoi (ds @ [46]) 0 = (1205, [46])"
  using number_reads_back [of 1205 "[46]" 0 "\<lambda>_. 0"] by (simp add: is_digit_def cur_def)

lemma convert_returns: "cur fmt \<noteq> 115 \<Longrightarrow> \<exists>r. convert b fmt flags w p args o' = Some r"
  by (simp add: convert_def va_arg_def Let_def number_fits)

lemma vsprintf_loop_returns: "115 \<notin> set (conversions fmt) \<Longrightarrow> \<exists>r. vsprintf_loop b fmt args o' = Some r"
proof (induction b fmt args o' rule: vsprintf_loop.induct)
  case (1 b args o')
  then show ?case by simp
next
  case (2 b c fmt args o')
  show ?case
  proof (cases "c = 37")
    case False
    then show ?thesis using 2 by simp
  next
    case True
    obtain flags w p rest args1 where ps: "parse_spec fmt args = (flags, w, p, rest, args1)"
      by (cases "parse_spec fmt args")
    have "rest = after_fields fmt" by (rule parse_spec_rest [OF ps])
    then have rest: "115 \<notin> set (take 1 rest)" "115 \<notin> set (conversions (tl rest))" using 2(3) True by simp_all
    then have "cur rest \<noteq> 115" by (cases rest) (auto simp: cur_def)
    then obtain args2 o2 where c: "convert b rest flags w p args1 o' = Some (args2, o2)"
      using convert_returns [of rest b flags w p args1 o'] by auto
    have "\<exists>r. vsprintf_loop b (tl rest) args2 o2 = Some r"
      using 2(2) [OF _ ps [symmetric] refl refl refl refl, of "(args2, o2)" args2 o2] True rest c by simp
    then show ?thesis using True by (simp add: ps c)
  qed
qed

text \<open>
  C25. \<open>vsprintf\<close> ends on every format none of whose conversions is \<open>%s\<close> (a plain letter s may occur in it), whatever flags,
  widths, stars and qualifiers it has and wherever it breaks off, and for every memory and every argument.
\<close>

theorem vsprintf_returns:
  assumes "115 \<notin> set (conversions fmt)"
  shows "\<exists>n m'. vsprintf buf fmt args m = Some (n, m')"
  using vsprintf_loop_returns [OF assms, of buf args "(buf, m)"] by (auto simp: vsprintf_def)

theorem vsprintf_returns_witness: "\<exists>n m'. vsprintf 0 (map of_char ''tasks: %-*d 100%% sure, %5.3'') (\<lambda>_. 7) (\<lambda>_. 0) = Some (n, m')"
proof (rule vsprintf_returns)
  show "115 \<notin> set (conversions (map of_char ''tasks: %-*d 100%% sure, %5.3''))" by code_simp
qed

end
