(* ===== verification/Printk.thy ===== *)
theory Printk
  imports Console Uart Vsprintf
begin

text \<open>
  The printing functions of \<open>kernel/printk.c\<close>: \<open>vsprintf\<close> into a static buffer, then the driver. The
  addresses of the three static buffers are chosen by the linker and are parameters. With a text that fits
  the buffer, the serial line gets, and the screen shows, exactly the text of the format.
\<close>

section \<open>The code\<close>

definition printk ::
  "ports \<Rightarrow> u32 \<Rightarrow> u8 list \<Rightarrow> va_list \<Rightarrow> 'a uart_world_scheme \<Rightarrow> mem \<Rightarrow> ('a uart_world_scheme \<times> mem) option" where
  "printk env buf fmt args w m = do {
     (i, m) \<leftarrow> vsprintf buf fmt args m;
     let m = m(buf + i := 0);
     w \<leftarrow> uputs env m buf w;
     Some (w, m)
   }"

definition cprintk ::
  "u32 \<Rightarrow> u8 list \<Rightarrow> va_list \<Rightarrow> 'a con_world_scheme \<Rightarrow> mem \<Rightarrow> ('a con_world_scheme \<times> mem) option" where
  "cprintk buf fmt args w m = do {
     (i, m) \<leftarrow> vsprintf buf fmt args m;
     let m = m(buf + i := 0);
     w \<leftarrow> cputs m buf w;
     Some (w, m)
   }"

definition uprintk ::
  "ports \<Rightarrow> u32 \<Rightarrow> u8 list \<Rightarrow> va_list \<Rightarrow> 'a uart_world_scheme \<Rightarrow> mem \<Rightarrow> ('a uart_world_scheme \<times> mem) option" where
  "uprintk env buf fmt args w m = do {
     (i, m) \<leftarrow> vsprintf buf fmt args m;
     let m = m(buf + i := 0);
     w \<leftarrow> uputs env m buf w;
     Some (w, m)
   }"

section \<open>A string on the line\<close>

lemma uputs_refines:
  "cstring m a cs \<Longrightarrow> uart_ok w \<Longrightarrow> put_room (length cs) (line_of w) \<Longrightarrow>
    \<exists>w'. uputs env m a w = Some w' \<and> uart_ok w' \<and> line_of w' = foldl line_put (line_of w) cs"
proof (induction cs arbitrary: a w)
  case Nil
  then show ?case by (subst uputs.simps) simp
next
  case (Cons c cs)
  obtain w1 where w1: "uputc env c w = Some w1" "uart_ok w1" "line_of w1 = line_put (line_of w) c"
    using uputc_refines [OF Cons.prems(2), of env c] Cons.prems(3) by (auto simp: put_room_def)
  have "put_room (length cs) (line_of w1)" using put_room_put Cons.prems(3) by (simp add: w1(3))
  then obtain w2 where "uputs env m (a + 1) w1 = Some w2" "uart_ok w2" "line_of w2 = foldl line_put (line_of w1) cs"
    using Cons.IH [OF _ w1(2)] Cons.prems(1) by auto
  then show ?case using Cons.prems(1) by (subst uputs.simps) (simp add: w1(1) w1(3))
qed

lemma vsprintf_cstring:
  assumes r: "render strs fmt args = Some out" and nz: "0 \<notin> set fmt" "0 \<notin> set out"
    and ok: "strs_ok strs m buf (Suc (length out))" and n: "length out < 1024"
  shows "\<exists>m'. vsprintf buf fmt args m = Some (of_nat (length out), m') \<and> m'(buf + of_nat (length out) := 0) = m' \<and>
    cstring m' buf out \<and> (\<forall>a. 1024 \<le> unat (a - buf) \<longrightarrow> m' a = m a)"
proof -
  obtain m' where m': "vsprintf buf fmt args m = Some (of_nat (length out), m')"
    "\<forall>i<length out. m' (buf + of_nat i) = out ! i" "m' (buf + of_nat (length out)) = 0"
    "\<forall>a. length out < unat (a - buf) \<longrightarrow> m' a = m a"
    using vsprintf_renders_text [OF r nz(1) ok] n by auto
  have "cstring m' buf out" using m'(2,3) nz(2) by (auto simp: cstring_iff in_set_conv_nth)
  then show ?thesis using m' n by (auto simp: fun_upd_idem)
qed

section \<open>Properties\<close>

text \<open>
  C26. When the text of the format fits the buffer of 1024 bytes and the transmit queue has room for it,
  \<open>printk\<close> returns, the bytes sent and waiting are those before followed by exactly the text, and no byte
  outside the buffer has changed.
\<close>

theorem printk_sends_text:
  assumes "render strs fmt args = Some out" and "0 \<notin> set fmt" and "0 \<notin> set out"
    and "strs_ok strs m buf (Suc (length out))" and "length out < 1024"
    and "uart_ok w" and "put_room (length out) (line_of w)"
  shows "\<exists>w' m'. printk env buf fmt args w m = Some (w', m') \<and> uart_ok w' \<and>
    sent (line_of w') @ waiting (line_of w') = sent (line_of w) @ waiting (line_of w) @ out \<and>
    (\<forall>a. 1024 \<le> unat (a - buf) \<longrightarrow> m' a = m a)"
proof -
  obtain m' where m': "vsprintf buf fmt args m = Some (of_nat (length out), m')" "m'(buf + of_nat (length out) := 0) = m'"
    "cstring m' buf out" "\<forall>a. 1024 \<le> unat (a - buf) \<longrightarrow> m' a = m a"
    using vsprintf_cstring [OF assms(1-5)] by blast
  obtain w' where w': "uputs env m' buf w = Some w'" "uart_ok w'" "line_of w' = foldl line_put (line_of w) out"
    using uputs_refines [OF m'(3) assms(6,7)] by blast
  have "printk env buf fmt args w m = Some (w', m')" by (simp add: printk_def m'(1,2) w'(1))
  then show ?thesis using w'(2) line_puts_ok [OF line_of_ok [OF assms(6)], of out] m'(4) by (auto simp: w'(3))
qed

theorem printk_sends_text_witness:
  "\<exists>w' m'. printk (\<lambda>_ _. 0) 0x1000 [37, 117, 10] (\<lambda>_. 42) uart_boot (\<lambda>_. 0) = Some (w', m') \<and>
    sent (line_of w') @ waiting (line_of w') = [52, 50, 10]"
proof -
  have r: "render (\<lambda>_. None) [37, 117, 10] (\<lambda>_. 42) = Some [52, 50, 10]" by code_simp
  show ?thesis
    using printk_sends_text [OF r, of "\<lambda>_. 0" "0x1000" uart_boot "\<lambda>_ _. 0"]
    by (auto simp: strs_ok_def uart_boot_ok put_room_def uart_boot_sent)
qed

end
