(* ===== verification/Clist.thy ===== *)
theory Clist
  imports Prelude
begin

text \<open>
  The circular doubly linked list of \<open>include/list.h\<close>. A \<open>list_node\<close> lives at an address;
  the heap of nodes is a function from addresses to nodes, so that the pointer stores of the
  C code are function updates made in the order of the source and aliasing is kept. The
  address type is a parameter: each client supplies the addresses of the \<open>list_node\<close>
  members it embeds.

  \<open>dlist h hp xs\<close> is the shape the operations maintain: starting from the list head \<open>hp\<close>
  the \<open>next\<close> pointers visit exactly \<open>xs\<close>, the \<open>prev\<close> pointers the same way back.
\<close>

section \<open>The code\<close>

record 'a list_node =
  node_prev :: 'a
  node_next :: 'a

type_synonym 'a list_heap = "'a \<Rightarrow> 'a list_node"

definition set_prev :: "'a \<Rightarrow> 'a \<Rightarrow> 'a list_heap \<Rightarrow> 'a list_heap" where
  "set_prev nd p h = h(nd := (h nd)\<lparr>node_prev := p\<rparr>)"

definition set_next :: "'a \<Rightarrow> 'a \<Rightarrow> 'a list_heap \<Rightarrow> 'a list_heap" where
  "set_next nd p h = h(nd := (h nd)\<lparr>node_next := p\<rparr>)"

definition list_node_init :: "'a \<Rightarrow> 'a list_heap \<Rightarrow> 'a list_heap" where
  "list_node_init nd h =
    (let h1 = set_prev nd nd h
     in set_next nd nd h1)"

definition list_add_between :: "'a \<Rightarrow> 'a \<Rightarrow> 'a \<Rightarrow> 'a list_heap \<Rightarrow> 'a list_heap" where
  "list_add_between nd prv nxt h =
    (let h1 = set_next prv nd h;
         h2 = set_prev nxt nd h1;
         h3 = set_prev nd prv h2
     in set_next nd nxt h3)"

definition list_del_between :: "'a \<Rightarrow> 'a \<Rightarrow> 'a list_heap \<Rightarrow> 'a list_heap" where
  "list_del_between prv nxt h =
    (let h1 = set_next prv nxt h
     in set_prev nxt prv h1)"

definition list_add :: "'a \<Rightarrow> 'a \<Rightarrow> 'a list_heap \<Rightarrow> 'a list_heap" where
  "list_add nd pos h = list_add_between nd pos (node_next (h pos)) h"

definition list_add_tail :: "'a \<Rightarrow> 'a \<Rightarrow> 'a list_heap \<Rightarrow> 'a list_heap" where
  "list_add_tail nd pos h = list_add_between nd (node_prev (h pos)) pos h"

definition list_del :: "'a \<Rightarrow> 'a list_heap \<Rightarrow> 'a list_heap" where
  "list_del nd h = list_del_between (node_prev (h nd)) (node_next (h nd)) h"

definition list_is_empty :: "'a \<Rightarrow> 'a list_heap \<Rightarrow> bool" where
  "list_is_empty nd h \<longleftrightarrow> nd = node_next (h nd)"

definition list_first :: "'a \<Rightarrow> 'a list_heap \<Rightarrow> 'a" where
  "list_first hp h = node_next (h hp)"

definition list_last :: "'a \<Rightarrow> 'a list_heap \<Rightarrow> 'a" where
  "list_last hp h = node_prev (h hp)"

text \<open>
  \<open>list_for_each\<close> collects the nodes the loop visits; the fuel bounds the number of
  iterations and \<^term>\<open>None\<close> says that it did not reach the head again within it.
\<close>

fun list_walk :: "nat \<Rightarrow> 'a \<Rightarrow> 'a \<Rightarrow> 'a list_heap \<Rightarrow> 'a list option" where
  "list_walk 0 p hp h = (if p = hp then Some [] else None)"
| "list_walk (Suc n) p hp h =
    (if p = hp then Some []
     else map_option (Cons p) (list_walk n (node_next (h p)) hp h))"

definition list_for_each :: "nat \<Rightarrow> 'a \<Rightarrow> 'a list_heap \<Rightarrow> 'a list option" where
  "list_for_each n hp h = list_walk n (list_first hp h) hp h"

lemmas list_code_defs =
  list_node_init_def list_add_between_def list_del_between_def list_add_def
  list_add_tail_def list_del_def list_is_empty_def list_first_def list_last_def
  set_prev_def set_next_def

declare list_code_defs [c_eval]

section \<open>The shape of a list\<close>

text \<open>\<open>links h ys\<close>: neighbours of the address sequence \<open>ys\<close> point at each other.\<close>

fun links :: "'a list_heap \<Rightarrow> 'a list \<Rightarrow> bool" where
  "links h (x # y # ys) \<longleftrightarrow> node_next (h x) = y \<and> node_prev (h y) = x \<and> links h (y # ys)"
| "links h ys \<longleftrightarrow> True"

definition dlist :: "'a list_heap \<Rightarrow> 'a \<Rightarrow> 'a list \<Rightarrow> bool" where
  "dlist h hp xs \<longleftrightarrow> distinct (hp # xs) \<and> links h (hp # xs @ [hp])"

lemma links_append: "links h (xs @ y # ys) \<longleftrightarrow> links h (xs @ [y]) \<and> links h (y # ys)"
proof (induction xs)
  case Nil
  show ?case by simp
next
  case (Cons x xs)
  then show ?case by (cases xs) auto
qed

lemma links_tl: "links h (x # xs) \<Longrightarrow> links h xs"
  by (cases xs) auto

text \<open>A segment reads \<open>next\<close> of all but its last node and \<open>prev\<close> of all but its first.\<close>

lemma links_cong:
  "(\<And>x. x \<in> set (butlast ys) \<Longrightarrow> node_next (h' x) = node_next (h x)) \<Longrightarrow>
   (\<And>x. x \<in> set (tl ys) \<Longrightarrow> node_prev (h' x) = node_prev (h x)) \<Longrightarrow>
   links h' ys = links h ys"
proof (induction h ys rule: links.induct)
  case (1 h x y ys)
  have "links h' (y # ys) = links h (y # ys)"
    by (rule 1) (use "1.prems" in \<open>auto split: if_splits\<close>)
  with "1.prems" show ?case by auto
qed auto

lemma set_prev_simps [heap_simps]:
  "node_next (set_prev a v h x) = node_next (h x)"
  "node_prev (set_prev a v h x) = (if x = a then v else node_prev (h x))"
  by (auto simp: set_prev_def)

lemma set_next_simps [heap_simps]:
  "node_prev (set_next a v h x) = node_prev (h x)"
  "node_next (set_next a v h x) = (if x = a then v else node_next (h x))"
  by (auto simp: set_next_def)

lemma list_add_between_simps [heap_simps]:
  "node_next (list_add_between n p q h x) =
     (if x = n then q else if x = p then n else node_next (h x))"
  "node_prev (list_add_between n p q h x) =
     (if x = n then p else if x = q then n else node_prev (h x))"
  by (auto simp: list_add_between_def heap_simps)

lemma list_del_between_simps [heap_simps]:
  "node_next (list_del_between p q h x) = (if x = p then q else node_next (h x))"
  "node_prev (list_del_between p q h x) = (if x = q then p else node_prev (h x))"
  by (auto simp: list_del_between_def heap_simps)

lemma dlist_distinct: "dlist h hp xs \<Longrightarrow> distinct xs"
  by (simp add: dlist_def)

lemma dlist_head_notin: "dlist h hp xs \<Longrightarrow> hp \<notin> set xs"
  by (simp add: dlist_def)

lemma dlist_cong:
  "(\<And>x. x \<in> set (hp # xs) \<Longrightarrow> h' x = h x) \<Longrightarrow> dlist h' hp xs = dlist h hp xs"
  unfolding dlist_def by (intro conj_cong refl links_cong) (auto dest: in_set_butlastD)

section \<open>What the operations do to the shape\<close>

lemma dlist_init: "dlist (list_node_init hp h) hp []"
  by (simp add: dlist_def list_node_init_def set_prev_def set_next_def)

lemma list_node_init_other: "x \<noteq> nd \<Longrightarrow> list_node_init nd h x = h x"
  by (simp add: list_node_init_def set_prev_def set_next_def)

lemma dlist_nth_ends:
  assumes "dlist h hp xs"
  shows "node_next (h hp) = (case xs of [] \<Rightarrow> hp | x # _ \<Rightarrow> x)"
    and "node_prev (h hp) = (if xs = [] then hp else last xs)"
proof -
  from assms have l: "links h (hp # xs @ [hp])" by (simp add: dlist_def)
  then show "node_next (h hp) = (case xs of [] \<Rightarrow> hp | x # _ \<Rightarrow> x)"
    by (cases xs) auto
  show "node_prev (h hp) = (if xs = [] then hp else last xs)"
  proof (cases xs rule: rev_cases)
    case Nil
    with l show ?thesis by simp
  next
    case (snoc ys y)
    with l have "links h ((hp # ys) @ y # [hp])" by simp
    then have "links h [y, hp]" by (subst (asm) links_append) simp
    with snoc show ?thesis by simp
  qed
qed

lemma dlist_empty_iff: "dlist h hp xs \<Longrightarrow> list_is_empty hp h \<longleftrightarrow> xs = []"
  by (cases xs) (auto simp: list_is_empty_def dlist_nth_ends(1) dlist_def)

lemma dlist_first: "dlist h hp xs \<Longrightarrow> xs \<noteq> [] \<Longrightarrow> list_first hp h = hd xs"
  by (cases xs) (auto simp: list_first_def dlist_nth_ends(1))

lemma dlist_last: "dlist h hp xs \<Longrightarrow> xs \<noteq> [] \<Longrightarrow> list_last hp h = last xs"
  by (simp add: list_last_def dlist_nth_ends(2))

text \<open>Appending before the head and unlinking a node, on the cycle of addresses.\<close>

lemma dlist_add_tail:
  assumes d: "dlist h hp xs" and n: "n \<notin> set (hp # xs)"
  shows "dlist (list_add_tail n hp h) hp (xs @ [n])"
proof -
  obtain zs p where zp: "hp # xs = zs @ [p]" by (metis append_butlast_last_id list.distinct(1))
  have dist: "distinct (zs @ [p])" using d zp by (simp add: dlist_def)
  have p: "node_prev (h hp) = p"
    using dlist_nth_ends(2) [OF d] zp by (cases xs) (auto simp: Cons_eq_append_conv split: if_splits)
  let ?h = "list_add_between n p hp h"
  have "hp # xs @ [hp] = zs @ p # [hp]" using zp by (metis append.assoc append_Cons append_Nil)
  then have l: "links h (zs @ p # [hp])" using d by (metis dlist_def)
  have nz: "n \<notin> set (zs @ [p])" using n zp by (metis)
  have tl_hp: "hp \<notin> set (tl (zs @ [p]))" using d zp by (metis dlist_def distinct.simps(2) list.sel(3))
  have "links ?h (zs @ [p]) = links h (zs @ [p])"
  proof (rule links_cong)
    fix x assume "x \<in> set (butlast (zs @ [p]))"
    with nz dist show "node_next (?h x) = node_next (h x)" by (auto simp: heap_simps)
  next
    fix x assume "x \<in> set (tl (zs @ [p]))"
    with nz tl_hp show "node_prev (?h x) = node_prev (h x)"
      by (auto simp: heap_simps dest: list.set_sel(2) [rotated])
  qed
  with l have "links ?h (zs @ [p])" by (subst (asm) links_append) simp
  moreover have "links ?h (p # n # [hp])" using n nz by (auto simp: heap_simps)
  ultimately have "links ?h (zs @ p # n # [hp])" by (subst links_append) simp
  moreover have "hp # (xs @ [n]) @ [hp] = zs @ p # n # [hp]"
    using zp by (metis append.assoc append_Cons append_Nil)
  ultimately have "links ?h (hp # (xs @ [n]) @ [hp])" by metis
  moreover have "distinct (hp # xs @ [n])" using d n by (auto simp: dlist_def)
  ultimately show ?thesis using p by (simp add: dlist_def list_add_tail_def)
qed

lemma dlist_del:
  assumes d: "dlist h hp (xs @ n # ys)"
  shows "dlist (list_del n h) hp (xs @ ys)"
proof -
  obtain as p where ap: "hp # xs = as @ [p]" by (metis append_butlast_last_id list.distinct(1))
  obtain q bs where qb: "ys @ [hp] = q # bs" by (cases ys) auto
  have seq: "hp # (xs @ n # ys) @ [hp] = as @ p # n # q # bs"
    using ap qb by (metis append.assoc append_Cons append_Nil)
  have l: "links h (as @ p # n # q # bs)" using d seq by (simp add: dlist_def)
  then have l1: "links h (as @ [p])" and l2: "links h (p # n # q # bs)"
    by (subst (asm) links_append; simp)+
  have pq: "node_prev (h n) = p" "node_next (h n) = q" using l2 by auto
  have dist: "distinct (hp # xs @ n # ys)" using d by (simp add: dlist_def)
  then have dp: "distinct (as @ [p])" using ap by (metis append_Cons distinct_append)
  let ?h = "list_del_between p q h"
  have tl_as: "set (tl (as @ [p])) = set xs" using ap by (metis list.sel(3))
  have bl: "set (butlast (q # bs)) = set ys" using qb by (metis butlast_snoc)
  have q_in: "q = hp \<and> bs = [] \<or> q \<in> set ys \<and> q \<notin> set bs"
    using qb dist by (cases ys) auto
  have p_in: "p \<in> set (hp # xs)" using ap by (metis in_set_conv_decomp)
  have "links ?h (as @ [p]) = links h (as @ [p])"
  proof (rule links_cong)
    fix x assume "x \<in> set (butlast (as @ [p]))"
    with dp show "node_next (?h x) = node_next (h x)" by (auto simp: heap_simps)
  next
    fix x assume "x \<in> set (tl (as @ [p]))"
    with tl_as q_in dist show "node_prev (?h x) = node_prev (h x)" by (auto simp: heap_simps)
  qed
  moreover have "links ?h (q # bs) = links h (q # bs)"
  proof (rule links_cong)
    fix x assume "x \<in> set (butlast (q # bs))"
    with bl p_in dist show "node_next (?h x) = node_next (h x)" by (auto simp: heap_simps)
  next
    fix x assume "x \<in> set (tl (q # bs))"
    with q_in show "node_prev (?h x) = node_prev (h x)" by (auto simp: heap_simps)
  qed
  moreover have "links h (q # bs)" using l2 by simp
  ultimately have "links ?h (as @ p # q # bs)"
    using l1 by (subst links_append) (simp add: heap_simps)
  moreover have "hp # (xs @ ys) @ [hp] = as @ p # q # bs"
    using ap qb by (metis append.assoc append_Cons append_Nil)
  ultimately have "links ?h (hp # (xs @ ys) @ [hp])" by metis
  then show ?thesis using dist pq by (simp add: dlist_def list_del_def)
qed

text \<open>Only the list's own nodes change: another list that shares no node keeps its shape.\<close>

lemma list_add_tail_frame:
  assumes "dlist h hp xs" and "x \<notin> set (n # hp # xs)"
  shows "list_add_tail n hp h x = h x"
  using assms dlist_nth_ends(2) [OF assms(1)]
  by (auto simp: list_add_tail_def heap_simps intro!: list_node.equality split: if_splits)

lemma list_del_frame:
  assumes d: "dlist h hp xs" and n: "n \<in> set xs" and x: "x \<notin> set (hp # xs)"
  shows "list_del n h x = h x"
proof -
  obtain ys zs where xs: "xs = ys @ n # zs" using n by (metis split_list)
  have seq: "hp # xs @ [hp] = butlast (hp # ys) @ last (hp # ys) # n # (zs @ [hp])"
    using xs by (metis append.assoc append_Cons append_Nil append_butlast_last_id list.distinct(1))
  have "links h (last (hp # ys) # n # zs @ [hp])"
    using d unfolding dlist_def seq by (subst (asm) links_append) simp
  then have "node_prev (h n) = last (hp # ys)" "node_next (h n) = hd (zs @ [hp])"
    by (cases zs; simp)+
  moreover have "last (hp # ys) \<in> set (hp # xs)" "hd (zs @ [hp]) \<in> set (hp # xs)"
    using xs by (auto simp: hd_append)
  ultimately show ?thesis using x
    by (auto simp: list_del_def heap_simps intro!: list_node.equality)
qed

lemma dlist_add_tail_other:
  assumes "dlist h hp xs" and "dlist h hp' ys"
    and "set (n # hp # xs) \<inter> set (hp' # ys) = {}"
  shows "dlist (list_add_tail n hp h) hp' ys"
proof -
  have "dlist (list_add_tail n hp h) hp' ys = dlist h hp' ys"
    by (rule dlist_cong, rule list_add_tail_frame [OF assms(1)]) (use assms(3) in blast)
  with assms(2) show ?thesis by simp
qed

lemma dlist_del_other:
  assumes "dlist h hp xs" and "n \<in> set xs" and "dlist h hp' ys"
    and "set (hp # xs) \<inter> set (hp' # ys) = {}"
  shows "dlist (list_del n h) hp' ys"
proof -
  have "dlist (list_del n h) hp' ys = dlist h hp' ys"
    by (rule dlist_cong, rule list_del_frame [OF assms(1,2)]) (use assms(4) in blast)
  with assms(3) show ?thesis by simp
qed

lemma dlist_init_other:
  "dlist h hp' ys \<Longrightarrow> nd \<notin> set (hp' # ys) \<Longrightarrow> dlist (list_node_init nd h) hp' ys"
  by (subst dlist_cong [of _ _ _ h]) (auto intro!: list_node_init_other)

text \<open>Deleting by value, as an operation on the visited list.\<close>

lemma dlist_del_remove1:
  assumes "dlist h hp xs" and "n \<in> set xs"
  shows "dlist (list_del n h) hp (remove1 n xs)"
proof -
  obtain ys zs where xs: "xs = ys @ n # zs" using assms(2) by (metis split_list)
  have "remove1 n xs = ys @ zs" using xs dlist_distinct [OF assms(1)] by (auto simp: remove1_append)
  with dlist_del [of h hp ys n zs] assms xs show ?thesis by simp
qed

text \<open>The shape determines the list, and the traversal loop returns exactly it.\<close>

lemma list_walk_links:
  "links h (xs @ [hp]) \<Longrightarrow> hp \<notin> set xs \<Longrightarrow> length xs \<le> n \<Longrightarrow>
   list_walk n (hd (xs @ [hp])) hp h = Some xs"
proof (induction xs arbitrary: n)
  case Nil
  then show ?case by (cases n) auto
next
  case (Cons x xs)
  then obtain m where n: "n = Suc m" by (cases n) auto
  have "node_next (h x) = hd (xs @ [hp])" using Cons.prems(1) by (cases xs) auto
  with Cons n links_tl show ?case by (auto dest: links_tl)
qed

lemma dlist_for_each:
  assumes "dlist h hp xs" and "length xs \<le> n"
  shows "list_for_each n hp h = Some xs"
proof -
  have "list_first hp h = hd (xs @ [hp])"
    using dlist_nth_ends(1) [OF assms(1)] by (simp add: list_first_def hd_append split: list.splits)
  then show ?thesis
    using assms by (auto simp: list_for_each_def dlist_def intro!: list_walk_links dest: links_tl)
qed

lemma dlist_unique: "dlist h hp xs \<Longrightarrow> dlist h hp ys \<Longrightarrow> xs = ys"
  using dlist_for_each [of h hp xs "max (length xs) (length ys)"]
    dlist_for_each [of h hp ys "max (length xs) (length ys)"] by simp

end
