(* ===== verification/Spinlock.thy ===== *)
theory Spinlock
  imports Prelude
begin

text \<open>
  The spin lock of \<open>include/spinlock.h\<close>, twice.

  The interleaving model runs any number of CPUs over one lock byte; each step is one access
  to the byte: the atomic exchange of \<open>xchg_8\<close>, one read of the inner waiting loop, the
  store of \<open>spin_unlock\<close>. Mutual exclusion is an invariant of every reachable state.

  The sequential functions \<open>spin_lock\<close> and \<open>spin_unlock\<close> are what the other theories call:
  one flow of control, so a lock that is not free is never released while it spins, and the
  call does not return (\<^term>\<open>None\<close>). The last property derives the sequential function from
  the interleaving model run with one CPU.
\<close>

section \<open>The code\<close>

definition SPINLOCK_FREE :: u8 where "SPINLOCK_FREE = 0"
definition SPINLOCK_BUSY :: u8 where "SPINLOCK_BUSY = 1"

text \<open>The exchange returns the old byte and stores the new one.\<close>

definition xchg_8 :: "u8 \<Rightarrow> u8 \<Rightarrow> u8 \<times> u8" where
  "xchg_8 cell x = (cell, x)"

text \<open>One flow of control: the outer loop returns at its first exchange or never.\<close>

definition spin_lock :: "u8 \<Rightarrow> u8 option" where
  "spin_lock cell =
    (let (old, cell') = xchg_8 cell SPINLOCK_BUSY
     in if old = 0 then Some cell' else None)"

definition spin_unlock :: "u8 \<Rightarrow> u8" where
  "spin_unlock cell = SPINLOCK_FREE"

lemmas spin_code_defs = SPINLOCK_FREE_def SPINLOCK_BUSY_def xchg_8_def spin_lock_def spin_unlock_def

declare spin_code_defs [c_eval]

lemma spin_lock_free [simp]: "spin_lock 0 = Some 1"
  by (simp add: spin_code_defs)

lemma spin_unlock_free [simp]: "spin_unlock l = 0"
  by (simp add: spin_code_defs)

lemma spin_lock_Some: "spin_lock l = Some l' \<longleftrightarrow> l = 0 \<and> l' = 1"
  by (auto simp: spin_code_defs)

section \<open>The interleaving model\<close>

text \<open>
  Program points of one CPU: outside, before the exchange, in the waiting loop
  \<open>while (*lock == SPINLOCK_BUSY)\<close>, and in the critical section.
\<close>

datatype spin_pc = Outside | Exchange | Waiting | Critical

record spin_sys =
  cell :: u8
  cpu :: "nat \<Rightarrow> spin_pc"

inductive spin_step :: "nat set \<Rightarrow> spin_sys \<Rightarrow> spin_sys \<Rightarrow> bool" for C where
  call: "i \<in> C \<Longrightarrow> cpu s i = Outside \<Longrightarrow> spin_step C s (s\<lparr>cpu := (cpu s)(i := Exchange)\<rparr>)"
| got: "i \<in> C \<Longrightarrow> cpu s i = Exchange \<Longrightarrow> xchg_8 (cell s) SPINLOCK_BUSY = (old, l) \<Longrightarrow> old = 0 \<Longrightarrow>
    spin_step C s (s\<lparr>cell := l, cpu := (cpu s)(i := Critical)\<rparr>)"
| missed: "i \<in> C \<Longrightarrow> cpu s i = Exchange \<Longrightarrow> xchg_8 (cell s) SPINLOCK_BUSY = (old, l) \<Longrightarrow> old \<noteq> 0 \<Longrightarrow>
    spin_step C s (s\<lparr>cell := l, cpu := (cpu s)(i := Waiting)\<rparr>)"
| relax: "i \<in> C \<Longrightarrow> cpu s i = Waiting \<Longrightarrow> cell s = SPINLOCK_BUSY \<Longrightarrow> spin_step C s s"
| retry: "i \<in> C \<Longrightarrow> cpu s i = Waiting \<Longrightarrow> cell s \<noteq> SPINLOCK_BUSY \<Longrightarrow>
    spin_step C s (s\<lparr>cpu := (cpu s)(i := Exchange)\<rparr>)"
| unlock: "i \<in> C \<Longrightarrow> cpu s i = Critical \<Longrightarrow>
    spin_step C s (s\<lparr>cell := spin_unlock (cell s), cpu := (cpu s)(i := Outside)\<rparr>)"

inductive_cases spin_stepE: "spin_step C s s'"

definition spin_boot :: spin_sys where
  "spin_boot = \<lparr>cell = SPINLOCK_FREE, cpu = (\<lambda>_. Outside)\<rparr>"

inductive spin_reach :: "nat set \<Rightarrow> spin_sys \<Rightarrow> spin_sys \<Rightarrow> bool" for C s0 where
  start: "spin_reach C s0 s0"
| step: "spin_reach C s0 s \<Longrightarrow> spin_step C s s' \<Longrightarrow> spin_reach C s0 s'"

text \<open>The lock byte records whether some CPU is in its critical section, and at most one is.\<close>

definition spin_inv :: "spin_sys \<Rightarrow> bool" where
  "spin_inv s \<longleftrightarrow>
    (cell s = SPINLOCK_FREE \<and> (\<forall>i. cpu s i \<noteq> Critical)
     \<or> cell s = SPINLOCK_BUSY \<and> (\<exists>i. \<forall>j. cpu s j = Critical \<longleftrightarrow> j = i))"

lemma spin_step_inv: "spin_step C s s' \<Longrightarrow> spin_inv s \<Longrightarrow> spin_inv s'"
  by (erule spin_stepE) (force simp: spin_inv_def spin_code_defs)+

lemma spin_reach_inv: "spin_reach C s0 s \<Longrightarrow> spin_inv s0 \<Longrightarrow> spin_inv s"
  by (induction rule: spin_reach.induct) (auto intro: spin_step_inv)

lemma spin_boot_inv: "spin_inv spin_boot"
  by (simp add: spin_boot_def spin_inv_def)

text \<open>A CPU alone on a lock that is not free: it never leaves the two waiting points.\<close>

definition spin_stuck :: "spin_sys \<Rightarrow> bool" where
  "spin_stuck s \<longleftrightarrow> cell s \<noteq> 0 \<and> (cpu s 0 = Exchange \<or> cpu s 0 = Waiting \<and> cell s = SPINLOCK_BUSY)"

lemma spin_stuck_step: "spin_step {0} s s' \<Longrightarrow> spin_stuck s \<Longrightarrow> spin_stuck s'"
  by (erule spin_stepE) (auto simp: spin_stuck_def spin_code_defs)

lemma spin_stuck_reach: "spin_reach {0} s0 s \<Longrightarrow> spin_stuck s0 \<Longrightarrow> spin_stuck s"
  by (induction rule: spin_reach.induct) (auto intro: spin_stuck_step)

section \<open>Properties\<close>

text \<open>
  C8. Mutual exclusion: with any number of CPUs interleaving their accesses to
  the lock byte, two CPUs are never in the critical section together, and whenever one is, the
  byte is \<open>SPINLOCK_BUSY\<close>.
\<close>

theorem spin_mutual_exclusion:
  assumes "spin_reach C spin_boot s" and "cpu s i = Critical" and "cpu s j = Critical"
  shows "i = j \<and> cell s = SPINLOCK_BUSY"
  using spin_reach_inv [OF assms(1) spin_boot_inv] assms(2,3) by (auto simp: spin_inv_def)

theorem spin_mutual_exclusion_witness:
  "\<exists>s. spin_reach {0, 1} spin_boot s \<and> cpu s 0 = Critical \<and> cell s = SPINLOCK_BUSY"
proof -
  let ?s1 = "spin_boot\<lparr>cpu := (cpu spin_boot)(0 := Exchange)\<rparr>"
  let ?s2 = "?s1\<lparr>cell := SPINLOCK_BUSY, cpu := (cpu ?s1)(0 := Critical)\<rparr>"
  have "spin_step {0, 1} spin_boot ?s1" by (rule spin_step.call) (auto simp: spin_boot_def)
  moreover have "spin_step {0, 1} ?s1 ?s2"
    by (rule spin_step.got [where old = 0]) (auto simp: spin_boot_def spin_code_defs)
  ultimately have r: "spin_reach {0, 1} spin_boot ?s2"
    by (blast intro: spin_reach.intros)
  have "cell ?s2 = SPINLOCK_BUSY"
    using spin_mutual_exclusion [OF r, of 0 0] by simp
  with r show ?thesis by (intro exI [of _ ?s2]) simp
qed

text \<open>
  The sequential \<open>spin_lock\<close> is the interleaving model with one CPU: it
  returns exactly when a run of that CPU reaches the critical section, and then with the lock
  byte of that run; on a lock that is not free no run does, whatever byte it holds.
\<close>

theorem spin_lock_is_one_cpu_run:
  "spin_lock l = Some l' \<longleftrightarrow>
    (\<exists>s. spin_reach {0} \<lparr>cell = l, cpu = (\<lambda>_. Exchange)\<rparr> s \<and> cpu s 0 = Critical \<and> cell s = l')"
proof (cases "l = 0")
  case True
  let ?s0 = "\<lparr>cell = l, cpu = (\<lambda>_. Exchange)\<rparr> :: spin_sys"
  let ?s1 = "?s0\<lparr>cell := SPINLOCK_BUSY, cpu := (cpu ?s0)(0 := Critical)\<rparr>"
  have "spin_step {0} ?s0 ?s1"
    by (rule spin_step.got [where old = 0]) (auto simp: True spin_code_defs)
  then have reach: "spin_reach {0} ?s0 ?s1" by (blast intro: spin_reach.intros)
  have inv: "spin_reach {0} ?s0 s \<Longrightarrow> cpu s 0 = Critical \<longrightarrow> cell s = 1" for s
  proof (induction rule: spin_reach.induct)
    case (step s s')
    show ?case
      using step(2) by (rule spin_stepE) (use step(3) in \<open>auto simp: spin_code_defs\<close>)
  qed simp
  have "(\<exists>s. spin_reach {0} ?s0 s \<and> cpu s 0 = Critical \<and> cell s = l') \<longleftrightarrow> l' = 1"
    using reach inv by (auto simp: SPINLOCK_BUSY_def intro!: exI [of _ ?s1])
  then show ?thesis using True by (simp add: spin_lock_Some)
next
  case False
  let ?s0 = "\<lparr>cell = l, cpu = (\<lambda>_. Exchange)\<rparr> :: spin_sys"
  have "spin_stuck ?s0" using False by (simp add: spin_stuck_def)
  then have "spin_reach {0} ?s0 s \<Longrightarrow> cpu s 0 \<noteq> Critical" for s
    using spin_stuck_reach [of ?s0 s] by (auto simp: spin_stuck_def)
  then show ?thesis using False by (auto simp: spin_lock_Some)
qed

end
