(* ===== verification/Pid.thy ===== *)
theory Pid
  imports Prelude
begin

text \<open>
  The process-id allocator of \<open>kernel/pid.c\<close>: 256 ids in a two-level bitmap. Bit \<open>x\<close> of
  \<open>pid_tbl[y]\<close> says that id \<open>16 * y + x\<close> is taken; bit \<open>y\<close> of \<open>pid_grp\<close> says that row
  \<open>y\<close> is full. \<open>map\<close> gives the mask of a bit, \<open>unmap\<close> the lowest clear bit of a byte.

  The lemmas show that the two levels agree after every operation, that an allocation takes
  the least free id and a release frees exactly the given one; the set of taken ids
  (\<open>pids\<close>) is the abstraction the operations refine. The console message
  of the failing branch of \<open>alloc_pid\<close> is not part of the state.
\<close>

section \<open>The code\<close>

definition pid_map :: "u16 list" where
  "pid_map =
   [0x0001, 0x0002, 0x0004, 0x0008,
    0x0010, 0x0020, 0x0040, 0x0080,
    0x0100, 0x0200, 0x0400, 0x0800,
    0x1000, 0x2000, 0x4000, 0x8000]"

definition pid_unmap :: "u8 list" where
  "pid_unmap =
   [0, 1, 0, 2, 0, 1, 0, 3, 0, 1, 0, 2, 0, 1, 0, 4,
    0, 1, 0, 2, 0, 1, 0, 3, 0, 1, 0, 2, 0, 1, 0, 5,
    0, 1, 0, 2, 0, 1, 0, 3, 0, 1, 0, 2, 0, 1, 0, 4,
    0, 1, 0, 2, 0, 1, 0, 3, 0, 1, 0, 2, 0, 1, 0, 6,
    0, 1, 0, 2, 0, 1, 0, 3, 0, 1, 0, 2, 0, 1, 0, 4,
    0, 1, 0, 2, 0, 1, 0, 3, 0, 1, 0, 2, 0, 1, 0, 5,
    0, 1, 0, 2, 0, 1, 0, 3, 0, 1, 0, 2, 0, 1, 0, 4,
    0, 1, 0, 2, 0, 1, 0, 3, 0, 1, 0, 2, 0, 1, 0, 7,
    0, 1, 0, 2, 0, 1, 0, 3, 0, 1, 0, 2, 0, 1, 0, 4,
    0, 1, 0, 2, 0, 1, 0, 3, 0, 1, 0, 2, 0, 1, 0, 5,
    0, 1, 0, 2, 0, 1, 0, 3, 0, 1, 0, 2, 0, 1, 0, 4,
    0, 1, 0, 2, 0, 1, 0, 3, 0, 1, 0, 2, 0, 1, 0, 6,
    0, 1, 0, 2, 0, 1, 0, 3, 0, 1, 0, 2, 0, 1, 0, 4,
    0, 1, 0, 2, 0, 1, 0, 3, 0, 1, 0, 2, 0, 1, 0, 5,
    0, 1, 0, 2, 0, 1, 0, 3, 0, 1, 0, 2, 0, 1, 0, 4,
    0, 1, 0, 2, 0, 1, 0, 3, 0, 1, 0, 2, 0, 1, 0, 8]"

record pid_state =
  pid_grp :: u16
  pid_tbl :: "u16 list"

definition INVALID_PID :: u8 where
  "INVALID_PID = 0"

definition pid_boot :: pid_state where
  "pid_boot = \<lparr>pid_grp = 0, pid_tbl = replicate 16 0\<rparr>"

text \<open>
  Both levels find the lowest clear bit of a 16-bit word with the byte table, the low byte
  first.
\<close>

definition pid_first_clear :: "u16 \<Rightarrow> u16" where
  "pid_first_clear w =
    (if w AND 0xFF \<noteq> 0xFF
     then ucast (pid_unmap ! unat (w AND 0xFF))
     else ucast (pid_unmap ! unat (drop_bit 8 w)) + 8)"

definition alloc_pid :: "pid_state \<Rightarrow> u8 \<times> pid_state" where
  "alloc_pid s =
    (if pid_grp s = - 1 then (INVALID_PID, s)
     else
       let y = pid_first_clear (pid_grp s);
           x = pid_first_clear (pid_tbl s ! unat y);
           pid = (push_bit 4 (ucast y) + ucast x :: u32);
           row = pid_tbl s ! unat y OR pid_map ! unat x;
           s1 = s\<lparr>pid_tbl := (pid_tbl s)[unat y := row]\<rparr>;
           s2 = (if row = - 1 then s1\<lparr>pid_grp := pid_grp s1 OR pid_map ! unat y\<rparr> else s1)
       in (ucast pid, s2))"

definition free_pid :: "u8 \<Rightarrow> pid_state \<Rightarrow> pid_state" where
  "free_pid pid s =
    (let y = (ucast (drop_bit 4 pid) :: u16);
         x = (ucast (pid AND 0x0F) :: u16);
         s1 = s\<lparr>pid_tbl := (pid_tbl s)[unat y := pid_tbl s ! unat y AND NOT (pid_map ! unat x)]\<rparr>
     in s1\<lparr>pid_grp := pid_grp s1 AND NOT (pid_map ! unat y)\<rparr>)"

declare pid_first_clear_def [c_eval] alloc_pid_def [c_eval] free_pid_def [c_eval] pid_boot_def [c_eval] INVALID_PID_def [c_eval]

section \<open>The tables\<close>

lemma pid_map_nth: "x < 16 \<Longrightarrow> pid_map ! x = push_bit x 1"
proof -
  have "list_all (\<lambda>x. pid_map ! x = push_bit x 1) [0..<16]" by code_simp
  then show "x < 16 \<Longrightarrow> pid_map ! x = push_bit x 1" by (simp add: list_all_iff)
qed

lemma bit_pid_map: "x < 16 \<Longrightarrow> bit (pid_map ! x) j \<longleftrightarrow> j = x"
  by (auto simp: pid_map_nth bit_one_shift simp del: push_bit_of_1)

lemma pid_unmap_scan: "scan_table clear_at 0 (butlast pid_unmap)"
  by (simp add: pid_unmap_def clear_at_def)

lemma pid_unmap_length: "length pid_unmap = 256"
  by (simp add: pid_unmap_def)

lemma pid_unmap_lowest:
  fixes b :: u8
  assumes "b \<noteq> 255"
  shows "lowest (\<lambda>i. \<not> bit b i) (unat (pid_unmap ! unat b))"
proof -
  have "unat b \<noteq> 255" using assms by (simp add: word_unat_eq_iff)
  moreover have "unat b < 256" by (rule u8_lt)
  ultimately have lt: "unat b < length (butlast pid_unmap)" by (simp add: pid_unmap_length)
  show ?thesis
    using clear_at_lowest [OF scan_table_at [OF pid_unmap_scan lt]] lt by (simp add: nth_butlast)
qed

section \<open>The lowest clear bit of a word\<close>

lemma unat_low_byte: "unat (w AND 0xFF :: u16) = unat (ucast w :: u8)"
proof -
  have "w AND 0xFF = take_bit 8 w" by (simp add: take_bit_eq_mask mask_numeral)
  then show ?thesis by (simp add: unsigned_take_bit_eq unsigned_ucast_eq)
qed

lemma unat_high_byte: "unat (drop_bit 8 w :: u16) = unat (ucast (drop_bit 8 w) :: u8)"
proof -
  have "unat (drop_bit 8 w) < 2 ^ 8"
    using u16_lt [of w] by (simp only: unat_drop_bit_eq) (simp add: drop_bit_eq_div)
  then show ?thesis by (simp add: unsigned_ucast_eq take_bit_nat_eq_self)
qed

lemma bit_low_byte: "bit (ucast (w::u16) :: u8) i \<longleftrightarrow> i < 8 \<and> bit w i"
  by (auto simp: bit_ucast_iff dest: bit_imp_le_length)

lemma bit_high_byte: "bit (ucast (drop_bit 8 (w::u16)) :: u8) i \<longleftrightarrow> i < 8 \<and> bit w (8 + i)"
  by (auto simp: bit_ucast_iff bit_drop_bit_eq dest: bit_imp_le_length)

lemma low_byte_full: "(w AND 0xFF :: u16) = 0xFF \<longleftrightarrow> (ucast w :: u8) = 255"
  using unat_low_byte [of w] by (simp add: word_unat_eq_iff)

lemma u8_ones: "(b::u8) = 255 \<longleftrightarrow> (\<forall>i<8. bit b i)"
  using word_not_all_ones [of b] by auto

lemma pid_first_clear_lowest:
  assumes "w \<noteq> - 1"
  shows "lowest (\<lambda>i. \<not> bit w i) (unat (pid_first_clear w)) \<and> unat (pid_first_clear w) < 16"
proof (cases "w AND 0xFF = 0xFF")
  case False
  let ?t = "pid_unmap ! unat (ucast w :: u8)"
  have "(ucast w :: u8) \<noteq> 255" using False by (simp add: low_byte_full)
  then have low: "lowest (\<lambda>i. \<not> bit (ucast w :: u8) i) (unat ?t)"
    and "\<not> (\<forall>i<8. bit (ucast w :: u8) i)"
    by (rule pid_unmap_lowest) (use \<open>ucast w \<noteq> 255\<close> u8_ones in blast)
  then have "unat ?t < 8" by (meson lowest_le order_le_less_trans)
  moreover have "unat (pid_first_clear w) = unat ?t"
    using False by (simp add: pid_first_clear_def unat_low_byte unat_ucast_up)
  moreover from calculation have "lowest (\<lambda>i. \<not> bit w i) (unat ?t)"
    by (intro lowest_cong [OF low]) (simp add: bit_low_byte)
  ultimately show ?thesis by simp
next
  case True
  let ?t = "pid_unmap ! unat (ucast (drop_bit 8 w) :: u8)"
  have full: "\<forall>i<8. bit w i" using True by (simp add: low_byte_full u8_ones bit_low_byte)
  obtain k where k: "k < 16" "\<not> bit w k" using assms word_not_all_ones [of w] by auto
  then have "\<not> bit (ucast (drop_bit 8 w) :: u8) (k - 8)" and "k - 8 < 8"
    using full by (auto simp: bit_high_byte) (metis le_add_diff_inverse not_le)
  then have ne: "(ucast (drop_bit 8 w) :: u8) \<noteq> 255" using u8_ones by blast
  have low: "lowest (\<lambda>i. \<not> bit (ucast (drop_bit 8 w) :: u8) i) (unat ?t)"
    by (rule pid_unmap_lowest [OF ne])
  have t8: "unat ?t < 8" using low ne u8_ones by (meson lowest_le order_le_less_trans)
  have val: "unat (pid_first_clear w) = unat ?t + 8"
    using True t8 by (simp add: pid_first_clear_def unat_high_byte unat_ucast_up unat_word_ariths)
  have "bit w j" if "j < unat ?t + 8" for j
  proof (cases "j < 8")
    case False
    then have "bit (ucast (drop_bit 8 w) :: u8) (j - 8)" using lowest_below [OF low] that by auto
    with False show ?thesis by (simp add: bit_high_byte)
  qed (simp add: full)
  moreover have "\<not> bit w (8 + unat ?t)" using lowestD [OF low] t8 by (simp add: bit_high_byte)
  ultimately show ?thesis using val t8 by (auto simp: lowest_def add.commute)
qed

section \<open>The bitmap as a set of ids\<close>

definition pid_cell :: "pid_state \<Rightarrow> nat \<Rightarrow> nat \<Rightarrow> bool" where
  "pid_cell s y x \<longleftrightarrow> bit (pid_tbl s ! y) x"

definition pids :: "pid_state \<Rightarrow> nat set" where
  "pids s = {p. p < 256 \<and> pid_cell s (p div 16) (p mod 16)}"

definition pid_inv :: "pid_state \<Rightarrow> bool" where
  "pid_inv s \<longleftrightarrow> length (pid_tbl s) = 16 \<and>
    (\<forall>y<16. bit (pid_grp s) y \<longleftrightarrow> (\<forall>x<16. pid_cell s y x))"

text \<open>The free ids are the hits of a two-level search.\<close>

interpretation pid_free: two_level 16 16 "\<lambda>y x. \<not> pid_cell s y x" for s
  by unfold_locales simp

lemma pid_free_flat: "pid_free.flat s p \<longleftrightarrow> p < 256 \<and> p \<notin> pids s"
  by (auto simp: pid_free.flat_def pids_def)

lemma pid_free_row: "pid_inv s \<Longrightarrow> pid_free.row_hit s y \<longleftrightarrow> y < 16 \<and> \<not> bit (pid_grp s) y"
  by (auto simp: pid_free.row_hit_def pid_inv_def)

lemma pids_bound: "pids s \<subseteq> {0..<256}"
  unfolding pids_def by force

lemma pid_full_iff: "pid_inv s \<Longrightarrow> pid_grp s = - 1 \<longleftrightarrow> pids s = {0..<256}"
proof -
  assume inv: "pid_inv s"
  have "pid_grp s = - 1 \<longleftrightarrow> (\<forall>y. \<not> pid_free.row_hit s y)"
    using word_not_all_ones [of "pid_grp s"] by (auto simp: pid_free_row [OF inv])
  also have "\<dots> \<longleftrightarrow> (\<forall>p. \<not> pid_free.flat s p)"
    using pid_free.no_row_no_flat [of s] by (auto simp: pid_free.row_hit_flat)
  also have "\<dots> \<longleftrightarrow> {0..<256} \<subseteq> pids s"
    unfolding pid_free_flat subset_iff atLeastLessThan_iff by blast
  also have "\<dots> \<longleftrightarrow> pids s = {0..<256}"
    using pids_bound [of s] by blast
  finally show ?thesis .
qed

lemma pid_row_full: "pid_tbl s ! y = - 1 \<longleftrightarrow> (\<forall>x<16. pid_cell s y x)"
  using word_not_all_ones [of "pid_tbl s ! y"] by (auto simp: pid_cell_def)

text \<open>What an update of one cell does to the set and to the invariant.\<close>

definition pid_mark :: "bool \<Rightarrow> nat \<Rightarrow> nat \<Rightarrow> pid_state \<Rightarrow> pid_state \<Rightarrow> bool" where
  "pid_mark b y x s s' \<longleftrightarrow> length (pid_tbl s') = length (pid_tbl s) \<and>
    (\<forall>y'<16. \<forall>x'<16. pid_cell s' y' x' = (if y' = y \<and> x' = x then b else pid_cell s y' x'))"

lemma pid_mark_pids:
  assumes "pid_mark b y x s s'" and "y < 16" and "x < 16"
  shows "pids s' = (if b then insert (16 * y + x) (pids s) else pids s - {16 * y + x})"
proof -
  have eq: "p div 16 = y \<and> p mod 16 = x \<longleftrightarrow> p = 16 * y + x" for p
    using assms(3) by (auto simp: div_mult_mod_eq mult.commute)
  have "p < 256 \<Longrightarrow> pid_cell s' (p div 16) (p mod 16) =
      (if p = 16 * y + x then b else pid_cell s (p div 16) (p mod 16))" for p
    using assms(1) by (simp add: pid_mark_def eq)
  then have "q \<in> pids s' \<longleftrightarrow> q < 256 \<and> (if q = 16 * y + x then b else q \<in> pids s)" for q
    by (cases "q < 256") (simp_all add: pids_def)
  then show ?thesis using assms(2,3) by (auto simp: pids_def)
qed

section \<open>The operations\<close>

lemma pid_number:
  assumes "unat (y::u16) < 16" and "unat (x::u16) < 16"
  shows "unat (ucast (push_bit 4 (ucast y) + ucast x :: u32) :: u8) = 16 * unat y + unat x"
  using assms
  by (simp add: unsigned_ucast_eq push_bit_eq_mult unat_word_ariths unat_ucast_up take_bit_eq_mod
      mult.commute)

lemma alloc_pid_unfold:
  assumes inv: "pid_inv s" and free: "pid_grp s \<noteq> - 1"
  defines "y \<equiv> unat (pid_first_clear (pid_grp s))"
  defines "x \<equiv> unat (pid_first_clear (pid_tbl s ! y))"
  shows "y < 16" and "x < 16" and "lowest (\<lambda>p. p < 256 \<and> p \<notin> pids s) (16 * y + x)"
    and "unat (fst (alloc_pid s)) = 16 * y + x"
proof -
  have y: "lowest (\<lambda>i. \<not> bit (pid_grp s) i) y" "y < 16"
    using pid_first_clear_lowest [OF free] by (auto simp: y_def)
  then have "pid_free.row_hit s y" using inv by (auto simp: pid_free_row dest: lowestD)
  then have row: "pid_tbl s ! y \<noteq> - 1" by (auto simp: pid_row_full pid_free.row_hit_def)
  have x: "lowest (\<lambda>i. \<not> bit (pid_tbl s ! y) i) x" "x < 16"
    using pid_first_clear_lowest [OF row] by (auto simp: x_def)
  have "lowest (pid_free.flat s) (16 * y + x)"
  proof (rule pid_free.two_level_lowest)
    show "lowest (pid_free.row_hit s) y"
      using y by (intro lowest_cong [OF y(1)]) (auto simp: pid_free_row [OF inv])
    show "lowest (\<lambda>x. x < 16 \<and> \<not> pid_cell s y x) x"
      using x by (intro lowest_cong [OF x(1)]) (auto simp: pid_cell_def)
  qed
  then show "lowest (\<lambda>p. p < 256 \<and> p \<notin> pids s) (16 * y + x)"
    by (rule lowest_cong) (simp add: pid_free_flat)
  show "y < 16" "x < 16" by fact+
  show "unat (fst (alloc_pid s)) = 16 * y + x"
    using free y(2) x(2) by (simp add: alloc_pid_def Let_def x_def y_def pid_number)
qed

lemma alloc_pid_state:
  assumes inv: "pid_inv s" and free: "pid_grp s \<noteq> - 1"
  defines "y \<equiv> unat (pid_first_clear (pid_grp s))"
  defines "x \<equiv> unat (pid_first_clear (pid_tbl s ! y))"
  shows "pid_mark True y x s (snd (alloc_pid s))" and "pid_inv (snd (alloc_pid s))"
proof -
  note xy = alloc_pid_unfold(1,2) [OF inv free, folded y_def, folded x_def]
  have len: "length (pid_tbl s) = 16" using inv by (simp add: pid_inv_def)
  let ?row = "pid_tbl s ! y OR pid_map ! x"
  have s': "pid_tbl (snd (alloc_pid s)) = (pid_tbl s)[y := ?row]"
    "pid_grp (snd (alloc_pid s)) = (if ?row = - 1 then pid_grp s OR pid_map ! y else pid_grp s)"
    using free by (simp_all add: alloc_pid_def Let_def x_def y_def)
  show m: "pid_mark True y x s (snd (alloc_pid s))"
    using xy len by (auto simp: pid_mark_def pid_cell_def s' nth_list_update bit_or_iff bit_pid_map)
  have "bit (pid_grp (snd (alloc_pid s))) y' \<longleftrightarrow> (\<forall>x'<16. pid_cell (snd (alloc_pid s)) y' x')"
    if y': "y' < 16" for y'
  proof (cases "y' = y")
    case True
    have "\<not> bit (pid_grp s) y"
      using pid_first_clear_lowest [OF free] by (auto simp: y_def dest: lowestD)
    moreover have "?row = - 1 \<longleftrightarrow> (\<forall>x'<16. pid_cell (snd (alloc_pid s)) y x')"
      using pid_row_full [of "snd (alloc_pid s)" y] xy len by (simp add: s')
    ultimately show ?thesis using True xy by (simp add: s' bit_or_iff bit_pid_map)
  next
    case False
    then show ?thesis
      using inv m y' xy by (simp add: s'(2) pid_inv_def pid_mark_def bit_or_iff bit_pid_map)
  qed
  then show "pid_inv (snd (alloc_pid s))" using len by (simp add: pid_inv_def s')
qed

lemma free_pid_index:
  "unat (ucast (drop_bit 4 (p::u8)) :: u16) = unat p div 16"
  "unat (ucast (p AND 0x0F) :: u16) = unat p mod 16"
proof -
  show "unat (ucast (drop_bit 4 p) :: u16) = unat p div 16"
    by (simp add: unat_ucast_up unat_div drop_bit_eq_div)
  have "p AND 0x0F = take_bit 4 p" by (simp add: take_bit_eq_mask mask_numeral)
  then show "unat (ucast (p AND 0x0F) :: u16) = unat p mod 16"
    by (simp add: unat_ucast_up unsigned_take_bit_eq take_bit_eq_mod unat_mod)
qed

lemma free_pid_state:
  assumes inv: "pid_inv s"
  shows "pid_mark False (unat p div 16) (unat p mod 16) s (free_pid p s)"
    and "pid_inv (free_pid p s)"
proof -
  let ?y = "unat p div 16" and ?x = "unat p mod 16"
  have y: "?y < 16" using u8_lt [of p] by simp
  have len: "length (pid_tbl s) = 16" using inv by (simp add: pid_inv_def)
  have s': "pid_tbl (free_pid p s) = (pid_tbl s)[?y := pid_tbl s ! ?y AND NOT (pid_map ! ?x)]"
    "pid_grp (free_pid p s) = pid_grp s AND NOT (pid_map ! ?y)"
    by (simp_all add: free_pid_def Let_def free_pid_index)
  show m: "pid_mark False ?y ?x s (free_pid p s)"
    using y len
    by (auto simp: pid_mark_def pid_cell_def s' nth_list_update bit_and_iff bit_not_iff bit_pid_map)
  have "bit (pid_grp (free_pid p s)) y' \<longleftrightarrow> (\<forall>x'<16. pid_cell (free_pid p s) y' x')"
    if y': "y' < 16" for y'
  proof (cases "y' = ?y")
    case True
    have "?x < 16" by simp
    then have "\<not> (\<forall>x'<16. pid_cell (free_pid p s) ?y x')" using m y by (auto simp: pid_mark_def)
    with True y show ?thesis by (simp add: s' bit_and_iff bit_not_iff bit_pid_map)
  next
    case False
    then show ?thesis
      using inv m y' y by (simp add: s'(2) pid_inv_def pid_mark_def bit_and_iff bit_not_iff bit_pid_map)
  qed
  then show "pid_inv (free_pid p s)" using len by (simp add: pid_inv_def s')
qed

lemma pid_boot_inv: "pid_inv pid_boot" and pid_boot_empty: "pids pid_boot = {}"
  by (auto simp: pid_inv_def pid_boot_def pid_cell_def pids_def)

section \<open>Properties\<close>

text \<open>
  C7. \<open>alloc_pid\<close> refines the choice of the least free id: when every id is taken it
  returns \<open>INVALID_PID\<close> and leaves the tables alone; otherwise it returns the least id
  that is not taken, takes exactly that id, and both bitmap levels still agree.
\<close>

theorem alloc_pid_least:
  assumes "pid_inv s"
  shows "if pids s = {0..<256} then alloc_pid s = (INVALID_PID, s)
         else lowest (\<lambda>q. q < 256 \<and> q \<notin> pids s) (unat (fst (alloc_pid s)))
           \<and> pids (snd (alloc_pid s)) = insert (unat (fst (alloc_pid s))) (pids s)
           \<and> pid_inv (snd (alloc_pid s))"
proof (cases "pids s = {0..<256}")
  case True
  then show ?thesis using pid_full_iff [OF assms] by (simp add: alloc_pid_def)
next
  case False
  then have free: "pid_grp s \<noteq> - 1" using pid_full_iff [OF assms] by blast
  show ?thesis
    using False alloc_pid_unfold [OF assms free] alloc_pid_state [OF assms free]
      pid_mark_pids [OF alloc_pid_state(1) [OF assms free]] by simp
qed

theorem alloc_pid_least_witness:
  "pid_inv pid_boot \<and> lowest (\<lambda>q. q < 256 \<and> q \<notin> pids pid_boot) (unat (fst (alloc_pid pid_boot)))"
  using alloc_pid_least [OF pid_boot_inv] pid_boot_inv by (simp add: pid_boot_empty)

text \<open>
  \<open>free_pid\<close> gives back exactly the id it is called with, whether or not it was
  taken, and keeps the agreement of the two bitmap levels.
\<close>

theorem free_pid_exact:
  assumes "pid_inv s"
  shows "pids (free_pid p s) = pids s - {unat p} \<and> pid_inv (free_pid p s)"
  using free_pid_state [OF assms, of p] pid_mark_pids [OF free_pid_state(1) [OF assms], of p]
    u8_lt [of p] by (simp add: div_less_iff_less_mult mult.commute)

theorem free_pid_exact_witness:
  "pid_inv pid_boot \<and> pids (free_pid 7 pid_boot) = {}"
  using free_pid_exact [OF pid_boot_inv, of 7] pid_boot_inv by (simp add: pid_boot_empty)

text \<open>
  Freeing the id just allocated restores the bitmaps bit for bit, so an
  allocate/release pair leaves no trace.
\<close>

theorem alloc_free_pid_roundtrip:
  assumes "pid_inv s" and "pids s \<noteq> {0..<256}"
  shows "free_pid (fst (alloc_pid s)) (snd (alloc_pid s)) = s"
proof -
  have free: "pid_grp s \<noteq> - 1" using pid_full_iff [OF assms(1)] assms(2) by blast
  let ?y = "unat (pid_first_clear (pid_grp s))"
  let ?x = "unat (pid_first_clear (pid_tbl s ! ?y))"
  note xy = alloc_pid_unfold [OF assms(1) free]
  have len: "length (pid_tbl s) = 16" using assms(1) by (simp add: pid_inv_def)
  have idx: "unat (fst (alloc_pid s)) div 16 = ?y" "unat (fst (alloc_pid s)) mod 16 = ?x"
    using xy by simp_all
  have "\<not> bit (pid_grp s) ?y" using pid_first_clear_lowest [OF free] by (auto dest: lowestD)
  moreover have "pid_tbl s ! ?y \<noteq> - 1"
    using calculation assms(1) xy(1) pid_row_full [of s ?y] by (auto simp: pid_inv_def)
  then have "\<not> bit (pid_tbl s ! ?y) ?x"
    using pid_first_clear_lowest by (blast dest: lowestD)
  ultimately have bits: "(pid_tbl s ! ?y OR pid_map ! ?x) AND NOT (pid_map ! ?x) = pid_tbl s ! ?y"
    "(pid_grp s OR pid_map ! ?y) AND NOT (pid_map ! ?y) = pid_grp s"
    "pid_grp s AND NOT (pid_map ! ?y) = pid_grp s"
    using xy(1,2) by (auto intro!: bit_word_eqI simp: bit_and_iff bit_or_iff bit_not_iff bit_pid_map)
  have tbl: "pid_tbl (snd (alloc_pid s)) = (pid_tbl s)[?y := pid_tbl s ! ?y OR pid_map ! ?x]"
    and grp: "pid_grp (snd (alloc_pid s)) = pid_grp s
      \<or> pid_grp (snd (alloc_pid s)) = pid_grp s OR pid_map ! ?y"
    using free by (auto simp: alloc_pid_def Let_def)
  show ?thesis
    using bits tbl grp xy(1) len
    by (auto simp: free_pid_def Let_def free_pid_index idx intro!: pid_state.equality)
qed

theorem alloc_free_pid_roundtrip_witness:
  "free_pid (fst (alloc_pid pid_boot)) (snd (alloc_pid pid_boot)) = pid_boot"
proof -
  have "(5::nat) \<in> {0..<256}" by simp
  then have "pids pid_boot \<noteq> {0..<256}" unfolding pid_boot_empty by blast
  from alloc_free_pid_roundtrip [OF pid_boot_inv this] show ?thesis .
qed

end
