(* ===== verification/Frames.thy ===== *)
theory Frames
  imports Clist Spinlock "HOL-Library.Monad_Syntax"
begin

text \<open>
  The physical page frames and the address arithmetic of \<open>include/mm.h\<close>. A pointer into
  \<open>frame_tab\<close> is the index of the entry, a \<^typ>\<open>u32\<close>; an access to an entry outside the
  table is \<^term>\<open>None\<close>. The \<open>chain\<close> members of the entries and the heads of the buddy
  lists are the addresses of one linked-list heap.

  Every function that changes the state returns an option: \<^term>\<open>None\<close> is an index out
  of range, a list node that is no frame, or a lock that is already held.
\<close>

section \<open>Constants and address arithmetic\<close>

definition PAGE_SIZE :: u32 where "PAGE_SIZE = 0x1000"
definition MAX_FRAME_NUM :: u32 where "MAX_FRAME_NUM = 0x02000000 div 0x1000"
definition PAGE_OFFSET :: u32 where "PAGE_OFFSET = 0xC0000000"
definition MAX_ORDER :: u32 where "MAX_ORDER = 10"

definition to_fr_idx :: "u32 \<Rightarrow> u32" where "to_fr_idx pa = drop_bit 12 pa"
definition fr_paddr :: "u32 \<Rightarrow> u32" where "fr_paddr fr = push_bit 12 fr"
definition to_vaddr :: "u32 \<Rightarrow> u32" where "to_vaddr pa = pa + PAGE_OFFSET"
definition to_paddr :: "u32 \<Rightarrow> u32" where "to_paddr va = va - PAGE_OFFSET"

definition vaddr_to_dir :: "u32 \<Rightarrow> u32" where "vaddr_to_dir va = drop_bit 22 va"
definition vaddr_to_pg :: "u32 \<Rightarrow> u32" where "vaddr_to_pg va = drop_bit 12 va AND 0x3FF"
definition vaddr_to_off :: "u32 \<Rightarrow> u32" where "vaddr_to_off va = va AND 0xFFF"

section \<open>Frames and the state of the frame managers\<close>

record frame_t =
  ref_cnt :: u16
  flag :: u16
  bkt_desc :: u32
  fr_lock :: u8

record buddy_desc =
  bd_order :: u16
  bd_list_len :: u16

text \<open>The addresses that hold a \<open>list_node\<close>: the list heads and the chain of each frame.\<close>

datatype chain_addr = DirHead u32 | FrChain u32

record mm_state =
  frame_tab :: "u32 \<Rightarrow> frame_t"
  buddy_dir :: "u32 \<Rightarrow> buddy_desc"
  chains :: "chain_addr list_heap"
  buddy_dir_lock :: u8
  buddy_start_addr :: u32
  buddy_end_addr :: u32

text \<open>\<open>container_of(nd, frame_t, chain)\<close>: only a chain member lies inside a frame.\<close>

fun container_of_frame :: "chain_addr \<Rightarrow> u32 option" where
  "container_of_frame (FrChain fr) = Some fr"
| "container_of_frame (DirHead od) = None"

definition get_frame :: "u32 \<Rightarrow> mm_state \<Rightarrow> frame_t option" where
  "get_frame fr s = (if fr < MAX_FRAME_NUM then Some (frame_tab s fr) else None)"

definition upd_frame :: "u32 \<Rightarrow> (frame_t \<Rightarrow> frame_t) \<Rightarrow> mm_state \<Rightarrow> mm_state option" where
  "upd_frame fr g s =
    (if fr < MAX_FRAME_NUM
     then Some (s\<lparr>frame_tab := (frame_tab s)(fr := g (frame_tab s fr))\<rparr>) else None)"

definition lock_frame :: "u32 \<Rightarrow> mm_state \<Rightarrow> mm_state option" where
  "lock_frame fr s = do {
     f \<leftarrow> get_frame fr s;
     l \<leftarrow> spin_lock (fr_lock f);
     upd_frame fr (\<lambda>f. f\<lparr>fr_lock := l\<rparr>) s }"

definition unlock_frame :: "u32 \<Rightarrow> mm_state \<Rightarrow> mm_state option" where
  "unlock_frame fr s = upd_frame fr (\<lambda>f. f\<lparr>fr_lock := spin_unlock (fr_lock f)\<rparr>) s"

lemmas frame_access_defs = get_frame_def upd_frame_def lock_frame_def unlock_frame_def

declare frame_access_defs [c_eval] PAGE_SIZE_def [c_eval] MAX_FRAME_NUM_def [c_eval]
  PAGE_OFFSET_def [c_eval] MAX_ORDER_def [c_eval] to_fr_idx_def [c_eval] fr_paddr_def [c_eval]
  to_vaddr_def [c_eval] to_paddr_def [c_eval] vaddr_to_dir_def [c_eval] vaddr_to_pg_def [c_eval]
  vaddr_to_off_def [c_eval]

section \<open>Address lemmas\<close>

lemma max_frame_num: "fr < MAX_FRAME_NUM \<longleftrightarrow> unat fr < 8192"
  by (simp add: MAX_FRAME_NUM_def word_less_nat_alt)

lemma to_paddr_to_vaddr [simp]: "to_paddr (to_vaddr pa) = pa"
  by (simp add: to_paddr_def to_vaddr_def)

lemma unat_fr_paddr: "unat fr < 8192 \<Longrightarrow> unat (fr_paddr fr) = 4096 * unat fr"
  by (simp add: fr_paddr_def push_bit_eq_mult unat_word_ariths mult.commute)

lemma unat_to_fr_idx: "unat (to_fr_idx pa) = unat pa div 4096"
  by (simp add: to_fr_idx_def drop_bit_eq_div unat_div)

lemma to_fr_idx_fr_paddr [simp]: "unat fr < 8192 \<Longrightarrow> to_fr_idx (fr_paddr fr) = fr"
  by (simp add: word_unat_eq_iff unat_to_fr_idx unat_fr_paddr)

text \<open>A virtual address is its directory index, page index and offset put together.\<close>

lemma vaddr_to_pg_take: "vaddr_to_pg va = take_bit 10 (drop_bit 12 va)"
  by (simp add: vaddr_to_pg_def take_bit_eq_mask mask_numeral)

lemma vaddr_to_off_take: "vaddr_to_off va = take_bit 12 va"
  by (simp add: vaddr_to_off_def take_bit_eq_mask mask_numeral)

lemma vaddr_split:
  "push_bit 22 (vaddr_to_dir va) OR push_bit 12 (vaddr_to_pg va) OR vaddr_to_off va = va"
proof (rule bit_word_eqI)
  fix n assume "n < LENGTH(32)"
  then show "bit (push_bit 22 (vaddr_to_dir va) OR push_bit 12 (vaddr_to_pg va) OR vaddr_to_off va) n
      = bit va n"
    by (cases "22 \<le> n"; cases "12 \<le> n")
      (auto simp: vaddr_to_dir_def vaddr_to_pg_take vaddr_to_off_take bit_or_iff
        bit_take_bit_iff bit_push_bit_iff bit_drop_bit_eq)
qed

end
