(* ===== verification/Buddy.thy ===== *)
theory Buddy
  imports Frames
begin

text \<open>
  The buddy frame allocator of \<open>mm/buddy.c\<close>, function by function. Frame pointers are
  indices into \<open>frame_tab\<close>, loop variables keep their C names and widths, the four
  statements that put a block on or take it off a list are \<open>buddy_link\<close> and
  \<open>buddy_unlink\<close>. The loops over frames and blocks are partial functions: \<^term>\<open>None\<close> is a
  fault of the C program or a loop that does not end; \<open>BuddySafe\<close> shows that neither happens.
  Console messages are not part of the state.
\<close>

section \<open>Flags of a frame\<close>

definition BUDDY_VALID :: u16 where "BUDDY_VALID = 0x10"
definition BUDDY_FREE :: u16 where "BUDDY_FREE = 0x20"

definition buddy_valid_addr :: "u32 \<Rightarrow> mm_state \<Rightarrow> bool" where
  "buddy_valid_addr pa s \<longleftrightarrow> buddy_start_addr s \<le> pa \<and> pa < buddy_end_addr s"

definition buddy_is_valid :: "frame_t \<Rightarrow> bool" where
  "buddy_is_valid f \<longleftrightarrow> flag f AND BUDDY_VALID \<noteq> 0"

definition buddy_is_free :: "frame_t \<Rightarrow> bool" where
  "buddy_is_free f \<longleftrightarrow> flag f AND BUDDY_FREE \<noteq> 0"

definition buddy_order :: "frame_t \<Rightarrow> u32" where
  "buddy_order f = ucast (flag f AND 0xF)"

definition buddy_set_order :: "u32 \<Rightarrow> frame_t \<Rightarrow> frame_t" where
  "buddy_set_order od f = f\<lparr>flag := flag f AND NOT 0xF OR ucast (od AND 0xF)\<rparr>"

definition set_flag :: "u16 \<Rightarrow> frame_t \<Rightarrow> frame_t" where
  "set_flag b f = f\<lparr>flag := flag f OR b\<rparr>"

definition clear_flag :: "u16 \<Rightarrow> frame_t \<Rightarrow> frame_t" where
  "clear_flag b f = f\<lparr>flag := flag f AND NOT b\<rparr>"

definition buddy_index :: "u32 \<Rightarrow> u32 \<Rightarrow> u32" where
  "buddy_index fr_idx od = fr_idx XOR push_bit (unat od) 1"

lemmas flag_defs = BUDDY_VALID_def BUDDY_FREE_def buddy_is_valid_def buddy_is_free_def
  buddy_order_def buddy_set_order_def set_flag_def clear_flag_def

section \<open>The order of a request\<close>

function ceil_order_loop :: "u32 \<Rightarrow> u32 \<Rightarrow> u32" where
  "ceil_order_loop n order =
    (if order \<le> MAX_ORDER + 1 \<and> push_bit (unat order) 1 < n
     then ceil_order_loop n (order + 1) else order)"
  by pat_completeness auto
termination
proof (relation "measure (\<lambda>(n, order). 12 - unat order)")
  fix n order :: u32
  assume "order \<le> MAX_ORDER + 1 \<and> push_bit (unat order) 1 < n"
  then have "unat order \<le> 11" by (simp add: MAX_ORDER_def word_le_nat_alt)
  then show "((n, order + 1), n, order) \<in> measure (\<lambda>(n, order). 12 - unat order)"
    by (simp add: unat_word_ariths)
qed simp

declare ceil_order_loop.simps [simp del]

definition ceil_order :: "u32 \<Rightarrow> u32" where
  "ceil_order n = ceil_order_loop n 0"

section \<open>Blocks on the lists\<close>

definition buddy_link :: "u32 \<Rightarrow> u32 \<Rightarrow> mm_state \<Rightarrow> mm_state option" where
  "buddy_link fr od s =
    (if fr < MAX_FRAME_NUM \<and> od \<le> MAX_ORDER
     then Some (s\<lparr>chains := list_add_tail (FrChain fr) (DirHead od) (chains s),
                  buddy_dir := (buddy_dir s)(od := (buddy_dir s od)
                    \<lparr>bd_list_len := bd_list_len (buddy_dir s od) + 1\<rparr>)\<rparr>)
     else None)"

definition buddy_unlink :: "u32 \<Rightarrow> u32 \<Rightarrow> mm_state \<Rightarrow> mm_state option" where
  "buddy_unlink fr od s =
    (if fr < MAX_FRAME_NUM \<and> od \<le> MAX_ORDER
     then Some (s\<lparr>chains := list_del (FrChain fr) (chains s),
                  buddy_dir := (buddy_dir s)(od := (buddy_dir s od)
                    \<lparr>bd_list_len := bd_list_len (buddy_dir s od) - 1\<rparr>)\<rparr>)
     else None)"

definition lock_dir :: "mm_state \<Rightarrow> mm_state option" where
  "lock_dir s = do {
     l \<leftarrow> spin_lock (buddy_dir_lock s);
     Some (s\<lparr>buddy_dir_lock := l\<rparr>) }"

definition unlock_dir :: "mm_state \<Rightarrow> mm_state" where
  "unlock_dir s = s\<lparr>buddy_dir_lock := spin_unlock (buddy_dir_lock s)\<rparr>"

section \<open>Initialisation\<close>

partial_function (option) buddy_init_dir :: "u32 \<Rightarrow> mm_state \<Rightarrow> mm_state option" where
  "buddy_init_dir od s =
    (if od \<le> MAX_ORDER
     then buddy_init_dir (od + 1)
       (s\<lparr>buddy_dir := (buddy_dir s)(od := \<lparr>bd_order = ucast od, bd_list_len = 0\<rparr>),
          chains := list_node_init (DirHead od) (chains s)\<rparr>)
     else Some s)"

partial_function (option) buddy_init_frames :: "u32 \<Rightarrow> u32 \<Rightarrow> u32 \<Rightarrow> mm_state \<Rightarrow> mm_state option" where
  "buddy_init_frames i n fr s =
    (if i < n
     then do {
       s \<leftarrow> upd_frame fr (\<lambda>f. buddy_set_order (- 1) (set_flag BUDDY_FREE (set_flag BUDDY_VALID f))) s;
       buddy_init_frames (i + 1) n (fr + 1) s }
     else Some s)"

partial_function (option) buddy_init_head ::
    "u32 \<Rightarrow> u32 \<Rightarrow> u32 \<Rightarrow> u32 \<Rightarrow> mm_state \<Rightarrow> (u32 \<times> mm_state) option" where
  "buddy_init_head fr ni od sz s =
    (if ni > 0
     then
       (if ni AND sz \<noteq> 0
        then do {
          s \<leftarrow> upd_frame fr (\<lambda>f. buddy_set_order od (set_flag BUDDY_FREE f)) s;
          s \<leftarrow> buddy_link fr od s;
          buddy_init_head (fr + sz) (ni - sz) (od + 1) (push_bit 1 sz) s }
        else buddy_init_head fr ni (od + 1) (push_bit 1 sz) s)
     else Some (fr, s))"

partial_function (option) buddy_init_fill ::
    "u32 \<Rightarrow> u32 \<Rightarrow> u32 \<Rightarrow> u32 \<Rightarrow> mm_state \<Rightarrow> (u32 \<times> u32 \<times> mm_state) option" where
  "buddy_init_fill fr n od sz s =
    (if n \<ge> sz
     then do {
       s \<leftarrow> upd_frame fr (\<lambda>f. buddy_set_order od (set_flag BUDDY_FREE (set_flag BUDDY_VALID f))) s;
       s \<leftarrow> buddy_link fr od s;
       buddy_init_fill (fr + sz) (n - sz) od sz s }
     else Some (fr, n, s))"

partial_function (option) buddy_init_tail ::
    "u32 \<Rightarrow> u32 \<Rightarrow> u32 \<Rightarrow> u32 \<Rightarrow> mm_state \<Rightarrow> mm_state option" where
  "buddy_init_tail fr n od sz s =
    (if n > 0
     then do {
       (fr, n, s) \<leftarrow> buddy_init_fill fr n od sz s;
       buddy_init_tail fr n (od - 1) (drop_bit 1 sz) s }
     else Some s)"

definition buddy_init :: "u32 \<Rightarrow> u32 \<Rightarrow> mm_state \<Rightarrow> (bool \<times> mm_state) option" where
  "buddy_init addr n s =
    (if addr AND (PAGE_SIZE - 1) \<noteq> 0 then Some (False, s)
     else do {
       let s = s\<lparr>buddy_start_addr := addr, buddy_end_addr := addr + push_bit 12 n\<rparr>;
       s \<leftarrow> buddy_init_dir 0 s;
       let fr_idx = to_fr_idx addr;
       s \<leftarrow> buddy_init_frames 0 n fr_idx s;
       let ni = push_bit (unat MAX_ORDER) 1 - (fr_idx AND (push_bit (unat MAX_ORDER) 1 - 1));
       let n = n - ni;
       (fr, s) \<leftarrow> buddy_init_head fr_idx ni 0 1 s;
       s \<leftarrow> buddy_init_tail fr n MAX_ORDER (push_bit (unat MAX_ORDER) 1) s;
       Some (True, s) })"

section \<open>Allocation\<close>

function buddy_find :: "u32 \<Rightarrow> mm_state \<Rightarrow> u32" where
  "buddy_find od s =
    (if od \<le> MAX_ORDER \<and> list_is_empty (DirHead od) (chains s)
     then buddy_find (od + 1) s else od)"
  by pat_completeness auto
termination
proof (relation "measure (\<lambda>(od, s). 11 - unat od)")
  fix od :: u32 and s
  assume "od \<le> MAX_ORDER \<and> list_is_empty (DirHead od) (chains s)"
  then have "unat od \<le> 10" by (simp add: MAX_ORDER_def word_le_nat_alt)
  then show "((od + 1, s), od, s) \<in> measure (\<lambda>(od, s). 11 - unat od)"
    by (simp add: unat_word_ariths)
qed simp

declare buddy_find.simps [simp del]

partial_function (option) buddy_split :: "u32 \<Rightarrow> u32 \<Rightarrow> u32 \<Rightarrow> mm_state \<Rightarrow> mm_state option" where
  "buddy_split fr order od s =
    (if od > order
     then do {
       let od = od - 1;
       let buddy = fr + push_bit (unat od) 1;
       s \<leftarrow> lock_frame buddy s;
       s \<leftarrow> upd_frame buddy (\<lambda>f. buddy_set_order od (set_flag BUDDY_FREE f)) s;
       s \<leftarrow> buddy_link buddy od s;
       s \<leftarrow> unlock_frame buddy s;
       buddy_split fr order od s }
     else Some s)"

definition buddy_alloc :: "u32 \<Rightarrow> mm_state \<Rightarrow> (u32 option \<times> mm_state) option" where
  "buddy_alloc order s = do {
     s \<leftarrow> lock_dir s;
     let od = buddy_find order s;
     if od > MAX_ORDER then Some (None, unlock_dir s)
     else do {
       fr \<leftarrow> container_of_frame (list_first (DirHead od) (chains s));
       s \<leftarrow> lock_frame fr s;
       s \<leftarrow> upd_frame fr (\<lambda>f. buddy_set_order order (clear_flag BUDDY_FREE f)) s;
       s \<leftarrow> buddy_unlink fr od s;
       s \<leftarrow> unlock_frame fr s;
       s \<leftarrow> buddy_split fr order od s;
       Some (Some fr, unlock_dir s) } }"

partial_function (option) buddy_take ::
    "u32 \<Rightarrow> u32 \<Rightarrow> u32 \<Rightarrow> u32 \<Rightarrow> mm_state \<Rightarrow> (u32 \<times> mm_state) option" where
  "buddy_take f ni od sz s =
    (if sint ni > 0
     then
       (if ni AND sz \<noteq> 0
        then do {
          s \<leftarrow> lock_frame f s;
          s \<leftarrow> upd_frame f (\<lambda>f. buddy_set_order od (clear_flag BUDDY_FREE f)) s;
          s \<leftarrow> unlock_frame f s;
          buddy_take (f + sz) (ni - sz) (od - 1) (drop_bit 1 sz) s }
        else buddy_take f ni (od - 1) (drop_bit 1 sz) s)
     else Some (f, s))"

partial_function (option) buddy_give ::
    "u32 \<Rightarrow> u32 \<Rightarrow> u32 \<Rightarrow> u32 \<Rightarrow> mm_state \<Rightarrow> mm_state option" where
  "buddy_give f ni od sz s =
    (if sint ni > 0
     then
       (if ni AND sz \<noteq> 0
        then do {
          s \<leftarrow> lock_frame f s;
          s \<leftarrow> upd_frame f (\<lambda>f. buddy_set_order od (set_flag BUDDY_FREE f)) s;
          s \<leftarrow> buddy_link f od s;
          s \<leftarrow> unlock_frame f s;
          buddy_give (f + sz) (ni - sz) (od + 1) (push_bit 1 sz) s }
        else buddy_give f ni (od + 1) (push_bit 1 sz) s)
     else Some s)"

text \<open>\<open>NULL\<close> is address 0.\<close>

definition buddy_alloc_frames :: "u32 \<Rightarrow> mm_state \<Rightarrow> (u32 \<times> mm_state) option" where
  "buddy_alloc_frames n s = do {
     let order = ceil_order n;
     (r, s) \<leftarrow> buddy_alloc order s;
     case r of
       None \<Rightarrow> Some (0, s)
     | Some fr \<Rightarrow>
         if n \<noteq> push_bit (unat order) 1
         then do {
           let od = order - 1;
           let sz = push_bit (unat od) 1;
           (f, s) \<leftarrow> buddy_take fr n od sz s;
           let ni = push_bit (unat order) 1 - n;
           s \<leftarrow> lock_dir s;
           s \<leftarrow> buddy_give f ni 0 1 s;
           Some (fr_paddr fr, unlock_dir s) }
         else Some (fr_paddr fr, s) }"

section \<open>Release\<close>

partial_function (option) buddy_merge ::
    "u32 \<Rightarrow> u32 \<Rightarrow> mm_state \<Rightarrow> (u32 \<times> u32 \<times> mm_state) option" where
  "buddy_merge fr_idx order s = do {
     s \<leftarrow> lock_frame fr_idx s;
     s \<leftarrow> upd_frame fr_idx (set_flag BUDDY_FREE) s;
     s \<leftarrow> unlock_frame fr_idx s;
     let bd_idx = buddy_index fr_idx order;
     s \<leftarrow> lock_frame bd_idx s;
     buddy \<leftarrow> get_frame bd_idx s;
     if \<not> (order < MAX_ORDER \<and> order = buddy_order buddy \<and> buddy_is_valid buddy
           \<and> buddy_is_free buddy)
     then do {
       s \<leftarrow> unlock_frame bd_idx s;
       Some (fr_idx, order, s) }
     else do {
       s \<leftarrow> buddy_unlink bd_idx order s;
       s \<leftarrow> unlock_frame bd_idx s;
       let fr_idx = fr_idx AND bd_idx;
       let bd_idx = buddy_index fr_idx order;
       s \<leftarrow> lock_frame bd_idx s;
       s \<leftarrow> upd_frame bd_idx (\<lambda>f. buddy_set_order (- 1) (clear_flag BUDDY_FREE f)) s;
       s \<leftarrow> unlock_frame bd_idx s;
       let order = order + 1;
       s \<leftarrow> lock_frame fr_idx s;
       s \<leftarrow> upd_frame fr_idx (buddy_set_order order) s;
       s \<leftarrow> unlock_frame fr_idx s;
       buddy_merge fr_idx order s } }"

definition buddy_free :: "u32 \<Rightarrow> mm_state \<Rightarrow> mm_state option" where
  "buddy_free fr s = do {
     f \<leftarrow> get_frame fr s;
     let order = buddy_order f;
     s \<leftarrow> lock_dir s;
     (fr, order, s) \<leftarrow> buddy_merge fr order s;
     s \<leftarrow> lock_frame fr s;
     s \<leftarrow> buddy_link fr order s;
     s \<leftarrow> unlock_frame fr s;
     Some (unlock_dir s) }"

partial_function (option) buddy_free_loop ::
    "u32 \<Rightarrow> u32 \<Rightarrow> u32 \<Rightarrow> u32 \<Rightarrow> mm_state \<Rightarrow> mm_state option" where
  "buddy_free_loop fr ni od sz s =
    (if sint ni > 0
     then
       (if ni AND sz \<noteq> 0
        then do {
          s \<leftarrow> buddy_free fr s;
          buddy_free_loop (fr + sz) (ni - sz) (od - 1) (drop_bit 1 sz) s }
        else buddy_free_loop fr ni (od - 1) (drop_bit 1 sz) s)
     else Some s)"

definition buddy_free_frames :: "u32 \<Rightarrow> u32 \<Rightarrow> mm_state \<Rightarrow> (bool \<times> mm_state) option" where
  "buddy_free_frames addr n s =
    (if \<not> buddy_valid_addr addr s then Some (False, s)
     else if addr AND (PAGE_SIZE - 1) \<noteq> 0 then Some (False, s)
     else if ceil_order n > MAX_ORDER then Some (False, s)
     else do {
       let od = ceil_order n;
       s \<leftarrow> buddy_free_loop (to_fr_idx addr) n od (push_bit (unat od) 1) s;
       Some (True, s) })"

section \<open>The page functions of \<open>mm.h\<close>\<close>

definition alloc_pages :: "u32 \<Rightarrow> mm_state \<Rightarrow> (u32 \<times> mm_state) option" where
  "alloc_pages n s = do {
     (pa, s) \<leftarrow> buddy_alloc_frames n s;
     Some (to_vaddr pa, s) }"

definition free_pages :: "u32 \<Rightarrow> u32 \<Rightarrow> mm_state \<Rightarrow> (bool \<times> mm_state) option" where
  "free_pages va n s = buddy_free_frames (to_paddr va) n s"

definition alloc_page :: "mm_state \<Rightarrow> (u32 \<times> mm_state) option" where
  "alloc_page s = alloc_pages 1 s"

definition free_page :: "u32 \<Rightarrow> mm_state \<Rightarrow> (bool \<times> mm_state) option" where
  "free_page va s = free_pages va 1 s"

section \<open>The state at boot\<close>

text \<open>The state before \<open>buddy_init\<close>: the tables are zero.\<close>

definition mm_boot :: mm_state where
  "mm_boot = \<lparr>frame_tab = (\<lambda>_. \<lparr>ref_cnt = 0, flag = 0, bkt_desc = 0, fr_lock = 0\<rparr>),
     buddy_dir = (\<lambda>_. \<lparr>bd_order = 0, bd_list_len = 0\<rparr>),
     chains = (\<lambda>_. \<lparr>node_prev = DirHead 0, node_next = DirHead 0\<rparr>),
     buddy_dir_lock = 0, buddy_start_addr = 0, buddy_end_addr = 0\<rparr>"

end
