(* ===== verification/TaskQueue.thy ===== *)
theory TaskQueue
  imports Clist Spinlock Pid Buddy "HOL-Library.Monad_Syntax"
begin

text \<open>
  The tasks of \<open>include/sched.h\<close>, the state of the scheduler, and the task queues of
  \<open>kernel/task_queue.c\<close>. A task pointer is its address, a \<^typ>\<open>u32\<close>; address 0 is
  \<open>NULL\<close>. All list nodes live in one heap whose addresses say what the node is: the head of a
  ready list, the head of a task queue, or the \<open>queue_node\<close>, \<open>children\<close> or \<open>sibling\<close>
  member of a task.

  \<open>qrep\<close> abstracts the heap to the lists of tasks the queues hold. The interface
  \<open>fifo_queue\<close> says what a waiting line promises its clients; it is interpreted on the queue
  operations of the code.
\<close>

section \<open>Data\<close>

datatype task_stat_t = TASK_READY | TASK_SLEEP | TASK_WAITING | TASK_ZOMBIE

record task_t =
  t_lock :: u8
  t_pid :: u8
  t_prio :: u8
  t_name :: string
  t_stat :: task_stat_t
  t_parent :: u32
  t_time_ticks :: u32
  t_rest_ticks :: u32
  t_total_ticks :: u32
  t_sleep_ticks :: u32
  t_wait_for :: u32
  t_esp :: u32

definition NULL :: u32 where "NULL = 0"
definition NR_PRIO :: u8 where "NR_PRIO = 64"

text \<open>The queues: the two of the scheduler and one per semaphore, named by its address.\<close>

datatype tq_id = SleepQue | ZombieQue | SemQueue u32

datatype node_addr = RrHead u8 | TqHead tq_id | QueueNode u32 | Children u32 | Sibling u32

record task_queue_t =
  n_tasks :: u32
  tq_lock :: u8

record rr_scheduler_t =
  rr_n_tasks :: u32
  bit_tbl :: "u8 list"
  bit_grp :: u8
  rr_lock :: u8

text \<open>\<open>kmem\<close> holds the words of the kernel stacks, \<open>kmm\<close> the frame managers.\<close>

record kstate =
  tasks :: "u32 \<Rightarrow> task_t"
  nodes :: "node_addr list_heap"
  queues :: "tq_id \<Rightarrow> task_queue_t"
  rr :: rr_scheduler_t
  sem_count :: "u32 \<Rightarrow> u32"
  cur_task :: u32
  task_tbl :: "u8 \<Rightarrow> u32"
  pid_map_state :: pid_state
  kmem :: "u32 \<Rightarrow> u32"
  kmm :: mm_state

definition upd_task :: "u32 \<Rightarrow> (task_t \<Rightarrow> task_t) \<Rightarrow> kstate \<Rightarrow> kstate" where
  "upd_task t g s = s\<lparr>tasks := (tasks s)(t := g (tasks s t))\<rparr>"

definition upd_queue :: "tq_id \<Rightarrow> (task_queue_t \<Rightarrow> task_queue_t) \<Rightarrow> kstate \<Rightarrow> kstate" where
  "upd_queue q g s = s\<lparr>queues := (queues s)(q := g (queues s q))\<rparr>"

text \<open>\<open>container_of(nd, task_t, queue_node)\<close>.\<close>

fun container_of_task :: "node_addr \<Rightarrow> u32 option" where
  "container_of_task (QueueNode t) = Some t"
| "container_of_task _ = None"

section \<open>The queue operations\<close>

definition tq_spin_lock :: "tq_id \<Rightarrow> kstate \<Rightarrow> kstate option" where
  "tq_spin_lock q s = do {
     l \<leftarrow> spin_lock (tq_lock (queues s q));
     Some (upd_queue q (\<lambda>tq. tq\<lparr>tq_lock := l\<rparr>) s) }"

definition tq_spin_unlock :: "tq_id \<Rightarrow> kstate \<Rightarrow> kstate" where
  "tq_spin_unlock q s = upd_queue q (\<lambda>tq. tq\<lparr>tq_lock := spin_unlock (tq_lock tq)\<rparr>) s"

definition tq_init :: "tq_id \<Rightarrow> kstate \<Rightarrow> kstate" where
  "tq_init q s = upd_queue q (\<lambda>tq. tq\<lparr>n_tasks := 0, tq_lock := SPINLOCK_FREE\<rparr>)
     (s\<lparr>nodes := list_node_init (TqHead q) (nodes s)\<rparr>)"

definition tq_enqueue :: "tq_id \<Rightarrow> u32 \<Rightarrow> kstate \<Rightarrow> kstate option" where
  "tq_enqueue q task s = do {
     s \<leftarrow> tq_spin_lock q s;
     let s = s\<lparr>nodes := list_add_tail (QueueNode task) (TqHead q) (nodes s)\<rparr>;
     let s = upd_queue q (\<lambda>tq. tq\<lparr>n_tasks := n_tasks tq + 1\<rparr>) s;
     Some (tq_spin_unlock q s) }"

definition tq_dequeue :: "tq_id \<Rightarrow> u32 \<Rightarrow> kstate \<Rightarrow> kstate option" where
  "tq_dequeue q task s = do {
     s \<leftarrow> tq_spin_lock q s;
     let s = s\<lparr>nodes := list_del (QueueNode task) (nodes s)\<rparr>;
     let s = upd_queue q (\<lambda>tq. tq\<lparr>n_tasks := n_tasks tq - 1\<rparr>) s;
     Some (tq_spin_unlock q s) }"

definition tq_pick_next :: "tq_id \<Rightarrow> kstate \<Rightarrow> (u32 \<times> kstate) option" where
  "tq_pick_next q s = do {
     s \<leftarrow> tq_spin_lock q s;
     nxt \<leftarrow> (if n_tasks (queues s q) > 0
             then container_of_task (list_first (TqHead q) (nodes s)) else Some NULL);
     Some (nxt, tq_spin_unlock q s) }"

section \<open>What the queues hold\<close>

definition qrep :: "node_addr list_heap \<Rightarrow> (node_addr \<Rightarrow> u32 list) \<Rightarrow> node_addr set \<Rightarrow> bool" where
  "qrep h Q H \<longleftrightarrow> (\<forall>q\<in>H. (\<forall>t. q \<noteq> QueueNode t) \<and> dlist h q (map QueueNode (Q q))) \<and>
    (\<forall>q\<in>H. \<forall>q'\<in>H. q \<noteq> q' \<longrightarrow> set (Q q) \<inter> set (Q q') = {})"

lemma qrepD:
  assumes "qrep h Q H" and "q \<in> H"
  shows "q \<noteq> QueueNode t" and "dlist h q (map QueueNode (Q q))" and "distinct (Q q)"
    and "q' \<in> H \<Longrightarrow> q \<noteq> q' \<Longrightarrow> set (Q q) \<inter> set (Q q') = {}"
proof -
  show d: "dlist h q (map QueueNode (Q q))" "q \<noteq> QueueNode t"
    using assms by (auto simp: qrep_def)
  show "distinct (Q q)" using dlist_distinct [OF d(1)] by (simp add: distinct_map)
  show "q' \<in> H \<Longrightarrow> q \<noteq> q' \<Longrightarrow> set (Q q) \<inter> set (Q q') = {}" using assms unfolding qrep_def by blast
qed

lemma qrep_disjoint:
  assumes "qrep h Q H" and "q \<in> H" and "q' \<in> H" and "q \<noteq> q'"
  shows "set (q # map QueueNode (Q q)) \<inter> set (q' # map QueueNode (Q q')) = {}"
  using qrepD(1) [OF assms(1,2)] qrepD(1) [OF assms(1,3)] qrepD(4) [OF assms(1-3)] assms(4) by fastforce

lemma qrep_add:
  assumes r: "qrep h Q H" and q: "q \<in> H" and t: "\<And>q'. q' \<in> H \<Longrightarrow> t \<notin> set (Q q')"
  shows "qrep (list_add_tail (QueueNode t) q h) (Q(q := Q q @ [t])) H"
proof -
  note d = qrepD(2) [OF r q]
  have new: "QueueNode t \<notin> set (q # map QueueNode (Q q))"
    using t [OF q] qrepD(1) [OF r q] by auto
  have "dlist (list_add_tail (QueueNode t) q h) q' (map QueueNode ((Q(q := Q q @ [t])) q'))" if q': "q' \<in> H" for q'
  proof (cases "q' = q")
    case True
    then show ?thesis using dlist_add_tail [OF d new] by simp
  next
    case False
    have "set (QueueNode t # q # map QueueNode (Q q)) \<inter> set (q' # map QueueNode (Q q')) = {}"
      using qrep_disjoint [OF r q q'] False t [OF q'] qrepD(1) [OF r q'] by auto
    with False dlist_add_tail_other [OF d qrepD(2) [OF r q']] show ?thesis by simp
  qed
  moreover have "set ((Q(q := Q q @ [t])) q1) \<inter> set ((Q(q := Q q @ [t])) q2) = {}"
    if "q1 \<in> H" "q2 \<in> H" "q1 \<noteq> q2" for q1 q2
    using qrepD(4) [OF r that(1,2,3)] t [OF that(1)] t [OF that(2)] that(3) by auto
  ultimately show ?thesis using qrepD(1) [OF r] unfolding qrep_def by blast
qed

lemma map_remove1_node: "map QueueNode (remove1 t l) = remove1 (QueueNode t) (map QueueNode l)"
  by (induction l) auto

lemma qrep_del:
  assumes r: "qrep h Q H" and q: "q \<in> H" and t: "t \<in> set (Q q)"
  shows "qrep (list_del (QueueNode t) h) (Q(q := remove1 t (Q q))) H"
proof -
  note d = qrepD(2) [OF r q]
  have mem: "QueueNode t \<in> set (map QueueNode (Q q))" using t by simp
  have "dlist (list_del (QueueNode t) h) q' (map QueueNode ((Q(q := remove1 t (Q q))) q'))" if q': "q' \<in> H" for q'
  proof (cases "q' = q")
    case True
    then show ?thesis using dlist_del_remove1 [OF d mem] by (simp add: map_remove1_node)
  next
    case False
    then show ?thesis
      using dlist_del_other [OF d mem qrepD(2) [OF r q'] qrep_disjoint [OF r q q']] by simp
  qed
  moreover have "set ((Q(q := remove1 t (Q q))) q1) \<inter> set ((Q(q := remove1 t (Q q))) q2) = {}"
    if "q1 \<in> H" "q2 \<in> H" "q1 \<noteq> q2" for q1 q2
    using qrepD(4) [OF r that(1,2,3)] that(3) set_remove1_subset [of t "Q q"] by auto
  ultimately show ?thesis using qrepD(1) [OF r] unfolding qrep_def by blast
qed

lemma qrep_first: "qrep h Q H \<Longrightarrow> q \<in> H \<Longrightarrow> Q q \<noteq> [] \<Longrightarrow> list_first q h = QueueNode (hd (Q q))"
  using dlist_first [OF qrepD(2)] by (simp add: hd_map)

lemma qrep_is_empty: "qrep h Q H \<Longrightarrow> q \<in> H \<Longrightarrow> list_is_empty q h \<longleftrightarrow> Q q = []"
  using dlist_empty_iff [OF qrepD(2)] by simp

lemma qrep_other:
  assumes "qrep h Q H" and "\<And>x. x \<in> H \<or> (\<exists>t. x = QueueNode t) \<Longrightarrow> h' x = h x"
  shows "qrep h' Q H"
proof -
  have "dlist h' q (map QueueNode (Q q)) = dlist h q (map QueueNode (Q q))" if "q \<in> H" for q
    by (rule dlist_cong) (use assms(2) that in auto)
  with assms(1) show ?thesis unfolding qrep_def by blast
qed

text \<open>
  A state holds \<open>Q\<close> when its heap does and the counters and locks of the queues agree; the
  heads in \<open>H\<close> are the queues that are set up.
\<close>

definition tq_ok :: "kstate \<Rightarrow> (node_addr \<Rightarrow> u32 list) \<Rightarrow> node_addr set \<Rightarrow> bool" where
  "tq_ok s Q H \<longleftrightarrow> qrep (nodes s) Q H \<and>
    (\<forall>q. TqHead q \<in> H \<longrightarrow> tq_lock (queues s q) = 0 \<and> length (Q (TqHead q)) < 4294967296 \<and>
      n_tasks (queues s q) = of_nat (length (Q (TqHead q))))"

definition no_queue :: "(node_addr \<Rightarrow> u32 list) \<Rightarrow> node_addr set \<Rightarrow> u32 \<Rightarrow> bool" where
  "no_queue Q H t \<longleftrightarrow> (\<forall>q\<in>H. t \<notin> set (Q q))"

lemma tq_lock_ok: "tq_ok s Q H \<Longrightarrow> TqHead q \<in> H \<Longrightarrow> tq_spin_lock q s = Some (upd_queue q (\<lambda>tq. tq\<lparr>tq_lock := 1\<rparr>) s)"
  by (simp add: tq_ok_def tq_spin_lock_def)

lemma distinct_u32_length: "distinct (l :: u32 list) \<Longrightarrow> length l \<le> 4294967296"
proof -
  assume "distinct l"
  then have "length l = card (set l)" by (simp add: distinct_card)
  also have "\<dots> \<le> card (UNIV :: u32 set)" by (rule card_mono) simp_all
  finally show ?thesis by (simp add: card_word)
qed

lemma tq_enqueue_ok:
  assumes ok: "tq_ok s Q H" and q: "TqHead q \<in> H" and t: "no_queue Q H t" "t \<noteq> NULL"
    and nz: "\<And>q. q \<in> H \<Longrightarrow> NULL \<notin> set (Q q)"
  shows "\<exists>s'. tq_enqueue q t s = Some s' \<and> tq_ok s' (Q(TqHead q := Q (TqHead q) @ [t])) H \<and>
    tasks s' = tasks s \<and> rr s' = rr s \<and> cur_task s' = cur_task s \<and> sem_count s' = sem_count s"
proof -
  let ?Q = "Q(TqHead q := Q (TqHead q) @ [t])"
  have r: "qrep (nodes s) Q H" using ok by (simp add: tq_ok_def)
  have r': "qrep (list_add_tail (QueueNode t) (TqHead q) (nodes s)) ?Q H"
    by (rule qrep_add [OF r q]) (use t(1) in \<open>simp add: no_queue_def\<close>)
  have dist: "distinct (NULL # Q (TqHead q) @ [t])"
    using qrepD(3) [OF r q] t nz [OF q] q by (auto simp: no_queue_def)
  from distinct_u32_length [OF this] have len: "length (?Q (TqHead q)) < 4294967296" by simp
  obtain s' where s': "s' = tq_spin_unlock q (upd_queue q (\<lambda>tq. tq\<lparr>n_tasks := n_tasks tq + 1\<rparr>)
      ((upd_queue q (\<lambda>tq. tq\<lparr>tq_lock := 1\<rparr>) s)
        \<lparr>nodes := list_add_tail (QueueNode t) (TqHead q) (nodes s)\<rparr>))" by blast
  have "tq_enqueue q t s = Some s'"
    using tq_lock_ok [OF ok q] by (simp add: tq_enqueue_def s' Let_def upd_queue_def)
  moreover have "tq_ok s' ?Q H"
    unfolding tq_ok_def
  proof (intro conjI allI impI)
    show "qrep (nodes s') ?Q H" using r' by (simp add: s' tq_spin_unlock_def upd_queue_def)
    fix q' assume q': "TqHead q' \<in> H"
    have old: "tq_lock (queues s q') = 0" "n_tasks (queues s q') = of_nat (length (Q (TqHead q')))"
      "length (Q (TqHead q')) < 4294967296"
      using ok q' by (simp_all add: tq_ok_def)
    show "tq_lock (queues s' q') = 0" using old by (simp add: s' tq_spin_unlock_def upd_queue_def)
    show "n_tasks (queues s' q') = of_nat (length (?Q (TqHead q')))"
      using old by (cases "q' = q") (simp_all add: s' tq_spin_unlock_def upd_queue_def add.commute)
    show "length (?Q (TqHead q')) < 4294967296" using old len by auto
  qed
  ultimately show ?thesis by (intro exI [of _ s']) (simp add: s' tq_spin_unlock_def upd_queue_def)
qed

lemma tq_dequeue_ok:
  assumes ok: "tq_ok s Q H" and q: "TqHead q \<in> H" and t: "t \<in> set (Q (TqHead q))"
  shows "\<exists>s'. tq_dequeue q t s = Some s' \<and> tq_ok s' (Q(TqHead q := remove1 t (Q (TqHead q)))) H \<and>
    tasks s' = tasks s \<and> rr s' = rr s \<and> cur_task s' = cur_task s \<and> sem_count s' = sem_count s"
proof -
  let ?Q = "Q(TqHead q := remove1 t (Q (TqHead q)))"
  have r: "qrep (nodes s) Q H" using ok by (simp add: tq_ok_def)
  note r' = qrep_del [OF r q t]
  have len: "length (Q (TqHead q)) = Suc (length (remove1 t (Q (TqHead q))))"
    using t length_pos_if_in_set [OF t] by (simp add: length_remove1)
  obtain s' where s': "s' = tq_spin_unlock q (upd_queue q (\<lambda>tq. tq\<lparr>n_tasks := n_tasks tq - 1\<rparr>)
      ((upd_queue q (\<lambda>tq. tq\<lparr>tq_lock := 1\<rparr>) s)\<lparr>nodes := list_del (QueueNode t) (nodes s)\<rparr>))" by blast
  have "tq_dequeue q t s = Some s'"
    using tq_lock_ok [OF ok q] by (simp add: tq_dequeue_def s' Let_def upd_queue_def)
  moreover have "tq_ok s' ?Q H"
    unfolding tq_ok_def
  proof (intro conjI allI impI)
    show "qrep (nodes s') ?Q H" using r' by (simp add: s' tq_spin_unlock_def upd_queue_def)
    fix q' assume q': "TqHead q' \<in> H"
    have old: "tq_lock (queues s q') = 0" "n_tasks (queues s q') = of_nat (length (Q (TqHead q')))"
      "length (Q (TqHead q')) < 4294967296"
      using ok q' by (simp_all add: tq_ok_def)
    show "tq_lock (queues s' q') = 0" using old by (simp add: s' tq_spin_unlock_def upd_queue_def)
    show "n_tasks (queues s' q') = of_nat (length (?Q (TqHead q')))"
      using old len by (cases "q' = q") (simp_all add: s' tq_spin_unlock_def upd_queue_def)
    show "length (?Q (TqHead q')) < 4294967296" using old len by auto
  qed
  ultimately show ?thesis by (intro exI [of _ s']) (simp add: s' tq_spin_unlock_def upd_queue_def)
qed

lemma tq_pick_next_ok:
  assumes ok: "tq_ok s Q H" and q: "TqHead q \<in> H"
  shows "tq_pick_next q s = Some (case Q (TqHead q) of [] \<Rightarrow> NULL | t # _ \<Rightarrow> t, s)"
proof -
  have r: "qrep (nodes s) Q H" and l: "tq_lock (queues s q) = 0"
    and n: "n_tasks (queues s q) = of_nat (length (Q (TqHead q)))" "length (Q (TqHead q)) < 4294967296"
    using ok q by (simp_all add: tq_ok_def)
  have un: "unat (n_tasks (queues s q)) = length (Q (TqHead q))"
    using n by (simp add: unsigned_of_nat take_bit_nat_eq_self)
  have cnt: "n_tasks (queues s q) > 0 \<longleftrightarrow> Q (TqHead q) \<noteq> []"
    by (simp add: word_less_nat_alt un)
  have same: "tq_spin_unlock q (upd_queue q (\<lambda>tq. tq\<lparr>tq_lock := 1\<rparr>) s) = s"
  proof -
    have "(queues s q)\<lparr>tq_lock := 0\<rparr> = queues s q" using l by (metis task_queue_t.surjective task_queue_t.update_convs(2))
    then show ?thesis by (simp add: tq_spin_unlock_def upd_queue_def)
  qed
  show ?thesis
    using tq_lock_ok [OF ok q] cnt qrep_first [OF r q] same
    by (cases "Q (TqHead q)") (simp_all add: tq_pick_next_def upd_queue_def)
qed

section \<open>The queues are first in, first out\<close>

fun enq_all :: "('a \<Rightarrow> 's \<Rightarrow> 's option) \<Rightarrow> 'a list \<Rightarrow> 's \<Rightarrow> 's option" where
  "enq_all enq [] s = Some s"
| "enq_all enq (a # as) s = do { s \<leftarrow> enq a s; enq_all enq as s }"

fun deq_all :: "('s \<Rightarrow> ('a \<times> 's) option) \<Rightarrow> ('a \<Rightarrow> 's \<Rightarrow> 's option) \<Rightarrow> nat \<Rightarrow> 's \<Rightarrow> ('a list \<times> 's) option" where
  "deq_all peek deq 0 s = Some ([], s)"
| "deq_all peek deq (Suc n) s = do {
     (a, s) \<leftarrow> peek s; s \<leftarrow> deq a s; (as, s) \<leftarrow> deq_all peek deq n s; Some (a # as, s) }"

text \<open>\<open>holds s l F\<close>: the line holds \<open>l\<close>, and the elements of \<open>F\<close> may join it.\<close>

locale fifo_queue =
  fixes holds :: "'s \<Rightarrow> 'a list \<Rightarrow> 'a set \<Rightarrow> bool"
    and enq :: "'a \<Rightarrow> 's \<Rightarrow> 's option"
    and deq :: "'a \<Rightarrow> 's \<Rightarrow> 's option"
    and peek :: "'s \<Rightarrow> ('a \<times> 's) option"
  assumes enq_law: "holds s l F \<Longrightarrow> a \<in> F \<Longrightarrow> \<exists>s'. enq a s = Some s' \<and> holds s' (l @ [a]) (F - {a})"
    and peek_law: "holds s (a # l) F \<Longrightarrow> peek s = Some (a, s)"
    and deq_law: "holds s (a # l) F \<Longrightarrow> \<exists>s'. deq a s = Some s' \<and> holds s' l (insert a F)"
begin

lemma enq_all_holds:
  "holds s l F \<Longrightarrow> distinct as \<Longrightarrow> set as \<subseteq> F \<Longrightarrow>
    \<exists>s'. enq_all enq as s = Some s' \<and> holds s' (l @ as) (F - set as)"
proof (induction as arbitrary: s l F)
  case (Cons a as)
  then have "a \<in> F" by simp
  with enq_law [OF Cons.prems(1)] obtain s1 where s1: "enq a s = Some s1" "holds s1 (l @ [a]) (F - {a})" by blast
  have "set as \<subseteq> F - {a}" "distinct as" using Cons.prems by auto
  with Cons.IH [OF s1(2)] obtain s2
    where s2: "enq_all enq as s1 = Some s2" "holds s2 ((l @ [a]) @ as) (F - {a} - set as)" by blast
  have "F - {a} - set as = F - set (a # as)" by auto
  with s1(1) s2 show ?case by auto
qed auto

lemma deq_all_holds:
  "holds s (as @ l) F \<Longrightarrow> \<exists>s'. deq_all peek deq (length as) s = Some (as, s') \<and> holds s' l (F \<union> set as)"
proof (induction as arbitrary: s F)
  case (Cons a as)
  then have h: "holds s (a # as @ l) F" by simp
  obtain s1 where s1: "deq a s = Some s1" "holds s1 (as @ l) (insert a F)" using deq_law [OF h] by blast
  from Cons.IH [OF s1(2)] obtain s2
    where "deq_all peek deq (length as) s1 = Some (as, s2)" "holds s2 l (insert a F \<union> set as)" by blast
  with s1(1) peek_law [OF h] show ?case by simp
qed simp

lemma first_in_first_out:
  assumes "holds s [] F" and "distinct as" and "set as \<subseteq> F"
  shows "\<exists>s1 s2. enq_all enq as s = Some s1 \<and> deq_all peek deq (length as) s1 = Some (as, s2) \<and> holds s2 [] F"
proof -
  obtain s1 where s1: "enq_all enq as s = Some s1" "holds s1 (as @ []) (F - set as)"
    using enq_all_holds [OF assms] by auto
  from deq_all_holds [OF s1(2)] obtain s2
    where "deq_all peek deq (length as) s1 = Some (as, s2)" "holds s2 [] (F - set as \<union> set as)" by blast
  moreover have "F - set as \<union> set as = F" using assms(3) by auto
  ultimately show ?thesis using s1(1) by auto
qed

end

definition tq_holds :: "tq_id \<Rightarrow> node_addr set \<Rightarrow> kstate \<Rightarrow> u32 list \<Rightarrow> u32 set \<Rightarrow> bool" where
  "tq_holds q H s l F \<longleftrightarrow> (\<exists>Q. tq_ok s Q H \<and> TqHead q \<in> H \<and> (\<forall>q'\<in>H. NULL \<notin> set (Q q')) \<and>
    Q (TqHead q) = l \<and> F = {t. t \<noteq> NULL \<and> no_queue Q H t})"

interpretation tqi: fifo_queue "tq_holds q H" "tq_enqueue q" "tq_dequeue q" "tq_pick_next q" for q H
proof unfold_locales
  fix s l F a
  assume "tq_holds q H s l F" and a: "a \<in> F"
  then obtain Q where Q: "tq_ok s Q H" "TqHead q \<in> H" "\<forall>q'\<in>H. NULL \<notin> set (Q q')" "Q (TqHead q) = l"
    "F = {t. t \<noteq> NULL \<and> no_queue Q H t}" by (auto simp: tq_holds_def)
  then obtain s' where "tq_enqueue q a s = Some s'" "tq_ok s' (Q(TqHead q := l @ [a])) H"
    using tq_enqueue_ok [of s Q H q a] a by auto
  then show "\<exists>s'. tq_enqueue q a s = Some s' \<and> tq_holds q H s' (l @ [a]) (F - {a})"
    using Q a unfolding tq_holds_def
    by (intro exI [of _ s'] conjI exI [of _ "Q(TqHead q := l @ [a])"]) (auto simp: no_queue_def split: if_splits)
next
  fix s a l F
  assume "tq_holds q H s (a # l) F"
  then show "tq_pick_next q s = Some (a, s)" using tq_pick_next_ok by (auto simp: tq_holds_def)
next
  fix s a l F
  assume "tq_holds q H s (a # l) F"
  then obtain Q where Q: "tq_ok s Q H" "TqHead q \<in> H" "\<forall>q'\<in>H. NULL \<notin> set (Q q')" "Q (TqHead q) = a # l"
    "F = {t. t \<noteq> NULL \<and> no_queue Q H t}" by (auto simp: tq_holds_def)
  then obtain s' where s': "tq_dequeue q a s = Some s'" "tq_ok s' (Q(TqHead q := l)) H"
    using tq_dequeue_ok [of s Q H q a] by auto
  have r: "qrep (nodes s) Q H" using Q(1) by (simp add: tq_ok_def)
  have a: "a \<notin> set l" "a \<noteq> NULL" using qrepD(3) [OF r Q(2)] Q(3) [rule_format, OF Q(2)] Q(4) by auto
  have "a \<notin> set (Q q')" if "q' \<in> H" "q' \<noteq> TqHead q" for q'
    using qrepD(4) [OF r Q(2) that(1)] that(2) Q(4) by auto
  then have "insert a F = {t. t \<noteq> NULL \<and> no_queue (Q(TqHead q := l)) H t}"
    using Q(2,4,5) a by (auto simp: no_queue_def split: if_splits)
  with s' Q show "\<exists>s'. tq_dequeue q a s = Some s' \<and> tq_holds q H s' l (insert a F)"
    unfolding tq_holds_def by (intro exI [of _ s'] conjI exI [of _ "Q(TqHead q := l)"]) (auto split: if_splits)
qed

lemma tq_init_ok:
  assumes "no_queue Q H NULL" and "tq_ok s Q H" and "TqHead q \<notin> H"
  shows "tq_ok (tq_init q s) (Q(TqHead q := [])) (insert (TqHead q) H) \<and>
    (\<forall>q'\<in>insert (TqHead q) H. NULL \<notin> set ((Q(TqHead q := [])) q'))"
proof
  have r: "qrep (nodes s) Q H" using assms(2) by (simp add: tq_ok_def)
  have "qrep (list_node_init (TqHead q) (nodes s)) Q H"
    by (rule qrep_other [OF r]) (use assms(3) in \<open>auto intro!: list_node_init_other\<close>)
  then have "qrep (list_node_init (TqHead q) (nodes s)) (Q(TqHead q := [])) (insert (TqHead q) H)"
    using assms(3) by (auto simp: qrep_def dlist_init)
  then show "tq_ok (tq_init q s) (Q(TqHead q := [])) (insert (TqHead q) H)"
    using assms(2) by (auto simp: tq_ok_def tq_init_def upd_queue_def SPINLOCK_FREE_def)
  show "\<forall>q'\<in>insert (TqHead q) H. NULL \<notin> set ((Q(TqHead q := [])) q')"
    using assms(1) by (auto simp: no_queue_def)
qed

text \<open>A task queue is first in, first out: tasks that no queue holds, put on an empty queue one
  after the other, are picked and taken off again in the same order, and the queue is empty again.\<close>

theorem tq_fifo:
  assumes "tq_ok s Q H" and "TqHead q \<in> H" and "\<forall>q'\<in>H. NULL \<notin> set (Q q')" and "Q (TqHead q) = []"
    and "distinct ts" and "\<forall>t\<in>set ts. t \<noteq> NULL \<and> no_queue Q H t"
  shows "\<exists>s1 s2. enq_all (tq_enqueue q) ts s = Some s1 \<and>
    deq_all (tq_pick_next q) (tq_dequeue q) (length ts) s1 = Some (ts, s2) \<and> tq_pick_next q s2 = Some (NULL, s2)"
proof -
  have "tq_holds q H s [] {t. t \<noteq> NULL \<and> no_queue Q H t}"
    unfolding tq_holds_def using assms(1-4) by blast
  from tqi.first_in_first_out [OF this assms(5)] assms(6) obtain s1 s2 F where
    "enq_all (tq_enqueue q) ts s = Some s1" "deq_all (tq_pick_next q) (tq_dequeue q) (length ts) s1 = Some (ts, s2)"
    "tq_holds q H s2 [] F" by blast
  then show ?thesis using tq_pick_next_ok by (fastforce simp: tq_holds_def)
qed

text \<open>The state before \<open>sched_init\<close>: the tables are zero.\<close>

definition kboot :: kstate where
  "kboot = \<lparr>tasks = (\<lambda>_. \<lparr>t_lock = 0, t_pid = 0, t_prio = 0, t_name = [], t_stat = TASK_READY, t_parent = 0,
      t_time_ticks = 0, t_rest_ticks = 0, t_total_ticks = 0, t_sleep_ticks = 0, t_wait_for = 0, t_esp = 0\<rparr>),
     nodes = (\<lambda>_. \<lparr>node_prev = QueueNode 0, node_next = QueueNode 0\<rparr>),
     queues = (\<lambda>_. \<lparr>n_tasks = 0, tq_lock = 0\<rparr>),
     rr = \<lparr>rr_n_tasks = 0, bit_tbl = replicate 8 0, bit_grp = 0, rr_lock = 0\<rparr>,
     sem_count = (\<lambda>_. 0), cur_task = 0, task_tbl = (\<lambda>_. 0), pid_map_state = pid_boot,
     kmem = (\<lambda>_. 0), kmm = mm_boot\<rparr>"

theorem tq_fifo_witness:
  "\<exists>s1 s2. enq_all (tq_enqueue SleepQue) [0x5000, 0x3000] (tq_init SleepQue kboot) = Some s1 \<and>
    deq_all (tq_pick_next SleepQue) (tq_dequeue SleepQue) 2 s1 = Some ([0x5000, 0x3000], s2)"
proof -
  have "tq_ok (tq_init SleepQue kboot) ((\<lambda>_. [])(TqHead SleepQue := [])) (insert (TqHead SleepQue) {})"
    using tq_init_ok [of "\<lambda>_. []" "{}" kboot SleepQue] by (simp add: no_queue_def tq_ok_def qrep_def)
  from tq_fifo [OF this, of SleepQue "[0x5000, 0x3000]"]
  have "\<exists>s1 s2. enq_all (tq_enqueue SleepQue) [0x5000, 0x3000] (tq_init SleepQue kboot) = Some s1 \<and>
    deq_all (tq_pick_next SleepQue) (tq_dequeue SleepQue) (length [0x5000 :: u32, 0x3000]) s1
      = Some ([0x5000, 0x3000], s2) \<and> tq_pick_next SleepQue s2 = Some (NULL, s2)"
    by (simp add: NULL_def no_queue_def del: enq_all.simps deq_all.simps list.size)
  moreover have "length [0x5000 :: u32, 0x3000] = 2" by simp
  ultimately show ?thesis by metis
qed

end
