(* ===== verification/SchedRR.thy ===== *)
theory SchedRR
  imports TaskQueue
begin

text \<open>
  The round-robin scheduler of \<open>kernel/sched_rr.c\<close>: 64 ready lists, one per priority, and a
  two-level bitmap of the lists that are not empty. \<open>bit_tbl[y]\<close> has bit \<open>x\<close> when list
  \<open>8 * y + x\<close> is not empty, \<open>bit_grp\<close> has bit \<open>y\<close> when \<open>bit_tbl[y]\<close> is not zero;
  \<open>rr_unmap\<close> finds the lowest bit of a byte.

  The lemmas show that the bitmap follows the lists through every operation, and that
  \<open>rr_pick_next\<close> takes the first task of the most urgent list that is not empty and moves
  it to the end of that list.
\<close>

section \<open>The code\<close>

definition rr_map :: "u8 list" where
  "rr_map =
   [0x01, 0x02, 0x04, 0x08,
    0x10, 0x20, 0x40, 0x80]"

definition rr_unmap :: "u8 list" where
  "rr_unmap =
   [0, 0, 1, 0, 2, 0, 1, 0, 3, 0, 1, 0, 2, 0, 1, 0,
    4, 0, 1, 0, 2, 0, 1, 0, 3, 0, 1, 0, 2, 0, 1, 0,
    5, 0, 1, 0, 2, 0, 1, 0, 3, 0, 1, 0, 2, 0, 1, 0,
    4, 0, 1, 0, 2, 0, 1, 0, 3, 0, 1, 0, 2, 0, 1, 0,
    6, 0, 1, 0, 2, 0, 1, 0, 3, 0, 1, 0, 2, 0, 1, 0,
    4, 0, 1, 0, 2, 0, 1, 0, 3, 0, 1, 0, 2, 0, 1, 0,
    5, 0, 1, 0, 2, 0, 1, 0, 3, 0, 1, 0, 2, 0, 1, 0,
    4, 0, 1, 0, 2, 0, 1, 0, 3, 0, 1, 0, 2, 0, 1, 0,
    7, 0, 1, 0, 2, 0, 1, 0, 3, 0, 1, 0, 2, 0, 1, 0,
    4, 0, 1, 0, 2, 0, 1, 0, 3, 0, 1, 0, 2, 0, 1, 0,
    5, 0, 1, 0, 2, 0, 1, 0, 3, 0, 1, 0, 2, 0, 1, 0,
    4, 0, 1, 0, 2, 0, 1, 0, 3, 0, 1, 0, 2, 0, 1, 0,
    6, 0, 1, 0, 2, 0, 1, 0, 3, 0, 1, 0, 2, 0, 1, 0,
    4, 0, 1, 0, 2, 0, 1, 0, 3, 0, 1, 0, 2, 0, 1, 0,
    5, 0, 1, 0, 2, 0, 1, 0, 3, 0, 1, 0, 2, 0, 1, 0,
    4, 0, 1, 0, 2, 0, 1, 0, 3, 0, 1, 0, 2, 0, 1, 0]"

definition rr_spin_lock :: "kstate \<Rightarrow> kstate option" where
  "rr_spin_lock s = do {
     l \<leftarrow> spin_lock (rr_lock (rr s));
     Some (s\<lparr>rr := (rr s)\<lparr>rr_lock := l\<rparr>\<rparr>) }"

definition rr_spin_unlock :: "kstate \<Rightarrow> kstate" where
  "rr_spin_unlock s = s\<lparr>rr := (rr s)\<lparr>rr_lock := spin_unlock (rr_lock (rr s))\<rparr>\<rparr>"

definition rr_init :: "kstate \<Rightarrow> kstate" where
  "rr_init s =
    s\<lparr>nodes := fold (\<lambda>i. list_node_init (RrHead (of_nat i))) [0..<unat NR_PRIO] (nodes s),
      rr := \<lparr>rr_n_tasks = 0, bit_tbl = replicate 8 0, bit_grp = 0, rr_lock = SPINLOCK_FREE\<rparr>\<rparr>"

text \<open>A priority of 64 or more would index \<open>rr.queue\<close> out of bounds: \<^term>\<open>None\<close>.\<close>

definition rr_enqueue :: "u32 \<Rightarrow> kstate \<Rightarrow> kstate option" where
  "rr_enqueue task s = do {
     s \<leftarrow> rr_spin_lock s;
     let prio = t_prio (tasks s task);
     if prio < NR_PRIO then do {
       let s = s\<lparr>nodes := list_add_tail (QueueNode task) (RrHead prio) (nodes s)\<rparr>;
       let s = s\<lparr>rr := (rr s)\<lparr>rr_n_tasks := rr_n_tasks (rr s) + 1\<rparr>\<rparr>;
       let y = unat (drop_bit 3 prio);
       let s = s\<lparr>rr := (rr s)\<lparr>bit_tbl := (bit_tbl (rr s))[y := bit_tbl (rr s) ! y OR rr_map ! unat (prio AND 0x07)]\<rparr>\<rparr>;
       let s = s\<lparr>rr := (rr s)\<lparr>bit_grp := bit_grp (rr s) OR rr_map ! y\<rparr>\<rparr>;
       Some (rr_spin_unlock s) }
     else None }"

definition rr_dequeue :: "u32 \<Rightarrow> kstate \<Rightarrow> kstate option" where
  "rr_dequeue task s = do {
     s \<leftarrow> rr_spin_lock s;
     let prio = t_prio (tasks s task);
     if prio < NR_PRIO then do {
       let s = s\<lparr>nodes := list_del (QueueNode task) (nodes s)\<rparr>;
       let s = s\<lparr>rr := (rr s)\<lparr>rr_n_tasks := rr_n_tasks (rr s) - 1\<rparr>\<rparr>;
       let y = unat (drop_bit 3 prio);
       let s = (if list_is_empty (RrHead prio) (nodes s)
         then
           let s = s\<lparr>rr := (rr s)\<lparr>bit_tbl := (bit_tbl (rr s))[y := bit_tbl (rr s) ! y AND NOT (rr_map ! unat (prio AND 0x07))]\<rparr>\<rparr>
           in if bit_tbl (rr s) ! y = 0
              then s\<lparr>rr := (rr s)\<lparr>bit_grp := bit_grp (rr s) AND NOT (rr_map ! y)\<rparr>\<rparr> else s
         else s);
       Some (rr_spin_unlock s) }
     else None }"

definition rr_pick_next :: "kstate \<Rightarrow> (u32 \<times> kstate) option" where
  "rr_pick_next s = do {
     s \<leftarrow> rr_spin_lock s;
     let y = rr_unmap ! unat (bit_grp (rr s));
     let x = rr_unmap ! unat (bit_tbl (rr s) ! unat y);
     let prio = push_bit 3 y + x;
     nxt \<leftarrow> container_of_task (list_first (RrHead prio) (nodes s));
     let s = s\<lparr>nodes := list_del (QueueNode nxt) (nodes s)\<rparr>;
     let s = s\<lparr>nodes := list_add_tail (QueueNode nxt) (RrHead prio) (nodes s)\<rparr>;
     Some (nxt, rr_spin_unlock s) }"

section \<open>The tables\<close>

lemma rr_map_nth: "x < 8 \<Longrightarrow> rr_map ! x = push_bit x 1"
proof -
  have "list_all (\<lambda>x. rr_map ! x = push_bit x 1) [0..<8]" by code_simp
  then show "x < 8 \<Longrightarrow> rr_map ! x = push_bit x 1" by (simp add: list_all_iff)
qed

lemma bit_rr_map: "x < 8 \<Longrightarrow> bit (rr_map ! x) j \<longleftrightarrow> j = x"
  by (auto simp: rr_map_nth bit_one_shift simp del: push_bit_of_1)

lemma rr_unmap_scan: "scan_table set_at 1 (tl rr_unmap)"
  by (simp add: rr_unmap_def set_at_def)

lemma rr_unmap_lowest:
  fixes b :: u8
  assumes "b \<noteq> 0"
  shows "lowest (bit b) (unat (rr_unmap ! unat b))"
proof -
  have b: "0 < unat b" "unat b < 256" using assms u8_lt [of b] by (simp_all add: unat_gt_0)
  then obtain n where n: "unat b = Suc n" by (cases "unat b") auto
  have len: "length (tl rr_unmap) = 255" by (simp add: rr_unmap_def)
  have "n < length (tl rr_unmap)" using b n len by simp
  from scan_table_nth [OF rr_unmap_scan this] this n have "set_at (1 + int n) (rr_unmap ! unat b)"
    by (simp add: nth_tl)
  moreover have "uint b = 1 + int n" using n by (simp add: uint_nat)
  ultimately show ?thesis using set_at_lowest by simp
qed

section \<open>The bitmap\<close>

text \<open>The bitmap stands for the set of priorities that satisfy \<open>P\<close>.\<close>

definition bitmap_ok :: "u8 list \<Rightarrow> u8 \<Rightarrow> (nat \<Rightarrow> bool) \<Rightarrow> bool" where
  "bitmap_ok tbl grp P \<longleftrightarrow> length tbl = 8 \<and> (\<forall>y<8. \<forall>x<8. bit (tbl ! y) x \<longleftrightarrow> P (8 * y + x)) \<and>
    (\<forall>y<8. bit grp y \<longleftrightarrow> tbl ! y \<noteq> 0)"

lemma prio_split: "p < 64 \<Longrightarrow> p div 8 < 8 \<and> p mod 8 < 8 \<and> 8 * (p div 8) + p mod 8 = (p::nat)"
  by auto

lemma prio_eq: "x < 8 \<Longrightarrow> 8 * y + x = p \<longleftrightarrow> y = p div 8 \<and> x = p mod (8::nat)"
  by auto

lemma bitmap_set:
  assumes ok: "bitmap_ok tbl grp P" and p: "p < 64"
  shows "bitmap_ok (tbl[p div 8 := tbl ! (p div 8) OR rr_map ! (p mod 8)]) (grp OR rr_map ! (p div 8)) (P(p := True))"
proof -
  note sp = prio_split [OF p]
  let ?tbl = "tbl[p div 8 := tbl ! (p div 8) OR rr_map ! (p mod 8)]"
  have len: "length tbl = 8" using ok by (simp add: bitmap_ok_def)
  have cell: "bit (?tbl ! y) x \<longleftrightarrow> (P(p := True)) (8 * y + x)" if "y < 8" "x < 8" for y x
    using ok that sp len prio_eq [OF that(2), of y p]
    by (auto simp: bitmap_ok_def nth_list_update bit_or_iff bit_rr_map)
  moreover have "bit (grp OR rr_map ! (p div 8)) y \<longleftrightarrow> ?tbl ! y \<noteq> 0" if y: "y < 8" for y
  proof (cases "y = p div 8")
    case True
    have "bit (?tbl ! y) (p mod 8)" using cell [of y "p mod 8"] sp True by simp
    then have "?tbl ! y \<noteq> 0" by (metis bit_0_eq bot_apply bot_bool_def)
    then show ?thesis using True sp by (simp add: bit_or_iff bit_rr_map)
  next
    case False
    then show ?thesis using ok y sp by (simp add: bitmap_ok_def bit_or_iff bit_rr_map)
  qed
  ultimately show ?thesis using len by (simp add: bitmap_ok_def)
qed

lemma bitmap_clear:
  assumes ok: "bitmap_ok tbl grp P" and p: "p < 64"
  defines "tbl' \<equiv> tbl[p div 8 := tbl ! (p div 8) AND NOT (rr_map ! (p mod 8))]"
  shows "bitmap_ok tbl' (if tbl' ! (p div 8) = 0 then grp AND NOT (rr_map ! (p div 8)) else grp) (P(p := False))"
proof -
  note sp = prio_split [OF p]
  have len: "length tbl = 8" using ok by (simp add: bitmap_ok_def)
  have cell: "bit (tbl' ! y) x \<longleftrightarrow> (P(p := False)) (8 * y + x)" if "y < 8" "x < 8" for y x
    using ok that sp len prio_eq [OF that(2), of y p]
    by (auto simp: bitmap_ok_def tbl'_def nth_list_update bit_and_iff bit_not_iff bit_rr_map)
  have other: "tbl' ! y = tbl ! y" if "y \<noteq> p div 8" for y using that by (simp add: tbl'_def)
  have old: "tbl' ! (p div 8) \<noteq> 0 \<Longrightarrow> tbl ! (p div 8) \<noteq> 0"
    using sp len by (auto simp: tbl'_def)
  have "bit (if tbl' ! (p div 8) = 0 then grp AND NOT (rr_map ! (p div 8)) else grp) y \<longleftrightarrow> tbl' ! y \<noteq> 0"
    if y: "y < 8" for y
    using ok y sp other [of y] old
    by (cases "y = p div 8") (auto simp: bitmap_ok_def bit_and_iff bit_not_iff bit_rr_map)
  with cell len show ?thesis by (simp add: bitmap_ok_def tbl'_def)
qed

interpretation prio_map: two_level 8 8 "\<lambda>y x. bit (tbl ! y) x" for tbl :: "u8 list"
  by unfold_locales simp

lemma bitmap_first:
  assumes ok: "bitmap_ok tbl grp P" and p: "p < 64" "P p"
  defines "y \<equiv> unat (rr_unmap ! unat grp)"
  defines "x \<equiv> unat (rr_unmap ! unat (tbl ! y))"
  shows "y < 8" and "x < 8" and "lowest (\<lambda>p. p < 64 \<and> P p) (8 * y + x)"
proof -
  note sp = prio_split [OF p(1)]
  have row: "prio_map.row_hit tbl y \<longleftrightarrow> y < 8 \<and> bit grp y" for y
    using ok by (auto simp: prio_map.row_hit_def bitmap_ok_def word_nonzero)
  have flat: "prio_map.flat tbl p \<longleftrightarrow> p < 64 \<and> P p" for p
    using ok prio_split [of p] by (auto simp: prio_map.flat_def bitmap_ok_def)
  have "bit (tbl ! (p div 8)) (p mod 8)" using ok p sp by (simp add: bitmap_ok_def)
  then have "tbl ! (p div 8) \<noteq> 0" by (metis bit_0_eq bot_apply bot_bool_def)
  then have "bit grp (p div 8)" using ok sp by (simp add: bitmap_ok_def)
  then have "grp \<noteq> 0" by auto
  then have ly: "lowest (bit grp) y" unfolding y_def by (rule rr_unmap_lowest)
  then have gy: "bit grp y" by (rule lowestD)
  then show y8: "y < 8" using bit_imp_le_length by fastforce
  then have "tbl ! y \<noteq> 0" using ok gy y8 unfolding bitmap_ok_def by blast
  then have lx: "lowest (bit (tbl ! y)) x" unfolding x_def by (rule rr_unmap_lowest)
  then show x8: "x < 8" using lowestD [OF lx] bit_imp_le_length by fastforce
  have "lowest (prio_map.row_hit tbl) y"
    using ly y8 by (auto simp: lowest_def row)
  moreover have "lowest (\<lambda>x. x < 8 \<and> bit (tbl ! y) x) x"
    using lx x8 by (auto simp: lowest_def)
  ultimately have "lowest (prio_map.flat tbl) (8 * y + x)" by (rule prio_map.two_level_lowest)
  then show "lowest (\<lambda>p. p < 64 \<and> P p) (8 * y + x)" unfolding flat [abs_def] .
qed


lemma bitmap_cong: "(\<And>p. p < 64 \<Longrightarrow> P p = P' p) \<Longrightarrow> bitmap_ok tbl grp P = bitmap_ok tbl grp P'"
  unfolding bitmap_ok_def by (intro conj_cong refl all_cong) simp

section \<open>The invariant of the scheduler\<close>

definition ready :: "(node_addr \<Rightarrow> u32 list) \<Rightarrow> nat \<Rightarrow> u32 list" where
  "ready Q p = Q (RrHead (of_nat p))"

definition rr_ok :: "kstate \<Rightarrow> (node_addr \<Rightarrow> u32 list) \<Rightarrow> bool" where
  "rr_ok s Q \<longleftrightarrow> rr_lock (rr s) = 0 \<and>
    bitmap_ok (bit_tbl (rr s)) (bit_grp (rr s)) (\<lambda>p. ready Q p \<noteq> []) \<and>
    rr_n_tasks (rr s) = of_nat (\<Sum>p<64. length (ready Q p)) \<and>
    (\<forall>p<64. \<forall>t\<in>set (ready Q p). t_prio (tasks s t) = of_nat p)"

definition sched_ok :: "kstate \<Rightarrow> (node_addr \<Rightarrow> u32 list) \<Rightarrow> node_addr set \<Rightarrow> bool" where
  "sched_ok s Q H \<longleftrightarrow> tq_ok s Q H \<and> rr_ok s Q \<and> (\<forall>p<64. RrHead (of_nat p) \<in> H) \<and>
    (\<forall>q\<in>H. NULL \<notin> set (Q q))"

lemma u8_of_nat: "p < 64 \<Longrightarrow> unat (of_nat p :: u8) = p"
  by (simp add: unsigned_of_nat take_bit_nat_eq_self)

lemma u8_of_nat_inj: "p < 64 \<Longrightarrow> p' < 64 \<Longrightarrow> (of_nat p :: u8) = of_nat p' \<longleftrightarrow> p = p'"
  by (metis u8_of_nat)

lemma prio_lt: "prio < NR_PRIO \<longleftrightarrow> unat prio < 64"
  by (simp add: NR_PRIO_def word_less_nat_alt)

lemma prio_y: "unat (drop_bit 3 prio :: u8) = unat prio div 8"
  by (simp only: unat_drop_bit_eq) (simp add: drop_bit_eq_div)

lemma prio_x: "unat (prio AND 0x07 :: u8) = unat prio mod 8"
proof -
  have "prio AND 0x07 = take_bit 3 prio" by (simp add: take_bit_eq_mask mask_numeral)
  then show ?thesis by (simp only: unsigned_take_bit_eq) (simp add: take_bit_eq_mod)
qed

lemma ready_upd: "p < 64 \<Longrightarrow> p' < 64 \<Longrightarrow>
    ready (Q(RrHead (of_nat p) := l)) p' = (if p' = p then l else ready Q p')"
  by (simp add: ready_def u8_of_nat_inj)

lemma ready_other: "ready (Q(TqHead q := l)) p = ready Q p"
  by (simp add: ready_def)

text \<open>The lists of the other queues and the fields of the tasks stay what they are.\<close>

definition same_but_rr :: "kstate \<Rightarrow> kstate \<Rightarrow> bool" where
  "same_but_rr s s' \<longleftrightarrow> tasks s' = tasks s \<and> queues s' = queues s \<and> cur_task s' = cur_task s \<and>
    sem_count s' = sem_count s \<and> task_tbl s' = task_tbl s \<and> pid_map_state s' = pid_map_state s \<and>
    kmem s' = kmem s \<and> kmm s' = kmm s"

lemma tq_ok_rr: "tq_ok s Q H \<Longrightarrow> qrep (nodes s') (Q(RrHead p := l)) H \<Longrightarrow> queues s' = queues s \<Longrightarrow>
    tq_ok s' (Q(RrHead p := l)) H"
  by (simp add: tq_ok_def)

lemma rr_lock_ok: "rr_ok s Q \<Longrightarrow> rr_spin_lock s = Some (s\<lparr>rr := (rr s)\<lparr>rr_lock := 1\<rparr>\<rparr>)"
  by (simp add: rr_ok_def rr_spin_lock_def)

lemma sum_length_upd:
  assumes "p < 64"
  shows "(\<Sum>i<64. length (ready (Q(RrHead (of_nat p) := l)) i)) + length (ready Q p)
    = (\<Sum>i<64. length (ready Q i)) + length l"
proof -
  let ?Q = "Q(RrHead (of_nat p) := l)"
  have p: "p \<in> {..<64}" "finite {..<64::nat}" using assms by simp_all
  have "(\<Sum>i\<in>{..<64} - {p}. length (ready ?Q i)) = (\<Sum>i\<in>{..<64} - {p}. length (ready Q i))"
    by (rule sum.cong) (use assms in \<open>simp_all add: ready_upd\<close>)
  then show ?thesis
    using sum.remove [OF p(2,1), of "\<lambda>i. length (ready ?Q i)"] sum.remove [OF p(2,1), of "\<lambda>i. length (ready Q i)"]
      assms by (simp add: ready_upd)
qed

section \<open>The operations\<close>

lemma rr_enqueue_ok:
  assumes ok: "sched_ok s Q H" and t: "no_queue Q H t" "t \<noteq> NULL" and p: "unat (t_prio (tasks s t)) < 64"
  shows "\<exists>s'. rr_enqueue t s = Some s' \<and>
    sched_ok s' (Q(RrHead (t_prio (tasks s t)) := Q (RrHead (t_prio (tasks s t))) @ [t])) H \<and> same_but_rr s s'"
proof -
  define p where "p = unat (t_prio (tasks s t))"
  have pr: "t_prio (tasks s t) = of_nat p" "p < 64" using p by (simp_all add: p_def)
  note sp = prio_split [OF pr(2)]
  have head: "RrHead (of_nat p) \<in> H" and rr: "rr_ok s Q" and tq: "tq_ok s Q H"
    using ok pr(2) by (auto simp: sched_ok_def)
  let ?Q = "Q(RrHead (of_nat p) := Q (RrHead (of_nat p)) @ [t])"
  have q: "qrep (list_add_tail (QueueNode t) (RrHead (of_nat p)) (nodes s)) ?Q H"
    by (rule qrep_add [OF _ head]) (use t tq in \<open>auto simp: tq_ok_def no_queue_def\<close>)
  let ?r = "(rr s)\<lparr>rr_n_tasks := rr_n_tasks (rr s) + 1,
      bit_tbl := (bit_tbl (rr s))[p div 8 := bit_tbl (rr s) ! (p div 8) OR rr_map ! (p mod 8)],
      bit_grp := bit_grp (rr s) OR rr_map ! (p div 8), rr_lock := 0\<rparr>"
  let ?s = "s\<lparr>nodes := list_add_tail (QueueNode t) (RrHead (of_nat p)) (nodes s), rr := ?r\<rparr>"
  have run: "rr_enqueue t s = Some ?s"
    using rr_lock_ok [OF rr] pr u8_of_nat [OF pr(2)]
    by (simp add: rr_enqueue_def prio_lt prio_y prio_x rr_spin_unlock_def Let_def)
  have map: "bitmap_ok (bit_tbl ?r) (bit_grp ?r) (\<lambda>i. ready ?Q i \<noteq> [])"
  proof -
    have "bitmap_ok (bit_tbl ?r) (bit_grp ?r) ((\<lambda>i. ready Q i \<noteq> [])(p := True))"
      using bitmap_set [OF _ pr(2)] rr by (simp add: rr_ok_def)
    then show ?thesis by (rule iffD1 [OF bitmap_cong, rotated]) (simp add: ready_upd pr(2))
  qed
  have cnt: "(\<Sum>i<64. length (ready ?Q i)) = Suc (\<Sum>i<64. length (ready Q i))"
    using sum_length_upd [OF pr(2), of Q "Q (RrHead (of_nat p)) @ [t]"] by (simp add: ready_def)
  have prios: "\<forall>i<64. \<forall>u\<in>set (ready ?Q i). t_prio (tasks s u) = of_nat i"
    using rr pr by (auto simp: rr_ok_def ready_upd split: if_splits) (auto simp: ready_def)
  have "rr_ok ?s ?Q"
    using map prios rr unfolding rr_ok_def cnt by (simp add: add.commute)
  moreover have "tq_ok ?s ?Q H" by (rule tq_ok_rr [OF tq]) (use q in simp_all)
  ultimately have "sched_ok ?s ?Q H" using ok t by (auto simp: sched_ok_def)
  with run show ?thesis by (auto simp: pr(1) same_but_rr_def)
qed

lemma rr_dequeue_ok:
  assumes ok: "sched_ok s Q H" and p: "unat (t_prio (tasks s t)) < 64"
    and t: "t \<in> set (Q (RrHead (t_prio (tasks s t))))"
  shows "\<exists>s'. rr_dequeue t s = Some s' \<and>
    sched_ok s' (Q(RrHead (t_prio (tasks s t)) := remove1 t (Q (RrHead (t_prio (tasks s t)))))) H \<and> same_but_rr s s'"
proof -
  define p where "p = unat (t_prio (tasks s t))"
  have pr: "t_prio (tasks s t) = of_nat p" "p < 64" using p by (simp_all add: p_def)
  note sp = prio_split [OF pr(2)]
  have head: "RrHead (of_nat p) \<in> H" and rr: "rr_ok s Q" and tq: "tq_ok s Q H"
    using ok pr(2) by (auto simp: sched_ok_def)
  have mem: "t \<in> set (Q (RrHead (of_nat p)))" using t pr(1) by simp
  let ?l = "remove1 t (Q (RrHead (of_nat p)))"
  let ?Q = "Q(RrHead (of_nat p) := ?l)"
  have q: "qrep (list_del (QueueNode t) (nodes s)) ?Q H"
    using qrep_del [of "nodes s" Q H, OF _ head mem] tq by (simp add: tq_ok_def)
  have empty: "list_is_empty (RrHead (of_nat p)) (list_del (QueueNode t) (nodes s)) \<longleftrightarrow> ?l = []"
    using qrep_is_empty [OF q head] by simp
  define tbl where "tbl = (bit_tbl (rr s))[p div 8 := bit_tbl (rr s) ! (p div 8) AND NOT (rr_map ! (p mod 8))]"
  define grp where "grp = (if tbl ! (p div 8) = 0 then bit_grp (rr s) AND NOT (rr_map ! (p div 8)) else bit_grp (rr s))"
  define r where "r = (rr s)\<lparr>rr_n_tasks := rr_n_tasks (rr s) - 1, bit_tbl := (if ?l = [] then tbl else bit_tbl (rr s)),
      bit_grp := (if ?l = [] then grp else bit_grp (rr s)), rr_lock := 0\<rparr>"
  let ?s = "s\<lparr>nodes := list_del (QueueNode t) (nodes s), rr := r\<rparr>"
  have run: "rr_dequeue t s = Some ?s"
    using rr_lock_ok [OF rr] pr u8_of_nat [OF pr(2)] empty
    by (simp add: rr_dequeue_def prio_lt prio_y prio_x rr_spin_unlock_def Let_def r_def tbl_def grp_def)
  have map: "bitmap_ok (bit_tbl r) (bit_grp r) (\<lambda>i. ready ?Q i \<noteq> [])"
  proof (cases "?l = []")
    case True
    have "bitmap_ok tbl grp ((\<lambda>i. ready Q i \<noteq> [])(p := False))"
      using bitmap_clear [OF _ pr(2)] rr by (simp add: rr_ok_def tbl_def grp_def)
    then have "bitmap_ok tbl grp (\<lambda>i. ready ?Q i \<noteq> [])"
      by (rule iffD1 [OF bitmap_cong, rotated]) (use True in \<open>simp add: ready_upd pr(2)\<close>)
    then show ?thesis using True by (simp add: r_def)
  next
    case False
    have "bitmap_ok (bit_tbl (rr s)) (bit_grp (rr s)) (\<lambda>i. ready Q i \<noteq> [])" using rr by (simp add: rr_ok_def)
    then have "bitmap_ok (bit_tbl (rr s)) (bit_grp (rr s)) (\<lambda>i. ready ?Q i \<noteq> [])"
      by (rule iffD1 [OF bitmap_cong, rotated]) (use False mem in \<open>auto simp: ready_upd pr(2) ready_def\<close>)
    then show ?thesis using False by (simp add: r_def)
  qed
  have len: "length (ready Q p) = Suc (length ?l)"
    using length_pos_if_in_set [OF mem] mem by (simp add: ready_def length_remove1)
  then have cnt: "(\<Sum>i<64. length (ready Q i)) = Suc (\<Sum>i<64. length (ready ?Q i))"
    using sum_length_upd [OF pr(2), of Q ?l] by simp
  have prios: "\<forall>i<64. \<forall>u\<in>set (ready ?Q i). t_prio (tasks s u) = of_nat i"
  proof (intro allI impI ballI)
    fix i u assume i: "i < 64" and u: "u \<in> set (ready ?Q i)"
    then have "u \<in> set (ready Q i)"
      using set_remove1_subset [of t "Q (RrHead (of_nat p))"] pr(2)
      by (cases "i = p") (auto simp: ready_upd, auto simp: ready_def)
    then show "t_prio (tasks s u) = of_nat i" using rr i by (simp add: rr_ok_def)
  qed
  have "rr_ok ?s ?Q"
    using map prios rr cnt unfolding rr_ok_def by (simp add: r_def)
  moreover have "tq_ok ?s ?Q H" by (rule tq_ok_rr [OF tq]) (use q in simp_all)
  moreover have "NULL \<notin> set ?l" using ok head set_remove1_subset [of t "Q (RrHead (of_nat p))"]
    by (auto simp: sched_ok_def)
  ultimately have "sched_ok ?s ?Q H" using ok by (auto simp: sched_ok_def)
  with run show ?thesis by (auto simp: pr(1) same_but_rr_def)
qed

text \<open>The priority that is served: the least one with a ready task.\<close>

definition top_prio :: "(node_addr \<Rightarrow> u32 list) \<Rightarrow> nat \<Rightarrow> bool" where
  "top_prio Q p \<longleftrightarrow> p < 64 \<and> ready Q p \<noteq> [] \<and> (\<forall>p'<p. ready Q p' = [])"

lemma rr_pick_next_run:
  assumes ok: "sched_ok s Q H" and top: "top_prio Q p"
  shows "\<exists>s'. rr_pick_next s = Some (hd (ready Q p), s') \<and>
    sched_ok s' (Q(RrHead (of_nat p) := tl (ready Q p) @ [hd (ready Q p)])) H \<and> same_but_rr s s' \<and>
    nodes s' = list_add_tail (QueueNode (hd (ready Q p))) (RrHead (of_nat p))
      (list_del (QueueNode (hd (ready Q p))) (nodes s))"
proof -
  have p: "p < 64" "ready Q p \<noteq> []" and low: "\<forall>p'<p. ready Q p' = []" using top by (auto simp: top_prio_def)
  have head: "RrHead (of_nat p) \<in> H" and rr: "rr_ok s Q" and tq: "tq_ok s Q H"
    using ok p(1) by (auto simp: sched_ok_def)
  define y where "y = unat (rr_unmap ! unat (bit_grp (rr s)))"
  define x where "x = unat (rr_unmap ! unat (bit_tbl (rr s) ! y))"
  have bm: "bitmap_ok (bit_tbl (rr s)) (bit_grp (rr s)) (\<lambda>i. ready Q i \<noteq> [])" using rr by (simp add: rr_ok_def)
  note first = bitmap_first [OF bm p, folded y_def, folded x_def]
  have "lowest (\<lambda>i. i < 64 \<and> ready Q i \<noteq> []) p" using p low by (simp add: lowest_def)
  then have yx: "8 * y + x = p" using lowest_unique [OF first(3)] by simp
  have prio: "push_bit 3 (rr_unmap ! unat (bit_grp (rr s))) + rr_unmap ! unat (bit_tbl (rr s) ! y) = (of_nat p :: u8)"
    (is "?lhs = _")
  proof -
    have "unat ?lhs = 8 * y + x"
      using first(1,2) by (simp add: push_bit_eq_mult unat_word_ariths y_def x_def mult.commute)
    then have "unat ?lhs = unat (of_nat p :: u8)" using yx u8_of_nat [OF p(1)] by simp
    then show ?thesis by (simp only: word_unat_eq_iff)
  qed
  obtain t l where tl: "ready Q p = t # l" using p(2) by (cases "ready Q p") auto
  have q0: "qrep (nodes s) Q H" using tq by (simp add: tq_ok_def)
  have fst: "list_first (RrHead (of_nat p)) (nodes s) = QueueNode t"
    using qrep_first [OF q0 head] tl by (simp add: ready_def)
  have mem: "t \<in> set (Q (RrHead (of_nat p)))" using tl by (simp add: ready_def)
  have q1: "qrep (list_del (QueueNode t) (nodes s)) (Q(RrHead (of_nat p) := l)) H"
    using qrep_del [OF q0 head mem] tl by (simp add: ready_def)
  have "t \<notin> set ((Q(RrHead (of_nat p) := l)) q)" if "q \<in> H" for q
    using qrepD(4) [OF q0 head that] qrepD(3) [OF q0 head] mem tl by (cases "q = RrHead (of_nat p)") (auto simp: ready_def)
  from qrep_add [OF q1 head this]
  have q2: "qrep (list_add_tail (QueueNode t) (RrHead (of_nat p)) (list_del (QueueNode t) (nodes s)))
      (Q(RrHead (of_nat p) := l @ [t])) H" by (simp only: fun_upd_same fun_upd_upd)
  let ?Q = "Q(RrHead (of_nat p) := l @ [t])"
  let ?s = "s\<lparr>nodes := list_add_tail (QueueNode t) (RrHead (of_nat p)) (list_del (QueueNode t) (nodes s)),
      rr := (rr s)\<lparr>rr_lock := 0\<rparr>\<rparr>"
  have run: "rr_pick_next s = Some (t, ?s)"
    using rr_lock_ok [OF rr] prio fst by (simp add: rr_pick_next_def Let_def rr_spin_unlock_def y_def)
  have rd: "ready ?Q i = (if i = p then l @ [t] else ready Q i)" if "i < 64" for i
    using that p(1) by (simp add: ready_upd)
  have "rr_ok ?s ?Q"
    unfolding rr_ok_def
  proof (intro conjI)
    show "bitmap_ok (bit_tbl (rr ?s)) (bit_grp (rr ?s)) (\<lambda>i. ready ?Q i \<noteq> [])"
    proof -
      have "bitmap_ok (bit_tbl (rr s)) (bit_grp (rr s)) (\<lambda>i. ready ?Q i \<noteq> [])
          = bitmap_ok (bit_tbl (rr s)) (bit_grp (rr s)) (\<lambda>i. ready Q i \<noteq> [])"
        by (rule bitmap_cong) (use p rd in simp)
      with bm show ?thesis by simp
    qed
    show "rr_n_tasks (rr ?s) = of_nat (\<Sum>i<64. length (ready ?Q i))"
      using rr sum_length_upd [OF p(1), of Q "l @ [t]"] tl by (simp add: rr_ok_def)
    show "\<forall>i<64. \<forall>u\<in>set (ready ?Q i). t_prio (tasks ?s u) = of_nat i"
      using rr rd tl by (auto simp: rr_ok_def split: if_splits)
  qed simp
  moreover have "tq_ok ?s ?Q H" by (rule tq_ok_rr [OF tq]) (use q2 in simp_all)
  moreover have "NULL \<notin> set (t # l)" using ok head tl by (auto simp: sched_ok_def ready_def)
  ultimately have "sched_ok ?s ?Q H" using ok by (auto simp: sched_ok_def)
  with run tl show ?thesis by (auto simp: same_but_rr_def)
qed

lemma rr_pick_next_ok:
  assumes "sched_ok s Q H" and "top_prio Q p"
  shows "\<exists>s'. rr_pick_next s = Some (hd (ready Q p), s') \<and>
    sched_ok s' (Q(RrHead (of_nat p) := tl (ready Q p) @ [hd (ready Q p)])) H \<and> same_but_rr s s'"
  using rr_pick_next_run [OF assms] by blast

lemma rr_pick_next_empty:
  assumes ok: "sched_ok s Q H" and none: "\<forall>p<64. ready Q p = []"
  shows "rr_pick_next s = None"
proof -
  have rr: "rr_ok s Q" and tq: "tq_ok s Q H" using ok by (auto simp: sched_ok_def)
  have "\<forall>p<64. RrHead (of_nat p) \<in> H" using ok by (simp add: sched_ok_def)
  then have "RrHead (of_nat 0) \<in> H" by (rule allE [where x = 0]) simp
  then have head: "RrHead 0 \<in> H" by simp
  have bm: "bitmap_ok (bit_tbl (rr s)) (bit_grp (rr s)) (\<lambda>i. ready Q i \<noteq> [])" using rr by (simp add: rr_ok_def)
  have z: "bit_tbl (rr s) ! y = 0" if "y < 8" for y
  proof (rule bit_word_eqI)
    fix n assume "n < LENGTH(8)"
    then show "bit (bit_tbl (rr s) ! y) n = bit 0 n"
      using bm that none by (auto simp: bitmap_ok_def)
  qed
  then have "bit_grp (rr s) = 0" using bm by (intro bit_word_eqI) (auto simp: bitmap_ok_def)
  moreover have "bit_tbl (rr s) ! 0 = 0" using z by simp
  moreover have "rr_unmap ! 0 = 0" by (simp add: rr_unmap_def)
  moreover have "Q (RrHead 0) = []" using none [rule_format, of 0] by (simp add: ready_def)
  then have "list_first (RrHead 0) (nodes s) = RrHead 0"
    using dlist_empty_iff [OF qrepD(2) [of "nodes s" Q H, OF _ head]] tq
    by (simp add: tq_ok_def list_is_empty_def list_first_def)
  ultimately show ?thesis using rr_lock_ok [OF rr] by (simp add: rr_pick_next_def)
qed

section \<open>The interface of a run queue\<close>

text \<open>Picking \<open>n\<close> times in a row.\<close>

primrec pick_run :: "('s \<Rightarrow> ('t \<times> 's) option) \<Rightarrow> nat \<Rightarrow> 's \<Rightarrow> ('t list \<times> 's) option" where
  "pick_run pick 0 s = Some ([], s)"
| "pick_run pick (Suc n) s = do {
     (t, s) \<leftarrow> pick s;
     (ts, s) \<leftarrow> pick_run pick n s;
     Some (t # ts, s) }"

locale run_queue =
  fixes rep :: "'s \<Rightarrow> (nat \<Rightarrow> 't list) \<Rightarrow> bool" and prio :: "'s \<Rightarrow> 't \<Rightarrow> nat"
    and idle :: "'s \<Rightarrow> 't \<Rightarrow> bool" and enq deq :: "'t \<Rightarrow> 's \<Rightarrow> 's option"
    and pick :: "'s \<Rightarrow> ('t \<times> 's) option" and levels :: nat
  assumes enq_law: "rep s R \<Longrightarrow> idle s t \<Longrightarrow> prio s t < levels \<Longrightarrow>
      \<exists>s'. enq t s = Some s' \<and> rep s' (R(prio s t := R (prio s t) @ [t])) \<and> prio s' = prio s"
    and deq_law: "rep s R \<Longrightarrow> prio s t < levels \<Longrightarrow> t \<in> set (R (prio s t)) \<Longrightarrow>
      \<exists>s'. deq t s = Some s' \<and> rep s' (R(prio s t := remove1 t (R (prio s t)))) \<and> prio s' = prio s"
    and pick_law: "rep s R \<Longrightarrow> p < levels \<Longrightarrow> R p \<noteq> [] \<Longrightarrow> (\<forall>q<p. R q = []) \<Longrightarrow>
      \<exists>s'. pick s = Some (hd (R p), s') \<and> rep s' (R(p := tl (R p) @ [hd (R p)])) \<and> prio s' = prio s"
begin

lemma pick_run_law:
  "rep s R \<Longrightarrow> p < levels \<Longrightarrow> (\<forall>q<p. R q = []) \<Longrightarrow> n \<le> length (R p) \<Longrightarrow>
    \<exists>s'. pick_run pick n s = Some (take n (R p), s') \<and> rep s' (R(p := drop n (R p) @ take n (R p)))"
proof (induction n arbitrary: s R)
  case (Suc n)
  then obtain t l where tl: "R p = t # l" by (cases "R p") auto
  then obtain s1 where s1: "pick s = Some (t, s1)" "rep s1 (R(p := l @ [t]))"
    using pick_law [OF Suc.prems(1,2)] Suc.prems(3) by auto
  have n: "n \<le> length l" using Suc.prems(4) tl by simp
  have "\<exists>s'. pick_run pick n s1 = Some (take n ((R(p := l @ [t])) p), s') \<and>
    rep s' ((R(p := l @ [t]))(p := drop n ((R(p := l @ [t])) p) @ take n ((R(p := l @ [t])) p)))"
    by (rule Suc.IH [OF s1(2) Suc.prems(2)]) (use Suc.prems(3) n in auto)
  then obtain s' where "pick_run pick n s1 = Some (take n l, s')"
    "rep s' (R(p := drop n l @ [t] @ take n l))" using n by (auto simp: fun_upd_upd)
  then show ?case using s1(1) tl by (intro exI [of _ s']) (simp add: fun_upd_def)
qed simp

text \<open>A full round serves every task of the top list once, in order, and restores the lists.\<close>

lemma full_round:
  assumes "rep s R" and "p < levels" and "\<forall>q<p. R q = []"
  shows "\<exists>s'. pick_run pick (length (R p)) s = Some (R p, s') \<and> rep s' R"
  using pick_run_law [OF assms order_refl] by simp

end

definition rr_rep :: "node_addr set \<Rightarrow> kstate \<Rightarrow> (nat \<Rightarrow> u32 list) \<Rightarrow> bool" where
  "rr_rep H s R \<longleftrightarrow> (\<exists>Q. sched_ok s Q H \<and> (\<forall>p. R p = (if p < 64 then ready Q p else [])))"

definition task_prio :: "kstate \<Rightarrow> u32 \<Rightarrow> nat" where
  "task_prio s t = unat (t_prio (tasks s t))"

definition queue_idle :: "node_addr set \<Rightarrow> kstate \<Rightarrow> u32 \<Rightarrow> bool" where
  "queue_idle H s t \<longleftrightarrow> t \<noteq> NULL \<and> (\<forall>Q. sched_ok s Q H \<longrightarrow> no_queue Q H t)"

lemma same_prio: "same_but_rr s s' \<Longrightarrow> task_prio s' = task_prio s"
  by (simp add: same_but_rr_def task_prio_def fun_eq_iff)

lemma rr_rep_upd:
  assumes "sched_ok s' (Q(RrHead (of_nat p) := l)) H" and "\<forall>p. R p = (if p < 64 then ready Q p else [])"
    and "p < 64"
  shows "rr_rep H s' (R(p := l))"
  unfolding rr_rep_def by (rule exI, rule conjI [OF assms(1)]) (use assms(2,3) in \<open>auto simp: ready_upd\<close>)

interpretation rrq: run_queue "rr_rep H" task_prio "queue_idle H" rr_enqueue rr_dequeue rr_pick_next 64 for H
proof
  fix s R and t :: u32
  assume "rr_rep H s R"
  then obtain Q where Q: "sched_ok s Q H" "\<forall>p. R p = (if p < 64 then ready Q p else [])"
    by (auto simp: rr_rep_def)
  have pr: "t_prio (tasks s t) = of_nat (task_prio s t)" by (simp add: task_prio_def)
  show "\<exists>s'. rr_enqueue t s = Some s' \<and> rr_rep H s' (R(task_prio s t := R (task_prio s t) @ [t])) \<and> task_prio s' = task_prio s"
    if t: "queue_idle H s t" "task_prio s t < 64"
  proof -
    obtain s' where s': "rr_enqueue t s = Some s'"
      "sched_ok s' (Q(RrHead (of_nat (task_prio s t)) := Q (RrHead (of_nat (task_prio s t))) @ [t])) H" "same_but_rr s s'"
    proof -
      have "no_queue Q H t" "t \<noteq> NULL" "unat (t_prio (tasks s t)) < 64"
        using t Q(1) by (auto simp: queue_idle_def task_prio_def)
      from rr_enqueue_ok [OF Q(1) this] that show thesis unfolding pr by blast
    qed
    have eq: "Q (RrHead (of_nat (task_prio s t))) = R (task_prio s t)" using Q(2) t(2) by (simp add: ready_def)
    show ?thesis
      using rr_rep_upd [OF s'(2) [unfolded eq] Q(2) t(2)] s'(1) same_prio [OF s'(3)] by blast
  qed
  show "\<exists>s'. rr_dequeue t s = Some s' \<and> rr_rep H s' (R(task_prio s t := remove1 t (R (task_prio s t)))) \<and> task_prio s' = task_prio s"
    if t: "task_prio s t < 64" "t \<in> set (R (task_prio s t))"
  proof -
    have eq: "Q (RrHead (of_nat (task_prio s t))) = R (task_prio s t)" using Q(2) t(1) by (simp add: ready_def)
    obtain s' where s': "rr_dequeue t s = Some s'"
      "sched_ok s' (Q(RrHead (of_nat (task_prio s t)) := remove1 t (Q (RrHead (of_nat (task_prio s t)))))) H" "same_but_rr s s'"
    proof -
      have "unat (t_prio (tasks s t)) < 64" "t \<in> set (Q (RrHead (t_prio (tasks s t))))"
        using t eq by (simp_all add: task_prio_def)
      from rr_dequeue_ok [OF Q(1) this] that show thesis unfolding pr by blast
    qed
    show ?thesis
      using rr_rep_upd [OF s'(2) [unfolded eq] Q(2) t(1)] s'(1) same_prio [OF s'(3)] by blast
  qed
  show "\<exists>s'. rr_pick_next s = Some (hd (R p), s') \<and> rr_rep H s' (R(p := tl (R p) @ [hd (R p)])) \<and> task_prio s' = task_prio s"
    if p: "p < 64" "R p \<noteq> []" "\<forall>q<p. R q = []" for p
  proof -
    have eq: "R p = ready Q p" using Q(2) p(1) by simp
    have top: "top_prio Q p" using p Q(2) by (auto simp: top_prio_def)
    obtain s' where s': "rr_pick_next s = Some (hd (ready Q p), s')"
      "sched_ok s' (Q(RrHead (of_nat p) := tl (ready Q p) @ [hd (ready Q p)])) H" "same_but_rr s s'"
      using rr_pick_next_ok [OF Q(1) top] by blast
    show ?thesis
      using rr_rep_upd [OF s'(2) Q(2) p(1)] s'(1) same_prio [OF s'(3)] unfolding eq by blast
  qed
qed

section \<open>Initialisation\<close>

lemma fold_init_other:
  "x \<notin> (\<lambda>i. RrHead (of_nat i)) ` set is \<Longrightarrow> fold (\<lambda>i. list_node_init (RrHead (of_nat i))) is h x = h x"
  by (induction "is" arbitrary: h) (auto simp: list_node_init_other)

lemma fold_init_dlist:
  "i \<in> set is \<Longrightarrow> dlist (fold (\<lambda>i. list_node_init (RrHead (of_nat i))) is h) (RrHead (of_nat i)) []"
proof (induction "is" rule: rev_induct)
  case (snoc j js)
  show ?case
  proof (cases "RrHead (of_nat i) = RrHead (of_nat j)")
    case True
    then show ?thesis by (simp add: dlist_init)
  next
    case False
    then have "dlist (fold (\<lambda>i. list_node_init (RrHead (of_nat i))) js h) (RrHead (of_nat i)) []"
      using snoc by auto
    with False show ?thesis by (simp add: dlist_init_other)
  qed
qed simp

text \<open>The scheduler after \<open>rr_init\<close>, with the task queues that are already set up.\<close>

definition rr_heads :: "node_addr set" where
  "rr_heads = {q. \<exists>p<64. q = RrHead (of_nat p)}"

lemma rr_init_ok: "sched_ok (rr_init s) (\<lambda>_. []) rr_heads"
proof -
  have "qrep (nodes (rr_init s)) (\<lambda>_. []) rr_heads"
    unfolding qrep_def rr_init_def rr_heads_def
    using fold_init_dlist [of _ "[0..<64]" "nodes s"] by (auto simp: NR_PRIO_def)
  then have "tq_ok (rr_init s) (\<lambda>_. []) rr_heads"
    by (auto simp: tq_ok_def rr_heads_def)
  moreover have "rr_ok (rr_init s) (\<lambda>_. [])"
    using nth_replicate [of _ 8 "0 :: u8"]
    by (auto simp: rr_ok_def rr_init_def bitmap_ok_def ready_def SPINLOCK_FREE_def simp del: nth_replicate)
  moreover have "\<forall>p<64. RrHead (of_nat p) \<in> rr_heads" by (auto simp: rr_heads_def)
  ultimately show ?thesis by (simp add: sched_ok_def)
qed


section \<open>Properties\<close>



lemma rr_heads_prio: "p < 64 \<Longrightarrow> RrHead (of_nat p) \<in> rr_heads"
  by (auto simp: rr_heads_def)

lemma one_ready:
  obtains s where "rr_enqueue 0x5000 (rr_init kboot) = Some s" and "tasks s = tasks kboot"
    and "sched_ok s ((\<lambda>_. [])(RrHead 0 := [0x5000])) rr_heads"
proof -
  have "\<exists>s'. rr_enqueue 0x5000 (rr_init kboot) = Some s' \<and>
    sched_ok s' ((\<lambda>_. [])(RrHead (t_prio (tasks (rr_init kboot) 0x5000)) := [] @ [0x5000])) rr_heads \<and>
    same_but_rr (rr_init kboot) s'"
    by (rule rr_enqueue_ok [OF rr_init_ok]) (simp_all add: no_queue_def NULL_def rr_init_def kboot_def)
  with that show thesis by (auto simp: same_but_rr_def rr_init_def kboot_def)
qed

text \<open>\<open>rr_pick_next\<close> returns the first task of the most urgent non-empty list, the one with the
  least priority number, and moves it to the end of this list.\<close>

theorem rr_pick_next_picks_top:
  assumes "sched_ok s Q H" and "p < 64" and "ready Q p \<noteq> []" and "\<forall>p'<p. ready Q p' = []"
  shows "\<exists>s'. rr_pick_next s = Some (hd (ready Q p), s') \<and> same_but_rr s s' \<and>
    sched_ok s' (Q(RrHead (of_nat p) := tl (ready Q p) @ [hd (ready Q p)])) H"
  using rr_pick_next_ok [OF assms(1), of p] assms(2-4) by (auto simp: top_prio_def)

theorem rr_pick_next_picks_top_witness:
  "\<exists>s s'. rr_pick_next s = Some (0x5000, s') \<and> same_but_rr s s'"
proof -
  obtain s where s: "sched_ok s ((\<lambda>_. [])(RrHead 0 := [0x5000])) rr_heads" by (rule one_ready)
  have "ready ((\<lambda>_. [])(RrHead 0 := [0x5000])) 0 = [0x5000]" by (simp add: ready_def)
  with rr_pick_next_picks_top [OF s, of 0] show ?thesis by auto
qed

text \<open>C9. Round robin is fair: as many picks in a row as the most urgent list has tasks return each
  of its tasks once, in the order of the list, and leave all lists as they were.\<close>

theorem rr_round_is_fair:
  assumes "sched_ok s Q H" and "p < 64" and "\<forall>p'<p. ready Q p' = []"
  shows "\<exists>s' Q'. pick_run rr_pick_next (length (ready Q p)) s = Some (ready Q p, s') \<and>
    sched_ok s' Q' H \<and> (\<forall>p<64. ready Q' p = ready Q p)"
proof -
  define R where "R = (\<lambda>p. if p < 64 then ready Q p else [])"
  have "rr_rep H s R" using assms(1) by (auto simp: rr_rep_def R_def)
  moreover have "\<forall>q<p. R q = []" using assms(3) by (simp add: R_def)
  ultimately obtain s' where "pick_run rr_pick_next (length (R p)) s = Some (R p, s')" "rr_rep H s' R"
    using rrq.full_round [of H s R p] assms(2) by blast
  moreover obtain Q' where "sched_ok s' Q' H" "\<forall>p. R p = (if p < 64 then ready Q' p else [])"
    using calculation(2) by (auto simp: rr_rep_def)
  moreover have "\<forall>p<64. ready Q' p = ready Q p"
  proof (intro allI impI)
    fix i :: nat assume "i < 64"
    then show "ready Q' i = ready Q i" using calculation(4) [rule_format, of i] by (simp add: R_def)
  qed
  ultimately show ?thesis using assms(2) by (auto simp: R_def)
qed

theorem rr_round_is_fair_witness:
  "\<exists>s s'. pick_run rr_pick_next 1 s = Some ([0x5000], s')"
proof -
  obtain s where s: "sched_ok s ((\<lambda>_. [])(RrHead 0 := [0x5000])) rr_heads" by (rule one_ready)
  have "ready ((\<lambda>_. [])(RrHead 0 := [0x5000])) 0 = [0x5000]" by (simp add: ready_def)
  with rr_round_is_fair [OF s, of 0] show ?thesis by auto
qed

end
