(* ===== verification/Sched.thy ===== *)
theory Sched
  imports SchedRR
begin

text \<open>
  The task management of \<open>kernel/sched.c\<close>: creation and end of threads, the tick of the clock,
  sleeping, waking and waiting. \<open>current\<close> is the field \<open>cur_task\<close>; \<open>switch_to\<close>, which saves the
  registers of one task and loads those of the other, is the update of this field. What a function
  does after its call of \<open>schedule\<close> happens when its task runs again, so \<open>schedule\<close> is the last
  step of each function here; \<open>kernel_thread\<close> is split there into the part up to the switch and
  \<open>kernel_thread_result\<close>, the value it returns once it is resumed.

  \<^term>\<open>None\<close> says that a function does not return: a lock is held, or the access is to address 0 or
  outside an array.
\<close>

section \<open>The code\<close>

definition IDEL_PRIO :: u8 where "IDEL_PRIO = NR_PRIO - 1"
definition INIT_PRIO :: u8 where "INIT_PRIO = NR_PRIO - 2"
definition DAEMON_PRIO :: u8 where "DAEMON_PRIO = NR_PRIO - 4"
definition STACK_SIZE :: u32 where "STACK_SIZE = 0x1000"

definition task_spin_lock :: "u32 \<Rightarrow> kstate \<Rightarrow> kstate option" where
  "task_spin_lock t s = do {
     l \<leftarrow> spin_lock (t_lock (tasks s t));
     Some (upd_task t (\<lambda>x. x\<lparr>t_lock := l\<rparr>) s) }"

definition task_spin_unlock :: "u32 \<Rightarrow> kstate \<Rightarrow> kstate" where
  "task_spin_unlock t s = upd_task t (\<lambda>x. x\<lparr>t_lock := spin_unlock (t_lock x)\<rparr>) s"

definition upd_nodes :: "(node_addr list_heap \<Rightarrow> node_addr list_heap) \<Rightarrow> kstate \<Rightarrow> kstate" where
  "upd_nodes g s = s\<lparr>nodes := g (nodes s)\<rparr>"

text \<open>\<^term>\<open>name = None\<close> is the null pointer: the name of the current task is taken over.\<close>

definition task_init :: "u32 \<Rightarrow> u8 \<Rightarrow> string option \<Rightarrow> kstate \<Rightarrow> kstate option" where
  "task_init task prio name s = do {
     let (pid, pm) = alloc_pid (pid_map_state s);
     let s = upd_task task (\<lambda>x. x\<lparr>t_pid := pid\<rparr>) (s\<lparr>pid_map_state := pm\<rparr>);
     let s = s\<lparr>task_tbl := (task_tbl s)(t_pid (tasks s task) := task)\<rparr>;
     let s = upd_task task (\<lambda>x. x\<lparr>t_prio := prio\<rparr>) s;
     let s = upd_task task (\<lambda>x. x\<lparr>t_name := (case name of None \<Rightarrow> t_name (tasks s (cur_task s)) | Some n \<Rightarrow> n)\<rparr>) s;
     s \<leftarrow> task_spin_lock (cur_task s) s;
     let s = upd_task task (\<lambda>x. x\<lparr>t_parent := cur_task s\<rparr>) s;
     let s = upd_nodes (list_node_init (Children task)) s;
     let s = upd_nodes (list_add_tail (Sibling task) (Children (cur_task s))) s;
     let s = task_spin_unlock (cur_task s) s;
     let s = upd_task task (\<lambda>x. x\<lparr>t_time_ticks := ucast prio + 1\<rparr>) s;
     let s = upd_task task (\<lambda>x. x\<lparr>t_rest_ticks := t_time_ticks x\<rparr>) s;
     let s = upd_task task (\<lambda>x. x\<lparr>t_total_ticks := 0\<rparr>) s;
     let s = upd_task task (\<lambda>x. x\<lparr>t_sleep_ticks := 0\<rparr>) s;
     let s = upd_task task (\<lambda>x. x\<lparr>t_wait_for := NULL\<rparr>) s;
     Some (upd_task task (\<lambda>x. x\<lparr>t_lock := SPINLOCK_FREE\<rparr>) s) }"

text \<open>
  The loop of \<open>task_exit\<close> moves the children to the parent while it walks over them: the copy
  \<open>temp\<close> keeps the \<open>next\<close> pointer the child had in the old list. \<open>p\<close> is the address of
  \<open>child->sibling\<close>.
\<close>

partial_function (option) task_exit_loop :: "u32 \<Rightarrow> u32 \<Rightarrow> node_addr \<Rightarrow> kstate \<Rightarrow> kstate option" where
  "task_exit_loop task parent p s =
    (if p = Children task then Some s
     else (case p of
       Sibling child \<Rightarrow>
         let s = upd_nodes (list_del (Sibling child)) s;
             temp = nodes s (Sibling child);
             s = upd_nodes (list_add_tail (Sibling child) (Children parent)) s;
             s = upd_task child (\<lambda>x. x\<lparr>t_parent := parent\<rparr>) s
         in task_exit_loop task parent (node_next temp) s
     | _ \<Rightarrow> None))"

definition task_exit :: "u32 \<Rightarrow> kstate \<Rightarrow> kstate option" where
  "task_exit task s = do {
     let parent = t_parent (tasks s task);
     if parent = NULL then None
     else do {
       s \<leftarrow> task_spin_lock parent s;
       let s = upd_nodes (list_del (Sibling task)) s;
       s \<leftarrow> task_spin_lock task s;
       s \<leftarrow> task_exit_loop task parent (list_first (Children task) (nodes s)) s;
       s \<leftarrow> (if t_stat (tasks s parent) = TASK_WAITING \<and> t_wait_for (tasks s parent) = NULL
                 \<and> list_is_empty (Children parent) (nodes s)
             then rr_enqueue parent (upd_task parent (\<lambda>x. x\<lparr>t_stat := TASK_READY\<rparr>) s)
             else Some s);
       let s = task_spin_unlock task s;
       Some (task_spin_unlock parent s) } }"

definition task_kill :: "u32 \<Rightarrow> kstate \<Rightarrow> kstate option" where
  "task_kill task s = do {
     let s = s\<lparr>task_tbl := (task_tbl s)(t_pid (tasks s task) := NULL)\<rparr>;
     let s = s\<lparr>pid_map_state := free_pid (t_pid (tasks s task)) (pid_map_state s)\<rparr>;
     (freed, mm) \<leftarrow> free_page task (kmm s);
     Some (s\<lparr>kmm := mm\<rparr>) }"

definition schedule :: "kstate \<Rightarrow> kstate option" where
  "schedule s = do {
     (next_task, s) \<leftarrow> rr_pick_next s;
     Some (if cur_task s \<noteq> next_task then s\<lparr>cur_task := next_task\<rparr> else s) }"

definition task_reset_prio :: "u32 \<Rightarrow> u8 \<Rightarrow> kstate \<Rightarrow> kstate option" where
  "task_reset_prio task prio s = do {
     s \<leftarrow> task_spin_lock task s;
     s \<leftarrow> (if t_stat (tasks s task) = TASK_READY then rr_dequeue task s else Some s);
     let s = upd_task task (\<lambda>x. x\<lparr>t_prio := prio\<rparr>) s;
     let s = upd_task task (\<lambda>x. x\<lparr>t_time_ticks := ucast prio + 1\<rparr>) s;
     s \<leftarrow> (if t_stat (tasks s task) = TASK_READY then rr_enqueue task s else Some s);
     let s = task_spin_unlock task s;
     if task = cur_task s then schedule s else Some s }"

text \<open>\<open>task_idle\<close> is the address of the kernel stack, chosen by the linker.\<close>

definition sched_init :: "u32 \<Rightarrow> kstate \<Rightarrow> kstate option" where
  "sched_init task_idle s = do {
     let s = rr_init s;
     let s = tq_init SleepQue s;
     let s = tq_init ZombieQue s;
     s \<leftarrow> task_init task_idle IDEL_PRIO (Some ''idle'') s;
     let s = upd_task task_idle (\<lambda>x. x\<lparr>t_parent := NULL\<rparr>) s;
     let s = upd_nodes (list_node_init (Children task_idle)) s;
     let s = upd_nodes (list_node_init (Sibling task_idle)) s;
     s \<leftarrow> rr_enqueue task_idle s;
     Some (upd_task task_idle (\<lambda>x. x\<lparr>t_stat := TASK_READY\<rparr>) s) }"

text \<open>
  The walk of \<open>sched_tick\<close> over the sleeping tasks; \<open>p\<close> is the address of \<open>task->queue_node\<close>. The
  copy \<open>temp\<close> is taken after \<open>tq_dequeue\<close> and keeps the \<open>next\<close> pointer of the sleep queue when
  \<open>enqueue\<close> overwrites it.
\<close>

partial_function (option) sched_tick_loop :: "node_addr \<Rightarrow> bool \<Rightarrow> kstate \<Rightarrow> (bool \<times> kstate) option" where
  "sched_tick_loop p need_schedule s =
    (if p = TqHead SleepQue then Some (need_schedule, s)
     else (case p of
       QueueNode task \<Rightarrow>
         let s = upd_task task (\<lambda>x. x\<lparr>t_sleep_ticks := t_sleep_ticks x - 1\<rparr>) s
         in if t_sleep_ticks (tasks s task) = 0
            then do {
              s \<leftarrow> tq_dequeue SleepQue task s;
              let s = upd_task task (\<lambda>x. x\<lparr>t_stat := TASK_READY\<rparr>) s;
              let temp = nodes s (QueueNode task);
              s \<leftarrow> rr_enqueue task s;
              sched_tick_loop (node_next temp) True s }
            else sched_tick_loop (node_next (nodes s (QueueNode task))) need_schedule s
     | _ \<Rightarrow> None))"

definition sched_tick :: "kstate \<Rightarrow> kstate option" where
  "sched_tick s = do {
     let s = upd_task (cur_task s) (\<lambda>x. x\<lparr>t_rest_ticks := t_rest_ticks x - 1\<rparr>) s;
     let s = upd_task (cur_task s) (\<lambda>x. x\<lparr>t_total_ticks := t_total_ticks x + 1\<rparr>) s;
     let (need_schedule, s) = (if t_rest_ticks (tasks s (cur_task s)) = 0
       then (True, upd_task (cur_task s) (\<lambda>x. x\<lparr>t_rest_ticks := t_time_ticks x\<rparr>) s)
       else (False, s));
     (need_schedule, s) \<leftarrow> sched_tick_loop (list_first (TqHead SleepQue) (nodes s)) need_schedule s;
     if need_schedule then schedule s else Some s }"

definition sleep :: "u32 \<Rightarrow> kstate \<Rightarrow> kstate option" where
  "sleep ticks s = do {
     s \<leftarrow> rr_dequeue (cur_task s) s;
     let s = upd_task (cur_task s) (\<lambda>x. x\<lparr>t_sleep_ticks := ticks\<rparr>) s;
     let s = upd_task (cur_task s) (\<lambda>x. x\<lparr>t_stat := TASK_SLEEP\<rparr>) s;
     s \<leftarrow> tq_enqueue SleepQue (cur_task s) s;
     schedule s }"

definition wakeup :: "u32 \<Rightarrow> kstate \<Rightarrow> kstate option" where
  "wakeup task s = do {
     s \<leftarrow> tq_dequeue SleepQue task s;
     let s = upd_task task (\<lambda>x. x\<lparr>t_sleep_ticks := 0\<rparr>) s;
     let s = upd_task task (\<lambda>x. x\<lparr>t_stat := TASK_READY\<rparr>) s;
     s \<leftarrow> rr_enqueue task s;
     schedule s }"

definition wait :: "kstate \<Rightarrow> kstate option" where
  "wait s = do {
     s \<leftarrow> rr_dequeue (cur_task s) s;
     let s = upd_task (cur_task s) (\<lambda>x. x\<lparr>t_stat := TASK_WAITING\<rparr>) s;
     schedule s }"

definition kthread_exit :: "u32 \<Rightarrow> kstate \<Rightarrow> kstate option" where
  "kthread_exit stat s =
    (if stat = 0
     then do {
       s \<leftarrow> rr_dequeue (cur_task s) s;
       s \<leftarrow> task_exit (cur_task s) s;
       let s = upd_task (cur_task s) (\<lambda>x. x\<lparr>t_stat := TASK_ZOMBIE\<rparr>) s;
       s \<leftarrow> tq_enqueue ZombieQue (cur_task s) s;
       schedule s }
     else Some s)"

text \<open>\<open>fn\<close> is the function the thread runs: it returns its status and the state it leaves.\<close>

definition kexec :: "(u32 \<Rightarrow> kstate \<Rightarrow> (u32 \<times> kstate) option) \<Rightarrow> u32 \<Rightarrow> kstate \<Rightarrow> kstate option" where
  "kexec fn args s = do {
     (ret, s) \<leftarrow> fn args s;
     kthread_exit ret s }"

definition push :: "u32 \<Rightarrow> u32 \<times> (u32 \<Rightarrow> u32) \<Rightarrow> u32 \<times> (u32 \<Rightarrow> u32)" where
  "push v = (\<lambda>(esp, m). (esp - 4, m(esp - 4 := v)))"

text \<open>The initial stack: two arguments, the frame pointer, the address \<open>switch_to\<close> returns to, the flags
  and eight registers.\<close>

definition init_stack :: "u32 \<Rightarrow> u32 \<Rightarrow> u32 \<Rightarrow> u32 \<Rightarrow> (u32 \<Rightarrow> u32) \<Rightarrow> u32 \<times> (u32 \<Rightarrow> u32)" where
  "init_stack new_task kexec_addr fn args m =
    (let ebp = new_task + STACK_SIZE;
         st = (ebp, m);
         st = push args st;
         st = push fn st;
         st = push ebp st;
         st = push kexec_addr st;
         st = push 0x200 st
     in ((push 0) ^^ 8) st)"

definition kernel_thread :: "u32 \<Rightarrow> u32 \<Rightarrow> u32 \<Rightarrow> u8 \<Rightarrow> string option \<Rightarrow> kstate \<Rightarrow> (u32 \<times> kstate) option" where
  "kernel_thread kexec_addr fn args prio name s = do {
     (new_task, mm) \<leftarrow> alloc_page (kmm s);
     let s = s\<lparr>kmm := mm\<rparr>;
     let (esp, m) = init_stack new_task kexec_addr fn args (kmem s);
     let s = s\<lparr>kmem := m\<rparr>;
     let s = upd_task new_task (\<lambda>x. x\<lparr>t_esp := esp\<rparr>) s;
     s \<leftarrow> task_init new_task prio name s;
     let s = upd_task new_task (\<lambda>x. x\<lparr>t_stat := TASK_READY\<rparr>) s;
     s \<leftarrow> rr_enqueue new_task s;
     s \<leftarrow> schedule s;
     Some (new_task, s) }"

definition kernel_thread_result :: "u32 \<Rightarrow> kstate \<Rightarrow> u32" where
  "kernel_thread_result new_task s = ucast (t_pid (tasks s new_task))"

text \<open>One round of the endless loop of \<open>kkill_zombie\<close>.\<close>

definition kkill_zombie_round :: "kstate \<Rightarrow> kstate option" where
  "kkill_zombie_round s = do {
     (task, s) \<leftarrow> tq_pick_next ZombieQue s;
     if task = cur_task s \<or> task = NULL then schedule s
     else do {
       s \<leftarrow> tq_dequeue ZombieQue task s;
       task_kill task s } }"

end
