(* ===== verification/Semaphore.thy ===== *)
theory Semaphore
  imports Sched
begin

text \<open>
  The semaphores of \<open>include/semaphore.h\<close> and \<open>kernel/semaphore.c\<close>. A semaphore is named by its
  address; its count is the word \<open>sem_count\<close> at this address, read as a signed number by the branches
  of \<open>sem_wait\<close> and \<open>sem_post\<close>, its queue is \<open>SemQueue\<close> of the address. A negative count is the
  number of waiting tasks.
\<close>

section \<open>The code\<close>

definition sem_init :: "u32 \<Rightarrow> u32 \<Rightarrow> kstate \<Rightarrow> kstate" where
  "sem_init sem cnt s = tq_init (SemQueue sem) (s\<lparr>sem_count := (sem_count s)(sem := cnt)\<rparr>)"

definition sem_sleep :: "u32 \<Rightarrow> kstate \<Rightarrow> kstate option" where
  "sem_sleep sem s = do {
     s \<leftarrow> rr_dequeue (cur_task s) s;
     let s = upd_task (cur_task s) (\<lambda>x. x\<lparr>t_stat := TASK_WAITING\<rparr>) s;
     let s = upd_task (cur_task s) (\<lambda>x. x\<lparr>t_wait_for := sem\<rparr>) s;
     s \<leftarrow> tq_enqueue (SemQueue sem) (cur_task s) s;
     schedule s }"

definition sem_wake :: "u32 \<Rightarrow> kstate \<Rightarrow> kstate option" where
  "sem_wake sem s = do {
     (task, s) \<leftarrow> tq_pick_next (SemQueue sem) s;
     if task = NULL then None
     else do {
       s \<leftarrow> tq_dequeue (SemQueue sem) task s;
       let s = upd_task task (\<lambda>x. x\<lparr>t_stat := TASK_READY\<rparr>) s;
       let s = upd_task task (\<lambda>x. x\<lparr>t_wait_for := NULL\<rparr>) s;
       rr_enqueue task s } }"

text \<open>
  \<open>decl\<close> and \<open>incl\<close> are atomic. \<open>jns\<close> skips the call when the sign bit of the new count is clear;
  \<open>jg\<close> skips it when the exact, not the wrapped, new count is positive.
\<close>

definition sem_decl :: "u32 \<Rightarrow> kstate \<Rightarrow> kstate" where
  "sem_decl sem s = s\<lparr>sem_count := (sem_count s)(sem := sem_count s sem - 1)\<rparr>"

definition sem_incl :: "u32 \<Rightarrow> kstate \<Rightarrow> kstate" where
  "sem_incl sem s = s\<lparr>sem_count := (sem_count s)(sem := sem_count s sem + 1)\<rparr>"

definition sem_wait :: "u32 \<Rightarrow> kstate \<Rightarrow> kstate option" where
  "sem_wait sem s = do {
     let s = sem_decl sem s;
     if bit (sem_count s sem) 31 then sem_sleep sem s else Some s }"

definition sem_post :: "u32 \<Rightarrow> kstate \<Rightarrow> kstate option" where
  "sem_post sem s = do {
     let exact = sint (sem_count s sem) + 1;
     let s = sem_incl sem s;
     if exact > 0 then Some s else sem_wake sem s }"

end
