(* ===== verification/KernelQueues.thy ===== *)
theory KernelQueues
  imports Semaphore
begin

text \<open>
  Where every task is. The state of a task says which list it belongs to (\<open>home\<close>); \<open>placed\<close> says
  that each list holds exactly the tasks that belong there, so that no task is on two lists and none
  is lost. The tasks of \<open>X\<close> are on their way from one list to another.

  For each queue operation there is one lemma: the operation returns, moves the task into or out of
  \<open>X\<close>, and leaves everything else of the state as it was.
\<close>

section \<open>The heads of the queues\<close>

definition heads :: "u32 set \<Rightarrow> node_addr set" where
  "heads S = rr_heads \<union> {TqHead SleepQue, TqHead ZombieQue} \<union> (\<lambda>a. TqHead (SemQueue a)) ` S"

lemma rr_heads_iff: "RrHead p \<in> rr_heads \<longleftrightarrow> p < NR_PRIO"
proof
  show "RrHead p \<in> rr_heads \<Longrightarrow> p < NR_PRIO"
    by (auto simp: rr_heads_def prio_lt u8_of_nat)
  show "p < NR_PRIO \<Longrightarrow> RrHead p \<in> rr_heads"
    unfolding rr_heads_def prio_lt by (intro CollectI exI [of _ "unat p"]) simp
qed

lemma heads_iff [simp]:
  "RrHead p \<in> heads S \<longleftrightarrow> p < NR_PRIO"
  "TqHead SleepQue \<in> heads S" "TqHead ZombieQue \<in> heads S"
  "TqHead (SemQueue a) \<in> heads S \<longleftrightarrow> a \<in> S"
  "QueueNode t \<notin> heads S" "Children t \<notin> heads S" "Sibling t \<notin> heads S"
  using rr_heads_iff by (auto simp: heads_def rr_heads_def)

section \<open>What the queue operations leave alone\<close>

definition kin_same :: "node_addr list_heap \<Rightarrow> node_addr list_heap \<Rightarrow> bool" where
  "kin_same h h' \<longleftrightarrow> (\<forall>t. h' (Children t) = h (Children t) \<and> h' (Sibling t) = h (Sibling t))"

definition only_queues :: "kstate \<Rightarrow> kstate \<Rightarrow> bool" where
  "only_queues s s' \<longleftrightarrow> tasks s' = tasks s \<and> sem_count s' = sem_count s \<and>
    task_tbl s' = task_tbl s \<and> pid_map_state s' = pid_map_state s \<and> kmem s' = kmem s \<and> kmm s' = kmm s \<and>
    kin_same (nodes s) (nodes s')"

lemma kin_same_refl [simp]: "kin_same h h" by (simp add: kin_same_def)

lemma kin_same_trans: "kin_same h h' \<Longrightarrow> kin_same h' h'' \<Longrightarrow> kin_same h h''"
  by (simp add: kin_same_def)

lemma only_queues_trans: "only_queues s s' \<Longrightarrow> only_queues s' s'' \<Longrightarrow> only_queues s s''"
  by (auto simp: only_queues_def intro: kin_same_trans)

lemma only_queuesD:
  assumes "only_queues s s'"
  shows "tasks s' = tasks s" "sem_count s' = sem_count s" "task_tbl s' = task_tbl s"
    "pid_map_state s' = pid_map_state s" "kmem s' = kmem s" "kmm s' = kmm s" "kin_same (nodes s) (nodes s')"
  using assms by (simp_all add: only_queues_def)


lemma kin_same_add:
  assumes "qrep h Q H" and "q \<in> H" and "q = RrHead p \<or> q = TqHead i"
  shows "kin_same h (list_add_tail (QueueNode t) q h)"
  unfolding kin_same_def
  by (intro allI conjI; rule list_add_tail_frame [OF qrepD(2) [OF assms(1,2)]]) (use assms(3) in auto)

lemma kin_same_del:
  assumes "qrep h Q H" and "q \<in> H" and "q = RrHead p \<or> q = TqHead i" and "t \<in> set (Q q)"
  shows "kin_same h (list_del (QueueNode t) h)"
  unfolding kin_same_def
  by (intro allI conjI; rule list_del_frame [OF qrepD(2) [OF assms(1,2)]]) (use assms(3,4) in auto)

lemma tq_enqueue_frame:
  assumes "tq_enqueue q t s = Some s'" and "qrep (nodes s) Q H" and "TqHead q \<in> H"
  shows "only_queues s s'" and "cur_task s' = cur_task s" and "rr s' = rr s"
  using assms kin_same_add [OF assms(2,3), of undefined q t]
  by (auto simp: tq_enqueue_def tq_spin_lock_def tq_spin_unlock_def upd_queue_def only_queues_def Let_def
      split: bind_splits)

lemma tq_dequeue_frame:
  assumes "tq_dequeue q t s = Some s'" and "qrep (nodes s) Q H" and "TqHead q \<in> H" and "t \<in> set (Q (TqHead q))"
  shows "only_queues s s'" and "cur_task s' = cur_task s" and "rr s' = rr s"
  using assms kin_same_del [OF assms(2,3), of undefined q t]
  by (auto simp: tq_dequeue_def tq_spin_lock_def tq_spin_unlock_def upd_queue_def only_queues_def Let_def
      split: bind_splits)

lemma rr_enqueue_frame:
  assumes "rr_enqueue t s = Some s'" and "qrep (nodes s) Q H" and "RrHead (t_prio (tasks s t)) \<in> H"
  shows "only_queues s s'" and "cur_task s' = cur_task s"
  using assms kin_same_add [OF assms(2,3), of _ undefined t]
  by (auto simp: rr_enqueue_def rr_spin_lock_def rr_spin_unlock_def only_queues_def Let_def
      split: bind_splits if_splits)

lemma rr_dequeue_frame:
  assumes "rr_dequeue t s = Some s'" and "qrep (nodes s) Q H" and "RrHead (t_prio (tasks s t)) \<in> H"
    and "t \<in> set (Q (RrHead (t_prio (tasks s t))))"
  shows "only_queues s s'" and "cur_task s' = cur_task s"
  using assms kin_same_del [OF assms(2,3), of _ undefined t]
  by (auto simp: rr_dequeue_def rr_spin_lock_def rr_spin_unlock_def only_queues_def Let_def
      split: bind_splits if_splits)

section \<open>Where the tasks are\<close>

fun home :: "task_t \<Rightarrow> node_addr option" where
  "home x = (case t_stat x of
     TASK_READY \<Rightarrow> Some (RrHead (t_prio x))
   | TASK_SLEEP \<Rightarrow> Some (TqHead SleepQue)
   | TASK_ZOMBIE \<Rightarrow> Some (TqHead ZombieQue)
   | TASK_WAITING \<Rightarrow> (if t_wait_for x = NULL then None else Some (TqHead (SemQueue (t_wait_for x)))))"

declare home.simps [simp del]

lemma home_stat [simp]:
  "t_stat x = TASK_READY \<Longrightarrow> home x = Some (RrHead (t_prio x))"
  "t_stat x = TASK_SLEEP \<Longrightarrow> home x = Some (TqHead SleepQue)"
  "t_stat x = TASK_ZOMBIE \<Longrightarrow> home x = Some (TqHead ZombieQue)"
  "t_stat x = TASK_WAITING \<Longrightarrow>
    home x = (if t_wait_for x = NULL then None else Some (TqHead (SemQueue (t_wait_for x))))"
  by (simp_all add: home.simps)

lemma home_iff:
  "home x = Some (RrHead p) \<longleftrightarrow> t_stat x = TASK_READY \<and> t_prio x = p"
  "home x = Some (TqHead SleepQue) \<longleftrightarrow> t_stat x = TASK_SLEEP"
  "home x = Some (TqHead ZombieQue) \<longleftrightarrow> t_stat x = TASK_ZOMBIE"
  "home x = Some (TqHead (SemQueue a)) \<longleftrightarrow> t_stat x = TASK_WAITING \<and> t_wait_for x = a \<and> a \<noteq> NULL"
  by (auto simp: home.simps split: task_stat_t.splits)

definition placed :: "u32 set \<Rightarrow> u32 set \<Rightarrow> u32 set \<Rightarrow> kstate \<Rightarrow> (node_addr \<Rightarrow> u32 list) \<Rightarrow> bool" where
  "placed S T X s Q \<longleftrightarrow> sched_ok s Q (heads S) \<and> NULL \<notin> T \<and> NULL \<notin> S \<and> X \<subseteq> T \<and>
    (\<forall>q\<in>heads S. set (Q q) = {t \<in> T - X. home (tasks s t) = Some q}) \<and>
    (\<forall>t\<in>T - X. \<forall>q. home (tasks s t) = Some q \<longrightarrow> q \<in> heads S) \<and>
    (\<forall>t\<in>T - X. t_stat (tasks s t) \<noteq> TASK_WAITING \<longrightarrow> t_wait_for (tasks s t) = NULL)"

lemma placedD:
  assumes "placed S T X s Q"
  shows "sched_ok s Q (heads S)" and "tq_ok s Q (heads S)" and "qrep (nodes s) Q (heads S)"
    and "NULL \<notin> T" and "X \<subseteq> T" and "NULL \<notin> S"
    and "q \<in> heads S \<Longrightarrow> set (Q q) = {t \<in> T - X. home (tasks s t) = Some q}"
    and "t \<in> T \<Longrightarrow> t \<notin> X \<Longrightarrow> home (tasks s t) = Some q \<Longrightarrow> q \<in> heads S"
    and "t \<in> T \<Longrightarrow> t \<notin> X \<Longrightarrow> t_stat (tasks s t) \<noteq> TASK_WAITING \<Longrightarrow> t_wait_for (tasks s t) = NULL"
    and "q \<in> heads S \<Longrightarrow> NULL \<notin> set (Q q)"
  using assms unfolding placed_def sched_ok_def tq_ok_def by blast+

lemma placed_mem:
  "placed S T X s Q \<Longrightarrow> t \<in> T \<Longrightarrow> t \<notin> X \<Longrightarrow> home (tasks s t) = Some q \<Longrightarrow> q \<in> heads S \<and> t \<in> set (Q q)"
  using placedD(7) [of S T X s Q q] placedD(8) [of S T X s Q t q] by simp

lemma placed_transit: "placed S T X s Q \<Longrightarrow> t \<in> X \<or> t \<notin> T \<Longrightarrow> no_queue Q (heads S) t"
  by (auto simp: no_queue_def placedD(7))

lemma placed_iff: "placed S T X s Q \<Longrightarrow> q \<in> heads S \<Longrightarrow>
    t \<in> set (Q q) \<longleftrightarrow> t \<in> T \<and> t \<notin> X \<and> home (tasks s t) = Some q"
  by (simp add: placedD(7))

lemma placedI:
  assumes "placed S T X s Q" and "sched_ok s' Q' (heads S)" and "X' \<subseteq> T"
    and "\<And>q t. q \<in> heads S \<Longrightarrow> t \<in> set (Q' q) \<longleftrightarrow> t \<in> T \<and> t \<notin> X' \<and> home (tasks s' t) = Some q"
    and "\<And>t q. t \<in> T \<Longrightarrow> t \<notin> X' \<Longrightarrow> home (tasks s' t) = Some q \<Longrightarrow> q \<in> heads S"
    and "\<And>t. t \<in> T \<Longrightarrow> t \<notin> X' \<Longrightarrow> t_stat (tasks s' t) \<noteq> TASK_WAITING \<Longrightarrow> t_wait_for (tasks s' t) = NULL"
  shows "placed S T X' s' Q'"
proof -
  have "set (Q' q) = {t \<in> T - X'. home (tasks s' t) = Some q}" if "q \<in> heads S" for q
    using assms(4) [OF that] by blast
  then show ?thesis using assms(2,3,5,6) placedD(4,6) [OF assms(1)] unfolding placed_def by blast
qed

lemma placed_prio: "placed S T X s Q \<Longrightarrow> t \<in> T \<Longrightarrow> t \<notin> X \<Longrightarrow> t_stat (tasks s t) = TASK_READY \<Longrightarrow>
    t_prio (tasks s t) < NR_PRIO"
  using placedD(8) [of S T X s Q t "RrHead (t_prio (tasks s t))"] by simp


section \<open>Updates of the fields of a task\<close>

lemma upd_task_simps [simp]:
  "nodes (upd_task t g s) = nodes s" "queues (upd_task t g s) = queues s" "rr (upd_task t g s) = rr s"
  "sem_count (upd_task t g s) = sem_count s" "cur_task (upd_task t g s) = cur_task s"
  "task_tbl (upd_task t g s) = task_tbl s" "pid_map_state (upd_task t g s) = pid_map_state s"
  "kmem (upd_task t g s) = kmem s" "kmm (upd_task t g s) = kmm s"
  "tasks (upd_task t g s) u = (if u = t then g (tasks s t) else tasks s u)"
  by (simp_all add: upd_task_def)

lemma sched_ok_cong:
  assumes ok: "sched_ok s Q H" and same: "nodes s' = nodes s" "queues s' = queues s" "rr s' = rr s"
    and prio: "\<And>p t. p < 64 \<Longrightarrow> t \<in> set (ready Q p) \<Longrightarrow> t_prio (tasks s' t) = t_prio (tasks s t)"
  shows "sched_ok s' Q H"
proof -
  have "tq_ok s' Q H" using ok same by (simp add: sched_ok_def tq_ok_def)
  moreover have "rr_ok s' Q" using ok same prio by (simp add: sched_ok_def rr_ok_def)
  ultimately show ?thesis using ok by (simp add: sched_ok_def)
qed

lemma sched_ok_tq:
  assumes "sched_ok s Q H" and "tq_ok s' (Q(TqHead i := l)) H" and "tasks s' = tasks s" and "rr s' = rr s"
    and "TqHead i \<in> H \<Longrightarrow> NULL \<notin> set l"
  shows "sched_ok s' (Q(TqHead i := l)) H"
  using assms by (auto simp: sched_ok_def rr_ok_def ready_other)

lemma ready_head: "p < 64 \<Longrightarrow> RrHead (of_nat p) \<in> heads S"
  by (simp add: prio_lt u8_of_nat)

text \<open>Fields of a task in transit may change; of any other, those that \<open>placed\<close> does not read.\<close>

lemma placed_upd:
  assumes pl: "placed S T X s Q" and t: "t \<in> X \<or> t \<notin> T"
  shows "placed S T X (upd_task t g s) Q"
proof -
  have "t \<notin> set (ready Q p)" if "p < 64" for p
    using placed_transit [OF pl t] ready_head [OF that] by (simp add: no_queue_def ready_def)
  then have "sched_ok (upd_task t g s) Q (heads S)"
    by (intro sched_ok_cong [OF placedD(1) [OF pl]]) auto
  moreover have same: "tasks (upd_task t g s) u = tasks s u" if "u \<in> T" "u \<notin> X" for u using t that by auto
  ultimately show ?thesis
  proof (intro placedI [OF pl _ placedD(5) [OF pl]])
    show "u \<in> set (Q q) \<longleftrightarrow> u \<in> T \<and> u \<notin> X \<and> home (tasks (upd_task t g s) u) = Some q" if "q \<in> heads S" for q u
      using placed_iff [OF pl that, of u] same [of u] by auto
    show "q \<in> heads S" if "u \<in> T" "u \<notin> X" "home (tasks (upd_task t g s) u) = Some q" for u q
      using placedD(8) [OF pl, of u q] that same [of u] by auto
    show "t_wait_for (tasks (upd_task t g s) u) = NULL"
      if "u \<in> T" "u \<notin> X" "t_stat (tasks (upd_task t g s) u) \<noteq> TASK_WAITING" for u
      using placedD(9) [OF pl, of u] that same [of u] by auto
  qed
qed

lemma placed_cong:
  assumes pl: "placed S T X s Q" and same: "nodes s' = nodes s" "queues s' = queues s" "rr s' = rr s"
    and fields: "\<And>t. t \<in> T - X \<Longrightarrow> home (tasks s' t) = home (tasks s t) \<and>
      t_wait_for (tasks s' t) = t_wait_for (tasks s t) \<and> t_stat (tasks s' t) = t_stat (tasks s t)"
  shows "placed S T X s' Q"
proof -
  have "t_prio (tasks s' t) = t_prio (tasks s t)" if "p < 64" "t \<in> set (ready Q p)" for p t
  proof -
    have "t \<in> T - X" "home (tasks s t) = Some (RrHead (of_nat p))"
      using placedD(7) [OF pl ready_head [OF that(1)]] that(2) by (auto simp: ready_def)
    then show ?thesis using fields [of t] by (simp add: home_iff)
  qed
  then have ok: "sched_ok s' Q (heads S)" using sched_ok_cong [OF placedD(1) [OF pl] same] by blast
  show ?thesis
  proof (rule placedI [OF pl ok placedD(5) [OF pl]])
    show "t \<in> set (Q q) \<longleftrightarrow> t \<in> T \<and> t \<notin> X \<and> home (tasks s' t) = Some q" if "q \<in> heads S" for q t
      using placed_iff [OF pl that, of t] fields [of t] by auto
    show "q \<in> heads S" if "t \<in> T" "t \<notin> X" "home (tasks s' t) = Some q" for t q
      using placedD(8) [OF pl, of t q] that fields [of t] by auto
    show "t_wait_for (tasks s' t) = NULL" if "t \<in> T" "t \<notin> X" "t_stat (tasks s' t) \<noteq> TASK_WAITING" for t
      using placedD(9) [OF pl, of t] that fields [of t] by auto
  qed
qed

lemma placed_upd_same:
  assumes "placed S T X s Q" and "\<And>x. t_stat (g x) = t_stat x \<and> t_prio (g x) = t_prio x \<and> t_wait_for (g x) = t_wait_for x"
  shows "placed S T X (upd_task t g s) Q"
  by (rule placed_cong [OF assms(1)]) (use assms(2) in \<open>auto simp: home.simps split: task_stat_t.split\<close>)

section \<open>Moving a task\<close>

lemma placed_leave:
  assumes pl: "placed S T X s Q" and t: "t \<in> T" "t \<notin> X" "home (tasks s t) = Some q"
    and s': "sched_ok s' (Q(q := remove1 t (Q q))) (heads S)" "tasks s' = tasks s"
  shows "placed S T (insert t X) s' (Q(q := remove1 t (Q q)))"
proof (rule placedI [OF pl s'(1)])
  have q: "q \<in> heads S" using placed_mem [OF pl t] by simp
  have d: "distinct (Q q)" by (rule qrepD(3) [OF placedD(3) [OF pl] q])
  show "u \<in> set ((Q(q := remove1 t (Q q))) q') \<longleftrightarrow> u \<in> T \<and> u \<notin> insert t X \<and> home (tasks s' u) = Some q'"
    if "q' \<in> heads S" for q' u
    using placed_iff [OF pl that, of u] d t(3) s'(2) by (cases "q' = q"; cases "u = t") simp_all
  show "insert t X \<subseteq> T" using placedD(5) [OF pl] t(1) by simp
qed (use s'(2) placedD(8,9) [OF pl] in auto)

lemma placed_join:
  assumes pl: "placed S T X s Q" and t: "t \<in> X" "home (tasks s t) = Some q" "q \<in> heads S"
    and w: "t_stat (tasks s t) \<noteq> TASK_WAITING \<Longrightarrow> t_wait_for (tasks s t) = NULL"
    and s': "sched_ok s' (Q(q := Q q @ [t])) (heads S)" "tasks s' = tasks s"
  shows "placed S T (X - {t}) s' (Q(q := Q q @ [t]))"
proof (rule placedI [OF pl s'(1)])
  have tT: "t \<in> T" using placedD(5) [OF pl] t(1) by auto
  show "u \<in> set ((Q(q := Q q @ [t])) q') \<longleftrightarrow> u \<in> T \<and> u \<notin> X - {t} \<and> home (tasks s' u) = Some q'"
    if "q' \<in> heads S" for q' u
    using placed_iff [OF pl that, of u] t(1,2) tT s'(2) by (cases "q' = q"; cases "u = t") simp_all
  show "X - {t} \<subseteq> T" using placedD(5) [OF pl] by auto
  show "q' \<in> heads S" if "u \<in> T" "u \<notin> X - {t}" "home (tasks s' u) = Some q'" for u q'
    using placedD(8) [OF pl, of u q'] that t s'(2) by (cases "u = t") auto
  show "t_wait_for (tasks s' u) = NULL" if "u \<in> T" "u \<notin> X - {t}" "t_stat (tasks s' u) \<noteq> TASK_WAITING" for u
    using placedD(9) [OF pl, of u] that w s'(2) by (cases "u = t") auto
qed

lemma placed_park:
  assumes pl: "placed S T X s Q" and t: "t \<in> X" "t_stat (tasks s t) = TASK_WAITING" "t_wait_for (tasks s t) = NULL"
  shows "placed S T (X - {t}) s Q"
proof (rule placedI [OF pl placedD(1) [OF pl]])
  have h: "home (tasks s t) = None" using t by simp
  show "u \<in> set (Q q) \<longleftrightarrow> u \<in> T \<and> u \<notin> X - {t} \<and> home (tasks s u) = Some q"
    if "q \<in> heads S" for q u
    using placed_iff [OF pl that, of u] h by (cases "u = t") auto
  show "X - {t} \<subseteq> T" using placedD(5) [OF pl] by auto
  show "q' \<in> heads S" if "u \<in> T" "u \<notin> X - {t}" "home (tasks s u) = Some q'" for u q'
    using placedD(8) [OF pl, of u q'] that h by (cases "u = t") auto
  show "t_wait_for (tasks s u) = NULL" if "u \<in> T" "u \<notin> X - {t}" "t_stat (tasks s u) \<noteq> TASK_WAITING" for u
    using placedD(9) [OF pl, of u] that t by (cases "u = t") auto
qed

lemma placed_rr_dequeue:
  assumes pl: "placed S T X s Q" and t: "t \<in> T" "t \<notin> X" "t_stat (tasks s t) = TASK_READY"
  shows "\<exists>s'. rr_dequeue t s = Some s' \<and> only_queues s s' \<and> cur_task s' = cur_task s \<and>
    placed S T (insert t X) s' (Q(RrHead (t_prio (tasks s t)) := remove1 t (Q (RrHead (t_prio (tasks s t))))))"
proof -
  have h: "home (tasks s t) = Some (RrHead (t_prio (tasks s t)))" using t(3) by simp
  note q = placed_mem [OF pl t(1,2) h]
  have p: "unat (t_prio (tasks s t)) < 64" using q by (simp add: prio_lt)
  from rr_dequeue_ok [OF placedD(1) [OF pl] p] q obtain s' where s': "rr_dequeue t s = Some s'"
    "sched_ok s' (Q(RrHead (t_prio (tasks s t)) := remove1 t (Q (RrHead (t_prio (tasks s t)))))) (heads S)"
    "same_but_rr s s'" by blast
  have "tasks s' = tasks s" using s'(3) by (simp add: same_but_rr_def)
  from placed_leave [OF pl t(1,2) h s'(2) this] s'(1) rr_dequeue_frame [OF s'(1) placedD(3) [OF pl]] q
  show ?thesis by blast
qed

lemma placed_tq_dequeue:
  assumes pl: "placed S T X s Q" and t: "t \<in> T" "t \<notin> X" "home (tasks s t) = Some (TqHead i)"
  shows "\<exists>s'. tq_dequeue i t s = Some s' \<and> only_queues s s' \<and> cur_task s' = cur_task s \<and> rr s' = rr s \<and>
    placed S T (insert t X) s' (Q(TqHead i := remove1 t (Q (TqHead i))))"
proof -
  note q = placed_mem [OF pl t]
  from tq_dequeue_ok [OF placedD(2) [OF pl], of i t] q obtain s' where s': "tq_dequeue i t s = Some s'"
    "tq_ok s' (Q(TqHead i := remove1 t (Q (TqHead i)))) (heads S)" "tasks s' = tasks s" "rr s' = rr s" by blast
  have "sched_ok s' (Q(TqHead i := remove1 t (Q (TqHead i)))) (heads S)"
    by (rule sched_ok_tq [OF placedD(1) [OF pl] s'(2-4)]) (use set_remove1_subset placedD(10) [OF pl] q in fastforce)
  from placed_leave [OF pl t this s'(3)] s'(1,4) tq_dequeue_frame [OF s'(1) placedD(3) [OF pl]] q
  show ?thesis by blast
qed

lemma placed_rr_enqueue:
  assumes pl: "placed S T X s Q" and t: "t \<in> X" "t_stat (tasks s t) = TASK_READY"
    "t_wait_for (tasks s t) = NULL" "t_prio (tasks s t) < NR_PRIO"
  shows "\<exists>s'. rr_enqueue t s = Some s' \<and> only_queues s s' \<and> cur_task s' = cur_task s \<and>
    placed S T (X - {t}) s' (Q(RrHead (t_prio (tasks s t)) := Q (RrHead (t_prio (tasks s t))) @ [t]))"
proof -
  have h: "home (tasks s t) = Some (RrHead (t_prio (tasks s t)))" using t(2) by simp
  have q: "RrHead (t_prio (tasks s t)) \<in> heads S" using t(4) by simp
  have n: "no_queue Q (heads S) t" "t \<noteq> NULL"
    using placed_transit [OF pl] t(1) placedD(4,5) [OF pl] by auto
  have p: "unat (t_prio (tasks s t)) < 64" using t(4) by (simp add: prio_lt)
  from rr_enqueue_ok [OF placedD(1) [OF pl] n p] obtain s' where s': "rr_enqueue t s = Some s'"
    "sched_ok s' (Q(RrHead (t_prio (tasks s t)) := Q (RrHead (t_prio (tasks s t))) @ [t])) (heads S)"
    "same_but_rr s s'" by blast
  have "tasks s' = tasks s" using s'(3) by (simp add: same_but_rr_def)
  from placed_join [OF pl t(1) h q t(3) s'(2) this] s'(1) rr_enqueue_frame [OF s'(1) placedD(3) [OF pl] q]
  show ?thesis by blast
qed

lemma placed_tq_enqueue:
  assumes pl: "placed S T X s Q" and t: "t \<in> X" "home (tasks s t) = Some (TqHead i)" "TqHead i \<in> heads S"
    and w: "t_stat (tasks s t) \<noteq> TASK_WAITING \<Longrightarrow> t_wait_for (tasks s t) = NULL"
  shows "\<exists>s'. tq_enqueue i t s = Some s' \<and> only_queues s s' \<and> cur_task s' = cur_task s \<and> rr s' = rr s \<and>
    placed S T (X - {t}) s' (Q(TqHead i := Q (TqHead i) @ [t]))"
proof -
  have n: "no_queue Q (heads S) t" "t \<noteq> NULL"
    using placed_transit [OF pl] t(1) placedD(4,5) [OF pl] by auto
  from tq_enqueue_ok [OF placedD(2) [OF pl] t(3) n placedD(10) [OF pl]] obtain s' where s': "tq_enqueue i t s = Some s'"
    "tq_ok s' (Q(TqHead i := Q (TqHead i) @ [t])) (heads S)" "tasks s' = tasks s" "rr s' = rr s" by blast
  have "sched_ok s' (Q(TqHead i := Q (TqHead i) @ [t])) (heads S)"
    by (rule sched_ok_tq [OF placedD(1) [OF pl] s'(2-4)]) (use placedD(10) [OF pl t(3)] n(2) in simp)
  from placed_join [OF pl t w this s'(3)] s'(1,4) tq_enqueue_frame [OF s'(1) placedD(3) [OF pl] t(3)]
  show ?thesis by blast
qed

text \<open>\<open>schedule\<close> hands the CPU to the first task of the most urgent list; some ready task is needed.\<close>

lemma top_prio_exists:
  assumes "p < 64" and "ready Q p \<noteq> []"
  obtains m where "top_prio Q m"
proof -
  define m where "m = (LEAST p. p < 64 \<and> ready Q p \<noteq> [])"
  have m: "m < 64 \<and> ready Q m \<noteq> []" unfolding m_def by (rule LeastI [of _ p]) (use assms in simp)
  have "ready Q p' = []" if "p' < m" for p'
    using not_less_Least [OF that [unfolded m_def]] that m by auto
  with m have "top_prio Q m" by (simp add: top_prio_def)
  with that show thesis by blast
qed

lemma rr_pick_next_frame:
  assumes run: "rr_pick_next s = Some (t, s')" and ok: "sched_ok s Q H" and top: "top_prio Q p"
  shows "only_queues s s'"
proof -
  have q: "qrep (nodes s) Q H" using ok by (simp add: sched_ok_def tq_ok_def)
  have p: "p < 64" "ready Q p \<noteq> []" using top by (auto simp: top_prio_def)
  have head: "RrHead (of_nat p) \<in> H" using ok p(1) by (auto simp: sched_ok_def)
  have t: "same_but_rr s s'" and h: "nodes s' = list_add_tail (QueueNode (hd (ready Q p))) (RrHead (of_nat p))
      (list_del (QueueNode (hd (ready Q p))) (nodes s))"
    using rr_pick_next_run [OF ok top] run by auto
  have mem: "hd (ready Q p) \<in> set (Q (RrHead (of_nat p)))" using p(2) by (simp add: ready_def)
  have "kin_same (nodes s) (nodes s')" unfolding h
    by (rule kin_same_trans [OF kin_same_del [OF q head _ mem] kin_same_add [OF qrep_del [OF q head mem] head]]) auto
  with t show ?thesis by (simp add: only_queues_def same_but_rr_def)
qed

lemma placed_rotate:
  assumes pl: "placed S T X s Q" and ok: "sched_ok s' (Q(q := l)) (heads S)" and l: "set l = set (Q q)"
    and same: "tasks s' = tasks s"
  shows "placed S T X s' (Q(q := l))"
proof (rule placedI [OF pl ok placedD(5) [OF pl]])
  show "t \<in> set ((Q(q := l)) q') \<longleftrightarrow> t \<in> T \<and> t \<notin> X \<and> home (tasks s' t) = Some q'" if "q' \<in> heads S" for q' t
    using placed_iff [OF pl that, of t] l same by auto
qed (use placedD(8,9) [OF pl] same in auto)

lemma set_rotated: "l \<noteq> [] \<Longrightarrow> set (tl l @ [hd l]) = set l"
  by (cases l) auto

lemma placed_schedule:
  assumes pl: "placed S T X s Q" and t: "t \<in> T" "t \<notin> X" "t_stat (tasks s t) = TASK_READY"
  shows "\<exists>s' p. schedule s = Some s' \<and> top_prio Q p \<and> p \<le> unat (t_prio (tasks s t)) \<and> cur_task s' = hd (ready Q p) \<and>
    cur_task s' \<in> T \<and> cur_task s' \<notin> X \<and> t_stat (tasks s' (cur_task s')) = TASK_READY \<and> only_queues s s' \<and>
    placed S T X s' (Q(RrHead (of_nat p) := tl (ready Q p) @ [hd (ready Q p)]))"
proof -
  have "home (tasks s t) = Some (RrHead (t_prio (tasks s t)))" using t(3) by simp
  note q = placed_mem [OF pl t(1,2) this]
  then have r: "unat (t_prio (tasks s t)) < 64" "ready Q (unat (t_prio (tasks s t))) \<noteq> []"
    by (auto simp: prio_lt ready_def)
  then obtain p where top: "top_prio Q p" by (rule top_prio_exists)
  then have p: "p < 64" "ready Q p \<noteq> []" "p \<le> unat (t_prio (tasks s t))"
    using r by (auto simp: top_prio_def not_less [symmetric])
  from rr_pick_next_ok [OF placedD(1) [OF pl] top] obtain s1 where s1: "rr_pick_next s = Some (hd (ready Q p), s1)"
    "sched_ok s1 (Q(RrHead (of_nat p) := tl (ready Q p) @ [hd (ready Q p)])) (heads S)" "same_but_rr s s1" by blast
  define s' where "s' = s1\<lparr>cur_task := hd (ready Q p)\<rparr>"
  have run: "schedule s = Some s'" using s1(1) by (auto simp: schedule_def s'_def)
  have "sched_ok s' (Q(RrHead (of_nat p) := tl (ready Q p) @ [hd (ready Q p)])) (heads S)"
    by (rule sched_ok_cong [OF s1(2)]) (simp_all add: s'_def)
  moreover have same: "tasks s' = tasks s" using s1(3) by (simp add: s'_def same_but_rr_def)
  ultimately have pl': "placed S T X s' (Q(RrHead (of_nat p) := tl (ready Q p) @ [hd (ready Q p)]))"
    using placed_rotate [OF pl] set_rotated [OF p(2)] by (simp add: ready_def)
  have "hd (ready Q p) \<in> set (Q (RrHead (of_nat p)))" using p(2) by (simp add: ready_def)
  then have "hd (ready Q p) \<in> T \<and> hd (ready Q p) \<notin> X \<and> t_stat (tasks s (hd (ready Q p))) = TASK_READY"
    using placed_iff [OF pl ready_head [OF p(1)]] by (simp add: home_iff)
  moreover have "only_queues s s'"
    using rr_pick_next_frame [OF s1(1) placedD(1) [OF pl] top] by (simp add: s'_def only_queues_def)
  ultimately show ?thesis using run top p(3) pl' same by (intro exI [of _ s'] exI [of _ p]) (simp add: s'_def)
qed

end
