(* ===== verification/KernelCalls.thy ===== *)
theory KernelCalls
  imports KernelQueues
begin

text \<open>
  The calls that move tasks between the lists, \<open>sleep\<close>, \<open>wakeup\<close>, \<open>wait\<close>, \<open>task_reset_prio\<close>, the
  semaphores and \<open>sched_tick\<close>: each of them returns in a state that is again \<open>calm\<close>, every task on
  the list where its state says it is and a ready task running, and says how the lists change.
  \<open>kin_frame\<close> collects what these calls leave alone: the family tree, the ids, the locks and the
  memory.
\<close>

section \<open>Frames\<close>

definition calm :: "u32 \<Rightarrow> u32 set \<Rightarrow> u32 set \<Rightarrow> kstate \<Rightarrow> (node_addr \<Rightarrow> u32 list) \<Rightarrow> bool" where
  "calm idle S T s Q \<longleftrightarrow> placed S T {} s Q \<and>
    idle \<in> T \<and> t_stat (tasks s idle) = TASK_READY \<and> t_prio (tasks s idle) = IDEL_PRIO \<and>
    cur_task s \<in> T \<and> t_stat (tasks s (cur_task s)) = TASK_READY"

definition kin_task :: "task_t \<Rightarrow> task_t \<Rightarrow> bool" where
  "kin_task x y \<longleftrightarrow> t_parent y = t_parent x \<and> t_pid y = t_pid x \<and> t_lock y = t_lock x \<and>
    (t_stat y = TASK_ZOMBIE \<longleftrightarrow> t_stat x = TASK_ZOMBIE) \<and> (t_prio x < NR_PRIO \<longrightarrow> t_prio y < NR_PRIO)"

definition kin_frame :: "kstate \<Rightarrow> kstate \<Rightarrow> bool" where
  "kin_frame s s' \<longleftrightarrow> kin_same (nodes s) (nodes s') \<and> task_tbl s' = task_tbl s \<and>
    pid_map_state s' = pid_map_state s \<and> kmm s' = kmm s \<and> (\<forall>t. kin_task (tasks s t) (tasks s' t))"

lemma kin_task_refl [simp]: "kin_task x x" by (simp add: kin_task_def)

lemma kin_frame_refl [simp]: "kin_frame s s" by (simp add: kin_frame_def)

lemma kin_frame_trans [trans]: "kin_frame s s' \<Longrightarrow> kin_frame s' s'' \<Longrightarrow> kin_frame s s''"
  by (auto simp: kin_frame_def kin_task_def intro: kin_same_trans)

lemma only_queues_kin: "only_queues s s' \<Longrightarrow> kin_frame s s'"
  by (simp add: only_queues_def kin_frame_def)

lemma upd_task_kin: "kin_task (tasks s t) (g (tasks s t)) \<Longrightarrow> kin_frame s (upd_task t g s)"
  by (simp add: kin_frame_def)

lemma upd_task_upd_task [simp]: "upd_task t g (upd_task t f s) = upd_task t (\<lambda>x. g (f x)) s"
  by (simp add: upd_task_def)

section \<open>Sleeping and waking\<close>

text \<open>A ready task other than the idle task leaves its list; the idle task stays.\<close>

lemma calmD:
  assumes "calm idle S T s Q"
  shows "placed S T {} s Q" and "idle \<in> T" and "t_stat (tasks s idle) = TASK_READY"
    and "t_prio (tasks s idle) = IDEL_PRIO" and "cur_task s \<in> T" and "t_stat (tasks s (cur_task s)) = TASK_READY"
    and "t_wait_for (tasks s (cur_task s)) = NULL" and "t_prio (tasks s (cur_task s)) < NR_PRIO"
    and "unat (t_prio (tasks s (cur_task s))) < 64"
    and "cur_task s \<in> set (Q (RrHead (t_prio (tasks s (cur_task s)))))"
proof -
  show pl: "placed S T {} s Q" and "idle \<in> T" and "t_stat (tasks s idle) = TASK_READY"
    and "t_prio (tasks s idle) = IDEL_PRIO" and c: "cur_task s \<in> T" "t_stat (tasks s (cur_task s)) = TASK_READY"
    using assms by (simp_all add: calm_def)
  show "t_wait_for (tasks s (cur_task s)) = NULL" using placedD(9) [OF pl c(1)] c(2) by simp
  have h: "home (tasks s (cur_task s)) = Some (RrHead (t_prio (tasks s (cur_task s))))" using c(2) by simp
  show "cur_task s \<in> set (Q (RrHead (t_prio (tasks s (cur_task s)))))" using placed_mem [OF pl c(1) _ h] by simp
  show "t_prio (tasks s (cur_task s)) < NR_PRIO" using placed_prio [OF pl c(1) _ c(2)] by simp
  then show "unat (t_prio (tasks s (cur_task s))) < 64" by (simp add: prio_lt)
qed

text \<open>The lists after a call: \<open>schedule\<close> runs \<open>t\<close>, the first task of the most urgent list, and rotates this list.\<close>

definition served :: "(node_addr \<Rightarrow> u32 list) \<Rightarrow> (node_addr \<Rightarrow> u32 list) \<Rightarrow> u32 \<Rightarrow> bool" where
  "served Q Q' t \<longleftrightarrow> (\<exists>p. top_prio Q p \<and> t = hd (ready Q p) \<and> Q' = Q(RrHead (of_nat p) := tl (ready Q p) @ [hd (ready Q p)]))"

lemma served_tq: "served Q Q' t \<Longrightarrow> Q' (TqHead i) = Q (TqHead i)"
  by (auto simp: served_def)

lemma schedule_calm:
  assumes pl: "placed S T {} s Q"
    and idle: "idle \<in> T" "t_stat (tasks s idle) = TASK_READY" "t_prio (tasks s idle) = IDEL_PRIO"
  shows "\<exists>s' Q'. schedule s = Some s' \<and> calm idle S T s' Q' \<and> served Q Q' (cur_task s') \<and> only_queues s s'"
proof -
  from placed_schedule [OF pl idle(1) _ idle(2)] obtain s' p where s': "schedule s = Some s'" "top_prio Q p"
    "cur_task s' = hd (ready Q p)" "cur_task s' \<in> T" "t_stat (tasks s' (cur_task s')) = TASK_READY"
    "only_queues s s'" "placed S T {} s' (Q(RrHead (of_nat p) := tl (ready Q p) @ [hd (ready Q p)]))" by blast
  moreover have "tasks s' = tasks s" using s'(6) by (simp add: only_queues_def)
  ultimately show ?thesis using idle
    by (intro exI [of _ s'] exI [of _ "Q(RrHead (of_nat p) := tl (ready Q p) @ [hd (ready Q p)])"])
      (auto simp: calm_def served_def)
qed

text \<open>
  The common course of \<open>sleep\<close>, \<open>wait\<close>, \<open>sem_sleep\<close>: the running task leaves the ready lists, its
  fields change, it may join a queue, and another task runs. \<open>stopped\<close> says what the call leads to.
\<close>

definition stopped :: "(task_t \<Rightarrow> task_t) \<Rightarrow> kstate \<Rightarrow> kstate \<Rightarrow> bool" where
  "stopped g s s' \<longleftrightarrow> tasks s' = (tasks s)(cur_task s := g (tasks s (cur_task s))) \<and> kin_frame s s' \<and>
    sem_count s' = sem_count s"

definition leave_rr :: "kstate \<Rightarrow> (node_addr \<Rightarrow> u32 list) \<Rightarrow> node_addr \<Rightarrow> u32 list" where
  "leave_rr s Q = Q(RrHead (t_prio (tasks s (cur_task s))) :=
    remove1 (cur_task s) (Q (RrHead (t_prio (tasks s (cur_task s))))))"

lemma stop_then_schedule:
  assumes c: "calm idle S T s Q" and ni: "cur_task s \<noteq> idle"
    and s1: "only_queues s s1"
    and s2: "only_queues (upd_task (cur_task s) g s1) s2" "placed S T {} s2 Q2"
    and g: "kin_task (tasks s (cur_task s)) (g (tasks s (cur_task s)))"
  shows "\<exists>s' Q'. schedule s2 = Some s' \<and> calm idle S T s' Q' \<and> served Q2 Q' (cur_task s') \<and> stopped g s s'"
proof -
  have t2: "tasks s2 = (tasks s)(cur_task s := g (tasks s (cur_task s)))"
    using s1 s2(1) by (simp add: only_queues_def upd_task_def)
  from schedule_calm [OF s2(2) calmD(2) [OF c]] obtain s' Q' where s': "schedule s2 = Some s'" "calm idle S T s' Q'"
    "served Q2 Q' (cur_task s')" "only_queues s2 s'" using calmD(3,4) [OF c] t2 ni by auto
  have "kin_frame s s1" "kin_frame s1 (upd_task (cur_task s) g s1)" "kin_frame (upd_task (cur_task s) g s1) s2" "kin_frame s2 s'"
    using only_queues_kin [OF s1] only_queues_kin [OF s2(1)] only_queues_kin [OF s'(4)]
      upd_task_kin [of s1 "cur_task s" g] g only_queuesD(1) [OF s1] by simp_all
  then have "kin_frame s s'" by (blast intro: kin_frame_trans)
  moreover have "tasks s' = tasks s2" "sem_count s' = sem_count s"
    using s1 s2(1) s'(4) by (simp_all add: only_queues_def)
  ultimately show ?thesis using s'(1-3) t2 by (intro exI [of _ s'] exI [of _ Q']) (simp add: stopped_def)
qed

lemma leave_current:
  assumes c: "calm idle S T s Q"
  shows "\<exists>s1. rr_dequeue (cur_task s) s = Some s1 \<and> only_queues s s1 \<and> cur_task s1 = cur_task s \<and>
    placed S T {cur_task s} s1 (leave_rr s Q)"
  using placed_rr_dequeue [OF calmD(1) [OF c] calmD(5) [OF c] _ calmD(6) [OF c]] by (simp add: leave_rr_def)

definition sleeping :: "u32 \<Rightarrow> task_t \<Rightarrow> task_t" where
  "sleeping n x = x\<lparr>t_sleep_ticks := n, t_stat := TASK_SLEEP\<rparr>"

lemma sleep_calm:
  assumes c: "calm idle S T s Q" and ni: "cur_task s \<noteq> idle"
  defines "Q2 \<equiv> (leave_rr s Q)(TqHead SleepQue := Q (TqHead SleepQue) @ [cur_task s])"
  shows "\<exists>s' Q'. sleep n s = Some s' \<and> calm idle S T s' Q' \<and> served Q2 Q' (cur_task s') \<and> stopped (sleeping n) s s'"
proof -
  obtain s1 where s1: "rr_dequeue (cur_task s) s = Some s1" "only_queues s s1" "cur_task s1 = cur_task s"
    "placed S T {cur_task s} s1 (leave_rr s Q)" using leave_current [OF c] by blast
  let ?s = "upd_task (cur_task s) (sleeping n) s1"
  have "placed S T {cur_task s} ?s (leave_rr s Q)" using placed_upd [OF s1(4)] by simp
  from placed_tq_enqueue [OF this, of "cur_task s" SleepQue] obtain s2 where
    s2: "tq_enqueue SleepQue (cur_task s) ?s = Some s2" "only_queues ?s s2"
    "placed S T {} s2 ((leave_rr s Q)(TqHead SleepQue := leave_rr s Q (TqHead SleepQue) @ [cur_task s]))"
    using calmD(7) [OF c] only_queuesD(1) [OF s1(2)] by (auto simp: sleeping_def)
  have "leave_rr s Q (TqHead SleepQue) = Q (TqHead SleepQue)" by (simp add: leave_rr_def)
  with s2(3) have p2: "placed S T {} s2 Q2" by (simp add: Q2_def)
  have g: "kin_task (tasks s (cur_task s)) (sleeping n (tasks s (cur_task s)))"
    using calmD(6) [OF c] by (simp add: kin_task_def sleeping_def)
  from stop_then_schedule [OF c ni s1(2) s2(2) p2 g] obtain s' Q' where "schedule s2 = Some s'"
    "calm idle S T s' Q'" "served Q2 Q' (cur_task s')" "stopped (sleeping n) s s'" by blast
  moreover have "sleep n s = schedule s2"
    using s1(1,3) s2(1) by (simp add: sleep_def sleeping_def [abs_def])
  ultimately show ?thesis by auto
qed

definition parked :: "task_t \<Rightarrow> task_t" where
  "parked x = x\<lparr>t_stat := TASK_WAITING\<rparr>"

lemma wait_calm:
  assumes c: "calm idle S T s Q" and ni: "cur_task s \<noteq> idle"
  shows "\<exists>s' Q'. wait s = Some s' \<and> calm idle S T s' Q' \<and> served (leave_rr s Q) Q' (cur_task s') \<and> stopped parked s s'"
proof -
  obtain s1 where s1: "rr_dequeue (cur_task s) s = Some s1" "only_queues s s1" "cur_task s1 = cur_task s"
    "placed S T {cur_task s} s1 (leave_rr s Q)" using leave_current [OF c] by blast
  let ?s = "upd_task (cur_task s) parked s1"
  have "placed S T {cur_task s} ?s (leave_rr s Q)" using placed_upd [OF s1(4)] by simp
  from placed_park [OF this, of "cur_task s"] have p2: "placed S T {} ?s (leave_rr s Q)"
    using calmD(7) [OF c] only_queuesD(1) [OF s1(2)] by (simp add: parked_def)
  have g: "kin_task (tasks s (cur_task s)) (parked (tasks s (cur_task s)))"
    using calmD(6) [OF c] by (simp add: kin_task_def parked_def)
  have "only_queues ?s ?s" by (simp add: only_queues_def)
  from stop_then_schedule [OF c ni s1(2) this p2 g] obtain s' Q' where "schedule ?s = Some s'"
    "calm idle S T s' Q'" "served (leave_rr s Q) Q' (cur_task s')" "stopped parked s s'" by blast
  moreover have "wait s = schedule ?s" using s1(1,3) by (simp add: wait_def parked_def [abs_def])
  ultimately show ?thesis by auto
qed

definition waiting_on :: "u32 \<Rightarrow> task_t \<Rightarrow> task_t" where
  "waiting_on a x = x\<lparr>t_stat := TASK_WAITING, t_wait_for := a\<rparr>"

lemma sem_sleep_calm:
  assumes c: "calm idle S T s Q" and ni: "cur_task s \<noteq> idle" and a: "a \<in> S"
  defines "Q2 \<equiv> (leave_rr s Q)(TqHead (SemQueue a) := Q (TqHead (SemQueue a)) @ [cur_task s])"
  shows "\<exists>s' Q'. sem_sleep a s = Some s' \<and> calm idle S T s' Q' \<and> served Q2 Q' (cur_task s') \<and> stopped (waiting_on a) s s'"
proof -
  obtain s1 where s1: "rr_dequeue (cur_task s) s = Some s1" "only_queues s s1" "cur_task s1 = cur_task s"
    "placed S T {cur_task s} s1 (leave_rr s Q)" using leave_current [OF c] by blast
  let ?s = "upd_task (cur_task s) (waiting_on a) s1"
  have "placed S T {cur_task s} ?s (leave_rr s Q)" using placed_upd [OF s1(4)] by simp
  moreover have "a \<noteq> NULL" using placedD(6) [OF calmD(1) [OF c]] a by auto
  ultimately obtain s2 where
    s2: "tq_enqueue (SemQueue a) (cur_task s) ?s = Some s2" "only_queues ?s s2"
    "placed S T {} s2 ((leave_rr s Q)(TqHead (SemQueue a) := leave_rr s Q (TqHead (SemQueue a)) @ [cur_task s]))"
    using placed_tq_enqueue [of S T "{cur_task s}" ?s "leave_rr s Q" "cur_task s" "SemQueue a"] a
    by (auto simp: waiting_on_def)
  have "leave_rr s Q (TqHead (SemQueue a)) = Q (TqHead (SemQueue a))" by (simp add: leave_rr_def)
  with s2(3) have p2: "placed S T {} s2 Q2" by (simp add: Q2_def)
  have g: "kin_task (tasks s (cur_task s)) (waiting_on a (tasks s (cur_task s)))"
    using calmD(6) [OF c] by (simp add: kin_task_def waiting_on_def)
  from stop_then_schedule [OF c ni s1(2) s2(2) p2 g] obtain s' Q' where "schedule s2 = Some s'"
    "calm idle S T s' Q'" "served Q2 Q' (cur_task s')" "stopped (waiting_on a) s s'" by blast
  moreover have "sem_sleep a s = schedule s2"
    using s1(1,3) s2(1) by (simp add: sem_sleep_def waiting_on_def [abs_def])
  ultimately show ?thesis by auto
qed

text \<open>The other direction: a task leaves a task queue and joins the ready list of its priority.\<close>

definition woken :: "task_t \<Rightarrow> task_t" where
  "woken x = x\<lparr>t_stat := TASK_READY\<rparr>"

definition to_ready :: "kstate \<Rightarrow> tq_id \<Rightarrow> u32 \<Rightarrow> (node_addr \<Rightarrow> u32 list) \<Rightarrow> node_addr \<Rightarrow> u32 list" where
  "to_ready s i t Q = Q(TqHead i := remove1 t (Q (TqHead i)),
     RrHead (t_prio (tasks s t)) := Q (RrHead (t_prio (tasks s t))) @ [t])"

lemma wake_up:
  assumes pl: "placed S T {} s Q" and t: "t \<in> T" "home (tasks s t) = Some (TqHead i)" "i \<noteq> ZombieQue"
    and p: "t_prio (tasks s t) < NR_PRIO"
    and g: "\<And>x. t_stat (g x) = TASK_READY \<and> t_prio (g x) = t_prio x \<and> t_parent (g x) = t_parent x \<and>
      t_pid (g x) = t_pid x \<and> t_lock (g x) = t_lock x"
    and w: "t_wait_for (g (tasks s t)) = NULL"
  shows "\<exists>s1 s'. tq_dequeue i t s = Some s1 \<and> rr_enqueue t (upd_task t g s1) = Some s' \<and>
    placed S T {} s' (to_ready s i t Q) \<and> cur_task s1 = cur_task s \<and> cur_task s' = cur_task s \<and> tasks s1 = tasks s \<and>
    tasks s' = (tasks s)(t := g (tasks s t)) \<and> kin_frame s s' \<and> sem_count s' = sem_count s"
proof -
  from placed_tq_dequeue [OF pl t(1) _ t(2)] obtain s1 where s1: "tq_dequeue i t s = Some s1" "only_queues s s1"
    "cur_task s1 = cur_task s" "placed S T {t} s1 (Q(TqHead i := remove1 t (Q (TqHead i))))" by auto
  let ?s = "upd_task t g s1"
  note same = only_queuesD(1) [OF s1(2)]
  have "placed S T {t} ?s (Q(TqHead i := remove1 t (Q (TqHead i))))" using placed_upd [OF s1(4)] by simp
  from placed_rr_enqueue [OF this, of t] obtain s' where s': "rr_enqueue t ?s = Some s'" "only_queues ?s s'"
    "cur_task s' = cur_task s" "placed S T {} s' (to_ready s i t Q)"
    using g w p same s1(3) by (auto simp: to_ready_def)
  have nz: "t_stat (tasks s t) \<noteq> TASK_ZOMBIE" using t(2,3) by (auto simp: home_iff)
  have "kin_frame s s1" "kin_frame s1 ?s" "kin_frame ?s s'"
    using only_queues_kin s1(2) s'(2) upd_task_kin [of s1 t g] g [of "tasks s t"] nz same by (auto simp: kin_task_def)
  then have "kin_frame s s'" by (blast intro: kin_frame_trans)
  moreover have "tasks s' = (tasks s)(t := g (tasks s t))" "sem_count s' = sem_count s"
    using only_queuesD(1,2) [OF s'(2)] only_queuesD(1,2) [OF s1(2)] by (simp_all add: upd_task_def)
  ultimately show ?thesis using s1(1,3) s' same by blast
qed

text \<open>\<open>prios_ok\<close>: every task, ready or not, has a priority that indexes a ready list.\<close>

definition prios_ok :: "u32 set \<Rightarrow> kstate \<Rightarrow> bool" where
  "prios_ok T s \<longleftrightarrow> (\<forall>t\<in>T. t_prio (tasks s t) < NR_PRIO)"

lemma prios_ok_kin: "prios_ok T s \<Longrightarrow> kin_frame s s' \<Longrightarrow> prios_ok T s'"
  by (auto simp: prios_ok_def kin_frame_def kin_task_def)

lemma calm_tasks:
  assumes c: "calm idle S T s Q" and pl: "placed S T {} s' Q'" and cur: "cur_task s' = cur_task s"
    and same: "\<And>u. t_stat (tasks s u) = TASK_READY \<Longrightarrow>
      t_stat (tasks s' u) = TASK_READY \<and> t_prio (tasks s' u) = t_prio (tasks s u)"
  shows "calm idle S T s' Q'"
  using c pl cur same [of idle] same [of "cur_task s"] by (simp add: calm_def)

definition awake :: "task_t \<Rightarrow> task_t" where
  "awake x = x\<lparr>t_sleep_ticks := 0, t_stat := TASK_READY\<rparr>"

lemma wakeup_calm:
  assumes c: "calm idle S T s Q" and p: "prios_ok T s" and t: "t \<in> T" "t_stat (tasks s t) = TASK_SLEEP"
  defines "Q2 \<equiv> to_ready s SleepQue t Q"
  shows "\<exists>s' Q'. wakeup t s = Some s' \<and> calm idle S T s' Q' \<and> served Q2 Q' (cur_task s') \<and>
    tasks s' = (tasks s)(t := awake (tasks s t)) \<and> kin_frame s s' \<and> sem_count s' = sem_count s"
proof -
  have h: "home (tasks s t) = Some (TqHead SleepQue)" using t(2) by simp
  have w: "t_wait_for (tasks s t) = NULL" using placedD(9) [OF calmD(1) [OF c] t(1)] t(2) by simp
  from wake_up [OF calmD(1) [OF c] t(1) h, of awake] obtain s1 s2 where
    s: "tq_dequeue SleepQue t s = Some s1" "rr_enqueue t (upd_task t awake s1) = Some s2"
    "placed S T {} s2 Q2" "cur_task s2 = cur_task s" "tasks s2 = (tasks s)(t := awake (tasks s t))"
    "kin_frame s s2" "sem_count s2 = sem_count s"
    using p t(1) w by (auto simp: prios_ok_def awake_def Q2_def)
  have "calm idle S T s2 Q2" by (rule calm_tasks [OF c s(3,4)]) (use s(5) t(2) in \<open>auto simp: awake_def\<close>)
  from schedule_calm [OF calmD(1-4) [OF this]] obtain s' Q' where s': "schedule s2 = Some s'" "calm idle S T s' Q'"
    "served Q2 Q' (cur_task s')" "only_queues s2 s'" by blast
  have "wakeup t s = Some s'" using s(1,2) s'(1) by (simp add: wakeup_def awake_def [abs_def])
  moreover have "kin_frame s s'" using s(6) only_queues_kin [OF s'(4)] by (rule kin_frame_trans)
  ultimately show ?thesis using s' s(5,7) only_queuesD(1,2) [OF s'(4)] by metis
qed

definition released :: "task_t \<Rightarrow> task_t" where
  "released x = x\<lparr>t_stat := TASK_READY, t_wait_for := NULL\<rparr>"

lemma sem_wake_calm:
  assumes c: "calm idle S T s Q" and p: "prios_ok T s" and a: "a \<in> S" and q: "Q (TqHead (SemQueue a)) = t # l"
  shows "\<exists>s'. sem_wake a s = Some s' \<and> calm idle S T s' (to_ready s (SemQueue a) t Q) \<and> cur_task s' = cur_task s \<and>
    tasks s' = (tasks s)(t := released (tasks s t)) \<and> kin_frame s s' \<and> sem_count s' = sem_count s"
proof -
  have pl: "placed S T {} s Q" by (rule calmD [OF c])
  have t: "t \<in> T" "home (tasks s t) = Some (TqHead (SemQueue a))"
    using placed_iff [OF pl, of "TqHead (SemQueue a)" t] a q by auto
  have nz: "t \<noteq> NULL" using t(1) placedD(4) [OF pl] by auto
  have pick: "tq_pick_next (SemQueue a) s = Some (t, s)"
    using tq_pick_next_ok [OF placedD(2) [OF pl], of "SemQueue a"] a q by simp
  from wake_up [OF pl t, of released] obtain s1 s2 where
    s: "tq_dequeue (SemQueue a) t s = Some s1" "rr_enqueue t (upd_task t released s1) = Some s2"
    "placed S T {} s2 (to_ready s (SemQueue a) t Q)" "cur_task s2 = cur_task s"
    "tasks s2 = (tasks s)(t := released (tasks s t))" "kin_frame s s2" "sem_count s2 = sem_count s"
    using p t(1) by (auto simp: prios_ok_def released_def)
  have "calm idle S T s2 (to_ready s (SemQueue a) t Q)"
    by (rule calm_tasks [OF c s(3,4)]) (use s(5) t(2) in \<open>auto simp: released_def home_iff\<close>)
  moreover have "sem_wake a s = Some s2"
    using pick nz s(1,2) by (simp add: sem_wake_def released_def [abs_def])
  ultimately show ?thesis using s by blast
qed

section \<open>The tick of the clock\<close>

lemma dlist_next:
  assumes "dlist h hp (xs @ n # ys)"
  shows "node_next (h n) = hd (ys @ [hp])"
proof -
  have "links h ((hp # xs) @ n # (ys @ [hp]))" using assms by (simp add: dlist_def)
  then have "links h (n # ys @ [hp])" by (subst (asm) links_append) simp
  then show ?thesis by (cases ys) auto
qed

lemma list_del_own_next: "node_next (list_del n h n) = node_next (h n)"
  by (simp add: list_del_def heap_simps)

text \<open>What the tick does to one sleeping task.\<close>

definition ticked :: "task_t \<Rightarrow> task_t" where
  "ticked x = (if t_sleep_ticks x = 1 then awake x else x\<lparr>t_sleep_ticks := t_sleep_ticks x - 1\<rparr>)"

definition due :: "kstate \<Rightarrow> u32 \<Rightarrow> bool" where
  "due s t \<longleftrightarrow> t_sleep_ticks (tasks s t) = 1"

lemma tq_dequeue_nodes: "tq_dequeue i t s = Some s' \<Longrightarrow> nodes s' = list_del (QueueNode t) (nodes s)"
  by (auto simp: tq_dequeue_def tq_spin_lock_def tq_spin_unlock_def upd_queue_def Let_def split: bind_splits)

definition after_ticks ::
    "kstate \<Rightarrow> u32 list \<Rightarrow> (node_addr \<Rightarrow> u32 list) \<Rightarrow> kstate \<Rightarrow> (node_addr \<Rightarrow> u32 list) \<Rightarrow> bool" where
  "after_ticks s ts Q s' Q' \<longleftrightarrow>
    tasks s' = (\<lambda>u. if u \<in> set ts then ticked (tasks s u) else tasks s u) \<and>
    (\<forall>p<64. ready Q' p = ready Q p @ filter (\<lambda>t. due s t \<and> unat (t_prio (tasks s t)) = p) ts) \<and>
    (\<forall>i. i \<noteq> SleepQue \<longrightarrow> Q' (TqHead i) = Q (TqHead i)) \<and>
    kin_frame s s' \<and> sem_count s' = sem_count s \<and> cur_task s' = cur_task s"

lemma after_ticks_Cons:
  assumes rest: "after_ticks s1 ts Q1 s' Q'" and t: "t \<notin> set ts"
    and one: "tasks s1 = (tasks s)(t := ticked (tasks s t))" "kin_frame s s1" "sem_count s1 = sem_count s"
      "cur_task s1 = cur_task s"
    and q: "\<And>p. p < 64 \<Longrightarrow> ready Q1 p = ready Q p @ (if due s t \<and> unat (t_prio (tasks s t)) = p then [t] else [])"
      "\<And>i. i \<noteq> SleepQue \<Longrightarrow> Q1 (TqHead i) = Q (TqHead i)"
  shows "after_ticks s (t # ts) Q s' Q'"
proof -
  have same: "tasks s1 u = tasks s u" if "u \<in> set ts" for u using one(1) t that by auto
  have "filter (\<lambda>u. due s1 u \<and> unat (t_prio (tasks s1 u)) = p) ts = filter (\<lambda>u. due s u \<and> unat (t_prio (tasks s u)) = p) ts" for p
    using same by (intro filter_cong) (auto simp: due_def)
  moreover have "tasks s' = (\<lambda>u. if u \<in> set (t # ts) then ticked (tasks s u) else tasks s u)"
    using rest one(1) t by (auto simp: after_ticks_def)
  moreover have "kin_frame s s'" using one(2) rest by (auto simp: after_ticks_def intro: kin_frame_trans)
  ultimately show ?thesis using rest one(3,4) q unfolding after_ticks_def by auto
qed

lemma ready_to_ready:
  assumes "p < 64"
  shows "ready (to_ready s i t Q) p = ready Q p @ (if unat (t_prio (tasks s t)) = p then [t] else [])"
proof -
  have "of_nat p = t_prio (tasks s t) \<longleftrightarrow> unat (t_prio (tasks s t)) = p"
    using u8_of_nat [OF assms] by (metis word_unat_eq_iff)
  then show ?thesis by (auto simp: to_ready_def ready_def)
qed

lemma to_ready_tq: "to_ready s i t Q (TqHead j) = (if j = i then remove1 t (Q (TqHead i)) else Q (TqHead j))"
  by (simp add: to_ready_def)

lemma sched_tick_loop_ok:
  assumes "placed S T {} s Q" and "prios_ok T s" and "Q (TqHead SleepQue) = ks @ ts"
  shows "\<exists>s' Q'. sched_tick_loop (hd (map QueueNode ts @ [TqHead SleepQue])) b s = Some (b \<or> (\<exists>t\<in>set ts. due s t), s') \<and>
    placed S T {} s' Q' \<and> Q' (TqHead SleepQue) = ks @ filter (\<lambda>t. \<not> due s t) ts \<and> after_ticks s ts Q s' Q'"
  using assms
proof (induction ts arbitrary: s Q ks b)
  case Nil
  then show ?case
    by (intro exI [of _ s] exI [of _ Q], subst sched_tick_loop.simps) (auto simp: after_ticks_def)
next
  case (Cons t ts)
  note pl = Cons.prems(1) and q = Cons.prems(3)
  have d: "distinct (ks @ t # ts)" using qrepD(3) [OF placedD(3) [OF pl], of "TqHead SleepQue"] q by simp
  have t: "t \<in> T" "t_stat (tasks s t) = TASK_SLEEP"
    using placed_iff [OF pl, of "TqHead SleepQue" t] q by (auto simp: home_iff)
  have nxt: "node_next (nodes s (QueueNode t)) = hd (map QueueNode ts @ [TqHead SleepQue])"
    using dlist_next [of "nodes s" "TqHead SleepQue" "map QueueNode ks" "QueueNode t" "map QueueNode ts"]
      qrepD(2) [OF placedD(3) [OF pl], of "TqHead SleepQue"] q by simp
  define f where "f = (\<lambda>x :: task_t. x\<lparr>t_sleep_ticks := t_sleep_ticks x - 1\<rparr>)"
  define s0 where "s0 = upd_task t f s"
  have tick0: "t_sleep_ticks (tasks s0 t) = 0 \<longleftrightarrow> due s t" by (simp add: s0_def f_def due_def)
  have pl0: "placed S T {} s0 Q" unfolding s0_def by (rule placed_upd_same [OF pl]) (simp add: f_def)
  have k0: "kin_frame s s0" unfolding s0_def by (rule upd_task_kin) (simp add: kin_task_def f_def)
  have p0: "prios_ok T s0" by (rule prios_ok_kin [OF Cons.prems(2) k0])
  have due': "due s' u = due s u" if "u \<in> set ts" "tasks s' = (tasks s)(t := ticked (tasks s t))" for s' u
    using that d by (auto simp: due_def)
  have flt: "filter (\<lambda>u. \<not> due s' u) ts = filter (\<lambda>u. \<not> due s u) ts" "(\<exists>u\<in>set ts. due s' u) = (\<exists>u\<in>set ts. due s u)"
    if "tasks s' = (tasks s)(t := ticked (tasks s t))" for s'
    using due' [OF _ that] by (auto intro: filter_cong)
  show ?case
  proof (cases "due s t")
    case False
    have t0: "tasks s0 = (tasks s)(t := ticked (tasks s t))"
      using False by (auto simp: s0_def ticked_def due_def f_def)
    from Cons.IH [OF pl0 p0, of "ks @ [t]" b] q obtain s' Q' where r:
      "sched_tick_loop (hd (map QueueNode ts @ [TqHead SleepQue])) b s0 = Some (b \<or> (\<exists>t\<in>set ts. due s0 t), s')"
      "placed S T {} s' Q'" "Q' (TqHead SleepQue) = (ks @ [t]) @ filter (\<lambda>t. \<not> due s0 t) ts" "after_ticks s0 ts Q s' Q'"
      by auto
    have "after_ticks s (t # ts) Q s' Q'"
      by (rule after_ticks_Cons [OF r(4) _ t0 k0]) (use d False in \<open>auto simp: s0_def\<close>)
    moreover have "sched_tick_loop (QueueNode t) b s = sched_tick_loop (node_next (nodes s0 (QueueNode t))) b s0"
      using False tick0 by (subst sched_tick_loop.simps) (simp add: s0_def f_def Let_def due_def)
    ultimately show ?thesis using r(1-3) flt [OF t0] nxt False
      by (intro exI [of _ s'] exI [of _ Q']) (simp add: s0_def)
  next
    case True
    have h0: "home (tasks s0 t) = Some (TqHead SleepQue)" using t(2) by (simp add: s0_def f_def)
    have w: "t_wait_for (tasks s0 t) = NULL" using placedD(9) [OF pl t(1)] t(2) by (simp add: s0_def f_def)
    from wake_up [OF pl0 t(1) h0, of woken] obtain s1 s2 where
      s: "tq_dequeue SleepQue t s0 = Some s1" "rr_enqueue t (upd_task t woken s1) = Some s2"
      "placed S T {} s2 (to_ready s0 SleepQue t Q)" "cur_task s1 = cur_task s0" "cur_task s2 = cur_task s0"
      "tasks s2 = (tasks s0)(t := woken (tasks s0 t))" "kin_frame s0 s2" "sem_count s2 = sem_count s0"
      using p0 t(1) w by (auto simp: prios_ok_def woken_def)
    have t2: "tasks s2 = (tasks s)(t := ticked (tasks s t))"
      using True s(6) by (auto simp: s0_def ticked_def due_def f_def woken_def awake_def)
    have k2: "kin_frame s s2" using k0 s(7) by (rule kin_frame_trans)
    have q2: "to_ready s0 SleepQue t Q (TqHead SleepQue) = ks @ ts"
      using q d by (simp add: to_ready_tq remove1_append)
    from Cons.IH [OF s(3) prios_ok_kin [OF Cons.prems(2) k2] q2, of True] obtain s' Q' where r:
      "sched_tick_loop (hd (map QueueNode ts @ [TqHead SleepQue])) True s2 = Some (True, s')"
      "placed S T {} s' Q'" "Q' (TqHead SleepQue) = ks @ filter (\<lambda>t. \<not> due s2 t) ts"
      "after_ticks s2 ts (to_ready s0 SleepQue t Q) s' Q'"
      by auto
    have "after_ticks s (t # ts) Q s' Q'"
      by (rule after_ticks_Cons [OF r(4) _ t2 k2])
        (use d True s(5,8) in \<open>auto simp: s0_def f_def ready_to_ready to_ready_tq\<close>)
    moreover have "node_next (nodes s1 (QueueNode t)) = node_next (nodes s (QueueNode t))"
      using tq_dequeue_nodes [OF s(1)] list_del_own_next by (simp add: s0_def)
    then have "sched_tick_loop (QueueNode t) b s = sched_tick_loop (node_next (nodes s (QueueNode t))) True s2"
      using True tick0 s(1,2) unfolding s0_def f_def woken_def [abs_def]
      by (subst sched_tick_loop.simps) (simp add: Let_def del: upd_task_upd_task)
    ultimately show ?thesis using r(1-3) flt [OF t2] nxt True
      by (intro exI [of _ s'] exI [of _ Q']) simp
  qed
qed

text \<open>The running task is charged for the tick; its time slice starts again when it is used up.\<close>

definition charged :: "task_t \<Rightarrow> task_t" where
  "charged x = x\<lparr>t_total_ticks := t_total_ticks x + 1,
     t_rest_ticks := (if t_rest_ticks x = 1 then t_time_ticks x else t_rest_ticks x - 1)\<rparr>"

definition ticked_tasks :: "kstate \<Rightarrow> u32 list \<Rightarrow> u32 \<Rightarrow> task_t" where
  "ticked_tasks s ts = (\<lambda>u. if u \<in> set ts then ticked (tasks s u)
     else if u = cur_task s then charged (tasks s u) else tasks s u)"

definition tick_preempts :: "kstate \<Rightarrow> u32 list \<Rightarrow> bool" where
  "tick_preempts s ts \<longleftrightarrow> t_rest_ticks (tasks s (cur_task s)) = 1 \<or> (\<exists>t\<in>set ts. due s t)"

lemma sched_tick_calm:
  assumes c: "calm idle S T s Q" and p: "prios_ok T s"
  defines "ts \<equiv> Q (TqHead SleepQue)"
  shows "\<exists>s' Q1 Q'. sched_tick s = Some s' \<and> calm idle S T s' Q' \<and>
    tasks s' = ticked_tasks s ts \<and> kin_frame s s' \<and> sem_count s' = sem_count s \<and>
    Q1 (TqHead SleepQue) = filter (\<lambda>t. \<not> due s t) ts \<and>
    (\<forall>p<64. ready Q1 p = ready Q p @ filter (\<lambda>t. due s t \<and> unat (t_prio (tasks s t)) = p) ts) \<and>
    (\<forall>i. i \<noteq> SleepQue \<longrightarrow> Q1 (TqHead i) = Q (TqHead i)) \<and>
    (if tick_preempts s ts
     then served Q1 Q' (cur_task s')
     else cur_task s' = cur_task s \<and> Q' = Q1)"
proof -
  define s0 where "s0 = upd_task (cur_task s) charged s"
  note pl = calmD(1) [OF c]
  have cur: "cur_task s \<notin> set ts" 
    using placed_iff [OF pl, of "TqHead SleepQue" "cur_task s"] calmD(6) [OF c] by (auto simp: ts_def home_iff)
  have pl0: "placed S T {} s0 Q" unfolding s0_def by (rule placed_upd_same [OF pl]) (simp add: charged_def)
  have k0: "kin_frame s s0" unfolding s0_def by (rule upd_task_kin) (simp add: kin_task_def charged_def)
  from sched_tick_loop_ok [OF pl0 prios_ok_kin [OF p k0], of "[]" ts "t_rest_ticks (tasks s (cur_task s)) = 1"]
  obtain s1 Q1 where s1: "sched_tick_loop (hd (map QueueNode ts @ [TqHead SleepQue])) (t_rest_ticks (tasks s (cur_task s)) = 1) s0
      = Some (t_rest_ticks (tasks s (cur_task s)) = 1 \<or> (\<exists>t\<in>set ts. due s0 t), s1)"
    "placed S T {} s1 Q1" "Q1 (TqHead SleepQue) = filter (\<lambda>t. \<not> due s0 t) ts" "after_ticks s0 ts Q s1 Q1"
    by (auto simp: ts_def)
  have same: "tasks s0 u = tasks s u" if "u \<in> set ts" for u using that cur by (auto simp: s0_def)
  have due: "(\<exists>t\<in>set ts. due s0 t) = (\<exists>t\<in>set ts. due s t)" "filter (\<lambda>t. \<not> due s0 t) ts = filter (\<lambda>t. \<not> due s t) ts"
    "filter (\<lambda>t. due s0 t \<and> unat (t_prio (tasks s0 t)) = p) ts = filter (\<lambda>t. due s t \<and> unat (t_prio (tasks s t)) = p) ts" for p
    using same by (auto simp: due_def intro!: filter_cong)
  have tk: "tasks s1 = ticked_tasks s ts"
    using s1(4) same by (auto simp: after_ticks_def ticked_tasks_def s0_def)
  have fr: "kin_frame s s1" "sem_count s1 = sem_count s" "cur_task s1 = cur_task s"
    using s1(4) kin_frame_trans [OF k0] by (auto simp: after_ticks_def s0_def)
  have c1: "calm idle S T s1 Q1"
    by (rule calm_tasks [OF c s1(2) fr(3)]) (auto simp: tk ticked_tasks_def ticked_def awake_def charged_def)
  have first: "list_first (TqHead SleepQue) (nodes s0) = hd (map QueueNode ts @ [TqHead SleepQue])"
    using dlist_nth_ends(1) [OF qrepD(2) [OF placedD(3) [OF pl], of "TqHead SleepQue"]]
    by (cases ts) (simp_all add: list_first_def s0_def ts_def)
  have run: "sched_tick s = (if tick_preempts s ts then schedule s1 else Some s1)"
  proof -
    have one: "t_rest_ticks (tasks s (cur_task s)) - 1 = 0 \<longleftrightarrow> t_rest_ticks (tasks s (cur_task s)) = 1" by simp
    have swap: "x\<lparr>t_rest_ticks := a, t_total_ticks := b\<rparr> = x\<lparr>t_total_ticks := b, t_rest_ticks := a\<rparr>"
      for x :: task_t and a b by simp
    have "sched_tick s = do {
        (need, s) \<leftarrow> sched_tick_loop (list_first (TqHead SleepQue) (nodes s0)) (t_rest_ticks (tasks s (cur_task s)) = 1) s0;
        if need then schedule s else Some s }"
      unfolding s0_def charged_def [abs_def] by (simp add: sched_tick_def Let_def upd_task_def swap)
    then show ?thesis using first s1(1) due by (simp add: tick_preempts_def)
  qed
  show ?thesis
  proof (cases "tick_preempts s ts")
    case False
    then show ?thesis using run c1 tk fr s1(3,4) due
      by (intro exI [of _ s1] exI [of _ Q1]) (simp add: after_ticks_def)
  next
    case True
    from schedule_calm [OF calmD(1-4) [OF c1]] obtain s' Q' where s': "schedule s1 = Some s'" "calm idle S T s' Q'"
      "served Q1 Q' (cur_task s')" "only_queues s1 s'" by blast
    have "kin_frame s s'" using fr(1) only_queues_kin [OF s'(4)] by (rule kin_frame_trans)
    then show ?thesis using True run tk fr s1(3,4) due s' only_queuesD(1,2) [OF s'(4)]
      by (intro exI [of _ s'] exI [of _ Q1] exI [of _ Q']) (auto simp: after_ticks_def)
  qed
qed

section \<open>Changing a priority\<close>

definition with_prio :: "u8 \<Rightarrow> task_t \<Rightarrow> task_t" where
  "with_prio p x = x\<lparr>t_lock := 0, t_prio := p, t_time_ticks := ucast p + 1\<rparr>"

text \<open>Nobody who is ready has a higher priority, that is a lower number, than the task that runs.\<close>

definition first_runs :: "u32 set \<Rightarrow> kstate \<Rightarrow> bool" where
  "first_runs T s \<longleftrightarrow> (\<forall>u \<in> T. t_stat (tasks s u) = TASK_READY \<longrightarrow> t_prio (tasks s (cur_task s)) \<le> t_prio (tasks s u))"

lemma served_first_runs:
  assumes pl: "placed S T {} s Q" and sv: "served Q Q' (cur_task s')" and t: "tasks s' = tasks s"
  shows "first_runs T s'"
  unfolding first_runs_def
proof (intro ballI impI)
  fix u assume u: "u \<in> T" "t_stat (tasks s' u) = TASK_READY"
  have in_list: "v \<in> set (Q (RrHead p)) \<longleftrightarrow> v \<in> T \<and> home (tasks s v) = Some (RrHead p)" if "RrHead p \<in> heads S" for v p
    using placedD(7) [OF pl that] by auto
  obtain q where q: "top_prio Q q" "cur_task s' = hd (ready Q q)" using sv by (auto simp: served_def)
  have q64: "q < 64" "ready Q q \<noteq> []" "\<forall>p < q. ready Q p = []" using q(1) by (auto simp: top_prio_def)
  have sk: "sched_ok s Q (heads S)" by (rule placedD(1) [OF pl])
  then have "\<forall>v \<in> set (ready Q q). t_prio (tasks s v) = of_nat q" using q64(1) by (simp add: sched_ok_def rr_ok_def)
  then have cur: "t_prio (tasks s' (cur_task s')) = of_nat q" using q64(2) q(2) t by simp
  have home: "home (tasks s u) = Some (RrHead (t_prio (tasks s u)))" using u(2) t by (simp add: home.simps)
  then have h: "RrHead (t_prio (tasks s u)) \<in> heads S" using placedD(8) [OF pl, of u] u(1) by simp
  then have "u \<in> set (Q (RrHead (t_prio (tasks s u))))" using in_list [OF h] u(1) home by simp
  then have "ready Q (unat (t_prio (tasks s u))) \<noteq> []" by (auto simp: ready_def)
  then have "q \<le> unat (t_prio (tasks s u))" using q64(3) by (metis not_le)
  moreover have "unat (of_nat q :: u8) = q" using q64(1) by (rule u8_of_nat)
  ultimately show "t_prio (tasks s' (cur_task s')) \<le> t_prio (tasks s' u)" using cur t by (simp add: word_le_nat_alt)
qed

lemma task_reset_prio_calm:
  assumes c: "calm idle S T s Q" and t: "t \<in> T" "t \<noteq> idle" "t_lock (tasks s t) = 0" and p: "p < NR_PRIO"
  shows "\<exists>s' Q'. task_reset_prio t p s = Some s' \<and> calm idle S T s' Q' \<and> (\<forall>i. Q' (TqHead i) = Q (TqHead i)) \<and>
    tasks s' = (tasks s)(t := with_prio p (tasks s t)) \<and> kin_frame s s' \<and> sem_count s' = sem_count s \<and>
    (t = cur_task s \<longrightarrow> first_runs T s')"
proof -
  note pl = calmD(1) [OF c]
  define lock where "lock = (\<lambda>x :: task_t. x\<lparr>t_lock := 1\<rparr>)"
  define unlock where "unlock = (\<lambda>x :: task_t. x\<lparr>t_lock := 0\<rparr>)"
  define f where "f = (\<lambda>x :: task_t. x\<lparr>t_prio := p, t_time_ticks := ucast p + 1\<rparr>)"
  define s1 where "s1 = upd_task t lock s"
  have k: "kin_task (tasks s t) (with_prio p (tasks s t))" using t(3) p by (simp add: kin_task_def with_prio_def)
  have swap: "unlock (f (lock x)) = with_prio p x" for x
    by (simp add: unlock_def f_def lock_def with_prio_def)
  have pl1: "placed S T {} s1 Q" unfolding s1_def by (rule placed_upd_same [OF pl]) (simp add: lock_def)
  have lk: "task_spin_lock t s = Some s1" using t(3) by (simp add: task_spin_lock_def s1_def lock_def)
  show ?thesis
  proof (cases "t_stat (tasks s t) = TASK_READY")
    case False
    define s2 where "s2 = upd_task t (\<lambda>x. unlock (f x)) s1"
    have nc: "t \<noteq> cur_task s" using False calmD(6) [OF c] by auto
    have hm: "home (unlock (f (lock (tasks s t)))) = home (tasks s t)"
      using False by (simp add: home.simps unlock_def f_def lock_def split: task_stat_t.split)
    have "placed S T {} s2 Q"
      by (rule placed_cong [OF pl]) (use hm in \<open>auto simp: s1_def s2_def unlock_def f_def lock_def\<close>)
    then have "calm idle S T s2 Q" using c t(2) nc by (simp add: calm_def s1_def s2_def)
    moreover have "task_reset_prio t p s = Some s2"
      using False lk nc
      by (simp add: task_reset_prio_def s1_def s2_def lock_def unlock_def f_def task_spin_unlock_def Let_def)
    moreover have "tasks s2 = (tasks s)(t := with_prio p (tasks s t))" by (auto simp: s2_def s1_def swap)
    moreover have "kin_frame s s2" using k by (simp add: s2_def s1_def kin_frame_def swap)
    ultimately show ?thesis using nc by (intro exI [of _ s2] exI [of _ Q]) (simp add: s1_def s2_def)
  next
    case True
    have w: "t_wait_for (tasks s t) = NULL" using placedD(9) [OF pl t(1)] True by simp
    from placed_rr_dequeue [OF pl1 t(1)] obtain s2 Q2 where s2: "rr_dequeue t s1 = Some s2" "only_queues s1 s2"
      "cur_task s2 = cur_task s" "placed S T {t} s2 Q2" "\<And>i. Q2 (TqHead i) = Q (TqHead i)"
      using True by (fastforce simp: s1_def lock_def)
    define s3 where "s3 = upd_task t f s2"
    have "placed S T {t} s3 Q2" using placed_upd [OF s2(4)] by (simp add: s3_def)
    moreover have t3: "t_stat (tasks s3 t) = TASK_READY" "t_wait_for (tasks s3 t) = NULL" "t_prio (tasks s3 t) = p"
      using True w only_queuesD(1) [OF s2(2)] by (simp_all add: s3_def f_def s1_def lock_def)
    ultimately obtain s4 Q4 where s4: "rr_enqueue t s3 = Some s4" "only_queues s3 s4" "cur_task s4 = cur_task s"
      "placed S T {} s4 Q4" "\<And>i. Q4 (TqHead i) = Q (TqHead i)"
      using placed_rr_enqueue [of S T "{t}" s3 Q2 t] p s2(3,5) by (fastforce simp: s3_def)
    define s5 where "s5 = upd_task t unlock s4"
    have t5: "tasks s5 = (tasks s)(t := with_prio p (tasks s t))"
      using only_queuesD(1) [OF s4(2)] only_queuesD(1) [OF s2(2)] by (auto simp: s5_def s3_def s1_def swap)
    have "placed S T {} s5 Q4" unfolding s5_def by (rule placed_upd_same [OF s4(4)]) (simp add: unlock_def)
    then have c5: "calm idle S T s5 Q4" using c t(2) t5 s4(3) True by (simp add: calm_def with_prio_def s5_def)
    have k5: "kin_frame s s5"
    proof -
      have "kin_same (nodes s) (nodes s5)"
        using only_queuesD(7) [OF s2(2)] only_queuesD(7) [OF s4(2)]
        by (auto simp: s1_def s3_def s5_def intro: kin_same_trans)
      then show ?thesis using only_queuesD [OF s2(2)] only_queuesD [OF s4(2)] k
        by (simp add: kin_frame_def t5) (simp add: s1_def s3_def s5_def)
    qed
    have sem: "sem_count s5 = sem_count s"
      using only_queuesD(2) [OF s2(2)] only_queuesD(2) [OF s4(2)] by (simp add: s1_def s3_def s5_def)
    have run: "task_reset_prio t p s = (if t = cur_task s then schedule s5 else Some s5)"
      using True lk s2(1,3) s4(1,3) t3(1) only_queuesD(1) [OF s2(2)]
      by (simp add: task_reset_prio_def s1_def lock_def s3_def f_def s5_def unlock_def task_spin_unlock_def Let_def)
    show ?thesis
    proof (cases "t = cur_task s")
      case False
      then show ?thesis using run c5 s4(5) t5 k5 sem by auto
    next
      case True
      from schedule_calm [OF calmD(1-4) [OF c5]] obtain s' Q' where s': "schedule s5 = Some s'" "calm idle S T s' Q'"
        "only_queues s5 s'" "served Q4 Q' (cur_task s')" by blast
      have tq: "Q' (TqHead i) = Q4 (TqHead i)" for i by (rule served_tq [OF s'(4)])
      have "first_runs T s'" by (rule served_first_runs [OF calmD(1) [OF c5] s'(4) only_queuesD(1) [OF s'(3)]])
      moreover      have "kin_frame s s'" using k5 only_queues_kin [OF s'(3)] by (rule kin_frame_trans)
      ultimately show ?thesis using True run s'(1,2) tq s4(5) t5 sem only_queuesD(1,2) [OF s'(3)]
        by (intro exI [of _ s'] exI [of _ Q']) simp
    qed
  qed
qed

end
