(* ===== verification/BuddyBlocks.thy ===== *)
theory BuddyBlocks
  imports Prelude
begin

text \<open>
  The mathematics of buddy blocks, on natural numbers: no code is modelled here.

  A block map gives the order and the free bit of the block that starts at a frame, and
  \<^term>\<open>None\<close> elsewhere. \<open>tiled bo a b\<close> says that the blocks of the order map \<open>bo\<close> cut the
  interval from \<open>a\<close> to \<open>b\<close> into consecutive, aligned pieces of order at most 10; it is the
  invariant that the allocator keeps. \<open>chunks_down\<close> and \<open>chunks_up\<close> are the pieces the two
  binary decomposition loops of the allocator visit.
\<close>

type_synonym block_map = "nat \<Rightarrow> (nat \<times> bool) option"

abbreviation orders :: "block_map \<Rightarrow> nat \<Rightarrow> nat option" where
  "orders blk \<equiv> \<lambda>i. map_option fst (blk i)"

section \<open>Tilings\<close>

inductive tiled :: "(nat \<Rightarrow> nat option) \<Rightarrow> nat \<Rightarrow> nat \<Rightarrow> bool" for bo where
  tiled_done: "tiled bo a a"
| tiled_block: "bo a = Some k \<Longrightarrow> k \<le> 10 \<Longrightarrow> 2 ^ k dvd a \<Longrightarrow>
    (\<forall>j. a < j \<and> j < a + 2 ^ k \<longrightarrow> bo j = None) \<Longrightarrow>
    tiled bo (a + 2 ^ k) b \<Longrightarrow> tiled bo a b"

lemma tiled_le: "tiled bo a b \<Longrightarrow> a \<le> b"
  by (induction rule: tiled.induct) auto

lemma tiled_cong:
  assumes "tiled bo a b" and "\<And>x. a \<le> x \<Longrightarrow> x < b \<Longrightarrow> bo' x = bo x"
  shows "tiled bo' a b"
  using assms
proof (induction rule: tiled.induct)
  case (tiled_block a k b)
  note le = tiled_le [OF tiled_block.hyps(5)]
  show ?case
  proof (rule tiled.tiled_block [where k = k])
    have "a < a + 2 ^ k" by simp
    then have "a < b" using le by linarith
    then show "bo' a = Some k" using tiled_block.hyps(1) tiled_block.prems by simp
    show "\<forall>j. a < j \<and> j < a + 2 ^ k \<longrightarrow> bo' j = None"
      using tiled_block.hyps(4) tiled_block.prems le by auto
    show "tiled bo' (a + 2 ^ k) b" using tiled_block.IH tiled_block.prems by simp
  qed (use tiled_block.hyps in auto)
qed (rule tiled_done)

lemma tiled_trans: "tiled bo a b \<Longrightarrow> tiled bo b c \<Longrightarrow> tiled bo a c"
  by (induction rule: tiled.induct) (auto intro: tiled.intros)

lemma tiled_one:
  "bo a = Some k \<Longrightarrow> k \<le> 10 \<Longrightarrow> 2 ^ k dvd a \<Longrightarrow>
    (\<And>j. a < j \<Longrightarrow> j < a + 2 ^ k \<Longrightarrow> bo j = None) \<Longrightarrow> tiled bo a (a + 2 ^ k)"
  by (rule tiled_block) (auto intro: tiled_done)

text \<open>A block inside a tiling cuts it into the part before, the block and the part after.\<close>

lemma tiled_cut:
  assumes "tiled bo a c" and "a \<le> i" and "i < c" and "bo i = Some k"
  shows "tiled bo a i \<and> k \<le> 10 \<and> 2 ^ k dvd i \<and> (\<forall>j. i < j \<and> j < i + 2 ^ k \<longrightarrow> bo j = None)
    \<and> tiled bo (i + 2 ^ k) c"
  using assms
proof (induction rule: tiled.induct)
  case (tiled_block a m b)
  show ?case
  proof (cases "i = a")
    case True
    with tiled_block show ?thesis by (auto intro: tiled_done)
  next
    case False
    then have "\<not> i < a + 2 ^ m" using tiled_block.hyps(4) tiled_block.prems by auto
    then have "a + 2 ^ m \<le> i" by simp
    with tiled_block show ?thesis by (auto intro: tiled.tiled_block [where k = m])
  qed
qed simp

lemma tiled_cover:
  assumes "tiled bo a b" and "a \<le> x" and "x < b"
  shows "\<exists>i k. bo i = Some k \<and> a \<le> i \<and> i \<le> x \<and> x < i + 2 ^ k"
  using assms
proof (induction rule: tiled.induct)
  case (tiled_block a k b)
  then show ?case
    by (cases "x < a + 2 ^ k") (auto intro: order_trans, fastforce)
qed simp

lemma tiled_disjoint:
  assumes "tiled bo a c" and "a \<le> i" and "i < j" and "j < c" and "bo i = Some k" and "bo j = Some l"
  shows "i + 2 ^ k \<le> j"
proof (rule ccontr)
  assume "\<not> i + 2 ^ k \<le> j"
  then show False using tiled_cut [of bo a c i k] assms by auto
qed

lemma tiled_end: "tiled bo a c \<Longrightarrow> a \<le> i \<Longrightarrow> i < c \<Longrightarrow> bo i = Some k \<Longrightarrow> i + 2 ^ k \<le> c"
  using tiled_cut tiled_le by blast

text \<open>The interval of a stretch of whole blocks can be cut anew.\<close>

lemma tiled_replace:
  assumes "tiled bo a i" and "tiled bo' i j" and "tiled bo j c"
    and "\<And>x. x < i \<or> j \<le> x \<Longrightarrow> bo' x = bo x"
  shows "tiled bo' a c"
proof -
  have "tiled bo' a i" using assms(1) by (rule tiled_cong) (simp add: assms(4))
  moreover have "tiled bo' j c" using assms(3) by (rule tiled_cong) (simp add: assms(4))
  ultimately show ?thesis using assms(2) by (blast intro: tiled_trans)
qed

section \<open>Free frames of a block map\<close>

definition covered :: "bool \<Rightarrow> block_map \<Rightarrow> nat set" where
  "covered b blk = {x. \<exists>i k. blk i = Some (k, b) \<and> i \<le> x \<and> x < i + 2 ^ k}"

lemma covered_upd:
  assumes "blk i = None \<or> blk i = Some (k, b)" and "blk' i = Some (l, b)"
    and "\<And>x. x \<noteq> i \<Longrightarrow> blk' x = blk x" and "blk i = Some (k, b) \<Longrightarrow> k \<le> l"
  shows "covered b blk' = covered b blk \<union> {i..<i + 2 ^ l}"
proof -
  have "x \<in> covered b blk' \<longleftrightarrow> x \<in> covered b blk \<union> {i..<i + 2 ^ l}" for x
  proof
    assume "x \<in> covered b blk'"
    then obtain j m where j: "blk' j = Some (m, b)" "j \<le> x" "x < j + 2 ^ m"
      by (auto simp: covered_def)
    then show "x \<in> covered b blk \<union> {i..<i + 2 ^ l}"
      using assms(2,3) by (cases "j = i") (auto simp: covered_def)
  next
    assume "x \<in> covered b blk \<union> {i..<i + 2 ^ l}"
    then consider "i \<le> x" "x < i + 2 ^ l"
      | j m where "blk j = Some (m, b)" "j \<le> x" "x < j + 2 ^ m"
      by (auto simp: covered_def)
    then show "x \<in> covered b blk'"
    proof cases
      case 1
      with assms(2) show ?thesis by (auto simp: covered_def)
    next
      case 2
      show ?thesis
      proof (cases "j = i")
        case True
        with 2 assms(1) have "m = k" "k \<le> l" using assms(4) by auto
        then have le: "(2::nat) ^ m \<le> 2 ^ l" by (simp add: power_increasing)
        have "i \<le> x" using True 2 by simp
        moreover have "x < i + 2 ^ l" using True 2(3) le by linarith
        ultimately have "i \<le> x" "x < i + 2 ^ l" by blast+
        then show ?thesis using assms(2) by (auto simp: covered_def)
      next
        case False
        with 2(1) assms(3) have "blk' j = Some (m, b)" by simp
        with 2(2,3) show ?thesis unfolding covered_def by blast
      qed
    qed
  qed
  then show ?thesis by blast
qed

lemma covered_disjoint:
  assumes t: "tiled (orders blk) lo hi" and dom: "\<And>i. blk i \<noteq> None \<Longrightarrow> lo \<le> i \<and> i < hi"
    and x: "x \<in> covered True blk" and y: "x \<in> covered False blk"
  shows False
proof -
  obtain i k j l where i: "blk i = Some (k, True)" "i \<le> x" "x < i + 2 ^ k"
    and j: "blk j = Some (l, False)" "j \<le> x" "x < j + 2 ^ l"
    using x y by (auto simp: covered_def)
  have "i \<noteq> j" using i j by auto
  then consider "i < j" | "j < i" by linarith
  then show False
  proof cases
    case 1
    with tiled_disjoint [OF t, of i j k l] i j dom [of i] dom [of j] show False by auto
  next
    case 2
    with tiled_disjoint [OF t, of j i l k] i j dom [of i] dom [of j] show False by auto
  qed
qed

section \<open>Buddies\<close>

lemma add_exp_xor: "\<not> bit (i::nat) k \<Longrightarrow> i + 2 ^ k = i XOR 2 ^ k"
  by (rule disjunctive_add_eq_xor) (rule bit_eqI, auto simp: bit_and_iff bit_exp_iff)

lemma xor_exp: "(i::nat) XOR 2 ^ k = (if bit i k then i - 2 ^ k else i + 2 ^ k)"
proof (cases "bit i k")
  case True
  have "\<not> bit (i XOR 2 ^ k) k" using True by (simp add: bit_xor_iff bit_exp_iff)
  then have "(i XOR 2 ^ k) + 2 ^ k = (i XOR 2 ^ k) XOR 2 ^ k" by (rule add_exp_xor)
  also have "\<dots> = i" by (rule bit_eqI) (auto simp: bit_xor_iff)
  finally show ?thesis using True by simp
qed (simp add: add_exp_xor)

text \<open>The buddy of an aligned block, and the block the two make together.\<close>

lemma bit_aligned: "2 ^ k dvd (i::nat) \<Longrightarrow> bit i k \<longleftrightarrow> \<not> 2 ^ Suc k dvd i"
proof -
  assume "2 ^ k dvd i"
  then obtain q where "i = 2 ^ k * q" by (rule dvdE)
  then show ?thesis by (simp add: bit_iff_odd)
qed

lemma and_buddy: "(i::nat) AND (i XOR 2 ^ k) = min i (i XOR 2 ^ k)"
proof (cases "bit i k")
  case True
  then have "i XOR 2 ^ k \<le> i" by (simp add: xor_exp)
  moreover have "i AND (i XOR 2 ^ k) = i XOR 2 ^ k"
    using True by (intro bit_eqI) (auto simp: bit_and_iff bit_xor_iff bit_exp_iff)
  ultimately show ?thesis by (simp add: min_def)
next
  case False
  then have "i \<le> i XOR 2 ^ k" by (simp add: xor_exp)
  moreover have "i AND (i XOR 2 ^ k) = i"
    using False by (intro bit_eqI) (auto simp: bit_and_iff bit_xor_iff bit_exp_iff)
  ultimately show ?thesis by (simp add: min_def)
qed

lemma buddy_pair:
  assumes "2 ^ k dvd (i::nat)"
  shows "2 ^ Suc k dvd min i (i XOR 2 ^ k)" and "max i (i XOR 2 ^ k) = min i (i XOR 2 ^ k) + 2 ^ k"
    and "i \<noteq> i XOR 2 ^ k" and "min i (i XOR 2 ^ k) XOR 2 ^ k = max i (i XOR 2 ^ k)"
proof -
  obtain q where q: "i = 2 ^ k * q" using assms by (rule dvdE)
  have b: "bit i k \<longleftrightarrow> odd q" using q by (simp add: bit_iff_odd)
  have le: "bit i k \<Longrightarrow> 2 ^ k \<le> i" using q b by (cases q) auto
  have x: "i XOR 2 ^ k = (if odd q then i - 2 ^ k else i + 2 ^ k)" using xor_exp [of i k] b by simp
  have inv: "(i XOR 2 ^ k) XOR 2 ^ k = i" by (rule bit_eqI) (auto simp: bit_xor_iff)
  have "odd q \<Longrightarrow> i - 2 ^ k < i"
    using le b by (intro diff_less) (auto intro: order_less_le_trans [of 0 "2 ^ k"])
  then show "i \<noteq> i XOR 2 ^ k" using x by (cases "odd q") auto
  show m: "max i (i XOR 2 ^ k) = min i (i XOR 2 ^ k) + 2 ^ k"
    using x le b by (cases "odd q") (auto simp: min_def max_def)
  show "min i (i XOR 2 ^ k) XOR 2 ^ k = max i (i XOR 2 ^ k)"
    using inv by (auto simp: min_def max_def)
  have "2 ^ Suc k dvd (if odd q then i - 2 ^ k else i)"
  proof (cases "odd q")
    case True
    then obtain r where "q = Suc (2 * r)" by (auto elim: oddE)
    with q True show ?thesis by (auto simp: algebra_simps)
  next
    case False
    with q show ?thesis by (auto elim!: evenE)
  qed
  also have "(if odd q then i - 2 ^ k else i) = min i (i XOR 2 ^ k)" using x by (auto simp: min_def)
  finally show "2 ^ Suc k dvd min i (i XOR 2 ^ k)" .
qed

lemma tiled_split:
  assumes t: "tiled bo lo hi" and i: "bo i = Some (Suc k)" "lo \<le> i" "i < hi"
  shows "tiled (bo(i := Some k, i + 2 ^ k := Some k)) lo hi"
proof -
  note cut = tiled_cut [OF t i(2,3,1)]
  let ?bo = "bo(i := Some k, i + 2 ^ k := Some k)"
  have k: "k \<le> 10" "2 ^ k dvd i" using cut by (auto intro: power_le_dvd [of 2 "Suc k"])
  have "tiled ?bo i (i + 2 ^ k)" by (rule tiled_one) (use k cut in auto)
  moreover have "tiled ?bo (i + 2 ^ k) (i + 2 ^ k + 2 ^ k)" by (rule tiled_one) (use k cut in auto)
  ultimately have "tiled ?bo i (i + 2 ^ Suc k)" by (auto dest: tiled_trans simp: mult_2 add.assoc)
  then show ?thesis
    by (rule tiled_replace [where bo = bo, rotated]) (use cut in auto)
qed

lemma tiled_merge:
  assumes t: "tiled bo lo hi" and i: "bo i = Some k" "lo \<le> i" "i < hi"
    and j: "bo (i XOR 2 ^ k) = Some k" "lo \<le> i XOR 2 ^ k" "i XOR 2 ^ k < hi" and k: "k < 10"
  defines "m \<equiv> min i (i XOR 2 ^ k)"
  shows "tiled (bo(m + 2 ^ k := None, m := Some (Suc k))) lo hi"
proof -
  have al: "2 ^ k dvd i" using tiled_cut [OF t i(2,3,1)] by simp
  note pair = buddy_pair [OF al, folded m_def]
  have bm: "bo m = Some k" "bo (m + 2 ^ k) = Some k"
    using i(1) j(1) pair(2) by (auto simp: m_def min_def max_def split: if_splits)
  have rng: "lo \<le> m" "m + 2 ^ k < hi"
    using i(2,3) j(2,3) pair(2) by (auto simp: m_def min_def max_def split: if_splits)
  have c1: "tiled bo lo m \<and> (\<forall>x. m < x \<and> x < m + 2 ^ k \<longrightarrow> bo x = None)"
    using tiled_cut [OF t rng(1) _ bm(1)] rng(2) by simp
  have c2: "tiled bo (m + 2 ^ k + 2 ^ k) hi \<and> (\<forall>x. m + 2 ^ k < x \<and> x < m + 2 ^ k + 2 ^ k \<longrightarrow> bo x = None)"
    using tiled_cut [OF t _ rng(2) bm(2)] rng(1) by simp
  let ?bo = "bo(m + 2 ^ k := None, m := Some (Suc k))"
  have "tiled ?bo m (m + 2 ^ Suc k)"
  proof (rule tiled_one)
    fix x assume x: "m < x" "x < m + 2 ^ Suc k"
    then consider "x < m + 2 ^ k" | "x = m + 2 ^ k" | "m + 2 ^ k < x" by linarith
    then show "?bo x = None" using x c1 c2 by cases auto
  qed (use k pair in auto)
  then show ?thesis
    by (rule tiled_replace [where bo = bo, rotated]) (use c1 c2 in \<open>auto simp: mult_2 add.assoc\<close>)
qed

section \<open>Binary decomposition\<close>

text \<open>The pieces of the loops that walk the bits of a size downwards and upwards.\<close>

fun chunks_down :: "nat \<Rightarrow> nat \<Rightarrow> nat \<Rightarrow> (nat \<times> nat) list" where
  "chunks_down f n 0 = []"
| "chunks_down f n (Suc od) =
    (if bit n od then (f, od) # chunks_down (f + 2 ^ od) (n - 2 ^ od) od else chunks_down f n od)"

fun chunks_up :: "nat \<Rightarrow> nat \<Rightarrow> nat \<Rightarrow> nat \<Rightarrow> (nat \<times> nat) list" where
  "chunks_up f n od 0 = []"
| "chunks_up f n od (Suc t) =
    (if bit n od then (f, od) # chunks_up (f + 2 ^ od) (n - 2 ^ od) (Suc od) t
     else chunks_up f n (Suc od) t)"

fun tiles :: "(nat \<times> nat) list \<Rightarrow> nat \<Rightarrow> nat \<Rightarrow> bool" where
  "tiles [] a b \<longleftrightarrow> a = b"
| "tiles ((i, k) # bs) a b \<longleftrightarrow> i = a \<and> k \<le> 10 \<and> 2 ^ k dvd a \<and> tiles bs (a + 2 ^ k) b"

lemma bit_top: "n < 2 ^ Suc od \<Longrightarrow> bit (n::nat) od \<longleftrightarrow> 2 ^ od \<le> n"
proof -
  assume "n < 2 ^ Suc od"
  then have "n div 2 ^ od < 2" by (simp add: div_less_iff_less_mult)
  moreover have "odd q \<longleftrightarrow> 0 < q" if "q < 2" for q :: nat using that by (cases q) auto
  moreover have "0 < n div 2 ^ od \<longleftrightarrow> 2 ^ od \<le> n"
    by (metis div_greater_zero_iff zero_less_power zero_less_numeral)
  ultimately show ?thesis by (metis bit_iff_odd)
qed

lemma chunks_down_zero [simp]: "chunks_down f 0 c = []"
  by (induction c) auto

lemma chunks_down_more: "n < 2 ^ c \<Longrightarrow> chunks_down f n (c + d) = chunks_down f n c"
proof (induction d)
  case (Suc d)
  have "(2::nat) ^ c \<le> 2 ^ (c + d)" by (simp add: power_increasing)
  with Suc.prems have lt: "n < 2 ^ (c + d)" by (rule order_less_le_trans)
  then have "n < 2 ^ Suc (c + d)" by simp
  with lt have "\<not> bit n (c + d)" using bit_top by simp
  with Suc show ?case by simp
qed simp

lemma tiles_down: "c \<le> 11 \<Longrightarrow> 2 ^ (c - 1) dvd f \<Longrightarrow> n < 2 ^ c \<Longrightarrow> tiles (chunks_down f n c) f (f + n)"
proof (induction f n c rule: chunks_down.induct)
  case (2 f n od)
  have dvd: "2 ^ (od - 1) dvd f" using 2(4) by (rule power_le_dvd) simp
  show ?case
  proof (cases "bit n od")
    case True
    then have le: "2 ^ od \<le> n" using 2(5) bit_top by blast
    have "2 ^ (od - 1) dvd f + 2 ^ od" using dvd by (simp add: le_imp_power_dvd)
    then have "tiles (chunks_down (f + 2 ^ od) (n - 2 ^ od) od) (f + 2 ^ od) (f + 2 ^ od + (n - 2 ^ od))"
      using 2(1) [OF True] 2(3,5) le by simp
    with True 2(3,4) le show ?thesis by simp
  next
    case False
    then have "n < 2 ^ od" using 2(5) bit_top not_le by blast
    with False 2 dvd show ?thesis by simp
  qed
qed simp

lemma tiles_up:
  "od + t \<le> 11 \<Longrightarrow> 2 ^ od dvd n \<Longrightarrow> n < 2 ^ (od + t) \<Longrightarrow> 2 ^ (od + t - 1) dvd f + n \<Longrightarrow>
   tiles (chunks_up f n od t) f (f + n)"
proof (induction f n od t rule: chunks_up.induct)
  case (1 f n od)
  then show ?case by (auto dest: nat_dvd_not_less)
next
  case (2 f n od t)
  obtain q where q: "n = 2 ^ od * q" using 2(4) by (rule dvdE)
  have bit: "bit n od \<longleftrightarrow> odd q" using q by (simp add: bit_iff_odd)
  show ?case
  proof (cases "odd q")
    case True
    then obtain r where r: "q = Suc (2 * r)" by (auto elim: oddE)
    have n: "n - 2 ^ od = 2 ^ Suc od * r" "2 ^ od \<le> n" using q r by auto
    have "tiles (chunks_up (f + 2 ^ od) (n - 2 ^ od) (Suc od) t) (f + 2 ^ od) (f + 2 ^ od + (n - 2 ^ od))"
    proof (rule 2(1))
      show "bit n od" using bit True by simp
      show "2 ^ Suc od dvd n - 2 ^ od" unfolding n(1) by simp
      show "2 ^ (Suc od + t - 1) dvd f + 2 ^ od + (n - 2 ^ od)" using 2(6) n(2) by simp
    qed (use 2(3,5) in simp_all)
    moreover have "2 ^ od dvd f + n" using 2(6) by (rule power_le_dvd) simp
    then have "2 ^ od dvd f" using 2(4) by (simp add: dvd_add_left_iff)
    ultimately show ?thesis using True bit n(2) 2(3) by simp
  next
    case False
    then have "2 ^ Suc od dvd n" using q by auto
    with 2 False bit show ?thesis by simp
  qed
qed

text \<open>A block map that has the pieces as its blocks is tiled.\<close>

lemma tiles_le: "tiles bs a b \<Longrightarrow> a \<le> b"
  by (induction bs a b rule: tiles.induct) auto

lemma tiles_append: "tiles (bs @ cs) a c \<longleftrightarrow> (\<exists>b. tiles bs a b \<and> tiles cs b c)"
  by (induction bs arbitrary: a) auto

lemma tiles_range: "tiles bs a b \<Longrightarrow> (i, k) \<in> set bs \<Longrightarrow> a \<le> i \<and> i + 2 ^ k \<le> b \<and> k \<le> 10 \<and> 2 ^ k dvd i"
proof (induction bs a b rule: tiles.induct)
  case (2 j l bs a b)
  then have "a + 2 ^ l \<le> b" using tiles_le by auto
  with 2 show ?case by (cases "(i, k) = (j, l)") auto
qed simp

lemma tiles_distinct: "tiles bs a b \<Longrightarrow> distinct (map fst bs)"
proof (induction bs a b rule: tiles.induct)
  case (2 i k bs a b)
  have "i \<notin> fst ` set bs"
  proof
    assume "i \<in> fst ` set bs"
    then obtain l where "(i, l) \<in> set bs" by auto
    then have "a + 2 ^ k \<le> i" using 2(2) tiles_range by fastforce
    with 2(2) show False by simp
  qed
  with 2 show ?case by simp
qed simp

lemma tiles_tiled:
  assumes "tiles bs a b" and "\<And>i k. (i, k) \<in> set bs \<Longrightarrow> bo i = Some k"
    and "\<And>x. a \<le> x \<Longrightarrow> x < b \<Longrightarrow> x \<notin> fst ` set bs \<Longrightarrow> bo x = None"
  shows "tiled bo a b"
  using assms
proof (induction bs a b rule: tiles.induct)
  case (2 i k bs a b)
  then have t: "tiles bs (a + 2 ^ k) b" and i: "i = a" "k \<le> 10" "2 ^ k dvd a" by auto
  note le = tiles_le [OF t]
  show ?case
  proof (rule tiled_block)
    show "bo a = Some k" using 2(3) i(1) by simp
    have out: "x < a + 2 ^ k \<Longrightarrow> x \<notin> fst ` set bs" for x using tiles_range [OF t] by fastforce
    show "\<forall>j. a < j \<and> j < a + 2 ^ k \<longrightarrow> bo j = None"
      using 2(4) out i(1) le by (auto simp: image_iff)
    show "tiled bo (a + 2 ^ k) b"
    proof (rule 2(1) [OF t])
      fix x assume "a + 2 ^ k \<le> x" "x < b" "x \<notin> fst ` set bs"
      moreover have "x \<noteq> a" using \<open>a + 2 ^ k \<le> x\<close> by (metis add_le_same_cancel1 not_le zero_less_numeral zero_less_power)
      ultimately show "bo x = None" using 2(4) [of x] i(1) by (auto dest: add_leD1)
    qed (use 2(3) in auto)
  qed (use i in auto)
qed (auto intro: tiled_done)

text \<open>The frames of the pieces are the interval.\<close>

definition piece_frames :: "(nat \<times> nat) list \<Rightarrow> nat set" where
  "piece_frames bs = (\<Union>(i, k)\<in>set bs. {i..<i + 2 ^ k})"

lemma tiles_frames: "tiles bs a b \<Longrightarrow> piece_frames bs = {a..<b}"
proof (induction bs a b rule: tiles.induct)
  case (2 i k bs a b)
  then have "piece_frames bs = {a + 2 ^ k..<b}" "a + 2 ^ k \<le> b" "i = a" using tiles_le by auto
  then show ?case by (auto simp: piece_frames_def)
qed (simp add: piece_frames_def)

end
