(* ===== verification/BuddyInv.thy ===== *)
theory BuddyInv
  imports Buddy BuddyBlocks
begin

text \<open>
  How a state of the buddy allocator represents a block map and its free lists, and what the
  primitive steps of the code do to the representation.

  \<open>rep X lo hi s blk fl\<close>: in state \<open>s\<close> the frames from \<open>lo\<close> to \<open>hi\<close> are managed and tiled by
  the blocks of \<open>blk\<close>; the flags of each frame agree with \<open>blk\<close>, and the list of order \<open>k\<close> is a
  well-formed circular list of exactly the free blocks of that order, in the order \<open>fl k\<close>. The
  frames in \<open>X\<close> are those an operation is working on: nothing is said of their order and free
  flag, and they are on no list.
\<close>

section \<open>Flags as bits\<close>

lemma valid_bit: "buddy_is_valid f \<longleftrightarrow> bit (flag f) 4"
proof -
  have "(0x10::u16) = 2 ^ 4" by simp
  then show ?thesis unfolding buddy_is_valid_def BUDDY_VALID_def by (simp only: and_exp_eq_0_iff_not_bit) simp
qed

lemma free_bit: "buddy_is_free f \<longleftrightarrow> bit (flag f) 5"
proof -
  have "(0x20::u16) = 2 ^ 5" by simp
  then show ?thesis unfolding buddy_is_free_def BUDDY_FREE_def by (simp only: and_exp_eq_0_iff_not_bit) simp
qed

lemma mask4: "(0xF::u16) = mask 4" "(0xF::u32) = mask 4"
  by (simp_all add: mask_numeral)

lemma bit_exp_word: "bit (2 ^ k :: 'a::len word) n \<longleftrightarrow> k < LENGTH('a) \<and> n = k"
  by (auto simp: bit_exp_iff)

lemma bits_flags: "bit BUDDY_VALID n \<longleftrightarrow> n = 4" "bit BUDDY_FREE n \<longleftrightarrow> n = 5"
proof -
  have e: "BUDDY_VALID = 2 ^ 4" "BUDDY_FREE = 2 ^ 5" by (simp_all add: BUDDY_VALID_def BUDDY_FREE_def)
  show "bit BUDDY_VALID n \<longleftrightarrow> n = 4" "bit BUDDY_FREE n \<longleftrightarrow> n = 5"
    unfolding e bit_exp_word by simp_all
qed

lemma flag_valid [simp]:
  "buddy_is_valid (buddy_set_order od f) = buddy_is_valid f"
  "buddy_is_valid (set_flag BUDDY_FREE f) = buddy_is_valid f"
  "buddy_is_valid (clear_flag BUDDY_FREE f) = buddy_is_valid f"
  "buddy_is_valid (set_flag BUDDY_VALID f)"
  by (simp_all add: valid_bit buddy_set_order_def set_flag_def clear_flag_def bits_flags mask4
      bit_or_iff bit_and_iff bit_not_iff bit_mask_iff bit_ucast_iff)

lemma flag_free [simp]:
  "buddy_is_free (buddy_set_order od f) = buddy_is_free f"
  "buddy_is_free (set_flag BUDDY_FREE f)"
  "\<not> buddy_is_free (clear_flag BUDDY_FREE f)"
  "buddy_is_free (set_flag BUDDY_VALID f) = buddy_is_free f"
  by (simp_all add: free_bit buddy_set_order_def set_flag_def clear_flag_def bits_flags mask4
      bit_or_iff bit_and_iff bit_not_iff bit_mask_iff bit_ucast_iff)

lemma flag_order [simp]:
  "buddy_order (set_flag BUDDY_FREE f) = buddy_order f"
  "buddy_order (clear_flag BUDDY_FREE f) = buddy_order f"
  "buddy_order (buddy_set_order od f) = od AND 0xF"
  by (rule bit_word_eqI, auto simp: buddy_order_def buddy_set_order_def set_flag_def clear_flag_def bits_flags mask4
      bit_or_iff bit_and_iff bit_not_iff bit_mask_iff bit_ucast_iff)+

lemma flag_lock [simp]:
  "fr_lock (buddy_set_order od f) = fr_lock f"
  "fr_lock (set_flag b f) = fr_lock f"
  "fr_lock (clear_flag b f) = fr_lock f"
  by (simp_all add: buddy_set_order_def set_flag_def clear_flag_def)

lemma flag_lock_upd [simp]:
  "buddy_is_valid (f\<lparr>fr_lock := l\<rparr>) = buddy_is_valid f"
  "buddy_is_free (f\<lparr>fr_lock := l\<rparr>) = buddy_is_free f"
  "buddy_order (f\<lparr>fr_lock := l\<rparr>) = buddy_order f"
  "(buddy_set_order od f)\<lparr>fr_lock := l\<rparr> = buddy_set_order od (f\<lparr>fr_lock := l\<rparr>)"
  "(set_flag b f)\<lparr>fr_lock := l\<rparr> = set_flag b (f\<lparr>fr_lock := l\<rparr>)"
  "(clear_flag b f)\<lparr>fr_lock := l\<rparr> = clear_flag b (f\<lparr>fr_lock := l\<rparr>)"
  by (simp_all add: flag_defs)

lemma order_mask: "k < 16 \<Longrightarrow> (of_nat k :: u32) AND 0xF = of_nat k"
  unfolding mask4 word_unat_eq_iff
  by (simp add: take_bit_eq_mask [symmetric] unsigned_take_bit_eq unat_small take_bit_nat_eq_self)

section \<open>Frame numbers\<close>

abbreviation fno :: "nat \<Rightarrow> u32" where
  "fno i \<equiv> of_nat i"

lemma unat_fno: "i < 8192 \<Longrightarrow> unat (fno i) = i"
  by (simp add: unat_small)

lemma fno_inj: "i < 8192 \<Longrightarrow> j < 8192 \<Longrightarrow> fno i = fno j \<longleftrightarrow> i = j"
  by (metis unat_fno)

lemma fno_ok: "i < 8192 \<Longrightarrow> fno i < MAX_FRAME_NUM"
  by (simp add: max_frame_num unat_fno)

lemma ord_ok: "k \<le> 10 \<Longrightarrow> (of_nat k :: u32) \<le> MAX_ORDER"
  by (simp add: MAX_ORDER_def word_le_nat_alt unat_small)

lemma fno_unat: "fno (unat w) = w"
  by simp

definition chain_of :: "nat \<Rightarrow> chain_addr" where
  "chain_of i = FrChain (fno i)"

lemma chain_of_inj: "i < 8192 \<Longrightarrow> j < 8192 \<Longrightarrow> chain_of i = chain_of j \<longleftrightarrow> i = j"
  by (simp add: chain_of_def fno_inj)

section \<open>Normal forms of the state updates\<close>

definition frame_at :: "nat \<Rightarrow> mm_state \<Rightarrow> frame_t" where
  "frame_at i s = frame_tab s (fno i)"

definition put_frame :: "nat \<Rightarrow> frame_t \<Rightarrow> mm_state \<Rightarrow> mm_state" where
  "put_frame i f s = s\<lparr>frame_tab := (frame_tab s)(fno i := f)\<rparr>"

definition linked :: "nat \<Rightarrow> nat \<Rightarrow> mm_state \<Rightarrow> mm_state" where
  "linked i k s = s\<lparr>chains := list_add_tail (chain_of i) (DirHead (of_nat k)) (chains s),
     buddy_dir := (buddy_dir s)(of_nat k := (buddy_dir s (of_nat k))
       \<lparr>bd_list_len := bd_list_len (buddy_dir s (of_nat k)) + 1\<rparr>)\<rparr>"

definition unlinked :: "nat \<Rightarrow> nat \<Rightarrow> mm_state \<Rightarrow> mm_state" where
  "unlinked i k s = s\<lparr>chains := list_del (chain_of i) (chains s),
     buddy_dir := (buddy_dir s)(of_nat k := (buddy_dir s (of_nat k))
       \<lparr>bd_list_len := bd_list_len (buddy_dir s (of_nat k)) - 1\<rparr>)\<rparr>"

definition set_dir_lock :: "u8 \<Rightarrow> mm_state \<Rightarrow> mm_state" where
  "set_dir_lock l s = s\<lparr>buddy_dir_lock := l\<rparr>"

lemma put_frame_simps [simp]:
  "chains (put_frame i f s) = chains s" "buddy_dir (put_frame i f s) = buddy_dir s"
  "buddy_dir_lock (put_frame i f s) = buddy_dir_lock s"
  "buddy_start_addr (put_frame i f s) = buddy_start_addr s"
  "buddy_end_addr (put_frame i f s) = buddy_end_addr s"
  "put_frame i f (put_frame i g s) = put_frame i f s"
  "put_frame i (frame_at i s) s = s"
  by (simp_all add: put_frame_def frame_at_def)

lemma linked_simps [simp]:
  "frame_at j (linked i k s) = frame_at j s"
  "buddy_dir_lock (linked i k s) = buddy_dir_lock s"
  "buddy_start_addr (linked i k s) = buddy_start_addr s"
  "buddy_end_addr (linked i k s) = buddy_end_addr s"
  "linked i k (put_frame j f s) = put_frame j f (linked i k s)"
  by (simp_all add: linked_def put_frame_def frame_at_def)

lemma unlinked_simps [simp]:
  "frame_at j (unlinked i k s) = frame_at j s"
  "buddy_dir_lock (unlinked i k s) = buddy_dir_lock s"
  "buddy_start_addr (unlinked i k s) = buddy_start_addr s"
  "buddy_end_addr (unlinked i k s) = buddy_end_addr s"
  "unlinked i k (put_frame j f s) = put_frame j f (unlinked i k s)"
  by (simp_all add: unlinked_def put_frame_def frame_at_def)

lemma set_dir_lock_simps [simp]:
  "frame_at j (set_dir_lock l s) = frame_at j s"
  "chains (set_dir_lock l s) = chains s" "buddy_dir (set_dir_lock l s) = buddy_dir s"
  "buddy_dir_lock (set_dir_lock l s) = l"
  "buddy_start_addr (set_dir_lock l s) = buddy_start_addr s"
  "buddy_end_addr (set_dir_lock l s) = buddy_end_addr s"
  "set_dir_lock l (set_dir_lock l' s) = set_dir_lock l s"
  by (simp_all add: set_dir_lock_def frame_at_def)

lemma set_dir_lock_id: "buddy_dir_lock s = l \<Longrightarrow> set_dir_lock l s = s"
  by (auto simp: set_dir_lock_def)

lemma frame_at_put: "i < 8192 \<Longrightarrow> j < 8192 \<Longrightarrow> frame_at j (put_frame i f s) = (if j = i then f else frame_at j s)"
  by (simp add: frame_at_def put_frame_def fno_inj)

lemma frame_at_put_same [simp]: "frame_at i (put_frame i f s) = f"
  by (simp add: frame_at_def put_frame_def)

lemma op_norm:
  "i < 8192 \<Longrightarrow> get_frame (fno i) s = Some (frame_at i s)"
  "i < 8192 \<Longrightarrow> upd_frame (fno i) g s = Some (put_frame i (g (frame_at i s)) s)"
  "i < 8192 \<Longrightarrow> fr_lock (frame_at i s) = 0 \<Longrightarrow>
    lock_frame (fno i) s = Some (put_frame i ((frame_at i s)\<lparr>fr_lock := 1\<rparr>) s)"
  "i < 8192 \<Longrightarrow> unlock_frame (fno i) s = Some (put_frame i ((frame_at i s)\<lparr>fr_lock := 0\<rparr>) s)"
  "i < 8192 \<Longrightarrow> k \<le> 10 \<Longrightarrow> buddy_link (fno i) (of_nat k) s = Some (linked i k s)"
  "i < 8192 \<Longrightarrow> k \<le> 10 \<Longrightarrow> buddy_unlink (fno i) (of_nat k) s = Some (unlinked i k s)"
  "buddy_dir_lock s = 0 \<Longrightarrow> lock_dir s = Some (set_dir_lock 1 s)"
  "unlock_dir s = set_dir_lock 0 s"
  by (simp_all add: frame_access_defs fno_ok frame_at_def put_frame_def buddy_link_def buddy_unlink_def
      ord_ok linked_def unlinked_def chain_of_def lock_dir_def unlock_dir_def set_dir_lock_def)

lemma relock [simp]: "fr_lock f = 0 \<Longrightarrow> f\<lparr>fr_lock := 0\<rparr> = f"
  by (cases f) simp

section \<open>The representation\<close>

definition flags_ok :: "frame_t \<Rightarrow> (nat \<times> bool) option \<Rightarrow> bool" where
  "flags_ok f b \<longleftrightarrow>
    (case b of Some (k, c) \<Rightarrow> buddy_order f = of_nat k \<and> buddy_is_free f = c
     | None \<Rightarrow> buddy_order f = 15)"

definition frame_ok :: "nat set \<Rightarrow> nat \<Rightarrow> nat \<Rightarrow> mm_state \<Rightarrow> block_map \<Rightarrow> nat \<Rightarrow> bool" where
  "frame_ok X lo hi s blk i \<longleftrightarrow>
    fr_lock (frame_at i s) = 0 \<and> buddy_is_valid (frame_at i s) = (lo \<le> i \<and> i < hi) \<and>
    (i \<notin> X \<longrightarrow> lo \<le> i \<longrightarrow> i < hi \<longrightarrow> flags_ok (frame_at i s) (blk i))"

definition list_ok :: "nat set \<Rightarrow> mm_state \<Rightarrow> block_map \<Rightarrow> nat \<Rightarrow> nat list \<Rightarrow> bool" where
  "list_ok X s blk k l \<longleftrightarrow>
    distinct l \<and> set l = {i. i \<notin> X \<and> blk i = Some (k, True)} \<and>
    dlist (chains s) (DirHead (of_nat k)) (map chain_of l) \<and>
    bd_list_len (buddy_dir s (of_nat k)) = of_nat (length l)"

definition rep :: "nat set \<Rightarrow> nat \<Rightarrow> nat \<Rightarrow> mm_state \<Rightarrow> block_map \<Rightarrow> (nat \<Rightarrow> nat list) \<Rightarrow> bool" where
  "rep X lo hi s blk fl \<longleftrightarrow>
    hi \<le> 8192 \<and> tiled (orders blk) lo hi \<and> (\<forall>i. blk i \<noteq> None \<longrightarrow> lo \<le> i \<and> i < hi) \<and>
    (\<forall>i<8192. frame_ok X lo hi s blk i) \<and> (\<forall>k\<le>10. list_ok X s blk k (fl k))"

lemma repD:
  assumes "rep X lo hi s blk fl"
  shows "hi \<le> 8192" and "tiled (orders blk) lo hi"
    and "blk i = Some b \<Longrightarrow> lo \<le> i \<and> i < hi \<and> i < 8192"
    and "i < 8192 \<Longrightarrow> fr_lock (frame_at i s) = 0"
    and "i < 8192 \<Longrightarrow> buddy_is_valid (frame_at i s) \<longleftrightarrow> lo \<le> i \<and> i < hi"
    and "i < 8192 \<Longrightarrow> i \<notin> X \<Longrightarrow> lo \<le> i \<Longrightarrow> i < hi \<Longrightarrow> flags_ok (frame_at i s) (blk i)"
    and "k \<le> 10 \<Longrightarrow> list_ok X s blk k (fl k)"
proof -
  show "blk i = Some b \<Longrightarrow> lo \<le> i \<and> i < hi \<and> i < 8192"
    using assms unfolding rep_def by (metis option.distinct(1) order_less_le_trans)
qed (use assms in \<open>unfold rep_def frame_ok_def; blast\<close>)+

lemma rep_block:
  assumes r: "rep X lo hi s blk fl" and b: "blk i = Some (k, c)"
  shows "lo \<le> i" and "i < hi" and "i < 8192" and "k \<le> 10" and "2 ^ k dvd i" and "i + 2 ^ k \<le> hi"
    and "\<And>j. i < j \<Longrightarrow> j < i + 2 ^ k \<Longrightarrow> blk j = None"
proof -
  show i: "lo \<le> i" "i < hi" "i < 8192" using repD(3) [OF r b] by auto
  note cut = tiled_cut [OF repD(2) [OF r] i(1,2), of k]
  show "k \<le> 10" "2 ^ k dvd i" "\<And>j. i < j \<Longrightarrow> j < i + 2 ^ k \<Longrightarrow> blk j = None"
    using cut b by auto
  show "i + 2 ^ k \<le> hi" using tiled_end [OF repD(2) [OF r] i(1,2)] b by simp
qed

lemma list_okD:
  assumes "list_ok X s blk k l"
  shows "distinct l" and "i \<in> set l \<longleftrightarrow> i \<notin> X \<and> blk i = Some (k, True)"
    and "dlist (chains s) (DirHead (of_nat k)) (map chain_of l)"
    and "bd_list_len (buddy_dir s (of_nat k)) = of_nat (length l)"
  using assms by (auto simp: list_ok_def)

text \<open>Steps on the frames an operation works on.\<close>

lemma rep_put:
  assumes "rep X lo hi s blk fl" and "i \<in> X" and "i < 8192"
    and "fr_lock f = 0" and "buddy_is_valid f = buddy_is_valid (frame_at i s)"
  shows "rep X lo hi (put_frame i f s) blk fl"
  using assms by (auto simp: rep_def frame_ok_def list_ok_def frame_at_put)

lemma rep_dir_lock: "rep X lo hi (set_dir_lock l s) blk fl = rep X lo hi s blk fl"
  by (simp add: rep_def frame_ok_def list_ok_def)

lemma rep_blk:
  assumes "rep X lo hi s blk fl" and "\<And>i. i \<notin> X \<Longrightarrow> blk' i = blk i"
    and "tiled (orders blk') lo hi" and "\<And>i. blk' i \<noteq> None \<Longrightarrow> lo \<le> i \<and> i < hi"
  shows "rep X lo hi s blk' fl"
  using assms by (auto simp: rep_def frame_ok_def list_ok_def)

lemma rep_enter:
  assumes "rep X lo hi s blk fl" and "\<And>i. i \<in> Y \<Longrightarrow> i \<in> X \<or> blk i = None \<or> (\<exists>k. blk i = Some (k, False))"
  shows "rep (X \<union> Y) lo hi s blk fl"
proof -
  have "list_ok X s blk k l \<Longrightarrow> list_ok (X \<union> Y) s blk k l" for k l
    using assms(2) unfolding list_ok_def by fastforce
  then show ?thesis using assms(1) by (auto simp: rep_def frame_ok_def)
qed

lemma rep_leave:
  assumes "rep X lo hi s blk fl" and "i < 8192" and "blk i = None \<or> blk i = Some (k, False)"
    and "flags_ok (frame_at i s) (blk i)"
  shows "rep (X - {i}) lo hi s blk fl"
proof -
  have "list_ok X s blk k l \<Longrightarrow> list_ok (X - {i}) s blk k l" for k l
    using assms(3) unfolding list_ok_def by fastforce
  then show ?thesis using assms(1,2,4) by (auto simp: rep_def frame_ok_def)
qed

text \<open>Steps on the lists.\<close>

lemma list_okI:
  assumes "distinct l" and "\<And>i. i \<in> set l \<longleftrightarrow> i \<notin> X \<and> blk i = Some (k, True)"
    and "dlist (chains s) (DirHead (of_nat k)) (map chain_of l)"
    and "bd_list_len (buddy_dir s (of_nat k)) = of_nat (length l)"
  shows "list_ok X s blk k l"
  using assms unfolding list_ok_def by blast

lemma dir_head_inj: "k \<le> 10 \<Longrightarrow> k' \<le> 10 \<Longrightarrow> DirHead (of_nat k) = DirHead (of_nat k') \<longleftrightarrow> k = k'"
  using fno_inj [of k k'] by simp

lemma list_chain_mem:
  assumes "rep X lo hi s blk fl" and "k \<le> 10" and "i < 8192"
  shows "chain_of i \<in> set (map chain_of (fl k)) \<longleftrightarrow> i \<notin> X \<and> blk i = Some (k, True)"
  using list_okD(2) [OF repD(7) [OF assms(1,2)]] repD(3) [OF assms(1)] assms(3)
  by (auto simp: chain_of_inj)

lemma lists_disjoint:
  assumes "rep X lo hi s blk fl" and "k \<le> 10" and "k' \<le> 10" and "k \<noteq> k'"
  shows "set (DirHead (of_nat k) # map chain_of (fl k)) \<inter> set (DirHead (of_nat k') # map chain_of (fl k')) = {}"
proof -
  have "chain_of i \<notin> set (map chain_of (fl k'))" if "i \<in> set (fl k)" for i
  proof -
    have i: "blk i = Some (k, True)" using list_okD(2) [OF repD(7) [OF assms(1,2)]] that by simp
    then have "i < 8192" using repD(3) [OF assms(1)] by blast
    with i assms list_chain_mem [of X lo hi s blk fl k' i] show ?thesis by simp
  qed
  then show ?thesis using assms(2,3,4) dir_head_inj [of k k'] by (auto simp: chain_of_def)
qed

lemma rep_linked:
  assumes r: "rep X lo hi s blk fl" and i: "i \<in> X" "blk i = Some (k, True)"
    and f: "flags_ok (frame_at i s) (blk i)"
  shows "rep (X - {i}) lo hi (linked i k s) blk (fl(k := fl k @ [i]))"
proof -
  note b = rep_block [OF r i(2)]
  have lk: "list_ok X s blk k (fl k)" by (rule repD(7) [OF r b(4)])
  have mem: "chain_of i \<notin> set (map chain_of (fl k'))" if "k' \<le> 10" for k'
    using list_chain_mem [OF r that b(3)] i(1) by simp
  have "list_ok (X - {i}) (linked i k s) blk k' ((fl(k := fl k @ [i])) k')" if k': "k' \<le> 10" for k'
  proof (cases "k' = k")
    case True
    have "dlist (chains (linked i k s)) (DirHead (of_nat k)) (map chain_of (fl k) @ [chain_of i])"
      unfolding linked_def using mem [OF b(4)]
      by (simp, intro dlist_add_tail list_okD(3) [OF lk]) (auto simp: chain_of_def)
    moreover have "i \<notin> set (fl k)" using list_okD(2) [OF lk] i(1) by simp
    moreover have "j \<in> set (fl k @ [i]) \<longleftrightarrow> j \<notin> X - {i} \<and> blk j = Some (k, True)" for j
      using list_okD(2) [OF lk] i by auto
    moreover have "bd_list_len (buddy_dir (linked i k s) (of_nat k)) = of_nat (length (fl k @ [i]))"
      using list_okD(4) [OF lk] by (simp add: linked_def)
    ultimately show ?thesis
      using True list_okD(1) [OF lk] by (intro list_okI) simp_all
  next
    case False
    have "dlist (list_add_tail (chain_of i) (DirHead (of_nat k)) (chains s)) (DirHead (of_nat k')) (map chain_of (fl k'))"
    proof (rule dlist_add_tail_other)
      show "set (chain_of i # DirHead (of_nat k) # map chain_of (fl k)) \<inter>
          set (DirHead (of_nat k') # map chain_of (fl k')) = {}"
        using lists_disjoint [OF r b(4) k'] False mem [OF k'] by (auto simp: chain_of_def)
    qed (use list_okD(3) lk repD(7) [OF r k'] in blast)+
    then have d: "dlist (chains (linked i k s)) (DirHead (of_nat k')) (map chain_of (fl k'))"
      by (simp add: linked_def)
    have ne: "(of_nat k' :: u32) \<noteq> of_nat k" using False dir_head_inj [OF k' b(4)] by simp
    note lk' = list_okD [OF repD(7) [OF r k']]
    have "list_ok (X - {i}) (linked i k s) blk k' (fl k')"
    proof (rule list_okI [OF lk'(1) _ d])
      show "j \<in> set (fl k') \<longleftrightarrow> j \<notin> X - {i} \<and> blk j = Some (k', True)" for j
        using lk'(2) [of j] i False by auto
    qed (use ne lk'(4) in \<open>simp add: linked_def\<close>)
    with False show ?thesis by simp
  qed
  then show ?thesis using r f by (auto simp: rep_def frame_ok_def)
qed

lemma map_chain_remove1:
  "(\<And>j. j \<in> set l \<Longrightarrow> j < 8192) \<Longrightarrow> i < 8192 \<Longrightarrow>
    map chain_of (remove1 i l) = remove1 (chain_of i) (map chain_of l)"
  by (induction l) (auto simp: chain_of_inj)

lemma of_nat_pred: "n \<noteq> 0 \<Longrightarrow> (of_nat n :: 'a::len word) - 1 = of_nat (n - 1)"
  by (cases n) auto

lemma rep_unlinked:
  assumes r: "rep X lo hi s blk fl" and i: "i \<notin> X" "blk i = Some (k, True)"
  shows "rep (insert i X) lo hi (unlinked i k s) blk (fl(k := remove1 i (fl k)))"
proof -
  note b = rep_block [OF r i(2)]
  have lk: "list_ok X s blk k (fl k)" by (rule repD(7) [OF r b(4)])
  have i_in: "i \<in> set (fl k)" using list_okD(2) [OF lk] i by simp
  have small: "j \<in> set (fl k) \<Longrightarrow> j < 8192" for j
    using list_okD(2) [OF lk] repD(3) [OF r] by blast
  have rem: "map chain_of (remove1 i (fl k)) = remove1 (chain_of i) (map chain_of (fl k))"
    by (rule map_chain_remove1) (auto intro: small b(3))
  have "list_ok (insert i X) (unlinked i k s) blk k' ((fl(k := remove1 i (fl k))) k')"
    if k': "k' \<le> 10" for k'
  proof (cases "k' = k")
    case True
    have "dlist (list_del (chain_of i) (chains s)) (DirHead (of_nat k)) (map chain_of (remove1 i (fl k)))"
      unfolding rem using i_in by (intro dlist_del_remove1 list_okD(3) [OF lk]) auto
    moreover have "j \<in> set (remove1 i (fl k)) \<longleftrightarrow> j \<notin> insert i X \<and> blk j = Some (k, True)" for j
      using list_okD(1,2) [OF lk] by (auto simp: set_remove1_eq)
    moreover have "length (fl k) \<noteq> 0" using i_in by auto
    then have "bd_list_len (buddy_dir (unlinked i k s) (of_nat k)) = of_nat (length (remove1 i (fl k)))"
      using list_okD(4) [OF lk] i_in by (simp add: unlinked_def of_nat_pred length_remove1)
    ultimately show ?thesis
      using True list_okD(1) [OF lk] by (intro list_okI) (simp_all add: unlinked_def distinct_remove1)
  next
    case False
    have "dlist (list_del (chain_of i) (chains s)) (DirHead (of_nat k')) (map chain_of (fl k'))"
    proof (rule dlist_del_other [OF list_okD(3) [OF lk]])
      show "chain_of i \<in> set (map chain_of (fl k))" using i_in by simp
      show "set (DirHead (of_nat k) # map chain_of (fl k)) \<inter>
          set (DirHead (of_nat k') # map chain_of (fl k')) = {}"
        by (rule lists_disjoint [OF r b(4) k']) (use False in simp)
    qed (rule list_okD(3) [OF repD(7) [OF r k']])
    then have d: "dlist (chains (unlinked i k s)) (DirHead (of_nat k')) (map chain_of (fl k'))"
      by (simp add: unlinked_def)
    have ne: "(of_nat k' :: u32) \<noteq> of_nat k" using False dir_head_inj [OF k' b(4)] by simp
    note lk' = list_okD [OF repD(7) [OF r k']]
    have "list_ok (insert i X) (unlinked i k s) blk k' (fl k')"
    proof (rule list_okI [OF lk'(1) _ d])
      show "j \<in> set (fl k') \<longleftrightarrow> j \<notin> insert i X \<and> blk j = Some (k', True)" for j
        using lk'(2) [of j] i False by auto
    qed (use ne lk'(4) in \<open>simp add: unlinked_def\<close>)
    with False show ?thesis by simp
  qed
  then show ?thesis using r by (auto simp: rep_def frame_ok_def)
qed

end
