(* ===== verification/BuddyAlloc.thy ===== *)
theory BuddyAlloc
  imports BuddyInv
begin

text \<open>
  What the allocation side of the buddy system does to the block map: the search of a list,
  the splitting of the block found, and the cut of a block into the pieces that are handed out
  and the pieces that go back to the lists.
\<close>

section \<open>Words as numbers in the loops\<close>

lemma of_nat_less_word: "m < 4294967296 \<Longrightarrow> n < 4294967296 \<Longrightarrow> (of_nat m :: u32) < of_nat n \<longleftrightarrow> m < n"
  by (simp add: word_less_nat_alt unat_small)

lemma of_nat_le_word: "m < 4294967296 \<Longrightarrow> n < 4294967296 \<Longrightarrow> (of_nat m :: u32) \<le> of_nat n \<longleftrightarrow> m \<le> n"
  by (simp add: word_le_nat_alt unat_small)

lemma word_bit_test:
  assumes "od < 32"
  shows "(of_nat n AND 2 ^ od :: u32) \<noteq> 0 \<longleftrightarrow> bit n od"
  using assms by (simp add: and_exp_eq_0_iff_not_bit bit_of_nat_iff)

lemma sint_small: "n < 2147483648 \<Longrightarrow> sint (of_nat n :: u32) = int n"
  by (simp add: signed_of_nat signed_take_bit_int_eq_self)

lemma of_nat_minus_exp: "2 ^ od \<le> n \<Longrightarrow> (of_nat n - 2 ^ od :: u32) = of_nat (n - 2 ^ od)"
  by (simp add: of_nat_diff)

lemma drop_bit_exp: "Suc od < 32 \<Longrightarrow> drop_bit 1 (2 ^ Suc od :: u32) = 2 ^ od"
  by (rule bit_word_eqI) (auto simp: bit_drop_bit_eq bit_exp_word simp del: power_Suc)

lemma push_bit_exp: "push_bit 1 (2 ^ od :: u32) = 2 ^ Suc od"
  by (simp add: push_bit_eq_mult)

lemma push_one: "push_bit n (1::u32) = 2 ^ n"
  by simp

definition same_ctl :: "mm_state \<Rightarrow> mm_state \<Rightarrow> bool" where
  "same_ctl s s' \<longleftrightarrow> buddy_dir_lock s' = buddy_dir_lock s \<and>
    buddy_start_addr s' = buddy_start_addr s \<and> buddy_end_addr s' = buddy_end_addr s"

lemma same_ctl_refl [simp]: "same_ctl s s"
  by (simp add: same_ctl_def)

lemma same_ctl_trans: "same_ctl s t \<Longrightarrow> same_ctl t u \<Longrightarrow> same_ctl s u"
  by (simp add: same_ctl_def)

lemma same_ctl_steps [simp]:
  "same_ctl s (put_frame i f t) = same_ctl s t" "same_ctl s (linked i k t) = same_ctl s t"
  "same_ctl s (unlinked i k t) = same_ctl s t"
  by (simp_all add: same_ctl_def)

lemma covered_cong:
  "(\<And>x k. blk' x = Some (k, b) \<longleftrightarrow> blk x = Some (k, b)) \<Longrightarrow> covered b blk' = covered b blk"
  by (simp add: covered_def)

section \<open>The order of a request\<close>

lemma ceil_order_loop_spec:
  assumes "od \<le> 12" and "\<And>k. k < od \<Longrightarrow> 2 ^ k < N" and "N < 4294967296"
  shows "\<exists>r. ceil_order_loop (of_nat N) (of_nat od) = of_nat r \<and> od \<le> r \<and> r \<le> 12 \<and>
    (r < 12 \<longrightarrow> N \<le> 2 ^ r) \<and> (\<forall>k<r. 2 ^ k < N)"
  using assms
proof (induction "12 - od" arbitrary: od)
  case 0
  then have "od = 12" by simp
  then have "ceil_order_loop (of_nat N) (of_nat od) = of_nat od"
    by (subst ceil_order_loop.simps) (simp add: MAX_ORDER_def)
  with 0 \<open>od = 12\<close> show ?case by (intro exI [of _ od]) simp
next
  case (Suc x)
  then have od: "od \<le> 11" "Suc od \<le> 12" and x: "x = 12 - Suc od" by simp_all
  have le: "(of_nat od :: u32) \<le> MAX_ORDER + 1"
    using od of_nat_le_word [of od 11] by (simp add: MAX_ORDER_def)
  have "(2::nat) ^ od \<le> 2 ^ 11" using od by (intro power_increasing) simp_all
  then have sz: "(2::nat) ^ od < 4294967296" by simp
  have lt: "push_bit (unat (of_nat od :: u32)) (1::u32) < of_nat N \<longleftrightarrow> 2 ^ od < N"
    using of_nat_less_word [OF sz Suc.prems(3)] od by (simp add: unat_small)
  show ?case
  proof (cases "2 ^ od < N")
    case True
    have "ceil_order_loop (of_nat N) (of_nat od) = ceil_order_loop (of_nat N) (of_nat od + 1)"
      by (subst ceil_order_loop.simps) (simp only: True le lt simp_thms if_True)
    then have "ceil_order_loop (of_nat N) (of_nat od) = ceil_order_loop (of_nat N) (of_nat (Suc od))"
      by (simp only: of_nat_Suc add.commute)
    moreover have "\<And>k. k < Suc od \<Longrightarrow> 2 ^ k < N" using Suc.prems(2) True by (metis less_Suc_eq)
    then obtain r where "ceil_order_loop (of_nat N) (of_nat (Suc od)) = of_nat r" "Suc od \<le> r" "r \<le> 12"
      "r < 12 \<longrightarrow> N \<le> 2 ^ r" "\<forall>k<r. 2 ^ k < N"
      using Suc.hyps(1) [of "Suc od"] x od Suc.prems(3) by blast
    ultimately show ?thesis by (metis Suc_leD)
  next
    case False
    then have "ceil_order_loop (of_nat N) (of_nat od) = of_nat od"
      by (subst ceil_order_loop.simps) (simp only: lt simp_thms if_False)
    with False od Suc.prems show ?thesis by (intro exI [of _ od]) auto
  qed
qed

lemma ceil_order_spec:
  "\<exists>r. ceil_order n = of_nat r \<and> r \<le> 12 \<and> (r < 12 \<longrightarrow> unat n \<le> 2 ^ r) \<and> (\<forall>k<r. 2 ^ k < unat n)"
  using ceil_order_loop_spec [of 0 "unat n"] u32_lt [of n] by (auto simp: ceil_order_def)

lemma ceil_order_small:
  assumes "unat n \<le> 1024"
  obtains r where "ceil_order n = of_nat r" and "r \<le> 10" and "unat n \<le> 2 ^ r"
    and "\<And>k. k < r \<Longrightarrow> 2 ^ k < unat n"
proof -
  obtain r where r: "ceil_order n = of_nat r" "r \<le> 12" "r < 12 \<longrightarrow> unat n \<le> 2 ^ r"
    "\<forall>k<r. 2 ^ k < unat n" using ceil_order_spec by blast
  have "10 < r \<Longrightarrow> (2::nat) ^ 10 < unat n" using r(4) by blast
  then have "\<not> 10 < r" using assms by auto
  with r that show thesis by auto
qed

section \<open>Finding a list\<close>

lemma buddy_find_spec:
  assumes r: "rep X lo hi s blk fl" and "od \<le> 12"
  shows "\<exists>k. buddy_find (of_nat od) s = of_nat k \<and> od \<le> k \<and> k \<le> 12 \<and>
    (k \<le> 10 \<longrightarrow> fl k \<noteq> []) \<and> (\<forall>j. od \<le> j \<and> j < k \<and> j \<le> 10 \<longrightarrow> fl j = [])"
  using assms(2)
proof (induction "12 - od" arbitrary: od)
  case 0
  then have "\<not> (of_nat od :: u32) \<le> MAX_ORDER" by (simp add: MAX_ORDER_def)
  then have "buddy_find (of_nat od) s = of_nat od"
    by (subst buddy_find.simps) (simp only: simp_thms if_False)
  with 0 show ?case by (intro exI [of _ od]) auto
next
  case (Suc x)
  then have od: "od \<le> 11" "Suc od \<le> 12" and x: "x = 12 - Suc od" by simp_all
  have le: "(of_nat od :: u32) \<le> MAX_ORDER \<longleftrightarrow> od \<le> 10"
    using od of_nat_le_word [of od 10] by (simp add: MAX_ORDER_def)
  show ?case
  proof (cases "od \<le> 10 \<and> fl od = []")
    case True
    then have "list_is_empty (DirHead (of_nat od)) (chains s)"
      using dlist_empty_iff [OF list_okD(3) [OF repD(7) [OF r]]] by simp
    then have "buddy_find (of_nat od) s = buddy_find (of_nat od + 1) s"
      using True by (subst buddy_find.simps) (simp only: le simp_thms if_True)
    then have "buddy_find (of_nat od) s = buddy_find (of_nat (Suc od)) s"
      by (simp only: of_nat_Suc add.commute)
    moreover obtain k where "buddy_find (of_nat (Suc od)) s = of_nat k" "Suc od \<le> k" "k \<le> 12"
      "k \<le> 10 \<longrightarrow> fl k \<noteq> []" "\<forall>j. Suc od \<le> j \<and> j < k \<and> j \<le> 10 \<longrightarrow> fl j = []"
      using Suc.hyps(1) [OF x od(2)] by blast
    ultimately show ?thesis using True by (metis Suc_leD Suc_leI le_eq_less_or_eq)
  next
    case False
    have "\<not> (od \<le> 10 \<and> list_is_empty (DirHead (of_nat od)) (chains s))"
      using False dlist_empty_iff [OF list_okD(3) [OF repD(7) [OF r]]] by auto
    then have "buddy_find (of_nat od) s = of_nat od"
      by (subst buddy_find.simps) (simp only: le simp_thms if_False)
    with False od show ?thesis by (intro exI [of _ od]) auto
  qed
qed

lemma list_head:
  assumes "rep X lo hi s blk fl" and "k \<le> 10" and "fl k \<noteq> []"
  shows "list_first (DirHead (of_nat k)) (chains s) = FrChain (fno (hd (fl k)))"
    and "blk (hd (fl k)) = Some (k, True)" and "hd (fl k) \<notin> X"
proof -
  note l = list_okD [OF repD(7) [OF assms(1,2)]]
  show "list_first (DirHead (of_nat k)) (chains s) = FrChain (fno (hd (fl k)))"
    using dlist_first [OF l(3)] assms(3) by (simp add: hd_map chain_of_def)
  show "blk (hd (fl k)) = Some (k, True)" "hd (fl k) \<notin> X"
    using l(2) [of "hd (fl k)"] assms(3) by auto
qed

section \<open>Splitting a block\<close>

lemma rep_new_free:
  assumes r: "rep {i} lo hi s blk fl" and i: "blk i = Some (Suc m, False)"
  defines "b \<equiv> i + 2 ^ m" and "s' \<equiv> put_frame (i + 2 ^ m) (buddy_set_order (of_nat m)
      (set_flag BUDDY_FREE (frame_at (i + 2 ^ m) s))) (linked (i + 2 ^ m) m s)"
    and "blk' \<equiv> blk(i := Some (m, False), i + 2 ^ m := Some (m, True))"
  shows "rep {i} lo hi s' blk' (fl(m := fl m @ [b]))"
    and "covered True blk' = covered True blk \<union> {b..<i + 2 ^ Suc m}"
    and "frame_at i s' = frame_at i s" and "same_ctl s s'" and "b < 8192" and "m \<le> 10"
    and "fr_lock (frame_at b s) = 0"
proof -
  note blkD = rep_block [OF r i]
  have ib: "i < b" "b < i + 2 ^ Suc m" "b \<noteq> i" by (auto simp: b_def)
  have bhi: "b < hi" and b: "b < 8192" using ib blkD(6) repD(1) [OF r] by auto
  then show "b < 8192" "m \<le> 10" using blkD(4) by auto
  show lock: "fr_lock (frame_at b s) = 0" using repD(4) [OF r b] .
  have bn: "blk b = None" using blkD(7) ib by blast
  let ?f = "buddy_set_order (of_nat m) (set_flag BUDDY_FREE (frame_at b s))"
  have "rep ({i} \<union> {b}) lo hi s blk fl" by (rule rep_enter [OF r]) (use bn in auto)
  then have "rep ({i} \<union> {b}) lo hi s blk' fl"
  proof (rule rep_blk)
    have "orders blk' = (orders blk)(i := Some m, i + 2 ^ m := Some m)" by (auto simp: blk'_def)
    then show "tiled (orders blk') lo hi"
      using tiled_split [OF repD(2) [OF r], of i m] i blkD(1,2) by simp
    show "lo \<le> j \<and> j < hi" if "blk' j \<noteq> None" for j
    proof (cases "j = i \<or> j = b")
      case True
      then show ?thesis using blkD(1,2) ib bhi by auto
    next
      case False
      then have "blk j \<noteq> None" using that by (simp add: blk'_def b_def split: if_splits)
      then show ?thesis using repD(3) [OF r] by blast
    qed
  qed (simp add: blk'_def b_def)
  then have "rep ({i} \<union> {b}) lo hi (put_frame b ?f s) blk' fl"
    by (rule rep_put) (use b lock in auto)
  then have "rep ({i} \<union> {b} - {b}) lo hi (linked b m (put_frame b ?f s)) blk' (fl(m := fl m @ [b]))"
    using ib blkD(4)
    by (intro rep_linked) (auto simp: blk'_def b_def flags_ok_def order_mask)
  moreover have "{i} \<union> {b} - {b} = {i}" using ib by auto
  ultimately show "rep {i} lo hi s' blk' (fl(m := fl m @ [b]))" by (simp add: s'_def b_def)
  show "frame_at i s' = frame_at i s" "same_ctl s s'"
    using ib b blkD(3) by (simp_all add: s'_def frame_at_put flip: b_def)
  have "covered True blk' = covered True (blk(i := Some (m, False))) \<union> {b..<b + 2 ^ m}"
    by (rule covered_upd [where k = m]) (use bn ib in \<open>auto simp: blk'_def b_def\<close>)
  also have "covered True (blk(i := Some (m, False))) = covered True blk"
    by (rule covered_cong) (use i in auto)
  finally show "covered True blk' = covered True blk \<union> {b..<i + 2 ^ Suc m}"
    by (simp add: b_def mult_2 add.assoc)
qed

lemma buddy_split_spec:
  assumes "rep {i} lo hi s blk fl" and "blk i = Some (order + d, False)"
  shows "\<exists>s' blk' fl'. buddy_split (fno i) (of_nat order) (of_nat (order + d)) s = Some s' \<and>
    rep {i} lo hi s' blk' fl' \<and> blk' i = Some (order, False) \<and> frame_at i s' = frame_at i s \<and>
    same_ctl s s' \<and> (\<forall>j. j < i \<or> i + 2 ^ (order + d) \<le> j \<longrightarrow> blk' j = blk j) \<and>
    covered True blk' = covered True blk \<union> {i + 2 ^ order..<i + 2 ^ (order + d)}"
  using assms
proof (induction d arbitrary: s blk fl)
  case 0
  have "buddy_split (fno i) (of_nat order) (of_nat order) s = Some s"
    by (subst buddy_split.simps) simp
  with 0 show ?case by auto
next
  case (Suc d)
  let ?m = "order + d" let ?b = "i + 2 ^ ?m"
  have i: "blk i = Some (Suc ?m, False)" using Suc.prems(2) by simp
  note step = rep_new_free [OF Suc.prems(1) i]
  note k10 = rep_block(4) [OF Suc.prems(1) i]
  let ?s = "put_frame ?b (buddy_set_order (of_nat ?m) (set_flag BUDDY_FREE (frame_at ?b s))) (linked ?b ?m s)"
  let ?blk = "blk(i := Some (?m, False), ?b := Some (?m, True))"
  have gt: "(of_nat (Suc ?m) :: u32) > of_nat order" and pred: "(of_nat (Suc ?m) :: u32) - 1 = of_nat ?m"
    using of_nat_less_word [of order "Suc ?m"] k10 by simp_all
  have buddy: "fno i + push_bit (unat (of_nat ?m :: u32)) 1 = fno ?b"
  proof -
    have "unat (of_nat ?m :: u32) = ?m" by (rule unat_small) (use k10 in simp)
    then show ?thesis by (simp add: push_bit_eq_mult)
  qed
  have "buddy_split (fno i) (of_nat order) (of_nat (Suc ?m)) s
      = buddy_split (fno i) (of_nat order) (of_nat ?m) ?s"
    using step(5,6,7)
    by (subst buddy_split.simps) (simp only: gt if_True Let_def pred buddy, simp add: op_norm del: of_nat_add of_nat_Suc)
  moreover have blk_i: "?blk i = Some (?m, False)" by simp
  moreover obtain s' blk' fl' where
    "buddy_split (fno i) (of_nat order) (of_nat ?m) ?s = Some s'"
    "rep {i} lo hi s' blk' fl'" "blk' i = Some (order, False)" "frame_at i s' = frame_at i ?s"
    "same_ctl ?s s'" "\<forall>j. j < i \<or> i + 2 ^ ?m \<le> j \<longrightarrow> blk' j = ?blk j"
    "covered True blk' = covered True ?blk \<union> {i + 2 ^ order..<i + 2 ^ ?m}"
    using Suc.IH [OF step(1) blk_i] by blast
  moreover have "{i + 2 ^ order..<i + 2 ^ ?m} \<union> {?b..<i + 2 ^ Suc ?m} = {i + 2 ^ order..<i + 2 ^ Suc ?m}"
    by (rule ivl_disj_un_two) (simp_all add: power_increasing)
  ultimately have
    "buddy_split (fno i) (of_nat order) (of_nat (Suc ?m)) s = Some s'"
    "rep {i} lo hi s' blk' fl'" "blk' i = Some (order, False)" "frame_at i s' = frame_at i s"
    "same_ctl s s'" "\<forall>j. j < i \<or> i + 2 ^ Suc ?m \<le> j \<longrightarrow> blk' j = blk j"
    "covered True blk' = covered True blk \<union> {i + 2 ^ order..<i + 2 ^ Suc ?m}"
    using step(2,3) same_ctl_trans [OF step(4)]
    by (simp, simp, simp, simp, simp, auto simp: Un_assoc Un_commute Un_left_commute)
  then show ?case by (metis add_Suc_right)
qed


section \<open>Allocating a block\<close>

lemma block_unique:
  assumes "rep X lo hi s blk fl" and "blk i = Some (k, b)" and "i \<le> x" and "x < i + 2 ^ k"
    and "blk j = Some (m, c)" and "j \<le> x" and "x < j + 2 ^ m"
  shows "i = j"
proof (rule ccontr)
  assume "i \<noteq> j"
  then consider "i < j" | "j < i" by linarith
  then show False
  proof cases
    case 1
    have "i + 2 ^ k \<le> j"
      by (rule tiled_disjoint [OF repD(2) [OF assms(1)], of i j k m])
        (use 1 assms repD(3) [OF assms(1)] in auto)
    then show False using assms by simp
  next
    case 2
    have "j + 2 ^ m \<le> i"
      by (rule tiled_disjoint [OF repD(2) [OF assms(1)], of j i m k])
        (use 2 assms repD(3) [OF assms(1)] in auto)
    then show False using assms by simp
  qed
qed

lemma covered_use_block:
  assumes r: "rep X lo hi s blk fl" and i: "blk i = Some (k, True)"
  shows "covered True (blk(i := Some (k, False))) = covered True blk - {i..<i + 2 ^ k}"
    and "{i..<i + 2 ^ k} \<subseteq> covered True blk"
proof -
  show "{i..<i + 2 ^ k} \<subseteq> covered True blk" using i unfolding covered_def by fastforce
  show "covered True (blk(i := Some (k, False))) = covered True blk - {i..<i + 2 ^ k}" (is "?L = ?R")
  proof
    show "?L \<subseteq> ?R"
    proof
      fix x assume "x \<in> ?L"
      then obtain j m where j: "blk j = Some (m, True)" "j \<noteq> i" "j \<le> x" "x < j + 2 ^ m"
        by (auto simp: covered_def split: if_splits)
      moreover have "\<not> (i \<le> x \<and> x < i + 2 ^ k)" using block_unique [OF r i] j by metis
      ultimately show "x \<in> ?R" by (auto simp: covered_def)
    qed
    show "?R \<subseteq> ?L"
    proof
      fix x assume "x \<in> ?R"
      then obtain j m where j: "blk j = Some (m, True)" "j \<le> x" "x < j + 2 ^ m"
        and x: "\<not> (i \<le> x \<and> x < i + 2 ^ k)" by (auto simp: covered_def)
      then have "j \<noteq> i" using i by auto
      with j show "x \<in> ?L" by (auto simp: covered_def)
    qed
  qed
qed

lemma rep_take_free:
  assumes r: "rep {} lo hi s blk fl" and i: "blk i = Some (k, True)" and od: "order \<le> k"
  defines "s' \<equiv> put_frame i (buddy_set_order (of_nat order) (clear_flag BUDDY_FREE (frame_at i s)))
      (unlinked i k s)"
  shows "rep {i} lo hi s' (blk(i := Some (k, False))) (fl(k := remove1 i (fl k)))"
    and "flags_ok (frame_at i s') (Some (order, False))" and "same_ctl s s'"
    and "frame_at i s' = buddy_set_order (of_nat order) (clear_flag BUDDY_FREE (frame_at i s))"
proof -
  note b = rep_block [OF r i]
  have "rep {i} lo hi (unlinked i k s) blk (fl(k := remove1 i (fl k)))"
    using rep_unlinked [OF r _ i] by simp
  then have "rep {i} lo hi s' blk (fl(k := remove1 i (fl k)))"
    unfolding s'_def by (rule rep_put) (use b(3) repD(4) [OF r] in simp_all)
  then show "rep {i} lo hi s' (blk(i := Some (k, False))) (fl(k := remove1 i (fl k)))"
  proof (rule rep_blk)
    have "orders (blk(i := Some (k, False))) = orders blk" using i by auto
    then show "tiled (orders (blk(i := Some (k, False)))) lo hi" using repD(2) [OF r] by simp
    show "lo \<le> j \<and> j < hi" if "(blk(i := Some (k, False))) j \<noteq> None" for j
      using that repD(3) [OF r] i by (cases "j = i") fastforce+
  qed auto
  show "flags_ok (frame_at i s') (Some (order, False))" and "same_ctl s s'"
    and "frame_at i s' = buddy_set_order (of_nat order) (clear_flag BUDDY_FREE (frame_at i s))"
    using od b(4) by (simp_all add: s'_def flags_ok_def order_mask)
qed

lemma buddy_alloc_spec:
  assumes r: "rep {} lo hi s blk fl" and lock: "buddy_dir_lock s = 0" and od: "order \<le> 10"
  shows "(buddy_alloc (of_nat order) s = Some (None, s) \<and> (\<forall>k. order \<le> k \<and> k \<le> 10 \<longrightarrow> fl k = [])) \<or>
    (\<exists>i s' blk' fl'. buddy_alloc (of_nat order) s = Some (Some (fno i), s') \<and>
      rep {} lo hi s' blk' fl' \<and> same_ctl s s' \<and> blk' i = Some (order, False) \<and>
      {i..<i + 2 ^ order} \<subseteq> covered True blk \<and>
      covered True blk' = covered True blk - {i..<i + 2 ^ order} \<and>
      (\<forall>j m. blk j = Some (m, False) \<longrightarrow> blk' j = Some (m, False)))"
proof -
  have r1: "rep {} lo hi (set_dir_lock 1 s) blk fl" using r by (simp add: rep_dir_lock)
  obtain k where k: "buddy_find (of_nat order) (set_dir_lock 1 s) = of_nat k" "order \<le> k" "k \<le> 12"
    "k \<le> 10 \<longrightarrow> fl k \<noteq> []" "\<forall>j. order \<le> j \<and> j < k \<and> j \<le> 10 \<longrightarrow> fl j = []"
    using buddy_find_spec [OF r1, of order] od by auto
  have gt: "(of_nat k :: u32) > MAX_ORDER \<longleftrightarrow> 10 < k"
    using of_nat_less_word [of 10 k] k(3) by (simp add: MAX_ORDER_def)
  show ?thesis
  proof (cases "k \<le> 10")
    case False
    then have "buddy_alloc (of_nat order) s = Some (None, s)"
      using lock gt by (simp add: buddy_alloc_def op_norm k(1) set_dir_lock_id)
    with k False show ?thesis by auto
  next
    case True
    define i where "i = hd (fl k)"
    note head = list_head [OF r1 True] and i = list_head(2) [OF r1 True, folded i_def]
    have ik: "blk i = Some (k, True)" using i k True by simp
    note b = rep_block [OF r1 ik] and t = rep_take_free [OF r1 ik k(2)]
    let ?s = "put_frame i (buddy_set_order (of_nat order) (clear_flag BUDDY_FREE (frame_at i (set_dir_lock 1 s))))
      (unlinked i k (set_dir_lock 1 s))"
    let ?blk = "blk(i := Some (k, False))"
    have split: "\<exists>s' blk' fl'. buddy_split (fno i) (of_nat order) (of_nat k) ?s = Some s' \<and>
      rep {i} lo hi s' blk' fl' \<and> blk' i = Some (order, False) \<and> frame_at i s' = frame_at i ?s \<and>
      same_ctl ?s s' \<and> (\<forall>j. j < i \<or> i + 2 ^ k \<le> j \<longrightarrow> blk' j = ?blk j) \<and>
      covered True blk' = covered True ?blk \<union> {i + 2 ^ order..<i + 2 ^ k}"
      using buddy_split_spec [OF t(1), of order "k - order"] k(2) by simp
    then obtain s' blk' fl' where s': "buddy_split (fno i) (of_nat order) (of_nat k) ?s = Some s'"
      "rep {i} lo hi s' blk' fl'" "blk' i = Some (order, False)" "frame_at i s' = frame_at i ?s"
      "same_ctl ?s s'" "\<forall>j. j < i \<or> i + 2 ^ k \<le> j \<longrightarrow> blk' j = ?blk j"
      "covered True blk' = covered True ?blk \<union> {i + 2 ^ order..<i + 2 ^ k}" by blast
    have "rep ({i} - {i}) lo hi s' blk' fl'"
      by (rule rep_leave [OF s'(2) b(3)]) (use s'(3,4) t(2) in auto)
    then have r': "rep {} lo hi (set_dir_lock 0 s') blk' fl'" by (simp add: rep_dir_lock)
    have head_i: "list_first (DirHead (of_nat k)) (chains s) = FrChain (fno i)"
      using head(1) k True by (simp add: i_def)
    have lock_i: "fr_lock (frame_at i s) = 0" using repD(4) [OF r b(3)] .
    have run: "buddy_alloc (of_nat order) s = Some (Some (fno i), set_dir_lock 0 s')"
      using gt True s'(1) b(3) lock_i lock
      by (simp add: buddy_alloc_def op_norm k(1) head_i)
    have ctl: "same_ctl s (set_dir_lock 0 s')" using s'(5) lock by (simp add: same_ctl_def)
    have le: "(2::nat) ^ order \<le> 2 ^ k" using k(2) by (simp add: power_increasing)
    have split_ivl: "{i..<i + a} \<subseteq> C \<and> C - {i..<i + b} \<union> {i + a..<i + b} = C - {i..<i + a}"
      if "a \<le> b" "{i..<i + b} \<subseteq> C" for a b :: nat and C using that by fastforce
    have cov: "{i..<i + 2 ^ order} \<subseteq> covered True blk"
      "covered True blk' = covered True blk - {i..<i + 2 ^ order}"
      using split_ivl [OF le covered_use_block(2) [OF r1 ik]]
      unfolding s'(7) covered_use_block(1) [OF r1 ik] by simp_all
    have used: "\<forall>j m. blk j = Some (m, False) \<longrightarrow> blk' j = Some (m, False)"
    proof (intro allI impI)
      fix j m assume j: "blk j = Some (m, False)"
      then have "j \<noteq> i" and "\<not> (i < j \<and> j < i + 2 ^ k)" using ik b(7) by auto
      then have "j < i \<or> i + 2 ^ k \<le> j" by linarith
      then have "blk' j = ?blk j" using s'(6) by blast
      with j \<open>j \<noteq> i\<close> show "blk' j = Some (m, False)" by simp
    qed
    show ?thesis
      by (intro disjI2 exI [of _ i] exI [of _ "set_dir_lock 0 s'"] exI [of _ blk'] exI [of _ fl'] conjI)
        (fact run r' ctl s'(3) cov used)+
  qed
qed


section \<open>Handing out the pieces of a block\<close>

lemma buddy_take_spec:
  assumes "n < 2 ^ c" and "c \<le> 11" and "rep X lo hi s blk fl"
    and "fst ` set (chunks_down f n c) \<subseteq> X" and "tiles (chunks_down f n c) f (f + n)"
    and "f + n \<le> 8192" and "0 < c \<Longrightarrow> w = of_nat (c - 1) \<and> z = 2 ^ (c - 1)"
  shows "\<exists>s'. buddy_take (fno f) (of_nat n) w z s = Some (fno (f + n), s') \<and>
    rep X lo hi s' blk fl \<and> same_ctl s s' \<and>
    (\<forall>j k. (j, k) \<in> set (chunks_down f n c) \<longrightarrow> flags_ok (frame_at j s') (Some (k, False))) \<and>
    (\<forall>j<8192. j \<notin> fst ` set (chunks_down f n c) \<longrightarrow> frame_at j s' = frame_at j s)"
  using assms
proof (induction c arbitrary: f n w z s)
  case 0
  then have "n = 0" by simp
  then have "buddy_take (fno f) (of_nat n) w z s = Some (fno (f + n), s)"
    by (subst buddy_take.simps) simp
  with 0 \<open>n = 0\<close> show ?case by auto
next
  case (Suc od)
  have wz: "w = of_nat od" "z = 2 ^ od" and od: "od \<le> 10" using Suc.prems(2,7) by auto
  have next_wz: "0 < od \<Longrightarrow> of_nat od - 1 = (of_nat (od - 1) :: u32) \<and> drop_bit 1 (2 ^ od :: u32) = 2 ^ (od - 1)"
    using drop_bit_exp [of "od - 1"] od by (cases od) simp_all
  have "(2::nat) ^ Suc od \<le> 2 ^ 11" using Suc.prems(2) by (intro power_increasing) simp_all
  then have n: "n < 2048" using Suc.prems(1) by simp
  have pos: "sint (of_nat n :: u32) > 0 \<longleftrightarrow> n \<noteq> 0" using sint_small [of n] n by simp
  have test: "(of_nat n AND 2 ^ od :: u32) \<noteq> 0 \<longleftrightarrow> bit n od" using od by (intro word_bit_test) simp
  show ?case
  proof (cases "bit n od")
    case False
    then have lt: "n < 2 ^ od" using bit_top [OF Suc.prems(1)] by simp
    have "buddy_take (fno f) (of_nat n) w z s = buddy_take (fno f) (of_nat n) (of_nat od - 1) (drop_bit 1 (2 ^ od)) s"
    proof (cases "n = 0")
      case True
      then show ?thesis by (subst (1 2) buddy_take.simps) simp
    next
      case n0: False
      show ?thesis using n0 False unfolding wz
        by (subst buddy_take.simps) (simp only: pos test if_True if_False simp_thms)
    qed
    moreover have "chunks_down f n (Suc od) = chunks_down f n od" using False by simp
    ultimately show ?thesis
      using Suc.IH [OF lt _ Suc.prems(3) _ _ Suc.prems(6) next_wz] Suc.prems(4,5) od by simp
  next
    case True
    then have le: "2 ^ od \<le> n" using bit_top [OF Suc.prems(1)] by simp
    then have n0: "n \<noteq> 0" by (metis le_zero_eq power_not_zero zero_neq_numeral)
    have ch: "chunks_down f n (Suc od) = (f, od) # chunks_down (f + 2 ^ od) (n - 2 ^ od) od"
      using True by simp
    have f: "f < 8192" "f \<in> X" using Suc.prems(4,6) n0 ch by auto
    have lock: "fr_lock (frame_at f s) = 0" using repD(4) [OF Suc.prems(3) f(1)] .
    let ?s = "put_frame f (buddy_set_order (of_nat od) (clear_flag BUDDY_FREE (frame_at f s))) s"
    have step: "buddy_take (fno f) (of_nat n) w z s =
        buddy_take (fno (f + 2 ^ od)) (of_nat (n - 2 ^ od)) (of_nat od - 1) (drop_bit 1 (2 ^ od)) ?s"
      using n0 True unfolding wz
      by (subst buddy_take.simps)
        (simp only: pos test if_True simp_thms, simp add: op_norm f lock of_nat_minus_exp [OF le])
    have r: "rep X lo hi ?s blk fl" by (rule rep_put [OF Suc.prems(3) f(2,1)]) (simp_all add: lock)
    have rest: "n - 2 ^ od < 2 ^ od" "f + 2 ^ od + (n - 2 ^ od) = f + n" using Suc.prems(1) le by auto
    have tl: "tiles (chunks_down (f + 2 ^ od) (n - 2 ^ od) od) (f + 2 ^ od) (f + n)"
      using Suc.prems(5) unfolding ch by simp
    have tl': "tiles (chunks_down (f + 2 ^ od) (n - 2 ^ od) od) (f + 2 ^ od) (f + 2 ^ od + (n - 2 ^ od))"
      and fn: "f + 2 ^ od + (n - 2 ^ od) \<le> 8192" using tl Suc.prems(6) unfolding rest(2) by simp_all
    have heads: "fst ` set (chunks_down (f + 2 ^ od) (n - 2 ^ od) od) \<subseteq> X"
      using Suc.prems(4) unfolding ch by simp
    obtain s' where s': "buddy_take (fno (f + 2 ^ od)) (of_nat (n - 2 ^ od)) (of_nat od - 1) (drop_bit 1 (2 ^ od)) ?s
        = Some (fno (f + n), s')" "rep X lo hi s' blk fl" "same_ctl ?s s'"
      "\<forall>j k. (j, k) \<in> set (chunks_down (f + 2 ^ od) (n - 2 ^ od) od) \<longrightarrow> flags_ok (frame_at j s') (Some (k, False))"
      "\<forall>j<8192. j \<notin> fst ` set (chunks_down (f + 2 ^ od) (n - 2 ^ od) od) \<longrightarrow> frame_at j s' = frame_at j ?s"
      using Suc.IH [OF rest(1) _ r heads tl' fn next_wz] od unfolding rest(2) by fastforce
    have "f \<notin> fst ` set (chunks_down (f + 2 ^ od) (n - 2 ^ od) od)"
      using tiles_range [OF tl] by force
    then have ff: "frame_at f s' = frame_at f ?s" using s'(5) f(1) by blast
    have "flags_ok (frame_at j s') (Some (k, False))" if "(j, k) \<in> set (chunks_down f n (Suc od))" for j k
    proof (cases "(j, k) = (f, od)")
      case True
      then show ?thesis using ff od by (simp add: flags_ok_def order_mask)
    next
      case False
      then show ?thesis using that s'(4) unfolding ch by auto
    qed
    moreover have "frame_at j s' = frame_at j s" if "j < 8192" "j \<notin> fst ` set (chunks_down f n (Suc od))" for j
    proof -
      have "frame_at j s' = frame_at j ?s" using that s'(5) unfolding ch by simp
      also have "\<dots> = frame_at j s" using that f(1) unfolding ch by (simp add: frame_at_put)
      finally show ?thesis .
    qed
    moreover have "same_ctl s s'" using s'(3) by (simp add: same_ctl_def)
    ultimately show ?thesis using step s'(1,2) by (intro exI [of _ s']) simp
  qed
qed


lemma chunks_up_zero [simp]: "chunks_up f 0 od t = []"
  by (induction t arbitrary: od) auto

lemma chunks_up_end: "n < 2 ^ od \<Longrightarrow> 2 ^ od dvd n \<Longrightarrow> n = (0::nat)"
  by (auto dest: nat_dvd_not_less)

lemma exp_dvd_pass:
  assumes "2 ^ od dvd (n::nat)"
  shows "\<not> bit n od \<Longrightarrow> 2 ^ Suc od dvd n" and "bit n od \<Longrightarrow> 2 ^ Suc od dvd n - 2 ^ od"
    and "bit n od \<Longrightarrow> 2 ^ od \<le> n"
proof -
  obtain q where q: "n = 2 ^ od * q" using assms by (rule dvdE)
  have b: "bit n od \<longleftrightarrow> odd q" using q by (simp add: bit_iff_odd)
  show "\<not> bit n od \<Longrightarrow> 2 ^ Suc od dvd n" using q b by (auto elim!: evenE)
  show "bit n od \<Longrightarrow> 2 ^ Suc od dvd n - 2 ^ od" using q b by (auto elim!: oddE)
  show "bit n od \<Longrightarrow> 2 ^ od \<le> n" using q b by (cases q) auto
qed

lemma buddy_give_spec:
  assumes "od + t \<le> 11" and "2 ^ od dvd n" and "n < 2 ^ (od + t)" and "rep X lo hi s blk fl"
    and "tiles (chunks_up f n od t) f (f + n)" and "fst ` set (chunks_up f n od t) \<subseteq> X"
    and "\<And>j k. (j, k) \<in> set (chunks_up f n od t) \<Longrightarrow> blk j = Some (k, True)"
  shows "\<exists>s' fl'. buddy_give (fno f) (of_nat n) (of_nat od) (2 ^ od) s = Some s' \<and>
    rep (X - fst ` set (chunks_up f n od t)) lo hi s' blk fl' \<and> same_ctl s s' \<and>
    (\<forall>j<8192. j \<notin> fst ` set (chunks_up f n od t) \<longrightarrow> frame_at j s' = frame_at j s)"
  using assms
proof (induction t arbitrary: f n od s fl X)
  case 0
  then have "n = 0" using chunks_up_end by simp
  then have "buddy_give (fno f) (of_nat n) (of_nat od) (2 ^ od) s = Some s"
    by (subst buddy_give.simps) simp
  with 0 \<open>n = 0\<close> show ?case by auto
next
  case (Suc t)
  have od: "od \<le> 10" and od_t: "Suc od + t \<le> 11" "n < 2 ^ (Suc od + t)" using Suc.prems(1,3) by simp_all
  have "(2::nat) ^ (od + Suc t) \<le> 2 ^ 11" using Suc.prems(1) by (intro power_increasing) simp_all
  then have n: "n < 2048" using Suc.prems(3) by simp
  have pos: "sint (of_nat n :: u32) > 0 \<longleftrightarrow> n \<noteq> 0" using sint_small [of n] n by simp
  have test: "(of_nat n AND 2 ^ od :: u32) \<noteq> 0 \<longleftrightarrow> bit n od" using od by (intro word_bit_test) simp
  have arg: "(of_nat od + 1 :: u32) = of_nat (Suc od)" "push_bit 1 (2 ^ od :: u32) = 2 ^ Suc od"
    by (simp, rule push_bit_exp)
  note pass = exp_dvd_pass [OF Suc.prems(2)]
  show ?case
  proof (cases "bit n od")
    case False
    have ch: "chunks_up f n od (Suc t) = chunks_up f n (Suc od) t" using False by simp
    have step: "buddy_give (fno f) (of_nat n) (of_nat od) (2 ^ od) s =
        buddy_give (fno f) (of_nat n) (of_nat (Suc od)) (2 ^ Suc od) s"
    proof (cases "n = 0")
      case True
      then show ?thesis by (subst (1 2) buddy_give.simps) simp
    next
      case n0: False
      show ?thesis using n0 False
        by (subst buddy_give.simps) (simp only: pos test arg if_True if_False simp_thms)
    qed
    show ?thesis unfolding step ch
      by (rule Suc.IH [OF od_t(1) pass(1) [OF False] od_t(2) Suc.prems(4)])
        (use Suc.prems(5-7) in \<open>simp_all only: ch\<close>)
  next
    case True
    define m where "m = n - 2 ^ od"
    have nm: "n = 2 ^ od + m" "2 ^ Suc od dvd m" "m < 2 ^ (Suc od + t)" "f + 2 ^ od + m = f + n"
      using pass(2,3) [OF True] od_t(2) by (auto simp: m_def)
    have ch: "chunks_up f n od (Suc t) = (f, od) # chunks_up (f + 2 ^ od) m (Suc od) t"
      using True by (simp add: m_def)
    let ?rest = "chunks_up (f + 2 ^ od) m (Suc od) t"
    have tl: "tiles ?rest (f + 2 ^ od) (f + 2 ^ od + m)"
      using Suc.prems(5) unfolding ch nm(4) by simp
    have f_rest: "f \<notin> fst ` set ?rest" using tiles_range [OF tl] by force
    have f: "f \<in> X" "blk f = Some (od, True)" using Suc.prems(6,7) ch by auto
    have f_lt: "f < 8192" using repD(3) [OF Suc.prems(4) f(2)] by simp
    have lock: "fr_lock (frame_at f s) = 0" using repD(4) [OF Suc.prems(4) f_lt] .
    let ?s = "put_frame f (buddy_set_order (of_nat od) (set_flag BUDDY_FREE (frame_at f s))) s"
    let ?t = "linked f od ?s"
    have n0: "n \<noteq> 0" using nm(1) by simp
    have m_word: "(of_nat n - 2 ^ od :: u32) = of_nat m" by (simp add: nm(1))
    have step: "buddy_give (fno f) (of_nat n) (of_nat od) (2 ^ od) s =
        buddy_give (fno (f + 2 ^ od)) (of_nat m) (of_nat (Suc od)) (2 ^ Suc od) ?t"
      using n0 True
      by (subst buddy_give.simps)
        (simp only: pos test arg m_word if_True simp_thms, simp add: op_norm f_lt od lock)
    have r: "rep X lo hi ?s blk fl" by (rule rep_put [OF Suc.prems(4) f(1) f_lt]) (simp_all add: lock)
    have rt: "rep (X - {f}) lo hi ?t blk (fl(od := fl od @ [f]))"
      by (rule rep_linked [OF r f]) (use od f(2) in \<open>simp add: flags_ok_def order_mask\<close>)
    have heads: "fst ` set ?rest \<subseteq> X - {f}" using Suc.prems(6) f_rest unfolding ch by auto
    obtain s' fl' where s': "buddy_give (fno (f + 2 ^ od)) (of_nat m) (of_nat (Suc od)) (2 ^ Suc od) ?t = Some s'"
      "rep (X - {f} - fst ` set ?rest) lo hi s' blk fl'" "same_ctl ?t s'"
      "\<forall>j<8192. j \<notin> fst ` set ?rest \<longrightarrow> frame_at j s' = frame_at j ?t"
      using Suc.IH [OF od_t(1) nm(2,3) rt tl heads] Suc.prems(7) unfolding ch by fastforce
    have "X - {f} - fst ` set ?rest = X - fst ` set (chunks_up f n od (Suc t))" unfolding ch by auto
    moreover have "\<forall>j<8192. j \<notin> fst ` set (chunks_up f n od (Suc t)) \<longrightarrow> frame_at j s' = frame_at j s"
      using s'(4) f_lt unfolding ch by (simp add: frame_at_put)
    moreover have "same_ctl s s'" using s'(3) by (simp add: same_ctl_def)
    ultimately show ?thesis using step s'(1,2) by (intro exI [of _ s'] exI [of _ fl']) simp
  qed
qed


section \<open>Cutting a block\<close>

definition used_piece :: "nat \<times> nat \<Rightarrow> nat \<times> nat \<times> bool" where
  "used_piece p = (fst p, snd p, False)"

definition free_piece :: "nat \<times> nat \<Rightarrow> nat \<times> nat \<times> bool" where
  "free_piece p = (fst p, snd p, True)"

definition cut_block :: "block_map \<Rightarrow> nat \<Rightarrow> nat \<Rightarrow> (nat \<times> nat) list \<Rightarrow> (nat \<times> nat) list \<Rightarrow> block_map" where
  "cut_block blk a b us fs x =
    (if a \<le> x \<and> x < b then map_of (map used_piece us @ map free_piece fs) x else blk x)"

lemma cut_block_out: "\<not> (a \<le> x \<and> x < b) \<Longrightarrow> cut_block blk a b us fs x = blk x"
  by (auto simp: cut_block_def)

lemma cut_block_in:
  assumes t: "tiles us a m" "tiles fs m b"
  shows "(j, k) \<in> set us \<Longrightarrow> cut_block blk a b us fs j = Some (k, False)"
    and "(j, k) \<in> set fs \<Longrightarrow> cut_block blk a b us fs j = Some (k, True)"
    and "a \<le> x \<Longrightarrow> x < b \<Longrightarrow> x \<notin> fst ` set us \<Longrightarrow> x \<notin> fst ` set fs \<Longrightarrow> cut_block blk a b us fs x = None"
    and "a \<le> x \<Longrightarrow> x < b \<Longrightarrow> cut_block blk a b us fs x = Some (k, c) \<Longrightarrow>
      (c \<and> (x, k) \<in> set fs) \<or> (\<not> c \<and> (x, k) \<in> set us)"
proof -
  let ?ps = "map used_piece us @ map free_piece fs"
  have whole: "tiles (us @ fs) a b" using t by (auto simp: tiles_append)
  have fst: "map fst ?ps = map fst (us @ fs)" by (simp add: used_piece_def free_piece_def comp_def)
  have dist: "distinct (map fst ?ps)" unfolding fst by (rule tiles_distinct [OF whole])
  have rng: "a \<le> j \<and> j < b" if "(j, k) \<in> set (us @ fs)" for j k
    using tiles_range [OF whole that] zero_less_power [of "2::nat" k] by linarith
  show "cut_block blk a b us fs j = Some (k, False)" if "(j, k) \<in> set us"
  proof -
    have "(j, k, False) \<in> set ?ps" using that by (force simp: used_piece_def)
    then show ?thesis using map_of_is_SomeI [OF dist] rng [of j k] that by (simp add: cut_block_def)
  qed
  show "cut_block blk a b us fs j = Some (k, True)" if "(j, k) \<in> set fs"
  proof -
    have "(j, k, True) \<in> set ?ps" using that by (force simp: free_piece_def)
    then show ?thesis using map_of_is_SomeI [OF dist] rng [of j k] that by (simp add: cut_block_def)
  qed
  show "cut_block blk a b us fs x = None" if "a \<le> x" "x < b" "x \<notin> fst ` set us" "x \<notin> fst ` set fs"
  proof -
    have "x \<notin> set (map fst ?ps)" unfolding fst using that(3,4) by auto
    then have "x \<notin> fst ` set ?ps" by (simp only: set_map not_False_eq_True)
    then have "map_of ?ps x = None" by (simp only: map_of_eq_None_iff not_False_eq_True)
    then show ?thesis using that(1,2) by (simp add: cut_block_def)
  qed
  show "(c \<and> (x, k) \<in> set fs) \<or> (\<not> c \<and> (x, k) \<in> set us)"
    if "a \<le> x" "x < b" "cut_block blk a b us fs x = Some (k, c)"
  proof -
    have "map_of ?ps x = Some (k, c)" using that by (simp add: cut_block_def)
    then have "(x, k, c) \<in> set ?ps" by (rule map_of_SomeD)
    then show ?thesis by (auto simp: used_piece_def free_piece_def)
  qed
qed

lemma cut_block_rep:
  assumes r: "rep {} lo hi s blk fl" and i: "blk i = Some (k, False)"
    and t: "tiles us i m" "tiles fs m (i + 2 ^ k)"
  defines "blk' \<equiv> cut_block blk i (i + 2 ^ k) us fs"
  shows "rep (fst ` set us \<union> fst ` set fs) lo hi s blk' fl"
    and "covered True blk' = covered True blk \<union> {m..<i + 2 ^ k}"
    and "\<not> (i \<le> j \<and> j < i + 2 ^ k) \<Longrightarrow> blk' j = blk j"
proof -
  note b = rep_block [OF r i] and blk' = cut_block_in [OF t, where blk = blk, folded blk'_def]
  show out: "\<not> (i \<le> j \<and> j < i + 2 ^ k) \<Longrightarrow> blk' j = blk j" for j
    by (simp add: blk'_def cut_block_out)
  have whole: "tiles (us @ fs) i (i + 2 ^ k)" using t by (auto simp: tiles_append)
  have heads: "fst ` set us \<union> fst ` set fs = fst ` set (us @ fs)" by auto
  have rng: "i \<le> j \<and> j < i + 2 ^ k" if "j \<in> fst ` set (us @ fs)" for j
  proof -
    obtain l where "(j, l) \<in> set (us @ fs)" using \<open>j \<in> fst ` set (us @ fs)\<close> by fastforce
    from tiles_range [OF whole this] zero_less_power [of "2::nat" l] show ?thesis by linarith
  qed
  have "rep ({} \<union> fst ` set (us @ fs)) lo hi s blk fl"
  proof (rule rep_enter [OF r])
    show "j \<in> {} \<or> blk j = None \<or> (\<exists>k. blk j = Some (k, False))" if "j \<in> fst ` set (us @ fs)" for j
      using rng [OF that] b(7) [of j] i by (cases "j = i") auto
  qed
  then show "rep (fst ` set us \<union> fst ` set fs) lo hi s blk' fl"
    unfolding heads Un_empty_left
  proof (rule rep_blk)
    show "blk' j = blk j" if "j \<notin> fst ` set (us @ fs)" for j
    proof (cases "i \<le> j \<and> j < i + 2 ^ k")
      case True
      have "j \<noteq> i"
      proof
        assume "j = i"
        have "us @ fs \<noteq> []" using whole by (metis add_cancel_right_right power_not_zero tiles.simps(1) zero_neq_numeral)
        then obtain l ps where "us @ fs = (i, l) # ps" using whole by (cases "us @ fs") auto
        then show False using that \<open>j = i\<close> by simp
      qed
      then show ?thesis using True blk'(3) [of j] b(7) [of j] that by auto
    qed (rule out)
    show "tiled (orders blk') lo hi"
    proof (rule tiled_replace)
      show "tiled (orders blk) lo i" "tiled (orders blk) (i + 2 ^ k) hi"
        using tiled_cut [OF repD(2) [OF r] b(1,2), of k] i by simp_all
      show "tiled (orders blk') i (i + 2 ^ k)"
      proof (rule tiles_tiled [OF whole])
        show "orders blk' j = Some l" if "(j, l) \<in> set (us @ fs)" for j l
          using that blk'(1,2) [of j l] by auto
        show "orders blk' x = None" if "i \<le> x" "x < i + 2 ^ k" "x \<notin> fst ` set (us @ fs)" for x
          using blk'(3) [OF that(1,2)] that(3) by (simp add: image_Un)
      qed
    qed (use out in auto)
    show "lo \<le> j \<and> j < hi" if "blk' j \<noteq> None" for j
    proof (cases "i \<le> j \<and> j < i + 2 ^ k")
      case False
      then show ?thesis using out [of j] that repD(3) [OF r] by auto
    qed (use b(1,6) in simp)
  qed
  have "covered True blk' = covered True blk \<union> piece_frames fs"
  proof
    show "covered True blk' \<subseteq> covered True blk \<union> piece_frames fs"
    proof
      fix x assume "x \<in> covered True blk'"
      then obtain j l where j: "blk' j = Some (l, True)" "j \<le> x" "x < j + 2 ^ l" by (auto simp: covered_def)
      show "x \<in> covered True blk \<union> piece_frames fs"
      proof (cases "i \<le> j \<and> j < i + 2 ^ k")
        case True
        then have "(j, l) \<in> set fs" using blk'(4) [of j l True] j(1) by simp
        then show ?thesis using j(2,3) by (force simp: piece_frames_def)
      next
        case False
        then have "blk j = Some (l, True)" using out j(1) by simp
        then show ?thesis using j(2,3) unfolding covered_def by blast
      qed
    qed
    show "covered True blk \<union> piece_frames fs \<subseteq> covered True blk'"
    proof (intro Un_least subsetI)
      fix x assume "x \<in> covered True blk"
      then obtain j l where j: "blk j = Some (l, True)" "j \<le> x" "x < j + 2 ^ l" by (auto simp: covered_def)
      then have "\<not> (i \<le> j \<and> j < i + 2 ^ k)" using i b(7) [of j] by (cases "j = i") auto
      then have "blk' j = Some (l, True)" using out j(1) by simp
      with j(2,3) show "x \<in> covered True blk'" unfolding covered_def by blast
    next
      fix x assume "x \<in> piece_frames fs"
      then obtain j l where "(j, l) \<in> set fs" "j \<le> x" "x < j + 2 ^ l" by (auto simp: piece_frames_def)
      then show "x \<in> covered True blk'" using blk'(2) [of j l] unfolding covered_def by blast
    qed
  qed
  then show "covered True blk' = covered True blk \<union> {m..<i + 2 ^ k}"
    by (simp add: tiles_frames [OF t(2)])
qed

lemma rep_leave_set:
  assumes "finite Y" and "rep X lo hi s blk fl"
    and "\<And>j. j \<in> Y \<Longrightarrow> j < 8192 \<and> (\<exists>k. blk j = Some (k, False) \<and> flags_ok (frame_at j s) (Some (k, False)))"
  shows "rep (X - Y) lo hi s blk fl"
  using assms
proof (induction Y rule: finite_induct)
  case (insert j Y)
  obtain k where "j < 8192" "blk j = Some (k, False)" "flags_ok (frame_at j s) (Some (k, False))"
    using insert.prems(2) [of j] by auto
  moreover have "rep (X - Y) lo hi s blk fl"
    by (rule insert.IH [OF insert.prems(1)]) (rule insert.prems(2), simp)
  ultimately have "rep (X - Y - {j}) lo hi s blk fl"
    using rep_leave [of "X - Y" lo hi s blk fl j k] by simp
  moreover have "X - insert j Y = X - Y - {j}" by (rule Diff_insert)
  ultimately show ?case by (simp only:)
qed simp


section \<open>Allocating a run of frames\<close>

text \<open>
  The pieces of a run of \<open>n\<close> frames at \<open>i\<close>, and what it means that a client holds the run:
  each piece is a used block of its own.
\<close>

definition owned :: "block_map \<Rightarrow> nat \<Rightarrow> nat \<Rightarrow> bool" where
  "owned blk i n \<longleftrightarrow> (\<forall>j k. (j, k) \<in> set (chunks_down i n 11) \<longrightarrow> blk j = Some (k, False))"

lemma chunks_down_pow: "k \<le> 10 \<Longrightarrow> chunks_down i (2 ^ k) 11 = [(i, k)]"
  using chunks_down_more [of "2 ^ k" "Suc k" i "10 - k"] by (simp add: bit_exp_iff)

lemma chunks_down_11: "k \<le> 11 \<Longrightarrow> n < 2 ^ k \<Longrightarrow> chunks_down i n 11 = chunks_down i n k"
  using chunks_down_more [of n k i "11 - k"] by simp

lemma buddy_pieces_spec:
  assumes r: "rep {} lo hi s blk fl" and lock: "buddy_dir_lock s = 0"
    and i: "blk i = Some (Suc c, False)" and n: "n < 2 ^ Suc c"
  shows "\<exists>s1 s2 blk' fl'.
    buddy_take (fno i) (of_nat n) (of_nat c) (2 ^ c) s = Some (fno (i + n), s1) \<and>
    buddy_dir_lock s1 = 0 \<and>
    buddy_give (fno (i + n)) (of_nat (2 ^ Suc c - n)) 0 1 (set_dir_lock 1 s1) = Some s2 \<and>
    rep {} lo hi (set_dir_lock 0 s2) blk' fl' \<and> same_ctl s (set_dir_lock 0 s2) \<and> owned blk' i n \<and>
    covered True blk' = covered True blk \<union> {i + n..<i + 2 ^ Suc c} \<and>
    (\<forall>j. \<not> (i \<le> j \<and> j < i + 2 ^ Suc c) \<longrightarrow> blk' j = blk j)"
proof -
  define N where "N = (2::nat) ^ Suc c"
  define m where "m = N - n"
  define us where "us = chunks_down i n (Suc c)"
  define fs where "fs = chunks_up (i + n) m 0 (Suc (Suc c))"
  note b = rep_block [OF r i, folded N_def] and nN = n [folded N_def]
  have c: "Suc c \<le> 10" using b(4) .
  have hi: "hi \<le> 8192" using repD(1) [OF r] .
  have sum: "i + n + m = i + N" using nN by (simp add: m_def)
  have fit: "i + n \<le> 8192" using b(6) hi nN by linarith
  have us: "tiles us i (i + n)"
    unfolding us_def by (rule tiles_down) (use c b(5) n in \<open>auto intro: power_le_dvd simp: N_def\<close>)
  have dvd: "N dvd i + n + m" unfolding sum using b(5) by simp
  have lt: "m < 2 ^ (0 + Suc (Suc c))" by (simp add: m_def N_def less_imp_diff_less)
  have fs: "tiles fs (i + n) (i + N)"
    unfolding fs_def sum [symmetric] by (rule tiles_up [OF _ _ lt]) (use c dvd in \<open>auto simp: N_def\<close>)
  define blk' where "blk' = cut_block blk i (i + N) us fs"
  note cut = cut_block_rep [OF r i us fs [unfolded N_def], folded N_def, folded blk'_def]
    and in_us = cut_block_in(1) [OF us fs, where blk = blk, folded blk'_def]
    and in_fs = cut_block_in(2) [OF us fs, where blk = blk, folded blk'_def]
  obtain s1 where s1: "buddy_take (fno i) (of_nat n) (of_nat c) (2 ^ c) s = Some (fno (i + n), s1)"
    "rep (fst ` set us \<union> fst ` set fs) lo hi s1 blk' fl" "same_ctl s s1"
    "\<forall>j k. (j, k) \<in> set us \<longrightarrow> flags_ok (frame_at j s1) (Some (k, False))"
    using buddy_take_spec [OF n _ cut(1) _ us [unfolded us_def] fit, of "of_nat c" "2 ^ c", folded us_def] c by auto
  have "rep (fst ` set us \<union> fst ` set fs - fst ` set us) lo hi s1 blk' fl"
  proof (rule rep_leave_set [OF _ s1(2)])
    fix j assume "j \<in> fst ` set us"
    then obtain k where k: "(j, k) \<in> set us" by fastforce
    then show "j < 8192 \<and> (\<exists>k. blk' j = Some (k, False) \<and> flags_ok (frame_at j s1) (Some (k, False)))"
      using in_us s1(4) repD(3) [OF s1(2) in_us [OF k]] by blast
  qed simp
  then have r1: "rep (fst ` set us \<union> fst ` set fs - fst ` set us) lo hi (set_dir_lock 1 s1) blk' fl"
    by (simp add: rep_dir_lock)
  have disj: "fst ` set fs \<subseteq> fst ` set us \<union> fst ` set fs - fst ` set us"
  proof -
    have "distinct (map fst (us @ fs))"
      by (rule tiles_distinct) (use us fs in \<open>auto simp: tiles_append\<close>)
    then show ?thesis by auto
  qed
  have fs': "tiles fs (i + n) (i + n + m)" using fs unfolding sum .
  obtain s2 fl' where s2: "buddy_give (fno (i + n)) (of_nat m) (of_nat 0) (2 ^ 0) (set_dir_lock 1 s1) = Some s2"
    "rep (fst ` set us \<union> fst ` set fs - fst ` set us - fst ` set fs) lo hi s2 blk' fl'"
    "same_ctl (set_dir_lock 1 s1) s2"
    using buddy_give_spec [of 0 "Suc (Suc c)" m _ _ _ _ _ _ "i + n", folded fs_def,
      OF _ _ lt r1 fs' disj in_fs] c by auto
  have empty: "fst ` set us \<union> fst ` set fs - fst ` set us - fst ` set fs = {}" by blast
  have "rep {} lo hi (set_dir_lock 0 s2) blk' fl'" using s2(2) unfolding empty by (simp add: rep_dir_lock)
  moreover have "same_ctl s (set_dir_lock 0 s2)" "buddy_dir_lock s1 = 0"
    using s1(3) s2(3) lock by (simp_all add: same_ctl_def)
  moreover have "owned blk' i n"
    using in_us chunks_down_11 [OF _ n] c unfolding owned_def us_def by simp
  ultimately show ?thesis using s1(1) s2(1) cut(2,3) unfolding N_def [symmetric] m_def by auto
qed


lemma buddy_alloc_frames_spec:
  assumes r: "rep {} lo hi s blk fl" and lock: "buddy_dir_lock s = 0" and n: "0 < n" "n \<le> 1024"
  shows "(buddy_alloc_frames (of_nat n) s = Some (0, s) \<and>
      (\<forall>k. n \<le> 2 ^ k \<and> k \<le> 10 \<longrightarrow> fl k = [])) \<or>
    (\<exists>i s' blk' fl'. buddy_alloc_frames (of_nat n) s = Some (fr_paddr (fno i), s') \<and>
      rep {} lo hi s' blk' fl' \<and> same_ctl s s' \<and> owned blk' i n \<and>
      {i..<i + n} \<subseteq> covered True blk \<and> covered True blk' = covered True blk - {i..<i + n} \<and>
      (\<forall>j m. blk j = Some (m, False) \<longrightarrow> blk' j = Some (m, False)))"
proof -
  have un: "unat (of_nat n :: u32) = n" using n by (intro unat_small) simp
  obtain o' where o': "ceil_order (of_nat n) = of_nat o'" "o' \<le> 10" "n \<le> 2 ^ o'"
    "\<And>k. k < o' \<Longrightarrow> 2 ^ k < n" using ceil_order_small [of "of_nat n"] n un by auto
  have sz: "push_bit (unat (of_nat k :: u32)) (1 :: u32) = 2 ^ k" if "k \<le> 10" for k
    using that by (simp add: unat_small)
  have "(2::nat) ^ o' \<le> 2 ^ 10" using o'(2) by (intro power_increasing) simp_all
  then have eq: "(of_nat n :: u32) = 2 ^ o' \<longleftrightarrow> n = 2 ^ o'"
    using of_nat_eq_word [of n "2 ^ o'"] n by simp
  consider (none) "buddy_alloc (of_nat o') s = Some (None, s)" "\<forall>k. o' \<le> k \<and> k \<le> 10 \<longrightarrow> fl k = []"
    | (some) i s' blk' fl' where "buddy_alloc (of_nat o') s = Some (Some (fno i), s')"
      "rep {} lo hi s' blk' fl'" "same_ctl s s'" "blk' i = Some (o', False)"
      "{i..<i + 2 ^ o'} \<subseteq> covered True blk" "covered True blk' = covered True blk - {i..<i + 2 ^ o'}"
      "\<forall>j m. blk j = Some (m, False) \<longrightarrow> blk' j = Some (m, False)"
    using buddy_alloc_spec [OF r lock o'(2)] by blast
  then show ?thesis
  proof cases
    case none
    have "fl k = []" if k: "n \<le> 2 ^ k" "k \<le> 10" for k
      using none(2) o'(4) [of k] k by (metis leI linorder_not_less)
    with none(1) show ?thesis by (simp add: buddy_alloc_frames_def Let_def o'(1))
  next
    case some
    show ?thesis
    proof (cases "n = 2 ^ o'")
      case True
      then have "push_bit (unat (of_nat o' :: u32)) 1 = (of_nat n :: u32)"
        using eq sz [OF o'(2)] by simp
      then have "buddy_alloc_frames (of_nat n) s = Some (fr_paddr (fno i), s')"
        using some(1) by (simp add: buddy_alloc_frames_def Let_def o'(1))
      moreover have "owned blk' i n" using some(4) chunks_down_pow [OF o'(2)] True by (simp add: owned_def)
      ultimately show ?thesis using some(2,3,5-7) True by blast
    next
      case False
      have "o' \<noteq> 0" using False o'(3) n by (cases "o' = 0") auto
      then obtain c where c: "o' = Suc c" by (cases o') auto
      have lt: "n < 2 ^ Suc c" using False o'(3) c by simp
      have lock': "buddy_dir_lock s' = 0" using some(3) lock by (simp add: same_ctl_def)
      obtain s1 s2 blk2 fl2 where p:
        "buddy_take (fno i) (of_nat n) (of_nat c) (2 ^ c) s' = Some (fno (i + n), s1)" "buddy_dir_lock s1 = 0"
        "buddy_give (fno (i + n)) (of_nat (2 ^ Suc c - n)) 0 1 (set_dir_lock 1 s1) = Some s2"
        "rep {} lo hi (set_dir_lock 0 s2) blk2 fl2" "same_ctl s' (set_dir_lock 0 s2)" "owned blk2 i n"
        "covered True blk2 = covered True blk' \<union> {i + n..<i + 2 ^ Suc c}"
        "\<forall>j. \<not> (i \<le> j \<and> j < i + 2 ^ Suc c) \<longrightarrow> blk2 j = blk' j"
        using buddy_pieces_spec [OF some(2) lock' some(4) [unfolded c] lt] by blast
      have args: "(of_nat (Suc c) :: u32) - 1 = of_nat c" "(2 ^ Suc c - of_nat n :: u32) = of_nat (2 ^ Suc c - n)"
        using lt by (simp_all add: of_nat_diff)
      have "buddy_alloc_frames (of_nat n) s = Some (fr_paddr (fno i), set_dir_lock 0 s2)"
        using some(1) p(1-3) eq False sz [of c] sz [of "Suc c"] o'(2) c args
        by (simp add: buddy_alloc_frames_def Let_def o'(1) op_norm del: of_nat_Suc power_Suc)
      moreover have "covered True blk2 = covered True blk - {i..<i + n}" "{i..<i + n} \<subseteq> covered True blk"
        using some(5,6) p(7) lt unfolding c by fastforce+
      moreover have "blk2 j = Some (m, False)" if j: "blk j = Some (m, False)" for j m
      proof -
        have j': "blk' j = Some (m, False)" using some(7) j by blast
        have "j \<noteq> i"
        proof
          assume "j = i"
          have "i \<in> {i..<i + 2 ^ o'}" by simp
          then obtain j' l where "blk j' = Some (l, True)" "j' \<le> i" "i < j' + 2 ^ l"
            using some(5) unfolding covered_def by blast
          then show False using block_unique [OF r j, of i j' l True] j \<open>j = i\<close> by simp
        qed
        then have "\<not> (i \<le> j \<and> j < i + 2 ^ Suc c)"
          using rep_block(7) [OF some(2,4)] j' unfolding c by (metis le_neq_implies_less option.distinct(1))
        with p(8) j' show ?thesis by simp
      qed
      moreover have "same_ctl s (set_dir_lock 0 s2)" by (rule same_ctl_trans [OF some(3) p(5)])
      ultimately show ?thesis using p(4,6) by blast
    qed
  qed
qed

end
