(* ===== verification/BuddyFree.thy ===== *)
theory BuddyFree
  imports BuddyAlloc
begin

text \<open>
  What the release side of the buddy system does to the block map: the loop that merges a block
  with its buddy, the release of one block, and the release of a run of frames piece by piece.
\<close>

section \<open>The buddy of a block\<close>

lemma xor_fno: "fno i XOR push_bit (unat (of_nat k :: u32)) 1 = fno (i XOR 2 ^ k)" if "k \<le> 10"
proof -
  have "push_bit (unat (of_nat k :: u32)) 1 = (of_nat (2 ^ k) :: u32)"
    using that by (simp add: unat_small push_bit_eq_mult)
  then show ?thesis by (simp only: of_nat_xor_eq)
qed

lemma buddy_small: "i < 8192 \<Longrightarrow> k \<le> 10 \<Longrightarrow> i XOR 2 ^ k < (8192::nat)"
proof -
  assume "i < 8192" "k \<le> 10"
  have "take_bit 13 (i XOR 2 ^ k) = i XOR 2 ^ k"
  proof (rule bit_eqI)
    fix m
    have "\<not> bit i m" if "13 \<le> m"
    proof -
      have "i < 2 ^ m"
        using \<open>i < 8192\<close> power_increasing [OF that, of "2::nat"] by (simp add: order_less_le_trans)
      then show ?thesis by (simp add: bit_iff_odd)
    qed
    then show "bit (take_bit 13 (i XOR 2 ^ k)) m \<longleftrightarrow> bit (i XOR 2 ^ k) m"
      using \<open>k \<le> 10\<close> by (cases "13 \<le> m") (auto simp: bit_take_bit_iff bit_xor_iff bit_exp_iff)
  qed
  then have "i XOR 2 ^ k < 2 ^ 13" by (metis take_bit_nat_less_exp)
  then show "i XOR 2 ^ k < 8192" by simp
qed

lemma buddy_covers:
  assumes "2 ^ k dvd (i::nat)"
  shows "{i..<i + 2 ^ k} \<union> {i XOR 2 ^ k..<(i XOR 2 ^ k) + 2 ^ k}
    = {min i (i XOR 2 ^ k)..<min i (i XOR 2 ^ k) + 2 ^ Suc k}"
proof -
  define b where "b = i XOR 2 ^ k"
  define m where "m = min i b"
  have "max i b = m + 2 ^ k" using buddy_pair(2) [OF assms] by (simp add: m_def b_def)
  then have "(i = m \<and> b = m + 2 ^ k) \<or> (b = m \<and> i = m + 2 ^ k)" unfolding m_def by linarith
  then have "{i..<i + 2 ^ k} \<union> {b..<b + 2 ^ k} = {m..<m + 2 ^ Suc k}" by auto
  then show ?thesis by (simp add: m_def b_def)
qed

section \<open>One merge\<close>

lemma rep_merge:
  assumes r: "rep {i} lo hi s blk fl" and i: "blk i = Some (k, False)" and k: "k < 10"
    and b: "blk (i XOR 2 ^ k) = Some (k, True)"
  defines "m \<equiv> min i (i XOR 2 ^ k)" and "M \<equiv> max i (i XOR 2 ^ k)"
  defines "t \<equiv> put_frame M (buddy_set_order (- 1) (clear_flag BUDDY_FREE (frame_at M s)))
      (unlinked (i XOR 2 ^ k) k s)"
  defines "s' \<equiv> put_frame m (buddy_set_order (of_nat (Suc k)) (frame_at m t)) t"
    and "blk' \<equiv> blk(m + 2 ^ k := None, m := Some (Suc k, False))"
  shows "\<exists>fl'. rep {m} lo hi s' blk' fl'" and "buddy_order (frame_at m s') = of_nat (Suc k)"
    and "same_ctl s s'" and "m < 8192" and "M < 8192"
    and "covered True blk' \<union> {m..<m + 2 ^ Suc k} = covered True blk \<union> {i..<i + 2 ^ k}"
    and "x \<noteq> i \<Longrightarrow> blk x = Some (l, False) \<Longrightarrow> x \<noteq> m \<and> blk' x = Some (l, False)"
proof -
  define j where "j = i XOR 2 ^ k"
  note bi = rep_block [OF r i] and bj = rep_block [OF r b, folded j_def]
  note pair = buddy_pair [OF bi(5), folded m_def M_def j_def]
  have mM: "m \<in> {i, j}" "M \<in> {i, j}" "M = m + 2 ^ k" "m \<noteq> M" "{i, j} = {m, M}"
    using pair by (auto simp: m_def M_def j_def)
  show small: "m < 8192" "M < 8192" using mM(1,2) bi(3) bj(3) by auto
  have lock: "fr_lock (frame_at m s) = 0" "fr_lock (frame_at M s) = 0"
    using repD(4) [OF r] small by auto
  have "j \<notin> {i}" using pair(3) by (auto simp: j_def)
  then have "rep (insert j {i}) lo hi (unlinked j k s) blk (fl(k := remove1 j (fl k)))"
    using rep_unlinked [OF r, of j k] b by (simp add: j_def)
  then have r1: "rep {m, M} lo hi (unlinked j k s) blk (fl(k := remove1 j (fl k)))"
    using mM(5) by (simp add: insert_commute)
  have r2: "rep {m, M} lo hi t blk (fl(k := remove1 j (fl k)))"
    unfolding t_def j_def [symmetric] by (rule rep_put [OF r1]) (use small lock in simp_all)
  have fm: "frame_at m t = frame_at m s" using small mM(4) by (simp add: t_def frame_at_put)
  have r3: "rep {m, M} lo hi s' blk (fl(k := remove1 j (fl k)))"
    unfolding s'_def by (rule rep_put [OF r2]) (use small fm lock in simp_all)
  have r4: "rep {m, M} lo hi s' blk' (fl(k := remove1 j (fl k)))"
  proof (rule rep_blk [OF r3])
    have "orders blk' = (orders blk)(m + 2 ^ k := None, m := Some (Suc k))" by (auto simp: blk'_def)
    moreover have "orders blk i = Some k" "orders blk (i XOR 2 ^ k) = Some k" using i b by simp_all
    ultimately show "tiled (orders blk') lo hi"
      using tiled_merge [OF repD(2) [OF r], of i k] bi(1,2) bj(1,2) k by (simp add: m_def j_def)
    show "lo \<le> x \<and> x < hi" if "blk' x \<noteq> None" for x
    proof (cases "x = m")
      case True
      then show ?thesis using mM(1) bi(1,2) bj(1,2) by auto
    next
      case False
      then have "blk x \<noteq> None" using that by (auto simp: blk'_def split: if_splits)
      then show ?thesis using repD(3) [OF r] by blast
    qed
  qed (use mM(3) in \<open>auto simp: blk'_def\<close>)
  have "frame_at M s' = frame_at M t" using small mM(4) by (simp add: s'_def frame_at_put)
  then have "flags_ok (frame_at M s') None"
    by (simp add: t_def flags_ok_def mask_numeral)
  moreover have "blk' M = None" using mM(3,4) by (simp add: blk'_def)
  ultimately have "rep ({m, M} - {M}) lo hi s' blk' (fl(k := remove1 j (fl k)))"
    using rep_leave [OF r4 small(2)] by simp
  moreover have "{m, M} - {M} = {m}" using mM(4) by auto
  ultimately show "\<exists>fl'. rep {m} lo hi s' blk' fl'" by auto
  show "buddy_order (frame_at m s') = of_nat (Suc k)" "same_ctl s s'"
    using k order_mask [of "Suc k"] by (simp_all add: s'_def t_def)
  have "covered True blk' = covered True (blk(j := Some (k, False)))"
    by (rule covered_cong) (use mM i b in \<open>auto simp: blk'_def j_def\<close>)
  also have "\<dots> = covered True blk - {j..<j + 2 ^ k}"
    using covered_use_block(1) [OF r b] by (simp add: j_def)
  finally have cov: "covered True blk' = covered True blk - {j..<j + 2 ^ k}" .
  show "covered True blk' \<union> {m..<m + 2 ^ Suc k} = covered True blk \<union> {i..<i + 2 ^ k}"
    using covered_use_block(2) [OF r b] buddy_covers [OF bi(5)] unfolding cov m_def j_def by blast
  show "x \<noteq> m \<and> blk' x = Some (l, False)" if "x \<noteq> i" "blk x = Some (l, False)"
  proof -
    have "x \<noteq> j" using that b by (auto simp: j_def)
    with that mM show ?thesis by (auto simp: blk'_def)
  qed
qed


lemma and_fno: "fno i AND fno j = fno (i AND j)"
  by (simp only: of_nat_and_eq)

lemma buddy_is_mergeable:
  assumes r: "rep X lo hi s blk fl" and j: "j < 8192" "j \<notin> X" and k: "k \<le> 10"
    and f: "buddy_order (frame_at j s) = of_nat k" "buddy_is_valid (frame_at j s)" "buddy_is_free (frame_at j s)"
  shows "blk j = Some (k, True)"
proof -
  have lohi: "lo \<le> j" "j < hi" using repD(5) [OF r j(1)] f(2) by auto
  note ok = repD(6) [OF r j lohi]
  have ne: "(of_nat k :: u32) \<noteq> 15"
    using of_nat_eq_word [of k 15] k by simp
  show ?thesis
  proof (cases "blk j")
    case None
    then show ?thesis using ok f(1) ne by (simp add: flags_ok_def)
  next
    case (Some p)
    then obtain l c where p: "blk j = Some (l, c)" by (cases p) auto
    then have "(of_nat l :: u32) = of_nat k" "c = True" using ok f by (auto simp: flags_ok_def)
    moreover have "l \<le> 10" using rep_block(4) [OF r p] .
    ultimately show ?thesis using of_nat_eq_word [of l k] k p by simp
  qed
qed

lemma put_frame_same [simp]: "put_frame j (frame_at j s) (unlinked i k s) = unlinked i k s"
  "put_frame j (frame_at j s) (linked i k s) = linked i k s"
  by (metis unlinked_simps(1) put_frame_simps(7), metis linked_simps(1) put_frame_simps(7))

definition merged :: "nat \<Rightarrow> nat \<Rightarrow> mm_state \<Rightarrow> mm_state" where
  "merged i k s = (let m = min i (i XOR 2 ^ k); M = max i (i XOR 2 ^ k);
     t = put_frame M (buddy_set_order (- 1) (clear_flag BUDDY_FREE (frame_at M s))) (unlinked (i XOR 2 ^ k) k s)
   in put_frame m (buddy_set_order (of_nat (Suc k)) (frame_at m t)) t)"

lemma buddy_merge_step:
  fixes s :: mm_state and i k :: nat
  defines "s1 \<equiv> put_frame i (set_flag BUDDY_FREE (frame_at i s)) s"
  assumes r: "rep {i} lo hi s blk fl" and i: "blk i = Some (k, False)"
  shows "rep {i} lo hi s1 blk fl" and "same_ctl s s1" and "buddy_is_free (frame_at i s1)"
    and "buddy_order (frame_at i s1) = buddy_order (frame_at i s)"
    and "buddy_merge (fno i) (of_nat k) s = Some (fno i, of_nat k, s1) \<or>
      (k < 10 \<and> blk (i XOR 2 ^ k) = Some (k, True) \<and>
       buddy_merge (fno i) (of_nat k) s
         = buddy_merge (fno (min i (i XOR 2 ^ k))) (of_nat (Suc k)) (merged i k s1))"
proof -
  define j where "j = i XOR 2 ^ k"
  note bi = rep_block [OF r i]
  have j: "j < 8192" "j \<noteq> i" using buddy_small [OF bi(3,4)] buddy_pair(3) [OF bi(5)] by (auto simp: j_def)
  have lock: "fr_lock (frame_at i s) = 0" using repD(4) [OF r bi(3)] .
  show r1: "rep {i} lo hi s1 blk fl"
    unfolding s1_def by (rule rep_put [OF r]) (use bi(3) lock in simp_all)
  show "same_ctl s s1" "buddy_is_free (frame_at i s1)"
    "buddy_order (frame_at i s1) = buddy_order (frame_at i s)" by (simp_all add: s1_def)
  have lock1: "\<And>x. x < 8192 \<Longrightarrow> fr_lock (frame_at x s1) = 0" using repD(4) [OF r1] .
  have idx: "buddy_index (fno i) (of_nat k) = fno j"
    using xor_fno [OF bi(4), of i] by (simp add: buddy_index_def j_def)
  have lt: "(of_nat k :: u32) < MAX_ORDER \<longleftrightarrow> k < 10"
    using of_nat_less_word [of k 10] bi(4) by (simp add: MAX_ORDER_def)
  define go where "go \<longleftrightarrow> k < 10 \<and> of_nat k = buddy_order (frame_at j s1) \<and>
    buddy_is_valid (frame_at j s1) \<and> buddy_is_free (frame_at j s1)"
  show "buddy_merge (fno i) (of_nat k) s = Some (fno i, of_nat k, s1) \<or>
      (k < 10 \<and> blk (i XOR 2 ^ k) = Some (k, True) \<and>
       buddy_merge (fno i) (of_nat k) s
         = buddy_merge (fno (min i (i XOR 2 ^ k))) (of_nat (Suc k)) (merged i k s1))"
  proof (cases go)
    case False
    then have "buddy_merge (fno i) (of_nat k) s = Some (fno i, of_nat k, s1)"
      using lock1 [OF j(1)]
      by (subst buddy_merge.simps)
        (simp add: op_norm bi(3) lock idx j(1) lt go_def flip: s1_def)
    then show ?thesis by simp
  next
    case True
    then have bj: "blk j = Some (k, True)"
      using buddy_is_mergeable [OF r1 j(1)] j(2) bi(4) by (simp add: go_def)
    define m where "m = min i j"
    define M where "M = max i j"
    have mM: "m < 8192" "M < 8192" "m \<noteq> M" using bi(3) j by (auto simp: m_def M_def)
    have k10: "k < 10" "k \<le> 10" and fj: "buddy_order (frame_at j s1) = of_nat k"
      "buddy_is_valid (frame_at j s1)" "buddy_is_free (frame_at j s1)" using True by (auto simp: go_def)
    have min_idx: "fno i AND fno j = fno m" using and_buddy [of i k] by (simp only: and_fno m_def j_def)
    have max_idx: "buddy_index (fno m) (of_nat k) = fno M"
      using xor_fno [OF bi(4), of m] buddy_pair(4) [OF bi(5)] by (simp add: buddy_index_def m_def M_def j_def)
    have suc: "(of_nat k :: u32) + 1 = of_nat (Suc k)" by simp
    let ?t = "put_frame M (buddy_set_order (- 1) (clear_flag BUDDY_FREE (frame_at M s1))) (unlinked j k s1)"
    have "buddy_merge (fno i) (of_nat k) s = buddy_merge (fno m) (of_nat (Suc k))
        (put_frame m (buddy_set_order (of_nat (Suc k)) (frame_at m ?t)) ?t)"
      using lock1 [OF j(1)] lock1 [OF mM(1)] lock1 [OF mM(2)] fj mM
      by (subst buddy_merge.simps)
        (simp add: op_norm bi(3) lock idx j(1) lt k10 min_idx max_idx frame_at_put suc Let_def
          flip: s1_def del: of_nat_Suc)
    then show ?thesis using k10 bj by (simp add: merged_def Let_def m_def M_def j_def)
  qed
qed

lemma buddy_merge_spec:
  assumes "rep {i} lo hi s blk fl" and "blk i = Some (k, False)"
    and "buddy_order (frame_at i s) = of_nat k"
  shows "\<exists>j m s' blk' fl'. buddy_merge (fno i) (of_nat k) s = Some (fno j, of_nat m, s') \<and>
    rep {j} lo hi s' blk' fl' \<and> blk' j = Some (m, False) \<and>
    flags_ok (frame_at j s') (Some (m, True)) \<and> same_ctl s s' \<and>
    covered True blk' \<union> {j..<j + 2 ^ m} = covered True blk \<union> {i..<i + 2 ^ k} \<and>
    (\<forall>x l. x \<noteq> i \<longrightarrow> blk x = Some (l, False) \<longrightarrow> x \<noteq> j \<and> blk' x = Some (l, False))"
  using assms
proof (induction "10 - k" arbitrary: i k s blk fl rule: less_induct)
  case less
  note st = buddy_merge_step [OF less.prems(1,2)]
  let ?s = "put_frame i (set_flag BUDDY_FREE (frame_at i s)) s"
  show ?case using st(5)
  proof (elim disjE conjE)
    assume "buddy_merge (fno i) (of_nat k) s = Some (fno i, of_nat k, ?s)"
    moreover have "flags_ok (frame_at i ?s) (Some (k, True))"
      using st(3,4) less.prems(3) by (simp add: flags_ok_def)
    ultimately show ?thesis using st(1,2) less.prems(2) by blast
  next
    assume k: "k < 10" and b: "blk (i XOR 2 ^ k) = Some (k, True)"
      and run: "buddy_merge (fno i) (of_nat k) s
         = buddy_merge (fno (min i (i XOR 2 ^ k))) (of_nat (Suc k)) (merged i k ?s)"
    define m where "m = min i (i XOR 2 ^ k)"
    let ?blk = "blk(m + 2 ^ k := None, m := Some (Suc k, False))"
    note rm = rep_merge [OF st(1) less.prems(2) k b, folded m_def]
    have mg: "merged i k ?s = put_frame m (buddy_set_order (of_nat (Suc k)) (frame_at m
        (put_frame (max i (i XOR 2 ^ k)) (buddy_set_order (- 1) (clear_flag BUDDY_FREE (frame_at (max i (i XOR 2 ^ k)) ?s))) (unlinked (i XOR 2 ^ k) k ?s))))
        (put_frame (max i (i XOR 2 ^ k)) (buddy_set_order (- 1) (clear_flag BUDDY_FREE (frame_at (max i (i XOR 2 ^ k)) ?s))) (unlinked (i XOR 2 ^ k) k ?s))"
      by (simp only: merged_def Let_def m_def)
    note rm' = rm [folded mg]
    obtain fl1 where r1: "rep {m} lo hi (merged i k ?s) ?blk fl1" using rm'(1) by blast
    have dec: "10 - Suc k < 10 - k" using k by simp
    have bm: "?blk m = Some (Suc k, False)" by simp
    obtain j l s' blk' fl' where s': "buddy_merge (fno m) (of_nat (Suc k)) (merged i k ?s) = Some (fno j, of_nat l, s')"
      "rep {j} lo hi s' blk' fl'" "blk' j = Some (l, False)" "flags_ok (frame_at j s') (Some (l, True))"
      "same_ctl (merged i k ?s) s'"
      "covered True blk' \<union> {j..<j + 2 ^ l} = covered True ?blk \<union> {m..<m + 2 ^ Suc k}"
      "\<forall>x n. x \<noteq> m \<longrightarrow> ?blk x = Some (n, False) \<longrightarrow> x \<noteq> j \<and> blk' x = Some (n, False)"
      using less.hyps [OF dec r1 bm rm'(2)] by blast
    have "same_ctl s s'"
      using same_ctl_trans [OF same_ctl_trans [OF st(2) rm'(3)] s'(5)] .
    moreover have "covered True blk' \<union> {j..<j + 2 ^ l} = covered True blk \<union> {i..<i + 2 ^ k}"
      using s'(6) rm'(6) by (simp only:)
    moreover have "\<forall>x n. x \<noteq> i \<longrightarrow> blk x = Some (n, False) \<longrightarrow> x \<noteq> j \<and> blk' x = Some (n, False)"
      using s'(7) rm'(7) by blast
    moreover have "buddy_merge (fno i) (of_nat k) s = Some (fno j, of_nat l, s')"
      using run s'(1) unfolding m_def by (simp only:)
    ultimately show ?thesis using s'(2-4)
      by (intro exI [of _ j] exI [of _ l] exI [of _ s'] exI [of _ blk'] exI [of _ fl'] conjI)
  qed
qed


section \<open>Releasing a block\<close>

lemma buddy_free_spec:
  assumes r: "rep {} lo hi s blk fl" and i: "blk i = Some (k, False)" and lock: "buddy_dir_lock s = 0"
  shows "\<exists>s' blk' fl'. buddy_free (fno i) s = Some s' \<and> rep {} lo hi s' blk' fl' \<and> same_ctl s s' \<and>
    covered True blk' = covered True blk \<union> {i..<i + 2 ^ k} \<and>
    (\<forall>x l. x \<noteq> i \<longrightarrow> blk x = Some (l, False) \<longrightarrow> blk' x = Some (l, False))"
proof -
  note b = rep_block [OF r i]
  have fo: "buddy_order (frame_at i s) = of_nat k"
    using repD(6) [OF r b(3) _ b(1,2)] i by (simp add: flags_ok_def)
  have "rep ({} \<union> {i}) lo hi s blk fl" by (rule rep_enter [OF r]) (use i in auto)
  then have r1: "rep {i} lo hi (set_dir_lock 1 s) blk fl" by (simp add: rep_dir_lock)
  have fo1: "buddy_order (frame_at i (set_dir_lock 1 s)) = of_nat k" using fo by simp
  obtain j m s' blk' fl' where s': "buddy_merge (fno i) (of_nat k) (set_dir_lock 1 s) = Some (fno j, of_nat m, s')"
    "rep {j} lo hi s' blk' fl'" "blk' j = Some (m, False)" "flags_ok (frame_at j s') (Some (m, True))"
    "same_ctl (set_dir_lock 1 s) s'"
    "covered True blk' \<union> {j..<j + 2 ^ m} = covered True blk \<union> {i..<i + 2 ^ k}"
    "\<forall>x l. x \<noteq> i \<longrightarrow> blk x = Some (l, False) \<longrightarrow> x \<noteq> j \<and> blk' x = Some (l, False)"
    using buddy_merge_spec [OF r1 i fo1] by blast
  note c = rep_block [OF s'(2,3)]
  let ?blk = "blk'(j := Some (m, True))"
  have r2: "rep {j} lo hi s' ?blk fl'"
  proof (rule rep_blk [OF s'(2)])
    have "orders ?blk = orders blk'" using s'(3) by auto
    then show "tiled (orders ?blk) lo hi" using repD(2) [OF s'(2)] by simp
    show "lo \<le> x \<and> x < hi" if "?blk x \<noteq> None" for x
      using that repD(3) [OF s'(2)] c(1,2) by (cases "x = j") auto
  qed simp
  have "rep ({j} - {j}) lo hi (linked j m s') ?blk (fl'(m := fl' m @ [j]))"
    by (rule rep_linked [OF r2]) (use s'(4) in simp_all)
  then have "rep {} lo hi (set_dir_lock 0 (linked j m s')) ?blk (fl'(m := fl' m @ [j]))"
    by (simp add: rep_dir_lock)
  moreover have "buddy_free (fno i) s = Some (set_dir_lock 0 (linked j m s'))"
    using s'(1) repD(4) [OF s'(2) c(3)]
    by (simp add: buddy_free_def op_norm b(3) c(3,4) lock fo)
  moreover have "covered True ?blk = covered True blk' \<union> {j..<j + 2 ^ m}"
  proof -
    have eq: "?blk(j := Some (m, False)) = blk'" using s'(3) by auto
    show ?thesis using covered_use_block [OF r2, of j m] unfolding eq by auto
  qed
  then have "covered True ?blk = covered True blk \<union> {i..<i + 2 ^ k}" using s'(6) by (simp only:)
  moreover have "same_ctl s (set_dir_lock 0 (linked j m s'))"
    using s'(5) lock by (simp add: same_ctl_def)
  moreover have "\<forall>x l. x \<noteq> i \<longrightarrow> blk x = Some (l, False) \<longrightarrow> ?blk x = Some (l, False)"
    using s'(7) by simp
  ultimately show ?thesis by blast
qed

section \<open>Releasing a run of frames\<close>

lemma chunks_down_ge: "(j, k) \<in> set (chunks_down f n c) \<Longrightarrow> f \<le> j"
  by (induction f n c rule: chunks_down.induct) (auto split: if_splits)

lemma buddy_free_loop_spec:
  assumes "n < 2 ^ c" and "c \<le> 11" and "rep {} lo hi s blk fl" and "buddy_dir_lock s = 0"
    and "\<And>j k. (j, k) \<in> set (chunks_down f n c) \<Longrightarrow> blk j = Some (k, False)"
    and "0 < c \<Longrightarrow> w = of_nat (c - 1) \<and> z = 2 ^ (c - 1)"
  shows "\<exists>s' blk' fl'. buddy_free_loop (fno f) (of_nat n) w z s = Some s' \<and>
    rep {} lo hi s' blk' fl' \<and> same_ctl s s' \<and> covered True blk' = covered True blk \<union> {f..<f + n} \<and>
    (\<forall>x l. x \<notin> {f..<f + n} \<longrightarrow> blk x = Some (l, False) \<longrightarrow> blk' x = Some (l, False))"
  using assms
proof (induction c arbitrary: f n w z s blk fl)
  case 0
  then have "n = 0" by simp
  then have "buddy_free_loop (fno f) (of_nat n) w z s = Some s"
    by (subst buddy_free_loop.simps) simp
  with 0 \<open>n = 0\<close> show ?case by (intro exI [of _ s] exI [of _ blk] exI [of _ fl]) simp
next
  case (Suc od)
  have wz: "w = of_nat od" "z = 2 ^ od" and od: "od \<le> 10" "od \<le> 11" using Suc.prems(2,6) by auto
  have next_wz: "0 < od \<Longrightarrow> of_nat od - 1 = (of_nat (od - 1) :: u32) \<and> drop_bit 1 (2 ^ od :: u32) = 2 ^ (od - 1)"
    using drop_bit_exp [of "od - 1"] od by (cases od) simp_all
  have "(2::nat) ^ Suc od \<le> 2 ^ 11" using Suc.prems(2) by (intro power_increasing) simp_all
  then have n: "n < 2048" using Suc.prems(1) by simp
  have pos: "sint (of_nat n :: u32) > 0 \<longleftrightarrow> n \<noteq> 0" using sint_small [of n] n by simp
  have test: "(of_nat n AND 2 ^ od :: u32) \<noteq> 0 \<longleftrightarrow> bit n od" using od by (intro word_bit_test) simp
  show ?case
  proof (cases "bit n od")
    case False
    then have lt: "n < 2 ^ od" using bit_top [OF Suc.prems(1)] by simp
    have ch: "chunks_down f n (Suc od) = chunks_down f n od" using False by simp
    have step: "buddy_free_loop (fno f) (of_nat n) w z s
        = buddy_free_loop (fno f) (of_nat n) (of_nat od - 1) (drop_bit 1 (2 ^ od)) s"
    proof (cases "n = 0")
      case True
      then show ?thesis by (subst (1 2) buddy_free_loop.simps) simp
    next
      case n0: False
      show ?thesis using n0 False unfolding wz
        by (subst buddy_free_loop.simps) (simp only: pos test if_True if_False simp_thms)
    qed
    show ?thesis unfolding step
      by (rule Suc.IH [OF lt od(2) Suc.prems(3,4) _ next_wz]) (use Suc.prems(5) ch in simp)
  next
    case True
    then have le: "2 ^ od \<le> n" using bit_top [OF Suc.prems(1)] by simp
    then have n0: "n \<noteq> 0" by (metis le_zero_eq power_not_zero zero_neq_numeral)
    have ch: "chunks_down f n (Suc od) = (f, od) # chunks_down (f + 2 ^ od) (n - 2 ^ od) od"
      using True by simp
    have f: "blk f = Some (od, False)" using Suc.prems(5) unfolding ch by simp
    obtain s1 blk1 fl1 where s1: "buddy_free (fno f) s = Some s1" "rep {} lo hi s1 blk1 fl1" "same_ctl s s1"
      "covered True blk1 = covered True blk \<union> {f..<f + 2 ^ od}"
      "\<forall>x l. x \<noteq> f \<longrightarrow> blk x = Some (l, False) \<longrightarrow> blk1 x = Some (l, False)"
      using buddy_free_spec [OF Suc.prems(3) f Suc.prems(4)] by blast
    have step: "buddy_free_loop (fno f) (of_nat n) w z s =
        buddy_free_loop (fno (f + 2 ^ od)) (of_nat (n - 2 ^ od)) (of_nat od - 1) (drop_bit 1 (2 ^ od)) s1"
      using n0 True unfolding wz
      by (subst buddy_free_loop.simps)
        (simp only: pos test if_True simp_thms, simp add: s1(1) of_nat_minus_exp [OF le])
    have rest: "n - 2 ^ od < 2 ^ od" "f + 2 ^ od + (n - 2 ^ od) = f + n" using Suc.prems(1) le by auto
    have lock1: "buddy_dir_lock s1 = 0" using s1(3) Suc.prems(4) by (simp add: same_ctl_def)
    have own: "blk1 j = Some (k, False)" if "(j, k) \<in> set (chunks_down (f + 2 ^ od) (n - 2 ^ od) od)" for j k
    proof -
      have "f + 2 ^ od \<le> j" using chunks_down_ge [OF that] .
      then have "j \<noteq> f" using zero_less_power [of "2::nat" od] by linarith
      then show ?thesis using s1(5) Suc.prems(5) [of j k] that unfolding ch by simp
    qed
    obtain s' blk' fl' where s': "buddy_free_loop (fno (f + 2 ^ od)) (of_nat (n - 2 ^ od)) (of_nat od - 1) (drop_bit 1 (2 ^ od)) s1 = Some s'"
      "rep {} lo hi s' blk' fl'" "same_ctl s1 s'" "covered True blk' = covered True blk1 \<union> {f + 2 ^ od..<f + n}"
      "\<forall>x l. x \<notin> {f + 2 ^ od..<f + n} \<longrightarrow> blk1 x = Some (l, False) \<longrightarrow> blk' x = Some (l, False)"
      using Suc.IH [where f = "f + 2 ^ od", OF rest(1) od(2) s1(2) lock1 own next_wz, unfolded rest(2)]
      by blast
    have "{f..<f + n} = {f..<f + 2 ^ od} \<union> {f + 2 ^ od..<f + n}" using le by auto
    then have "covered True blk' = covered True blk \<union> {f..<f + n}"
      using s'(4) s1(4) by (simp only: Un_assoc)
    moreover have "blk' x = Some (l, False)" if "x \<notin> {f..<f + n}" "blk x = Some (l, False)" for x l
    proof -
      have "x \<noteq> f" "x \<notin> {f + 2 ^ od..<f + n}" using that(1) n0 by auto
      with that(2) s1(5) s'(5) show ?thesis by blast
    qed
    moreover have "same_ctl s s'" by (rule same_ctl_trans [OF s1(3) s'(3)])
    ultimately show ?thesis using step s'(1,2) by auto
  qed
qed

end
