(* ===== verification/BuddyInit.thy ===== *)
theory BuddyInit
  imports BuddyFree
begin

text \<open>
  The initialisation of the buddy system: the list heads, the flags of the frames, and the
  pieces the run of frames is cut into, each put on the list of its order.
\<close>

section \<open>The pieces of a fresh run\<close>

fun fill_chunks :: "nat \<Rightarrow> nat \<Rightarrow> nat \<Rightarrow> (nat \<times> nat) list" where
  "fill_chunks f od 0 = []"
| "fill_chunks f od (Suc q) = (f, od) # fill_chunks (f + 2 ^ od) od q"

fun tail_chunks :: "nat \<Rightarrow> nat \<Rightarrow> nat \<Rightarrow> (nat \<times> nat) list" where
  "tail_chunks f n 0 = []"
| "tail_chunks f n (Suc od) = fill_chunks f od (n div 2 ^ od)
    @ tail_chunks (f + n div 2 ^ od * 2 ^ od) (n mod 2 ^ od) od"

lemma tiles_fill: "od \<le> 10 \<Longrightarrow> 2 ^ od dvd f \<Longrightarrow> tiles (fill_chunks f od q) f (f + q * 2 ^ od)"
proof (induction q arbitrary: f)
  case (Suc q)
  have "2 ^ od dvd f + 2 ^ od" using Suc.prems(2) by simp
  then have "tiles (fill_chunks (f + 2 ^ od) od q) (f + 2 ^ od) (f + 2 ^ od + q * 2 ^ od)"
    using Suc by blast
  with Suc.prems show ?case by (simp add: add.assoc)
qed simp

lemma tiles_tail: "c \<le> 11 \<Longrightarrow> 2 ^ (c - 1) dvd f \<Longrightarrow> c = 0 \<longrightarrow> n = 0 \<Longrightarrow> tiles (tail_chunks f n c) f (f + n)"
proof (induction c arbitrary: f n)
  case (Suc od)
  let ?q = "n div 2 ^ od" and ?r = "n mod 2 ^ od"
  have d: "2 ^ od dvd f" "od \<le> 10" using Suc.prems by simp_all
  have "(2::nat) ^ (od - 1) dvd 2 ^ od" by (simp add: le_imp_power_dvd)
  moreover have "2 ^ od dvd f + ?q * 2 ^ od" using d by simp
  ultimately have "2 ^ (od - 1) dvd f + ?q * 2 ^ od" by (rule dvd_trans)
  moreover have "od = 0 \<longrightarrow> ?r = 0" by simp
  ultimately have "tiles (tail_chunks (f + ?q * 2 ^ od) ?r od) (f + ?q * 2 ^ od) (f + ?q * 2 ^ od + ?r)"
    using Suc.IH [of "f + ?q * 2 ^ od" ?r] Suc.prems(1) by simp
  moreover have "f + ?q * 2 ^ od + ?r = f + n" by (simp add: add.assoc div_mult_mod_eq del: mod_mult_right_eq)
  moreover have "tiles (fill_chunks f od ?q) f (f + ?q * 2 ^ od)" using tiles_fill d by blast
  ultimately show ?case unfolding tail_chunks.simps tiles_append by (metis (no_types))
qed simp

section \<open>The list heads\<close>

lemma buddy_init_dir_spec:
  assumes "od \<le> 11"
    and "\<And>k. k < od \<Longrightarrow> dlist (chains s) (DirHead (of_nat k)) [] \<and> bd_list_len (buddy_dir s (of_nat k)) = 0"
  shows "\<exists>s'. buddy_init_dir (of_nat od) s = Some s' \<and> (\<forall>i. frame_at i s' = frame_at i s) \<and> same_ctl s s' \<and>
    (\<forall>k\<le>10. dlist (chains s') (DirHead (of_nat k)) [] \<and> bd_list_len (buddy_dir s' (of_nat k)) = 0)"
  using assms
proof (induction "11 - od" arbitrary: od s)
  case 0
  then have od: "od = 11" by simp
  then have "buddy_init_dir (of_nat od) s = Some s"
    by (subst buddy_init_dir.simps) (simp add: MAX_ORDER_def)
  then show ?case using 0 od by (intro exI [of _ s]) auto
next
  case (Suc x)
  then have od: "od \<le> 10" "Suc od \<le> 11" and x: "x = 11 - Suc od" by simp_all
  let ?s = "s\<lparr>buddy_dir := (buddy_dir s)(of_nat od := \<lparr>bd_order = ucast (of_nat od :: u32), bd_list_len = 0\<rparr>),
          chains := list_node_init (DirHead (of_nat od)) (chains s)\<rparr>"
  have step: "buddy_init_dir (of_nat od) s = buddy_init_dir (of_nat (Suc od)) ?s"
    using ord_ok [OF od(1)] by (subst buddy_init_dir.simps) (simp add: add.commute)
  have lists: "dlist (chains ?s) (DirHead (of_nat k)) [] \<and> bd_list_len (buddy_dir ?s (of_nat k)) = 0"
    if k: "k < Suc od" for k
  proof (cases "k = od")
    case True
    then show ?thesis by (simp add: dlist_init)
  next
    case False
    then have ne: "(of_nat k :: u32) \<noteq> of_nat od" and k': "k < od"
      using k of_nat_eq_word [of k od] od by auto
    show ?thesis using ne Suc.prems(2) [OF k'] by (simp add: dlist_init_other)
  qed
  obtain s' where s': "buddy_init_dir (of_nat (Suc od)) ?s = Some s'" "\<forall>i. frame_at i s' = frame_at i ?s"
    "same_ctl ?s s'"
    "\<forall>k\<le>10. dlist (chains s') (DirHead (of_nat k)) [] \<and> bd_list_len (buddy_dir s' (of_nat k)) = 0"
    using Suc.hyps(1) [OF x od(2) lists] by blast
  have "\<forall>i. frame_at i s' = frame_at i s" "same_ctl s s'"
    using s'(2,3) by (simp_all add: frame_at_def same_ctl_def)
  then show ?case using s'(1,4) step by (intro exI [of _ s']) simp
qed

section \<open>The flags of the frames\<close>

abbreviation fresh_frame :: "frame_t \<Rightarrow> frame_t" where
  "fresh_frame f \<equiv> buddy_set_order (- 1) (set_flag BUDDY_FREE (set_flag BUDDY_VALID f))"

lemma buddy_init_frames_spec:
  assumes "i \<le> n" and "lo + n \<le> 8192"
  shows "\<exists>s'. buddy_init_frames (of_nat i) (of_nat n) (fno (lo + i)) s = Some s' \<and> same_ctl s s' \<and>
    chains s' = chains s \<and> buddy_dir s' = buddy_dir s \<and>
    (\<forall>j<8192. frame_at j s' = (if lo + i \<le> j \<and> j < lo + n then fresh_frame (frame_at j s) else frame_at j s))"
  using assms(1)
proof (induction "n - i" arbitrary: i s)
  case 0
  then have "i = n" by simp
  then have "buddy_init_frames (of_nat i) (of_nat n) (fno (lo + i)) s = Some s"
    by (subst buddy_init_frames.simps) simp
  then show ?case using \<open>i = n\<close> by (intro exI [of _ s]) auto
next
  case (Suc x)
  then have i: "i < n" "Suc i \<le> n" "lo + i < 8192" and x: "x = n - Suc i" using assms(2) by simp_all
  let ?s = "put_frame (lo + i) (fresh_frame (frame_at (lo + i) s)) s"
  have lt: "(of_nat i :: u32) < of_nat n" using of_nat_less_word [of i n] i assms(2) by simp
  have step: "buddy_init_frames (of_nat i) (of_nat n) (fno (lo + i)) s
      = buddy_init_frames (of_nat (Suc i)) (of_nat n) (fno (lo + Suc i)) ?s"
    by (subst buddy_init_frames.simps)
      (simp only: lt if_True op_norm(2) [OF i(3)] bind.bind_lunit of_nat_Suc add_Suc_right add.commute [of 1])
  obtain s' where s': "buddy_init_frames (of_nat (Suc i)) (of_nat n) (fno (lo + Suc i)) ?s = Some s'"
    "same_ctl ?s s'" "chains s' = chains ?s" "buddy_dir s' = buddy_dir ?s"
    "\<forall>j<8192. frame_at j s' = (if lo + Suc i \<le> j \<and> j < lo + n then fresh_frame (frame_at j ?s) else frame_at j ?s)"
    using Suc.hyps(1) [OF x i(2)] by blast
  have "frame_at j s' = (if lo + i \<le> j \<and> j < lo + n then fresh_frame (frame_at j s) else frame_at j s)"
    if "j < 8192" for j
  proof (cases "j = lo + i")
    case True
    then show ?thesis using s'(5) that i by simp
  next
    case False
    then have "lo + i \<le> j \<longleftrightarrow> lo + Suc i \<le> j" by linarith
    with False that s'(5) i show ?thesis by (simp add: frame_at_put)
  qed
  moreover have "same_ctl s s'" "chains s' = chains s" "buddy_dir s' = buddy_dir s"
    using s'(2,3,4) by (simp_all add: same_ctl_def)
  ultimately show ?case using step s'(1) by (intro exI [of _ s']) simp
qed


section \<open>Putting the pieces on the lists\<close>

lemma rep_give_piece:
  assumes r: "rep X lo hi s blk fl" and f: "f \<in> X" "blk f = Some (k, True)"
    and g: "fr_lock g = 0" "buddy_is_valid g = buddy_is_valid (frame_at f s)"
      "buddy_order g = of_nat k" "buddy_is_free g"
  shows "rep (X - {f}) lo hi (linked f k (put_frame f g s)) blk (fl(k := fl k @ [f]))"
proof -
  have "f < 8192" using repD(3) [OF r f(2)] by simp
  then have "rep X lo hi (put_frame f g s) blk fl" by (intro rep_put [OF r f(1)] g)
  then show ?thesis by (rule rep_linked) (use f g in \<open>simp_all add: flags_ok_def\<close>)
qed

lemma buddy_init_head_spec:
  assumes "od + t \<le> 11" and "2 ^ od dvd n" and "n < 2 ^ (od + t)" and "rep X lo hi s blk fl"
    and "tiles (chunks_up f n od t) f (f + n)" and "fst ` set (chunks_up f n od t) \<subseteq> X"
    and "\<And>j k. (j, k) \<in> set (chunks_up f n od t) \<Longrightarrow> blk j = Some (k, True)"
  shows "\<exists>s' fl'. buddy_init_head (fno f) (of_nat n) (of_nat od) (2 ^ od) s = Some (fno (f + n), s') \<and>
    rep (X - fst ` set (chunks_up f n od t)) lo hi s' blk fl' \<and> same_ctl s s'"
  using assms
proof (induction t arbitrary: f n od s fl X)
  case 0
  then have "n = 0" using chunks_up_end by simp
  then have "buddy_init_head (fno f) (of_nat n) (of_nat od) (2 ^ od) s = Some (fno (f + n), s)"
    by (subst buddy_init_head.simps) simp
  with 0 \<open>n = 0\<close> show ?case by auto
next
  case (Suc t)
  have od: "od \<le> 10" and od_t: "Suc od + t \<le> 11" "n < 2 ^ (Suc od + t)" using Suc.prems(1,3) by simp_all
  have "(2::nat) ^ (od + Suc t) \<le> 2 ^ 11" using Suc.prems(1) by (intro power_increasing) simp_all
  then have n: "n < 2048" using Suc.prems(3) by simp
  have pos: "(of_nat n :: u32) > 0 \<longleftrightarrow> n \<noteq> 0" using of_nat_less_word [of 0 n] n by simp
  have test: "(of_nat n AND 2 ^ od :: u32) \<noteq> 0 \<longleftrightarrow> bit n od" using od by (intro word_bit_test) simp
  have arg: "(of_nat od + 1 :: u32) = of_nat (Suc od)" "push_bit 1 (2 ^ od :: u32) = 2 ^ Suc od"
    by (simp, rule push_bit_exp)
  note pass = exp_dvd_pass [OF Suc.prems(2)]
  show ?case
  proof (cases "bit n od")
    case False
    have ch: "chunks_up f n od (Suc t) = chunks_up f n (Suc od) t" using False by simp
    have step: "buddy_init_head (fno f) (of_nat n) (of_nat od) (2 ^ od) s =
        buddy_init_head (fno f) (of_nat n) (of_nat (Suc od)) (2 ^ Suc od) s"
    proof (cases "n = 0")
      case True
      then show ?thesis by (subst (1 2) buddy_init_head.simps) simp
    next
      case n0: False
      show ?thesis using n0 False
        by (subst buddy_init_head.simps) (simp only: pos test arg if_True if_False simp_thms)
    qed
    show ?thesis unfolding step ch
      by (rule Suc.IH [OF od_t(1) pass(1) [OF False] od_t(2) Suc.prems(4)])
        (use Suc.prems(5-7) in \<open>simp_all only: ch\<close>)
  next
    case True
    define m where "m = n - 2 ^ od"
    have nm: "n = 2 ^ od + m" "2 ^ Suc od dvd m" "m < 2 ^ (Suc od + t)" "f + 2 ^ od + m = f + n"
      using pass(2,3) [OF True] od_t(2) by (auto simp: m_def)
    have ch: "chunks_up f n od (Suc t) = (f, od) # chunks_up (f + 2 ^ od) m (Suc od) t"
      using True by (simp add: m_def)
    let ?rest = "chunks_up (f + 2 ^ od) m (Suc od) t"
    have tl: "tiles ?rest (f + 2 ^ od) (f + 2 ^ od + m)"
      using Suc.prems(5) unfolding ch nm(4) by simp
    have f_rest: "f \<notin> fst ` set ?rest" using tiles_range [OF tl] by force
    have f: "f \<in> X" "blk f = Some (od, True)" using Suc.prems(6,7) ch by auto
    have f_lt: "f < 8192" using repD(3) [OF Suc.prems(4) f(2)] by simp
    let ?g = "buddy_set_order (of_nat od) (set_flag BUDDY_FREE (frame_at f s))"
    let ?t = "linked f od (put_frame f ?g s)"
    have n0: "n \<noteq> 0" using nm(1) by simp
    have m_word: "(of_nat n - 2 ^ od :: u32) = of_nat m" by (simp add: nm(1))
    have step: "buddy_init_head (fno f) (of_nat n) (of_nat od) (2 ^ od) s =
        buddy_init_head (fno (f + 2 ^ od)) (of_nat m) (of_nat (Suc od)) (2 ^ Suc od) ?t"
      using n0 True
      by (subst buddy_init_head.simps)
        (simp only: pos test arg m_word if_True simp_thms, simp add: op_norm f_lt od)
    have rt: "rep (X - {f}) lo hi ?t blk (fl(od := fl od @ [f]))"
      by (rule rep_give_piece [OF Suc.prems(4) f])
        (use repD(4) [OF Suc.prems(4) f_lt] od in \<open>simp_all add: order_mask\<close>)
    have heads: "fst ` set ?rest \<subseteq> X - {f}" using Suc.prems(6) f_rest unfolding ch by auto
    obtain s' fl' where s': "buddy_init_head (fno (f + 2 ^ od)) (of_nat m) (of_nat (Suc od)) (2 ^ Suc od) ?t
        = Some (fno (f + n), s')"
      "rep (X - {f} - fst ` set ?rest) lo hi s' blk fl'" "same_ctl ?t s'"
      using Suc.IH [OF od_t(1) nm(2,3) rt tl heads, unfolded nm(4)] Suc.prems(7) unfolding ch by fastforce
    have "X - {f} - fst ` set ?rest = X - fst ` set (chunks_up f n od (Suc t))" unfolding ch by auto
    moreover have "same_ctl s s'" using s'(3) by (simp add: same_ctl_def)
    ultimately show ?thesis using step s'(1,2) by (intro exI [of _ s'] exI [of _ fl']) simp
  qed
qed

lemma buddy_init_fill_spec:
  assumes "od \<le> 10" and "rep X lo hi s blk fl" and "f + n \<le> hi" and "lo \<le> f"
    and "fst ` set (fill_chunks f od (n div 2 ^ od)) \<subseteq> X"
    and "\<And>j k. (j, k) \<in> set (fill_chunks f od (n div 2 ^ od)) \<Longrightarrow> blk j = Some (k, True)"
    and "tiles (fill_chunks f od (n div 2 ^ od)) f (f + n div 2 ^ od * 2 ^ od)"
  shows "\<exists>s' fl'. buddy_init_fill (fno f) (of_nat n) (of_nat od) (2 ^ od) s
      = Some (fno (f + n div 2 ^ od * 2 ^ od), of_nat (n mod 2 ^ od), s') \<and>
    rep (X - fst ` set (fill_chunks f od (n div 2 ^ od))) lo hi s' blk fl' \<and> same_ctl s s'"
  using assms(2-)
proof (induction "n div 2 ^ od" arbitrary: f n s fl X)
  case 0
  then have n: "n < 2 ^ od" by (simp add: div_eq_0_iff)
  have p: "(2::nat) ^ od \<le> 2 ^ 10" using assms(1) by (intro power_increasing) simp_all
  have "\<not> (2 ^ od :: u32) \<le> of_nat n" using of_nat_le_word [of "2 ^ od" n] n p by simp
  then have "buddy_init_fill (fno f) (of_nat n) (of_nat od) (2 ^ od) s = Some (fno f, of_nat n, s)"
    by (subst buddy_init_fill.simps) simp
  with 0 n show ?case by auto
next
  case (Suc q)
  have p: "(2::nat) ^ od \<le> 2 ^ 10" using assms(1) by (intro power_increasing) simp_all
  have hi: "hi \<le> 8192" using repD(1) [OF Suc.prems(1)] .
  have le: "2 ^ od \<le> n" using Suc.hyps(2) by (metis Suc_neq_Zero div_less not_less)
  define m where "m = n - 2 ^ od"
  have nm: "n = 2 ^ od + m" using le by (simp add: m_def)
  have q: "q = m div 2 ^ od" "n div 2 ^ od = Suc (m div 2 ^ od)" "n mod 2 ^ od = m mod 2 ^ od"
    using Suc.hyps(2) div_add_self1 [of "2 ^ od" m] unfolding nm by simp_all
  have ch: "fill_chunks f od (n div 2 ^ od) = (f, od) # fill_chunks (f + 2 ^ od) od (m div 2 ^ od)"
    by (simp add: q(2))
  let ?rest = "fill_chunks (f + 2 ^ od) od (m div 2 ^ od)"
  have sum: "f + n div 2 ^ od * 2 ^ od = f + 2 ^ od + m div 2 ^ od * 2 ^ od" by (simp add: q(2))
  have tl: "tiles ?rest (f + 2 ^ od) (f + 2 ^ od + m div 2 ^ od * 2 ^ od)"
    using Suc.prems(6) unfolding ch sum by simp
  have f: "f \<in> X" "blk f = Some (od, True)" using Suc.prems(4,5) unfolding ch by auto
  have fb: "f < 8192" "lo \<le> f" "f < hi" using repD(3) [OF Suc.prems(1) f(2)] by auto
  have valid: "buddy_is_valid (frame_at f s)" using repD(5) [OF Suc.prems(1) fb(1)] fb by simp
  have f_rest: "f \<notin> fst ` set ?rest" using tiles_range [OF tl] by force
  let ?g = "buddy_set_order (of_nat od) (set_flag BUDDY_FREE (set_flag BUDDY_VALID (frame_at f s)))"
  let ?t = "linked f od (put_frame f ?g s)"
  have ge: "(2 ^ od :: u32) \<le> of_nat n"
    using of_nat_le_word [of "2 ^ od" n] le p Suc.prems(2) hi by simp
  have m_word: "(of_nat n - 2 ^ od :: u32) = of_nat m" by (simp add: nm)
  have step: "buddy_init_fill (fno f) (of_nat n) (of_nat od) (2 ^ od) s =
      buddy_init_fill (fno (f + 2 ^ od)) (of_nat m) (of_nat od) (2 ^ od) ?t"
    by (subst buddy_init_fill.simps) (simp only: ge m_word if_True, simp add: op_norm fb assms(1))
  have rt: "rep (X - {f}) lo hi ?t blk (fl(od := fl od @ [f]))"
    by (rule rep_give_piece [OF Suc.prems(1) f])
      (use repD(4) [OF Suc.prems(1) fb(1)] assms(1) valid in \<open>simp_all add: order_mask\<close>)
  have heads: "fst ` set ?rest \<subseteq> X - {f}" using Suc.prems(4) f_rest unfolding ch by auto
  have bounds: "f + 2 ^ od + m \<le> hi" "lo \<le> f + 2 ^ od" using Suc.prems(2) fb(2) nm by simp_all
  obtain s' fl' where s': "buddy_init_fill (fno (f + 2 ^ od)) (of_nat m) (of_nat od) (2 ^ od) ?t
      = Some (fno (f + 2 ^ od + m div 2 ^ od * 2 ^ od), of_nat (m mod 2 ^ od), s')"
    "rep (X - {f} - fst ` set ?rest) lo hi s' blk fl'" "same_ctl ?t s'"
    using Suc.hyps(1) [OF q(1) rt bounds heads _ tl] Suc.prems(5) unfolding ch by fastforce
  have "X - {f} - fst ` set ?rest = X - fst ` set (fill_chunks f od (n div 2 ^ od))" unfolding ch by auto
  moreover have "same_ctl s s'" using s'(3) by (simp add: same_ctl_def)
  ultimately show ?case using step s'(1,2) unfolding sum q(3) by (intro exI [of _ s'] exI [of _ fl']) simp
qed


lemma tail_chunks_zero [simp]: "tail_chunks f 0 c = []"
  by (induction c arbitrary: f) auto

lemma buddy_init_tail_spec:
  assumes "c \<le> 11" and "c = 0 \<longrightarrow> n = 0" and "rep X lo hi s blk fl" and "f + n \<le> hi" and "lo \<le> f"
    and "fst ` set (tail_chunks f n c) \<subseteq> X" and "2 ^ (c - 1) dvd f"
    and "\<And>j k. (j, k) \<in> set (tail_chunks f n c) \<Longrightarrow> blk j = Some (k, True)"
    and "0 < c \<Longrightarrow> w = of_nat (c - 1) \<and> z = 2 ^ (c - 1)"
  shows "\<exists>s' fl'. buddy_init_tail (fno f) (of_nat n) w z s = Some s' \<and>
    rep (X - fst ` set (tail_chunks f n c)) lo hi s' blk fl' \<and> same_ctl s s'"
  using assms
proof (induction c arbitrary: f n w z s fl X)
  case 0
  then have "buddy_init_tail (fno f) (of_nat n) w z s = Some s"
    by (subst buddy_init_tail.simps) simp
  with 0 show ?case by auto
next
  case (Suc od)
  have wz: "w = of_nat od" "z = 2 ^ od" and od: "od \<le> 10" "od \<le> 11" using Suc.prems(1,9) by auto
  have next_wz: "0 < od \<Longrightarrow> of_nat od - 1 = (of_nat (od - 1) :: u32) \<and> drop_bit 1 (2 ^ od :: u32) = 2 ^ (od - 1)"
    using drop_bit_exp [of "od - 1"] od by (cases od) simp_all
  have hi: "hi \<le> 8192" using repD(1) [OF Suc.prems(3)] .
  have pos: "(of_nat n :: u32) > 0 \<longleftrightarrow> n \<noteq> 0"
    using of_nat_less_word [of 0 n] Suc.prems(4) hi by simp
  show ?case
  proof (cases "n = 0")
    case True
    then have "buddy_init_tail (fno f) (of_nat n) w z s = Some s"
      by (subst buddy_init_tail.simps) simp
    with True Suc.prems(3) show ?thesis by (intro exI [of _ s] exI [of _ fl]) simp
  next
    case False
    define q where "q = n div 2 ^ od"
    define m where "m = n mod 2 ^ od"
    define g where "g = f + q * 2 ^ od"
    have n: "n = q * 2 ^ od + m" by (simp add: q_def m_def div_mult_mod_eq)
    let ?fill = "fill_chunks f od q" and ?rest = "tail_chunks g m od"
    have ch: "tail_chunks f n (Suc od) = ?fill @ ?rest" by (simp add: q_def m_def g_def)
    have d: "2 ^ od dvd f" using Suc.prems(7) by simp
    have tf: "tiles ?fill f g" unfolding g_def by (rule tiles_fill [OF od(1) d])
    obtain s1 fl1 where s1: "buddy_init_fill (fno f) (of_nat n) (of_nat od) (2 ^ od) s = Some (fno g, of_nat m, s1)"
      "rep (X - fst ` set ?fill) lo hi s1 blk fl1" "same_ctl s s1"
    proof -
      have "fst ` set ?fill \<subseteq> X" using Suc.prems(6) unfolding ch by auto
      moreover have "\<And>j k. (j, k) \<in> set ?fill \<Longrightarrow> blk j = Some (k, True)"
        using Suc.prems(8) unfolding ch by simp
      ultimately have "\<exists>s' fl'. buddy_init_fill (fno f) (of_nat n) (of_nat od) (2 ^ od) s
          = Some (fno g, of_nat m, s') \<and> rep (X - fst ` set ?fill) lo hi s' blk fl' \<and> same_ctl s s'"
        by (rule buddy_init_fill_spec [OF od(1) Suc.prems(3-5), folded q_def m_def, folded g_def])
          (assumption | rule tf)+
      then show thesis using that by blast
    qed
    have step: "buddy_init_tail (fno f) (of_nat n) w z s
        = buddy_init_tail (fno g) (of_nat m) (of_nat od - 1) (drop_bit 1 (2 ^ od)) s1"
      using False unfolding wz
      by (subst buddy_init_tail.simps) (simp only: pos if_True simp_thms, simp add: s1(1))
    have "g + m = f + n" unfolding g_def using n by linarith
    then have bounds: "g + m \<le> hi" "lo \<le> g" "od = 0 \<longrightarrow> m = 0"
      using Suc.prems(4,5) by (simp_all add: g_def m_def)
    have "2 ^ od dvd g" using d by (simp add: g_def)
    then have dg: "2 ^ (od - 1) dvd g" by (rule power_le_dvd) simp
    have "tiles ?rest g (g + m)" by (rule tiles_tail [OF od(2) dg bounds(3)])
    then have "tiles (?fill @ ?rest) f (g + m)" using tf by (auto simp: tiles_append)
    from tiles_distinct [OF this] have disj: "fst ` set ?fill \<inter> fst ` set ?rest = {}" by simp
    then have heads: "fst ` set ?rest \<subseteq> X - fst ` set ?fill" using Suc.prems(6) unfolding ch by auto
    have blkr: "\<And>j k. (j, k) \<in> set ?rest \<Longrightarrow> blk j = Some (k, True)" using Suc.prems(8) unfolding ch by simp
    obtain s' fl' where s': "buddy_init_tail (fno g) (of_nat m) (of_nat od - 1) (drop_bit 1 (2 ^ od)) s1 = Some s'"
      "rep (X - fst ` set ?fill - fst ` set ?rest) lo hi s' blk fl'" "same_ctl s1 s'"
      using Suc.IH [OF od(2) bounds(3) s1(2) bounds(1,2) heads dg blkr next_wz] by blast
    have "X - fst ` set ?fill - fst ` set ?rest = X - fst ` set (tail_chunks f n (Suc od))"
      unfolding ch by auto
    with step s' same_ctl_trans [OF s1(3) s'(3)] show ?thesis by auto
  qed
qed

section \<open>The whole initialisation\<close>

definition fresh_mm :: "mm_state \<Rightarrow> bool" where
  "fresh_mm s \<longleftrightarrow> buddy_dir_lock s = 0 \<and>
    (\<forall>i<8192. fr_lock (frame_at i s) = 0 \<and> \<not> buddy_is_valid (frame_at i s))"

definition init_pieces :: "nat \<Rightarrow> nat \<Rightarrow> (nat \<times> nat) list" where
  "init_pieces lo n = (let ni = 1024 - lo mod 1024
     in chunks_up lo ni 0 11 @ tail_chunks (lo + ni) (n - ni) 11)"

lemma init_pieces_tiles:
  assumes "1024 - lo mod 1024 \<le> n"
  defines "ni \<equiv> 1024 - lo mod 1024"
  shows "tiles (chunks_up lo ni 0 11) lo (lo + ni)"
    and "tiles (tail_chunks (lo + ni) (n - ni) 11) (lo + ni) (lo + n)"
    and "tiles (init_pieces lo n) lo (lo + n)" and "1024 dvd lo + ni" and "0 < ni" and "ni \<le> 1024"
proof -
  have m: "lo mod 1024 < 1024" by simp
  then show b: "0 < ni" "ni \<le> 1024" by (simp_all add: ni_def)
  have "lo + ni = lo div 1024 * 1024 + 1024"
    using m div_mult_mod_eq [of lo 1024] unfolding ni_def by linarith
  then show d: "1024 dvd lo + ni" by simp
  show t1: "tiles (chunks_up lo ni 0 11) lo (lo + ni)"
    by (rule tiles_up) (use b d in simp_all)
  have "tiles (tail_chunks (lo + ni) (n - ni) 11) (lo + ni) (lo + ni + (n - ni))"
    by (rule tiles_tail) (use d in simp_all)
  then show t2: "tiles (tail_chunks (lo + ni) (n - ni) 11) (lo + ni) (lo + n)"
    using assms(1) by (simp add: ni_def)
  then show "tiles (init_pieces lo n) lo (lo + n)"
    using t1 by (auto simp: init_pieces_def Let_def tiles_append simp flip: ni_def)
qed


definition init_blocks :: "nat \<Rightarrow> nat \<Rightarrow> block_map" where
  "init_blocks lo n = map_of (map free_piece (init_pieces lo n))"

lemma init_blocks_pieces:
  assumes "1024 - lo mod 1024 \<le> n"
  shows "(j, k) \<in> set (init_pieces lo n) \<Longrightarrow> init_blocks lo n j = Some (k, True)"
    and "j \<notin> fst ` set (init_pieces lo n) \<Longrightarrow> init_blocks lo n j = None"
    and "init_blocks lo n j = Some (k, c) \<Longrightarrow> c \<and> (j, k) \<in> set (init_pieces lo n)"
proof -
  note t = init_pieces_tiles(3) [OF assms]
  have fst: "map fst (map free_piece (init_pieces lo n)) = map fst (init_pieces lo n)"
    by (simp add: free_piece_def comp_def)
  have dist: "distinct (map fst (map free_piece (init_pieces lo n)))"
    unfolding fst by (rule tiles_distinct [OF t])
  show "init_blocks lo n j = Some (k, True)" if "(j, k) \<in> set (init_pieces lo n)"
  proof -
    have "(j, k, True) \<in> set (map free_piece (init_pieces lo n))" using that by (force simp: free_piece_def)
    then show ?thesis unfolding init_blocks_def by (rule map_of_is_SomeI [OF dist])
  qed
  show "init_blocks lo n j = None" if "j \<notin> fst ` set (init_pieces lo n)"
  proof -
    have "j \<notin> set (map fst (map free_piece (init_pieces lo n)))" unfolding fst using that by simp
    then have "j \<notin> fst ` set (map free_piece (init_pieces lo n))" by (simp only: set_map not_False_eq_True)
    then show ?thesis unfolding init_blocks_def by (simp only: map_of_eq_None_iff not_False_eq_True)
  qed
  show "c \<and> (j, k) \<in> set (init_pieces lo n)" if "init_blocks lo n j = Some (k, c)"
  proof -
    have "(j, k, c) \<in> set (map free_piece (init_pieces lo n))"
      using that unfolding init_blocks_def by (rule map_of_SomeD)
    then show ?thesis by (auto simp: free_piece_def)
  qed
qed

lemma init_blocks_covered:
  assumes "1024 - lo mod 1024 \<le> n"
  shows "covered True (init_blocks lo n) = {lo..<lo + n}"
proof -
  have "covered True (init_blocks lo n) = piece_frames (init_pieces lo n)"
  proof (intro set_eqI iffI)
    fix x assume "x \<in> covered True (init_blocks lo n)"
    then obtain i k where "init_blocks lo n i = Some (k, True)" "i \<le> x" "x < i + 2 ^ k"
      by (auto simp: covered_def)
    then show "x \<in> piece_frames (init_pieces lo n)"
      using init_blocks_pieces(3) [OF assms] unfolding piece_frames_def by fastforce
  next
    fix x assume "x \<in> piece_frames (init_pieces lo n)"
    then obtain i k where "(i, k) \<in> set (init_pieces lo n)" "i \<le> x" "x < i + 2 ^ k"
      by (auto simp: piece_frames_def)
    then show "x \<in> covered True (init_blocks lo n)"
      using init_blocks_pieces(1) [OF assms] unfolding covered_def by blast
  qed
  also have "\<dots> = {lo..<lo + n}" by (rule tiles_frames [OF init_pieces_tiles(3) [OF assms]])
  finally show ?thesis .
qed

lemma fr_paddr_aligned: "fr_paddr fr AND (PAGE_SIZE - 1) = 0"
proof -
  have "PAGE_SIZE - 1 = (mask 12 :: u32)" by (simp add: PAGE_SIZE_def mask_numeral)
  then show ?thesis
    by (intro bit_word_eqI) (auto simp: fr_paddr_def bit_and_iff bit_push_bit_iff bit_mask_iff)
qed

lemma fno_low: "fno i AND (push_bit (unat MAX_ORDER) 1 - 1) = of_nat (i mod 1024)"
proof -
  have "(push_bit (unat MAX_ORDER) 1 - 1 :: u32) = mask 10" by (simp add: MAX_ORDER_def mask_numeral)
  then show ?thesis
    by (simp only: take_bit_eq_mask [symmetric] take_bit_of_nat) (simp add: take_bit_eq_mod)
qed

lemma init_rep:
  assumes fit: "lo + n \<le> 8192" and n: "1024 - lo mod 1024 \<le> n"
    and f: "\<And>j. j < 8192 \<Longrightarrow> frame_at j s = (if lo \<le> j \<and> j < lo + n then fresh_frame (g j) else g j)"
    and g: "\<And>j. j < 8192 \<Longrightarrow> fr_lock (g j) = 0 \<and> \<not> buddy_is_valid (g j)"
    and l: "\<And>k. k \<le> 10 \<Longrightarrow> dlist (chains s) (DirHead (of_nat k)) [] \<and> bd_list_len (buddy_dir s (of_nat k)) = 0"
  shows "rep (fst ` set (init_pieces lo n)) lo (lo + n) s (init_blocks lo n) (\<lambda>_. [])"
proof -
  note p = init_blocks_pieces [OF n] and t = init_pieces_tiles(3) [OF n]
  let ?X = "fst ` set (init_pieces lo n)" and ?blk = "init_blocks lo n"
  have "tiled (orders ?blk) lo (lo + n)"
    by (rule tiles_tiled [OF t]) (simp_all add: p)
  moreover have "lo \<le> i \<and> i < lo + n" if nn: "?blk i \<noteq> None" for i
  proof -
    obtain k c where "?blk i = Some (k, c)" using nn by (cases "?blk i") auto
    then have "(i, k) \<in> set (init_pieces lo n)" using p(3) by blast
    from tiles_range [OF t this] zero_less_power [of "2::nat" k] show ?thesis by linarith
  qed
  moreover have "frame_ok ?X lo (lo + n) s ?blk i" if "i < 8192" for i
    using f [OF that] g [OF that] p(2) [of i]
    by (auto simp: frame_ok_def flags_ok_def mask_numeral)
  moreover have "list_ok ?X s ?blk k []" if "k \<le> 10" for k
    using l [OF that] p(2) by (intro list_okI) auto
  ultimately show ?thesis using fit unfolding rep_def by blast
qed

lemma buddy_init_spec:
  assumes fresh: "fresh_mm s" and fit: "lo + n \<le> 8192" and n: "1024 - lo mod 1024 \<le> n"
  shows "\<exists>s' fl. buddy_init (fr_paddr (fno lo)) (of_nat n) s = Some (True, s') \<and>
    rep {} lo (lo + n) s' (init_blocks lo n) fl \<and> buddy_dir_lock s' = 0 \<and>
    buddy_start_addr s' = fr_paddr (fno lo) \<and> buddy_end_addr s' = fr_paddr (fno (lo + n))"
proof -
  define ni where "ni = 1024 - lo mod 1024"
  note t = init_pieces_tiles [OF n, folded ni_def] and p = init_blocks_pieces [OF n]
  have lo: "lo < 8192" using t(5) n fit by (simp add: ni_def)
  have ni_le: "ni \<le> n" using n by (simp add: ni_def)
  let ?s = "s\<lparr>buddy_start_addr := fr_paddr (fno lo), buddy_end_addr := fr_paddr (fno lo) + push_bit 12 (of_nat n)\<rparr>"
  obtain s1 where s1: "buddy_init_dir (of_nat 0) ?s = Some s1" "\<forall>i. frame_at i s1 = frame_at i ?s" "same_ctl ?s s1"
    "\<forall>k\<le>10. dlist (chains s1) (DirHead (of_nat k)) [] \<and> bd_list_len (buddy_dir s1 (of_nat k)) = 0"
    using buddy_init_dir_spec [of 0 ?s] by blast
  obtain s2 where s2: "buddy_init_frames (of_nat 0) (of_nat n) (fno (lo + 0)) s1 = Some s2" "same_ctl s1 s2"
    "chains s2 = chains s1" "buddy_dir s2 = buddy_dir s1"
    "\<forall>j<8192. frame_at j s2 = (if lo + 0 \<le> j \<and> j < lo + n then fresh_frame (frame_at j s1) else frame_at j s1)"
    using buddy_init_frames_spec [of 0 n lo s1] fit by blast
  have r2: "rep (fst ` set (init_pieces lo n)) lo (lo + n) s2 (init_blocks lo n) (\<lambda>_. [])"
  proof (rule init_rep [OF fit n])
    show "fr_lock (frame_at j s) = 0 \<and> \<not> buddy_is_valid (frame_at j s)" if "j < 8192" for j
      using fresh that by (simp add: fresh_mm_def)
    show "frame_at j s2 = (if lo \<le> j \<and> j < lo + n then fresh_frame (frame_at j s) else frame_at j s)"
      if "j < 8192" for j
      using s2(5) s1(2) that by (simp add: frame_at_def)
  qed (use s1(4) s2(3,4) in simp)
  let ?up = "chunks_up lo ni 0 11" and ?tl = "tail_chunks (lo + ni) (n - ni) 11"
  have pieces: "init_pieces lo n = ?up @ ?tl" by (simp add: init_pieces_def ni_def)
  have lt: "ni < 2 ^ (0 + 11)" using t(6) by simp
  have up: "fst ` set ?up \<subseteq> fst ` set (init_pieces lo n)" unfolding pieces by auto
  have "\<And>j k. (j, k) \<in> set ?up \<Longrightarrow> init_blocks lo n j = Some (k, True)" by (rule p(1)) (simp add: pieces)
  then obtain s3 fl3 where s3: "buddy_init_head (fno lo) (of_nat ni) (of_nat 0) (2 ^ 0) s2 = Some (fno (lo + ni), s3)"
    "rep (fst ` set (init_pieces lo n) - fst ` set ?up) lo (lo + n) s3 (init_blocks lo n) fl3" "same_ctl s2 s3"
    using buddy_init_head_spec [OF _ _ lt r2 t(1) up] by fastforce
  have "tiles (?up @ ?tl) lo (lo + n)" using t(3) unfolding pieces .
  from tiles_distinct [OF this] have disj: "fst ` set ?up \<inter> fst ` set ?tl = {}" by (simp del: chunks_up.simps)
  have tl: "fst ` set ?tl \<subseteq> fst ` set (init_pieces lo n) - fst ` set ?up" using disj unfolding pieces by auto
  have tl_blk: "\<And>j k. (j, k) \<in> set ?tl \<Longrightarrow> init_blocks lo n j = Some (k, True)" by (rule p(1)) (simp add: pieces)
  have b: "lo + ni + (n - ni) \<le> lo + n" "lo \<le> lo + ni" "2 ^ (11 - 1) dvd lo + ni" "(11::nat) = 0 \<longrightarrow> n - ni = 0"
    using ni_le t(4) by simp_all
  obtain s4 fl4 where s4: "buddy_init_tail (fno (lo + ni)) (of_nat (n - ni)) (of_nat 10) (2 ^ 10) s3 = Some s4"
    "rep (fst ` set (init_pieces lo n) - fst ` set ?up - fst ` set ?tl) lo (lo + n) s4 (init_blocks lo n) fl4"
    "same_ctl s3 s4"
    using buddy_init_tail_spec [OF _ b(4) s3(2) b(1,2) tl b(3) tl_blk, of "of_nat 10" "2 ^ 10"] by fastforce
  have empty: "fst ` set (init_pieces lo n) - fst ` set ?up - fst ` set ?tl = {}" unfolding pieces by auto
  have ni_word: "(push_bit (unat MAX_ORDER) 1 - (fno lo AND (push_bit (unat MAX_ORDER) 1 - 1)) :: u32) = of_nat ni"
    unfolding fno_low by (simp add: ni_def MAX_ORDER_def of_nat_diff)
  have n_word: "(of_nat n - of_nat ni :: u32) = of_nat (n - ni)" using ni_le by (simp add: of_nat_diff)
  have tail: "buddy_init_tail (fno (lo + ni)) (of_nat (n - ni)) MAX_ORDER (push_bit (unat MAX_ORDER) 1) s3 = Some s4"
    using s4(1) by (simp add: MAX_ORDER_def)
  have idx: "to_fr_idx (fr_paddr (fno lo)) = fno lo" by (simp add: unat_fno lo)
  have run: "buddy_init (fr_paddr (fno lo)) (of_nat n) s = Some (True, s4)"
    using s1(1) s2(1) s3(1) tail
    by (simp add: buddy_init_def fr_paddr_aligned idx Let_def ni_word n_word del: push_bit_of_1 of_nat_add)
  have "fr_paddr (fno lo) + push_bit 12 (of_nat n) = fr_paddr (fno (lo + n))"
    by (simp add: fr_paddr_def push_bit_eq_mult algebra_simps)
  then have "buddy_dir_lock s4 = 0 \<and> buddy_start_addr s4 = fr_paddr (fno lo) \<and>
      buddy_end_addr s4 = fr_paddr (fno (lo + n))"
    using s1(3) s2(2) s3(3) s4(3) fresh by (simp add: same_ctl_def fresh_mm_def)
  with run s4(2) show ?thesis unfolding empty by blast
qed

end
