(* ===== verification/BuddySafe.thy ===== *)
theory BuddySafe
  imports BuddyInit
begin

text \<open>
  The contract of the frame allocator. \<open>frame_allocator\<close> is the interface its clients rely on:
  what an allocation and a release do to the set of free frames and to the runs that are held.
  It is interpreted on the model of \<open>buddy_alloc_frames\<close> and \<open>buddy_free_frames\<close>; the client
  theorem (no frame is lost, none is handed out twice) is proved once inside the interface.
\<close>

section \<open>The interface\<close>

definition run_frames :: "nat \<times> nat \<Rightarrow> nat set" where
  "run_frames r = {fst r..<fst r + snd r}"

fun apart :: "(nat \<times> nat) list \<Rightarrow> bool" where
  "apart [] \<longleftrightarrow> True"
| "apart (r # rs) \<longleftrightarrow> (\<forall>q\<in>set rs. run_frames r \<inter> run_frames q = {}) \<and> apart rs"

definition ledger_frames :: "(nat \<times> nat) list \<Rightarrow> nat set" where
  "ledger_frames L = (\<Union>r\<in>set L. run_frames r)"

text \<open>The runs a client can reach: it allocates, keeps a ledger of what it got, and releases.\<close>

inductive client ::
    "(nat \<Rightarrow> 's \<Rightarrow> (nat option \<times> 's) option) \<Rightarrow> (nat \<Rightarrow> nat \<Rightarrow> 's \<Rightarrow> 's option) \<Rightarrow> nat \<Rightarrow> 's \<Rightarrow>
     's \<Rightarrow> (nat \<times> nat) list \<Rightarrow> bool"
  for al re cap s0 where
  client_start: "client al re cap s0 s0 []"
| client_alloc: "client al re cap s0 s L \<Longrightarrow> 0 < n \<Longrightarrow> n \<le> cap \<Longrightarrow> al n s = Some (Some i, s') \<Longrightarrow>
    client al re cap s0 s' ((i, n) # L)"
| client_refused: "client al re cap s0 s L \<Longrightarrow> 0 < n \<Longrightarrow> n \<le> cap \<Longrightarrow> al n s = Some (None, s') \<Longrightarrow>
    client al re cap s0 s' L"
| client_release: "client al re cap s0 s L \<Longrightarrow> (i, n) \<in> set L \<Longrightarrow> re i n s = Some s' \<Longrightarrow>
    client al re cap s0 s' (remove1 (i, n) L)"

lemma apart_remove1: "apart L \<Longrightarrow> apart (remove1 r L)"
proof (induction L)
  case (Cons q L)
  then show ?case using set_remove1_subset [of r L] by (cases "q = r") auto
qed simp

lemma apart_other:
  "apart L \<Longrightarrow> r \<in> set L \<Longrightarrow> q \<in> set (remove1 r L) \<Longrightarrow> run_frames r \<inter> run_frames q = {}"
  by (induction L) (auto split: if_splits)

lemma ledger_remove1:
  "apart L \<Longrightarrow> r \<in> set L \<Longrightarrow> ledger_frames L = ledger_frames (remove1 r L) \<union> run_frames r"
  by (induction L) (auto simp: ledger_frames_def)

locale frame_allocator =
  fixes inv :: "'s \<Rightarrow> bool" and free_set :: "'s \<Rightarrow> nat set" and holds :: "'s \<Rightarrow> nat \<Rightarrow> nat \<Rightarrow> bool"
    and al :: "nat \<Rightarrow> 's \<Rightarrow> (nat option \<times> 's) option" and re :: "nat \<Rightarrow> nat \<Rightarrow> 's \<Rightarrow> 's option"
    and cap :: nat
  assumes alloc_returns: "inv s \<Longrightarrow> 0 < n \<Longrightarrow> n \<le> cap \<Longrightarrow> \<exists>r s'. al n s = Some (r, s')"
    and alloc_some: "inv s \<Longrightarrow> 0 < n \<Longrightarrow> n \<le> cap \<Longrightarrow> al n s = Some (Some i, s') \<Longrightarrow>
      inv s' \<and> {i..<i + n} \<subseteq> free_set s \<and> free_set s' = free_set s - {i..<i + n} \<and> holds s' i n \<and>
      (\<forall>j m. holds s j m \<longrightarrow> holds s' j m)"
    and alloc_none: "inv s \<Longrightarrow> 0 < n \<Longrightarrow> n \<le> cap \<Longrightarrow> al n s = Some (None, s') \<Longrightarrow> s' = s"
    and release_law: "inv s \<Longrightarrow> 0 < n \<Longrightarrow> n \<le> cap \<Longrightarrow> holds s i n \<Longrightarrow>
      \<exists>s'. re i n s = Some s' \<and> inv s' \<and> free_set s' = free_set s \<union> {i..<i + n} \<and>
        (\<forall>j m. holds s j m \<and> {i..<i + n} \<inter> {j..<j + m} = {} \<longrightarrow> holds s' j m)"
    and holds_used: "inv s \<Longrightarrow> 0 < n \<Longrightarrow> n \<le> cap \<Longrightarrow> holds s i n \<Longrightarrow> {i..<i + n} \<inter> free_set s = {}"
begin

definition ledger_ok :: "'s \<Rightarrow> 's \<Rightarrow> (nat \<times> nat) list \<Rightarrow> bool" where
  "ledger_ok s0 s L \<longleftrightarrow> inv s \<and> apart L \<and> (\<forall>(i, n)\<in>set L. 0 < n \<and> n \<le> cap \<and> holds s i n) \<and>
    free_set s \<union> ledger_frames L = free_set s0 \<and> free_set s \<inter> ledger_frames L = {}"

lemma ledger_alloc:
  assumes ok: "ledger_ok s0 s L" and n: "0 < n" "n \<le> cap" and al: "al n s = Some (Some i, s')"
  shows "ledger_ok s0 s' ((i, n) # L)"
proof -
  from ok have inv: "inv s" by (simp add: ledger_ok_def)
  note law = alloc_some [OF inv n al]
  have run: "run_frames (i, n) = {i..<i + n}" by (simp add: run_frames_def)
  have "run_frames (i, n) \<inter> ledger_frames L = {}"
    using ok law unfolding run ledger_ok_def by blast
  then have "\<forall>q\<in>set L. run_frames (i, n) \<inter> run_frames q = {}"
    by (auto simp: ledger_frames_def)
  moreover have "ledger_frames ((i, n) # L) = {i..<i + n} \<union> ledger_frames L"
    by (simp add: ledger_frames_def run_frames_def)
  moreover have "free_set s' \<union> ({i..<i + n} \<union> ledger_frames L) = free_set s0"
    "free_set s' \<inter> ({i..<i + n} \<union> ledger_frames L) = {}"
    using ok law unfolding ledger_ok_def by blast+
  ultimately show ?thesis using ok law n unfolding ledger_ok_def by auto
qed

lemma ledger_release:
  assumes ok: "ledger_ok s0 s L" and mem: "(i, n) \<in> set L" and re: "re i n s = Some s'"
  shows "ledger_ok s0 s' (remove1 (i, n) L)"
proof -
  from ok mem have inv: "inv s" and n: "0 < n" "n \<le> cap" and h: "holds s i n" and ap: "apart L"
    by (auto simp: ledger_ok_def)
  from release_law [OF inv n h] re have law: "inv s'" "free_set s' = free_set s \<union> {i..<i + n}"
    "\<forall>j m. holds s j m \<and> {i..<i + n} \<inter> {j..<j + m} = {} \<longrightarrow> holds s' j m" by auto
  have run: "run_frames (i, n) = {i..<i + n}" by (simp add: run_frames_def)
  let ?L = "remove1 (i, n) L"
  have other: "run_frames (i, n) \<inter> run_frames q = {}" if "q \<in> set ?L" for q
    by (rule apart_other [OF ap mem that])
  have "\<forall>(j, m)\<in>set ?L. 0 < m \<and> m \<le> cap \<and> holds s' j m"
  proof (intro ballI, clarify)
    fix j m assume q: "(j, m) \<in> set ?L"
    then have "(j, m) \<in> set L" using set_remove1_subset by fast
    then have "0 < m \<and> m \<le> cap \<and> holds s j m" using ok by (auto simp: ledger_ok_def)
    moreover have "{i..<i + n} \<inter> {j..<j + m} = {}" using other [OF q] by (simp add: run_frames_def)
    ultimately show "0 < m \<and> m \<le> cap \<and> holds s' j m" using law(3) by blast
  qed
  moreover have "ledger_frames ?L \<inter> {i..<i + n} = {}"
    using other unfolding run ledger_frames_def by blast
  then have "free_set s' \<union> ledger_frames ?L = free_set s0" "free_set s' \<inter> ledger_frames ?L = {}"
    using ok law(2) ledger_remove1 [OF ap mem] unfolding run ledger_ok_def by blast+
  ultimately show ?thesis using law(1) apart_remove1 [OF ap] unfolding ledger_ok_def by blast
qed

theorem client_safe:
  assumes "inv s0" and "client al re cap s0 s L"
  shows "ledger_ok s0 s L"
  using assms(2)
proof (induction rule: client.induct)
  case client_start
  then show ?case using assms(1) by (simp add: ledger_ok_def ledger_frames_def)
next
  case (client_refused s L n s')
  have "inv s" using client_refused.IH by (simp add: ledger_ok_def)
  from alloc_none [OF this client_refused.hyps(2-4)] client_refused.IH show ?case by simp
qed (auto intro: ledger_alloc ledger_release)

end


section \<open>The allocator's state as a set of free frames and held runs\<close>

definition first_frame :: "mm_state \<Rightarrow> nat" where
  "first_frame s = unat (buddy_start_addr s) div 4096"

definition last_frame :: "mm_state \<Rightarrow> nat" where
  "last_frame s = unat (buddy_end_addr s) div 4096"

text \<open>The blocks as the flags of the frames show them.\<close>

definition block_of :: "mm_state \<Rightarrow> block_map" where
  "block_of s i =
    (if first_frame s \<le> i \<and> i < last_frame s \<and> buddy_order (frame_at i s) \<noteq> 15
     then Some (unat (buddy_order (frame_at i s)), buddy_is_free (frame_at i s)) else None)"

definition free_frames :: "mm_state \<Rightarrow> nat set" where
  "free_frames s = covered True (block_of s)"

definition holds_run :: "mm_state \<Rightarrow> nat \<Rightarrow> nat \<Rightarrow> bool" where
  "holds_run s i n \<longleftrightarrow> owned (block_of s) i n"

definition buddy_inv :: "mm_state \<Rightarrow> bool" where
  "buddy_inv s \<longleftrightarrow> 0 < first_frame s \<and> buddy_dir_lock s = 0 \<and>
    buddy_start_addr s = fr_paddr (fno (first_frame s)) \<and>
    buddy_end_addr s = fr_paddr (fno (last_frame s)) \<and>
    (\<exists>fl. rep {} (first_frame s) (last_frame s) s (block_of s) fl)"

lemma rep_block_of:
  assumes r: "rep {} (first_frame s) (last_frame s) s blk fl"
  shows "blk = block_of s"
proof
  fix i
  show "blk i = block_of s i"
  proof (cases "first_frame s \<le> i \<and> i < last_frame s")
    case True
    then have ok: "flags_ok (frame_at i s) (blk i)"
      using repD(6) [OF r, of i] repD(1) [OF r] by simp
    show ?thesis
    proof (cases "blk i")
      case None
      with ok show ?thesis by (simp add: flags_ok_def block_of_def)
    next
      case (Some p)
      then obtain k c where p: "blk i = Some (k, c)" by (cases p) auto
      have k: "k \<le> 10" using rep_block(4) [OF r p] .
      then have "(of_nat k :: u32) \<noteq> 15" "unat (of_nat k :: u32) = k"
        using of_nat_eq_word [of k 15] by (simp_all add: unat_small)
      then show ?thesis using ok p True by (simp add: flags_ok_def block_of_def)
    qed
  next
    case False
    then have "blk i = None" using repD(3) [OF r] by (cases "blk i") auto
    with False show ?thesis by (auto simp: block_of_def)
  qed
qed

lemma fr_paddr_num: "i \<le> 8192 \<Longrightarrow> unat (fr_paddr (fno i)) = 4096 * i"
  by (simp add: fr_paddr_def push_bit_eq_mult unat_word_ariths unat_small)

lemma paddr_lookup: "i \<le> 8192 \<Longrightarrow> unat (fr_paddr (fno i)) div 4096 = i"
  by (simp add: fr_paddr_num)

lemma buddy_invI:
  assumes "rep {} lo hi s blk fl" and "buddy_dir_lock s = 0" and "0 < lo" and "lo \<le> hi"
    and "buddy_start_addr s = fr_paddr (fno lo)" and "buddy_end_addr s = fr_paddr (fno hi)"
  shows "buddy_inv s" and "block_of s = blk" and "first_frame s = lo" and "last_frame s = hi"
proof -
  have hi: "hi \<le> 8192" using repD(1) [OF assms(1)] .
  then show l: "first_frame s = lo" "last_frame s = hi"
    using assms(4,5,6) by (simp_all add: first_frame_def last_frame_def paddr_lookup)
  then show b: "block_of s = blk" using rep_block_of [of s blk fl] assms(1) by simp
  then show "buddy_inv s" using assms l by (auto simp: buddy_inv_def)
qed

lemma buddy_invD:
  assumes "buddy_inv s"
  obtains fl where "rep {} (first_frame s) (last_frame s) s (block_of s) fl"
    and "buddy_dir_lock s = 0" and "0 < first_frame s" and "first_frame s \<le> last_frame s"
    and "buddy_start_addr s = fr_paddr (fno (first_frame s))"
    and "buddy_end_addr s = fr_paddr (fno (last_frame s))"
proof -
  obtain fl where r: "rep {} (first_frame s) (last_frame s) s (block_of s) fl"
    using assms by (auto simp: buddy_inv_def)
  have "first_frame s \<le> last_frame s" using tiled_le [OF repD(2) [OF r]] .
  with r that assms show thesis by (auto simp: buddy_inv_def)
qed

lemma buddy_inv_step:
  assumes "buddy_inv s" and "rep {} (first_frame s) (last_frame s) s' blk fl" and "same_ctl s s'"
  shows "buddy_inv s'" and "block_of s' = blk"
proof -
  obtain fl where "buddy_dir_lock s = 0" "0 < first_frame s" "first_frame s \<le> last_frame s"
    "buddy_start_addr s = fr_paddr (fno (first_frame s))"
    "buddy_end_addr s = fr_paddr (fno (last_frame s))"
    using assms(1) by (rule buddy_invD)
  then show "buddy_inv s'" "block_of s' = blk"
    using buddy_invI [OF assms(2)] assms(3) by (simp_all add: same_ctl_def)
qed

lemma owned_used: "owned blk i n \<Longrightarrow> n < 2048 \<Longrightarrow> {i..<i + n} \<subseteq> covered False blk"
proof -
  assume own: "owned blk i n" and n: "n < 2048"
  have "{i..<i + n} \<subseteq> piece_frames (chunks_down i n c)" if "n < 2 ^ c" for c
    using that
  proof (induction c arbitrary: i n)
    case (Suc od)
    show ?case
    proof (cases "bit n od")
      case True
      then have le: "2 ^ od \<le> n" using bit_top [OF Suc.prems] by simp
      then have "{i + 2 ^ od..<i + 2 ^ od + (n - 2 ^ od)} \<subseteq> piece_frames (chunks_down (i + 2 ^ od) (n - 2 ^ od) od)"
        using Suc.prems by (intro Suc.IH) simp
      then have rest: "{i + 2 ^ od..<i + n} \<subseteq> piece_frames (chunks_down (i + 2 ^ od) (n - 2 ^ od) od)"
        using le by simp
      have "piece_frames (chunks_down i n (Suc od))
          = {i..<i + 2 ^ od} \<union> piece_frames (chunks_down (i + 2 ^ od) (n - 2 ^ od) od)"
        using True by (simp add: piece_frames_def)
      moreover have "{i..<i + n} = {i..<i + 2 ^ od} \<union> {i + 2 ^ od..<i + n}"
        by (rule ivl_disj_un_two(3) [symmetric]) (use le in simp_all)
      ultimately show ?thesis using rest by blast
    next
      case False
      then have "n < 2 ^ od" using bit_top [OF Suc.prems] by simp
      with Suc.IH False show ?thesis by simp
    qed
  qed (simp add: piece_frames_def)
  from this [of 11] n have "{i..<i + n} \<subseteq> piece_frames (chunks_down i n 11)" by simp
  moreover have "piece_frames (chunks_down i n 11) \<subseteq> covered False blk"
  proof
    fix x assume "x \<in> piece_frames (chunks_down i n 11)"
    then obtain j k where "(j, k) \<in> set (chunks_down i n 11)" "j \<le> x" "x < j + 2 ^ k"
      by (auto simp: piece_frames_def)
    moreover from this have "blk j = Some (k, False)" using own unfolding owned_def by blast
    ultimately show "x \<in> covered False blk" unfolding covered_def by blast
  qed
  ultimately show ?thesis by blast
qed

lemma holds_run_used:
  assumes inv: "buddy_inv s" and h: "holds_run s i n" and n: "0 < n" "n \<le> 1024"
  shows "{i..<i + n} \<inter> free_frames s = {}" and "first_frame s \<le> i" and "i < last_frame s"
proof -
  obtain fl where r: "rep {} (first_frame s) (last_frame s) s (block_of s) fl"
    using inv by (rule buddy_invD)
  have used: "{i..<i + n} \<subseteq> covered False (block_of s)"
    using owned_used [of "block_of s" i n] h n by (simp add: holds_run_def)
  have dom: "first_frame s \<le> j \<and> j < last_frame s" if "block_of s j \<noteq> None" for j
    using that by (auto simp: block_of_def split: if_splits)
  show "{i..<i + n} \<inter> free_frames s = {}"
    using used covered_disjoint [OF repD(2) [OF r] dom] unfolding free_frames_def by blast
  have "i \<in> covered False (block_of s)" using used n by auto
  then obtain j k where j: "block_of s j = Some (k, False)" "j \<le> i" "i < j + 2 ^ k"
    by (auto simp: covered_def)
  from rep_block [OF r j(1)] j(2,3) show "first_frame s \<le> i" "i < last_frame s" by simp_all
qed

lemma owned_keep:
  assumes "owned blk j m" and "\<And>x l. x \<in> {j..<j + m} \<Longrightarrow> blk x = Some (l, False) \<Longrightarrow> blk' x = Some (l, False)"
    and "m < 2048"
  shows "owned blk' j m"
proof -
  have "x \<in> {j..<j + m}" if "(x, k) \<in> set (chunks_down j m c)" "m < 2 ^ c" for x k c
    using that
  proof (induction c arbitrary: j m)
    case (Suc od)
    show ?case
    proof (cases "bit m od")
      case True
      then have le: "2 ^ od \<le> m" using bit_top [OF Suc.prems(2)] by simp
      have "0 < (2::nat) ^ od" by simp
      with le have "0 < m" by (rule order_less_le_trans [rotated])
      then have "j \<in> {j..<j + m}" by simp
      moreover have "x \<in> {j + 2 ^ od..<j + 2 ^ od + (m - 2 ^ od)}" if "(x, k) \<noteq> (j, od)"
        using Suc.prems True that by (intro Suc.IH) auto
      ultimately show ?thesis using le by (cases "(x, k) = (j, od)") auto
    next
      case False
      then have "m < 2 ^ od" using bit_top [OF Suc.prems(2)] by simp
      with Suc False show ?thesis by simp
    qed
  qed simp
  from this [of _ _ 11] assms show ?thesis unfolding owned_def by fastforce
qed


section \<open>What the operations promise\<close>

lemma alloc_frames_cases:
  assumes inv: "buddy_inv s" and n: "0 < n" "n \<le> 1024"
  shows "(buddy_alloc_frames (of_nat n) s = Some (0, s) \<and>
      (\<forall>i k. block_of s i = Some (k, True) \<longrightarrow> 2 ^ k < n)) \<or>
    (\<exists>i s'. buddy_alloc_frames (of_nat n) s = Some (fr_paddr (fno i), s') \<and> 0 < i \<and> i < 8192 \<and>
      buddy_inv s' \<and> holds_run s' i n \<and> {i..<i + n} \<subseteq> free_frames s \<and>
      free_frames s' = free_frames s - {i..<i + n} \<and> (\<forall>j m. holds_run s j m \<longrightarrow> holds_run s' j m))"
proof -
  obtain fl where r: "rep {} (first_frame s) (last_frame s) s (block_of s) fl"
    and lock: "buddy_dir_lock s = 0" and lo: "0 < first_frame s"
    using inv by (rule buddy_invD)
  from buddy_alloc_frames_spec [OF r lock n] show ?thesis
  proof (elim disjE exE conjE)
    assume run: "buddy_alloc_frames (of_nat n) s = Some (0, s)"
      and none: "\<forall>k. n \<le> 2 ^ k \<and> k \<le> 10 \<longrightarrow> fl k = []"
    have "2 ^ k < n" if b: "block_of s i = Some (k, True)" for i k
    proof (rule ccontr)
      assume "\<not> 2 ^ k < n"
      moreover have k: "k \<le> 10" using rep_block(4) [OF r b] .
      ultimately have "fl k = []" using none by simp
      moreover have "i \<in> set (fl k)" using list_okD(2) [OF repD(7) [OF r k]] b by simp
      ultimately show False by simp
    qed
    with run show ?thesis by blast
  next
    fix i s' blk' fl'
    assume run: "buddy_alloc_frames (of_nat n) s = Some (fr_paddr (fno i), s')"
      and r': "rep {} (first_frame s) (last_frame s) s' blk' fl'" and ctl: "same_ctl s s'"
      and own: "owned blk' i n" and sub: "{i..<i + n} \<subseteq> covered True (block_of s)"
      and cov: "covered True blk' = covered True (block_of s) - {i..<i + n}"
      and keep: "\<forall>j m. block_of s j = Some (m, False) \<longrightarrow> blk' j = Some (m, False)"
    note st = buddy_inv_step [OF inv r' ctl]
    have "i \<in> covered True (block_of s)" using sub n by auto
    then obtain j k where j: "block_of s j = Some (k, True)" "j \<le> i" "i < j + 2 ^ k"
      by (auto simp: covered_def)
    have "0 < i" "i < 8192" using rep_block(1,6) [OF r j(1)] repD(1) [OF r] j lo by simp_all
    moreover have "\<forall>j m. holds_run s j m \<longrightarrow> holds_run s' j m"
      using keep by (simp add: holds_run_def st(2) owned_def)
    ultimately show ?thesis
      using run st own sub cov by (auto simp: holds_run_def free_frames_def)
  qed
qed

lemma valid_addr_fno:
  assumes "buddy_inv s" and "first_frame s \<le> i" and "i < last_frame s"
  shows "buddy_valid_addr (fr_paddr (fno i)) s" and "i < 8192"
proof -
  obtain fl where r: "rep {} (first_frame s) (last_frame s) s (block_of s) fl"
    and a: "buddy_start_addr s = fr_paddr (fno (first_frame s))"
      "buddy_end_addr s = fr_paddr (fno (last_frame s))"
    using assms(1) by (rule buddy_invD)
  have "last_frame s \<le> 8192" using repD(1) [OF r] .
  with assms(2,3) show "buddy_valid_addr (fr_paddr (fno i)) s" "i < 8192"
    by (simp_all add: buddy_valid_addr_def a word_le_nat_alt word_less_nat_alt fr_paddr_num)
qed

lemma free_frames_cases:
  assumes inv: "buddy_inv s" and h: "holds_run s i n" and n: "0 < n" "n \<le> 1024"
  shows "\<exists>s'. buddy_free_frames (fr_paddr (fno i)) (of_nat n) s = Some (True, s') \<and> buddy_inv s' \<and>
    free_frames s' = free_frames s \<union> {i..<i + n} \<and>
    (\<forall>j m. m \<le> 1024 \<longrightarrow> holds_run s j m \<and> {i..<i + n} \<inter> {j..<j + m} = {} \<longrightarrow> holds_run s' j m)"
proof -
  obtain fl where r: "rep {} (first_frame s) (last_frame s) s (block_of s) fl"
    and lock: "buddy_dir_lock s = 0"
    using inv by (rule buddy_invD)
  note valid = valid_addr_fno [OF inv holds_run_used(2,3) [OF inv h n]]
  have un: "unat (of_nat n :: u32) = n" using n by (intro unat_small) simp
  obtain o' where o': "ceil_order (of_nat n) = of_nat o'" "o' \<le> 10" "n \<le> 2 ^ o'"
    using ceil_order_small [of "of_nat n"] n un by auto
  have lt: "n < 2 ^ Suc o'" using o'(3) by (rule le_less_trans) simp
  have ch: "chunks_down i n 11 = chunks_down i n (Suc o')" using chunks_down_11 [OF _ lt] o'(2) by simp
  have own: "\<And>j k. (j, k) \<in> set (chunks_down i n (Suc o')) \<Longrightarrow> block_of s j = Some (k, False)"
    using h unfolding holds_run_def owned_def ch by blast
  obtain s' blk' fl' where s': "buddy_free_loop (fno i) (of_nat n) (of_nat o') (2 ^ o') s = Some s'"
    "rep {} (first_frame s) (last_frame s) s' blk' fl'" "same_ctl s s'"
    "covered True blk' = covered True (block_of s) \<union> {i..<i + n}"
    "\<forall>x l. x \<notin> {i..<i + n} \<longrightarrow> block_of s x = Some (l, False) \<longrightarrow> blk' x = Some (l, False)"
    using buddy_free_loop_spec [where f = i and w = "of_nat o'" and z = "2 ^ o'", OF lt _ r lock own] o'(2)
    by simp blast
  note st = buddy_inv_step [OF inv s'(2,3)]
  have sz: "push_bit (unat (of_nat o' :: u32)) (1 :: u32) = 2 ^ o'" using o'(2) by (simp add: unat_small)
  have le: "\<not> ceil_order (of_nat n) > MAX_ORDER" using ord_ok [OF o'(2)] o'(1) by (simp add: not_less)
  have "buddy_free_frames (fr_paddr (fno i)) (of_nat n) s = Some (True, s')"
    using valid le s'(1) sz o'(1) by (simp add: buddy_free_frames_def fr_paddr_aligned Let_def unat_fno)
  moreover have "free_frames s' = free_frames s \<union> {i..<i + n}"
    using s'(4) by (simp add: free_frames_def st(2))
  moreover have "holds_run s' j m"
    if m: "m \<le> 1024" "holds_run s j m" "{i..<i + n} \<inter> {j..<j + m} = {}" for j m
  proof -
    have "owned blk' j m"
      by (rule owned_keep [of "block_of s"]) (use m s'(5) in \<open>auto simp: holds_run_def\<close>)
    then show ?thesis by (simp add: holds_run_def st(2))
  qed
  ultimately show ?thesis using st(1) by blast
qed

section \<open>The interface holds of the code\<close>

text \<open>The calls of a client, on frame numbers: address 0 is the refusal.\<close>

definition request :: "nat \<Rightarrow> mm_state \<Rightarrow> (nat option \<times> mm_state) option" where
  "request n s = map_option (\<lambda>(pa, s'). (if pa = 0 then None else Some (unat pa div 4096), s'))
    (buddy_alloc_frames (of_nat n) s)"

definition give_back :: "nat \<Rightarrow> nat \<Rightarrow> mm_state \<Rightarrow> mm_state option" where
  "give_back i n s = (case buddy_free_frames (fr_paddr (fno i)) (of_nat n) s of
     Some (True, s') \<Rightarrow> Some s' | _ \<Rightarrow> None)"

definition holds_small :: "mm_state \<Rightarrow> nat \<Rightarrow> nat \<Rightarrow> bool" where
  "holds_small s i n \<longleftrightarrow> n \<le> 1024 \<and> holds_run s i n"

lemma paddr_nonzero: "0 < i \<Longrightarrow> i < 8192 \<Longrightarrow> fr_paddr (fno i) \<noteq> 0"
  using fr_paddr_num [of i] by (metis less_imp_le mult_eq_0_iff neq0_conv unat_0 zero_neq_numeral)

lemma request_cases:
  assumes inv: "buddy_inv s" and n: "0 < n" "n \<le> 1024"
  shows "request n s = Some (None, s) \<or>
    (\<exists>i s'. request n s = Some (Some i, s') \<and> buddy_inv s' \<and> holds_run s' i n \<and>
      {i..<i + n} \<subseteq> free_frames s \<and> free_frames s' = free_frames s - {i..<i + n} \<and>
      (\<forall>j m. holds_run s j m \<longrightarrow> holds_run s' j m))"
  using alloc_frames_cases [OF assms]
proof (elim disjE exE conjE)
  fix i s'
  assume "buddy_alloc_frames (of_nat n) s = Some (fr_paddr (fno i), s')" "0 < i" "i < 8192"
  then have "request n s = Some (Some i, s')"
    by (simp add: request_def paddr_nonzero paddr_lookup)
  moreover assume "buddy_inv s'" "holds_run s' i n" "{i..<i + n} \<subseteq> free_frames s"
    "free_frames s' = free_frames s - {i..<i + n}" "\<forall>j m. holds_run s j m \<longrightarrow> holds_run s' j m"
  ultimately show ?thesis by blast
qed (simp add: request_def)

interpretation buddy: frame_allocator buddy_inv free_frames holds_small request give_back 1024
proof
  fix s and n i :: nat
  assume inv: "buddy_inv s" and n: "0 < n" "n \<le> 1024"
  note c = request_cases [OF inv n]
  show "\<exists>r s'. request n s = Some (r, s')" using c by blast
  show "buddy_inv s' \<and> {i..<i + n} \<subseteq> free_frames s \<and> free_frames s' = free_frames s - {i..<i + n} \<and>
      holds_small s' i n \<and> (\<forall>j m. holds_small s j m \<longrightarrow> holds_small s' j m)"
    if "request n s = Some (Some i, s')" for s'
    using c n that by (auto simp: holds_small_def)
  show "s' = s" if "request n s = Some (None, s')" for s' using c that by auto
  assume h: "holds_small s i n"
  then have h': "holds_run s i n" by (simp add: holds_small_def)
  show "{i..<i + n} \<inter> free_frames s = {}" by (rule holds_run_used(1) [OF inv h' n])
  obtain s' where s': "buddy_free_frames (fr_paddr (fno i)) (of_nat n) s = Some (True, s')" "buddy_inv s'"
    "free_frames s' = free_frames s \<union> {i..<i + n}"
    "\<forall>j m. m \<le> 1024 \<longrightarrow> holds_run s j m \<and> {i..<i + n} \<inter> {j..<j + m} = {} \<longrightarrow> holds_run s' j m"
    using free_frames_cases [OF inv h' n] by blast
  have "give_back i n s = Some s'" by (simp add: give_back_def s'(1))
  with s'(2-4) show "\<exists>s'. give_back i n s = Some s' \<and> buddy_inv s' \<and> free_frames s' = free_frames s \<union> {i..<i + n} \<and>
      (\<forall>j m. holds_small s j m \<and> {i..<i + n} \<inter> {j..<j + m} = {} \<longrightarrow> holds_small s' j m)"
    by (auto simp: holds_small_def)
qed


section \<open>Properties\<close>

lemma fresh_mm_boot: "fresh_mm mm_boot"
  by (simp add: fresh_mm_def mm_boot_def frame_at_def buddy_is_valid_def)

text \<open>\<open>ceil_order\<close> is the least order whose block holds \<open>n\<close> frames, for every \<open>n\<close> up to 2048. For
  a larger \<open>n\<close> it is 12, two above \<open>MAX_ORDER\<close>, and not the \<open>MAX_ORDER + 1\<close> its comment
  promises.\<close>

theorem ceil_order_least:
  "(unat n \<le> 2048 \<longrightarrow> unat (ceil_order n) \<le> 11 \<and> unat n \<le> 2 ^ unat (ceil_order n) \<and>
      (\<forall>k. unat n \<le> 2 ^ k \<longrightarrow> unat (ceil_order n) \<le> k)) \<and>
   (2048 < unat n \<longrightarrow> ceil_order n = MAX_ORDER + 2)"
proof -
  obtain r where r: "ceil_order n = of_nat r" "r \<le> 12" "r < 12 \<longrightarrow> unat n \<le> 2 ^ r"
    "\<forall>k<r. 2 ^ k < unat n" using ceil_order_spec by blast
  have ur: "unat (ceil_order n) = r" using r(1,2) by (simp add: unat_small)
  have least: "r \<le> k" if "unat n \<le> 2 ^ k" for k
  proof (rule ccontr)
    assume "\<not> r \<le> k"
    then have "2 ^ k < unat n" using r(4) by simp
    with that show False by simp
  qed
  have small: "r \<le> 11 \<and> r < 12" if "unat n \<le> 2048" using least [of 11] that by simp
  moreover have "r = 12" if "2048 < unat n"
  proof (rule ccontr)
    assume "r \<noteq> 12"
    then have "r \<le> 11" "unat n \<le> 2 ^ r" using r(2,3) by simp_all
    moreover from this(1) have "(2::nat) ^ r \<le> 2 ^ 11" by (rule power_increasing) simp
    ultimately show False using that by simp
  qed
  ultimately show ?thesis using r(1,3) least unfolding ur by (simp add: MAX_ORDER_def)
qed

theorem ceil_order_least_witness:
  "unat (ceil_order 5) \<le> 11 \<and> 5 \<le> (2::nat) ^ unat (ceil_order 5) \<and> ceil_order 3000 = MAX_ORDER + 2"
  using ceil_order_least [of 5] ceil_order_least [of 3000] by simp

text \<open>C4. \<open>buddy_init\<close> on a run of whole frames that reaches the next 4 MB boundary returns
  true, establishes the invariant of the allocator, and every frame of the run is free.\<close>

theorem buddy_init_ok:
  assumes "fresh_mm s" and "0 < lo" and "lo + n \<le> 8192" and "1024 - lo mod 1024 \<le> n"
  shows "\<exists>s'. buddy_init (fr_paddr (of_nat lo)) (of_nat n) s = Some (True, s') \<and> buddy_inv s' \<and>
    free_frames s' = {lo..<lo + n} \<and> first_frame s' = lo \<and> last_frame s' = lo + n"
proof -
  obtain s' fl where s': "buddy_init (fr_paddr (fno lo)) (of_nat n) s = Some (True, s')"
    "rep {} lo (lo + n) s' (init_blocks lo n) fl" "buddy_dir_lock s' = 0"
    "buddy_start_addr s' = fr_paddr (fno lo)" "buddy_end_addr s' = fr_paddr (fno (lo + n))"
    using buddy_init_spec [OF assms(1,3,4)] by blast
  from buddy_invI [OF s'(2,3) assms(2) _ s'(4,5)] s'(1) init_blocks_covered [OF assms(4)]
  show ?thesis by (simp add: free_frames_def)
qed

theorem buddy_init_ok_witness:
  "\<exists>s'. buddy_init (fr_paddr (of_nat 1020)) (of_nat 1028) mm_boot = Some (True, s') \<and> buddy_inv s' \<and>
    free_frames s' = {1020..<1020 + 1028} \<and> first_frame s' = 1020 \<and> last_frame s' = 1020 + 1028"
  by (rule buddy_init_ok [OF fresh_mm_boot]) simp_all

lemma booted:
  obtains s where "buddy_inv s" and "free_frames s = {1020..<1024}"
    and "buddy_init (fr_paddr (of_nat 1020)) (of_nat 4) mm_boot = Some (True, s)"
    and "first_frame s = 1020" and "last_frame s = 1024"
proof -
  obtain s fl where s: "buddy_init (fr_paddr (fno 1020)) (of_nat 4) mm_boot = Some (True, s)"
    "rep {} 1020 (1020 + 4) s (init_blocks 1020 4) fl" "buddy_dir_lock s = 0"
    "buddy_start_addr s = fr_paddr (fno 1020)" "buddy_end_addr s = fr_paddr (fno (1020 + 4))"
    using buddy_init_spec [OF fresh_mm_boot, of 1020 4] by auto
  from buddy_invI [OF s(2,3) _ _ s(4,5)] init_blocks_covered [of 1020 4] s(1) that
  show thesis by (simp add: free_frames_def)
qed

text \<open>C2. A request for \<open>n\<close> frames, 1 to 1024, always returns. Either the answer is address 0 and
  nothing has changed, or it is the address of a run of \<open>n\<close> frames that were all free: exactly
  these frames stop being free, the caller holds the run, every run held before is still
  held, and the invariant holds again.\<close>

theorem buddy_alloc_frames_ok:
  assumes "buddy_inv s" and "0 < n" and "n \<le> 1024"
  shows "buddy_alloc_frames (of_nat n) s = Some (0, s) \<or>
    (\<exists>i s'. buddy_alloc_frames (of_nat n) s = Some (fr_paddr (of_nat i), s') \<and> 0 < i \<and> i < 8192 \<and>
      buddy_inv s' \<and> {i..<i + n} \<subseteq> free_frames s \<and> free_frames s' = free_frames s - {i..<i + n} \<and>
      holds_run s' i n \<and> (\<forall>j m. holds_run s j m \<longrightarrow> holds_run s' j m))"
  using alloc_frames_cases [OF assms] by blast

theorem buddy_alloc_frames_ok_witness:
  "\<exists>s. buddy_init (fr_paddr (of_nat 1020)) (of_nat 4) mm_boot = Some (True, s) \<and>
    (buddy_alloc_frames (of_nat 3) s = Some (0, s) \<or>
    (\<exists>i s'. buddy_alloc_frames (of_nat 3) s = Some (fr_paddr (of_nat i), s') \<and> 0 < i \<and> i < 8192 \<and>
      buddy_inv s' \<and> {i..<i + 3} \<subseteq> free_frames s \<and> free_frames s' = free_frames s - {i..<i + 3} \<and>
      holds_run s' i 3 \<and> (\<forall>j m. holds_run s j m \<longrightarrow> holds_run s' j m)))"
proof -
  obtain s where s: "buddy_inv s" "buddy_init (fr_paddr (of_nat 1020)) (of_nat 4) mm_boot = Some (True, s)"
    by (rule booted)
  show ?thesis using buddy_alloc_frames_ok [OF s(1), of 3] s(2) by auto
qed

text \<open>C5. A request is refused only when it has to be: as long as there is a free block of at least
  \<open>n\<close> frames, the allocation succeeds.\<close>

theorem buddy_alloc_frames_serves:
  assumes "buddy_inv s" and "0 < n" and "n \<le> 1024" and "block_of s i = Some (k, True)" and "n \<le> 2 ^ k"
  shows "\<exists>pa s'. buddy_alloc_frames (of_nat n) s = Some (pa, s') \<and> pa \<noteq> 0"
  using alloc_frames_cases [OF assms(1-3)]
proof (elim disjE conjE exE)
  assume "\<forall>i k. block_of s i = Some (k, True) \<longrightarrow> 2 ^ k < n"
  then show ?thesis using assms(4,5) by (meson not_less)
next
  fix j s' assume "buddy_alloc_frames (of_nat n) s = Some (fr_paddr (fno j), s')" "0 < j" "j < 8192"
  then show ?thesis using paddr_nonzero by blast
qed

theorem buddy_alloc_frames_serves_witness:
  "\<exists>s. buddy_init (fr_paddr (of_nat 1020)) (of_nat 4) mm_boot = Some (True, s) \<and>
    (\<exists>pa s'. buddy_alloc_frames (of_nat 1) s = Some (pa, s') \<and> pa \<noteq> 0)"
proof -
  obtain s where s: "buddy_inv s" "free_frames s = {1020..<1024}"
    "buddy_init (fr_paddr (of_nat 1020)) (of_nat 4) mm_boot = Some (True, s)" by (rule booted)
  have "1020 \<in> covered True (block_of s)" using s(2) by (simp add: free_frames_def)
  then obtain i k where "block_of s i = Some (k, True)" by (auto simp: covered_def)
  from buddy_alloc_frames_serves [OF s(1) _ _ this, of 1] s(3) show ?thesis by auto
qed

text \<open>C3. Releasing a run that is held returns true and makes exactly its frames free again;
  the invariant holds and every other run stays held.\<close>

theorem buddy_free_frames_ok:
  assumes "buddy_inv s" and "holds_run s i n" and "0 < n" and "n \<le> 1024"
  shows "\<exists>s'. buddy_free_frames (fr_paddr (of_nat i)) (of_nat n) s = Some (True, s') \<and> buddy_inv s' \<and>
    free_frames s' = free_frames s \<union> {i..<i + n} \<and>
    (\<forall>j m. m \<le> 1024 \<longrightarrow> holds_run s j m \<and> {i..<i + n} \<inter> {j..<j + m} = {} \<longrightarrow> holds_run s' j m)"
  by (rule free_frames_cases [OF assms])

theorem buddy_free_frames_ok_witness:
  "\<exists>s i s1. buddy_alloc_frames (of_nat 1) s = Some (fr_paddr (of_nat i), s1) \<and>
    (\<exists>s'. buddy_free_frames (fr_paddr (of_nat i)) (of_nat 1) s1 = Some (True, s') \<and> buddy_inv s' \<and>
      free_frames s' = free_frames s1 \<union> {i..<i + 1})"
proof -
  obtain s where s: "buddy_inv s" "free_frames s = {1020..<1024}" by (rule booted)
  have "1020 \<in> covered True (block_of s)" using s(2) by (simp add: free_frames_def)
  then obtain j k where b: "block_of s j = Some (k, True)" by (auto simp: covered_def)
  then have "\<not> (\<forall>i k. block_of s i = Some (k, True) \<longrightarrow> (2::nat) ^ k < 1)" by auto
  then obtain i s1 where s1: "buddy_alloc_frames (of_nat 1) s = Some (fr_paddr (of_nat i), s1)"
    "buddy_inv s1" "holds_run s1 i 1" using alloc_frames_cases [OF s(1), of 1] by auto
  from buddy_free_frames_ok [OF s1(2,3)] s1(1) show ?thesis by auto
qed

text \<open>A release of an address outside the managed memory, of an address that is not the start
  of a frame, or of more than 1024 frames is refused, and nothing changes.\<close>

theorem buddy_free_frames_refuses:
  assumes "\<not> buddy_valid_addr pa s \<or> pa AND (PAGE_SIZE - 1) \<noteq> 0 \<or> 1024 < unat n"
  shows "buddy_free_frames pa n s = Some (False, s)"
proof -
  have "ceil_order n > MAX_ORDER" if n: "1024 < unat n"
  proof -
    obtain r where r: "ceil_order n = of_nat r" "r \<le> 12" "r < 12 \<longrightarrow> unat n \<le> 2 ^ r"
      using ceil_order_spec [of n] by blast
    have "10 < r"
    proof (rule ccontr)
      assume "\<not> 10 < r"
      then have "(2::nat) ^ r \<le> 2 ^ 10" by (intro power_increasing) simp_all
      with r(3) n \<open>\<not> 10 < r\<close> show False by simp
    qed
    then show ?thesis using of_nat_less_word [of 10 r] r(1,2) by (simp add: MAX_ORDER_def)
  qed
  with assms show ?thesis by (auto simp: buddy_free_frames_def)
qed

theorem buddy_free_frames_refuses_witness:
  "buddy_free_frames 0x1001 1 mm_boot = Some (False, mm_boot) \<and>
   buddy_free_frames 0x1000 2000 mm_boot = Some (False, mm_boot)"
  using buddy_free_frames_refuses [where pa = "0x1001" and s = mm_boot and n = 1]
    buddy_free_frames_refuses [where pa = "0x1000" and s = mm_boot and n = 2000]
  by (simp add: PAGE_SIZE_def)

text \<open>Allocating a run and releasing it leaves the same frames free as before.\<close>

theorem buddy_alloc_free_roundtrip:
  assumes "buddy_inv s" and "0 < n" and "n \<le> 1024"
    and "buddy_alloc_frames (of_nat n) s = Some (pa, s')" and "pa \<noteq> 0"
  shows "\<exists>s''. buddy_free_frames pa (of_nat n) s' = Some (True, s'') \<and> buddy_inv s'' \<and>
    free_frames s'' = free_frames s"
proof -
  obtain i where i: "pa = fr_paddr (fno i)" "buddy_inv s'" "holds_run s' i n" "{i..<i + n} \<subseteq> free_frames s"
    "free_frames s' = free_frames s - {i..<i + n}"
    using alloc_frames_cases [OF assms(1-3)] assms(4,5) by auto
  obtain s'' where s'': "buddy_free_frames (fr_paddr (fno i)) (of_nat n) s' = Some (True, s'')" "buddy_inv s''"
    "free_frames s'' = free_frames s' \<union> {i..<i + n}"
    using free_frames_cases [OF i(2,3) assms(2,3)] by blast
  have "free_frames s'' = free_frames s" using s''(3) i(4,5) by blast
  with s'' i(1) show ?thesis by blast
qed

theorem buddy_alloc_free_roundtrip_witness:
  "\<exists>s pa s' s''. buddy_alloc_frames (of_nat 2) s = Some (pa, s') \<and> pa \<noteq> 0 \<and>
    buddy_free_frames pa (of_nat 2) s' = Some (True, s'') \<and> free_frames s'' = free_frames s"
proof -
  obtain s fl where s: "rep {} 1020 1024 s (init_blocks 1020 4) fl" "buddy_dir_lock s = 0"
    "buddy_start_addr s = fr_paddr (fno 1020)" "buddy_end_addr s = fr_paddr (fno 1024)"
    using buddy_init_spec [OF fresh_mm_boot, of 1020 4] by auto
  have "chunks_up 1020 4 0 11 = [(1020, 2)]" by code_simp
  then have "(1020, 2) \<in> set (init_pieces 1020 4)" by (simp add: init_pieces_def)
  then have b: "init_blocks 1020 4 1020 = Some (2, True)" by (intro init_blocks_pieces(1)) simp_all
  note inv = buddy_invI [OF s(1,2) _ _ s(3,4)]
  have "buddy_inv s" "block_of s = init_blocks 1020 4" using inv by simp_all
  then have "\<not> (\<forall>i k. block_of s i = Some (k, True) \<longrightarrow> (2::nat) ^ k < 2)" using b by fastforce
  then obtain i s' where s': "buddy_alloc_frames (of_nat 2) s = Some (fr_paddr (fno i), s')" "0 < i" "i < 8192"
    using alloc_frames_cases [OF \<open>buddy_inv s\<close>, of 2] by auto
  have nz: "fr_paddr (fno i) \<noteq> 0" by (rule paddr_nonzero [OF s'(2,3)])
  have "\<exists>s''. buddy_free_frames (fr_paddr (fno i)) (of_nat 2) s' = Some (True, s'') \<and> buddy_inv s'' \<and>
    free_frames s'' = free_frames s"
    by (rule buddy_alloc_free_roundtrip [OF \<open>buddy_inv s\<close> _ _ s'(1) nz]) simp_all
  with s'(1) nz show ?thesis by blast
qed

text \<open>C1. Whatever a client does: starting from a state that satisfies the invariant, any sequence
  of allocations and releases of what it got leaves the runs it holds pairwise disjoint and
  disjoint from the free frames, and together with them they are exactly the frames that were
  free at the start: no frame is lost and none is handed out twice.\<close>

theorem buddy_client_safe:
  assumes "buddy_inv s0" and "client request give_back 1024 s0 s L"
  shows "buddy_inv s \<and> apart L \<and> free_frames s \<inter> ledger_frames L = {} \<and>
    free_frames s \<union> ledger_frames L = free_frames s0"
  using buddy.client_safe [OF assms] unfolding buddy.ledger_ok_def by blast

theorem buddy_client_safe_witness:
  "\<exists>s0 s i. client request give_back 1024 s0 s [(i, 1)] \<and>
    free_frames s0 = {1020..<1024} \<and> buddy_inv s \<and> free_frames s \<union> ledger_frames [(i, 1)] = {1020..<1024}"
proof -
  obtain s where s: "buddy_inv s" "free_frames s = {1020..<1024}" by (rule booted)
  have "1020 \<in> covered True (block_of s)" using s(2) by (simp add: free_frames_def)
  then obtain j k where b: "block_of s j = Some (k, True)" by (auto simp: covered_def)
  then have "\<not> (\<forall>i k. block_of s i = Some (k, True) \<longrightarrow> (2::nat) ^ k < 1)" by auto
  then obtain i s1 where s1: "buddy_alloc_frames (of_nat 1) s = Some (fr_paddr (of_nat i), s1)" "0 < i" "i < 8192"
    using alloc_frames_cases [OF s(1), of 1] by auto
  have "request 1 s = Some (Some i, s1)" using s1 by (simp add: request_def paddr_nonzero paddr_lookup)
  then have c: "client request give_back 1024 s s1 [(i, 1)]"
    by (intro client_alloc [OF client_start]) simp_all
  from buddy_client_safe [OF s(1) c] c s(2) show ?thesis by auto
qed

text \<open>\<open>alloc_pages\<close> never returns \<open>NULL\<close>: a refused request is turned into the virtual address
  \<open>0xC0000000\<close>, the image of physical address 0, so the callers' test for \<open>NULL\<close>
  cannot see the failure.\<close>

theorem alloc_pages_never_null:
  assumes "buddy_inv s" and "0 < n" and "n \<le> 1024"
  shows "\<exists>va s'. alloc_pages (of_nat n) s = Some (va, s') \<and> va \<noteq> 0 \<and>
    ((\<forall>i k. block_of s i \<noteq> Some (k, True)) \<longrightarrow> va = PAGE_OFFSET)"
proof -
  consider (none) "buddy_alloc_frames (of_nat n) s = Some (0, s)"
    | (some) i s' where "buddy_alloc_frames (of_nat n) s = Some (fr_paddr (fno i), s')" "0 < i" "i < 8192"
      "{i..<i + n} \<subseteq> free_frames s"
    using alloc_frames_cases [OF assms] by blast
  then show ?thesis
  proof cases
    case none
    then show ?thesis by (simp add: alloc_pages_def to_vaddr_def PAGE_OFFSET_def)
  next
    case some
    have "unat (fr_paddr (fno i) + PAGE_OFFSET) = 4096 * i + 0xC0000000"
      using some(2,3) fr_paddr_num [of i] by (subst unat_add_lem [THEN iffD1]) (simp_all add: PAGE_OFFSET_def)
    then have "to_vaddr (fr_paddr (fno i)) \<noteq> 0" by (auto simp: to_vaddr_def)
    moreover have "\<exists>i k. block_of s i = Some (k, True)"
      using some(4) assms(2) by (force simp: free_frames_def covered_def)
    ultimately show ?thesis using some(1) by (auto simp: alloc_pages_def)
  qed
qed

theorem alloc_pages_never_null_witness:
  "\<exists>s va s'. alloc_pages (of_nat 4) s = Some (va, s') \<and> va \<noteq> 0"
proof -
  obtain s where s: "buddy_inv s" by (rule booted)
  from alloc_pages_never_null [OF s, of 4] show ?thesis by auto
qed

end
