(* ===== verification/KernelThreads.thy ===== *)
theory KernelThreads
  imports KernelFamily BuddySafe
begin

text \<open>
  The calls that create and end threads: \<open>kthread_exit\<close>, \<open>kernel_thread\<close> with \<open>task_init\<close>, and the
  round of \<open>kkill_zombie\<close> with \<open>task_kill\<close>. Besides the lists and the family tree they change the ids
  and the table of tasks (\<open>ids_ok\<close>) and the pages the tasks live in (\<open>pages_ok\<close>).
\<close>

section \<open>The end of a thread\<close>

definition unlocked :: "u32 set \<Rightarrow> kstate \<Rightarrow> bool" where
  "unlocked T s \<longleftrightarrow> (\<forall>t\<in>T. t_lock (tasks s t) = 0)"

definition ids_frame :: "kstate \<Rightarrow> kstate \<Rightarrow> bool" where
  "ids_frame s s' \<longleftrightarrow> task_tbl s' = task_tbl s \<and> pid_map_state s' = pid_map_state s \<and> kmm s' = kmm s \<and>
    (\<forall>t. t_pid (tasks s' t) = t_pid (tasks s t) \<and> t_lock (tasks s' t) = t_lock (tasks s t) \<and>
      (t_prio (tasks s t) < NR_PRIO \<longrightarrow> t_prio (tasks s' t) < NR_PRIO))"

lemma kin_ids_frame: "kin_frame s s' \<Longrightarrow> ids_frame s s'"
  by (simp add: kin_frame_def kin_task_def ids_frame_def)

definition exit_lists :: "kstate \<Rightarrow> (node_addr \<Rightarrow> u32 list) \<Rightarrow> u32 \<Rightarrow> u32 list \<Rightarrow> node_addr \<Rightarrow> u32 list" where
  "exit_lists s Q p ks = (let Q2 = (if wakes_parent s p ks
      then (leave_rr s Q)(RrHead (t_prio (tasks s p)) := leave_rr s Q (RrHead (t_prio (tasks s p))) @ [p])
      else leave_rr s Q)
    in Q2(TqHead ZombieQue := Q (TqHead ZombieQue) @ [cur_task s]))"

lemma kthread_exit_calm:
  assumes c: "calm idle S T s Q" and ni: "cur_task s \<noteq> idle" and f: "family idle T s K rk"
    and free: "unlocked T s" and pr: "prios_ok T s"
  defines "t \<equiv> cur_task s"
  defines "p \<equiv> t_parent (tasks s t)"
  defines "ks \<equiv> remove1 t (K p) @ K t"
  shows "\<exists>s' Q'. kthread_exit 0 s = Some s' \<and> calm idle S T s' Q' \<and> family idle T s' (K(p := ks)) rk \<and>
    served (exit_lists s Q p ks) Q' (cur_task s') \<and> tasks s' = (exit_tasks s p (K t) ks)(t := buried (tasks s t)) \<and>
    ids_frame s s' \<and> sem_count s' = sem_count s"
proof -
  have t: "t \<in> T" "t \<noteq> idle" "alive s t" using calmD(5,6) [OF c] ni by (simp_all add: t_def alive_def)
  obtain s1 where s1: "rr_dequeue t s = Some s1" "only_queues s s1" "cur_task s1 = t"
    "placed S T {t} s1 (leave_rr s Q)" using leave_current [OF c] by (auto simp: t_def)
  note t1 = only_queuesD(1) [OF s1(2)]
  have f1: "family idle T s1 K rk" by (rule family_kin [OF f only_queues_kin [OF s1(2)]])
  have al1: "alive s1 u = alive s u" for u by (simp add: alive_def t1)
  have free1: "\<forall>u\<in>T. t_lock (tasks s1 u) = 0" using free t1 by (simp add: unlocked_def)
  have pr1: "prios_ok T s1" using pr t1 by (simp add: prios_ok_def)
  have w1: "wakes_parent s1 = wakes_parent s" by (simp add: wakes_parent_def fun_eq_iff t1)
  have e1: "exit_tasks s1 = exit_tasks s" by (simp add: exit_tasks_def fun_eq_iff t1 w1)
  from task_exit_ok [OF s1(4) f1 t(1,2) _ free1 pr1] t(3) obtain s2 Q2 where s2: "task_exit t s1 = Some s2"
    "placed S T {t} s2 Q2" "tasks s2 = exit_tasks s p (K t) ks" "same_rest s1 s2"
    "dlist (nodes s2) (Children p) (map Sibling ks)"
    "\<forall>u\<in>T. alive s u \<longrightarrow> u \<noteq> t \<longrightarrow> u \<noteq> p \<longrightarrow> dlist (nodes s2) (Children u) (map Sibling (K u))"
    "Q2 = (if wakes_parent s p ks then (leave_rr s Q)(RrHead (t_prio (tasks s p)) :=
      leave_rr s Q (RrHead (t_prio (tasks s p))) @ [p]) else leave_rr s Q)"
    unfolding t1 w1 e1 al1 p_def [symmetric] ks_def [symmetric] by blast
  have pne: "p \<noteq> t" using familyD(5) [OF f t] by (auto simp: p_def)
  have tk: "t \<notin> set (K t)" using familyD(2) [OF f t(1,3), of t] pne by (simp add: child_of_def p_def)
  have t2: "tasks s2 t = tasks s t" using s2(3) tk pne by (simp add: exit_tasks_def)
  define s3 where "s3 = upd_task t buried s2"
  have "placed S T {t} s3 Q2" unfolding s3_def by (rule placed_upd [OF s2(2)]) simp
  moreover have "home (tasks s3 t) = Some (TqHead ZombieQue)" "t_wait_for (tasks s3 t) = NULL"
    using calmD(7) [OF c] t2 by (simp_all add: s3_def buried_def t_def)
  ultimately obtain s4 where s4: "tq_enqueue ZombieQue t s3 = Some s4" "only_queues s3 s4" "cur_task s4 = cur_task s3"
    "placed S T {} s4 (Q2(TqHead ZombieQue := Q2 (TqHead ZombieQue) @ [t]))"
    using placed_tq_enqueue [of S T "{t}" s3 Q2 t ZombieQue] by auto
  have q4: "Q2(TqHead ZombieQue := Q2 (TqHead ZombieQue) @ [t]) = exit_lists s Q p ks"
    by (simp add: s2(7) exit_lists_def Let_def t_def leave_rr_def)
  have t4: "tasks s4 = (exit_tasks s p (K t) ks)(t := buried (tasks s t))"
    using only_queuesD(1) [OF s4(2)] s2(3) t2 by (auto simp: s3_def)
  have ki: "idle \<notin> set (K t)" using familyD(2) [OF f t(1,3), of idle] by (simp add: child_of_def)
  have i4: "tasks s4 idle = tasks s idle"
    using t4 ki t(2) calmD(3) [OF c] by (auto simp: exit_tasks_def wakes_parent_def)
  have nodes: "kin_same (nodes s2) (nodes s4)" using only_queuesD(7) [OF s4(2)] by (simp add: s3_def)
  have f4: "family idle T s4 (K(p := ks)) rk"
  proof -
    have "dlist (nodes s4) (Children p) (map Sibling ks)" using s2(5) by (simp only: kin_same_dlist [OF nodes])
    moreover have "\<forall>u\<in>T. alive s u \<longrightarrow> u \<noteq> t \<longrightarrow> u \<noteq> p \<longrightarrow> dlist (nodes s4) (Children u) (map Sibling (K u))"
      using s2(6) by (simp only: kin_same_dlist [OF nodes])
    ultimately show ?thesis using family_exit [OF f t, of s4] t4 unfolding p_def [symmetric] ks_def [symmetric] by blast
  qed
  from schedule_calm [OF s4(4)] obtain s' Q' where s': "schedule s4 = Some s'" "calm idle S T s' Q'"
    "served (exit_lists s Q p ks) Q' (cur_task s')" "only_queues s4 s'" unfolding q4 using calmD(2-4) [OF c] i4 by metis
  have "kthread_exit 0 s = Some s'"
    using s1(1,3) s2(1,4) s4(1,3) s'(1)
    by (simp add: kthread_exit_def t_def [symmetric] same_rest_def s3_def buried_def [abs_def])
  moreover have "family idle T s' (K(p := ks)) rk" by (rule family_kin [OF f4 only_queues_kin [OF s'(4)]])
  moreover have "tasks s' = (exit_tasks s p (K t) ks)(t := buried (tasks s t))" using only_queuesD(1) [OF s'(4)] t4 by simp
  moreover have "\<forall>u. t_pid (tasks s' u) = t_pid (tasks s u) \<and> t_lock (tasks s' u) = t_lock (tasks s u) \<and>
      (t_prio (tasks s u) < NR_PRIO \<longrightarrow> t_prio (tasks s' u) < NR_PRIO)"
    unfolding calculation(3) by (simp add: exit_tasks_def buried_def moved_def woken_def)
  then have "ids_frame s s'"
    using only_queuesD(3,4,6) [OF s1(2)] s2(4) only_queuesD(3,4,6) [OF s4(2)] only_queuesD(3,4,6) [OF s'(4)]
    by (simp add: ids_frame_def s3_def same_rest_def)
  moreover have "sem_count s' = sem_count s"
    using only_queuesD(2) [OF s1(2)] s2(4) only_queuesD(2) [OF s4(2)] only_queuesD(2) [OF s'(4)]
    by (simp add: s3_def same_rest_def)
  ultimately show ?thesis using s'(2,3) by blast
qed

section \<open>A new thread\<close>

lemma placed_new:
  assumes pl: "placed S T X s Q" and n: "n \<notin> T" "n \<noteq> NULL"
  shows "placed S (insert n T) (insert n X) s Q"
proof -
  have "set (Q q) = {t \<in> insert n T - insert n X. home (tasks s t) = Some q}" if "q \<in> heads S" for q
    using placedD(7) [OF pl that] n(1) by auto
  moreover have "insert n T - insert n X = T - X - {n}" using n(1) by auto
  ultimately show ?thesis using pl n unfolding placed_def by (simp add: subset_insertI2)
qed

lemma placed_forget:
  assumes pl: "placed S T X s Q" and z: "z \<in> X"
  shows "placed S (T - {z}) (X - {z}) s Q"
proof -
  have "T - {z} - (X - {z}) = T - X" using z by auto
  then show ?thesis using pl z unfolding placed_def by auto
qed

definition inited :: "u8 \<Rightarrow> u8 \<Rightarrow> string \<Rightarrow> u32 \<Rightarrow> task_t \<Rightarrow> task_t" where
  "inited pid prio name parent x = x\<lparr>t_lock := 0, t_pid := pid, t_prio := prio, t_name := name, t_parent := parent,
     t_time_ticks := ucast prio + 1, t_rest_ticks := ucast prio + 1, t_total_ticks := 0, t_sleep_ticks := 0,
     t_wait_for := NULL\<rparr>"

definition name_or :: "string option \<Rightarrow> string \<Rightarrow> string" where
  "name_or name d = (case name of None \<Rightarrow> d | Some n \<Rightarrow> n)"

text \<open>The new task may be the current one: the idle task is, in \<open>sched_init\<close>.\<close>

lemma task_init_ok:
  assumes free: "t_lock (tasks s (cur_task s)) = 0"
  defines "pid \<equiv> fst (alloc_pid (pid_map_state s))"
  shows "\<exists>s'. task_init n prio name s = Some s' \<and>
    tasks s' = (tasks s)(n := inited pid prio (name_or name (t_name (tasks s (cur_task s)))) (cur_task s) (tasks s n)) \<and>
    nodes s' = list_add_tail (Sibling n) (Children (cur_task s)) (list_node_init (Children n) (nodes s)) \<and>
    task_tbl s' = (task_tbl s)(pid := n) \<and> pid_map_state s' = snd (alloc_pid (pid_map_state s)) \<and>
    queues s' = queues s \<and> rr s' = rr s \<and> sem_count s' = sem_count s \<and> cur_task s' = cur_task s \<and>
    kmem s' = kmem s \<and> kmm s' = kmm s"
proof -
  obtain pm where a: "alloc_pid (pid_map_state s) = (pid, pm)" unfolding pid_def by (metis prod.collapse)
  have "\<exists>s'. task_init n prio name s = Some s'"
    using a free by (cases "n = cur_task s") (simp_all add: task_init_def Let_def task_spin_lock_def)
  then obtain s' where r: "task_init n prio name s = Some s'" by blast
  then have s': "s' = the (task_init n prio name s)" by simp
  have "tasks s' u = ((tasks s)(n := inited pid prio (name_or name (t_name (tasks s (cur_task s)))) (cur_task s) (tasks s n))) u" for u
    unfolding s' using a free
    by (cases name; cases "n = cur_task s"; cases "u = n"; cases "u = cur_task s")
      (simp_all add: task_init_def Let_def task_spin_lock_def task_spin_unlock_def upd_nodes_def inited_def name_or_def
        lock_cancel SPINLOCK_FREE_def)
  moreover have "nodes s' = list_add_tail (Sibling n) (Children (cur_task s)) (list_node_init (Children n) (nodes s)) \<and>
    task_tbl s' = (task_tbl s)(pid := n) \<and> pid_map_state s' = snd (alloc_pid (pid_map_state s)) \<and>
    queues s' = queues s \<and> rr s' = rr s \<and> sem_count s' = sem_count s \<and> cur_task s' = cur_task s \<and>
    kmem s' = kmem s \<and> kmm s' = kmm s"
    unfolding s' using a free
    by (cases "n = cur_task s")
      (simp_all add: task_init_def Let_def task_spin_lock_def task_spin_unlock_def upd_nodes_def)
  ultimately show ?thesis using r by (intro exI [of _ s']) auto
qed

lemma task_init_family:
  assumes f: "family idle T s K rk" and n: "n \<notin> T" "idle \<in> T" and cur: "cur_task s \<in> T" "alive s (cur_task s)"
    and ts: "tasks s' = (tasks s)(n := x)" "t_stat x \<noteq> TASK_ZOMBIE" "t_parent x = cur_task s"
    and nodes: "kin_same (list_add_tail (Sibling n) (Children (cur_task s)) (list_node_init (Children n) (nodes s))) (nodes s')"
  shows "family idle (insert n T) s' (K(cur_task s := K (cur_task s) @ [n], n := [])) (rk(n := Suc (rk (cur_task s))))"
proof -
  let ?c = "cur_task s"
  let ?h1 = "list_node_init (Children n) (nodes s)"
  let ?h2 = "list_add_tail (Sibling n) (Children ?c) ?h1"
  have nc: "n \<noteq> ?c" "n \<noteq> idle" using n cur by auto
  have notin: "n \<notin> set (K t)" if "t \<in> T" "alive s t" for t
    using familyD(2) [OF f that, of n] n(1) by (simp add: child_of_def)
  have d1: "dlist ?h1 (Children t) (map Sibling (K t))" if "t \<in> T" "alive s t" for t
    by (rule dlist_init_other [OF familyD(1) [OF f that]]) (use that n(1) in auto)
  have dc: "dlist ?h2 (Children ?c) (map Sibling (K ?c @ [n]))"
    using dlist_add_tail [OF d1 [OF cur], of "Sibling n"] notin [OF cur] by auto
  have dn: "dlist ?h2 (Children n) []"
    by (rule dlist_add_tail_other [OF d1 [OF cur] dlist_init]) (use nc in auto)
  have dt: "dlist ?h2 (Children t) (map Sibling (K t))" if "t \<in> T" "alive s t" "t \<noteq> ?c" for t
    by (rule dlist_add_tail_other [OF d1 [OF cur] d1 [OF that(1,2)]])
      (use that notin [OF that(1,2)] family_disjoint [OF f cur that(1,2)] in auto)
  have al: "alive s' t \<longleftrightarrow> t = n \<or> alive s t" for t using ts by (simp add: alive_def)
  have par: "t_parent (tasks s' c) = (if c = n then ?c else t_parent (tasks s c))" for c using ts by simp
  have ch: "child_of idle (insert n T) s' t c \<longleftrightarrow> (if c = n then t = ?c else child_of idle T s t c)" for t c
    using al [of c] par [of c] nc by (auto simp: child_of_def)
  show ?thesis
  proof (rule familyI)
    fix t assume t: "t \<in> insert n T" "alive s' t"
    then have old: "t \<noteq> n \<Longrightarrow> t \<in> T \<and> alive s t" using al by auto
    have "dlist ?h2 (Children t) (map Sibling ((K(?c := K ?c @ [n], n := [])) t))"
      using dc dn dt old by auto
    then show "dlist (nodes s') (Children t) (map Sibling ((K(?c := K ?c @ [n], n := [])) t))"
      by (simp only: kin_same_dlist [OF nodes])
    show "c \<in> set ((K(?c := K ?c @ [n], n := [])) t) \<longleftrightarrow> child_of idle (insert n T) s' t c" for c
    proof (cases "t = n")
      case True
      have "\<not> child_of idle T s n c"
        using familyD(3) [OF f, of c] n(1) by (auto simp: child_of_def)
      then show ?thesis using True nc ch [of t c] by auto
    next
      case False
      then show ?thesis using old familyD(2) [OF f, of t c] ch [of t c] notin [of t] by (cases "t = ?c") auto
    qed
  next
    fix c assume c: "c \<in> insert n T" "c \<noteq> idle" "alive s' c"
    let ?rk = "rk(n := Suc (rk ?c))"
    show "t_parent (tasks s' c) \<in> insert n T \<and> alive s' (t_parent (tasks s' c)) \<and> ?rk (t_parent (tasks s' c)) < ?rk c"
    proof (cases "c = n")
      case True
      then show ?thesis using par [of c] cur al nc by simp
    next
      case False
      then have "c \<in> T" "alive s c" using c al by auto
      note o = familyD(3-5) [OF f this(1) c(2) this(2)]
      then have "t_parent (tasks s c) \<noteq> n" using n(1) by auto
      then show ?thesis using False par [of c] o al by simp
    qed
  qed
qed

section \<open>Ids and pages\<close>

definition ids_ok :: "u32 set \<Rightarrow> kstate \<Rightarrow> bool" where
  "ids_ok T s \<longleftrightarrow> pid_inv (pid_map_state s) \<and> pids (pid_map_state s) = (\<lambda>t. unat (t_pid (tasks s t))) ` T \<and>
    (\<forall>t\<in>T. task_tbl s (t_pid (tasks s t)) = t) \<and> (\<forall>p. task_tbl s p \<noteq> NULL \<longrightarrow> task_tbl s p \<in> T \<and> t_pid (tasks s (task_tbl s p)) = p)"

lemma ids_ok_frame: "ids_ok T s \<Longrightarrow> ids_frame s s' \<Longrightarrow> ids_ok T s'"
  by (auto simp: ids_ok_def ids_frame_def)

lemma ids_ok_new:
  assumes ok: "ids_ok T s" and n: "n \<notin> T" "n \<noteq> NULL" and free: "pids (pid_map_state s) \<noteq> {0..<256}"
    and s': "task_tbl s' = (task_tbl s)(fst (alloc_pid (pid_map_state s)) := n)"
      "pid_map_state s' = snd (alloc_pid (pid_map_state s))"
      "tasks s' = (tasks s)(n := x)" "t_pid x = fst (alloc_pid (pid_map_state s))"
  shows "ids_ok (insert n T) s'"
proof -
  have inv: "pid_inv (pid_map_state s)" using ok by (simp add: ids_ok_def)
  have fr: "pid_grp (pid_map_state s) \<noteq> - 1" using pid_full_iff [OF inv] free by blast
  define pid where "pid = fst (alloc_pid (pid_map_state s))"
  have new: "pids (pid_map_state s') = insert (unat pid) (pids (pid_map_state s))" "pid_inv (pid_map_state s')"
    "unat pid \<notin> pids (pid_map_state s)"
    using alloc_pid_state [OF inv fr] pid_mark_pids [OF alloc_pid_state(1) [OF inv fr]]
      alloc_pid_unfold [OF inv fr] s'(2) by (auto simp: pid_def dest: lowestD)
  have other: "t_pid (tasks s t) \<noteq> pid" if "t \<in> T" for t
    using new(3) ok that by (auto simp: ids_ok_def)
  have same: "tasks s' t = tasks s t" if "t \<in> T" for t using that n(1) s'(3) by auto
  have "(\<lambda>t. unat (t_pid (tasks s' t))) ` insert n T = insert (unat pid) ((\<lambda>t. unat (t_pid (tasks s t))) ` T)"
    using s'(3,4) same by (simp add: pid_def cong: image_cong_simp)
  moreover have "\<forall>t\<in>insert n T. task_tbl s' (t_pid (tasks s' t)) = t"
    using s'(1,3,4) same other ok n(1) by (auto simp: ids_ok_def pid_def)
  moreover have "\<forall>p. task_tbl s' p \<noteq> NULL \<longrightarrow> task_tbl s' p \<in> insert n T \<and> t_pid (tasks s' (task_tbl s' p)) = p"
    using s'(1,3,4) same ok by (auto simp: ids_ok_def)
  ultimately show ?thesis using new ok by (simp add: ids_ok_def)
qed

lemma ids_ok_drop:
  assumes ok: "ids_ok T s" and z: "z \<in> T"
    and s': "task_tbl s' = (task_tbl s)(t_pid (tasks s z) := NULL)"
      "pid_map_state s' = free_pid (t_pid (tasks s z)) (pid_map_state s)" "tasks s' = tasks s"
  shows "ids_ok (T - {z}) s'"
proof -
  have inv: "pid_inv (pid_map_state s)" using ok by (simp add: ids_ok_def)
  let ?p = "t_pid (tasks s z)"
  have pids: "pids (pid_map_state s') = pids (pid_map_state s) - {unat ?p}" "pid_inv (pid_map_state s')"
    using free_pid_state [OF inv, of ?p] pid_mark_pids [OF free_pid_state(1) [OF inv, of ?p]] u8_lt [of ?p] s'(2)
    by (simp_all add: div_less_iff_less_mult mult.commute)
  have inj: "t_pid (tasks s t) = ?p \<longleftrightarrow> t = z" if "t \<in> T" for t
    using ok that z by (metis ids_ok_def)
  have "(\<lambda>t. unat (t_pid (tasks s t))) ` (T - {z}) = (\<lambda>t. unat (t_pid (tasks s t))) ` T - {unat ?p}"
    using inj by (auto simp: word_unat_eq_iff [symmetric])
  moreover have "\<forall>t\<in>T - {z}. task_tbl s' (t_pid (tasks s t)) = t"
    using ok inj s'(1) by (auto simp: ids_ok_def)
  moreover have "\<forall>p. task_tbl s' p \<noteq> NULL \<longrightarrow> task_tbl s' p \<in> T - {z} \<and> t_pid (tasks s (task_tbl s' p)) = p"
  proof (intro allI impI)
    fix p assume "task_tbl s' p \<noteq> NULL"
    then have p: "p \<noteq> ?p" "task_tbl s p \<noteq> NULL" "task_tbl s' p = task_tbl s p" using s'(1) by (auto split: if_splits)
    then have "task_tbl s p \<in> T" "t_pid (tasks s (task_tbl s p)) = p" using ok by (simp_all add: ids_ok_def)
    then show "task_tbl s' p \<in> T - {z} \<and> t_pid (tasks s (task_tbl s' p)) = p" using p by auto
  qed
  ultimately show ?thesis using pids ok s'(3) by (simp add: ids_ok_def)
qed

definition page :: "nat \<Rightarrow> u32" where
  "page i = to_vaddr (fr_paddr (of_nat i))"

lemma page_inj: "i < 8192 \<Longrightarrow> j < 8192 \<Longrightarrow> page i = page j \<Longrightarrow> i = j"
proof -
  assume ij: "i < 8192" "j < 8192" and eq: "page i = page j"
  have "to_fr_idx (to_paddr (page i)) = of_nat i" "to_fr_idx (to_paddr (page j)) = (of_nat j :: u32)"
    using ij by (simp_all add: page_def unat_small)
  then have "of_nat i = (of_nat j :: u32)" using eq by simp
  then show "i = j" using ij by (simp add: of_nat_eq_word)
qed

lemma page_nonzero: "i < 8192 \<Longrightarrow> page i \<noteq> NULL"
proof
  assume i: "i < 8192" and "page i = NULL"
  then have "fr_paddr (of_nat i) = - PAGE_OFFSET" by (simp add: page_def to_vaddr_def NULL_def eq_neg_iff_add_eq_0)
  then have "unat (fr_paddr (of_nat i)) = unat (- PAGE_OFFSET)" by simp
  moreover have "unat (fr_paddr (of_nat i)) = 4096 * i" using i by (simp add: unat_fr_paddr unat_small)
  moreover have "unat (- PAGE_OFFSET) = 1073741824" by (simp add: PAGE_OFFSET_def)
  ultimately show False using i by simp
qed

lemma alloc_page_cases:
  assumes inv: "buddy_inv m" and free: "free_frames m \<noteq> {}"
  obtains i m' where "alloc_page m = Some (page i, m')" "0 < i" "i < 8192" "buddy_inv m'" "i \<in> free_frames m"
    "free_frames m' = free_frames m - {i}" "holds_run m' i 1" "\<And>j k. holds_run m j k \<Longrightarrow> holds_run m' j k"
proof -
  obtain j k where "block_of m j = Some (k, True)" using free by (auto simp: free_frames_def covered_def)
  then have "\<not> (\<forall>i k. block_of m i = Some (k, True) \<longrightarrow> (2::nat) ^ k < 1)" by auto
  then obtain i m' where a: "buddy_alloc_frames (of_nat 1) m = Some (fr_paddr (of_nat i), m')" "0 < i" "i < 8192"
    "buddy_inv m'" "holds_run m' i 1" "{i..<i + 1} \<subseteq> free_frames m" "free_frames m' = free_frames m - {i..<i + 1}"
    "\<forall>j k. holds_run m j k \<longrightarrow> holds_run m' j k" using alloc_frames_cases [OF inv, of 1] by auto
  have "{i..<i + 1} = {i}" by auto
  with a that [of i m'] show thesis by (simp add: alloc_page_def alloc_pages_def page_def)
qed

lemma free_page_ok:
  assumes inv: "buddy_inv m" and h: "holds_run m i 1"
  obtains m' where "free_page (page i) m = Some (True, m')" "buddy_inv m'" "free_frames m' = insert i (free_frames m)"
    "\<And>j. j \<noteq> i \<Longrightarrow> holds_run m j 1 \<Longrightarrow> holds_run m' j 1"
proof -
  obtain m' where m': "buddy_free_frames (fr_paddr (of_nat i)) (of_nat 1) m = Some (True, m')" "buddy_inv m'"
    "free_frames m' = free_frames m \<union> {i..<i + 1}"
    "\<forall>j k. k \<le> 1024 \<longrightarrow> holds_run m j k \<and> {i..<i + 1} \<inter> {j..<j + k} = {} \<longrightarrow> holds_run m' j k"
    using free_frames_cases [OF inv h] by auto
  have "holds_run m' j 1" if "j \<noteq> i" "holds_run m j 1" for j using m'(4) that by auto
  moreover have "free_page (page i) m = Some (True, m')"
    using m'(1) by (simp add: free_page_def free_pages_def page_def)
  moreover have "free_frames m' = insert i (free_frames m)" using m'(3) by auto
  ultimately show thesis using that m'(2) by blast
qed

definition page_of :: "mm_state \<Rightarrow> u32 \<Rightarrow> nat \<Rightarrow> bool" where
  "page_of m t i \<longleftrightarrow> i < 8192 \<and> t = page i \<and> holds_run m i 1"

definition pages_ok :: "u32 \<Rightarrow> u32 set \<Rightarrow> mm_state \<Rightarrow> bool" where
  "pages_ok idle T m \<longleftrightarrow> buddy_inv m \<and> (\<forall>t\<in>T. t \<noteq> idle \<longrightarrow> (\<exists>i. page_of m t i)) \<and>
    (\<forall>i\<in>free_frames m. idle \<noteq> page i)"

lemma pages_ok_fresh:
  assumes ok: "pages_ok idle T m" and i: "i \<in> free_frames m" "i < 8192"
  shows "page i \<notin> T" and "page i \<noteq> idle"
proof -
  show "page i \<noteq> idle" using ok i by (auto simp: pages_ok_def)
  show "page i \<notin> T"
  proof
    assume "page i \<in> T"
    then obtain j where j: "page_of m (page i) j" using ok \<open>page i \<noteq> idle\<close> by (auto simp: pages_ok_def)
    then have "j = i" using page_inj i(2) by (auto simp: page_of_def)
    moreover have "{j..<j + 1} \<inter> free_frames m = {}"
      using j ok holds_run_used(1) [of m j 1] by (auto simp: page_of_def pages_ok_def)
    ultimately show False using i(1) by auto
  qed
qed

lemma pages_ok_new:
  assumes ok: "pages_ok idle T m" and free: "free_frames m \<noteq> {}"
  obtains n m' where "alloc_page m = Some (n, m')" "n \<notin> T" "n \<noteq> idle" "n \<noteq> NULL" "pages_ok idle (insert n T) m'"
proof -
  have inv: "buddy_inv m" using ok by (simp add: pages_ok_def)
  from alloc_page_cases [OF this free] obtain i m' where a: "alloc_page m = Some (page i, m')" "0 < i" "i < 8192"
    "buddy_inv m'" "i \<in> free_frames m" "free_frames m' = free_frames m - {i}" "holds_run m' i 1"
    "\<And>j k. holds_run m j k \<Longrightarrow> holds_run m' j k" by blast
  have "\<exists>j. page_of m' t j" if t: "t \<in> insert (page i) T" "t \<noteq> idle" for t
  proof (cases "t = page i")
    case True
    then show ?thesis using a(3,7) by (auto simp: page_of_def)
  next
    case False
    then obtain j where "page_of m t j" using t ok by (auto simp: pages_ok_def)
    then show ?thesis using a(8) by (auto simp: page_of_def)
  qed
  moreover have "\<forall>j\<in>free_frames m'. idle \<noteq> page j" using ok a(6) by (simp add: pages_ok_def)
  ultimately have "pages_ok idle (insert (page i) T) m'" using a(4) by (simp add: pages_ok_def)
  then show thesis using that [OF a(1)] pages_ok_fresh [OF ok a(5,3)] page_nonzero [OF a(3)] by blast
qed

lemma pages_ok_drop:
  assumes ok: "pages_ok idle T m" and z: "z \<in> T" "z \<noteq> idle"
  obtains m' where "free_page z m = Some (True, m')" "pages_ok idle (T - {z}) m'"
proof -
  have inv: "buddy_inv m" using ok by (simp add: pages_ok_def)
  obtain i where i: "page_of m z i" using ok z by (auto simp: pages_ok_def)
  then have h: "holds_run m i 1" "i < 8192" "z = page i" by (simp_all add: page_of_def)
  from free_page_ok [OF inv h(1)] obtain m' where m': "free_page (page i) m = Some (True, m')" "buddy_inv m'"
    "free_frames m' = insert i (free_frames m)" "\<And>j. j \<noteq> i \<Longrightarrow> holds_run m j 1 \<Longrightarrow> holds_run m' j 1" by blast
  have "\<exists>j. page_of m' t j" if t: "t \<in> T - {z}" "t \<noteq> idle" for t
  proof -
    obtain j where j: "page_of m t j" using t ok by (auto simp: pages_ok_def)
    then have "j \<noteq> i" using t h(3) by (auto simp: page_of_def)
    then show ?thesis using j m'(4) by (auto simp: page_of_def)
  qed
  moreover have "\<forall>j\<in>free_frames m'. idle \<noteq> page j" using ok m'(3) z(2) h(3) by (simp add: pages_ok_def)
  ultimately have "pages_ok idle (T - {z}) m'" using m'(2) by (simp add: pages_ok_def)
  then show thesis using that m'(1) h(3) by blast
qed

section \<open>Creating and removing a thread\<close>

definition new_task :: "u32 \<Rightarrow> u32 \<Rightarrow> u32 \<Rightarrow> u8 \<Rightarrow> string option \<Rightarrow> u32 \<Rightarrow> kstate \<Rightarrow> task_t" where
  "new_task kexec_addr fn args prio name n s =
    (inited (fst (alloc_pid (pid_map_state s))) prio (name_or name (t_name (tasks s (cur_task s)))) (cur_task s)
      ((tasks s n)\<lparr>t_esp := fst (init_stack n kexec_addr fn args (kmem s))\<rparr>))\<lparr>t_stat := TASK_READY\<rparr>"

lemma kernel_thread_calm:
  assumes c: "calm idle S T s Q" and f: "family idle T s K rk" and free: "unlocked T s" and pr: "prios_ok T s"
    and ids: "ids_ok T s" "pids (pid_map_state s) \<noteq> {0..<256}" and pg: "pages_ok idle T (kmm s)" "free_frames (kmm s) \<noteq> {}"
    and p: "prio < NR_PRIO"
  shows "\<exists>n s' Q' K' rk'. kernel_thread ka fn args prio name s = Some (n, s') \<and> n \<notin> T \<and>
    calm idle S (insert n T) s' Q' \<and> served (Q(RrHead prio := Q (RrHead prio) @ [n])) Q' (cur_task s') \<and>
    family idle (insert n T) s' K' rk' \<and> K' = K(cur_task s := K (cur_task s) @ [n], n := []) \<and>
    unlocked (insert n T) s' \<and> prios_ok (insert n T) s' \<and>
    ids_ok (insert n T) s' \<and> pages_ok idle (insert n T) (kmm s') \<and>
    tasks s' = (tasks s)(n := new_task ka fn args prio name n s) \<and> sem_count s' = sem_count s \<and>
    kmem s' = snd (init_stack n ka fn args (kmem s))"
proof -
  note pl = calmD(1) [OF c]
  from pages_ok_new [OF pg] obtain n mm where n: "alloc_page (kmm s) = Some (n, mm)" "n \<notin> T" "n \<noteq> idle" "n \<noteq> NULL"
    "pages_ok idle (insert n T) mm" by blast
  obtain esp m where st: "init_stack n ka fn args (kmem s) = (esp, m)" by (cases "init_stack n ka fn args (kmem s)")
  define s1 where "s1 = upd_task n (\<lambda>x. x\<lparr>t_esp := esp\<rparr>) (s\<lparr>kmm := mm, kmem := m\<rparr>)"
  have nc: "n \<noteq> cur_task s" using n(2) calmD(5) [OF c] by auto
  have "t_lock (tasks s1 (cur_task s1)) = 0"
    using nc free calmD(5) [OF c] by (simp_all add: s1_def unlocked_def)
  from task_init_ok [OF this, of n prio name] obtain s2 where s2: "task_init n prio name s1 = Some s2"
    "tasks s2 = (tasks s1)(n := inited (fst (alloc_pid (pid_map_state s))) prio (name_or name (t_name (tasks s (cur_task s)))) (cur_task s) (tasks s1 n))"
    "nodes s2 = list_add_tail (Sibling n) (Children (cur_task s)) (list_node_init (Children n) (nodes s))"
    "task_tbl s2 = (task_tbl s)(fst (alloc_pid (pid_map_state s)) := n)" "pid_map_state s2 = snd (alloc_pid (pid_map_state s))"
    "queues s2 = queues s" "rr s2 = rr s" "sem_count s2 = sem_count s" "cur_task s2 = cur_task s" "kmem s2 = m" "kmm s2 = mm"
    using nc by (auto simp: s1_def)
  define s3 where "s3 = upd_task n (\<lambda>x. x\<lparr>t_stat := TASK_READY\<rparr>) s2"
  have t3: "tasks s3 = (tasks s)(n := new_task ka fn args prio name n s)"
    by (rule ext) (simp add: s3_def s2(2) s1_def new_task_def st)
  have al: "alive s (cur_task s)" using calmD(6) [OF c] by (simp add: alive_def)
  have dcur: "dlist (list_node_init (Children n) (nodes s)) (Children (cur_task s)) (map Sibling (K (cur_task s)))"
    by (rule dlist_init_other [OF familyD(1) [OF f calmD(5) [OF c] al]]) (use nc in auto)
  have qs: "queue_same (nodes s) (nodes s3)"
    unfolding queue_same_def
  proof (intro allI impI)
    fix x assume x: "\<forall>t. x \<noteq> Children t \<and> x \<noteq> Sibling t"
    have "nodes s3 x = list_node_init (Children n) (nodes s) x"
      unfolding s3_def upd_task_simps s2(3) by (rule list_add_tail_frame [OF dcur]) (use x in auto)
    then show "nodes s3 x = nodes s x" using x by (simp add: list_node_init_other)
  qed
  define sa where "sa = s\<lparr>nodes := nodes s3\<rparr>"
  have pa: "placed S T {} sa Q" by (rule placed_nodes [OF pl]) (use qs in \<open>simp_all add: sa_def\<close>)
  have pb: "placed S (insert n T) {n} sa Q" by (rule placed_new [OF pa n(2,4)])
  have pc: "placed S (insert n T) {n} (upd_task n (\<lambda>_. tasks s3 n) sa) Q" by (rule placed_upd [OF pb]) simp
  have pd: "placed S (insert n T) {n} s3 Q"
    by (rule placed_cong [OF pc]) (use t3 s2(6,7) in \<open>auto simp: sa_def s3_def\<close>)
  have nt: "t_stat (tasks s3 n) = TASK_READY" "t_wait_for (tasks s3 n) = NULL" "t_prio (tasks s3 n) = prio"
    by (simp_all add: t3 new_task_def inited_def)
  from placed_rr_enqueue [OF pd _ nt(1,2)] p nt(3) obtain s4 where s4: "rr_enqueue n s3 = Some s4" "only_queues s3 s4"
    "cur_task s4 = cur_task s" "placed S (insert n T) {} s4 (Q(RrHead prio := Q (RrHead prio) @ [n]))"
    using s2(9) by (auto simp: s3_def)
  note t4 = only_queuesD(1) [OF s4(2)]
  have "tasks s4 idle = tasks s idle" using t4 t3 n(3) by simp
  with calmD(2-4) [OF c] schedule_calm [OF s4(4), of idle] obtain s' Q' where s': "schedule s4 = Some s'"
    "calm idle S (insert n T) s' Q'" "served (Q(RrHead prio := Q (RrHead prio) @ [n])) Q' (cur_task s')"
    "only_queues s4 s'" by auto
  have t': "tasks s' = (tasks s)(n := new_task ka fn args prio name n s)" using only_queuesD(1) [OF s'(4)] t4 t3 by simp
  have run: "kernel_thread ka fn args prio name s = Some (n, s')"
    using n(1) st s2(1) s4(1) s'(1) by (simp add: kernel_thread_def s1_def s3_def)
  have "kin_same (nodes s2) (nodes s')"
    using only_queuesD(7) [OF s4(2)] only_queuesD(7) [OF s'(4)] by (auto simp: s3_def intro: kin_same_trans)
  then have "family idle (insert n T) s' (K(cur_task s := K (cur_task s) @ [n], n := [])) (rk(n := Suc (rk (cur_task s))))"
    by (intro task_init_family [OF f n(2) calmD(2) [OF c] calmD(5) [OF c] al t'])
      (simp_all add: s2(3) new_task_def inited_def)
  moreover have "unlocked (insert n T) s'" using free t' by (simp add: unlocked_def new_task_def inited_def)
  moreover have "prios_ok (insert n T) s'" using pr t' p by (simp add: prios_ok_def new_task_def inited_def)
  moreover have "t_pid (new_task ka fn args prio name n s) = fst (alloc_pid (pid_map_state s))"
    by (simp add: new_task_def inited_def)
  then have "ids_ok (insert n T) s'"
    by (intro ids_ok_new [OF ids(1) n(2,4) ids(2) _ _ t'])
      (use only_queuesD(3,4) [OF s4(2)] only_queuesD(3,4) [OF s'(4)] s2(4,5) in \<open>simp_all add: s3_def\<close>)
  moreover have "kmm s' = mm" "kmem s' = m" "sem_count s' = sem_count s"
    using only_queuesD(2,5,6) [OF s4(2)] only_queuesD(2,5,6) [OF s'(4)] s2(8,10,11) by (simp_all add: s3_def)
  ultimately show ?thesis using run n(2,5) s'(2,3) t' st by (metis snd_conv)
qed

lemma kkill_zombie_round_calm:
  assumes c: "calm idle S T s Q" and f: "family idle T s K rk" and free: "unlocked T s" and pr: "prios_ok T s"
    and ids: "ids_ok T s" and pg: "pages_ok idle T (kmm s)"
  shows "\<exists>s' Q' T'. kkill_zombie_round s = Some s' \<and>
    T' = (case Q (TqHead ZombieQue) of [] \<Rightarrow> T | z # _ \<Rightarrow> T - {z}) \<and>
    calm idle S T' s' Q' \<and> (\<forall>a. Q' (TqHead (SemQueue a)) = Q (TqHead (SemQueue a))) \<and> family idle T' s' K rk \<and>
    unlocked T' s' \<and> prios_ok T' s' \<and> ids_ok T' s' \<and> pages_ok idle T' (kmm s') \<and> tasks s' = tasks s \<and>
    sem_count s' = sem_count s"
proof -
  note pl = calmD(1) [OF c]
  have pick: "tq_pick_next ZombieQue s = Some (case Q (TqHead ZombieQue) of [] \<Rightarrow> NULL | t # _ \<Rightarrow> t, s)"
    by (rule tq_pick_next_ok [OF placedD(2) [OF pl]]) simp
  show ?thesis
  proof (cases "Q (TqHead ZombieQue)")
    case Nil
    from schedule_calm [OF calmD(1-4) [OF c]] obtain s' Q' where s': "schedule s = Some s'"
      "calm idle S T s' Q'" "only_queues s s'" "\<And>i. Q' (TqHead i) = Q (TqHead i)" using served_tq by metis
    note o = only_queuesD [OF s'(3)]
    have "kkill_zombie_round s = Some s'" using pick Nil s'(1) by (simp add: kkill_zombie_round_def)
    moreover have "family idle T s' K rk" by (rule family_kin [OF f only_queues_kin [OF s'(3)]])
    moreover have "ids_ok T s'" by (rule ids_ok_frame [OF ids kin_ids_frame [OF only_queues_kin [OF s'(3)]]])
    ultimately show ?thesis using s'(2,4) Nil o free pr pg
      by (intro exI [of _ s'] exI [of _ Q'] exI [of _ T])
        (simp add: unlocked_def prios_ok_def)
  next
    case (Cons z l)
    then have z: "z \<in> T" "t_stat (tasks s z) = TASK_ZOMBIE"
      using placed_iff [OF pl, of "TqHead ZombieQue" z] by (auto simp: home_iff)
    have nz: "z \<noteq> NULL" "z \<noteq> cur_task s" "z \<noteq> idle"
      using z placedD(4) [OF pl] calmD(3,6) [OF c] by auto
    have h: "home (tasks s z) = Some (TqHead ZombieQue)" using z(2) by simp
    from placed_tq_dequeue [OF pl z(1) _ h] obtain s1 where s1: "tq_dequeue ZombieQue z s = Some s1" "only_queues s s1"
      "cur_task s1 = cur_task s" "placed S T {z} s1 (Q(TqHead ZombieQue := remove1 z (Q (TqHead ZombieQue))))" by auto
    note o = only_queuesD [OF s1(2)]
    from pages_ok_drop [OF pg z(1) nz(3)] obtain m where m: "free_page z (kmm s) = Some (True, m)" "pages_ok idle (T - {z}) m"
      by blast
    define s' where "s' = s1\<lparr>task_tbl := (task_tbl s)(t_pid (tasks s z) := NULL),
      pid_map_state := free_pid (t_pid (tasks s z)) (pid_map_state s), kmm := m\<rparr>"
    have run: "kkill_zombie_round s = Some s'"
      using pick Cons nz s1(1,3) m(1) o by (simp add: kkill_zombie_round_def task_kill_def s'_def Let_def)
    have "placed S (T - {z}) {} s1 (Q(TqHead ZombieQue := remove1 z (Q (TqHead ZombieQue))))"
      using placed_forget [OF s1(4)] by simp
    then have "placed S (T - {z}) {} s' (Q(TqHead ZombieQue := remove1 z (Q (TqHead ZombieQue))))"
      by (rule placed_cong) (simp_all add: s'_def)
    then have c': "calm idle S (T - {z}) s' (Q(TqHead ZombieQue := remove1 z (Q (TqHead ZombieQue))))"
      using c nz o s1(3) by (auto simp: calm_def s'_def)
    have f1: "family idle T s1 K rk" by (rule family_kin [OF f only_queues_kin [OF s1(2)]])
    have zz: "\<not> alive s1 z" using z(2) o(1) by (simp add: alive_def)
    have al: "alive s' t = alive s1 t" and ch: "child_of idle (T - {z}) s' t u = child_of idle T s1 t u" for t u
      using zz by (auto simp: alive_def s'_def child_of_def)
    have f': "family idle (T - {z}) s' K rk"
    proof (rule familyI)
      show "dlist (nodes s') (Children t) (map Sibling (K t))" if "t \<in> T - {z}" "alive s' t" for t
        using familyD(1) [OF f1, of t] that al by (simp add: s'_def)
      show "u \<in> set (K t) \<longleftrightarrow> child_of idle (T - {z}) s' t u" if "t \<in> T - {z}" "alive s' t" for t u
        using familyD(2) [OF f1, of t u] that al ch by simp
      show "t_parent (tasks s' u) \<in> T - {z} \<and> alive s' (t_parent (tasks s' u)) \<and> rk (t_parent (tasks s' u)) < rk u"
        if "u \<in> T - {z}" "u \<noteq> idle" "alive s' u" for u
        using familyD(3-5) [OF f1, of u] that al zz by (auto simp: s'_def)
    qed
    have "ids_ok (T - {z}) s'" by (rule ids_ok_drop [OF ids z(1)]) (use o in \<open>simp_all add: s'_def\<close>)
    then show ?thesis using run Cons c' f' free pr m(2) o
      by (intro exI [of _ s'] exI [of _ "Q(TqHead ZombieQue := remove1 z (Q (TqHead ZombieQue)))"] exI [of _ "T - {z}"])
        (simp add: s'_def unlocked_def prios_ok_def)
  qed
qed

end
