(* ===== verification/Kernel.thy ===== *)
theory Kernel
  imports KernelThreads
begin

text \<open>
  The task management as one system. \<open>kinv\<close> is the invariant of its state: the ready lists with
  their bitmap, the task queues, the semaphores, the family tree, the ids and the pages of the tasks
  agree. \<open>run\<close> performs one call of the kernel, \<open>allowed\<close> says what the caller has to respect. An
  allowed call returns and keeps the invariant, \<open>sched_init\<close> establishes it, so it holds in every
  state that is reached.
\<close>

section \<open>The calls\<close>

datatype kcall =
    CTick
  | CSleep u32
  | CWakeup u32
  | CWait
  | CExit
  | CSpawn u32 u32 u32 u8 "string option"
  | CSetPrio u32 u8
  | CSemInit u32 u32
  | CSemWait u32
  | CSemPost u32
  | CReap

definition live :: "kstate \<Rightarrow> u32 set" where
  "live s = range (task_tbl s) - {NULL}"

fun run_call :: "kcall \<Rightarrow> kstate \<Rightarrow> kstate option" where
  "run_call CTick s = sched_tick s"
| "run_call (CSleep n) s = sleep n s"
| "run_call (CWakeup t) s = wakeup t s"
| "run_call CWait s = wait s"
| "run_call CExit s = kthread_exit 0 s"
| "run_call (CSpawn ka fn args prio name) s = map_option snd (kernel_thread ka fn args prio name s)"
| "run_call (CSetPrio t p) s = task_reset_prio t p s"
| "run_call (CSemInit a n) s = Some (sem_init a n s)"
| "run_call (CSemWait a) s = sem_wait a s"
| "run_call (CSemPost a) s = sem_post a s"
| "run_call CReap s = kkill_zombie_round s"

text \<open>What the callers respect: the idle task never blocks, a task that is woken sleeps, priorities are
  below 64, memory and an id are left for a new thread, semaphores are set up once and before use and
  do not overflow.\<close>

fun allowed :: "u32 \<Rightarrow> u32 set \<Rightarrow> kcall \<Rightarrow> kstate \<Rightarrow> bool" where
  "allowed idle S CTick s \<longleftrightarrow> True"
| "allowed idle S (CSleep n) s \<longleftrightarrow> cur_task s \<noteq> idle"
| "allowed idle S (CWakeup t) s \<longleftrightarrow> t \<in> live s \<and> t_stat (tasks s t) = TASK_SLEEP"
| "allowed idle S CWait s \<longleftrightarrow> cur_task s \<noteq> idle"
| "allowed idle S CExit s \<longleftrightarrow> cur_task s \<noteq> idle"
| "allowed idle S (CSpawn ka fn args prio name) s \<longleftrightarrow>
    prio < NR_PRIO \<and> free_frames (kmm s) \<noteq> {} \<and> pids (pid_map_state s) \<noteq> {0..<256}"
| "allowed idle S (CSetPrio t p) s \<longleftrightarrow> t \<in> live s \<and> t \<noteq> idle \<and> p < NR_PRIO"
| "allowed idle S (CSemInit a n) s \<longleftrightarrow> a \<notin> S \<and> a \<noteq> NULL \<and> 0 \<le> sint n"
| "allowed idle S (CSemWait a) s \<longleftrightarrow> a \<in> S \<and> cur_task s \<noteq> idle"
| "allowed idle S (CSemPost a) s \<longleftrightarrow> a \<in> S \<and> sint (sem_count s a) < 2147483647"
| "allowed idle S CReap s \<longleftrightarrow> True"

fun sems_after :: "kcall \<Rightarrow> u32 set \<Rightarrow> u32 set" where
  "sems_after (CSemInit a n) S = insert a S"
| "sems_after _ S = S"

inductive kreach :: "u32 \<Rightarrow> kstate \<Rightarrow> u32 set \<Rightarrow> kstate \<Rightarrow> bool" for idle s0 where
  kreach_start: "kreach idle s0 {} s0"
| kreach_call: "kreach idle s0 S s \<Longrightarrow> allowed idle S c s \<Longrightarrow> run_call c s = Some s' \<Longrightarrow>
    kreach idle s0 (sems_after c S) s'"

section \<open>The invariant\<close>

definition sems_ok :: "u32 set \<Rightarrow> kstate \<Rightarrow> (node_addr \<Rightarrow> u32 list) \<Rightarrow> bool" where
  "sems_ok S s Q \<longleftrightarrow> (\<forall>a\<in>S. int (length (Q (TqHead (SemQueue a)))) = max 0 (- sint (sem_count s a)))"

definition tree_ok :: "u32 \<Rightarrow> u32 set \<Rightarrow> kstate \<Rightarrow> bool" where
  "tree_ok idle T s \<longleftrightarrow> (\<exists>K rk. family idle T s K rk)"

definition rest_ok :: "u32 \<Rightarrow> u32 set \<Rightarrow> kstate \<Rightarrow> bool" where
  "rest_ok idle T s \<longleftrightarrow> tree_ok idle T s \<and> unlocked T s \<and> prios_ok T s \<and> ids_ok T s \<and> pages_ok idle T (kmm s)"

definition kinv :: "u32 \<Rightarrow> u32 set \<Rightarrow> kstate \<Rightarrow> (node_addr \<Rightarrow> u32 list) \<Rightarrow> bool" where
  "kinv idle S s Q \<longleftrightarrow> calm idle S (live s) s Q \<and> sems_ok S s Q \<and> rest_ok idle (live s) s"

lemma live_ids: "ids_ok T s \<Longrightarrow> NULL \<notin> T \<Longrightarrow> live s = T"
  unfolding live_def ids_ok_def by (auto simp: image_iff) metis

lemma kinvI:
  assumes "calm idle S T s Q" and "sems_ok S s Q" and "rest_ok idle T s"
  shows "kinv idle S s Q"
proof -
  have "live s = T" using live_ids assms placedD(4) [OF calmD(1) [OF assms(1)]] by (auto simp: rest_ok_def)
  then show ?thesis using assms by (simp add: kinv_def)
qed

lemma rest_ok_kin:
  assumes "rest_ok idle T s" and "kin_frame s s'"
  shows "rest_ok idle T s'"
proof -
  obtain K rk where "family idle T s K rk" using assms(1) by (auto simp: rest_ok_def tree_ok_def)
  then have "tree_ok idle T s'" using family_kin [OF _ assms(2)] unfolding tree_ok_def by blast
  moreover have "unlocked T s'" "kmm s' = kmm s"
    using assms by (auto simp: rest_ok_def unlocked_def kin_frame_def kin_task_def)
  ultimately show ?thesis
    using assms prios_ok_kin ids_ok_frame [OF _ kin_ids_frame] by (auto simp: rest_ok_def)
qed

lemma sems_ok_same:
  "sems_ok S s Q \<Longrightarrow> sem_count s' = sem_count s \<Longrightarrow> (\<And>a. Q' (TqHead (SemQueue a)) = Q (TqHead (SemQueue a))) \<Longrightarrow>
    sems_ok S s' Q'"
  by (simp add: sems_ok_def)

text \<open>There are at most 256 live tasks, so the queues are short and the counts far from their bounds.\<close>

lemma card_live: "card (live s) \<le> 256"
proof -
  have "card (live s) \<le> card (range (task_tbl s))" unfolding live_def by (rule card_mono) auto
  also have "\<dots> \<le> card (UNIV :: u8 set)" by (rule card_image_le) simp
  finally show ?thesis by (simp add: card_word)
qed

lemma queue_length:
  assumes pl: "placed S (live s) X s Q" and q: "q \<in> heads S"
  shows "length (Q q) \<le> 256"
proof -
  have "length (Q q) = card (set (Q q))"
    using qrepD(3) [OF placedD(3) [OF pl] q] by (simp add: distinct_card)
  also have "\<dots> \<le> card (live s)"
    by (rule card_mono) (auto simp: placedD(7) [OF pl q] live_def)
  finally show ?thesis using card_live [of s] by simp
qed

section \<open>The semaphores\<close>

lemma sint_u32: "- 2147483648 \<le> sint (w :: u32)" "sint (w :: u32) < 2147483648"
  using sint_ge [of w] sint_lt [of w] by simp_all

lemma sint_pred: "- 2147483648 < sint (w :: u32) \<Longrightarrow> sint (w - 1) = sint w - 1"
  using sint_u32 [of w] by (simp add: sint_word_ariths signed_take_bit_int_eq_self)

lemma sint_succ: "sint (w :: u32) < 2147483647 \<Longrightarrow> sint (w + 1) = sint w + 1"
  using sint_u32 [of w] by (simp add: sint_word_ariths signed_take_bit_int_eq_self)

lemma sign_bit: "bit (w :: u32) 31 \<longleftrightarrow> sint w < 0"
  using bit_last_iff [of w] by simp

lemma sem_count_low:
  assumes pl: "placed S (live s) {} s Q" and sm: "sems_ok S s Q" and a: "a \<in> S"
  shows "- 256 \<le> sint (sem_count s a)"
  using sm a queue_length [OF pl, of "TqHead (SemQueue a)"] by (fastforce simp: sems_ok_def)

lemma placed_frame:
  assumes "placed S T X s Q" and "nodes s' = nodes s" "queues s' = queues s" "rr s' = rr s" "tasks s' = tasks s"
  shows "placed S T X s' Q"
  by (rule placed_cong [OF assms(1-4)]) (simp add: assms(5))

lemma calm_count:
  assumes "calm idle S T s Q"
  shows "calm idle S T (s\<lparr>sem_count := f\<rparr>) Q"
proof -
  have "placed S T {} (s\<lparr>sem_count := f\<rparr>) Q" by (rule placed_frame [OF calmD(1) [OF assms]]) simp_all
  then show ?thesis using assms by (simp add: calm_def)
qed

lemma rest_ok_count: "rest_ok idle T s \<Longrightarrow> rest_ok idle T (s\<lparr>sem_count := f\<rparr>)"
  by (erule rest_ok_kin) (simp add: kin_frame_def)

text \<open>A wait on a positive count only takes one off; otherwise the caller joins the end of the queue.\<close>

lemma sem_wait_kinv:
  assumes inv: "kinv idle S s Q" and a: "a \<in> S" and ni: "cur_task s \<noteq> idle"
  defines "Q2 \<equiv> (leave_rr s Q)(TqHead (SemQueue a) := Q (TqHead (SemQueue a)) @ [cur_task s])"
  shows "\<exists>s' Q'. sem_wait a s = Some s' \<and> kinv idle S s' Q' \<and>
    sem_count s' = (sem_count s)(a := sem_count s a - 1) \<and>
    (if 0 < sint (sem_count s a) then tasks s' = tasks s \<and> cur_task s' = cur_task s \<and> Q' = Q
     else served Q2 Q' (cur_task s') \<and> stopped (waiting_on a) (sem_decl a s) s')"
proof -
  let ?T = "live s" and ?s = "sem_decl a s"
  have c: "calm idle S ?T s Q" and sm: "sems_ok S s Q" and r: "rest_ok idle ?T s" using inv by (simp_all add: kinv_def)
  have low: "- 256 \<le> sint (sem_count s a)" by (rule sem_count_low [OF calmD(1) [OF c] sm a])
  have new: "sint (sem_count s a - 1) = sint (sem_count s a) - 1" by (rule sint_pred) (use low in simp)
  have len: "int (length (Q (TqHead (SemQueue a)))) = max 0 (- sint (sem_count s a))" using sm a by (simp add: sems_ok_def)
  have c1: "calm idle S ?T ?s Q" unfolding sem_decl_def by (rule calm_count [OF c])
  have r1: "rest_ok idle ?T ?s" unfolding sem_decl_def by (rule rest_ok_count [OF r])
  have sel: "cur_task ?s = cur_task s" "tasks ?s = tasks s" "leave_rr ?s Q = leave_rr s Q"
    "sem_count ?s = (sem_count s)(a := sem_count s a - 1)"
    by (simp_all add: sem_decl_def leave_rr_def)
  have neg: "bit (sem_count ?s a) 31 \<longleftrightarrow> \<not> 0 < sint (sem_count s a)" by (auto simp: sel sign_bit new)
  show ?thesis
  proof (cases "0 < sint (sem_count s a)")
    case True
    then have "sem_wait a s = Some ?s" using neg by (simp add: sem_wait_def Let_def)
    moreover have "sems_ok S ?s Q" using sm len True new by (auto simp: sems_ok_def sel)
    then have "kinv idle S ?s Q" by (rule kinvI [OF c1 _ r1])
    ultimately show ?thesis using True sel by (intro exI [of _ ?s] exI [of _ Q]) simp
  next
    case False
    have ni1: "cur_task ?s \<noteq> idle" using ni sel(1) by simp
    from sem_sleep_calm [OF c1 ni1 a] obtain s' Q' where s': "sem_sleep a ?s = Some s'" "calm idle S ?T s' Q'"
      "served Q2 Q' (cur_task s')" "stopped (waiting_on a) ?s s'"
      unfolding sel Q2_def by blast
    have k: "kin_frame ?s s'" and cnt: "sem_count s' = sem_count ?s" using s'(4) by (simp_all add: stopped_def)
    have "sems_ok S s' Q'"
      unfolding sems_ok_def
    proof
      fix b assume b: "b \<in> S"
      have "Q' (TqHead (SemQueue b)) = Q2 (TqHead (SemQueue b))" by (rule served_tq [OF s'(3)])
      moreover have "int (length (Q (TqHead (SemQueue b)))) = max 0 (- sint (sem_count s b))"
        using sm b by (simp add: sems_ok_def)
      ultimately show "int (length (Q' (TqHead (SemQueue b)))) = max 0 (- sint (sem_count s' b))"
        using False len new by (auto simp: Q2_def leave_rr_def cnt sel)
    qed
    then have "kinv idle S s' Q'" by (rule kinvI [OF s'(2) _ rest_ok_kin [OF r1 k]])
    moreover have "sem_wait a s = Some s'" using False neg s'(1) by (simp add: sem_wait_def Let_def)
    ultimately show ?thesis using False s'(3,4) cnt sel by (intro exI [of _ s'] exI [of _ Q']) simp
  qed
qed

text \<open>A post to a semaphore somebody waits for makes the first of the queue ready.\<close>

lemma sem_post_kinv:
  assumes inv: "kinv idle S s Q" and a: "a \<in> S" and top: "sint (sem_count s a) < 2147483647"
  shows "\<exists>s' Q'. sem_post a s = Some s' \<and> kinv idle S s' Q' \<and> cur_task s' = cur_task s \<and>
    sem_count s' = (sem_count s)(a := sem_count s a + 1) \<and>
    (case Q (TqHead (SemQueue a)) of [] \<Rightarrow> tasks s' = tasks s \<and> Q' = Q
     | t # _ \<Rightarrow> tasks s' = (tasks s)(t := released (tasks s t)) \<and> Q' = to_ready s (SemQueue a) t Q)"
proof -
  let ?T = "live s" and ?s = "sem_incl a s"
  have c: "calm idle S ?T s Q" and sm: "sems_ok S s Q" and r: "rest_ok idle ?T s" using inv by (simp_all add: kinv_def)
  have new: "sint (sem_count s a + 1) = sint (sem_count s a) + 1" by (rule sint_succ [OF top])
  have len: "int (length (Q (TqHead (SemQueue a)))) = max 0 (- sint (sem_count s a))" using sm a by (simp add: sems_ok_def)
  have c1: "calm idle S ?T ?s Q" unfolding sem_incl_def by (rule calm_count [OF c])
  have r1: "rest_ok idle ?T ?s" unfolding sem_incl_def by (rule rest_ok_count [OF r])
  have sel: "cur_task ?s = cur_task s" "tasks ?s = tasks s" "to_ready ?s i t Q = to_ready s i t Q"
    "sem_count ?s = (sem_count s)(a := sem_count s a + 1)" for i t
    by (simp_all add: sem_incl_def to_ready_def)
  show ?thesis
  proof (cases "Q (TqHead (SemQueue a))")
    case Nil
    then have pos: "0 \<le> sint (sem_count s a)" using len by simp
    then have "sem_post a s = Some ?s" by (simp add: sem_post_def Let_def)
    moreover have "sems_ok S ?s Q" using sm pos new by (auto simp: sems_ok_def sel)
    then have "kinv idle S ?s Q" by (rule kinvI [OF c1 _ r1])
    ultimately show ?thesis using Nil sel by (intro exI [of _ ?s] exI [of _ Q]) simp
  next
    case (Cons t l)
    have neg: "sint (sem_count s a) = - int (Suc (length l))" using len Cons by (simp split: if_splits)
    have "prios_ok ?T ?s" using r1 by (simp add: rest_ok_def)
    from sem_wake_calm [OF c1 this a Cons] obtain s' where s': "sem_wake a ?s = Some s'"
      "calm idle S ?T s' (to_ready s (SemQueue a) t Q)" "cur_task s' = cur_task s"
      "tasks s' = (tasks s)(t := released (tasks s t))" "kin_frame ?s s'" "sem_count s' = sem_count ?s"
      unfolding sel by blast
    have "sems_ok S s' (to_ready s (SemQueue a) t Q)"
      unfolding sems_ok_def
    proof
      fix b assume b: "b \<in> S"
      have "int (length (Q (TqHead (SemQueue b)))) = max 0 (- sint (sem_count s b))"
        using sm b by (simp add: sems_ok_def)
      then show "int (length (to_ready s (SemQueue a) t Q (TqHead (SemQueue b)))) = max 0 (- sint (sem_count s' b))"
        using Cons neg new by (auto simp: to_ready_tq s'(6) sel)
    qed
    then have "kinv idle S s' (to_ready s (SemQueue a) t Q)" by (rule kinvI [OF s'(2) _ rest_ok_kin [OF r1 s'(5)]])
    moreover have "sem_post a s = Some s'" using neg s'(1) by (simp add: sem_post_def Let_def)
    ultimately show ?thesis using Cons s'(3,4,6) sel
      by (intro exI [of _ s'] exI [of _ "to_ready s (SemQueue a) t Q"]) simp
  qed
qed

text \<open>Setting up a queue adds its head.\<close>

lemma heads_insert: "heads (insert a S) = insert (TqHead (SemQueue a)) (heads S)"
  by (auto simp: heads_def)

lemma sched_ok_tq_init:
  assumes ok: "sched_ok s Q H" and q: "TqHead i \<notin> H"
  shows "sched_ok (tq_init i s) (Q(TqHead i := [])) (insert (TqHead i) H)"
proof -
  have "no_queue Q H NULL" "tq_ok s Q H" using ok by (auto simp: sched_ok_def no_queue_def)
  note t = tq_init_ok [OF this q]
  have "rr (tq_init i s) = rr s" "tasks (tq_init i s) = tasks s" by (simp_all add: tq_init_def upd_queue_def)
  then show ?thesis using t ok by (auto simp: sched_ok_def rr_ok_def ready_other)
qed

lemma tq_init_frame: "only_queues s (tq_init i s)" "cur_task (tq_init i s) = cur_task s"
  by (auto simp: only_queues_def tq_init_def upd_queue_def kin_same_def list_node_init_other)

lemma sem_init_kinv:
  assumes inv: "kinv idle S s Q" and a: "a \<notin> S" "a \<noteq> NULL" and n: "0 \<le> sint n"
  shows "kinv idle (insert a S) (sem_init a n s) (Q(TqHead (SemQueue a) := []))"
proof -
  let ?T = "live s" and ?s = "s\<lparr>sem_count := (sem_count s)(a := n)\<rparr>"
  let ?Q = "Q(TqHead (SemQueue a) := [])"
  have c: "calm idle S ?T ?s Q" using calm_count inv by (simp add: kinv_def)
  have r: "rest_ok idle ?T ?s" using rest_ok_count inv by (simp add: kinv_def)
  have sm: "sems_ok S s Q" using inv by (simp add: kinv_def)
  note pl = calmD(1) [OF c]
  have s': "sem_init a n s = tq_init (SemQueue a) ?s" by (simp add: sem_init_def)
  note o = only_queuesD [OF tq_init_frame(1) [of ?s "SemQueue a"], folded s']
  have home: "home (tasks s t) \<noteq> Some (TqHead (SemQueue a))" if "t \<in> ?T" for t
    using placedD(8) [OF pl that] a by auto
  have "sched_ok (sem_init a n s) ?Q (heads (insert a S))"
    unfolding s' heads_insert by (rule sched_ok_tq_init [OF placedD(1) [OF pl]]) (use a in simp)
  moreover have "set (?Q q) = {t \<in> ?T - {}. home (tasks (sem_init a n s) t) = Some q}" if "q \<in> heads (insert a S)" for q
  proof (cases "q = TqHead (SemQueue a)")
    case True
    then show ?thesis using home o by auto
  next
    case False
    then have "q \<in> heads S" using that heads_insert by auto
    from placedD(7) [OF pl this] False o show ?thesis by auto
  qed
  moreover have "home (tasks (sem_init a n s) t) = Some q \<longrightarrow> q \<in> heads (insert a S)" if "t \<in> ?T - {}" for t q
    using placedD(8) [OF pl, of t q] that o heads_insert by auto
  moreover have "t_stat (tasks (sem_init a n s) t) \<noteq> TASK_WAITING \<longrightarrow> t_wait_for (tasks (sem_init a n s) t) = NULL"
    if "t \<in> ?T - {}" for t
    using placedD(9) [OF pl, of t] that o by auto
  ultimately have "placed (insert a S) ?T {} (sem_init a n s) ?Q"
    using placedD(4,6) [OF pl] a(2) unfolding placed_def by blast
  moreover have "cur_task (sem_init a n s) = cur_task s" using tq_init_frame(2) [of "SemQueue a" ?s] s' by simp
  ultimately have "calm idle (insert a S) ?T (sem_init a n s) ?Q"
    using c o(1) by (simp add: calm_def)
  moreover have "sems_ok (insert a S) (sem_init a n s) ?Q"
    using sm n a(1) o(2) by (auto simp: sems_ok_def)
  moreover have "kin_frame ?s (sem_init a n s)" unfolding s' by (rule only_queues_kin [OF tq_init_frame(1)])
  ultimately show ?thesis using kinvI rest_ok_kin [OF r] by blast
qed

section \<open>Every call keeps the invariant\<close>

lemma kinvD:
  assumes "kinv idle S s Q"
  shows "calm idle S (live s) s Q" and "sems_ok S s Q" and "rest_ok idle (live s) s" and "prios_ok (live s) s"
    and "unlocked (live s) s" and "ids_ok (live s) s" and "pages_ok idle (live s) (kmm s)" and "tree_ok idle (live s) s"
  using assms by (simp_all add: kinv_def rest_ok_def)

lemma kinv_kin:
  assumes inv: "kinv idle S s Q" and c: "calm idle S (live s) s' Q'" and k: "kin_frame s s'" "sem_count s' = sem_count s"
    and q: "\<And>a. Q' (TqHead (SemQueue a)) = Q (TqHead (SemQueue a))"
  shows "kinv idle S s' Q'"
  by (rule kinvI [OF c sems_ok_same [OF kinvD(2) [OF inv] k(2) q] rest_ok_kin [OF kinvD(3) [OF inv] k(1)]])

lemma kinv_stopped:
  assumes inv: "kinv idle S s Q" and c: "calm idle S (live s) s' Q'" and r: "served Q2 Q' (cur_task s')" "stopped g s s'"
    and q: "\<And>a. Q2 (TqHead (SemQueue a)) = Q (TqHead (SemQueue a))"
  shows "kinv idle S s' Q'"
  by (rule kinv_kin [OF inv c]) (use r q served_tq [OF r(1)] in \<open>simp_all add: stopped_def\<close>)

lemma sleep_kinv:
  assumes inv: "kinv idle S s Q" and ni: "cur_task s \<noteq> idle"
  defines "Q2 \<equiv> (leave_rr s Q)(TqHead SleepQue := Q (TqHead SleepQue) @ [cur_task s])"
  shows "\<exists>s' Q'. sleep n s = Some s' \<and> kinv idle S s' Q' \<and> served Q2 Q' (cur_task s') \<and> stopped (sleeping n) s s'"
proof -
  from sleep_calm [OF kinvD(1) [OF inv] ni] obtain s' Q' where s': "sleep n s = Some s'" "calm idle S (live s) s' Q'"
    "served Q2 Q' (cur_task s')" "stopped (sleeping n) s s'" unfolding Q2_def by blast
  have "kinv idle S s' Q'" by (rule kinv_stopped [OF inv s'(2-4)]) (simp add: Q2_def leave_rr_def)
  with s' show ?thesis by blast
qed

lemma wait_kinv:
  assumes inv: "kinv idle S s Q" and ni: "cur_task s \<noteq> idle"
  shows "\<exists>s' Q'. wait s = Some s' \<and> kinv idle S s' Q' \<and> served (leave_rr s Q) Q' (cur_task s') \<and> stopped parked s s'"
proof -
  from wait_calm [OF kinvD(1) [OF inv] ni] obtain s' Q' where s': "wait s = Some s'" "calm idle S (live s) s' Q'"
    "served (leave_rr s Q) Q' (cur_task s')" "stopped parked s s'" by blast
  have "kinv idle S s' Q'" by (rule kinv_stopped [OF inv s'(2-4)]) (simp add: leave_rr_def)
  with s' show ?thesis by blast
qed

lemma wakeup_kinv:
  assumes inv: "kinv idle S s Q" and t: "t \<in> live s" "t_stat (tasks s t) = TASK_SLEEP"
  shows "\<exists>s' Q'. wakeup t s = Some s' \<and> kinv idle S s' Q' \<and> served (to_ready s SleepQue t Q) Q' (cur_task s') \<and>
    tasks s' = (tasks s)(t := awake (tasks s t))"
proof -
  from wakeup_calm [OF kinvD(1,4) [OF inv] t] obtain s' Q' where s': "wakeup t s = Some s'" "calm idle S (live s) s' Q'"
    "served (to_ready s SleepQue t Q) Q' (cur_task s')" "tasks s' = (tasks s)(t := awake (tasks s t))" "kin_frame s s'"
    "sem_count s' = sem_count s" by blast
  have "kinv idle S s' Q'"
    by (rule kinv_kin [OF inv s'(2,5,6)]) (simp add: served_tq [OF s'(3)] to_ready_tq)
  with s' show ?thesis by blast
qed

lemma task_reset_prio_kinv:
  assumes inv: "kinv idle S s Q" and t: "t \<in> live s" "t \<noteq> idle" and p: "p < NR_PRIO"
  shows "\<exists>s' Q'. task_reset_prio t p s = Some s' \<and> kinv idle S s' Q' \<and> tasks s' = (tasks s)(t := with_prio p (tasks s t)) \<and>
    live s' = live s \<and> (t = cur_task s \<longrightarrow> first_runs (live s) s')"
proof -
  have "t_lock (tasks s t) = 0" using kinvD(5) [OF inv] t(1) by (simp add: unlocked_def)
  from task_reset_prio_calm [OF kinvD(1) [OF inv] t this p] obtain s' Q' where s': "task_reset_prio t p s = Some s'"
    "calm idle S (live s) s' Q'" "\<forall>i. Q' (TqHead i) = Q (TqHead i)" "tasks s' = (tasks s)(t := with_prio p (tasks s t))"
    "kin_frame s s'" "sem_count s' = sem_count s" "t = cur_task s \<longrightarrow> first_runs (live s) s'" by blast
  have "kinv idle S s' Q'" by (rule kinv_kin [OF inv s'(2,5,6)]) (use s'(3) in simp)
  moreover have "live s' = live s" using s'(5) by (simp add: live_def kin_frame_def)
  ultimately show ?thesis using s' by blast
qed

lemma sched_tick_kinv:
  assumes inv: "kinv idle S s Q"
  defines "ts \<equiv> Q (TqHead SleepQue)"
  shows "\<exists>s' Q1 Q'. sched_tick s = Some s' \<and> kinv idle S s' Q' \<and> live s' = live s \<and>
    tasks s' = ticked_tasks s ts \<and> Q1 (TqHead SleepQue) = filter (\<lambda>t. \<not> due s t) ts \<and>
    (\<forall>p<64. ready Q1 p = ready Q p @ filter (\<lambda>t. due s t \<and> unat (t_prio (tasks s t)) = p) ts) \<and>
    (if tick_preempts s ts then served Q1 Q' (cur_task s') else cur_task s' = cur_task s \<and> Q' = Q1)"
proof -
  from sched_tick_calm [OF kinvD(1,4) [OF inv]] obtain s' Q1 Q' where s': "sched_tick s = Some s'"
    "calm idle S (live s) s' Q'" "kin_frame s s'" "sem_count s' = sem_count s" "\<forall>i. i \<noteq> SleepQue \<longrightarrow> Q1 (TqHead i) = Q (TqHead i)"
    "if tick_preempts s ts then served Q1 Q' (cur_task s') else cur_task s' = cur_task s \<and> Q' = Q1"
    "tasks s' = ticked_tasks s ts" "Q1 (TqHead SleepQue) = filter (\<lambda>t. \<not> due s t) ts"
    "\<forall>p<64. ready Q1 p = ready Q p @ filter (\<lambda>t. due s t \<and> unat (t_prio (tasks s t)) = p) ts"
    unfolding ts_def by blast
  have "Q' (TqHead (SemQueue a)) = Q1 (TqHead (SemQueue a))" for a
    using s'(6) served_tq by (cases "tick_preempts s ts") auto
  then have "kinv idle S s' Q'" by (intro kinv_kin [OF inv s'(2-4)]) (use s'(5) in simp)
  moreover have "live s' = live s" using s'(3) by (simp add: live_def kin_frame_def)
  ultimately show ?thesis using s' by blast
qed

lemma kthread_exit_kinv:
  assumes inv: "kinv idle S s Q" and ni: "cur_task s \<noteq> idle" and f: "family idle (live s) s K rk"
  defines "t \<equiv> cur_task s"
  defines "p \<equiv> t_parent (tasks s t)"
  defines "ks \<equiv> remove1 t (K p) @ K t"
  shows "\<exists>s' Q'. kthread_exit 0 s = Some s' \<and> kinv idle S s' Q' \<and> live s' = live s \<and>
    family idle (live s') s' (K(p := ks)) rk \<and> served (exit_lists s Q p ks) Q' (cur_task s') \<and>
    tasks s' = (exit_tasks s p (K t) ks)(t := buried (tasks s t))"
proof -
  from kthread_exit_calm [OF kinvD(1) [OF inv] ni f kinvD(5,4) [OF inv]] obtain s' Q' where s':
    "kthread_exit 0 s = Some s'" "calm idle S (live s) s' Q'" "family idle (live s) s' (K(p := ks)) rk"
    "served (exit_lists s Q p ks) Q' (cur_task s')" "tasks s' = (exit_tasks s p (K t) ks)(t := buried (tasks s t))"
    "ids_frame s s'" "sem_count s' = sem_count s"
    unfolding t_def p_def ks_def by blast
  have "exit_lists s Q p ks (TqHead (SemQueue a)) = Q (TqHead (SemQueue a))" for a
    by (simp add: exit_lists_def leave_rr_def Let_def)
  then have "sems_ok S s' Q'" by (intro sems_ok_same [OF kinvD(2) [OF inv] s'(7)]) (simp add: served_tq [OF s'(4)])
  moreover have "rest_ok idle (live s) s'"
    using s'(3,6) kinvD(4,5,7) [OF inv] ids_ok_frame [OF kinvD(6) [OF inv] s'(6)]
    by (auto simp: rest_ok_def tree_ok_def unlocked_def prios_ok_def ids_frame_def)
  ultimately have "kinv idle S s' Q'" by (rule kinvI [OF s'(2)])
  moreover have "live s' = live s" using s'(6) by (simp add: live_def ids_frame_def)
  ultimately show ?thesis using s' by metis
qed

lemma kernel_thread_kinv:
  assumes inv: "kinv idle S s Q" and p: "prio < NR_PRIO" and mem: "free_frames (kmm s) \<noteq> {}"
    and pid: "pids (pid_map_state s) \<noteq> {0..<256}"
  shows "\<exists>n s' Q'. kernel_thread ka fn args prio name s = Some (n, s') \<and> kinv idle S s' Q' \<and>
    n \<notin> live s \<and> live s' = insert n (live s) \<and> tasks s' = (tasks s)(n := new_task ka fn args prio name n s) \<and>
    served (Q(RrHead prio := Q (RrHead prio) @ [n])) Q' (cur_task s')"
proof -
  obtain K rk where f: "family idle (live s) s K rk" using kinvD(8) [OF inv] by (auto simp: tree_ok_def)
  from kernel_thread_calm [OF kinvD(1) [OF inv] f kinvD(5,4,6) [OF inv] pid kinvD(7) [OF inv] mem p]
  obtain n s' Q' K' rk' where s': "kernel_thread ka fn args prio name s = Some (n, s')" "n \<notin> live s"
    "calm idle S (insert n (live s)) s' Q'" "served (Q(RrHead prio := Q (RrHead prio) @ [n])) Q' (cur_task s')"
    "family idle (insert n (live s)) s' K' rk'" "unlocked (insert n (live s)) s'" "prios_ok (insert n (live s)) s'"
    "ids_ok (insert n (live s)) s'" "pages_ok idle (insert n (live s)) (kmm s')"
    "tasks s' = (tasks s)(n := new_task ka fn args prio name n s)" "sem_count s' = sem_count s" by blast
  have "sems_ok S s' Q'" by (rule sems_ok_same [OF kinvD(2) [OF inv] s'(11)]) (simp add: served_tq [OF s'(4)])
  moreover have "rest_ok idle (insert n (live s)) s'" using s'(5-9) by (auto simp: rest_ok_def tree_ok_def)
  ultimately have inv': "kinv idle S s' Q'" by (rule kinvI [OF s'(3)])
  have "live s' = insert n (live s)" by (rule live_ids [OF s'(8) placedD(4) [OF calmD(1) [OF s'(3)]]])
  with inv' s' show ?thesis by blast
qed

lemma kkill_zombie_round_kinv:
  assumes inv: "kinv idle S s Q"
  shows "\<exists>s' Q'. kkill_zombie_round s = Some s' \<and> kinv idle S s' Q' \<and> tasks s' = tasks s \<and>
    live s' = (case Q (TqHead ZombieQue) of [] \<Rightarrow> live s | z # _ \<Rightarrow> live s - {z})"
proof -
  obtain K rk where f: "family idle (live s) s K rk" using kinvD(8) [OF inv] by (auto simp: tree_ok_def)
  from kkill_zombie_round_calm [OF kinvD(1) [OF inv] f kinvD(5,4,6,7) [OF inv]] obtain s' Q' T' where s':
    "kkill_zombie_round s = Some s'" "T' = (case Q (TqHead ZombieQue) of [] \<Rightarrow> live s | z # _ \<Rightarrow> live s - {z})"
    "calm idle S T' s' Q'" "\<forall>a. Q' (TqHead (SemQueue a)) = Q (TqHead (SemQueue a))" "family idle T' s' K rk"
    "unlocked T' s'" "prios_ok T' s'" "ids_ok T' s'" "pages_ok idle T' (kmm s')" "tasks s' = tasks s"
    "sem_count s' = sem_count s" by metis
  have "sems_ok S s' Q'" by (rule sems_ok_same [OF kinvD(2) [OF inv] s'(11)]) (use s'(4) in simp)
  moreover have "rest_ok idle T' s'" using s'(5-9) by (auto simp: rest_ok_def tree_ok_def)
  ultimately have inv': "kinv idle S s' Q'" by (rule kinvI [OF s'(3)])
  have "live s' = T'" by (rule live_ids [OF s'(8) placedD(4) [OF calmD(1) [OF s'(3)]]])
  with inv' s' show ?thesis by blast
qed

section \<open>The start\<close>

definition kfresh :: "u32 \<Rightarrow> kstate \<Rightarrow> bool" where
  "kfresh idle s \<longleftrightarrow> cur_task s = idle \<and> idle \<noteq> NULL \<and> t_lock (tasks s idle) = 0 \<and> pid_map_state s = pid_boot \<and>
    task_tbl s = (\<lambda>_. NULL) \<and> buddy_inv (kmm s) \<and> (\<forall>i\<in>free_frames (kmm s). idle \<noteq> page i)"

abbreviation no_tasks :: "node_addr \<Rightarrow> u32 list" where
  "no_tasks \<equiv> \<lambda>_. []"

lemma no_tasks_upd [simp]: "no_tasks(q := []) = no_tasks"
  by auto

lemma queues_init_ok: "sched_ok (tq_init ZombieQue (tq_init SleepQue (rr_init s))) no_tasks (heads {})"
proof -
  have "TqHead i \<notin> rr_heads" for i by (simp add: rr_heads_def)
  from sched_ok_tq_init [OF rr_init_ok this]
  have "sched_ok (tq_init SleepQue (rr_init s)) no_tasks (insert (TqHead SleepQue) rr_heads)" by simp
  from sched_ok_tq_init [OF this, of ZombieQue]
  have "sched_ok (tq_init ZombieQue (tq_init SleepQue (rr_init s))) no_tasks
      (insert (TqHead ZombieQue) (insert (TqHead SleepQue) rr_heads))" by (simp add: rr_heads_def)
  moreover have "insert (TqHead ZombieQue) (insert (TqHead SleepQue) rr_heads) = heads {}" by (auto simp: heads_def)
  ultimately show ?thesis by simp
qed

lemma sched_init_kinv:
  assumes fr: "kfresh idle s"
  shows "\<exists>s'. sched_init idle s = Some s' \<and> kinv idle {} s' (no_tasks(RrHead IDEL_PRIO := [idle])) \<and>
    live s' = {idle} \<and> kmm s' = kmm s \<and> pid_map_state s' = snd (alloc_pid pid_boot) \<and> cur_task s' = idle"
proof -
  define s1 where "s1 = tq_init ZombieQue (tq_init SleepQue (rr_init s))"
  have same1: "tasks s1 = tasks s" "cur_task s1 = cur_task s" "task_tbl s1 = task_tbl s" "pid_map_state s1 = pid_map_state s"
    "kmm s1 = kmm s"
    by (simp_all add: s1_def tq_init_def rr_init_def upd_queue_def)
  have ok1: "sched_ok s1 no_tasks (heads {})" unfolding s1_def by (rule queues_init_ok)
  define pid where "pid = fst (alloc_pid pid_boot)"
  have free: "t_lock (tasks s1 (cur_task s1)) = 0" using fr same1 by (simp add: kfresh_def)
  define x where "x = inited pid IDEL_PRIO ''idle'' idle (tasks s idle)"
  from task_init_ok [OF free, of idle IDEL_PRIO "Some ''idle''"] fr obtain s2 where s2:
    "task_init idle IDEL_PRIO (Some ''idle'') s1 = Some s2" "tasks s2 = (tasks s)(idle := x)"
    "nodes s2 = list_add_tail (Sibling idle) (Children idle) (list_node_init (Children idle) (nodes s1))"
    "task_tbl s2 = (task_tbl s)(pid := idle)" "pid_map_state s2 = snd (alloc_pid pid_boot)"
    "queues s2 = queues s1" "rr s2 = rr s1" "cur_task s2 = idle" "kmm s2 = kmm s"
    by (auto simp: same1 kfresh_def x_def pid_def name_or_def)
  define s3 where "s3 = upd_nodes (list_node_init (Sibling idle)) (upd_nodes (list_node_init (Children idle))
    (upd_task idle (\<lambda>x. x\<lparr>t_parent := NULL\<rparr>) s2))"
  have t3: "tasks s3 = (tasks s)(idle := x\<lparr>t_parent := NULL\<rparr>)" by (rule ext) (simp add: s3_def upd_nodes_def s2(2))
  have q3: "nodes s3 y = nodes s1 y" if "\<forall>t. y \<noteq> Children t \<and> y \<noteq> Sibling t" for y
    using that list_add_tail_frame [OF dlist_init, of y "Sibling idle" "Children idle" "nodes s1"]
    by (simp add: s3_def upd_nodes_def s2(3) list_node_init_other)
  have "qrep (nodes s3) no_tasks (heads {})"
    by (rule qrep_other [of "nodes s1"]) (use ok1 q3 heads_not_kin in \<open>auto simp: sched_ok_def tq_ok_def\<close>)
  then have ok3: "sched_ok s3 no_tasks (heads {})"
    using ok1 s2(6,7) by (simp add: sched_ok_def tq_ok_def rr_ok_def ready_def s3_def upd_nodes_def)
  have prio: "t_prio (tasks s3 idle) = IDEL_PRIO" by (simp add: t3 x_def inited_def)
  have lt: "unat IDEL_PRIO < 64" "IDEL_PRIO < NR_PRIO" by (simp_all add: IDEL_PRIO_def NR_PRIO_def)
  have nz: "idle \<noteq> NULL" using fr by (simp add: kfresh_def)
  have "no_queue no_tasks (heads {}) idle" by (simp add: no_queue_def)
  from rr_enqueue_ok [OF ok3 this nz] lt prio obtain s4 where s4: "rr_enqueue idle s3 = Some s4"
    "sched_ok s4 (no_tasks(RrHead IDEL_PRIO := [idle])) (heads {})" "same_but_rr s3 s4" by auto
  have k4: "only_queues s3 s4" "cur_task s4 = idle"
    using rr_enqueue_frame [OF s4(1) _ _] placedD ok3 lt prio s2(8)
    by (auto simp: sched_ok_def tq_ok_def s3_def upd_nodes_def)
  note t4 = only_queuesD(1) [OF k4(1)]
  define s5 where "s5 = upd_task idle (\<lambda>x. x\<lparr>t_stat := TASK_READY\<rparr>) s4"
  define y where "y = x\<lparr>t_parent := NULL, t_stat := TASK_READY\<rparr>"
  have t5: "tasks s5 idle = y" by (simp add: s5_def t4 t3 y_def)
  let ?Q = "no_tasks(RrHead IDEL_PRIO := [idle])"
  have y: "t_stat y = TASK_READY" "t_prio y = IDEL_PRIO" "t_wait_for y = NULL" "t_pid y = pid" "t_lock y = 0"
    by (simp_all add: y_def x_def inited_def)
  have "sched_ok s5 ?Q (heads {})"
    by (rule sched_ok_cong [OF s4(2)]) (use t4 in \<open>simp_all add: s5_def\<close>)
  moreover have "set (?Q q) = {t \<in> {idle} - {}. home (tasks s5 t) = Some q}" for q using t5 y by auto
  ultimately have "placed {} {idle} {} s5 ?Q"
    using t5 y nz lt unfolding placed_def by (auto split: if_splits)
  then have c: "calm idle {} {idle} s5 ?Q" using t5 y k4(2) by (simp add: calm_def s5_def)
  have d: "dlist (nodes s5) (Children idle) (map Sibling [])"
  proof -
    have "dlist (nodes s3) (Children idle) (map Sibling [])"
      by (simp add: s3_def upd_nodes_def dlist_init dlist_init_other)
    moreover have "kin_same (nodes s3) (nodes s5)" using only_queuesD(7) [OF k4(1)] by (simp add: s5_def)
    ultimately show ?thesis by (simp only: kin_same_dlist)
  qed
  have "family idle {idle} s5 (\<lambda>_. []) (\<lambda>_. 0)" using d by (auto simp: family_def child_of_def)
  moreover have "ids_ok {idle} s5"
  proof -
    have none: "ids_ok {} s" using fr pid_boot_inv pid_boot_empty by (simp add: ids_ok_def kfresh_def)
    have "(5::nat) \<in> {0..<256}" by simp
    then have "pids (pid_map_state s) \<noteq> {0..<256}" using fr pid_boot_empty by (metis empty_iff kfresh_def)
    from ids_ok_new [OF none _ nz this, of s5 y] show ?thesis
      using fr t5 y(4) s2(4,5) only_queuesD(3,4) [OF k4(1)] t4 t3
      by (simp add: s5_def s3_def upd_nodes_def kfresh_def pid_def fun_eq_iff y_def)
  qed
  moreover have "kmm s5 = kmm s" using only_queuesD(6) [OF k4(1)] s2(9) by (simp add: s5_def s3_def upd_nodes_def)
  moreover have "pid_map_state s5 = snd (alloc_pid pid_boot)"
    using only_queuesD(4) [OF k4(1)] s2(5) by (simp add: s5_def s3_def upd_nodes_def)
  moreover have "sched_init idle s = Some s5"
    using s2(1) s4(1) by (simp add: sched_init_def s1_def s3_def s5_def Let_def)
  ultimately show ?thesis using c fr t5 y lt k4(2) live_ids [of "{idle}" s5] nz
    by (intro exI [of _ s5] conjI kinvI [OF c])
      (auto simp: sems_ok_def rest_ok_def tree_ok_def unlocked_def prios_ok_def pages_ok_def kfresh_def s5_def)
qed

end
