(* ===== verification/KernelSafe.thy ===== *)
theory KernelSafe
  imports Kernel
begin

text \<open>
  What the invariant of the task management gives: no call blocks for ever or gets lost in its data
  structures, and what sleeping, exiting, waiting and posting do to the tasks. The last properties show
  states between the steps of a call, which an interrupt makes visible, where this is not so.
\<close>

section \<open>A running kernel, for the witnesses\<close>

definition idle0 :: u32 where "idle0 = 0xC0010000"

lemma kernel_boot_frames:
  obtains s s0 where "kfresh idle0 s" and "sched_init idle0 s = Some s0"
    and "kinv idle0 {} s0 (no_tasks(RrHead IDEL_PRIO := [idle0]))" and "free_frames (kmm s0) = {1020..<1024}"
    and "pids (pid_map_state s0) \<noteq> {0..<256}" and "live s0 = {idle0}"
proof -
  obtain m where m: "buddy_inv m" "free_frames m = {1020..<1024}" by (rule booted)
  define s where "s = kboot\<lparr>cur_task := idle0, kmm := m\<rparr>"
  have "idle0 \<noteq> page i" if "i \<in> {1020..<1024}" for i
  proof
    assume "idle0 = page i"
    then have "to_fr_idx (to_paddr idle0) = to_fr_idx (to_paddr (page i))" by simp
    moreover have "to_fr_idx (to_paddr (page i)) = (of_nat i :: u32)" using that by (simp add: page_def unat_small)
    moreover have "to_fr_idx (to_paddr idle0) = of_nat 16" by (simp add: idle0_def to_paddr_def PAGE_OFFSET_def to_fr_idx_def)
    ultimately have "of_nat i = (of_nat 16 :: u32)" by simp
    then show False using that of_nat_eq_word [of i 16] by simp
  qed
  then have fr: "kfresh idle0 s" using m
    by (simp add: kfresh_def s_def kboot_def idle0_def NULL_def)
  from sched_init_kinv [OF fr] obtain s0 where s0: "sched_init idle0 s = Some s0"
    "kinv idle0 {} s0 (no_tasks(RrHead IDEL_PRIO := [idle0]))" "live s0 = {idle0}" "kmm s0 = kmm s"
    "pid_map_state s0 = snd (alloc_pid pid_boot)" by blast
  have "pids (pid_map_state s0) \<noteq> {0..<256}"
  proof -
    have "ids_ok {idle0} s0" using kinvD(6) [OF s0(2)] s0(3) by simp
    then have "pids (pid_map_state s0) = {unat (t_pid (tasks s0 idle0))}" by (simp add: ids_ok_def)
    moreover have "card {0..<256::nat} \<noteq> card {unat (t_pid (tasks s0 idle0))}" by simp
    ultimately show ?thesis by metis
  qed
  moreover have "free_frames (kmm s0) = {1020..<1024}" using s0(4) m(2) by (simp add: s_def)
  ultimately show thesis using that fr s0 by blast
qed

text \<open>The first thread, when only the idle task is there: it runs at once.\<close>

lemma kernel_boot:
  obtains s s0 where "kfresh idle0 s" and "sched_init idle0 s = Some s0"
    and "kinv idle0 {} s0 (no_tasks(RrHead IDEL_PRIO := [idle0]))" and "free_frames (kmm s0) \<noteq> {}"
    and "pids (pid_map_state s0) \<noteq> {0..<256}" and "live s0 = {idle0}"
proof -
  obtain s s0 where "kfresh idle0 s" "sched_init idle0 s = Some s0" "kinv idle0 {} s0 (no_tasks(RrHead IDEL_PRIO := [idle0]))"
    "free_frames (kmm s0) = {1020..<1024}" "pids (pid_map_state s0) \<noteq> {0..<256}" "live s0 = {idle0}" by (rule kernel_boot_frames)
  then show thesis by (intro that) auto
qed

lemma served_first:
  assumes "served Q Q' t" and "ready Q p = [n]" and "\<forall>p' < p. ready Q p' = []" and "p < 64"
  shows "t = n" "Q' = Q"
proof -
  obtain q where q: "top_prio Q q" "t = hd (ready Q q)" "Q' = Q(RrHead (of_nat q) := tl (ready Q q) @ [hd (ready Q q)])"
    using assms(1) by (auto simp: served_def)
  have "q = p" using q(1) assms(2,3) by (metis list.distinct(1) nat_neq_iff top_prio_def)
  then have r: "ready Q q = [n]" using assms(2) by simp
  show "t = n" using q(2) r by simp
  have "Q (RrHead (of_nat q)) = [n]" using r by (simp add: ready_def)
  then show "Q' = Q" using q(3) r by auto
qed

lemma first_thread:
  assumes inv: "kinv idle {} s (no_tasks(RrHead IDEL_PRIO := [idle]))" and "live s = {idle}" and "free_frames (kmm s) \<noteq> {}"
    and pids: "pids (pid_map_state s) \<noteq> {0..<256}"
  obtains n s' where "kernel_thread ka fn args 0 name s = Some (n, s')" "n \<noteq> idle" "live s' = {idle, n}" "cur_task s' = n"
    "kinv idle {} s' (no_tasks(RrHead IDEL_PRIO := [idle], RrHead 0 := [n]))" "tasks s' = (tasks s)(n := new_task ka fn args 0 name n s)"
proof -
  have "0 < NR_PRIO" by (simp add: NR_PRIO_def)
  from kernel_thread_kinv [OF inv this assms(3) pids, of ka fn args name] obtain n s1 Q1 where
    s1: "kernel_thread ka fn args 0 name s = Some (n, s1)" "kinv idle {} s1 Q1" "n \<notin> live s" "live s1 = insert n (live s)"
    "tasks s1 = (tasks s)(n := new_task ka fn args 0 name n s)"
    "served ((no_tasks(RrHead IDEL_PRIO := [idle]))(RrHead 0 :=
      (no_tasks(RrHead IDEL_PRIO := [idle])) (RrHead 0) @ [n])) Q1 (cur_task s1)" by blast
  have ne: "(0 :: u8) \<noteq> IDEL_PRIO" by (simp add: IDEL_PRIO_def NR_PRIO_def)
  let ?Q = "no_tasks(RrHead IDEL_PRIO := [idle], RrHead 0 := [n])"
  have sv: "served ?Q Q1 (cur_task s1)" using s1(6) ne by simp
  have r: "ready ?Q 0 = [n]" by (simp add: ready_def)
  have "cur_task s1 = n" "Q1 = ?Q" by (rule served_first [OF sv r]; simp)+
  then show thesis using that [OF s1(1)] s1 assms(2) by auto
qed

lemma kernel_running:
  obtains s Q n where "kinv idle0 {} s Q" and "cur_task s = n" and "n \<noteq> idle0" and "Q (TqHead SleepQue) = []"
    and "t_parent (tasks s n) = idle0" and "live s = {idle0, n}" and "t_rest_ticks (tasks s n) = 1"
proof -
  obtain s s0 where s0: "kinv idle0 {} s0 (no_tasks(RrHead IDEL_PRIO := [idle0]))" "free_frames (kmm s0) \<noteq> {}"
    "pids (pid_map_state s0) \<noteq> {0..<256}" "live s0 = {idle0}" by (rule kernel_boot)
  obtain n s1 where s1: "n \<noteq> idle0" "live s1 = {idle0, n}" "cur_task s1 = n"
    "kinv idle0 {} s1 (no_tasks(RrHead IDEL_PRIO := [idle0], RrHead 0 := [n]))" "tasks s1 = (tasks s0)(n := new_task 0 0 0 0 None n s0)"
    by (rule first_thread [OF s0(1,4,2,3)])
  have "cur_task s0 = idle0" using calmD(5) [OF kinvD(1) [OF s0(1)]] s0(4) by simp
  then show thesis using that [OF s1(4,3,1)] s1(2,5) by (simp add: new_task_def inited_def)
qed

section \<open>Safety of the whole\<close>

lemma kernel_call_step:
  assumes "kinv idle S s Q" and "allowed idle S c s"
  shows "\<exists>s' Q'. run_call c s = Some s' \<and> kinv idle (sems_after c S) s' Q'"
proof (cases c)
  case CTick
  then show ?thesis using sched_tick_kinv [OF assms(1)] by auto
next
  case (CSleep n)
  then show ?thesis using sleep_kinv [OF assms(1), of n] assms(2) by auto
next
  case (CWakeup t)
  then show ?thesis using wakeup_kinv [OF assms(1), of t] assms(2) by auto
next
  case CWait
  then show ?thesis using wait_kinv [OF assms(1)] assms(2) by auto
next
  case CExit
  obtain K rk where "family idle (live s) s K rk" using kinvD(8) [OF assms(1)] by (auto simp: tree_ok_def)
  from kthread_exit_kinv [OF assms(1) _ this] show ?thesis using CExit assms(2) by auto
next
  case (CSpawn ka fn args prio name)
  then show ?thesis using kernel_thread_kinv [OF assms(1), of prio ka fn args name] assms(2) by auto
next
  case (CSetPrio t p)
  then show ?thesis using task_reset_prio_kinv [OF assms(1), of t p] assms(2) by auto
next
  case (CSemInit a n)
  then show ?thesis using sem_init_kinv [OF assms(1), of a n] assms(2) by auto
next
  case (CSemWait a)
  then show ?thesis using sem_wait_kinv [OF assms(1), of a] assms(2) by auto
next
  case (CSemPost a)
  then show ?thesis using sem_post_kinv [OF assms(1), of a] assms(2) by auto
next
  case CReap
  then show ?thesis using kkill_zombie_round_kinv [OF assms(1)] by auto
qed

text \<open>C10. Every call the kernel allows returns, whatever sequence of calls led to the state: no lock is
  found taken, no null pointer is followed, no list is walked off its end; and the invariant holds
  again afterwards.\<close>

theorem kernel_call_safe:
  assumes "kinv idle S s Q" and "allowed idle S c s"
  shows "\<exists>s' Q'. run_call c s = Some s' \<and> kinv idle (sems_after c S) s' Q'"
  by (rule kernel_call_step [OF assms])

theorem kernel_call_safe_witness:
  "\<exists>s s' Q'. cur_task s \<noteq> idle0 \<and> run_call CExit s = Some s' \<and> kinv idle0 {} s' Q'"
proof -
  obtain s Q n where s: "kinv idle0 {} s Q" "cur_task s = n" "n \<noteq> idle0" by (rule kernel_running)
  then have "allowed idle0 {} CExit s" by simp
  from kernel_call_safe [OF s(1) this] s show ?thesis by auto
qed

text \<open>C11. From the boot state on, whatever calls are made: each live task is on exactly the list its
  state names and on no other, a waiting task on the queue of the semaphore it waits for, the bitmap
  shows the ready lists that are not empty, the negative count of a semaphore is the number of its
  waiters, and a ready task runs.\<close>

theorem kernel_reach_safe:
  assumes "kfresh idle s" and "sched_init idle s = Some s0" and "kreach idle s0 S s'"
  shows "\<exists>Q. qrep (nodes s') Q (heads S) \<and>
    (\<forall>q\<in>heads S. \<forall>t. t \<in> set (Q q) \<longleftrightarrow> t \<in> live s' \<and> home (tasks s' t) = Some q) \<and>
    (\<forall>t\<in>live s'. home (tasks s' t) \<noteq> None \<longrightarrow> the (home (tasks s' t)) \<in> heads S) \<and>
    bitmap_ok (bit_tbl (rr s')) (bit_grp (rr s')) (\<lambda>p. ready Q p \<noteq> []) \<and>
    (\<forall>a\<in>S. int (length (Q (TqHead (SemQueue a)))) = max 0 (- sint (sem_count s' a))) \<and>
    cur_task s' \<in> live s' \<and> t_stat (tasks s' (cur_task s')) = TASK_READY"
proof -
  have "\<exists>Q. kinv idle S s' Q" using assms(3)
  proof (induction rule: kreach.induct)
    case kreach_start
    then show ?case using sched_init_kinv [OF assms(1)] assms(2) by auto
  next
    case (kreach_call S s c s')
    then obtain Q where "kinv idle S s Q" by blast
    from kernel_call_step [OF this kreach_call.hyps(2)] kreach_call.hyps(3) show ?case by auto
  qed
  then obtain Q where inv: "kinv idle S s' Q" by blast
  note c = kinvD(1) [OF inv]
  note pl = calmD(1) [OF c]
  have "rr_ok s' Q" using placedD(1) [OF pl] by (simp add: sched_ok_def)
  then have "bitmap_ok (bit_tbl (rr s')) (bit_grp (rr s')) (\<lambda>p. ready Q p \<noteq> [])" by (simp add: rr_ok_def)
  moreover have "the (home (tasks s' t)) \<in> heads S" if "t \<in> live s'" "home (tasks s' t) \<noteq> None" for t
    using placedD(8) [OF pl that(1)] that(2) by auto
  moreover have "\<forall>a\<in>S. int (length (Q (TqHead (SemQueue a)))) = max 0 (- sint (sem_count s' a))"
    using kinvD(2) [OF inv] by (simp add: sems_ok_def)
  ultimately show ?thesis using placedD(3) [OF pl] placed_iff [OF pl] calmD(5,6) [OF c] by auto
qed

theorem kernel_reach_safe_witness:
  "\<exists>s s0 s' Q. sched_init idle0 s = Some s0 \<and> sched_tick s0 = Some s' \<and>
    (\<forall>q\<in>heads {}. \<forall>t. t \<in> set (Q q) \<longleftrightarrow> t \<in> live s' \<and> home (tasks s' t) = Some q)"
proof -
  obtain s s0 where s0: "kfresh idle0 s" "sched_init idle0 s = Some s0"
    "kinv idle0 {} s0 (no_tasks(RrHead IDEL_PRIO := [idle0]))" by (rule kernel_boot)
  from sched_tick_kinv [OF s0(3)] obtain s' where s': "sched_tick s0 = Some s'" by blast
  have "kreach idle0 s0 (sems_after CTick {}) s'"
    by (rule kreach_call [OF kreach_start]) (simp_all add: s')
  from kernel_reach_safe [OF s0(1,2) this] s0(2) s' show ?thesis by auto
qed

text \<open>\<open>sched_init\<close> returns on a fresh kernel and leaves the idle task as the only task, ready at the
  lowest priority and running, with every list, table and counter consistent.\<close>

theorem sched_init_ok:
  assumes "kfresh idle s"
  shows "\<exists>s'. sched_init idle s = Some s' \<and> kinv idle {} s' (no_tasks(RrHead IDEL_PRIO := [idle])) \<and>
    live s' = {idle} \<and> cur_task s' = idle"
  using sched_init_kinv [OF assms] by blast

theorem sched_init_ok_witness:
  "\<exists>s s'. sched_init idle0 s = Some s' \<and> live s' = {idle0} \<and> cur_task s' = idle0"
proof -
  obtain s s0 where "kfresh idle0 s" by (rule kernel_boot)
  from sched_init_ok [OF this] show ?thesis by blast
qed

section \<open>Sleeping\<close>

text \<open>C14. A tick wakes exactly the sleepers that are due: they leave the sleep queue, in its order, for
  the ends of the ready lists of their priorities; the others stay and count down by one; the running
  task is charged. Another task is scheduled when a sleeper woke or the time slice is used up, and
  only then.\<close>

theorem sched_tick_wakes_due:
  assumes "kinv idle S s Q"
  shows "\<exists>s' Q1 Q'. sched_tick s = Some s' \<and> kinv idle S s' Q' \<and>
    tasks s' = ticked_tasks s (Q (TqHead SleepQue)) \<and>
    Q1 (TqHead SleepQue) = filter (\<lambda>t. t_sleep_ticks (tasks s t) \<noteq> 1) (Q (TqHead SleepQue)) \<and>
    (\<forall>p<64. ready Q1 p = ready Q p @
      filter (\<lambda>t. t_sleep_ticks (tasks s t) = 1 \<and> unat (t_prio (tasks s t)) = p) (Q (TqHead SleepQue))) \<and>
    (if t_rest_ticks (tasks s (cur_task s)) = 1 \<or> (\<exists>t\<in>set (Q (TqHead SleepQue)). t_sleep_ticks (tasks s t) = 1)
     then served Q1 Q' (cur_task s') else cur_task s' = cur_task s \<and> Q' = Q1)"
proof -
  from sched_tick_kinv [OF assms] obtain s' Q1 Q' where s': "sched_tick s = Some s'" "kinv idle S s' Q'"
    "tasks s' = ticked_tasks s (Q (TqHead SleepQue))"
    "Q1 (TqHead SleepQue) = filter (\<lambda>t. \<not> due s t) (Q (TqHead SleepQue))"
    "\<forall>p<64. ready Q1 p = ready Q p @ filter (\<lambda>t. due s t \<and> unat (t_prio (tasks s t)) = p) (Q (TqHead SleepQue))"
    "if tick_preempts s (Q (TqHead SleepQue)) then served Q1 Q' (cur_task s') else cur_task s' = cur_task s \<and> Q' = Q1"
    by blast
  show ?thesis
    by (intro exI [of _ s'] exI [of _ Q1] exI [of _ Q'] conjI)
      (use s' in \<open>simp_all add: due_def tick_preempts_def\<close>)
qed

theorem sched_tick_wakes_due_witness:
  "\<exists>s s' Q1 Q'. sched_tick s = Some s' \<and> served Q1 Q' (cur_task s') \<and> Q1 (TqHead SleepQue) = []"
proof -
  obtain s Q n where s: "kinv idle0 {} s Q" "cur_task s = n" "Q (TqHead SleepQue) = []" "t_rest_ticks (tasks s n) = 1"
    by (rule kernel_running)
  from sched_tick_wakes_due [OF s(1)] s(2-4) show ?thesis by auto
qed

text \<open>Ticks one after the other, with no other call between them.\<close>

fun ticks :: "nat \<Rightarrow> kstate \<Rightarrow> kstate option" where
  "ticks 0 s = Some s"
| "ticks (Suc n) s = do { s \<leftarrow> ticks n s; sched_tick s }"

definition sleep_time :: "u32 \<Rightarrow> nat" where
  "sleep_time w = (if w = 0 then 4294967296 else unat w)"

lemma sleep_time_Suc: "sleep_time w = Suc (unat (w - 1))"
proof (cases "w = 0")
  case False
  then have "0 < unat w" by (simp add: unat_gt_0)
  then show ?thesis using False by (simp add: sleep_time_def unat_minus_one)
next
  case True
  have "unat (- 1 :: u32) = 4294967295" by (simp add: unsigned_minus_1_eq_mask mask_eq_exp_minus_1)
  then show ?thesis using True by (simp add: sleep_time_def)
qed

lemma asleep_in_queue:
  assumes "kinv idle S s Q" and "t \<in> live s" and "t_stat (tasks s t) = TASK_SLEEP"
  shows "t \<in> set (Q (TqHead SleepQue))" and "t \<noteq> cur_task s"
proof -
  note c = kinvD(1) [OF assms(1)]
  have "home (tasks s t) = Some (TqHead SleepQue)" using assms(3) by simp
  then show "t \<in> set (Q (TqHead SleepQue))" using placed_iff [OF calmD(1) [OF c], of "TqHead SleepQue" t] assms(2) by simp
  show "t \<noteq> cur_task s" using calmD(6) [OF c] assms(3) by auto
qed

lemma sleeper_counts_down:
  assumes inv: "kinv idle S s Q" and t: "t \<in> live s" "t_stat (tasks s t) = TASK_SLEEP"
    and m: "m < sleep_time (t_sleep_ticks (tasks s t))"
  shows "\<exists>s' Q'. ticks m s = Some s' \<and> kinv idle S s' Q' \<and> t \<in> live s' \<and> t_stat (tasks s' t) = TASK_SLEEP \<and>
    t_sleep_ticks (tasks s' t) = t_sleep_ticks (tasks s t) - of_nat m"
  using m
proof (induction m)
  case 0
  then show ?case using inv t by auto
next
  case (Suc m)
  let ?w = "t_sleep_ticks (tasks s t)"
  from Suc obtain s1 Q1 where s1: "ticks m s = Some s1" "kinv idle S s1 Q1" "t \<in> live s1" "t_stat (tasks s1 t) = TASK_SLEEP"
    "t_sleep_ticks (tasks s1 t) = ?w - of_nat m" by auto
  have "\<not> due s1 t"
  proof
    assume "due s1 t"
    then have "?w - of_nat m = 1" using s1(5) by (simp add: due_def)
    then have "of_nat m = ?w - 1" by (simp add: algebra_simps)
    moreover have "m < 4294967296" using Suc.prems sleep_time_Suc [of ?w] u32_lt [of "?w - 1"] by simp
    ultimately have "m = unat (?w - 1)" using unat_small by metis
    then show False using Suc.prems sleep_time_Suc by simp
  qed
  then have dt: "ticked (tasks s1 t) = (tasks s1 t)\<lparr>t_sleep_ticks := t_sleep_ticks (tasks s1 t) - 1\<rparr>"
    by (simp add: ticked_def due_def)
  from sched_tick_kinv [OF s1(2)] obtain s2 Q2 where s2: "sched_tick s1 = Some s2" "kinv idle S s2 Q2" "live s2 = live s1"
    "tasks s2 = ticked_tasks s1 (Q1 (TqHead SleepQue))" by blast
  have "tasks s2 t = ticked (tasks s1 t)"
    using asleep_in_queue(1) [OF s1(2-4)] s2(4) by (simp add: ticked_tasks_def)
  with dt s1 s2(1-3) show ?case by (intro exI [of _ s2] exI [of _ Q2]) (simp add: algebra_simps)
qed

lemma sleeper_wakes:
  assumes inv: "kinv idle S s Q" and t: "t \<in> live s" "t_stat (tasks s t) = TASK_SLEEP"
  shows "\<exists>s' Q'. ticks (sleep_time (t_sleep_ticks (tasks s t))) s = Some s' \<and> kinv idle S s' Q' \<and>
    t_stat (tasks s' t) = TASK_READY"
proof -
  let ?w = "t_sleep_ticks (tasks s t)"
  from sleeper_counts_down [OF inv t, of "unat (?w - 1)"] sleep_time_Suc [of ?w] obtain s1 Q1 where
    s1: "ticks (unat (?w - 1)) s = Some s1" "kinv idle S s1 Q1" "t \<in> live s1" "t_stat (tasks s1 t) = TASK_SLEEP"
    "t_sleep_ticks (tasks s1 t) = ?w - of_nat (unat (?w - 1))" by auto
  from sched_tick_kinv [OF s1(2)] obtain s2 Q2 where s2: "sched_tick s1 = Some s2" "kinv idle S s2 Q2"
    "tasks s2 = ticked_tasks s1 (Q1 (TqHead SleepQue))" by blast
  have "tasks s2 t = ticked (tasks s1 t)"
    using asleep_in_queue(1) [OF s1(2-4)] s2(3) by (simp add: ticked_tasks_def)
  then have "t_stat (tasks s2 t) = TASK_READY" using s1(5) by (simp add: ticked_def awake_def)
  with s1(1) s2(1,2) sleep_time_Suc [of ?w] show ?thesis by auto
qed

text \<open>C15. \<open>sleep ticks\<close> puts the caller to sleep for exactly that number of ticks, and for the
  \<open>2 ^ 32\<close> ticks of a whole turn of the counter when \<open>ticks\<close> is 0; the task is ready again after the
  last of them.\<close>

theorem sleep_lasts:
  assumes "kinv idle S s Q" and "cur_task s \<noteq> idle"
  shows "\<exists>s1. sleep n s = Some s1 \<and>
    (\<forall>m < sleep_time n. \<exists>s'. ticks m s1 = Some s' \<and> t_stat (tasks s' (cur_task s)) = TASK_SLEEP) \<and>
    (\<exists>s'. ticks (sleep_time n) s1 = Some s' \<and> t_stat (tasks s' (cur_task s)) = TASK_READY)"
proof -
  from sleep_kinv [OF assms, of n] obtain s1 Q1 where s1: "sleep n s = Some s1" "kinv idle S s1 Q1"
    "stopped (sleeping n) s s1" by blast
  have "live s1 = live s" using s1(3) by (simp add: stopped_def kin_frame_def live_def)
  then have t: "cur_task s \<in> live s1" "t_stat (tasks s1 (cur_task s)) = TASK_SLEEP" "t_sleep_ticks (tasks s1 (cur_task s)) = n"
    using s1(3) calmD(5) [OF kinvD(1) [OF assms(1)]] by (simp_all add: stopped_def sleeping_def)
  show ?thesis
    using s1(1) sleeper_counts_down [OF s1(2) t(1,2), unfolded t(3)] sleeper_wakes [OF s1(2) t(1,2), unfolded t(3)] by blast
qed

theorem sleep_lasts_witness:
  "\<exists>s s1 s'. sleep 3 s = Some s1 \<and> ticks (sleep_time 3) s1 = Some s' \<and> sleep_time 0 = 4294967296"
proof -
  obtain s Q n where s: "kinv idle0 {} s Q" "cur_task s = n" "n \<noteq> idle0" by (rule kernel_running)
  then have "cur_task s \<noteq> idle0" by simp
  from sleep_lasts [OF s(1) this, of 3] show ?thesis by (auto simp: sleep_time_def)
qed

section \<open>The end of a thread\<close>

text \<open>C16. When a thread ends with status 0 it becomes the last of the zombie queue, its children become
  children of its parent, and the parent is made ready exactly when it waits for its children and this
  was the last: no task, other than the one that ends, has one of the two as its parent any more.\<close>

theorem kthread_exit_hands_over:
  assumes inv: "kinv idle S s Q" and ni: "cur_task s \<noteq> idle"
  defines "t \<equiv> cur_task s"
  defines "p \<equiv> t_parent (tasks s t)"
  defines "orphans \<equiv> {c \<in> live s. c \<noteq> idle \<and> c \<noteq> t \<and> alive s c \<and> t_parent (tasks s c) \<in> {t, p}}"
  shows "\<exists>s' Q'. kthread_exit 0 s = Some s' \<and> kinv idle S s' Q' \<and>
    Q' (TqHead ZombieQue) = Q (TqHead ZombieQue) @ [t] \<and> t_stat (tasks s' t) = TASK_ZOMBIE \<and>
    (\<forall>c\<in>orphans. t_parent (tasks s' c) = p) \<and>
    (t_stat (tasks s' p) = TASK_READY \<longleftrightarrow> t_stat (tasks s p) = TASK_READY \<or>
      t_stat (tasks s p) = TASK_WAITING \<and> t_wait_for (tasks s p) = NULL \<and> orphans = {})"
proof -
  obtain K rk where f: "family idle (live s) s K rk" using kinvD(8) [OF inv] by (auto simp: tree_ok_def)
  define ks where "ks = remove1 t (K p) @ K t"
  note c = kinvD(1) [OF inv]
  have t: "t \<in> live s" "t \<noteq> idle" "alive s t" using calmD(5,6) [OF c] ni by (simp_all add: t_def alive_def)
  note p = familyD(3-5) [OF f t, folded p_def]
  have kp: "u \<in> set (K p) \<longleftrightarrow> child_of idle (live s) s p u" for u by (rule familyD(2) [OF f p(1,2)])
  have kt: "u \<in> set (K t) \<longleftrightarrow> child_of idle (live s) s t u" for u by (rule familyD(2) [OF f t(1,3)])
  have pt: "p \<noteq> t" using p(3) by auto
  have dk: "distinct (K p)" using dlist_distinct [OF familyD(1) [OF f p(1,2)]] by (simp add: distinct_map)
  have nt: "\<not> child_of idle (live s) s t t" using pt by (simp add: child_of_def p_def)
  have ks: "set ks = orphans"
    using dk kp kt nt by (auto simp: ks_def orphans_def child_of_def)
  have ptk: "p \<notin> set (K t)"
  proof
    assume "p \<in> set (K t)"
    then have "child_of idle (live s) s t p" using kt by simp
    then show False using familyD(5) [OF f, of p] p(3) by (simp add: child_of_def)
  qed
  from kthread_exit_kinv [OF inv ni f] obtain s' Q' where s': "kthread_exit 0 s = Some s'" "kinv idle S s' Q'"
    "served (exit_lists s Q p ks) Q' (cur_task s')" "tasks s' = (exit_tasks s p (K t) ks)(t := buried (tasks s t))"
    unfolding t_def p_def ks_def by blast
  have "Q' (TqHead ZombieQue) = Q (TqHead ZombieQue) @ [t]"
    using served_tq [OF s'(3)] by (simp add: exit_lists_def t_def Let_def)
  moreover have "t_parent (tasks s' u) = p" if u: "u \<in> orphans" for u
  proof (cases "t_parent (tasks s u) = t")
    case True
    then have "u \<in> set (K t)" using kt [of u] u by (simp add: child_of_def orphans_def)
    then show ?thesis using u by (simp add: s'(4) exit_tasks_def moved_def orphans_def)
  next
    case False
    then have "u \<notin> set (K t)" "t_parent (tasks s u) = p" using kt [of u] u by (auto simp: child_of_def orphans_def)
    then show ?thesis using u by (auto simp: s'(4) exit_tasks_def woken_def orphans_def)
  qed
  moreover have "ks = [] \<longleftrightarrow> orphans = {}" using ks by auto
  moreover have "tasks s' p = (if wakes_parent s p ks then woken (tasks s p) else tasks s p)"
    using ptk pt by (simp add: s'(4) exit_tasks_def)
  ultimately show ?thesis using s'(1,2,4)
    by (intro exI [of _ s'] exI [of _ Q']) (auto simp: buried_def woken_def wakes_parent_def)
qed

theorem kthread_exit_hands_over_witness:
  "\<exists>s s' t. cur_task s = t \<and> t \<noteq> idle0 \<and> kthread_exit 0 s = Some s' \<and> t_stat (tasks s' t) = TASK_ZOMBIE"
proof -
  obtain s Q n where s: "kinv idle0 {} s Q" "cur_task s = n" "n \<noteq> idle0" by (rule kernel_running)
  then have "cur_task s \<noteq> idle0" by simp
  from kthread_exit_hands_over [OF s(1) this] s show ?thesis by auto
qed

section \<open>A new thread\<close>

text \<open>The stack \<open>kernel_thread\<close> prepares is the frame \<open>switch_to\<close> returns through: eight registers
  and the flags 0x200 (interrupts enabled) to be popped, then the address of \<open>kexec\<close>, where the
  return address of \<open>kexec\<close> is the end of the page and its two arguments are the function and the
  argument of the thread.\<close>

theorem init_stack_layout:
  "let (esp, m') = init_stack page_va kexec_addr fn args m in
     esp = page_va + 0xFCC \<and> (\<forall>i<8. m' (esp + 4 * of_nat i) = 0) \<and> m' (esp + 32) = 0x200 \<and>
     m' (esp + 36) = kexec_addr \<and> m' (esp + 40) = page_va + 0x1000 \<and> m' (esp + 44) = fn \<and> m' (esp + 48) = args"
proof -
  have lt8: "i = 0 \<or> i = 1 \<or> i = 2 \<or> i = 3 \<or> i = 4 \<or> i = 5 \<or> i = 6 \<or> i = 7" if "i < 8" for i :: nat
    using that by auto
  have "init_stack page_va kexec_addr fn args m = (page_va + 0xFCC,
    m(page_va + 0xFFC := args, page_va + 0xFF8 := fn, page_va + 0xFF4 := page_va + 0x1000,
      page_va + 0xFF0 := kexec_addr, page_va + 0xFEC := 0x200, page_va + 0xFE8 := 0, page_va + 0xFE4 := 0,
      page_va + 0xFE0 := 0, page_va + 0xFDC := 0, page_va + 0xFD8 := 0, page_va + 0xFD4 := 0,
      page_va + 0xFD0 := 0, page_va + 0xFCC := 0))"
    by (simp add: init_stack_def push_def STACK_SIZE_def eval_nat_numeral Let_def add.commute [of page_va])
  then show ?thesis by (auto dest!: lt8)
qed

theorem init_stack_layout_witness:
  "let (esp, m') = init_stack 0xC0001000 1 2 3 (\<lambda>_. 9) in esp = 0xC0001FCC \<and> m' esp = 0 \<and> m' (esp + 44) = 2"
  using init_stack_layout [of "0xC0001000" 1 2 3 "\<lambda>_. 9"] by (auto simp: Let_def dest: spec [where x = 0] split: prod.splits)

text \<open>C17. \<open>kernel_thread\<close> makes a new task in a page no task uses, with the least id no task has, as a
  child of the caller, and appends it to the ready list of its priority; then the most urgent task
  runs. The name of the caller is taken over when none is given.\<close>

theorem kernel_thread_starts:
  assumes inv: "kinv idle S s Q" and "prio < NR_PRIO" and "free_frames (kmm s) \<noteq> {}"
    and "pids (pid_map_state s) \<noteq> {0..<256}"
  shows "\<exists>n s' Q'. kernel_thread kexec_addr fn args prio name s = Some (n, s') \<and> kinv idle S s' Q' \<and>
    n \<notin> live s \<and> live s' = insert n (live s) \<and>
    lowest (\<lambda>q. q < 256 \<and> q \<notin> (\<lambda>t. unat (t_pid (tasks s t))) ` live s) (unat (t_pid (tasks s' n))) \<and>
    t_parent (tasks s' n) = cur_task s \<and> t_prio (tasks s' n) = prio \<and> t_time_ticks (tasks s' n) = ucast prio + 1 \<and>
    t_name (tasks s' n) = (case name of None \<Rightarrow> t_name (tasks s (cur_task s)) | Some nm \<Rightarrow> nm) \<and>
    served (Q(RrHead prio := Q (RrHead prio) @ [n])) Q' (cur_task s')"
proof -
  from kernel_thread_kinv [OF assms, of kexec_addr fn args name] obtain n s' Q' where s':
    "kernel_thread kexec_addr fn args prio name s = Some (n, s')" "kinv idle S s' Q'" "n \<notin> live s"
    "live s' = insert n (live s)" "tasks s' = (tasks s)(n := new_task kexec_addr fn args prio name n s)"
    "served (Q(RrHead prio := Q (RrHead prio) @ [n])) Q' (cur_task s')" by blast
  have ids: "pid_inv (pid_map_state s)" "pids (pid_map_state s) = (\<lambda>t. unat (t_pid (tasks s t))) ` live s"
    using kinvD(6) [OF inv] by (simp_all add: ids_ok_def)
  have fr: "pid_grp (pid_map_state s) \<noteq> - 1" using pid_full_iff [OF ids(1)] assms(4) by blast
  have "lowest (\<lambda>q. q < 256 \<and> q \<notin> pids (pid_map_state s)) (unat (fst (alloc_pid (pid_map_state s))))"
    using alloc_pid_unfold(3,4) [OF ids(1) fr] by simp
  then show ?thesis using s' ids(2)
    by (intro exI [of _ n] exI [of _ s'] exI [of _ Q']) (simp add: new_task_def inited_def name_or_def)
qed

theorem kernel_thread_starts_witness:
  "\<exists>s0 n s'. kernel_thread 0x1000 0x2000 7 5 (Some ''test'') s0 = Some (n, s') \<and> t_prio (tasks s' n) = 5 \<and>
    t_name (tasks s' n) = ''test'' \<and> live s' = {n, idle0}"
proof -
  obtain s s0 where s0: "kinv idle0 {} s0 (no_tasks(RrHead IDEL_PRIO := [idle0]))" "free_frames (kmm s0) \<noteq> {}"
    "pids (pid_map_state s0) \<noteq> {0..<256}" "live s0 = {idle0}" by (rule kernel_boot)
  have "5 < NR_PRIO" by (simp add: NR_PRIO_def)
  from kernel_thread_starts [OF s0(1) this s0(2,3), of "0x1000" "0x2000" 7 "Some ''test''"] s0(4) show ?thesis by auto
qed

section \<open>Semaphores\<close>

text \<open>\<open>sem_wait\<close> takes one off a positive count and returns; otherwise the caller becomes the last
  of the queue of the semaphore, waits for it, and another task runs.\<close>

theorem sem_wait_blocks:
  assumes "kinv idle S s Q" and "a \<in> S" and "cur_task s \<noteq> idle"
  shows "\<exists>s' Q'. sem_wait a s = Some s' \<and> kinv idle S s' Q' \<and>
    sint (sem_count s' a) = sint (sem_count s a) - 1 \<and>
    (if 0 < sint (sem_count s a) then tasks s' = tasks s \<and> cur_task s' = cur_task s \<and> Q' = Q
     else Q' (TqHead (SemQueue a)) = Q (TqHead (SemQueue a)) @ [cur_task s] \<and>
       t_stat (tasks s' (cur_task s)) = TASK_WAITING \<and> t_wait_for (tasks s' (cur_task s)) = a \<and>
       cur_task s' \<noteq> cur_task s)"
proof -
  from sem_wait_kinv [OF assms] obtain s' Q' where s': "sem_wait a s = Some s'" "kinv idle S s' Q'"
    "sem_count s' = (sem_count s)(a := sem_count s a - 1)"
    "if 0 < sint (sem_count s a) then tasks s' = tasks s \<and> cur_task s' = cur_task s \<and> Q' = Q
     else served ((leave_rr s Q)(TqHead (SemQueue a) := Q (TqHead (SemQueue a)) @ [cur_task s])) Q' (cur_task s') \<and>
       stopped (waiting_on a) (sem_decl a s) s'" by blast
  have "- 256 \<le> sint (sem_count s a)"
    by (rule sem_count_low [OF calmD(1) [OF kinvD(1) [OF assms(1)]] kinvD(2) [OF assms(1)] assms(2)])
  then have "sint (sem_count s a - 1) = sint (sem_count s a) - 1" by (intro sint_pred) simp
  then have cnt: "sint (sem_count s' a) = sint (sem_count s a) - 1" using s'(3) by simp
  show ?thesis
  proof (cases "0 < sint (sem_count s a)")
    case True
    then show ?thesis using s' cnt by (intro exI [of _ s'] exI [of _ Q']) simp
  next
    case False
    then have sv: "served ((leave_rr s Q)(TqHead (SemQueue a) := Q (TqHead (SemQueue a)) @ [cur_task s])) Q' (cur_task s')"
      and st: "stopped (waiting_on a) (sem_decl a s) s'" using s'(4) by simp_all
    have w: "t_stat (tasks s' (cur_task s)) = TASK_WAITING" "t_wait_for (tasks s' (cur_task s)) = a"
      using st by (simp_all add: stopped_def sem_decl_def waiting_on_def)
    then have "cur_task s' \<noteq> cur_task s" using calmD(6) [OF kinvD(1) [OF s'(2)]] by auto
    then show ?thesis using False s'(1,2) cnt w served_tq [OF sv]
      by (intro exI [of _ s'] exI [of _ Q']) simp
  qed
qed

lemma kernel_with_sem:
  obtains s Q n where "kinv idle0 {4} s Q" and "cur_task s = n" and "n \<noteq> idle0" and "sem_count s 4 = 0"
    and "Q (TqHead (SemQueue 4)) = []"
proof -
  obtain s Q n where s: "kinv idle0 {} s Q" "cur_task s = n" "n \<noteq> idle0" by (rule kernel_running)
  from sem_init_kinv [OF s(1), of 4 0] have "kinv idle0 {4} (sem_init 4 0 s) (Q(TqHead (SemQueue 4) := []))"
    by (simp add: NULL_def)
  then show thesis using that s(2,3) by (simp add: sem_init_def tq_init_def upd_queue_def)
qed

theorem sem_wait_blocks_witness:
  "\<exists>s s'. sem_wait 4 s = Some s' \<and> t_stat (tasks s' (cur_task s)) = TASK_WAITING \<and> cur_task s' \<noteq> cur_task s"
proof -
  obtain s Q n where s: "kinv idle0 {4} s Q" "cur_task s = n" "n \<noteq> idle0" "sem_count s 4 = 0" by (rule kernel_with_sem)
  then have "cur_task s \<noteq> idle0" by simp
  from sem_wait_blocks [OF s(1) _ this, of 4] s(4) show ?thesis by auto
qed

text \<open>C19. \<open>sem_post\<close> adds one to the count and, when tasks wait, makes the one that has waited longest
  ready, at the end of the ready list of its priority; the others keep their order and the caller goes
  on running.\<close>

theorem sem_post_wakes_first:
  assumes "kinv idle S s Q" and "a \<in> S" and "sint (sem_count s a) < 2147483647"
  shows "\<exists>s' Q'. sem_post a s = Some s' \<and> kinv idle S s' Q' \<and> cur_task s' = cur_task s \<and>
    sint (sem_count s' a) = sint (sem_count s a) + 1 \<and>
    (case Q (TqHead (SemQueue a)) of [] \<Rightarrow> tasks s' = tasks s \<and> Q' = Q
     | t # l \<Rightarrow> Q' (TqHead (SemQueue a)) = l \<and> t_stat (tasks s' t) = TASK_READY \<and>
       Q' (RrHead (t_prio (tasks s t))) = Q (RrHead (t_prio (tasks s t))) @ [t])"
proof -
  from sem_post_kinv [OF assms] obtain s' Q' where s': "sem_post a s = Some s'" "kinv idle S s' Q'"
    "cur_task s' = cur_task s" "sem_count s' = (sem_count s)(a := sem_count s a + 1)"
    "case Q (TqHead (SemQueue a)) of [] \<Rightarrow> tasks s' = tasks s \<and> Q' = Q
     | t # _ \<Rightarrow> tasks s' = (tasks s)(t := released (tasks s t)) \<and> Q' = to_ready s (SemQueue a) t Q" by blast
  have "sint (sem_count s' a) = sint (sem_count s a) + 1" using s'(4) sint_succ [OF assms(3)] by simp
  then show ?thesis using s'
    by (intro exI [of _ s'] exI [of _ Q']) (auto simp: to_ready_def released_def split: list.splits)
qed

theorem sem_post_wakes_first_witness:
  "\<exists>s s' t. t_stat (tasks s t) = TASK_WAITING \<and> t_wait_for (tasks s t) = 4 \<and> cur_task s \<noteq> t \<and>
    sem_post 4 s = Some s' \<and> t_stat (tasks s' t) = TASK_READY \<and> sint (sem_count s' 4) = 0"
proof -
  obtain s0 Q0 n where s0: "kinv idle0 {4} s0 Q0" "cur_task s0 = n" "n \<noteq> idle0" "sem_count s0 4 = 0" "Q0 (TqHead (SemQueue 4)) = []"
    by (rule kernel_with_sem)
  then have "cur_task s0 \<noteq> idle0" by simp
  from sem_wait_blocks [OF s0(1) _ this, of 4] s0(2,4,5) obtain s Q where s: "kinv idle0 {4} s Q" "sint (sem_count s 4) = - 1"
    "Q (TqHead (SemQueue 4)) = [n]" "t_stat (tasks s n) = TASK_WAITING" "t_wait_for (tasks s n) = 4" "cur_task s \<noteq> n" by auto
  from sem_post_wakes_first [OF s(1), of 4] s(2,3) obtain s' where
    "sem_post 4 s = Some s'" "sint (sem_count s' 4) = 0" "t_stat (tasks s' n) = TASK_READY" by auto
  with s(4-6) show ?thesis by blast
qed

section \<open>What an interrupt can do\<close>

text \<open>C20. \<open>sem_wait\<close> is not atomic: when the tick takes the CPU from a task right after its \<open>decl\<close> of a
  count of 0, before it is on the queue, the next \<open>sem_post\<close> finds the queue empty, takes the null
  pointer for a task and does not return.\<close>

theorem sem_post_in_the_gap:
  assumes "kinv idle S s Q" and "a \<in> S" and "sem_count s a = 0"
  shows "sem_post a (sem_decl a s) = None"
proof -
  note pl = calmD(1) [OF kinvD(1) [OF assms(1)]]
  have "int (length (Q (TqHead (SemQueue a)))) = max 0 (- sint (sem_count s a))"
    using kinvD(2) [OF assms(1)] assms(2) by (simp add: sems_ok_def)
  then have "Q (TqHead (SemQueue a)) = []" using assms(3) by simp
  moreover have "placed S (live s) {} (sem_incl a (sem_decl a s)) Q"
    by (rule placed_frame [OF pl]) (simp_all add: sem_decl_def sem_incl_def)
  ultimately have "tq_pick_next (SemQueue a) (sem_incl a (sem_decl a s)) = Some (NULL, sem_incl a (sem_decl a s))"
    using tq_pick_next_ok [OF placedD(2), of S "live s" "{}" _ Q "SemQueue a"] assms(2) by simp
  then show ?thesis using assms(3) by (simp add: sem_post_def sem_wake_def sem_decl_def)
qed

theorem sem_post_in_the_gap_witness:
  "\<exists>s. sem_post 4 (sem_decl 4 s) = None \<and> sem_post 4 s \<noteq> None"
proof -
  obtain s Q n where s: "kinv idle0 {4} s Q" "sem_count s 4 = 0" by (rule kernel_with_sem)
  from sem_post_in_the_gap [OF s(1) _ s(2)] sem_post_kinv [OF s(1), of 4] s(2) show ?thesis by auto
qed

text \<open>With the lock of the scheduler held, the walk over the sleeping tasks stops at the first that is due.\<close>

lemma tick_loop_locked:
  assumes "rr_lock (rr s) = 1" and "dlist (nodes s) (TqHead SleepQue) (map QueueNode (ks @ ts))"
  shows "if \<exists>t\<in>set ts. due s t then sched_tick_loop (hd (map QueueNode ts @ [TqHead SleepQue])) b s = None
    else \<exists>s'. sched_tick_loop (hd (map QueueNode ts @ [TqHead SleepQue])) b s = Some (b, s') \<and> rr_lock (rr s') = 1"
  using assms
proof (induction ts arbitrary: s ks)
  case Nil
  then show ?case by (subst sched_tick_loop.simps) simp
next
  case (Cons t ts)
  have d: "t \<notin> set ts" using Cons.prems(2) by (auto simp: dlist_def)
  have nxt: "node_next (nodes s (QueueNode t)) = hd (map QueueNode ts @ [TqHead SleepQue])"
    using dlist_next [of "nodes s" "TqHead SleepQue" "map QueueNode ks" "QueueNode t" "map QueueNode ts"] Cons.prems(2) by simp
  define s0 where "s0 = upd_task t (\<lambda>x. x\<lparr>t_sleep_ticks := t_sleep_ticks x - 1\<rparr>) s"
  have tick0: "t_sleep_ticks (tasks s0 t) = 0 \<longleftrightarrow> due s t" by (simp add: s0_def due_def)
  show ?case
  proof (cases "due s t")
    case False
    have "sched_tick_loop (QueueNode t) b s = sched_tick_loop (hd (map QueueNode ts @ [TqHead SleepQue])) b s0"
      using False tick0 nxt by (subst sched_tick_loop.simps) (simp add: s0_def Let_def due_def)
    moreover have "(\<exists>u\<in>set ts. due s0 u) = (\<exists>u\<in>set ts. due s u)" using d by (intro bex_cong) (auto simp: s0_def due_def)
    moreover have "rr_lock (rr s0) = 1" "dlist (nodes s0) (TqHead SleepQue) (map QueueNode ((ks @ [t]) @ ts))"
      using Cons.prems by (simp_all add: s0_def)
    note Cons.IH [OF this]
    ultimately show ?thesis using False by simp
  next
    case True
    have "rr_enqueue u (upd_task t f s1) = None" if "tq_dequeue SleepQue t s0 = Some s1" for u f s1
      using that Cons.prems(1) unfolding s0_def
      by (auto simp: tq_dequeue_def tq_spin_lock_def tq_spin_unlock_def upd_queue_def rr_enqueue_def rr_spin_lock_def
          spin_lock_def spin_code_defs Let_def split: bind_splits)
    then have "sched_tick_loop (QueueNode t) b s = None"
      using True tick0 by (subst sched_tick_loop.simps) (auto simp: s0_def Let_def split: bind_splits)
    then show ?thesis using True by simp
  qed
qed

text \<open>C21. The locks are taken with interrupts enabled, and the handler of the tick takes the lock of the
  scheduler: a tick while the interrupted task holds this lock never returns exactly when it has something
  to schedule, that is when it ends the time slice or a sleeping task is due; any other tick returns.\<close>

theorem sched_tick_deadlocks:
  assumes "kinv idle S s Q" and "rr_spin_lock s = Some s'"
  shows "sched_tick s' = None \<longleftrightarrow> t_rest_ticks (tasks s (cur_task s)) = 1 \<or>
    (\<exists>t\<in>live s. t_stat (tasks s t) = TASK_SLEEP \<and> t_sleep_ticks (tasks s t) = 1)"
proof -
  note pl = calmD(1) [OF kinvD(1) [OF assms(1)]]
  define ts where "ts = Q (TqHead SleepQue)"
  have sleep: "t \<in> set ts \<longleftrightarrow> t \<in> live s \<and> t_stat (tasks s t) = TASK_SLEEP" for t
    using placed_iff [OF pl, of "TqHead SleepQue" t] by (auto simp: ts_def home_iff)
  have cur: "cur_task s \<notin> set ts"
    using placed_iff [OF pl, of "TqHead SleepQue" "cur_task s"] calmD(6) [OF kinvD(1) [OF assms(1)]] by (auto simp: ts_def home_iff)
  have s': "s' = s\<lparr>rr := (rr s)\<lparr>rr_lock := 1\<rparr>\<rparr>" using assms(2) by (auto simp: rr_spin_lock_def spin_lock_Some split: bind_splits)
  define s0 where "s0 = upd_task (cur_task s) charged s'"
  have dl: "dlist (nodes s0) (TqHead SleepQue) (map QueueNode ([] @ ts))"
    using qrepD(2) [OF placedD(3) [OF pl], of "TqHead SleepQue"] by (simp add: s0_def s' ts_def)
  have first: "list_first (TqHead SleepQue) (nodes s0) = hd (map QueueNode ts @ [TqHead SleepQue])"
    using dlist_nth_ends(1) [OF dl] by (cases ts) (simp_all add: list_first_def)
  have "due s0 t \<longleftrightarrow> t_sleep_ticks (tasks s t) = 1" if "t \<in> set ts" for t
    using cur that by (auto simp: due_def s0_def s')
  then have due: "(\<exists>t\<in>set ts. due s0 t) \<longleftrightarrow> (\<exists>t\<in>live s. t_stat (tasks s t) = TASK_SLEEP \<and> t_sleep_ticks (tasks s t) = 1)"
    using sleep by blast
  have locked: "schedule t = None" if "rr_lock (rr t) = 1" for t
    using that by (simp add: schedule_def rr_pick_next_def rr_spin_lock_def spin_lock_def spin_code_defs)
  have one: "t_rest_ticks x - 1 = 0 \<longleftrightarrow> t_rest_ticks x = 1" for x by simp
  have swap: "x\<lparr>t_rest_ticks := a, t_total_ticks := b\<rparr> = x\<lparr>t_total_ticks := b, t_rest_ticks := a\<rparr>"
    for x :: task_t and a b by simp
  have run: "sched_tick s' = do {
      (need, s) \<leftarrow> sched_tick_loop (hd (map QueueNode ts @ [TqHead SleepQue])) (t_rest_ticks (tasks s (cur_task s)) = 1) s0;
      if need then schedule s else Some s }"
    unfolding first [symmetric] unfolding s0_def charged_def [abs_def]
    by (simp add: sched_tick_def Let_def upd_task_def swap s')
  have "rr_lock (rr s0) = 1" by (simp add: s0_def s')
  from tick_loop_locked [OF this dl, of "t_rest_ticks (tasks s (cur_task s)) = 1"] locked show ?thesis
    unfolding run due by (auto split: if_splits)
qed

theorem sched_tick_deadlocks_witness:
  "\<exists>s s'. rr_spin_lock s = Some s' \<and> sched_tick s' = None \<and> sched_tick s \<noteq> None"
proof -
  obtain s Q n where s: "kinv idle0 {} s Q" "cur_task s = n" "Q (TqHead SleepQue) = []" "t_rest_ticks (tasks s n) = 1"
    by (rule kernel_running)
  note pl = calmD(1) [OF kinvD(1) [OF s(1)]]
  have "\<forall>t\<in>live s. t_stat (tasks s t) \<noteq> TASK_SLEEP" using asleep_in_queue(1) [OF s(1)] s(3) by auto
  moreover obtain s' where "rr_spin_lock s = Some s'"
    using placedD(1) [OF pl] rr_lock_ok by (auto simp: sched_ok_def)
  ultimately show ?thesis using sched_tick_deadlocks [OF s(1)] s(2,4) sched_tick_kinv [OF s(1)] by auto
qed

end
