(* ===== verification/Interrupts.thy ===== *)
theory Interrupts
  imports Printk KernelSafe
begin

text \<open>
  The interrupts of \<open>kernel/isr.c\<close>, \<open>drivers/clock.c\<close> and \<open>page_fault\<close> of \<open>mm/memory.c\<close>: the dispatch through
  the table of handlers, over a machine that has the serial line, the tasks and the memory. The processor
  enters \<open>isr_handler\<close> and \<open>irq_handler\<close> with interrupts off, with the number the assembler stub pushed. A
  handler that ends in an endless loop is \<^term>\<open>None\<close> after its output.
\<close>

section \<open>The code\<close>

record pt_regs_t =
  reg_ds :: u32
  reg_edi :: u32
  reg_esi :: u32
  reg_ebp :: u32
  reg_esp :: u32
  reg_ebx :: u32
  reg_edx :: u32
  reg_ecx :: u32
  reg_eax :: u32
  intr_no :: u32
  err_code :: u32
  reg_eip :: u32
  reg_cs :: u32
  reg_eflags :: u32
  usr_esp :: u32
  reg_ss :: u32

record machine = uart_world +
  kst :: kstate
  clk_tick :: u32
  pmem :: mem

definition ascii :: "string \<Rightarrow> u8 list" where
  "ascii s = map of_char s"

definition print :: "ports \<Rightarrow> u32 \<Rightarrow> string \<Rightarrow> u32 list \<Rightarrow> machine \<Rightarrow> machine option" where
  "print env buf fmt args w = do {
     (w, m) \<leftarrow> printk env buf (ascii fmt) (\<lambda>n. if n < length args then args ! n else 0) w (pmem w);
     Some (w\<lparr>pmem := m\<rparr>)
   }"

definition page_fault_report :: "ports \<Rightarrow> u32 \<Rightarrow> u32 \<Rightarrow> pt_regs_t \<Rightarrow> machine \<Rightarrow> machine option" where
  "page_fault_report env buf cr2 regs w = do {
     w \<leftarrow> print env buf (''Page fault at 0x%x, virtual faulting address 0x%x'' @ [CHR 0x0A]) [reg_eip regs, cr2] w;
     w \<leftarrow> print env buf (''Error code: %x'' @ [CHR 0x0A]) [err_code regs] w;
     w \<leftarrow> (if err_code regs AND 0x1 = 0 then print env buf (''Page wasn't present.'' @ [CHR 0x0A]) [] w else Some w);
     w \<leftarrow> (if err_code regs AND 0x2 \<noteq> 0 then print env buf (''Write error.'' @ [CHR 0x0A]) [] w
          else print env buf (''Read error.'' @ [CHR 0x0A]) [] w);
     w \<leftarrow> (if err_code regs AND 0x4 \<noteq> 0 then print env buf (''In user mode.'' @ [CHR 0x0A]) [] w
          else print env buf (''In kernel mode.'' @ [CHR 0x0A]) [] w);
     w \<leftarrow> (if err_code regs AND 0x8 \<noteq> 0 then print env buf (''Reserved bits being overwritten.'' @ [CHR 0x0A]) [] w else Some w);
     if err_code regs AND 0x10 \<noteq> 0
     then print env buf (''The fault occurred during an instruction fetch.'' @ [CHR 0x0A]) [] w else Some w
   }"

definition page_fault :: "ports \<Rightarrow> u32 \<Rightarrow> u32 \<Rightarrow> pt_regs_t \<Rightarrow> machine \<Rightarrow> machine option" where
  "page_fault env buf cr2 regs w = do { w \<leftarrow> page_fault_report env buf cr2 regs w; None }"

definition clk_intr :: "machine \<Rightarrow> machine option" where
  "clk_intr w = do {
     let w = w\<lparr>clk_tick := clk_tick w + 1\<rparr>;
     s \<leftarrow> sched_tick (kst w);
     Some (w\<lparr>kst := s\<rparr>)
   }"

definition clk_init :: "'a cpu_scheme \<Rightarrow> 'a cpu_scheme" where
  "clk_init w =
    (let w = register_intr_handler 32 Clk_intr w;
         divisor = (1193180 div 200 :: u32);
         w = outb 0x43 0x36 w;
         low = (ucast (divisor AND 0xFF) :: u8);
         high = (ucast (drop_bit 8 divisor AND 0xFF) :: u8);
         w = outb 0x40 low w
     in outb 0x40 high w)"

fun call_handler :: "ports \<Rightarrow> u32 \<Rightarrow> u32 \<Rightarrow> intr_handler \<Rightarrow> pt_regs_t \<Rightarrow> machine \<Rightarrow> machine option" where
  "call_handler env buf cr2 Page_fault regs w = page_fault env buf cr2 regs w"
| "call_handler env buf cr2 Clk_intr regs w = clk_intr w"
| "call_handler env buf cr2 Uart_intr regs w = uart_intr env w"

definition isr_handler :: "ports \<Rightarrow> u32 \<Rightarrow> u32 \<Rightarrow> pt_regs_t \<Rightarrow> machine \<Rightarrow> machine option" where
  "isr_handler env buf cr2 regs w =
    (let n = intr_no regs
     in if unat n < length (intr_handler_table w) then
          case intr_handler_table w ! unat n of
            Some h \<Rightarrow> call_handler env buf cr2 h regs w
          | None \<Rightarrow> print env buf (''Unhandled Interrupt: %d'' @ [CHR 0x0A]) [n] w
        else None)"

definition irq_handler :: "ports \<Rightarrow> u32 \<Rightarrow> u32 \<Rightarrow> pt_regs_t \<Rightarrow> machine \<Rightarrow> machine option" where
  "irq_handler env buf cr2 regs w =
    (let n = intr_no regs;
         w = clear_irq n w
     in if unat n < length (intr_handler_table w) then
          case intr_handler_table w ! unat n of
            Some h \<Rightarrow> call_handler env buf cr2 h regs w
          | None \<Rightarrow> print env buf (''Unhandled Interrupt: %d'' @ [CHR 0x0A]) [n] w
        else None)"

section \<open>What an interrupt does\<close>

text \<open>What the driver leaves alone: the tasks, the memory, the table of handlers and the accesses done.\<close>

definition io_frame :: "machine \<Rightarrow> machine \<Rightarrow> bool" where
  "io_frame w w' \<longleftrightarrow> kst w' = kst w \<and> clk_tick w' = clk_tick w \<and> pmem w' = pmem w \<and>
     intr_handler_table w' = intr_handler_table w \<and> (\<exists>tr. trace w' = trace w @ tr)"

lemma io_frame_refl [simp]: "io_frame w w"
  by (simp add: io_frame_def)

lemma io_frame_trans: "io_frame w w' \<Longrightarrow> io_frame w' w'' \<Longrightarrow> io_frame w w''"
  by (auto simp: io_frame_def)

lemma uputc_frame: "uputc env c w = Some w' \<Longrightarrow> io_frame w w'"
  by (auto simp: io_frame_def uputc_def Let_def cli_def sti_def outb_def inb_def split: if_splits Option.bind_splits)

lemma uputs_frame:
  "cstring m a cs \<Longrightarrow> uputs env m a w = Some w' \<Longrightarrow> io_frame w w'"
proof (induction cs arbitrary: a w)
  case Nil
  then show ?case by (subst (asm) uputs.simps) simp
next
  case (Cons c cs)
  have "uputs env m a w = do { w \<leftarrow> uputc env c w; uputs env m (a + 1) w }"
    using Cons.prems(1) by (subst uputs.simps) simp
  then obtain w1 where "uputc env c w = Some w1" "uputs env m (a + 1) w1 = Some w'"
    using Cons.prems(2) by (cases "uputc env c w") auto
  then show ?case using Cons.IH Cons.prems(1) uputc_frame io_frame_trans by auto blast
qed

lemma uart_echo_frame: "uart_echo env c w = Some w' \<Longrightarrow> io_frame w w'"
  by (auto simp: uart_echo_def split: if_splits Option.bind_splits dest!: uputc_frame intro: io_frame_trans)

lemma uart_received_frame:
  assumes "uart_received env w = Some w'"
  shows "io_frame w w'"
proof -
  obtain v where v: "uart_echo env (env (trace w) (base (uart w))) v = Some w'" "io_frame w v"
    using assms by (auto simp: uart_received_def inb_def Let_def io_frame_def split: Option.bind_splits)
  then show ?thesis using uart_echo_frame io_frame_trans by blast
qed

lemma uart_transmitted_frame: "uart_transmitted env w = Some w' \<Longrightarrow> io_frame w w'"
  by (auto simp: uart_transmitted_def inb_def outb_def Let_def io_frame_def split: if_splits Option.bind_splits)

lemma uart_intr_frame:
  assumes "uart_intr env w = Some w'"
  shows "io_frame w w'"
proof -
  let ?p = "base (uart w) + 2"
  let ?w = "snd (inb env ?p w)" and ?iir = "env (trace w) ?p"
  have f: "io_frame w ?w" by (simp add: io_frame_def inb_def Let_def)
  have "uart_intr env w = (if ?iir AND 0x06 = 0x02 then uart_transmitted env ?w
      else if ?iir AND 0x06 = 0x04 then uart_received env ?w else Some ?w)"
    by (cases "uart_transmitted env ?w") (simp_all add: uart_intr_def inb_def Let_def)
  then have "io_frame ?w w'"
    using assms uart_received_frame [of env ?w w'] uart_transmitted_frame [of env ?w w'] by (simp split: if_splits)
  then show ?thesis by (rule io_frame_trans [OF f])
qed

lemma uart_ok_port:
  assumes "p \<noteq> PORT" and "p \<noteq> PORT + 3"
  shows "uart_ok (outb p v w) = uart_ok w" "line_of (outb p v w) = line_of w"
  using assms by (simp_all add: uart_ok_def line_of_def PORT_def)

lemma clear_irq_frame:
  "uart_ok (clear_irq n w) = uart_ok w" "line_of (clear_irq n w) = line_of w" "iflag (clear_irq n w) = iflag w"
  "intr_handler_table (clear_irq n w) = intr_handler_table w" "uart (clear_irq n w) = uart w"
  "trace (clear_irq n w) = trace w @ (if n \<ge> 40 then [Out 0xA0 0x20, Out 0x20 0x20] else [Out 0x20 0x20])"
  by (simp_all add: clear_irq_def Let_def uart_ok_port PORT_def) (simp_all add: outb_def)

lemma clear_irq_machine: "kst (clear_irq n w) = kst w" "clk_tick (clear_irq n w) = clk_tick w" "pmem (clear_irq n w) = pmem w"
  by (simp_all add: clear_irq_def Let_def outb_def)

lemma uart_intr_off:
  assumes "uart_ok w" and "room Irq (line_of w)" and "\<not> iflag w"
  shows "\<exists>w'. uart_intr env w = Some w' \<and> uart_ok w' \<and> line_of w' = line_do (event_of env Irq (sti w)) (line_of w)"
proof -
  have "cli (sti w) = w" using assms(3) by (simp add: cli_def sti_def)
  then show ?thesis using uart_intr_refines [of "sti w" env] assms by simp
qed

lemma print_says:
  assumes "render (\<lambda>_. None) (ascii fmt) (\<lambda>n. if n < length args then args ! n else 0) = Some out"
    and "0 \<notin> set (ascii fmt)" and "0 \<notin> set out" and "length out < 1024"
    and "uart_ok w" and "put_room (length out) (line_of w)"
  shows "\<exists>w'. print env buf fmt args w = Some w' \<and> uart_ok w' \<and> kst w' = kst w \<and> clk_tick w' = clk_tick w \<and>
    (\<exists>tr. trace w' = trace w @ tr) \<and> sent (line_of w') @ waiting (line_of w') = sent (line_of w) @ waiting (line_of w) @ out"
proof -
  have "strs_ok (\<lambda>_. None) (pmem w) buf (Suc (length out))" by (simp add: strs_ok_def)
  from vsprintf_cstring [OF assms(1-3) this assms(4)]
  obtain m' where m': "vsprintf buf (ascii fmt) (\<lambda>n. if n < length args then args ! n else 0) (pmem w) = Some (of_nat (length out), m')"
    "m'(buf + of_nat (length out) := 0) = m'" "cstring m' buf out" by blast
  obtain w' where w': "uputs env m' buf w = Some w'" "uart_ok w'" "line_of w' = foldl line_put (line_of w) out"
    using uputs_refines [OF m'(3) assms(5,6)] by blast
  have f: "io_frame w w'" by (rule uputs_frame [OF m'(3) w'(1)])
  have "print env buf fmt args w = Some (w'\<lparr>pmem := m'\<rparr>)" by (simp add: print_def printk_def m'(1,2) w'(1))
  moreover have "uart_ok (w'\<lparr>pmem := m'\<rparr>)" "line_of (w'\<lparr>pmem := m'\<rparr>) = line_of w'"
    using w'(2) by (simp_all add: uart_ok_def line_of_def)
  ultimately show ?thesis
    using f line_puts_ok [OF line_of_ok [OF assms(5)], of out] by (auto simp: io_frame_def w'(3))
qed

definition unhandled_text :: "nat \<Rightarrow> u8 list" where
  "unhandled_text n = ascii ''Unhandled Interrupt: '' @ [of_nat (48 + n div 10), of_nat (48 + n mod 10), 10]"

lemma render_literal:
  "37 \<notin> set xs \<Longrightarrow> render strs (xs @ fmt) args = map_option ((@) xs) (render strs fmt args)"
  by (induction xs) (cases "render strs fmt args"; simp)+

lemma unhandled_number:
  "\<forall>n\<in>set [32..<48]. render (\<lambda>_. None) [37, 100, 10] (\<lambda>i. if i < length [of_nat n] then [of_nat n] ! i else 0)
     = Some [of_nat (48 + n div 10), of_nat (48 + n mod 10), 10] \<and>
   0 \<notin> set [of_nat (48 + n div 10), of_nat (48 + n mod 10) :: u8, 10]"
  by code_simp

lemma unhandled_render:
  assumes "32 \<le> n" and "n < 48"
  shows "render (\<lambda>_. None) (ascii (''Unhandled Interrupt: %d'' @ [CHR 0x0A])) (\<lambda>i. if i < length [of_nat n] then [of_nat n] ! i else 0)
      = Some (unhandled_text n)"
    "0 \<notin> set (unhandled_text n)" "length (unhandled_text n) = 24"
proof -
  have "n \<in> set [32..<48]" unfolding set_upt using assms by simp
  note num = unhandled_number [rule_format, OF this]
  let ?u = "ascii ''Unhandled Interrupt: ''"
  have fmt: "ascii (''Unhandled Interrupt: %d'' @ [CHR 0x0A]) = ?u @ [37, 100, 10]"
    and lit: "37 \<notin> set ?u" and nz: "0 \<notin> set ?u" and len: "length ?u = 21" by (simp_all add: ascii_def)
  show "render (\<lambda>_. None) (ascii (''Unhandled Interrupt: %d'' @ [CHR 0x0A])) (\<lambda>i. if i < length [of_nat n] then [of_nat n] ! i else 0)
      = Some (unhandled_text n)"
    unfolding fmt render_literal [OF lit] num [THEN conjunct1] by (simp add: unhandled_text_def)
  show "0 \<notin> set (unhandled_text n)" using nz num [THEN conjunct2] by (simp add: unhandled_text_def)
  show "length (unhandled_text n) = 24" using len by (simp add: unhandled_text_def)
qed

text \<open>The table as \<open>clk_init\<close> and \<open>uart_init\<close> fill it for the vectors of the interrupt controller.\<close>

definition routed :: "'a cpu_scheme \<Rightarrow> bool" where
  "routed w \<longleftrightarrow> length (intr_handler_table w) = 256 \<and>
     (\<forall>n. 32 \<le> n \<and> n < 48 \<longrightarrow> intr_handler_table w ! n =
       (if n = 32 then Some Clk_intr else if n = 36 then Some Uart_intr else None))"

lemma routed_init:
  assumes "intr_handler_table w = replicate 256 None"
  shows "routed (clk_init (uart_init w))"
  using assms by (auto simp: routed_def clk_init_def uart_init_def Let_def register_intr_handler_def outb_def nth_list_update)

section \<open>Properties\<close>

text \<open>
  C27. An interrupt of the controller, with interrupts off, the task management and the serial line in order
  and room in the buffers: the handler returns, acknowledges the interrupt before anything else and keeps
  both in order. The clock vector is a tick of the scheduler and touches nothing else; the vector of the
  line is the event of the line the device reports; any other vector prints its number and changes no task.
\<close>

theorem irq_handler_safe:
  assumes inv: "kinv idle S (kst w) Q" and ok: "uart_ok w" and off: "\<not> iflag w" and tab: "routed w"
    and room: "put_room 24 (line_of w)" "length (pending (line_of w)) < 1024"
    and n: "32 \<le> n" "n < 48" "intr_no regs = of_nat n"
  shows "\<exists>w' Q'. irq_handler env buf cr2 regs w = Some w' \<and> uart_ok w' \<and> kinv idle S (kst w') Q' \<and>
    (\<exists>tr. trace w' = trace w @ (if n \<ge> 40 then [Out 0xA0 0x20] else []) @ Out 0x20 0x20 # tr) \<and>
    (if n = 32 then sched_tick (kst w) = Some (kst w') \<and> clk_tick w' = clk_tick w + 1 \<and> line_of w' = line_of w
     else kst w' = kst w \<and> clk_tick w' = clk_tick w \<and>
       (if n = 36 then line_of w' = line_do (event_of env Irq (sti (clear_irq 36 w))) (line_of w)
        else sent (line_of w') @ waiting (line_of w') = sent (line_of w) @ waiting (line_of w) @ unhandled_text n))"
proof -
  let ?w = "clear_irq (of_nat n) w"
  have un: "unat (of_nat n :: u32) = n" using n(2) by (simp add: unat_small)
  have h: "irq_handler env buf cr2 regs w =
      (case (if n = 32 then Some Clk_intr else if n = 36 then Some Uart_intr else None) of
         Some h \<Rightarrow> call_handler env buf cr2 h regs ?w
       | None \<Rightarrow> print env buf (''Unhandled Interrupt: %d'' @ [CHR 0x0A]) [of_nat n] ?w)"
    using tab n by (simp add: irq_handler_def routed_def clear_irq_frame Let_def un)
  have eoi: "\<exists>tr'. trace ?w @ tr = trace w @ (if n \<ge> 40 then [Out 0xA0 0x20] else []) @ Out 0x20 0x20 # tr'" for tr
    by (auto simp: clear_irq_frame word_le_nat_alt un)
  have ok': "uart_ok ?w" and l: "line_of ?w = line_of w" using ok by (simp_all add: clear_irq_frame)
  consider (clk) "n = 32" | (uart) "n = 36" | (other) "n \<noteq> 32 \<and> n \<noteq> 36" by blast
  then show ?thesis
  proof cases
    case clk
    obtain s' Q' where s': "sched_tick (kst w) = Some s'" "kinv idle S s' Q'" using sched_tick_kinv [OF inv] by blast
    let ?v = "?w\<lparr>clk_tick := clk_tick ?w + 1, kst := s'\<rparr>"
    have "irq_handler env buf cr2 regs w = Some ?v" using clk s'(1) by (simp add: h clk_intr_def clear_irq_machine Let_def)
    moreover have "uart_ok ?v" "line_of ?v = line_of w" using ok' l by (simp_all add: uart_ok_def line_of_def)
    ultimately show ?thesis using s' clk eoi [of "[]"] by (intro exI [of _ ?v] exI [of _ Q']) (simp add: clear_irq_machine)
  next
    case uart
    have "room Irq (line_of ?w)" using room by (simp add: l put_room_def)
    then obtain w' where w': "uart_intr env ?w = Some w'" "uart_ok w'"
        "line_of w' = line_do (event_of env Irq (sti ?w)) (line_of ?w)"
      using uart_intr_off [OF ok'] off by (auto simp: clear_irq_frame)
    have f: "io_frame ?w w'" using uart_intr_frame w'(1) by blast
    then obtain tr where tr: "trace w' = trace ?w @ tr" by (auto simp: io_frame_def)
    show ?thesis using uart w' f inv eoi [of tr]
      by (intro exI [of _ w'] exI [of _ Q]) (simp add: h io_frame_def clear_irq_machine clear_irq_frame(2) tr)
  next
    case other
    have r: "put_room (length (unhandled_text n)) (line_of ?w)" using room by (simp add: l unhandled_render(3) [OF n(1,2)])
    obtain w' tr where w': "print env buf (''Unhandled Interrupt: %d'' @ [CHR 0x0A]) [of_nat n] ?w = Some w'" "uart_ok w'"
        "kst w' = kst ?w" "clk_tick w' = clk_tick ?w" "trace w' = trace ?w @ tr"
        "sent (line_of w') @ waiting (line_of w') = sent (line_of ?w) @ waiting (line_of ?w) @ unhandled_text n"
      using print_says [OF unhandled_render(1) [OF n(1,2)] _ unhandled_render(2) [OF n(1,2)] _ ok' r, of env buf]
        unhandled_render(3) [OF n(1,2)] by (auto simp: ascii_def)
    show ?thesis using other w' inv eoi [of tr]
      by (intro exI [of _ w'] exI [of _ Q]) (simp add: h clear_irq_machine l)
  qed
qed

definition machine_boot :: "kstate \<Rightarrow> machine" where
  "machine_boot s = uart_world.extend
     (uart_boot\<lparr>iflag := False, intr_handler_table := (replicate 256 None)[32 := Some Clk_intr, 36 := Some Uart_intr]\<rparr>)
     (machine.fields s 0 (\<lambda>_. 0))"

lemma machine_boot_ok:
  "kst (machine_boot s) = s" "\<not> iflag (machine_boot s)" "routed (machine_boot s)" "uart_ok (machine_boot s)"
  "waiting (line_of (machine_boot s)) = []" "pending (line_of (machine_boot s)) = []" "sent (line_of (machine_boot s)) = []"
proof -
  have k: "uart (machine_boot s) = uart uart_boot" "trace (machine_boot s) = trace uart_boot"
    "intr_handler_table (machine_boot s) = (replicate 256 None)[32 := Some Clk_intr, 36 := Some Uart_intr]"
    by (simp_all add: machine_boot_def uart_world.defs machine.defs)
  show "kst (machine_boot s) = s" "\<not> iflag (machine_boot s)" by (simp_all add: machine_boot_def uart_world.defs machine.defs)
  show "routed (machine_boot s)" by (auto simp: routed_def k nth_list_update)
  show "uart_ok (machine_boot s)" "waiting (line_of (machine_boot s)) = []" "pending (line_of (machine_boot s)) = []"
    "sent (line_of (machine_boot s)) = []"
    using uart_boot_ok uart_boot_sent by (simp_all add: uart_ok_def line_of_def k)
qed

definition regs_of :: "u32 \<Rightarrow> pt_regs_t" where
  "regs_of n = \<lparr>reg_ds = 0, reg_edi = 0, reg_esi = 0, reg_ebp = 0, reg_esp = 0, reg_ebx = 0, reg_edx = 0,
     reg_ecx = 0, reg_eax = 0, intr_no = n, err_code = 0, reg_eip = 0, reg_cs = 0, reg_eflags = 0, usr_esp = 0, reg_ss = 0\<rparr>"

theorem irq_handler_safe_witness:
  "\<exists>s w'. irq_handler (\<lambda>_ _. 0) 0x1000 0 (regs_of 40) (machine_boot s) = Some w' \<and> kst w' = s \<and>
    sent (line_of w') @ waiting (line_of w') = unhandled_text 40"
proof -
  obtain s Q n where s: "kinv idle0 {} s Q" by (rule kernel_running)
  let ?w = "machine_boot s"
  note ok = machine_boot_ok [of s]
  obtain w' where "irq_handler (\<lambda>_ _. 0) 0x1000 0 (regs_of 40) ?w = Some w'" "kst w' = s"
      "sent (line_of w') @ waiting (line_of w') = unhandled_text 40"
    using irq_handler_safe [of idle0 "{}" ?w Q 40 "regs_of 40" "\<lambda>_ _. 0" "0x1000" 0, OF _ ok(4) ok(2,3)] s
    by (auto simp: ok put_room_def regs_of_def)
  then show ?thesis by blast
qed

end
