(* ===== verification/Elf.thy ===== *)
theory Elf
  imports Cstring "HOL-Library.Monad_Syntax"
begin

text \<open>
  The symbols of the kernel image, \<open>kernel/elf.c\<close>: the section headers and the symbol table are packed
  structures in memory, read at their offsets. The addresses of the two name literals are chosen by the
  linker and are parameters; \<open>elf0\<close> is what the uninitialised local variable \<open>elf\<close> holds.
\<close>

section \<open>The code\<close>

record elf_t =
  symtab :: u32
  symtabsz :: u32
  strtab :: u32
  strtabsz :: u32

text \<open>\<open>elf_section_header_t\<close> (40 bytes) and \<open>elf_symbol_t\<close> (16 bytes)\<close>

definition sh_name :: "mem \<Rightarrow> u32 \<Rightarrow> u32 \<Rightarrow> u32" where "sh_name m sh i = word_at m (sh + 40 * i)"
definition sh_addr :: "mem \<Rightarrow> u32 \<Rightarrow> u32 \<Rightarrow> u32" where "sh_addr m sh i = word_at m (sh + 40 * i + 12)"
definition sh_size :: "mem \<Rightarrow> u32 \<Rightarrow> u32 \<Rightarrow> u32" where "sh_size m sh i = word_at m (sh + 40 * i + 20)"

definition st_name :: "mem \<Rightarrow> u32 \<Rightarrow> u32 \<Rightarrow> u32" where "st_name m st i = word_at m (st + 16 * i)"
definition st_value :: "mem \<Rightarrow> u32 \<Rightarrow> u32 \<Rightarrow> u32" where "st_value m st i = word_at m (st + 16 * i + 4)"
definition st_size :: "mem \<Rightarrow> u32 \<Rightarrow> u32 \<Rightarrow> u32" where "st_size m st i = word_at m (st + 16 * i + 8)"
definition st_info :: "mem \<Rightarrow> u32 \<Rightarrow> u32 \<Rightarrow> u8" where "st_info m st i = m (st + 16 * i + 12)"

text \<open>One turn of the loop over the sections, and the turns from \<open>i\<close> on.\<close>

definition elf_section :: "mem \<Rightarrow> u32 \<Rightarrow> u32 \<Rightarrow> u32 \<Rightarrow> u32 \<Rightarrow> u32 \<Rightarrow> elf_t \<Rightarrow> elf_t option" where
  "elf_section m lit_strtab lit_symtab sh shstrtab i elf = do {
     let name = shstrtab + sh_name m sh i;
     r \<leftarrow> strcmp m name lit_strtab;
     let elf = (if r = 0 then elf\<lparr>strtab := sh_addr m sh i + 0xC0000000, strtabsz := sh_size m sh i\<rparr> else elf);
     r \<leftarrow> strcmp m name lit_symtab;
     Some (if r = 0 then elf\<lparr>symtab := sh_addr m sh i + 0xC0000000, symtabsz := sh_size m sh i\<rparr> else elf)
   }"

fun elf_sections :: "mem \<Rightarrow> u32 \<Rightarrow> u32 \<Rightarrow> u32 \<Rightarrow> u32 \<Rightarrow> nat list \<Rightarrow> elf_t \<Rightarrow> elf_t option" where
  "elf_sections m l1 l2 sh shstrtab [] elf = Some elf"
| "elf_sections m l1 l2 sh shstrtab (i # is) elf = do {
     elf \<leftarrow> elf_section m l1 l2 sh shstrtab (of_nat i) elf;
     elf_sections m l1 l2 sh shstrtab is elf
   }"

definition elf_from_multiboot :: "mem \<Rightarrow> u32 \<Rightarrow> u32 \<Rightarrow> u32 \<Rightarrow> u32 \<Rightarrow> u32 \<Rightarrow> elf_t \<Rightarrow> elf_t option" where
  "elf_from_multiboot m lit_strtab lit_symtab num addr shndx elf0 =
    (let sh = addr; shstrtab = sh_addr m sh shndx
     in elf_sections m lit_strtab lit_symtab sh shstrtab [0..<unat num] elf0)"

definition ELF32_ST_TYPE :: "u8 \<Rightarrow> u8" where
  "ELF32_ST_TYPE i = i AND 0xf"

fun elf_lookup_loop :: "mem \<Rightarrow> u32 \<Rightarrow> elf_t \<Rightarrow> nat list \<Rightarrow> u32" where
  "elf_lookup_loop m addr elf [] = 0"
| "elf_lookup_loop m addr elf (i # is) =
    (let st = symtab elf; k = of_nat i
     in if ELF32_ST_TYPE (st_info m st k) \<noteq> 0x2 then elf_lookup_loop m addr elf is
        else if addr \<ge> st_value m st k \<and> addr < st_value m st k + st_size m st k then strtab elf + st_name m st k
        else elf_lookup_loop m addr elf is)"

definition elf_lookup_symbol :: "mem \<Rightarrow> u32 \<Rightarrow> elf_t \<Rightarrow> u32" where
  "elf_lookup_symbol m addr elf = elf_lookup_loop m addr elf [0..<unat (symtabsz elf div 16)]"

section \<open>Lookup\<close>

text \<open>Symbol \<open>i\<close> is a function whose bytes include \<open>addr\<close>.\<close>

definition covers :: "mem \<Rightarrow> elf_t \<Rightarrow> u32 \<Rightarrow> nat \<Rightarrow> bool" where
  "covers m elf addr i \<longleftrightarrow> st_info m (symtab elf) (of_nat i) AND 0xf = 2 \<and>
     unat (st_value m (symtab elf) (of_nat i)) \<le> unat addr \<and>
     unat addr < unat (st_value m (symtab elf) (of_nat i)) + unat (st_size m (symtab elf) (of_nat i))"

definition in_space :: "mem \<Rightarrow> elf_t \<Rightarrow> nat \<Rightarrow> bool" where
  "in_space m elf i \<longleftrightarrow>
     unat (st_value m (symtab elf) (of_nat i)) + unat (st_size m (symtab elf) (of_nat i)) < 4294967296"

lemma covers_code:
  assumes "in_space m elf i"
  shows "covers m elf addr i \<longleftrightarrow> ELF32_ST_TYPE (st_info m (symtab elf) (of_nat i)) = 2 \<and>
    st_value m (symtab elf) (of_nat i) \<le> addr \<and>
    addr < st_value m (symtab elf) (of_nat i) + st_size m (symtab elf) (of_nat i)"
  using assms
  by (simp add: covers_def in_space_def ELF32_ST_TYPE_def word_le_nat_alt word_less_nat_alt unat_word_ariths)

lemma elf_lookup_loop_find:
  "\<forall>i\<in>set is. in_space m elf i \<Longrightarrow>
    elf_lookup_loop m addr elf is = (case find (covers m elf addr) is of None \<Rightarrow> 0
      | Some i \<Rightarrow> strtab elf + st_name m (symtab elf) (of_nat i))"
proof (induction "is")
  case (Cons i "is")
  then show ?case using covers_code [of m elf i addr] by (auto simp: Let_def)
qed simp

text \<open>What one section header does to the result.\<close>

definition strtab_name :: "u8 list" where "strtab_name = map of_char ''.strtab''"
definition symtab_name :: "u8 list" where "symtab_name = map of_char ''.symtab''"

lemma elf_section_reads:
  assumes l: "cstring m l1 strtab_name" "cstring m l2 symtab_name" and n: "cstring m (shstrtab + sh_name m sh (of_nat i)) name"
  shows "elf_section m l1 l2 sh shstrtab (of_nat i) elf = Some
    (if name = strtab_name then elf\<lparr>strtab := sh_addr m sh (of_nat i) + 0xC0000000, strtabsz := sh_size m sh (of_nat i)\<rparr>
     else if name = symtab_name then elf\<lparr>symtab := sh_addr m sh (of_nat i) + 0xC0000000, symtabsz := sh_size m sh (of_nat i)\<rparr>
     else elf)"
proof -
  have "strtab_name \<noteq> symtab_name" by (simp add: strtab_name_def symtab_name_def)
  moreover obtain r1 where "strcmp m (shstrtab + sh_name m sh (of_nat i)) l1 = Some r1" "r1 = 0 \<longleftrightarrow> name = strtab_name"
    using strcmp_spec [OF n l(1)] by blast
  moreover obtain r2 where "strcmp m (shstrtab + sh_name m sh (of_nat i)) l2 = Some r2" "r2 = 0 \<longleftrightarrow> name = symtab_name"
    using strcmp_spec [OF n l(2)] by blast
  ultimately show ?thesis by (simp add: elf_section_def)
qed

section \<open>Properties\<close>

text \<open>
  C29. \<open>elf_lookup_symbol\<close> finds the name of the first function symbol of the table whose bytes include the
  address, and \<open>NULL\<close> exactly when there is none, provided no symbol reaches past the end of the address
  space.
\<close>

theorem elf_lookup_finds_first:
  assumes "\<forall>i<unat (symtabsz elf div 16). in_space m elf i"
  shows "elf_lookup_symbol m addr elf = (if \<exists>i<unat (symtabsz elf div 16). covers m elf addr i
    then strtab elf + st_name m (symtab elf) (of_nat (LEAST i. covers m elf addr i)) else 0)"
proof -
  let ?n = "unat (symtabsz elf div 16)"
  have loop: "elf_lookup_symbol m addr elf = (case find (covers m elf addr) [0..<?n] of None \<Rightarrow> 0
      | Some i \<Rightarrow> strtab elf + st_name m (symtab elf) (of_nat i))"
    unfolding elf_lookup_symbol_def by (rule elf_lookup_loop_find) (use assms in simp)
  show ?thesis
  proof (cases "\<exists>i<?n. covers m elf addr i")
    case True
    define k where "k = (LEAST i. covers m elf addr i)"
    obtain i where i: "i < ?n" "covers m elf addr i" using True by blast
    have k: "covers m elf addr k" "k \<le> i" unfolding k_def by (rule LeastI [of _ i], rule i) (rule Least_le, rule i)
    have "\<not> covers m elf addr j" if "j < k" for j using that not_less_Least unfolding k_def by blast
    then have "find (covers m elf addr) [0..<?n] = Some k"
      using k i by (simp add: find_Some_iff) (intro exI [of _ k]; simp)
    then show ?thesis using True by (simp add: loop k_def)
  next
    case False
    then have none: "find (covers m elf addr) [0..<?n] = None" by (simp add: find_None_iff)
    show ?thesis unfolding loop none if_not_P [OF False] by simp
  qed
qed

definition elf_example :: mem where
  "elf_example = (\<lambda>_. 0)(0x110 := 9, 0x114 := 0x40, 0x118 := 8, 0x11C := 2)"

theorem elf_lookup_finds_first_witness:
  "elf_lookup_symbol elf_example 0x44 \<lparr>symtab = 0x100, symtabsz = 32, strtab = 0x1000, strtabsz = 0\<rparr> = 0x1009"
proof -
  let ?elf = "\<lparr>symtab = 0x100, symtabsz = 32, strtab = 0x1000, strtabsz = 0\<rparr>"
  have v: "word_at elf_example 0x104 = 0" "word_at elf_example 0x108 = 0" "elf_example 0x10C = 0"
    "word_at elf_example 0x110 = 9" "word_at elf_example 0x114 = 0x40" "word_at elf_example 0x118 = 8" "elf_example 0x11C = 2"
    by (simp_all add: elf_example_def word_at_def)
  have i0: "in_space elf_example ?elf 0" and i1: "in_space elf_example ?elf 1"
    and c: "\<not> covers elf_example ?elf 0x44 0" "covers elf_example ?elf 0x44 1"
    by (simp_all add: in_space_def covers_def st_value_def st_size_def st_info_def v)
  have s: "\<forall>i<2. in_space elf_example ?elf i" using i0 i1 by (auto dest: less_2_cases)
  have least: "(LEAST i. covers elf_example ?elf 0x44 i) = 1"
  proof (rule Least_equality)
    show "1 \<le> i" if "covers elf_example ?elf 0x44 i" for i using that c(1) by (cases i) simp_all
  qed (rule c(2))
  have "\<exists>i<2. covers elf_example ?elf 0x44 i" using c(2) by (intro exI [of _ 1]) simp
  moreover have "st_name elf_example 0x100 1 = 9" by (simp add: st_name_def v)
  ultimately show ?thesis using elf_lookup_finds_first [of ?elf elf_example "0x44"] s least by simp
qed

end
