(* ===== verification/Debug.thy ===== *)
theory Debug
  imports Interrupts Elf
begin

text \<open>
  The debug output of \<open>kernel/debug.c\<close>: the three log functions, the symbol table that \<open>debug_init\<close> reads, and
  \<open>panic\<close>. The stack \<open>panic\<close> walks is what the compiler lays out: the word at the frame pointer is the frame
  pointer of the caller, the word above it the return address. The frame pointer of \<open>panic\<close> itself (read by
  inline assembly), the addresses of the string literals and of the buffer are parameters. \<open>panic\<close> ends in an endless loop
  and is \<^term>\<open>None\<close>; \<open>panic_report\<close> is what it does before.
\<close>

section \<open>The code\<close>

text \<open>The fields of the \<open>multiboot_t\<close> at an address.\<close>

definition mb_num :: "mem \<Rightarrow> u32 \<Rightarrow> u32" where "mb_num m mb = word_at m (mb + 28)"
definition mb_addr :: "mem \<Rightarrow> u32 \<Rightarrow> u32" where "mb_addr m mb = word_at m (mb + 36)"
definition mb_shndx :: "mem \<Rightarrow> u32 \<Rightarrow> u32" where "mb_shndx m mb = word_at m (mb + 40)"

definition debug_init :: "u32 \<Rightarrow> u32 \<Rightarrow> u32 \<Rightarrow> elf_t \<Rightarrow> mem \<Rightarrow> elf_t option" where
  "debug_init lit_strtab lit_symtab mb elf0 m =
     elf_from_multiboot m lit_strtab lit_symtab (mb_num m mb) (mb_addr m mb) (mb_shndx m mb) elf0"

definition info_log :: "ports \<Rightarrow> u32 \<Rightarrow> u32 \<Rightarrow> u32 \<Rightarrow> machine \<Rightarrow> machine option" where
  "info_log env buf type msg =
     print env buf ([CHR 0x1B] @ ''[01m[%s Info]'' @ [CHR 0x1B] @ ''[0m  %s'' @ [CHR 0x0A]) [type, msg]"

definition warning_log :: "ports \<Rightarrow> u32 \<Rightarrow> u32 \<Rightarrow> u32 \<Rightarrow> machine \<Rightarrow> machine option" where
  "warning_log env buf type msg =
     print env buf ([CHR 0x1B] @ ''[01m'' @ [CHR 0x1B] @ ''[34m[%s Warning]'' @ [CHR 0x1B] @ ''[0m  %s'' @ [CHR 0x0A]) [type, msg]"

definition error_log :: "ports \<Rightarrow> u32 \<Rightarrow> u32 \<Rightarrow> u32 \<Rightarrow> machine \<Rightarrow> machine option" where
  "error_log env buf type msg =
     print env buf ([CHR 0x1B] @ ''[01m'' @ [CHR 0x1B] @ ''[31m[%s Error]'' @ [CHR 0x1B] @ ''[0m  %s'' @ [CHR 0x0A]) [type, msg]"

text \<open>\<open>while (ebp != 0)\<close>: a line for each frame on the stack.\<close>

partial_function (option) panic_walk :: "ports \<Rightarrow> u32 \<Rightarrow> elf_t \<Rightarrow> u32 \<Rightarrow> machine \<Rightarrow> machine option" where
  "panic_walk env buf elf ebp w =
    (if ebp \<noteq> 0
     then do {
       let eip = ebp + 4;
       let ret = word_at (pmem w) eip;
       w \<leftarrow> print env buf (''[0x%08x] %s'' @ [CHR 0x0A]) [ret, elf_lookup_symbol (pmem w) ret elf] w;
       panic_walk env buf elf (word_at (pmem w) ebp) w }
     else Some w)"

definition panic_report :: "ports \<Rightarrow> u32 \<Rightarrow> elf_t \<Rightarrow> u32 \<Rightarrow> u32 \<Rightarrow> u32 \<Rightarrow> machine \<Rightarrow> machine option" where
  "panic_report env buf elf lit_panic ebp msg w = do {
     w \<leftarrow> error_log env buf lit_panic msg w;
     panic_walk env buf elf ebp w }"

definition panic :: "ports \<Rightarrow> u32 \<Rightarrow> elf_t \<Rightarrow> u32 \<Rightarrow> u32 \<Rightarrow> u32 \<Rightarrow> machine \<Rightarrow> machine option" where
  "panic env buf elf lit_panic ebp msg w = do { w \<leftarrow> panic_report env buf elf lit_panic ebp msg w; None }"

section \<open>Formats with strings\<close>

text \<open>A list of arguments as a \<open>va_list\<close>.\<close>

definition varargs :: "u32 list \<Rightarrow> va_list" where
  "varargs args = (\<lambda>n. if n < length args then args ! n else 0)"

lemma varargs_simps [simp]: "varargs (a # as) 0 = a" "(\<lambda>n. varargs (a # as) (Suc n)) = varargs as"
  by (simp_all add: varargs_def fun_eq_iff)

lemmas directive_fields = read_directive_def after_fields_def after_precision_def after_width_def after_flags_def has_star_def
  is_flag_def digit_byte_def Let_def

lemma render_s: "render strs (37 # 115 # fmt) args
    = (case strs (args 0) of None \<Rightarrow> None | Some cs \<Rightarrow> map_option ((@) cs) (render strs fmt (\<lambda>n. args (Suc n))))"
proof -
  have f: "\<not> has_star (115 # fmt)" "after_fields (115 # fmt) = 115 # fmt" "f_conv (read_directive (115 # fmt)) = [115]"
    "f_width (read_directive (115 # fmt)) = None" "f_precision (read_directive (115 # fmt)) = None"
    by (simp_all add: directive_fields)
  then show ?thesis by (simp add: directive_text_def in_field_def default_to_def Let_def split: option.splits)
qed

text \<open>The last \<open>k\<close> hexadecimal digits of a number.\<close>

fun hex_text :: "nat \<Rightarrow> nat \<Rightarrow> u8 list" where
  "hex_text 0 n = []"
| "hex_text (Suc k) n = hex_text k (n div 16) @ [digit_char True (n mod 16)]"

lemma hex_text_zero: "hex_text k 0 = replicate k 48"
  by (induction k) (simp_all add: digit_char_def replicate_append_same)

lemma hex_text_digs: "n < 16 ^ k \<Longrightarrow> hex_text k n = replicate (k - length (digs 16 n)) 48 @ map (digit_char True) (digs 16 n)"
proof (induction k arbitrary: n)
  case 0
  then show ?case by (subst (1 2) digs.simps) simp
next
  case (Suc k)
  show ?case
  proof (cases "n = 0")
    case True
    moreover have "digs 16 0 = []" by (subst digs.simps) simp
    ultimately show ?thesis using hex_text_zero [of "Suc k"] by simp
  next
    case False
    then have d: "digs 16 n = digs 16 (n div 16) @ [n mod 16]" by (subst digs.simps) simp
    have "n div 16 < 16 ^ k" using Suc.prems by (simp add: div_less_iff_less_mult mult.commute)
    from Suc.IH [OF this] show ?thesis unfolding d by simp
  qed
qed

lemma hex_text_length [simp]: "length (hex_text k n) = k"
  by (induction k arbitrary: n) simp_all

lemma hex_digit_nonzero: "d < 16 \<Longrightarrow> digit_char True d \<noteq> 0"
proof -
  have "list_all (\<lambda>d. digit_char True d \<noteq> 0) [0..<16]" by code_simp
  then show "d < 16 \<Longrightarrow> digit_char True d \<noteq> 0" by (simp add: list_all_iff)
qed

lemma hex_text_nonzero: "0 \<notin> set (hex_text k n)"
  by (induction k arbitrary: n) (auto simp: hex_digit_nonzero eq_commute [of 0])

lemma number_form_x8:
  fixes a :: u32
  assumes "\<not> f_minus d" "\<not> f_plus d" "\<not> f_space d" "\<not> f_hash d" "f_zero d" "f_width d = Some 8" "f_precision d = None"
  shows "number_form d 16 True False (unat a) = hex_text 8 (unat a)"
proof -
  define ds where "ds = (if unat a = 0 then [48] else map (digit_char True) (digs 16 (unat a)))"
  have n: "number_form d 16 True False (unat a) = replicate (8 - length ds) 48 @ ds"
    using assms by (simp add: number_form_def default_to_def Let_def ds_def)
  have "unat a < 16 ^ 8" using u32_lt [of a] by simp
  note h = hex_text_digs [OF this]
  show ?thesis
  proof (cases "unat a = 0")
    case True
    have "replicate 7 (48 :: u8) @ [48] = replicate (Suc 7) 48" unfolding replicate_append_same by (rule replicate_Suc [symmetric])
    moreover have "ds = [48]" "hex_text 8 (unat a) = replicate 8 48" using True hex_text_zero [of 8] by (simp_all add: ds_def)
    ultimately show ?thesis unfolding n by simp
  next
    case False
    then show ?thesis unfolding n h by (simp add: ds_def)
  qed
qed

lemma render_08x: "render strs (37 # 48 # 56 # 120 # fmt) args
    = map_option ((@) (hex_text 8 (unat (args 0)))) (render strs fmt (\<lambda>n. args (Suc n)))"
proof -
  let ?f = "48 # 56 # 120 # fmt"
  have f: "\<not> has_star ?f" "after_fields ?f = 120 # fmt" "f_conv (read_directive ?f) = [120]" by (simp_all add: directive_fields)
  have "number_form (read_directive ?f) 16 True False (unat (args 0)) = hex_text 8 (unat (args 0))"
    by (rule number_form_x8) (simp_all add: directive_fields decimal_def)
  with f show ?thesis by (simp add: directive_text_def Let_def)
qed

section \<open>Memory away from the buffer\<close>

definition away :: "u32 \<Rightarrow> u32 \<Rightarrow> nat \<Rightarrow> bool" where
  "away buf a n \<longleftrightarrow> (\<forall>i < n. 1024 \<le> unat (a + of_nat i - buf))"

definition same_away :: "u32 \<Rightarrow> mem \<Rightarrow> mem \<Rightarrow> bool" where
  "same_away buf m m' \<longleftrightarrow> (\<forall>a. 1024 \<le> unat (a - buf) \<longrightarrow> m' a = m a)"

lemma away_byte: "same_away buf m m' \<Longrightarrow> away buf a n \<Longrightarrow> i < n \<Longrightarrow> m' (a + of_nat i) = m (a + of_nat i)"
  by (simp add: same_away_def away_def)

lemma away_word: "same_away buf m m' \<Longrightarrow> away buf a n \<Longrightarrow> i + 4 \<le> n \<Longrightarrow> word_at m' (a + of_nat i) = word_at m (a + of_nat i)"
  using away_byte [of buf m m' a n i] away_byte [of buf m m' a n "i + 1"] away_byte [of buf m m' a n "i + 2"]
    away_byte [of buf m m' a n "i + 3"] by (simp add: word_at_def ac_simps)

lemma away_cstring: "same_away buf m m' \<Longrightarrow> str_away s cs buf 1024 \<Longrightarrow> cstring m s cs \<Longrightarrow> cstring m' s cs"
  by (simp add: cstring_iff same_away_def str_away_def)

lemma away_strs: "same_away buf m m' \<Longrightarrow> strs_ok strs m buf 1024 \<Longrightarrow> strs_ok strs m' buf 1024"
  unfolding strs_ok_def using away_cstring by blast

text \<open>The symbol table is not in the buffer.\<close>

definition table_away :: "u32 \<Rightarrow> elf_t \<Rightarrow> bool" where
  "table_away buf elf \<longleftrightarrow> (\<forall>i < unat (symtabsz elf div 16). away buf (symtab elf + 16 * of_nat i) 16)"

lemma away_lookup_loop:
  "\<forall>i \<in> set is. away buf (symtab elf + 16 * of_nat i) 16 \<Longrightarrow> same_away buf m m' \<Longrightarrow> elf_lookup_loop m' a elf is = elf_lookup_loop m a elf is"
proof (induction "is")
  case (Cons i "is")
  then have i: "away buf (symtab elf + 16 * of_nat i) 16" by simp
  have "st_name m' (symtab elf) (of_nat i) = st_name m (symtab elf) (of_nat i)"
    "st_value m' (symtab elf) (of_nat i) = st_value m (symtab elf) (of_nat i)"
    "st_size m' (symtab elf) (of_nat i) = st_size m (symtab elf) (of_nat i)"
    "st_info m' (symtab elf) (of_nat i) = st_info m (symtab elf) (of_nat i)"
    using away_word [OF Cons.prems(2) i, of 0] away_word [OF Cons.prems(2) i, of 4] away_word [OF Cons.prems(2) i, of 8]
      away_byte [OF Cons.prems(2) i, of 12]
    by (simp_all add: st_name_def st_value_def st_size_def st_info_def)
  then show ?case using Cons by (simp add: Let_def)
qed simp

lemma away_lookup: "table_away buf elf \<Longrightarrow> same_away buf m m' \<Longrightarrow> elf_lookup_symbol m' a elf = elf_lookup_symbol m a elf"
  unfolding elf_lookup_symbol_def by (rule away_lookup_loop) (simp_all add: table_away_def)

section \<open>Printing with strings\<close>

lemma put_room_puts: "put_room (length cs + n) l \<Longrightarrow> put_room n (foldl line_put l cs)"
  by (induction cs arbitrary: l) (simp_all add: put_room_put)

lemma print_text:
  assumes r: "render strs (ascii fmt) (varargs args) = Some out" and nz: "0 \<notin> set (ascii fmt)" "0 \<notin> set out"
    and ok: "strs_ok strs (pmem w) buf 1024" and n: "length out < 1024" and u: "uart_ok w" "put_room (length out) (line_of w)"
  obtains w' where "print env buf fmt args w = Some w'" "uart_ok w'" "line_of w' = foldl line_put (line_of w) out"
    "kst w' = kst w" "same_away buf (pmem w) (pmem w')"
proof -
  have "strs_ok strs (pmem w) buf (Suc (length out))" using ok n unfolding strs_ok_def str_away_def by fastforce
  from vsprintf_cstring [OF r nz this n] obtain m' where m': "vsprintf buf (ascii fmt) (varargs args) (pmem w) = Some (of_nat (length out), m')"
    "m'(buf + of_nat (length out) := 0) = m'" "cstring m' buf out" "\<forall>a. 1024 \<le> unat (a - buf) \<longrightarrow> m' a = pmem w a" by blast
  obtain w' where w': "uputs env m' buf w = Some w'" "uart_ok w'" "line_of w' = foldl line_put (line_of w) out"
    using uputs_refines [OF m'(3) u] by blast
  have f: "io_frame w w'" by (rule uputs_frame [OF m'(3) w'(1)])
  have "print env buf fmt args w = Some (w'\<lparr>pmem := m'\<rparr>)"
    using m'(1,2) w'(1) by (simp add: print_def printk_def varargs_def)
  moreover have "uart_ok (w'\<lparr>pmem := m'\<rparr>)" "line_of (w'\<lparr>pmem := m'\<rparr>) = line_of w'"
    using w'(2) by (simp_all add: uart_ok_def line_of_def)
  ultimately show thesis using that [of "w'\<lparr>pmem := m'\<rparr>"] f w'(3) m'(4) by (simp add: io_frame_def same_away_def)
qed

section \<open>The text of a message and of the stack\<close>

definition info_text :: "u8 list \<Rightarrow> u8 list \<Rightarrow> u8 list" where
  "info_text type msg = [27] @ ascii ''[01m['' @ type @ ascii '' Info]'' @ [27] @ ascii ''[0m  '' @ msg @ [10]"

definition warning_text :: "u8 list \<Rightarrow> u8 list \<Rightarrow> u8 list" where
  "warning_text type msg = [27] @ ascii ''[01m'' @ [27] @ ascii ''[34m['' @ type @ ascii '' Warning]'' @ [27] @ ascii ''[0m  '' @ msg @ [10]"

definition error_text :: "u8 list \<Rightarrow> u8 list \<Rightarrow> u8 list" where
  "error_text type msg = [27] @ ascii ''[01m'' @ [27] @ ascii ''[31m['' @ type @ ascii '' Error]'' @ [27] @ ascii ''[0m  '' @ msg @ [10]"

definition frame_text :: "u32 \<Rightarrow> u8 list \<Rightarrow> u8 list" where
  "frame_text ret name = ascii ''[0x'' @ hex_text 8 (unat ret) @ ascii ''] '' @ name @ [10]"

lemma render_char: "c \<noteq> 37 \<Longrightarrow> render strs (c # fmt) args = map_option ((#) c) (render strs fmt args)"
  by simp

lemmas render_steps = render_char render_s render_08x

lemma render_logs:
  assumes "strs type = Some t" "strs msg = Some c"
  shows "render strs (ascii ([CHR 0x1B] @ ''[01m[%s Info]'' @ [CHR 0x1B] @ ''[0m  %s'' @ [CHR 0x0A])) (varargs [type, msg])
      = Some (info_text t c)" (is ?info)
    and "render strs (ascii ([CHR 0x1B] @ ''[01m'' @ [CHR 0x1B] @ ''[34m[%s Warning]'' @ [CHR 0x1B] @ ''[0m  %s'' @ [CHR 0x0A])) (varargs [type, msg])
      = Some (warning_text t c)" (is ?warning)
    and "render strs (ascii ([CHR 0x1B] @ ''[01m'' @ [CHR 0x1B] @ ''[31m[%s Error]'' @ [CHR 0x1B] @ ''[0m  %s'' @ [CHR 0x0A])) (varargs [type, msg])
      = Some (error_text t c)" (is ?error)
proof -
  show ?info using assms by (simp add: ascii_def render_steps info_text_def del: render.simps(2))
  show ?warning using assms by (simp add: ascii_def render_steps warning_text_def del: render.simps(2))
  show ?error using assms by (simp add: ascii_def render_steps error_text_def del: render.simps(2))
qed

lemma render_frame: "strs s = Some name \<Longrightarrow>
    render strs (ascii (''[0x%08x] %s'' @ [CHR 0x0A])) (varargs [ret, s]) = Some (frame_text ret name)"
  by (simp add: ascii_def render_steps frame_text_def del: render.simps(2))

text \<open>A chain of frames on the stack: return addresses from the inside out.\<close>

fun call_chain :: "mem \<Rightarrow> u32 \<Rightarrow> u32 \<Rightarrow> u32 list \<Rightarrow> bool" where
  "call_chain m buf ebp [] \<longleftrightarrow> ebp = 0"
| "call_chain m buf ebp (ret # rets) \<longleftrightarrow> ebp \<noteq> 0 \<and> away buf ebp 8 \<and> word_at m (ebp + 4) = ret \<and> call_chain m buf (word_at m ebp) rets"

lemma away_chain: "same_away buf m m' \<Longrightarrow> call_chain m buf ebp rets \<Longrightarrow> call_chain m' buf ebp rets"
proof (induction rets arbitrary: ebp)
  case (Cons ret rets)
  then have "away buf ebp 8" by simp
  from away_word [OF Cons.prems(1) this, of 0] away_word [OF Cons.prems(1) this, of 4] Cons show ?case by simp
qed simp

definition chain_text :: "(u32 \<Rightarrow> u8 list) \<Rightarrow> u32 list \<Rightarrow> u8 list" where
  "chain_text name rets = concat (map (\<lambda>ret. frame_text ret (name ret)) rets)"

lemma cstring_nonzero: "cstring m a cs \<Longrightarrow> 0 \<notin> set cs"
  by (induction cs arbitrary: a) auto

lemma frame_text_nonzero: "0 \<notin> set name \<Longrightarrow> 0 \<notin> set (frame_text ret name)"
  using hex_text_nonzero by (simp add: frame_text_def ascii_def)

lemma panic_walk_prints:
  assumes "call_chain (pmem w) buf ebp rets" and "table_away buf elf" and "strs_ok strs (pmem w) buf 1024"
    and "\<forall>ret \<in> set rets. strs (elf_lookup_symbol (pmem w) ret elf) = Some (name ret)"
    and "length (chain_text name rets) < 1024" and "uart_ok w" and "put_room (length (chain_text name rets)) (line_of w)"
  shows "\<exists>w'. panic_walk env buf elf ebp w = Some w' \<and> uart_ok w' \<and> kst w' = kst w
    \<and> line_of w' = foldl line_put (line_of w) (chain_text name rets)"
  using assms
proof (induction rets arbitrary: ebp w)
  case Nil
  then show ?case by (subst panic_walk.simps) (simp add: chain_text_def)
next
  case (Cons ret rets)
  let ?s = "elf_lookup_symbol (pmem w) ret elf"
  let ?out = "frame_text ret (name ret)"
  have t: "chain_text name (ret # rets) = ?out @ chain_text name rets" by (simp add: chain_text_def)
  have s: "strs ?s = Some (name ret)" using Cons.prems(4) by simp
  then have "cstring (pmem w) ?s (name ret)" using Cons.prems(3) by (simp add: strs_ok_def)
  note nz = frame_text_nonzero [OF cstring_nonzero [OF this], of ret]
  have r: "put_room (length ?out) (line_of w)" "length ?out < 1024" using Cons.prems(5,7) by (simp_all add: t put_room_def)
  have "0 \<notin> set (ascii (''[0x%08x] %s'' @ [CHR 0x0A]))" by (simp add: ascii_def)
  from print_text [OF render_frame [of strs, OF s] this nz Cons.prems(3) r(2) Cons.prems(6) r(1), of env]
  obtain v where v: "print env buf (''[0x%08x] %s'' @ [CHR 0x0A]) [ret, ?s] w = Some v" "uart_ok v"
    "line_of v = foldl line_put (line_of w) ?out" "kst v = kst w" "same_away buf (pmem w) (pmem v)" .
  have chain: "call_chain (pmem v) buf (word_at (pmem v) ebp) rets"
  proof -
    have "call_chain (pmem v) buf ebp (ret # rets)" by (rule away_chain [OF v(5) Cons.prems(1)])
    then show ?thesis by simp
  qed
  have room: "put_room (length (chain_text name rets)) (line_of v)"
    unfolding v(3) by (rule put_room_puts) (use Cons.prems(7) t in simp)
  have syms: "\<forall>ret \<in> set rets. strs (elf_lookup_symbol (pmem v) ret elf) = Some (name ret)"
    using Cons.prems(4) away_lookup [OF Cons.prems(2) v(5)] by simp
  have len: "length (chain_text name rets) < 1024" using Cons.prems(5) t by simp
  from Cons.IH [OF chain Cons.prems(2) away_strs [OF v(5) Cons.prems(3)] syms len v(2) room]
  obtain w' where w': "panic_walk env buf elf (word_at (pmem v) ebp) v = Some w'" "uart_ok w'" "kst w' = kst v"
    "line_of w' = foldl line_put (line_of v) (chain_text name rets)" by blast
  have "ebp \<noteq> 0" "word_at (pmem w) (ebp + 4) = ret" using Cons.prems(1) by simp_all
  then have "panic_walk env buf elf ebp w = Some w'" using v(1) w'(1) by (subst panic_walk.simps) (simp add: Let_def)
  then show ?case using w' v by (auto simp: t)
qed

section \<open>Properties\<close>

text \<open>C39. \<open>panic\<close> prints the message as an error and then a line for each frame of the stack from the inside out, with the return address in
  eight hexadecimal digits and the name of the function, touches no task, and does not return, when the text is below 1024 bytes and
  the queue of the line has room for it.\<close>

theorem panic_prints_stack:
  assumes "call_chain (pmem w) buf ebp rets" and "table_away buf elf" and "strs_ok strs (pmem w) buf 1024"
    and "strs lit_panic = Some (ascii ''Kernel Panic'')" and "strs msg = Some said"
    and "\<forall>ret \<in> set rets. strs (elf_lookup_symbol (pmem w) ret elf) = Some (name ret)"
    and "out = error_text (ascii ''Kernel Panic'') said @ chain_text name rets" and "length out < 1024"
    and "uart_ok w" and "put_room (length out) (line_of w)"
  shows "\<exists>w'. panic_report env buf elf lit_panic ebp msg w = Some w' \<and> panic env buf elf lit_panic ebp msg w = None
    \<and> uart_ok w' \<and> kst w' = kst w \<and> sent (line_of w') @ waiting (line_of w') = sent (line_of w) @ waiting (line_of w) @ out"
proof -
  let ?head = "error_text (ascii ''Kernel Panic'') said"
  have "cstring (pmem w) msg said" using assms(3,5) by (simp add: strs_ok_def)
  then have nz: "0 \<notin> set ?head" using cstring_nonzero by (simp add: error_text_def ascii_def)
  have r: "put_room (length ?head) (line_of w)" "length ?head < 1024" using assms(7,8,10) by (simp_all add: put_room_def)
  have f: "0 \<notin> set (ascii ([CHR 0x1B] @ ''[01m'' @ [CHR 0x1B] @ ''[31m[%s Error]'' @ [CHR 0x1B] @ ''[0m  %s'' @ [CHR 0x0A]))"
    by (simp add: ascii_def)
  from print_text [OF render_logs(3) [of strs, OF assms(4,5)] f nz assms(3) r(2) assms(9) r(1), of env]
  obtain v where v: "error_log env buf lit_panic msg w = Some v" "uart_ok v" "line_of v = foldl line_put (line_of w) ?head"
    "kst v = kst w" "same_away buf (pmem w) (pmem v)" unfolding error_log_def by blast
  have room: "put_room (length (chain_text name rets)) (line_of v)"
    unfolding v(3) by (rule put_room_puts) (use assms(7,10) in simp)
  have syms: "\<forall>ret \<in> set rets. strs (elf_lookup_symbol (pmem v) ret elf) = Some (name ret)"
    using assms(6) away_lookup [OF assms(2) v(5)] by simp
  have len: "length (chain_text name rets) < 1024" using assms(7,8) by simp
  from panic_walk_prints [OF away_chain [OF v(5) assms(1)] assms(2) away_strs [OF v(5) assms(3)] syms len v(2) room]
  obtain w' where w': "panic_walk env buf elf ebp v = Some w'" "uart_ok w'" "kst w' = kst v"
    "line_of w' = foldl line_put (line_of v) (chain_text name rets)" by blast
  have "panic_report env buf elf lit_panic ebp msg w = Some w'" using v(1) w'(1) by (simp add: panic_report_def)
  moreover have "line_of w' = foldl line_put (line_of w) out" using w'(4) v(3) assms(7) by simp
  ultimately show ?thesis
    using w' v line_puts_ok [OF line_of_ok [OF assms(9)], of out] by (simp add: panic_def)
qed

lemma awayI: "1024 \<le> unat (a - buf) \<Longrightarrow> unat (a - buf) + n \<le> 4294967296 \<Longrightarrow> away buf a n"
proof -
  assume a: "1024 \<le> unat (a - buf)" "unat (a - buf) + n \<le> 4294967296"
  have "1024 \<le> unat (a + of_nat i - buf)" if "i < n" for i
  proof -
    have "unat (of_nat i :: u32) = i" using a that by (intro unat_small) linarith
    then have "unat ((a - buf) + of_nat i) = unat (a - buf) + i" using a that by (subst unat_add_lem [THEN iffD1]) simp_all
    then have "1024 \<le> unat ((a - buf) + of_nat i)" using a(1) by simp
    then show ?thesis by (simp only: diff_add_eq)
  qed
  then show "away buf a n" by (simp add: away_def)
qed

definition debug_example :: mem where
  "debug_example = (\<lambda>a. if a = 0x3000 then 33 else if a = 0x4004 then 0x44
     else if 0x2000 \<le> a \<and> a < 0x200C then ascii ''Kernel Panic'' ! unat (a - 0x2000) else elf_example a)"

definition example_strs :: strings where
  "example_strs = [0x2000 \<mapsto> ascii ''Kernel Panic'', 0x3000 \<mapsto> ascii ''!'', 0x1009 \<mapsto> []]"

lemma example_strs_ok: "strs_ok example_strs debug_example 0x10000 1024"
proof -
  have "cstring debug_example 0x2000 (ascii ''Kernel Panic'')" "cstring debug_example 0x3000 (ascii ''!'')" "cstring debug_example 0x1009 []"
    by (simp_all add: debug_example_def elf_example_def ascii_def)
  moreover have "str_away 0x2000 (ascii ''Kernel Panic'') 0x10000 1024" "str_away 0x3000 (ascii ''!'') 0x10000 1024" "str_away 0x1009 [] 0x10000 1024"
    by (simp_all add: str_away_def ascii_def All_less_Suc2 le_Suc_eq)
  ultimately show ?thesis by (simp add: strs_ok_def example_strs_def ascii_def)
qed

lemma example_symbol: "elf_lookup_symbol debug_example 0x44 \<lparr>symtab = 0x100, symtabsz = 32, strtab = 0x1000, strtabsz = 0\<rparr> = 0x1009"
proof -
  have "st_info debug_example 0x100 0 = 0" "st_info debug_example 0x100 1 = 2" "st_value debug_example 0x100 1 = 0x40"
    "st_size debug_example 0x100 1 = 8" "st_name debug_example 0x100 1 = 9"
    by (simp_all add: st_info_def st_value_def st_size_def st_name_def word_at_def debug_example_def elf_example_def)
  then show ?thesis by (simp add: elf_lookup_symbol_def ELF32_ST_TYPE_def Let_def upt_rec)
qed

theorem panic_prints_stack_witness:
  "\<exists>w w'. panic_report (\<lambda>_ _. 0) 0x10000 \<lparr>symtab = 0x100, symtabsz = 32, strtab = 0x1000, strtabsz = 0\<rparr> 0x2000 0x4000 0x3000 w = Some w'
    \<and> sent (line_of w') @ waiting (line_of w') = error_text (ascii ''Kernel Panic'') (ascii ''!'') @ frame_text 0x44 []"
proof -
  let ?elf = "\<lparr>symtab = 0x100, symtabsz = 32, strtab = 0x1000, strtabsz = 0\<rparr>"
  obtain s :: kstate where True by simp
  let ?w = "machine_boot s\<lparr>pmem := debug_example\<rparr>"
  let ?out = "error_text (ascii ''Kernel Panic'') (ascii ''!'') @ frame_text 0x44 []"
  have "away 0x10000 0x4000 8" by (rule awayI) simp_all
  moreover have "word_at debug_example 0x4004 = 0x44" "word_at debug_example 0x4000 = 0"
    by (simp_all add: word_at_def debug_example_def elf_example_def)
  ultimately have chain: "call_chain debug_example 0x10000 0x4000 [0x44]" by simp
  have "away 0x10000 0x100 16" "away 0x10000 0x110 16" by (rule awayI; simp)+
  then have "\<forall>i < 2. away 0x10000 (0x100 + 16 * of_nat i) 16" by (auto dest: less_2_cases)
  then have table: "table_away 0x10000 ?elf" by (simp add: table_away_def)
  have w: "pmem ?w = debug_example" "uart_ok ?w" "line_of ?w = line_of (machine_boot s)"
    using machine_boot_ok(4) [of s] by (simp_all add: uart_ok_def line_of_def)
  have len: "length (error_text (ascii ''Kernel Panic'') (ascii ''!'')) = 38" "length (frame_text 0x44 []) = 14" by (simp_all add: error_text_def frame_text_def ascii_def)
  have "\<exists>w'. panic_report (\<lambda>_ _. 0) 0x10000 ?elf 0x2000 0x4000 0x3000 ?w = Some w' \<and> panic (\<lambda>_ _. 0) 0x10000 ?elf 0x2000 0x4000 0x3000 ?w = None
    \<and> uart_ok w' \<and> kst w' = kst ?w \<and> sent (line_of w') @ waiting (line_of w') = sent (line_of ?w) @ waiting (line_of ?w) @ ?out"
    by (rule panic_prints_stack [where strs = example_strs and name = "\<lambda>_. []" and rets = "[0x44]" and said = "ascii ''!''"])
      (use chain table example_strs_ok w machine_boot_ok [of s] in
        \<open>simp_all add: example_strs_def example_symbol chain_text_def len put_room_def\<close>)
  then show ?thesis using w(3) machine_boot_ok [of s] by auto
qed

end
