(* ===== verification/Descriptors.thy ===== *)
theory Descriptors
  imports Ports
begin

text \<open>
  The descriptor tables of \<open>init/gdt.c\<close> and \<open>init/idt.c\<close>. The addresses of the tables and of the assembler
  stubs are chosen by the linker and are parameters: \<open>isr n\<close> and \<open>irq n\<close> are the addresses of the stubs
  \<open>isr\<close>n and \<open>irq\<close>n. \<open>gdt_flush\<close> and \<open>idt_flush\<close> load the register from the structure they are given. An
  index past a table is \<^term>\<open>None\<close>.

  How the processor reads a descriptor (\<open>seg_base\<close>, \<open>gate_offset\<close> and so on) is written down from its
  layout; what the setters store is shown to be read back.
\<close>

section \<open>The code\<close>

record glb_desc_t =
  g_limit_low :: u16
  g_base_low :: u16
  g_base_middle :: u8
  g_access :: u8
  g_granularity :: u8
  g_base_high :: u8

record intr_desc_t =
  i_base_low :: u16
  i_sel :: u16
  i_always0 :: u8
  i_flags :: u8
  i_base_high :: u16

text \<open>\<open>gdtr_t\<close> and \<open>idtr_t\<close>, which have the same two members\<close>

record dtr_t =
  dtr_limit :: u16
  dtr_base :: u32

record tables = cpu +
  gdt :: "glb_desc_t list"
  gdtr :: dtr_t
  idt :: "intr_desc_t list"
  idtr :: dtr_t
  gdtr_loaded :: "dtr_t option"
  idtr_loaded :: "dtr_t option"

definition GDT_LENGTH :: nat where "GDT_LENGTH = 5"
definition IDT_LENGTH :: nat where "IDT_LENGTH = 256"

definition gdt_set_gate ::
  "nat \<Rightarrow> u32 \<Rightarrow> u32 \<Rightarrow> u8 \<Rightarrow> u8 \<Rightarrow> 'a tables_scheme \<Rightarrow> 'a tables_scheme option" where
  "gdt_set_gate idx base limit access gran w =
    (if idx < length (gdt w) then
       let d = gdt w ! idx;
           d = d\<lparr>g_base_low := ucast (base AND 0xFFFF), g_base_middle := ucast (drop_bit 16 base AND 0xFF),
                 g_base_high := ucast (drop_bit 24 base AND 0xFF)\<rparr>;
           d = d\<lparr>g_limit_low := ucast (limit AND 0xFFFF), g_granularity := ucast (drop_bit 16 limit AND 0x0F)\<rparr>;
           d = d\<lparr>g_access := access\<rparr>;
           d = d\<lparr>g_granularity := g_granularity d OR (gran AND 0xF0)\<rparr>
       in Some (w\<lparr>gdt := (gdt w)[idx := d]\<rparr>)
     else None)"

definition gdt_flush :: "dtr_t \<Rightarrow> 'a tables_scheme \<Rightarrow> 'a tables_scheme" where
  "gdt_flush r w = w\<lparr>gdtr_loaded := Some r\<rparr>"

definition setup_gdt :: "u32 \<Rightarrow> 'a tables_scheme \<Rightarrow> 'a tables_scheme option" where
  "setup_gdt gdt_addr w = do {
     let w = w\<lparr>gdtr := \<lparr>dtr_limit = of_nat (8 * GDT_LENGTH - 1), dtr_base = gdt_addr\<rparr>\<rparr>;
     w \<leftarrow> gdt_set_gate 0 0 0 0 0 w;
     w \<leftarrow> gdt_set_gate 1 0 0xFFFFFFFF 0x9A 0xCF w;
     w \<leftarrow> gdt_set_gate 2 0 0xFFFFFFFF 0x92 0xCF w;
     w \<leftarrow> gdt_set_gate 3 0 0xFFFFFFFF 0xFA 0xCF w;
     w \<leftarrow> gdt_set_gate 4 0 0xFFFFFFFF 0xF2 0xCF w;
     Some (gdt_flush (gdtr w) w)
   }"

definition idt_set_gate :: "nat \<Rightarrow> u32 \<Rightarrow> u16 \<Rightarrow> u8 \<Rightarrow> 'a tables_scheme \<Rightarrow> 'a tables_scheme option" where
  "idt_set_gate idx base sel flags w =
    (if idx < length (idt w) then
       let d = idt w ! idx;
           d = d\<lparr>i_base_low := ucast (base AND 0xFFFF), i_base_high := ucast (drop_bit 16 base AND 0xFFFF)\<rparr>;
           d = d\<lparr>i_sel := sel, i_always0 := 0, i_flags := flags\<rparr>
       in Some (w\<lparr>idt := (idt w)[idx := d]\<rparr>)
     else None)"

definition idt_flush :: "dtr_t \<Rightarrow> 'a tables_scheme \<Rightarrow> 'a tables_scheme" where
  "idt_flush r w = w\<lparr>idtr_loaded := Some r\<rparr>"

text \<open>The calls of \<open>idt_set_gate\<close> for the entries from \<open>n\<close> on.\<close>

fun set_gates :: "nat \<Rightarrow> u32 list \<Rightarrow> 'a tables_scheme \<Rightarrow> 'a tables_scheme option" where
  "set_gates n [] w = Some w"
| "set_gates n (a # as) w = do { w \<leftarrow> idt_set_gate n a 0x08 0x8E w; set_gates (n + 1) as w }"

definition zero_gate :: intr_desc_t where
  "zero_gate = \<lparr>i_base_low = 0, i_sel = 0, i_always0 = 0, i_flags = 0, i_base_high = 0\<rparr>"

definition setup_idt ::
  "u32 \<Rightarrow> (nat \<Rightarrow> u32) \<Rightarrow> (nat \<Rightarrow> u32) \<Rightarrow> 'a tables_scheme \<Rightarrow> 'a tables_scheme option" where
  "setup_idt idt_addr isr irq w = do {
     let w = w\<lparr>intr_handler_table := replicate IDT_LENGTH None, idt := replicate IDT_LENGTH zero_gate\<rparr>;
     let w = w\<lparr>idtr := \<lparr>dtr_limit = of_nat (8 * IDT_LENGTH - 1), dtr_base = idt_addr\<rparr>\<rparr>;
     let w = pic_init w;
     w \<leftarrow> set_gates 0 (map isr [0..<32]) w;
     w \<leftarrow> set_gates 32 (map irq [0..<16]) w;
     Some (idt_flush (idtr w) w)
   }"

section \<open>Reading a descriptor\<close>

definition seg_base :: "glb_desc_t \<Rightarrow> u32" where
  "seg_base d = ucast (g_base_low d) OR push_bit 16 (ucast (g_base_middle d)) OR push_bit 24 (ucast (g_base_high d))"

definition seg_limit :: "glb_desc_t \<Rightarrow> u32" where
  "seg_limit d = ucast (g_limit_low d) OR push_bit 16 (ucast (g_granularity d AND 0x0F))"

definition gate_offset :: "intr_desc_t \<Rightarrow> u32" where
  "gate_offset d = ucast (i_base_low d) OR push_bit 16 (ucast (i_base_high d))"

lemma mask_bits: "(0xFFFF :: u32) = mask 16" "(0xFF :: u32) = mask 8" "(0x0F :: u32) = mask 4" "(0x0F :: u8) = mask 4"
  "(0xFFFFF :: u32) = mask 20"
  by (simp_all add: mask_eq_exp_minus_1)

lemma u16_high: "16 \<le> n \<Longrightarrow> \<not> bit (w :: u16) n"
  using bit_imp_le_length [of w n] by auto

lemma u32_high: "32 \<le> n \<Longrightarrow> \<not> bit (w :: u32) n"
  using bit_imp_le_length [of w n] by auto

lemma seg_base_split:
  "(ucast (ucast (b AND 0xFFFF) :: u16) OR push_bit 16 (ucast (ucast (drop_bit 16 b AND 0xFF) :: u8))
     OR push_bit 24 (ucast (ucast (drop_bit 24 b AND 0xFF) :: u8)) :: u32) = b"
  unfolding mask_bits
proof (rule bit_word_eqI)
  fix n assume "n < LENGTH(32)"
  then show "bit (ucast (ucast (b AND mask 16) :: u16) OR push_bit 16 (ucast (ucast (drop_bit 16 b AND mask 8) :: u8))
      OR push_bit 24 (ucast (ucast (drop_bit 24 b AND mask 8) :: u8)) :: u32) n \<longleftrightarrow> bit b n"
    by (cases "n < 24")
      (auto simp: bit_or_iff bit_ucast_iff bit_and_iff bit_mask_iff bit_push_bit_iff bit_drop_bit_eq u8_high u16_high)
qed

lemma seg_limit_split:
  "(ucast (ucast (l AND 0xFFFF) :: u16) OR push_bit 16 (ucast ((ucast (drop_bit 16 l AND 0x0F) OR (g AND 0xF0)) AND 0x0F :: u8)) :: u32)
    = l AND 0xFFFFF"
proof -
  have g: "(x OR (g AND 0xF0)) AND 0x0F = x AND (0x0F :: u8)" for x
    by (simp add: bit.conj_disj_distrib2 and.assoc)
  show ?thesis unfolding g unfolding mask_bits
    by (rule bit_word_eqI)
      (auto simp: bit_or_iff bit_ucast_iff bit_and_iff bit_mask_iff bit_push_bit_iff bit_drop_bit_eq u8_high u16_high)
qed

lemma gate_offset_split:
  "(ucast (ucast (b AND 0xFFFF) :: u16) OR push_bit 16 (ucast (ucast (drop_bit 16 b AND 0xFFFF) :: u16)) :: u32) = b"
  unfolding mask_bits
  by (rule bit_word_eqI)
    (auto simp: bit_or_iff bit_ucast_iff bit_and_iff bit_mask_iff bit_push_bit_iff bit_drop_bit_eq u16_high u32_high)

section \<open>The tables set up\<close>

lemma gdt_set_gate_reads:
  assumes "idx < length (gdt w)"
  shows "\<exists>w'. gdt_set_gate idx base limit access gran w = Some w' \<and> length (gdt w') = length (gdt w) \<and>
    seg_base (gdt w' ! idx) = base \<and> seg_limit (gdt w' ! idx) = limit AND 0xFFFFF \<and>
    g_access (gdt w' ! idx) = access \<and> g_granularity (gdt w' ! idx) AND 0xF0 = gran AND 0xF0 \<and>
    (\<forall>j. j \<noteq> idx \<longrightarrow> gdt w' ! j = gdt w ! j)"
proof -
  have g: "((x AND 0x0F) OR (gran AND 0xF0)) AND 0xF0 = gran AND (0xF0 :: u8)" for x
    by (simp add: bit.conj_disj_distrib2 and.assoc)
  have u: "ucast (drop_bit 16 limit AND 0x0F) = ucast (drop_bit 16 limit) AND (0x0F :: u8)"
    by (rule bit_word_eqI) (auto simp: bit_and_iff bit_ucast_iff mask_bits bit_mask_iff)
  show ?thesis using assms
    by (simp add: gdt_set_gate_def Let_def seg_base_def seg_limit_def seg_base_split seg_limit_split g [of "ucast (drop_bit 16 limit)", folded u])
qed

lemma idt_set_gate_reads:
  assumes "idx < length (idt w)"
  shows "idt_set_gate idx base sel flags w = Some (w\<lparr>idt := (idt w)[idx := \<lparr>i_base_low = ucast (base AND 0xFFFF), i_sel = sel,
    i_always0 = 0, i_flags = flags, i_base_high = ucast (drop_bit 16 base AND 0xFFFF)\<rparr>]\<rparr>)"
  using assms by (cases "idt w ! idx") (simp add: idt_set_gate_def Let_def)

definition gate_at :: "u32 \<Rightarrow> intr_desc_t" where
  "gate_at a = \<lparr>i_base_low = ucast (a AND 0xFFFF), i_sel = 0x08, i_always0 = 0, i_flags = 0x8E,
     i_base_high = ucast (drop_bit 16 a AND 0xFFFF)\<rparr>"

lemma set_gates_reads:
  "n + length as \<le> length (idt w) \<Longrightarrow>
    set_gates n as w = Some (w\<lparr>idt := take n (idt w) @ map gate_at as @ drop (n + length as) (idt w)\<rparr>)"
proof (induction as arbitrary: n w)
  case (Cons a as)
  have g: "idt_set_gate n a 0x08 0x8E w = Some (w\<lparr>idt := (idt w)[n := gate_at a]\<rparr>)"
    using Cons.prems by (subst idt_set_gate_reads) (simp_all add: gate_at_def)
  show ?case using Cons
    by (simp add: g take_Suc_conv_app_nth take_update_swap list_update_append)
qed simp

lemma gate_at_offset: "gate_offset (gate_at a) = a"
  by (simp add: gate_offset_def gate_at_def gate_offset_split)

lemma pic_init_tables [simp]:
  "gdt (outb p v w) = gdt w" "idt (outb p v w) = idt w" "idtr (outb p v w) = idtr w" "gdtr (outb p v w) = gdtr w"
  "intr_handler_table (outb p v w) = intr_handler_table w"
  by (simp_all add: outb_def)

lemma setup_idt_reads:
  "\<exists>w'. setup_idt a isr irq w = Some w' \<and> length (idt w') = 256 \<and> idtr_loaded w' = Some \<lparr>dtr_limit = 2047, dtr_base = a\<rparr> \<and>
    (\<forall>n<256. if n < 48 then i_flags (idt w' ! n) = 0x8E \<and> i_sel (idt w' ! n) = 0x08 \<and>
        gate_offset (idt w' ! n) = (if n < 32 then isr n else irq (n - 32))
      else idt w' ! n = zero_gate) \<and>
    intr_handler_table w' = replicate 256 None \<and> gdtr_loaded w' = gdtr_loaded w \<and> iflag w' = iflag w"
proof -
  define w1 where "w1 = pic_init (w\<lparr>intr_handler_table := replicate IDT_LENGTH None, idt := replicate IDT_LENGTH zero_gate,
    idtr := \<lparr>dtr_limit = of_nat (8 * IDT_LENGTH - 1), dtr_base = a\<rparr>\<rparr>)"
  have i1: "idt w1 = replicate 256 zero_gate" "idtr w1 = \<lparr>dtr_limit = 2047, dtr_base = a\<rparr>"
    "intr_handler_table w1 = replicate 256 None"
    and k1: "gdtr_loaded w1 = gdtr_loaded w" "iflag w1 = iflag w"
    by (simp_all add: w1_def pic_init_def Let_def IDT_LENGTH_def) (simp_all add: outb_def)
  define w2 where "w2 = w1\<lparr>idt := map gate_at (map isr [0..<32]) @ replicate 224 zero_gate\<rparr>"
  have s1: "set_gates 0 (map isr [0..<32]) w1 = Some w2"
    by (subst set_gates_reads) (simp_all add: i1 w2_def)
  define w3 where "w3 = w2\<lparr>idt := map gate_at (map isr [0..<32]) @ map gate_at (map irq [0..<16]) @ replicate 208 zero_gate\<rparr>"
  have s2: "set_gates 32 (map irq [0..<16]) w2 = Some w3"
    by (subst set_gates_reads) (simp_all add: w2_def w3_def del: upt_Suc)
  have "setup_idt a isr irq w = Some (idt_flush (idtr w3) w3)"
    using s1 s2 by (simp add: setup_idt_def Let_def w1_def)
  moreover have "idt w3 ! n = (if n < 32 then gate_at (isr n) else if n < 48 then gate_at (irq (n - 32)) else zero_gate)"
    if "n < 256" for n using that by (auto simp: w3_def nth_append)
  moreover have "idtr w3 = \<lparr>dtr_limit = 2047, dtr_base = a\<rparr>" "intr_handler_table w3 = replicate 256 None" "length (idt w3) = 256"
    "gdtr_loaded w3 = gdtr_loaded w" "iflag w3 = iflag w"
    by (simp_all add: w3_def w2_def i1 k1)
  ultimately show ?thesis
    by (auto simp: idt_flush_def gate_at_offset) (simp_all add: gate_at_def)
qed

section \<open>Properties\<close>

text \<open>
  C28. What \<open>gdt_set_gate\<close> packs into a segment descriptor is what the processor reads from it: the base, the
  20 bits of the limit, the access byte and the flags; the other descriptors stay.
\<close>

theorem gdt_gate_roundtrip:
  assumes "idx < length (gdt w)"
  shows "\<exists>w'. gdt_set_gate idx base limit access gran w = Some w' \<and> length (gdt w') = length (gdt w) \<and>
    seg_base (gdt w' ! idx) = base \<and> seg_limit (gdt w' ! idx) = limit AND 0xFFFFF \<and>
    g_access (gdt w' ! idx) = access \<and> g_granularity (gdt w' ! idx) AND 0xF0 = gran AND 0xF0 \<and>
    (\<forall>j. j \<noteq> idx \<longrightarrow> gdt w' ! j = gdt w ! j)"
  using assms by (rule gdt_set_gate_reads)

definition tables_boot :: tables where
  "tables_boot = \<lparr>iflag = False, trace = [], intr_handler_table = replicate 256 (Some Clk_intr),
     gdt = replicate 5 \<lparr>g_limit_low = 7, g_base_low = 7, g_base_middle = 7, g_access = 7, g_granularity = 7, g_base_high = 7\<rparr>,
     gdtr = \<lparr>dtr_limit = 0, dtr_base = 0\<rparr>, idt = replicate 256 zero_gate, idtr = \<lparr>dtr_limit = 0, dtr_base = 0\<rparr>,
     gdtr_loaded = None, idtr_loaded = None\<rparr>"

theorem gdt_gate_roundtrip_witness:
  "\<exists>w'. gdt_set_gate 3 0x12345678 0xABCDE 0xFA 0xCF tables_boot = Some w' \<and> seg_base (gdt w' ! 3) = 0x12345678 \<and>
    seg_limit (gdt w' ! 3) = 0xABCDE"
  using gdt_gate_roundtrip [of 3 tables_boot "0x12345678" "0xABCDE" "0xFA" "0xCF"] by (auto simp: tables_boot_def)

text \<open>
  After \<open>setup_idt\<close> the processor's table is the one set up, entry \<open>n\<close> below 48 is an interrupt gate of
  the kernel code segment to the stub of vector \<open>n\<close>, every other entry is empty (not present), and no
  handler is registered.
\<close>

theorem setup_idt_gates:
  "\<exists>w'. setup_idt a isr irq w = Some w' \<and> length (idt w') = 256 \<and> idtr_loaded w' = Some \<lparr>dtr_limit = 2047, dtr_base = a\<rparr> \<and>
    (\<forall>n<256. if n < 48 then i_flags (idt w' ! n) = 0x8E \<and> i_sel (idt w' ! n) = 0x08 \<and>
        gate_offset (idt w' ! n) = (if n < 32 then isr n else irq (n - 32))
      else idt w' ! n = zero_gate) \<and>
    (\<forall>n<256. intr_handler_table w' ! n = None)"
proof -
  obtain w' where "setup_idt a isr irq w = Some w'" "length (idt w') = 256" "idtr_loaded w' = Some \<lparr>dtr_limit = 2047, dtr_base = a\<rparr>"
    "\<forall>n<256. if n < 48 then i_flags (idt w' ! n) = 0x8E \<and> i_sel (idt w' ! n) = 0x08 \<and>
        gate_offset (idt w' ! n) = (if n < 32 then isr n else irq (n - 32)) else idt w' ! n = zero_gate"
    "intr_handler_table w' = replicate 256 None" using setup_idt_reads [of a isr irq w] by blast
  then show ?thesis by simp
qed

theorem setup_idt_gates_witness:
  "\<exists>w'. setup_idt 0x5000 of_nat (\<lambda>n. of_nat (n + 100)) tables_boot = Some w' \<and> gate_offset (idt w' ! 36) = 104"
proof -
  obtain w' where w': "setup_idt 0x5000 of_nat (\<lambda>n. of_nat (n + 100)) tables_boot = Some w'"
    and g: "\<forall>n<256. if n < 48 then i_flags (idt w' ! n) = 0x8E \<and> i_sel (idt w' ! n) = 0x08 \<and>
        gate_offset (idt w' ! n) = (if n < 32 then of_nat n else of_nat (n - 32 + 100)) else idt w' ! n = zero_gate"
    using setup_idt_gates [of "0x5000" of_nat "\<lambda>n. of_nat (n + 100)" tables_boot] by blast
  show ?thesis using w' g [rule_format, of 36] by auto
qed

end
