(* ===== verification/Paging.thy ===== *)
theory Paging
  imports BuddySafe
begin

text \<open>
  The boot-time memory set-up of \<open>mm/memory.c\<close>: the kernel page tables, the page directory,
  the frame table and the hand-over of the memory behind the kernel to the buddy system. The
  memory the code writes is a map from virtual word addresses to words; a pointer
  \<open>pg_tab + i\<close> is the address \<open>pg_slot pg_tab i\<close>. The linker symbols and the
  multiboot map are arguments. \<open>page_walk\<close> is the two-level translation of the x86 manual,
  the specification of what the tables mean to the hardware.

  The lemmas show that the first 4 MB of the kernel window are mapped as intended, and that
  the directory entries of the other 28 MB point to the wrong tables.
\<close>

section \<open>The code\<close>

definition PG_PRESENT :: u32 where "PG_PRESENT = 0x1"
definition PG_WRITE :: u32 where "PG_WRITE = 0x2"
definition PG_NULL :: u32 where "PG_NULL = 0"
definition PG_DIR :: u32 where "PG_DIR = to_vaddr 0x0"
definition PG_TAB_K :: u32 where "PG_TAB_K = to_vaddr 0x1000"

type_synonym memory = "u32 \<Rightarrow> u32"

definition pg_slot :: "u32 \<Rightarrow> u32 \<Rightarrow> u32" where
  "pg_slot pg_tab i = pg_tab + 4 * i"

function pg_map_loop :: "u32 \<Rightarrow> u32 \<Rightarrow> u32 \<Rightarrow> memory \<Rightarrow> u32 \<times> memory" where
  "pg_map_loop i lim attr m =
    (if i < lim
     then pg_map_loop (i + 1) lim attr (m(pg_slot PG_TAB_K i := push_bit 12 i OR attr))
     else (i, m))"
  by pat_completeness auto
termination
proof (relation "measure (\<lambda>(i, lim, attr, m). unat lim - unat i)")
  fix i lim attr :: u32 and m :: memory
  assume "i < lim"
  then have "unat i < unat lim" "unat (i + 1) = unat i + 1"
    using u32_lt [of lim] by (simp_all add: word_less_nat_alt unat_word_ariths)
  then show "((i + 1, lim, attr, m(pg_slot PG_TAB_K i := push_bit 12 i OR attr)), i, lim, attr, m)
      \<in> measure (\<lambda>(i, lim, attr, m). unat lim - unat i)" by simp
qed simp

declare pg_map_loop.simps [simp del]

function pg_null_loop :: "u32 \<Rightarrow> u32 \<Rightarrow> memory \<Rightarrow> u32 \<times> memory" where
  "pg_null_loop i lim m =
    (if i < lim then pg_null_loop (i + 1) lim (m(pg_slot PG_DIR i := PG_NULL)) else (i, m))"
  by pat_completeness auto
termination
proof (relation "measure (\<lambda>(i, lim, m). unat lim - unat i)")
  fix i lim :: u32 and m :: memory
  assume "i < lim"
  then have "unat i < unat lim" "unat (i + 1) = unat i + 1"
    using u32_lt [of lim] by (simp_all add: word_less_nat_alt unat_word_ariths)
  then show "((i + 1, lim, m(pg_slot PG_DIR i := PG_NULL)), i, lim, m)
      \<in> measure (\<lambda>(i, lim, m). unat lim - unat i)" by simp
qed simp

declare pg_null_loop.simps [simp del]

text \<open>The entry is \<open>to_paddr(PG_TAB_K + (k<<12)) | ...\<close>, a sum of a word pointer and a number.\<close>

definition pg_dir_entry :: "u32 \<Rightarrow> u32" where
  "pg_dir_entry k = to_paddr (pg_slot PG_TAB_K (push_bit 12 k)) OR PG_PRESENT OR PG_WRITE"

function pg_dir_loop :: "u32 \<Rightarrow> u32 \<Rightarrow> memory \<Rightarrow> u32 \<times> memory" where
  "pg_dir_loop k i m =
    (if k < drop_bit 10 MAX_FRAME_NUM
     then pg_dir_loop (k + 1) (i + 1) (m(pg_slot PG_DIR i := pg_dir_entry k))
     else (i, m))"
  by pat_completeness auto
termination
proof (relation "measure (\<lambda>(k, i, m). 8 - unat k)")
  fix k i :: u32 and m :: memory
  assume "k < drop_bit 10 MAX_FRAME_NUM"
  then have "k < 8" by (simp add: MAX_FRAME_NUM_def)
  then have "unat k < 8" "unat (k + 1) = unat k + 1"
    by (simp_all add: word_less_nat_alt unat_word_ariths)
  then show "((k + 1, i + 1, m(pg_slot PG_DIR i := pg_dir_entry k)), k, i, m)
      \<in> measure (\<lambda>(k, i, m). 8 - unat k)" by simp
qed simp

declare pg_dir_loop.simps [simp del]

definition mm_init_tables :: "u32 \<Rightarrow> u32 \<Rightarrow> memory \<Rightarrow> memory" where
  "mm_init_tables ro_start_pa ro_end_pa m =
    (let (i, m) = pg_map_loop 0 (to_fr_idx ro_start_pa) (PG_PRESENT OR PG_WRITE) m;
         (i, m) = pg_map_loop i (to_fr_idx ro_end_pa) PG_PRESENT m;
         (i, m) = pg_map_loop i MAX_FRAME_NUM (PG_PRESENT OR PG_WRITE) m;
         (i, m) = pg_null_loop 0 (vaddr_to_dir PAGE_OFFSET) m;
         (i, m) = pg_dir_loop 0 i m;
         (i, m) = pg_null_loop i 0x400 m
     in m)"

partial_function (option) frame_init_loop :: "u32 \<Rightarrow> mm_state \<Rightarrow> mm_state option" where
  "frame_init_loop i s =
    (if i < MAX_FRAME_NUM
     then do {
       s \<leftarrow> upd_frame i (\<lambda>f. f\<lparr>ref_cnt := 0, flag := 0xF, bkt_desc := 0\<rparr>) s;
       frame_init_loop (i + 1) (s\<lparr>chains := list_node_init (FrChain i) (chains s)\<rparr>) }
     else Some s)"

record mmap_entry_t =
  base_addr_low :: u32
  length_low :: u32

fun mmap_scan :: "u32 \<Rightarrow> u32 \<Rightarrow> mmap_entry_t list \<Rightarrow> mm_state \<Rightarrow> mm_state option" where
  "mmap_scan kern_start_pa kern_end_pa [] s = Some s"
| "mmap_scan kern_start_pa kern_end_pa (mmap # mmaps) s =
    (if base_addr_low mmap = kern_start_pa
     then do {
       let n = length_low mmap - (kern_end_pa - kern_start_pa);
       (r, s) \<leftarrow> buddy_init kern_end_pa (signed_drop_bit 12 n) s;
       mmap_scan kern_start_pa kern_end_pa mmaps s }
     else mmap_scan kern_start_pa kern_end_pa mmaps s)"

text \<open>The registration of the page fault handler is in the interrupt model.\<close>

definition mm_init ::
    "u32 \<Rightarrow> u32 \<Rightarrow> u32 \<Rightarrow> u32 \<Rightarrow> mmap_entry_t list \<Rightarrow> memory \<Rightarrow> mm_state \<Rightarrow> (memory \<times> mm_state) option" where
  "mm_init kern_start kern_end ro_start ro_end mmaps m s = do {
     let kern_start_pa = kern_start;
     let kern_end_pa = to_paddr kern_end;
     let ro_start_pa = to_paddr ro_start;
     let ro_end_pa = to_paddr ro_end;
     let m = mm_init_tables ro_start_pa ro_end_pa m;
     s \<leftarrow> frame_init_loop 0 s;
     s \<leftarrow> mmap_scan kern_start_pa kern_end_pa mmaps s;
     Some (m, s) }"

section \<open>What the tables mean\<close>

definition page_walk :: "memory \<Rightarrow> u32 \<Rightarrow> u32 option" where
  "page_walk m va =
    (let pde = m (pg_slot PG_DIR (vaddr_to_dir va)) in
     if pde AND PG_PRESENT = 0 then None
     else
       let pte = m (pg_slot (to_vaddr (pde AND NOT 0xFFF)) (vaddr_to_pg va)) in
       if pte AND PG_PRESENT = 0 then None
       else Some ((pte AND NOT 0xFFF) OR vaddr_to_off va))"

section \<open>The loops fill ranges of slots\<close>

definition fill :: "u32 \<Rightarrow> (u32 \<Rightarrow> u32) \<Rightarrow> nat \<Rightarrow> nat \<Rightarrow> memory \<Rightarrow> memory" where
  "fill b g i n m = fold (\<lambda>j m. m(pg_slot b (of_nat j) := g (of_nat j))) [i..<n] m"

lemma fill_step: "i < n \<Longrightarrow> fill b g i n m = fill b g (Suc i) n (m(pg_slot b (of_nat i) := g (of_nat i)))"
  by (simp add: fill_def upt_conv_Cons)

lemma fill_empty: "fill b g n n m = m"
  by (simp add: fill_def)

lemma slot_inj: "i < 1073741824 \<Longrightarrow> j < 1073741824 \<Longrightarrow> pg_slot b (of_nat i) = pg_slot b (of_nat j) \<longleftrightarrow> i = j"
proof -
  assume i: "i < 1073741824" and j: "j < 1073741824"
  have "pg_slot b (of_nat i) = pg_slot b (of_nat j) \<longleftrightarrow> (of_nat (4 * i) :: u32) = of_nat (4 * j)"
    by (simp add: pg_slot_def)
  also have "\<dots> \<longleftrightarrow> 4 * i = 4 * j" by (rule of_nat_eq_word) (use i j in simp_all)
  finally show ?thesis by simp
qed

lemma fill_other: "(\<And>j. i \<le> j \<Longrightarrow> j < n \<Longrightarrow> a \<noteq> pg_slot b (of_nat j)) \<Longrightarrow> fill b g i n m a = m a"
proof (induction "n - i" arbitrary: i m)
  case 0
  then show ?case by (simp add: fill_def)
next
  case (Suc x)
  then have i: "i < n" by simp
  have "fill b g (Suc i) n (m(pg_slot b (of_nat i) := g (of_nat i))) a = (m(pg_slot b (of_nat i) := g (of_nat i))) a"
    by (rule Suc.hyps(1)) (use Suc in auto)
  with Suc.prems [of i] i show ?case by (simp add: fill_step)
qed

lemma fill_hit:
  "i \<le> j \<Longrightarrow> j < n \<Longrightarrow> n \<le> 1073741824 \<Longrightarrow> fill b g i n m (pg_slot b (of_nat j)) = g (of_nat j)"
proof (induction "n - i" arbitrary: i m)
  case (Suc x)
  then have i: "i < n" by simp
  show ?case
  proof (cases "j = i")
    case True
    have "pg_slot b (of_nat i) \<noteq> pg_slot b (of_nat k)" if "Suc i \<le> k" "k < n" for k
      using that Suc.prems(3) i by (subst slot_inj) auto
    then have "fill b g (Suc i) n (m(pg_slot b (of_nat i) := g (of_nat i))) (pg_slot b (of_nat i))
        = (m(pg_slot b (of_nat i) := g (of_nat i))) (pg_slot b (of_nat i))"
      by (intro fill_other) auto
    then show ?thesis using True i by (simp add: fill_step)
  next
    case False
    then have "fill b g (Suc i) n (m(pg_slot b (of_nat i) := g (of_nat i))) (pg_slot b (of_nat j)) = g (of_nat j)"
      using Suc.prems by (intro Suc.hyps(1)) (use Suc.hyps(2) in auto)
    then show ?thesis using i by (simp add: fill_step)
  qed
qed simp

lemma pg_map_loop_fill:
  "i \<le> n \<Longrightarrow> n \<le> 8192 \<Longrightarrow> pg_map_loop (of_nat i) (of_nat n) attr m
    = (of_nat n, fill PG_TAB_K (\<lambda>j. push_bit 12 j OR attr) i n m)"
proof (induction "n - i" arbitrary: i m)
  case 0
  then show ?case by (subst pg_map_loop.simps) (simp add: fill_def)
next
  case (Suc x)
  then have i: "i < n" "x = n - Suc i" "Suc i \<le> n" by simp_all
  have lt: "(of_nat i :: u32) < of_nat n" using of_nat_less_word [of i n] i Suc.prems by simp
  show ?case
    using Suc.hyps(1) [OF i(2,3) Suc.prems(2)] i(1)
    by (subst pg_map_loop.simps) (simp add: lt fill_step add.commute)
qed

lemma pg_null_loop_fill:
  "i \<le> n \<Longrightarrow> n \<le> 8192 \<Longrightarrow> pg_null_loop (of_nat i) (of_nat n) m = (of_nat n, fill PG_DIR (\<lambda>j. PG_NULL) i n m)"
proof (induction "n - i" arbitrary: i m)
  case 0
  then show ?case by (subst pg_null_loop.simps) (simp add: fill_def)
next
  case (Suc x)
  then have i: "i < n" "x = n - Suc i" "Suc i \<le> n" by simp_all
  have lt: "(of_nat i :: u32) < of_nat n" using of_nat_less_word [of i n] i Suc.prems by simp
  show ?case
    using Suc.hyps(1) [OF i(2,3) Suc.prems(2)] i(1)
    by (subst pg_null_loop.simps) (simp add: lt fill_step add.commute)
qed

lemma pg_dir_loop_fill:
  "k \<le> 8 \<Longrightarrow> pg_dir_loop (of_nat k) (of_nat (b + k)) m
    = (of_nat (b + 8), fill PG_DIR (\<lambda>i. pg_dir_entry (i - of_nat b)) (b + k) (b + 8) m)"
proof (induction "8 - k" arbitrary: k m)
  case 0
  then have "k = 8" by simp
  then show ?case by (subst pg_dir_loop.simps) (simp add: MAX_FRAME_NUM_def fill_empty)
next
  case (Suc x)
  then have k: "k < 8" "x = 8 - Suc k" "Suc k \<le> 8" by simp_all
  have lt: "(of_nat k :: u32) < drop_bit 10 MAX_FRAME_NUM"
    using of_nat_less_word [of k 8] k by (simp add: MAX_FRAME_NUM_def)
  show ?case
    using Suc.hyps(1) [OF k(2,3)] k(1)
    by (subst pg_dir_loop.simps) (simp only: lt if_True, simp add: fill_step add.commute add.left_commute)
qed

section \<open>The tables after the set-up\<close>

lemma mm_init_tables_fill:
  assumes "unat (to_fr_idx rs) \<le> unat (to_fr_idx re)" and "unat (to_fr_idx re) \<le> 8192"
  shows "mm_init_tables rs re m =
    fill PG_DIR (\<lambda>j. PG_NULL) 776 1024 (fill PG_DIR (\<lambda>i. pg_dir_entry (i - 768)) 768 776
      (fill PG_DIR (\<lambda>j. PG_NULL) 0 768
        (fill PG_TAB_K (\<lambda>j. push_bit 12 j OR (PG_PRESENT OR PG_WRITE)) (unat (to_fr_idx re)) 8192
          (fill PG_TAB_K (\<lambda>j. push_bit 12 j OR PG_PRESENT) (unat (to_fr_idx rs)) (unat (to_fr_idx re))
            (fill PG_TAB_K (\<lambda>j. push_bit 12 j OR (PG_PRESENT OR PG_WRITE)) 0 (unat (to_fr_idx rs)) m)))))"
proof -
  define a where "a = unat (to_fr_idx rs)"
  define b where "b = unat (to_fr_idx re)"
  have ab: "a \<le> b" "b \<le> 8192" using assms by (simp_all add: a_def b_def)
  have w: "to_fr_idx rs = of_nat a" "to_fr_idx re = of_nat b" "MAX_FRAME_NUM = of_nat 8192"
    "vaddr_to_dir PAGE_OFFSET = of_nat 768" "(0x400 :: u32) = of_nat 1024" "(0::u32) = of_nat 0"
    by (simp_all add: a_def b_def MAX_FRAME_NUM_def vaddr_to_dir_def PAGE_OFFSET_def)
  have l1: "pg_map_loop (of_nat 0) (of_nat a) (PG_PRESENT OR PG_WRITE) m
      = (of_nat a, fill PG_TAB_K (\<lambda>j. push_bit 12 j OR (PG_PRESENT OR PG_WRITE)) 0 a m)" for m
    using pg_map_loop_fill [of 0 a] ab by simp
  have l2: "pg_map_loop (of_nat a) (of_nat b) PG_PRESENT m
      = (of_nat b, fill PG_TAB_K (\<lambda>j. push_bit 12 j OR PG_PRESENT) a b m)" for m
    using pg_map_loop_fill [of a b] ab by simp
  have l3: "pg_map_loop (of_nat b) (of_nat 8192) (PG_PRESENT OR PG_WRITE) m
      = (of_nat 8192, fill PG_TAB_K (\<lambda>j. push_bit 12 j OR (PG_PRESENT OR PG_WRITE)) b 8192 m)" for m
    by (rule pg_map_loop_fill) (use ab in simp_all)
  have l4: "pg_null_loop (of_nat 0) (of_nat 768) m = (of_nat 768, fill PG_DIR (\<lambda>j. PG_NULL) 0 768 m)" for m
    by (rule pg_null_loop_fill) simp_all
  have l5: "pg_dir_loop (of_nat 0) (of_nat 768) m
      = (of_nat 776, fill PG_DIR (\<lambda>i. pg_dir_entry (i - 768)) 768 776 m)" for m
    using pg_dir_loop_fill [of 0 768 m] by simp
  have l6: "pg_null_loop (of_nat 776) (of_nat 1024) m = (of_nat 1024, fill PG_DIR (\<lambda>j. PG_NULL) 776 1024 m)" for m
    by (rule pg_null_loop_fill) simp_all
  show ?thesis
    unfolding mm_init_tables_def w l1 l2 l3 l4 l5 l6 Let_def prod.case a_def [symmetric] b_def [symmetric]
    using ab by (simp only: unat_small)
qed

text \<open>The table slots follow the directory slots.\<close>

lemma tab_slot: "pg_slot PG_TAB_K (of_nat j) = pg_slot PG_DIR (of_nat (1024 + j))"
  by (simp add: pg_slot_def PG_TAB_K_def PG_DIR_def to_vaddr_def)

lemma fill_dir_tab:
  "n \<le> 1024 \<Longrightarrow> j < 1000000 \<Longrightarrow> fill PG_DIR g i n m (pg_slot PG_TAB_K (of_nat j)) = m (pg_slot PG_TAB_K (of_nat j))"
  unfolding tab_slot by (rule fill_other) (subst slot_inj, auto)

lemma fill_tab_other:
  "n \<le> 8192 \<Longrightarrow> j < 1000000 \<Longrightarrow> \<not> (i \<le> j \<and> j < n) \<Longrightarrow>
    fill PG_TAB_K g i n m (pg_slot PG_TAB_K (of_nat j)) = m (pg_slot PG_TAB_K (of_nat j))"
  by (rule fill_other) (subst slot_inj, auto)

definition ro_page :: "u32 \<Rightarrow> u32 \<Rightarrow> nat \<Rightarrow> bool" where
  "ro_page rs re j \<longleftrightarrow> unat (to_fr_idx rs) \<le> j \<and> j < unat (to_fr_idx re)"

lemma table_entries:
  assumes "unat (to_fr_idx rs) \<le> unat (to_fr_idx re)" and "unat (to_fr_idx re) \<le> 8192"
  shows "j < 8192 \<Longrightarrow> mm_init_tables rs re m (pg_slot PG_TAB_K (of_nat j))
      = push_bit 12 (of_nat j) OR (if ro_page rs re j then PG_PRESENT else PG_PRESENT OR PG_WRITE)"
    and "8192 \<le> j \<Longrightarrow> j < 1000000 \<Longrightarrow> mm_init_tables rs re m (pg_slot PG_TAB_K (of_nat j))
      = m (pg_slot PG_TAB_K (of_nat j))"
    and "k < 8 \<Longrightarrow> mm_init_tables rs re m (pg_slot PG_DIR (of_nat (768 + k))) = pg_dir_entry (of_nat k)"
proof -
  define a where "a = unat (to_fr_idx rs)"
  define b where "b = unat (to_fr_idx re)"
  have ab: "a \<le> b" "b \<le> 8192" using assms by (simp_all add: a_def b_def)
  note fl = mm_init_tables_fill [OF assms, folded a_def b_def]
  show "mm_init_tables rs re m (pg_slot PG_TAB_K (of_nat j))
      = push_bit 12 (of_nat j) OR (if ro_page rs re j then PG_PRESENT else PG_PRESENT OR PG_WRITE)" if j: "j < 8192"
  proof -
    consider "j < a" | "a \<le> j" "j < b" | "b \<le> j" by linarith
    then show ?thesis
      by cases (use j ab in \<open>simp_all add: fl fill_dir_tab fill_tab_other fill_hit ro_page_def flip: a_def b_def\<close>)
  qed
  show "mm_init_tables rs re m (pg_slot PG_TAB_K (of_nat j)) = m (pg_slot PG_TAB_K (of_nat j))"
    if j: "8192 \<le> j" "j < 1000000"
    using j ab by (simp add: fl fill_dir_tab fill_tab_other)
  show "mm_init_tables rs re m (pg_slot PG_DIR (of_nat (768 + k))) = pg_dir_entry (of_nat k)" if k: "k < 8"
  proof -
    have "fill PG_DIR g 776 1024 m' (pg_slot PG_DIR (of_nat (768 + k))) = m' (pg_slot PG_DIR (of_nat (768 + k)))" for g m'
      by (rule fill_other) (subst slot_inj, use k in auto)
    moreover have "fill PG_DIR g 768 776 m' (pg_slot PG_DIR (of_nat (768 + k))) = g (of_nat (768 + k))" for g m'
      by (rule fill_hit) (use k in simp_all)
    ultimately show ?thesis unfolding fl by (simp only:) simp
  qed
qed

section \<open>Translation\<close>

lemma window_addr:
  fixes x :: u32
  assumes "unat x < 33554432"
  shows "vaddr_to_dir (PAGE_OFFSET + x) = of_nat (768 + unat x div 4194304)"
    and "vaddr_to_pg (PAGE_OFFSET + x) = of_nat (unat x div 4096 mod 1024)"
    and "vaddr_to_off (PAGE_OFFSET + x) = take_bit 12 x"
proof -
  have u: "unat (PAGE_OFFSET + x) = 3221225472 + unat x"
    using assms by (simp add: PAGE_OFFSET_def unat_word_ariths)
  have "unat (vaddr_to_dir (PAGE_OFFSET + x)) = (3221225472 + unat x) div 4194304"
    by (simp add: vaddr_to_dir_def drop_bit_eq_div unat_div u)
  also have "\<dots> = 768 + unat x div 4194304" by simp
  finally show "vaddr_to_dir (PAGE_OFFSET + x) = of_nat (768 + unat x div 4194304)"
    by (metis fno_unat)
  have "unat (vaddr_to_pg (PAGE_OFFSET + x)) = (3221225472 + unat x) div 4096 mod 1024"
    unfolding vaddr_to_pg_take by (simp only: unsigned_take_bit_eq unsigned_drop_bit_eq u) (use assms in \<open>simp add: take_bit_eq_mod drop_bit_eq_div\<close>)
  also have "(3221225472 + unat x) div 4096 = 786432 + unat x div 4096" by simp
  also have "(786432 + unat x div 4096) mod 1024 = unat x div 4096 mod 1024"
    using mod_mult_self3 [of 768 1024 "unat x div 4096"] by simp
  finally show "vaddr_to_pg (PAGE_OFFSET + x) = of_nat (unat x div 4096 mod 1024)"
    by (metis fno_unat)
  have "unat (vaddr_to_off (PAGE_OFFSET + x)) = (3221225472 + unat x) mod 4096"
    unfolding vaddr_to_off_take by (simp only: unsigned_take_bit_eq u) (simp add: take_bit_eq_mod)
  also have "\<dots> = unat x mod 4096" using mod_mult_self3 [of 786432 4096 "unat x"] by simp
  also have "\<dots> = unat (take_bit 12 x)" by (simp only: unsigned_take_bit_eq) (simp add: take_bit_eq_mod)
  finally show "vaddr_to_off (PAGE_OFFSET + x) = take_bit 12 x" by (simp add: word_unat_eq_iff)
qed

lemma entry_parts:
  assumes "attr = PG_PRESENT \<or> attr = PG_PRESENT OR PG_WRITE"
  shows "(push_bit 12 f OR attr) AND NOT 0xFFF = push_bit 12 f"
    and "(push_bit 12 f OR attr) AND PG_PRESENT \<noteq> 0"
proof -
  have m: "(0xFFF :: u32) = mask 12" by (simp add: mask_numeral)
  have low: "attr AND NOT 0xFFF = 0" using assms by (auto simp: PG_PRESENT_def PG_WRITE_def)
  have "push_bit 12 f AND NOT 0xFFF = push_bit 12 f"
    unfolding m by (intro bit_word_eqI) (auto simp: bit_and_iff bit_push_bit_iff bit_not_iff bit_mask_iff)
  with low show "(push_bit 12 f OR attr) AND NOT 0xFFF = push_bit 12 f"
    by (simp add: bit.conj_disj_distrib2)
  have "bit ((push_bit 12 f OR attr) AND PG_PRESENT) 0"
    using assms by (auto simp: PG_PRESENT_def PG_WRITE_def bit_and_iff bit_or_iff)
  then show "(push_bit 12 f OR attr) AND PG_PRESENT \<noteq> 0" by (metis bit_0_eq bot_apply bot_bool_def)
qed

lemma dir_entry_parts:
  assumes "k < 8"
  shows "pg_dir_entry (of_nat k) AND PG_PRESENT \<noteq> 0"
    and "pg_slot (to_vaddr (pg_dir_entry (of_nat k) AND NOT 0xFFF)) (of_nat i)
      = pg_slot PG_TAB_K (of_nat (4096 * k + i))"
proof -
  have e: "to_paddr (pg_slot PG_TAB_K (push_bit 12 (of_nat k))) = push_bit 12 (of_nat (4 * k + 1))"
    by (simp add: to_paddr_def pg_slot_def PG_TAB_K_def to_vaddr_def push_bit_eq_mult)
  have d: "pg_dir_entry (of_nat k) = push_bit 12 (of_nat (4 * k + 1)) OR (PG_PRESENT OR PG_WRITE)"
    unfolding pg_dir_entry_def e by (simp add: or.assoc)
  note parts = entry_parts [of "PG_PRESENT OR PG_WRITE" "of_nat (4 * k + 1)"]
  show "pg_dir_entry (of_nat k) AND PG_PRESENT \<noteq> 0" unfolding d using parts(2) by simp
  have "pg_dir_entry (of_nat k) AND NOT 0xFFF = push_bit 12 (of_nat (4 * k + 1))"
    unfolding d using parts(1) by simp
  then show "pg_slot (to_vaddr (pg_dir_entry (of_nat k) AND NOT 0xFFF)) (of_nat i)
      = pg_slot PG_TAB_K (of_nat (4096 * k + i))"
    by (simp add: pg_slot_def PG_TAB_K_def to_vaddr_def push_bit_eq_mult)
qed

lemma page_walk_window:
  assumes rs: "unat (to_fr_idx rs) \<le> unat (to_fr_idx re)" "unat (to_fr_idx re) \<le> 8192"
    and x: "unat x < 33554432"
  defines "j \<equiv> 4096 * (unat x div 4194304) + unat x div 4096 mod 1024"
  shows "page_walk (mm_init_tables rs re m) (PAGE_OFFSET + x) =
    (if j < 8192 then Some (push_bit 12 (of_nat j) OR take_bit 12 x)
     else let pte = m (pg_slot PG_TAB_K (of_nat j)) in
       if pte AND PG_PRESENT = 0 then None else Some ((pte AND NOT 0xFFF) OR take_bit 12 x))"
proof -
  define k where "k = unat x div 4194304"
  define i where "i = unat x div 4096 mod 1024"
  have k: "k < 8" using x by (simp add: k_def)
  have j: "j = 4096 * k + i" "j < 1000000" using k by (simp_all add: j_def k_def i_def)
  note w = window_addr [OF x, folded k_def i_def] and t = table_entries [OF rs]
  show ?thesis
  proof (cases "j < 8192")
    case True
    have "page_walk (mm_init_tables rs re m) (PAGE_OFFSET + x) = Some (push_bit 12 (of_nat j) OR take_bit 12 x)"
      unfolding page_walk_def w t(3) [OF k] Let_def dir_entry_parts(2) [OF k] j(1) [symmetric] t(1) [OF True]
      using dir_entry_parts(1) [OF k] entry_parts [of _ "of_nat j"] by simp
    with True show ?thesis by simp
  next
    case False
    then have ge: "8192 \<le> j" by simp
    show ?thesis
      unfolding page_walk_def w t(3) [OF k] Let_def dir_entry_parts(2) [OF k] j(1) [symmetric] t(2) [OF ge j(2)]
      using dir_entry_parts(1) [OF k] False by simp
  qed
qed

lemma join_page: "push_bit 12 (of_nat (unat x div 4096 + c)) OR take_bit 12 x = (x + push_bit 12 (of_nat c) :: u32)"
proof -
  have "push_bit 12 (of_nat (unat x div 4096 + c)) AND take_bit 12 x = (0 :: u32)"
    by (rule bit_word_eqI) (auto simp: bit_and_iff bit_push_bit_iff bit_take_bit_iff)
  then have "push_bit 12 (of_nat (unat x div 4096 + c)) OR take_bit 12 x
      = (push_bit 12 (of_nat (unat x div 4096 + c)) + take_bit 12 x :: u32)"
    by (simp add: disjunctive_add_eq_or)
  moreover have "(push_bit 12 (of_nat (unat x div 4096)) + take_bit 12 x :: u32) = x"
  proof -
    have "(of_nat (unat x div 4096) :: u32) = drop_bit 12 x"
      by (simp add: word_unat_eq_iff drop_bit_eq_div unat_div unsigned_of_nat take_bit_nat_eq_self
          order_le_less_trans [OF div_le_dividend u32_lt])
    then show ?thesis by (simp add: bits_ident)
  qed
  ultimately show ?thesis by (simp add: push_bit_add algebra_simps)
qed


section \<open>The frame table and the memory map\<close>

lemma frame_init_loop_spec:
  assumes "i \<le> 8192"
  shows "\<exists>s'. frame_init_loop (of_nat i) s = Some s' \<and> buddy_dir_lock s' = buddy_dir_lock s \<and>
    (\<forall>j<8192. frame_at j s' = (if i \<le> j then (frame_at j s)\<lparr>ref_cnt := 0, flag := 0xF, bkt_desc := 0\<rparr>
      else frame_at j s))"
  using assms
proof (induction "8192 - i" arbitrary: i s)
  case 0
  then have "i = 8192" by simp
  then have "frame_init_loop (of_nat i) s = Some s"
    by (subst frame_init_loop.simps) (simp add: MAX_FRAME_NUM_def)
  with 0 show ?case by (intro exI [of _ s]) auto
next
  case (Suc x)
  then have i: "i < 8192" "x = 8192 - Suc i" "Suc i \<le> 8192" by simp_all
  let ?g = "\<lambda>f. f\<lparr>ref_cnt := 0, flag := 0xF, bkt_desc := 0\<rparr>"
  let ?s = "(put_frame i (?g (frame_at i s)) s)\<lparr>chains := list_node_init (FrChain (of_nat i)) (chains s)\<rparr>"
  have step: "frame_init_loop (of_nat i) s = frame_init_loop (of_nat (Suc i)) ?s"
    by (subst frame_init_loop.simps) (simp add: fno_ok [OF i(1)] op_norm(2) [OF i(1)] add.commute)
  obtain s' where s': "frame_init_loop (of_nat (Suc i)) ?s = Some s'" "buddy_dir_lock s' = buddy_dir_lock ?s"
    "\<forall>j<8192. frame_at j s' = (if Suc i \<le> j then ?g (frame_at j ?s) else frame_at j ?s)"
    using Suc.hyps(1) [OF i(2,3)] by blast
  have fr: "frame_at j ?s = frame_at j (put_frame i (?g (frame_at i s)) s)" for j
    by (simp add: frame_at_def)
  have "frame_at j s' = (if i \<le> j then ?g (frame_at j s) else frame_at j s)" if "j < 8192" for j
    using s'(3) that i(1) unfolding fr by (cases "j = i") (auto simp: frame_at_put)
  then show ?case using step s'(1,2) by (intro exI [of _ s']) simp
qed

lemma frame_init_fresh:
  assumes "buddy_dir_lock s = 0" and "\<And>j. j < 8192 \<Longrightarrow> fr_lock (frame_at j s) = 0"
  shows "\<exists>s'. frame_init_loop 0 s = Some s' \<and> fresh_mm s'"
proof -
  obtain s' where s': "frame_init_loop (of_nat 0) s = Some s'" "buddy_dir_lock s' = buddy_dir_lock s"
    "\<forall>j<8192. frame_at j s' = (if 0 \<le> j then (frame_at j s)\<lparr>ref_cnt := 0, flag := 0xF, bkt_desc := 0\<rparr>
      else frame_at j s)"
    using frame_init_loop_spec [of 0 s] by blast
  then have "fresh_mm s'"
    using assms by (auto simp: fresh_mm_def buddy_is_valid_def BUDDY_VALID_def)
  with s'(1) show ?thesis by auto
qed

lemma first_4MB_walk:
  assumes "unat (to_fr_idx rs) \<le> unat (to_fr_idx re)" and "unat (to_fr_idx re) \<le> 8192"
    and "unat x < 4194304"
  shows "page_walk (mm_init_tables rs re m) (PAGE_OFFSET + x) = Some x"
proof -
  have idx: "4096 * (unat x div 4194304) + unat x div 4096 mod 1024 = unat x div 4096" "unat x div 4096 < 8192"
    using assms(3) by simp_all
  have "page_walk (mm_init_tables rs re m) (PAGE_OFFSET + x)
      = Some (push_bit 12 (of_nat (unat x div 4096)) OR take_bit 12 x)"
    using page_walk_window [OF assms(1,2), of x m] assms(3) idx by simp
  then show ?thesis using join_page [of x 0] by simp
qed

section \<open>Properties\<close>

text \<open>C6. After \<open>mm_init\<close> has written the tables, every address in the first 4 MB of the kernel
  window translates to the physical address it is meant to: the virtual address less
  \<open>PAGE_OFFSET\<close>, wherever the read-only part of the kernel lies.\<close>

theorem mm_init_maps_first_4MB:
  assumes "unat (to_fr_idx rs) \<le> unat (to_fr_idx re)" and "unat (to_fr_idx re) \<le> 8192"
    and "unat x < 4194304"
  shows "page_walk (mm_init_tables rs re m) (PAGE_OFFSET + x) = Some x"
  by (rule first_4MB_walk [OF assms])

theorem mm_init_maps_first_4MB_witness:
  "page_walk (mm_init_tables 0x100000 0x200000 (\<lambda>_. 0)) (PAGE_OFFSET + 0x123456) = Some 0x123456"
  by (rule mm_init_maps_first_4MB) (simp_all add: to_fr_idx_def)

text \<open>The directory entry of the second 4 MB points 0x4000 behind the first table instead of
  0x1000 (the offset \<open>k<<12\<close> is added to a \<open>uint32_t\<close> pointer, so it counts words):
  these addresses translate to the physical range that starts at 16 MB instead of 4 MB.\<close>

theorem mm_init_misplaces_second_4MB:
  assumes "unat (to_fr_idx rs) \<le> unat (to_fr_idx re)" and "unat (to_fr_idx re) \<le> 8192"
    and "4194304 \<le> unat x" and "unat x < 8388608"
  shows "page_walk (mm_init_tables rs re m) (PAGE_OFFSET + x) = Some (x + 0xC00000)"
proof -
  define p where "p = unat x div 4096"
  have q: "unat x div 4194304 = 1" using assms(3,4) by simp
  have p: "1024 \<le> p" "p < 2048" using assms(3,4) by (simp_all add: p_def)
  have "p mod 1024 = p - 1024" using p by (simp add: mod_if)
  then have idx: "4096 * (unat x div 4194304) + unat x div 4096 mod 1024 = p + 3072" "p + 3072 < 8192"
    using p unfolding q by (simp_all flip: p_def)
  have "page_walk (mm_init_tables rs re m) (PAGE_OFFSET + x)
      = Some (push_bit 12 (of_nat (p + 3072)) OR take_bit 12 x)"
    using page_walk_window [OF assms(1,2), of x m] assms(4) unfolding idx(1) using idx(2) by simp
  also have "push_bit 12 (of_nat (p + 3072)) OR take_bit 12 x = x + push_bit 12 (of_nat 3072)"
    unfolding p_def by (rule join_page)
  finally show ?thesis by simp
qed

theorem mm_init_misplaces_second_4MB_witness:
  "page_walk (mm_init_tables 0x100000 0x200000 (\<lambda>_. 0)) (PAGE_OFFSET + 0x400000) = Some 0x1000000"
  using mm_init_misplaces_second_4MB [of "0x100000" "0x200000" "0x400000" "\<lambda>_. 0"]
  by (simp add: to_fr_idx_def)

text \<open>In the page tables that are reached, exactly the pages of the read-only part of the kernel
  are mapped without the write bit.\<close>

theorem mm_init_protects_ro:
  assumes "unat (to_fr_idx rs) \<le> unat (to_fr_idx re)" and "unat (to_fr_idx re) \<le> 8192" and "j < 8192"
  shows "mm_init_tables rs re m (pg_slot PG_TAB_K (of_nat j)) AND PG_WRITE = 0 \<longleftrightarrow>
    unat (to_fr_idx rs) \<le> j \<and> j < unat (to_fr_idx re)"
proof -
  have w: "bit PG_WRITE n \<longleftrightarrow> n = 1" for n
    using bit_exp_word [where 'a = 32, of 1 n] by (simp add: PG_WRITE_def)
  have "push_bit 12 f AND PG_WRITE = 0" for f :: u32
    by (rule bit_word_eqI) (auto simp: w bit_and_iff bit_push_bit_iff)
  moreover have "(f OR PG_PRESENT) AND PG_WRITE = f AND PG_WRITE"
    "(f OR (PG_PRESENT OR PG_WRITE)) AND PG_WRITE \<noteq> 0" for f :: u32
    by (simp_all add: bit.conj_disj_distrib2 PG_PRESENT_def PG_WRITE_def)
  ultimately show ?thesis
    unfolding table_entries(1) [OF assms] by (simp add: ro_page_def)
qed

theorem mm_init_protects_ro_witness:
  "mm_init_tables 0x100000 0x101000 (\<lambda>_. 0) (pg_slot PG_TAB_K (of_nat 256)) AND PG_WRITE = 0"
  using mm_init_protects_ro [of "0x100000" "0x101000" 256 "\<lambda>_. 0"] by (simp add: to_fr_idx_def)

text \<open>With one memory-map entry for the region the kernel was loaded at, \<open>mm_init\<close> returns, and
  exactly the frames from the end of the kernel to the end of the region are free.\<close>

theorem mm_init_frees_region:
  assumes locks: "buddy_dir_lock s = 0" "\<And>j. j < 8192 \<Longrightarrow> fr_lock (frame_at j s) = 0"
    and ke: "to_paddr kern_end = fr_paddr (of_nat lo)" "0 < lo"
    and len: "length_low e = (fr_paddr (of_nat lo) - kern_start) + push_bit 12 (of_nat n)"
    and n: "lo + n \<le> 8192" "1024 - lo mod 1024 \<le> n"
    and e: "base_addr_low e = kern_start" "\<And>e'. e' \<in> set es1 \<union> set es2 \<Longrightarrow> base_addr_low e' \<noteq> kern_start"
  shows "\<exists>m' s'. mm_init kern_start kern_end ro_start ro_end (es1 @ e # es2) m s = Some (m', s') \<and>
    m' = mm_init_tables (to_paddr ro_start) (to_paddr ro_end) m \<and>
    buddy_inv s' \<and> free_frames s' = {lo..<lo + n}"
proof -
  obtain s1 where s1: "frame_init_loop 0 s = Some s1" "fresh_mm s1"
    using frame_init_fresh locks by blast
  obtain s' where s': "buddy_init (fr_paddr (of_nat lo)) (of_nat n) s1 = Some (True, s')" "buddy_inv s'"
    "free_frames s' = {lo..<lo + n}"
  proof -
    obtain s' fl where s': "buddy_init (fr_paddr (fno lo)) (of_nat n) s1 = Some (True, s')"
      "rep {} lo (lo + n) s' (init_blocks lo n) fl" "buddy_dir_lock s' = 0"
      "buddy_start_addr s' = fr_paddr (fno lo)" "buddy_end_addr s' = fr_paddr (fno (lo + n))"
      using buddy_init_spec [OF s1(2) n] by blast
    from buddy_invI [OF s'(2,3) ke(2) _ s'(4,5)] s'(1) init_blocks_covered [OF n(2)] that
    show thesis by (simp add: free_frames_def)
  qed
  have skip: "mmap_scan kern_start (fr_paddr (of_nat lo)) (es @ rest) t
      = mmap_scan kern_start (fr_paddr (of_nat lo)) rest t"
    if "\<And>e'. e' \<in> set es \<Longrightarrow> base_addr_low e' \<noteq> kern_start" for es rest t
    using that by (induction es) auto
  have "signed_drop_bit 12 (push_bit 12 (of_nat n) :: u32) = of_nat n"
  proof -
    have "push_bit 12 (of_nat n :: u32) = of_nat (4096 * n)" by (simp add: push_bit_eq_mult)
    moreover have "sint (of_nat (4096 * n) :: u32) = 4096 * int n"
      using sint_small [of "4096 * n"] n(1) by simp
    ultimately have "sint (signed_drop_bit 12 (push_bit 12 (of_nat n) :: u32)) = int n"
      by (simp add: sint_signed_drop_bit_eq drop_bit_eq_div)
    moreover have "sint (of_nat n :: u32) = int n" using n(1) by (intro sint_small) simp
    ultimately show ?thesis by (metis signed_word_eqI)
  qed
  then have "mmap_scan kern_start (fr_paddr (of_nat lo)) (es1 @ e # es2) s1 = Some s'"
    using skip [of es1 "e # es2" s1] skip [of es2 "[]" s'] e len s'(1) by (simp add: Let_def)
  then show ?thesis using s1(1) s'(2,3) by (simp add: mm_init_def ke(1))
qed

theorem mm_init_frees_region_witness:
  "\<exists>m' s'. mm_init 0x100000 0xC03FC000 0xC0100000 0xC0110000
      ([] @ \<lparr>base_addr_low = 0x100000, length_low = 0x300000\<rparr> # []) (\<lambda>_. 0) mm_boot = Some (m', s') \<and>
    m' = mm_init_tables (to_paddr 0xC0100000) (to_paddr 0xC0110000) (\<lambda>_. 0) \<and>
    buddy_inv s' \<and> free_frames s' = {1020..<1020 + 4}"
  by (rule mm_init_frees_region)
    (simp_all add: mm_boot_def frame_at_def to_paddr_def fr_paddr_def PAGE_OFFSET_def)

end
