(* ===== verification/Kmalloc.thy ===== *)
theory Kmalloc
  imports BuddySafe
begin

text \<open>
  The allocator of small objects of \<open>lib/kmalloc.c\<close>. The pages with objects and the pages with bucket
  descriptors are one memory of words, addressed by byte addresses: a free object holds the address of the
  next one, an object in a cache the addresses of its neighbours, and a \<open>bucket_desc\<close> is the four words at its
  address, \<open>ref_cnt\<close> and \<open>obj_size\<close> the halves of the last. The two directories are arrays of eleven entries.

  A \<^term>\<open>None\<close> is an index outside an array, a lock that is already held, an endless loop, or \<open>panic\<close>.
  Calls of \<open>error_log\<close> are kept in a list. The \<open>chain\<close> members of the frames that hold descriptors, which are on no list
  of the buddy system, are a list heap of their own whose head \<^term>\<open>None\<close> is \<open>free_bucket_frames_head\<close>.
\<close>

section \<open>The state\<close>

record dir_desc =
  dir_obj_size :: u16
  dir_list_len :: u16
  dir_chain :: u32
  dir_lock :: u8

record cache_desc =
  ch_obj_size :: u16
  ch_list_len :: u16
  ch_object :: u32
  ch_lock :: u8

record km_state =
  km_mm :: mm_state
  words :: "u32 \<Rightarrow> u32"
  bucket_dir :: "nat \<Rightarrow> dir_desc"
  cache_dir :: "nat \<Rightarrow> cache_desc"
  free_bucket_frames :: "u32 option list_heap"
  free_bucket_desc :: u32
  free_bucket_lock :: u8
  km_log :: "(string \<times> string) list"

definition CACHE_THRESHOLD :: int where "CACHE_THRESHOLD = 0"

definition poke :: "u32 \<Rightarrow> u32 \<Rightarrow> km_state \<Rightarrow> km_state" where
  "poke a v s = s\<lparr>words := (words s)(a := v)\<rparr>"

text \<open>The macros \<open>prev\<close> and \<open>next\<close> on the objects of a cache.\<close>

definition obj_prev :: "km_state \<Rightarrow> u32 \<Rightarrow> u32" where "obj_prev s c = words s c"
definition obj_next :: "km_state \<Rightarrow> u32 \<Rightarrow> u32" where "obj_next s c = words s (c + 4)"

text \<open>The members of the \<open>bucket_desc\<close> at an address.\<close>

definition bk_page :: "km_state \<Rightarrow> u32 \<Rightarrow> u32" where "bk_page s d = words s d"
definition bk_next :: "km_state \<Rightarrow> u32 \<Rightarrow> u32" where "bk_next s d = words s (d + 4)"
definition bk_free_ptr :: "km_state \<Rightarrow> u32 \<Rightarrow> u32" where "bk_free_ptr s d = words s (d + 8)"
definition bk_ref_cnt :: "km_state \<Rightarrow> u32 \<Rightarrow> u16" where "bk_ref_cnt s d = ucast (words s (d + 12))"
definition bk_obj_size :: "km_state \<Rightarrow> u32 \<Rightarrow> u16" where "bk_obj_size s d = ucast (drop_bit 16 (words s (d + 12)))"

definition set_bk_counts :: "u32 \<Rightarrow> u16 \<Rightarrow> u16 \<Rightarrow> km_state \<Rightarrow> km_state" where
  "set_bk_counts d rc sz = poke (d + 12) (push_bit 16 (ucast sz) OR ucast rc)"

definition set_bk_ref_cnt :: "u32 \<Rightarrow> u16 \<Rightarrow> km_state \<Rightarrow> km_state" where
  "set_bk_ref_cnt d rc s = set_bk_counts d rc (bk_obj_size s d) s"

definition set_bk_obj_size :: "u32 \<Rightarrow> u16 \<Rightarrow> km_state \<Rightarrow> km_state" where
  "set_bk_obj_size d sz s = set_bk_counts d (bk_ref_cnt s d) sz s"

text \<open>The assignment of a whole \<open>bucket_desc\<close>.\<close>

definition bk_copy :: "u32 \<Rightarrow> u32 \<Rightarrow> km_state \<Rightarrow> km_state" where
  "bk_copy d e s = poke (d + 12) (words s (e + 12)) (poke (d + 8) (words s (e + 8))
     (poke (d + 4) (words s (e + 4)) (poke d (words s e) s)))"

definition upd_dir :: "nat \<Rightarrow> (dir_desc \<Rightarrow> dir_desc) \<Rightarrow> km_state \<Rightarrow> km_state" where
  "upd_dir i f s = s\<lparr>bucket_dir := (bucket_dir s)(i := f (bucket_dir s i))\<rparr>"

definition upd_cache :: "nat \<Rightarrow> (cache_desc \<Rightarrow> cache_desc) \<Rightarrow> km_state \<Rightarrow> km_state" where
  "upd_cache i f s = s\<lparr>cache_dir := (cache_dir s)(i := f (cache_dir s i))\<rparr>"

definition lock_cache :: "nat \<Rightarrow> km_state \<Rightarrow> km_state option" where
  "lock_cache i s = do { l \<leftarrow> spin_lock (ch_lock (cache_dir s i)); Some (upd_cache i (\<lambda>c. c\<lparr>ch_lock := l\<rparr>) s) }"

definition unlock_cache :: "nat \<Rightarrow> km_state \<Rightarrow> km_state" where
  "unlock_cache i = upd_cache i (\<lambda>c. c\<lparr>ch_lock := spin_unlock (ch_lock c)\<rparr>)"

definition lock_bucket :: "nat \<Rightarrow> km_state \<Rightarrow> km_state option" where
  "lock_bucket i s = do { l \<leftarrow> spin_lock (dir_lock (bucket_dir s i)); Some (upd_dir i (\<lambda>b. b\<lparr>dir_lock := l\<rparr>) s) }"

definition unlock_bucket :: "nat \<Rightarrow> km_state \<Rightarrow> km_state" where
  "unlock_bucket i = upd_dir i (\<lambda>b. b\<lparr>dir_lock := spin_unlock (dir_lock b)\<rparr>)"

definition lock_free_bucket :: "km_state \<Rightarrow> km_state option" where
  "lock_free_bucket s = do { l \<leftarrow> spin_lock (free_bucket_lock s); Some (s\<lparr>free_bucket_lock := l\<rparr>) }"

definition unlock_free_bucket :: "km_state \<Rightarrow> km_state" where
  "unlock_free_bucket s = s\<lparr>free_bucket_lock := spin_unlock (free_bucket_lock s)\<rparr>"

definition km_error :: "string \<Rightarrow> string \<Rightarrow> km_state \<Rightarrow> km_state" where
  "km_error ty msg s = s\<lparr>km_log := km_log s @ [(ty, msg)]\<rparr>"

text \<open>A call of the frame allocator, and the entry of a frame for the bucket of its page.\<close>

definition on_frames :: "(mm_state \<Rightarrow> ('a \<times> mm_state) option) \<Rightarrow> km_state \<Rightarrow> ('a \<times> km_state) option" where
  "on_frames f s = do { (r, m) \<leftarrow> f (km_mm s); Some (r, s\<lparr>km_mm := m\<rparr>) }"

definition set_frame_bucket :: "u32 \<Rightarrow> u32 \<Rightarrow> km_state \<Rightarrow> km_state option" where
  "set_frame_bucket fr d s = do { m \<leftarrow> upd_frame fr (\<lambda>f. f\<lparr>bkt_desc := d\<rparr>) (km_mm s); Some (s\<lparr>km_mm := m\<rparr>) }"

definition set_frame_bucket_locked :: "u32 \<Rightarrow> u32 \<Rightarrow> km_state \<Rightarrow> km_state option" where
  "set_frame_bucket_locked fr d s = do {
     m \<leftarrow> lock_frame fr (km_mm s);
     m \<leftarrow> upd_frame fr (\<lambda>f. f\<lparr>bkt_desc := d\<rparr>) m;
     m \<leftarrow> unlock_frame fr m;
     Some (s\<lparr>km_mm := m\<rparr>) }"

section \<open>Descriptors\<close>

partial_function (option) bucket_init_loop :: "u32 \<Rightarrow> u32 \<Rightarrow> km_state \<Rightarrow> km_state option" where
  "bucket_init_loop lo d s =
    (let d = d - 16 in if d \<ge> lo then bucket_init_loop lo d (poke (d + 4) (d + 16) s) else Some s)"

definition bucket_init :: "km_state \<Rightarrow> km_state option" where
  "bucket_init s = do {
     (d, s) \<leftarrow> on_frames alloc_page s;
     if d = 0 then None
     else do {
       let s = s\<lparr>free_bucket_desc := d\<rparr>;
       let fr = to_fr_idx (to_paddr d);
       s \<leftarrow> (if fr < MAX_FRAME_NUM
         then Some (s\<lparr>free_bucket_frames := list_add_tail (Some fr) None (free_bucket_frames s)\<rparr>) else None);
       let e = d + 16 * (PAGE_SIZE div 16 - 1);
       let s = poke (e + 4) 0 s;
       bucket_init_loop (free_bucket_desc s) e s } }"

section \<open>Allocation\<close>

text \<open>The search of a directory for the class of a size; a size above 65535 runs off the array.\<close>

fun bucket_class :: "nat \<Rightarrow> (nat \<Rightarrow> u16) \<Rightarrow> u32 \<Rightarrow> nat \<Rightarrow> nat option" where
  "bucket_class 0 sizes len i = None"
| "bucket_class (Suc n) sizes len i = (if ucast (sizes i) < len then bucket_class n sizes len (i + 1) else Some i)"

definition cache_take :: "nat \<Rightarrow> km_state \<Rightarrow> u32 \<times> km_state" where
  "cache_take i s =
    (let ret = ch_object (cache_dir s i);
         s = upd_cache i (\<lambda>c. c\<lparr>ch_list_len := ch_list_len c - 1\<rparr>) s;
         s = (if ch_list_len (cache_dir s i) = 0 then upd_cache i (\<lambda>c. c\<lparr>ch_object := 0\<rparr>) s
              else let s = poke (obj_prev s ret + 4) (obj_next s ret) s;
                       s = poke (obj_next s ret) (obj_prev s ret) s
                   in upd_cache i (\<lambda>c. c\<lparr>ch_object := obj_next s ret\<rparr>) s);
         s = unlock_cache i s
     in (ret, poke (ret + 4) 0 (poke ret 0 s)))"

partial_function (option) bucket_find :: "u32 \<Rightarrow> km_state \<Rightarrow> u32 \<Rightarrow> u32 option" where
  "bucket_find chain s d =
    (if bk_free_ptr s d = 0 \<and> bk_next s d \<noteq> chain then bucket_find chain s (bk_next s d) else Some d)"

fun page_init :: "nat \<Rightarrow> u32 \<Rightarrow> u32 \<Rightarrow> km_state \<Rightarrow> km_state" where
  "page_init 0 step p s = poke p 0 s"
| "page_init (Suc n) step p s = page_init n step (p + step) (poke p (p + step) s)"

text \<open>A descriptor from the free list, filling that list first when it is empty.\<close>

definition desc_take :: "km_state \<Rightarrow> (u32 \<times> km_state) option" where
  "desc_take s = do {
     s \<leftarrow> lock_free_bucket s;
     s \<leftarrow> (if free_bucket_desc s = 0 then bucket_init s else Some s);
     let d = free_bucket_desc s;
     let s = s\<lparr>free_bucket_desc := bk_next s (free_bucket_desc s)\<rparr>;
     Some (d, unlock_free_bucket s) }"

text \<open>A bucket with a new page: the first descriptor of the ring gets it, its old contents move to the new descriptor.\<close>

definition bucket_link :: "nat \<Rightarrow> u32 \<Rightarrow> km_state \<Rightarrow> (u32 \<times> km_state) option" where
  "bucket_link i d s = (let nxt = dir_chain (bucket_dir s i) in
     if nxt \<noteq> 0
     then do {
       let s = bk_copy d nxt s;
       let s = poke (nxt + 4) d s;
       s \<leftarrow> set_frame_bucket_locked (to_fr_idx (to_paddr (bk_page s nxt))) d s;
       Some (nxt, upd_dir i (\<lambda>b. b\<lparr>dir_list_len := dir_list_len b + 1\<rparr>) s) }
     else Some (d, upd_dir i (\<lambda>b. b\<lparr>dir_list_len := dir_list_len b + 1\<rparr>) (upd_dir i (\<lambda>b. b\<lparr>dir_chain := d\<rparr>) (poke (d + 4) d s))))"

definition bucket_fill :: "nat \<Rightarrow> u32 \<Rightarrow> km_state \<Rightarrow> km_state option" where
  "bucket_fill i d s = do {
     (page, s) \<leftarrow> on_frames alloc_page s;
     let s = poke d page s;
     let s = poke (d + 8) (bk_page s d) s;
     let s = set_bk_ref_cnt d 0 s;
     let s = set_bk_obj_size d (dir_obj_size (bucket_dir s i)) s;
     s \<leftarrow> set_frame_bucket (to_fr_idx (to_paddr (bk_page s d))) d s;
     let sz = dir_obj_size (bucket_dir s i);
     Some (page_init (unat PAGE_SIZE div unat sz - 1) (4 * drop_bit 2 (ucast sz)) (bk_page s d) s) }"

definition bucket_new :: "nat \<Rightarrow> km_state \<Rightarrow> (u32 \<times> km_state) option" where
  "bucket_new i s = do {
     (d, s) \<leftarrow> desc_take s;
     (d, s) \<leftarrow> bucket_link i d s;
     s \<leftarrow> bucket_fill i d s;
     Some (d, s) }"

definition kmalloc :: "u32 \<Rightarrow> km_state \<Rightarrow> (u32 \<times> km_state) option" where
  "kmalloc len s = do {
     i \<leftarrow> bucket_class 11 (\<lambda>i. dir_obj_size (bucket_dir s i)) len 0;
     s \<leftarrow> lock_cache i s;
     if ch_list_len (cache_dir s i) > 0 then Some (cache_take i s)
     else do {
       let s = unlock_cache i s;
       if dir_obj_size (bucket_dir s i) = - 1
       then Some (0, km_error ''Kmalloc'' ''Try to alloc block larger than 4KB.'' s)
       else do {
         s \<leftarrow> lock_bucket i s;
         let chain = dir_chain (bucket_dir s i);
         d \<leftarrow> (if chain \<noteq> 0 then bucket_find chain s chain else Some 0);
         (d, s) \<leftarrow> (if d = 0 \<or> bk_free_ptr s d = 0 then bucket_new i s else Some (d, s));
         let ret = bk_free_ptr s d;
         let s = poke (d + 8) (words s ret) s;
         let s = set_bk_ref_cnt d (bk_ref_cnt s d + 1) s;
         let s = unlock_bucket i s;
         Some (ret, poke ret 0 s) } } }"

section \<open>Release\<close>

definition cache_put :: "nat \<Rightarrow> u32 \<Rightarrow> km_state \<Rightarrow> km_state" where
  "cache_put i va s =
    (let obj = ch_object (cache_dir s i);
         s = (if obj = 0 then poke va va (poke (va + 4) va s)
              else let s = poke (va + 4) obj s;
                       s = poke va (obj_prev s obj) s;
                       s = poke (obj_prev s obj + 4) va s
                   in poke obj va s);
         s = upd_cache i (\<lambda>c. c\<lparr>ch_object := va\<rparr>) s
     in upd_cache i (\<lambda>c. c\<lparr>ch_list_len := ch_list_len c + 1\<rparr>) s)"

definition kfree :: "u32 \<Rightarrow> km_state \<Rightarrow> km_state option" where
  "kfree va s = do {
     f \<leftarrow> get_frame (to_fr_idx (to_paddr va)) (km_mm s);
     i \<leftarrow> bucket_class 11 (\<lambda>i. ch_obj_size (cache_dir s i)) (ucast (bk_obj_size s (bkt_desc f))) 0;
     if ch_obj_size (cache_dir s i) = - 1
     then Some (km_error ''Kfree'' ''Invalid obj_size, seems something wrong in frame_tab.'' s)
     else do {
       s \<leftarrow> lock_cache i s;
       Some (unlock_cache i (cache_put i va s)) } }"

section \<open>Emptying the caches\<close>

text \<open>The oldest object of a cache.\<close>

definition cache_drop :: "nat \<Rightarrow> km_state \<Rightarrow> u32 \<times> km_state" where
  "cache_drop i s =
    (let obj = obj_prev s (ch_object (cache_dir s i));
         s = poke (obj_prev s obj + 4) (ch_object (cache_dir s i)) s;
         s = poke (ch_object (cache_dir s i)) (obj_prev s obj) s;
         s = upd_cache i (\<lambda>c. c\<lparr>ch_list_len := ch_list_len c - 1\<rparr>) s
     in (obj, if ch_list_len (cache_dir s i) = 0 then upd_cache i (\<lambda>c. c\<lparr>ch_object := 0\<rparr>) s else s))"

text \<open>A page without objects in use: its descriptor leaves the ring, or takes what the next one has, which leaves instead.\<close>

definition bucket_unlink :: "nat \<Rightarrow> u32 \<Rightarrow> km_state \<Rightarrow> (u32 \<times> km_state) option" where
  "bucket_unlink i d s = (let nxt = bk_next s d in
     if nxt \<noteq> d
     then do {
       let s = bk_copy d nxt s;
       let s = (if dir_chain (bucket_dir s i) = nxt then upd_dir i (\<lambda>b. b\<lparr>dir_chain := d\<rparr>) s else s);
       s \<leftarrow> set_frame_bucket_locked (to_fr_idx (to_paddr (bk_page s nxt))) d s;
       Some (nxt, s) }
     else Some (d, upd_dir i (\<lambda>b. b\<lparr>dir_chain := 0\<rparr>) s))"

definition bucket_drop :: "nat \<Rightarrow> u32 \<Rightarrow> km_state \<Rightarrow> km_state option" where
  "bucket_drop i d s = do {
     (_, s) \<leftarrow> on_frames (free_page (bk_page s d)) s;
     (d, s) \<leftarrow> bucket_unlink i d s;
     let s = upd_dir i (\<lambda>b. b\<lparr>dir_list_len := dir_list_len b - 1\<rparr>) s;
     s \<leftarrow> lock_free_bucket s;
     let s = poke (d + 4) (free_bucket_desc s) s;
     Some (unlock_free_bucket (s\<lparr>free_bucket_desc := d\<rparr>)) }"

text \<open>One turn of the inner loop of \<open>free_cache\<close>.\<close>

definition free_object :: "nat \<Rightarrow> km_state \<Rightarrow> km_state option" where
  "free_object i s = do {
     let (obj, s) = cache_drop i s;
     f \<leftarrow> get_frame (to_fr_idx (to_paddr obj)) (km_mm s);
     let d = bkt_desc f;
     s \<leftarrow> lock_bucket i s;
     let s = poke obj (bk_free_ptr s d) s;
     let s = poke (d + 8) (words s obj) s;
     let s = set_bk_ref_cnt d (bk_ref_cnt s d - 1) s;
     s \<leftarrow> (if bk_ref_cnt s d = 0 then bucket_drop i d s else Some s);
     Some (unlock_bucket i s) }"

definition cache_bytes :: "nat \<Rightarrow> km_state \<Rightarrow> int" where
  "cache_bytes i s = uint (ch_list_len (cache_dir s i)) * uint (ch_obj_size (cache_dir s i))"

partial_function (option) free_objects :: "nat \<Rightarrow> km_state \<Rightarrow> km_state option" where
  "free_objects i s = (if cache_bytes i s > drop_bit 2 CACHE_THRESHOLD
     then do { s \<leftarrow> free_object i s; free_objects i s } else Some s)"

fun free_caches :: "nat \<Rightarrow> nat \<Rightarrow> km_state \<Rightarrow> km_state option" where
  "free_caches 0 i s = None"
| "free_caches (Suc n) i s = (if ch_obj_size (cache_dir s i) \<noteq> - 1
     then do {
       s \<leftarrow> lock_cache i s;
       s \<leftarrow> (if cache_bytes i s > CACHE_THRESHOLD then free_objects i s else Some s);
       free_caches n (i + 1) (unlock_cache i s) }
     else Some s)"

definition free_cache :: "km_state \<Rightarrow> km_state option" where
  "free_cache s = free_caches 11 0 s"

section \<open>The state at boot\<close>

definition km_sizes :: "u16 list" where
  "km_sizes = [8, 16, 32, 64, 128, 256, 512, 1024, 2048, 4096, - 1]"

definition bucket_dir_init :: "nat \<Rightarrow> dir_desc" where
  "bucket_dir_init i = \<lparr>dir_obj_size = (if i < 11 then km_sizes ! i else 0), dir_list_len = 0, dir_chain = 0, dir_lock = SPINLOCK_FREE\<rparr>"

definition cache_dir_init :: "nat \<Rightarrow> cache_desc" where
  "cache_dir_init i = \<lparr>ch_obj_size = (if i < 11 then km_sizes ! i else 0), ch_list_len = 0, ch_object = 0, ch_lock = SPINLOCK_FREE\<rparr>"

definition km_boot :: "mm_state \<Rightarrow> (u32 \<Rightarrow> u32) \<Rightarrow> km_state" where
  "km_boot m w = \<lparr>km_mm = m, words = w, bucket_dir = bucket_dir_init, cache_dir = cache_dir_init,
     free_bucket_frames = (\<lambda>_. \<lparr>node_prev = None, node_next = None\<rparr>), free_bucket_desc = 0, free_bucket_lock = SPINLOCK_FREE, km_log = []\<rparr>"

end
