(* ===== verification/BuddyKeep.thy ===== *)
theory BuddyKeep
  imports BuddySafe
begin

text \<open>
  What the buddy system leaves alone: the bucket descriptor that \<open>kmalloc\<close> keeps in the entry of a frame.
\<close>

definition same_bkt :: "mm_state \<Rightarrow> mm_state \<Rightarrow> bool" where
  "same_bkt s s' \<longleftrightarrow> (\<forall>f. bkt_desc (frame_tab s' f) = bkt_desc (frame_tab s f))"

named_theorems bkt_keep

lemma same_bkt_refl [simp]: "same_bkt s s"
  by (simp add: same_bkt_def)

lemma same_bkt_trans: "same_bkt s t \<Longrightarrow> same_bkt t u \<Longrightarrow> same_bkt s u"
  by (simp add: same_bkt_def)

lemma bkt_flags [simp]:
  "bkt_desc (buddy_set_order od f) = bkt_desc f" "bkt_desc (set_flag b f) = bkt_desc f" "bkt_desc (clear_flag b f) = bkt_desc f"
  by (simp_all add: buddy_set_order_def set_flag_def clear_flag_def)

lemma upd_frame_bkt: "upd_frame fr g s = Some s' \<Longrightarrow> (\<And>f. bkt_desc (g f) = bkt_desc f) \<Longrightarrow> same_bkt s s'"
  by (auto simp: upd_frame_def same_bkt_def split: if_splits)

lemma lock_frame_bkt: "lock_frame fr s = Some s' \<Longrightarrow> same_bkt s s'"
  by (auto simp: lock_frame_def get_frame_def upd_frame_def same_bkt_def split: if_splits bind_splits)

lemma unlock_frame_bkt: "unlock_frame fr s = Some s' \<Longrightarrow> same_bkt s s'"
  by (auto simp: unlock_frame_def upd_frame_def same_bkt_def split: if_splits)

lemma link_bkt: "buddy_link fr od s = Some s' \<Longrightarrow> same_bkt s s'" and unlink_bkt: "buddy_unlink fr od s = Some s' \<Longrightarrow> same_bkt s s'"
  by (auto simp: buddy_link_def buddy_unlink_def same_bkt_def split: if_splits)

lemma lock_dir_bkt: "lock_dir s = Some s' \<Longrightarrow> same_bkt s s'" and unlock_dir_bkt: "same_bkt s (unlock_dir s)"
  by (auto simp: lock_dir_def unlock_dir_def same_bkt_def split: bind_splits)

lemmas keep_steps = upd_frame_bkt lock_frame_bkt unlock_frame_bkt link_bkt unlink_bkt lock_dir_bkt

text \<open>A run of steps that all leave the descriptors alone.\<close>

lemma bind_keep:
  "Option.bind m g = Some s' \<Longrightarrow> (\<And>t. m = Some t \<Longrightarrow> same_bkt s t) \<Longrightarrow> (\<And>t. m = Some t \<Longrightarrow> g t = Some s' \<Longrightarrow> same_bkt t s') \<Longrightarrow> same_bkt s s'"
  by (cases m) (auto intro: same_bkt_trans)

lemma upd_flags_bkt:
  "upd_frame fr (\<lambda>f. buddy_set_order od (set_flag b f)) s = Some s' \<Longrightarrow> same_bkt s s'"
  "upd_frame fr (\<lambda>f. buddy_set_order od (clear_flag b f)) s = Some s' \<Longrightarrow> same_bkt s s'"
  "upd_frame fr (set_flag b) s = Some s' \<Longrightarrow> same_bkt s s'"
  "upd_frame fr (buddy_set_order od) s = Some s' \<Longrightarrow> same_bkt s s'"
  by (erule upd_frame_bkt, simp)+

lemmas keep_rules = upd_flags_bkt lock_frame_bkt unlock_frame_bkt link_bkt unlink_bkt lock_dir_bkt

lemma split_bkt: "buddy_split fr order od s = Some s' \<Longrightarrow> same_bkt s s'"
  apply (erule buddy_split.raw_induct [where P = "\<lambda>fr order od s s'. same_bkt s s'", rotated])
  subgoal premises p for rec fr order od s s'
    using p(2) by (auto simp: Let_def split: if_splits elim!: bind_keep intro: keep_rules p(1))
  done

lemma take_bkt: "buddy_take f ni od sz s = Some r \<Longrightarrow> same_bkt s (snd r)"
  apply (erule buddy_take.raw_induct [where P = "\<lambda>f ni od sz s r. same_bkt s (snd r)", rotated])
  subgoal premises p for rec f ni od sz s r
    using p(2) by (auto simp: Let_def split: if_splits bind_splits dest!: keep_rules dest: p(1) intro: same_bkt_trans)
  done

lemma give_bkt: "buddy_give f ni od sz s = Some s' \<Longrightarrow> same_bkt s s'"
  apply (erule buddy_give.raw_induct [where P = "\<lambda>f ni od sz s s'. same_bkt s s'", rotated])
  subgoal premises p for rec f ni od sz s s'
    using p(2) by (auto simp: Let_def split: if_splits elim!: bind_keep intro: keep_rules p(1))
  done

lemma merge_bkt: "buddy_merge fr od s = Some r \<Longrightarrow> same_bkt s (snd (snd r))"
  apply (erule buddy_merge.raw_induct [where P = "\<lambda>fr od s r. same_bkt s (snd (snd r))", rotated])
  subgoal premises p for rec fr od s r
    using p(2) by (auto simp: Let_def split: if_splits bind_splits dest!: keep_rules p(1)) (auto simp: same_bkt_def)
  done

lemma alloc_bkt: "buddy_alloc od s = Some r \<Longrightarrow> same_bkt s (snd r)"
  using unlock_dir_bkt
  by (auto simp: buddy_alloc_def Let_def split: if_splits bind_splits dest!: keep_rules split_bkt) (auto simp: same_bkt_def)

lemma alloc_frames_bkt: "buddy_alloc_frames n s = Some r \<Longrightarrow> same_bkt s (snd r)"
  using unlock_dir_bkt
  by (auto simp: buddy_alloc_frames_def Let_def split: if_splits bind_splits option.splits
      dest!: keep_rules alloc_bkt take_bkt give_bkt) (auto simp: same_bkt_def)

lemma free_bkt: "buddy_free fr s = Some s' \<Longrightarrow> same_bkt s s'"
  using unlock_dir_bkt
  by (auto simp: buddy_free_def Let_def split: if_splits bind_splits dest!: keep_rules merge_bkt) (auto simp: same_bkt_def)

lemma free_loop_bkt: "buddy_free_loop fr ni od sz s = Some s' \<Longrightarrow> same_bkt s s'"
  apply (erule buddy_free_loop.raw_induct [where P = "\<lambda>fr ni od sz s s'. same_bkt s s'", rotated])
  subgoal premises p for rec fr ni od sz s s'
    using p(2) by (auto simp: Let_def split: if_splits elim!: bind_keep intro: free_bkt p(1))
  done

lemma page_bkt: "alloc_page s = Some r \<Longrightarrow> same_bkt s (snd r)" "free_page va s = Some q \<Longrightarrow> same_bkt s (snd q)"
  by (auto simp: alloc_page_def alloc_pages_def free_page_def free_pages_def buddy_free_frames_def Let_def
      split: if_splits bind_splits dest!: alloc_frames_bkt free_loop_bkt)

section \<open>A page for a client\<close>

text \<open>The virtual address of a frame.\<close>

definition page_addr :: "nat \<Rightarrow> u32" where
  "page_addr f = to_vaddr (fr_paddr (of_nat f))"

lemma alloc_page_step:
  assumes "buddy_inv s"
  shows "alloc_page s = Some (page_addr 0, s) \<and> free_frames s = {} \<or>
    (\<exists>f s'. alloc_page s = Some (page_addr f, s') \<and> 0 < f \<and> f < 8192 \<and> f \<in> free_frames s \<and> buddy_inv s' \<and> holds_run s' f 1
      \<and> free_frames s' = free_frames s - {f} \<and> (\<forall>j m. holds_run s j m \<longrightarrow> holds_run s' j m) \<and> same_bkt s s')"
proof -
  have "0 < (1 :: nat)" "(1 :: nat) \<le> 1024" by simp_all
  from alloc_frames_cases [OF assms this] show ?thesis
  proof (elim disjE exE conjE)
  assume a: "buddy_alloc_frames (of_nat 1) s = Some (0, s)" "\<forall>i k. block_of s i = Some (k, True) \<longrightarrow> 2 ^ k < (1 :: nat)"
  then have "free_frames s = {}" by (auto simp: free_frames_def covered_def)
  then show ?thesis using a by (simp add: alloc_page_def alloc_pages_def page_addr_def fr_paddr_def)
next
  fix f s' assume a: "buddy_alloc_frames (of_nat 1) s = Some (fr_paddr (fno f), s')" "0 < f" "f < 8192"
    "buddy_inv s'" "holds_run s' f 1" "{f..<f + 1} \<subseteq> free_frames s" "free_frames s' = free_frames s - {f..<f + 1}"
    "\<forall>j m. holds_run s j m \<longrightarrow> holds_run s' j m"
  have "same_bkt s s'" using alloc_frames_bkt [OF a(1)] by simp
  then show ?thesis using a by (auto simp: alloc_page_def alloc_pages_def page_addr_def)
  qed
qed

lemma free_page_step:
  assumes inv: "buddy_inv s" and h: "holds_run s f 1"
  obtains s' where "free_page (page_addr f) s = Some (True, s')" "buddy_inv s'" "free_frames s' = insert f (free_frames s)"
    "\<forall>j. j \<noteq> f \<longrightarrow> holds_run s j 1 \<longrightarrow> holds_run s' j 1" "same_bkt s s'"
proof -
  obtain s' where s': "buddy_free_frames (fr_paddr (of_nat f)) (of_nat 1) s = Some (True, s')" "buddy_inv s'"
    "free_frames s' = free_frames s \<union> {f..<f + 1}"
    "\<forall>j k. k \<le> 1024 \<longrightarrow> holds_run s j k \<and> {f..<f + 1} \<inter> {j..<j + k} = {} \<longrightarrow> holds_run s' j k"
    using free_frames_cases [OF inv h] by auto
  have p: "free_page (page_addr f) s = Some (True, s')"
    using s'(1) by (simp add: free_page_def free_pages_def page_addr_def)
  have "holds_run s' j 1" if "j \<noteq> f" "holds_run s j 1" for j using s'(4) that by auto
  moreover have "free_frames s' = insert f (free_frames s)" using s'(3) by auto
  ultimately show thesis using that p s'(2) page_bkt(2) [OF p] by simp
qed

lemma held_not_free: "buddy_inv s \<Longrightarrow> holds_run s f 1 \<Longrightarrow> f \<notin> free_frames s"
  using holds_run_used(1) [of s f 1] by auto

lemma finite_free: "finite (free_frames s)"
proof -
  have "free_frames s \<subseteq> (\<Union>i \<in> {first_frame s..<last_frame s}. {i..<i + 2 ^ unat (buddy_order (frame_at i s))})"
    by (force simp: free_frames_def covered_def block_of_def split: if_splits)
  then show ?thesis by (rule finite_subset) simp
qed

section \<open>The descriptor of a frame\<close>

definition mm_bkt :: "nat \<Rightarrow> u32 \<Rightarrow> mm_state \<Rightarrow> mm_state" where
  "mm_bkt f d s = put_frame f ((frame_at f s)\<lparr>bkt_desc := d\<rparr>) s"

lemma flag_bkt [simp]:
  "buddy_is_valid (f\<lparr>bkt_desc := d\<rparr>) = buddy_is_valid f" "buddy_is_free (f\<lparr>bkt_desc := d\<rparr>) = buddy_is_free f"
  "buddy_order (f\<lparr>bkt_desc := d\<rparr>) = buddy_order f" "flags_ok (f\<lparr>bkt_desc := d\<rparr>) b = flags_ok f b"
  by (simp_all add: flag_defs flags_ok_def split: option.splits)

lemma mm_bkt_frame: "frame_at j (mm_bkt f d s) = (frame_at j s)\<lparr>bkt_desc := (if fno j = fno f then d else bkt_desc (frame_at j s))\<rparr>"
  by (simp add: mm_bkt_def put_frame_def frame_at_def)

lemma mm_bkt_ends [simp]: "first_frame (mm_bkt f d s) = first_frame s" "last_frame (mm_bkt f d s) = last_frame s"
  by (simp_all add: mm_bkt_def first_frame_def last_frame_def)

lemma mm_bkt_blocks [simp]: "block_of (mm_bkt f d s) = block_of s"
  by (rule ext) (simp add: block_of_def mm_bkt_frame)

lemma mm_bkt_keep [simp]: "free_frames (mm_bkt f d s) = free_frames s" "holds_run (mm_bkt f d s) = holds_run s"
  by (simp_all add: free_frames_def holds_run_def fun_eq_iff)

lemma mm_bkt_inv [simp]: "buddy_inv s \<Longrightarrow> buddy_inv (mm_bkt f d s)"
proof -
  assume s: "buddy_inv s"
  have "rep X lo hi (mm_bkt f d s) blk fl = rep X lo hi s blk fl" for X lo hi blk fl
    by (simp add: rep_def frame_ok_def list_ok_def mm_bkt_frame) (simp add: mm_bkt_def)
  then show ?thesis using s by (simp add: buddy_inv_def) (simp add: mm_bkt_def)
qed

lemma mm_bkt_desc: "f < 8192 \<Longrightarrow> g < 8192 \<Longrightarrow>
    bkt_desc (frame_tab (mm_bkt f d s) (fno g)) = (if g = f then d else bkt_desc (frame_tab s (fno g)))"
  using mm_bkt_frame [of g f d s] by (simp add: frame_at_def fno_inj)

lemma held_frame: "buddy_inv s \<Longrightarrow> f < 8192 \<Longrightarrow> fr_lock (frame_at f s) = 0"
  by (erule buddy_invD) (rule repD(4))

end
