(* ===== verification/KmallocMem.thy ===== *)
theory KmallocMem
  imports Kmalloc BuddyKeep
begin

text \<open>
  The memory \<open>kmalloc\<close> works on: addresses in pages, slots of two words that a list node or half a descriptor takes, paths of
  pointers, and the descriptors read and written.
\<close>

section \<open>Addresses\<close>

lemma unat_page_addr: "f < 8192 \<Longrightarrow> unat (page_addr f) = 0xC0000000 + 4096 * f"
proof -
  assume f: "f < 8192"
  have "unat (of_nat f :: u32) = f" using f by (intro unat_small) simp
  then have p: "unat (fr_paddr (of_nat f)) = 4096 * f" using f unat_fr_paddr [of "of_nat f"] by simp
  show ?thesis using f p by (simp add: page_addr_def to_vaddr_def PAGE_OFFSET_def unat_word_ariths)
qed

definition in_page :: "nat \<Rightarrow> u32 \<Rightarrow> bool" where
  "in_page f a \<longleftrightarrow> (\<exists>k < 4096. a = page_addr f + of_nat k)"

lemma unat_in_page: "f < 8192 \<Longrightarrow> k < 4096 \<Longrightarrow> unat (page_addr f + of_nat k) = 0xC0000000 + 4096 * f + k"
  by (simp add: unat_word_ariths unat_page_addr unat_of_nat)

lemma in_page_unat: "in_page f a \<Longrightarrow> f < 8192 \<Longrightarrow> unat a div 4096 = 0xC0000 + f"
  by (auto simp: in_page_def unat_in_page)

lemma in_page_unique: "in_page f a \<Longrightarrow> in_page g a \<Longrightarrow> f < 8192 \<Longrightarrow> g < 8192 \<Longrightarrow> f = g"
  using in_page_unat [of f a] in_page_unat [of g a] by simp

lemma in_page_frame: "in_page f a \<Longrightarrow> f < 8192 \<Longrightarrow> to_fr_idx (to_paddr a) = of_nat f"
proof -
  assume a: "in_page f a" "f < 8192"
  then obtain k where k: "k < 4096" "a = page_addr f + of_nat k" by (auto simp: in_page_def)
  have "to_paddr a = of_nat (4096 * f + k)"
  proof (rule word_unat_eq_iff [THEN iffD2])
    have "unat (to_paddr a) = unat a - 0xC0000000"
      using unat_in_page [OF a(2) k(1)] k(2) by (simp add: to_paddr_def PAGE_OFFSET_def unat_sub_if')
    then show "unat (to_paddr a) = unat (of_nat (4096 * f + k) :: u32)"
      using unat_in_page [OF a(2) k(1)] k a(2) unat_small [of "4096 * f + k"] by simp
  qed
  then have "unat (to_fr_idx (to_paddr a)) = f"
    using k a(2) unat_small [of "4096 * f + k"] by (simp add: unat_to_fr_idx)
  then show ?thesis by (intro word_unat_eq_iff [THEN iffD2]) (use a(2) unat_small [of f] in simp)
qed

lemma frame_fits: "f < 8192 \<Longrightarrow> (of_nat f :: u32) < MAX_FRAME_NUM"
  using unat_small [of f] by (simp add: max_frame_num)

section \<open>Slots\<close>

definition slot :: "u32 \<Rightarrow> bool" where
  "slot a \<longleftrightarrow> 8 dvd unat a"

lemma slot_4: "slot a \<Longrightarrow> unat (a + 4) = unat a + 4"
proof -
  assume "slot a"
  then obtain k where k: "unat a = 8 * k" by (auto simp: slot_def)
  then have "8 * k < 4294967296" using u32_lt [of a] by simp
  then have "8 * k + 4 < 4294967296" by presburger
  then show ?thesis using k by (simp add: unat_word_ariths)
qed

lemma slot_neq: "slot a \<Longrightarrow> slot b \<Longrightarrow> a + 4 \<noteq> b" "slot a \<Longrightarrow> slot b \<Longrightarrow> a \<noteq> b + 4"
proof -
  have "a + 4 \<noteq> b" if s: "slot a" "slot b" for a b
  proof
    assume "a + 4 = b"
    then have "unat a + 4 = unat b" using slot_4 [OF s(1)] by simp
    then show False using s unfolding slot_def by presburger
  qed
  then show "slot a \<Longrightarrow> slot b \<Longrightarrow> a + 4 \<noteq> b" "slot a \<Longrightarrow> slot b \<Longrightarrow> a \<noteq> b + 4" by metis+
qed

lemma slot_8: "slot a \<Longrightarrow> slot (a + 8)"
  by (auto simp: slot_def unat_word_ariths dvd_mod)

lemma slot_page: "f < 8192 \<Longrightarrow> 8 * k < 4096 \<Longrightarrow> slot (page_addr f + of_nat (8 * k))"
  using unat_in_page [of f "8 * k"] by (simp add: slot_def)

text \<open>The objects of class \<open>i\<close> have \<open>osz i\<close> bytes.\<close>

definition osz :: "nat \<Rightarrow> nat" where
  "osz i = 8 * 2 ^ i"

definition onum :: "nat \<Rightarrow> nat" where
  "onum i = 4096 div osz i"

definition objs :: "nat \<Rightarrow> nat \<Rightarrow> u32 list" where
  "objs i f = map (\<lambda>j. page_addr f + of_nat (osz i * j)) [0..<onum i]"

definition bk_slots :: "nat \<Rightarrow> u32 list" where
  "bk_slots f = map (\<lambda>j. page_addr f + of_nat (16 * j)) [0..<256]"

lemma class_cases: "(i :: nat) < 10 \<Longrightarrow> i \<in> {0, 1, 2, 3, 4, 5, 6, 7, 8, 9}"
  by auto

lemma osz_onum: "i < 10 \<Longrightarrow> osz i * onum i = 4096" and osz_le: "i < 10 \<Longrightarrow> 8 \<le> osz i \<and> osz i \<le> 4096"
  and onum_pos: "i < 10 \<Longrightarrow> 1 \<le> onum i \<and> onum i \<le> 512"
  by (drule class_cases; auto simp: osz_def onum_def)+

lemma obj_bound: "i < 10 \<Longrightarrow> j < onum i \<Longrightarrow> osz i * j + osz i \<le> 4096"
  using osz_onum [of i] mult_le_mono2 [of "j + 1" "onum i" "osz i"] by simp

lemma obj_in_page:
  assumes "i < 10" "a \<in> set (objs i f)" "k < osz i"
  shows "in_page f (a + of_nat k)"
proof -
  obtain j where j: "j < onum i" "a = page_addr f + of_nat (osz i * j)" using assms(2) by (auto simp: objs_def)
  have "osz i * j + k < 4096" using obj_bound [OF assms(1) j(1)] assms(3) by simp
  moreover have "a + of_nat k = page_addr f + of_nat (osz i * j + k)" using j(2) by simp
  ultimately show ?thesis unfolding in_page_def by blast
qed

lemma obj_unat: "i < 10 \<Longrightarrow> f < 8192 \<Longrightarrow> j < onum i \<Longrightarrow> unat (page_addr f + of_nat (osz i * j)) = 0xC0000000 + 4096 * f + osz i * j"
  using obj_bound [of i j] osz_le [of i] by (intro unat_in_page) simp_all

lemma obj_slot: "i < 10 \<Longrightarrow> f < 8192 \<Longrightarrow> a \<in> set (objs i f) \<Longrightarrow> slot a \<and> a \<noteq> 0"
proof -
  assume i: "i < 10" "f < 8192" "a \<in> set (objs i f)"
  then obtain j where j: "j < onum i" "a = page_addr f + of_nat (osz i * j)" by (auto simp: objs_def)
  have u: "unat a = 0xC0000000 + 4096 * f + osz i * j" using obj_unat [OF i(1,2) j(1)] j(2) by simp
  then have "slot a" unfolding slot_def u by (simp add: osz_def)
  moreover have "a \<noteq> 0" using u by (auto simp del: of_nat_mult)
  ultimately show ?thesis ..
qed

lemma objs_distinct: "i < 10 \<Longrightarrow> f < 8192 \<Longrightarrow> distinct (objs i f)"
proof -
  assume i: "i < 10" "f < 8192"
  have "inj_on (\<lambda>j. page_addr f + of_nat (osz i * j)) {0..<onum i}"
  proof (rule inj_onI)
    fix x y assume x: "x \<in> {0..<onum i}" "y \<in> {0..<onum i}" "page_addr f + of_nat (osz i * x) = page_addr f + of_nat (osz i * y)"
    from arg_cong [OF x(3), of unat] have "osz i * x = osz i * y"
      using x(1,2) by (simp only: obj_unat [OF i] atLeastLessThan_iff)
    then show "x = y" using osz_le [OF i(1)] by auto
  qed
  then show ?thesis by (simp add: objs_def distinct_map)
qed

lemma objs_apart:
  assumes i: "i < 10" "f < 8192" and a: "a \<in> set (objs i f)" "b \<in> set (objs i f)" "a \<noteq> b" and k: "k < osz i" "l < osz i"
  shows "a + of_nat k \<noteq> b + of_nat l"
proof
  assume e: "a + of_nat k = b + of_nat l"
  obtain j where j: "j < onum i" "a = page_addr f + of_nat (osz i * j)" using a(1) by (auto simp: objs_def)
  obtain m where m: "m < onum i" "b = page_addr f + of_nat (osz i * m)" using a(2) by (auto simp: objs_def)
  have "unat (a + of_nat k) = 0xC0000000 + 4096 * f + (osz i * j + k)" "unat (b + of_nat l) = 0xC0000000 + 4096 * f + (osz i * m + l)"
    using obj_bound [OF i(1) j(1)] obj_bound [OF i(1) m(1)] k unat_in_page [OF i(2), of "osz i * j + k"]
      unat_in_page [OF i(2), of "osz i * m + l"] j m by (simp_all add: add.assoc)
  then have s: "osz i * j + k = osz i * m + l" using e by simp
  have "j = (osz i * j + k) div osz i" "m = (osz i * m + l) div osz i" using k by simp_all
  then have "j = m" using s by simp
  then show False using j m a(3) by simp
qed

lemma bk_slot: "f < 8192 \<Longrightarrow> d \<in> set (bk_slots f) \<Longrightarrow> slot d \<and> d \<noteq> 0 \<and> in_page f d \<and> in_page f (d + 8) \<and> unat d mod 16 = 0"
proof -
  assume f: "f < 8192" "d \<in> set (bk_slots f)"
  then obtain j where j: "j < 256" "d = page_addr f + of_nat (16 * j)" by (auto simp: bk_slots_def)
  have "16 * j < 4096" using j(1) by simp
  from unat_in_page [OF f(1) this] have u: "unat d = 0xC0000000 + 4096 * f + 16 * j" by (simp only: j(2))
  have "slot d" unfolding slot_def u by presburger
  moreover have "d \<noteq> 0"
  proof
    assume "d = 0"
    then have "unat d = 0" by simp
    then show False using u by simp
  qed
  moreover have "in_page f d" unfolding in_page_def using \<open>16 * j < 4096\<close> j(2) by blast
  moreover have "16 * j + 8 < 4096" using j(1) by simp
  have "d + 8 = page_addr f + of_nat (16 * j + 8)" by (simp only: j(2) of_nat_add of_nat_numeral add.assoc)
  with \<open>16 * j + 8 < 4096\<close> have "in_page f (d + 8)" unfolding in_page_def by (intro exI [of _ "16 * j + 8"] conjI)
  moreover have "unat d = 16 * (0xC000000 + 256 * f + j)" unfolding u by simp
  then have "unat d mod 16 = 0" by simp
  ultimately show ?thesis by blast
qed

lemma bk_slots_distinct: "f < 8192 \<Longrightarrow> distinct (bk_slots f)"
proof -
  assume f: "f < 8192"
  have "inj_on (\<lambda>j. page_addr f + of_nat (16 * j)) {0..<256}"
  proof (rule inj_onI)
    fix x y :: nat assume x: "x \<in> {0..<256}" "y \<in> {0..<256}" "page_addr f + of_nat (16 * x) = page_addr f + of_nat (16 * y)"
    then have "16 * x < 4096" "16 * y < 4096" by simp_all
    with arg_cong [OF x(3), of unat] show "x = y" by (simp only: unat_in_page [OF f])
  qed
  then show ?thesis by (simp add: bk_slots_def distinct_map)
qed

lemma bk_apart: "unat (d :: u32) mod 16 = 0 \<Longrightarrow> unat e mod 16 = 0 \<Longrightarrow> d \<noteq> e + 8"
proof
  assume d: "unat d mod 16 = 0" "unat e mod 16 = 0" "d = e + 8"
  have "unat e + 8 < 4294967296" using d(2) u32_lt [of e] by presburger
  then have "unat d = unat e + 8" using d(3) by (simp add: unat_word_ariths)
  then show False using d by presburger
qed

section \<open>Paths\<close>

text \<open>\<open>path rd x xs y\<close>: following the pointers that \<open>rd\<close> reads leads from \<open>x\<close> through \<open>xs\<close> to \<open>y\<close>.\<close>

fun path :: "(u32 \<Rightarrow> u32) \<Rightarrow> u32 \<Rightarrow> u32 list \<Rightarrow> u32 \<Rightarrow> bool" where
  "path rd x [] y \<longleftrightarrow> x = y"
| "path rd x (a # as) y \<longleftrightarrow> x = a \<and> path rd (rd a) as y"

lemma path_append: "path rd x (xs @ ys) y \<longleftrightarrow> (\<exists>z. path rd x xs z \<and> path rd z ys y)"
  by (induction xs arbitrary: x) auto

lemma path_cong: "(\<And>a. a \<in> set xs \<Longrightarrow> rd' a = rd a) \<Longrightarrow> path rd' x xs y = path rd x xs y"
  by (induction xs arbitrary: x) auto

end
