(* ===== verification/TaskMemory.thy ===== *)
theory TaskMemory
  imports KernelSafe KmallocMem
begin

text \<open>
  What the calls of \<open>kernel/sched.c\<close> do to the memory they share with other parts: only \<open>kernel_thread\<close> and the reaper
  call the frame allocator, only \<open>kernel_thread\<close> writes words, and those are on the page it has got.
\<close>

section \<open>Calls that leave the memory alone\<close>

definition mem_same :: "kstate \<Rightarrow> kstate \<Rightarrow> bool" where
  "mem_same s s' \<longleftrightarrow> kmm s' = kmm s \<and> kmem s' = kmem s \<and> task_tbl s' = task_tbl s"

lemma mem_same_trans: "mem_same s t \<Longrightarrow> mem_same t u \<Longrightarrow> mem_same s u"
  by (simp add: mem_same_def)

lemma mem_same_upd [simp]:
  "mem_same u (upd_task t g s) = mem_same u s" "mem_same u (upd_queue q h s) = mem_same u s" "mem_same u (upd_nodes l s) = mem_same u s"
  "mem_same u (task_spin_unlock t s) = mem_same u s" "mem_same u (rr_spin_unlock s) = mem_same u s" "mem_same u (tq_spin_unlock q s) = mem_same u s"
  "mem_same u (s\<lparr>nodes := n\<rparr>) = mem_same u s" "mem_same u (s\<lparr>rr := r\<rparr>) = mem_same u s" "mem_same u (s\<lparr>cur_task := c\<rparr>) = mem_same u s"
  "mem_same u (s\<lparr>sem_count := k\<rparr>) = mem_same u s" "mem_same s s"
  by (simp_all add: mem_same_def upd_task_def upd_queue_def upd_nodes_def task_spin_unlock_def rr_spin_unlock_def tq_spin_unlock_def)

lemma mem_same_start [simp]:
  "mem_same (upd_task t g s) u = mem_same s u" "mem_same (upd_queue q h s) u = mem_same s u" "mem_same (upd_nodes l s) u = mem_same s u"
  "mem_same (s\<lparr>nodes := n\<rparr>) u = mem_same s u" "mem_same (s\<lparr>rr := r\<rparr>) u = mem_same s u" "mem_same (s\<lparr>sem_count := k\<rparr>) u = mem_same s u"
  by (simp_all add: mem_same_def upd_task_def upd_queue_def upd_nodes_def)

lemma mem_fields [simp]:
  "kmm (upd_task t g s) = kmm s" "kmem (upd_task t g s) = kmem s" "task_tbl (upd_task t g s) = task_tbl s"
  "kmm (upd_nodes l s) = kmm s" "kmem (upd_nodes l s) = kmem s" "task_tbl (upd_nodes l s) = task_tbl s"
  "kmm (task_spin_unlock t s) = kmm s" "kmem (task_spin_unlock t s) = kmem s" "task_tbl (task_spin_unlock t s) = task_tbl s"
  by (simp_all add: upd_task_def upd_nodes_def task_spin_unlock_def)

lemma locks_same:
  "task_spin_lock t s = Some s' \<Longrightarrow> mem_same s s'" "rr_spin_lock s = Some s' \<Longrightarrow> mem_same s s'" "tq_spin_lock q s = Some s' \<Longrightarrow> mem_same s s'"
  by (auto simp: task_spin_lock_def rr_spin_lock_def tq_spin_lock_def split: Option.bind_splits)

lemma queues_same:
  "rr_enqueue t s = Some s' \<Longrightarrow> mem_same s s'" "rr_dequeue t s = Some s' \<Longrightarrow> mem_same s s'" "rr_pick_next s = Some (n, s') \<Longrightarrow> mem_same s s'"
  "tq_enqueue q t s = Some s' \<Longrightarrow> mem_same s s'" "tq_dequeue q t s = Some s' \<Longrightarrow> mem_same s s'" "tq_pick_next q s = Some (n, s') \<Longrightarrow> mem_same s s'"
  by (auto simp: rr_enqueue_def rr_dequeue_def rr_pick_next_def tq_enqueue_def tq_dequeue_def tq_pick_next_def Let_def
      dest!: locks_same split: Option.bind_splits if_splits)

lemma schedule_same: "schedule s = Some s' \<Longrightarrow> mem_same s s'"
  by (auto simp: schedule_def dest!: queues_same split: Option.bind_splits)

lemma exit_loop_same: "task_exit_loop t u p s = Some s' \<Longrightarrow> mem_same s s'"
  apply (erule task_exit_loop.raw_induct [where P = "\<lambda>t u p s s'. mem_same s s'", rotated])
  subgoal premises p for rec t u p s s'
    using p(2) by (auto simp: Let_def split: if_splits node_addr.splits dest!: p(1))
  done

lemma tick_loop_same: "sched_tick_loop p b s = Some r \<Longrightarrow> mem_same s (snd r)"
  apply (erule sched_tick_loop.raw_induct [where P = "\<lambda>p b s r. mem_same s (snd r)", rotated])
  subgoal premises p for rec p b s r
    using p(2) by (auto simp: Let_def split: if_splits node_addr.splits Option.bind_splits dest!: p(1) queues_same)
      (auto intro: mem_same_trans)
  done

lemmas call_parts_same = locks_same queues_same schedule_same exit_loop_same tick_loop_same

lemma task_exit_same: "task_exit t s = Some s' \<Longrightarrow> mem_same s s'"
  by (auto simp: task_exit_def Let_def split: if_splits Option.bind_splits dest!: call_parts_same)
    (auto simp: mem_same_def)

lemma run_call_same:
  assumes "run_call c s = Some s'" and "\<forall>ka fn args prio name. c \<noteq> CSpawn ka fn args prio name" and "c \<noteq> CReap"
  shows "mem_same s s'"
proof (cases c)
  case CTick
  then show ?thesis using assms(1)
    by (auto simp: sched_tick_def Let_def split: if_splits Option.bind_splits prod.splits dest!: tick_loop_same schedule_same)
      (auto simp: mem_same_def)
next
  case (CSleep n)
  then show ?thesis using assms(1) by (auto simp: sleep_def Let_def split: Option.bind_splits dest!: call_parts_same) (auto simp: mem_same_def)
next
  case (CWakeup t)
  then show ?thesis using assms(1) by (auto simp: wakeup_def Let_def split: Option.bind_splits dest!: call_parts_same) (auto simp: mem_same_def)
next
  case CWait
  then show ?thesis using assms(1) by (auto simp: wait_def Let_def split: Option.bind_splits dest!: call_parts_same) (auto simp: mem_same_def)
next
  case CExit
  then show ?thesis using assms(1)
    by (auto simp: kthread_exit_def Let_def split: Option.bind_splits dest!: call_parts_same task_exit_same) (auto simp: mem_same_def)
next
  case (CSetPrio t p)
  then show ?thesis using assms(1)
    by (auto simp: task_reset_prio_def Let_def split: if_splits Option.bind_splits dest!: call_parts_same) (auto simp: mem_same_def)
next
  case (CSemInit a n)
  then show ?thesis using assms(1) by (auto simp: sem_init_def tq_init_def)
next
  case (CSemWait a)
  then show ?thesis using assms(1)
    by (auto simp: sem_wait_def sem_sleep_def sem_decl_def Let_def split: if_splits Option.bind_splits dest!: call_parts_same) (auto simp: mem_same_def)
next
  case (CSemPost a)
  then show ?thesis using assms(1)
    by (auto simp: sem_post_def sem_wake_def sem_incl_def Let_def split: if_splits Option.bind_splits dest!: call_parts_same) (auto simp: mem_same_def)
qed (use assms in auto)

section \<open>A new thread\<close>

lemma task_init_mem: "task_init t p nm s = Some s' \<Longrightarrow> kmm s' = kmm s \<and> kmem s' = kmem s"
  by (auto simp: task_init_def Let_def upd_nodes_def split: Option.bind_splits prod.splits dest!: locks_same) (auto simp: mem_same_def)

lemma kernel_thread_mem:
  assumes "kernel_thread ka fn args prio name s = Some (n, s')"
  shows "alloc_page (kmm s) = Some (n, kmm s')" and "kmem s' = snd (init_stack n ka fn args (kmem s))"
  using assms
  by (auto simp: kernel_thread_def Let_def split: Option.bind_splits prod.splits dest!: task_init_mem queues_same schedule_same)
    (auto simp: mem_same_def)

lemma init_stack_words: "snd (init_stack t ka fn args m) =
    m(t + 0xFFC := args, t + 0xFF8 := fn, t + 0xFF4 := t + 0x1000, t + 0xFF0 := ka, t + 0xFEC := 0x200, t + 0xFE8 := 0, t + 0xFE4 := 0,
      t + 0xFE0 := 0, t + 0xFDC := 0, t + 0xFD8 := 0, t + 0xFD4 := 0, t + 0xFD0 := 0, t + 0xFCC := 0)"
  by (simp add: init_stack_def push_def STACK_SIZE_def eval_nat_numeral Let_def add.commute [of t])

lemma init_stack_in_page: "\<not> in_page f x \<Longrightarrow> snd (init_stack (page_addr f) ka fn args m) x = m x"
proof -
  assume x: "\<not> in_page f x"
  have n: "x \<noteq> page_addr f + of_nat k" if "k < 4096" for k using x that unfolding in_page_def by blast
  have "x \<noteq> page_addr f + numeral k" if "numeral k < (4096 :: nat)" for k using n [OF that] by simp
  then show ?thesis unfolding init_stack_words by simp
qed

text \<open>Ids are left when there are fewer than 256 tasks.\<close>

lemma few_pids:
  assumes "kinv idle S k Q" and "card (live k) < 256"
  shows "pids (pid_map_state k) \<noteq> {0..<256}"
proof -
  have "pids (pid_map_state k) = (\<lambda>t. unat (t_pid (tasks k t))) ` live k" using kinvD(6) [OF assms(1)] by (simp add: ids_ok_def)
  moreover have "finite (live k)" by simp
  ultimately have "card (pids (pid_map_state k)) < 256" using card_image_le [of "live k" "\<lambda>t. unat (t_pid (tasks k t))"] assms(2) by simp
  then show ?thesis by auto
qed

section \<open>The reaper\<close>

lemma zombie_round_mem:
  assumes inv: "kinv idle S s Q" and r: "kkill_zombie_round s = Some s'"
  shows "mem_same s s' \<or> (\<exists>z b. z \<in> live s \<and> z \<noteq> idle \<and> live s' = live s - {z} \<and> free_page z (kmm s) = Some (b, kmm s') \<and> kmem s' = kmem s)"
proof -
  note c = kinvD(1) [OF inv]
  note pl = calmD(1) [OF c]
  have pick: "tq_pick_next ZombieQue s = Some (case Q (TqHead ZombieQue) of [] \<Rightarrow> NULL | t # _ \<Rightarrow> t, s)"
    by (rule tq_pick_next_ok [OF placedD(2) [OF pl]]) simp
  show ?thesis
  proof (cases "Q (TqHead ZombieQue)")
    case Nil
    then have "schedule s = Some s'" using r pick by (simp add: kkill_zombie_round_def)
    then show ?thesis using schedule_same by blast
  next
    case (Cons z l)
    then have z: "z \<in> live s" "t_stat (tasks s z) = TASK_ZOMBIE"
      using placed_iff [OF pl, of "TqHead ZombieQue" z] by (auto simp: home_iff)
    have nz: "z \<noteq> NULL" "z \<noteq> cur_task s" "z \<noteq> idle" using z placedD(4) [OF pl] calmD(3,6) [OF c] by auto
    obtain s1 where s1: "tq_dequeue ZombieQue z s = Some s1" "task_kill z s1 = Some s'"
      using r pick Cons nz by (auto simp: kkill_zombie_round_def split: Option.bind_splits)
    have m1: "mem_same s s1" by (rule queues_same(5) [OF s1(1)])
    obtain b m where b: "free_page z (kmm s1) = Some (b, m)" "kmm s' = m" "kmem s' = kmem s1"
      using s1(2) unfolding task_kill_def Let_def by (cases "free_page z (kmm s1)") auto
    then have "free_page z (kmm s) = Some (b, kmm s')" "kmem s' = kmem s" using m1 by (simp_all add: mem_same_def)
    moreover obtain t where "kkill_zombie_round s = Some t" "live t = (case Q (TqHead ZombieQue) of [] \<Rightarrow> live s | z # _ \<Rightarrow> live s - {z})"
      using kkill_zombie_round_kinv [OF inv] by blast
    then have "live s' = live s - {z}" using r Cons by simp
    ultimately show ?thesis using z(1) nz(3) by blast
  qed
qed

section \<open>All calls\<close>

text \<open>A call of the tasks changes nothing, takes a free frame and writes only there, or gives the page of a task back.\<close>

definition task_mem_step :: "u32 \<Rightarrow> kstate \<Rightarrow> kstate \<Rightarrow> bool" where
  "task_mem_step idle s s' \<longleftrightarrow> mem_same s s'
     \<or> (\<exists>f. f \<in> free_frames (kmm s) \<and> alloc_page (kmm s) = Some (page_addr f, kmm s') \<and> live s' = insert (page_addr f) (live s)
          \<and> (\<forall>x. \<not> in_page f x \<longrightarrow> kmem s' x = kmem s x))
     \<or> (\<exists>f. page_addr f \<in> live s \<and> page_addr f \<noteq> idle \<and> holds_run (kmm s) f 1 \<and> f < 8192 \<and> live s' = live s - {page_addr f}
          \<and> (\<exists>b. free_page (page_addr f) (kmm s) = Some (b, kmm s')) \<and> kmem s' = kmem s)"

lemma page_is_addr: "page f = page_addr f"
  by (simp add: page_def page_addr_def)

lemma run_call_mem:
  assumes inv: "kinv idle S s Q" and al: "allowed idle S c s" and r: "run_call c s = Some s'"
  shows "task_mem_step idle s s'"
proof (cases "(\<exists>ka fn args prio name. c = CSpawn ka fn args prio name) \<or> c = CReap")
  case False
  then show ?thesis using run_call_same [OF r] by (auto simp: task_mem_step_def)
next
  case True
  then show ?thesis
  proof (elim disjE exE)
    fix ka fn args prio name assume c: "c = CSpawn ka fn args prio name"
    then obtain n where k: "kernel_thread ka fn args prio name s = Some (n, s')" using r by auto
    have p: "prio < NR_PRIO" "free_frames (kmm s) \<noteq> {}" "pids (pid_map_state s) \<noteq> {0..<256}" using al c by simp_all
    obtain n' t where "kernel_thread ka fn args prio name s = Some (n', t)" "live t = insert n' (live s)"
      using kernel_thread_kinv [OF inv p, of ka fn args name] by blast
    then have lv: "live s' = insert n (live s)" using k by simp
    have "buddy_inv (kmm s)" using kinvD(7) [OF inv] by (simp add: pages_ok_def)
    from alloc_page_step [OF this] kernel_thread_mem(1) [OF k] al c
    obtain f where "f \<in> free_frames (kmm s)" "n = page_addr f" by auto
    moreover have "\<forall>x. \<not> in_page f x \<longrightarrow> kmem s' x = kmem s x"
      using kernel_thread_mem(2) [OF k] init_stack_in_page calculation(2) by simp
    ultimately show ?thesis using kernel_thread_mem(1) [OF k] lv unfolding task_mem_step_def by blast
  next
    assume "c = CReap"
    then have z: "kkill_zombie_round s = Some s'" using r by simp
    show ?thesis
      using zombie_round_mem [OF inv z]
    proof (elim disjE exE conjE)
      fix z b assume a: "z \<in> live s" "z \<noteq> idle" "live s' = live s - {z}" "free_page z (kmm s) = Some (b, kmm s')" "kmem s' = kmem s"
      obtain i where "page_of (kmm s) z i" using kinvD(7) [OF inv] a(1,2) by (auto simp: pages_ok_def)
      then have "z = page_addr i" "holds_run (kmm s) i 1" "i < 8192" by (simp_all add: page_of_def page_is_addr)
      then show ?thesis using a unfolding task_mem_step_def by blast
    qed (simp add: task_mem_step_def)
  qed
qed

end
