(* ===== verification/InitThread.thy ===== *)
theory InitThread
  imports TaskMemory
begin

text \<open>
  The first thread, \<open>init\<close> of \<open>kernel/sched.c\<close>: it starts the two daemons and the test thread and lowers its own priority. Each of its calls
  ends in \<open>schedule\<close>, and what follows it happens when \<open>init\<close> runs again. As it has the highest priority that is at once for the first
  three; the last call hands the processor over.
\<close>

section \<open>The code\<close>

text \<open>\<^term>\<open>None\<close> also when the caller is not the one that runs on.\<close>

definition resumed :: "u32 \<Rightarrow> kstate \<Rightarrow> kstate option" where
  "resumed self s = (if cur_task s = self then Some s else None)"

text \<open>The arguments are the addresses of \<open>kexec\<close> and of the three functions.\<close>

definition init_thread :: "u32 \<Rightarrow> u32 \<Rightarrow> u32 \<Rightarrow> u32 \<Rightarrow> kstate \<Rightarrow> kstate option" where
  "init_thread kexec_addr kkill_zombie kfree_km_cache test s = do {
     let self = cur_task s;
     (pid, s) \<leftarrow> kernel_thread kexec_addr kkill_zombie 0 DAEMON_PRIO (Some ''kkill_zombie'') s;
     s \<leftarrow> resumed self s;
     (pid, s) \<leftarrow> kernel_thread kexec_addr kfree_km_cache 0 DAEMON_PRIO (Some ''kfree_km_cache'') s;
     s \<leftarrow> resumed self s;
     (pid, s) \<leftarrow> kernel_thread kexec_addr test 0 32 (Some ''test_thread'') s;
     s \<leftarrow> resumed self s;
     task_reset_prio (cur_task s) INIT_PRIO s }"

section \<open>A thread behind the one that runs\<close>

lemma spawn_behind:
  assumes inv: "kinv idle S s Q" and top: "ready Q 0 = [self]" and p: "prio \<noteq> 0" "prio < NR_PRIO"
    and fr: "free_frames (kmm s) \<noteq> {}" and few: "card (live s) < 256"
  obtains n s' Q' where "kernel_thread ka fn args prio name s = Some (n, s')" "n \<notin> live s" "live s' = insert n (live s)" "cur_task s' = self"
    "kinv idle S s' Q'" "ready Q' 0 = [self]" "tasks s' = (tasks s)(n := new_task ka fn args prio name n s)"
    "card (free_frames (kmm s')) + 1 = card (free_frames (kmm s))"
proof -
  from kernel_thread_kinv [OF inv p(2) fr few_pids [OF inv few], of ka fn args name] obtain n s' Q' where s':
    "kernel_thread ka fn args prio name s = Some (n, s')" "kinv idle S s' Q'" "n \<notin> live s" "live s' = insert n (live s)"
    "tasks s' = (tasks s)(n := new_task ka fn args prio name n s)" "served (Q(RrHead prio := Q (RrHead prio) @ [n])) Q' (cur_task s')" by blast
  let ?Q = "Q(RrHead prio := Q (RrHead prio) @ [n])"
  have top': "ready ?Q 0 = [self]" using top p(1) by (simp add: ready_def)
  have sv: "cur_task s' = self" "Q' = ?Q" by (rule served_first [OF s'(6) top']; simp)+
  have b: "buddy_inv (kmm s)" using kinvD(7) [OF inv] by (simp add: pages_ok_def)
  from alloc_page_step [OF b] kernel_thread_mem(1) [OF s'(1)] fr
  obtain f where "f \<in> free_frames (kmm s)" "free_frames (kmm s') = free_frames (kmm s) - {f}" by auto
  then have "card (free_frames (kmm s')) + 1 = card (free_frames (kmm s))" using card_Suc_Diff1 [OF finite_free] by simp
  with s' sv top' show thesis using that by simp
qed

lemma new_fields: "t_stat (new_task ka fn args prio name n s) = TASK_READY" "t_prio (new_task ka fn args prio name n s) = prio"
    "t_name (new_task ka fn args prio (Some nm) n s) = nm"
  by (simp_all add: new_task_def inited_def name_or_def)

section \<open>Property\<close>

text \<open>C18. \<open>init\<close>, once it runs as the only task beside the idle one, starts the reaper, the daemon of \<open>free_cache\<close> and the test thread
  without being interrupted by them, then gives up its priority, and the test thread runs.\<close>

theorem init_starts_threads:
  assumes "kinv idle {} s Q" and "live s = {idle, self}" and "self \<noteq> idle" and "cur_task s = self" and "ready Q 0 = [self]"
    and "3 \<le> card (free_frames (kmm s))"
  shows "\<exists>z c t s' Q'. init_thread ka kz kc kt s = Some s' \<and> kinv idle {} s' Q' \<and> live s' = {idle, self, z, c, t} \<and> distinct [idle, self, z, c, t]
    \<and> map (\<lambda>x. t_prio (tasks s' x)) [idle, self, z, c, t] = [IDEL_PRIO, INIT_PRIO, DAEMON_PRIO, DAEMON_PRIO, 32]
    \<and> map (\<lambda>x. t_name (tasks s' x)) [z, c, t] = [''kkill_zombie'', ''kfree_km_cache'', ''test_thread''] \<and> cur_task s' = t"
proof -
  have pr: "DAEMON_PRIO \<noteq> 0" "DAEMON_PRIO < NR_PRIO" "(32 :: u8) \<noteq> 0" "32 < NR_PRIO" "INIT_PRIO < NR_PRIO"
    by (simp_all add: DAEMON_PRIO_def INIT_PRIO_def NR_PRIO_def)
  have card: "card (live s) = 2" "free_frames (kmm s) \<noteq> {}" using assms(2,3,6) by auto
  obtain z s1 Q1 where s1: "kernel_thread ka kz 0 DAEMON_PRIO (Some ''kkill_zombie'') s = Some (z, s1)" "z \<notin> live s" "live s1 = insert z (live s)"
    "cur_task s1 = self" "kinv idle {} s1 Q1" "ready Q1 0 = [self]" "tasks s1 = (tasks s)(z := new_task ka kz 0 DAEMON_PRIO (Some ''kkill_zombie'') z s)"
    "card (free_frames (kmm s1)) + 1 = card (free_frames (kmm s))"
    by (rule spawn_behind [OF assms(1,5) pr(1,2) card(2)]) (use card(1) in simp)
  have c1: "card (live s1) < 256" "free_frames (kmm s1) \<noteq> {}" using s1(2,3,8) card(1) assms(6) by auto
  obtain c s2 Q2 where s2: "kernel_thread ka kc 0 DAEMON_PRIO (Some ''kfree_km_cache'') s1 = Some (c, s2)" "c \<notin> live s1" "live s2 = insert c (live s1)"
    "cur_task s2 = self" "kinv idle {} s2 Q2" "ready Q2 0 = [self]" "tasks s2 = (tasks s1)(c := new_task ka kc 0 DAEMON_PRIO (Some ''kfree_km_cache'') c s1)"
    "card (free_frames (kmm s2)) + 1 = card (free_frames (kmm s1))"
    by (rule spawn_behind [OF s1(5,6) pr(1,2) c1(2,1)])
  have c2: "card (live s2) < 256" "free_frames (kmm s2) \<noteq> {}" using s1(2,3,8) s2(2,3,8) card(1) assms(6) by auto
  obtain t s3 Q3 where s3: "kernel_thread ka kt 0 32 (Some ''test_thread'') s2 = Some (t, s3)" "t \<notin> live s2" "live s3 = insert t (live s2)"
    "cur_task s3 = self" "kinv idle {} s3 Q3" "ready Q3 0 = [self]" "tasks s3 = (tasks s2)(t := new_task ka kt 0 32 (Some ''test_thread'') t s2)"
    "card (free_frames (kmm s3)) + 1 = card (free_frames (kmm s2))"
    by (rule spawn_behind [OF s2(5,6) pr(3,4) c2(2,1)])
  have self: "self \<in> live s3" using assms(2) s1(3) s2(3) s3(3) by simp
  from task_reset_prio_kinv [OF s3(5) self assms(3) pr(5)] s3(4) obtain s' Q' where s': "task_reset_prio self INIT_PRIO s3 = Some s'"
    "kinv idle {} s' Q'" "tasks s' = (tasks s3)(self := with_prio INIT_PRIO (tasks s3 self))" "live s' = live s3" "first_runs (live s3) s'" by auto
  have run: "init_thread ka kz kc kt s = Some s'"
    using s1(1,4) s2(1,4) s3(1,4) s'(1) assms(4) by (simp add: init_thread_def resumed_def Let_def)
  have lv: "live s' = {idle, self, z, c, t}" using s'(4) s3(3) s2(3) s1(3) assms(2) by auto
  have d: "distinct [idle, self, z, c, t]" using assms(2,3) s1(2,3) s2(2,3) s3(2,3) by auto
  have n: "t_prio (tasks s' z) = DAEMON_PRIO" "t_prio (tasks s' c) = DAEMON_PRIO" "t_prio (tasks s' t) = 32" "t_prio (tasks s' self) = INIT_PRIO"
    "t_name (tasks s' z) = ''kkill_zombie''" "t_name (tasks s' c) = ''kfree_km_cache''" "t_name (tasks s' t) = ''test_thread''"
    "t_stat (tasks s' t) = TASK_READY" "t_prio (tasks s' idle) = IDEL_PRIO"
    using d calmD(4) [OF kinvD(1) [OF assms(1)]] by (auto simp: s'(3) s3(7) s2(7) s1(7) new_fields with_prio_def)
  have "cur_task s' \<in> live s'" using calmD(5) [OF kinvD(1) [OF s'(2)]] .
  moreover have "t_prio (tasks s' (cur_task s')) \<le> 32" using s'(5) s3(3) n(3,8) by (simp add: first_runs_def)
  ultimately have "cur_task s' = t" unfolding lv using n(1-4,9) by (auto simp: DAEMON_PRIO_def INIT_PRIO_def IDEL_PRIO_def NR_PRIO_def)
  then show ?thesis using run s'(2) lv d n by (intro exI [of _ z] exI [of _ c] exI [of _ t] exI [of _ s'] exI [of _ Q']) simp
qed

theorem init_starts_threads_witness:
  "\<exists>s self s' t. cur_task s = self \<and> self \<noteq> idle0 \<and> init_thread 1 2 3 4 s = Some s' \<and> cur_task s' = t \<and> t_name (tasks s' t) = ''test_thread''"
proof -
  obtain k0 k1 where k: "kinv idle0 {} k1 (no_tasks(RrHead IDEL_PRIO := [idle0]))"
    "free_frames (kmm k1) = {1020..<1024}" "pids (pid_map_state k1) \<noteq> {0..<256}" "live k1 = {idle0}" by (rule kernel_boot_frames)
  have ne: "free_frames (kmm k1) \<noteq> {}" using k(2) by simp
  obtain n k2 where k2: "kernel_thread 0 0 0 0 None k1 = Some (n, k2)" "n \<noteq> idle0" "live k2 = {idle0, n}" "cur_task k2 = n"
    "kinv idle0 {} k2 (no_tasks(RrHead IDEL_PRIO := [idle0], RrHead 0 := [n]))"
    by (rule first_thread [OF k(1,4) ne k(3)])
  have b: "buddy_inv (kmm k1)" using kinvD(7) [OF k(1)] by (simp add: pages_ok_def)
  from alloc_page_step [OF b] kernel_thread_mem(1) [OF k2(1)] ne obtain f where "free_frames (kmm k2) = free_frames (kmm k1) - {f}" by auto
  then have fr: "3 \<le> card (free_frames (kmm k2))" using k(2) by (simp add: card_Diff_singleton_if)
  have "ready (no_tasks(RrHead IDEL_PRIO := [idle0], RrHead 0 := [n])) 0 = [n]" by (simp add: ready_def)
  from init_starts_threads [OF k2(5,3,2,4) this fr, of 1 2 3 4] k2(2,4) show ?thesis by auto
qed

end
