(* ===== verification/Startup.thy ===== *)
theory Startup
  imports Debug Descriptors Paging InitThread
begin

text \<open>
  The start of the kernel, \<open>kern_entry\<close> of \<open>init/entry.c\<close>: the calls that set the parts up, in the order of the code,
  over a state that has them all. The parts keep the state they have in their own theories; the port accesses
  and the table of handlers are those of the machine. After \<open>kern_entry\<close> has started the first thread its own
  loop is the idle task. The property says that what the theorems on the parts assume holds when the
  interrupts are switched on.
\<close>

section \<open>The code\<close>

record system =
  sys_machine :: machine
  sys_tables :: tables
  sys_pages :: memory
  kernel_elf :: elf_t

text \<open>What the linker, the assembler and the boot loader provide.\<close>

record boot_env =
  gdt_addr :: u32
  idt_addr :: u32
  isr_stub :: "nat \<Rightarrow> u32"
  irq_stub :: "nat \<Rightarrow> u32"
  strtab_lit :: u32
  symtab_lit :: u32
  mboot_ptr :: u32
  elf_garbage :: elf_t
  kern_start :: u32
  kern_end :: u32
  ro_start :: u32
  ro_end :: u32
  mmap_entries :: "mmap_entry_t list"
  kern_stack :: u32
  kexec_code :: u32
  init_code :: u32

definition on_tables :: "(tables \<Rightarrow> tables option) \<Rightarrow> system \<Rightarrow> system option" where
  "on_tables f s = do {
     let w = sys_machine s;
     t \<leftarrow> f ((sys_tables s)\<lparr>iflag := iflag w, trace := trace w, intr_handler_table := intr_handler_table w\<rparr>);
     Some (s\<lparr>sys_tables := t, sys_machine := w\<lparr>iflag := iflag t, trace := trace t, intr_handler_table := intr_handler_table t\<rparr>\<rparr>) }"

definition on_machine :: "(machine \<Rightarrow> machine) \<Rightarrow> system \<Rightarrow> system" where
  "on_machine f s = s\<lparr>sys_machine := f (sys_machine s)\<rparr>"

definition start_debug :: "boot_env \<Rightarrow> system \<Rightarrow> system option" where
  "start_debug e s = do {
     elf \<leftarrow> debug_init (strtab_lit e) (symtab_lit e) (mboot_ptr e) (elf_garbage e) (pmem (sys_machine s));
     Some (s\<lparr>kernel_elf := elf\<rparr>) }"

definition start_mm :: "boot_env \<Rightarrow> system \<Rightarrow> system option" where
  "start_mm e s = do {
     let w = sys_machine s;
     (m, mm) \<leftarrow> mm_init (kern_start e) (kern_end e) (ro_start e) (ro_end e) (mmap_entries e) (sys_pages s) (kmm (kst w));
     Some (s\<lparr>sys_pages := m, sys_machine := register_intr_handler 14 Page_fault (w\<lparr>kst := (kst w)\<lparr>kmm := mm\<rparr>\<rparr>)\<rparr>) }"

definition on_tasks :: "(kstate \<Rightarrow> kstate option) \<Rightarrow> system \<Rightarrow> system option" where
  "on_tasks f s = do {
     k \<leftarrow> f (kst (sys_machine s));
     Some (on_machine (\<lambda>w. w\<lparr>kst := k\<rparr>) s) }"

definition kern_entry :: "boot_env \<Rightarrow> system \<Rightarrow> system option" where
  "kern_entry e s = do {
     s \<leftarrow> on_tables (setup_gdt (gdt_addr e)) s;
     s \<leftarrow> on_tables (setup_idt (idt_addr e) (isr_stub e) (irq_stub e)) s;
     s \<leftarrow> start_debug e s;
     let s = on_machine uart_init s;
     let s = on_machine clk_init s;
     s \<leftarrow> start_mm e s;
     s \<leftarrow> on_tasks (sched_init (kern_stack e)) s;
     let s = on_machine sti s;
     on_tasks (\<lambda>k. do {
       (pid, k) \<leftarrow> kernel_thread (kexec_code e) (init_code e) 0 0 (Some ''init'') k;
       Some k }) s }"

section \<open>The parts\<close>

lemma setup_gdt_runs:
  fixes t :: tables
  assumes "length (gdt t) = GDT_LENGTH"
  shows "\<exists>t'. setup_gdt a t = Some t' \<and> gdtr_loaded t' = Some \<lparr>dtr_limit = 39, dtr_base = a\<rparr>"
proof -
  have step: "\<exists>v'. gdt_set_gate idx b l ac g v = Some v' \<and> length (gdt v') = 5 \<and> gdtr v' = gdtr v" if "idx < 5" "length (gdt v) = 5"
    for idx b l ac g and v :: tables
    using that by (auto simp: gdt_set_gate_def Let_def)
  let ?t = "t\<lparr>gdtr := \<lparr>dtr_limit = of_nat (8 * GDT_LENGTH - 1), dtr_base = a\<rparr>\<rparr>"
  have "length (gdt ?t) = 5" using assms by (simp add: GDT_LENGTH_def)
  then obtain t1 where t1: "gdt_set_gate 0 0 0 0 0 ?t = Some t1" "length (gdt t1) = 5" "gdtr t1 = gdtr ?t" using step [of 0 ?t 0 0 0 0] by auto
  obtain t2 where t2: "gdt_set_gate 1 0 0xFFFFFFFF 0x9A 0xCF t1 = Some t2" "length (gdt t2) = 5" "gdtr t2 = gdtr t1" using step [OF _ t1(2), of 1 0 "0xFFFFFFFF" "0x9A" "0xCF"] by auto
  obtain t3 where t3: "gdt_set_gate 2 0 0xFFFFFFFF 0x92 0xCF t2 = Some t3" "length (gdt t3) = 5" "gdtr t3 = gdtr t2" using step [OF _ t2(2), of 2 0 "0xFFFFFFFF" "0x92" "0xCF"] by auto
  obtain t4 where t4: "gdt_set_gate 3 0 0xFFFFFFFF 0xFA 0xCF t3 = Some t4" "length (gdt t4) = 5" "gdtr t4 = gdtr t3" using step [OF _ t3(2), of 3 0 "0xFFFFFFFF" "0xFA" "0xCF"] by auto
  obtain t5 where t5: "gdt_set_gate 4 0 0xFFFFFFFF 0xF2 0xCF t4 = Some t5" "length (gdt t5) = 5" "gdtr t5 = gdtr t4" using step [OF _ t4(2), of 4 0 "0xFFFFFFFF" "0xF2" "0xCF"] by auto
  have "setup_gdt a t = Some (gdt_flush (gdtr t5) t5)" using t1(1) t2(1) t3(1) t4(1) t5(1) by (simp add: setup_gdt_def)
  then show ?thesis using t1(3) t2(3) t3(3) t4(3) t5(3) by (simp add: gdt_flush_def GDT_LENGTH_def)
qed

text \<open>
  What the start relies on: the memory map has one entry for the region the kernel was loaded at, and the kernel ends
  at frame \<open>lo\<close> of it, with \<open>n\<close> frames behind; the sections are named by strings; the static data is as the
  program file has it. The stack the kernel starts on becomes the idle task.
\<close>

definition loaded :: "boot_env \<Rightarrow> nat \<Rightarrow> nat \<Rightarrow> bool" where
  "loaded e lo n \<longleftrightarrow> to_paddr (kern_end e) = fr_paddr (of_nat lo) \<and> 0 < lo \<and> lo + n \<le> 8192 \<and> 1024 - lo mod 1024 \<le> n \<and> 0 < n
    \<and> to_fr_idx (to_paddr (ro_start e)) \<le> to_fr_idx (to_paddr (ro_end e)) \<and> unat (to_fr_idx (to_paddr (ro_end e))) \<le> 8192
    \<and> kern_stack e \<noteq> NULL \<and> (\<forall>i. lo \<le> i \<and> i < lo + n \<longrightarrow> kern_stack e \<noteq> page i)
    \<and> (\<exists>es1 x es2. mmap_entries e = es1 @ x # es2 \<and> base_addr_low x = kern_start e
        \<and> length_low x = (fr_paddr (of_nat lo) - kern_start e) + push_bit 12 (of_nat n)
        \<and> (\<forall>y \<in> set es1 \<union> set es2. base_addr_low y \<noteq> kern_start e))"

definition statics :: "boot_env \<Rightarrow> system \<Rightarrow> bool" where
  "statics e s \<longleftrightarrow> (let w = sys_machine s; k = kst w in
     length (gdt (sys_tables s)) = GDT_LENGTH \<and> length (ibuf (uart w)) = 1024 \<and> length (obuf (uart w)) = 1024
     \<and> cur_task k = kern_stack e \<and> t_lock (tasks k (kern_stack e)) = 0 \<and> pid_map_state k = pid_boot \<and> task_tbl k = (\<lambda>_. NULL)
     \<and> buddy_dir_lock (kmm k) = 0 \<and> (\<forall>j < 8192. fr_lock (frame_at j (kmm k)) = 0))"

lemma start_mm_runs:
  assumes "loaded e lo n" and l: "buddy_dir_lock (kmm (kst (sys_machine s))) = 0" "\<forall>j < 8192. fr_lock (frame_at j (kmm (kst (sys_machine s)))) = 0"
  obtains mm where "start_mm e s = Some (s\<lparr>sys_pages := mm_init_tables (to_paddr (ro_start e)) (to_paddr (ro_end e)) (sys_pages s),
      sys_machine := register_intr_handler 14 Page_fault ((sys_machine s)\<lparr>kst := (kst (sys_machine s))\<lparr>kmm := mm\<rparr>\<rparr>)\<rparr>)"
    "buddy_inv mm" "free_frames mm = {lo..<lo + n}"
proof -
  obtain es1 x es2 where m: "mmap_entries e = es1 @ x # es2" "base_addr_low x = kern_start e"
    "length_low x = (fr_paddr (of_nat lo) - kern_start e) + push_bit 12 (of_nat n)"
    "\<forall>y \<in> set es1 \<union> set es2. base_addr_low y \<noteq> kern_start e" using assms(1) by (auto simp: loaded_def)
  let ?k = "kst (sys_machine s)"
  have "\<exists>m' mm. mm_init (kern_start e) (kern_end e) (ro_start e) (ro_end e) (es1 @ x # es2) (sys_pages s) (kmm ?k) = Some (m', mm) \<and>
      m' = mm_init_tables (to_paddr (ro_start e)) (to_paddr (ro_end e)) (sys_pages s) \<and> buddy_inv mm \<and> free_frames mm = {lo..<lo + n}"
    by (rule mm_init_frees_region) (use assms m in \<open>auto simp: loaded_def\<close>)
  then show thesis using that m(1) by (auto simp: start_mm_def Let_def)
qed

section \<open>The stages\<close>

lemma tables_start:
  assumes "length (gdt (sys_tables s)) = GDT_LENGTH"
  obtains s1 s2 where "on_tables (setup_gdt (gdt_addr e)) s = Some s1" "on_tables (setup_idt (idt_addr e) (isr_stub e) (irq_stub e)) s1 = Some s2"
    "gdtr_loaded (sys_tables s2) = Some \<lparr>dtr_limit = 39, dtr_base = gdt_addr e\<rparr>"
    "idtr_loaded (sys_tables s2) = Some \<lparr>dtr_limit = 2047, dtr_base = idt_addr e\<rparr>"
    "\<forall>v < 48. gate_offset (idt (sys_tables s2) ! v) = (if v < 32 then isr_stub e v else irq_stub e (v - 32))"
    "kst (sys_machine s2) = kst (sys_machine s)" "uart (sys_machine s2) = uart (sys_machine s)" "pmem (sys_machine s2) = pmem (sys_machine s)"
    "intr_handler_table (sys_machine s2) = replicate 256 None"
proof -
  let ?w = "sys_machine s"
  let ?t = "(sys_tables s)\<lparr>iflag := iflag ?w, trace := trace ?w, intr_handler_table := intr_handler_table ?w\<rparr>"
  obtain t1 where t1: "setup_gdt (gdt_addr e) ?t = Some t1" "gdtr_loaded t1 = Some \<lparr>dtr_limit = 39, dtr_base = gdt_addr e\<rparr>"
    using setup_gdt_runs [of ?t "gdt_addr e"] assms by auto
  define s1 where "s1 = s\<lparr>sys_tables := t1, sys_machine := ?w\<lparr>iflag := iflag t1, trace := trace t1, intr_handler_table := intr_handler_table t1\<rparr>\<rparr>"
  have r1: "on_tables (setup_gdt (gdt_addr e)) s = Some s1" using t1(1) by (simp add: on_tables_def s1_def Let_def)
  obtain t2 where t2: "setup_idt (idt_addr e) (isr_stub e) (irq_stub e) ((sys_tables s1)\<lparr>iflag := iflag (sys_machine s1),
      trace := trace (sys_machine s1), intr_handler_table := intr_handler_table (sys_machine s1)\<rparr>) = Some t2"
    "idtr_loaded t2 = Some \<lparr>dtr_limit = 2047, dtr_base = idt_addr e\<rparr>"
    "\<forall>n<256. if n < 48 then i_flags (idt t2 ! n) = 0x8E \<and> i_sel (idt t2 ! n) = 0x08 \<and>
        gate_offset (idt t2 ! n) = (if n < 32 then isr_stub e n else irq_stub e (n - 32)) else idt t2 ! n = zero_gate"
    "intr_handler_table t2 = replicate 256 None" "gdtr_loaded t2 = gdtr_loaded t1"
    using setup_idt_reads [of "idt_addr e" "isr_stub e" "irq_stub e" "(sys_tables s1)\<lparr>iflag := iflag (sys_machine s1),
      trace := trace (sys_machine s1), intr_handler_table := intr_handler_table (sys_machine s1)\<rparr>"] by (auto simp: s1_def)
  define s2 where "s2 = s1\<lparr>sys_tables := t2, sys_machine := (sys_machine s1)\<lparr>iflag := iflag t2, trace := trace t2, intr_handler_table := intr_handler_table t2\<rparr>\<rparr>"
  have r2: "on_tables (setup_idt (idt_addr e) (isr_stub e) (irq_stub e)) s1 = Some s2" using t2(1) by (simp add: on_tables_def s2_def Let_def)
  have "gate_offset (idt t2 ! v) = (if v < 32 then isr_stub e v else irq_stub e (v - 32))" if "v < 48" for v :: nat
    using t2(3) [rule_format, of v] that by simp
  then show thesis by (intro that [OF r1 r2]) (use t1(2) t2(2,4,5) in \<open>simp_all add: s2_def s1_def\<close>)
qed

lemma devices_start:
  assumes bufs: "length (ibuf (uart w)) = 1024" "length (obuf (uart w)) = 1024" and t: "intr_handler_table w = replicate 256 None"
  shows "uart_ok (clk_init (uart_init w))" "line_of (clk_init (uart_init w)) = line_of (uart_init w)"
    "kst (clk_init (uart_init w)) = kst w" "routed (clk_init (uart_init w))"
    "waiting (line_of (clk_init (uart_init w))) = []" "pending (line_of (clk_init (uart_init w))) = []"
proof -
  note u = uart_init_ok [OF bufs]
  show "uart_ok (clk_init (uart_init w))" "routed (clk_init (uart_init w))" "kst (clk_init (uart_init w)) = kst w"
    using u(1) routed_init [OF t]
    by (simp_all add: clk_init_def Let_def uart_ok_port PORT_def register_intr_handler_def uart_ok_def)
      (simp_all add: uart_init_def Let_def register_intr_handler_def outb_def)
  show l: "line_of (clk_init (uart_init w)) = line_of (uart_init w)"
    by (simp add: clk_init_def Let_def uart_ok_port PORT_def register_intr_handler_def line_of_def)
  show "waiting (line_of (clk_init (uart_init w))) = []" "pending (line_of (clk_init (uart_init w))) = []" using u(2,3) by (simp_all add: l)
qed

lemma tasks_start:
  assumes "kfresh idle k" and "free_frames (kmm k) \<noteq> {}"
  obtains k5 init k6 f where "sched_init idle k = Some k5" "kernel_thread ka fn 0 0 (Some nm) k5 = Some (init, k6)" "init \<noteq> idle"
    "live k6 = {idle, init}" "cur_task k6 = init" "kinv idle {} k6 (no_tasks(RrHead IDEL_PRIO := [idle], RrHead 0 := [init]))"
    "t_prio (tasks k6 init) = 0" "t_name (tasks k6 init) = nm" "init = page f" "f \<in> free_frames (kmm k)"
    "free_frames (kmm k6) = free_frames (kmm k) - {f}"
proof -
  obtain k5 where k5: "sched_init idle k = Some k5" "kinv idle {} k5 (no_tasks(RrHead IDEL_PRIO := [idle]))" "live k5 = {idle}"
    "kmm k5 = kmm k" using sched_init_kinv [OF assms(1)] by auto
  have free5: "free_frames (kmm k5) \<noteq> {}" using k5(4) assms(2) by simp
  have pids5: "pids (pid_map_state k5) \<noteq> {0..<256}" by (rule few_pids [OF k5(2)]) (simp add: k5(3))
  obtain init k6 where k6: "kernel_thread ka fn 0 0 (Some nm) k5 = Some (init, k6)" "init \<noteq> idle"
    "live k6 = {idle, init}" "cur_task k6 = init" "kinv idle {} k6 (no_tasks(RrHead IDEL_PRIO := [idle], RrHead 0 := [init]))"
    "tasks k6 = (tasks k5)(init := new_task ka fn 0 0 (Some nm) init k5)"
    by (rule first_thread [OF k5(2,3) free5 pids5])
  have "buddy_inv (kmm k5)" using kinvD(7) [OF k5(2)] by (simp add: pages_ok_def)
  from alloc_page_step [OF this] kernel_thread_mem(1) [OF k6(1)] free5
  obtain f where f: "init = page f" "f \<in> free_frames (kmm k5)" "free_frames (kmm k6) = free_frames (kmm k5) - {f}"
    by (auto simp: page_is_addr)
  have "t_prio (tasks k6 init) = 0" "t_name (tasks k6 init) = nm" by (simp_all add: k6(6) new_fields)
  then show thesis using that [OF k5(1) k6(1-5)] f k5(4) by simp
qed

section \<open>Property\<close>

text \<open>C40. \<open>kern_entry\<close> returns to its idle loop with all parts in order: the processor's tables are loaded, the gates lead to the
  stubs, the handlers of the clock, the line and page faults are registered, the first 4 MB of the kernel window are mapped, the line
  and the tasks satisfy their invariants with empty queues, exactly the frames behind the kernel are free but for the page of the first
  thread, which is \<open>init\<close> at the highest priority and runs, and interrupts are on.\<close>

theorem kern_entry_sets_up:
  assumes "loaded e lo n" and "statics e s" and "start_debug e s \<noteq> None"
  shows "\<exists>s' init. kern_entry e s = Some s'
    \<and> iflag (sys_machine s') \<and> uart_ok (sys_machine s') \<and> waiting (line_of (sys_machine s')) = [] \<and> pending (line_of (sys_machine s')) = []
    \<and> routed (sys_machine s') \<and> intr_handler_table (sys_machine s') ! 14 = Some Page_fault
    \<and> gdtr_loaded (sys_tables s') = Some \<lparr>dtr_limit = 39, dtr_base = gdt_addr e\<rparr>
    \<and> idtr_loaded (sys_tables s') = Some \<lparr>dtr_limit = 2047, dtr_base = idt_addr e\<rparr>
    \<and> (\<forall>v < 48. gate_offset (idt (sys_tables s') ! v) = (if v < 32 then isr_stub e v else irq_stub e (v - 32)))
    \<and> (\<forall>x. unat x < 4194304 \<longrightarrow> page_walk (sys_pages s') (PAGE_OFFSET + x) = Some x)
    \<and> kinv (kern_stack e) {} (kst (sys_machine s')) (no_tasks(RrHead IDEL_PRIO := [kern_stack e], RrHead 0 := [init]))
    \<and> live (kst (sys_machine s')) = {kern_stack e, init} \<and> cur_task (kst (sys_machine s')) = init \<and> init \<noteq> kern_stack e
    \<and> t_prio (tasks (kst (sys_machine s')) init) = 0 \<and> t_name (tasks (kst (sys_machine s')) init) = ''init''
    \<and> (\<exists>f. init = page f \<and> f \<in> {lo..<lo + n} \<and> free_frames (kmm (kst (sys_machine s'))) = {lo..<lo + n} - {f})"
proof -
  let ?w = "sys_machine s" and ?idle = "kern_stack e"
  note st = assms(2) [unfolded statics_def Let_def] and ld = assms(1) [unfolded loaded_def]
  have "length (gdt (sys_tables s)) = GDT_LENGTH" using st by simp
  then obtain s1 s2 where s2: "on_tables (setup_gdt (gdt_addr e)) s = Some s1" "on_tables (setup_idt (idt_addr e) (isr_stub e) (irq_stub e)) s1 = Some s2"
    "gdtr_loaded (sys_tables s2) = Some \<lparr>dtr_limit = 39, dtr_base = gdt_addr e\<rparr>"
    "idtr_loaded (sys_tables s2) = Some \<lparr>dtr_limit = 2047, dtr_base = idt_addr e\<rparr>"
    "\<forall>v < 48. gate_offset (idt (sys_tables s2) ! v) = (if v < 32 then isr_stub e v else irq_stub e (v - 32))"
    "kst (sys_machine s2) = kst ?w" "uart (sys_machine s2) = uart ?w" "pmem (sys_machine s2) = pmem ?w"
    "intr_handler_table (sys_machine s2) = replicate 256 None" by (rule tables_start)
  obtain elf where elf: "start_debug e s2 = Some (s2\<lparr>kernel_elf := elf\<rparr>)"
    using assms(3) s2(8) by (auto simp: start_debug_def split: Option.bind_splits)
  define w3 where "w3 = clk_init (uart_init (sys_machine s2))"
  define s3 where "s3 = s2\<lparr>kernel_elf := elf, sys_machine := w3\<rparr>"
  have r3: "on_machine clk_init (on_machine uart_init (s2\<lparr>kernel_elf := elf\<rparr>)) = s3" by (simp add: on_machine_def s3_def w3_def)
  have w3: "uart_ok w3" "kst w3 = kst ?w" "routed w3" "waiting (line_of w3) = []" "pending (line_of w3) = []"
    unfolding w3_def using devices_start [of "sys_machine s2"] st s2(6,7,9) by simp_all
  obtain mm where mm: "start_mm e s3 = Some (s3\<lparr>sys_pages := mm_init_tables (to_paddr (ro_start e)) (to_paddr (ro_end e)) (sys_pages s3),
      sys_machine := register_intr_handler 14 Page_fault ((sys_machine s3)\<lparr>kst := (kst (sys_machine s3))\<lparr>kmm := mm\<rparr>\<rparr>)\<rparr>)"
    "buddy_inv mm" "free_frames mm = {lo..<lo + n}"
    by (rule start_mm_runs [OF assms(1), of s3]) (use st in \<open>simp_all add: s3_def w3(2)\<close>)
  let ?k = "(kst ?w)\<lparr>kmm := mm\<rparr>"
  define w4 where "w4 = register_intr_handler 14 Page_fault (w3\<lparr>kst := ?k\<rparr>)"
  define s4 where "s4 = s3\<lparr>sys_pages := mm_init_tables (to_paddr (ro_start e)) (to_paddr (ro_end e)) (sys_pages s3), sys_machine := w4\<rparr>"
  have r4: "start_mm e s3 = Some s4" using mm(1) by (simp add: s4_def w4_def s3_def w3(2))
  have "kfresh ?idle ?k" "free_frames (kmm ?k) \<noteq> {}" using st ld mm(2,3) by (simp_all add: kfresh_def)
  then obtain k5 init k6 f where k: "sched_init ?idle ?k = Some k5"
    "kernel_thread (kexec_code e) (init_code e) 0 0 (Some ''init'') k5 = Some (init, k6)" "init \<noteq> ?idle"
    "live k6 = {?idle, init}" "cur_task k6 = init" "kinv ?idle {} k6 (no_tasks(RrHead IDEL_PRIO := [?idle], RrHead 0 := [init]))"
    "t_prio (tasks k6 init) = 0" "t_name (tasks k6 init) = ''init''" "init = page f" "f \<in> free_frames (kmm ?k)"
    "free_frames (kmm k6) = free_frames (kmm ?k) - {f}" by (rule tasks_start)
  define s5 where "s5 = s4\<lparr>sys_machine := w4\<lparr>kst := k5\<rparr>\<rparr>"
  define s6 where "s6 = s4\<lparr>sys_machine := (sti (w4\<lparr>kst := k5\<rparr>))\<lparr>kst := k6\<rparr>\<rparr>"
  have "kst w4 = ?k" "sys_machine s4 = w4" by (simp_all add: w4_def register_intr_handler_def s4_def)
  then have r5: "on_tasks (sched_init ?idle) s4 = Some s5" using k(1) by (simp add: on_tasks_def on_machine_def s5_def)
  have r6: "on_tasks (\<lambda>k. do { (pid, k) \<leftarrow> kernel_thread (kexec_code e) (init_code e) 0 0 (Some ''init'') k; Some k }) (on_machine sti s5) = Some s6"
    using k(2) by (simp add: on_tasks_def on_machine_def s5_def s6_def sti_def)
  have run: "kern_entry e s = Some s6" unfolding kern_entry_def by (simp add: s2(1,2) elf r3 r4 r5 r6)
  have m6: "line_of (sys_machine s6) = line_of w3" "uart_ok (sys_machine s6)" "iflag (sys_machine s6)" "kst (sys_machine s6) = k6" "sys_tables s6 = sys_tables s2"
    "intr_handler_table (sys_machine s6) = (intr_handler_table w3)[14 := Some Page_fault]"
    using w3(1) by (simp_all add: s6_def s4_def s3_def w4_def register_intr_handler_def line_of_def uart_ok_def sti_def)
  have len: "length (intr_handler_table w3) = 256" and routed: "routed (sys_machine s6)" using w3(3) by (auto simp: routed_def m6(6) nth_list_update)
  have walk: "\<forall>x. unat x < 4194304 \<longrightarrow> page_walk (sys_pages s6) (PAGE_OFFSET + x) = Some x"
    using first_4MB_walk [of "to_paddr (ro_start e)" "to_paddr (ro_end e)"] ld by (simp add: s6_def s4_def word_le_nat_alt)
  show ?thesis using run m6 w3(4,5) routed len s2(3-5) walk k(3-11) mm(3)
    by (intro exI [of _ s6] exI [of _ init]) (simp; blast)
qed

definition example_env :: boot_env where
  "example_env = \<lparr>gdt_addr = 0xC0150000, idt_addr = 0xC0151000, isr_stub = (\<lambda>n. 0xC0101000 + 16 * of_nat n),
     irq_stub = (\<lambda>n. 0xC0102000 + 16 * of_nat n), strtab_lit = 0xC0140000, symtab_lit = 0xC0140010, mboot_ptr = 0x9000,
     elf_garbage = \<lparr>symtab = 0, symtabsz = 0, strtab = 0, strtabsz = 0\<rparr>, kern_start = 0x100000, kern_end = 0xC03FC000,
     ro_start = 0xC0100000, ro_end = 0xC0110000, mmap_entries = [\<lparr>base_addr_low = 0, length_low = 0x9FC00\<rparr>,
       \<lparr>base_addr_low = 0x100000, length_low = 0x300000\<rparr>],
     kern_stack = idle0, kexec_code = 0xC0103000, init_code = 0xC0104000\<rparr>"

definition example_system :: system where
  "example_system = \<lparr>sys_machine = machine_boot (kboot\<lparr>cur_task := idle0\<rparr>), sys_tables = tables_boot, sys_pages = (\<lambda>_. 0),
     kernel_elf = \<lparr>symtab = 0, symtabsz = 0, strtab = 0, strtabsz = 0\<rparr>\<rparr>"

theorem kern_entry_sets_up_witness:
  "\<exists>s' init. kern_entry example_env example_system = Some s' \<and> cur_task (kst (sys_machine s')) = init
    \<and> t_name (tasks (kst (sys_machine s')) init) = ''init'' \<and> iflag (sys_machine s')"
proof -
  have nopage: "idle0 \<noteq> page i" if "1020 \<le> i" "i < 1020 + 4" for i
  proof
    assume "idle0 = page i"
    then have "to_fr_idx (to_paddr idle0) = to_fr_idx (to_paddr (page i))" by simp
    moreover have "to_fr_idx (to_paddr (page i)) = (of_nat i :: u32)" using that by (simp add: page_def unat_small)
    moreover have "to_fr_idx (to_paddr idle0) = of_nat 16" by (simp add: idle0_def to_paddr_def PAGE_OFFSET_def to_fr_idx_def)
    ultimately have "of_nat i = (of_nat 16 :: u32)" by simp
    then show False using that of_nat_eq_word [of i 16] by simp
  qed
  have "\<exists>es1 x es2. mmap_entries example_env = es1 @ x # es2 \<and> base_addr_low x = kern_start example_env
        \<and> length_low x = (fr_paddr (of_nat 1020) - kern_start example_env) + push_bit 12 (of_nat 4)
        \<and> (\<forall>y \<in> set es1 \<union> set es2. base_addr_low y \<noteq> kern_start example_env)"
    by (rule exI [of _ "[\<lparr>base_addr_low = 0, length_low = 0x9FC00\<rparr>]"], rule exI [of _ "\<lparr>base_addr_low = 0x100000, length_low = 0x300000\<rparr>"],
        rule exI [of _ "[]"]) (simp add: example_env_def fr_paddr_def)
  then have "loaded example_env 1020 4"
    using nopage by (simp add: loaded_def) (simp add: example_env_def to_paddr_def fr_paddr_def PAGE_OFFSET_def to_fr_idx_def idle0_def NULL_def)
  moreover have "statics example_env example_system"
    by (simp add: statics_def Let_def example_system_def example_env_def machine_boot_ok tables_boot_def GDT_LENGTH_def kboot_def
        mm_boot_def frame_at_def NULL_def)
      (simp add: machine_boot_def uart_world.defs machine.defs uart_boot_def uart_init_def register_intr_handler_def Let_def outb_def)
  moreover have "start_debug example_env example_system \<noteq> None"
    by (simp add: start_debug_def debug_init_def mb_num_def example_system_def machine_boot_def uart_world.defs machine.defs
        word_at_def elf_from_multiboot_def Let_def)
  ultimately show ?thesis using kern_entry_sets_up [of example_env 1020 4 example_system] by blast
qed

end
