(* ===== verification/Fat.thy ===== *)
theory Fat
  imports Printk
begin

text \<open>
  The read-only FAT12 file system \<open>fs/fat.c\<close> on an image in memory. \<open>dbr_t\<close>, \<open>fat_t\<close> and \<open>file_t\<close> are packed
  structures read at their offsets; the static pointers are the record \<open>fat_fs\<close>. \<open>count\<close> and \<open>offset\<close> are
  words: where the code compares an \<open>int\<close> with the unsigned \<open>bytes_per_clus\<close> the comparison is unsigned,
  where it compares it with 0 it is signed. A loop along a chain of clusters may not end, so the loops are
  partial functions.
\<close>

section \<open>The code\<close>

definition half_at :: "mem \<Rightarrow> u32 \<Rightarrow> u16" where
  "half_at m a = ucast (m a) OR push_bit 8 (ucast (m (a + 1)))"

definition dbr_bytes_per_sec :: "mem \<Rightarrow> u32 \<Rightarrow> u16" where "dbr_bytes_per_sec m d = half_at m (d + 11)"
definition dbr_sec_per_clus :: "mem \<Rightarrow> u32 \<Rightarrow> u8" where "dbr_sec_per_clus m d = m (d + 13)"
definition dbr_resvd_sec_cnt :: "mem \<Rightarrow> u32 \<Rightarrow> u16" where "dbr_resvd_sec_cnt m d = half_at m (d + 14)"
definition dbr_num_fats :: "mem \<Rightarrow> u32 \<Rightarrow> u8" where "dbr_num_fats m d = m (d + 16)"
definition dbr_root_ent_cnt :: "mem \<Rightarrow> u32 \<Rightarrow> u16" where "dbr_root_ent_cnt m d = half_at m (d + 17)"
definition dbr_fat_size :: "mem \<Rightarrow> u32 \<Rightarrow> u16" where "dbr_fat_size m d = half_at m (d + 22)"

definition file_cluster :: "mem \<Rightarrow> u32 \<Rightarrow> u16" where "file_cluster m f = half_at m (f + 26)"
definition file_attribute :: "mem \<Rightarrow> u32 \<Rightarrow> u8" where "file_attribute m f = m (f + 11)"

record fat_fs =
  dbr :: u32
  fat_tab :: u32
  root_dir :: u32
  data_area :: u32
  bytes_per_clus :: u32

definition fat_next :: "mem \<Rightarrow> fat_fs \<Rightarrow> u16 \<Rightarrow> u16" where
  "fat_next m fs c =
    (let v = half_at m (fat_tab fs + 3 * ucast (drop_bit 1 c) + ucast (c AND 1))
     in if c AND 1 \<noteq> 0 then drop_bit 4 v else v AND 0x0FFF)"

definition first_byte :: "mem \<Rightarrow> fat_fs \<Rightarrow> u16 \<Rightarrow> u32" where
  "first_byte m fs clus = data_area fs + (ucast clus - 3) * ucast (dbr_bytes_per_sec m (dbr fs))"

partial_function (option) fat_skip :: "mem \<Rightarrow> fat_fs \<Rightarrow> u16 \<Rightarrow> u32 \<Rightarrow> (u16 \<times> u32) option" where
  "fat_skip m fs clus offset =
    (if offset > bytes_per_clus fs \<and> clus < 0xFF8 then fat_skip m fs (fat_next m fs clus) (offset - bytes_per_clus fs)
     else Some (clus, offset))"

partial_function (option) fat_blocks ::
  "fat_fs \<Rightarrow> mem \<Rightarrow> u16 \<Rightarrow> u32 \<Rightarrow> u32 \<Rightarrow> u32 \<Rightarrow> (mem \<times> u16 \<times> u32 \<times> u32 \<times> u32) option" where
  "fat_blocks fs m clus src buf count =
    (if count \<ge> bytes_per_clus fs \<and> clus < 0xFF8 then
       let m = memcpy buf src (bytes_per_clus fs) m;
           clus = fat_next m fs clus
       in fat_blocks fs m clus (first_byte m fs clus) (buf + bytes_per_clus fs) (count - bytes_per_clus fs)
     else Some (m, clus, src, buf, count))"

definition fat_read ::
  "ports \<Rightarrow> u32 \<Rightarrow> fat_fs \<Rightarrow> u32 \<Rightarrow> u32 \<Rightarrow> u32 \<Rightarrow> u32 \<Rightarrow> 'a uart_world_scheme \<Rightarrow> mem \<Rightarrow> ('a uart_world_scheme \<times> mem) option" where
  "fat_read env pbuf fs file buf count offset w m = do {
     let bpc = bytes_per_clus fs;
     let clus = file_cluster m file;
     (clus, offset) \<leftarrow> fat_skip m fs clus offset;
     let src = first_byte m fs clus;
     let (m, clus, src, buf, count) =
       (if sint offset > 0 \<and> clus < 0xFF8 then
          let src = src + offset;
              len = (if count > bpc then bpc - offset else count);
              m = memcpy buf src len m;
              clus = fat_next m fs clus;
              src = first_byte m fs clus
          in (m, clus, src, buf + len, count - len)
        else (m, clus, src, buf, count));
     (m, clus, src, buf, count) \<leftarrow> fat_blocks fs m clus src buf count;
     let (m, buf) = (if sint count > 0 \<and> clus < 0xFF8 then (memcpy buf src count m, buf + count) else (m, buf));
     (w, m) \<leftarrow> (if clus \<ge> 0xFF8 then printk env pbuf (map of_char ''Fat Error: Bad cluster in fat.'') (\<lambda>_. 0) w m
              else Some (w, m));
     Some (w, m(buf := 0))
   }"

text \<open>\<open>for (i = 0; i < n; i++, q++) if (*q != ' ') *p++ = *q;\<close>\<close>

fun copy_name :: "nat \<Rightarrow> u32 \<Rightarrow> u32 \<times> mem \<Rightarrow> u32 \<times> mem" where
  "copy_name 0 q o' = o'"
| "copy_name (Suc n) q o' = copy_name n (q + 1) (if snd o' q \<noteq> 32 then put (snd o' q) o' else o')"

definition fat_name :: "u32 \<Rightarrow> u32 \<Rightarrow> mem \<Rightarrow> mem" where
  "fat_name buf file m =
    (let o' = copy_name 8 file (buf, m);
         q = file + 8;
         o' = (if snd o' q \<noteq> 32 then put 46 o' else o');
         o' = copy_name 3 q o'
     in (snd o')(fst o' := 0))"

partial_function (option) fat_ls ::
  "ports \<Rightarrow> u32 \<Rightarrow> u32 \<Rightarrow> u32 \<Rightarrow> 'a uart_world_scheme \<Rightarrow> mem \<Rightarrow> ('a uart_world_scheme \<times> mem) option" where
  "fat_ls env pbuf buf file w m =
    (if m file \<noteq> 0 then do {
       (w, m) \<leftarrow> (if file_attribute m file = 0x10 \<or> file_attribute m file = 0x20
                then printk env pbuf [37, 115, 10] (\<lambda>n. if n = 0 then buf else 0) w (fat_name buf file m)
                else Some (w, m));
       fat_ls env pbuf buf (file + 32) w m
     } else Some (w, m))"

definition fat_init :: "u32 \<Rightarrow> mem \<Rightarrow> fat_fs" where
  "fat_init mods_addr m =
    (let initrd_start = word_at m (mods_addr + 4 * 0xC0000000) + 0xC0000000;
         d = initrd_start;
         fat_tab_base = d + ucast (dbr_resvd_sec_cnt m d) * ucast (dbr_bytes_per_sec m d);
         root_dir_base = fat_tab_base
           + ucast (dbr_num_fats m d) * ucast (dbr_fat_size m d) * ucast (dbr_bytes_per_sec m d);
         data_area_base = root_dir_base
           + (ucast (dbr_root_ent_cnt m d) * 32 div ucast (dbr_bytes_per_sec m d) + 1) * ucast (dbr_bytes_per_sec m d)
     in \<lparr>dbr = d, fat_tab = fat_tab_base, root_dir = root_dir_base, data_area = data_area_base,
         bytes_per_clus = ucast (dbr_bytes_per_sec m d) * ucast (dbr_sec_per_clus m d)\<rparr>)"

section \<open>The entries of the table\<close>

text \<open>Entry \<open>c\<close> of a FAT12 table is the field of 12 bits at bit \<open>12 c\<close>.\<close>

definition fat_bit :: "mem \<Rightarrow> u32 \<Rightarrow> nat \<Rightarrow> bool" where
  "fat_bit m a n = bit (m (a + of_nat (n div 8))) (n mod 8)"

lemma half_at_bit: "i < 16 \<Longrightarrow> bit (half_at m a) i = bit (m (a + of_nat (i div 8))) (i mod 8)"
proof -
  assume i: "i < 16"
  show ?thesis
  proof (cases "i < 8")
    case True
    then show ?thesis by (simp add: half_at_def bit_or_iff bit_ucast_iff bit_push_bit_iff)
  next
    case False
    then obtain j where "i = 8 + j" "j < 8" using i by (metis add_diff_inverse_nat less_diff_conv2 linorder_not_less numeral_Bit0 add_less_cancel_left)
    then show ?thesis by (simp add: half_at_def bit_or_iff bit_ucast_iff bit_push_bit_iff u8_high div_add1_eq)
  qed
qed

lemma u16_high': "16 \<le> n \<Longrightarrow> \<not> bit (w :: u16) n"
  using bit_imp_le_length [of w n] by auto

lemma fat_entry_bits:
  "bit (fat_next m fs c) i \<longleftrightarrow> i < 12 \<and> fat_bit m (fat_tab fs) (12 * unat c + i)"
proof -
  define q where "q = unat c div 2"
  have half: "ucast (drop_bit 1 c) = (of_nat q :: u32)"
  proof -
    have "unat (drop_bit 1 c) = q" by (simp only: unat_drop_bit_eq) (simp add: q_def drop_bit_eq_div)
    then have "unat (ucast (drop_bit 1 c) :: u32) = q" by (simp add: unat_ucast_up)
    moreover have "unat (of_nat q :: u32) = q" using u16_lt [of c] by (intro unat_small) (simp add: q_def)
    ultimately show ?thesis by (simp only: word_unat_eq_iff)
  qed
  have v: "bit (half_at m (fat_tab fs + 3 * of_nat q + of_nat d)) j = fat_bit m (fat_tab fs) (8 * (3 * q + d) + j)"
    if "j < 16" for d j
  proof -
    have "(8 * (3 * q + d) + j) div 8 = 3 * q + d + j div 8" "(8 * (3 * q + d) + j) mod 8 = j mod 8"
      by (simp_all only: mod_mult_self4 div_mult_self4 zero_neq_numeral [symmetric] simp_thms)
    then show ?thesis using that by (simp add: half_at_bit fat_bit_def add.assoc)
  qed
  show ?thesis
  proof (cases "odd (unat c)")
    case True
    have c: "unat c = 2 * q + 1" using True by (simp add: q_def)
    have one: "c AND 1 = 1" using True by (simp add: and_one_eq word_unat_eq_iff unat_mod_distrib odd_iff_mod_2_eq_one)
    have "fat_next m fs c = drop_bit 4 (half_at m (fat_tab fs + 3 * of_nat q + of_nat 1))"
      by (simp add: fat_next_def half [unfolded One_nat_def] one)
    then have "bit (fat_next m fs c) i = bit (half_at m (fat_tab fs + 3 * of_nat q + of_nat 1)) (4 + i)"
      by (simp only: bit_drop_bit_eq comp_apply)
    moreover have "\<not> bit (half_at m a) (4 + i)" if "12 \<le> i" for a using that by (intro u16_high') simp
    moreover have e: "8 * (3 * q + 1) + (4 + i) = 12 * unat c + i" using c by simp
    ultimately show ?thesis using v [of "4 + i" 1, unfolded e] by (cases "i < 12") simp_all
  next
    case False
    have c: "unat c = 2 * q" using False by (simp add: q_def)
    have zero: "c AND 1 = 0" using False by (simp add: and_one_eq word_unat_eq_iff unat_mod_distrib even_iff_mod_2_eq_zero)
    have "fat_next m fs c = half_at m (fat_tab fs + 3 * of_nat q + of_nat 0) AND mask 12"
      by (simp add: fat_next_def half [unfolded One_nat_def] zero mask_eq_exp_minus_1)
    then have "bit (fat_next m fs c) i = (i < 12 \<and> bit (half_at m (fat_tab fs + 3 * of_nat q + of_nat 0)) i)"
      by (auto simp only: bit_and_iff bit_mask_iff) (auto dest: bit_imp_le_length)
    moreover have e: "8 * (3 * q + 0) + i = 12 * unat c + i" using c by simp
    ultimately show ?thesis using v [of i 0, unfolded e] by (cases "i < 12") simp_all
  qed
qed

section \<open>Copying clusters\<close>

definition bytes_at :: "mem \<Rightarrow> u32 \<Rightarrow> nat \<Rightarrow> u8 list" where
  "bytes_at m a n = map (\<lambda>i. m (a + of_nat i)) [0..<n]"

definition written :: "u8 list \<Rightarrow> u32 \<Rightarrow> mem \<Rightarrow> mem" where
  "written D a m = (\<lambda>x. if unat (x - a) < length D then D ! unat (x - a) else m x)"

lemma bytes_at_length [simp]: "length (bytes_at m a n) = n"
  by (simp add: bytes_at_def)

lemma written_nil [simp]: "written [] a m = m"
  by (simp add: written_def)

lemma written_append:
  assumes n: "length D + length E < 4294967296"
  shows "written E (a + of_nat (length D)) (written D a m) = written (D @ E) a m"
proof
  fix x
  have d: "unat (of_nat (length D) :: u32) = length D" using n by (intro unat_small) linarith
  define y where "y = x - a"
  have e: "x - (a + of_nat (length D)) = y - of_nat (length D)" by (simp add: y_def)
  have u: "unat (y - of_nat (length D)) = (if length D \<le> unat y then unat y - length D else unat y + 4294967296 - length D)"
    by (simp add: unat_sub_if' d)
  show "written E (a + of_nat (length D)) (written D a m) x = written (D @ E) a m x"
    unfolding written_def e u y_def [symmetric] using n by (auto simp: nth_append)
qed

text \<open>The addresses outside the \<open>N\<close> bytes of a buffer and its terminator.\<close>

definition outside :: "u32 \<Rightarrow> nat \<Rightarrow> u32 \<Rightarrow> bool" where
  "outside buf N a \<longleftrightarrow> N < unat (a - buf)"

lemma memcpy_written:
  assumes src: "\<forall>i<n. outside buf N (src + of_nat i)" and fit: "k + n \<le> N" "N < 4294967296"
  shows "memcpy (buf + of_nat k) src (of_nat n) m = written (bytes_at m src n) (buf + of_nat k) m"
proof -
  let ?d = "buf + of_nat k"
  have "apart_mem ?d src n" unfolding apart_mem_def
  proof (intro allI impI, rule ccontr)
    fix x assume x: "unat (x - ?d) < n" and "\<not> n \<le> unat (x - src)"
    then have "outside buf N (src + of_nat (unat (x - src)))" using src by (simp only: not_le)
    then have "N < unat (x - buf)" by (simp add: outside_def)
    moreover have "n \<le> unat (x - ?d)" by (rule offset_far [of N]) (use calculation fit in simp_all)
    ultimately show False using x by simp
  qed
  then have "memcpy ?d src (of_nat n) m = copied ?d src n m" by (rule memcpy_copied) (use fit in simp)
  also have "\<dots> = written (bytes_at m src n) ?d m"
    by (rule ext) (simp add: copied_def written_def bytes_at_def)
  finally show ?thesis .
qed

lemma written_outside:
  assumes "outside buf N a" and "k + length D \<le> N" and "N < 4294967296"
  shows "written D (buf + of_nat k) m a = m a"
proof -
  have "length D \<le> unat (a - (buf + of_nat k))"
    by (rule offset_far [of N]) (use assms in \<open>simp_all add: outside_def\<close>)
  then show ?thesis by (simp add: written_def)
qed

definition agree_outside :: "u32 \<Rightarrow> nat \<Rightarrow> mem \<Rightarrow> mem \<Rightarrow> bool" where
  "agree_outside buf N m m' \<longleftrightarrow> (\<forall>a. outside buf N a \<longrightarrow> m a = m' a)"

text \<open>A chain of clusters in the table, from \<open>c\<close> to the entry \<open>c'\<close> after them.\<close>

fun chain :: "mem \<Rightarrow> fat_fs \<Rightarrow> u16 \<Rightarrow> u16 list \<Rightarrow> u16 \<Rightarrow> bool" where
  "chain m fs c [] c' \<longleftrightarrow> c = c'"
| "chain m fs c (x # xs) c' \<longleftrightarrow> x = c \<and> c < 0xFF8 \<and> chain m fs (fat_next m fs c) xs c'"

text \<open>What is read of the image for a cluster: its bytes, its entry and the sector size.\<close>

definition entry_addr :: "fat_fs \<Rightarrow> u16 \<Rightarrow> u32" where
  "entry_addr fs c = fat_tab fs + 3 * ucast (drop_bit 1 c) + ucast (c AND 1)"

definition cluster_out :: "mem \<Rightarrow> fat_fs \<Rightarrow> u32 \<Rightarrow> nat \<Rightarrow> u16 \<Rightarrow> bool" where
  "cluster_out m fs buf N c \<longleftrightarrow> outside buf N (entry_addr fs c) \<and> outside buf N (entry_addr fs c + 1) \<and>
     (\<forall>i<unat (bytes_per_clus fs). outside buf N (first_byte m fs c + of_nat i))"

definition image_out :: "mem \<Rightarrow> fat_fs \<Rightarrow> u32 \<Rightarrow> nat \<Rightarrow> u16 list \<Rightarrow> bool" where
  "image_out m fs buf N cs \<longleftrightarrow> outside buf N (dbr fs + 11) \<and> outside buf N (dbr fs + 12) \<and>
     (\<forall>c\<in>set cs. cluster_out m fs buf N c)"

definition cluster_bytes :: "mem \<Rightarrow> fat_fs \<Rightarrow> u16 \<Rightarrow> u8 list" where
  "cluster_bytes m fs c = bytes_at m (first_byte m fs c) (unat (bytes_per_clus fs))"

lemma image_agree:
  assumes a: "agree_outside buf N m m'" and i: "image_out m fs buf N cs"
  shows "first_byte m' fs c = first_byte m fs c"
    "c \<in> set cs \<Longrightarrow> fat_next m' fs c = fat_next m fs c"
    "c \<in> set cs \<Longrightarrow> n \<le> unat (bytes_per_clus fs) \<Longrightarrow> bytes_at m' (first_byte m fs c) n = bytes_at m (first_byte m fs c) n"
proof -
  have e: "dbr fs + 11 + 1 = dbr fs + 12" by simp
  have "m' (dbr fs + 11) = m (dbr fs + 11)" "m' (dbr fs + 11 + 1) = m (dbr fs + 11 + 1)"
    using a i unfolding e by (simp_all only: agree_outside_def image_out_def)
  then show "first_byte m' fs c = first_byte m fs c" by (simp add: first_byte_def dbr_bytes_per_sec_def half_at_def)
  assume c: "c \<in> set cs"
  have "m' (entry_addr fs c) = m (entry_addr fs c)" "m' (entry_addr fs c + 1) = m (entry_addr fs c + 1)"
    using a i c by (simp_all add: agree_outside_def image_out_def cluster_out_def)
  then show "fat_next m' fs c = fat_next m fs c" by (simp add: fat_next_def half_at_def entry_addr_def)
  show "bytes_at m' (first_byte m fs c) n = bytes_at m (first_byte m fs c) n" if "n \<le> unat (bytes_per_clus fs)"
    using a i c that by (auto simp: agree_outside_def image_out_def cluster_out_def bytes_at_def)
qed

lemma fat_blocks_copies:
  "agree_outside buf N m0 m \<Longrightarrow> image_out m0 fs buf N cs \<Longrightarrow> chain m0 fs c cs c' \<Longrightarrow>
    r < unat (bytes_per_clus fs) \<Longrightarrow> k + (length cs * unat (bytes_per_clus fs) + r) \<le> N \<Longrightarrow> N < 4294967296 \<Longrightarrow>
    fat_blocks fs m c (first_byte m0 fs c) (buf + of_nat k) (of_nat (length cs * unat (bytes_per_clus fs) + r)) =
      Some (written (concat (map (cluster_bytes m0 fs) cs)) (buf + of_nat k) m, c', first_byte m0 fs c',
        buf + of_nat (k + length cs * unat (bytes_per_clus fs)), of_nat r)"
proof (induction cs arbitrary: c k m)
  case Nil
  have "unat (of_nat r :: u32) = r" using Nil.prems by (intro unat_small) linarith
  then have "\<not> bytes_per_clus fs \<le> of_nat r" using Nil.prems(4) by (simp add: word_le_nat_alt)
  then show ?case using Nil.prems(3) by (subst fat_blocks.simps) simp
next
  case (Cons x cs)
  let ?b = "unat (bytes_per_clus fs)"
  let ?rest = "length cs * ?b + r"
  have x: "x = c" "c < 0xFF8" and ch: "chain m0 fs (fat_next m0 fs c) cs c'" using Cons.prems(3) by simp_all
  have img: "image_out m0 fs buf N cs" using Cons.prems(2) by (simp add: image_out_def)
  have fit: "k + (?b + ?rest) \<le> N" using Cons.prems(5) by simp
  have cnt: "of_nat (length (x # cs) * ?b + r) = bytes_per_clus fs + (of_nat ?rest :: u32)" by simp
  have "unat (bytes_per_clus fs + (of_nat ?rest :: u32)) = ?b + ?rest"
    using unat_small [of "?b + ?rest"] fit Cons.prems(6) by simp
  then have ge: "bytes_per_clus fs \<le> bytes_per_clus fs + (of_nat ?rest :: u32)" by (simp add: word_le_nat_alt)
  have out: "\<forall>i<?b. outside buf N (first_byte m0 fs c + of_nat i)"
    using Cons.prems(2) x(1) by (simp add: image_out_def cluster_out_def)
  let ?m = "written (cluster_bytes m0 fs c) (buf + of_nat k) m"
  have "memcpy (buf + of_nat k) (first_byte m0 fs c) (of_nat ?b) m = written (bytes_at m (first_byte m0 fs c) ?b) (buf + of_nat k) m"
    by (rule memcpy_written [OF out]) (use fit Cons.prems(6) in simp_all)
  then have copy: "memcpy (buf + of_nat k) (first_byte m0 fs c) (bytes_per_clus fs) m = ?m"
    using image_agree(3) [OF Cons.prems(1,2), of c ?b] x(1) by (simp add: cluster_bytes_def)
  have agree: "agree_outside buf N m0 ?m" unfolding agree_outside_def
  proof (intro allI impI)
    fix a assume a: "outside buf N a"
    have "?m a = m a" by (rule written_outside [OF a]) (use fit Cons.prems(6) in \<open>simp_all add: cluster_bytes_def\<close>)
    then show "m0 a = ?m a" using Cons.prems(1) a by (simp add: agree_outside_def)
  qed
  have nx: "fat_next ?m fs c = fat_next m0 fs c" "first_byte ?m fs d = first_byte m0 fs d" for d
    using image_agree(1,2) [OF agree Cons.prems(2)] x(1) by simp_all
  have "fat_blocks fs m c (first_byte m0 fs c) (buf + of_nat k) (bytes_per_clus fs + of_nat ?rest)
      = fat_blocks fs ?m (fat_next m0 fs c) (first_byte m0 fs (fat_next m0 fs c)) (buf + of_nat (k + ?b)) (of_nat ?rest)"
    using ge x(2) by (subst fat_blocks.simps) (simp add: copy nx Let_def add.assoc)
  also have "\<dots> = Some (written (concat (map (cluster_bytes m0 fs) cs)) (buf + of_nat (k + ?b)) ?m, c', first_byte m0 fs c',
        buf + of_nat (k + ?b + length cs * ?b), of_nat r)"
    by (rule Cons.IH [OF agree img ch Cons.prems(4)]) (use fit Cons.prems(6) in simp_all)
  also have "written (concat (map (cluster_bytes m0 fs) cs)) (buf + of_nat (k + ?b)) ?m
      = written (concat (map (cluster_bytes m0 fs) (x # cs))) (buf + of_nat k) m"
  proof -
    have l: "length (concat (map (cluster_bytes m0 fs) cs)) = length cs * ?b"
      by (induction cs) (simp_all add: cluster_bytes_def)
    have "buf + of_nat (k + ?b) = buf + of_nat k + of_nat (length (cluster_bytes m0 fs c))" by (simp add: cluster_bytes_def add.assoc)
    then show ?thesis
      using written_append [of "cluster_bytes m0 fs c" "concat (map (cluster_bytes m0 fs) cs)" "buf + of_nat k" m] x(1) fit Cons.prems(6)
      by (simp add: l) (simp add: cluster_bytes_def add.assoc)
  qed
  finally show ?case unfolding cnt by (simp add: add.assoc)
qed

lemma fat_skip_stay: "\<not> bytes_per_clus fs < offset \<Longrightarrow> fat_skip m fs c offset = Some (c, offset)"
  by (subst fat_skip.simps) simp

lemma clusters_length: "length (concat (map (cluster_bytes m fs) cs)) = length cs * unat (bytes_per_clus fs)"
  by (induction cs) (simp_all add: cluster_bytes_def)

text \<open>The read in the terms of the code.\<close>

lemma fat_read_chain:
  assumes ch: "chain m fs (file_cluster m file) cs c" and last: "c < 0xFF8"
    and img: "image_out m fs buf n (c # cs)"
    and n: "n = length cs * unat (bytes_per_clus fs) + r" "0 < r" "r < unat (bytes_per_clus fs)" "n < 2147483648"
  shows "fat_read env pbuf fs file buf (of_nat n) 0 w m =
    Some (w, (written (take n (concat (map (cluster_bytes m fs) (cs @ [c])))) buf m)(buf + of_nat n := 0))"
proof -
  let ?b = "unat (bytes_per_clus fs)" and ?D = "concat (map (cluster_bytes m fs) cs)"
  have img': "image_out m fs buf n cs" using img by (simp add: image_out_def)
  have l: "length ?D = length cs * ?b" by (rule clusters_length)
  let ?m = "written ?D buf m"
  have blocks: "fat_blocks fs m (file_cluster m file) (first_byte m fs (file_cluster m file)) buf (of_nat n)
      = Some (?m, c, first_byte m fs c, buf + of_nat (length cs * ?b), of_nat r)"
    using fat_blocks_copies [OF _ img' ch n(3), of m 0] n by (simp add: agree_outside_def)
  have agree: "agree_outside buf n m ?m" unfolding agree_outside_def
    using written_outside [of buf n _ 0 ?D m] n l by simp
  have out: "\<forall>i<r. outside buf n (first_byte m fs c + of_nat i)"
    using img n(3) by (simp add: image_out_def cluster_out_def)
  have r: "sint (of_nat r :: u32) > 0" using n by (subst sint_of_small) simp_all
  have "memcpy (buf + of_nat (length cs * ?b)) (first_byte m fs c) (of_nat r) ?m
      = written (bytes_at ?m (first_byte m fs c) r) (buf + of_nat (length ?D)) ?m"
    using memcpy_written [OF out, of "length cs * ?b" ?m] n l by simp
  also have "bytes_at ?m (first_byte m fs c) r = bytes_at m (first_byte m fs c) r"
    by (rule image_agree(3) [OF agree img]) (use n in simp_all)
  also have "written (bytes_at m (first_byte m fs c) r) (buf + of_nat (length ?D)) ?m
      = written (?D @ bytes_at m (first_byte m fs c) r) buf m"
    by (rule written_append) (use n l in simp)
  also have "?D @ bytes_at m (first_byte m fs c) r = take n (concat (map (cluster_bytes m fs) (cs @ [c])))"
  proof -
    have "bytes_at m (first_byte m fs c) r = take r (cluster_bytes m fs c)"
      using n(3) by (simp add: cluster_bytes_def bytes_at_def take_map)
    then show ?thesis using l n(1) by simp
  qed
  finally have last_copy: "memcpy (buf + of_nat (length cs * ?b)) (first_byte m fs c) (of_nat r) ?m
      = written (take n (concat (map (cluster_bytes m fs) (cs @ [c])))) buf m" .
  define P where "P = buf + of_nat (length cs * ?b)"
  define M where "M = written (take n (concat (map (cluster_bytes m fs) (cs @ [c])))) buf m"
  have e: "P + of_nat r = buf + of_nat n" using n(1) by (simp add: P_def add.assoc)
  have "\<not> 0xFF8 \<le> c" using last by simp
  then show ?thesis
    using blocks r last last_copy unfolding P_def [symmetric] M_def [symmetric]
    by (simp add: fat_read_def fat_skip_stay Let_def e)
qed

section \<open>What a FAT12 volume holds\<close>

text \<open>
  The layout of a volume whose boot sector is at \<open>d\<close>, in the words of the format: reserved sectors, tables, root
  directory (32 bytes for an entry, in whole sectors), then the clusters, the first of them number 2. The entry of
  cluster \<open>c\<close> is the number in the 12 bits from bit \<open>12 c\<close> of the table on.
\<close>

definition le16 :: "mem \<Rightarrow> u32 \<Rightarrow> nat" where
  "le16 m a = unat (m a) + 256 * unat (m (a + 1))"

definition sector_size :: "mem \<Rightarrow> u32 \<Rightarrow> nat" where "sector_size m d = le16 m (d + 11)"
definition cluster_sectors :: "mem \<Rightarrow> u32 \<Rightarrow> nat" where "cluster_sectors m d = unat (m (d + 13))"
definition reserved_sectors :: "mem \<Rightarrow> u32 \<Rightarrow> nat" where "reserved_sectors m d = le16 m (d + 14)"
definition table_sectors :: "mem \<Rightarrow> u32 \<Rightarrow> nat" where "table_sectors m d = unat (m (d + 16)) * le16 m (d + 22)"
definition root_bytes :: "mem \<Rightarrow> u32 \<Rightarrow> nat" where "root_bytes m d = 32 * le16 m (d + 17)"

definition table_start :: "mem \<Rightarrow> u32 \<Rightarrow> u32" where
  "table_start m d = d + of_nat (reserved_sectors m d * sector_size m d)"

definition data_sector :: "mem \<Rightarrow> u32 \<Rightarrow> nat" where
  "data_sector m d = reserved_sectors m d + table_sectors m d + (root_bytes m d + sector_size m d - 1) div sector_size m d"

definition cluster_size :: "mem \<Rightarrow> u32 \<Rightarrow> nat" where
  "cluster_size m d = cluster_sectors m d * sector_size m d"

definition cluster_start :: "mem \<Rightarrow> u32 \<Rightarrow> nat \<Rightarrow> u32" where
  "cluster_start m d c = d + of_nat (data_sector m d * sector_size m d + (c - 2) * cluster_size m d)"

definition cluster_data :: "mem \<Rightarrow> u32 \<Rightarrow> nat \<Rightarrow> u8 list" where
  "cluster_data m d c = bytes_at m (cluster_start m d c) (cluster_size m d)"

definition table_entry :: "mem \<Rightarrow> u32 \<Rightarrow> nat \<Rightarrow> nat" where
  "table_entry m d c = horner_sum of_bool 2 (map (fat_bit m (table_start m d)) [12 * c..<12 * c + 12])"

text \<open>The first clusters of a file, from \<open>c\<close> on; a number from 0xFF8 on ends the file.\<close>

fun file_clusters :: "mem \<Rightarrow> u32 \<Rightarrow> nat \<Rightarrow> nat list \<Rightarrow> bool" where
  "file_clusters m d c [] \<longleftrightarrow> False"
| "file_clusters m d c (x # xs) \<longleftrightarrow> x = c \<and> 2 \<le> c \<and> c < 0xFF8 \<and> (xs = [] \<or> file_clusters m d (table_entry m d c) xs)"

text \<open>What is read of the volume for these clusters is not in the buffer.\<close>

definition volume_apart :: "mem \<Rightarrow> u32 \<Rightarrow> u32 \<Rightarrow> nat \<Rightarrow> nat list \<Rightarrow> bool" where
  "volume_apart m d buf n cs \<longleftrightarrow> outside buf n (d + 11) \<and> outside buf n (d + 12) \<and>
     (\<forall>c\<in>set cs. (\<forall>i<2. outside buf n (table_start m d + of_nat (c + c div 2 + i))) \<and>
       (\<forall>i<cluster_size m d. outside buf n (cluster_start m d c + of_nat i)))"

text \<open>
  A volume the code reads right: \<open>first_byte\<close> takes a cluster for one sector, and \<open>data_area\<close>, which lies a sector too far
  when the root directory fills whole sectors, goes together with the 3 of \<open>first_byte\<close> only then.
\<close>

definition plain_volume :: "mem \<Rightarrow> u32 \<Rightarrow> bool" where
  "plain_volume m d \<longleftrightarrow> cluster_sectors m d = 1 \<and> 0 < sector_size m d \<and> sector_size m d dvd root_bytes m d"

lemma half_at_le16: "unat (half_at m a) = le16 m a"
proof -
  have "half_at m a = ucast (m a) + push_bit 8 (ucast (m (a + 1)))"
    unfolding half_at_def by (rule disjunctive_add [symmetric]) (auto simp: bit_push_bit_iff bit_ucast_iff u8_high)
  also have "\<dots> = of_nat (le16 m a)" by (simp add: le16_def push_bit_eq_mult)
  finally have h: "half_at m a = of_nat (le16 m a)" .
  have "le16 m a < 65536" using u8_lt [of "m a"] u8_lt [of "m (a + 1)"] by (simp add: le16_def)
  then show ?thesis unfolding h by (simp add: unsigned_of_nat take_bit_nat_eq_self)
qed

lemma half_at_word: "(ucast (half_at m a) :: u32) = of_nat (le16 m a)"
  unfolding half_at_le16 [symmetric] by simp

lemma ucast_of_unat: "unat x = n \<Longrightarrow> (ucast x :: u32) = of_nat n"
  by (drule sym) simp

lemma entry_addr_offset:
  fixes c :: u16
  shows "(3 * ucast (drop_bit 1 c) + ucast (c AND 1) :: u32) = of_nat (unat c + unat c div 2)"
proof -
  have "unat (drop_bit 1 c) = unat c div 2" by (simp only: unat_drop_bit_eq) (simp add: drop_bit_eq_div)
  then have "ucast (drop_bit 1 c) = (of_nat (unat c div 2) :: u32)" by (rule ucast_of_unat)
  moreover have "unat (c AND 1) = unat c mod 2" by (simp add: and_one_eq unat_mod_distrib)
  then have "ucast (c AND 1) = (of_nat (unat c mod 2) :: u32)" by (rule ucast_of_unat)
  moreover have "unat c + unat c div 2 = 3 * (unat c div 2) + unat c mod 2" by presburger
  ultimately show ?thesis by (simp only: of_nat_add of_nat_mult of_nat_numeral)
qed

text \<open>The code finds the parts of a plain volume where they are.\<close>

lemma fat_init_table: "fs = fat_init mods m \<Longrightarrow> fat_tab fs = table_start m (dbr fs)"
  by (simp add: fat_init_def Let_def table_start_def reserved_sectors_def sector_size_def dbr_resvd_sec_cnt_def
      dbr_bytes_per_sec_def half_at_word)

lemma fat_init_size:
  assumes "fs = fat_init mods m" and "cluster_sectors m (dbr fs) = 1"
  shows "unat (bytes_per_clus fs) = cluster_size m (dbr fs)"
proof -
  let ?d = "dbr fs"
  have one: "(ucast (m (?d + 13)) :: u32) = 1" using ucast_of_unat [of "m (?d + 13)" 1] assms(2) by (simp add: cluster_sectors_def)
  have "bytes_per_clus fs = ucast (dbr_bytes_per_sec m ?d) * ucast (dbr_sec_per_clus m ?d)"
    using assms(1) by (simp add: fat_init_def Let_def)
  then have "bytes_per_clus fs = ucast (half_at m (?d + 11))" by (simp add: dbr_bytes_per_sec_def dbr_sec_per_clus_def one)
  then show ?thesis using assms(2) by (simp add: unat_ucast_up half_at_le16 cluster_size_def sector_size_def)
qed

lemma fat_init_first_byte:
  assumes fs: "fs = fat_init mods m" and z: "0 < sector_size m (dbr fs)" "sector_size m (dbr fs) dvd root_bytes m (dbr fs)"
    and c: "2 \<le> unat c"
  shows "first_byte m fs c = dbr fs + of_nat (data_sector m (dbr fs) * sector_size m (dbr fs) + (unat c - 2) * sector_size m (dbr fs))"
proof -
  let ?d = "dbr fs" and ?b = "sector_size m (dbr fs)"
  obtain k where k: "root_bytes m ?d = ?b * k" using z(2) ..
  have ceil: "(root_bytes m ?d + ?b - 1) div ?b = k"
    using z(1) k by (intro div_nat_eqI) (auto simp: algebra_simps)
  have b: "(ucast (dbr_bytes_per_sec m ?d) :: u32) = of_nat ?b" by (simp add: dbr_bytes_per_sec_def half_at_word sector_size_def)
  have "(ucast (dbr_root_ent_cnt m ?d) * 32 :: u32) div of_nat ?b = of_nat k"
  proof -
    have r: "(ucast (dbr_root_ent_cnt m ?d) * 32 :: u32) = of_nat (root_bytes m ?d)"
      by (simp add: dbr_root_ent_cnt_def half_at_word root_bytes_def mult.commute)
    have lt: "le16 m a < 65536" for a using u16_lt [of "half_at m a"] by (simp add: half_at_le16)
    have "root_bytes m ?d < 4294967296" "?b < 4294967296" using lt [of "?d + 17"] lt [of "?d + 11"]
      by (simp_all add: root_bytes_def sector_size_def)
    then have "unat (of_nat (root_bytes m ?d) div of_nat ?b :: u32) = root_bytes m ?d div ?b" by (simp add: unat_div unat_small)
    then have "unat (of_nat (root_bytes m ?d) div of_nat ?b :: u32) = k" using z(1) k by simp
    then show ?thesis unfolding r using ucast_of_unat [of "of_nat (root_bytes m ?d) div of_nat ?b :: u32" k] by simp
  qed
  note div = this
  have "data_area fs = ?d + ucast (dbr_resvd_sec_cnt m ?d) * ucast (dbr_bytes_per_sec m ?d)
      + ucast (dbr_num_fats m ?d) * ucast (dbr_fat_size m ?d) * ucast (dbr_bytes_per_sec m ?d)
      + (ucast (dbr_root_ent_cnt m ?d) * 32 div ucast (dbr_bytes_per_sec m ?d) + 1) * ucast (dbr_bytes_per_sec m ?d)"
    unfolding fs by (simp only: fat_init_def Let_def fat_fs.simps)
  then have da: "data_area fs = ?d + of_nat ((reserved_sectors m ?d + table_sectors m ?d + k + 1) * ?b)"
    unfolding b div by (simp add: dbr_resvd_sec_cnt_def dbr_num_fats_def dbr_fat_size_def half_at_word reserved_sectors_def
        table_sectors_def algebra_simps)
  have "(ucast c :: u32) = of_nat (unat c - 2) + 2" using c by (simp add: of_nat_diff)
  then have "first_byte m fs c = data_area fs + (of_nat (unat c - 2) - 1) * of_nat ?b" by (simp add: first_byte_def b)
  then show ?thesis unfolding da data_sector_def ceil of_nat_add of_nat_mult by (simp add: algebra_simps)
qed

lemma fat_next_table:
  assumes "fs = fat_init mods m"
  shows "unat (fat_next m fs c) = table_entry m (dbr fs) (unat c)"
proof -
  have "take_bit 12 (fat_next m fs c) = fat_next m fs c"
    by (rule bit_word_eqI) (auto simp: bit_take_bit_iff fat_entry_bits)
  then have "unat (fat_next m fs c) = horner_sum of_bool 2 (map (bit (unat (fat_next m fs c))) [0..<12])"
    by (metis horner_sum_bit_eq_take_bit unsigned_take_bit_eq)
  also have "map (bit (unat (fat_next m fs c))) [0..<12]
      = map (fat_bit m (table_start m (dbr fs))) [12 * unat c..<12 * unat c + 12]"
    by (rule nth_equalityI) (simp_all add: bit_unsigned_iff fat_entry_bits fat_init_table [OF assms])
  finally show ?thesis by (simp add: table_entry_def)
qed

lemma plain_cluster_start:
  assumes fs: "fs = fat_init mods m" and v: "plain_volume m (dbr fs)" and c: "2 \<le> unat c"
  shows "first_byte m fs c = cluster_start m (dbr fs) (unat c)" "cluster_bytes m fs c = cluster_data m (dbr fs) (unat c)"
proof -
  show f: "first_byte m fs c = cluster_start m (dbr fs) (unat c)"
    using fat_init_first_byte [OF fs _ _ c] v by (simp add: plain_volume_def cluster_start_def cluster_size_def)
  show "cluster_bytes m fs c = cluster_data m (dbr fs) (unat c)"
    using fat_init_size [OF fs] v by (simp add: cluster_bytes_def cluster_data_def f plain_volume_def)
qed

text \<open>The same clusters as the chain of the code.\<close>

lemma file_clusters_chain:
  assumes fs: "fs = fat_init mods m"
  shows "file_clusters m (dbr fs) (unat c) cs \<Longrightarrow> \<exists>xs x. cs = map unat (xs @ [x]) \<and> chain m fs c xs x \<and> x < 0xFF8 \<and> (\<forall>y\<in>set (xs @ [x]). 2 \<le> unat y)"
proof (induction cs arbitrary: c)
  case (Cons y ys)
  have c: "y = unat c" "2 \<le> unat c" "c < 0xFF8" using Cons.prems by (simp_all add: word_less_nat_alt)
  show ?case
  proof (cases "ys = []")
    case True
    then show ?thesis using c by (intro exI [of _ "[]"] exI [of _ c]) simp
  next
    case False
    then have "file_clusters m (dbr fs) (unat (fat_next m fs c)) ys" using Cons.prems fat_next_table [OF fs, of c] by simp
    from Cons.IH [OF this] obtain xs x where "ys = map unat (xs @ [x])" "chain m fs (fat_next m fs c) xs x" "x < 0xFF8"
      "\<forall>y\<in>set (xs @ [x]). 2 \<le> unat y" by blast
    then show ?thesis using c by (intro exI [of _ "c # xs"] exI [of _ x]) simp
  qed
qed simp

lemma volume_image_out:
  assumes fs: "fs = fat_init mods m" and v: "plain_volume m (dbr fs)"
    and a: "volume_apart m (dbr fs) buf n (map unat cs)" and c: "\<forall>c\<in>set cs. 2 \<le> unat c"
  shows "image_out m fs buf n cs"
proof -
  have "cluster_out m fs buf n c" if "c \<in> set cs" for c
  proof -
    let ?e = "table_start m (dbr fs) + of_nat (unat c + unat c div 2)"
    have e: "entry_addr fs c = ?e" by (simp only: entry_addr_def fat_init_table [OF fs] entry_addr_offset add.assoc)
    have "\<forall>i<2. outside buf n (table_start m (dbr fs) + of_nat (unat c + unat c div 2 + i))"
      and "\<forall>i<cluster_size m (dbr fs). outside buf n (cluster_start m (dbr fs) (unat c) + of_nat i)"
      using a that by (simp_all add: volume_apart_def)
    from this(1) [rule_format, of 0] this(1) [rule_format, of 1] this(2) show ?thesis
      using plain_cluster_start(1) [OF fs v] fat_init_size [OF fs] v c that
      unfolding cluster_out_def e by (simp add: plain_volume_def ac_simps)
  qed
  then show ?thesis using a by (simp add: image_out_def volume_apart_def)
qed

section \<open>Properties\<close>

text \<open>
  C30. On a plain volume, one with a sector for a cluster, reading from the start of a file a number of bytes that ends
  inside a cluster of the file delivers exactly these bytes of the clusters, as the layout of FAT12 places and chains
  them, terminated, touches no other byte and prints nothing, provided the volume lies outside the buffer.
\<close>

theorem fat_read_from_start:
  assumes fs: "fs = fat_init mods m" and v: "plain_volume m (dbr fs)"
    and cs: "file_clusters m (dbr fs) (le16 m (file + 26)) cs" and apart: "volume_apart m (dbr fs) buf n cs"
    and n: "(length cs - 1) * cluster_size m (dbr fs) < n" "n < length cs * cluster_size m (dbr fs)" "n < 2147483648"
  shows "fat_read env pbuf fs file buf (of_nat n) 0 w m =
    Some (w, (written (take n (concat (map (cluster_data m (dbr fs)) cs))) buf m)(buf + of_nat n := 0))"
proof -
  let ?b = "cluster_size m (dbr fs)"
  have b: "unat (bytes_per_clus fs) = ?b" using fat_init_size [OF fs] v by (simp add: plain_volume_def)
  have "le16 m (file + 26) = unat (file_cluster m file)" by (simp add: file_cluster_def half_at_le16)
  then obtain xs x where x: "cs = map unat (xs @ [x])" "chain m fs (file_cluster m file) xs x" "x < 0xFF8"
    "\<forall>y\<in>set (xs @ [x]). 2 \<le> unat y" using file_clusters_chain [OF fs, of "file_cluster m file" cs] cs by auto
  have img: "image_out m fs buf n (xs @ [x])" using volume_image_out [OF fs v _ x(4)] apart x(1) by simp
  define r where "r = n - length xs * ?b"
  have r: "n = length xs * unat (bytes_per_clus fs) + r" "0 < r" "r < unat (bytes_per_clus fs)"
    using n(1,2) x(1) unfolding b by (auto simp: r_def)
  have "map (cluster_bytes m fs) (xs @ [x]) = map (cluster_data m (dbr fs)) cs"
    unfolding x(1) map_map by (rule map_cong) (use plain_cluster_start(2) [OF fs v] x(4) in auto)
  moreover have "image_out m fs buf n (x # xs)" using img by (auto simp: image_out_def)
  ultimately show ?thesis using fat_read_chain [OF x(2,3) _ r n(3)] by simp
qed

text \<open>With more than a sector for a cluster the code looks for cluster 3 inside cluster 2.\<close>

theorem fat_cluster_misplaced:
  assumes fs: "fs = fat_init mods m" and z: "0 < sector_size m (dbr fs)" "sector_size m (dbr fs) dvd root_bytes m (dbr fs)"
    and s: "1 < cluster_sectors m (dbr fs)"
  shows "first_byte m fs 3 \<noteq> cluster_start m (dbr fs) 3"
    "first_byte m fs 3 = cluster_start m (dbr fs) 2 + of_nat (sector_size m (dbr fs))"
proof -
  let ?d = "dbr fs" and ?b = "sector_size m (dbr fs)" and ?k = "cluster_sectors m (dbr fs)"
  have f: "first_byte m fs 3 = ?d + of_nat (data_sector m ?d * ?b + ?b)" using fat_init_first_byte [OF fs z, of 3] by simp
  then show "first_byte m fs 3 = cluster_start m ?d 2 + of_nat ?b" by (simp add: cluster_start_def add.assoc)
  have lt: "?b < 65536" "?k < 256" using u16_lt [of "half_at m (?d + 11)"] u8_lt [of "m (?d + 13)"]
    by (simp_all add: sector_size_def cluster_sectors_def half_at_le16)
  then have "?k * ?b < 256 * 65536" by (intro mult_strict_mono) simp_all
  moreover have "?b < ?k * ?b" using s z(1) by simp
  moreover have "?b < 4294967296" "(256 * 65536 :: nat) \<le> 4294967296" using lt(1) by simp_all
  ultimately have "(of_nat ?b :: u32) \<noteq> of_nat (?k * ?b)" by (subst of_nat_eq_word) linarith+
  then show "first_byte m fs 3 \<noteq> cluster_start m ?d 3" by (simp add: f cluster_start_def cluster_size_def)
qed

text \<open>
  A small volume at 0x1000: sectors of 32 bytes, one reserved, one of the table, one of the root directory; the
  file of its only entry is in the clusters 2 and 3.
\<close>

definition fat_image :: mem where
  "fat_image = (\<lambda>a. if 0x1060 \<le> a \<and> a < 0x2000 then ucast a else 0)
    (0x101 := 0x10, 0x103 := 0x40, 0x100B := 32, 0x100D := 1, 0x100E := 1, 0x1010 := 1, 0x1011 := 1, 0x1016 := 1, 0x1023 := 3, 0x105A := 2)"

lemma fat_image_fields:
  "dbr (fat_init 0x100 fat_image) = 0x1000" "sector_size fat_image 0x1000 = 32" "cluster_sectors fat_image 0x1000 = 1"
  "root_bytes fat_image 0x1000 = 32" "table_start fat_image 0x1000 = 0x1020" "cluster_start fat_image 0x1000 2 = 0x1060"
  "cluster_start fat_image 0x1000 3 = 0x1080" "cluster_size fat_image 0x1000 = 32" "le16 fat_image 0x105A = 2"
  by (simp_all add: fat_init_def Let_def word_at_def fat_image_def sector_size_def cluster_sectors_def root_bytes_def le16_def
      table_start_def cluster_start_def cluster_size_def data_sector_def reserved_sectors_def table_sectors_def)

lemma fat_image_entry: "table_entry fat_image 0x1000 2 = 3"
  unfolding table_entry_def fat_image_fields by code_simp

theorem fat_read_from_start_witness:
  "fat_read (\<lambda>_ _. 0) 0 (fat_init 0x100 fat_image) 0x1040 0x8000 40 0 uart_boot fat_image =
    Some (uart_boot, (written (map (\<lambda>i. of_nat (0x60 + i)) [0..<40]) 0x8000 fat_image)(0x8028 := 0))"
proof -
  let ?fs = "fat_init 0x100 fat_image"
  have v: "plain_volume fat_image (dbr ?fs)" by (simp add: plain_volume_def fat_image_fields)
  have cs: "file_clusters fat_image (dbr ?fs) (le16 fat_image (0x1040 + 26)) [2, 3]"
    by (simp add: fat_image_fields fat_image_entry)
  have far: "outside 0x8000 40 (a + of_nat i)" if "unat a < 0x2000" "i < 64" for a i
    using that by (simp add: outside_def unat_word_ariths unat_sub_if' unat_small)
  have apart: "volume_apart fat_image (dbr ?fs) 0x8000 40 [2, 3]"
    unfolding volume_apart_def fat_image_fields using far [of "0x1060"] far [of "0x1080"] far [of "0x1023"] far [of "0x1024"] far [of "0x100B" 0] far [of "0x100C" 0]
    by (auto simp: fat_image_fields)
  have t: "take 40 (concat (map (cluster_data fat_image (dbr ?fs)) [2, 3])) = map (\<lambda>i. of_nat (0x60 + i)) [0..<40]"
    unfolding fat_image_fields cluster_data_def by code_simp
  have "fat_read (\<lambda>_ _. 0) 0 ?fs 0x1040 0x8000 (of_nat 40) 0 uart_boot fat_image = Some (uart_boot,
      (written (take 40 (concat (map (cluster_data fat_image (dbr ?fs)) [2, 3]))) 0x8000 fat_image)(0x8000 + of_nat 40 := 0))"
    by (rule fat_read_from_start [OF refl v cs apart]) (simp_all add: fat_image_fields)
  moreover have "(of_nat 40 :: u32) = 40" "(0x8000 + of_nat 40 :: u32) = 0x8028" by simp_all
  ultimately show ?thesis unfolding t by metis
qed

end
