(* ===== verification/Rbtree.thy ===== *)
theory Rbtree
  imports Prelude "HOL-Library.Monad_Syntax"
begin

text \<open>
  The intrusive red-black tree of \<open>lib/rbtree.c\<close> and \<open>include/rbtree.h\<close>. A node is named by its address; the
  word \<open>__color_parent\<close> holds the address of the parent with the colour in bit 0. \<open>nil\<close> is the address of the
  sentinel \<open>__rb_null\<close> (\<open>rb_nullptr\<close>), chosen by the linker, and \<open>cmp\<close> the function \<open>rb->compare\<close>: both are
  parameters. The loops follow pointers and are partial functions.
\<close>

section \<open>The code\<close>

record rb_node =
  color_parent :: u32
  node_left :: u32
  node_right :: u32

record rb_state =
  rb_mem :: "u32 \<Rightarrow> rb_node"
  rb_root :: u32

definition RB_RED :: u32 where "RB_RED = 0"
definition RB_BLACK :: u32 where "RB_BLACK = 1"

definition rb_upd :: "u32 \<Rightarrow> (rb_node \<Rightarrow> rb_node) \<Rightarrow> rb_state \<Rightarrow> rb_state" where
  "rb_upd nd f s = s\<lparr>rb_mem := (rb_mem s)(nd := f (rb_mem s nd))\<rparr>"

definition lft :: "rb_state \<Rightarrow> u32 \<Rightarrow> u32" where "lft s nd = node_left (rb_mem s nd)"
definition rgt :: "rb_state \<Rightarrow> u32 \<Rightarrow> u32" where "rgt s nd = node_right (rb_mem s nd)"

definition set_left :: "u32 \<Rightarrow> u32 \<Rightarrow> rb_state \<Rightarrow> rb_state" where
  "set_left nd v s = rb_upd nd (\<lambda>n. n\<lparr>node_left := v\<rparr>) s"

definition set_right :: "u32 \<Rightarrow> u32 \<Rightarrow> rb_state \<Rightarrow> rb_state" where
  "set_right nd v s = rb_upd nd (\<lambda>n. n\<lparr>node_right := v\<rparr>) s"

definition rb_parent :: "rb_state \<Rightarrow> u32 \<Rightarrow> u32" where
  "rb_parent s nd = color_parent (rb_mem s nd) AND NOT 3"

definition rb_pparent :: "rb_state \<Rightarrow> u32 \<Rightarrow> u32" where
  "rb_pparent s nd = rb_parent s (rb_parent s nd)"

definition rb_color :: "rb_state \<Rightarrow> u32 \<Rightarrow> u32" where
  "rb_color s nd = color_parent (rb_mem s nd) AND 1"

definition rb_is_red :: "rb_state \<Rightarrow> u32 \<Rightarrow> bool" where
  "rb_is_red s nd \<longleftrightarrow> rb_color s nd = 0"

definition rb_is_black :: "rb_state \<Rightarrow> u32 \<Rightarrow> bool" where
  "rb_is_black s nd \<longleftrightarrow> rb_color s nd \<noteq> 0"

definition rb_set_parent :: "u32 \<Rightarrow> u32 \<Rightarrow> rb_state \<Rightarrow> rb_state" where
  "rb_set_parent nd pa s = rb_upd nd (\<lambda>n. n\<lparr>color_parent := pa OR (color_parent n AND 3)\<rparr>) s"

definition rb_set_color :: "u32 \<Rightarrow> u32 \<Rightarrow> rb_state \<Rightarrow> rb_state" where
  "rb_set_color nd clr s = rb_upd nd (\<lambda>n. n\<lparr>color_parent := (color_parent n AND NOT 1) OR (clr AND 1)\<rparr>) s"

definition rb_set_parent_color :: "u32 \<Rightarrow> u32 \<Rightarrow> u32 \<Rightarrow> rb_state \<Rightarrow> rb_state" where
  "rb_set_parent_color nd pa clr s = rb_upd nd (\<lambda>n. n\<lparr>color_parent := pa OR (clr AND 1)\<rparr>) s"

definition rb_init_node :: "u32 \<Rightarrow> u32 \<Rightarrow> rb_state \<Rightarrow> rb_state" where
  "rb_init_node nil nd s = set_right nd nil (set_left nd nil (rb_set_parent_color nd nil RB_RED s))"

text \<open>The branches the rotations and \<open>rb_transplant\<close> share: \<open>ndy\<close> takes the place of \<open>ndx\<close> below its parent.\<close>

definition rb_replace :: "u32 \<Rightarrow> u32 \<Rightarrow> u32 \<Rightarrow> rb_state \<Rightarrow> rb_state" where
  "rb_replace nil ndx ndy s =
    (if rb_parent s ndx = nil then s\<lparr>rb_root := ndy\<rparr>
     else if ndx = lft s (rb_parent s ndx) then set_left (rb_parent s ndx) ndy s
     else set_right (rb_parent s ndx) ndy s)"

definition rb_left_rotate :: "u32 \<Rightarrow> u32 \<Rightarrow> rb_state \<Rightarrow> rb_state" where
  "rb_left_rotate nil ndx s =
    (let ndy = rgt s ndx;
         s = set_right ndx (lft s ndy) s;
         s = (if lft s ndy \<noteq> nil then rb_set_parent (lft s ndy) ndx s else s);
         s = rb_set_parent ndy (rb_parent s ndx) s;
         s = rb_replace nil ndx ndy s;
         s = set_left ndy ndx s
     in rb_set_parent ndx ndy s)"

definition rb_right_rotate :: "u32 \<Rightarrow> u32 \<Rightarrow> rb_state \<Rightarrow> rb_state" where
  "rb_right_rotate nil ndx s =
    (let ndy = lft s ndx;
         s = set_left ndx (rgt s ndy) s;
         s = (if rgt s ndy \<noteq> nil then rb_set_parent (rgt s ndy) ndx s else s);
         s = rb_set_parent ndy (rb_parent s ndx) s;
         s = rb_replace nil ndx ndy s;
         s = set_right ndy ndx s
     in rb_set_parent ndx ndy s)"

partial_function (option) rb_left_most :: "u32 \<Rightarrow> rb_state \<Rightarrow> u32 \<Rightarrow> u32 option" where
  "rb_left_most nil s nd = (if lft s nd \<noteq> nil then rb_left_most nil s (lft s nd) else Some nd)"

partial_function (option) rb_right_most :: "u32 \<Rightarrow> rb_state \<Rightarrow> u32 \<Rightarrow> u32 option" where
  "rb_right_most nil s nd = (if rgt s nd \<noteq> nil then rb_right_most nil s (rgt s nd) else Some nd)"

definition rb_transplant :: "u32 \<Rightarrow> u32 \<Rightarrow> u32 \<Rightarrow> rb_state \<Rightarrow> rb_state" where
  "rb_transplant nil ndx ndy s = (let s = rb_replace nil ndx ndy s in rb_set_parent ndy (rb_parent s ndx) s)"

text \<open>One turn of the loop of \<open>rb_insert_fixup\<close>: the node to go on with and the tree.\<close>

definition rb_insert_step :: "u32 \<Rightarrow> u32 \<Rightarrow> rb_state \<Rightarrow> u32 \<times> rb_state" where
  "rb_insert_step nil nd s =
    (if rb_parent s nd = lft s (rb_pparent s nd) then
       let uncle = rgt s (rb_pparent s nd)
       in if rb_is_red s uncle then
            let s = rb_set_color (rb_parent s nd) RB_BLACK s;
                s = rb_set_color uncle RB_BLACK s;
                s = rb_set_color (rb_pparent s nd) RB_RED s
            in (rb_pparent s nd, s)
          else
            let (nd, s) = (if nd = rgt s (rb_parent s nd)
                  then let nd = rb_parent s nd in (nd, rb_left_rotate nil nd s) else (nd, s));
                s = rb_set_color (rb_parent s nd) RB_BLACK s;
                s = rb_set_color (rb_pparent s nd) RB_RED s
            in (nd, rb_right_rotate nil (rb_pparent s nd) s)
     else
       let uncle = lft s (rb_pparent s nd)
       in if rb_is_red s uncle then
            let s = rb_set_color (rb_parent s nd) RB_BLACK s;
                s = rb_set_color uncle RB_BLACK s;
                s = rb_set_color (rb_pparent s nd) RB_RED s
            in (rb_pparent s nd, s)
          else
            let (nd, s) = (if nd = lft s (rb_parent s nd)
                  then let nd = rb_parent s nd in (nd, rb_right_rotate nil nd s) else (nd, s));
                s = rb_set_color (rb_parent s nd) RB_BLACK s;
                s = rb_set_color (rb_pparent s nd) RB_RED s
            in (nd, rb_left_rotate nil (rb_pparent s nd) s))"

partial_function (option) rb_insert_fixup :: "u32 \<Rightarrow> u32 \<Rightarrow> rb_state \<Rightarrow> rb_state option" where
  "rb_insert_fixup nil nd s =
    (if rb_is_red s (rb_parent s nd) then let (nd, s) = rb_insert_step nil nd s in rb_insert_fixup nil nd s
     else Some (rb_set_color (rb_root s) RB_BLACK s))"

text \<open>The search of \<open>rb_insert\<close>: \<open>pre\<close> when \<open>p\<close> is the sentinel.\<close>

partial_function (option) rb_insert_search ::
  "(u32 \<Rightarrow> u32 \<Rightarrow> int) \<Rightarrow> u32 \<Rightarrow> u32 \<Rightarrow> rb_state \<Rightarrow> u32 \<Rightarrow> u32 \<Rightarrow> u32 option" where
  "rb_insert_search cmp nil nd s pre p =
    (if p \<noteq> nil then rb_insert_search cmp nil nd s p (if cmp nd p < 0 then lft s p else rgt s p) else Some pre)"

definition rb_insert :: "(u32 \<Rightarrow> u32 \<Rightarrow> int) \<Rightarrow> u32 \<Rightarrow> u32 \<Rightarrow> rb_state \<Rightarrow> rb_state option" where
  "rb_insert cmp nil nd s = do {
     pre \<leftarrow> rb_insert_search cmp nil nd s nil (rb_root s);
     let s = (if pre = nil then s\<lparr>rb_root := nd\<rparr>
       else if cmp nd pre < 0 then set_left pre nd s else set_right pre nd s);
     let s = set_left nd nil s;
     let s = set_right nd nil s;
     let s = rb_set_parent_color nd pre RB_RED s;
     rb_insert_fixup nil nd s
   }"

text \<open>One turn of the loop of \<open>rb_delete_fixup\<close>.\<close>

definition rb_delete_step :: "u32 \<Rightarrow> u32 \<Rightarrow> rb_state \<Rightarrow> u32 \<times> rb_state" where
  "rb_delete_step nil nd s =
    (if nd = lft s (rb_parent s nd) then
       let bro = rgt s (rb_parent s nd);
           (bro, s) = (if rb_is_red s bro then
               let s = rb_set_color bro RB_BLACK s;
                   s = rb_set_color (rb_parent s nd) RB_RED s;
                   s = rb_left_rotate nil (rb_parent s nd) s
               in (rgt s (rb_parent s nd), s)
             else (bro, s))
       in if rb_is_black s (lft s bro) \<and> rb_is_black s (rgt s bro) then
            let s = rb_set_color bro RB_RED s in (rb_parent s nd, s)
          else
            let (bro, s) = (if rb_is_black s (rgt s bro) then
                  let s = rb_set_color (lft s bro) RB_BLACK s;
                      s = rb_set_color bro RB_RED s;
                      s = rb_right_rotate nil bro s
                  in (rgt s (rb_parent s nd), s)
                else (bro, s));
                s = rb_set_color bro (rb_color s (rb_parent s nd)) s;
                s = rb_set_color (rb_parent s nd) RB_BLACK s;
                s = rb_set_color (rgt s bro) RB_BLACK s;
                s = rb_left_rotate nil (rb_parent s nd) s
            in (rb_root s, s)
     else
       let bro = lft s (rb_parent s nd);
           (bro, s) = (if rb_is_red s bro then
               let s = rb_set_color bro RB_BLACK s;
                   s = rb_set_color (rb_parent s nd) RB_RED s;
                   s = rb_right_rotate nil (rb_parent s nd) s
               in (lft s (rb_parent s nd), s)
             else (bro, s))
       in if rb_is_black s (lft s bro) \<and> rb_is_black s (rgt s bro) then
            let s = rb_set_color bro RB_RED s in (rb_parent s nd, s)
          else
            let (bro, s) = (if rb_is_black s (lft s bro) then
                  let s = rb_set_color (rgt s bro) RB_BLACK s;
                      s = rb_set_color bro RB_RED s;
                      s = rb_left_rotate nil bro s
                  in (lft s (rb_parent s nd), s)
                else (bro, s));
                s = rb_set_color bro (rb_color s (rb_parent s nd)) s;
                s = rb_set_color (rb_parent s nd) RB_BLACK s;
                s = rb_set_color (lft s bro) RB_BLACK s;
                s = rb_right_rotate nil (rb_parent s nd) s
            in (rb_root s, s))"

partial_function (option) rb_delete_fixup :: "u32 \<Rightarrow> u32 \<Rightarrow> rb_state \<Rightarrow> rb_state option" where
  "rb_delete_fixup nil nd s =
    (if nd \<noteq> rb_root s \<and> rb_is_black s nd then let (nd, s) = rb_delete_step nil nd s in rb_delete_fixup nil nd s
     else Some (rb_set_color nd RB_BLACK s))"

definition rb_delete :: "u32 \<Rightarrow> u32 \<Rightarrow> rb_state \<Rightarrow> rb_state option" where
  "rb_delete nil nd s = do {
     let ndy = nd;
     let clr_y = rb_color s ndy;
     (ndx, clr_y, s) \<leftarrow> (if lft s nd = nil then Some (rgt s nd, clr_y, rb_transplant nil nd (rgt s nd) s)
       else if rgt s nd = nil then Some (lft s nd, clr_y, rb_transplant nil nd (lft s nd) s)
       else do {
         ndy \<leftarrow> rb_left_most nil s (rgt s nd);
         let clr_y = rb_color s ndy;
         let ndx = rgt s ndy;
         let s = (if nd = rb_parent s ndy then rb_set_parent ndx ndy s
           else let s = rb_transplant nil ndy (rgt s ndy) s;
                    s = set_right ndy (rgt s nd) s
                in rb_set_parent (rgt s ndy) ndy s);
         let s = rb_transplant nil nd ndy s;
         let s = set_left ndy (lft s nd) s;
         let s = rb_set_parent (lft s ndy) ndy s;
         let s = rb_set_color ndy (rb_color s nd) s;
         Some (ndx, clr_y, s)
       });
     if clr_y = RB_BLACK then rb_delete_fixup nil ndx s else Some s
   }"

text \<open>The loops of \<open>rb_prev\<close> and \<open>rb_next\<close> up the tree.\<close>

partial_function (option) rb_up_left :: "u32 \<Rightarrow> rb_state \<Rightarrow> u32 \<Rightarrow> u32 \<Rightarrow> u32 option" where
  "rb_up_left nil s nd pa = (if pa \<noteq> nil \<and> nd = lft s pa then rb_up_left nil s pa (rb_parent s pa) else Some pa)"

partial_function (option) rb_up_right :: "u32 \<Rightarrow> rb_state \<Rightarrow> u32 \<Rightarrow> u32 \<Rightarrow> u32 option" where
  "rb_up_right nil s nd pa = (if pa \<noteq> nil \<and> nd = rgt s pa then rb_up_right nil s pa (rb_parent s pa) else Some pa)"

definition rb_prev :: "u32 \<Rightarrow> rb_state \<Rightarrow> u32 \<Rightarrow> u32 option" where
  "rb_prev nil s nd = (if lft s nd \<noteq> nil then rb_right_most nil s (lft s nd) else rb_up_left nil s nd (rb_parent s nd))"

definition rb_next :: "u32 \<Rightarrow> rb_state \<Rightarrow> u32 \<Rightarrow> u32 option" where
  "rb_next nil s nd = (if rgt s nd \<noteq> nil then rb_left_most nil s (rgt s nd) else rb_up_right nil s nd (rb_parent s nd))"

definition rb_first :: "u32 \<Rightarrow> rb_state \<Rightarrow> u32 option" where
  "rb_first nil s = (if rb_root s \<noteq> nil then rb_left_most nil s (rb_root s) else Some nil)"

definition rb_last :: "u32 \<Rightarrow> rb_state \<Rightarrow> u32 option" where
  "rb_last nil s = (if rb_root s \<noteq> nil then rb_right_most nil s (rb_root s) else Some nil)"

section \<open>The fields of a node\<close>

definition aligned :: "u32 \<Rightarrow> bool" where
  "aligned a \<longleftrightarrow> a AND 3 = 0"

lemma aligned_bit: "aligned a \<Longrightarrow> n < 2 \<Longrightarrow> \<not> bit a n"
proof -
  assume "aligned a" "n < 2"
  then have "a AND mask 2 = 0" by (simp add: aligned_def mask_eq_exp_minus_1)
  then have "\<not> bit (a AND mask 2) n" by simp
  with \<open>n < 2\<close> show "\<not> bit a n" by (simp add: bit_and_iff bit_mask_iff)
qed

lemma aligned_clear: "aligned a \<Longrightarrow> a AND NOT 3 = a"
proof -
  assume a: "aligned a"
  have "a AND NOT (mask 2) = a"
    by (rule bit_word_eqI) (use a in \<open>auto simp: bit_and_iff bit_not_iff bit_mask_iff dest: aligned_bit\<close>)
  then show ?thesis by (simp add: mask_eq_exp_minus_1)
qed

lemma parent_word: "aligned p \<Longrightarrow> (p OR (c AND 3)) AND NOT 3 = p"
proof -
  assume a: "aligned p"
  have "(p OR (c AND mask 2)) AND NOT (mask 2) = p"
    by (rule bit_word_eqI) (use a in \<open>auto simp: bit_and_iff bit_or_iff bit_not_iff bit_mask_iff dest: aligned_bit\<close>)
  then show ?thesis by (simp add: mask_eq_exp_minus_1)
qed

lemma parent_black: "aligned p \<Longrightarrow> (p OR (c AND 3)) AND 1 = c AND 1"
proof -
  assume a: "aligned p"
  have "(p OR (c AND mask 2)) AND mask 1 = c AND mask 1"
    by (rule bit_word_eqI) (use a in \<open>auto simp: bit_and_iff bit_or_iff bit_mask_iff bit_1_iff dest: aligned_bit aligned_bit [of _ 0]\<close>)
  then show ?thesis by (simp add: mask_eq_exp_minus_1)
qed

lemma color_word: "(c AND NOT 1 OR (d AND 1)) AND NOT 3 = c AND NOT (3 :: u32)"
  "(c AND NOT 1 OR (d AND 1)) AND 1 = d AND (1 :: u32)"
proof -
  have "(c AND NOT (mask 1) OR (d AND mask 1)) AND NOT (mask 2) = c AND NOT (mask 2)"
    by (rule bit_word_eqI) (auto simp: bit_and_iff bit_or_iff bit_not_iff bit_mask_iff bit_1_iff)
  then show "(c AND NOT 1 OR (d AND 1)) AND NOT 3 = c AND NOT 3" by (simp add: mask_eq_exp_minus_1)
  have "(c AND NOT (mask 1) OR (d AND mask 1)) AND mask 1 = d AND mask 1"
    by (rule bit_word_eqI) (auto simp: bit_and_iff bit_or_iff bit_not_iff bit_mask_iff bit_1_iff)
  then show "(c AND NOT 1 OR (d AND 1)) AND 1 = d AND 1" by (simp add: mask_eq_exp_minus_1)
qed

lemma parent_color_word: "aligned p \<Longrightarrow> (p OR (d AND 1)) AND NOT 3 = p"
  "aligned p \<Longrightarrow> (p OR (d AND 1)) AND 1 = d AND 1"
proof -
  assume a: "aligned p"
  have e: "d AND 1 = (d AND 1) AND 3" by (simp add: and.assoc)
  show "(p OR (d AND 1)) AND NOT 3 = p" using parent_word [OF a, of "d AND 1"] e by simp
  show "(p OR (d AND 1)) AND 1 = d AND 1" using parent_black [OF a, of "d AND 1"] e by (simp add: and.assoc)
qed

lemmas word_fields = parent_word parent_word [simplified] parent_black color_word color_word [simplified]
  parent_color_word parent_color_word [simplified]

text \<open>Reads over writes: a colour is read as \<^const>\<open>rb_is_black\<close> throughout.\<close>

named_theorems rb_fields

lemma rb_is_red_iff [rb_fields]: "rb_is_red s a \<longleftrightarrow> \<not> rb_is_black s a"
  by (simp add: rb_is_red_def rb_is_black_def)

lemma rb_color_eq: "rb_color s a = (if rb_is_black s a then 1 else 0)"
proof -
  have "x AND 1 = 0 \<or> x AND 1 = 1" for x :: u32
    by (simp add: and_one_eq mod_2_eq_odd)
  then show ?thesis by (auto simp: rb_is_black_def rb_color_def)
qed

lemma lft_writes [rb_fields]:
  "lft (set_left a v s) b = (if b = a then v else lft s b)"
  "lft (set_right a v s) b = lft s b"
  "lft (rb_set_parent a p s) b = lft s b"
  "lft (rb_set_color a c s) b = lft s b"
  "lft (rb_set_parent_color a p c s) b = lft s b"
  "lft (s\<lparr>rb_root := x\<rparr>) b = lft s b"
  by (simp_all add: lft_def rb_upd_def set_left_def set_right_def rb_set_parent_def rb_set_color_def rb_set_parent_color_def)

lemma rgt_writes [rb_fields]:
  "rgt (set_left a v s) b = rgt s b"
  "rgt (set_right a v s) b = (if b = a then v else rgt s b)"
  "rgt (rb_set_parent a p s) b = rgt s b"
  "rgt (rb_set_color a c s) b = rgt s b"
  "rgt (rb_set_parent_color a p c s) b = rgt s b"
  "rgt (s\<lparr>rb_root := x\<rparr>) b = rgt s b"
  by (simp_all add: rgt_def rb_upd_def set_left_def set_right_def rb_set_parent_def rb_set_color_def rb_set_parent_color_def)

lemma parent_writes [rb_fields]:
  "rb_parent (set_left a v s) b = rb_parent s b"
  "rb_parent (set_right a v s) b = rb_parent s b"
  "aligned p \<Longrightarrow> rb_parent (rb_set_parent a p s) b = (if b = a then p else rb_parent s b)"
  "rb_parent (rb_set_color a c s) b = rb_parent s b"
  "aligned p \<Longrightarrow> rb_parent (rb_set_parent_color a p c s) b = (if b = a then p else rb_parent s b)"
  "rb_parent (s\<lparr>rb_root := x\<rparr>) b = rb_parent s b"
  by (simp_all add: rb_parent_def rb_upd_def set_left_def set_right_def rb_set_parent_def rb_set_color_def
      rb_set_parent_color_def word_fields)

lemma black_writes [rb_fields]:
  "rb_is_black (set_left a v s) b = rb_is_black s b"
  "rb_is_black (set_right a v s) b = rb_is_black s b"
  "aligned p \<Longrightarrow> rb_is_black (rb_set_parent a p s) b = rb_is_black s b"
  "rb_is_black (rb_set_color a c s) b = (if b = a then c AND 1 \<noteq> 0 else rb_is_black s b)"
  "aligned p \<Longrightarrow> rb_is_black (rb_set_parent_color a p c s) b = (if b = a then c AND 1 \<noteq> 0 else rb_is_black s b)"
  "rb_is_black (s\<lparr>rb_root := x\<rparr>) b = rb_is_black s b"
  by (simp_all add: rb_is_black_def rb_color_def rb_upd_def set_left_def set_right_def rb_set_parent_def rb_set_color_def
      rb_set_parent_color_def word_fields)

lemma root_writes [rb_fields]:
  "rb_root (set_left a v s) = rb_root s"
  "rb_root (set_right a v s) = rb_root s"
  "rb_root (rb_set_parent a p s) = rb_root s"
  "rb_root (rb_set_color a c s) = rb_root s"
  "rb_root (rb_set_parent_color a p c s) = rb_root s"
  by (simp_all add: rb_upd_def set_left_def set_right_def rb_set_parent_def rb_set_color_def rb_set_parent_color_def)

lemma colour_codes [rb_fields]: "RB_RED AND 1 = 0" "RB_BLACK AND 1 = 1" "RB_BLACK \<noteq> 0"
  by (simp_all add: RB_RED_def RB_BLACK_def)

end
