(* ===== verification/RbtreeRep.thy ===== *)
theory RbtreeRep
  imports Rbtree
begin

text \<open>
  The red-black tree as a value: \<open>tree_at\<close> relates the nodes below an address to a tree of addresses
  and colours, \<open>ctx_at\<close> relates the path from an address to the root, with the subtrees that hang off it, to a list of frames. The
  rotations and the exchange of a child are proved on a tree in focus: a subtree and its context.
\<close>

section \<open>Trees and contexts\<close>

datatype rbt = Lf | Nd rbt u32 bool rbt

datatype rb_frame = InL u32 bool rbt | InR rbt u32 bool

type_synonym rb_ctx = "rb_frame list"

fun inord :: "rbt \<Rightarrow> u32 list" where
  "inord Lf = []"
| "inord (Nd l a b r) = inord l @ a # inord r"

fun fill :: "rb_ctx \<Rightarrow> rbt \<Rightarrow> rbt" where
  "fill [] t = t"
| "fill (InL a b r # k) t = fill k (Nd t a b r)"
| "fill (InR l a b # k) t = fill k (Nd l a b t)"

fun before :: "rb_ctx \<Rightarrow> u32 list" where
  "before [] = []"
| "before (InL a b r # k) = before k"
| "before (InR l a b # k) = before k @ inord l @ [a]"

fun behind :: "rb_ctx \<Rightarrow> u32 list" where
  "behind [] = []"
| "behind (InL a b r # k) = a # inord r @ behind k"
| "behind (InR l a b # k) = behind k"

lemma inord_fill [simp]: "inord (fill k t) = before k @ inord t @ behind k"
  by (induction k t rule: fill.induct) simp_all

fun root_of :: "u32 \<Rightarrow> rbt \<Rightarrow> u32" where
  "root_of nil Lf = nil"
| "root_of nil (Nd l a b r) = a"

fun tree_at :: "u32 \<Rightarrow> rb_state \<Rightarrow> u32 \<Rightarrow> u32 \<Rightarrow> rbt \<Rightarrow> bool" where
  "tree_at nil s p x Lf \<longleftrightarrow> x = nil"
| "tree_at nil s p x (Nd l a b r) \<longleftrightarrow> x = a \<and> a \<noteq> nil \<and> aligned a \<and> rb_parent s a = p \<and> rb_is_black s a = b
     \<and> tree_at nil s a (lft s a) l \<and> tree_at nil s a (rgt s a) r"

fun ctx_at :: "u32 \<Rightarrow> rb_state \<Rightarrow> u32 \<Rightarrow> u32 \<Rightarrow> rb_ctx \<Rightarrow> bool" where
  "ctx_at nil s p x [] \<longleftrightarrow> p = nil \<and> rb_root s = x"
| "ctx_at nil s p x (InL a b r # k) \<longleftrightarrow> p = a \<and> a \<noteq> nil \<and> aligned a \<and> rb_is_black s a = b \<and> lft s a = x
     \<and> tree_at nil s a (rgt s a) r \<and> ctx_at nil s (rb_parent s a) a k"
| "ctx_at nil s p x (InR l a b # k) \<longleftrightarrow> p = a \<and> a \<noteq> nil \<and> aligned a \<and> rb_is_black s a = b \<and> rgt s a = x
     \<and> tree_at nil s a (lft s a) l \<and> ctx_at nil s (rb_parent s a) a k"

definition focus :: "u32 \<Rightarrow> rb_state \<Rightarrow> u32 \<Rightarrow> u32 \<Rightarrow> rbt \<Rightarrow> rb_ctx \<Rightarrow> bool" where
  "focus nil s p x t k \<longleftrightarrow> tree_at nil s p x t \<and> ctx_at nil s p x k \<and> distinct (before k @ inord t @ behind k)
     \<and> aligned nil \<and> rb_is_black s nil"

definition rb_rep :: "u32 \<Rightarrow> rb_state \<Rightarrow> rbt \<Rightarrow> bool" where
  "rb_rep nil s t \<longleftrightarrow> focus nil s nil (rb_root s) t []"

section \<open>Moving the focus\<close>

lemma focus_inL: "focus nil s p x t (InL a b r # k) \<longleftrightarrow> focus nil s (rb_parent s a) a (Nd t a b r) k \<and> p = a \<and> x = lft s a"
  by (auto simp: focus_def)

lemma focus_inR: "focus nil s p x t (InR l a b # k) \<longleftrightarrow> focus nil s (rb_parent s a) a (Nd l a b t) k \<and> p = a \<and> x = rgt s a"
  by (auto simp: focus_def)

lemma focus_rep: "focus nil s p x t k \<Longrightarrow> rb_rep nil s (fill k t)"
  by (induction k t arbitrary: p x rule: fill.induct) (auto simp: focus_inL focus_inR rb_rep_def, auto simp: focus_def)

lemma focus_black: "focus nil s p x t k \<Longrightarrow> rb_is_black s nil" and focus_aligned: "focus nil s p x t k \<Longrightarrow> aligned nil"
  by (simp_all add: focus_def)

lemma tree_root: "tree_at nil s p x t \<Longrightarrow> x = root_of nil t"
  by (cases t) simp_all

lemma nil_not_in_tree: "tree_at nil s p x t \<Longrightarrow> nil \<notin> set (inord t)"
  by (induction t arbitrary: p x) auto

lemma nil_not_in_ctx: "ctx_at nil s p x k \<Longrightarrow> nil \<notin> set (before k) \<and> nil \<notin> set (behind k)"
  by (induction nil s p x k rule: ctx_at.induct) (auto dest: nil_not_in_tree)

lemma parent_in_ctx: "ctx_at nil s p x k \<Longrightarrow> p = nil \<and> k = [] \<or> p \<in> set (before k) \<or> p \<in> set (behind k)"
  by (cases "(nil, s, p, x, k)" rule: ctx_at.cases) auto

lemma aligned_parent: "ctx_at nil s p x k \<Longrightarrow> aligned nil \<Longrightarrow> aligned p"
  by (cases "(nil, s, p, x, k)" rule: ctx_at.cases) auto

section \<open>Writes outside of a tree\<close>

lemma tree_frame:
  "(\<And>a. a \<in> set (inord t) \<Longrightarrow> lft s' a = lft s a \<and> rgt s' a = rgt s a \<and> rb_parent s' a = rb_parent s a
       \<and> rb_is_black s' a = rb_is_black s a)
   \<Longrightarrow> tree_at nil s' p x t = tree_at nil s p x t"
  by (induction t arbitrary: p x) auto

lemma ctx_frame:
  "(\<And>a. a \<in> set (before k) \<union> set (behind k) \<Longrightarrow> lft s' a = lft s a \<and> rgt s' a = rgt s a \<and> rb_parent s' a = rb_parent s a
       \<and> rb_is_black s' a = rb_is_black s a) \<Longrightarrow> rb_root s' = rb_root s
   \<Longrightarrow> ctx_at nil s' p x k = ctx_at nil s p x k"
proof (induction k arbitrary: p x)
  case (Cons F k)
  then show ?case by (cases F) (auto simp: tree_frame [of _ s' s])
qed simp

lemma tree_writes [rb_fields]:
  "a \<notin> set (inord t) \<Longrightarrow> tree_at nil (set_left a v s) p x t = tree_at nil s p x t"
  "a \<notin> set (inord t) \<Longrightarrow> tree_at nil (set_right a v s) p x t = tree_at nil s p x t"
  "a \<notin> set (inord t) \<Longrightarrow> aligned q \<Longrightarrow> tree_at nil (rb_set_parent a q s) p x t = tree_at nil s p x t"
  "a \<notin> set (inord t) \<Longrightarrow> tree_at nil (rb_set_color a c s) p x t = tree_at nil s p x t"
  "a \<notin> set (inord t) \<Longrightarrow> aligned q \<Longrightarrow> tree_at nil (rb_set_parent_color a q c s) p x t = tree_at nil s p x t"
  "tree_at nil (s\<lparr>rb_root := z\<rparr>) p x t = tree_at nil s p x t"
  by (rule tree_frame; auto simp: rb_fields)+

lemma ctx_writes [rb_fields]:
  "a \<notin> set (before k) \<Longrightarrow> a \<notin> set (behind k) \<Longrightarrow> ctx_at nil (set_left a v s) p x k = ctx_at nil s p x k"
  "a \<notin> set (before k) \<Longrightarrow> a \<notin> set (behind k) \<Longrightarrow> ctx_at nil (set_right a v s) p x k = ctx_at nil s p x k"
  "a \<notin> set (before k) \<Longrightarrow> a \<notin> set (behind k) \<Longrightarrow> aligned q \<Longrightarrow>
     ctx_at nil (rb_set_parent a q s) p x k = ctx_at nil s p x k"
  "a \<notin> set (before k) \<Longrightarrow> a \<notin> set (behind k) \<Longrightarrow> ctx_at nil (rb_set_color a c s) p x k = ctx_at nil s p x k"
  "a \<notin> set (before k) \<Longrightarrow> a \<notin> set (behind k) \<Longrightarrow> aligned q \<Longrightarrow>
     ctx_at nil (rb_set_parent_color a q c s) p x k = ctx_at nil s p x k"
  by (rule ctx_frame; auto simp: rb_fields)+

section \<open>The exchange of a child and the rotations\<close>

lemma replace_fields [rb_fields]:
  "rb_parent (rb_replace nil x y s) a = rb_parent s a"
  "rb_is_black (rb_replace nil x y s) a = rb_is_black s a"
  "a \<noteq> rb_parent s x \<Longrightarrow> lft (rb_replace nil x y s) a = lft s a"
  "a \<noteq> rb_parent s x \<Longrightarrow> rgt (rb_replace nil x y s) a = rgt s a"
  "rb_parent s x \<notin> set (inord t) \<Longrightarrow> tree_at nil' (rb_replace nil x y s) p z t = tree_at nil' s p z t"
  by (simp_all add: rb_replace_def rb_fields)

lemma replace_ctx:
  assumes "ctx_at nil s q x k" "rb_parent s x = q" "x \<noteq> nil" "x \<notin> set (before k)" "x \<notin> set (behind k)"
    "distinct (before k @ behind k)"
  shows "ctx_at nil (rb_replace nil x y s) q y k"
proof (cases k)
  case (Cons F k')
  show ?thesis
  proof (cases F)
    case (InR l a b)
    have "lft s a \<noteq> x" using assms Cons InR by (cases l) auto
    then show ?thesis using assms Cons InR by (auto simp: rb_replace_def rb_fields)
  qed (use assms Cons in \<open>auto simp: rb_replace_def rb_fields\<close>)
qed (use assms in \<open>auto simp: rb_replace_def\<close>)

lemma reparent_fields [rb_fields]:
  fixes z nil :: u32
  assumes "aligned q"
  defines "s' \<equiv> \<lambda>s. if z \<noteq> nil then rb_set_parent z q s else s"
  shows "lft (s' s) a = lft s a" "rgt (s' s) a = rgt s a" "rb_is_black (s' s) a = rb_is_black s a" "rb_root (s' s) = rb_root s"
    "a \<noteq> z \<Longrightarrow> rb_parent (s' s) a = rb_parent s a"
    "z \<notin> set (inord t) \<Longrightarrow> tree_at nil' (s' s) p x t = tree_at nil' s p x t"
    "z \<notin> set (before k) \<Longrightarrow> z \<notin> set (behind k) \<Longrightarrow> ctx_at nil' (s' s) p x k = ctx_at nil' s p x k"
  using assms(1) by (simp_all add: s'_def rb_fields)

lemma reparent:
  assumes "tree_at nil s p x t" "distinct (inord t)" "aligned q"
  shows "tree_at nil (if x \<noteq> nil then rb_set_parent x q s else s) q x t"
  using assms by (cases t) (auto simp: rb_fields)

text \<open>What both rotations know of the nodes \<open>x\<close>, \<open>y\<close> and of the root \<open>z\<close> of the subtree \<open>b\<close> that changes sides.\<close>

definition apart :: "u32 \<Rightarrow> u32 \<Rightarrow> u32 \<Rightarrow> u32 \<Rightarrow> rbt \<Rightarrow> rbt \<Rightarrow> rbt \<Rightarrow> rb_ctx \<Rightarrow> bool" where
  "apart q x y z a b c k \<longleftrightarrow> x \<noteq> y \<and> y \<noteq> x \<and> z \<noteq> x \<and> x \<noteq> z \<and> z \<noteq> y \<and> y \<noteq> z \<and> distinct (inord b) \<and> distinct (before k @ behind k)
     \<and> x \<notin> set (inord a) \<and> x \<notin> set (inord b) \<and> x \<notin> set (inord c) \<and> x \<notin> set (before k) \<and> x \<notin> set (behind k)
     \<and> y \<notin> set (inord a) \<and> y \<notin> set (inord b) \<and> y \<notin> set (inord c) \<and> y \<notin> set (before k) \<and> y \<notin> set (behind k)
     \<and> z \<notin> set (inord a) \<and> z \<notin> set (inord c) \<and> z \<notin> set (before k) \<and> z \<notin> set (behind k)
     \<and> q \<noteq> x \<and> x \<noteq> q \<and> q \<noteq> y \<and> y \<noteq> q \<and> q \<notin> set (inord a) \<and> q \<notin> set (inord b) \<and> q \<notin> set (inord c) \<and> aligned q"

lemma apartI:
  assumes "tree_at nil s pa xa a" "tree_at nil s pb z b" "tree_at nil s pc xc c" "ctx_at nil s q w k"
    "distinct (before k @ inord a @ x # inord b @ y # inord c @ behind k)" "x \<noteq> nil" "y \<noteq> nil" "aligned nil"
  shows "apart q x y z a b c k"
proof -
  have z: "z = nil \<or> z \<in> set (inord b)" using assms(2) by (cases b) auto
  have q: "q = nil \<or> q \<in> set (before k) \<or> q \<in> set (behind k)" using parent_in_ctx [OF assms(4)] by auto
  have n: "nil \<notin> set (inord a)" "nil \<notin> set (inord b)" "nil \<notin> set (inord c)" "nil \<notin> set (before k)" "nil \<notin> set (behind k)"
    using assms(1-4) nil_not_in_tree nil_not_in_ctx by blast+
  have "q \<noteq> x" "q \<noteq> y" "q \<notin> set (inord a)" "q \<notin> set (inord b)" "q \<notin> set (inord c)"
    using assms(5-7) q n by auto
  moreover have "z \<noteq> x" "z \<noteq> y" "z \<notin> set (inord a)" "z \<notin> set (inord c)" "z \<notin> set (before k)" "z \<notin> set (behind k)"
    using assms(5-7) z n by auto
  ultimately show ?thesis
    using assms(5) aligned_parent [OF assms(4,8)] unfolding apart_def by auto
qed

lemma left_rotate:
  assumes f: "focus nil s q x (Nd a x bx (Nd b y by' c)) k"
  shows "focus nil (rb_left_rotate nil x s) q y (Nd (Nd a x bx b) y by' c) k"
proof -
  have t: "rb_parent s x = q" "rgt s x = y" "aligned x" "aligned y" "rb_is_black s x = bx" "rb_is_black s y = by'"
    "x \<noteq> nil" "y \<noteq> nil" "rb_is_black s nil" "aligned nil"
    "tree_at nil s x (lft s x) a" "tree_at nil s y (lft s y) b" "tree_at nil s y (rgt s y) c" "ctx_at nil s q x k"
    and dist: "distinct (before k @ inord a @ x # inord b @ y # inord c @ behind k)"
    using f by (simp_all add: focus_def)
  have d: "apart q x y (lft s y) a b c k"
    using t dist by (intro apartI) assumption+
  define s2 where "s2 = (if lft s y \<noteq> nil then rb_set_parent (lft s y) x (set_right x (lft s y) s) else set_right x (lft s y) s)"
  define s3 where "s3 = rb_set_parent y q s2"
  have s2: "rb_parent s2 x = q" "rb_is_black s2 x = bx" "lft s2 x = lft s x" "rgt s2 x = lft s y" "rgt s2 y = rgt s y"
    "rb_is_black s2 y = by'" "rb_is_black s2 nil"
    "tree_at nil s2 x (lft s x) a" "tree_at nil s2 y (rgt s y) c" "ctx_at nil s2 q x k"
    unfolding s2_def using t d by (simp_all add: apart_def rb_fields)
  have b: "tree_at nil s2 x (lft s y) b"
    unfolding s2_def by (rule reparent [of _ _ y]) (use t d in \<open>simp_all add: apart_def rb_fields\<close>)
  have s3: "rb_parent s3 x = q" "rb_parent s3 y = q" "lft s3 x = lft s x" "rgt s3 x = lft s y" "rgt s3 y = rgt s y"
    "rb_is_black s3 x = bx" "rb_is_black s3 y = by'" "rb_is_black s3 nil"
    "tree_at nil s3 x (lft s x) a" "tree_at nil s3 x (lft s y) b" "tree_at nil s3 y (rgt s y) c" "ctx_at nil s3 q x k"
    unfolding s3_def using s2 b d by (simp_all add: apart_def rb_fields)
  have r: "rb_left_rotate nil x s = rb_set_parent x y (set_left y x (rb_replace nil x y s3))"
    using t d s2(1) by (simp add: rb_left_rotate_def s3_def s2_def Let_def apart_def rb_fields)
  have "ctx_at nil (rb_replace nil x y s3) q y k"
    by (rule replace_ctx [OF s3(12,1)]) (use t d in \<open>simp_all add: apart_def\<close>)
  then show ?thesis using dist s3 d t unfolding r focus_def by (simp add: apart_def rb_fields)
qed

lemma right_rotate:
  assumes f: "focus nil s q y (Nd (Nd a x bx b) y by' c) k"
  shows "focus nil (rb_right_rotate nil y s) q x (Nd a x bx (Nd b y by' c)) k"
proof -
  have t: "rb_parent s y = q" "lft s y = x" "aligned x" "aligned y" "rb_is_black s x = bx" "rb_is_black s y = by'"
    "x \<noteq> nil" "y \<noteq> nil" "rb_is_black s nil" "aligned nil"
    "tree_at nil s x (lft s x) a" "tree_at nil s x (rgt s x) b" "tree_at nil s y (rgt s y) c" "ctx_at nil s q y k"
    and dist: "distinct (before k @ inord a @ x # inord b @ y # inord c @ behind k)"
    using f by (simp_all add: focus_def)
  have d: "apart q x y (rgt s x) a b c k"
    using t dist by (intro apartI) assumption+
  define s2 where "s2 = (if rgt s x \<noteq> nil then rb_set_parent (rgt s x) y (set_left y (rgt s x) s) else set_left y (rgt s x) s)"
  define s3 where "s3 = rb_set_parent x q s2"
  have s2: "rb_parent s2 y = q" "rb_is_black s2 x = bx" "rgt s2 y = rgt s y" "lft s2 y = rgt s x" "lft s2 x = lft s x"
    "rb_is_black s2 y = by'" "rb_is_black s2 nil"
    "tree_at nil s2 x (lft s x) a" "tree_at nil s2 y (rgt s y) c" "ctx_at nil s2 q y k"
    unfolding s2_def using t d by (simp_all add: apart_def rb_fields)
  have b: "tree_at nil s2 y (rgt s x) b"
    unfolding s2_def by (rule reparent [of _ _ x]) (use t d in \<open>simp_all add: apart_def rb_fields\<close>)
  have s3: "rb_parent s3 y = q" "rb_parent s3 x = q" "rgt s3 y = rgt s y" "lft s3 y = rgt s x" "lft s3 x = lft s x"
    "rb_is_black s3 x = bx" "rb_is_black s3 y = by'" "rb_is_black s3 nil"
    "tree_at nil s3 x (lft s x) a" "tree_at nil s3 y (rgt s x) b" "tree_at nil s3 y (rgt s y) c" "ctx_at nil s3 q y k"
    unfolding s3_def using s2 b d by (simp_all add: apart_def rb_fields)
  have r: "rb_right_rotate nil y s = rb_set_parent y x (set_right x y (rb_replace nil y x s3))"
    using t d s2(1) by (simp add: rb_right_rotate_def s3_def s2_def Let_def apart_def rb_fields)
  have "ctx_at nil (rb_replace nil y x s3) q x k"
    by (rule replace_ctx [OF s3(12,1)]) (use t d in \<open>simp_all add: apart_def\<close>)
  then show ?thesis using dist s3 d t unfolding r focus_def by (simp add: apart_def rb_fields)
qed

text \<open>A rotation does not touch the parent field of the sentinel.\<close>

lemma left_rotate_nil: "focus nil s q x (Nd a x bx (Nd b y by' c)) k \<Longrightarrow>
    rb_parent (rb_left_rotate nil x s) nil = rb_parent s nil"
  using aligned_parent [of nil s q x k] by (auto simp: rb_left_rotate_def Let_def focus_def rb_fields)

lemma right_rotate_nil: "focus nil s q y (Nd (Nd a x bx b) y by' c) k \<Longrightarrow>
    rb_parent (rb_right_rotate nil y s) nil = rb_parent s nil"
  using aligned_parent [of nil s q y k] by (auto simp: rb_right_rotate_def Let_def focus_def rb_fields)

section \<open>Colours\<close>

fun paint :: "bool \<Rightarrow> rbt \<Rightarrow> rbt" where
  "paint c Lf = Lf"
| "paint c (Nd l a b r) = Nd l a c r"

lemma inord_paint [simp]: "inord (paint c t) = inord t"
  by (cases t) simp_all

lemma set_color_focus: "focus nil s p a (Nd l a b r) k \<Longrightarrow> focus nil (rb_set_color a c s) p a (Nd l a (c AND 1 \<noteq> 0) r) k"
  by (auto simp: focus_def rb_fields)

lemma set_color_nil: "focus nil s p x Lf k \<Longrightarrow> focus nil (rb_set_color nil RB_BLACK s) p x Lf k"
proof -
  assume f: "focus nil s p x Lf k"
  then have "ctx_at nil s p x k" unfolding focus_def by blast
  from nil_not_in_ctx [OF this] f show ?thesis by (auto simp: focus_def rb_fields)
qed

lemma set_black_focus: "focus nil s p x t k \<Longrightarrow> focus nil (rb_set_color x RB_BLACK s) p x (paint True t) k"
proof (cases t)
  case Lf
  assume "focus nil s p x t k"
  moreover have "x = nil" using calculation Lf by (simp add: focus_def)
  ultimately show ?thesis using set_color_nil [of nil s p x k] Lf by simp
next
  case (Nd l a b r)
  assume f: "focus nil s p x t k"
  then have "x = a" using Nd by (simp add: focus_def)
  then show ?thesis using f set_color_focus [of nil s p a l b r k RB_BLACK] Nd by (simp add: rb_fields)
qed

section \<open>Positions in a represented tree\<close>

text \<open>
  A position of the tree \<open>fill k t\<close> is the context \<open>k\<close> of a subtree: from here on the lemmas speak of
  \<^const>\<open>rb_rep\<close> alone and name the place by \<open>k\<close>.
\<close>

fun par_of :: "u32 \<Rightarrow> rb_ctx \<Rightarrow> u32" where
  "par_of nil [] = nil"
| "par_of nil (InL a b r # k) = a"
| "par_of nil (InR l a b # k) = a"

lemma focus_here: "focus nil s p x t k \<Longrightarrow> p = par_of nil k \<and> x = root_of nil t"
  using tree_root by (cases "(nil, k)" rule: par_of.cases) (auto simp: focus_def)

lemma focus_node: "focus nil s p x (Nd l a b r) k \<Longrightarrow> rb_parent s a = p \<and> lft s a = root_of nil l \<and> rgt s a = root_of nil r"
  unfolding focus_def tree_at.simps by (blast dest: tree_root)

lemma rep_focus: "rb_rep nil s (fill k t) \<longleftrightarrow> focus nil s (par_of nil k) (root_of nil t) t k"
proof (induction k t rule: fill.induct)
  case (1 t)
  then show ?case using tree_root [of nil s nil "rb_root s" t] by (auto simp: rb_rep_def focus_def)
next
  case (2 a b r k t)
  have "focus nil s (par_of nil k) a (Nd t a b r) k \<longleftrightarrow> focus nil s a (root_of nil t) t (InL a b r # k)"
    unfolding focus_inL using focus_node [of nil s _ a t a b r k] focus_here [of nil s _ a "Nd t a b r" k] by metis
  then show ?case using 2 by simp
next
  case (3 l a b k t)
  have "focus nil s (par_of nil k) a (Nd l a b t) k \<longleftrightarrow> focus nil s a (root_of nil t) t (InR l a b # k)"
    unfolding focus_inR using focus_node [of nil s _ a l a b t k] focus_here [of nil s _ a "Nd l a b t" k] by metis
  then show ?case using 3 by simp
qed

lemma rep_distinct: "rb_rep nil s t \<Longrightarrow> distinct (inord t)" and rep_nil: "rb_rep nil s t \<Longrightarrow> nil \<notin> set (inord t)"
  and rep_root: "rb_rep nil s t \<Longrightarrow> rb_root s = root_of nil t" and rep_black_nil: "rb_rep nil s t \<Longrightarrow> rb_is_black s nil"
  by (auto simp: rb_rep_def focus_def dest: nil_not_in_tree tree_root)

lemma rep_reads:
  assumes "rb_rep nil s (fill k (Nd l a b r))"
  shows "lft s a = root_of nil l" "rgt s a = root_of nil r" "rb_parent s a = par_of nil k" "rb_is_black s a = b"
    "a \<noteq> nil" "aligned a"
  using assms unfolding rep_focus focus_def by (auto dest: tree_root)

lemma rep_left_rotate:
  "rb_rep nil s (fill k (Nd a x bx (Nd b y by' c))) \<Longrightarrow> rb_rep nil (rb_left_rotate nil x s) (fill k (Nd (Nd a x bx b) y by' c))"
  unfolding rep_focus using left_rotate by fastforce

lemma rep_right_rotate:
  "rb_rep nil s (fill k (Nd (Nd a x bx b) y by' c)) \<Longrightarrow> rb_rep nil (rb_right_rotate nil y s) (fill k (Nd a x bx (Nd b y by' c)))"
  unfolding rep_focus using right_rotate by fastforce

lemma rep_left_rotate_nil: "rb_rep nil s (fill k (Nd a x bx (Nd b y by' c))) \<Longrightarrow>
    rb_parent (rb_left_rotate nil x s) nil = rb_parent s nil"
  unfolding rep_focus by (auto dest: left_rotate_nil)

lemma rep_right_rotate_nil: "rb_rep nil s (fill k (Nd (Nd a x bx b) y by' c)) \<Longrightarrow>
    rb_parent (rb_right_rotate nil y s) nil = rb_parent s nil"
  unfolding rep_focus by (auto dest: right_rotate_nil)

lemma rep_set_color: "rb_rep nil s (fill k (Nd l a b r)) \<Longrightarrow> rb_rep nil (rb_set_color a c s) (fill k (Nd l a (c AND 1 \<noteq> 0) r))"
  unfolding rep_focus root_of.simps by (rule set_color_focus)

lemma rep_set_red: "rb_rep nil s (fill k (Nd l a b r)) \<Longrightarrow> rb_rep nil (rb_set_color a RB_RED s) (fill k (Nd l a False r))"
  and rep_set_black: "rb_rep nil s (fill k (Nd l a b r)) \<Longrightarrow> rb_rep nil (rb_set_color a RB_BLACK s) (fill k (Nd l a True r))"
  using rep_set_color [of nil s k l a b r RB_RED] rep_set_color [of nil s k l a b r RB_BLACK] by (simp_all add: rb_fields)

lemma rep_copy_color: "rb_rep nil s (fill k (Nd l a b r)) \<Longrightarrow> rb_rep nil (rb_set_color a (rb_color s' g) s) (fill k (Nd l a (rb_is_black s' g) r))"
  using rep_set_color [of nil s k l a b r "rb_color s' g"] by (simp add: rb_color_eq split: if_splits)

lemma rep_black_at: "rb_rep nil s (fill k t) \<Longrightarrow> rb_rep nil (rb_set_color (root_of nil t) RB_BLACK s) (fill k (paint True t))"
  unfolding rep_focus using set_black_focus [of nil s _ _ t k] by (cases t) fastforce+

lemma siblings: "rb_rep nil s (fill k (Nd l a b r)) \<Longrightarrow> root_of nil l = root_of nil r \<longleftrightarrow> l = Lf \<and> r = Lf"
  using rep_distinct [of nil s "fill k (Nd l a b r)"] rep_nil [of nil s "fill k (Nd l a b r)"]
  by (cases l; cases r) auto

section \<open>The red-black conditions\<close>

fun blk :: "rbt \<Rightarrow> bool" where
  "blk Lf = True"
| "blk (Nd l a b r) = b"

fun bh :: "rbt \<Rightarrow> nat" where
  "bh Lf = 0"
| "bh (Nd l a b r) = bh l + (if b then 1 else 0)"

fun invc :: "rbt \<Rightarrow> bool" where
  "invc Lf = True"
| "invc (Nd l a b r) \<longleftrightarrow> invc l \<and> invc r \<and> (b \<or> blk l \<and> blk r)"

fun invh :: "rbt \<Rightarrow> bool" where
  "invh Lf = True"
| "invh (Nd l a b r) \<longleftrightarrow> invh l \<and> invh r \<and> bh l = bh r"

definition rb_ok :: "rbt \<Rightarrow> bool" where
  "rb_ok t \<longleftrightarrow> invc t \<and> invh t \<and> blk t"

lemma rep_root_blk: "rb_rep nil s (fill k t) \<Longrightarrow> rb_is_black s (root_of nil t) = blk t"
  using rep_black_nil [of nil s "fill k t"] rep_reads(4) [of nil s k] by (cases t) auto

text \<open>What a context asks of the colour and of the black height of the subtree in its hole.\<close>

fun ctxc :: "bool \<Rightarrow> rb_ctx \<Rightarrow> bool" where
  "ctxc c [] = c"
| "ctxc c (InL a b r # k) \<longleftrightarrow> (b \<or> c \<and> blk r) \<and> invc r \<and> ctxc b k"
| "ctxc c (InR l a b # k) \<longleftrightarrow> (b \<or> c \<and> blk l) \<and> invc l \<and> ctxc b k"

fun ctxh :: "nat \<Rightarrow> rb_ctx \<Rightarrow> bool" where
  "ctxh n [] = True"
| "ctxh n (InL a b r # k) \<longleftrightarrow> invh r \<and> bh r = n \<and> ctxh (n + (if b then 1 else 0)) k"
| "ctxh n (InR l a b # k) \<longleftrightarrow> invh l \<and> bh l = n \<and> ctxh (n + (if b then 1 else 0)) k"

lemma fill_ok: "rb_ok (fill k t) \<longleftrightarrow> invc t \<and> invh t \<and> ctxc (blk t) k \<and> ctxh (bh t) k"
  by (induction k t rule: fill.induct) (auto simp: rb_ok_def)

lemma ctxc_black: "ctxc c k \<Longrightarrow> ctxc True k"
  by (cases "(c, k)" rule: ctxc.cases) auto

end
