(* ===== verification/RbtreeInsert.thy ===== *)
theory RbtreeInsert
  imports RbtreeRep
begin

text \<open>
  Insertion into the red-black tree: the repair loop on any context, by induction on the length of
  the path to the root, then the search and the linking of the new node.
\<close>

section \<open>One turn of the repair loop\<close>

text \<open>The node \<open>nd\<close> at \<open>k\<close> is red; the tree would be in order if it were not. \<open>xs\<close> is the order of the nodes.\<close>

definition ins_inv :: "u32 \<Rightarrow> rb_state \<Rightarrow> u32 \<Rightarrow> rb_ctx \<Rightarrow> u32 list \<Rightarrow> bool" where
  "ins_inv nil s nd k xs \<longleftrightarrow> (\<exists>l r. rb_rep nil s (fill k (Nd l nd False r)) \<and> invc (Nd l nd False r) \<and> invh (Nd l nd False r)
     \<and> ctxc True k \<and> ctxh (bh l) k \<and> before k @ inord l @ nd # inord r @ behind k = xs)"

lemma insert_recolor_left:
  assumes R: "rb_rep nil s (fill k (Nd t g True (Nd ul ua False ur)))"
    and t: "t = Nd (Nd l nd False r) p False c \<or> t = Nd c p False (Nd l nd False r)"
  shows "rb_insert_step nil nd s = (g, rb_set_color g RB_RED (rb_set_color ua RB_BLACK (rb_set_color p RB_BLACK s)))"
    "rb_rep nil (snd (rb_insert_step nil nd s)) (fill k (Nd (paint True t) g False (Nd ul ua True ur)))"
proof -
  note g = rep_reads [OF R]
  have p: "rb_parent s p = g" "rb_parent s nd = p" "p \<noteq> ua" "p \<noteq> g" "ua \<noteq> g" "root_of nil t = p"
    using t R rep_reads [of nil s "InL g True (Nd ul ua False ur) # k"]
      rep_reads [of nil s "InL p False c # InL g True (Nd ul ua False ur) # k"]
      rep_reads [of nil s "InR c p False # InL g True (Nd ul ua False ur) # k"] rep_distinct [OF R] by auto
  have u: "\<not> rb_is_black s ua" using R rep_reads [of nil s "InR t g True # k" ul ua False ur] by simp
  show e: "rb_insert_step nil nd s = (g, rb_set_color g RB_RED (rb_set_color ua RB_BLACK (rb_set_color p RB_BLACK s)))"
    using g p u by (simp add: rb_insert_step_def rb_pparent_def Let_def rb_fields)
  have "rb_rep nil (rb_set_color p RB_BLACK s) (fill k (Nd (paint True t) g True (Nd ul ua False ur)))"
    using t R rep_set_black [of nil s "InL g True (Nd ul ua False ur) # k" _ p] by auto
  then have "rb_rep nil (rb_set_color ua RB_BLACK (rb_set_color p RB_BLACK s)) (fill k (Nd (paint True t) g True (Nd ul ua True ur)))"
    using rep_set_black [of nil _ "InR (paint True t) g True # k" ul ua] by simp
  then show "rb_rep nil (snd (rb_insert_step nil nd s)) (fill k (Nd (paint True t) g False (Nd ul ua True ur)))"
    unfolding e using rep_set_red by simp
qed

lemma insert_recolor_right:
  assumes R: "rb_rep nil s (fill k (Nd (Nd ul ua False ur) g True t))"
    and t: "t = Nd (Nd l nd False r) p False c \<or> t = Nd c p False (Nd l nd False r)"
  shows "rb_insert_step nil nd s = (g, rb_set_color g RB_RED (rb_set_color ua RB_BLACK (rb_set_color p RB_BLACK s)))"
    "rb_rep nil (snd (rb_insert_step nil nd s)) (fill k (Nd (Nd ul ua True ur) g False (paint True t)))"
proof -
  note g = rep_reads [OF R]
  have p: "rb_parent s p = g" "rb_parent s nd = p" "p \<noteq> ua" "p \<noteq> g" "ua \<noteq> g" "root_of nil t = p"
    using t R rep_reads [of nil s "InR (Nd ul ua False ur) g True # k"]
      rep_reads [of nil s "InL p False c # InR (Nd ul ua False ur) g True # k"]
      rep_reads [of nil s "InR c p False # InR (Nd ul ua False ur) g True # k"] rep_distinct [OF R] by auto
  have u: "\<not> rb_is_black s ua" using R rep_reads [of nil s "InL g True t # k" ul ua False ur] by simp
  show e: "rb_insert_step nil nd s = (g, rb_set_color g RB_RED (rb_set_color ua RB_BLACK (rb_set_color p RB_BLACK s)))"
    using g p u by (simp add: rb_insert_step_def rb_pparent_def Let_def rb_fields)
  have "rb_rep nil (rb_set_color p RB_BLACK s) (fill k (Nd (Nd ul ua False ur) g True (paint True t)))"
    using t R rep_set_black [of nil s "InR (Nd ul ua False ur) g True # k" _ p] by auto
  then have "rb_rep nil (rb_set_color ua RB_BLACK (rb_set_color p RB_BLACK s)) (fill k (Nd (Nd ul ua True ur) g True (paint True t)))"
    using rep_set_black [of nil _ "InL g True (paint True t) # k" ul ua] by simp
  then show "rb_rep nil (snd (rb_insert_step nil nd s)) (fill k (Nd (Nd ul ua True ur) g False (paint True t)))"
    unfolding e using rep_set_red by simp
qed

lemma insert_rotate_left_outer:
  assumes R: "rb_rep nil s (fill k (Nd (Nd (Nd l nd False r) p False c) g True u))" and u: "blk u"
  shows "\<exists>s'. rb_insert_step nil nd s = (nd, s') \<and> rb_rep nil s' (fill k (Nd (Nd l nd False r) p True (Nd c g False u)))"
proof -
  note g = rep_reads [OF R]
  have p: "rb_parent s p = g" "rb_parent s nd = p" "rgt s p = root_of nil c" "p \<noteq> root_of nil u"
    using R rep_reads [of nil s "InL g True u # k"] rep_reads [of nil s "InL p False c # InL g True u # k"]
      siblings [OF R] by auto
  have c: "nd \<noteq> root_of nil c" using R siblings [of nil s "InL g True u # k" "Nd l nd False r" p False c] by auto
  have b: "rb_is_black s (root_of nil u)"
    using u R rep_black_nil [OF R] rep_reads [of nil s "InR (Nd (Nd l nd False r) p False c) g True # k"] by (cases u) auto
  have e: "rb_insert_step nil nd s = (nd, rb_right_rotate nil g (rb_set_color g RB_RED (rb_set_color p RB_BLACK s)))"
    using g p c b by (simp add: rb_insert_step_def rb_pparent_def Let_def rb_fields)
  have "rb_rep nil (rb_set_color p RB_BLACK s) (fill k (Nd (Nd (Nd l nd False r) p True c) g True u))"
    using R rep_set_black [of nil s "InL g True u # k"] by simp
  then have "rb_rep nil (rb_set_color g RB_RED (rb_set_color p RB_BLACK s)) (fill k (Nd (Nd (Nd l nd False r) p True c) g False u))"
    by (rule rep_set_red)
  then show ?thesis unfolding e using rep_right_rotate by blast
qed

lemma insert_rotate_left_inner:
  assumes R: "rb_rep nil s (fill k (Nd (Nd c p False (Nd l nd False r)) g True u))" and u: "blk u"
  shows "\<exists>s'. rb_insert_step nil nd s = (p, s') \<and> rb_rep nil s' (fill k (Nd (Nd c p False l) nd True (Nd r g False u)))"
proof -
  note g = rep_reads [OF R]
  have p: "rb_parent s p = g" "rb_parent s nd = p" "rgt s p = nd" "p \<noteq> root_of nil u"
    using R rep_reads [of nil s "InL g True u # k"] rep_reads [of nil s "InR c p False # InL g True u # k"]
      siblings [OF R] by auto
  have b: "rb_is_black s (root_of nil u)"
    using u R rep_black_nil [OF R] rep_reads [of nil s "InR (Nd c p False (Nd l nd False r)) g True # k"] by (cases u) auto
  define s1 where "s1 = rb_left_rotate nil p s"
  have R1: "rb_rep nil s1 (fill k (Nd (Nd (Nd c p False l) nd False r) g True u))"
    using R rep_left_rotate [of nil s "InL g True u # k"] by (simp add: s1_def)
  have p1: "rb_parent s1 p = nd" "rb_parent s1 nd = g"
    using R1 rep_reads [of nil s1 "InL g True u # k"] rep_reads [of nil s1 "InL nd False r # InL g True u # k"] by auto
  have e: "rb_insert_step nil nd s = (p, rb_right_rotate nil g (rb_set_color g RB_RED (rb_set_color nd RB_BLACK s1)))"
    using g p b p1 by (simp add: rb_insert_step_def rb_pparent_def Let_def rb_fields s1_def [symmetric])
  have "rb_rep nil (rb_set_color nd RB_BLACK s1) (fill k (Nd (Nd (Nd c p False l) nd True r) g True u))"
    using R1 rep_set_black [of nil s1 "InL g True u # k"] by simp
  then have "rb_rep nil (rb_set_color g RB_RED (rb_set_color nd RB_BLACK s1)) (fill k (Nd (Nd (Nd c p False l) nd True r) g False u))"
    by (rule rep_set_red)
  then show ?thesis unfolding e using rep_right_rotate by blast
qed

lemma insert_rotate_right_outer:
  assumes R: "rb_rep nil s (fill k (Nd u g True (Nd c p False (Nd l nd False r))))" and u: "blk u"
  shows "\<exists>s'. rb_insert_step nil nd s = (nd, s') \<and> rb_rep nil s' (fill k (Nd (Nd u g False c) p True (Nd l nd False r)))"
proof -
  note g = rep_reads [OF R]
  have p: "rb_parent s p = g" "rb_parent s nd = p" "lft s p = root_of nil c" "p \<noteq> root_of nil u"
    using R rep_reads [of nil s "InR u g True # k"] rep_reads [of nil s "InR c p False # InR u g True # k"]
      siblings [OF R] by auto
  have c: "nd \<noteq> root_of nil c" using R siblings [of nil s "InR u g True # k" c p False "Nd l nd False r"] by auto
  have b: "rb_is_black s (root_of nil u)"
    using u R rep_black_nil [OF R] rep_reads [of nil s "InL g True (Nd c p False (Nd l nd False r)) # k"] by (cases u) auto
  have e: "rb_insert_step nil nd s = (nd, rb_left_rotate nil g (rb_set_color g RB_RED (rb_set_color p RB_BLACK s)))"
    using g p c b by (simp add: rb_insert_step_def rb_pparent_def Let_def rb_fields)
  have "rb_rep nil (rb_set_color p RB_BLACK s) (fill k (Nd u g True (Nd c p True (Nd l nd False r))))"
    using R rep_set_black [of nil s "InR u g True # k"] by simp
  then have "rb_rep nil (rb_set_color g RB_RED (rb_set_color p RB_BLACK s)) (fill k (Nd u g False (Nd c p True (Nd l nd False r))))"
    by (rule rep_set_red)
  then show ?thesis unfolding e using rep_left_rotate by blast
qed

lemma insert_rotate_right_inner:
  assumes R: "rb_rep nil s (fill k (Nd u g True (Nd (Nd l nd False r) p False c)))" and u: "blk u"
  shows "\<exists>s'. rb_insert_step nil nd s = (p, s') \<and> rb_rep nil s' (fill k (Nd (Nd u g False l) nd True (Nd r p False c)))"
proof -
  note g = rep_reads [OF R]
  have p: "rb_parent s p = g" "rb_parent s nd = p" "lft s p = nd" "p \<noteq> root_of nil u"
    using R rep_reads [of nil s "InR u g True # k"] rep_reads [of nil s "InL p False c # InR u g True # k"]
      siblings [OF R] by auto
  have b: "rb_is_black s (root_of nil u)"
    using u R rep_black_nil [OF R] rep_reads [of nil s "InL g True (Nd (Nd l nd False r) p False c) # k"] by (cases u) auto
  define s1 where "s1 = rb_right_rotate nil p s"
  have R1: "rb_rep nil s1 (fill k (Nd u g True (Nd l nd False (Nd r p False c))))"
    using R rep_right_rotate [of nil s "InR u g True # k"] by (simp add: s1_def)
  have p1: "rb_parent s1 p = nd" "rb_parent s1 nd = g"
    using R1 rep_reads [of nil s1 "InR u g True # k"] rep_reads [of nil s1 "InR l nd False # InR u g True # k"] by auto
  have e: "rb_insert_step nil nd s = (p, rb_left_rotate nil g (rb_set_color g RB_RED (rb_set_color nd RB_BLACK s1)))"
    using g p b p1 by (simp add: rb_insert_step_def rb_pparent_def Let_def rb_fields s1_def [symmetric])
  have "rb_rep nil (rb_set_color nd RB_BLACK s1) (fill k (Nd u g True (Nd l nd True (Nd r p False c))))"
    using R1 rep_set_black [of nil s1 "InR u g True # k"] by simp
  then have "rb_rep nil (rb_set_color g RB_RED (rb_set_color nd RB_BLACK s1)) (fill k (Nd u g False (Nd l nd True (Nd r p False c))))"
    by (rule rep_set_red)
  then show ?thesis unfolding e using rep_left_rotate by blast
qed

text \<open>Every turn moves the red node nearer to the root or below a black node.\<close>

lemma insert_step_left:
  assumes inv: "ins_inv nil s nd (F # InL g True u # k) xs" and F: "F = InL p False c \<or> F = InR c p False"
  shows "\<exists>k'. ins_inv nil (snd (rb_insert_step nil nd s)) (fst (rb_insert_step nil nd s)) k' xs \<and> length k' < length k + 2"
proof (cases "blk u")
  case False
  then obtain ul ua ur where u: "u = Nd ul ua False ur" by (cases u) auto
  obtain l r where i: "rb_rep nil s (fill (F # InL g True u # k) (Nd l nd False r))" "invc (Nd l nd False r)" "invh (Nd l nd False r)"
    "ctxc True (F # InL g True u # k)" "ctxh (bh l) (F # InL g True u # k)"
    "before (F # InL g True u # k) @ inord l @ nd # inord r @ behind (F # InL g True u # k) = xs"
    using inv unfolding ins_inv_def by blast
  define t where "t = (if F = InL p False c then Nd (Nd l nd False r) p False c else Nd c p False (Nd l nd False r))"
  have t: "t = Nd (Nd l nd False r) p False c \<or> t = Nd c p False (Nd l nd False r)" by (simp add: t_def)
  have "rb_rep nil s (fill k (Nd t g True (Nd ul ua False ur)))" using F i(1) u by (auto simp: t_def)
  note st = insert_recolor_left [OF this t]
  have "ins_inv nil (snd (rb_insert_step nil nd s)) g k xs"
    unfolding ins_inv_def using st(2) F i(2-6) u by (intro exI [of _ "paint True t"] exI [of _ "Nd ul ua True ur"]) (auto simp: t_def)
  then show ?thesis using st(1) by (intro exI [of _ k]) simp
next
  case u: True
  obtain l r where i: "rb_rep nil s (fill (F # InL g True u # k) (Nd l nd False r))" "invc (Nd l nd False r)" "invh (Nd l nd False r)"
    "ctxc True (F # InL g True u # k)" "ctxh (bh l) (F # InL g True u # k)"
    "before (F # InL g True u # k) @ inord l @ nd # inord r @ behind (F # InL g True u # k) = xs"
    using inv unfolding ins_inv_def by blast
  show ?thesis
  proof (cases "F = InL p False c")
    case True
    then have "rb_rep nil s (fill k (Nd (Nd (Nd l nd False r) p False c) g True u))" using i(1) by simp
    from insert_rotate_left_outer [OF this u] obtain s' where
      s': "rb_insert_step nil nd s = (nd, s')" "rb_rep nil s' (fill k (Nd (Nd l nd False r) p True (Nd c g False u)))" by blast
    have "ins_inv nil s' nd (InL p True (Nd c g False u) # k) xs"
      unfolding ins_inv_def using s'(2) i(2-6) u True by (intro exI [of _ l] exI [of _ r]) auto
    then show ?thesis using s'(1) by (intro exI [of _ "InL p True (Nd c g False u) # k"]) simp
  next
    case False
    then have F': "F = InR c p False" using F by simp
    then have "rb_rep nil s (fill k (Nd (Nd c p False (Nd l nd False r)) g True u))" using i(1) by simp
    from insert_rotate_left_inner [OF this u] obtain s' where
      s': "rb_insert_step nil nd s = (p, s')" "rb_rep nil s' (fill k (Nd (Nd c p False l) nd True (Nd r g False u)))" by blast
    have "ins_inv nil s' p (InL nd True (Nd r g False u) # k) xs"
      unfolding ins_inv_def using s'(2) i(2-6) u F' by (intro exI [of _ c] exI [of _ l]) auto
    then show ?thesis using s'(1) by (intro exI [of _ "InL nd True (Nd r g False u) # k"]) simp
  qed
qed

lemma insert_step_right:
  assumes inv: "ins_inv nil s nd (F # InR u g True # k) xs" and F: "F = InL p False c \<or> F = InR c p False"
  shows "\<exists>k'. ins_inv nil (snd (rb_insert_step nil nd s)) (fst (rb_insert_step nil nd s)) k' xs \<and> length k' < length k + 2"
proof (cases "blk u")
  case False
  then obtain ul ua ur where u: "u = Nd ul ua False ur" by (cases u) auto
  obtain l r where i: "rb_rep nil s (fill (F # InR u g True # k) (Nd l nd False r))" "invc (Nd l nd False r)" "invh (Nd l nd False r)"
    "ctxc True (F # InR u g True # k)" "ctxh (bh l) (F # InR u g True # k)"
    "before (F # InR u g True # k) @ inord l @ nd # inord r @ behind (F # InR u g True # k) = xs"
    using inv unfolding ins_inv_def by blast
  define t where "t = (if F = InL p False c then Nd (Nd l nd False r) p False c else Nd c p False (Nd l nd False r))"
  have t: "t = Nd (Nd l nd False r) p False c \<or> t = Nd c p False (Nd l nd False r)" by (simp add: t_def)
  have "rb_rep nil s (fill k (Nd (Nd ul ua False ur) g True t))" using F i(1) u by (auto simp: t_def)
  note st = insert_recolor_right [OF this t]
  have "ins_inv nil (snd (rb_insert_step nil nd s)) g k xs"
    unfolding ins_inv_def using st(2) F i(2-6) u by (intro exI [of _ "Nd ul ua True ur"] exI [of _ "paint True t"]) (auto simp: t_def)
  then show ?thesis using st(1) by (intro exI [of _ k]) simp
next
  case u: True
  obtain l r where i: "rb_rep nil s (fill (F # InR u g True # k) (Nd l nd False r))" "invc (Nd l nd False r)" "invh (Nd l nd False r)"
    "ctxc True (F # InR u g True # k)" "ctxh (bh l) (F # InR u g True # k)"
    "before (F # InR u g True # k) @ inord l @ nd # inord r @ behind (F # InR u g True # k) = xs"
    using inv unfolding ins_inv_def by blast
  show ?thesis
  proof (cases "F = InL p False c")
    case True
    then have "rb_rep nil s (fill k (Nd u g True (Nd (Nd l nd False r) p False c)))" using i(1) by simp
    from insert_rotate_right_inner [OF this u] obtain s' where
      s': "rb_insert_step nil nd s = (p, s')" "rb_rep nil s' (fill k (Nd (Nd u g False l) nd True (Nd r p False c)))" by blast
    have "ins_inv nil s' p (InR (Nd u g False l) nd True # k) xs"
      unfolding ins_inv_def using s'(2) i(2-6) u True by (intro exI [of _ r] exI [of _ c]) auto
    then show ?thesis using s'(1) by (intro exI [of _ "InR (Nd u g False l) nd True # k"]) simp
  next
    case False
    then have F': "F = InR c p False" using F by simp
    then have "rb_rep nil s (fill k (Nd u g True (Nd c p False (Nd l nd False r))))" using i(1) by simp
    from insert_rotate_right_outer [OF this u] obtain s' where
      s': "rb_insert_step nil nd s = (nd, s')" "rb_rep nil s' (fill k (Nd (Nd u g False c) p True (Nd l nd False r)))" by blast
    have "ins_inv nil s' nd (InR (Nd u g False c) p True # k) xs"
      unfolding ins_inv_def using s'(2) i(2-6) u F' by (intro exI [of _ l] exI [of _ r]) auto
    then show ?thesis using s'(1) by (intro exI [of _ "InR (Nd u g False c) p True # k"]) simp
  qed
qed

section \<open>The repair loop\<close>

text \<open>A red node whose parent is red has a grandparent, and that is black.\<close>

lemma red_parent:
  assumes inv: "ins_inv nil s nd k xs" and red: "rb_is_red s (rb_parent s nd)"
  shows "\<exists>F G k' p c g u. k = F # G # k' \<and> (F = InL p False c \<or> F = InR c p False) \<and> (G = InL g True u \<or> G = InR u g True)"
proof -
  obtain l r where R: "rb_rep nil s (fill k (Nd l nd False r))" and c: "ctxc True k"
    using inv unfolding ins_inv_def by blast
  have pa: "rb_parent s nd = par_of nil k" using rep_reads [OF R] by simp
  show ?thesis
  proof (cases k)
    case Nil
    then show ?thesis using red pa rep_black_nil [OF R] by (simp add: rb_fields)
  next
    case (Cons F k1)
    obtain p cc where F: "F = InL p False cc \<or> F = InR cc p False" and k1: "ctxc False k1"
    proof (cases F)
      case (InL a b x)
      then have "\<not> b" using R Cons pa red rep_reads [of nil s k1 "Nd l nd False r" a b x] by (simp add: rb_fields)
      then show ?thesis using that [of a x] InL Cons c by simp
    next
      case (InR x a b)
      then have "\<not> b" using R Cons pa red rep_reads [of nil s k1 x a b "Nd l nd False r"] by (simp add: rb_fields)
      then show ?thesis using that [of a x] InR Cons c by simp
    qed
    obtain G k' where "k1 = G # k'" using k1 by (cases k1) auto
    then show ?thesis using F k1 Cons by (cases G) auto
  qed
qed

lemma insert_fixup_ok:
  "ins_inv nil s nd k xs \<Longrightarrow> \<exists>s' t'. rb_insert_fixup nil nd s = Some s' \<and> rb_rep nil s' t' \<and> rb_ok t' \<and> inord t' = xs"
proof (induction "length k" arbitrary: k nd s rule: less_induct)
  case less
  show ?case
  proof (cases "rb_is_red s (rb_parent s nd)")
    case True
    obtain F G k' p c g u where k: "k = F # G # k'" and F: "F = InL p False c \<or> F = InR c p False"
      and G: "G = InL g True u \<or> G = InR u g True" using red_parent [OF less.prems True] by blast
    have "ins_inv nil s nd (F # InL g True u # k') xs \<or> ins_inv nil s nd (F # InR u g True # k') xs"
      using less.prems G k by blast
    then have "\<exists>k2. ins_inv nil (snd (rb_insert_step nil nd s)) (fst (rb_insert_step nil nd s)) k2 xs \<and> length k2 < length k' + 2"
      using insert_step_left [OF _ F] insert_step_right [OF _ F] by blast
    then obtain k2 where "ins_inv nil (snd (rb_insert_step nil nd s)) (fst (rb_insert_step nil nd s)) k2 xs" "length k2 < length k"
      using k by auto
    from less.hyps [OF this(2,1)] show ?thesis
      using True by (subst rb_insert_fixup.simps) (simp add: case_prod_beta)
  next
    case False
    obtain l r where i: "rb_rep nil s (fill k (Nd l nd False r))" "invc (Nd l nd False r)" "invh (Nd l nd False r)"
      "ctxc True k" "ctxh (bh l) k" "before k @ inord l @ nd # inord r @ behind k = xs"
      using less.prems unfolding ins_inv_def by blast
    have root: "rb_root s = root_of nil (fill k (Nd l nd False r))" by (rule rep_root [OF i(1)])
    have R: "rb_rep nil (rb_set_color (rb_root s) RB_BLACK s) (paint True (fill k (Nd l nd False r)))"
      using rep_black_at [of nil s "[]"] i(1) root by simp
    have "rb_ok (paint True (fill k (Nd l nd False r)))"
    proof (cases k)
      case Nil
      then show ?thesis using i(2,3) by (simp add: rb_ok_def)
    next
      case (Cons G k')
      have "rb_parent s nd = par_of nil k" using rep_reads [OF i(1)] by simp
      then have "ctxc False k" using i(1,4) Cons False
          rep_reads(4) [of nil s k' "Nd l nd False r"] rep_reads(4) [of nil s k' _ _ _ "Nd l nd False r"]
        by (cases G) (fastforce simp: rb_is_red_iff)+
      then have "rb_ok (fill k (Nd l nd False r))" using i by (simp add: fill_ok)
      then show ?thesis by (cases "fill k (Nd l nd False r)") (auto simp: rb_ok_def)
    qed
    then show ?thesis
      using False R i(6) by (subst rb_insert_fixup.simps) auto
  qed
qed

section \<open>The place of a new node\<close>

fun descend :: "(u32 \<Rightarrow> u32 \<Rightarrow> int) \<Rightarrow> u32 \<Rightarrow> rb_ctx \<Rightarrow> rbt \<Rightarrow> rb_ctx" where
  "descend cmp nd k Lf = k"
| "descend cmp nd k (Nd l a b r) =
    (if cmp nd a < 0 then descend cmp nd (InL a b r # k) l else descend cmp nd (InR l a b # k) r)"

text \<open>The last comparison of the search, which \<open>rb_insert\<close> repeats to choose the side.\<close>

fun side_ok :: "(u32 \<Rightarrow> u32 \<Rightarrow> int) \<Rightarrow> u32 \<Rightarrow> rb_ctx \<Rightarrow> bool" where
  "side_ok cmp nd [] = True"
| "side_ok cmp nd (InL a b r # k) \<longleftrightarrow> cmp nd a < 0"
| "side_ok cmp nd (InR l a b # k) \<longleftrightarrow> \<not> cmp nd a < 0"

lemma fill_descend: "fill (descend cmp nd k t) Lf = fill k t"
  by (induction t arbitrary: k) simp_all

lemma side_descend: "side_ok cmp nd k \<Longrightarrow> side_ok cmp nd (descend cmp nd k t)"
  by (induction t arbitrary: k) simp_all

lemma insert_search:
  "rb_rep nil s (fill k t) \<Longrightarrow>
   rb_insert_search cmp nil nd s (par_of nil k) (root_of nil t) = Some (par_of nil (descend cmp nd k t))"
proof (induction t arbitrary: k)
  case Lf
  then show ?case by (subst rb_insert_search.simps) simp
next
  case (Nd l a b r)
  note a = rep_reads [OF Nd.prems]
  show ?case using Nd.IH(1) [of "InL a b r # k"] Nd.IH(2) [of "InR l a b # k"] Nd.prems a
    by (subst rb_insert_search.simps) simp
qed

definition rb_link :: "(u32 \<Rightarrow> u32 \<Rightarrow> int) \<Rightarrow> u32 \<Rightarrow> u32 \<Rightarrow> u32 \<Rightarrow> rb_state \<Rightarrow> rb_state" where
  "rb_link cmp nil nd pre s = (let s = (if pre = nil then s\<lparr>rb_root := nd\<rparr>
       else if cmp nd pre < 0 then set_left pre nd s else set_right pre nd s)
     in rb_set_parent_color nd pre RB_RED (set_right nd nil (set_left nd nil s)))"

lemma rb_insert_split: "rb_insert cmp nil nd s =
    Option.bind (rb_insert_search cmp nil nd s nil (rb_root s)) (\<lambda>pre. rb_insert_fixup nil nd (rb_link cmp nil nd pre s))"
  by (simp add: rb_insert_def rb_link_def Let_def)

lemma link_rep:
  assumes R: "rb_rep nil s (fill k Lf)" and side: "side_ok cmp nd k"
    and nd: "aligned nd" "nd \<noteq> nil" "nd \<notin> set (before k)" "nd \<notin> set (behind k)"
  shows "rb_rep nil (rb_link cmp nil nd (par_of nil k) s) (fill k (Nd Lf nd False Lf))"
proof -
  have c: "ctx_at nil s (par_of nil k) nil k" "distinct (before k @ behind k)" "aligned nil" "rb_is_black s nil"
    using R unfolding rep_focus by (auto simp: focus_def)
  note al = aligned_parent [OF c(1,3)]
  define s1 where "s1 = (if par_of nil k = nil then s\<lparr>rb_root := nd\<rparr>
       else if cmp nd (par_of nil k) < 0 then set_left (par_of nil k) nd s else set_right (par_of nil k) nd s)"
  have 1: "ctx_at nil s1 (par_of nil k) nd k"
    using c side by (cases "(cmp, nd, k)" rule: side_ok.cases) (auto simp: s1_def rb_fields)
  have 2: "rb_is_black s1 nil" using c(4) by (simp add: s1_def rb_fields)
  have l: "rb_link cmp nil nd (par_of nil k) s = rb_set_parent_color nd (par_of nil k) RB_RED (set_right nd nil (set_left nd nil s1))"
    unfolding rb_link_def Let_def s1_def ..
  show ?thesis unfolding l rep_focus focus_def using 1 2 c nd al by (auto simp: rb_fields)
qed

lemma descend_order:
  assumes "\<forall>a b. cmp a b < 0 \<longleftrightarrow> (key a :: 'a :: linorder) < key b"
  shows "sorted (map key (inord t)) \<Longrightarrow> \<forall>a \<in> set (before k). key a \<le> key nd \<Longrightarrow> \<forall>a \<in> set (behind k). key nd < key a \<Longrightarrow>
    (\<forall>a \<in> set (before (descend cmp nd k t)). key a \<le> key nd) \<and> (\<forall>a \<in> set (behind (descend cmp nd k t)). key nd < key a)"
proof (induction t arbitrary: k)
  case (Nd l a b r)
  have s: "sorted (map key (inord l))" "sorted (map key (inord r))"
    "\<forall>x \<in> set (inord l). key x \<le> key a" "\<forall>x \<in> set (inord r). key a \<le> key x"
    using Nd.prems(1) by (auto simp: sorted_append)
  show ?case
  proof (cases "key nd < key a")
    case True
    then have "\<forall>x \<in> set (behind (InL a b r # k)). key nd < key x" using s(4) Nd.prems(3) by auto
    from Nd.IH(1) [OF s(1) _ this] True assms Nd.prems(2) show ?thesis by simp
  next
    case False
    then have "\<forall>x \<in> set (before (InR l a b # k)). key x \<le> key nd" using s(3) Nd.prems(2) by force
    from Nd.IH(2) [OF s(2) this] False assms Nd.prems(3) show ?thesis by simp
  qed
qed simp

lemma split_filter:
  "\<forall>a \<in> set xs. P a \<Longrightarrow> \<forall>a \<in> set ys. \<not> P a \<Longrightarrow> filter P (xs @ ys) = xs \<and> filter (\<lambda>a. \<not> P a) (xs @ ys) = ys"
  by (simp add: filter_empty_conv)

section \<open>Insertion\<close>

lemma insert_rep:
  assumes cmp: "\<forall>a b. cmp a b < 0 \<longleftrightarrow> (key a :: int) < key b"
    and t: "rb_rep nil s t" "rb_ok t" "sorted (map key (inord t))"
    and nd: "aligned nd" "nd \<noteq> nil" "nd \<notin> set (inord t)"
  shows "\<exists>s' t'. rb_insert cmp nil nd s = Some s' \<and> rb_rep nil s' t' \<and> rb_ok t'
    \<and> inord t' = filter (\<lambda>a. key a \<le> key nd) (inord t) @ nd # filter (\<lambda>a. \<not> key a \<le> key nd) (inord t)
    \<and> sorted (map key (inord t'))"
proof -
  define k where "k = descend cmp nd [] t"
  have f: "fill k Lf = t" using fill_descend [of cmp nd "[]" t] by (simp add: k_def)
  then have o: "inord t = before k @ behind k" using inord_fill [of k Lf] by simp
  have se: "rb_insert_search cmp nil nd s nil (rb_root s) = Some (par_of nil k)"
    using insert_search [of nil s "[]" t cmp nd] t(1) rep_root [OF t(1)] by (simp add: k_def)
  have R: "rb_rep nil (rb_link cmp nil nd (par_of nil k) s) (fill k (Nd Lf nd False Lf))"
    by (rule link_rep) (use t(1) f nd o side_descend [of cmp nd "[]" t] in \<open>auto simp: k_def\<close>)
  have ok: "ctxc True k" "ctxh 0 k" using t(2) fill_ok [of k Lf] f by simp_all
  have inv: "ins_inv nil (rb_link cmp nil nd (par_of nil k) s) nd k (before k @ nd # behind k)"
    unfolding ins_inv_def using R ok by (intro exI [of _ Lf]) simp
  obtain s' t' where r: "rb_insert_fixup nil nd (rb_link cmp nil nd (par_of nil k) s) = Some s'" "rb_rep nil s' t'" "rb_ok t'"
    "inord t' = before k @ nd # behind k" using insert_fixup_ok [OF inv] by blast
  have ord: "\<forall>a \<in> set (before k). key a \<le> key nd" "\<forall>a \<in> set (behind k). key nd < key a"
    using descend_order [of cmp key t "[]" nd] cmp t(3) by (simp_all add: k_def)
  then have "\<forall>a \<in> set (behind k). \<not> key a \<le> key nd" by auto
  note fl = split_filter [OF ord(1) this]
  have "sorted (map key (inord t'))" using t(3) ord r(4) o by (auto simp: sorted_append less_imp_le)
  then show ?thesis using se r fl o by (intro exI [of _ s'] exI [of _ t']) (simp add: rb_insert_split)
qed

text \<open>
  C31. \<open>rb_insert\<close> returns on every red-black tree whose nodes are in the order of their keys: the result is a red-black tree
  again, linked consistently, and holds the old nodes in their order with the new one behind all nodes of a key that is not greater.
  The comparison function has to follow a linear order of the nodes.
\<close>

theorem rb_insert_ok:
  assumes cmp: "\<forall>a b. cmp a b < 0 \<longleftrightarrow> (key a :: int) < key b"
    and t: "rb_rep nil s t" "rb_ok t" "sorted (map key (inord t))"
    and nd: "aligned nd" "nd \<noteq> nil" "nd \<notin> set (inord t)"
  shows "\<exists>s' t'. rb_insert cmp nil nd s = Some s' \<and> rb_rep nil s' t' \<and> rb_ok t'
    \<and> inord t' = filter (\<lambda>a. key a \<le> key nd) (inord t) @ nd # filter (\<lambda>a. \<not> key a \<le> key nd) (inord t)
    \<and> sorted (map key (inord t'))"
  by (rule insert_rep [OF assms])

text \<open>A tree with the single node 8, the sentinel at 4: the new node 12 comes behind it.\<close>

definition one_node :: rb_state where
  "one_node = \<lparr>rb_mem = (\<lambda>a. if a = 8 then \<lparr>color_parent = 5, node_left = 4, node_right = 4\<rparr>
      else \<lparr>color_parent = 1, node_left = 0, node_right = 0\<rparr>), rb_root = 8\<rparr>"

lemma one_node_rep: "rb_rep 4 one_node (Nd Lf 8 True Lf)" "rb_ok (Nd Lf 8 True Lf)"
  by (simp_all add: rb_rep_def focus_def one_node_def lft_def rgt_def rb_parent_def rb_is_black_def rb_color_def aligned_def rb_ok_def)

theorem rb_insert_ok_witness:
  "\<exists>s' t'. rb_insert (\<lambda>a b. uint a - uint b) 4 12 one_node = Some s' \<and> rb_rep 4 s' t' \<and> inord t' = [8, 12]"
proof -
  have c: "\<forall>a b :: u32. uint a - uint b < 0 \<longleftrightarrow> uint a < uint b" by simp
  have n: "aligned 12" "(12 :: u32) \<noteq> 4" "12 \<notin> set (inord (Nd Lf 8 True Lf))" by (simp_all add: aligned_def)
  show ?thesis using rb_insert_ok [OF c one_node_rep _ n] by auto
qed

end
