(* ===== verification/RbtreeDelete.thy ===== *)
theory RbtreeDelete
  imports RbtreeRep
begin

text \<open>
  Deletion from the red-black tree: the two halves of a turn of the repair loop on each side, the
  loop by induction on the path to the root, and the three ways \<open>rb_delete\<close> takes a node out.
\<close>

section \<open>The halves of a turn\<close>

text \<open>A red brother is turned into a black one; then the nephews decide.\<close>

definition brother_left :: "u32 \<Rightarrow> u32 \<Rightarrow> rb_state \<Rightarrow> u32 \<times> rb_state" where
  "brother_left nil nd s =
    (let bro = rgt s (rb_parent s nd)
     in if rb_is_red s bro then
          let s = rb_set_color bro RB_BLACK s;
              s = rb_set_color (rb_parent s nd) RB_RED s;
              s = rb_left_rotate nil (rb_parent s nd) s
          in (rgt s (rb_parent s nd), s)
        else (bro, s))"

definition nephews_left :: "u32 \<Rightarrow> u32 \<Rightarrow> u32 \<times> rb_state \<Rightarrow> u32 \<times> rb_state" where
  "nephews_left nil nd q =
    (case q of (bro, s) \<Rightarrow> if rb_is_black s (lft s bro) \<and> rb_is_black s (rgt s bro) then
         let s = rb_set_color bro RB_RED s in (rb_parent s nd, s)
       else
         let (bro, s) = (if rb_is_black s (rgt s bro) then
               let s = rb_set_color (lft s bro) RB_BLACK s;
                   s = rb_set_color bro RB_RED s;
                   s = rb_right_rotate nil bro s
               in (rgt s (rb_parent s nd), s)
             else (bro, s));
             s = rb_set_color bro (rb_color s (rb_parent s nd)) s;
             s = rb_set_color (rb_parent s nd) RB_BLACK s;
             s = rb_set_color (rgt s bro) RB_BLACK s;
             s = rb_left_rotate nil (rb_parent s nd) s
         in (rb_root s, s))"

definition brother_right :: "u32 \<Rightarrow> u32 \<Rightarrow> rb_state \<Rightarrow> u32 \<times> rb_state" where
  "brother_right nil nd s =
    (let bro = lft s (rb_parent s nd)
     in if rb_is_red s bro then
          let s = rb_set_color bro RB_BLACK s;
              s = rb_set_color (rb_parent s nd) RB_RED s;
              s = rb_right_rotate nil (rb_parent s nd) s
          in (lft s (rb_parent s nd), s)
        else (bro, s))"

definition nephews_right :: "u32 \<Rightarrow> u32 \<Rightarrow> u32 \<times> rb_state \<Rightarrow> u32 \<times> rb_state" where
  "nephews_right nil nd q =
    (case q of (bro, s) \<Rightarrow> if rb_is_black s (lft s bro) \<and> rb_is_black s (rgt s bro) then
         let s = rb_set_color bro RB_RED s in (rb_parent s nd, s)
       else
         let (bro, s) = (if rb_is_black s (lft s bro) then
               let s = rb_set_color (rgt s bro) RB_BLACK s;
                   s = rb_set_color bro RB_RED s;
                   s = rb_left_rotate nil bro s
               in (lft s (rb_parent s nd), s)
             else (bro, s));
             s = rb_set_color bro (rb_color s (rb_parent s nd)) s;
             s = rb_set_color (rb_parent s nd) RB_BLACK s;
             s = rb_set_color (lft s bro) RB_BLACK s;
             s = rb_right_rotate nil (rb_parent s nd) s
         in (rb_root s, s))"

lemma delete_step_halves:
  "rb_delete_step nil nd s = (if nd = lft s (rb_parent s nd) then nephews_left nil nd (brother_left nil nd s)
    else nephews_right nil nd (brother_right nil nd s))"
  by (simp add: rb_delete_step_def nephews_left_def brother_left_def nephews_right_def brother_right_def Let_def)

section \<open>The invariant of the repair loop\<close>

text \<open>
  The subtree \<open>t\<close> at \<open>k\<close> is one black node short; its root may be red, and then its children too. The code finds the parent of
  an empty subtree in the sentinel.
\<close>

definition del_inv :: "u32 \<Rightarrow> rb_state \<Rightarrow> rbt \<Rightarrow> rb_ctx \<Rightarrow> u32 list \<Rightarrow> bool" where
  "del_inv nil s t k xs \<longleftrightarrow> rb_rep nil s (fill k t) \<and> rb_parent s (root_of nil t) = par_of nil k
     \<and> invc (paint True t) \<and> invh t \<and> ctxc True k \<and> ctxh (bh t + 1) k \<and> before k @ inord t @ behind k = xs"

lemma parent_at: "rb_rep nil s (fill k t) \<Longrightarrow> t \<noteq> Lf \<or> rb_parent s nil = par_of nil k \<Longrightarrow> rb_parent s (root_of nil t) = par_of nil k"
  using rep_reads(3) [of nil s k] by (cases t) auto

lemma paint_black: "blk t \<Longrightarrow> paint True t = t"
  by (cases t) simp_all

lemma nephews_black_left:
  assumes R: "rb_rep nil s (fill k (Nd t p pb (Nd wl wa True wr)))" and pa: "rb_parent s (root_of nil t) = p"
    and b: "blk wl" "blk wr"
  shows "nephews_left nil (root_of nil t) (wa, s) = (p, rb_set_color wa RB_RED s)"
    "rb_rep nil (rb_set_color wa RB_RED s) (fill k (Nd t p pb (Nd wl wa False wr)))"
proof -
  have w: "lft s wa = root_of nil wl" "rgt s wa = root_of nil wr"
    using rep_reads [of nil s "InR t p pb # k" wl wa True wr] R by simp_all
  have c: "rb_is_black s (root_of nil wl)" "rb_is_black s (root_of nil wr)"
    using rep_root_blk [of nil s "InL wa True wr # InR t p pb # k" wl] rep_root_blk [of nil s "InR wl wa True # InR t p pb # k" wr] R b
    by simp_all
  show "nephews_left nil (root_of nil t) (wa, s) = (p, rb_set_color wa RB_RED s)"
    using w c pa by (simp add: nephews_left_def Let_def rb_fields)
  show "rb_rep nil (rb_set_color wa RB_RED s) (fill k (Nd t p pb (Nd wl wa False wr)))"
    using R rep_set_red [of nil s "InR t p pb # k"] by simp
qed

lemma nephews_far_left:
  assumes R: "rb_rep nil s (fill k (Nd t p pb (Nd wl wa True wr)))" and pa: "rb_parent s (root_of nil t) = p"
    and b: "\<not> blk wr"
  shows "\<exists>s'. nephews_left nil (root_of nil t) (wa, s) = (rb_root s', s')
    \<and> rb_rep nil s' (fill k (Nd (Nd t p True wl) wa pb (paint True wr)))"
proof -
  have w: "rgt s wa = root_of nil wr"
    using rep_reads [of nil s "InR t p pb # k" wl wa True wr] R by simp
  have c: "\<not> rb_is_black s (root_of nil wr)" and p: "rb_is_black s p = pb"
    using rep_root_blk [of nil s "InR wl wa True # InR t p pb # k" wr] rep_reads(4) [OF R] R b by simp_all
  define s1 where "s1 = rb_set_color wa (rb_color s p) s"
  define s2 where "s2 = rb_set_color p RB_BLACK s1"
  define s3 where "s3 = rb_set_color (root_of nil wr) RB_BLACK s2"
  have 1: "rb_rep nil s1 (fill k (Nd t p pb (Nd wl wa pb wr)))"
    using rep_copy_color [of nil s "InR t p pb # k" wl wa True wr s p] R p by (simp add: s1_def)
  have 2: "rb_rep nil s2 (fill k (Nd t p True (Nd wl wa pb wr)))"
    using rep_set_black [OF 1] by (simp add: s2_def)
  have 3: "rb_rep nil s3 (fill k (Nd t p True (Nd wl wa pb (paint True wr))))"
    using rep_black_at [of nil s2 "InR wl wa pb # InR t p True # k" wr] 2 by (simp add: s3_def)
  have "nephews_left nil (root_of nil t) (wa, s) = (rb_root (rb_left_rotate nil p s3), rb_left_rotate nil p s3)"
    using w c pa by (simp add: nephews_left_def Let_def rb_fields s3_def s2_def s1_def)
  then show ?thesis using rep_left_rotate [OF 3] by blast
qed

lemma nephews_near_left:
  assumes R: "rb_rep nil s (fill k (Nd t p pb (Nd (Nd a y False b) wa True wr)))" and pa: "rb_parent s (root_of nil t) = p"
    and b: "blk wr"
  shows "\<exists>s'. nephews_left nil (root_of nil t) (wa, s) = (rb_root s', s')
    \<and> rb_rep nil s' (fill k (Nd (Nd t p True a) y pb (Nd b wa True wr)))"
proof -
  have w: "lft s wa = y" "rgt s wa = root_of nil wr"
    using rep_reads [of nil s "InR t p pb # k" "Nd a y False b" wa True wr] R by simp_all
  have c: "rb_is_black s (root_of nil wr)" "\<not> rb_is_black s y"
    using rep_root_blk [of nil s "InR (Nd a y False b) wa True # InR t p pb # k" wr]
      rep_reads [of nil s "InL wa True wr # InR t p pb # k" a y False b] R b by simp_all
  define s2 where "s2 = rb_set_color wa RB_RED (rb_set_color y RB_BLACK s)"
  define s3 where "s3 = rb_right_rotate nil wa s2"
  have "rb_rep nil (rb_set_color y RB_BLACK s) (fill k (Nd t p pb (Nd (Nd a y True b) wa True wr)))"
    using rep_set_black [of nil s "InL wa True wr # InR t p pb # k" a y False b] R by simp
  then have 2: "rb_rep nil s2 (fill k (Nd t p pb (Nd (Nd a y True b) wa False wr)))"
    using rep_set_red [of nil _ "InR t p pb # k" "Nd a y True b" wa True wr] by (simp add: s2_def)
  have 3: "rb_rep nil s3 (fill k (Nd t p pb (Nd a y True (Nd b wa False wr))))"
    using rep_right_rotate [of nil s2 "InR t p pb # k"] 2 by (simp add: s3_def)
  have "rb_parent s3 nil = rb_parent s2 nil"
    unfolding s3_def by (rule rep_right_rotate_nil [of _ _ "InR t p pb # k"]) (use 2 in simp)
  then have pa3: "rb_parent s3 (root_of nil t) = p"
    using parent_at [of nil s3 "InL p pb (Nd a y True (Nd b wa False wr)) # k" t] 3 pa by (cases t) (simp_all add: s2_def rb_fields)
  have y: "rgt s3 p = y" using rep_reads [OF 3] by simp
  have f: "\<not> rb_is_black s3 (rgt s3 y)"
    using rep_reads(2) [of nil s3 "InR t p pb # k" a y] rep_reads(4) [of nil s3 "InR a y True # InR t p pb # k" b wa False wr] 3 by simp
  have e: "nephews_left nil (root_of nil t) (wa, s) = nephews_left nil (root_of nil t) (y, s3)"
    using w c pa3 y f by (simp add: nephews_left_def Let_def s2_def [symmetric] s3_def [symmetric])
  show ?thesis unfolding e using nephews_far_left [OF 3 pa3] by simp
qed

lemma brother_red_left:
  assumes R: "rb_rep nil s (fill k (Nd t p pb (Nd wl wa False wr)))" and pa: "rb_parent s (root_of nil t) = p"
  shows "\<exists>s'. brother_left nil (root_of nil t) s = (root_of nil wl, s')
    \<and> rb_rep nil s' (fill k (Nd (Nd t p False wl) wa True wr)) \<and> rb_parent s' (root_of nil t) = p"
proof -
  have w: "rgt s p = wa" using rep_reads [OF R] by simp
  have c: "\<not> rb_is_black s wa" using rep_reads [of nil s "InR t p pb # k" wl wa False wr] R by simp
  define s2 where "s2 = rb_set_color p RB_RED (rb_set_color wa RB_BLACK s)"
  define s3 where "s3 = rb_left_rotate nil p s2"
  have "rb_rep nil (rb_set_color wa RB_BLACK s) (fill k (Nd t p pb (Nd wl wa True wr)))"
    using rep_set_black [of nil s "InR t p pb # k" wl wa False wr] R by simp
  then have 2: "rb_rep nil s2 (fill k (Nd t p False (Nd wl wa True wr)))"
    unfolding s2_def by (rule rep_set_red)
  have 3: "rb_rep nil s3 (fill k (Nd (Nd t p False wl) wa True wr))"
    unfolding s3_def by (rule rep_left_rotate [OF 2])
  have "rb_parent s3 nil = rb_parent s2 nil"
    unfolding s3_def by (rule rep_left_rotate_nil [OF 2])
  then have pa3: "rb_parent s3 (root_of nil t) = p"
    using parent_at [of nil s3 "InL p False wl # InL wa True wr # k" t] 3 pa by (cases t) (simp_all add: s2_def rb_fields)
  have y: "rgt s3 p = root_of nil wl" using rep_reads [of nil s3 "InL wa True wr # k" t p False wl] 3 by simp
  have "brother_left nil (root_of nil t) s = (root_of nil wl, s3)"
    using w c pa pa3 y by (simp add: brother_left_def Let_def rb_fields s2_def [symmetric] s3_def [symmetric])
  then show ?thesis using 3 pa3 by blast
qed

lemma brother_black_left:
  assumes R: "rb_rep nil s (fill k (Nd t p pb w))" and pa: "rb_parent s (root_of nil t) = p" and b: "blk w"
  shows "brother_left nil (root_of nil t) s = (root_of nil w, s)"
  using rep_reads(2) [OF R] rep_root_blk [of nil s "InR t p pb # k" w] R pa b by (simp add: brother_left_def rb_fields)

text \<open>After the last rotation the whole tree is in order, and the loop goes on at its root, where it stops.\<close>

lemma del_inv_whole:
  assumes R: "rb_rep nil s (fill k (Nd l a b r))" and ok: "rb_ok (fill k (Nd l a b r))"
    and xs: "before k @ inord (Nd l a b r) @ behind k = xs"
  shows "\<exists>t'. del_inv nil s t' [] xs \<and> rb_root s = root_of nil t'"
proof -
  obtain l' a' b' r' where t: "fill k (Nd l a b r) = Nd l' a' b' r'"
  proof (cases "fill k (Nd l a b r)")
    case Lf
    then have "inord (fill k (Nd l a b r)) = []" by (simp del: inord_fill)
    then show ?thesis by simp
  qed auto
  have "rb_parent s a' = nil" using rep_reads(3) [of nil s "[]" l' a' b' r'] R t by simp
  moreover have "inord (Nd l' a' b' r') = xs" using arg_cong [OF t, of inord] xs by simp
  ultimately have "del_inv nil s (Nd l' a' b' r') [] xs"
    unfolding del_inv_def using R ok t by (auto simp: rb_ok_def)
  then show ?thesis using rep_root [OF R] t by auto
qed

lemma nephews_left_ok:
  assumes inv: "del_inv nil s t (InL p pb (Nd wl wa True wr) # k) xs" and t: "blk t"
  shows "\<exists>t' k'. del_inv nil (snd (nephews_left nil (root_of nil t) (wa, s))) t' k' xs
    \<and> fst (nephews_left nil (root_of nil t) (wa, s)) = root_of nil t' \<and> (k' = k \<and> blk t' = pb \<or> k' = [])"
proof -
  have i: "rb_rep nil s (fill k (Nd t p pb (Nd wl wa True wr)))" "rb_parent s (root_of nil t) = p" "invc t" "invh t"
    "invc wl" "invc wr" "invh wl" "invh wr" "bh wl = bh wr" "bh wl = bh t" "ctxc pb k" "ctxh (bh t + 1 + (if pb then 1 else 0)) k"
    "before k @ inord (Nd t p pb (Nd wl wa True wr)) @ behind k = xs"
    using inv t unfolding del_inv_def by (auto simp: paint_black)
  show ?thesis
  proof (cases "blk wl \<and> blk wr")
    case True
    then have w: "blk wl" "blk wr" by simp_all
    note n = nephews_black_left [OF i(1,2) w]
    have "del_inv nil (rb_set_color wa RB_RED s) (Nd t p pb (Nd wl wa False wr)) k xs"
      unfolding del_inv_def using n(2) i w rep_reads(3) [OF n(2)] ctxc_black by auto
    then show ?thesis unfolding n(1) by (intro exI [of _ "Nd t p pb (Nd wl wa False wr)"] exI [of _ k]) simp
  next
    case False
    show ?thesis
    proof (cases "blk wr")
      case True
      then obtain a y b where wl: "wl = Nd a y False b" using False by (cases wl) auto
      obtain s' where s': "nephews_left nil (root_of nil t) (wa, s) = (rb_root s', s')"
        "rb_rep nil s' (fill k (Nd (Nd t p True a) y pb (Nd b wa True wr)))"
        using nephews_near_left [of nil s k t p pb a y b wa wr] i(1,2) wl True by auto
      have "rb_ok (fill k (Nd (Nd t p True a) y pb (Nd b wa True wr)))"
        using i True wl by (simp add: fill_ok)
      then show ?thesis using del_inv_whole [OF s'(2)] s'(1) i(13) wl by fastforce
    next
      case False
      then obtain c z d where wr: "wr = Nd c z False d" by (cases wr) auto
      obtain s' where s': "nephews_left nil (root_of nil t) (wa, s) = (rb_root s', s')"
        "rb_rep nil s' (fill k (Nd (Nd t p True wl) wa pb (paint True wr)))"
        using nephews_far_left [OF i(1,2) False] by blast
      have "rb_ok (fill k (Nd (Nd t p True wl) wa pb (paint True wr)))"
        using i wr by (simp add: fill_ok)
      then show ?thesis using del_inv_whole [OF s'(2)] s'(1) i(13) by fastforce
    qed
  qed
qed

lemma delete_step_left:
  assumes inv: "del_inv nil s t (InL p pb w # k) xs" and t: "blk t"
  shows "\<exists>t' k'. del_inv nil (snd (rb_delete_step nil (root_of nil t) s)) t' k' xs
    \<and> fst (rb_delete_step nil (root_of nil t) s) = root_of nil t'
    \<and> 2 * length k' + (if blk t' then 1 else 0) < 2 * length k + 3"
proof -
  have i: "rb_rep nil s (fill k (Nd t p pb w))" "rb_parent s (root_of nil t) = p" "bh w = bh t + 1"
    "ctxc True (InL p pb w # k)" "ctxh (bh t + 1) (InL p pb w # k)" "invc w" "invh w"
    using inv unfolding del_inv_def by auto
  obtain wl wa wb wr where w: "w = Nd wl wa wb wr" using i(3) by (cases w) auto
  have d: "rb_delete_step nil (root_of nil t) s = nephews_left nil (root_of nil t) (brother_left nil (root_of nil t) s)"
    using rep_reads(1) [OF i(1)] i(2) by (simp add: delete_step_halves)
  show ?thesis
  proof (cases wb)
    case True
    then have "brother_left nil (root_of nil t) s = (wa, s)" using brother_black_left [OF i(1,2)] w by simp
    then show ?thesis using nephews_left_ok [of nil s t p pb wl wa wr k xs] inv t w d True by fastforce
  next
    case False
    then obtain s' where s': "brother_left nil (root_of nil t) s = (root_of nil wl, s')"
      "rb_rep nil s' (fill k (Nd (Nd t p False wl) wa True wr))" "rb_parent s' (root_of nil t) = p"
      using brother_red_left [of nil s k t p pb wl wa wr] i w by auto
    obtain a y b where wl: "wl = Nd a y True b" using i w False by (cases wl) auto
    have "del_inv nil s' t (InL p False wl # InL wa True wr # k) xs"
      using inv s'(2,3) w False wl unfolding del_inv_def by auto
    then show ?thesis using nephews_left_ok [of nil s' t p False a y b "InL wa True wr # k" xs] t d s'(1) wl by fastforce
  qed
qed

lemma nephews_black_right:
  assumes R: "rb_rep nil s (fill k (Nd (Nd wr wa True wl) p pb t))" and pa: "rb_parent s (root_of nil t) = p"
    and b: "blk wl" "blk wr"
  shows "nephews_right nil (root_of nil t) (wa, s) = (p, rb_set_color wa RB_RED s)"
    "rb_rep nil (rb_set_color wa RB_RED s) (fill k (Nd (Nd wr wa False wl) p pb t))"
proof -
  have w: "rgt s wa = root_of nil wl" "lft s wa = root_of nil wr"
    using rep_reads [of nil s "InL p pb t # k" wr wa True wl] R by simp_all
  have c: "rb_is_black s (root_of nil wl)" "rb_is_black s (root_of nil wr)"
    using rep_root_blk [of nil s "InR wr wa True # InL p pb t # k" wl] rep_root_blk [of nil s "InL wa True wl # InL p pb t # k" wr] R b
    by simp_all
  show "nephews_right nil (root_of nil t) (wa, s) = (p, rb_set_color wa RB_RED s)"
    using w c pa by (simp add: nephews_right_def Let_def rb_fields)
  show "rb_rep nil (rb_set_color wa RB_RED s) (fill k (Nd (Nd wr wa False wl) p pb t))"
    using R rep_set_red [of nil s "InL p pb t # k"] by simp
qed

lemma nephews_far_right:
  assumes R: "rb_rep nil s (fill k (Nd (Nd wr wa True wl) p pb t))" and pa: "rb_parent s (root_of nil t) = p"
    and b: "\<not> blk wr"
  shows "\<exists>s'. nephews_right nil (root_of nil t) (wa, s) = (rb_root s', s')
    \<and> rb_rep nil s' (fill k (Nd (paint True wr) wa pb (Nd wl p True t)))"
proof -
  have w: "lft s wa = root_of nil wr"
    using rep_reads [of nil s "InL p pb t # k" wr wa True wl] R by simp
  have c: "\<not> rb_is_black s (root_of nil wr)" and p: "rb_is_black s p = pb"
    using rep_root_blk [of nil s "InL wa True wl # InL p pb t # k" wr] rep_reads(4) [OF R] R b by simp_all
  define s1 where "s1 = rb_set_color wa (rb_color s p) s"
  define s2 where "s2 = rb_set_color p RB_BLACK s1"
  define s3 where "s3 = rb_set_color (root_of nil wr) RB_BLACK s2"
  have 1: "rb_rep nil s1 (fill k (Nd (Nd wr wa pb wl) p pb t))"
    using rep_copy_color [of nil s "InL p pb t # k" wr wa True wl s p] R p by (simp add: s1_def)
  have 2: "rb_rep nil s2 (fill k (Nd (Nd wr wa pb wl) p True t))"
    using rep_set_black [OF 1] by (simp add: s2_def)
  have 3: "rb_rep nil s3 (fill k (Nd (Nd (paint True wr) wa pb wl) p True t))"
    using rep_black_at [of nil s2 "InL wa pb wl # InL p True t # k" wr] 2 by (simp add: s3_def)
  have "nephews_right nil (root_of nil t) (wa, s) = (rb_root (rb_right_rotate nil p s3), rb_right_rotate nil p s3)"
    using w c pa by (simp add: nephews_right_def Let_def rb_fields s3_def s2_def s1_def)
  then show ?thesis using rep_right_rotate [OF 3] by blast
qed

lemma nephews_near_right:
  assumes R: "rb_rep nil s (fill k (Nd (Nd wr wa True (Nd b y False a)) p pb t))" and pa: "rb_parent s (root_of nil t) = p"
    and b: "blk wr"
  shows "\<exists>s'. nephews_right nil (root_of nil t) (wa, s) = (rb_root s', s')
    \<and> rb_rep nil s' (fill k (Nd (Nd wr wa True b) y pb (Nd a p True t)))"
proof -
  have w: "rgt s wa = y" "lft s wa = root_of nil wr"
    using rep_reads [of nil s "InL p pb t # k" wr wa True "Nd b y False a"] R by simp_all
  have c: "rb_is_black s (root_of nil wr)" "\<not> rb_is_black s y"
    using rep_root_blk [of nil s "InL wa True (Nd b y False a) # InL p pb t # k" wr]
      rep_reads [of nil s "InR wr wa True # InL p pb t # k" b y False a] R b by simp_all
  define s2 where "s2 = rb_set_color wa RB_RED (rb_set_color y RB_BLACK s)"
  define s3 where "s3 = rb_left_rotate nil wa s2"
  have "rb_rep nil (rb_set_color y RB_BLACK s) (fill k (Nd (Nd wr wa True (Nd b y True a)) p pb t))"
    using rep_set_black [of nil s "InR wr wa True # InL p pb t # k" b y False a] R by simp
  then have 2: "rb_rep nil s2 (fill k (Nd (Nd wr wa False (Nd b y True a)) p pb t))"
    using rep_set_red [of nil _ "InL p pb t # k" wr wa True "Nd b y True a"] by (simp add: s2_def)
  have 3: "rb_rep nil s3 (fill k (Nd (Nd (Nd wr wa False b) y True a) p pb t))"
    using rep_left_rotate [of nil s2 "InL p pb t # k"] 2 by (simp add: s3_def)
  have "rb_parent s3 nil = rb_parent s2 nil"
    unfolding s3_def by (rule rep_left_rotate_nil [of _ _ "InL p pb t # k"]) (use 2 in simp)
  then have pa3: "rb_parent s3 (root_of nil t) = p"
    using parent_at [of nil s3 "InR (Nd (Nd wr wa False b) y True a) p pb # k" t] 3 pa by (cases t) (simp_all add: s2_def rb_fields)
  have y: "lft s3 p = y" using rep_reads [OF 3] by simp
  have f: "\<not> rb_is_black s3 (lft s3 y)"
    using rep_reads(1) [of nil s3 "InL p pb t # k" "Nd wr wa False b" y True a] rep_reads(4) [of nil s3 "InL y True a # InL p pb t # k" wr wa False b] 3 by simp
  have e: "nephews_right nil (root_of nil t) (wa, s) = nephews_right nil (root_of nil t) (y, s3)"
    using w c pa3 y f by (simp add: nephews_right_def Let_def s2_def [symmetric] s3_def [symmetric])
  show ?thesis unfolding e using nephews_far_right [OF 3 pa3] by simp
qed

lemma brother_red_right:
  assumes R: "rb_rep nil s (fill k (Nd (Nd wr wa False wl) p pb t))" and pa: "rb_parent s (root_of nil t) = p"
  shows "\<exists>s'. brother_right nil (root_of nil t) s = (root_of nil wl, s')
    \<and> rb_rep nil s' (fill k (Nd wr wa True (Nd wl p False t))) \<and> rb_parent s' (root_of nil t) = p"
proof -
  have w: "lft s p = wa" using rep_reads [OF R] by simp
  have c: "\<not> rb_is_black s wa" using rep_reads [of nil s "InL p pb t # k" wr wa False wl] R by simp
  define s2 where "s2 = rb_set_color p RB_RED (rb_set_color wa RB_BLACK s)"
  define s3 where "s3 = rb_right_rotate nil p s2"
  have "rb_rep nil (rb_set_color wa RB_BLACK s) (fill k (Nd (Nd wr wa True wl) p pb t))"
    using rep_set_black [of nil s "InL p pb t # k" wr wa False wl] R by simp
  then have 2: "rb_rep nil s2 (fill k (Nd (Nd wr wa True wl) p False t))"
    unfolding s2_def by (rule rep_set_red)
  have 3: "rb_rep nil s3 (fill k (Nd wr wa True (Nd wl p False t)))"
    unfolding s3_def by (rule rep_right_rotate [OF 2])
  have "rb_parent s3 nil = rb_parent s2 nil"
    unfolding s3_def by (rule rep_right_rotate_nil [OF 2])
  then have pa3: "rb_parent s3 (root_of nil t) = p"
    using parent_at [of nil s3 "InR wl p False # InR wr wa True # k" t] 3 pa by (cases t) (simp_all add: s2_def rb_fields)
  have y: "lft s3 p = root_of nil wl" using rep_reads [of nil s3 "InR wr wa True # k" wl p False t] 3 by simp
  have "brother_right nil (root_of nil t) s = (root_of nil wl, s3)"
    using w c pa pa3 y by (simp add: brother_right_def Let_def rb_fields s2_def [symmetric] s3_def [symmetric])
  then show ?thesis using 3 pa3 by blast
qed

lemma brother_black_right:
  assumes R: "rb_rep nil s (fill k (Nd w p pb t))" and pa: "rb_parent s (root_of nil t) = p" and b: "blk w"
  shows "brother_right nil (root_of nil t) s = (root_of nil w, s)"
  using rep_reads(1) [OF R] rep_root_blk [of nil s "InL p pb t # k" w] R pa b by (simp add: brother_right_def rb_fields)

lemma nephews_right_ok:
  assumes inv: "del_inv nil s t (InR (Nd wr wa True wl) p pb # k) xs" and t: "blk t"
  shows "\<exists>t' k'. del_inv nil (snd (nephews_right nil (root_of nil t) (wa, s))) t' k' xs
    \<and> fst (nephews_right nil (root_of nil t) (wa, s)) = root_of nil t' \<and> (k' = k \<and> blk t' = pb \<or> k' = [])"
proof -
  have i: "rb_rep nil s (fill k (Nd (Nd wr wa True wl) p pb t))" "rb_parent s (root_of nil t) = p" "invc t" "invh t"
    "invc wl" "invc wr" "invh wl" "invh wr" "bh wl = bh wr" "bh wl = bh t" "ctxc pb k" "ctxh (bh t + 1 + (if pb then 1 else 0)) k"
    "before k @ inord (Nd (Nd wr wa True wl) p pb t) @ behind k = xs"
    using inv t unfolding del_inv_def by (auto simp: paint_black)
  show ?thesis
  proof (cases "blk wl \<and> blk wr")
    case True
    then have w: "blk wl" "blk wr" by simp_all
    note n = nephews_black_right [OF i(1,2) w]
    have "del_inv nil (rb_set_color wa RB_RED s) (Nd (Nd wr wa False wl) p pb t) k xs"
      unfolding del_inv_def using n(2) i w rep_reads(3) [OF n(2)] ctxc_black by auto
    then show ?thesis unfolding n(1) by (intro exI [of _ "Nd (Nd wr wa False wl) p pb t"] exI [of _ k]) simp
  next
    case False
    show ?thesis
    proof (cases "blk wr")
      case True
      then obtain a y b where wl: "wl = Nd b y False a" using False by (cases wl) auto
      obtain s' where s': "nephews_right nil (root_of nil t) (wa, s) = (rb_root s', s')"
        "rb_rep nil s' (fill k (Nd (Nd wr wa True b) y pb (Nd a p True t)))"
        using nephews_near_right [of nil s k wr wa b y a p pb t] i(1,2) wl True by auto
      have "rb_ok (fill k (Nd (Nd wr wa True b) y pb (Nd a p True t)))"
        using i True wl by (simp add: fill_ok)
      then show ?thesis using del_inv_whole [OF s'(2)] s'(1) i(13) wl by fastforce
    next
      case False
      then obtain c z d where wr: "wr = Nd d z False c" by (cases wr) auto
      obtain s' where s': "nephews_right nil (root_of nil t) (wa, s) = (rb_root s', s')"
        "rb_rep nil s' (fill k (Nd (paint True wr) wa pb (Nd wl p True t)))"
        using nephews_far_right [OF i(1,2) False] by blast
      have "rb_ok (fill k (Nd (paint True wr) wa pb (Nd wl p True t)))"
        using i wr by (simp add: fill_ok)
      then show ?thesis using del_inv_whole [OF s'(2)] s'(1) i(13) by fastforce
    qed
  qed
qed

lemma delete_step_right:
  assumes inv: "del_inv nil s t (InR w p pb # k) xs" and t: "blk t"
  shows "\<exists>t' k'. del_inv nil (snd (rb_delete_step nil (root_of nil t) s)) t' k' xs
    \<and> fst (rb_delete_step nil (root_of nil t) s) = root_of nil t'
    \<and> 2 * length k' + (if blk t' then 1 else 0) < 2 * length k + 3"
proof -
  have i: "rb_rep nil s (fill k (Nd w p pb t))" "rb_parent s (root_of nil t) = p" "bh w = bh t + 1"
    "ctxc True (InR w p pb # k)" "ctxh (bh t + 1) (InR w p pb # k)" "invc w" "invh w"
    using inv unfolding del_inv_def by auto
  obtain wl wa wb wr where w: "w = Nd wr wa wb wl" using i(3) by (cases w) auto
  have d: "rb_delete_step nil (root_of nil t) s = nephews_right nil (root_of nil t) (brother_right nil (root_of nil t) s)"
    using rep_reads(1) [OF i(1)] i(2) siblings [OF i(1)] w by (simp add: delete_step_halves)
  show ?thesis
  proof (cases wb)
    case True
    then have "brother_right nil (root_of nil t) s = (wa, s)" using brother_black_right [OF i(1,2)] w by simp
    then show ?thesis using nephews_right_ok [of nil s t wr wa wl p pb k xs] inv t w d True by fastforce
  next
    case False
    then obtain s' where s': "brother_right nil (root_of nil t) s = (root_of nil wl, s')"
      "rb_rep nil s' (fill k (Nd wr wa True (Nd wl p False t)))" "rb_parent s' (root_of nil t) = p"
      using brother_red_right [of nil s k wr wa wl p pb t] i w by auto
    obtain a y b where wl: "wl = Nd b y True a" using i w False by (cases wl) auto
    have "del_inv nil s' t (InR wl p False # InR wr wa True # k) xs"
      using inv s'(2,3) w False wl unfolding del_inv_def by auto
    then show ?thesis using nephews_right_ok [of nil s' t b y a p False "InR wr wa True # k" xs] t d s'(1) wl by fastforce
  qed
qed

section \<open>The repair loop\<close>

lemma root_in_ctx: "k \<noteq> [] \<Longrightarrow> root_of nil (fill k t) \<in> set (before k) \<union> set (behind k)"
proof (induction k t rule: fill.induct)
  case (2 a b r k t)
  then show ?case by (cases k) auto
next
  case (3 l a b k t)
  then show ?case by (cases k) auto
qed simp

lemma at_root: "rb_rep nil s (fill k t) \<Longrightarrow> root_of nil t = rb_root s \<longleftrightarrow> k = []"
  using root_in_ctx [of k nil t] rep_root [of nil s "fill k t"] rep_distinct [of nil s "fill k t"] rep_nil [of nil s "fill k t"]
  by (cases t; cases "k = []") auto

lemma delete_fixup_ok:
  "del_inv nil s t k xs \<Longrightarrow>
    \<exists>s' t'. rb_delete_fixup nil (root_of nil t) s = Some s' \<and> rb_rep nil s' t' \<and> rb_ok t' \<and> inord t' = xs"
proof (induction "2 * length k + (if blk t then 1 else 0 :: nat)" arbitrary: k t s rule: less_induct)
  case less
  have i: "rb_rep nil s (fill k t)" "invc (paint True t)" "invh t" "ctxc True k" "ctxh (bh t + 1) k" "before k @ inord t @ behind k = xs"
    using less.prems unfolding del_inv_def by auto
  have g: "root_of nil t \<noteq> rb_root s \<and> rb_is_black s (root_of nil t) \<longleftrightarrow> k \<noteq> [] \<and> blk t"
    using at_root [OF i(1)] rep_root_blk [OF i(1)] by simp
  show ?case
  proof (cases "k \<noteq> [] \<and> blk t")
    case True
    then obtain F k1 where k: "k = F # k1" and t: "blk t" by (cases k) auto
    have "\<exists>t' k'. del_inv nil (snd (rb_delete_step nil (root_of nil t) s)) t' k' xs
      \<and> fst (rb_delete_step nil (root_of nil t) s) = root_of nil t'
      \<and> 2 * length k' + (if blk t' then 1 else 0) < 2 * length k1 + 3"
    proof (cases F)
      case (InL a b r)
      show ?thesis by (rule delete_step_left) (use less.prems k t InL in simp_all)
    next
      case (InR l a b)
      show ?thesis by (rule delete_step_right) (use less.prems k t InR in simp_all)
    qed
    then obtain t' k' where st: "del_inv nil (snd (rb_delete_step nil (root_of nil t) s)) t' k' xs"
      "fst (rb_delete_step nil (root_of nil t) s) = root_of nil t'"
      "2 * length k' + (if blk t' then 1 else 0) < 2 * length k + (if blk t then 1 else 0)"
      using k t by auto
    from less.hyps [OF st(3,1)] show ?thesis
      using g True st(2) by (subst rb_delete_fixup.simps) (simp add: case_prod_beta)
  next
    case False
    have "rb_ok (fill k (paint True t))"
    proof (cases "k = []")
      case True
      then show ?thesis using i by (cases t) (auto simp: rb_ok_def)
    next
      case red: False
      then show ?thesis using i False by (cases t) (auto simp: fill_ok)
    qed
    moreover have "rb_rep nil (rb_set_color (root_of nil t) RB_BLACK s) (fill k (paint True t))"
      by (rule rep_black_at [OF i(1)])
    ultimately show ?thesis using g False i(6) by (subst rb_delete_fixup.simps) auto
  qed
qed

section \<open>Taking a node out\<close>

lemma fill_append: "fill (k1 @ k2) t = fill k2 (fill k1 t)"
  by (induction k1 t rule: fill.induct) simp_all

lemma before_append: "before (k1 @ k2) = before k2 @ before k1" and behind_append: "behind (k1 @ k2) = behind k1 @ behind k2"
  by (induction k1 rule: before.induct) simp_all

lemma par_append: "par_of nil (k1 @ k2) = (if k1 = [] then par_of nil k2 else par_of nil k1)"
  by (cases "(nil, k1)" rule: par_of.cases) simp_all

lemma position: "a \<in> set (inord t) \<Longrightarrow> \<exists>k l b r. t = fill k (Nd l a b r)"
proof (induction t)
  case (Nd l x c r)
  consider "a = x" | "a \<in> set (inord l)" | "a \<in> set (inord r)" using Nd.prems by auto
  then show ?case
  proof cases
    case 1
    then have "Nd l x c r = fill [] (Nd l a c r)" by simp
    then show ?thesis by blast
  next
    case 2
    then obtain k l' b r' where "l = fill k (Nd l' a b r')" using Nd.IH(1) by blast
    then have "Nd l x c r = fill (k @ [InL x c r]) (Nd l' a b r')" by (simp add: fill_append)
    then show ?thesis by blast
  next
    case 3
    then obtain k l' b r' where "r = fill k (Nd l' a b r')" using Nd.IH(2) by blast
    then have "Nd l x c r = fill (k @ [InR l x c]) (Nd l' a b r')" by (simp add: fill_append)
    then show ?thesis by blast
  qed
qed simp

text \<open>The least node of a subtree.\<close>

lemma left_most:
  "rb_rep nil s (fill k t) \<Longrightarrow> t \<noteq> Lf \<Longrightarrow>
    \<exists>kk y b r. t = fill kk (Nd Lf y b r) \<and> before kk = [] \<and> rb_left_most nil s (root_of nil t) = Some y"
proof (induction t arbitrary: k)
  case (Nd l a c r)
  note a = rep_reads [OF Nd.prems(1)]
  show ?case
  proof (cases l)
    case Lf
    then have "rb_left_most nil s a = Some a" using a by (subst rb_left_most.simps) simp
    then show ?thesis using Lf by (intro exI [of _ "[]"]) auto
  next
    case (Nd l' a' c' r')
    then have "root_of nil l \<noteq> nil" using Nd.prems rep_reads(5) [of nil s "InL a c r # k" l' a' c' r'] by simp
    then have e: "rb_left_most nil s a = rb_left_most nil s (root_of nil l)" using a by (subst rb_left_most.simps) simp
    obtain kk y b r2 where "l = fill kk (Nd Lf y b r2)" "before kk = []" "rb_left_most nil s (root_of nil l) = Some y"
      using Nd.IH(1) [of "InL a c r # k"] Nd.prems(1) \<open>l = Nd l' a' c' r'\<close> by fastforce
    then have "Nd l a c r = fill (kk @ [InL a c r]) (Nd Lf y b r2) \<and> before (kk @ [InL a c r]) = []
      \<and> rb_left_most nil s (root_of nil (Nd l a c r)) = Some y"
      using e by (simp add: fill_append before_append)
    then show ?thesis by blast
  qed
qed simp

text \<open>A child takes the place of its parent; the sentinel remembers the parent of an empty one.\<close>

lemma transplant_fields [rb_fields]:
  "aligned (rb_parent s x) \<Longrightarrow> rb_parent (rb_transplant nil x y s) a = (if a = y then rb_parent s x else rb_parent s a)"
  "aligned (rb_parent s x) \<Longrightarrow> rb_is_black (rb_transplant nil x y s) a = rb_is_black s a"
  "a \<noteq> rb_parent s x \<Longrightarrow> lft (rb_transplant nil x y s) a = lft s a"
  "a \<noteq> rb_parent s x \<Longrightarrow> rgt (rb_transplant nil x y s) a = rgt s a"
  by (simp_all add: rb_transplant_def Let_def rb_fields)

lemma transplant_child:
  assumes R: "rb_rep nil s (fill k (Nd l a b r))" and c: "c = l \<and> r = Lf \<or> c = r \<and> l = Lf"
  shows "rb_rep nil (rb_transplant nil a (root_of nil c) s) (fill k c)"
    "rb_parent (rb_transplant nil a (root_of nil c) s) (root_of nil c) = par_of nil k"
proof -
  have x: "ctx_at nil s (par_of nil k) a k" "distinct (before k @ inord l @ a # inord r @ behind k)" "aligned nil"
    "rb_is_black s nil" "a \<noteq> nil" "rb_parent s a = par_of nil k" "tree_at nil s a (root_of nil c) c"
    using R c rep_reads [OF R] unfolding rep_focus focus_def by auto
  have n: "nil \<notin> set (before k)" "nil \<notin> set (behind k)" using nil_not_in_ctx [OF x(1)] by auto
  have q: "aligned (par_of nil k)" "par_of nil k \<notin> set (inord c)"
    using aligned_parent [OF x(1,3)] parent_in_ctx [OF x(1)] x(2) c nil_not_in_tree [OF x(7)] by auto
  define s1 where "s1 = rb_replace nil a (root_of nil c) s"
  have s1: "ctx_at nil s1 (par_of nil k) (root_of nil c) k" "tree_at nil s1 a (root_of nil c) c" "rb_is_black s1 nil"
    unfolding s1_def using x q by (auto intro!: replace_ctx simp: rb_fields)
  have z: "root_of nil c \<notin> set (before k)" "root_of nil c \<notin> set (behind k)" using x(2) c n by (cases c; auto)+
  have t: "tree_at nil (rb_set_parent (root_of nil c) (par_of nil k) s1) (par_of nil k) (root_of nil c) c"
    using reparent [OF s1(2) _ q(1)] x(2) c by (cases c) auto
  have e: "rb_transplant nil a (root_of nil c) s = rb_set_parent (root_of nil c) (par_of nil k) s1"
    using x(6) by (simp add: rb_transplant_def s1_def Let_def rb_fields)
  show "rb_rep nil (rb_transplant nil a (root_of nil c) s) (fill k c)"
    unfolding e rep_focus focus_def using t s1 z q x(2,3) c by (auto simp: rb_fields)
  show "rb_parent (rb_transplant nil a (root_of nil c) s) (root_of nil c) = par_of nil k"
    unfolding e using q by (simp add: rb_fields)
qed

text \<open>The last statements of the case with two children: \<open>y\<close> takes the place, the children and the colour of \<open>nd\<close>.\<close>

definition rb_move :: "u32 \<Rightarrow> u32 \<Rightarrow> u32 \<Rightarrow> rb_state \<Rightarrow> rb_state" where
  "rb_move nil nd y s =
    (let s = rb_transplant nil nd y s;
         s = set_left y (lft s nd) s;
         s = rb_set_parent (lft s y) y s
     in rb_set_color y (rb_color s nd) s)"

lemma move_node:
  assumes c: "ctx_at nil s (par_of nil k) nd k" and nd: "rb_parent s nd = par_of nil k" "rb_is_black s nd = b" "nd \<noteq> nil"
    and l: "tree_at nil s nd (lft s nd) l" "l \<noteq> Lf" and r: "tree_at nil s y (rgt s y) r" and y: "aligned y" "y \<noteq> nil" "nd \<noteq> y"
    and d: "distinct (before k @ inord l @ y # inord r @ behind k)" "nd \<notin> set (before k @ inord l @ inord r @ behind k)"
    and n: "aligned nil" "rb_is_black s nil"
  shows "rb_rep nil (rb_move nil nd y s) (fill k (Nd l y b r))" "rb_parent (rb_move nil nd y s) nil = rb_parent s nil"
proof -
  define q where "q = par_of nil k"
  have q: "aligned q" "q \<notin> set (inord l)" "q \<notin> set (inord r)" "q \<noteq> nd" "q \<noteq> y"
    using aligned_parent [OF c n(1)] parent_in_ctx [OF c] d nd(3) y(2) nil_not_in_tree [OF l(1)] nil_not_in_tree [OF r]
    by (auto simp: q_def)
  define s1 where "s1 = rb_transplant nil nd y s"
  have e1: "s1 = rb_set_parent y q (rb_replace nil nd y s)"
    using nd by (simp add: s1_def rb_transplant_def Let_def rb_fields q_def)
  have "ctx_at nil (rb_replace nil nd y s) q y k"
    unfolding q_def by (rule replace_ctx [OF c nd(1,3)]) (use d in auto)
  then have s1: "ctx_at nil s1 q y k" "tree_at nil s1 nd (lft s nd) l" "tree_at nil s1 y (rgt s y) r"
    "lft s1 nd = lft s nd" "rgt s1 y = rgt s y" "rb_parent s1 y = q" "rb_is_black s1 nil" "rb_is_black s1 nd = b"
    "rb_parent s1 nil = rb_parent s nil"
    unfolding e1 using q l r d y nd n by (auto simp: rb_fields q_def)
  define z where "z = lft s nd"
  have z: "z \<in> set (inord l)" "z \<noteq> nil" using l nil_not_in_tree [OF l(1)] by (cases l; auto simp: z_def)+
  have zz: "z \<notin> set (before k)" "z \<notin> set (behind k)" "z \<notin> set (inord r)" "z \<noteq> y" "y \<noteq> z" using z(1) d(1) by auto
  define s2 where "s2 = set_left y z s1"
  have s2: "ctx_at nil s2 q y k" "tree_at nil s2 nd z l" "tree_at nil s2 y (rgt s y) r" "lft s2 y = z" "rgt s2 y = rgt s y"
    "rb_parent s2 y = q" "rb_is_black s2 nil" "rb_is_black s2 nd = b" "rb_parent s2 nil = rb_parent s nil"
    unfolding s2_def using s1 d by (simp_all add: rb_fields z_def)
  define s3 where "s3 = rb_set_parent z y s2"
  have t: "tree_at nil s3 y z l" unfolding s3_def using reparent [OF s2(2) _ y(1)] z d by auto
  have s3: "ctx_at nil s3 q y k" "tree_at nil s3 y (rgt s y) r" "lft s3 y = z" "rgt s3 y = rgt s y"
    "rb_parent s3 y = q" "rb_is_black s3 nil" "rb_is_black s3 nd = b" "rb_parent s3 nil = rb_parent s nil"
    unfolding s3_def using s2 y z(2) zz by (simp_all add: rb_fields)
  have m: "rb_move nil nd y s = rb_set_color y (rb_color s3 nd) s3"
    unfolding rb_move_def Let_def s1_def [symmetric] s1(4) z_def [symmetric] s2_def [symmetric] s2(4) s3_def [symmetric] ..
  have "(rb_color s3 nd AND 1 \<noteq> 0) = b" using s3(7) by (simp add: rb_color_eq)
  then show "rb_rep nil (rb_move nil nd y s) (fill k (Nd l y b r))"
    unfolding m rep_focus focus_def using t s3 d y n by (auto simp: rb_fields q_def)
  show "rb_parent (rb_move nil nd y s) nil = rb_parent s nil" unfolding m using s3(8) by (simp add: rb_fields)
qed

lemma rep_set_parent:
  assumes R: "rb_rep nil s (fill k t)"
  shows "rb_rep nil (rb_set_parent (root_of nil t) (par_of nil k) s) (fill k t)"
    "rb_parent (rb_set_parent (root_of nil t) (par_of nil k) s) (root_of nil t) = par_of nil k"
proof -
  have x: "ctx_at nil s (par_of nil k) (root_of nil t) k" "distinct (before k @ inord t @ behind k)" "aligned nil"
    "rb_is_black s nil" "tree_at nil s (par_of nil k) (root_of nil t) t"
    using R unfolding rep_focus focus_def by auto
  have n: "nil \<notin> set (before k)" "nil \<notin> set (behind k)" using nil_not_in_ctx [OF x(1)] by auto
  note q = aligned_parent [OF x(1,3)]
  have z: "root_of nil t \<notin> set (before k)" "root_of nil t \<notin> set (behind k)" using x(2) n by (cases t; auto)+
  have "t \<noteq> Lf \<Longrightarrow> root_of nil t \<noteq> nil" using x(5) by (cases t) auto
  then have "tree_at nil (rb_set_parent (root_of nil t) (par_of nil k) s) (par_of nil k) (root_of nil t) t"
    using reparent [OF x(5) _ q] x(2) by (cases "t = Lf") auto
  then show "rb_rep nil (rb_set_parent (root_of nil t) (par_of nil k) s) (fill k t)"
    unfolding rep_focus focus_def using x z q by (auto simp: rb_fields)
  show "rb_parent (rb_set_parent (root_of nil t) (par_of nil k) s) (root_of nil t) = par_of nil k"
    using q by (simp add: rb_fields)
qed

text \<open>The statements before: the successor \<open>y\<close> leaves its place and gets the right subtree.\<close>

definition rb_detach :: "u32 \<Rightarrow> u32 \<Rightarrow> u32 \<Rightarrow> rb_state \<Rightarrow> rb_state" where
  "rb_detach nil nd y s = (if nd = rb_parent s y then rb_set_parent (rgt s y) y s
     else let s = rb_transplant nil y (rgt s y) s;
              s = set_right y (rgt s nd) s
          in rb_set_parent (rgt s y) y s)"

lemma rb_delete_two: "lft s nd \<noteq> nil \<Longrightarrow> rgt s nd \<noteq> nil \<Longrightarrow> rb_left_most nil s (rgt s nd) = Some y \<Longrightarrow>
    rb_delete nil nd s = (if rb_is_black s y then rb_delete_fixup nil (rgt s y) (rb_move nil nd y (rb_detach nil nd y s))
      else Some (rb_move nil nd y (rb_detach nil nd y s)))"
  by (simp add: rb_delete_def rb_move_def rb_detach_def Let_def rb_color_eq RB_BLACK_def)

lemma detach_next:
  assumes R: "rb_rep nil s (fill k (Nd l nd b (Nd Lf y yb yr)))" and l: "l \<noteq> Lf"
  shows "rb_rep nil (rb_move nil nd y (rb_detach nil nd y s)) (fill k (Nd l y b yr))"
    "rb_parent (rb_move nil nd y (rb_detach nil nd y s)) (root_of nil yr) = y"
proof -
  let ?k = "InR Lf y yb # InR l nd b # k"
  have yr: "rgt s y = root_of nil yr" "rb_parent s y = nd"
    using R rep_reads [of nil s "InR l nd b # k" Lf y yb yr] by simp_all
  define s1 where "s1 = rb_set_parent (root_of nil yr) y s"
  have e: "rb_detach nil nd y s = s1" using yr by (simp add: rb_detach_def s1_def)
  have 1: "rb_rep nil s1 (fill k (Nd l nd b (Nd Lf y yb yr)))" and p: "rb_parent s1 (root_of nil yr) = y"
    using rep_set_parent [of nil s ?k yr] R by (simp_all add: s1_def)
  note a = rep_reads [OF 1]
  have m: "ctx_at nil s1 (par_of nil k) nd k" "tree_at nil s1 nd (lft s1 nd) l" "tree_at nil s1 y (rgt s1 y) yr" "aligned y" "y \<noteq> nil"
    "nd \<noteq> y" "distinct (before k @ inord l @ y # inord yr @ behind k)" "nd \<notin> set (before k @ inord l @ inord yr @ behind k)"
    "aligned nil" "rb_is_black s1 nil"
    using 1 a unfolding rep_focus focus_def by auto
  note mv = move_node [OF m(1) a(3,4,5) m(2) l m(3,4,5,6,7,8,9,10)]
  show r: "rb_rep nil (rb_move nil nd y (rb_detach nil nd y s)) (fill k (Nd l y b yr))" unfolding e by (rule mv(1))
  show "rb_parent (rb_move nil nd y (rb_detach nil nd y s)) (root_of nil yr) = y"
    using parent_at [of nil _ "InR l y b # k" yr] r mv(2) p by (cases yr) (simp_all add: e)
qed

lemma detach_far:
  assumes R: "rb_rep nil s (fill k (Nd l nd b (fill kk (Nd Lf y yb yr))))" and l: "l \<noteq> Lf" and kk: "kk \<noteq> []"
  shows "rb_rep nil (rb_move nil nd y (rb_detach nil nd y s)) (fill k (Nd l y b (fill kk yr)))"
    "rb_parent (rb_move nil nd y (rb_detach nil nd y s)) (root_of nil yr) = par_of nil kk"
proof -
  let ?k = "kk @ InR l nd b # k"
  have R': "rb_rep nil s (fill ?k (Nd Lf y yb yr))" using R by (simp add: fill_append)
  have yr: "rgt s y = root_of nil yr" "rb_parent s y = par_of nil kk" "y \<noteq> nil" "aligned y"
    using rep_reads [OF R'] kk by (simp_all add: par_append)
  have d: "distinct (before k @ inord l @ nd # (before kk @ y # inord yr @ behind kk) @ behind k)"
    using rep_distinct [OF R] by simp
  have "par_of nil kk \<in> set (before kk) \<union> set (behind kk)" using kk by (cases "(nil, kk)" rule: par_of.cases) auto
  then have nd: "nd \<noteq> rb_parent s y" using d yr by auto
  define s1 where "s1 = rb_transplant nil y (root_of nil yr) s"
  have 1: "rb_rep nil s1 (fill k (Nd l nd b (fill kk yr)))" and p1: "rb_parent s1 (root_of nil yr) = par_of nil kk"
    using transplant_child [OF R', of yr] kk by (simp_all add: s1_def fill_append par_append)
  note a = rep_reads [OF 1]
  define z where "z = root_of nil (fill kk yr)"
  have zi: "z \<in> set (before kk) \<union> set (behind kk)" unfolding z_def by (rule root_in_ctx [OF kk])
  have zn: "z \<noteq> nil" using zi rep_nil [OF R] by auto
  define s2 where "s2 = rb_set_parent z y (set_right y z s1)"
  have e: "rb_detach nil nd y s = s2" using nd yr a(2) by (simp add: rb_detach_def s2_def s1_def z_def Let_def rb_fields)
  have x: "ctx_at nil s1 (par_of nil k) nd k" "tree_at nil s1 nd (lft s1 nd) l" "tree_at nil s1 nd z (fill kk yr)" "aligned nil" "rb_is_black s1 nil"
    using 1 a unfolding rep_focus focus_def z_def by auto
  have zz: "z \<notin> set (before k)" "z \<notin> set (behind k)" "z \<notin> set (inord l)" "z \<noteq> nd" "nd \<noteq> z" "z \<noteq> y" "nd \<noteq> y" "y \<noteq> nd"
    "y \<notin> set (before k)" "y \<notin> set (behind k)" "y \<notin> set (inord l)" "y \<notin> set (inord (fill kk yr))" "distinct (inord (fill kk yr))"
    using zi d by auto
  have "tree_at nil (set_right y z s1) nd z (fill kk yr)" using x zz by (simp add: rb_fields del: inord_fill)
  from reparent [OF this zz(13) yr(4)] zn have t: "tree_at nil s2 y (rgt s2 y) (fill kk yr)"
    using yr(4) by (simp add: s2_def rb_fields)
  have m: "ctx_at nil s2 (par_of nil k) nd k" "tree_at nil s2 nd (lft s2 nd) l" "rb_parent s2 nd = par_of nil k" "rb_is_black s2 nd = b"
    "rb_is_black s2 nil" "rb_parent s2 nil = rb_parent s1 nil"
    using x a zz yr zn by (simp_all add: s2_def rb_fields)
  have dd: "distinct (before k @ inord l @ y # inord (fill kk yr) @ behind k)" "nd \<notin> set (before k @ inord l @ inord (fill kk yr) @ behind k)"
    using d by auto
  note mv = move_node [OF m(1,3,4) a(5) m(2) l t yr(4,3) zz(7) dd x(4) m(5)]
  show r: "rb_rep nil (rb_move nil nd y (rb_detach nil nd y s)) (fill k (Nd l y b (fill kk yr)))" unfolding e by (rule mv(1))
  show "rb_parent (rb_move nil nd y (rb_detach nil nd y s)) (root_of nil yr) = par_of nil kk"
    using parent_at [of nil _ "kk @ InR l y b # k" yr] r mv(2) p1 m(6) kk by (cases yr) (simp_all add: e fill_append par_append)
qed

section \<open>Deletion\<close>

text \<open>
  Whichever way a node leaves, a subtree \<open>x\<close> at \<open>k\<close> takes the place of a node of colour \<open>c\<close> that had it as its only child.
\<close>

lemma delete_finish:
  assumes s': "rb_rep nil s' (fill k x)" "rb_parent s' (root_of nil x) = par_of nil k"
    and ok: "invc x" "invh x" "ctxc c k" "ctxh (bh x + (if c then 1 else 0)) k" "c \<or> blk x"
    and d: "rb_delete nil nd s = (if c then rb_delete_fixup nil (root_of nil x) s' else Some s')"
    and xs: "before k @ inord x @ behind k = xs"
  shows "\<exists>s'' t'. rb_delete nil nd s = Some s'' \<and> rb_rep nil s'' t' \<and> rb_ok t' \<and> inord t' = xs"
proof (cases c)
  case True
  have "invc (paint True x)" using ok(1) by (cases x) auto
  then have "del_inv nil s' x k xs"
    unfolding del_inv_def using s' ok xs True by simp
  then show ?thesis using delete_fixup_ok [of nil s' x k xs] d True by simp
next
  case False
  then have "rb_ok (fill k x)" using ok ctxc_black [OF ok(3)] by (simp add: fill_ok)
  then show ?thesis using s'(1) d False xs by (intro exI [of _ s'] exI [of _ "fill k x"]) simp
qed

lemma root_not_nil: "nil \<notin> set (inord t) \<Longrightarrow> t \<noteq> Lf \<Longrightarrow> root_of nil t \<noteq> nil"
  by (cases t) auto

lemma rb_delete_one:
  assumes R: "rb_rep nil s (fill k (Nd l nd b r))" and c: "l = Lf \<and> c = r \<or> l \<noteq> Lf \<and> r = Lf \<and> c = l"
  shows "rb_delete nil nd s = (if b then rb_delete_fixup nil (root_of nil c) (rb_transplant nil nd (root_of nil c) s)
    else Some (rb_transplant nil nd (root_of nil c) s))"
proof -
  note a = rep_reads [OF R]
  have "l \<noteq> Lf \<Longrightarrow> root_of nil l \<noteq> nil" using rep_nil [OF R] by (cases l) auto
  then show ?thesis using a c by (auto simp: rb_delete_def Let_def rb_color_eq RB_BLACK_def)
qed

lemma delete_rep:
  assumes t: "rb_rep nil s t" "rb_ok t" and nd: "nd \<in> set (inord t)"
  shows "\<exists>s' t'. rb_delete nil nd s = Some s' \<and> rb_rep nil s' t' \<and> rb_ok t' \<and> inord t' = remove1 nd (inord t)"
proof -
  obtain k l b r where f: "t = fill k (Nd l nd b r)" using position [OF nd] by blast
  have R: "rb_rep nil s (fill k (Nd l nd b r))" using t(1) f by simp
  have xs: "remove1 nd (inord t) = before k @ (inord l @ inord r) @ behind k"
    using rep_distinct [OF t(1)] f by (simp add: remove1_append)
  have ok: "invc l" "invc r" "invh l" "invh r" "bh l = bh r" "b \<or> blk l \<and> blk r" "ctxc b k" "ctxh (bh l + (if b then 1 else 0)) k"
    using t(2) unfolding f fill_ok by auto
  show ?thesis
  proof (cases "l = Lf \<or> r = Lf")
    case True
    define c where "c = (if l = Lf then r else l)"
    have c: "c = l \<and> r = Lf \<or> c = r \<and> l = Lf" "l = Lf \<and> c = r \<or> l \<noteq> Lf \<and> r = Lf \<and> c = l"
      using True by (auto simp: c_def)
    show ?thesis
      by (rule delete_finish [OF transplant_child [OF R c(1)] _ _ ok(7) _ _ rb_delete_one [OF R c(2)]]) (use c(1) ok xs in auto)
  next
    case False
    then have lr: "l \<noteq> Lf" "r \<noteq> Lf" by simp_all
    obtain kk y yb yr where r: "r = fill kk (Nd Lf y yb yr)" "before kk = []" "rb_left_most nil s (root_of nil r) = Some y"
      using left_most [of nil s "InR l nd b # k" r] R lr by auto
    let ?k = "kk @ InR l y b # k" and ?s = "rb_move nil nd y (rb_detach nil nd y s)"
    have "rb_rep nil s (fill (kk @ InR l nd b # k) (Nd Lf y yb yr))" using R r(1) by (simp add: fill_append)
    note y = rep_reads(2,4) [OF this]
    have n: "lft s nd \<noteq> nil" "rgt s nd \<noteq> nil"
      using rep_reads(1,2) [OF R] root_not_nil [of nil l] root_not_nil [of nil r] rep_nil [OF R] lr by auto
    have d: "rb_delete nil nd s = (if yb then rb_delete_fixup nil (root_of nil yr) ?s else Some ?s)"
      using rb_delete_two [OF n(1,2)] y r(3) rep_reads(2) [OF R] by simp
    have s': "rb_rep nil ?s (fill ?k yr) \<and> rb_parent ?s (root_of nil yr) = par_of nil ?k"
    proof (cases "kk = []")
      case True
      then show ?thesis using detach_next [of nil s k l nd b y yb yr] R r(1) lr(1) by simp
    next
      case False
      then show ?thesis using detach_far [of nil s k l nd b kk y yb yr] R r(1) lr(1) by (simp add: fill_append par_append)
    qed
    have "rb_ok (fill k (Nd l y b r))" using t(2) unfolding f fill_ok by auto
    then have o: "invc yr" "invh yr" "ctxc yb ?k" "ctxh (bh yr + (if yb then 1 else 0)) ?k" "yb \<or> blk yr"
      unfolding r(1) using fill_ok [of ?k "Nd Lf y yb yr"] by (auto simp: fill_append)
    have "before ?k @ inord yr @ behind ?k = remove1 nd (inord t)"
      unfolding xs using r(1,2) by (simp add: before_append behind_append)
    with s' show ?thesis by (intro delete_finish [OF _ _ o d]) auto
  qed
qed

text \<open>
  C32. \<open>rb_delete\<close> of a node of a red-black tree returns: the result is a red-black tree again, linked consistently, with the
  same nodes in the same order without the deleted one. The parent field of the sentinel, which the code uses as scratch, may have changed.
\<close>

theorem rb_delete_ok:
  assumes t: "rb_rep nil s t" "rb_ok t" and nd: "nd \<in> set (inord t)"
  shows "\<exists>s' t'. rb_delete nil nd s = Some s' \<and> rb_rep nil s' t' \<and> rb_ok t' \<and> inord t' = remove1 nd (inord t)"
  by (rule delete_rep [OF assms])

text \<open>A black root with two red children: the root goes, its successor takes its place and its colour.\<close>

definition three_nodes :: rb_state where
  "three_nodes = \<lparr>rb_mem = (\<lambda>a. if a = 12 then \<lparr>color_parent = 5, node_left = 8, node_right = 16\<rparr>
      else if a = 8 \<or> a = 16 then \<lparr>color_parent = 12, node_left = 4, node_right = 4\<rparr>
      else \<lparr>color_parent = 1, node_left = 0, node_right = 0\<rparr>), rb_root = 12\<rparr>"

lemma three_nodes_rep: "rb_rep 4 three_nodes (Nd (Nd Lf 8 False Lf) 12 True (Nd Lf 16 False Lf))"
  "rb_ok (Nd (Nd Lf 8 False Lf) 12 True (Nd Lf 16 False Lf))"
  by (simp_all add: rb_rep_def focus_def three_nodes_def lft_def rgt_def rb_parent_def rb_is_black_def rb_color_def aligned_def rb_ok_def)

theorem rb_delete_ok_witness: "\<exists>s' t'. rb_delete 4 12 three_nodes = Some s' \<and> rb_rep 4 s' t' \<and> inord t' = [8, 16]"
  using rb_delete_ok [OF three_nodes_rep, of 12] by auto

end
