(* ===== verification/RbtreeWalk.thy ===== *)
theory RbtreeWalk
  imports RbtreeInsert RbtreeDelete
begin

text \<open>
  Walking the red-black tree: \<open>rb_next\<close> and \<open>rb_prev\<close> step through the nodes in order, and no node is deeper than
  twice the logarithm of their number.
\<close>

section \<open>Neighbours\<close>

lemma up_right:
  "rb_rep nil s (fill k t) \<Longrightarrow> t \<noteq> Lf \<Longrightarrow>
    rb_up_right nil s (root_of nil t) (par_of nil k) = Some (hd (behind k @ [nil]))"
proof (induction k t rule: fill.induct)
  case (1 t)
  then show ?case by (subst rb_up_right.simps) simp
next
  case (2 a b r k t)
  have R: "rb_rep nil s (fill k (Nd t a b r))" using 2 by simp
  have "root_of nil t \<noteq> rgt s a" using rep_reads(2) [OF R] siblings [OF R] 2 by simp
  then show ?case by (subst rb_up_right.simps) simp
next
  case (3 l a b k t)
  have R: "rb_rep nil s (fill k (Nd l a b t))" using 3 by simp
  show ?case using rep_reads [OF R] 3 by (subst rb_up_right.simps) simp
qed

lemma up_left:
  "rb_rep nil s (fill k t) \<Longrightarrow> t \<noteq> Lf \<Longrightarrow>
    rb_up_left nil s (root_of nil t) (par_of nil k) = Some (last (nil # before k))"
proof (induction k t rule: fill.induct)
  case (1 t)
  then show ?case by (subst rb_up_left.simps) simp
next
  case (2 a b r k t)
  have R: "rb_rep nil s (fill k (Nd t a b r))" using 2 by simp
  show ?case using rep_reads [OF R] 2 by (subst rb_up_left.simps) simp
next
  case (3 l a b k t)
  have R: "rb_rep nil s (fill k (Nd l a b t))" using 3 by simp
  have "root_of nil t \<noteq> lft s a" using rep_reads(1) [OF R] siblings [OF R] 3 by auto
  then show ?case by (subst rb_up_left.simps) simp
qed

lemma left_most_hd: "rb_rep nil s (fill k t) \<Longrightarrow> t \<noteq> Lf \<Longrightarrow> rb_left_most nil s (root_of nil t) = Some (hd (inord t))"
  using left_most [of nil s k t] by auto

lemma right_most_last:
  "rb_rep nil s (fill k t) \<Longrightarrow> t \<noteq> Lf \<Longrightarrow> rb_right_most nil s (root_of nil t) = Some (last (inord t))"
proof (induction t arbitrary: k)
  case (Nd l a c r)
  note a = rep_reads [OF Nd.prems(1)]
  have i: "rb_rep nil s (fill (InR l a c # k) r)" using Nd.prems(1) by simp
  show ?case
  proof (cases "r = Lf")
    case True
    then show ?thesis using a by (subst rb_right_most.simps) simp
  next
    case False
    then have "rgt s a \<noteq> nil" using a(2) root_not_nil [of nil r] rep_nil [OF Nd.prems(1)] by simp
    moreover have "inord r \<noteq> []" using False by (cases r) auto
    ultimately show ?thesis using a(2) Nd.IH(2) [OF i False] by (subst rb_right_most.simps) simp
  qed
qed simp

lemma next_at:
  assumes R: "rb_rep nil s (fill k (Nd l a b r))"
  shows "rb_next nil s a = Some (hd (inord r @ behind k @ [nil]))"
proof (cases "r = Lf")
  case True
  then show ?thesis using rep_reads [OF R] up_right [OF R] by (simp add: rb_next_def)
next
  case False
  then have "inord r \<noteq> []" "root_of nil r \<noteq> nil" using root_not_nil [of nil r] rep_nil [OF R] by (cases r; auto)+
  then show ?thesis
    using rep_reads(2) [OF R] left_most_hd [of nil s "InR l a b # k" r] R False by (simp add: rb_next_def)
qed

lemma prev_at:
  assumes R: "rb_rep nil s (fill k (Nd l a b r))"
  shows "rb_prev nil s a = Some (last (nil # before k @ inord l))"
proof (cases "l = Lf")
  case True
  then show ?thesis using rep_reads [OF R] up_left [OF R] by (simp add: rb_prev_def)
next
  case False
  then have "inord l \<noteq> []" "root_of nil l \<noteq> nil" using root_not_nil [of nil l] rep_nil [OF R] by (cases l; auto)+
  then show ?thesis
    using rep_reads(1) [OF R] right_most_last [of nil s "InL a b r # k" l] R False by (simp add: rb_prev_def)
qed

lemma neighbours:
  assumes R: "rb_rep nil s t" and t: "inord t = xs @ a # ys"
  shows "rb_next nil s a = Some (hd (ys @ [nil]))" "rb_prev nil s a = Some (last (nil # xs))"
proof -
  obtain k l b r where f: "t = fill k (Nd l a b r)" using position [of a t] t by auto
  have "(before k @ inord l) @ a # inord r @ behind k = xs @ a # ys" using t f by simp
  moreover have "a \<notin> set xs" "a \<notin> set ys" using rep_distinct [OF R] t by auto
  moreover have "a \<notin> set (before k @ inord l)" "a \<notin> set (inord r @ behind k)"
    using rep_distinct [OF R] unfolding f by auto
  ultimately have "before k @ inord l = xs" "inord r @ behind k = ys"
    using append_Cons_eq_iff [of a "before k @ inord l" "inord r @ behind k" xs ys] by auto
  then show "rb_next nil s a = Some (hd (ys @ [nil]))" "rb_prev nil s a = Some (last (nil # xs))"
    using next_at [of nil s k l a b r] prev_at [of nil s k l a b r] R f by auto
qed

lemma ends:
  assumes R: "rb_rep nil s t"
  shows "rb_first nil s = Some (hd (inord t @ [nil]))" "rb_last nil s = Some (last (nil # inord t))"
proof -
  have r: "rb_root s = root_of nil t" by (rule rep_root [OF R])
  have "rb_first nil s = Some (hd (inord t @ [nil])) \<and> rb_last nil s = Some (last (nil # inord t))"
  proof (cases "t = Lf")
    case False
    then have "inord t \<noteq> []" "root_of nil t \<noteq> nil" using root_not_nil [of nil t] rep_nil [OF R] by (cases t; auto)+
    then show ?thesis using left_most_hd [of nil s "[]" t] right_most_last [of nil s "[]" t] R False r
      by (simp add: rb_first_def rb_last_def)
  qed (simp add: r rb_first_def rb_last_def)
  then show "rb_first nil s = Some (hd (inord t @ [nil]))" "rb_last nil s = Some (last (nil # inord t))" by auto
qed

section \<open>Walks\<close>

text \<open>The loops that visit all nodes, forwards and backwards, as in \<open>rb_test\<close>: the nodes in the order of the visit.\<close>

partial_function (option) rb_walk_next :: "u32 \<Rightarrow> rb_state \<Rightarrow> u32 \<Rightarrow> u32 list option" where
  "rb_walk_next nil s p = (if p \<noteq> nil then do {
      q \<leftarrow> rb_next nil s p;
      ps \<leftarrow> rb_walk_next nil s q;
      Some (p # ps)
    } else Some [])"

partial_function (option) rb_walk_prev :: "u32 \<Rightarrow> rb_state \<Rightarrow> u32 \<Rightarrow> u32 list option" where
  "rb_walk_prev nil s p = (if p \<noteq> nil then do {
      q \<leftarrow> rb_prev nil s p;
      ps \<leftarrow> rb_walk_prev nil s q;
      Some (p # ps)
    } else Some [])"

definition rb_forwards :: "u32 \<Rightarrow> rb_state \<Rightarrow> u32 list option" where
  "rb_forwards nil s = do { p \<leftarrow> rb_first nil s; rb_walk_next nil s p }"

definition rb_backwards :: "u32 \<Rightarrow> rb_state \<Rightarrow> u32 list option" where
  "rb_backwards nil s = do { p \<leftarrow> rb_last nil s; rb_walk_prev nil s p }"

lemma walk_next: "rb_rep nil s t \<Longrightarrow> inord t = xs @ ys \<Longrightarrow> rb_walk_next nil s (hd (ys @ [nil])) = Some ys"
proof (induction ys arbitrary: xs)
  case Nil
  then show ?case by (subst rb_walk_next.simps) simp
next
  case (Cons y ys)
  have "y \<noteq> nil" using rep_nil [OF Cons.prems(1)] Cons.prems(2) by auto
  then show ?case using neighbours(1) [OF Cons.prems] Cons.IH [of "xs @ [y]"] Cons.prems
    by (subst rb_walk_next.simps) simp
qed

lemma walk_prev: "rb_rep nil s t \<Longrightarrow> inord t = xs @ ys \<Longrightarrow> rb_walk_prev nil s (last (nil # xs)) = Some (rev xs)"
proof (induction xs arbitrary: ys rule: rev_induct)
  case Nil
  then show ?case by (subst rb_walk_prev.simps) simp
next
  case (snoc x xs)
  have "x \<noteq> nil" using rep_nil [OF snoc.prems(1)] snoc.prems(2) by auto
  then show ?case using neighbours(2) [of nil s t xs x ys] snoc.IH [of "x # ys"] snoc.prems
    by (subst rb_walk_prev.simps) simp
qed

lemma walks:
  assumes "rb_rep nil s t"
  shows "rb_forwards nil s = Some (inord t)" "rb_backwards nil s = Some (rev (inord t))"
  using ends [OF assms] walk_next [OF assms, of "[]" "inord t"] walk_prev [OF assms, of "inord t" "[]"]
  by (simp_all add: rb_forwards_def rb_backwards_def)

section \<open>The depth of a node\<close>

lemma size_bh: "invh t \<Longrightarrow> 2 ^ bh t \<le> length (inord t) + 1"
  by (induction t) (auto simp: algebra_simps)

lemma depth_bh:
  "ctxc (blk t) k \<Longrightarrow> ctxh (bh t) k \<Longrightarrow> length k + (if blk t then 0 else 1) + 2 * bh t \<le> 2 * bh (fill k t)"
proof (induction k t rule: fill.induct)
  case (2 a b r k t)
  then show ?case by (cases b; cases "blk t") auto
next
  case (3 l a b k t)
  then show ?case by (cases b; cases "blk t") auto
qed simp

lemma depth_node: "rb_ok (fill k (Nd l a b r)) \<Longrightarrow> length k + 1 \<le> 2 * bh (fill k (Nd l a b r))"
  using depth_bh [of "Nd l a b r" k] by (auto simp: fill_ok split: if_splits)

lemma climb: "rb_rep nil s (fill k (Nd l a b r)) \<Longrightarrow> (rb_parent s ^^ (length k + 1)) a = nil
    \<and> (\<forall>m < length k + 1. (rb_parent s ^^ m) a \<in> set (inord (fill k (Nd l a b r))))"
proof (induction k arbitrary: l a b r)
  case Nil
  then show ?case using rep_reads(3) [of nil s "[]" l a b r] by simp
next
  case (Cons F k)
  define p where "p = par_of nil (F # k)"
  have pa: "rb_parent s a = p" using rep_reads(3) [OF Cons.prems] by (simp add: p_def)
  have i: "(rb_parent s ^^ (length k + 1)) p = nil
    \<and> (\<forall>m < length k + 1. (rb_parent s ^^ m) p \<in> set (inord (fill (F # k) (Nd l a b r))))"
  proof (cases F)
    case (InL x c y)
    then show ?thesis using Cons.IH [of "Nd l a b r" x c y] Cons.prems by (simp add: p_def)
  next
    case (InR y x c)
    then show ?thesis using Cons.IH [of y x c "Nd l a b r"] Cons.prems by (simp add: p_def)
  qed
  have "(rb_parent s ^^ m) a \<in> set (inord (fill (F # k) (Nd l a b r)))" if "m < length (F # k) + 1" for m
  proof (cases m)
    case (Suc j)
    then show ?thesis using i that pa by (simp add: funpow_Suc_right del: funpow.simps inord_fill)
  qed simp
  then show ?case using i pa by (simp add: funpow_Suc_right del: funpow.simps inord_fill)
qed

text \<open>
  From every node of a red-black tree with n nodes, \<open>rb_parent\<close> leads through nodes of the tree to the sentinel in d steps
  where 2 to the power of half of d, rounded up, is at most n + 1: no search and no repair goes through more than twice the
  logarithm of the number of nodes.
\<close>

theorem rb_depth:
  assumes "rb_rep nil s t" "rb_ok t" "a \<in> set (inord t)"
  shows "\<exists>d. (rb_parent s ^^ d) a = nil \<and> (\<forall>m < d. (rb_parent s ^^ m) a \<in> set (inord t))
    \<and> 2 ^ ((d + 1) div 2) \<le> length (inord t) + 1"
proof -
  obtain k l b r where f: "t = fill k (Nd l a b r)" using position [OF assms(3)] by blast
  have "(length k + 1 + 1) div 2 \<le> bh t" using depth_node [of k l a b r] assms(2) f by simp
  then have "(2 :: nat) ^ ((length k + 1 + 1) div 2) \<le> 2 ^ bh t" by (rule power_increasing) simp
  also have "\<dots> \<le> length (inord t) + 1" by (rule size_bh) (use assms(2) in \<open>simp add: rb_ok_def\<close>)
  finally show ?thesis using climb [of nil s k l a b r] assms(1) f by blast
qed

theorem rb_depth_witness: "\<exists>d. (rb_parent three_nodes ^^ d) 8 = 4 \<and> (2 :: nat) ^ ((d + 1) div 2) \<le> 4"
  using rb_depth [OF three_nodes_rep, of 8] by auto

end
