(* ===== verification/RbtreeSort.thy ===== *)
theory RbtreeSort
  imports RbtreeWalk "HOL-Library.Multiset"
begin

text \<open>
  What a client of the red-black tree sees: a store that keeps its nodes in the order of their keys. The interface is the locale
  \<open>node_store\<close>; its law for a run of insertions is proved once and holds for the tree by interpretation.
\<close>

section \<open>The interface\<close>

text \<open>\<open>contains s xs\<close>: the store \<open>s\<close> holds the nodes \<open>xs\<close> in this order; \<open>usable\<close> says which addresses a node may have.\<close>

locale node_store =
  fixes contains :: "'s \<Rightarrow> u32 list \<Rightarrow> bool"
    and insert_node :: "u32 \<Rightarrow> 's \<Rightarrow> 's option"
    and delete_node :: "u32 \<Rightarrow> 's \<Rightarrow> 's option"
    and visit :: "'s \<Rightarrow> u32 list option"
    and visit_back :: "'s \<Rightarrow> u32 list option"
    and key :: "u32 \<Rightarrow> int"
    and usable :: "u32 \<Rightarrow> bool"
  assumes insert_law: "contains s xs \<Longrightarrow> sorted (map key xs) \<Longrightarrow> usable a \<Longrightarrow> a \<notin> set xs \<Longrightarrow>
      \<exists>s'. insert_node a s = Some s' \<and> contains s' (filter (\<lambda>b. key b \<le> key a) xs @ a # filter (\<lambda>b. \<not> key b \<le> key a) xs)"
    and delete_law: "contains s xs \<Longrightarrow> a \<in> set xs \<Longrightarrow> \<exists>s'. delete_node a s = Some s' \<and> contains s' (remove1 a xs)"
    and visit_law: "contains s xs \<Longrightarrow> visit s = Some xs \<and> visit_back s = Some (rev xs)"
begin

fun insert_all :: "u32 list \<Rightarrow> 's \<Rightarrow> 's option" where
  "insert_all [] s = Some s"
| "insert_all (a # as) s = Option.bind (insert_node a s) (insert_all as)"

fun delete_all :: "u32 list \<Rightarrow> 's \<Rightarrow> 's option" where
  "delete_all [] s = Some s"
| "delete_all (a # as) s = Option.bind (delete_node a s) (delete_all as)"

lemma insert_one:
  assumes "contains s (sort_key key xs)" "usable a" "a \<notin> set xs"
  shows "\<exists>s'. insert_node a s = Some s' \<and> contains s' (sort_key key (xs @ [a]))"
proof -
  let ?xs = "sort_key key xs"
  let ?ys = "filter (\<lambda>b. key b \<le> key a) ?xs @ a # filter (\<lambda>b. \<not> key b \<le> key a) ?xs"
  obtain s' where s': "insert_node a s = Some s'" "contains s' ?ys"
    using insert_law [of s ?xs a] assms by auto
  have "sort_key key (xs @ [a]) = ?ys"
  proof (rule properties_for_sort_key)
    show "mset ?ys = mset (xs @ [a])" by (simp add: multiset_partition [symmetric] mset_filter)
    show "sorted (map key ?ys)"
      using sorted_sort_key [of key xs] by (auto simp: sorted_append sorted_filter not_le)
    show "filter (\<lambda>x. key k = key x) ?ys = filter (\<lambda>x. key k = key x) (xs @ [a])" if "k \<in> set ?ys" for k
    proof -
      have st: "filter (\<lambda>x. key k = key x) ?xs = filter (\<lambda>x. key k = key x) xs"
        using sort_key_stable [of key "key k" xs] by (simp add: eq_commute [of "key k"])
      have "filter (\<lambda>x. key k = key x) (filter (\<lambda>b. key b \<le> key a) ?xs) = (if key k \<le> key a then filter (\<lambda>x. key k = key x) ?xs else [])"
        by (auto simp: filter_empty_conv intro: filter_cong)
      moreover have "filter (\<lambda>x. key k = key x) (filter (\<lambda>b. \<not> key b \<le> key a) ?xs) = (if key k \<le> key a then [] else filter (\<lambda>x. key k = key x) ?xs)"
        by (auto simp: filter_empty_conv intro: filter_cong)
      ultimately show ?thesis using st by auto
    qed
  qed
  then show ?thesis using s' by auto
qed

lemma insert_many:
  "contains s (sort_key key xs) \<Longrightarrow> distinct (xs @ as) \<Longrightarrow> \<forall>a \<in> set as. usable a \<Longrightarrow>
    \<exists>s'. insert_all as s = Some s' \<and> contains s' (sort_key key (xs @ as))"
proof (induction as arbitrary: xs s)
  case (Cons a as)
  obtain s' where s': "insert_node a s = Some s'" "contains s' (sort_key key (xs @ [a]))"
    using insert_one [of s xs a] Cons.prems by auto
  then show ?case using Cons.IH [of s' "xs @ [a]"] Cons.prems by auto
qed auto

lemma delete_many:
  "contains s xs \<Longrightarrow> distinct xs \<Longrightarrow> distinct as \<Longrightarrow> set as \<subseteq> set xs \<Longrightarrow>
    \<exists>s'. delete_all as s = Some s' \<and> contains s' (filter (\<lambda>a. a \<notin> set as) xs)"
proof (induction as arbitrary: xs s)
  case (Cons a as)
  obtain s' where s': "delete_node a s = Some s'" "contains s' (remove1 a xs)"
    using delete_law [of s xs a] Cons.prems by auto
  have r: "remove1 a xs = filter (\<lambda>b. b \<noteq> a) xs" using Cons.prems(2) by (simp add: distinct_remove1_removeAll removeAll_filter_not_eq eq_commute [of a])
  have "set as \<subseteq> set (remove1 a xs)" using Cons.prems r by auto
  moreover have "filter (\<lambda>b. b \<notin> set as) (remove1 a xs) = filter (\<lambda>b. b \<notin> set (a # as)) xs"
    unfolding r filter_filter by (rule filter_cong) auto
  ultimately show ?case
    using Cons.IH [OF s'(2)] Cons.prems s'(1) by (auto simp: distinct_remove1)
qed simp

lemma insert_delete_visit:
  assumes "contains s []" "distinct as" "\<forall>a \<in> set as. usable a" "distinct ds" "set ds \<subseteq> set as"
  shows "\<exists>s1 s2. insert_all as s = Some s1 \<and> visit s1 = Some (sort_key key as) \<and> visit_back s1 = Some (rev (sort_key key as))
    \<and> delete_all ds s1 = Some s2 \<and> visit s2 = Some (filter (\<lambda>a. a \<notin> set ds) (sort_key key as))"
proof -
  obtain s1 where s1: "insert_all as s = Some s1" "contains s1 (sort_key key as)"
    using insert_many [of s "[]" as] assms by auto
  obtain s2 where "delete_all ds s1 = Some s2" "contains s2 (filter (\<lambda>a. a \<notin> set ds) (sort_key key as))"
    using delete_many [OF s1(2), of ds] assms by auto
  then show ?thesis using s1 visit_law by blast
qed

end

section \<open>The tree is a store\<close>

definition rb_contains :: "u32 \<Rightarrow> rb_state \<Rightarrow> u32 list \<Rightarrow> bool" where
  "rb_contains nil s xs \<longleftrightarrow> (\<exists>t. rb_rep nil s t \<and> rb_ok t \<and> inord t = xs)"

text \<open>A comparison function of the kind the comments ask for: the difference of the keys.\<close>

definition key_cmp :: "(u32 \<Rightarrow> int) \<Rightarrow> u32 \<Rightarrow> u32 \<Rightarrow> int" where
  "key_cmp key a b = key a - key b"

interpretation rb: node_store "rb_contains nil" "\<lambda>a. rb_insert (key_cmp key) nil a" "rb_delete nil" "rb_forwards nil"
  "rb_backwards nil" key "\<lambda>a. aligned a \<and> a \<noteq> nil"
proof unfold_locales
  fix s xs a assume a: "rb_contains nil s xs" "sorted (map key xs)" "aligned a \<and> a \<noteq> nil" "a \<notin> set xs"
  then obtain t where t: "rb_rep nil s t" "rb_ok t" "inord t = xs" unfolding rb_contains_def by blast
  have c: "\<forall>a b. key_cmp key a b < 0 \<longleftrightarrow> key a < key b" by (simp add: key_cmp_def)
  show "\<exists>s'. rb_insert (key_cmp key) nil a s = Some s'
    \<and> rb_contains nil s' (filter (\<lambda>b. key b \<le> key a) xs @ a # filter (\<lambda>b. \<not> key b \<le> key a) xs)"
    using insert_rep [OF c t(1,2), of a] t(3) a unfolding rb_contains_def by blast
next
  fix s xs a assume a: "rb_contains nil s xs" "a \<in> set xs"
  then show "\<exists>s'. rb_delete nil a s = Some s' \<and> rb_contains nil s' (remove1 a xs)"
    using delete_rep unfolding rb_contains_def by blast
next
  fix s xs assume a: "rb_contains nil s xs"
  then show "rb_forwards nil s = Some xs \<and> rb_backwards nil s = Some (rev xs)"
    using walks unfolding rb_contains_def by blast
qed

text \<open>The empty tree: the root is the sentinel, which is black.\<close>

lemma empty_contains: "aligned nil \<Longrightarrow> rb_is_black s nil \<Longrightarrow> rb_root s = nil \<Longrightarrow> rb_contains nil s []"
  unfolding rb_contains_def by (intro exI [of _ Lf]) (simp add: rb_rep_def focus_def rb_ok_def)

text \<open>The runs of the interface over the code.\<close>

fun rb_insert_all :: "(u32 \<Rightarrow> u32 \<Rightarrow> int) \<Rightarrow> u32 \<Rightarrow> u32 list \<Rightarrow> rb_state \<Rightarrow> rb_state option" where
  "rb_insert_all cmp nil [] s = Some s"
| "rb_insert_all cmp nil (a # as) s = Option.bind (rb_insert cmp nil a s) (rb_insert_all cmp nil as)"

fun rb_delete_all :: "u32 \<Rightarrow> u32 list \<Rightarrow> rb_state \<Rightarrow> rb_state option" where
  "rb_delete_all nil [] s = Some s"
| "rb_delete_all nil (a # as) s = Option.bind (rb_delete nil a s) (rb_delete_all nil as)"

lemma rb_insert_all_eq: "rb.insert_all key nil as = rb_insert_all (key_cmp key) nil as"
  by (induction as; rule ext) simp_all

lemma rb_delete_all_eq: "rb.delete_all nil as = rb_delete_all nil as"
  by (induction as; rule ext) simp_all

text \<open>
  C33. Nodes put into an empty tree one after the other, with a comparison by the difference of keys, are visited by \<open>rb_first\<close> and
  \<open>rb_next\<close> in the stable order of their keys, and by \<open>rb_last\<close> and \<open>rb_prev\<close> in reverse; after any of them are deleted, the walk
  visits the others, in the same order. Every call on the way returns.
\<close>

theorem rb_tree_sorts:
  assumes "aligned nil" "rb_is_black s nil" "rb_root s = nil"
    and "distinct as" "\<forall>a \<in> set as. aligned a \<and> a \<noteq> nil" "distinct ds" "set ds \<subseteq> set as"
  shows "\<exists>s1 s2. rb_insert_all (key_cmp key) nil as s = Some s1
    \<and> rb_forwards nil s1 = Some (sort_key key as) \<and> rb_backwards nil s1 = Some (rev (sort_key key as))
    \<and> rb_delete_all nil ds s1 = Some s2 \<and> rb_forwards nil s2 = Some (filter (\<lambda>a. a \<notin> set ds) (sort_key key as))"
  using rb.insert_delete_visit [OF empty_contains [OF assms(1-3)] assms(4-7)]
  by (simp add: rb_insert_all_eq rb_delete_all_eq)

theorem rb_tree_sorts_witness:
  "\<exists>s1 s2. rb_insert_all (key_cmp uint) 4 [12, 8, 16] \<lparr>rb_mem = \<lambda>_. \<lparr>color_parent = 1, node_left = 0, node_right = 0\<rparr>, rb_root = 4\<rparr> = Some s1
    \<and> rb_forwards 4 s1 = Some [8, 12, 16] \<and> rb_backwards 4 s1 = Some [16, 12, 8]
    \<and> rb_delete_all 4 [12] s1 = Some s2 \<and> rb_forwards 4 s2 = Some [8, 16]"
proof -
  let ?s = "\<lparr>rb_mem = \<lambda>_. \<lparr>color_parent = 1, node_left = 0, node_right = 0\<rparr>, rb_root = 4\<rparr> :: rb_state"
  have "aligned 4" "rb_is_black ?s 4" "rb_root ?s = 4" "distinct [12, 8, 16 :: u32]" "\<forall>a \<in> set [12, 8, 16]. aligned a \<and> a \<noteq> 4"
    "distinct [12 :: u32]" "set [12] \<subseteq> set [12, 8, 16 :: u32]"
    by (simp_all add: aligned_def rb_is_black_def rb_color_def)
  from rb_tree_sorts [OF this, of uint] show ?thesis by simp
qed

end
