(* ===== verification/KmallocInv.thy ===== *)
theory KmallocInv
  imports KmallocMem
begin

text \<open>
  The state of the object allocator as a value: the pages with their class, descriptor, free and lost objects, the objects in the caches,
  the unused descriptors and the frames that hold descriptors. \<open>km_inv\<close> relates a state to such a view. No two of
  the parts overlap in memory, so a write into one leaves the others as they were.
\<close>

section \<open>The view\<close>

record km_page =
  pg_class :: nat
  pg_desc :: u32
  pg_frame :: nat
  pg_free :: "u32 list"
  pg_lost :: "u32 list"

record km_view =
  vw_pages :: "km_page list"
  vw_cached :: "nat \<Rightarrow> u32 list"
  vw_descs :: "u32 list"
  vw_dframes :: "nat list"

text \<open>The objects of a page that nobody holds and no cache has: the free ones, and those \<open>free_cache\<close> lost.\<close>

abbreviation pg_gone :: "km_page \<Rightarrow> u32 list" where
  "pg_gone p \<equiv> pg_free p @ pg_lost p"

abbreviation pg_objs :: "km_page \<Rightarrow> u32 set" where
  "pg_objs p \<equiv> set (objs (pg_class p) (pg_frame p))"

definition class_pages :: "km_view \<Rightarrow> nat \<Rightarrow> km_page list" where
  "class_pages V i = filter (\<lambda>p. pg_class p = i) (vw_pages V)"

definition all_frames :: "km_view \<Rightarrow> nat list" where
  "all_frames V = map pg_frame (vw_pages V) @ vw_dframes V"

definition all_descs :: "km_view \<Rightarrow> u32 list" where
  "all_descs V = map pg_desc (vw_pages V) @ vw_descs V"

definition counts :: "u16 \<Rightarrow> u16 \<Rightarrow> u32" where
  "counts sz rc = push_bit 16 (ucast sz) OR ucast rc"

definition cview :: "(u32 \<Rightarrow> u32) \<Rightarrow> u32 list_heap" where
  "cview w a = \<lparr>node_prev = w a, node_next = w (a + 4)\<rparr>"

definition page_ok :: "(u32 \<Rightarrow> u32) \<Rightarrow> km_page \<Rightarrow> bool" where
  "page_ok w p \<longleftrightarrow> w (pg_desc p) = page_addr (pg_frame p) \<and> path w (w (pg_desc p + 8)) (pg_free p) 0
     \<and> w (pg_desc p + 12) = counts (of_nat (osz (pg_class p))) (of_nat (onum (pg_class p) - length (pg_gone p)))"

definition ring_ok :: "(u32 \<Rightarrow> u32) \<Rightarrow> u32 \<Rightarrow> u32 list \<Rightarrow> bool" where
  "ring_ok w c ds \<longleftrightarrow> (if ds = [] then c = 0 else c = hd ds \<and> path (\<lambda>d. w (d + 4)) c ds c)"

definition cache_ok :: "(u32 \<Rightarrow> u32) \<Rightarrow> u32 \<Rightarrow> u32 list \<Rightarrow> bool" where
  "cache_ok w ob cs \<longleftrightarrow> (if cs = [] then ob = 0 else ob = hd cs \<and> dlist (cview w) (hd cs) (tl cs))"

text \<open>The parts of a view, without the memory: where they are and that they are apart.\<close>

definition view_ok :: "km_view \<Rightarrow> bool" where
  "view_ok V \<longleftrightarrow> distinct (all_frames V) \<and> (\<forall>f \<in> set (all_frames V). 0 < f \<and> f < 8192)
     \<and> distinct (all_descs V) \<and> (\<forall>d \<in> set (all_descs V). \<exists>f \<in> set (vw_dframes V). d \<in> set (bk_slots f))
     \<and> (\<forall>p \<in> set (vw_pages V). pg_class p < 10 \<and> distinct (pg_gone p) \<and> set (pg_gone p) \<subseteq> pg_objs p)
     \<and> (\<forall>i < 10. distinct (vw_cached V i) \<and> length (vw_cached V i) < 65536
          \<and> (\<forall>a \<in> set (vw_cached V i). \<exists>p \<in> set (vw_pages V). pg_class p = i \<and> a \<in> pg_objs p \<and> a \<notin> set (pg_gone p)))"

text \<open>The memory of a view.\<close>

definition mem_ok :: "(u32 \<Rightarrow> u32) \<Rightarrow> u32 \<Rightarrow> (nat \<Rightarrow> u32) \<Rightarrow> (nat \<Rightarrow> u32) \<Rightarrow> km_view \<Rightarrow> bool" where
  "mem_ok w fb chain ob V \<longleftrightarrow> (\<forall>p \<in> set (vw_pages V). page_ok w p) \<and> path (\<lambda>d. w (d + 4)) fb (vw_descs V) 0
     \<and> (\<forall>i < 10. ring_ok w (chain i) (map pg_desc (class_pages V i)) \<and> cache_ok w (ob i) (vw_cached V i))"

text \<open>The directories: sizes and lengths.\<close>

definition dirs_ok :: "km_state \<Rightarrow> km_view \<Rightarrow> bool" where
  "dirs_ok s V \<longleftrightarrow> (\<forall>i < 11. dir_obj_size (bucket_dir s i) = km_sizes ! i \<and> ch_obj_size (cache_dir s i) = km_sizes ! i)
     \<and> (\<forall>i < 10. dir_list_len (bucket_dir s i) = of_nat (length (class_pages V i))
          \<and> ch_list_len (cache_dir s i) = of_nat (length (vw_cached V i)))
     \<and> ch_list_len (cache_dir s 10) = 0"

definition frames_ok :: "mm_state \<Rightarrow> km_view \<Rightarrow> bool" where
  "frames_ok m V \<longleftrightarrow> buddy_inv m \<and> (\<forall>f \<in> set (all_frames V). holds_run m f 1)
     \<and> (\<forall>p \<in> set (vw_pages V). bkt_desc (frame_tab m (of_nat (pg_frame p))) = pg_desc p)"

definition km_body :: "km_state \<Rightarrow> km_view \<Rightarrow> bool" where
  "km_body s V \<longleftrightarrow> view_ok V \<and> dirs_ok s V \<and> frames_ok (km_mm s) V
     \<and> mem_ok (words s) (free_bucket_desc s) (\<lambda>i. dir_chain (bucket_dir s i)) (\<lambda>i. ch_object (cache_dir s i)) V"

definition unlocked :: "km_state \<Rightarrow> bool" where
  "unlocked s \<longleftrightarrow> free_bucket_lock s = 0 \<and> (\<forall>i < 11. dir_lock (bucket_dir s i) = 0 \<and> ch_lock (cache_dir s i) = 0)"

definition km_inv :: "km_state \<Rightarrow> km_view \<Rightarrow> bool" where
  "km_inv s V \<longleftrightarrow> km_body s V \<and> unlocked s"

text \<open>The objects that are neither free, lost nor in a cache: those that clients hold, with their class.\<close>

definition in_use :: "km_view \<Rightarrow> (u32 \<times> nat) set" where
  "in_use V = {(a, i). i < 10 \<and> a \<notin> set (vw_cached V i)
     \<and> (\<exists>p \<in> set (vw_pages V). pg_class p = i \<and> a \<in> pg_objs p \<and> a \<notin> set (pg_gone p))}"

section \<open>The parts are apart\<close>

definition span :: "u32 \<Rightarrow> nat \<Rightarrow> u32 set" where
  "span a n = (\<lambda>k. a + of_nat k) ` {0..<n}"

lemma spanI: "k < n \<Longrightarrow> a + of_nat k \<in> span a n"
  by (simp add: span_def)

lemma span_consts [simp]:
  "0 < n \<Longrightarrow> a \<in> span a n" "4 < n \<Longrightarrow> a + 4 \<in> span a n" "8 < n \<Longrightarrow> a + 8 \<in> span a n" "12 < n \<Longrightarrow> a + 12 \<in> span a n"
  using spanI [of 0 n a] spanI [of 4 n a] spanI [of 8 n a] spanI [of 12 n a] by simp_all

lemma obj_span: "i < 10 \<Longrightarrow> a \<in> set (objs i f) \<Longrightarrow> x \<in> span a (osz i) \<Longrightarrow> in_page f x"
  by (auto simp: span_def intro: obj_in_page)

lemma bk_unat: "f < 8192 \<Longrightarrow> j < 256 \<Longrightarrow> k < 16 \<Longrightarrow> unat (page_addr f + of_nat (16 * j) + of_nat k) = 0xC0000000 + 4096 * f + (16 * j + k)"
  using unat_in_page [of f "16 * j + k"] by (simp add: add.assoc)

lemma bk_span: "f < 8192 \<Longrightarrow> d \<in> set (bk_slots f) \<Longrightarrow> x \<in> span d 16 \<Longrightarrow> in_page f x"
proof -
  assume f: "f < 8192" "d \<in> set (bk_slots f)" "x \<in> span d 16"
  then obtain j k where j: "j < 256" "d = page_addr f + of_nat (16 * j)" "k < 16" "x = d + of_nat k"
    by (auto simp: bk_slots_def span_def)
  then have "16 * j + k < 4096" "x = page_addr f + of_nat (16 * j + k)" by (simp_all add: add.assoc)
  then show "in_page f x" unfolding in_page_def by blast
qed

lemma bk_spans_apart:
  assumes "f < 8192" "g < 8192" "d \<in> set (bk_slots f)" "e \<in> set (bk_slots g)" "d \<noteq> e"
  shows "span d 16 \<inter> span e 16 = {}"
proof (rule ccontr)
  assume "span d 16 \<inter> span e 16 \<noteq> {}"
  then obtain x where x: "x \<in> span d 16" "x \<in> span e 16" by blast
  have fg: "f = g"
    by (rule in_page_unique [OF bk_span [OF assms(1,3) x(1)] bk_span [OF assms(2,4) x(2)] assms(1,2)])
  obtain j k where j: "j < 256" "d = page_addr f + of_nat (16 * j)" "k < 16" "x = d + of_nat k"
    using assms(3) x(1) by (auto simp: bk_slots_def span_def)
  obtain m l where m: "m < 256" "e = page_addr f + of_nat (16 * m)" "l < 16" "x = e + of_nat l"
    using assms(4) x(2) fg by (auto simp: bk_slots_def span_def)
  have "unat x = 0xC0000000 + 4096 * f + (16 * j + k)" "unat x = 0xC0000000 + 4096 * f + (16 * m + l)"
    using bk_unat [OF assms(1) j(1,3)] bk_unat [OF assms(1) m(1,3)] j(2,4) m(2,4) by (simp_all only:)
  then have "16 * j + k = 16 * m + l" by simp
  moreover have "j = (16 * j + k) div 16" "m = (16 * m + l) div 16" using j(3) m(3) by simp_all
  ultimately have "j = m" by simp
  then show False using j(2) m(2) assms(5) by simp
qed

lemma obj_spans_apart:
  assumes "i < 10" "f < 8192" "a \<in> set (objs i f)" "b \<in> set (objs i f)" "a \<noteq> b"
  shows "span a (osz i) \<inter> span b (osz i) = {}"
  using objs_apart [OF assms] by (auto simp: span_def)

text \<open>What a view says of its parts.\<close>

lemma viewD:
  assumes "view_ok V"
  shows "distinct (all_frames V)" "distinct (all_descs V)"
    "f \<in> set (all_frames V) \<Longrightarrow> 0 < f \<and> f < 8192" "p \<in> set (vw_pages V) \<Longrightarrow> 0 < pg_frame p \<and> pg_frame p < 8192"
    "f \<in> set (vw_dframes V) \<Longrightarrow> 0 < f \<and> f < 8192"
    "d \<in> set (all_descs V) \<Longrightarrow> \<exists>f \<in> set (vw_dframes V). d \<in> set (bk_slots f)"
    "p \<in> set (vw_pages V) \<Longrightarrow> pg_class p < 10 \<and> distinct (pg_gone p) \<and> set (pg_gone p) \<subseteq> pg_objs p"
    "i < 10 \<Longrightarrow> distinct (vw_cached V i) \<and> length (vw_cached V i) < 65536"
    "i < 10 \<Longrightarrow> a \<in> set (vw_cached V i) \<Longrightarrow> \<exists>p \<in> set (vw_pages V). pg_class p = i \<and> a \<in> pg_objs p \<and> a \<notin> set (pg_gone p)"
  using assms by (auto simp: view_ok_def all_frames_def)

lemma desc_slot: "view_ok V \<Longrightarrow> d \<in> set (all_descs V) \<Longrightarrow> slot d \<and> slot (d + 8) \<and> d \<noteq> 0 \<and> unat d mod 16 = 0"
  using viewD(5,6) bk_slot slot_8 by blast

lemma obj_slot_view: "view_ok V \<Longrightarrow> p \<in> set (vw_pages V) \<Longrightarrow> a \<in> pg_objs p \<Longrightarrow> slot a \<and> a \<noteq> 0"
  using viewD(4,7) obj_slot by blast

lemma cached_slot: "view_ok V \<Longrightarrow> i < 10 \<Longrightarrow> a \<in> set (vw_cached V i) \<Longrightarrow> slot a \<and> a \<noteq> 0"
  using viewD(9) obj_slot_view by blast

lemma desc_spans: "view_ok V \<Longrightarrow> d \<in> set (all_descs V) \<Longrightarrow> e \<in> set (all_descs V) \<Longrightarrow> d \<noteq> e \<Longrightarrow> span d 16 \<inter> span e 16 = {}"
  using viewD(5,6) bk_spans_apart by metis

lemma desc_obj_frames:
  assumes V: "view_ok V" and d: "f \<in> set (vw_dframes V)" "d \<in> set (bk_slots f)" and p: "p \<in> set (vw_pages V)" "a \<in> pg_objs p"
  shows "span d 16 \<inter> span a (osz (pg_class p)) = {}"
proof (rule ccontr)
  assume "span d 16 \<inter> span a (osz (pg_class p)) \<noteq> {}"
  then obtain x where x: "x \<in> span d 16" "x \<in> span a (osz (pg_class p))" by blast
  have f: "f < 8192" "pg_frame p < 8192" "pg_class p < 10" using viewD(4,5,7) [OF V] d(1) p(1) by auto
  have "f = pg_frame p" by (rule in_page_unique [OF bk_span [OF f(1) d(2) x(1)] obj_span [OF f(3) p(2) x(2)] f(1,2)])
  then show False using viewD(1) [OF V] d(1) p(1) by (auto simp: all_frames_def)
qed

lemma desc_obj_spans:
  "view_ok V \<Longrightarrow> d \<in> set (all_descs V) \<Longrightarrow> p \<in> set (vw_pages V) \<Longrightarrow> a \<in> pg_objs p \<Longrightarrow> span d 16 \<inter> span a (osz (pg_class p)) = {}"
  using viewD(6) desc_obj_frames by meson

lemma page_eq: "view_ok V \<Longrightarrow> p \<in> set (vw_pages V) \<Longrightarrow> q \<in> set (vw_pages V) \<Longrightarrow> pg_frame p = pg_frame q \<Longrightarrow> p = q"
  by (auto dest: viewD(1) simp: all_frames_def distinct_map inj_on_def)

lemma obj_spans:
  assumes V: "view_ok V" and p: "p \<in> set (vw_pages V)" "a \<in> pg_objs p" and q: "q \<in> set (vw_pages V)" "b \<in> pg_objs q" and "a \<noteq> b"
  shows "span a (osz (pg_class p)) \<inter> span b (osz (pg_class q)) = {}"
proof (cases "p = q")
  case True
  then show ?thesis using obj_spans_apart viewD(4,7) [OF V p(1)] p q \<open>a \<noteq> b\<close> by blast
next
  case False
  show ?thesis
  proof (rule ccontr)
    assume "span a (osz (pg_class p)) \<inter> span b (osz (pg_class q)) \<noteq> {}"
    then obtain x where x: "x \<in> span a (osz (pg_class p))" "x \<in> span b (osz (pg_class q))" by blast
    have b: "pg_class p < 10" "pg_class q < 10" "pg_frame p < 8192" "pg_frame q < 8192" using viewD(4,7) [OF V] p(1) q(1) by auto
    have "pg_frame p = pg_frame q"
      by (rule in_page_unique [OF obj_span [OF b(1) p(2) x(1)] obj_span [OF b(2) q(2) x(2)] b(3,4)])
    then show False using page_eq [OF V p(1) q(1)] False by simp
  qed
qed

lemma obj_page: "view_ok V \<Longrightarrow> p \<in> set (vw_pages V) \<Longrightarrow> a \<in> pg_objs p \<Longrightarrow> q \<in> set (vw_pages V) \<Longrightarrow> a \<in> pg_objs q \<Longrightarrow> p = q"
proof -
  assume V: "view_ok V" and p: "p \<in> set (vw_pages V)" "a \<in> pg_objs p" and q: "q \<in> set (vw_pages V)" "a \<in> pg_objs q"
  have b: "pg_class p < 10" "pg_class q < 10" "pg_frame p < 8192" "pg_frame q < 8192" using viewD(4,7) [OF V] p(1) q(1) by auto
  have z: "in_page (pg_frame p) (a + of_nat 0)" "in_page (pg_frame q) (a + of_nat 0)"
    using obj_in_page [OF b(1) p(2), of 0] obj_in_page [OF b(2) q(2), of 0] osz_le [OF b(1)] osz_le [OF b(2)] by simp_all
  show "p = q" by (rule page_eq [OF V p(1) q(1) in_page_unique [OF z b(3,4)]])
qed

text \<open>The locks are not part of the body.\<close>

lemma km_body_same:
  assumes "\<And>j. dir_obj_size (bucket_dir s' j) = dir_obj_size (bucket_dir s j)" "\<And>j. dir_list_len (bucket_dir s' j) = dir_list_len (bucket_dir s j)"
    "\<And>j. dir_chain (bucket_dir s' j) = dir_chain (bucket_dir s j)" "\<And>j. ch_obj_size (cache_dir s' j) = ch_obj_size (cache_dir s j)"
    "\<And>j. ch_list_len (cache_dir s' j) = ch_list_len (cache_dir s j)" "\<And>j. ch_object (cache_dir s' j) = ch_object (cache_dir s j)"
    "words s' = words s" "km_mm s' = km_mm s" "free_bucket_desc s' = free_bucket_desc s"
  shows "km_body s' V = km_body s V"
  by (simp add: km_body_def dirs_ok_def assms)

lemma km_body_locks [simp]:
  "km_body (upd_dir i (\<lambda>b. b\<lparr>dir_lock := l\<rparr>) s) V = km_body s V" "km_body (unlock_bucket i s) V = km_body s V"
  "km_body (upd_cache i (\<lambda>c. c\<lparr>ch_lock := l\<rparr>) s) V = km_body s V" "km_body (unlock_cache i s) V = km_body s V"
  by (rule km_body_same; simp add: upd_dir_def upd_cache_def unlock_bucket_def unlock_cache_def)+

text \<open>The head of an object, which a free or a cached object uses.\<close>

lemma head_span: "i < 10 \<Longrightarrow> a \<in> span a (osz i) \<and> a + 4 \<in> span a (osz i)"
  using osz_le [of i] by (simp add: spanI spanI [of 4, simplified])

section \<open>Writes beside the parts\<close>

lemma page_cong:
  "page_ok w p \<Longrightarrow> (\<And>x. x \<in> span (pg_desc p) 16 \<union> set (pg_free p) \<Longrightarrow> w' x = w x) \<Longrightarrow> page_ok w' p"
  using path_cong [of "pg_free p" w' w] by (simp add: page_ok_def)

lemma ring_cong:
  "ring_ok w c ds \<Longrightarrow> (\<And>d. d \<in> set ds \<Longrightarrow> w' (d + 4) = w (d + 4)) \<Longrightarrow> ring_ok w' c ds"
  using path_cong [of ds "\<lambda>d. w' (d + 4)" "\<lambda>d. w (d + 4)"] by (auto simp: ring_ok_def split: if_splits)

lemma cache_cong:
  "cache_ok w ob cs \<Longrightarrow> (\<And>a. a \<in> set cs \<Longrightarrow> w' a = w a \<and> w' (a + 4) = w (a + 4)) \<Longrightarrow> cache_ok w' ob cs"
proof (cases cs)
  case (Cons a as)
  assume c: "cache_ok w ob cs" and e: "\<And>a. a \<in> set cs \<Longrightarrow> w' a = w a \<and> w' (a + 4) = w (a + 4)"
  have "dlist (cview w') a as" by (rule dlist_cong [of a as "cview w'" "cview w", THEN iffD2]) (use c e Cons in \<open>auto simp: cache_ok_def cview_def\<close>)
  then show ?thesis using c Cons by (simp add: cache_ok_def)
qed (simp add: cache_ok_def)

end
