(* ===== verification/KmallocCache.thy ===== *)
theory KmallocCache
  imports KmallocInv
begin

text \<open>
  The caches of free objects: a ring of objects linked through their first two words, of which the directory points at the newest.
  Taking and giving change the newest end, \<open>free_cache\<close> takes the oldest.
\<close>

section \<open>The class of a size\<close>

lemma bucket_class_iff:
  "bucket_class n sz len j = Some i \<longleftrightarrow> j \<le> i \<and> i < j + n \<and> len \<le> ucast (sz i) \<and> (\<forall>k. j \<le> k \<and> k < i \<longrightarrow> ucast (sz k) < len)"
proof (induction n arbitrary: j)
  case (Suc n)
  show ?case
  proof (cases "j < i")
    case True
    then have "(\<forall>k. j \<le> k \<and> k < i \<longrightarrow> P k) \<longleftrightarrow> P j \<and> (\<forall>k. Suc j \<le> k \<and> k < i \<longrightarrow> P k)" for P
      by (metis Suc_leI le_neq_implies_less order_refl Suc_leD)
    with True Suc.IH [of "j + 1"] show ?thesis by simp
  next
    case False
    then have "i = j \<or> i < j" by arith
    with Suc.IH [of "j + 1"] show ?thesis by (auto simp: not_less)
  qed
qed simp

lemma km_size: "i < 10 \<Longrightarrow> km_sizes ! i = of_nat (osz i)"
  by (drule class_cases) (auto simp: km_sizes_def osz_def)

lemma size_u32: "i < 10 \<Longrightarrow> (ucast (of_nat (osz i) :: u16) :: u32) = of_nat (osz i)"
  by (drule class_cases) (auto simp: osz_def)

lemma size_unat: "i < 10 \<Longrightarrow> unat (of_nat (osz i) :: u32) = osz i"
  by (drule class_cases) (auto simp: osz_def)

lemma osz_mono: "k < i \<Longrightarrow> osz k < osz i"
  by (simp add: osz_def)

definition class_of :: "nat \<Rightarrow> nat" where
  "class_of n = (LEAST i. n \<le> osz i)"

lemma class_of: "n \<le> 4096 \<Longrightarrow> class_of n < 10 \<and> n \<le> osz (class_of n) \<and> (\<forall>k < class_of n. osz k < n)"
proof -
  assume n: "n \<le> 4096"
  then have "n \<le> osz 9" by (simp add: osz_def)
  then have "n \<le> osz (class_of n)" "class_of n \<le> 9" unfolding class_of_def by (rule LeastI, rule Least_le)
  moreover have "osz k < n" if "k < class_of n" for k
    using not_less_Least [of k "\<lambda>i. n \<le> osz i"] that by (simp add: class_of_def not_le)
  ultimately show ?thesis by simp
qed

lemma class_of_osz [simp]: "class_of (osz i) = i"
  unfolding class_of_def by (rule Least_equality) (simp_all add: osz_def)

lemma bucket_class_of:
  assumes "\<And>i. i < 11 \<Longrightarrow> sz i = km_sizes ! i" and n: "unat len \<le> 4096"
  shows "bucket_class 11 sz len 0 = Some (class_of (unat len))"
proof -
  have "ucast (sz i) = (of_nat (osz i) :: u32)" if "i < 10" for i using assms(1) [of i] that by (simp add: km_size size_u32)
  then show ?thesis using class_of [OF n] by (auto simp: bucket_class_iff word_le_nat_alt word_less_nat_alt size_unat)
qed

section \<open>Rings of objects\<close>

lemma dlist_rotate: "dlist h a (xs @ [b]) \<longleftrightarrow> dlist h b (a # xs)"
  using links_append [of h "a # xs" b "[a]"] by (auto simp: dlist_def)

lemma cview_upd:
  "slot x \<Longrightarrow> slot p \<Longrightarrow> cview (w(p + 4 := v)) x = (if x = p then (cview w p)\<lparr>node_next := v\<rparr> else cview w x)"
  "slot x \<Longrightarrow> slot p \<Longrightarrow> cview (w(p := v)) x = (if x = p then (cview w p)\<lparr>node_prev := v\<rparr> else cview w x)"
  using slot_neq [of x p] slot_neq [of p x] by (auto simp: cview_def)

lemmas ring_defs = list_del_def list_del_between_def list_add_tail_def list_add_between_def set_next_def set_prev_def Let_def

lemma cview_ends:
  "cache_ok w ob (a # as) \<Longrightarrow> ob = a \<and> w (a + 4) = hd (as @ [a]) \<and> w a = last (a # as)"
  using dlist_nth_ends [of "cview w" a as] by (cases as) (auto simp: cache_ok_def cview_def)

lemma cache_okI:
  "dlist h a as \<Longrightarrow> (\<And>x. x \<in> set (a # as) \<Longrightarrow> cview w x = h x) \<Longrightarrow> cache_ok w a (a # as)"
  using dlist_cong [of a as "cview w" h] by (simp add: cache_ok_def)

lemma take_ring:
  assumes c: "cache_ok w ob (a # b # bs)" and s: "\<And>x. x \<in> set (a # b # bs) \<Longrightarrow> slot x" and l: "l = last (b # bs)"
  shows "cache_ok (w(l + 4 := b, b := l, a := 0, a + 4 := 0)) b (b # bs)"
proof -
  have d: "dlist (cview w) b (bs @ [a])" using c by (simp add: cache_ok_def dlist_rotate)
  have e: "node_prev (cview w a) = l" "node_next (cview w a) = b" using cview_ends [OF c] l by (simp_all add: cview_def)
  have "dlist (list_del a (cview w)) b bs" using dlist_del [of "cview w" b bs a "[]"] d by simp
  then show ?thesis
  proof (rule cache_okI)
    fix x assume x: "x \<in> set (b # bs)"
    have "l \<in> set (b # bs)" using l by simp
    then have sl: "slot l" "slot x" "slot a" "slot b" and n: "x \<noteq> a"
      using s x d by (auto simp: dlist_def)
    have "cview (w(l + 4 := b, b := l, a := 0, a + 4 := 0)) x = cview (w(l + 4 := b, b := l)) x"
      using n slot_neq [OF sl(2,3)] slot_neq [OF sl(3,2)] by (auto simp: cview_def)
    also have "\<dots> = list_del a (cview w) x"
      using sl e by (simp add: ring_defs cview_upd)
    finally show "cview (w(l + 4 := b, b := l, a := 0, a + 4 := 0)) x = list_del a (cview w) x" .
  qed
qed

lemma give_ring:
  assumes c: "cache_ok w ob (b # bs)" and s: "\<And>x. x \<in> set (a # b # bs) \<Longrightarrow> slot x" and n: "a \<notin> set (b # bs)" and l: "l = last (b # bs)"
  shows "cache_ok (w(a + 4 := b, a := l, l + 4 := a, b := a)) a (a # b # bs)"
proof -
  have d: "dlist (cview w) b bs" using c by (simp add: cache_ok_def)
  have e: "node_prev (cview w b) = l" using cview_ends [OF c] l by (simp add: cview_def)
  have "dlist (list_add_tail a b (cview w)) b (bs @ [a])" using dlist_add_tail [OF d] n by simp
  then have "dlist (list_add_tail a b (cview w)) a (b # bs)" by (simp add: dlist_rotate)
  then show ?thesis
  proof (rule cache_okI)
    fix x assume x: "x \<in> set (a # b # bs)"
    have "l \<in> set (b # bs)" using l by simp
    then have sl: "slot l" "slot x" "slot a" "slot b" and m: "l \<noteq> a" "b \<noteq> a" using s x n by auto
    then show "cview (w(a + 4 := b, a := l, l + 4 := a, b := a)) x = list_add_tail a b (cview w) x"
      using e by (auto simp: ring_defs cview_upd)
  qed
qed

lemma drop_ring:
  assumes c: "cache_ok w ob (b # bs @ [a])" and s: "\<And>x. x \<in> set (b # bs @ [a]) \<Longrightarrow> slot x" and l: "l = w a"
  shows "cache_ok (w(l + 4 := b, b := l)) b (b # bs)" "l \<in> set (b # bs)"
proof -
  have d: "dlist (cview w) b (bs @ [a])" using c by (simp add: cache_ok_def)
  then have r: "dlist (cview w) a (b # bs)" by (simp add: dlist_rotate)
  have e: "node_prev (cview w a) = l" "node_next (cview w a) = b" "l = last (b # bs)"
    using dlist_nth_ends [OF r] l by (simp_all add: cview_def)
  then show m: "l \<in> set (b # bs)" by simp
  have "dlist (list_del a (cview w)) b bs" using dlist_del [of "cview w" b bs a "[]"] d by simp
  then show "cache_ok (w(l + 4 := b, b := l)) b (b # bs)"
  proof (rule cache_okI)
    fix x assume x: "x \<in> set (b # bs)"
    have "slot l" "slot x" "slot b" using s x m by auto
    then show "cview (w(l + 4 := b, b := l)) x = list_del a (cview w) x"
      using e by (simp add: ring_defs cview_upd)
  qed
qed

section \<open>Other parts stay\<close>

lemma view_cached_simps [simp]:
  "class_pages (V\<lparr>vw_cached := c\<rparr>) = class_pages V" "all_frames (V\<lparr>vw_cached := c\<rparr>) = all_frames V" "all_descs (V\<lparr>vw_cached := c\<rparr>) = all_descs V"
  by (simp_all add: class_pages_def all_frames_def all_descs_def fun_eq_iff)

lemma class_pages_set: "p \<in> set (class_pages V i) \<longleftrightarrow> p \<in> set (vw_pages V) \<and> pg_class p = i"
  by (auto simp: class_pages_def)

lemma desc_mem: "p \<in> set (vw_pages V) \<Longrightarrow> pg_desc p \<in> set (all_descs V)" "d \<in> set (vw_descs V) \<Longrightarrow> d \<in> set (all_descs V)"
  by (simp_all add: all_descs_def)

text \<open>A write into objects of one class that are not free changes the cache of that class only.\<close>

definition busy :: "km_view \<Rightarrow> nat \<Rightarrow> u32 \<Rightarrow> bool" where
  "busy V i x \<longleftrightarrow> (\<exists>p \<in> set (vw_pages V). \<exists>a \<in> pg_objs p. pg_class p = i \<and> a \<notin> set (pg_free p) \<and> x \<in> span a (osz i))"

lemma busy_desc: "view_ok V \<Longrightarrow> busy V i x \<Longrightarrow> d \<in> set (all_descs V) \<Longrightarrow> x \<notin> span d 16"
  unfolding busy_def using desc_obj_spans by fast

lemma busy_obj:
  "view_ok V \<Longrightarrow> busy V i x \<Longrightarrow> p \<in> set (vw_pages V) \<Longrightarrow> a \<in> pg_objs p \<Longrightarrow> a \<in> set (pg_free p) \<or> pg_class p \<noteq> i \<Longrightarrow>
    x \<notin> span a (osz (pg_class p))"
proof
  assume V: "view_ok V" and b: "busy V i x" and p: "p \<in> set (vw_pages V)" "a \<in> pg_objs p" "a \<in> set (pg_free p) \<or> pg_class p \<noteq> i"
    "x \<in> span a (osz (pg_class p))"
  from b obtain q c where q: "q \<in> set (vw_pages V)" "c \<in> pg_objs q" "pg_class q = i" "c \<notin> set (pg_free q)" "x \<in> span c (osz i)"
    by (auto simp: busy_def)
  have "a = c" using obj_spans [OF V p(1,2) q(1,2)] p(4) q(3,5) by blast
  then have "p = q" using obj_page [OF V p(1,2) q(1)] q(2) by simp
  then show False using p(3) q(3,4) \<open>a = c\<close> by auto
qed

lemma mem_cached:
  assumes V: "view_ok V" and m: "mem_ok w fb ch ob V" and i: "i < 10"
    and ch: "\<And>x. w' x \<noteq> w x \<Longrightarrow> busy V i x" and c: "cache_ok w' ob' cs"
  shows "mem_ok w' fb ch (ob(i := ob')) (V\<lparr>vw_cached := (vw_cached V)(i := cs)\<rparr>)"
proof -
  have d: "w' x = w x" if "e \<in> set (all_descs V)" "x \<in> span e 16" for e x using ch busy_desc [OF V] that by metis
  have f: "w' a = w a" if p: "p \<in> set (vw_pages V)" "a \<in> set (pg_free p)" for p a
  proof -
    have "a \<in> pg_objs p" "pg_class p < 10" using viewD(7) [OF V p(1)] p(2) by auto
    then show ?thesis using ch busy_obj [OF V _ p(1)] p(2) head_span by metis
  qed
  have o: "w' a = w a \<and> w' (a + 4) = w (a + 4)" if j: "j < 10" "j \<noteq> i" "a \<in> set (vw_cached V j)" for j a
  proof -
    obtain p where p: "p \<in> set (vw_pages V)" "pg_class p = j" "a \<in> pg_objs p" using viewD(9) [OF V j(1,3)] by blast
    then show ?thesis using ch busy_obj [OF V _ p(1,3)] j(2) head_span [OF j(1)] by metis
  qed
  have "page_ok w' p" if p: "p \<in> set (vw_pages V)" for p
  proof -
    have "page_ok w p" using m p by (simp add: mem_ok_def)
    then show ?thesis by (rule page_cong) (use d [OF desc_mem(1) [OF p]] f [OF p] in blast)
  qed
  moreover have "path (\<lambda>d. w' (d + 4)) fb (vw_descs V) 0 = path (\<lambda>d. w (d + 4)) fb (vw_descs V) 0"
    by (rule path_cong) (use d [OF desc_mem(2)] in simp)
  moreover have "ring_ok w' (ch j) (map pg_desc (class_pages V j))" if "j < 10" for j
  proof -
    have "ring_ok w (ch j) (map pg_desc (class_pages V j))" using m that by (simp add: mem_ok_def)
    then show ?thesis by (rule ring_cong) (auto simp: class_pages_set intro: d [OF desc_mem(1)])
  qed
  moreover have "cache_ok w' ((ob(i := ob')) j) (((vw_cached V)(i := cs)) j)" if "j < 10" for j
  proof (cases "j = i")
    case False
    have "cache_ok w (ob j) (vw_cached V j)" using m that by (simp add: mem_ok_def)
    then have "cache_ok w' (ob j) (vw_cached V j)" by (rule cache_cong) (rule o [OF that False])
    then show ?thesis using False by simp
  qed (simp add: c)
  ultimately show ?thesis using m by (simp add: mem_ok_def)
qed

text \<open>What clients hold stays as it was.\<close>

definition keeps :: "(u32 \<times> nat) set \<Rightarrow> km_state \<Rightarrow> km_state \<Rightarrow> bool" where
  "keeps A s s' \<longleftrightarrow> (\<forall>a i x. (a, i) \<in> A \<longrightarrow> x \<in> span a (osz i) \<longrightarrow> words s' x = words s x)"

lemma keeps_trans: "keeps A s t \<Longrightarrow> keeps A t u \<Longrightarrow> keeps A s u"
  by (simp add: keeps_def)

lemma keeps_mono: "keeps B s t \<Longrightarrow> A \<subseteq> B \<Longrightarrow> keeps A s t"
  unfolding keeps_def by blast

text \<open>The frames of a view and the free frames are the territory of the allocator: it stays the same, what others hold besides stays theirs,
  and all writes are inside.\<close>

definition territory :: "mm_state \<Rightarrow> km_view \<Rightarrow> nat set" where
  "territory m V = set (all_frames V) \<union> free_frames m"

definition within :: "km_state \<Rightarrow> km_view \<Rightarrow> km_state \<Rightarrow> km_view \<Rightarrow> bool" where
  "within s V t W \<longleftrightarrow> territory (km_mm t) W = territory (km_mm s) V
     \<and> (\<forall>f. f \<notin> territory (km_mm s) V \<longrightarrow> holds_run (km_mm s) f 1 \<longrightarrow> holds_run (km_mm t) f 1)
     \<and> (\<forall>x. words t x \<noteq> words s x \<longrightarrow> (\<exists>f \<in> territory (km_mm s) V. in_page f x))"

lemma within_refl [simp]: "within s V s V"
  by (simp add: within_def)

lemma within_trans:
  assumes "within s V t W" "within t W u X"
  shows "within s V u X"
proof -
  have "\<exists>f \<in> territory (km_mm s) V. in_page f x" if "words u x \<noteq> words s x" for x
    using assms that unfolding within_def by (cases "words t x = words s x") metis+
  then show ?thesis using assms unfolding within_def by simp
qed

lemma within_cong:
  "within s V t W \<Longrightarrow> km_mm s' = km_mm s \<Longrightarrow> words s' = words s \<Longrightarrow> km_mm t' = km_mm t \<Longrightarrow> words t' = words t \<Longrightarrow> within s' V t' W"
  by (simp add: within_def)

lemma within_words:
  assumes "km_mm t = km_mm s" "set (all_frames W) = set (all_frames V)"
    and "\<And>x. words t x \<noteq> words s x \<Longrightarrow> \<exists>f \<in> set (all_frames V). in_page f x"
  shows "within s V t W"
  using assms by (auto simp: within_def territory_def)

lemma frames_cached [simp]: "all_frames (V\<lparr>vw_cached := c\<rparr>) = all_frames V"
  by (simp add: all_frames_def)

lemma obj_place: "view_ok V \<Longrightarrow> p \<in> set (vw_pages V) \<Longrightarrow> a \<in> pg_objs p \<Longrightarrow> x \<in> span a (osz (pg_class p)) \<Longrightarrow> \<exists>f \<in> set (all_frames V). in_page f x"
proof -
  assume V: "view_ok V" and p: "p \<in> set (vw_pages V)" "a \<in> pg_objs p" "x \<in> span a (osz (pg_class p))"
  have "pg_class p < 10" using viewD(7) [OF V p(1)] by simp
  from obj_span [OF this p(2,3)] show ?thesis using p(1) by (auto simp: all_frames_def)
qed

lemma slot_place: "view_ok V \<Longrightarrow> g \<in> set (vw_dframes V) \<Longrightarrow> d \<in> set (bk_slots g) \<Longrightarrow> x \<in> span d 16 \<Longrightarrow> \<exists>f \<in> set (all_frames V). in_page f x"
proof -
  assume V: "view_ok V" and g: "g \<in> set (vw_dframes V)" "d \<in> set (bk_slots g)" "x \<in> span d 16"
  have "g < 8192" using viewD(5) [OF V g(1)] by simp
  from bk_span [OF this g(2,3)] show ?thesis using g(1) by (auto simp: all_frames_def)
qed

lemma desc_place: "view_ok V \<Longrightarrow> d \<in> set (all_descs V) \<Longrightarrow> x \<in> span d 16 \<Longrightarrow> \<exists>f \<in> set (all_frames V). in_page f x"
  using viewD(6) slot_place by blast

lemma cached_busy: "view_ok V \<Longrightarrow> i < 10 \<Longrightarrow> a \<in> set (vw_cached V i) \<Longrightarrow> x \<in> {a, a + 4} \<Longrightarrow> busy V i x"
  using viewD(9) [of V i a] head_span [of i a] by (auto simp: busy_def)

lemma in_use_busy: "(a, i) \<in> in_use V \<Longrightarrow> x \<in> span a (osz i) \<Longrightarrow> busy V i x"
  by (auto simp: busy_def in_use_def)

lemma in_use_apart:
  assumes V: "view_ok V" and A: "A \<subseteq> in_use V" and a: "(a, i) \<in> A" "x \<in> span a (osz i)"
    and b: "q \<in> set (vw_pages V)" "b \<in> pg_objs q" "(b, pg_class q) \<notin> A"
  shows "x \<notin> span b (osz (pg_class q))"
proof
  assume x: "x \<in> span b (osz (pg_class q))"
  obtain p where p: "p \<in> set (vw_pages V)" "a \<in> pg_objs p" "pg_class p = i" using a(1) A by (auto simp: in_use_def)
  have "a = b" using obj_spans [OF V p(1,2) b(1,2)] x a(2) p(3) by auto
  then have "p = q" using obj_page [OF V p(1,2) b(1)] b(2) by simp
  then show False using a(1) b(3) p(3) \<open>a = b\<close> by simp
qed

lemma cached_object: "view_ok V \<Longrightarrow> i < 10 \<Longrightarrow> a \<in> set (vw_cached V i) \<Longrightarrow>
    \<exists>p \<in> set (vw_pages V). a \<in> pg_objs p \<and> pg_class p = i \<and> (a, i) \<notin> in_use V"
  using viewD(9) by (fastforce simp: in_use_def)

lemma keeps_cached:
  assumes V: "view_ok V" and i: "i < 10" and A: "A \<subseteq> in_use V"
    and w: "\<And>x. words s' x \<noteq> words s x \<Longrightarrow> \<exists>a. (a \<in> set (vw_cached V i) \<or> (a, i) \<in> in_use V - A) \<and> x \<in> {a, a + 4}"
  shows "keeps A s s'"
proof -
  have "words s' x = words s x" if b: "(b, j) \<in> A" "x \<in> span b (osz j)" for b j x
  proof (rule ccontr)
    assume "words s' x \<noteq> words s x"
    then obtain a where a: "a \<in> set (vw_cached V i) \<or> (a, i) \<in> in_use V - A" "x \<in> {a, a + 4}" using w by blast
    obtain p where p: "p \<in> set (vw_pages V)" "a \<in> pg_objs p" "pg_class p = i" "(a, i) \<notin> A"
    proof (cases "a \<in> set (vw_cached V i)")
      case True
      then show ?thesis using cached_object [OF V i True] A that by blast
    next
      case False
      then show ?thesis using a(1) that by (auto simp: in_use_def)
    qed
    have "x \<notin> span a (osz i)" using in_use_apart [OF V A b p(1,2)] p(3,4) by simp
    then show False using a(2) head_span [OF i, of a] by auto
  qed
  then show ?thesis by (simp add: keeps_def)
qed

lemma within_cached:
  assumes V: "view_ok V" and i: "i < 10" and m: "km_mm t = km_mm s"
    and w: "\<And>x. words t x \<noteq> words s x \<Longrightarrow> \<exists>a. (a \<in> set (vw_cached V i) \<or> (a, i) \<in> in_use V) \<and> x \<in> {a, a + 4}"
  shows "within s V t (V\<lparr>vw_cached := c\<rparr>)"
proof (rule within_words [OF m])
  fix x assume "words t x \<noteq> words s x"
  then obtain a where a: "a \<in> set (vw_cached V i) \<or> (a, i) \<in> in_use V" "x \<in> {a, a + 4}" using w by blast
  then obtain p where "p \<in> set (vw_pages V)" "a \<in> pg_objs p" "pg_class p = i" using cached_object [OF V i] by (auto simp: in_use_def)
  moreover have "x \<in> span a (osz i)" using a(2) head_span [OF i, of a] by auto
  ultimately show "\<exists>f \<in> set (all_frames V). in_page f x" using obj_place [OF V] by blast
qed simp

section \<open>The operations\<close>

lemma km_bodyD:
  assumes "km_body s V"
  shows "view_ok V" "dirs_ok s V" "frames_ok (km_mm s) V" "buddy_inv (km_mm s)"
    "mem_ok (words s) (free_bucket_desc s) (\<lambda>i. dir_chain (bucket_dir s i)) (\<lambda>i. ch_object (cache_dir s i)) V"
    "i < 10 \<Longrightarrow> cache_ok (words s) (ch_object (cache_dir s i)) (vw_cached V i)"
    "i < 10 \<Longrightarrow> ring_ok (words s) (dir_chain (bucket_dir s i)) (map pg_desc (class_pages V i))"
    "p \<in> set (vw_pages V) \<Longrightarrow> page_ok (words s) p"
    "i < 10 \<Longrightarrow> ch_list_len (cache_dir s i) = of_nat (length (vw_cached V i))"
    "i < 11 \<Longrightarrow> ch_obj_size (cache_dir s i) = km_sizes ! i" "i < 11 \<Longrightarrow> dir_obj_size (bucket_dir s i) = km_sizes ! i"
  using assms by (simp_all add: km_body_def dirs_ok_def frames_ok_def mem_ok_def)

lemma km_unlocked: "km_inv s V \<Longrightarrow> km_body s V" "km_inv s V \<Longrightarrow> i < 11 \<Longrightarrow> ch_lock (cache_dir s i) = 0"
  "km_inv s V \<Longrightarrow> i < 11 \<Longrightarrow> dir_lock (bucket_dir s i) = 0" "km_inv s V \<Longrightarrow> free_bucket_lock s = 0"
  by (simp_all add: km_inv_def unlocked_def)

text \<open>The state after a change of the objects in a cache.\<close>

definition cache_set :: "nat \<Rightarrow> (u32 \<Rightarrow> u32) \<Rightarrow> u32 \<Rightarrow> u16 \<Rightarrow> u8 \<Rightarrow> km_state \<Rightarrow> km_state" where
  "cache_set i w ob n l s = s\<lparr>words := w, cache_dir := (cache_dir s)(i := (cache_dir s i)\<lparr>ch_object := ob, ch_list_len := n, ch_lock := l\<rparr>)\<rparr>"

lemma cache_set_simps [simp]:
  "words (cache_set i w ob n l s) = w" "km_mm (cache_set i w ob n l s) = km_mm s" "bucket_dir (cache_set i w ob n l s) = bucket_dir s"
  "free_bucket_desc (cache_set i w ob n l s) = free_bucket_desc s" "free_bucket_lock (cache_set i w ob n l s) = free_bucket_lock s"
  by (simp_all add: cache_set_def)

lemma km_cached:
  assumes s: "km_body s V" and i: "i < 10" and c: "cache_ok w ob cs" and n: "distinct cs" "length cs < 65536"
    and o: "\<And>a. a \<in> set cs \<Longrightarrow> \<exists>p \<in> set (vw_pages V). pg_class p = i \<and> a \<in> pg_objs p \<and> a \<notin> set (pg_gone p)"
    and w: "\<And>x. w x \<noteq> words s x \<Longrightarrow> busy V i x"
  shows "km_body (cache_set i w ob (of_nat (length cs)) l s) (V\<lparr>vw_cached := (vw_cached V)(i := cs)\<rparr>)"
proof -
  let ?V = "V\<lparr>vw_cached := (vw_cached V)(i := cs)\<rparr>" and ?s = "cache_set i w ob (of_nat (length cs)) l s"
  note s' = km_bodyD [OF s]
  have "(\<lambda>j. ch_object (cache_dir ?s j)) = (\<lambda>j. ch_object (cache_dir s j))(i := ob)" by (auto simp: cache_set_def fun_eq_iff)
  then have "mem_ok (words ?s) (free_bucket_desc ?s) (\<lambda>i. dir_chain (bucket_dir ?s i)) (\<lambda>i. ch_object (cache_dir ?s i)) ?V"
    using mem_cached [OF s'(1,5) i w c] by simp
  moreover have "view_ok ?V" using s'(1) n o by (simp add: view_ok_def)
  moreover have "dirs_ok ?s ?V" using s'(2) i by (simp add: dirs_ok_def) (auto simp: cache_set_def)
  moreover have "frames_ok (km_mm ?s) ?V" using s'(3) by (simp add: frames_ok_def)
  ultimately show ?thesis by (simp add: km_body_def)
qed

lemma lock_cache_ok: "ch_lock (cache_dir s i) = 0 \<Longrightarrow> lock_cache i s = Some (upd_cache i (\<lambda>c. c\<lparr>ch_lock := 1\<rparr>) s)"
  by (simp add: lock_cache_def)

lemmas cache_eval = upd_cache_def unlock_cache_def obj_prev_def obj_next_def poke_def cache_set_def spin_unlock_def Let_def

text \<open>Taking the newest object of a cache.\<close>

lemma cache_take_ok:
  assumes s: "km_body s V" and i: "i < 10" and c: "vw_cached V i = a # cs"
  obtains s' where "cache_take i (upd_cache i (\<lambda>c. c\<lparr>ch_lock := 1\<rparr>) s) = (a, s')"
    "km_body s' (V\<lparr>vw_cached := (vw_cached V)(i := cs)\<rparr>)" "km_mm s' = km_mm s" "unlocked s \<longrightarrow> unlocked s'" "keeps (in_use V) s s'"
    "within s V s' (V\<lparr>vw_cached := (vw_cached V)(i := cs)\<rparr>)"
proof -
  note s' = km_bodyD [OF s]
  let ?s = "upd_cache i (\<lambda>c. c\<lparr>ch_lock := 1\<rparr>) s"
  have r: "cache_ok (words s) (ch_object (cache_dir s i)) (a # cs)" using s'(6) [OF i] c by simp
  note e = cview_ends [OF r]
  have v: "distinct (a # cs)" "length (a # cs) < 65536" using viewD(8) [OF s'(1) i] c by simp_all
  have n: "ch_list_len (cache_dir s i) - 1 = of_nat (length cs)" using s'(9) [OF i] c by simp
  have sl: "slot x" if "x \<in> set (a # cs)" for x using cached_slot [OF s'(1) i] c that by auto
  define w where "w = (if cs = [] then (words s)(a := 0, a + 4 := 0)
    else (words s)(last cs + 4 := hd cs, hd cs := last cs, a := 0, a + 4 := 0))"
  let ?ob = "if cs = [] then 0 else hd cs"
  have res: "cache_take i ?s = (a, cache_set i w ?ob (of_nat (length cs)) 0 s)"
  proof (cases cs)
    case Nil
    then show ?thesis using e n by (simp add: cache_take_def cache_eval w_def) (auto intro!: km_state.equality cache_desc.equality)
  next
    case (Cons b bs)
    have l: "last cs \<in> set cs" using Cons by simp
    have q: "slot a" "slot b" "slot (last cs)" "a \<noteq> last cs" "a \<noteq> b"
      using sl [of a] sl [of b] sl [of "last cs"] l v(1) Cons by auto
    have "unat (of_nat (length cs) :: u16) = length cs" using v(2) by (simp add: unat_of_nat)
    then have k: "(of_nat (length cs) :: u16) \<noteq> 0" using Cons by (metis length_0_conv list.distinct(1) unat_0)
    have z: "words s a = last cs" "words s (a + 4) = b" "hd cs = b" "cs \<noteq> []" using e Cons by auto
    show ?thesis using e n k z slot_neq [OF q(1,3)] slot_neq [OF q(2,1)] slot_neq [OF q(3,1)] slot_neq [OF q(1,2)] q(4,5)
      by (simp add: cache_take_def cache_eval w_def) (auto intro!: km_state.equality cache_desc.equality)
  qed
  have ring: "cache_ok w ?ob cs"
  proof (cases cs)
    case (Cons b bs)
    then show ?thesis using take_ring [of "words s" _ a b bs "last cs"] r sl by (simp add: w_def)
  qed (simp add: cache_ok_def)
  have ch: "w x \<noteq> words s x \<Longrightarrow> \<exists>a \<in> set (vw_cached V i). x \<in> {a, a + 4}" for x
    using c by (auto simp: w_def split: if_splits)
  show thesis
  proof (rule that [OF res])
    show "km_body (cache_set i w ?ob (of_nat (length cs)) 0 s) (V\<lparr>vw_cached := (vw_cached V)(i := cs)\<rparr>)"
    proof (rule km_cached [OF s i ring])
      show "\<exists>p \<in> set (vw_pages V). pg_class p = i \<and> x \<in> pg_objs p \<and> x \<notin> set (pg_gone p)" if "x \<in> set cs" for x
        using viewD(9) [OF s'(1) i, of x] that c by simp
      show "busy V i x" if "w x \<noteq> words s x" for x using ch [OF that] cached_busy [OF s'(1) i] by blast
    qed (use v in simp_all)
    show "keeps (in_use V) s (cache_set i w ?ob (of_nat (length cs)) 0 s)"
      by (rule keeps_cached [OF s'(1) i order_refl]) (use ch in auto)
    show "within s V (cache_set i w ?ob (of_nat (length cs)) 0 s) (V\<lparr>vw_cached := (vw_cached V)(i := cs)\<rparr>)"
      by (rule within_cached [OF s'(1) i]) (use ch in auto)
  qed (simp_all add: unlocked_def cache_set_def)
qed

text \<open>An object given back becomes the newest of its cache.\<close>

lemma cache_put_ok:
  assumes s: "km_body s V" and i: "i < 10" and a: "(a, i) \<in> in_use V" and n: "ch_list_len (cache_dir s i) \<noteq> - 1"
  obtains s' where "unlock_cache i (cache_put i a (upd_cache i (\<lambda>c. c\<lparr>ch_lock := 1\<rparr>) s)) = s'"
    "km_body s' (V\<lparr>vw_cached := (vw_cached V)(i := a # vw_cached V i)\<rparr>)" "km_mm s' = km_mm s" "unlocked s \<longrightarrow> unlocked s'" "keeps (in_use V - {(a, i)}) s s'"
    "within s V s' (V\<lparr>vw_cached := (vw_cached V)(i := a # vw_cached V i)\<rparr>)"
proof -
  note s' = km_bodyD [OF s]
  let ?s = "upd_cache i (\<lambda>c. c\<lparr>ch_lock := 1\<rparr>) s" and ?cs = "vw_cached V i"
  obtain p where p: "p \<in> set (vw_pages V)" "pg_class p = i" "a \<in> pg_objs p" "a \<notin> set (pg_gone p)" "a \<notin> set ?cs"
    using a by (auto simp: in_use_def)
  have v: "distinct ?cs" "length ?cs < 65536" using viewD(8) [OF s'(1) i] by simp_all
  have "length ?cs \<noteq> 65535" using n s'(9) [OF i] by auto
  then have lt: "length (a # ?cs) < 65536" using v(2) by simp
  have ln: "ch_list_len (cache_dir s i) + 1 = of_nat (length (a # ?cs))" using s'(9) [OF i] by simp
  have sl: "slot x \<and> x \<noteq> 0" if "x \<in> set (a # ?cs)" for x
    using cached_slot [OF s'(1) i] obj_slot_view [OF s'(1) p(1,3)] that by auto
  note r = s'(6) [OF i]
  define w where "w = (if ?cs = [] then (words s)(a + 4 := a, a := a)
    else (words s)(a + 4 := hd ?cs, a := last ?cs, last ?cs + 4 := a, hd ?cs := a))"
  have res: "unlock_cache i (cache_put i a ?s) = cache_set i w a (of_nat (length (a # ?cs))) 0 s"
  proof (cases ?cs)
    case Nil
    then show ?thesis using r ln by (simp add: cache_put_def cache_eval w_def cache_ok_def)
  next
    case (Cons b bs)
    have e: "ch_object (cache_dir s i) = b" "words s b = last ?cs" using cview_ends [of "words s" _ b bs] r Cons by simp_all
    have q: "slot a" "slot b" "a \<noteq> b" "b \<noteq> 0" "?cs \<noteq> []" "hd ?cs = b" using sl [of a] sl [of b] p(5) Cons by auto
    show ?thesis using e ln q slot_neq [OF q(1,2)] slot_neq [OF q(2,1)]
      by (simp add: cache_put_def cache_eval w_def) (auto intro!: km_state.equality cache_desc.equality)
  qed
  have ring: "cache_ok w a (a # ?cs)"
  proof (cases ?cs)
    case Nil
    then show ?thesis using sl [of a] by (simp add: cache_ok_def dlist_def cview_def w_def)
  next
    case (Cons b bs)
    then show ?thesis using give_ring [of "words s" _ b bs a "last ?cs"] r sl p(5) by (simp add: w_def)
  qed
  have ch: "w x \<noteq> words s x \<Longrightarrow> \<exists>c \<in> set (a # ?cs). x \<in> {c, c + 4}" for x
    using last_in_set [of ?cs] hd_in_set [of ?cs] by (auto simp: w_def split: if_splits)
  show thesis
  proof (rule that [OF res])
    show "km_body (cache_set i w a (of_nat (length (a # ?cs))) 0 s) (V\<lparr>vw_cached := (vw_cached V)(i := a # ?cs)\<rparr>)"
    proof (rule km_cached [OF s i ring])
      show "\<exists>p \<in> set (vw_pages V). pg_class p = i \<and> x \<in> pg_objs p \<and> x \<notin> set (pg_gone p)" if "x \<in> set (a # ?cs)" for x
        using viewD(9) [OF s'(1) i, of x] that p by auto
      show "busy V i x" if "w x \<noteq> words s x" for x
        using ch [OF that] cached_busy [OF s'(1) i] in_use_busy [OF a] head_span [OF i] by auto
    qed (use v p lt in simp_all)
    show "keeps (in_use V - {(a, i)}) s (cache_set i w a (of_nat (length (a # ?cs))) 0 s)"
      by (rule keeps_cached [OF s'(1) i]) (use ch a in auto)
    show "within s V (cache_set i w a (of_nat (length (a # ?cs))) 0 s) (V\<lparr>vw_cached := (vw_cached V)(i := a # ?cs)\<rparr>)"
      by (rule within_cached [OF s'(1) i]) (use ch a in auto)
  qed (simp_all add: unlocked_def cache_set_def)
qed

end
