(* ===== verification/KmallocPage.thy ===== *)
theory KmallocPage
  imports KmallocCache
begin

text \<open>
  A page of objects and its descriptor: taking a free object, losing one, and the release of an object with \<open>kfree\<close>.
\<close>

section \<open>The counters of a descriptor\<close>

lemma counts_halves [simp]: "ucast (drop_bit 16 (counts sz rc)) = sz" "ucast (counts sz rc) = rc"
  by (rule bit_word_eqI; simp add: counts_def bit_ucast_iff bit_drop_bit_eq bit_or_iff bit_push_bit_iff; auto dest: bit_imp_le_length)+

lemma set_bk_counts_counts: "set_bk_counts d rc sz s = poke (d + 12) (counts sz rc) s"
  by (simp add: set_bk_counts_def counts_def)

lemma page_fields:
  "page_ok (words s) p \<Longrightarrow> bk_page s (pg_desc p) = page_addr (pg_frame p) \<and> path (words s) (bk_free_ptr s (pg_desc p)) (pg_free p) 0
    \<and> bk_obj_size s (pg_desc p) = of_nat (osz (pg_class p)) \<and> bk_ref_cnt s (pg_desc p) = of_nat (onum (pg_class p) - length (pg_gone p))"
  by (simp add: page_ok_def bk_page_def bk_free_ptr_def bk_obj_size_def bk_ref_cnt_def)

section \<open>Release\<close>

lemma obj_frame: "view_ok V \<Longrightarrow> p \<in> set (vw_pages V) \<Longrightarrow> a \<in> pg_objs p \<Longrightarrow> to_fr_idx (to_paddr a) = of_nat (pg_frame p)"
proof -
  assume V: "view_ok V" and p: "p \<in> set (vw_pages V)" "a \<in> pg_objs p"
  have b: "pg_class p < 10" "pg_frame p < 8192" using viewD(4,7) [OF V p(1)] by auto
  have "in_page (pg_frame p) (a + of_nat 0)" using obj_in_page [OF b(1) p(2), of 0] osz_le [OF b(1)] by simp
  from in_page_frame [OF this b(2)] show ?thesis by simp
qed

text \<open>The descriptor the frame table has for an object.\<close>

lemma obj_desc:
  assumes s: "km_body s V" and p: "p \<in> set (vw_pages V)" "a \<in> pg_objs p"
  obtains fr where "get_frame (to_fr_idx (to_paddr a)) (km_mm s) = Some fr" "bkt_desc fr = pg_desc p"
proof -
  note s' = km_bodyD [OF s]
  have f: "pg_frame p < 8192" using viewD(4) [OF s'(1) p(1)] by simp
  show thesis
    by (rule that [of "frame_tab (km_mm s) (of_nat (pg_frame p))"])
      (use s'(3) p in \<open>simp_all add: obj_frame [OF s'(1) p] get_frame_def frame_fits [OF f] frames_ok_def\<close>)
qed

lemma size_not_last: "i < 10 \<Longrightarrow> (of_nat (osz i) :: u16) \<noteq> - 1"
  by (drule class_cases) (auto simp: osz_def)

lemma kfree_steps:
  assumes s: "km_inv s V" and a: "(a, i) \<in> in_use V" and n: "ch_list_len (cache_dir s i) \<noteq> - 1"
  obtains s' where "kfree a s = Some s'" "km_inv s' (V\<lparr>vw_cached := (vw_cached V)(i := a # vw_cached V i)\<rparr>)"
    "km_mm s' = km_mm s" "keeps (in_use V - {(a, i)}) s s'" "within s V s' (V\<lparr>vw_cached := (vw_cached V)(i := a # vw_cached V i)\<rparr>)"
proof -
  note b = km_unlocked(1) [OF s]
  note s' = km_bodyD [OF b]
  obtain p where p: "p \<in> set (vw_pages V)" "pg_class p = i" "a \<in> pg_objs p" and i: "i < 10"
    using a by (auto simp: in_use_def)
  obtain fr where fr: "get_frame (to_fr_idx (to_paddr a)) (km_mm s) = Some fr" "bkt_desc fr = pg_desc p" using obj_desc [OF b p(1,3)] .
  have z: "bk_obj_size s (bkt_desc fr) = of_nat (osz i)" using page_fields [OF s'(8) [OF p(1)]] fr(2) p(2) by simp
  have "bucket_class 11 (\<lambda>i. ch_obj_size (cache_dir s i)) (of_nat (osz i)) 0 = Some i"
    using bucket_class_of [of "\<lambda>i. ch_obj_size (cache_dir s i)" "of_nat (osz i)"] s'(10) size_unat [OF i] osz_le [OF i] by simp
  then have c: "bucket_class 11 (\<lambda>i. ch_obj_size (cache_dir s i)) (ucast (bk_obj_size s (bkt_desc fr))) 0 = Some i"
    using z size_u32 [OF i] by simp
  have l: "ch_obj_size (cache_dir s i) \<noteq> - 1" "lock_cache i s = Some (upd_cache i (\<lambda>c. c\<lparr>ch_lock := 1\<rparr>) s)"
    using km_unlocked(2) [OF s, of i] s'(10) [of i] i size_not_last [OF i] by (simp_all add: km_size lock_cache_ok)
  obtain t where t: "unlock_cache i (cache_put i a (upd_cache i (\<lambda>c. c\<lparr>ch_lock := 1\<rparr>) s)) = t"
    "km_body t (V\<lparr>vw_cached := (vw_cached V)(i := a # vw_cached V i)\<rparr>)" "km_mm t = km_mm s" "unlocked s \<longrightarrow> unlocked t" "keeps (in_use V - {(a, i)}) s t"
    "within s V t (V\<lparr>vw_cached := (vw_cached V)(i := a # vw_cached V i)\<rparr>)"
    using cache_put_ok [OF b i a n] .
  have "kfree a s = Some t" using fr(1) c l t(1) by (simp add: kfree_def)
  with t s show thesis using that by (simp add: km_inv_def)
qed

section \<open>A step on one page\<close>

definition page_set :: "km_page \<Rightarrow> km_page \<Rightarrow> km_view \<Rightarrow> km_view" where
  "page_set p q V = V\<lparr>vw_pages := map (\<lambda>r. if r = p then q else r) (vw_pages V)\<rparr>"

abbreviation same_place :: "km_page \<Rightarrow> km_page \<Rightarrow> bool" where
  "same_place p q \<equiv> pg_class q = pg_class p \<and> pg_desc q = pg_desc p \<and> pg_frame q = pg_frame p"

lemma page_set_simps:
  assumes "same_place p q"
  shows "all_frames (page_set p q V) = all_frames V" "all_descs (page_set p q V) = all_descs V"
    "map pg_desc (class_pages (page_set p q V) i) = map pg_desc (class_pages V i)"
    "length (class_pages (page_set p q V) i) = length (class_pages V i)"
    "vw_cached (page_set p q V) = vw_cached V" "vw_descs (page_set p q V) = vw_descs V" "vw_dframes (page_set p q V) = vw_dframes V"
proof -
  have "map h (map (\<lambda>r. if r = p then q else r) ps) = map h ps" if "h q = h p" for h :: "km_page \<Rightarrow> 'a" and ps
    using that by (induction ps) simp_all
  moreover have "map pg_desc (filter (\<lambda>r. pg_class r = i) (map (\<lambda>r. if r = p then q else r) ps)) = map pg_desc (filter (\<lambda>r. pg_class r = i) ps)"
    "length (filter (\<lambda>r. pg_class r = i) (map (\<lambda>r. if r = p then q else r) ps)) = length (filter (\<lambda>r. pg_class r = i) ps)" for ps
    using assms by (induction ps) auto
  ultimately show "all_frames (page_set p q V) = all_frames V" "all_descs (page_set p q V) = all_descs V"
    "map pg_desc (class_pages (page_set p q V) i) = map pg_desc (class_pages V i)"
    "length (class_pages (page_set p q V) i) = length (class_pages V i)"
    "vw_cached (page_set p q V) = vw_cached V" "vw_descs (page_set p q V) = vw_descs V" "vw_dframes (page_set p q V) = vw_dframes V"
    using assms by (simp_all add: all_frames_def all_descs_def page_set_def class_pages_def)
qed

lemma page_set_pages: "p \<in> set (vw_pages V) \<Longrightarrow> set (vw_pages (page_set p q V)) = insert q (set (vw_pages V) - {p})"
  by (auto simp: page_set_def)

text \<open>A step on one page writes into its descriptor and one object.\<close>

lemma within_page:
  assumes V: "view_ok V" and p: "p \<in> set (vw_pages V)" "a \<in> pg_objs p" and q: "same_place p q" and m: "km_mm t = km_mm s"
    and w: "\<And>x. x \<noteq> pg_desc p + 8 \<Longrightarrow> x \<noteq> pg_desc p + 12 \<Longrightarrow> x \<noteq> a \<Longrightarrow> words t x = words s x"
  shows "within s V t (page_set p q V)"
proof (rule within_words [OF m])
  fix x assume "words t x \<noteq> words s x"
  then have "x = pg_desc p + 8 \<or> x = pg_desc p + 12 \<or> x = a" using w by blast
  then have "x \<in> span (pg_desc p) 16 \<or> x \<in> span a (osz (pg_class p))" using head_span viewD(7) [OF V p(1)] by auto
  then show "\<exists>f \<in> set (all_frames V). in_page f x" using desc_place [OF V desc_mem(1) [OF p(1)]] obj_place [OF V p] by blast
qed (simp add: page_set_simps [OF q])

text \<open>A write into the counters of a descriptor and into objects of its page that are in no cache leaves everything else.\<close>

lemma mem_page:
  assumes V: "view_ok V" and m: "mem_ok w fb ch ob V" and p: "p \<in> set (vw_pages V)" and q: "same_place p q" "page_ok w' q"
    and w: "\<And>x. w' x \<noteq> w x \<Longrightarrow> x = pg_desc p + 8 \<or> x = pg_desc p + 12 \<or> x \<in> A" and A: "A \<subseteq> pg_objs p"
    and nc: "A \<inter> set (vw_cached V (pg_class p)) = {}"
  shows "mem_ok w' fb ch ob (page_set p q V)"
proof -
  have dp: "pg_desc p \<in> set (all_descs V)" by (rule desc_mem(1) [OF p])
  have c10: "pg_class p < 10" using viewD(7) [OF V p] by simp
  have ch_span: "x \<in> span (pg_desc p) 16 \<or> (\<exists>a \<in> A. x \<in> span a (osz (pg_class p)))" if "w' x \<noteq> w x" for x
    using w [OF that] head_span [OF c10] by auto
  have d: "w' x = w x" if e: "e \<in> set (all_descs V)" "e \<noteq> pg_desc p" "x \<in> span e 16" for e x
    using ch_span [of x] desc_spans [OF V e(1) dp e(2)] desc_obj_spans [OF V e(1) p] A e(3) by blast
  have d4: "w' (e + 4) = w (e + 4)" if e: "e \<in> set (all_descs V)" for e
  proof (cases "e = pg_desc p")
    case True
    have "e + 4 \<in> span e 16" by simp
    then have "e + 4 \<noteq> a" if "a \<in> A" for a
      using desc_obj_spans [OF V dp p, of a] that A head_span [OF c10, of a] True by blast
    then show ?thesis using w [of "e + 4"] True by auto
  next
    case False
    then show ?thesis using d [OF e] by simp
  qed
  have o: "w' x = w x" if r: "r \<in> set (vw_pages V)" "b \<in> pg_objs r" "b \<notin> A" "x \<in> span b (osz (pg_class r))" for r b x
    using ch_span [of x] desc_obj_spans [OF V dp r(1,2)] obj_spans [OF V r(1,2) p] A r(3,4) by blast
  have "page_ok w' r" if r: "r \<in> set (vw_pages V)" "r \<noteq> p" for r
  proof -
    have f: "w' b = w b" if "b \<in> set (pg_free r)" for b
    proof (rule o [OF r(1)])
      show b: "b \<in> pg_objs r" using viewD(7) [OF V r(1)] that by auto
      show "b \<notin> A" using obj_page [OF V r(1) b p] A r(2) by blast
      show "b \<in> span b (osz (pg_class r))" using viewD(7) [OF V r(1)] head_span by blast
    qed
    have n: "pg_desc r \<noteq> pg_desc p" using viewD(2) [OF V] r p by (auto simp: all_descs_def distinct_map inj_on_def)
    have "w' x = w x" if "x \<in> span (pg_desc r) 16 \<union> set (pg_free r)" for x
      using that d [OF desc_mem(1) [OF r(1)] n] f by blast
    moreover have "page_ok w r" using m r by (simp add: mem_ok_def)
    ultimately show ?thesis using page_cong by blast
  qed
  moreover have "path (\<lambda>d. w' (d + 4)) fb (vw_descs V) 0 = path (\<lambda>d. w (d + 4)) fb (vw_descs V) 0"
    by (rule path_cong) (use d4 [OF desc_mem(2)] in simp)
  moreover have "ring_ok w' (ch j) (map pg_desc (class_pages V j))" if "j < 10" for j
  proof -
    have "ring_ok w (ch j) (map pg_desc (class_pages V j))" using m that by (simp add: mem_ok_def)
    then show ?thesis by (rule ring_cong) (auto simp: class_pages_set intro: d4 [OF desc_mem(1)])
  qed
  moreover have "cache_ok w' (ob j) (vw_cached V j)" if j: "j < 10" for j
  proof -
    have e: "w' b = w b \<and> w' (b + 4) = w (b + 4)" if b: "b \<in> set (vw_cached V j)" for b
    proof -
      obtain r where r: "r \<in> set (vw_pages V)" "pg_class r = j" "b \<in> pg_objs r" using viewD(9) [OF V j b] by blast
      have "b \<notin> A" using obj_page [OF V r(1,3) p] A nc b r(2) by blast
      then show ?thesis using o [OF r(1,3)] head_span [OF j, of b] r(2) by simp
    qed
    have "cache_ok w (ob j) (vw_cached V j)" using m j by (simp add: mem_ok_def)
    then show ?thesis by (rule cache_cong) (rule e)
  qed
  ultimately show ?thesis using m q(2)
    by (simp add: mem_ok_def page_set_simps [OF q(1)] page_set_pages [OF p])
qed

lemma in_use_set:
  assumes V: "view_ok V" and p: "p \<in> set (vw_pages V)" and q: "same_place p q"
    and ab: "(A = {a} \<and> B = {} \<or> A = {} \<and> B = {a})" "a \<in> pg_objs p" "a \<notin> set (vw_cached V (pg_class p))"
    and g: "set (pg_gone q) \<union> A = set (pg_gone p) \<union> B" "set (pg_gone q) \<inter> A = {}" "set (pg_gone p) \<inter> B = {}"
  shows "in_use (page_set p q V) = (in_use V \<union> (\<lambda>a. (a, pg_class p)) ` A) - (\<lambda>a. (a, pg_class p)) ` B"
proof -
  let ?P = "\<lambda>r b j. pg_class r = j \<and> b \<in> pg_objs r \<and> b \<notin> set (pg_gone r)"
  have c10: "pg_class p < 10" using viewD(7) [OF V p] by simp
  have one: "(\<exists>r \<in> set (vw_pages (page_set p q V)). ?P r b j) \<longleftrightarrow>
      ((\<exists>r \<in> set (vw_pages V). ?P r b j) \<or> b \<in> A \<and> j = pg_class p) \<and> \<not> (b \<in> B \<and> j = pg_class p)" for b j
  proof (cases "b \<in> pg_objs p")
    case True
    have u: "(\<exists>r \<in> set (vw_pages V). ?P r b j) \<longleftrightarrow> ?P p b j" using obj_page [OF V p True] p by blast
    have "(\<exists>r \<in> set (vw_pages (page_set p q V)). ?P r b j) \<longleftrightarrow> ?P q b j"
      using obj_page [OF V p True] True q unfolding page_set_pages [OF p] by auto
    moreover have "b \<notin> set (pg_gone q) \<longleftrightarrow> (b \<notin> set (pg_gone p) \<or> b \<in> A) \<and> b \<notin> B" using g ab(1) by blast
    ultimately show ?thesis unfolding u using q True by auto
  next
    case False
    then have "(\<exists>r \<in> set (vw_pages (page_set p q V)). ?P r b j) \<longleftrightarrow> (\<exists>r \<in> set (vw_pages V). ?P r b j)"
      unfolding page_set_pages [OF p] using q by auto
    moreover have "b \<notin> A \<and> b \<notin> B" using False ab by auto
    ultimately show ?thesis by simp
  qed
  have "in_use (page_set p q V) = {(b, j). j < 10 \<and> b \<notin> set (vw_cached V j)
     \<and> ((\<exists>r \<in> set (vw_pages V). ?P r b j) \<or> b \<in> A \<and> j = pg_class p) \<and> \<not> (b \<in> B \<and> j = pg_class p)}"
    unfolding in_use_def one by (simp add: page_set_simps [OF q])
  also have "\<dots> = (in_use V \<union> (\<lambda>a. (a, pg_class p)) ` A) - (\<lambda>a. (a, pg_class p)) ` B"
    unfolding in_use_def using ab c10 by auto
  finally show ?thesis .
qed

lemma view_page:
  assumes V: "view_ok V" and p: "p \<in> set (vw_pages V)" and q: "same_place p q"
    and g: "distinct (pg_gone q)" "set (pg_gone q) \<subseteq> pg_objs p" "set (pg_gone q) \<inter> set (vw_cached V (pg_class p)) = {}"
  shows "view_ok (page_set p q V)"
proof -
  have "\<exists>r \<in> set (vw_pages (page_set p q V)). pg_class r = i \<and> a \<in> pg_objs r \<and> a \<notin> set (pg_gone r)"
    if i: "i < 10" "a \<in> set (vw_cached V i)" for i a
  proof -
    obtain r where r: "r \<in> set (vw_pages V)" "pg_class r = i" "a \<in> pg_objs r" "a \<notin> set (pg_gone r)" using viewD(9) [OF V i] by blast
    then show ?thesis using g(3) i(2) q unfolding page_set_pages [OF p] by (cases "r = p") auto
  qed
  moreover have "pg_class r < 10 \<and> distinct (pg_gone r) \<and> set (pg_gone r) \<subseteq> pg_objs r" if "r \<in> set (vw_pages (page_set p q V))" for r
    using that viewD(7) [OF V] viewD(7) [OF V p] g(1,2) q unfolding page_set_pages [OF p] by auto
  ultimately show ?thesis using V q by (simp add: view_ok_def page_set_simps [OF q])
qed

lemma km_page_step:
  assumes s: "km_body s V" and p: "p \<in> set (vw_pages V)" and q: "same_place p q" "page_ok (words s') q"
    and g: "distinct (pg_gone q)" "set (pg_gone q) \<subseteq> pg_objs p" "set (pg_gone q) \<inter> set (vw_cached V (pg_class p)) = {}"
    and w: "\<And>x. words s' x \<noteq> words s x \<Longrightarrow> x = pg_desc p + 8 \<or> x = pg_desc p + 12 \<or> x \<in> A" and A: "A \<subseteq> pg_objs p"
    and nc: "A \<inter> set (vw_cached V (pg_class p)) = {}"
    and same: "km_mm s' = km_mm s" "bucket_dir s' = bucket_dir s" "cache_dir s' = cache_dir s"
      "free_bucket_desc s' = free_bucket_desc s"
  shows "km_body s' (page_set p q V)"
proof -
  note s' = km_bodyD [OF s]
  have "frames_ok (km_mm s) (page_set p q V)"
    using s'(3) p q unfolding frames_ok_def page_set_simps [OF q(1)] page_set_pages [OF p] by auto
  then show ?thesis using s'(2) mem_page [OF s'(1,5) p q w A nc] view_page [OF s'(1) p q(1) g]
    by (simp add: km_body_def dirs_ok_def page_set_simps [OF q(1)] same)
qed

text \<open>How many objects of a page are gone.\<close>

lemma gone_le: "view_ok V \<Longrightarrow> p \<in> set (vw_pages V) \<Longrightarrow> length (pg_gone p) \<le> onum (pg_class p)"
proof -
  assume V: "view_ok V" and p: "p \<in> set (vw_pages V)"
  have "length (pg_gone p) = card (set (pg_gone p))" using viewD(7) [OF V p] by (simp add: distinct_card del: set_append)
  also have "\<dots> \<le> card (pg_objs p)" using viewD(7) [OF V p] by (intro card_mono) (simp_all add: objs_def)
  also have "\<dots> \<le> onum (pg_class p)" using card_length [of "objs (pg_class p) (pg_frame p)"] by (simp add: objs_def)
  finally show ?thesis .
qed

lemma free_not_cached: "view_ok V \<Longrightarrow> p \<in> set (vw_pages V) \<Longrightarrow> i < 10 \<Longrightarrow> a \<in> set (pg_gone p) \<Longrightarrow> a \<notin> set (vw_cached V i)"
proof
  assume V: "view_ok V" and p: "p \<in> set (vw_pages V)" "i < 10" "a \<in> set (pg_gone p)" "a \<in> set (vw_cached V i)"
  obtain r where r: "r \<in> set (vw_pages V)" "a \<in> pg_objs r" "a \<notin> set (pg_gone r)" using viewD(9) [OF V p(2,4)] by blast
  have "a \<in> pg_objs p" using viewD(7) [OF V p(1)] p(3) by blast
  then show False using obj_page [OF V r(1,2) p(1)] r(3) p(3) by simp
qed

lemma obj_not_desc: "view_ok V \<Longrightarrow> p \<in> set (vw_pages V) \<Longrightarrow> a \<in> pg_objs p \<Longrightarrow> d \<in> set (all_descs V) \<Longrightarrow>
    a \<noteq> d \<and> a \<noteq> d + 4 \<and> a \<noteq> d + 8 \<and> a \<noteq> d + 12"
proof -
  assume V: "view_ok V" and p: "p \<in> set (vw_pages V)" "a \<in> pg_objs p" and d: "d \<in> set (all_descs V)"
  have "a \<in> span a (osz (pg_class p))" using head_span viewD(7) [OF V p(1)] by blast
  then have n: "a \<notin> span d 16" using desc_obj_spans [OF V d p] by blast
  show ?thesis using n span_consts [of 16 d] by auto
qed

text \<open>Taking the first free object of a page.\<close>

definition page_take :: "u32 \<Rightarrow> km_state \<Rightarrow> u32 \<times> km_state" where
  "page_take d s = (let ret = bk_free_ptr s d; s = poke (d + 8) (words s ret) s
     in (ret, poke ret 0 (set_bk_ref_cnt d (bk_ref_cnt s d + 1) s)))"

lemma page_take_ok:
  assumes s: "km_body s V" and p: "p \<in> set (vw_pages V)" "pg_free p = a # fs"
  obtains t where "page_take (pg_desc p) s = (a, t)" "km_body t (page_set p (p\<lparr>pg_free := fs\<rparr>) V)"
    "in_use (page_set p (p\<lparr>pg_free := fs\<rparr>) V) = insert (a, pg_class p) (in_use V)" "(a, pg_class p) \<notin> in_use V"
    "keeps (in_use V) s t" "km_mm t = km_mm s" "bucket_dir t = bucket_dir s" "cache_dir t = cache_dir s" "free_bucket_lock t = free_bucket_lock s"
    "within s V t (page_set p (p\<lparr>pg_free := fs\<rparr>) V)"
proof -
  note s' = km_bodyD [OF s]
  let ?d = "pg_desc p" and ?q = "p\<lparr>pg_free := fs\<rparr>" and ?i = "pg_class p"
  let ?rc = "of_nat (onum ?i - length (pg_gone p)) :: u16"
  define w where "w = (words s)(?d + 8 := words s a, ?d + 12 := counts (of_nat (osz ?i)) (?rc + 1), a := 0)"
  note pv = viewD(7) [OF s'(1) p(1)]
  have i: "?i < 10" using pv by simp
  have a: "a \<in> pg_objs p" "a \<notin> set fs" using pv p(2) by auto
  note ad = obj_not_desc [OF s'(1) p(1) a(1) desc_mem(1) [OF p(1)]]
  note f = page_fields [OF s'(8) [OF p(1)]]
  have fp: "bk_free_ptr s ?d = a" using f p(2) by simp
  have rc: "bk_ref_cnt (poke (?d + 8) x s) ?d = ?rc" "bk_obj_size (poke (?d + 8) x s) ?d = of_nat (osz ?i)" for x
    using f by (simp_all add: bk_ref_cnt_def bk_obj_size_def poke_def)
  have res: "page_take ?d s = (a, s\<lparr>words := w\<rparr>)"
    by (simp add: page_take_def Let_def fp set_bk_ref_cnt_def set_bk_counts_counts rc) (simp add: poke_def w_def)
  have w_else: "w x = words s x" if "x \<noteq> ?d + 8" "x \<noteq> ?d + 12" "x \<noteq> a" for x using that by (simp add: w_def)
  have ok: "page_ok w ?q"
  proof -
    have "path (words s) (words s a) fs 0" using f p(2) fp by simp
    moreover have "w x = words s x" if x: "x \<in> set fs" for x
    proof (rule w_else)
      have "x \<in> pg_objs p" using pv p(2) x by auto
      then show "x \<noteq> ?d + 8" "x \<noteq> ?d + 12" using obj_not_desc [OF s'(1) p(1) _ desc_mem(1) [OF p(1)]] by auto
      show "x \<noteq> a" using x a(2) by auto
    qed
    then have "path w (words s a) fs 0 = path (words s) (words s a) fs 0" by (rule path_cong)
    moreover have "w ?d = words s ?d" "w (?d + 8) = words s a" using ad by (auto simp: w_def)
    moreover have "w (?d + 12) = counts (of_nat (osz ?i)) (of_nat (onum ?i - length (pg_gone ?q)))"
    proof -
      have "onum ?i - length (pg_gone ?q) = onum ?i - length (pg_gone p) + 1" using gone_le [OF s'(1) p(1)] p(2) by simp
      then show ?thesis using ad by (auto simp: w_def add.commute)
    qed
    ultimately show ?thesis using s'(8) [OF p(1)] by (simp add: page_ok_def)
  qed
  have nc: "a \<notin> set (vw_cached V ?i)" using free_not_cached [OF s'(1) p(1) i] p(2) by simp
  have gone: "set (pg_gone ?q) \<inter> set (vw_cached V ?i) = {}" using free_not_cached [OF s'(1) p(1) i] p(2) by auto
  have use: "in_use (page_set p ?q V) = insert (a, ?i) (in_use V)"
    using in_use_set [OF s'(1) p(1), where q = ?q and A = "{a}" and B = "{}" and a = a] a nc pv p(2) by auto
  have fresh: "(a, ?i) \<notin> in_use V"
  proof
    assume "(a, ?i) \<in> in_use V"
    then obtain r where "r \<in> set (vw_pages V)" "a \<in> pg_objs r" "a \<notin> set (pg_gone r)" by (auto simp: in_use_def)
    moreover from this have "r = p" using obj_page [OF s'(1) _ _ p(1) a(1)] by blast
    ultimately show False using p(2) by simp
  qed
  have "w x = words s x" if x: "(b, j) \<in> in_use V" "x \<in> span b (osz j)" for b j x
  proof (rule w_else)
    show "x \<noteq> ?d + 8" "x \<noteq> ?d + 12"
      using busy_desc [OF s'(1) in_use_busy [OF x] desc_mem(1) [OF p(1)]] span_consts(3,4) [of 16 ?d] by auto
    show "x \<noteq> a" using in_use_apart [OF s'(1) order_refl x p(1) a(1) fresh] head_span [OF i, of a] by auto
  qed
  then have keep: "keeps (in_use V) s (s\<lparr>words := w\<rparr>)" by (simp add: keeps_def)
  have "km_body (s\<lparr>words := w\<rparr>) (page_set p ?q V)"
    by (rule km_page_step [OF s p(1), where A = "{a}"]) (use ok pv p(2) gone a(1) nc w_else in auto)
  moreover have "within s V (s\<lparr>words := w\<rparr>) (page_set p ?q V)" by (rule within_page [OF s'(1) p(1) a(1)]) (use w_else in simp_all)
  ultimately show thesis using res use fresh keep that by simp
qed

section \<open>The search of the ring\<close>

lemma bucket_find_path:
  assumes "path (\<lambda>d. words s (d + 4)) d (d # ds) c" "c \<notin> set ds"
  obtains e where "bucket_find c s d = Some e" "e \<in> set (d # ds)" "bk_free_ptr s e \<noteq> 0 \<or> (\<forall>x \<in> set (d # ds). bk_free_ptr s x = 0)"
  using assms
proof (induction ds arbitrary: d thesis)
  case Nil
  then show ?case using bucket_find.simps [of c s d] by (simp add: bk_next_def)
next
  case (Cons x ds)
  have n: "bk_next s d = x" "x \<noteq> c" using Cons.prems(2,3) by (auto simp: bk_next_def)
  show ?case
  proof (cases "bk_free_ptr s d = 0")
    case True
    obtain e where "bucket_find c s x = Some e" "e \<in> set (x # ds)" "bk_free_ptr s e \<noteq> 0 \<or> (\<forall>y \<in> set (x # ds). bk_free_ptr s y = 0)"
      using Cons.IH [of x] Cons.prems(2,3) by auto
    then show ?thesis using Cons.prems(1) [of e] n True bucket_find.simps [of c s d] by auto
  next
    case False
    then show ?thesis using Cons.prems(1) [of d] bucket_find.simps [of c s d] by auto
  qed
qed

lemma free_ptr_iff: "km_body s V \<Longrightarrow> p \<in> set (vw_pages V) \<Longrightarrow> bk_free_ptr s (pg_desc p) = 0 \<longleftrightarrow> pg_free p = []"
proof -
  assume s: "km_body s V" and p: "p \<in> set (vw_pages V)"
  note s' = km_bodyD [OF s]
  have "path (words s) (bk_free_ptr s (pg_desc p)) (pg_free p) 0" using page_fields [OF s'(8) [OF p]] by simp
  moreover have "a \<noteq> 0" if "a \<in> set (pg_free p)" for a using viewD(7) [OF s'(1) p] obj_slot_view [OF s'(1) p] that by auto
  ultimately show ?thesis by (cases "pg_free p") auto
qed

text \<open>The search finds a page of the class with a free object, if there is one.\<close>

lemma bucket_find_ok:
  assumes s: "km_body s V" and i: "i < 10"
  obtains d where "(if dir_chain (bucket_dir s i) \<noteq> 0 then bucket_find (dir_chain (bucket_dir s i)) s (dir_chain (bucket_dir s i)) else Some 0) = Some d"
    "(d = 0 \<or> bk_free_ptr s d = 0) \<and> (\<forall>p \<in> set (class_pages V i). pg_free p = [])
      \<or> d \<noteq> 0 \<and> bk_free_ptr s d \<noteq> 0 \<and> (\<exists>p \<in> set (class_pages V i). pg_desc p = d \<and> pg_free p \<noteq> [])"
proof -
  note s' = km_bodyD [OF s]
  let ?c = "dir_chain (bucket_dir s i)"
  have r: "ring_ok (words s) ?c (map pg_desc (class_pages V i))" by (rule s'(7) [OF i])
  show thesis
  proof (cases "class_pages V i")
    case Nil
    then show thesis using r that [of 0] by (simp add: ring_ok_def)
  next
    case (Cons p ps)
    let ?ds = "map pg_desc (class_pages V i)"
    have dn: "d \<noteq> 0" if "d \<in> set ?ds" for d
      using that desc_slot [OF s'(1) desc_mem(1)] by (auto simp: class_pages_set)
    have c: "?c = pg_desc p" "path (\<lambda>d. words s (d + 4)) ?c (?c # map pg_desc ps) ?c" using r Cons by (auto simp: ring_ok_def)
    have "distinct ?ds" using viewD(2) [OF s'(1)] by (simp add: all_descs_def class_pages_def distinct_map_filter)
    then have "?c \<notin> set (map pg_desc ps)" using c(1) Cons by simp
    with c(2) obtain e where e: "bucket_find ?c s ?c = Some e" "e \<in> set (?c # map pg_desc ps)"
      "bk_free_ptr s e \<noteq> 0 \<or> (\<forall>x \<in> set (?c # map pg_desc ps). bk_free_ptr s x = 0)" by (rule bucket_find_path)
    have ds: "set (?c # map pg_desc ps) = set ?ds" using c(1) Cons by simp
    have fp: "bk_free_ptr s (pg_desc q) = 0 \<longleftrightarrow> pg_free q = []" if "q \<in> set (class_pages V i)" for q
      using free_ptr_iff [OF s] that by (simp add: class_pages_set)
    have "?c \<noteq> 0" using dn [of ?c] c(1) Cons by simp
    moreover have "e \<noteq> 0" using dn e(2) ds by blast
    ultimately show thesis using that [of e] e fp unfolding ds by auto
  qed
qed

end
