(* ===== verification/KmallocDesc.thy ===== *)
theory KmallocDesc
  imports KmallocPage
begin

text \<open>
  The supply of descriptors: \<open>bucket_init\<close> chains the 256 descriptors of a new page, and \<open>desc_take\<close> takes the first one.
  The rest of a view stays as it is when the words of its parts do.
\<close>

lemma poke_simps [simp]:
  "words (poke a v s) = (words s)(a := v)" "(poke a v s)\<lparr>words := w\<rparr> = s\<lparr>words := w\<rparr>" "km_mm (poke a v s) = km_mm s"
  "bucket_dir (poke a v s) = bucket_dir s" "cache_dir (poke a v s) = cache_dir s"
  "free_bucket_desc (poke a v s) = free_bucket_desc s" "free_bucket_lock (poke a v s) = free_bucket_lock s"
  by (simp_all add: poke_def)

section \<open>Chains\<close>

lemma path_upt:
  "m < n \<Longrightarrow> (\<And>j. m \<le> j \<Longrightarrow> j < n \<Longrightarrow> rd (g j) = (if j + 1 < n then g (j + 1) else y)) \<Longrightarrow> path rd (g m) (map g [m..<n]) y"
proof (induction "n - m" arbitrary: m)
  case (Suc k)
  have "[m..<n] = m # [m + 1..<n]" using Suc.prems(1) upt_conv_Cons by simp
  moreover have "path rd (rd (g m)) (map g [m + 1..<n]) y"
  proof (cases "m + 1 < n")
    case True
    then show ?thesis using Suc.hyps(1) [of "m + 1"] Suc.hyps(2) Suc.prems by simp
  next
    case False
    then show ?thesis using Suc.prems by simp
  qed
  ultimately show ?case by simp
qed simp

text \<open>The loop of \<open>bucket_init\<close>.\<close>

definition desc_links :: "nat \<Rightarrow> nat \<Rightarrow> (u32 \<Rightarrow> u32) \<Rightarrow> u32 \<Rightarrow> u32" where
  "desc_links f k w x = (if \<exists>j < k. x = page_addr f + of_nat (16 * j) + 4 then x + 12 else w x)"

lemma page_addr_low: "f < 8192 \<Longrightarrow> \<not> page_addr f \<le> page_addr f - 16"
proof -
  assume f: "f < 8192"
  then have "unat (page_addr f) = 0xC0000000 + 4096 * f" by (rule unat_page_addr)
  then show ?thesis by (simp add: word_le_nat_alt unat_sub_if')
qed

lemma desc_links_step:
  "f < 8192 \<Longrightarrow> k < 256 \<Longrightarrow> desc_links f k (w(page_addr f + of_nat (16 * k) + 4 := page_addr f + of_nat (16 * k) + 16)) = desc_links f (Suc k) w"
proof
  fix x assume "f < 8192" "k < 256"
  show "desc_links f k (w(page_addr f + of_nat (16 * k) + 4 := page_addr f + of_nat (16 * k) + 16)) x = desc_links f (Suc k) w x"
    by (auto simp: desc_links_def less_Suc_eq)
qed

lemma bucket_init_loop_eq:
  "f < 8192 \<Longrightarrow> k < 256 \<Longrightarrow> bucket_init_loop (page_addr f) (page_addr f + of_nat (16 * k)) s = Some (s\<lparr>words := desc_links f k (words s)\<rparr>)"
proof (induction k arbitrary: s)
  case 0
  have "desc_links f 0 (words s) = words s" by (rule ext) (simp add: desc_links_def)
  then show ?case using page_addr_low [OF 0(1)] by (subst bucket_init_loop.simps) (simp add: Let_def)
next
  case (Suc k)
  let ?d = "page_addr f + of_nat (16 * k)"
  have e: "page_addr f + of_nat (16 * Suc k) - 16 = ?d" by simp
  have "unat ?d = 0xC0000000 + 4096 * f + 16 * k" "unat (page_addr f) = 0xC0000000 + 4096 * f"
    using Suc.prems unat_in_page [of f "16 * k"] unat_page_addr by simp_all
  then have "page_addr f \<le> ?d" by (simp add: word_le_nat_alt)
  then have "bucket_init_loop (page_addr f) (page_addr f + of_nat (16 * Suc k)) s = bucket_init_loop (page_addr f) ?d (poke (?d + 4) (?d + 16) s)"
    by (subst bucket_init_loop.simps) (simp only: e Let_def if_True)
  also have "\<dots> = Some (s\<lparr>words := desc_links f (Suc k) (words s)\<rparr>)"
    using Suc.IH [of "poke (?d + 4) (?d + 16) s"] Suc.prems by (simp only: poke_simps desc_links_step Suc_lessD)
  finally show ?case .
qed

text \<open>The words of a page with fresh descriptors.\<close>

definition fresh_descs :: "nat \<Rightarrow> (u32 \<Rightarrow> u32) \<Rightarrow> u32 \<Rightarrow> u32" where
  "fresh_descs f w = desc_links f 255 (w(page_addr f + of_nat (16 * 255) + 4 := 0))"

lemma desc_word: "f < 8192 \<Longrightarrow> j < 256 \<Longrightarrow> k < 256 \<Longrightarrow> page_addr f + of_nat (16 * j) + 4 = page_addr f + of_nat (16 * k) + 4 \<longleftrightarrow> j = k"
proof
  assume b: "f < 8192" "j < 256" "k < 256" and e: "page_addr f + of_nat (16 * j) + 4 = page_addr f + of_nat (16 * k) + (4 :: u32)"
  have "16 * j < 4096" "16 * k < 4096" using b by simp_all
  moreover have "page_addr f + of_nat (16 * j) = page_addr f + of_nat (16 * k)" using e by simp
  from arg_cong [OF this, of unat] have "16 * j = 16 * k"
    using calculation by (simp only: unat_in_page [OF b(1)])
  then show "j = k" by simp
qed simp

lemma fresh_descs_path: "f < 8192 \<Longrightarrow> path (\<lambda>d. fresh_descs f w (d + 4)) (page_addr f) (bk_slots f) 0"
proof -
  assume f: "f < 8192"
  let ?g = "\<lambda>j. page_addr f + of_nat (16 * j)"
  have "path (\<lambda>d. fresh_descs f w (d + 4)) (?g 0) (map ?g [0..<256]) 0"
  proof (rule path_upt)
    fix j :: nat assume j: "j < 256"
    show "fresh_descs f w (?g j + 4) = (if j + 1 < 256 then ?g (j + 1) else 0)"
    proof (cases "j < 255")
      case True
      then have "\<exists>k < 255. ?g j + 4 = ?g k + 4" by blast
      then have "fresh_descs f w (?g j + 4) = ?g j + 4 + 12" unfolding fresh_descs_def desc_links_def by (rule if_P)
      then show ?thesis using True by simp
    next
      case False
      then have e: "j = 255" using j by simp
      have "k = 255" if "k < 255" "?g 255 + 4 = ?g k + 4" for k
        using desc_word [OF f, of 255 k] that by simp
      then have "\<not> (\<exists>k < 255. ?g j + 4 = ?g k + 4)" unfolding e by blast
      then have "fresh_descs f w (?g j + 4) = (w(?g 255 + 4 := 0)) (?g j + 4)" unfolding fresh_descs_def desc_links_def by (rule if_not_P)
      then show ?thesis using e by simp
    qed
  qed simp
  then show ?thesis by (simp add: bk_slots_def)
qed

lemma fresh_descs_out: "\<not> in_page f x \<Longrightarrow> fresh_descs f w x = w x"
proof -
  assume x: "\<not> in_page f x"
  have "x \<noteq> page_addr f + of_nat (16 * j) + 4" if "j < 256" for j
  proof
    assume "x = page_addr f + of_nat (16 * j) + 4"
    then have "x = page_addr f + of_nat (16 * j + 4)" by (simp add: add.assoc)
    moreover have "16 * j + 4 < 4096" using that by simp
    ultimately show False using x unfolding in_page_def by blast
  qed
  note n = this
  have "x \<noteq> page_addr f + of_nat (16 * 255) + 4" by (rule n) simp
  moreover have "\<not> (\<exists>j < 255. x = page_addr f + of_nat (16 * j) + 4)"
  proof
    assume "\<exists>j < 255. x = page_addr f + of_nat (16 * j) + 4"
    then obtain j :: nat where j: "j < 255" "x = page_addr f + of_nat (16 * j) + 4" by blast
    have "j < 256" using j(1) by simp
    then show False using n j(2) by blast
  qed
  ultimately show ?thesis unfolding fresh_descs_def desc_links_def by (simp only: if_False fun_upd_apply)
qed

section \<open>Parts whose words stay\<close>

definition objs_same :: "km_view \<Rightarrow> (u32 \<Rightarrow> u32) \<Rightarrow> (u32 \<Rightarrow> u32) \<Rightarrow> bool" where
  "objs_same V w w' \<longleftrightarrow> (\<forall>p \<in> set (vw_pages V). \<forall>a \<in> pg_objs p. \<forall>x \<in> span a (osz (pg_class p)). w' x = w x)"

lemma objs_stay:
  assumes V: "view_ok V" and o: "objs_same V w w'"
  shows "p \<in> set (vw_pages V) \<Longrightarrow> b \<in> set (pg_free p) \<Longrightarrow> w' b = w b"
    and "j < 10 \<Longrightarrow> cache_ok w ob (vw_cached V j) \<Longrightarrow> cache_ok w' ob (vw_cached V j)"
proof -
  show "w' b = w b" if p: "p \<in> set (vw_pages V)" "b \<in> set (pg_free p)"
  proof -
    have "b \<in> pg_objs p" "b \<in> span b (osz (pg_class p))" using viewD(7) [OF V p(1)] p(2) head_span by auto
    then show ?thesis using o p(1) by (simp add: objs_same_def)
  qed
  show "cache_ok w' ob (vw_cached V j)" if j: "j < 10" "cache_ok w ob (vw_cached V j)"
  proof (rule cache_cong [OF j(2)])
    fix b assume b: "b \<in> set (vw_cached V j)"
    obtain r where r: "r \<in> set (vw_pages V)" "pg_class r = j" "b \<in> pg_objs r" using viewD(9) [OF V j(1) b] by blast
    then show "w' b = w b \<and> w' (b + 4) = w (b + 4)" using o r(1,3) head_span [OF j(1), of b] by (auto simp: objs_same_def)
  qed
qed

lemma mem_same:
  assumes V: "view_ok V" and m: "mem_ok w fb ch ob V" and d: "\<And>d x. d \<in> set (all_descs V) \<Longrightarrow> x \<in> span d 16 \<Longrightarrow> w' x = w x"
    and o: "\<And>p a x. p \<in> set (vw_pages V) \<Longrightarrow> a \<in> pg_objs p \<Longrightarrow> x \<in> span a (osz (pg_class p)) \<Longrightarrow> w' x = w x"
  shows "mem_ok w' fb ch ob V"
proof -
  have "objs_same V w w'" using o by (simp add: objs_same_def)
  note st = objs_stay [OF V this]
  have "page_ok w' p" if p: "p \<in> set (vw_pages V)" for p
  proof -
    have "page_ok w p" using m p by (simp add: mem_ok_def)
    then show ?thesis by (rule page_cong) (use d [OF desc_mem(1) [OF p]] st(1) [OF p] in blast)
  qed
  moreover have "path (\<lambda>d. w' (d + 4)) fb (vw_descs V) 0 = path (\<lambda>d. w (d + 4)) fb (vw_descs V) 0"
    by (rule path_cong) (use d [OF desc_mem(2)] in simp)
  moreover have "ring_ok w' (ch j) (map pg_desc (class_pages V j))" if "j < 10" for j
  proof -
    have "ring_ok w (ch j) (map pg_desc (class_pages V j))" using m that by (simp add: mem_ok_def)
    then show ?thesis by (rule ring_cong) (auto simp: class_pages_set intro: d [OF desc_mem(1)])
  qed
  moreover have "cache_ok w' (ob j) (vw_cached V j)" if "j < 10" for j
    by (rule st(2) [OF that]) (use m that in \<open>simp_all add: mem_ok_def\<close>)
  ultimately show ?thesis using m by (simp add: mem_ok_def)
qed

section \<open>A page of descriptors\<close>

lemma held_below: "buddy_inv m \<Longrightarrow> holds_run m f 1 \<Longrightarrow> f \<notin> free_frames m"
  by (rule held_not_free)

lemma page_addr_nonzero: "f < 8192 \<Longrightarrow> page_addr f \<noteq> 0"
  using unat_page_addr [of f] by auto

text \<open>Writes into a frame that no part of the view lies in.\<close>

lemma mem_frame:
  assumes V: "view_ok V" and m: "mem_ok w fb ch ob V" and f: "f < 8192" "f \<notin> set (all_frames V)"
    and w: "\<And>x. w' x \<noteq> w x \<Longrightarrow> in_page f x"
  shows "mem_ok w' fb ch ob V"
proof (rule mem_same [OF V m])
  fix d x assume d: "d \<in> set (all_descs V)" "x \<in> span d 16"
  obtain g where g: "g \<in> set (vw_dframes V)" "d \<in> set (bk_slots g)" using viewD(6) [OF V d(1)] by blast
  have b: "g < 8192" using viewD(5) [OF V g(1)] by simp
  have "g \<noteq> f" using f(2) g(1) by (auto simp: all_frames_def)
  then show "w' x = w x" using w in_page_unique [OF bk_span [OF b g(2) d(2)] _ b f(1)] by blast
next
  fix p a x assume p: "p \<in> set (vw_pages V)" "a \<in> pg_objs p" "x \<in> span a (osz (pg_class p))"
  have b: "pg_class p < 10" "pg_frame p < 8192" using viewD(4,7) [OF V p(1)] by auto
  have "pg_frame p \<noteq> f" using f(2) p(1) by (auto simp: all_frames_def)
  then show "w' x = w x" using w in_page_unique [OF obj_span [OF b(1) p(2,3)] _ b(2) f(1)] by blast
qed

lemma keeps_frame:
  assumes V: "view_ok V" and f: "f < 8192" "f \<notin> set (all_frames V)" and w: "\<And>x. words s' x \<noteq> words s x \<Longrightarrow> in_page f x"
  shows "keeps (in_use V) s s'"
proof -
  have "words s' x = words s x" if a: "(a, i) \<in> in_use V" "x \<in> span a (osz i)" for a i x
  proof -
    obtain p where p: "p \<in> set (vw_pages V)" "a \<in> pg_objs p" "pg_class p = i" "i < 10" using a(1) by (auto simp: in_use_def)
    have b: "pg_frame p < 8192" using viewD(4) [OF V p(1)] by simp
    have "in_page (pg_frame p) x" using obj_span [OF p(4)] p(2,3) a(2) by blast
    moreover have "pg_frame p \<noteq> f" using f(2) p(1) by (auto simp: all_frames_def)
    ultimately show ?thesis using w in_page_unique [OF _ _ b f(1)] by blast
  qed
  then show ?thesis by (simp add: keeps_def)
qed

lemma bucket_init_ok:
  assumes s: "km_body s V" and e: "vw_descs V = []" and fr: "free_frames (km_mm s) \<noteq> {}"
  obtains f t where "bucket_init s = Some t" "km_body t (V\<lparr>vw_descs := bk_slots f, vw_dframes := f # vw_dframes V\<rparr>)"
    "f \<in> free_frames (km_mm s)" "free_frames (km_mm t) = free_frames (km_mm s) - {f}" "keeps (in_use V) s t"
    "within s V t (V\<lparr>vw_descs := bk_slots f, vw_dframes := f # vw_dframes V\<rparr>)"
    "bucket_dir t = bucket_dir s" "cache_dir t = cache_dir s" "free_bucket_lock t = free_bucket_lock s"
proof -
  note s' = km_bodyD [OF s]
  obtain f m where a: "alloc_page (km_mm s) = Some (page_addr f, m)" "0 < f" "f < 8192" "f \<in> free_frames (km_mm s)" "buddy_inv m"
    "holds_run m f 1" "free_frames m = free_frames (km_mm s) - {f}" "\<forall>j k. holds_run (km_mm s) j k \<longrightarrow> holds_run m j k" "same_bkt (km_mm s) m"
    using alloc_page_step [OF s'(4)] fr by blast
  let ?V = "V\<lparr>vw_descs := bk_slots f, vw_dframes := f # vw_dframes V\<rparr>"
  have fn: "f \<notin> set (all_frames V)" using s'(3,4) a(4) held_below by (auto simp: frames_ok_def)
  define h where "h = list_add_tail (Some (of_nat f)) None (free_bucket_frames s)"
  define t where "t = s\<lparr>km_mm := m, free_bucket_desc := page_addr f, free_bucket_frames := h, words := fresh_descs f (words s)\<rparr>"
  have "to_fr_idx (to_paddr (page_addr f + of_nat 0)) = of_nat f"
    by (rule in_page_frame [OF _ a(3)]) (unfold in_page_def, rule exI [of _ 0], simp)
  then have fi: "to_fr_idx (to_paddr (page_addr f)) = of_nat f" by simp
  have "bucket_init_loop (page_addr f) (page_addr f + of_nat (16 * 255)) (poke (page_addr f + of_nat (16 * 255) + 4) 0 u)
      = Some (u\<lparr>words := fresh_descs f (words u)\<rparr>)" for u
    unfolding fresh_descs_def by (subst bucket_init_loop_eq [OF a(3)]) simp_all
  then have loop: "bucket_init_loop (page_addr f) (page_addr f + 4080) (poke (4084 + page_addr f) 0 u) = Some (u\<lparr>words := fresh_descs f (words u)\<rparr>)" for u
    by (simp add: add.commute)
  have res: "bucket_init s = Some t"
    by (simp add: bucket_init_def on_frames_def a(1) page_addr_nonzero [OF a(3)] fi frame_fits [OF a(3)] PAGE_SIZE_def Let_def loop)
      (simp add: t_def h_def)
  have out: "words t x = words s x" if "\<not> in_page f x" for x using fresh_descs_out [OF that] by (simp add: t_def)
  have mem: "mem_ok (words t) (free_bucket_desc s) (\<lambda>i. dir_chain (bucket_dir s i)) (\<lambda>i. ch_object (cache_dir s i)) V"
    by (rule mem_frame [OF s'(1,5) a(3) fn]) (use out in blast)
  have parts: "all_frames ?V = map pg_frame (vw_pages V) @ f # vw_dframes V" "set (all_descs ?V) = set (all_descs V) \<union> set (bk_slots f)"
    "class_pages ?V = class_pages V" using e by (auto simp: all_frames_def all_descs_def class_pages_def fun_eq_iff)
  have "d \<notin> set (bk_slots f)" if a_d: "d \<in> set (all_descs V)" for d
  proof
    assume d: "d \<in> set (bk_slots f)"
    obtain g where g: "g \<in> set (vw_dframes V)" "d \<in> set (bk_slots g)" using viewD(6) [OF s'(1) a_d] by blast
    have b: "g < 8192" using viewD(5) [OF s'(1) g(1)] by simp
    have "g = f" using in_page_unique bk_slot [OF b g(2)] bk_slot [OF a(3) d] b a(3) by blast
    then show False using fn g(1) by (simp add: all_frames_def)
  qed
  then have dd: "distinct (all_descs ?V)" using viewD(2) [OF s'(1)] bk_slots_distinct [OF a(3)] e by (auto simp: all_descs_def)
  have view: "view_ok ?V"
    unfolding view_ok_def
  proof (intro conjI)
    show "distinct (all_frames ?V)" using viewD(1) [OF s'(1)] fn unfolding parts by (auto simp: all_frames_def)
    show "\<forall>g \<in> set (all_frames ?V). 0 < g \<and> g < 8192" using viewD(3) [OF s'(1)] a(2,3) unfolding parts by (auto simp: all_frames_def)
    show "distinct (all_descs ?V)" by (rule dd)
    show "\<forall>d \<in> set (all_descs ?V). \<exists>f \<in> set (vw_dframes ?V). d \<in> set (bk_slots f)"
      using viewD(6) [OF s'(1)] unfolding parts by auto
  qed (use s'(1) in \<open>simp_all add: view_ok_def\<close>)
  have "path (\<lambda>d. words t (d + 4)) (free_bucket_desc t) (bk_slots f) 0"
    using fresh_descs_path [OF a(3)] by (simp add: t_def)
  then have "mem_ok (words t) (free_bucket_desc t) (\<lambda>i. dir_chain (bucket_dir t i)) (\<lambda>i. ch_object (cache_dir t i)) ?V"
    using mem by (simp add: mem_ok_def parts(3)) (simp add: t_def)
  moreover have "dirs_ok t ?V" using s'(2) by (simp add: dirs_ok_def parts(3) t_def)
  moreover have "frames_ok (km_mm t) ?V"
    using s'(3) a(5,6,8,9) unfolding frames_ok_def parts by (auto simp: t_def same_bkt_def all_frames_def)
  ultimately have body: "km_body t ?V" using view by (simp add: km_body_def)
  have "keeps (in_use V) s t" by (rule keeps_frame [OF s'(1) a(3) fn]) (use out in blast)
  moreover have "within s V t ?V"
  proof -
    have "territory (km_mm t) ?V = territory (km_mm s) V" using a(4,7) unfolding territory_def parts by (auto simp: t_def all_frames_def)
    moreover have "f \<in> territory (km_mm s) V" using a(4) by (simp add: territory_def)
    moreover have "words t x \<noteq> words s x \<Longrightarrow> in_page f x" for x using out by blast
    moreover have "km_mm t = m" by (simp add: t_def)
    ultimately show ?thesis using a(8) unfolding within_def by blast
  qed
  ultimately show thesis using res body a(4,7) that by (simp add: t_def)
qed

text \<open>Taking a descriptor: afterwards it belongs to no part.\<close>

definition spare :: "km_view \<Rightarrow> u32 \<Rightarrow> bool" where
  "spare V d \<longleftrightarrow> d \<notin> set (all_descs V) \<and> (\<exists>f \<in> set (vw_dframes V). d \<in> set (bk_slots f))"

lemma desc_pop:
  assumes s: "km_body s V" and d: "vw_descs V = d # ds"
  shows "free_bucket_desc s = d" "km_body (s\<lparr>free_bucket_desc := words s (d + 4)\<rparr>) (V\<lparr>vw_descs := ds\<rparr>)" "spare (V\<lparr>vw_descs := ds\<rparr>) d"
proof -
  note s' = km_bodyD [OF s]
  let ?V = "V\<lparr>vw_descs := ds\<rparr>" and ?t = "s\<lparr>free_bucket_desc := words s (d + 4)\<rparr>"
  have parts: "all_frames ?V = all_frames V" "class_pages ?V = class_pages V" "set (all_descs V) = insert d (set (all_descs ?V))"
    "distinct (all_descs ?V)" "d \<notin> set (all_descs ?V)"
    using d viewD(2) [OF s'(1)] by (auto simp: all_frames_def all_descs_def class_pages_def fun_eq_iff)
  have path: "free_bucket_desc s = d \<and> path (\<lambda>d. words s (d + 4)) (words s (d + 4)) ds 0" using s'(5) d by (simp add: mem_ok_def)
  then show "free_bucket_desc s = d" ..
  have "view_ok ?V" using s'(1) parts by (simp add: view_ok_def)
  moreover have "mem_ok (words ?t) (free_bucket_desc ?t) (\<lambda>i. dir_chain (bucket_dir ?t i)) (\<lambda>i. ch_object (cache_dir ?t i)) ?V"
    using s'(5) path by (simp add: mem_ok_def parts(2))
  ultimately show "km_body ?t ?V" using s'(2,3) by (simp add: km_body_def dirs_ok_def frames_ok_def parts)
  show "spare ?V d" using viewD(6) [OF s'(1), of d] parts by (simp add: spare_def)
qed

lemma desc_take_ok:
  assumes s: "km_body s V" "free_bucket_lock s = 0" and fr: "vw_descs V = [] \<longrightarrow> free_frames (km_mm s) \<noteq> {}"
  obtains d t W where "desc_take s = Some (d, t)" "km_body t W" "spare W d" "vw_pages W = vw_pages V" "vw_cached W = vw_cached V"
    "keeps (in_use V) s t" "bucket_dir t = bucket_dir s" "cache_dir t = cache_dir s" "free_bucket_lock t = 0"
    "card (free_frames (km_mm s)) \<le> card (free_frames (km_mm t)) + 1" "within s V t W"
proof -
  note result = that
  let ?l = "s\<lparr>free_bucket_lock := 1\<rparr>"
  have lock: "lock_free_bucket s = Some ?l" using s(2) by (simp add: lock_free_bucket_def)
  have pop: thesis if u: "km_body u U" "vw_descs U = d # ds" "vw_pages U = vw_pages V" "vw_cached U = vw_cached V" "keeps (in_use V) s u"
    "bucket_dir u = bucket_dir s" "cache_dir u = cache_dir s" "card (free_frames (km_mm s)) \<le> card (free_frames (km_mm u)) + 1"
    "(if free_bucket_desc ?l = 0 then bucket_init ?l else Some ?l) = Some u" "within s V u U" for u U d ds
  proof -
    let ?t = "u\<lparr>free_bucket_lock := 0, free_bucket_desc := words u (d + 4)\<rparr>"
    note p = desc_pop [OF u(1,2)]
    have "desc_take s = Some (d, ?t)"
      by (simp only: desc_take_def lock u(9) Option.bind.simps p(1) Let_def) (simp add: unlock_free_bucket_def spin_unlock_def bk_next_def)
    moreover have "km_body ?t (U\<lparr>vw_descs := ds\<rparr>)" using p(2) km_body_same [of ?t "u\<lparr>free_bucket_desc := words u (d + 4)\<rparr>"] by simp
    moreover have "keeps (in_use V) s ?t" using u(5) by (simp add: keeps_def)
    moreover have "within s V ?t (U\<lparr>vw_descs := ds\<rparr>)" using u(10) by (simp add: within_def territory_def all_frames_def)
    ultimately show thesis using result [of d ?t "U\<lparr>vw_descs := ds\<rparr>"] p(3) u(3,4,6-8) by simp
  qed
  have l: "km_body ?l V" using s(1) km_body_same [of ?l s] by simp
  note s' = km_bodyD [OF s(1)]
  show thesis
  proof (cases "vw_descs V")
    case (Cons d ds)
    have "free_bucket_desc ?l = d" by (rule desc_pop(1) [OF l Cons])
    moreover have "d \<noteq> 0" using desc_slot [OF s'(1) desc_mem(2), of d] Cons by simp
    ultimately show thesis by (intro pop [OF l Cons]) (simp_all add: keeps_def within_def)
  next
    case Nil
    have e: "free_bucket_desc ?l = 0" using s'(5) Nil by (simp add: mem_ok_def)
    obtain f t where t: "bucket_init ?l = Some t" "km_body t (V\<lparr>vw_descs := bk_slots f, vw_dframes := f # vw_dframes V\<rparr>)"
      "f \<in> free_frames (km_mm ?l)" "free_frames (km_mm t) = free_frames (km_mm ?l) - {f}" "keeps (in_use V) ?l t"
      "within ?l V t (V\<lparr>vw_descs := bk_slots f, vw_dframes := f # vw_dframes V\<rparr>)"
      "bucket_dir t = bucket_dir ?l" "cache_dir t = cache_dir ?l" "free_bucket_lock t = free_bucket_lock ?l"
      by (rule bucket_init_ok [OF l Nil]) (use fr Nil in simp)
    obtain d ds where d: "bk_slots f = d # ds" by (auto simp: bk_slots_def upt_conv_Cons)
    have "card (free_frames (km_mm s)) = card (free_frames (km_mm t)) + 1"
      using t(3,4) card_Suc_Diff1 [OF finite_free, of f "km_mm s"] by simp
    moreover have "within s V t (V\<lparr>vw_descs := bk_slots f, vw_dframes := f # vw_dframes V\<rparr>)" by (rule within_cong [OF t(6)]) simp_all
    ultimately show thesis using t d e by (intro pop [OF t(2)]) (simp_all add: keeps_def)
  qed
qed

end
