(* ===== verification/KmallocNew.thy ===== *)
theory KmallocNew
  imports KmallocDesc
begin

text \<open>
  A new page for a class: the head of the ring gets the page, and what the head had before goes to the new descriptor behind it.
\<close>

section \<open>The view with a new page\<close>

definition mv :: "km_page \<Rightarrow> u32 \<Rightarrow> km_page \<Rightarrow> km_page" where
  "mv p d r = (if r = p then r\<lparr>pg_desc := d\<rparr> else r)"

definition moved :: "u32 \<Rightarrow> nat \<Rightarrow> km_view \<Rightarrow> km_page list" where
  "moved d i V = (case class_pages V i of [] \<Rightarrow> vw_pages V | p # _ \<Rightarrow> map (mv p d) (vw_pages V))"

definition head_desc :: "u32 \<Rightarrow> nat \<Rightarrow> km_view \<Rightarrow> u32" where
  "head_desc d i V = (case class_pages V i of [] \<Rightarrow> d | p # _ \<Rightarrow> pg_desc p)"

definition new_page :: "u32 \<Rightarrow> nat \<Rightarrow> nat \<Rightarrow> km_view \<Rightarrow> km_page" where
  "new_page d i f V = \<lparr>pg_class = i, pg_desc = head_desc d i V, pg_frame = f, pg_free = objs i f, pg_lost = []\<rparr>"

definition with_page :: "u32 \<Rightarrow> nat \<Rightarrow> nat \<Rightarrow> km_view \<Rightarrow> km_view" where
  "with_page d i f V = V\<lparr>vw_pages := new_page d i f V # moved d i V\<rparr>"

lemma mv_simps [simp]:
  "pg_class (mv p d r) = pg_class r" "pg_frame (mv p d r) = pg_frame r" "pg_free (mv p d r) = pg_free r" "pg_lost (mv p d r) = pg_lost r"
  by (simp_all add: mv_def)

lemma new_page_simps [simp]:
  "pg_class (new_page d i f V) = i" "pg_desc (new_page d i f V) = head_desc d i V" "pg_frame (new_page d i f V) = f"
  "pg_free (new_page d i f V) = objs i f" "pg_lost (new_page d i f V) = []"
  by (simp_all add: new_page_def)

lemma with_page_simps [simp]:
  "vw_cached (with_page d i f V) = vw_cached V" "vw_descs (with_page d i f V) = vw_descs V" "vw_dframes (with_page d i f V) = vw_dframes V"
  "vw_pages (with_page d i f V) = new_page d i f V # moved d i V"
  by (simp_all add: with_page_def)

lemma filter_mv: "filter (\<lambda>r. pg_class r = j) (map (mv p d) ps) = map (mv p d) (filter (\<lambda>r. pg_class r = j) ps)"
  by (induction ps) simp_all

lemma map_mv_other: "p \<notin> set ps \<Longrightarrow> map (mv p d) ps = ps"
  by (induction ps) (auto simp: mv_def)

lemma map_mv_same [simp]: "map pg_class (map (mv p d) ps) = map pg_class ps" "map pg_frame (map (mv p d) ps) = map pg_frame ps"
  by simp_all

lemma moved_frames: "map pg_frame (moved d i V) = map pg_frame (vw_pages V)"
  by (simp add: moved_def split: list.splits)

lemma pages_distinct: "view_ok V \<Longrightarrow> distinct (vw_pages V)"
  by (drule viewD(2)) (auto simp: all_descs_def distinct_map)

lemma class_with_page:
  assumes V: "view_ok V"
  shows "class_pages (with_page d i f V) j = (if j = i
      then new_page d i f V # (case class_pages V i of [] \<Rightarrow> [] | p # ps \<Rightarrow> mv p d p # ps) else class_pages V j)"
proof (cases "class_pages V i")
  case Nil
  then show ?thesis by (simp add: class_pages_def moved_def)
next
  case (Cons p ps)
  have d: "distinct (p # ps)" using pages_distinct [OF V] Cons by (metis class_pages_def distinct_filter)
  have p: "pg_class p = i" using class_pages_set [of p V i] Cons by simp
  have "map (mv p d) (class_pages V j) = class_pages V j" if "j \<noteq> i"
    using that p by (intro map_mv_other) (auto simp: class_pages_set)
  moreover have "map (mv p d) (class_pages V i) = mv p d p # ps" using Cons d map_mv_other [of p ps d] by simp
  ultimately show ?thesis using Cons by (simp add: class_pages_def moved_def filter_mv)
qed

lemma moved_set: "r \<in> set (moved d i V) \<Longrightarrow> \<exists>p \<in> set (vw_pages V). r = p \<or> (\<exists>q ps. class_pages V i = q # ps \<and> r = mv q d p)"
  by (auto simp: moved_def split: list.splits)

lemma moved_descs:
  assumes V: "view_ok V"
  shows "insert (head_desc d i V) (set (map pg_desc (moved d i V))) = insert d (set (map pg_desc (vw_pages V)))"
    "d \<notin> set (all_descs V) \<Longrightarrow> distinct (head_desc d i V # map pg_desc (moved d i V) @ vw_descs V)"
proof -
  have "insert (head_desc d i V) (set (map pg_desc (moved d i V))) = insert d (set (map pg_desc (vw_pages V)))
    \<and> (d \<notin> set (all_descs V) \<longrightarrow> distinct (head_desc d i V # map pg_desc (moved d i V) @ vw_descs V))"
  proof (cases "class_pages V i")
    case Nil
    then show ?thesis using viewD(2) [OF V] by (auto simp: moved_def head_desc_def all_descs_def)
  next
    case (Cons p ps)
    have "p \<in> set (vw_pages V)" using class_pages_set [of p V i] Cons by simp
    then obtain xs ys where x: "vw_pages V = xs @ p # ys" by (metis split_list)
    have n: "p \<notin> set xs" "p \<notin> set ys" using pages_distinct [OF V] x by auto
    have m: "map pg_desc (moved d i V) = map pg_desc xs @ d # map pg_desc ys"
      using Cons x map_mv_other [OF n(1), of d] map_mv_other [OF n(2), of d] by (simp add: moved_def mv_def)
    have v: "distinct (map pg_desc (vw_pages V) @ vw_descs V)" using viewD(2) [OF V] by (simp add: all_descs_def)
    show ?thesis using v unfolding all_descs_def m x head_desc_def Cons by auto
  qed
  then show "insert (head_desc d i V) (set (map pg_desc (moved d i V))) = insert d (set (map pg_desc (vw_pages V)))"
    "d \<notin> set (all_descs V) \<Longrightarrow> distinct (head_desc d i V # map pg_desc (moved d i V) @ vw_descs V)" by blast+
qed

lemma view_with_page:
  assumes V: "view_ok V" and i: "i < 10" and f: "0 < f" "f < 8192" "f \<notin> set (all_frames V)" and d: "spare V d"
  shows "view_ok (with_page d i f V)"
  unfolding view_ok_def
proof (intro conjI)
  have fr: "all_frames (with_page d i f V) = f # all_frames V" by (simp add: all_frames_def moved_frames)
  show "distinct (all_frames (with_page d i f V))" "\<forall>g \<in> set (all_frames (with_page d i f V)). 0 < g \<and> g < 8192"
    using viewD(1,3) [OF V] f unfolding fr by auto
  show "distinct (all_descs (with_page d i f V))" using moved_descs(2) [OF V, of d i] d by (simp add: all_descs_def spare_def)
  have "set (all_descs (with_page d i f V)) = insert d (set (all_descs V))"
    using moved_descs(1) [OF V, of d i] by (simp add: all_descs_def) blast
  then show "\<forall>e \<in> set (all_descs (with_page d i f V)). \<exists>g \<in> set (vw_dframes (with_page d i f V)). e \<in> set (bk_slots g)"
    using viewD(6) [OF V] d by (auto simp: spare_def)
  show "\<forall>p \<in> set (vw_pages (with_page d i f V)). pg_class p < 10 \<and> distinct (pg_gone p) \<and> set (pg_gone p) \<subseteq> pg_objs p"
  proof
    fix r assume "r \<in> set (vw_pages (with_page d i f V))"
    then consider "r = new_page d i f V" | "r \<in> set (moved d i V)" by auto
    then show "pg_class r < 10 \<and> distinct (pg_gone r) \<and> set (pg_gone r) \<subseteq> pg_objs r"
    proof cases
      case 1
      then show ?thesis using i objs_distinct [OF i f(2)] by simp
    next
      case 2
      then obtain p where p: "p \<in> set (vw_pages V)" "pg_class r = pg_class p \<and> pg_frame r = pg_frame p \<and> pg_gone r = pg_gone p"
        using moved_set [of r d i V] by force
      from viewD(7) [OF V p(1)] p(2) show ?thesis by simp
    qed
  qed
  show "\<forall>j < 10. distinct (vw_cached (with_page d i f V) j) \<and> length (vw_cached (with_page d i f V) j) < 65536
      \<and> (\<forall>a \<in> set (vw_cached (with_page d i f V) j). \<exists>p \<in> set (vw_pages (with_page d i f V)). pg_class p = j \<and> a \<in> pg_objs p \<and> a \<notin> set (pg_gone p))"
  proof (intro allI impI)
    fix j :: nat assume j: "j < 10"
    have "\<exists>p \<in> set (vw_pages (with_page d i f V)). pg_class p = j \<and> a \<in> pg_objs p \<and> a \<notin> set (pg_gone p)" if a: "a \<in> set (vw_cached V j)" for a
    proof -
      obtain p where p: "p \<in> set (vw_pages V)" "pg_class p = j" "a \<in> pg_objs p" "a \<notin> set (pg_gone p)" using viewD(9) [OF V j a] by blast
      show ?thesis
      proof (cases "class_pages V i")
        case Nil
        then show ?thesis using p by (auto simp: moved_def)
      next
        case (Cons q qs)
        then have "mv q d p \<in> set (moved d i V)" using p(1) by (simp add: moved_def)
        then show ?thesis using p(2-4) by (intro bexI [of _ "mv q d p"]) simp_all
      qed
    qed
    then show "distinct (vw_cached (with_page d i f V) j) \<and> length (vw_cached (with_page d i f V) j) < 65536
      \<and> (\<forall>a \<in> set (vw_cached (with_page d i f V) j). \<exists>p \<in> set (vw_pages (with_page d i f V)). pg_class p = j \<and> a \<in> pg_objs p \<and> a \<notin> set (pg_gone p))"
      using viewD(8) [OF V j] by simp
  qed
qed

lemma in_use_with_page: "view_ok V \<Longrightarrow> in_use (with_page d i f V) = in_use V"
proof -
  have "(\<exists>r \<in> set (moved d i V). P (pg_class r) (pg_frame r) (pg_free r) (pg_lost r)) \<longleftrightarrow>
      (\<exists>r \<in> set (vw_pages V). P (pg_class r) (pg_frame r) (pg_free r) (pg_lost r))" for P
    by (auto simp: moved_def split: list.splits)
  from this [of "\<lambda>c g fs ls. c = j \<and> a \<in> set (objs c g) \<and> a \<notin> set (fs @ ls)" for j a]
  show ?thesis by (simp add: in_use_def)
qed

section \<open>The memory with a new page\<close>

lemma head_is:
  "spare V d \<Longrightarrow> e \<in> set (all_descs V) \<Longrightarrow> e = head_desc d i V \<Longrightarrow> \<exists>p ps. class_pages V i = p # ps \<and> p \<in> set (vw_pages V) \<and> e = pg_desc p"
  using class_pages_set [of "hd (class_pages V i)" V i] by (cases "class_pages V i") (auto simp: head_desc_def spare_def)

lemma head_only:
  assumes V: "view_ok V" and c: "class_pages V i = p # ps" and r: "r \<in> set (vw_pages V)" "pg_desc r = pg_desc p"
  shows "r = p"
  using assms viewD(2) [OF V] class_pages_set [of p V i] by (auto simp: all_descs_def distinct_map inj_on_def)

lemma moved_pages_ok:
  assumes V: "view_ok V" and m: "\<And>p. p \<in> set (vw_pages V) \<Longrightarrow> page_ok w p" and d: "spare V d"
    and sd: "\<And>e x. e \<in> set (all_descs V) \<Longrightarrow> e \<noteq> head_desc d i V \<Longrightarrow> x \<in> span e 16 \<Longrightarrow> w' x = w x"
    and free: "\<And>p b. p \<in> set (vw_pages V) \<Longrightarrow> b \<in> set (pg_free p) \<Longrightarrow> w' b = w b"
    and full: "\<And>p ps. class_pages V i = p # ps \<Longrightarrow> w' d = w (pg_desc p) \<and> w' (d + 4) = w (pg_desc p + 4) \<and> w' (d + 8) = w (pg_desc p + 8)
      \<and> w' (d + 12) = w (pg_desc p + 12) \<and> w' (pg_desc p + 4) = d"
    and r: "r \<in> set (moved d i V)"
  shows "page_ok w' r"
proof -
  have stay: "page_ok w' q" if q: "q \<in> set (vw_pages V)" "pg_desc q \<noteq> head_desc d i V" for q
    by (rule page_cong [OF m [OF q(1)]]) (use sd [OF desc_mem(1) [OF q(1)] q(2)] free [OF q(1)] in blast)
  show ?thesis
  proof (cases "class_pages V i")
    case Nil
    then have q: "r \<in> set (vw_pages V)" using r by (simp add: moved_def)
    then have "pg_desc r \<noteq> head_desc d i V" using head_is [OF d desc_mem(1) [OF q]] Nil by fastforce
    then show ?thesis by (rule stay [OF q])
  next
    case (Cons p ps)
    then obtain q where q: "q \<in> set (vw_pages V)" "r = mv p d q" using r by (auto simp: moved_def)
    show ?thesis
    proof (cases "q = p")
      case True
      have "path w' x (pg_free p) 0 = path w x (pg_free p) 0" for x
        by (rule path_cong) (rule free [OF q(1)], simp add: True)
      then show ?thesis using m [OF q(1)] full [OF Cons] True q(2) by (simp add: page_ok_def mv_def)
    next
      case False
      then have "r = q" "pg_desc q \<noteq> head_desc d i V" using q head_only [OF V Cons q(1)] Cons by (auto simp: mv_def head_desc_def)
      then show ?thesis using stay [OF q(1)] by simp
    qed
  qed
qed

lemma ring_with_page:
  assumes V: "view_ok V" and m: "\<And>j. j < 10 \<Longrightarrow> ring_ok w (ch j) (map pg_desc (class_pages V j))" and i: "i < 10" and d: "spare V d"
    and d4: "\<And>e. e \<in> set (all_descs V) \<Longrightarrow> e \<noteq> head_desc d i V \<Longrightarrow> w' (e + 4) = w (e + 4)"
    and empty: "class_pages V i = [] \<Longrightarrow> w' (d + 4) = d"
    and full: "\<And>p ps. class_pages V i = p # ps \<Longrightarrow> w' d = w (pg_desc p) \<and> w' (d + 4) = w (pg_desc p + 4) \<and> w' (d + 8) = w (pg_desc p + 8)
      \<and> w' (d + 12) = w (pg_desc p + 12) \<and> w' (pg_desc p + 4) = d"
    and j: "j < 10"
  shows "ring_ok w' ((ch(i := head_desc d i V)) j) (map pg_desc (class_pages (with_page d i f V) j))"
proof (cases "j = i")
  case False
  have "w' (e + 4) = w (e + 4)" if e: "e \<in> set (map pg_desc (class_pages V j))" for e
  proof -
    obtain r where r: "r \<in> set (vw_pages V)" "pg_class r = j" "e = pg_desc r" using e by (auto simp: class_pages_set)
    have mem: "e \<in> set (all_descs V)" using desc_mem(1) [OF r(1)] r(3) by simp
    have "e \<noteq> head_desc d i V"
    proof
      assume "e = head_desc d i V"
      then obtain p ps where p: "class_pages V i = p # ps" "e = pg_desc p" using head_is [OF d mem] by blast
      have "r = p" by (rule head_only [OF V p(1) r(1)]) (use p(2) r(3) in simp)
      then show False using class_pages_set [of p V i] p(1) r(2) False by simp
    qed
    then show ?thesis by (rule d4 [OF mem])
  qed
  from ring_cong [OF m [OF j] this] show ?thesis using False class_with_page [OF V] by simp
next
  case True
  show ?thesis
  proof (cases "class_pages V i")
    case Nil
    then show ?thesis using True empty class_with_page [OF V] by (simp add: ring_ok_def head_desc_def)
  next
    case (Cons p ps)
    have c: "path (\<lambda>d. w (d + 4)) (w (pg_desc p + 4)) (map pg_desc ps) (pg_desc p)" using m [OF i] Cons by (auto simp: ring_ok_def)
    have ds: "distinct (p # ps)" using pages_distinct [OF V] Cons by (metis class_pages_def distinct_filter)
    have "path (\<lambda>d. w' (d + 4)) (w (pg_desc p + 4)) (map pg_desc ps) (pg_desc p) = path (\<lambda>d. w (d + 4)) (w (pg_desc p + 4)) (map pg_desc ps) (pg_desc p)"
    proof (rule path_cong)
      fix e assume "e \<in> set (map pg_desc ps)"
      then obtain r where r: "r \<in> set ps" "e = pg_desc r" by auto
      have rp: "r \<in> set (vw_pages V)" using class_pages_set [of r V i] Cons r(1) by simp
      have "pg_desc r \<noteq> pg_desc p" using head_only [OF V Cons rp] r(1) ds by auto
      then show "w' (e + 4) = w (e + 4)" using d4 desc_mem(1) [OF rp] r(2) Cons by (simp add: head_desc_def)
    qed
    then show ?thesis using c full [OF Cons] True class_with_page [OF V, of d i f i] Cons by (simp add: ring_ok_def head_desc_def mv_def)
  qed
qed

lemma mem_with_page:
  assumes V: "view_ok V" and m: "mem_ok w fb ch ob V" and i: "i < 10" and d: "spare V d"
    and sd: "\<And>e x. e \<in> set (all_descs V) \<Longrightarrow> e \<noteq> head_desc d i V \<Longrightarrow> x \<in> span e 16 \<Longrightarrow> w' x = w x"
    and so: "\<And>p a x. p \<in> set (vw_pages V) \<Longrightarrow> a \<in> pg_objs p \<Longrightarrow> x \<in> span a (osz (pg_class p)) \<Longrightarrow> w' x = w x"
    and empty: "class_pages V i = [] \<Longrightarrow> w' (d + 4) = d"
    and full: "\<And>p ps. class_pages V i = p # ps \<Longrightarrow> w' d = w (pg_desc p) \<and> w' (d + 4) = w (pg_desc p + 4) \<and> w' (d + 8) = w (pg_desc p + 8)
      \<and> w' (d + 12) = w (pg_desc p + 12) \<and> w' (pg_desc p + 4) = d"
    and new: "page_ok w' (new_page d i f V)"
  shows "mem_ok w' fb (ch(i := head_desc d i V)) ob (with_page d i f V)"
proof -
  have mp: "page_ok w p" if "p \<in> set (vw_pages V)" for p using m that by (simp add: mem_ok_def)
  have mr: "ring_ok w (ch j) (map pg_desc (class_pages V j))" if "j < 10" for j using m that by (simp add: mem_ok_def)
  have d4: "w' (e + 4) = w (e + 4)" if "e \<in> set (all_descs V)" "e \<noteq> head_desc d i V" for e using sd [OF that] by simp
  have "objs_same V w w'" using so by (simp add: objs_same_def)
  note st = objs_stay [OF V this]
  have "page_ok w' r" if "r \<in> set (moved d i V)" for r
    by (rule moved_pages_ok [OF V mp d sd st(1) full that])
  moreover have "path (\<lambda>d. w' (d + 4)) fb (vw_descs V) 0 = path (\<lambda>d. w (d + 4)) fb (vw_descs V) 0"
  proof (rule path_cong)
    fix e assume e: "e \<in> set (vw_descs V)"
    have "set (map pg_desc (vw_pages V)) \<inter> set (vw_descs V) = {}" using viewD(2) [OF V] by (simp add: all_descs_def)
    then have "e \<noteq> head_desc d i V" using head_is [OF d desc_mem(2) [OF e], of i] e by (auto simp: disjoint_iff)
    then show "w' (e + 4) = w (e + 4)" by (rule d4 [OF desc_mem(2) [OF e]])
  qed
  moreover have "ring_ok w' ((ch(i := head_desc d i V)) j) (map pg_desc (class_pages (with_page d i f V) j))" if "j < 10" for j
    by (rule ring_with_page [OF V mr i d d4 empty full that])
  moreover have "cache_ok w' (ob j) (vw_cached V j)" if "j < 10" for j
    by (rule st(2) [OF that]) (use m that in \<open>simp_all add: mem_ok_def\<close>)
  ultimately show ?thesis using m new by (simp add: mem_ok_def)
qed

section \<open>The objects of a new page\<close>

lemma page_init_state: "page_init n step p s = s\<lparr>words := words (page_init n step p s)\<rparr>"
proof (induction n arbitrary: p s)
  case (Suc n)
  have "page_init (Suc n) step p s = (poke p (p + step) s)\<lparr>words := words (page_init (Suc n) step p s)\<rparr>"
    using Suc.IH [of "p + step" "poke p (p + step) s"] by simp
  then show ?case by simp
qed (simp add: poke_def)

lemma page_init_words:
  fixes z f
  defines "P \<equiv> (\<lambda>j. page_addr f + of_nat (z * j))"
  assumes z: "0 < z" "f < 8192" and b: "z * (m + n) < 4096"
  shows "(\<forall>j. m \<le> j \<and> j \<le> m + n \<longrightarrow> words (page_init n (of_nat z) (P m) s) (P j) = (if j < m + n then P (j + 1) else 0))
    \<and> (\<forall>x. (\<forall>j. m \<le> j \<and> j \<le> m + n \<longrightarrow> x \<noteq> P j) \<longrightarrow> words (page_init n (of_nat z) (P m) s) x = words s x)"
  using b
proof (induction n arbitrary: m s)
  case 0
  have "j = m" if "m \<le> j \<and> j \<le> m + 0" for j using that by simp
  then show ?case by (auto simp: poke_def)
next
  case (Suc n)
  let ?s = "poke (P m) (P (m + 1)) s"
  have n: "P m + of_nat z = P (m + 1)" by (simp add: P_def algebra_simps)
  have t: "page_init (Suc n) (of_nat z) (P m) s = page_init n (of_nat z) (P (m + 1)) ?s" by (simp only: page_init.simps n)
  have lt: "z * (m + 1 + n) < 4096" using Suc.prems by simp
  have ne: "P m \<noteq> P k" if "m < k" "k \<le> m + Suc n" for k
  proof
    assume e: "P m = P k"
    have "z * k \<le> z * (m + Suc n)" "z * m \<le> z * (m + Suc n)" by (rule mult_le_mono2, use that in simp)+
    then have "z * k < 4096" "z * m < 4096" using Suc.prems by linarith+
    with arg_cong [OF e, of unat] have "z * m = z * k" unfolding P_def by (simp only: unat_in_page [OF z(2)])
    then show False using z(1) that(1) by simp
  qed
  from Suc.IH [OF lt, of ?s] have ih:
    "\<And>j. m + 1 \<le> j \<Longrightarrow> j \<le> m + 1 + n \<Longrightarrow> words (page_init n (of_nat z) (P (m + 1)) ?s) (P j) = (if j < m + 1 + n then P (j + 1) else 0)"
    "\<And>x. (\<And>j. m + 1 \<le> j \<Longrightarrow> j \<le> m + 1 + n \<Longrightarrow> x \<noteq> P j) \<Longrightarrow> words (page_init n (of_nat z) (P (m + 1)) ?s) x = words ?s x" by blast+
  show ?case unfolding t
  proof (intro conjI allI impI, goal_cases)
    case (1 j)
    show ?case
    proof (cases "j = m")
      case True
      have "words (page_init n (of_nat z) (P (m + 1)) ?s) (P m) = words ?s (P m)" by (rule ih(2)) (use ne in simp)
      then show ?thesis using True by simp
    next
      case False
      then show ?thesis using ih(1) [of j] 1 by simp
    qed
  next
    case (2 x)
    have "words (page_init n (of_nat z) (P (m + 1)) ?s) x = words ?s x" by (rule ih(2)) (use 2 in simp)
    moreover have "x \<noteq> P m" using 2 by simp
    ultimately show ?case by simp
  qed
qed

lemma page_init_objs:
  assumes i: "i < 10" and f: "f < 8192"
  shows "path (words (page_init (onum i - 1) (of_nat (osz i)) (page_addr f) s)) (page_addr f) (objs i f) 0"
    "\<not> in_page f x \<Longrightarrow> words (page_init (onum i - 1) (of_nat (osz i)) (page_addr f) s) x = words s x"
proof -
  let ?P = "\<lambda>j. page_addr f + of_nat (osz i * j)" and ?t = "page_init (onum i - 1) (of_nat (osz i)) (page_addr f) s"
  have o: "0 < osz i" "0 < onum i" using osz_le [OF i] onum_pos [OF i] by simp_all
  have "osz i * (0 + (onum i - 1)) < osz i * onum i" using o by simp
  then have lt: "osz i * (0 + (onum i - 1)) < 4096" using osz_onum [OF i] by simp
  have w: "\<And>j. j \<le> onum i - 1 \<Longrightarrow> words ?t (?P j) = (if j < onum i - 1 then ?P (j + 1) else 0)"
    "\<And>x. (\<And>j. j \<le> onum i - 1 \<Longrightarrow> x \<noteq> ?P j) \<Longrightarrow> words ?t x = words s x"
    using page_init_words [OF o(1) f lt, of s] by simp_all
  have "path (words ?t) (?P 0) (map ?P [0..<onum i]) 0"
  proof (rule path_upt)
    fix j assume "j < onum i"
    then have "j \<le> onum i - 1" "j < onum i - 1 \<longleftrightarrow> j + 1 < onum i" by auto
    then show "words ?t (?P j) = (if j + 1 < onum i then ?P (j + 1) else 0)" using w(1) [of j] by simp
  qed (use o in simp)
  then show "path (words ?t) (page_addr f) (objs i f) 0" by (simp add: objs_def)
  show "words ?t x = words s x" if x: "\<not> in_page f x"
  proof (rule w(2))
    fix j assume "j \<le> onum i - 1"
    then have "osz i * j \<le> osz i * (0 + (onum i - 1))" by (intro mult_le_mono2) simp
    then have "osz i * j < 4096" by (rule le_less_trans) (rule lt)
    then show "x \<noteq> ?P j" using x unfolding in_page_def by blast
  qed
qed

end
