(* ===== verification/KmallocGrow.thy ===== *)
theory KmallocGrow
  imports KmallocNew
begin

text \<open>
  \<open>bucket_new\<close> run on a state: it takes a descriptor and a page and leaves the view with one more page of the class, all of
  whose objects are free.
\<close>

lemma set_bucket_ok:
  assumes m: "buddy_inv (km_mm s)" and f: "f < 8192"
  shows "set_frame_bucket (of_nat f) d s = Some (s\<lparr>km_mm := mm_bkt f d (km_mm s)\<rparr>)"
    "set_frame_bucket_locked (of_nat f) d s = Some (s\<lparr>km_mm := mm_bkt f d (km_mm s)\<rparr>)"
proof -
  have l: "fr_lock (frame_at f (km_mm s)) = 0" by (rule held_frame [OF m f])
  then have "(frame_at f (km_mm s))\<lparr>fr_lock := 0\<rparr> = frame_at f (km_mm s)" by simp
  then have r: "(frame_at f (km_mm s))\<lparr>bkt_desc := d, fr_lock := 0\<rparr> = (frame_at f (km_mm s))\<lparr>bkt_desc := d\<rparr>"
    by (metis frame_t.update_convs(3,4) frame_t.surjective)
  show "set_frame_bucket (of_nat f) d s = Some (s\<lparr>km_mm := mm_bkt f d (km_mm s)\<rparr>)"
    using f by (simp add: set_frame_bucket_def op_norm mm_bkt_def)
  show "set_frame_bucket_locked (of_nat f) d s = Some (s\<lparr>km_mm := mm_bkt f d (km_mm s)\<rparr>)"
    using f l by (simp add: set_frame_bucket_locked_def op_norm mm_bkt_def r)
qed

section \<open>Linking\<close>

text \<open>The words after \<open>bucket_link\<close>.\<close>

definition link_words :: "u32 \<Rightarrow> nat \<Rightarrow> km_view \<Rightarrow> (u32 \<Rightarrow> u32) \<Rightarrow> u32 \<Rightarrow> u32" where
  "link_words d i V w = (case class_pages V i of [] \<Rightarrow> w(d + 4 := d)
     | p # _ \<Rightarrow> let n = pg_desc p in w(d := w n, d + 4 := w (n + 4), d + 8 := w (n + 8), d + 12 := w (n + 12), n + 4 := d))"

definition link_mm :: "u32 \<Rightarrow> nat \<Rightarrow> km_view \<Rightarrow> mm_state \<Rightarrow> mm_state" where
  "link_mm d i V m = (case class_pages V i of [] \<Rightarrow> m | p # _ \<Rightarrow> mm_bkt (pg_frame p) d m)"

definition link_dir :: "u32 \<Rightarrow> dir_desc \<Rightarrow> dir_desc" where
  "link_dir h b = b\<lparr>dir_chain := h, dir_list_len := dir_list_len b + 1\<rparr>"

lemma head_span_desc: "x \<in> {d, d + 4, d + 8, d + 12} \<Longrightarrow> x \<in> span d 16"
  by auto

lemma bucket_link_ok:
  assumes s: "km_body s V" and i: "i < 10" and d: "spare V d"
  shows "bucket_link i d s = Some (head_desc d i V, s\<lparr>words := link_words d i V (words s), km_mm := link_mm d i V (km_mm s),
      bucket_dir := (bucket_dir s)(i := link_dir (head_desc d i V) (bucket_dir s i))\<rparr>)"
proof -
  note s' = km_bodyD [OF s]
  have r: "ring_ok (words s) (dir_chain (bucket_dir s i)) (map pg_desc (class_pages V i))" by (rule s'(7) [OF i])
  show ?thesis
  proof (cases "class_pages V i")
    case Nil
    then have "dir_chain (bucket_dir s i) = 0" using r by (simp add: ring_ok_def)
    then show ?thesis using Nil
      by (simp add: bucket_link_def Let_def upd_dir_def poke_def link_words_def link_mm_def link_dir_def head_desc_def)
  next
    case (Cons p ps)
    let ?n = "pg_desc p"
    have p: "p \<in> set (vw_pages V)" using class_pages_set [of p V i] Cons by simp
    have c: "dir_chain (bucket_dir s i) = ?n" using r Cons by (simp add: ring_ok_def)
    note nm = desc_mem(1) [OF p]
    have n0: "?n \<noteq> 0" using desc_slot [OF s'(1) nm] by simp
    obtain g where g: "g \<in> set (vw_dframes V)" "d \<in> set (bk_slots g)" and dn: "d \<noteq> ?n" using d nm by (auto simp: spare_def)
    have "span d 16 \<inter> span ?n 16 = {}"
      using viewD(6) [OF s'(1) nm] viewD(5) [OF s'(1)] g bk_spans_apart dn by meson
    then have a: "?n \<notin> {d, d + 4, d + 8, d + 12}" "?n + 4 \<notin> {d, d + 4, d + 8, d + 12}"
      using head_span_desc [of _ d] head_span_desc [of _ ?n] by blast+
    have pf: "pg_frame p < 8192" using viewD(4) [OF s'(1) p] by simp
    have "words s ?n = page_addr (pg_frame p)" using s'(8) [OF p] by (simp add: page_ok_def)
    moreover have "in_page (pg_frame p) (page_addr (pg_frame p))" unfolding in_page_def by (rule exI [of _ 0]) simp
    ultimately have fi: "to_fr_idx (to_paddr (words s ?n)) = of_nat (pg_frame p)" using in_page_frame pf by simp
    show ?thesis using a n0 c Cons
      by (simp add: bucket_link_def Let_def bk_copy_def bk_page_def fi set_bucket_ok s'(4) pf upd_dir_def link_words_def link_mm_def link_dir_def head_desc_def)
        (auto simp: poke_def intro!: km_state.equality dir_desc.equality)
  qed
qed

section \<open>Filling\<close>

lemma step_size: "i < 10 \<Longrightarrow> 4 * drop_bit 2 (ucast (of_nat (osz i) :: u16)) = (of_nat (osz i) :: u32)"
  by (drule class_cases) (auto simp: osz_def)

lemma page_count: "i < 10 \<Longrightarrow> unat PAGE_SIZE div unat (of_nat (osz i) :: u16) = onum i"
  by (drule class_cases) (auto simp: osz_def onum_def PAGE_SIZE_def)

lemma set_size_words:
  "set_bk_obj_size d sz (set_bk_ref_cnt d rc s) = poke (d + 12) (counts sz rc) s"
  by (simp add: set_bk_obj_size_def set_bk_ref_cnt_def set_bk_counts_counts bk_ref_cnt_def) (simp add: poke_def)

lemma page_init_fields [simp]:
  "km_mm (page_init n z p s) = km_mm s" "bucket_dir (page_init n z p s) = bucket_dir s" "cache_dir (page_init n z p s) = cache_dir s"
  "free_bucket_desc (page_init n z p s) = free_bucket_desc s" "free_bucket_lock (page_init n z p s) = free_bucket_lock s"
  by (subst page_init_state, simp)+

lemma set_ref_dir [simp]: "bucket_dir (set_bk_ref_cnt d rc s) = bucket_dir s"
  by (simp add: set_bk_ref_cnt_def set_bk_counts_counts)

definition fill_words :: "nat \<Rightarrow> nat \<Rightarrow> u32 \<Rightarrow> (u32 \<Rightarrow> u32) \<Rightarrow> u32 \<Rightarrow> u32" where
  "fill_words i f h w = w(h := page_addr f, h + 8 := page_addr f, h + 12 := counts (of_nat (osz i)) 0)"

lemma bucket_fill_ok:
  assumes m: "buddy_inv (km_mm s)" "free_frames (km_mm s) \<noteq> {}" and i: "i < 10" "dir_obj_size (bucket_dir s i) = of_nat (osz i)"
  obtains f m u where "alloc_page (km_mm s) = Some (page_addr f, m)" "0 < f" "f < 8192" "f \<in> free_frames (km_mm s)"
    "buddy_inv m" "holds_run m f 1" "free_frames m = free_frames (km_mm s) - {f}"
    "\<And>j k. holds_run (km_mm s) j k \<Longrightarrow> holds_run m j k" "same_bkt (km_mm s) m"
    "bucket_fill i h s = Some u" "km_mm u = mm_bkt f h m" "bucket_dir u = bucket_dir s" "cache_dir u = cache_dir s"
    "free_bucket_desc u = free_bucket_desc s" "free_bucket_lock u = free_bucket_lock s"
    "path (words u) (page_addr f) (objs i f) 0" "\<And>x. \<not> in_page f x \<Longrightarrow> words u x = fill_words i f h (words s) x"
proof -
  obtain f m where a: "alloc_page (km_mm s) = Some (page_addr f, m)" "0 < f" "f < 8192" "f \<in> free_frames (km_mm s)"
    "buddy_inv m" "holds_run m f 1" "free_frames m = free_frames (km_mm s) - {f}"
    "\<forall>j k. holds_run (km_mm s) j k \<longrightarrow> holds_run m j k" "same_bkt (km_mm s) m"
    using alloc_page_step [OF m(1)] m(2) by blast
  let ?t = "s\<lparr>km_mm := mm_bkt f h m, words := fill_words i f h (words s)\<rparr>"
  have "in_page f (page_addr f)" unfolding in_page_def by (rule exI [of _ 0]) simp
  then have fi: "to_fr_idx (to_paddr (page_addr f)) = of_nat f" using in_page_frame a(3) by simp
  have w: "fill_words i f h (words s) h = page_addr f" by (simp add: fill_words_def)
  let ?u = "page_init (onum i - 1) (of_nat (osz i)) (page_addr f) ?t"
  let ?v = "poke (h + 12) (counts (of_nat (osz i)) 0) (poke (h + 8) (page_addr f) (poke h (page_addr f) (s\<lparr>km_mm := m\<rparr>)))"
  have v: "set_frame_bucket (of_nat f) h ?v = Some ?t"
    using set_bucket_ok(1) [of ?v f h] a(3,5) by (simp add: poke_def fill_words_def)
  have "bucket_fill i h s = Some ?u"
    by (simp add: bucket_fill_def on_frames_def a(1) set_size_words Let_def bk_page_def i(2) fi v w step_size [OF i(1)] page_count [OF i(1)])
  then show thesis
    using that [of f m ?u] a page_init_objs [OF i(1) a(3), where s = ?t] by simp
qed

section \<open>The new bucket\<close>

lemma head_slot: "view_ok V \<Longrightarrow> spare V d \<Longrightarrow> \<exists>g \<in> set (vw_dframes V). head_desc d i V \<in> set (bk_slots g)"
proof (cases "class_pages V i")
  case (Cons p ps)
  assume V: "view_ok V"
  have "p \<in> set (vw_pages V)" using class_pages_set [of p V i] Cons by simp
  from viewD(6) [OF V desc_mem(1) [OF this]] show ?thesis using Cons by (simp add: head_desc_def)
qed (simp add: head_desc_def spare_def)

lemma words_beside:
  assumes u: "\<And>x. \<not> in_page f x \<Longrightarrow> wu x = fill_words i f (head_desc d i V) (link_words d i V w) x"
    and x: "x \<notin> span d 16" "x \<notin> span (head_desc d i V) 16" "\<not> in_page f x"
  shows "wu x = w x"
proof -
  have a: "x \<notin> {d, d + 4, d + 8, d + 12}" "x \<notin> {head_desc d i V, head_desc d i V + 4, head_desc d i V + 8, head_desc d i V + 12}"
    using x(1,2) head_span_desc by blast+
  then show ?thesis using u [OF x(3)] by (auto simp: fill_words_def link_words_def head_desc_def Let_def split: list.splits)
qed

lemma new_words:
  assumes V: "view_ok V" and i: "i < 10" and d: "spare V d" and f: "f < 8192" "f \<notin> set (all_frames V)"
    and u: "\<And>x. \<not> in_page f x \<Longrightarrow> wu x = fill_words i f (head_desc d i V) (link_words d i V w) x"
    and p: "path wu (page_addr f) (objs i f) 0"
  shows "e \<in> set (all_descs V) \<Longrightarrow> e \<noteq> head_desc d i V \<Longrightarrow> x \<in> span e 16 \<Longrightarrow> wu x = w x"
    and "q \<in> set (vw_pages V) \<Longrightarrow> a \<in> pg_objs q \<Longrightarrow> x \<in> span a (osz (pg_class q)) \<Longrightarrow> wu x = w x"
    and "class_pages V i = [] \<Longrightarrow> wu (d + 4) = d"
    and "class_pages V i = r # rs \<Longrightarrow> wu d = w (pg_desc r) \<and> wu (d + 4) = w (pg_desc r + 4) \<and> wu (d + 8) = w (pg_desc r + 8)
      \<and> wu (d + 12) = w (pg_desc r + 12) \<and> wu (pg_desc r + 4) = d"
    and "page_ok wu (new_page d i f V)"
proof -
  let ?h = "head_desc d i V"
  obtain g where g: "g \<in> set (vw_dframes V)" "?h \<in> set (bk_slots g)" using head_slot [OF V d] by blast
  obtain k where k: "k \<in> set (vw_dframes V)" "d \<in> set (bk_slots k)" using d by (auto simp: spare_def)
  have out: "\<not> in_page f x" if b: "b \<in> set (vw_dframes V)" "c \<in> set (bk_slots b)" "x \<in> span c 16" for b c x
  proof
    assume "in_page f x"
    moreover have b8: "b < 8192" using viewD(5) [OF V b(1)] by simp
    moreover have "in_page b x" by (rule bk_span [OF b8 b(2,3)])
    ultimately have "b = f" using in_page_unique f(1) by blast
    then show False using f(2) b(1) by (simp add: all_frames_def)
  qed
  have apart: "span c 16 \<inter> span e 16 = {}" if "b \<in> set (vw_dframes V)" "c \<in> set (bk_slots b)" "b' \<in> set (vw_dframes V)" "e \<in> set (bk_slots b')" "c \<noteq> e" for b c b' e
    using bk_spans_apart that viewD(5) [OF V] by blast
  have beside: "wu x = w x" if "x \<notin> span d 16" "x \<notin> span ?h 16" "\<not> in_page f x" for x
    by (rule words_beside [of f wu i d V w x]) (use u that in simp_all)
  show "wu x = w x" if e: "e \<in> set (all_descs V)" "e \<noteq> ?h" "x \<in> span e 16"
  proof -
    obtain b where b: "b \<in> set (vw_dframes V)" "e \<in> set (bk_slots b)" using viewD(6) [OF V e(1)] by blast
    have "e \<noteq> d" using e(1) d by (auto simp: spare_def)
    then have "x \<notin> span d 16" "x \<notin> span ?h 16" using apart [OF b k] apart [OF b g] e(2,3) by blast+
    then show ?thesis by (rule beside) (rule out [OF b e(3)])
  qed
  show "wu x = w x" if q: "q \<in> set (vw_pages V)" "a \<in> pg_objs q" "x \<in> span a (osz (pg_class q))"
  proof -
    have "x \<notin> span d 16" "x \<notin> span ?h 16" using desc_obj_frames [OF V k q(1,2)] desc_obj_frames [OF V g q(1,2)] q(3) by blast+
    moreover have "\<not> in_page f x"
    proof
      assume "in_page f x"
      moreover have c: "pg_class q < 10" "pg_frame q < 8192" using viewD(4,7) [OF V q(1)] by auto
      moreover have "in_page (pg_frame q) x" by (rule obj_span [OF c(1) q(2,3)])
      ultimately have "pg_frame q = f" using in_page_unique f(1) by blast
      then show False using f(2) q(1) by (auto simp: all_frames_def)
    qed
    ultimately show ?thesis by (rule beside)
  qed
  have wd: "wu x = fill_words i f ?h (link_words d i V w) x" if "x \<in> {d, d + 4, d + 8, d + 12}" for x
    by (rule u, rule out [OF k], rule head_span_desc, rule that)
  have wh: "wu x = fill_words i f ?h (link_words d i V w) x" if "x \<in> {?h, ?h + 4, ?h + 8, ?h + 12}" for x
    by (rule u, rule out [OF g], rule head_span_desc, rule that)
  show "wu (d + 4) = d" if "class_pages V i = []"
    using wd [of "d + 4"] that by (simp add: fill_words_def link_words_def head_desc_def)
  show "wu d = w (pg_desc r) \<and> wu (d + 4) = w (pg_desc r + 4) \<and> wu (d + 8) = w (pg_desc r + 8)
      \<and> wu (d + 12) = w (pg_desc r + 12) \<and> wu (pg_desc r + 4) = d" if c: "class_pages V i = r # rs"
  proof -
    have h: "?h = pg_desc r" using c by (simp add: head_desc_def)
    have "pg_desc r \<in> set (all_descs V)" using class_pages_set [of r V i] c desc_mem(1) by simp
    then have "d \<noteq> ?h" using d h by (auto simp: spare_def)
    from apart [OF k g this] have "x \<noteq> y" "y \<noteq> x" if "x \<in> {d, d + 4, d + 8, d + 12}" "y \<in> {?h, ?h + 4, ?h + 8, ?h + 12}" for x y
      using head_span_desc that by blast+
    note n = this [unfolded h]
    have "fill_words i f ?h (link_words d i V w) x = link_words d i V w x" if "x \<in> {d, d + 4, d + 8, d + 12}" for x
      using n(1) [OF that] unfolding h by (simp add: fill_words_def)
    moreover have "fill_words i f ?h (link_words d i V w) (pg_desc r + 4) = d"
      unfolding h by (simp add: fill_words_def link_words_def c Let_def)
    moreover have "link_words d i V w d = w (pg_desc r)" "link_words d i V w (d + 4) = w (pg_desc r + 4)"
      "link_words d i V w (d + 8) = w (pg_desc r + 8)" "link_words d i V w (d + 12) = w (pg_desc r + 12)"
      using n [of d "pg_desc r + 4"] n [of "d + 4" "pg_desc r + 4"] n [of "d + 8" "pg_desc r + 4"] n [of "d + 12" "pg_desc r + 4"]
      by (simp_all add: link_words_def c Let_def)
    ultimately show ?thesis using wd wh [of "?h + 4"] h by simp
  qed
  have "length (objs i f) = onum i" by (simp add: objs_def)
  then show "page_ok wu (new_page d i f V)"
    using wh [of ?h] wh [of "?h + 8"] wh [of "?h + 12"] p by (simp add: page_ok_def fill_words_def)
qed

text \<open>The new page and the frame table: the ring keeps its descriptors, the head gets the page.\<close>

lemma frames_with_page:
  assumes V: "view_ok V" and fr: "frames_ok mt V" and f: "f < 8192" "f \<notin> set (all_frames V)"
    and m: "buddy_inv m" "holds_run m f 1" "\<And>g. holds_run mt g 1 \<Longrightarrow> holds_run m g 1" "same_bkt (link_mm d i V mt) m"
  shows "frames_ok (mm_bkt f (head_desc d i V) m) (with_page d i f V)"
proof -
  have b: "bkt_desc (frame_tab m x) = bkt_desc (frame_tab (link_mm d i V mt) x)" for x using m(4) by (simp add: same_bkt_def)
  have "bkt_desc (frame_tab (mm_bkt f (head_desc d i V) m) (of_nat (pg_frame p))) = pg_desc p" if p: "p \<in> set (moved d i V)" for p
  proof -
    have "pg_frame p \<in> set (map pg_frame (vw_pages V))" using p moved_frames [of d i V] by (metis imageI list.set_map)
    then have pf: "pg_frame p < 8192" "pg_frame p \<noteq> f" using f(2) viewD(4) [OF V] by (auto simp: all_frames_def)
    have "bkt_desc (frame_tab (link_mm d i V mt) (of_nat (pg_frame p))) = pg_desc p"
    proof (cases "class_pages V i")
      case Nil
      then show ?thesis using fr p by (simp add: frames_ok_def link_mm_def moved_def)
    next
      case (Cons r rs)
      have r: "r \<in> set (vw_pages V)" using class_pages_set [of r V i] Cons by simp
      obtain q where q: "q \<in> set (vw_pages V)" "p = mv r d q" using p Cons by (auto simp: moved_def)
      have "pg_frame q = pg_frame r \<longleftrightarrow> q = r" using page_eq [OF V q(1) r] by blast
      then show ?thesis using fr q r viewD(4) [OF V] Cons
        by (simp add: frames_ok_def link_mm_def mm_bkt_desc mv_def)
    qed
    then show ?thesis using f(1) pf b by (simp add: mm_bkt_desc)
  qed
  moreover have "bkt_desc (frame_tab (mm_bkt f (head_desc d i V) m) (of_nat f)) = head_desc d i V" using f(1) by (simp add: mm_bkt_desc)
  moreover have "holds_run m g 1" if "g \<in> set (all_frames V)" for g using m(3) that fr by (simp add: frames_ok_def)
  ultimately show ?thesis using m(1,2) unfolding frames_ok_def by (simp add: all_frames_def moved_frames)
qed

lemma within_with_page:
  assumes V: "view_ok V" and d: "spare V d" and f: "f \<in> free_frames (km_mm t)"
    and m: "free_frames (km_mm u) = free_frames (km_mm t) - {f}" "\<And>j. holds_run (km_mm t) j 1 \<Longrightarrow> holds_run (km_mm u) j 1"
    and w: "\<And>x. \<not> in_page f x \<Longrightarrow> words u x = fill_words i f (head_desc d i V) (link_words d i V (words t)) x"
  shows "within t V u (with_page d i f V)"
proof -
  have ter: "territory (km_mm u) (with_page d i f V) = territory (km_mm t) V" "f \<in> territory (km_mm t) V"
    using f unfolding territory_def m(1) by (auto simp: all_frames_def moved_frames)
  obtain g where g: "g \<in> set (vw_dframes V)" "head_desc d i V \<in> set (bk_slots g)" using head_slot [OF V d] by blast
  obtain k where k: "k \<in> set (vw_dframes V)" "d \<in> set (bk_slots k)" using d by (auto simp: spare_def)
  have "\<exists>g \<in> territory (km_mm t) V. in_page g x" if "words u x \<noteq> words t x" for x
  proof -
    have "x \<in> span d 16 \<or> x \<in> span (head_desc d i V) 16 \<or> in_page f x" using words_beside [of f "words u" i d V "words t" x] w that by blast
    then show ?thesis using slot_place [OF V g] slot_place [OF V k] ter(2) by (auto simp: territory_def)
  qed
  then show ?thesis using ter(1) m(2) by (simp add: within_def)
qed

lemma bucket_new_ok:
  assumes s: "km_body s V" "free_bucket_lock s = 0" and i: "i < 10" and fr: "2 \<le> card (free_frames (km_mm s))"
  obtains d u W q where "bucket_new i s = Some (d, u)" "km_body u W" "in_use W = in_use V" "vw_cached W = vw_cached V" "keeps (in_use V) s u"
    "q \<in> set (vw_pages W)" "pg_class q = i" "pg_desc q = d" "pg_free q \<noteq> []"
    "\<forall>j. dir_lock (bucket_dir u j) = dir_lock (bucket_dir s j)" "cache_dir u = cache_dir s" "free_bucket_lock u = 0" "within s V u W"
proof -
  have "free_frames (km_mm s) \<noteq> {}" using fr by auto
  then obtain d t W where t: "desc_take s = Some (d, t)" "km_body t W" "spare W d" "vw_pages W = vw_pages V" "vw_cached W = vw_cached V"
    "keeps (in_use V) s t" "bucket_dir t = bucket_dir s" "cache_dir t = cache_dir s" "free_bucket_lock t = 0"
    "card (free_frames (km_mm s)) \<le> card (free_frames (km_mm t)) + 1" "within s V t W"
    by (rule_tac desc_take_ok [OF s]) simp_all
  note t' = km_bodyD [OF t(2)]
  let ?h = "head_desc d i W"
  let ?l = "t\<lparr>words := link_words d i W (words t), km_mm := link_mm d i W (km_mm t),
      bucket_dir := (bucket_dir t)(i := link_dir ?h (bucket_dir t i))\<rparr>"
  have link: "bucket_link i d t = Some (?h, ?l)" by (rule bucket_link_ok [OF t(2) i t(3)])
  have mm: "buddy_inv (km_mm ?l)" "free_frames (km_mm ?l) = free_frames (km_mm t)" "holds_run (km_mm ?l) = holds_run (km_mm t)"
    using t'(4) by (auto simp: link_mm_def split: list.splits)
  have "free_frames (km_mm ?l) \<noteq> {}" using t(10) fr unfolding mm(2) by auto
  moreover have "dir_obj_size (bucket_dir ?l i) = of_nat (osz i)" using t'(11) [of i] i by (simp add: link_dir_def km_size)
  ultimately obtain f m u where f: "alloc_page (km_mm ?l) = Some (page_addr f, m)" "0 < f" "f < 8192" "f \<in> free_frames (km_mm ?l)"
    "buddy_inv m" "holds_run m f 1" "free_frames m = free_frames (km_mm ?l) - {f}"
    "\<And>j k. holds_run (km_mm ?l) j k \<Longrightarrow> holds_run m j k" "same_bkt (km_mm ?l) m"
    "bucket_fill i ?h ?l = Some u" "km_mm u = mm_bkt f ?h m" "bucket_dir u = bucket_dir ?l" "cache_dir u = cache_dir ?l"
    "free_bucket_desc u = free_bucket_desc ?l" "free_bucket_lock u = free_bucket_lock ?l"
    "path (words u) (page_addr f) (objs i f) 0" "\<And>x. \<not> in_page f x \<Longrightarrow> words u x = fill_words i f ?h (words ?l) x"
    by (rule bucket_fill_ok [OF mm(1) _ i, of ?h]) blast
  have fn: "f \<notin> set (all_frames W)"
  proof
    assume "f \<in> set (all_frames W)"
    then have "holds_run (km_mm ?l) f 1" using t'(3) unfolding mm(3) by (simp add: frames_ok_def)
    then show False using held_not_free [OF mm(1)] f(4) by blast
  qed
  have wu: "words u x = fill_words i f ?h (link_words d i W (words t)) x" if "\<not> in_page f x" for x using f(17) [OF that] by simp
  note nw = new_words [OF t'(1) i t(3) f(3) fn wu f(16)]
  let ?W = "with_page d i f W"
  have fr': "all_frames ?W = f # all_frames W" by (simp add: all_frames_def moved_frames)
  have "(\<lambda>j. dir_chain (bucket_dir u j)) = (\<lambda>j. dir_chain (bucket_dir t j))(i := ?h)"
    using f(12) by (auto simp: link_dir_def fun_eq_iff)
  moreover have "mem_ok (words u) (free_bucket_desc t) ((\<lambda>j. dir_chain (bucket_dir t j))(i := ?h)) (\<lambda>j. ch_object (cache_dir t j)) ?W"
    by (rule mem_with_page [OF t'(1,5) i t(3) nw])
  ultimately have mem: "mem_ok (words u) (free_bucket_desc u) (\<lambda>j. dir_chain (bucket_dir u j)) (\<lambda>j. ch_object (cache_dir u j)) ?W"
    using f(13,14) by simp
  have "length (class_pages ?W j) = length (class_pages W j) + (if j = i then 1 else 0)" for j
    using class_with_page [OF t'(1), of d i f j] by (auto split: list.splits)
  then have dirs: "dirs_ok u ?W" using t'(2) f(12,13) by (auto simp: dirs_ok_def link_dir_def)
  have frames: "frames_ok (km_mm u) ?W"
    unfolding f(11) by (rule frames_with_page [OF t'(1,3) f(3) fn f(5,6)]) (use f(8,9) mm(3) in simp_all)
  have body: "km_body u ?W"
    using view_with_page [OF t'(1) i f(2,3) fn t(3)] mem dirs frames by (simp add: km_body_def)
  have use: "in_use W = in_use V" by (simp add: in_use_def t(4,5))
  have "words u x = words t x" if a: "(a, j) \<in> in_use V" "x \<in> span a (osz j)" for a j x
  proof -
    have "(a, j) \<in> in_use W" using a(1) use by simp
    then obtain p where "p \<in> set (vw_pages W)" "a \<in> pg_objs p" "pg_class p = j" by (auto simp: in_use_def)
    then show ?thesis using nw(2) a(2) by blast
  qed
  then have "keeps (in_use V) t u" by (simp add: keeps_def)
  then have k: "keeps (in_use V) s u" by (rule keeps_trans [OF t(6)])
  have "within t W u ?W"
    by (rule within_with_page [OF t'(1) t(3) _ _ _ wu]) (use f(4,7,8,11) mm(2,3) in simp_all)
  then have wi: "within s V u ?W" by (rule within_trans [OF t(11)])
  have new: "bucket_new i s = Some (?h, u)" by (simp add: bucket_new_def t(1) link f(10))
  have "objs i f \<noteq> []" using onum_pos [OF i] by (simp add: objs_def)
  then show thesis
    using that [OF new body _ _ k, of "new_page d i f W"] in_use_with_page [OF t'(1)] use t(5,7-9) f(12,13,15) wi by (simp add: link_dir_def)
qed

end
