(* ===== verification/KmallocSafe.thy ===== *)
theory KmallocSafe
  imports KmallocGrow
begin

text \<open>
  What \<open>kmalloc\<close> and \<open>kfree\<close> promise their callers.
\<close>

section \<open>The calls\<close>

lemma relock_cache: "ch_lock (cache_dir s i) = 0 \<Longrightarrow> unlock_cache i (upd_cache i (\<lambda>c. c\<lparr>ch_lock := 1\<rparr>) s) = s"
  by (auto simp: unlock_cache_def upd_cache_def spin_unlock_def intro!: km_state.equality cache_desc.equality)

lemma unlock_poke: "poke a v (unlock_bucket i s) = unlock_bucket i (poke a v s)"
  by (simp add: poke_def unlock_bucket_def upd_dir_def)

lemma in_use_taken:
  assumes V: "view_ok V" and i: "i < 10" and c: "vw_cached V i = a # cs"
  shows "in_use (V\<lparr>vw_cached := (vw_cached V)(i := cs)\<rparr>) = insert (a, i) (in_use V)" "(a, i) \<notin> in_use V"
proof -
  have "distinct (a # cs)" "\<exists>p \<in> set (vw_pages V). pg_class p = i \<and> a \<in> pg_objs p \<and> a \<notin> set (pg_gone p)"
    using viewD(8,9) [OF V i] c by auto
  then show "in_use (V\<lparr>vw_cached := (vw_cached V)(i := cs)\<rparr>) = insert (a, i) (in_use V)" "(a, i) \<notin> in_use V"
    using i c by (auto simp: in_use_def split: if_splits)
qed

lemma in_use_given:
  "(a, i) \<in> in_use V \<Longrightarrow> in_use (V\<lparr>vw_cached := (vw_cached V)(i := a # vw_cached V i)\<rparr>) = in_use V - {(a, i)}"
  by (auto simp: in_use_def split: if_splits)

lemma unlock_body:
  assumes "km_body t W" "\<And>j. dir_lock (bucket_dir t j) = (if j = i then 1 else dir_lock (bucket_dir s j))" "cache_dir t = cache_dir s"
    "free_bucket_lock t = 0" "unlocked s"
  shows "km_inv (unlock_bucket i t) W"
proof -
  have "unlocked (unlock_bucket i t)" using assms(2-5) by (auto simp: unlocked_def unlock_bucket_def upd_dir_def spin_unlock_def)
  then show ?thesis using assms(1) by (simp add: km_inv_def)
qed

text \<open>A page of the class with a free object: one of the ring, or a new one.\<close>

lemma bucket_found:
  assumes s: "km_inv s V" and i: "i < 10" and fr: "2 \<le> card (free_frames (km_mm s))"
  defines "l \<equiv> upd_dir i (\<lambda>b. b\<lparr>dir_lock := 1\<rparr>) s"
  obtains d e u W q where "(if dir_chain (bucket_dir l i) \<noteq> 0 then bucket_find (dir_chain (bucket_dir l i)) l (dir_chain (bucket_dir l i)) else Some 0) = Some d"
    "(if d = 0 \<or> bk_free_ptr l d = 0 then bucket_new i l else Some (d, l)) = Some (e, u)"
    "km_body u W" "in_use W = in_use V" "keeps (in_use V) s u" "q \<in> set (vw_pages W)" "pg_class q = i" "pg_desc q = e" "pg_free q \<noteq> []"
    "\<And>j. dir_lock (bucket_dir u j) = (if j = i then 1 else dir_lock (bucket_dir s j))" "cache_dir u = cache_dir s" "free_bucket_lock u = 0"
    "vw_cached W = vw_cached V" "within s V u W"
proof -
  note result = that
  have lb: "km_body l V" using km_unlocked(1) [OF s] by (simp add: l_def)
  have fb: "free_bucket_lock s = 0" by (rule km_unlocked(4) [OF s])
  obtain d where d: "(if dir_chain (bucket_dir l i) \<noteq> 0 then bucket_find (dir_chain (bucket_dir l i)) l (dir_chain (bucket_dir l i)) else Some 0) = Some d"
    "(d = 0 \<or> bk_free_ptr l d = 0) \<and> (\<forall>p \<in> set (class_pages V i). pg_free p = [])
      \<or> d \<noteq> 0 \<and> bk_free_ptr l d \<noteq> 0 \<and> (\<exists>p \<in> set (class_pages V i). pg_desc p = d \<and> pg_free p \<noteq> [])"
    by (rule bucket_find_ok [OF lb i])
  show thesis
  proof (cases "d = 0 \<or> bk_free_ptr l d = 0")
    case True
    have "free_bucket_lock l = 0" "2 \<le> card (free_frames (km_mm l))" using fb fr by (simp_all add: l_def upd_dir_def)
    then obtain e u W q where r: "bucket_new i l = Some (e, u)" "km_body u W" "in_use W = in_use V" "vw_cached W = vw_cached V" "keeps (in_use V) l u"
      "q \<in> set (vw_pages W)" "pg_class q = i" "pg_desc q = e" "pg_free q \<noteq> []"
      "\<forall>j. dir_lock (bucket_dir u j) = dir_lock (bucket_dir l j)" "cache_dir u = cache_dir l" "free_bucket_lock u = 0" "within l V u W"
      by (rule bucket_new_ok [OF lb _ i])
    show ?thesis by (rule result [OF d(1), of e u W q]) (use r True in \<open>simp_all add: l_def upd_dir_def keeps_def within_def\<close>)
  next
    case False
    then obtain p where p: "p \<in> set (class_pages V i)" "pg_desc p = d" "pg_free p \<noteq> []" using d(2) by blast
    show ?thesis by (rule result [OF d(1), of d l V p]) (use p False lb fb in \<open>simp_all add: l_def class_pages_set upd_dir_def keeps_def within_def\<close>)
  qed
qed

text \<open>What \<open>kmalloc\<close> does to the view.\<close>

definition handed_out :: "km_state \<Rightarrow> km_view \<Rightarrow> nat \<Rightarrow> u32 \<Rightarrow> km_state \<Rightarrow> km_view \<Rightarrow> bool" where
  "handed_out s V i a t W \<longleftrightarrow> km_inv t W \<and> in_use W = insert (a, i) (in_use V) \<and> (a, i) \<notin> in_use V \<and> keeps (in_use V) s t
     \<and> vw_cached W = (vw_cached V)(i := tl (vw_cached V i)) \<and> within s V t W"

lemma kmalloc_cached:
  assumes s: "km_inv s V" and i: "i < 10" and cl: "bucket_class 11 (\<lambda>i. dir_obj_size (bucket_dir s i)) len 0 = Some i"
    and c: "vw_cached V i = a # cs"
  obtains t W where "kmalloc len s = Some (a, t)" "handed_out s V i a t W"
proof -
  note b = km_unlocked(1) [OF s]
  note s' = km_bodyD [OF b]
  have l: "ch_lock (cache_dir s i) = 0" using km_unlocked(2) [OF s] i by simp
  have "length (vw_cached V i) < 65536" using viewD(8) [OF s'(1) i] by simp
  then have "unat (ch_list_len (cache_dir s i)) = length (vw_cached V i)" using s'(9) [OF i] by (simp add: unat_of_nat)
  then have pos: "ch_list_len (cache_dir s i) > 0" using c by (simp add: word_less_nat_alt)
  have same_len: "ch_list_len (cache_dir (upd_cache i (\<lambda>c. c\<lparr>ch_lock := 1\<rparr>) s) i) = ch_list_len (cache_dir s i)" by (simp add: upd_cache_def)
  obtain t where t: "cache_take i (upd_cache i (\<lambda>c. c\<lparr>ch_lock := 1\<rparr>) s) = (a, t)"
    "km_body t (V\<lparr>vw_cached := (vw_cached V)(i := cs)\<rparr>)" "km_mm t = km_mm s" "unlocked s \<longrightarrow> unlocked t" "keeps (in_use V) s t"
    "within s V t (V\<lparr>vw_cached := (vw_cached V)(i := cs)\<rparr>)"
    using cache_take_ok [OF b i c] .
  have "kmalloc len s = Some (a, t)" using cl lock_cache_ok [OF l] t(1) pos by (simp add: kmalloc_def same_len)
  moreover have "handed_out s V i a t (V\<lparr>vw_cached := (vw_cached V)(i := cs)\<rparr>)"
    unfolding handed_out_def using in_use_taken [OF s'(1) i c] t(2,4-6) s c by (simp add: km_inv_def)
  ultimately show thesis by (rule that)
qed

lemma kmalloc_from_page:
  assumes s: "km_inv s V" and i: "i < 10" and cl: "bucket_class 11 (\<lambda>i. dir_obj_size (bucket_dir s i)) len 0 = Some i"
    and c: "vw_cached V i = []" and fr: "2 \<le> card (free_frames (km_mm s))"
  obtains a t W where "kmalloc len s = Some (a, t)" "handed_out s V i a t W"
proof -
  note s' = km_bodyD [OF km_unlocked(1) [OF s]]
  have l: "ch_lock (cache_dir s i) = 0" "dir_lock (bucket_dir s i) = 0" using km_unlocked(2,3) [OF s] i by simp_all
  have zero: "ch_list_len (cache_dir s i) = 0" using s'(9) [OF i] c by simp
  have same_len: "ch_list_len (cache_dir (upd_cache i (\<lambda>c. c\<lparr>ch_lock := 1\<rparr>) s) i) = ch_list_len (cache_dir s i)" by (simp add: upd_cache_def)
  let ?s = "upd_dir i (\<lambda>b. b\<lparr>dir_lock := 1\<rparr>) s"
  have lb: "lock_bucket i s = Some ?s" using l(2) by (simp add: lock_bucket_def)
  have sz: "dir_obj_size (bucket_dir s i) \<noteq> - 1" using s'(11) [of i] i size_not_last [OF i] by (simp add: km_size)
  obtain d e u W q where e:
    "(if dir_chain (bucket_dir ?s i) \<noteq> 0 then bucket_find (dir_chain (bucket_dir ?s i)) ?s (dir_chain (bucket_dir ?s i)) else Some 0) = Some d"
    "(if d = 0 \<or> bk_free_ptr ?s d = 0 then bucket_new i ?s else Some (d, ?s)) = Some (e, u)"
    "km_body u W" "in_use W = in_use V" "keeps (in_use V) s u" "q \<in> set (vw_pages W)" "pg_class q = i" "pg_desc q = e" "pg_free q \<noteq> []"
    "\<And>j. dir_lock (bucket_dir u j) = (if j = i then 1 else dir_lock (bucket_dir s j))" "cache_dir u = cache_dir s" "free_bucket_lock u = 0"
    "vw_cached W = vw_cached V" "within s V u W" by (rule bucket_found [OF s i fr]) blast
  obtain a fs where af: "pg_free q = a # fs" using e(9) by (cases "pg_free q") auto
  let ?W = "page_set q (q\<lparr>pg_free := fs\<rparr>) W"
  obtain t where t: "page_take (pg_desc q) u = (a, t)" "km_body t ?W" "in_use ?W = insert (a, pg_class q) (in_use W)" "(a, pg_class q) \<notin> in_use W"
    "keeps (in_use W) u t" "km_mm t = km_mm u" "bucket_dir t = bucket_dir u" "cache_dir t = cache_dir u" "free_bucket_lock t = free_bucket_lock u"
    "within u W t ?W"
    by (rule page_take_ok [OF e(3,6) af])
  have take: "bk_free_ptr u e = a"
    "poke a 0 (set_bk_ref_cnt e (bk_ref_cnt (poke (e + 8) (words u a) u) e + 1) (poke (e + 8) (words u a) u)) = t"
    using t(1) unfolding e(8) by (auto simp: page_take_def Let_def)
  have "kmalloc len s = Some (a, unlock_bucket i t)"
    using cl e(1,2)
    by (simp add: kmalloc_def lock_cache_ok [OF l(1)] same_len zero relock_cache [OF l(1)] sz lb take Let_def unlock_poke split del: if_split)
  moreover have "km_inv (unlock_bucket i t) ?W"
    by (rule unlock_body [OF t(2), of i s]) (use t(7-9) e(10-12) s in \<open>simp_all add: km_inv_def\<close>)
  moreover have "keeps (in_use V) s (unlock_bucket i t)"
    using keeps_trans [OF e(5), of t] t(5) e(4) by (simp add: keeps_def unlock_bucket_def upd_dir_def)
  moreover have "(vw_cached V)(i := tl (vw_cached V i)) = vw_cached V" using c by (auto simp: fun_eq_iff)
  then have "vw_cached ?W = (vw_cached V)(i := tl (vw_cached V i))" using e(13) by (subst page_set_simps) simp_all
  moreover have "within s V (unlock_bucket i t) ?W"
    by (rule within_cong [OF within_trans [OF e(14) t(10)]]) (simp_all add: unlock_bucket_def upd_dir_def)
  ultimately show thesis using that [of a "unlock_bucket i t" ?W] t(3,4) e(4,7) by (simp add: handed_out_def)
qed

lemma kmalloc_steps:
  assumes s: "km_inv s V" and n: "unat len \<le> 4096" and fr: "2 \<le> card (free_frames (km_mm s))"
  obtains a t W where "kmalloc len s = Some (a, t)" "km_inv t W" "in_use W = insert (a, class_of (unat len)) (in_use V)"
    "(a, class_of (unat len)) \<notin> in_use V" "keeps (in_use V) s t"
    "vw_cached W = (vw_cached V)(class_of (unat len) := tl (vw_cached V (class_of (unat len))))" "within s V t W"
proof -
  note s' = km_bodyD [OF km_unlocked(1) [OF s]]
  have i: "class_of (unat len) < 10" using class_of [OF n] by simp
  have cl: "bucket_class 11 (\<lambda>i. dir_obj_size (bucket_dir s i)) len 0 = Some (class_of (unat len))"
    using bucket_class_of [of "\<lambda>i. dir_obj_size (bucket_dir s i)"] s'(11) n by simp
  obtain a t W where "kmalloc len s = Some (a, t)" "handed_out s V (class_of (unat len)) a t W"
    using kmalloc_cached [OF s i cl] kmalloc_from_page [OF s i cl _ fr] by (metis neq_Nil_conv)
  then show thesis using that unfolding handed_out_def by blast
qed

end
