(* ===== verification/KmallocReclaim.thy ===== *)
theory KmallocReclaim
  imports KmallocSafe
begin

text \<open>
  \<open>free_cache\<close>: each object in a cache is taken off its list and uncounted in its page, but not put on the free list of the page
  (the store into \<open>free_ptr\<close> writes back what was there). When no object of a page is counted any more the page goes back to the
  frame allocator, and the descriptor of the next page moves into its place.
\<close>

section \<open>The oldest object of a cache\<close>

lemma cache_drop_ok:
  assumes s: "km_body s V" and i: "i < 10" and c: "vw_cached V i = cs @ [a]"
  obtains t where "cache_drop i s = (a, t)" "km_body t (V\<lparr>vw_cached := (vw_cached V)(i := cs)\<rparr>)" "keeps (in_use V) s t"
    "km_mm t = km_mm s" "bucket_dir t = bucket_dir s" "free_bucket_lock t = free_bucket_lock s"
    "\<forall>j. ch_lock (cache_dir t j) = ch_lock (cache_dir s j)" "within s V t (V\<lparr>vw_cached := (vw_cached V)(i := cs)\<rparr>)"
proof -
  note s' = km_bodyD [OF s]
  have v: "distinct (cs @ [a])" "length (cs @ [a]) < 65536" using viewD(8) [OF s'(1) i] c by simp_all
  have n: "ch_list_len (cache_dir s i) - 1 = of_nat (length cs)" using s'(9) [OF i] c by simp
  have sl: "slot x" if "x \<in> set (cs @ [a])" for x using cached_slot [OF s'(1) i] c that by auto
  have r: "cache_ok (words s) (ch_object (cache_dir s i)) (cs @ [a])" using s'(6) [OF i] c by simp
  let ?l = "words s a" and ?ob = "if cs = [] then 0 else hd cs"
  define w where "w = (if cs = [] then (words s)(a + 4 := a, a := a) else (words s)(?l + 4 := hd cs, hd cs := ?l))"
  have res: "cache_drop i s = (a, cache_set i w ?ob (of_nat (length cs)) (ch_lock (cache_dir s i)) s)"
  proof (cases cs)
    case Nil
    then have "ch_object (cache_dir s i) = a" "words s a = a" using cview_ends [of "words s" _ a "[]"] r by simp_all
    then show ?thesis using n Nil
      by (simp add: cache_drop_def cache_eval w_def) (auto intro!: km_state.equality cache_desc.equality)
  next
    case (Cons b bs)
    have e: "ch_object (cache_dir s i) = b" "words s b = a" using cview_ends [of "words s" _ b "bs @ [a]"] r Cons by simp_all
    have "?l \<in> set cs" using drop_ring(2) [of "words s" _ b bs a] r sl Cons by auto
    then have "?l + 4 \<noteq> a" using slot_neq(1) [of ?l a] sl by simp
    moreover have "unat (of_nat (length cs) :: u16) = length cs" using v(2) by (simp add: unat_of_nat)
    then have "(of_nat (length cs) :: u16) \<noteq> 0" using Cons by (metis length_0_conv list.distinct(1) unat_0)
    moreover have "hd cs = b" "cs \<noteq> []" using Cons by simp_all
    ultimately show ?thesis using e n
      by (simp add: cache_drop_def cache_eval w_def) (auto intro!: km_state.equality cache_desc.equality)
  qed
  have ring: "cache_ok w ?ob cs"
  proof (cases cs)
    case (Cons b bs)
    then show ?thesis using drop_ring(1) [of "words s" _ b bs a] r sl by (simp add: w_def)
  qed (simp add: cache_ok_def)
  have ch: "\<exists>c \<in> set (vw_cached V i). x \<in> {c, c + 4}" if "w x \<noteq> words s x" for x
  proof (cases cs)
    case Nil
    then show ?thesis using that c by (auto simp: w_def split: if_splits)
  next
    case (Cons b bs)
    have "?l \<in> set cs" using drop_ring(2) [of "words s" _ b bs a] r sl Cons by auto
    then show ?thesis using that c Cons by (auto simp: w_def split: if_splits)
  qed
  show thesis
  proof (rule that [OF res])
    show "km_body (cache_set i w ?ob (of_nat (length cs)) (ch_lock (cache_dir s i)) s) (V\<lparr>vw_cached := (vw_cached V)(i := cs)\<rparr>)"
    proof (rule km_cached [OF s i ring])
      show "\<exists>p \<in> set (vw_pages V). pg_class p = i \<and> x \<in> pg_objs p \<and> x \<notin> set (pg_gone p)" if "x \<in> set cs" for x
        using viewD(9) [OF s'(1) i, of x] that c by simp
      show "busy V i x" if "w x \<noteq> words s x" for x using ch [OF that] cached_busy [OF s'(1) i] by blast
    qed (use v in simp_all)
    show "keeps (in_use V) s (cache_set i w ?ob (of_nat (length cs)) (ch_lock (cache_dir s i)) s)"
      by (rule keeps_cached [OF s'(1) i order_refl]) (use ch in auto)
    show "within s V (cache_set i w ?ob (of_nat (length cs)) (ch_lock (cache_dir s i)) s) (V\<lparr>vw_cached := (vw_cached V)(i := cs)\<rparr>)"
      by (rule within_cached [OF s'(1) i]) (use ch in auto)
  qed (simp_all add: cache_set_def)
qed

section \<open>Uncounting an object\<close>

text \<open>The stores of \<open>free_cache\<close> into the object and the descriptor.\<close>

definition page_lose :: "u32 \<Rightarrow> u32 \<Rightarrow> km_state \<Rightarrow> km_state" where
  "page_lose a d s = (let s = poke a (bk_free_ptr s d) s; s = poke (d + 8) (words s a) s in set_bk_ref_cnt d (bk_ref_cnt s d - 1) s)"

lemma page_lose_ok:
  assumes s: "km_body s V" and p: "p \<in> set (vw_pages V)" and a: "(a, pg_class p) \<in> in_use V" "a \<in> pg_objs p"
  defines "q \<equiv> p\<lparr>pg_lost := a # pg_lost p\<rparr>"
  shows "km_body (page_lose a (pg_desc p) s) (page_set p q V)" "in_use (page_set p q V) = in_use V - {(a, pg_class p)}"
    "keeps (in_use V - {(a, pg_class p)}) s (page_lose a (pg_desc p) s)" "\<exists>w. page_lose a (pg_desc p) s = s\<lparr>words := w\<rparr>"
    "a \<notin> set (pg_gone p)" "within s V (page_lose a (pg_desc p) s) (page_set p q V)"
proof -
  note s' = km_bodyD [OF s]
  let ?d = "pg_desc p" and ?i = "pg_class p"
  let ?rc = "of_nat (onum ?i - length (pg_gone p)) :: u16" and ?fp = "bk_free_ptr s (pg_desc p)"
  define w where "w = (words s)(a := ?fp, ?d + 8 := ?fp, ?d + 12 := counts (of_nat (osz ?i)) (?rc - 1))"
  note pv = viewD(7) [OF s'(1) p]
  have i: "?i < 10" using pv by simp
  note ad = obj_not_desc [OF s'(1) p a(2) desc_mem(1) [OF p]]
  note f = page_fields [OF s'(8) [OF p]]
  obtain r where r: "r \<in> set (vw_pages V)" "a \<in> pg_objs r" "a \<notin> set (pg_gone r)" using a(1) by (auto simp: in_use_def)
  have rp: "r = p" by (rule obj_page [OF s'(1) r(1,2) p a(2)])
  then show ng: "a \<notin> set (pg_gone p)" using r(3) by simp
  have nc: "a \<notin> set (vw_cached V ?i)" using a(1) by (simp add: in_use_def)
  have rc: "bk_ref_cnt (poke (?d + 8) y (poke a x s)) ?d = ?rc" "bk_obj_size (poke (?d + 8) y (poke a x s)) ?d = of_nat (osz ?i)" for x y
    using f ad by (auto simp: bk_ref_cnt_def bk_obj_size_def poke_def)
  have res: "page_lose a ?d s = s\<lparr>words := w\<rparr>"
    using ad by (simp add: page_lose_def Let_def set_bk_ref_cnt_def set_bk_counts_counts rc) (simp add: poke_def w_def)
  then show "\<exists>w. page_lose a ?d s = s\<lparr>words := w\<rparr>" by blast
  have w_else: "w x = words s x" if "x \<noteq> ?d + 8" "x \<noteq> ?d + 12" "x \<noteq> a" for x using that by (simp add: w_def)
  have sq: "same_place p q" by (simp add: q_def)
  show "within s V (page_lose a ?d s) (page_set p q V)"
    unfolding res by (rule within_page [OF s'(1) p a(2) sq]) (use w_else in simp_all)
  have gq: "set (pg_gone q) = insert a (set (pg_gone p))" "distinct (pg_gone q)" "length (pg_gone q) = length (pg_gone p) + 1"
    using pv ng by (auto simp: q_def)
  have ok: "page_ok w q"
  proof -
    have x: "w x = words s x" if x: "x \<in> set (pg_free p)" for x
    proof (rule w_else)
      have "x \<in> pg_objs p" using pv x by auto
      then show "x \<noteq> ?d + 8" "x \<noteq> ?d + 12" using obj_not_desc [OF s'(1) p _ desc_mem(1) [OF p]] by auto
      show "x \<noteq> a" using x ng by auto
    qed
    then have "path w ?fp (pg_free p) 0 = path (words s) ?fp (pg_free p) 0" by (rule path_cong)
    moreover have "w ?d = words s ?d" "w (?d + 8) = ?fp" using ad by (auto simp: w_def)
    moreover have "w (?d + 12) = counts (of_nat (osz ?i)) (of_nat (onum ?i - length (pg_gone q)))"
    proof -
      have "set (pg_gone q) \<subseteq> pg_objs p" using gq(1) pv a(2) by simp
      then have "card (set (pg_gone q)) \<le> card (pg_objs p)" by (intro card_mono) simp_all
      then have "length (pg_gone q) \<le> onum ?i" using gq(2) distinct_card [of "pg_gone q"] card_length [of "objs ?i (pg_frame p)"]
        by (simp add: objs_def)
      then have "onum ?i - length (pg_gone p) = onum ?i - length (pg_gone q) + 1" using gq(3) by simp
      then have "?rc - 1 = of_nat (onum ?i - length (pg_gone q))" by simp
      then show ?thesis using ad by (simp add: w_def)
    qed
    ultimately show ?thesis using s'(8) [OF p] f by (simp add: page_ok_def q_def)
  qed
  show "km_body (page_lose a ?d s) (page_set p q V)"
    unfolding res
  proof (rule km_page_step [OF s p sq, where A = "{a}"])
    show "set (pg_gone q) \<subseteq> pg_objs p" using gq(1) pv a(2) by simp
    show "set (pg_gone q) \<inter> set (vw_cached V ?i) = {}" using gq(1) nc free_not_cached [OF s'(1) p i] by auto
  qed (use ok gq(2) a(2) nc w_else in auto)
  show "in_use (page_set p q V) = in_use V - {(a, ?i)}"
    using in_use_set [OF s'(1) p sq, where A = "{}" and B = "{a}" and a = a] a(2) nc gq(1) ng by auto
  have "w x = words s x" if x: "(b, j) \<in> in_use V - {(a, ?i)}" "x \<in> span b (osz j)" for b j x
  proof (rule w_else)
    have bj: "(b, j) \<in> in_use V" using x(1) by simp
    show "x \<noteq> ?d + 8" "x \<noteq> ?d + 12"
      using busy_desc [OF s'(1) in_use_busy [OF bj x(2)] desc_mem(1) [OF p]] span_consts(3,4) [of 16 ?d] by auto
    have "x \<notin> span a (osz ?i)" by (rule in_use_apart [OF s'(1) _ x p a(2)]) auto
    then show "x \<noteq> a" using head_span [OF i, of a] by auto
  qed
  then show "keeps (in_use V - {(a, ?i)}) s (page_lose a ?d s)" unfolding res by (simp add: keeps_def)
qed

end
