(* ===== verification/KmallocDrop.thy ===== *)
theory KmallocDrop
  imports KmallocReclaim
begin

text \<open>
  A page of which no object is in use or cached goes back to the frame allocator (\<open>bucket_drop\<close>).
\<close>

section \<open>The view without a page\<close>

text \<open>\<open>follows V p r\<close>: on the ring of its class \<open>r\<close> comes after \<open>p\<close>.\<close>

definition follows :: "km_view \<Rightarrow> km_page \<Rightarrow> km_page \<Rightarrow> bool" where
  "follows V p r \<longleftrightarrow> (\<exists>xs ys. class_pages V (pg_class p) = xs @ p # r # ys) \<or> (\<exists>xs. class_pages V (pg_class p) = r # xs @ [p])"

definition drop_only :: "km_page \<Rightarrow> km_view \<Rightarrow> km_view" where
  "drop_only p V = V\<lparr>vw_pages := remove1 p (vw_pages V), vw_descs := pg_desc p # vw_descs V\<rparr>"

definition drop_move :: "km_page \<Rightarrow> km_page \<Rightarrow> km_view \<Rightarrow> km_view" where
  "drop_move p r V = V\<lparr>vw_pages := map (mv r (pg_desc p)) (remove1 p (vw_pages V)), vw_descs := pg_desc r # vw_descs V\<rparr>"

lemma drop_simps [simp]:
  "vw_cached (drop_only p V) = vw_cached V" "vw_dframes (drop_only p V) = vw_dframes V" "vw_descs (drop_only p V) = pg_desc p # vw_descs V"
  "vw_pages (drop_only p V) = remove1 p (vw_pages V)"
  "vw_cached (drop_move p r V) = vw_cached V" "vw_dframes (drop_move p r V) = vw_dframes V" "vw_descs (drop_move p r V) = pg_desc r # vw_descs V"
  "vw_pages (drop_move p r V) = map (mv r (pg_desc p)) (remove1 p (vw_pages V))"
  by (simp_all add: drop_only_def drop_move_def)

lemma follows_cases:
  assumes V: "view_ok V" and p: "p \<in> set (vw_pages V)"
  obtains "class_pages V (pg_class p) = [p]" | r where "follows V p r"
proof -
  have "p \<in> set (class_pages V (pg_class p))" using p by (simp add: class_pages_set)
  then obtain xs ys where c: "class_pages V (pg_class p) = xs @ p # ys" by (metis split_list)
  show thesis
  proof (cases ys)
    case Nil
    then show thesis using that c by (cases xs) (auto simp: follows_def)
  next
    case (Cons r rs)
    then show thesis using that(2) [of r] c by (auto simp: follows_def)
  qed
qed

lemma followsD:
  assumes V: "view_ok V" and f: "follows V p r"
  shows "r \<in> set (vw_pages V)" "p \<in> set (vw_pages V)" "pg_class r = pg_class p" "r \<noteq> p" "distinct (class_pages V (pg_class p))"
proof -
  show d: "distinct (class_pages V (pg_class p))" using pages_distinct [OF V] by (simp add: class_pages_def)
  have "r \<in> set (class_pages V (pg_class p))" "p \<in> set (class_pages V (pg_class p))" using f by (auto simp: follows_def)
  then show "r \<in> set (vw_pages V)" "p \<in> set (vw_pages V)" "pg_class r = pg_class p" by (simp_all add: class_pages_set)
  show "r \<noteq> p" using f d by (auto simp: follows_def)
qed

text \<open>All objects of a page are gone.\<close>

abbreviation dead :: "km_page \<Rightarrow> bool" where
  "dead p \<equiv> pg_objs p \<subseteq> set (pg_gone p)"

lemma dead_iff: "view_ok V \<Longrightarrow> p \<in> set (vw_pages V) \<Longrightarrow> length (pg_gone p) = onum (pg_class p) \<Longrightarrow> dead p"
proof -
  assume V: "view_ok V" and p: "p \<in> set (vw_pages V)" and n: "length (pg_gone p) = onum (pg_class p)"
  note pv = viewD(7) [OF V p]
  have "card (set (pg_gone p)) = onum (pg_class p)" using pv n distinct_card by metis
  moreover have "card (pg_objs p) \<le> onum (pg_class p)" using card_length [of "objs (pg_class p) (pg_frame p)"] by (simp add: objs_def)
  ultimately have "set (pg_gone p) = pg_objs p" using pv by (intro card_seteq) (simp_all del: set_append)
  then show "dead p" by simp
qed

lemma view_drop:
  assumes V: "view_ok V" and p: "p \<in> set (vw_pages V)" "dead p"
    and W: "vw_cached W = vw_cached V" "vw_dframes W = vw_dframes V"
      "map pg_frame (vw_pages W) = map pg_frame (remove1 p (vw_pages V))"
      "\<forall>q \<in> set (vw_pages W). \<exists>q' \<in> set (vw_pages V). pg_class q = pg_class q' \<and> pg_frame q = pg_frame q' \<and> pg_gone q = pg_gone q'"
      "\<forall>q \<in> set (vw_pages V). q \<noteq> p \<longrightarrow> (\<exists>q' \<in> set (vw_pages W). pg_class q = pg_class q' \<and> pg_frame q = pg_frame q' \<and> pg_gone q = pg_gone q')"
    and d: "distinct (all_descs W)" "set (all_descs W) \<subseteq> set (all_descs V)"
  shows "view_ok W" "in_use W = in_use V" "all_frames W = map pg_frame (remove1 p (vw_pages V)) @ vw_dframes V"
    "set (all_frames W) = set (all_frames V) - {pg_frame p}"
proof -
  show fr: "all_frames W = map pg_frame (remove1 p (vw_pages V)) @ vw_dframes V" by (simp add: all_frames_def W)
  have pd: "distinct (vw_pages V)" by (rule pages_distinct [OF V])
  have ff: "distinct (map pg_frame (vw_pages V))" "set (map pg_frame (vw_pages V)) \<inter> set (vw_dframes V) = {}" "distinct (vw_dframes V)"
    using viewD(1) [OF V] by (simp_all add: all_frames_def)
  have rm: "set (remove1 p (vw_pages V)) = set (vw_pages V) - {p}" using pd by simp
  have inj: "inj_on pg_frame (set (vw_pages V))" using ff(1) by (simp add: distinct_map)
  have im: "pg_frame ` (set (vw_pages V) - {p}) = pg_frame ` set (vw_pages V) - {pg_frame p}"
    using inj_on_image_set_diff [OF inj, of "set (vw_pages V)" "{p}"] p(1) by simp
  have "pg_frame p \<notin> set (vw_dframes V)" using ff(2) p(1) by auto
  then show sf: "set (all_frames W) = set (all_frames V) - {pg_frame p}"
    unfolding fr by (auto simp: rm im all_frames_def)
  have "distinct (map pg_frame (remove1 p (vw_pages V)))"
    using ff(1) pd by (auto simp: distinct_map rm intro: inj_on_subset)
  then have fd: "distinct (all_frames W)" using ff(2,3) unfolding fr by (auto simp: rm)
  show "view_ok W"
    unfolding view_ok_def
  proof (intro conjI)
    show "distinct (all_frames W)" by (rule fd)
    show "\<forall>f \<in> set (all_frames W). 0 < f \<and> f < 8192" using viewD(3) [OF V] unfolding sf by blast
    show "distinct (all_descs W)" by (rule d(1))
    show "\<forall>e \<in> set (all_descs W). \<exists>f \<in> set (vw_dframes W). e \<in> set (bk_slots f)" using viewD(6) [OF V] d(2) W(2) by auto
    show "\<forall>q \<in> set (vw_pages W). pg_class q < 10 \<and> distinct (pg_gone q) \<and> set (pg_gone q) \<subseteq> pg_objs q"
    proof
      fix q assume "q \<in> set (vw_pages W)"
      then obtain q' where q: "q' \<in> set (vw_pages V)" "pg_class q = pg_class q' \<and> pg_frame q = pg_frame q' \<and> pg_gone q = pg_gone q'" using W(4) by blast
      from viewD(7) [OF V q(1)] q(2) show "pg_class q < 10 \<and> distinct (pg_gone q) \<and> set (pg_gone q) \<subseteq> pg_objs q"
        by (simp del: distinct_append set_append)
    qed
    show "\<forall>i < 10. distinct (vw_cached W i) \<and> length (vw_cached W i) < 65536
      \<and> (\<forall>a \<in> set (vw_cached W i). \<exists>q \<in> set (vw_pages W). pg_class q = i \<and> a \<in> pg_objs q \<and> a \<notin> set (pg_gone q))"
    proof (intro allI impI conjI ballI)
      fix i :: nat and a assume i: "i < 10" and a: "a \<in> set (vw_cached W i)"
      obtain q where q: "q \<in> set (vw_pages V)" "pg_class q = i" "a \<in> pg_objs q" "a \<notin> set (pg_gone q)" using viewD(9) [OF V i, of a] a W(1) by auto
      have "q \<noteq> p" using q(3,4) p(2) by blast
      then obtain q' where "q' \<in> set (vw_pages W)" "pg_class q = pg_class q' \<and> pg_frame q = pg_frame q' \<and> pg_gone q = pg_gone q'" using W(5) q(1) by blast
      then show "\<exists>q \<in> set (vw_pages W). pg_class q = i \<and> a \<in> pg_objs q \<and> a \<notin> set (pg_gone q)"
        using q(2-4) by (intro bexI [of _ q']) (simp_all del: set_append)
    qed (use viewD(8) [OF V] W(1) in auto)
  qed
  have "(\<exists>q \<in> set (vw_pages W). pg_class q = i \<and> a \<in> pg_objs q \<and> a \<notin> set (pg_gone q))
      \<longleftrightarrow> (\<exists>q \<in> set (vw_pages V). pg_class q = i \<and> a \<in> pg_objs q \<and> a \<notin> set (pg_gone q))" (is "?L \<longleftrightarrow> ?R") for i a
  proof
    assume ?L
    then obtain q where q: "q \<in> set (vw_pages W)" "pg_class q = i \<and> a \<in> pg_objs q \<and> a \<notin> set (pg_gone q)" by blast
    then obtain q' where "q' \<in> set (vw_pages V)" "pg_class q = pg_class q' \<and> pg_frame q = pg_frame q' \<and> pg_gone q = pg_gone q'" using W(4) by blast
    with q(2) show ?R by (intro bexI [of _ q']) (auto simp del: set_append)
  next
    assume ?R
    then obtain q where q: "q \<in> set (vw_pages V)" "pg_class q = i \<and> a \<in> pg_objs q \<and> a \<notin> set (pg_gone q)" by blast
    have "q \<noteq> p" using q(2) p(2) by blast
    then obtain q' where "q' \<in> set (vw_pages W)" "pg_class q = pg_class q' \<and> pg_frame q = pg_frame q' \<and> pg_gone q = pg_gone q'" using W(5) q(1) by blast
    with q(2) show ?L by (intro bexI [of _ q']) (auto simp del: set_append)
  qed
  then show "in_use W = in_use V" by (simp only: in_use_def W(1))
qed

lemma drop_only_ok:
  assumes V: "view_ok V" and p: "p \<in> set (vw_pages V)" "dead p"
  shows "view_ok (drop_only p V)" "in_use (drop_only p V) = in_use V" "set (all_frames (drop_only p V)) = set (all_frames V) - {pg_frame p}"
proof -
  have pd: "distinct (vw_pages V)" by (rule pages_distinct [OF V])
  obtain xs ys where x: "vw_pages V = xs @ p # ys" "p \<notin> set xs" using p(1) by (metis split_list_first)
  have r: "remove1 p (vw_pages V) = xs @ ys" using x by (simp add: remove1_append)
  have d: "distinct (all_descs (drop_only p V))" "set (all_descs (drop_only p V)) \<subseteq> set (all_descs V)"
    using viewD(2) [OF V] r x(1) by (auto simp: all_descs_def)
  note all = view_drop [OF V p, where W = "drop_only p V", OF _ _ _ _ _ d]
  show "view_ok (drop_only p V)" "in_use (drop_only p V) = in_use V" "set (all_frames (drop_only p V)) = set (all_frames V) - {pg_frame p}"
    using pd by (intro all; force)+
qed

lemma drop_move_ok:
  assumes V: "view_ok V" and p: "dead p" and f: "follows V p r"
  shows "view_ok (drop_move p r V)" "in_use (drop_move p r V) = in_use V" "set (all_frames (drop_move p r V)) = set (all_frames V) - {pg_frame p}"
proof -
  note fd = followsD [OF V f]
  have pd: "distinct (vw_pages V)" by (rule pages_distinct [OF V])
  obtain xs ys where x: "vw_pages V = xs @ p # ys" "p \<notin> set xs" using fd(2) by (metis split_list_first)
  have rm: "remove1 p (vw_pages V) = xs @ ys" using x by (simp add: remove1_append)
  have "r \<in> set (xs @ ys)" using fd(1,4) x by auto
  then obtain us vs where u: "xs @ ys = us @ r # vs" by (metis split_list)
  have n: "r \<notin> set us" "r \<notin> set vs" using pd x u by (metis distinct_append distinct.simps(2) disjoint_insert(1) not_distinct_conv_prefix distinct_remove1 rm)+
  have m: "map (mv r (pg_desc p)) (remove1 p (vw_pages V)) = us @ mv r (pg_desc p) r # vs"
    unfolding rm u using map_mv_other [OF n(1), of "pg_desc p"] map_mv_other [OF n(2), of "pg_desc p"] by simp
  have "distinct (map pg_desc (p # xs @ ys) @ vw_descs V)" "set (map pg_desc (p # xs @ ys) @ vw_descs V) = set (all_descs V)"
    using viewD(2) [OF V] x(1) by (auto simp: all_descs_def)
  then have d: "distinct (all_descs (drop_move p r V))" "set (all_descs (drop_move p r V)) \<subseteq> set (all_descs V)"
    unfolding u all_descs_def drop_simps m by (auto simp: mv_def)
  note all = view_drop [OF V fd(2) p, where W = "drop_move p r V", OF _ _ _ _ _ d]
  show "view_ok (drop_move p r V)" "in_use (drop_move p r V) = in_use V" "set (all_frames (drop_move p r V)) = set (all_frames V) - {pg_frame p}"
    using pd by (intro all; force)+
qed

section \<open>The memory without a page\<close>

lemma filter_remove1: "filter P (remove1 p ps) = (if P p then remove1 p (filter P ps) else filter P ps)"
  by (induction ps) auto

lemma class_drop:
  "class_pages (drop_only p V) j = (if j = pg_class p then remove1 p (class_pages V j) else class_pages V j)"
  "class_pages (drop_move p r V) j = map (mv r (pg_desc p)) (if j = pg_class p then remove1 p (class_pages V j) else class_pages V j)"
proof -
  show "class_pages (drop_only p V) j = (if j = pg_class p then remove1 p (class_pages V j) else class_pages V j)"
    by (auto simp: class_pages_def filter_remove1)
  show "class_pages (drop_move p r V) j = map (mv r (pg_desc p)) (if j = pg_class p then remove1 p (class_pages V j) else class_pages V j)"
    by (auto simp: class_pages_def filter_mv filter_remove1)
qed

lemma desc_inj: "view_ok V \<Longrightarrow> p \<in> set (vw_pages V) \<Longrightarrow> q \<in> set (vw_pages V) \<Longrightarrow> pg_desc p = pg_desc q \<longleftrightarrow> p = q"
  using viewD(2) by (auto simp: all_descs_def distinct_map inj_on_def)

lemma desc_not_spare: "view_ok V \<Longrightarrow> p \<in> set (vw_pages V) \<Longrightarrow> pg_desc p \<notin> set (vw_descs V)"
  using viewD(2) by (fastforce simp: all_descs_def)

text \<open>What stays when only descriptors in \<open>D\<close> change.\<close>

lemma descs_stay:
  assumes V: "view_ok V" and m: "mem_ok w fb ch ob V" and D: "D \<subseteq> set (all_descs V)"
    and w: "\<forall>x. w' x \<noteq> w x \<longrightarrow> (\<exists>d \<in> D. x \<in> span d 16)"
  shows "e \<in> set (all_descs V) \<Longrightarrow> e \<notin> D \<Longrightarrow> x \<in> span e 16 \<Longrightarrow> w' x = w x"
    and "p \<in> set (vw_pages V) \<Longrightarrow> pg_desc p \<notin> D \<Longrightarrow> page_ok w' p"
    and "p \<in> set (vw_pages V) \<Longrightarrow> path w' y (pg_free p) 0 = path w y (pg_free p) 0"
    and "j < 10 \<Longrightarrow> cache_ok w' (ob j) (vw_cached V j)"
proof -
  have sd: "w' x = w x" if "e \<in> set (all_descs V)" "e \<notin> D" "x \<in> span e 16" for e x
  proof (rule ccontr)
    assume "w' x \<noteq> w x"
    then obtain d where d: "d \<in> D" "x \<in> span d 16" using w by blast
    have "d \<noteq> e" using d(1) that(2) by blast
    then show False using desc_spans [OF V _ that(1), of d] D d that(3) by blast
  qed
  have so: "w' x = w x" if "p \<in> set (vw_pages V)" "a \<in> pg_objs p" "x \<in> span a (osz (pg_class p))" for p a x
    using w [rule_format, of x] desc_obj_spans [OF V _ that(1,2)] D that(3) by blast
  show "e \<in> set (all_descs V) \<Longrightarrow> e \<notin> D \<Longrightarrow> x \<in> span e 16 \<Longrightarrow> w' x = w x" by (rule sd)
  have "objs_same V w w'" using so by (simp add: objs_same_def)
  note st = objs_stay [OF V this]
  show path: "path w' y (pg_free p) 0 = path w y (pg_free p) 0" if "p \<in> set (vw_pages V)" for p y
    by (rule path_cong) (rule st(1) [OF that])
  show "page_ok w' p" if p: "p \<in> set (vw_pages V)" "pg_desc p \<notin> D"
  proof -
    have "w' x = w x" if "x \<in> span (pg_desc p) 16 \<union> set (pg_free p)" for x
      using that sd [OF desc_mem(1) [OF p(1)] p(2)] st(1) [OF p(1)] by blast
    moreover have "page_ok w p" using m p by (simp add: mem_ok_def)
    ultimately show ?thesis using page_cong by blast
  qed
  show "cache_ok w' (ob j) (vw_cached V j)" if "j < 10"
    by (rule st(2) [OF that]) (use m that in \<open>simp add: mem_ok_def\<close>)
qed

lemma ring_stay:
  assumes V: "view_ok V" and m: "mem_ok w fb ch ob V" and D: "D \<subseteq> set (map pg_desc (class_pages V i))"
    and w: "\<forall>x. w' x \<noteq> w x \<longrightarrow> (\<exists>d \<in> D. x \<in> span d 16)" and j: "j < 10" "j \<noteq> i"
  shows "ring_ok w' (ch j) (map pg_desc (class_pages V j))"
proof -
  have ring: "ring_ok w (ch j) (map pg_desc (class_pages V j))" using m j by (simp add: mem_ok_def)
  have "pg_desc q \<in> set (all_descs V)" if "q \<in> set (class_pages V i)" for q using that desc_mem(1) class_pages_set by blast
  then have D': "D \<subseteq> set (all_descs V)" using D by auto
  show ?thesis
  proof (rule ring_cong [OF ring])
    fix e assume "e \<in> set (map pg_desc (class_pages V j))"
    then obtain q where q: "q \<in> set (vw_pages V)" "pg_class q = j" "e = pg_desc q" by (auto simp: class_pages_set)
    have "e \<notin> D"
    proof
      assume "e \<in> D"
      then have "e \<in> pg_desc ` set (class_pages V i)" using D by auto
      then obtain p where "p \<in> set (vw_pages V)" "pg_class p = i" "e = pg_desc p" by (auto simp: class_pages_set)
      then show False using q desc_inj [OF V] j(2) by auto
    qed
    then show "w' (e + 4) = w (e + 4)" using descs_stay(1) [OF V m D' w, of e "e + 4"] desc_mem(1) [OF q(1)] q(3) by simp
  qed
qed

lemma mem_drop_only:
  assumes V: "view_ok V" and m: "mem_ok w fb ch ob V" and c: "class_pages V (pg_class p) = [p]"
  shows "mem_ok (w(pg_desc p + 4 := fb)) (pg_desc p) (ch(pg_class p := 0)) ob (drop_only p V)"
proof -
  let ?d = "pg_desc p" and ?w = "w(pg_desc p + 4 := fb)"
  have p: "p \<in> set (vw_pages V)" using class_pages_set [of p V "pg_class p"] c by simp
  have D: "{?d} \<subseteq> set (all_descs V)" using desc_mem(1) [OF p] by simp
  have ch: "\<forall>x. ?w x \<noteq> w x \<longrightarrow> (\<exists>d \<in> {?d}. x \<in> span d 16)" by (auto split: if_splits)
  note st = descs_stay [OF V m D ch]
  have "page_ok ?w q" if "q \<in> set (remove1 p (vw_pages V))" for q
    using that pages_distinct [OF V] desc_inj [OF V _ p] by (intro st(2)) auto
  moreover have "path (\<lambda>d. ?w (d + 4)) fb (vw_descs V) 0 = path (\<lambda>d. w (d + 4)) fb (vw_descs V) 0"
    using desc_not_spare [OF V p] by (intro path_cong) auto
  moreover have "ring_ok ?w ((ch(pg_class p := 0)) j) (map pg_desc (class_pages (drop_only p V) j))" if "j < 10" for j
  proof (cases "j = pg_class p")
    case True
    then show ?thesis using c by (simp add: class_drop ring_ok_def)
  next
    case False
    have "ring_ok ?w (ch j) (map pg_desc (class_pages V j))" by (rule ring_stay [OF V m _ ch that False]) (simp add: c)
    then show ?thesis using False by (simp add: class_drop)
  qed
  moreover have "cache_ok ?w (ob j) (vw_cached V j)" if "j < 10" for j by (rule st(4) [OF that])
  ultimately show ?thesis using m by (simp add: mem_ok_def)
qed

lemma ring_path: "ring_ok w c ds \<Longrightarrow> ds \<noteq> [] \<Longrightarrow> path (\<lambda>d. w (d + 4)) c ds c"
  by (auto simp: ring_ok_def)

text \<open>The words after the copy of the next descriptor.\<close>

definition drop_words :: "u32 \<Rightarrow> u32 \<Rightarrow> u32 \<Rightarrow> (u32 \<Rightarrow> u32) \<Rightarrow> u32 \<Rightarrow> u32" where
  "drop_words d n fb w = w(d := w n, d + 4 := w (n + 4), d + 8 := w (n + 8), d + 12 := w (n + 12), n + 4 := fb)"

lemma ring_drop_move:
  assumes V: "view_ok V" and f: "follows V p r"
  defines "i \<equiv> pg_class p" and "d \<equiv> pg_desc p" and "n \<equiv> pg_desc r"
  assumes ring: "ring_ok w c (map pg_desc (class_pages V i))"
    and d4: "\<And>e. e \<in> set (all_descs V) \<Longrightarrow> e \<notin> {d, n} \<Longrightarrow> w' (e + 4) = w (e + 4)" and wd: "w' (d + 4) = w (n + 4)"
  shows "ring_ok w' (if c = n then d else c) (map pg_desc (class_pages (drop_move p r V) i))"
proof -
  note fd = followsD [OF V f]
  have dn: "d \<noteq> n" using desc_inj [OF V fd(2,1)] fd(4) by (simp add: d_def n_def)
  have other: "path (\<lambda>d. w' (d + 4)) x (map pg_desc qs) y = path (\<lambda>d. w (d + 4)) x (map pg_desc qs) y"
    if sub: "set qs \<subseteq> set (class_pages V i) - {p, r}" for qs x y
  proof (rule path_cong)
    fix e assume "e \<in> set (map pg_desc qs)"
    then obtain q where qs: "q \<in> set qs" "e = pg_desc q" by auto
    then have "q \<in> set (class_pages V i) - {p, r}" using sub by blast
    then have q: "q \<in> set (vw_pages V)" "q \<noteq> p" "q \<noteq> r" "e = pg_desc q" using qs(2) by (simp_all add: class_pages_set)
    then have "e \<notin> {d, n}" using desc_inj [OF V q(1) fd(2)] desc_inj [OF V q(1) fd(1)] by (simp add: d_def n_def)
    then show "w' (e + 4) = w (e + 4)" using d4 desc_mem(1) [OF q(1)] q(4) by blast
  qed
  from f show ?thesis unfolding follows_def i_def [symmetric]
  proof (elim disjE exE)
    fix xs ys assume cp: "class_pages V i = xs @ p # r # ys"
    have ds: "distinct (xs @ p # r # ys)" using fd(5) cp by (simp add: i_def)
    then have cl: "class_pages (drop_move p r V) i = xs @ mv r d r # ys"
      by (simp add: class_drop i_def [symmetric] d_def [symmetric] cp remove1_append map_mv_other)
    have o: "set xs \<subseteq> set (class_pages V i) - {p, r}" "set ys \<subseteq> set (class_pages V i) - {p, r}" using ds cp by auto
    have hd: "hd (map pg_desc (xs @ [p])) = c" "c \<noteq> n"
    proof -
      show h: "hd (map pg_desc (xs @ [p])) = c" using ring cp by (cases xs) (simp_all add: ring_ok_def)
      show "c \<noteq> n"
      proof (cases xs)
        case Nil
        then show ?thesis using h dn by (simp add: d_def)
      next
        case (Cons x xs')
        then have "x \<in> set (class_pages V i)" "x \<noteq> r" using cp ds by auto
        then show ?thesis using h Cons desc_inj [OF V _ fd(1), of x] by (auto simp: class_pages_set n_def)
      qed
    qed
    have "path (\<lambda>d. w (d + 4)) c (map pg_desc xs @ d # n # map pg_desc ys) c"
      using ring_path [OF ring] cp by (simp add: d_def n_def)
    then have "path (\<lambda>d. w (d + 4)) c (map pg_desc xs) d" "path (\<lambda>d. w (d + 4)) (w (n + 4)) (map pg_desc ys) c"
      by (auto simp: path_append)
    then have "path (\<lambda>d. w' (d + 4)) c (map pg_desc xs @ d # map pg_desc ys) c"
      using other [OF o(1)] other [OF o(2)] wd by (auto simp: path_append)
    moreover have "hd (map pg_desc xs @ d # map pg_desc ys) = c" using hd(1) by (cases xs) (simp_all add: d_def)
    ultimately show ?thesis using cl hd(2) by (simp add: ring_ok_def mv_def)
  next
    fix xs assume cp: "class_pages V i = r # xs @ [p]"
    have ds: "distinct (r # xs @ [p])" using fd(5) cp by (simp add: i_def)
    then have cl: "class_pages (drop_move p r V) i = mv r d r # xs"
      using fd(4) by (auto simp: class_drop i_def [symmetric] d_def [symmetric] cp remove1_append map_mv_other)
    have o: "set xs \<subseteq> set (class_pages V i) - {p, r}" using ds cp by auto
    have h: "c = n" "path (\<lambda>d. w (d + 4)) (w (n + 4)) (map pg_desc xs @ [d]) n" using ring cp by (auto simp: ring_ok_def d_def n_def)
    then have "path (\<lambda>d. w (d + 4)) (w (n + 4)) (map pg_desc xs) d" by (auto simp: path_append)
    then have "path (\<lambda>d. w' (d + 4)) d (d # map pg_desc xs) d" using other [OF o] wd by simp
    then show ?thesis using cl h(1) by (simp add: ring_ok_def mv_def)
  qed
qed

lemma mem_drop_move:
  assumes V: "view_ok V" and m: "mem_ok w fb ch ob V" and f: "follows V p r"
  defines "i \<equiv> pg_class p" and "d \<equiv> pg_desc p" and "n \<equiv> pg_desc r"
  shows "mem_ok (drop_words d n fb w) n (ch(i := if ch i = n then d else ch i)) ob (drop_move p r V)"
proof -
  let ?w = "drop_words d n fb w" and ?D = "{d, n}"
  note fd = followsD [OF V f]
  have dn: "d \<noteq> n" using desc_inj [OF V fd(2,1)] fd(4) by (simp add: d_def n_def)
  have mem: "d \<in> set (all_descs V)" "n \<in> set (all_descs V)" using desc_mem(1) [OF fd(2)] desc_mem(1) [OF fd(1)] by (simp_all add: d_def n_def)
  then have D: "?D \<subseteq> set (all_descs V)" by simp
  have chg: "\<forall>x. ?w x \<noteq> w x \<longrightarrow> (\<exists>e \<in> ?D. x \<in> span e 16)" by (auto simp: drop_words_def split: if_splits)
  note st = descs_stay [OF V m D chg]
  have "span d 16 \<inter> span n 16 = {}" by (rule desc_spans [OF V mem dn])
  then have "x \<noteq> n + 4" if "x \<in> {d, d + 4, d + 8, d + 12}" for x using that head_span_desc [of x d] head_span_desc [of "n + 4" n] by blast
  then have wd: "?w d = w n" "?w (d + 4) = w (n + 4)" "?w (d + 8) = w (n + 8)" "?w (d + 12) = w (n + 12)" "?w (n + 4) = fb"
    using dn by (simp_all add: drop_words_def)
  have d4: "?w (e + 4) = w (e + 4)" if "e \<in> set (all_descs V)" "e \<notin> ?D" for e using st(1) [OF that] by simp
  have "page_ok ?w q" if qm: "q \<in> set (map (mv r d) (remove1 p (vw_pages V)))" for q
  proof -
    obtain q' where q: "q' \<in> set (vw_pages V)" "q' \<noteq> p" "q = mv r d q'" using qm pages_distinct [OF V] by auto
    show ?thesis
    proof (cases "q' = r")
      case True
      have "page_ok w r" using m fd(1) by (simp add: mem_ok_def)
      then show ?thesis using st(3) [OF fd(1)] wd q True by (simp add: page_ok_def mv_def n_def)
    next
      case False
      then show ?thesis using st(2) [OF q(1)] q desc_inj [OF V q(1) fd(2)] desc_inj [OF V q(1) fd(1)] by (simp add: mv_def d_def n_def)
    qed
  qed
  moreover have "path (\<lambda>d. ?w (d + 4)) fb (vw_descs V) 0 = path (\<lambda>d. w (d + 4)) fb (vw_descs V) 0"
  proof (rule path_cong)
    fix e assume e: "e \<in> set (vw_descs V)"
    then have "e \<notin> ?D" using desc_not_spare [OF V fd(1)] desc_not_spare [OF V fd(2)] by (auto simp: d_def n_def)
    then show "?w (e + 4) = w (e + 4)" using d4 desc_mem(2) [OF e] by blast
  qed
  moreover have "ring_ok ?w ((ch(i := if ch i = n then d else ch i)) j) (map pg_desc (class_pages (drop_move p r V) j))" if j: "j < 10" for j
  proof (cases "j = i")
    case False
    have "r \<notin> set (class_pages V j)" using fd(3) False by (simp add: class_pages_set i_def)
    moreover have "?D \<subseteq> set (map pg_desc (class_pages V i))" using fd(1-3) by (auto simp: class_pages_set d_def n_def i_def)
    ultimately show ?thesis using ring_stay [OF V m _ chg j False] False by (simp add: class_drop i_def map_mv_other)
  next
    case True
    have ring: "ring_ok w (ch i) (map pg_desc (class_pages V i))" using m j True by (simp add: mem_ok_def)
    show ?thesis
      using ring_drop_move [OF V f, folded i_def d_def n_def, OF ring d4 wd(2)] True by simp
  qed
  moreover have "cache_ok ?w (ob j) (vw_cached V j)" if "j < 10" for j by (rule st(4) [OF that])
  ultimately show ?thesis using m wd(5) by (simp add: mem_ok_def d_def n_def)
qed

end
