(* ===== verification/KmallocFree.thy ===== *)
theory KmallocFree
  imports KmallocDrop
begin

text \<open>
  \<open>free_cache\<close> on a state: it returns, empties every cache and keeps the invariant and what clients hold. None of the objects it takes
  from the caches becomes free.
\<close>

definition free_objs :: "km_view \<Rightarrow> u32 set" where
  "free_objs V = (\<Union>p \<in> set (vw_pages V). set (pg_free p))"

section \<open>A dead page goes back\<close>

lemma ring_next:
  assumes m: "mem_ok w fb ch ob V" and V: "view_ok V" and f: "follows V p r"
  shows "w (pg_desc p + 4) = pg_desc r"
proof -
  have "pg_class p < 10" using viewD(7) [OF V followsD(2) [OF V f]] by simp
  then have ring: "ring_ok w (ch (pg_class p)) (map pg_desc (class_pages V (pg_class p)))" using m by (simp add: mem_ok_def)
  from f show ?thesis unfolding follows_def
  proof (elim disjE exE)
    fix xs ys assume c: "class_pages V (pg_class p) = xs @ p # r # ys"
    then show ?thesis using ring_path [OF ring] by (auto simp: path_append)
  next
    fix xs assume c: "class_pages V (pg_class p) = r # xs @ [p]"
    have "ch (pg_class p) = pg_desc r" using ring c by (simp add: ring_ok_def)
    then show ?thesis using ring_path [OF ring] c by (auto simp: path_append)
  qed
qed

lemma page_at: "page_ok (words s) p \<Longrightarrow> pg_frame p < 8192 \<Longrightarrow>
    words s (pg_desc p) = page_addr (pg_frame p) \<and> to_fr_idx (to_paddr (words s (pg_desc p))) = of_nat (pg_frame p)"
proof -
  assume p: "page_ok (words s) p" "pg_frame p < 8192"
  have "in_page (pg_frame p) (page_addr (pg_frame p))" unfolding in_page_def by (rule exI [of _ 0]) simp
  then show ?thesis using p in_page_frame by (simp add: page_ok_def)
qed

lemma length_drop:
  assumes V: "view_ok V" and p: "p \<in> set (vw_pages V)"
  shows "of_nat (length (class_pages V j)) = (of_nat (length (class_pages (drop_only p V) j)) + (if j = pg_class p then 1 else 0) :: u16)"
    "length (class_pages (drop_move p r V) j) = length (class_pages (drop_only p V) j)"
proof -
  show "length (class_pages (drop_move p r V) j) = length (class_pages (drop_only p V) j)" by (simp add: class_drop)
  have "length (class_pages V (pg_class p)) = length (remove1 p (class_pages V (pg_class p))) + 1"
    using p by (simp add: length_remove1 class_pages_set) (metis Suc_pred class_pages_set length_pos_if_in_set)
  then have "of_nat (length (class_pages V (pg_class p))) = (of_nat (length (remove1 p (class_pages V (pg_class p))) + 1) :: u16)" by simp
  then show "of_nat (length (class_pages V j)) = (of_nat (length (class_pages (drop_only p V) j)) + (if j = pg_class p then 1 else 0) :: u16)"
    by (simp add: class_drop)
qed

definition drop_dir :: "u32 \<Rightarrow> dir_desc \<Rightarrow> dir_desc" where
  "drop_dir c b = b\<lparr>dir_chain := c, dir_list_len := dir_list_len b - 1\<rparr>"

text \<open>The state that \<open>bucket_drop\<close> leaves.\<close>

definition drop_state :: "nat \<Rightarrow> (u32 \<Rightarrow> u32) \<Rightarrow> u32 \<Rightarrow> u32 \<Rightarrow> mm_state \<Rightarrow> km_state \<Rightarrow> km_state" where
  "drop_state i w c e m s = s\<lparr>km_mm := m, words := w, bucket_dir := (bucket_dir s)(i := drop_dir c (bucket_dir s i)),
     free_bucket_desc := e, free_bucket_lock := 0\<rparr>"

lemma drop_state_simps [simp]:
  "km_mm (drop_state i w c e m s) = m" "words (drop_state i w c e m s) = w" "free_bucket_desc (drop_state i w c e m s) = e"
  "bucket_dir (drop_state i w c e m s) = (bucket_dir s)(i := drop_dir c (bucket_dir s i))" "cache_dir (drop_state i w c e m s) = cache_dir s"
  "free_bucket_lock (drop_state i w c e m s) = 0"
  by (simp_all add: drop_state_def)

lemma drop_state_body:
  assumes s: "km_body s V" and p: "p \<in> set (vw_pages V)" and W: "view_ok W" "W = drop_only p V \<or> W = drop_move p r V"
    and m: "mem_ok w e ((\<lambda>j. dir_chain (bucket_dir s j))(pg_class p := c)) (\<lambda>j. ch_object (cache_dir s j)) W" and f: "frames_ok mm W"
  shows "km_body (drop_state (pg_class p) w c e mm s) W"
proof -
  note s' = km_bodyD [OF s]
  let ?t = "drop_state (pg_class p) w c e mm s"
  have "(\<lambda>j. dir_chain (bucket_dir ?t j)) = (\<lambda>j. dir_chain (bucket_dir s j))(pg_class p := c)" by (auto simp: drop_dir_def fun_eq_iff)
  moreover have len: "length (class_pages W j) = length (class_pages (drop_only p V) j)" "vw_cached W = vw_cached V" for j
    using W(2) length_drop(2) [OF s'(1) p] by auto
  have "dirs_ok ?t W"
    using s'(2) length_drop(1) [OF s'(1) p] by (auto simp: dirs_ok_def drop_dir_def len)
  ultimately show ?thesis using W(1) m f by (simp add: km_body_def)
qed

lemma frames_drop:
  assumes V: "view_ok V" and f: "frames_ok m V" and p: "p \<in> set (vw_pages V)"
    and m': "buddy_inv m'" "\<forall>j. j \<noteq> pg_frame p \<longrightarrow> holds_run m j 1 \<longrightarrow> holds_run m' j 1" "same_bkt m m'"
    and W: "set (all_frames W) = set (all_frames V) - {pg_frame p}"
    and q: "\<And>q. q \<in> set (vw_pages W) \<Longrightarrow> bkt_desc (frame_tab m'' (of_nat (pg_frame q))) = pg_desc q"
    and m'': "buddy_inv m''" "holds_run m'' = holds_run m'"
  shows "frames_ok m'' W"
  using f m' W q m'' by (auto simp: frames_ok_def)

text \<open>What \<open>bucket_drop\<close> promises, and what the two ways to take a page out of its ring have in common.\<close>

definition dropped :: "km_state \<Rightarrow> km_view \<Rightarrow> km_state \<Rightarrow> km_view \<Rightarrow> bool" where
  "dropped s V t W \<longleftrightarrow> km_body t W \<and> in_use W = in_use V \<and> vw_cached W = vw_cached V \<and> keeps (in_use V) s t
     \<and> (\<forall>j. dir_lock (bucket_dir t j) = dir_lock (bucket_dir s j)) \<and> cache_dir t = cache_dir s \<and> free_bucket_lock t = 0
     \<and> free_objs W \<subseteq> free_objs V \<and> within s V t W"

lemma drop_state_frame:
  assumes V: "view_ok V" and p: "p \<in> set (vw_pages V)"
    and m': "free_frames m = insert (pg_frame p) (free_frames (km_mm s))" "\<forall>j. j \<noteq> pg_frame p \<longrightarrow> holds_run (km_mm s) j 1 \<longrightarrow> holds_run m j 1"
    and w: "\<And>x. w x \<noteq> words s x \<Longrightarrow> \<exists>d \<in> set (all_descs V). x \<in> span d 16" and W: "set (all_frames W) = set (all_frames V) - {pg_frame p}"
    and mm: "free_frames mm = free_frames m" "holds_run mm = holds_run m"
  shows "keeps (in_use V) s (drop_state i w c e mm s)" "within s V (drop_state i w c e mm s) W"
proof -
  have "w x = words s x" if a: "(a, j) \<in> in_use V" "x \<in> span a (osz j)" for a j x
    using w [of x] busy_desc [OF V in_use_busy [OF a]] by blast
  then show "keeps (in_use V) s (drop_state i w c e mm s)" by (simp add: keeps_def)
  have f: "pg_frame p \<in> set (all_frames V)" using p by (simp add: all_frames_def)
  then have "territory mm W = territory (km_mm s) V" using m'(1) by (auto simp: territory_def W mm(1))
  moreover have "holds_run mm j 1" if "j \<notin> territory (km_mm s) V" "holds_run (km_mm s) j 1" for j
  proof -
    have "j \<noteq> pg_frame p" using that(1) f by (auto simp: territory_def)
    then show ?thesis using m'(2) that(2) unfolding mm(2) by blast
  qed
  moreover have "\<exists>f \<in> territory (km_mm s) V. in_page f x" if "w x \<noteq> words s x" for x
    using w [OF that] desc_place [OF V] unfolding territory_def by blast
  ultimately show "within s V (drop_state i w c e mm s) W" by (simp add: within_def)
qed

text \<open>The frame of the page is given back.\<close>

lemma page_given_back:
  assumes s: "km_body s V" and p: "p \<in> set (vw_pages V)"
  obtains m where "free_page (page_addr (pg_frame p)) (km_mm s) = Some (True, m)" "buddy_inv m"
    "free_frames m = insert (pg_frame p) (free_frames (km_mm s))"
    "\<forall>j. j \<noteq> pg_frame p \<longrightarrow> holds_run (km_mm s) j 1 \<longrightarrow> holds_run m j 1" "same_bkt (km_mm s) m"
    "\<And>q. q \<in> set (vw_pages V) \<Longrightarrow> bkt_desc (frame_tab m (of_nat (pg_frame q))) = pg_desc q"
    "on_frames (free_page (bk_page s (pg_desc p))) s = Some (True, s\<lparr>km_mm := m\<rparr>)"
proof -
  note s' = km_bodyD [OF s]
  have pf: "pg_frame p < 8192" using viewD(4) [OF s'(1) p] by simp
  have h: "holds_run (km_mm s) (pg_frame p) 1" using s'(3) p by (auto simp: frames_ok_def all_frames_def)
  obtain m where m: "free_page (page_addr (pg_frame p)) (km_mm s) = Some (True, m)" "buddy_inv m"
    "free_frames m = insert (pg_frame p) (free_frames (km_mm s))"
    "\<forall>j. j \<noteq> pg_frame p \<longrightarrow> holds_run (km_mm s) j 1 \<longrightarrow> holds_run m j 1" "same_bkt (km_mm s) m"
    by (rule free_page_step [OF s'(4) h])
  have bkt: "bkt_desc (frame_tab m (of_nat (pg_frame q))) = pg_desc q" if "q \<in> set (vw_pages V)" for q
    using s'(3) that m(5) by (simp add: frames_ok_def same_bkt_def)
  have "on_frames (free_page (bk_page s (pg_desc p))) s = Some (True, s\<lparr>km_mm := m\<rparr>)"
    using page_at [OF s'(8) [OF p] pf] m(1) by (simp add: on_frames_def bk_page_def)
  then show thesis using that [OF m bkt] by blast
qed

lemma lock_free_bucket_ok: "free_bucket_lock u = 0 \<Longrightarrow> lock_free_bucket u = Some (u\<lparr>free_bucket_lock := 1\<rparr>)"
  by (simp add: lock_free_bucket_def)

lemma bucket_drop_last:
  assumes s: "km_body s V" "free_bucket_lock s = 0" and p: "p \<in> set (vw_pages V)" "dead p" and 1: "class_pages V (pg_class p) = [p]"
  obtains t where "bucket_drop (pg_class p) (pg_desc p) s = Some t" "dropped s V t (drop_only p V)"
proof -
  note s' = km_bodyD [OF s(1)] and lock = lock_free_bucket_ok
  let ?i = "pg_class p" and ?d = "pg_desc p" and ?f = "pg_frame p" and ?fb = "free_bucket_desc s"
  obtain m where m: "free_page (page_addr ?f) (km_mm s) = Some (True, m)" "buddy_inv m"
    "free_frames m = insert ?f (free_frames (km_mm s))"
    "\<forall>j. j \<noteq> ?f \<longrightarrow> holds_run (km_mm s) j 1 \<longrightarrow> holds_run m j 1" "same_bkt (km_mm s) m"
    and bkt: "\<And>q. q \<in> set (vw_pages V) \<Longrightarrow> bkt_desc (frame_tab m (of_nat (pg_frame q))) = pg_desc q"
    and freed: "on_frames (free_page (bk_page s ?d)) s = Some (True, s\<lparr>km_mm := m\<rparr>)"
    using page_given_back [OF s(1) p(1)] by blast
  let ?W = "drop_only p V" and ?w = "(words s)(?d + 4 := ?fb)"
  note ok = drop_only_ok [OF s'(1) p]
  let ?t = "drop_state ?i ?w 0 ?d m s"
  have ring: "ring_ok (words s) (dir_chain (bucket_dir s ?i)) (map pg_desc (class_pages V ?i))" using viewD(7) [OF s'(1) p(1)] s'(7) by simp
  have "words s (?d + 4) = ?d" using ring 1 by (simp add: ring_ok_def)
  then have "bucket_drop ?i ?d s = Some ?t"
    using s(2) by (simp add: bucket_drop_def bucket_unlink_def freed Let_def bk_next_def upd_dir_def lock unlock_free_bucket_def spin_unlock_def)
      (auto simp: drop_state_def drop_dir_def poke_def intro!: km_state.equality dir_desc.equality)
  moreover have "km_body ?t ?W"
  proof (rule drop_state_body [OF s(1) p(1) ok(1)])
    show "mem_ok ?w ?d ((\<lambda>j. dir_chain (bucket_dir s j))(?i := 0)) (\<lambda>j. ch_object (cache_dir s j)) ?W"
      by (rule mem_drop_only [OF s'(1,5) 1])
    show "frames_ok m ?W" by (rule frames_drop [OF s'(1,3) p(1) m(2,4,5) ok(3)]) (use m(2) bkt set_remove1_subset [of p "vw_pages V"] in auto)
  qed simp
  moreover have ch: "\<exists>d \<in> set (all_descs V). x \<in> span d 16" if "?w x \<noteq> words s x" for x
    using that desc_mem(1) [OF p(1)] by (intro bexI [of _ ?d]) (auto split: if_splits)
  note fr = drop_state_frame [OF s'(1) p(1) m(3,4) ch ok(3) refl refl]
  have "keeps (in_use V) s ?t" "within s V ?t ?W" by (rule fr; assumption)+
  moreover have "free_objs ?W \<subseteq> free_objs V" using set_remove1_subset [of p "vw_pages V"] by (auto simp: free_objs_def)
  ultimately show thesis using that [of ?t] ok(2) by (simp add: dropped_def drop_dir_def)
qed

lemma bucket_drop_next:
  assumes s: "km_body s V" "free_bucket_lock s = 0" and p: "p \<in> set (vw_pages V)" "dead p" and 2: "follows V p r"
  obtains t where "bucket_drop (pg_class p) (pg_desc p) s = Some t" "dropped s V t (drop_move p r V)"
proof -
  note s' = km_bodyD [OF s(1)] and lock = lock_free_bucket_ok
  let ?i = "pg_class p" and ?d = "pg_desc p" and ?f = "pg_frame p" and ?fb = "free_bucket_desc s"
  obtain m where m: "free_page (page_addr ?f) (km_mm s) = Some (True, m)" "buddy_inv m"
    "free_frames m = insert ?f (free_frames (km_mm s))"
    "\<forall>j. j \<noteq> ?f \<longrightarrow> holds_run (km_mm s) j 1 \<longrightarrow> holds_run m j 1" "same_bkt (km_mm s) m"
    and bkt: "\<And>q. q \<in> set (vw_pages V) \<Longrightarrow> bkt_desc (frame_tab m (of_nat (pg_frame q))) = pg_desc q"
    and freed: "on_frames (free_page (bk_page s ?d)) s = Some (True, s\<lparr>km_mm := m\<rparr>)"
    using page_given_back [OF s(1) p(1)] by blast
  let ?W = "drop_move p r V" and ?n = "pg_desc r"
  note fd = followsD [OF s'(1) 2]
  note ok = drop_move_ok [OF s'(1) p(2) 2]
  let ?w = "drop_words ?d ?n ?fb (words s)" and ?c = "if dir_chain (bucket_dir s ?i) = ?n then ?d else dir_chain (bucket_dir s ?i)"
  let ?m = "mm_bkt (pg_frame r) ?d m"
  let ?t = "drop_state ?i ?w ?c ?n ?m s"
  have rf: "pg_frame r < 8192" using viewD(4) [OF s'(1) fd(1)] by simp
  note rpage = page_at [OF s'(8) [OF fd(1)] rf]
  have nd: "?n \<noteq> ?d" using desc_inj [OF s'(1) fd(1,2)] fd(4) by simp
  have sp: "span ?d 16 \<inter> span ?n 16 = {}" by (rule desc_spans [OF s'(1) desc_mem(1) [OF fd(2)] desc_mem(1) [OF fd(1)] nd [symmetric]])
  then have a: "?n \<notin> {?d, ?d + 4, ?d + 8, ?d + 12}" using head_span_desc [of ?n ?d] head_span_desc [of ?n ?n] by blast
  have nx: "words s (?d + 4) = ?n" by (rule ring_next [OF s'(5,1) 2])
  let ?s = "s\<lparr>km_mm := m\<rparr>"
  let ?u = "?s\<lparr>words := (words s)(?d := words s ?n, ?d + 4 := words s (?n + 4), ?d + 8 := words s (?n + 8), ?d + 12 := words s (?n + 12)),
    bucket_dir := (bucket_dir s)(?i := (bucket_dir s ?i)\<lparr>dir_chain := ?c\<rparr>), km_mm := ?m\<rparr>"
  define v where "v = ?u\<lparr>km_mm := m\<rparr>"
  have v: "(if dir_chain (bucket_dir (bk_copy ?d ?n ?s) ?i) = ?n then upd_dir ?i (\<lambda>b. b\<lparr>dir_chain := ?d\<rparr>) (bk_copy ?d ?n ?s) else bk_copy ?d ?n ?s) = v"
    by (auto simp: v_def bk_copy_def poke_def upd_dir_def intro!: km_state.equality dir_desc.equality)
  have pv: "bk_page v ?n = words s ?n" and mv: "km_mm v = m" using a by (simp_all add: bk_page_def v_def)
  have "set_frame_bucket_locked (to_fr_idx (to_paddr (bk_page v ?n))) ?d v = Some (v\<lparr>km_mm := ?m\<rparr>)"
    using set_bucket_ok(2) [of v "pg_frame r" ?d] m(2) rf by (simp only: pv mv rpage [THEN conjunct2])
  moreover have "v\<lparr>km_mm := ?m\<rparr> = ?u" by (simp add: v_def)
  moreover have "bk_next ?s ?d = ?n" using nx by (simp add: bk_next_def)
  ultimately have unlink: "bucket_unlink ?i ?d ?s = Some (?n, ?u)"
    by (simp only: bucket_unlink_def Let_def v nd if_True not_False_eq_True bind.bind_lunit)
  have "bucket_drop ?i ?d s = Some ?t"
    using s(2) by (simp add: bucket_drop_def freed unlink Let_def upd_dir_def lock unlock_free_bucket_def spin_unlock_def)
      (simp add: drop_state_def drop_dir_def drop_words_def poke_def)
  moreover have "km_body ?t ?W"
  proof (rule drop_state_body [OF s(1) p(1) ok(1), where r = r])
    show "mem_ok ?w ?n ((\<lambda>j. dir_chain (bucket_dir s j))(?i := ?c)) (\<lambda>j. ch_object (cache_dir s j)) ?W"
      by (rule mem_drop_move [OF s'(1,5) 2])
    have "bkt_desc (frame_tab ?m (of_nat (pg_frame q))) = pg_desc q" if q: "q \<in> set (vw_pages ?W)" for q
    proof -
      obtain q' where q': "q' \<in> set (vw_pages V)" "q = mv r ?d q'" using q set_remove1_subset [of p "vw_pages V"] by auto
      have "pg_frame q' < 8192" using viewD(4) [OF s'(1) q'(1)] by simp
      moreover have "pg_frame q' = pg_frame r \<longleftrightarrow> q' = r" using page_eq [OF s'(1) q'(1) fd(1)] by blast
      ultimately show ?thesis using bkt [OF q'(1)] q'(2) rf by (simp add: mm_bkt_desc mv_def)
    qed
    then show "frames_ok ?m ?W" by (rule frames_drop [OF s'(1,3) p(1) m(2,4,5) ok(3)]) (use m(2) in simp_all)
  qed simp
  moreover have ch: "\<exists>d \<in> set (all_descs V). x \<in> span d 16" if "?w x \<noteq> words s x" for x
  proof -
    have "x \<in> span ?d 16 \<or> x \<in> span ?n 16" using that by (auto simp: drop_words_def split: if_splits)
    then show ?thesis using desc_mem(1) [OF fd(1)] desc_mem(1) [OF fd(2)] by blast
  qed
  note fr = drop_state_frame [OF s'(1) p(1) m(3,4) ch ok(3)]
  have "keeps (in_use V) s ?t" "within s V ?t ?W" by (rule fr; simp)+
  moreover have "free_objs ?W \<subseteq> free_objs V" using set_remove1_subset [of p "vw_pages V"] by (auto simp: free_objs_def)
  ultimately show thesis using that [of ?t] ok(2) by (simp add: dropped_def drop_dir_def)
qed

lemma bucket_drop_ok:
  assumes s: "km_body s V" "free_bucket_lock s = 0" and p: "p \<in> set (vw_pages V)" "dead p"
  obtains t W where "bucket_drop (pg_class p) (pg_desc p) s = Some t" "km_body t W" "in_use W = in_use V" "vw_cached W = vw_cached V"
    "keeps (in_use V) s t" "\<forall>j. dir_lock (bucket_dir t j) = dir_lock (bucket_dir s j)" "cache_dir t = cache_dir s" "free_bucket_lock t = 0"
    "free_objs W \<subseteq> free_objs V" "within s V t W"
proof -
  have V: "view_ok V" using km_bodyD(1) [OF s(1)] .
  obtain t W where "bucket_drop (pg_class p) (pg_desc p) s = Some t" "dropped s V t W"
  proof (cases rule: follows_cases [OF V p(1)])
    case 1
    show ?thesis by (rule bucket_drop_last [OF s p 1]) (rule that)
  next
    case (2 r)
    show ?thesis by (rule bucket_drop_next [OF s p 2]) (rule that)
  qed
  then show thesis using that unfolding dropped_def by blast
qed

section \<open>One object\<close>

lemma set_gone_page: "p \<in> set (vw_pages V) \<Longrightarrow> free_objs (page_set p (p\<lparr>pg_lost := xs\<rparr>) V) = free_objs V"
  using page_set_pages [of p V "p\<lparr>pg_lost := xs\<rparr>"] by (auto simp: free_objs_def)

lemma free_objs_cached [simp]: "free_objs (V\<lparr>vw_cached := c\<rparr>) = free_objs V"
  by (simp add: free_objs_def)

text \<open>The locks while \<open>free_cache\<close> works on a class.\<close>

definition locked_at :: "nat \<Rightarrow> km_state \<Rightarrow> bool" where
  "locked_at i s \<longleftrightarrow> free_bucket_lock s = 0 \<and> (\<forall>j < 11. dir_lock (bucket_dir s j) = 0) \<and> (\<forall>j < 11. ch_lock (cache_dir s j) = (if j = i then 1 else 0))"

lemma free_object_eq:
  "cache_drop i s = (a, t) \<Longrightarrow> get_frame (to_fr_idx (to_paddr a)) (km_mm t) = Some fr \<Longrightarrow> lock_bucket i t = Some l \<Longrightarrow>
    free_object i s = do { s \<leftarrow> (let s = page_lose a (bkt_desc fr) l in if bk_ref_cnt s (bkt_desc fr) = 0 then bucket_drop i (bkt_desc fr) s else Some s);
      Some (unlock_bucket i s) }"
  by (simp add: free_object_def page_lose_def Let_def split del: if_split del: poke_simps)

lemma free_object_ok:
  assumes s: "km_body s V" "locked_at i s" and i: "i < 10" and c: "vw_cached V i = cs @ [a]"
  obtains t W where "free_object i s = Some t" "km_body t W" "locked_at i t" "in_use W = in_use V" "vw_cached W = (vw_cached V)(i := cs)"
    "keeps (in_use V) s t" "free_objs W \<subseteq> free_objs V" "within s V t W"
proof -
  obtain t1 where t1: "cache_drop i s = (a, t1)" "km_body t1 (V\<lparr>vw_cached := (vw_cached V)(i := cs)\<rparr>)" "keeps (in_use V) s t1"
    "km_mm t1 = km_mm s" "bucket_dir t1 = bucket_dir s" "free_bucket_lock t1 = free_bucket_lock s"
    "\<forall>j. ch_lock (cache_dir t1 j) = ch_lock (cache_dir s j)" "within s V t1 (V\<lparr>vw_cached := (vw_cached V)(i := cs)\<rparr>)" by (rule cache_drop_ok [OF s(1) i c])
  let ?V1 = "V\<lparr>vw_cached := (vw_cached V)(i := cs)\<rparr>"
  note s' = km_bodyD [OF s(1)]
  obtain p where p: "p \<in> set (vw_pages V)" "pg_class p = i" "a \<in> pg_objs p" "a \<notin> set (pg_gone p)" using viewD(9) [OF s'(1) i, of a] c by auto
  have dis: "distinct (cs @ [a])" using viewD(8) [OF s'(1) i] c by simp
  have use1: "in_use ?V1 = insert (a, i) (in_use V)" "(a, i) \<notin> in_use V"
    using p dis c i by (auto simp: in_use_def split: if_splits)
  have p1: "p \<in> set (vw_pages ?V1)" using p(1) by simp
  obtain fr where fr: "get_frame (to_fr_idx (to_paddr a)) (km_mm t1) = Some fr" "bkt_desc fr = pg_desc p" by (rule obj_desc [OF t1(2) p1 p(3)])
  let ?l = "upd_dir i (\<lambda>b. b\<lparr>dir_lock := 1\<rparr>) t1"
  have dl: "dir_lock (bucket_dir t1 i) = 0" using s(2) i t1(5) by (simp add: locked_at_def)
  then have lock: "lock_bucket i t1 = Some ?l" by (simp add: lock_bucket_def)
  have lb: "km_body ?l ?V1" using t1(2) by simp
  let ?q = "p\<lparr>pg_lost := a # pg_lost p\<rparr>" and ?d = "pg_desc p"
  have ause: "(a, pg_class p) \<in> in_use ?V1" using use1(1) p(2) by simp
  note lose = page_lose_ok [OF lb p1 ause p(3)]
  let ?t2 = "page_lose a ?d ?l" and ?V2 = "page_set p ?q ?V1"
  obtain w where w: "?t2 = ?l\<lparr>words := w\<rparr>" using lose(4) by blast
  have q2: "?q \<in> set (vw_pages ?V2)" using page_set_pages [OF p1, of ?q] by simp
  have use2: "in_use ?V2 = in_use V" using lose(2) use1 p(2) by simp
  have keep2: "keeps (in_use V) s ?t2"
  proof -
    have "in_use ?V1 - {(a, pg_class p)} = in_use V" using use1 p(2) by simp
    then have "keeps (in_use V) t1 ?t2" using lose(3) by (simp add: keeps_def upd_dir_def)
    then show ?thesis by (rule keeps_trans [OF t1(3)])
  qed
  have wi2: "within s V ?t2 ?V2"
    by (rule within_trans [OF t1(8)], rule within_cong [OF lose(6)]) (simp_all add: upd_dir_def)
  have cached2: "vw_cached ?V2 = (vw_cached V)(i := cs)" by (subst page_set_simps) simp_all
  have free2: "free_objs ?V2 = free_objs V" using set_gone_page [OF p1, of "a # pg_lost p"] by simp
  have dirs2: "bucket_dir ?t2 = bucket_dir ?l" "cache_dir ?t2 = cache_dir t1" "free_bucket_lock ?t2 = 0"
    using w s(2) t1(6) by (simp_all add: upd_dir_def locked_at_def)
  obtain t3 W where t3: "(if bk_ref_cnt ?t2 ?d = 0 then bucket_drop i ?d ?t2 else Some ?t2) = Some t3" "km_body t3 W" "in_use W = in_use V"
    "vw_cached W = (vw_cached V)(i := cs)" "keeps (in_use V) s t3" "\<forall>j. dir_lock (bucket_dir t3 j) = dir_lock (bucket_dir ?l j)"
    "cache_dir t3 = cache_dir t1" "free_bucket_lock t3 = 0" "free_objs W \<subseteq> free_objs V" "within s V t3 W"
  proof (cases "bk_ref_cnt ?t2 ?d = 0")
    case False
    then show ?thesis using that [of ?t2 ?V2] lose(1) use2 cached2 keep2 dirs2 free2 wi2 by simp
  next
    case True
    note b2 = km_bodyD [OF lose(1)]
    have le: "length (pg_gone ?q) \<le> onum i" using gone_le [OF b2(1) q2] p(2) by simp
    have "(of_nat (onum i - length (pg_gone ?q)) :: u16) = 0"
      using True page_fields [OF b2(8) [OF q2]] p(2) by simp
    moreover have "onum i - length (pg_gone ?q) < 65536" using onum_pos [OF i] by linarith
    then have "unat (of_nat (onum i - length (pg_gone ?q)) :: u16) = onum i - length (pg_gone ?q)" by (simp add: unat_of_nat)
    ultimately have "length (pg_gone ?q) = onum (pg_class ?q)" using le p(2) by simp
    then have dead: "dead ?q" by (rule dead_iff [OF b2(1) q2])
    obtain t W where t: "bucket_drop (pg_class ?q) (pg_desc ?q) ?t2 = Some t" "km_body t W" "in_use W = in_use ?V2" "vw_cached W = vw_cached ?V2"
      "keeps (in_use ?V2) ?t2 t" "\<forall>j. dir_lock (bucket_dir t j) = dir_lock (bucket_dir ?t2 j)" "cache_dir t = cache_dir ?t2" "free_bucket_lock t = 0"
      "free_objs W \<subseteq> free_objs ?V2" "within ?t2 ?V2 t W" by (rule bucket_drop_ok [OF lose(1) dirs2(3) q2 dead])
    have "keeps (in_use V) s t" using keeps_trans [OF keep2] t(5) use2 by simp
    then show ?thesis using that [of t W] t True use2 cached2 dirs2 free2 p(2) within_trans [OF wi2 t(10)] by simp
  qed
  have "free_object i s = Some (unlock_bucket i t3)"
    using free_object_eq [OF t1(1) fr(1) lock] t3(1) unfolding fr(2) Let_def by (simp split del: if_split)
  moreover have "locked_at i (unlock_bucket i t3)"
    using s(2) t1(5,7) t3(6-8) by (auto simp: locked_at_def unlock_bucket_def upd_dir_def spin_unlock_def)
  moreover have "keeps (in_use V) s (unlock_bucket i t3)" using t3(5) by (simp add: keeps_def unlock_bucket_def upd_dir_def)
  moreover have "within s V (unlock_bucket i t3) W" by (rule within_cong [OF t3(10)]) (simp_all add: unlock_bucket_def upd_dir_def)
  ultimately show thesis using that [of "unlock_bucket i t3" W] t3(2-4,9) by simp
qed

section \<open>The loops\<close>

lemma cache_bytes_zero: "km_body s V \<Longrightarrow> i < 10 \<Longrightarrow> 0 < cache_bytes i s \<longleftrightarrow> vw_cached V i \<noteq> []"
proof -
  assume s: "km_body s V" and i: "i < 10"
  note s' = km_bodyD [OF s]
  have "length (vw_cached V i) < 65536" using viewD(8) [OF s'(1) i] by simp
  then have "uint (ch_list_len (cache_dir s i)) = int (length (vw_cached V i))"
    using s'(9) [OF i] by (simp add: uint_nat unat_of_nat)
  moreover have "0 < uint (ch_obj_size (cache_dir s i))"
    using s'(10) [of i] i by (drule_tac class_cases) (auto simp: km_sizes_def)
  ultimately show ?thesis by (simp add: cache_bytes_def zero_less_mult_iff)
qed

lemma free_objects_ok:
  assumes "km_body s V" "locked_at i s" "i < 10"
  shows "\<exists>t W. free_objects i s = Some t \<and> km_body t W \<and> locked_at i t \<and> in_use W = in_use V \<and> vw_cached W = (vw_cached V)(i := [])
    \<and> keeps (in_use V) s t \<and> free_objs W \<subseteq> free_objs V \<and> within s V t W"
  using assms(1,2)
proof (induction "length (vw_cached V i)" arbitrary: s V)
  case 0
  then have "vw_cached V i = []" by simp
  then have "free_objects i s = Some s" "vw_cached V = (vw_cached V)(i := [])"
    using cache_bytes_zero [OF 0(2) assms(3)] by (auto simp: free_objects.simps [of i s] CACHE_THRESHOLD_def fun_eq_iff)
  then show ?case using 0 by (intro exI [of _ s] exI [of _ V]) (simp add: keeps_def)
next
  case (Suc n)
  then obtain cs a where c: "vw_cached V i = cs @ [a]" by (metis length_greater_0_conv rev_exhaust zero_less_Suc)
  obtain t W where t: "free_object i s = Some t" "km_body t W" "locked_at i t" "in_use W = in_use V" "vw_cached W = (vw_cached V)(i := cs)"
    "keeps (in_use V) s t" "free_objs W \<subseteq> free_objs V" "within s V t W" by (rule free_object_ok [OF Suc.prems assms(3) c])
  have "n = length (vw_cached W i)" using Suc.hyps(2) c t(5) by simp
  from Suc.hyps(1) [OF this t(2,3)] obtain u X where u: "free_objects i t = Some u" "km_body u X" "locked_at i u" "in_use X = in_use W"
    "vw_cached X = (vw_cached W)(i := [])" "keeps (in_use W) t u" "free_objs X \<subseteq> free_objs W" "within t W u X" by blast
  have "free_objects i s = Some u"
    using cache_bytes_zero [OF Suc.prems(1) assms(3)] c t(1) u(1) by (subst free_objects.simps) (simp add: CACHE_THRESHOLD_def)
  moreover have "keeps (in_use V) s u" using keeps_trans [OF t(6)] u(6) t(4) by simp
  ultimately show ?case using u t within_trans [OF t(8) u(8)] by (intro exI [of _ u] exI [of _ X]) auto
qed

lemma free_caches_ok:
  assumes "km_inv s V" "i \<le> 10"
  shows "\<exists>t W. free_caches (11 - i) i s = Some t \<and> km_inv t W \<and> in_use W = in_use V \<and> (\<forall>j < 10. vw_cached W j = (if i \<le> j then [] else vw_cached V j))
    \<and> keeps (in_use V) s t \<and> free_objs W \<subseteq> free_objs V \<and> within s V t W"
  using assms
proof (induction "10 - i" arbitrary: i s V)
  case 0
  then have "i = 10" by simp
  moreover have "ch_obj_size (cache_dir s 10) = - 1" using km_bodyD(10) [OF km_unlocked(1) [OF 0(2)], of 10] by (simp add: km_sizes_def)
  ultimately have "free_caches (11 - i) i s = Some s" by simp
  then show ?case using 0 \<open>i = 10\<close> by (intro exI [of _ s] exI [of _ V]) (simp add: keeps_def)
next
  case (Suc n)
  then have i: "i < 10" by simp
  note b = km_unlocked(1) [OF Suc.prems(1)]
  note s' = km_bodyD [OF b]
  let ?s = "upd_cache i (\<lambda>c. c\<lparr>ch_lock := 1\<rparr>) s"
  have sz: "ch_obj_size (cache_dir s i) \<noteq> - 1" using s'(10) [of i] i size_not_last [OF i] by (simp add: km_size)
  have lock: "lock_cache i s = Some ?s" using km_unlocked(2) [OF Suc.prems(1), of i] i by (simp add: lock_cache_ok)
  have ls: "locked_at i ?s" using Suc.prems(1) by (auto simp: locked_at_def km_inv_def unlocked_def upd_cache_def)
  have bs: "km_body ?s V" using b by simp
  obtain t W where t: "(if cache_bytes i ?s > CACHE_THRESHOLD then free_objects i ?s else Some ?s) = Some t" "km_body t W" "locked_at i t" "in_use W = in_use V"
    "vw_cached W = (vw_cached V)(i := [])" "keeps (in_use V) s t" "free_objs W \<subseteq> free_objs V" "within s V t W"
  proof (cases "cache_bytes i ?s > 0")
    case True
    obtain t W where "free_objects i ?s = Some t" "km_body t W" "locked_at i t" "in_use W = in_use V" "vw_cached W = (vw_cached V)(i := [])"
      "keeps (in_use V) ?s t" "free_objs W \<subseteq> free_objs V" "within ?s V t W" using free_objects_ok [OF bs ls i] by blast
    then show ?thesis using that [of t W] True by (simp add: CACHE_THRESHOLD_def keeps_def within_def upd_cache_def)
  next
    case False
    then have "vw_cached V i = []" using cache_bytes_zero [OF bs i] by simp
    then have "vw_cached V = (vw_cached V)(i := [])" by (auto simp: fun_eq_iff)
    then show ?thesis using that [of ?s V] False bs ls by (simp add: CACHE_THRESHOLD_def keeps_def within_def upd_cache_def)
  qed
  let ?t = "unlock_cache i t"
  have "unlocked ?t" using t(3) by (auto simp: unlocked_def locked_at_def unlock_cache_def upd_cache_def spin_unlock_def)
  then have inv: "km_inv ?t W" using t(2) by (simp add: km_inv_def)
  have "n = 10 - (i + 1)" "i + 1 \<le> 10" using Suc.hyps(2) i by simp_all
  from Suc.hyps(1) [OF this(1) inv this(2)] obtain u X where u: "free_caches (11 - (i + 1)) (i + 1) ?t = Some u" "km_inv u X" "in_use X = in_use W"
    "\<forall>j < 10. vw_cached X j = (if i + 1 \<le> j then [] else vw_cached W j)" "keeps (in_use W) ?t u" "free_objs X \<subseteq> free_objs W" "within ?t W u X" by blast
  have "11 - i = Suc (11 - (i + 1))" using i by simp
  then have "free_caches (11 - i) i s = Some u" using sz lock t(1) u(1) by (simp split del: if_split)
  moreover have "keeps (in_use V) s u"
    using keeps_trans [OF t(6), of u] u(5) t(4) by (simp add: keeps_def unlock_cache_def upd_cache_def)
  moreover have "vw_cached X j = (if i \<le> j then [] else vw_cached V j)" if "j < 10" for j using u(4) t(5) that by auto
  moreover have "within s V ?t W" by (rule within_cong [OF t(8)]) (simp_all add: unlock_cache_def upd_cache_def)
  then have "within s V u X" using u(7) by (rule within_trans)
  ultimately show ?case using u(2,3,6) t(4,7) by (intro exI [of _ u] exI [of _ X]) auto
qed

end
