(* ===== verification/KmallocClient.thy ===== *)
theory KmallocClient
  imports KmallocFree
begin

text \<open>
  What clients of \<open>kmalloc\<close> may rely on. \<open>object_store\<close> is the interface: objects of a kind are handed out and taken back, and there may be
  steps in between that leave the ledger alone. It is interpreted on the model, with \<open>free_cache\<close> and the stores of
  the clients into their objects as the steps in between.
\<close>

section \<open>The interface\<close>

inductive obj_client ::
    "('n \<Rightarrow> 's \<Rightarrow> ('a \<times> 's) option) \<Rightarrow> ('a \<Rightarrow> 's \<Rightarrow> 's option) \<Rightarrow> ('n \<Rightarrow> 's \<Rightarrow> bool) \<Rightarrow> ('n \<Rightarrow> 's \<Rightarrow> bool) \<Rightarrow>
     (('a \<times> 'n) list \<Rightarrow> 's \<Rightarrow> 's \<Rightarrow> bool) \<Rightarrow> 's \<Rightarrow> 's \<Rightarrow> ('a \<times> 'n) list \<Rightarrow> bool"
  for al re can_al can_re quiet s0 where
  obj_start: "obj_client al re can_al can_re quiet s0 s0 []"
| obj_alloc: "obj_client al re can_al can_re quiet s0 s H \<Longrightarrow> can_al n s \<Longrightarrow> al n s = Some (a, s') \<Longrightarrow>
    obj_client al re can_al can_re quiet s0 s' ((a, n) # H)"
| obj_release: "obj_client al re can_al can_re quiet s0 s H \<Longrightarrow> (a, n) \<in> set H \<Longrightarrow> can_re n s \<Longrightarrow> re a s = Some s' \<Longrightarrow>
    obj_client al re can_al can_re quiet s0 s' (remove1 (a, n) H)"
| obj_quiet: "obj_client al re can_al can_re quiet s0 s H \<Longrightarrow> quiet H s s' \<Longrightarrow> obj_client al re can_al can_re quiet s0 s' H"

lemma obj_client_kinds:
  "obj_client al re can_al can_re quiet s0 s H \<Longrightarrow> (\<And>n s. can_al n s \<Longrightarrow> P n) \<Longrightarrow> (a, n) \<in> set H \<Longrightarrow> P n"
proof (induction rule: obj_client.induct)
  case (obj_release s H b k s')
  then show ?case using notin_set_remove1 [of "(a, n)" H "(b, k)"] by blast
qed auto

locale object_store =
  fixes inv :: "'s \<Rightarrow> ('a \<times> 'k) set \<Rightarrow> bool" and kind :: "'n \<Rightarrow> 'k"
    and al :: "'n \<Rightarrow> 's \<Rightarrow> ('a \<times> 's) option" and re :: "'a \<Rightarrow> 's \<Rightarrow> 's option"
    and can_al :: "'n \<Rightarrow> 's \<Rightarrow> bool" and can_re :: "'n \<Rightarrow> 's \<Rightarrow> bool" and quiet :: "('a \<times> 'n) list \<Rightarrow> 's \<Rightarrow> 's \<Rightarrow> bool"
  assumes alloc_law: "inv s A \<Longrightarrow> can_al n s \<Longrightarrow> \<exists>a s'. al n s = Some (a, s') \<and> (a, kind n) \<notin> A \<and> inv s' (insert (a, kind n) A)"
    and release_law: "inv s A \<Longrightarrow> (a, kind n) \<in> A \<Longrightarrow> can_re n s \<Longrightarrow> \<exists>s'. re a s = Some s' \<and> inv s' (A - {(a, kind n)})"
    and quiet_law: "inv s A \<Longrightarrow> (\<lambda>(a, n). (a, kind n)) ` set H = A \<Longrightarrow> quiet H s s' \<Longrightarrow> inv s' A"
    and one_kind: "inv s A \<Longrightarrow> (a, k) \<in> A \<Longrightarrow> (a, k') \<in> A \<Longrightarrow> k = k'"
begin

definition ledger_of :: "'s \<Rightarrow> ('a \<times> 'n) list \<Rightarrow> bool" where
  "ledger_of s H \<longleftrightarrow> distinct (map fst H) \<and> inv s ((\<lambda>(a, n). (a, kind n)) ` set H)"

lemma ledger_alloc:
  assumes l: "ledger_of s H" and c: "can_al n s" and a: "al n s = Some (a, s')"
  shows "ledger_of s' ((a, n) # H)"
proof -
  let ?A = "(\<lambda>(a, n). (a, kind n)) ` set H"
  obtain b t where b: "al n s = Some (b, t)" "(b, kind n) \<notin> ?A" "inv t (insert (b, kind n) ?A)"
    using alloc_law [of s ?A n] l c unfolding ledger_of_def by blast
  then have i: "inv s' (insert (a, kind n) ?A)" "(a, kind n) \<notin> ?A" using a by simp_all
  have "a \<notin> set (map fst H)"
  proof
    assume "a \<in> set (map fst H)"
    then obtain m where m: "(a, m) \<in> set H" by auto
    then have "(a, kind m) \<in> insert (a, kind n) ?A" by force
    then have "kind m = kind n" using one_kind [OF i(1)] by blast
    then show False using i(2) m by force
  qed
  then show ?thesis using l i(1) by (simp add: ledger_of_def)
qed

lemma ledger_release:
  assumes l: "ledger_of s H" and m: "(a, n) \<in> set H" and c: "can_re n s" and r: "re a s = Some s'"
  shows "ledger_of s' (remove1 (a, n) H)"
proof -
  let ?A = "\<lambda>H. (\<lambda>(a, n). (a, kind n)) ` set H"
  have d: "distinct (map fst H)" using l by (simp add: ledger_of_def)
  have "(a, kind n) \<in> ?A H" using m by force
  then obtain t where t: "re a s = Some t" "inv t (?A H - {(a, kind n)})"
    using release_law [of s "?A H" a n] l c unfolding ledger_of_def by blast
  have dh: "distinct H" using d by (simp add: distinct_map)
  have one: "k = n" if "(a, k) \<in> set H" for k using eq_key_imp_eq_value [OF d that m] .
  have "?A (remove1 (a, n) H) = ?A H - {(a, kind n)}"
    using dh one by (auto simp: set_remove1_eq)
  moreover have "distinct (map fst (remove1 (a, n) H))" using d dh by (auto simp: distinct_map set_remove1_eq intro: inj_on_subset)
  ultimately show ?thesis using t r by (simp add: ledger_of_def)
qed

theorem client_ledger:
  assumes "inv s0 {}" and "obj_client al re can_al can_re quiet s0 s H"
  shows "ledger_of s H"
  using assms(2)
proof (induction rule: obj_client.induct)
  case obj_start
  then show ?case using assms(1) by (simp add: ledger_of_def)
next
  case (obj_quiet s H s')
  then show ?case using quiet_law [of s _ H s'] by (simp add: ledger_of_def)
qed (auto intro: ledger_alloc ledger_release)

end

section \<open>The model provides it\<close>

definition km_holds :: "km_state \<Rightarrow> (u32 \<times> nat) set \<Rightarrow> bool" where
  "km_holds s A \<longleftrightarrow> (\<exists>V. km_inv s V \<and> in_use V = A)"

definition size_class :: "u32 \<Rightarrow> nat" where "size_class len = class_of (unat len)"

text \<open>When a request is served: it is for at most a page and two frames are free.\<close>

definition can_alloc :: "u32 \<Rightarrow> km_state \<Rightarrow> bool" where
  "can_alloc len s \<longleftrightarrow> unat len \<le> 4096 \<and> 2 \<le> card (free_frames (km_mm s))"

text \<open>When a release is counted right: the 16-bit length of the cache has room.\<close>

definition can_free :: "u32 \<Rightarrow> km_state \<Rightarrow> bool" where
  "can_free len s \<longleftrightarrow> ch_list_len (cache_dir s (size_class len)) \<noteq> - 1"

text \<open>\<open>free_cache\<close>, and the store of a word into an object that a client holds.\<close>

definition km_quiet :: "(u32 \<times> u32) list \<Rightarrow> km_state \<Rightarrow> km_state \<Rightarrow> bool" where
  "km_quiet H s s' \<longleftrightarrow> free_cache s = Some s' \<or>
     (\<exists>a n k v. (a, n) \<in> set H \<and> 4 * k + 4 \<le> osz (size_class n) \<and> s' = poke (a + of_nat (4 * k)) v s)"

abbreviation km_client :: "km_state \<Rightarrow> km_state \<Rightarrow> (u32 \<times> u32) list \<Rightarrow> bool" where
  "km_client \<equiv> obj_client kmalloc kfree can_alloc can_free km_quiet"

lemma free_cache_steps:
  assumes "km_inv s V"
  obtains t W where "free_cache s = Some t" "km_inv t W" "in_use W = in_use V" "\<forall>j < 10. vw_cached W j = []" "keeps (in_use V) s t"
    "free_objs W \<subseteq> free_objs V" "within s V t W"
  using free_caches_ok [OF assms, of 0] by (auto simp: free_cache_def)

lemma client_write:
  assumes s: "km_inv s V" and a: "(a, i) \<in> in_use V" and x: "x \<in> span a (osz i)"
  shows "km_inv (poke x v s) V"
proof -
  note b = km_unlocked(1) [OF s]
  note s' = km_bodyD [OF b]
  have i: "i < 10" using a by (simp add: in_use_def)
  let ?w = "(words s)(x := v)"
  have "cache_ok ?w (ch_object (cache_dir s i)) (vw_cached V i)"
  proof (rule cache_cong [OF s'(6) [OF i]])
    fix c assume c: "c \<in> set (vw_cached V i)"
    obtain p where p: "p \<in> set (vw_pages V)" "c \<in> pg_objs p" "pg_class p = i" "(c, i) \<notin> in_use V" using cached_object [OF s'(1) i c] by blast
    have "x \<notin> span c (osz i)" using in_use_apart [OF s'(1) order_refl a x p(1,2)] p(3,4) by simp
    then show "?w c = words s c \<and> ?w (c + 4) = words s (c + 4)" using head_span [OF i, of c] by auto
  qed
  note c = this
  have e: "(\<lambda>j. ch_object (cache_dir s j))(i := ch_object (cache_dir s i)) = (\<lambda>j. ch_object (cache_dir s j))" by auto
  from mem_cached [OF s'(1,5) i _ c] have "mem_ok ?w (free_bucket_desc s) (\<lambda>i. dir_chain (bucket_dir s i)) (\<lambda>i. ch_object (cache_dir s i)) V"
    using in_use_busy [OF a x] e by (simp split: if_splits)
  then show ?thesis using s by (simp add: km_inv_def km_body_def dirs_ok_def unlocked_def)
qed

lemma one_class: "view_ok V \<Longrightarrow> (a, i) \<in> in_use V \<Longrightarrow> (a, j) \<in> in_use V \<Longrightarrow> i = j"
proof -
  assume V: "view_ok V" and a: "(a, i) \<in> in_use V" "(a, j) \<in> in_use V"
  obtain p q where p: "p \<in> set (vw_pages V)" "a \<in> pg_objs p" "pg_class p = i" and q: "q \<in> set (vw_pages V)" "a \<in> pg_objs q" "pg_class q = j"
    using a by (auto simp: in_use_def)
  show "i = j" using obj_page [OF V p(1,2) q(1,2)] p(3) q(3) by simp
qed

interpretation km: object_store km_holds size_class kmalloc kfree can_alloc can_free km_quiet
proof
  fix s A n assume "km_holds s A" "can_alloc n s"
  then show "\<exists>a s'. kmalloc n s = Some (a, s') \<and> (a, size_class n) \<notin> A \<and> km_holds s' (insert (a, size_class n) A)"
    unfolding km_holds_def can_alloc_def size_class_def by (metis kmalloc_steps)
next
  fix s A a n assume h: "km_holds s A" "(a, size_class n) \<in> A" "can_free n s"
  then obtain V where V: "km_inv s V" "in_use V = A" by (auto simp: km_holds_def)
  obtain t where t: "kfree a s = Some t" "km_inv t (V\<lparr>vw_cached := (vw_cached V)(size_class n := a # vw_cached V (size_class n))\<rparr>)"
    using kfree_steps [OF V(1), of a "size_class n"] h(2,3) V(2) unfolding can_free_def by blast
  then show "\<exists>s'. kfree a s = Some s' \<and> km_holds s' (A - {(a, size_class n)})"
    unfolding km_holds_def using in_use_given [of a "size_class n" V] h(2) V(2) by blast
next
  fix s A H s' assume h: "km_holds s A" "(\<lambda>(a, n). (a, size_class n)) ` set H = A" "km_quiet H s s'"
  then obtain V where V: "km_inv s V" "in_use V = A" by (auto simp: km_holds_def)
  from h(3) show "km_holds s' A" unfolding km_quiet_def
  proof (elim disjE exE conjE)
    assume "free_cache s = Some s'"
    then show ?thesis using free_cache_steps [OF V(1)] V(2) by (metis km_holds_def option.inject)
  next
    fix a n k v assume w: "(a, n) \<in> set H" "4 * k + 4 \<le> osz (size_class n)" "s' = poke (a + of_nat (4 * k)) v s"
    have "(a, size_class n) \<in> in_use V" using w(1) h(2) V(2) by force
    moreover have "a + of_nat (4 * k) \<in> span a (osz (size_class n))" by (rule spanI) (use w(2) in simp)
    ultimately have "km_inv s' V" unfolding w(3) by (rule client_write [OF V(1)])
    then show ?thesis using V(2) by (auto simp: km_holds_def)
  qed
next
  fix s A a k k' assume "km_holds s A" "(a, k) \<in> A" "(a, k') \<in> A"
  then show "k = k'" unfolding km_holds_def using one_class km_bodyD(1) [OF km_unlocked(1)] by blast
qed

section \<open>From the start of the system\<close>

lemma km_boot_inv: "buddy_inv m \<Longrightarrow> km_inv (km_boot m w) \<lparr>vw_pages = [], vw_cached = (\<lambda>_. []), vw_descs = [], vw_dframes = []\<rparr>"
  by (auto simp: km_inv_def km_body_def unlocked_def view_ok_def dirs_ok_def frames_ok_def mem_ok_def all_frames_def all_descs_def class_pages_def
      ring_ok_def cache_ok_def km_boot_def bucket_dir_init_def cache_dir_init_def SPINLOCK_FREE_def)

lemma km_boot_holds: "buddy_inv m \<Longrightarrow> km_holds (km_boot m w) {}"
  unfolding km_holds_def by (rule exI, rule conjI, erule km_boot_inv) (simp add: in_use_def)

lemma client_sizes: "km_client s0 s H \<Longrightarrow> (a, n) \<in> set H \<Longrightarrow> unat n \<le> 4096"
  by (erule obj_client_kinds) (simp_all add: can_alloc_def)

lemma client_view:
  assumes "buddy_inv m" "km_client (km_boot m w) s H"
  obtains V where "km_inv s V" "in_use V = (\<lambda>(a, n). (a, size_class n)) ` set H" "distinct (map fst H)"
  using km.client_ledger [OF km_boot_holds [OF assms(1)] assms(2)] by (auto simp: km.ledger_of_def km_holds_def)

lemma class_span: "unat n \<le> 4096 \<Longrightarrow> x \<in> span a (unat n) \<Longrightarrow> x \<in> span a (osz (size_class n))"
proof -
  assume "unat n \<le> 4096" and x: "x \<in> span a (unat n)"
  then have "unat n \<le> osz (size_class n)" using class_of by (simp add: size_class_def)
  then show ?thesis using x by (auto simp: span_def)
qed

lemma client_span: "km_client s0 s H \<Longrightarrow> (a, n) \<in> set H \<Longrightarrow> x \<in> span a (unat n) \<Longrightarrow> x \<in> span a (osz (size_class n))"
  by (rule class_span [OF client_sizes])

lemma in_use_page: "(a, i) \<in> in_use V \<Longrightarrow> view_ok V \<Longrightarrow> frames_ok m V \<Longrightarrow>
    a \<noteq> 0 \<and> (\<exists>f. 0 < f \<and> f < 8192 \<and> holds_run m f 1 \<and> (\<forall>x \<in> span a (osz i). in_page f x))"
proof -
  assume a: "(a, i) \<in> in_use V" and V: "view_ok V" and f: "frames_ok m V"
  obtain p where p: "p \<in> set (vw_pages V)" "a \<in> pg_objs p" "pg_class p = i" "i < 10" using a by (auto simp: in_use_def)
  have "holds_run m (pg_frame p) 1" using f p(1) by (auto simp: frames_ok_def all_frames_def)
  moreover have "in_page (pg_frame p) x" if "x \<in> span a (osz i)" for x using obj_span [OF p(4) _ that, of "pg_frame p"] p(2,3) by simp
  ultimately show ?thesis using viewD(4) [OF V p(1)] obj_slot_view [OF V p(1,2)] by blast
qed

lemma in_use_spans: "view_ok V \<Longrightarrow> (a, i) \<in> in_use V \<Longrightarrow> (b, j) \<in> in_use V \<Longrightarrow> a \<noteq> b \<Longrightarrow> span a (osz i) \<inter> span b (osz j) = {}"
proof -
  assume V: "view_ok V" and a: "(a, i) \<in> in_use V" "(b, j) \<in> in_use V" "a \<noteq> b"
  obtain p q where p: "p \<in> set (vw_pages V)" "a \<in> pg_objs p" "pg_class p = i" and q: "q \<in> set (vw_pages V)" "b \<in> pg_objs q" "pg_class q = j"
    using a(1,2) by (auto simp: in_use_def)
  show ?thesis using obj_spans [OF V p(1,2) q(1,2) a(3)] p(3) q(3) by simp
qed

lemma client_safe_core:
  assumes "buddy_inv m" and "km_client (km_boot m w) s H"
  shows "distinct (map fst H)
    \<and> (\<forall>(a, n) \<in> set H. a \<noteq> 0 \<and> (\<exists>f. 0 < f \<and> f < 8192 \<and> holds_run (km_mm s) f 1 \<and> (\<forall>x \<in> span a (unat n). in_page f x)))
    \<and> (\<forall>(a, n) \<in> set H. \<forall>(b, k) \<in> set H. a \<noteq> b \<longrightarrow> span a (unat n) \<inter> span b (unat k) = {})"
proof -
  obtain V where V: "km_inv s V" "in_use V = (\<lambda>(a, n). (a, size_class n)) ` set H" "distinct (map fst H)" using client_view [OF assms] .
  note s' = km_bodyD [OF km_unlocked(1) [OF V(1)]]
  have u: "(a, size_class n) \<in> in_use V" if "(a, n) \<in> set H" for a n using V(2) that by force
  note sp = client_span [OF assms(2)]
  have "a \<noteq> 0 \<and> (\<exists>f. 0 < f \<and> f < 8192 \<and> holds_run (km_mm s) f 1 \<and> (\<forall>x \<in> span a (unat n). in_page f x))" if a: "(a, n) \<in> set H" for a n
    using in_use_page [OF u [OF a] s'(1,3)] sp [OF a] by blast
  moreover have "span a (unat n) \<inter> span b (unat k) = {}" if a: "(a, n) \<in> set H" and b: "(b, k) \<in> set H" and "a \<noteq> b" for a n b k
    using in_use_spans [OF s'(1) u [OF a] u [OF b] \<open>a \<noteq> b\<close>] sp [OF a] sp [OF b] by blast
  ultimately show ?thesis using V(3) by blast
qed

section \<open>Properties\<close>

text \<open>C34. Whatever clients do from the start of the system on (allocate, release, store into their objects, let \<open>free_cache\<close> run): no
  object is handed out twice, each lies in one page that the frame allocator has given away, none is \<open>NULL\<close>, and the bytes of
  any two are apart. Clients call \<open>kmalloc\<close> for at most 4096 bytes and with two frames free (\<open>can_alloc\<close>).\<close>

theorem km_client_safe:
  assumes "buddy_inv m" and "km_client (km_boot m w) s H"
  shows "distinct (map fst H)
    \<and> (\<forall>(a, n) \<in> set H. a \<noteq> 0 \<and> (\<exists>f. 0 < f \<and> f < 8192 \<and> holds_run (km_mm s) f 1 \<and> (\<forall>x \<in> span a (unat n). in_page f x)))
    \<and> (\<forall>(a, n) \<in> set H. \<forall>(b, k) \<in> set H. a \<noteq> b \<longrightarrow> span a (unat n) \<inter> span b (unat k) = {})"
  by (rule client_safe_core [OF assms])

lemma first_object:
  obtains m w s a where "buddy_inv m" "km_client (km_boot m w) s [(a, 24)]" "can_free 24 s"
proof -
  obtain m where m: "buddy_inv m" "free_frames m = {1020..<1024}" by (rule booted)
  let ?s = "km_boot m (\<lambda>_. 0)" and ?V = "\<lparr>vw_pages = [], vw_cached = (\<lambda>_. []), vw_descs = [], vw_dframes = []\<rparr>"
  have "km_mm ?s = m" by (simp add: km_boot_def)
  then have c: "can_alloc 24 ?s" using m(2) by (simp add: can_alloc_def)
  from km_boot_inv [OF m(1)] obtain a t W where t: "kmalloc 24 ?s = Some (a, t)" "km_inv t W"
    "vw_cached W = (vw_cached ?V)(class_of (unat (24 :: u32)) := tl (vw_cached ?V (class_of (unat (24 :: u32)))))"
    by (rule kmalloc_steps [where len = 24]) (use c in \<open>simp_all add: can_alloc_def\<close>)
  have "class_of (unat (24 :: u32)) < 10" using class_of [of "unat (24 :: u32)"] by simp
  from km_bodyD(9) [OF km_unlocked(1) [OF t(2)] this] have "can_free 24 t" using t(3) by (simp add: can_free_def size_class_def)
  moreover have "km_client ?s t [(a, 24)]" using c t(1) by (auto intro: obj_client.intros)
  ultimately show thesis using that m(1) by blast
qed

theorem km_client_safe_witness:
  "\<exists>m w s a. km_client (km_boot m w) s [(a, 24)] \<and> a \<noteq> 0 \<and> (\<exists>f. holds_run (km_mm s) f 1 \<and> (\<forall>x \<in> span a (unat (24 :: u32)). in_page f x))"
proof -
  obtain m w s a where s: "buddy_inv m" "km_client (km_boot m w) s [(a, 24)]" by (rule first_object)
  have "a \<noteq> 0 \<and> (\<exists>f. 0 < f \<and> f < 8192 \<and> holds_run (km_mm s) f 1 \<and> (\<forall>x \<in> span a (unat (24 :: u32)). in_page f x))"
    using km_client_safe [OF s] by simp
  with s(2) show ?thesis by blast
qed

text \<open>C35. A request of at most 4096 bytes with two frames free is served: \<open>kmalloc\<close> returns an object whose bytes are apart from those of all objects in use, and \<open>kfree\<close> and
  \<open>free_cache\<close> return; none of the three changes a byte of an object that stays in use.\<close>

theorem km_calls_keep:
  assumes "buddy_inv m" and "km_client (km_boot m w) s H"
  shows "(can_alloc len s \<longrightarrow> (\<exists>a s'. kmalloc len s = Some (a, s') \<and> (\<forall>(b, k) \<in> set H. span a (unat len) \<inter> span b (unat k) = {}
        \<and> (\<forall>x \<in> span b (unat k). words s' x = words s x))))
    \<and> (\<forall>(a, n) \<in> set H. can_free n s \<longrightarrow> (\<exists>s'. kfree a s = Some s'
        \<and> (\<forall>(b, k) \<in> set H. b \<noteq> a \<longrightarrow> (\<forall>x \<in> span b (unat k). words s' x = words s x))))
    \<and> (\<exists>s'. free_cache s = Some s' \<and> (\<forall>(b, k) \<in> set H. \<forall>x \<in> span b (unat k). words s' x = words s x))"
proof -
  obtain V where V: "km_inv s V" "in_use V = (\<lambda>(a, n). (a, size_class n)) ` set H" "distinct (map fst H)" using client_view [OF assms] .
  have u: "(a, size_class n) \<in> in_use V" if "(a, n) \<in> set H" for a n using V(2) that by force
  note sp = client_span [OF assms(2)]
  have k: "words s' x = words s x" if "keeps A s s'" "(b, n) \<in> set H" "(b, size_class n) \<in> A" "x \<in> span b (unat n)" for A s' b n x
    using that sp [OF that(2,4)] by (auto simp: keeps_def)
  have alloc: "\<exists>a s'. kmalloc len s = Some (a, s') \<and> (\<forall>(b, k) \<in> set H. span a (unat len) \<inter> span b (unat k) = {}
        \<and> (\<forall>x \<in> span b (unat k). words s' x = words s x))" if c: "can_alloc len s"
  proof -
    obtain a t W where t: "kmalloc len s = Some (a, t)" "km_inv t W" "in_use W = insert (a, size_class len) (in_use V)"
      "(a, size_class len) \<notin> in_use V" "keeps (in_use V) s t"
      using kmalloc_steps [OF V(1), of len] c unfolding can_alloc_def size_class_def by metis
    have c': "km_client (km_boot m w) t ((a, len) # H)" by (rule obj_alloc [OF assms(2) c t(1)])
    note core = client_safe_core [OF assms(1) c']
    have "span a (unat len) \<inter> span b (unat k) = {}" if b: "(b, k) \<in> set H" for b k
    proof -
      have "a \<noteq> b" using core [THEN conjunct1] b by force
      moreover have "(a, len) \<in> set ((a, len) # H)" "(b, k) \<in> set ((a, len) # H)" using b by simp_all
      ultimately show ?thesis using core [THEN conjunct2, THEN conjunct2] by blast
    qed
    then show ?thesis using k [OF t(5) _ u] t(1) by blast
  qed
  have free: "\<exists>s'. kfree a s = Some s' \<and> (\<forall>(b, k) \<in> set H. b \<noteq> a \<longrightarrow> (\<forall>x \<in> span b (unat k). words s' x = words s x))"
    if a: "(a, n) \<in> set H" "can_free n s" for a n
  proof -
    obtain t where t: "kfree a s = Some t" "keeps (in_use V - {(a, size_class n)}) s t"
      using kfree_steps [OF V(1) u [OF a(1)]] a(2) unfolding can_free_def by blast
    then show ?thesis using k [OF t(2)] u by auto
  qed
  obtain t W where "free_cache s = Some t" "km_inv t W" "keeps (in_use V) s t" by (rule free_cache_steps [OF V(1)])
  then have "\<exists>s'. free_cache s = Some s' \<and> (\<forall>(b, k) \<in> set H. \<forall>x \<in> span b (unat k). words s' x = words s x)" using k u by blast
  with alloc free show ?thesis by blast
qed

theorem km_calls_keep_witness:
  "\<exists>m w s a s'. km_client (km_boot m w) s [(a, 24)] \<and> free_cache s = Some s' \<and> (\<forall>x \<in> span a (unat (24 :: u32)). words s' x = words s x)"
proof -
  obtain m w s a where s: "buddy_inv m" "km_client (km_boot m w) s [(a, 24)]" by (rule first_object)
  from km_calls_keep [OF s, THEN conjunct2, THEN conjunct2]
  obtain s' where s': "free_cache s = Some s' \<and> (\<forall>(b, k) \<in> set [(a, 24 :: u32)]. \<forall>x \<in> span b (unat k). words s' x = words s x)" by (elim exE) (rule that)
  have "(a, 24) \<in> set [(a, 24 :: u32)]" by simp
  with s' s(2) show ?thesis by blast
qed

text \<open>C36. \<open>free_cache\<close> loses what is in the caches: after it the caches are empty, and an object that had been released before is neither
  on the free list of a page nor in use. The store that should put it on the free list writes the old head back.\<close>

theorem free_cache_loses:
  assumes "buddy_inv m" and "km_client (km_boot m w) s H" and "(a, n) \<in> set H" and "can_free n s"
    and "kfree a s = Some s1" and "free_cache s1 = Some s2"
  shows "\<exists>V. km_inv s2 V \<and> (\<forall>i < 10. vw_cached V i = []) \<and> a \<notin> free_objs V \<and> (\<forall>i. (a, i) \<notin> in_use V)"
proof -
  obtain V where V: "km_inv s V" "in_use V = (\<lambda>(a, n). (a, size_class n)) ` set H" "distinct (map fst H)" using client_view [OF assms(1,2)] .
  have u: "(a, size_class n) \<in> in_use V" using V(2) assms(3) by force
  let ?W = "V\<lparr>vw_cached := (vw_cached V)(size_class n := a # vw_cached V (size_class n))\<rparr>"
  have W: "km_inv s1 ?W" using kfree_steps [OF V(1) u] assms(4,5) unfolding can_free_def by (metis option.inject)
  obtain t X where X: "free_cache s1 = Some t" "km_inv t X" "in_use X = in_use ?W" "\<forall>j < 10. vw_cached X j = []" "free_objs X \<subseteq> free_objs ?W"
    by (rule free_cache_steps [OF W])
  note W' = km_bodyD [OF km_unlocked(1) [OF W]]
  have i: "size_class n < 10" using u by (simp add: in_use_def)
  have "a \<notin> free_objs ?W"
  proof
    assume "a \<in> free_objs ?W"
    then obtain p where p: "p \<in> set (vw_pages ?W)" "a \<in> set (pg_gone p)" by (auto simp: free_objs_def)
    have "a \<notin> set (vw_cached ?W (size_class n))" by (rule free_not_cached [OF W'(1) p(1) i p(2)])
    then show False by simp
  qed
  moreover have "(a, j) \<notin> in_use ?W" for j
    using in_use_given [OF u] one_class [OF km_bodyD(1) [OF km_unlocked(1) [OF V(1)]] u, of j] by auto
  ultimately show ?thesis using X assms(6) by (intro exI [of _ X]) auto
qed

theorem free_cache_loses_witness:
  "\<exists>m w s a s1 s2 V. km_client (km_boot m w) s [(a, 24)] \<and> kfree a s = Some s1 \<and> free_cache s1 = Some s2
    \<and> km_inv s2 V \<and> a \<notin> free_objs V \<and> (\<forall>i. (a, i) \<notin> in_use V)"
proof -
  obtain m w s a where s: "buddy_inv m" "km_client (km_boot m w) s [(a, 24)]" "can_free 24 s" by (rule first_object)
  have "km.ledger_of s [(a, 24)]" by (rule km.client_ledger [OF km_boot_holds [OF s(1)] s(2)])
  then obtain s1 where s1: "kfree a s = Some s1" "km_holds s1 ((\<lambda>(a, n). (a, size_class n)) ` set [(a, 24)] - {(a, size_class 24)})"
    using km.release_law [of s "(\<lambda>(a, n). (a, size_class n)) ` set [(a, 24)]" a 24] s(3) by (auto simp: km.ledger_of_def)
  then obtain V where "km_inv s1 V" by (auto simp: km_holds_def)
  then obtain s2 where s2: "free_cache s1 = Some s2" by (rule free_cache_steps)
  have "(a, 24) \<in> set [(a, 24)]" by simp
  from free_cache_loses [OF s(1,2) this s(3) s1(1) s2] s(2) s1(1) s2 show ?thesis by blast
qed

text \<open>C37. A request for more than a page is refused with \<open>NULL\<close> and a message when it is below 64 KB, and nothing else changes. A larger one runs
  past the end of the array of sizes.\<close>

theorem kmalloc_too_large:
  assumes "buddy_inv m" and "km_client (km_boot m w) s H" and "4096 < unat len"
  shows "kmalloc len s = (if unat len < 65536 then Some (0, km_error ''Kmalloc'' ''Try to alloc block larger than 4KB.'' s) else None)"
proof -
  obtain V where V: "km_inv s V" using client_view [OF assms(1,2)] by blast
  note s' = km_bodyD [OF km_unlocked(1) [OF V]]
  have small: "ucast (dir_obj_size (bucket_dir s k)) < len" if "k < 10" for k
    using s'(11) [of k] that assms(3) osz_le [OF that] by (simp add: km_size size_u32 size_unat word_less_nat_alt)
  have "(ucast (- 1 :: u16) :: u32) = 65535" by code_simp
  then have big: "(ucast (dir_obj_size (bucket_dir s 10)) :: u32) = 65535" using s'(11) [of 10] by (simp add: km_sizes_def)
  have cl: "bucket_class 11 (\<lambda>i. dir_obj_size (bucket_dir s i)) len 0 = Some i \<longleftrightarrow> i = 10 \<and> unat len < 65536" for i
  proof -
    have le: "len \<le> 65535 \<longleftrightarrow> unat len < 65536" by (auto simp: word_le_nat_alt)
    show ?thesis
    proof
      assume "bucket_class 11 (\<lambda>i. dir_obj_size (bucket_dir s i)) len 0 = Some i"
      then have i: "i < 11" "len \<le> ucast (dir_obj_size (bucket_dir s i))" by (simp_all add: bucket_class_iff)
      have "\<not> i < 10" using small [of i] i(2) by (auto simp: not_less [symmetric])
      then have "i = 10" using i(1) by simp
      then show "i = 10 \<and> unat len < 65536" using i(2) big le by simp
    next
      assume "i = 10 \<and> unat len < 65536"
      then show "bucket_class 11 (\<lambda>i. dir_obj_size (bucket_dir s i)) len 0 = Some i" using small big le by (simp add: bucket_class_iff)
    qed
  qed
  show ?thesis
  proof (cases "unat len < 65536")
    case True
    have sz: "dir_obj_size (bucket_dir s 10) = - 1" using s'(11) [of 10] by (simp add: km_sizes_def)
    have z: "ch_list_len (cache_dir s 10) = 0" using s'(2) by (simp add: dirs_ok_def)
    have l: "ch_lock (cache_dir s 10) = 0" using km_unlocked(2) [OF V, of 10] by simp
    have n: "ch_list_len (cache_dir (upd_cache 10 (\<lambda>c. c\<lparr>ch_lock := 1\<rparr>) s) 10) = 0" using z by (simp add: upd_cache_def)
    show ?thesis using True cl [of 10] by (simp add: kmalloc_def lock_cache_ok [OF l] n relock_cache [OF l] sz)
  next
    case False
    then have "bucket_class 11 (\<lambda>i. dir_obj_size (bucket_dir s i)) len 0 = None" using cl by (metis not_None_eq)
    then show ?thesis using False by (simp add: kmalloc_def)
  qed
qed

theorem kmalloc_too_large_witness:
  "\<exists>m w. kmalloc 5000 (km_boot m w) = Some (0, km_error ''Kmalloc'' ''Try to alloc block larger than 4KB.'' (km_boot m w)) \<and> kmalloc 70000 (km_boot m w) = None"
proof -
  obtain m where m: "buddy_inv m" by (rule booted)
  from kmalloc_too_large [OF m obj_start, of 5000 "\<lambda>_. 0"] kmalloc_too_large [OF m obj_start, of 70000 "\<lambda>_. 0"] show ?thesis
    by (intro exI [of _ m] exI [of _ "\<lambda>_. 0"]) simp
qed

text \<open>When no frame is free \<open>bucket_init\<close> does not panic: the failed allocation looks like the virtual address of frame 0, and the kernel
  chains descriptors in the physical page 0.\<close>

theorem bucket_init_no_memory:
  assumes "buddy_inv (km_mm s)" and "free_frames (km_mm s) = {}"
  shows "\<exists>s'. bucket_init s = Some s' \<and> free_bucket_desc s' = PAGE_OFFSET \<and> path (bk_next s') PAGE_OFFSET (bk_slots 0) 0"
proof -
  have p: "page_addr 0 = PAGE_OFFSET" by (simp add: page_addr_def fr_paddr_def to_vaddr_def)
  have a: "alloc_page (km_mm s) = Some (page_addr 0, km_mm s)" using alloc_page_step [OF assms(1)] assms(2) by auto
  have "to_fr_idx (to_paddr (page_addr 0)) = of_nat 0" by (rule in_page_frame) (unfold in_page_def, auto intro: exI [of _ 0])
  then have fi: "to_fr_idx (to_paddr (page_addr 0)) = 0" by simp
  have "0 < MAX_FRAME_NUM" using frame_fits [of 0] by simp
  moreover have "bucket_init_loop (page_addr 0) (page_addr 0 + of_nat (16 * 255)) (poke (page_addr 0 + of_nat (16 * 255) + 4) 0 u)
      = Some (u\<lparr>words := fresh_descs 0 (words u)\<rparr>)" for u
    unfolding fresh_descs_def by (subst bucket_init_loop_eq) simp_all
  then have "bucket_init_loop (page_addr 0) (page_addr 0 + 4080) (poke (4084 + page_addr 0) 0 u) = Some (u\<lparr>words := fresh_descs 0 (words u)\<rparr>)" for u
    by (simp add: add.commute)
  ultimately obtain h where "bucket_init s = Some (s\<lparr>km_mm := km_mm s, free_bucket_desc := page_addr 0, free_bucket_frames := h, words := fresh_descs 0 (words s)\<rparr>)"
    by (simp add: bucket_init_def on_frames_def a page_addr_nonzero [of 0] fi PAGE_SIZE_def Let_def)
  moreover have "path (\<lambda>d. fresh_descs 0 (words s) (d + 4)) PAGE_OFFSET (bk_slots 0) 0" using fresh_descs_path [of 0 "words s"] p by simp
  moreover have "bk_next t = (\<lambda>d. words t (d + 4))" for t by (rule ext) (rule bk_next_def)
  ultimately show ?thesis using p by simp
qed

lemma drained: "buddy_inv m \<Longrightarrow> \<exists>m'. buddy_inv m' \<and> free_frames m' = {}"
proof (induction "card (free_frames m)" arbitrary: m rule: less_induct)
  case less
  from alloc_page_step [OF less.prems] show ?case
  proof (elim disjE conjE exE)
    fix f m' assume a: "f \<in> free_frames m" "buddy_inv m'" "free_frames m' = free_frames m - {f}"
    have "finite (free_frames m)" by (rule finite_free)
    then have "card (free_frames m') < card (free_frames m)" unfolding a(3) by (rule card_Diff1_less [OF _ a(1)])
    from less.hyps [OF this a(2)] show ?case .
  qed (use less.prems in blast)
qed

theorem bucket_init_no_memory_witness:
  "\<exists>m w s'. free_frames m = {} \<and> bucket_init (km_boot m w) = Some s' \<and> free_bucket_desc s' = PAGE_OFFSET"
proof -
  obtain m where "buddy_inv m" by (rule booted)
  then obtain m' where m': "buddy_inv m'" "free_frames m' = {}" using drained by blast
  then have "buddy_inv (km_mm (km_boot m' (\<lambda>_. 0)))" "free_frames (km_mm (km_boot m' (\<lambda>_. 0))) = {}" by (simp_all add: km_boot_def)
  from bucket_init_no_memory [OF this] m' show ?thesis by blast
qed

end
