(* ===== verification/KernelMemory.thy ===== *)
theory KernelMemory
  imports TaskMemory KmallocClient
begin

text \<open>
  Tasks and objects together. Both live in pages of the one frame allocator and write the one memory: \<open>kernel\<close> has the state of
  \<open>kernel/sched.c\<close> and that of \<open>lib/kmalloc.c\<close> with the frames and words in common. The calls of both may come in any order,
  with the daemon that runs \<open>free_cache\<close> among them. The kernel as a whole is an \<open>object_store\<close>: the calls of the tasks are quiet
  steps of it.
\<close>

section \<open>The state and its steps\<close>

record kernel =
  k_tasks :: kstate
  k_objs :: km_state
  k_sems :: "u32 set"

text \<open>What one part has done to frames and words the other part sees.\<close>

definition with_tasks :: "kstate \<Rightarrow> kernel \<Rightarrow> kernel" where
  "with_tasks k w = w\<lparr>k_tasks := k, k_objs := (k_objs w)\<lparr>km_mm := kmm k, words := kmem k\<rparr>\<rparr>"

definition with_objs :: "km_state \<Rightarrow> kernel \<Rightarrow> kernel" where
  "with_objs s w = w\<lparr>k_objs := s, k_tasks := (k_tasks w)\<lparr>kmm := km_mm s, kmem := words s\<rparr>\<rparr>"

definition k_call :: "kcall \<Rightarrow> kernel \<Rightarrow> kernel option" where
  "k_call c w = do {
     k \<leftarrow> run_call c (k_tasks w);
     Some (with_tasks k (w\<lparr>k_sems := sems_after c (k_sems w)\<rparr>)) }"

definition k_alloc :: "u32 \<Rightarrow> kernel \<Rightarrow> (u32 \<times> kernel) option" where
  "k_alloc len w = do {
     (a, s) \<leftarrow> kmalloc len (k_objs w);
     Some (a, with_objs s w) }"

definition k_release :: "u32 \<Rightarrow> kernel \<Rightarrow> kernel option" where
  "k_release a w = do {
     s \<leftarrow> kfree a (k_objs w);
     Some (with_objs s w) }"

definition k_write :: "u32 \<Rightarrow> u32 \<Rightarrow> kernel \<Rightarrow> kernel" where
  "k_write a v w = with_objs (poke a v (k_objs w)) w"

text \<open>One round of the endless loop of \<open>kfree_km_cache\<close>.\<close>

definition kfree_km_cache_round :: "kernel \<Rightarrow> kernel option" where
  "kfree_km_cache_round w = do {
     s \<leftarrow> free_cache (k_objs w);
     let w = with_objs s w;
     k \<leftarrow> schedule (k_tasks w);
     Some (with_tasks k w) }"

definition kernel_start :: "kstate \<Rightarrow> kernel" where
  "kernel_start k = \<lparr>k_tasks = k, k_objs = km_boot (kmm k) (kmem k), k_sems = {}\<rparr>"

section \<open>The invariant\<close>

definition shared :: "kernel \<Rightarrow> bool" where
  "shared w \<longleftrightarrow> kmm (k_tasks w) = km_mm (k_objs w) \<and> kmem (k_tasks w) = words (k_objs w)"

text \<open>No task lives in a frame of the object allocator.\<close>

definition frames_apart :: "u32 set \<Rightarrow> km_view \<Rightarrow> bool" where
  "frames_apart T V \<longleftrightarrow> (\<forall>f \<in> set (all_frames V). page_addr f \<notin> T)"

definition k_inv :: "u32 \<Rightarrow> kernel \<Rightarrow> km_view \<Rightarrow> (node_addr \<Rightarrow> u32 list) \<Rightarrow> bool" where
  "k_inv idle w V Q \<longleftrightarrow> km_inv (k_objs w) V \<and> kinv idle (k_sems w) (k_tasks w) Q \<and> shared w \<and> frames_apart (live (k_tasks w)) V"

lemma free_small: "buddy_inv m \<Longrightarrow> f \<in> free_frames m \<Longrightarrow> f < 8192"
proof -
  assume m: "buddy_inv m" and f: "f \<in> free_frames m"
  obtain fl where r: "rep {} (first_frame m) (last_frame m) m (block_of m) fl" using m by (rule buddy_invD)
  obtain i k where i: "block_of m i = Some (k, True)" "i \<le> f" "f < i + 2 ^ k" using f by (auto simp: free_frames_def covered_def)
  show ?thesis using rep_block [OF r i(1)] repD(1) [OF r] i(3) by simp
qed

lemma live_idle: "kinv idle S k Q \<Longrightarrow> idle \<in> live k"
  using calmD(2) [OF kinvD(1)] .

lemma page_addr_inj: "f < 8192 \<Longrightarrow> g < 8192 \<Longrightarrow> page_addr f = page_addr g \<Longrightarrow> f = g"
  using page_inj by (simp add: page_is_addr)

text \<open>A task is in no frame of the territory of the object allocator.\<close>

lemma task_outside:
  assumes k: "kinv idle S k Q" and V: "view_ok V" and a: "frames_apart (live k) V" and f: "f \<in> territory (kmm k) V"
  shows "page_addr f \<notin> live k"
proof (cases "f \<in> set (all_frames V)")
  case True
  then show ?thesis using a by (simp add: frames_apart_def)
next
  case False
  then have f: "f \<in> free_frames (kmm k)" using f by (simp add: territory_def)
  have "f < 8192" using free_small f kinvD(7) [OF k] by (auto simp: pages_ok_def)
  then show ?thesis using pages_ok_fresh(1) [OF kinvD(7) [OF k] f] by (simp add: page_is_addr)
qed

text \<open>The tasks do not notice that the frames of others and the words in them change.\<close>

lemma kinv_mem:
  assumes inv: "kinv idle S k Q" and m: "pages_ok idle (live k) m"
  shows "kinv idle S (k\<lparr>kmm := m, kmem := w\<rparr>) Q"
proof -
  let ?k = "k\<lparr>kmm := m, kmem := w\<rparr>"
  note c = kinvD(1) [OF inv]
  have lv: "live ?k = live k" by (simp add: live_def)
  have "placed S (live k) {} ?k Q" by (rule placed_frame [OF calmD(1) [OF c]]) simp_all
  then have "calm idle S (live k) ?k Q" using c by (simp add: calm_def)
  moreover have "sems_ok S ?k Q" using kinvD(2) [OF inv] by (simp add: sems_ok_def)
  moreover obtain K rk where "family idle (live k) k K rk" using kinvD(8) [OF inv] by (auto simp: tree_ok_def)
  then have "family idle (live k) ?k K rk" by (simp add: family_def alive_def child_of_def)
  then have "tree_ok idle (live k) ?k" unfolding tree_ok_def by blast
  moreover have "ids_ok (live k) ?k" using kinvD(6) [OF inv] by (simp add: ids_ok_def)
  ultimately show ?thesis
    using kinvD(4,5) [OF inv] m by (intro kinvI) (auto simp: rest_ok_def KernelThreads.unlocked_def prios_ok_def)
qed

section \<open>Steps of the objects\<close>

text \<open>The words of the pages of all tasks but the idle one, which runs on the stack of the boot code.\<close>

definition stacks_kept :: "u32 \<Rightarrow> kernel \<Rightarrow> kernel \<Rightarrow> bool" where
  "stacks_kept idle w w' \<longleftrightarrow> (\<forall>t \<in> live (k_tasks w) - {idle}. \<forall>j < 4096. kmem (k_tasks w') (t + of_nat j) = kmem (k_tasks w) (t + of_nat j))"

lemma pages_ok_within:
  assumes k: "kinv idle S k Q" and s: "kmm k = km_mm s" and V: "view_ok V" and a: "frames_apart (live k) V"
    and w: "within s V t W" and m: "buddy_inv (km_mm t)"
  shows "pages_ok idle (live k) (km_mm t)"
proof -
  note pg = kinvD(7) [OF k]
  note out = task_outside [OF k V a, unfolded s]
  have "\<exists>i. page_of (km_mm t) u i" if u: "u \<in> live k" "u \<noteq> idle" for u
  proof -
    obtain i where i: "page_of (km_mm s) u i" using pg u s by (auto simp: pages_ok_def)
    then have "i \<notin> territory (km_mm s) V" using out u(1) by (auto simp: page_of_def page_is_addr)
    then show ?thesis using i w by (auto simp: page_of_def within_def)
  qed
  moreover have "idle \<noteq> page i" if "i \<in> free_frames (km_mm t)" for i
  proof -
    have "i \<in> territory (km_mm s) V" using that w by (auto simp: within_def territory_def)
    then show ?thesis using out live_idle [OF k] by (metis page_is_addr)
  qed
  ultimately show ?thesis using m by (simp add: pages_ok_def)
qed

lemma objs_step:
  assumes w: "k_inv idle w V Q" and t: "km_inv t W" "within (k_objs w) V t W"
  shows "k_inv idle (with_objs t w) W Q" and "stacks_kept idle w (with_objs t w)"
proof -
  let ?k = "k_tasks w" and ?s = "k_objs w"
  have k: "kinv idle (k_sems w) ?k Q" and sh: "kmm ?k = km_mm ?s" "kmem ?k = words ?s" and a: "frames_apart (live ?k) V"
    using w by (simp_all add: k_inv_def shared_def)
  have V: "view_ok V" "view_ok W" "buddy_inv (km_mm t)"
    using w t(1) km_bodyD(1,4) km_unlocked(1) unfolding k_inv_def by blast+
  note out = task_outside [OF k V(1) a, unfolded sh(1)]
  have "pages_ok idle (live ?k) (km_mm t)" by (rule pages_ok_within [OF k sh(1) V(1) a t(2) V(3)])
  note k' = kinv_mem [OF k this, of "words t"]
  have "frames_apart (live ?k) W" using t(2) out by (auto simp: frames_apart_def within_def territory_def)
  moreover have "live (?k\<lparr>kmm := km_mm t, kmem := words t\<rparr>) = live ?k" by (simp add: live_def)
  ultimately show "k_inv idle (with_objs t w) W Q" using k' t(1) by (simp add: k_inv_def with_objs_def shared_def)
  have "words t (u + of_nat j) = words ?s (u + of_nat j)" if u: "u \<in> live ?k" "u \<noteq> idle" and j: "j < 4096" for u j
  proof (rule ccontr)
    assume "words t (u + of_nat j) \<noteq> words ?s (u + of_nat j)"
    then obtain f where f: "f \<in> territory (km_mm ?s) V" "in_page f (u + of_nat j)" using t(2) by (auto simp: within_def)
    obtain i where i: "u = page_addr i" "i < 8192" using kinvD(7) [OF k] u by (auto simp: pages_ok_def page_of_def page_is_addr)
    have "buddy_inv (km_mm ?s)" using kinvD(7) [OF k] sh(1) by (simp add: pages_ok_def)
    then have "f < 8192" using f(1) viewD(3) [OF V(1)] free_small by (auto simp: territory_def)
    moreover have "in_page i (u + of_nat j)" using i(1) j unfolding in_page_def by blast
    ultimately have "f = i" using in_page_unique [OF f(2)] i(2) by blast
    then show False using out [OF f(1)] u(1) i(1) by simp
  qed
  then show "stacks_kept idle w (with_objs t w)" using sh(2) by (simp add: stacks_kept_def with_objs_def)
qed

section \<open>Steps of the tasks\<close>

text \<open>The object allocator does not notice what happens outside its frames.\<close>

lemma km_inv_outside:
  assumes s: "km_inv s V" and m: "buddy_inv m" "same_bkt (km_mm s) m" "\<And>f. f \<in> set (all_frames V) \<Longrightarrow> holds_run (km_mm s) f 1 \<Longrightarrow> holds_run m f 1"
    and w: "mem_ok w (free_bucket_desc s) (\<lambda>i. dir_chain (bucket_dir s i)) (\<lambda>i. ch_object (cache_dir s i)) V"
  shows "km_inv (s\<lparr>km_mm := m, words := w\<rparr>) V"
proof -
  note s' = km_bodyD [OF km_unlocked(1) [OF s]]
  have "frames_ok m V" using s'(3) m by (auto simp: frames_ok_def same_bkt_def)
  then show ?thesis using s s'(1,2) w by (simp add: km_inv_def km_body_def dirs_ok_def KmallocInv.unlocked_def)
qed

definition objs_kept :: "km_view \<Rightarrow> kernel \<Rightarrow> kernel \<Rightarrow> bool" where
  "objs_kept V w w' \<longleftrightarrow> keeps (in_use V) (k_objs w) (k_objs w')"

lemma tasks_step:
  assumes w: "k_inv idle w V Q" and k': "kinv idle S k' Q'" and st: "task_mem_step idle (k_tasks w) k'"
  shows "k_inv idle (with_tasks k' (w\<lparr>k_sems := S\<rparr>)) V Q'" and "objs_kept V w (with_tasks k' (w\<lparr>k_sems := S\<rparr>))"
proof -
  let ?k = "k_tasks w" and ?s = "k_objs w"
  let ?t = "?s\<lparr>km_mm := kmm k', words := kmem k'\<rparr>"
  have k: "kinv idle (k_sems w) ?k Q" and sh: "kmm ?k = km_mm ?s" "kmem ?k = words ?s" and a: "frames_apart (live ?k) V" and km: "km_inv ?s V"
    using w by (simp_all add: k_inv_def shared_def)
  note s' = km_bodyD [OF km_unlocked(1) [OF km]]
  have held: "holds_run (km_mm ?s) f 1" if "f \<in> set (all_frames V)" for f using s'(3) that by (simp add: frames_ok_def)
  have "km_inv ?t V \<and> frames_apart (live k') V \<and> keeps (in_use V) ?s ?t"
    using st unfolding task_mem_step_def
  proof (elim disjE exE conjE)
    assume "mem_same ?k k'"
    then show ?thesis using km a sh by (auto simp: mem_same_def live_def keeps_def)
  next
    fix f assume f: "f \<in> free_frames (kmm ?k)" "alloc_page (kmm ?k) = Some (page_addr f, kmm k')" "live k' = insert (page_addr f) (live ?k)"
      "\<forall>x. \<not> in_page f x \<longrightarrow> kmem k' x = kmem ?k x"
    have fV: "f \<notin> set (all_frames V)" "f < 8192" using held held_not_free [OF s'(4)] free_small [OF s'(4)] f(1) sh(1) by auto
    from alloc_page_step [OF s'(4)] f(1,2) sh(1) have m: "buddy_inv (kmm k')" "same_bkt (km_mm ?s) (kmm k')"
      "\<forall>j n. holds_run (km_mm ?s) j n \<longrightarrow> holds_run (kmm k') j n" by auto
    have ch: "in_page f x" if "kmem k' x \<noteq> words ?s x" for x using f(4) that sh(2) by metis
    have "km_inv ?t V" by (rule km_inv_outside [OF km m(1,2) _ mem_frame [OF s'(1,5) fV(2,1)]]) (use m(3) ch in auto)
    moreover have "keeps (in_use V) ?s ?t" by (rule keeps_frame [OF s'(1) fV(2,1)]) (simp add: ch)
    moreover have "page_addr g \<noteq> page_addr f" if "g \<in> set (all_frames V)" for g
      using page_addr_inj fV viewD(3) [OF s'(1) that] that by blast
    then have "frames_apart (live k') V" using a f(3) by (simp add: frames_apart_def)
    ultimately show ?thesis by blast
  next
    fix f b assume f: "page_addr f \<in> live ?k" "holds_run (kmm ?k) f 1" "live k' = live ?k - {page_addr f}"
      "free_page (page_addr f) (kmm ?k) = Some (b, kmm k')" "kmem k' = kmem ?k"
    obtain m where m: "free_page (page_addr f) (km_mm ?s) = Some (True, m)" "buddy_inv m" "\<forall>j. j \<noteq> f \<longrightarrow> holds_run (km_mm ?s) j 1 \<longrightarrow> holds_run m j 1"
      "same_bkt (km_mm ?s) m" using free_page_step [OF s'(4), of f] f(2) sh(1) by metis
    have mk: "m = kmm k'" using m(1) f(4) sh(1) by simp
    have "f \<notin> set (all_frames V)" using a f(1) by (auto simp: frames_apart_def)
    then have "km_inv ?t V" by (intro km_inv_outside [OF km]) (use m s'(5) f(5) sh(2) in \<open>auto simp: mk\<close>)
    then show ?thesis using a f(3,5) sh(2) by (simp add: frames_apart_def keeps_def)
  qed
  then show "k_inv idle (with_tasks k' (w\<lparr>k_sems := S\<rparr>)) V Q'" "objs_kept V w (with_tasks k' (w\<lparr>k_sems := S\<rparr>))"
    using k' by (simp_all add: k_inv_def shared_def with_tasks_def objs_kept_def)
qed

lemma call_step:
  assumes w: "k_inv idle w V Q" and al: "allowed idle (k_sems w) c (k_tasks w)"
  obtains w' Q' where "k_call c w = Some w'" "k_inv idle w' V Q'" "objs_kept V w w'"
proof -
  have k: "kinv idle (k_sems w) (k_tasks w) Q" using w by (simp add: k_inv_def)
  from kernel_call_step [OF k al] obtain k' Q' where k': "run_call c (k_tasks w) = Some k'" "kinv idle (sems_after c (k_sems w)) k' Q'" by blast
  note st = tasks_step [OF w k'(2) run_call_mem [OF k al k'(1)]]
  show thesis by (rule that [OF _ st]) (simp add: k_call_def k'(1))
qed

section \<open>Any order of calls\<close>

text \<open>The steps that neither hand out nor take back an object: a call of the tasks, a round of the daemon, a store of a client into
  its object.\<close>

definition k_quiet :: "u32 \<Rightarrow> (u32 \<times> u32) list \<Rightarrow> kernel \<Rightarrow> kernel \<Rightarrow> bool" where
  "k_quiet idle H w w' \<longleftrightarrow> (\<exists>c. allowed idle (k_sems w) c (k_tasks w) \<and> k_call c w = Some w') \<or> kfree_km_cache_round w = Some w'
     \<or> (\<exists>a n k v. (a, n) \<in> set H \<and> 4 * k + 4 \<le> osz (size_class n) \<and> w' = k_write (a + of_nat (4 * k)) v w)"

abbreviation k_client :: "u32 \<Rightarrow> kernel \<Rightarrow> kernel \<Rightarrow> (u32 \<times> u32) list \<Rightarrow> bool" where
  "k_client idle \<equiv> obj_client k_alloc k_release (\<lambda>n w. can_alloc n (k_objs w)) (\<lambda>n w. can_free n (k_objs w)) (k_quiet idle)"

definition k_holds :: "u32 \<Rightarrow> kernel \<Rightarrow> (u32 \<times> nat) set \<Rightarrow> bool" where
  "k_holds idle w A \<longleftrightarrow> (\<exists>V Q. k_inv idle w V Q \<and> in_use V = A)"

lemma k_invD: "k_inv idle w V Q \<Longrightarrow> km_inv (k_objs w) V" "k_inv idle w V Q \<Longrightarrow> kinv idle (k_sems w) (k_tasks w) Q"
  by (simp_all add: k_inv_def)

lemma alloc_step:
  assumes w: "k_inv idle w V Q" and c: "can_alloc n (k_objs w)"
  obtains a w' W where "k_alloc n w = Some (a, w')" "k_inv idle w' W Q" "in_use W = insert (a, size_class n) (in_use V)"
    "(a, size_class n) \<notin> in_use V" "stacks_kept idle w w'" "objs_kept V w w'"
proof -
  have n: "unat n \<le> 4096" "2 \<le> card (free_frames (km_mm (k_objs w)))" using c by (simp_all add: can_alloc_def)
  obtain a t W where t: "kmalloc n (k_objs w) = Some (a, t)" "km_inv t W" "in_use W = insert (a, class_of (unat n)) (in_use V)"
    "(a, class_of (unat n)) \<notin> in_use V" "keeps (in_use V) (k_objs w) t" "within (k_objs w) V t W"
    by (rule kmalloc_steps [OF k_invD(1) [OF w] n])
  show thesis
    by (rule that [OF _ objs_step(1) [OF w t(2,6)] _ _ objs_step(2) [OF w t(2,6)]])
      (use t in \<open>simp_all add: k_alloc_def size_class_def objs_kept_def with_objs_def\<close>)
qed

lemma release_step:
  assumes w: "k_inv idle w V Q" and a: "(a, size_class n) \<in> in_use V" and c: "can_free n (k_objs w)"
  obtains w' W where "k_release a w = Some w'" "k_inv idle w' W Q" "in_use W = in_use V - {(a, size_class n)}" "stacks_kept idle w w'"
    "keeps (in_use V - {(a, size_class n)}) (k_objs w) (k_objs w')"
proof -
  let ?W = "V\<lparr>vw_cached := (vw_cached V)(size_class n := a # vw_cached V (size_class n))\<rparr>"
  obtain t where t: "kfree a (k_objs w) = Some t" "km_inv t ?W" "keeps (in_use V - {(a, size_class n)}) (k_objs w) t" "within (k_objs w) V t ?W"
    using kfree_steps [OF k_invD(1) [OF w] a] c unfolding can_free_def by blast
  show thesis
    by (rule that [OF _ objs_step(1) [OF w t(2,4)] in_use_given [OF a] objs_step(2) [OF w t(2,4)]])
      (use t in \<open>simp_all add: k_release_def with_objs_def\<close>)
qed

lemma schedule_kinv:
  assumes "kinv idle S k Q"
  obtains k' Q' where "schedule k = Some k'" "kinv idle S k' Q'" "mem_same k k'"
proof -
  note c = kinvD(1) [OF assms]
  from schedule_calm [OF calmD(1-4) [OF c]] obtain k' Q' where k': "schedule k = Some k'" "calm idle S (live k) k' Q'" "only_queues k k'"
    "\<And>i. Q' (TqHead i) = Q (TqHead i)" using served_tq by metis
  have "kinv idle S k' Q'"
    by (rule kinv_kin [OF assms k'(2) only_queues_kin [OF k'(3)]]) (use k'(4) only_queuesD(2) [OF k'(3)] in simp_all)
  then show thesis using that k'(1) schedule_same [OF k'(1)] by blast
qed

lemma round_step:
  assumes w: "k_inv idle w V Q"
  obtains w' W Q' where "kfree_km_cache_round w = Some w'" "k_inv idle w' W Q'" "in_use W = in_use V" "stacks_kept idle w w'" "objs_kept V w w'"
proof -
  obtain t W where t: "free_cache (k_objs w) = Some t" "km_inv t W" "in_use W = in_use V" "keeps (in_use V) (k_objs w) t" "within (k_objs w) V t W"
    by (rule free_cache_steps [OF k_invD(1) [OF w]])
  let ?w = "with_objs t w"
  note o = objs_step [OF w t(2,5)]
  obtain k' Q' where k': "schedule (k_tasks ?w) = Some k'" "kinv idle (k_sems ?w) k' Q'" "mem_same (k_tasks ?w) k'"
    by (rule schedule_kinv [OF k_invD(2) [OF o(1)]])
  have "task_mem_step idle (k_tasks ?w) k'" using k'(3) by (simp add: task_mem_step_def)
  note s = tasks_step [OF o(1) k'(2) this]
  have e: "with_tasks k' (?w\<lparr>k_sems := k_sems ?w\<rparr>) = with_tasks k' ?w" by simp
  have "kmem k' = kmem (k_tasks ?w)" using k'(3) by (simp add: mem_same_def)
  then have "stacks_kept idle w (with_tasks k' ?w)" using o(2) by (simp add: stacks_kept_def with_tasks_def)
  moreover have "objs_kept V w (with_tasks k' ?w)"
    using keeps_trans [OF t(4)] s(2) t(3) unfolding e by (simp add: objs_kept_def with_objs_def)
  ultimately show thesis using that [of "with_tasks k' ?w" W Q'] s(1) t(1,3) k'(1) unfolding e by (simp add: kfree_km_cache_round_def)
qed

lemma write_step:
  assumes w: "k_inv idle w V Q" and a: "(a, i) \<in> in_use V" and x: "x \<in> span a (osz i)"
  shows "k_inv idle (k_write x v w) V Q"
proof -
  have V: "view_ok V" using km_bodyD(1) km_unlocked(1) k_invD(1) [OF w] by blast
  obtain p where p: "p \<in> set (vw_pages V)" "a \<in> pg_objs p" "pg_class p = i" using a by (auto simp: in_use_def)
  have "within (k_objs w) V (poke x v (k_objs w)) V"
    by (rule within_words) (use obj_place [OF V p(1,2)] p(3) x in \<open>auto split: if_splits\<close>)
  from objs_step(1) [OF w client_write [OF k_invD(1) [OF w] a x] this] show ?thesis unfolding k_write_def .
qed

interpretation kern: object_store "k_holds idle" size_class k_alloc k_release "\<lambda>n w. can_alloc n (k_objs w)" "\<lambda>n w. can_free n (k_objs w)"
  "k_quiet idle" for idle
proof
  fix w A n assume "k_holds idle w A" "can_alloc n (k_objs w)"
  then show "\<exists>a w'. k_alloc n w = Some (a, w') \<and> (a, size_class n) \<notin> A \<and> k_holds idle w' (insert (a, size_class n) A)"
    unfolding k_holds_def by (metis alloc_step)
next
  fix w A a n assume "k_holds idle w A" "(a, size_class n) \<in> A" "can_free n (k_objs w)"
  then show "\<exists>w'. k_release a w = Some w' \<and> k_holds idle w' (A - {(a, size_class n)})"
    unfolding k_holds_def by (metis release_step)
next
  fix w A H w' assume h: "k_holds idle w A" "(\<lambda>(a, n). (a, size_class n)) ` set H = A" "k_quiet idle H w w'"
  then obtain V Q where w: "k_inv idle w V Q" "in_use V = A" by (auto simp: k_holds_def)
  from h(3) show "k_holds idle w' A" unfolding k_quiet_def
  proof (elim disjE exE conjE)
    fix c assume "allowed idle (k_sems w) c (k_tasks w)" "k_call c w = Some w'"
    then show ?thesis using call_step [OF w(1)] w(2) by (metis k_holds_def option.inject)
  next
    assume "kfree_km_cache_round w = Some w'"
    then show ?thesis using round_step [OF w(1)] w(2) by (metis k_holds_def option.inject)
  next
    fix a n k v assume a: "(a, n) \<in> set H" "4 * k + 4 \<le> osz (size_class n)" "w' = k_write (a + of_nat (4 * k)) v w"
    have "(a, size_class n) \<in> in_use V" using a(1) h(2) w(2) by force
    moreover have "a + of_nat (4 * k) \<in> span a (osz (size_class n))" by (rule spanI) (use a(2) in simp)
    ultimately have "k_inv idle w' V Q" unfolding a(3) by (rule write_step [OF w(1)])
    then show ?thesis using w(2) unfolding k_holds_def by blast
  qed
next
  fix w A a k k' assume "k_holds idle w A" "(a, k) \<in> A" "(a, k') \<in> A"
  then show "k = k'" unfolding k_holds_def using one_class km_bodyD(1) [OF km_unlocked(1)] k_invD(1) by blast
qed

section \<open>From the start of the system\<close>

lemma start_inv:
  assumes "kfresh idle k0" and "sched_init idle k0 = Some k1"
  shows "k_holds idle (kernel_start k1) {}"
proof -
  let ?V = "\<lparr>vw_pages = [], vw_cached = (\<lambda>_. []), vw_descs = [], vw_dframes = []\<rparr>"
  from sched_init_kinv [OF assms(1)] assms(2) obtain Q where k: "kinv idle {} k1 Q" by auto
  then have "buddy_inv (kmm k1)" using kinvD(7) by (auto simp: pages_ok_def)
  from km_boot_inv [OF this] have "k_inv idle (kernel_start k1) ?V Q"
    using k by (simp add: k_inv_def kernel_start_def shared_def frames_apart_def all_frames_def km_boot_def)
  then show ?thesis unfolding k_holds_def by (intro exI [of _ ?V] exI [of _ Q]) (simp add: in_use_def)
qed

lemma k_client_view:
  assumes "kfresh idle k0" and "sched_init idle k0 = Some k1" and "k_client idle (kernel_start k1) w H"
  obtains V Q where "k_inv idle w V Q" "distinct (map fst H)"
    "\<forall>a n. (a, n) \<in> set H \<longrightarrow> (a, size_class n) \<in> in_use V \<and> span a (unat n) \<subseteq> span a (osz (size_class n))"
proof -
  obtain V Q where V: "k_inv idle w V Q" "in_use V = (\<lambda>(a, n). (a, size_class n)) ` set H" "distinct (map fst H)"
    using kern.client_ledger [OF start_inv [OF assms(1,2)] assms(3)] by (auto simp: kern.ledger_of_def k_holds_def)
  have "unat n \<le> 4096" if "(a, n) \<in> set H" for a n
    using obj_client_kinds [OF assms(3) _ that, of "\<lambda>n. unat n \<le> 4096"] by (simp add: can_alloc_def)
  then have "span a (unat n) \<subseteq> span a (osz (size_class n))" if "(a, n) \<in> set H" for a n using class_span that by blast
  moreover have "(a, size_class n) \<in> in_use V" if "(a, n) \<in> set H" for a n using V(2) that by force
  ultimately show thesis using that [OF V(1,3)] by blast
qed

lemma object_off_pages:
  assumes w: "k_inv idle w V Q" and a: "(a, i) \<in> in_use V" and t: "t \<in> live (k_tasks w)" "t \<noteq> idle" and j: "j < 4096"
  shows "t + of_nat j \<notin> span a (osz i)"
proof
  assume x: "t + of_nat j \<in> span a (osz i)"
  have V: "view_ok V" using km_bodyD(1) km_unlocked(1) k_invD(1) [OF w] by blast
  obtain p where p: "p \<in> set (vw_pages V)" "a \<in> pg_objs p" "pg_class p = i" "i < 10" using a by (auto simp: in_use_def)
  obtain f where f: "t = page_addr f" "f < 8192" using kinvD(7) [OF k_invD(2) [OF w]] t by (auto simp: pages_ok_def page_of_def page_is_addr)
  have "in_page f (t + of_nat j)" using f(1) j unfolding in_page_def by blast
  moreover have "in_page (pg_frame p) (t + of_nat j)" using obj_span [OF p(4) _ x] p(2,3) by blast
  ultimately have "pg_frame p = f" using in_page_unique f(2) viewD(4) [OF V p(1)] by blast
  moreover have "pg_frame p \<in> set (all_frames V)" using p(1) by (simp add: all_frames_def)
  ultimately show False using w t(1) f(1) by (auto simp: k_inv_def frames_apart_def)
qed

section \<open>Properties\<close>

text \<open>C12. Tasks and objects share frames and memory and stay apart: in whatever order threads are created, block, wake and end, the reaper
  and the daemon of \<open>free_cache\<close> run, and clients allocate, release and write, the invariant of the tasks holds, no object is handed
  out twice or overlaps another, and none lies in the page of a task, where its \<open>task_t\<close> and its stack are. Clients call \<open>kmalloc\<close> for
  at most 4096 bytes and with two frames free (\<open>can_alloc\<close>).\<close>

theorem kernel_memory_safe:
  assumes "kfresh idle k0" and "sched_init idle k0 = Some k1" and "k_client idle (kernel_start k1) w H"
  shows "(\<exists>Q. kinv idle (k_sems w) (k_tasks w) Q) \<and> distinct (map fst H)
    \<and> (\<forall>(a, n) \<in> set H. a \<noteq> 0 \<and> (\<forall>t \<in> live (k_tasks w) - {idle}. \<forall>j < 4096. t + of_nat j \<notin> span a (unat n)))
    \<and> (\<forall>(a, n) \<in> set H. \<forall>(b, k) \<in> set H. a \<noteq> b \<longrightarrow> span a (unat n) \<inter> span b (unat k) = {})"
proof -
  obtain V Q where w: "k_inv idle w V Q" "distinct (map fst H)"
    "\<forall>a n. (a, n) \<in> set H \<longrightarrow> (a, size_class n) \<in> in_use V \<and> span a (unat n) \<subseteq> span a (osz (size_class n))" by (rule k_client_view [OF assms])
  note u = w(3) [rule_format, THEN conjunct1] and sp = w(3) [rule_format, THEN conjunct2, THEN subsetD]
  note s' = km_bodyD [OF km_unlocked(1) [OF k_invD(1) [OF w(1)]]]
  have "a \<noteq> 0 \<and> (\<forall>t \<in> live (k_tasks w) - {idle}. \<forall>j < 4096. t + of_nat j \<notin> span a (unat n))" if a: "(a, n) \<in> set H" for a n
    using in_use_page [OF u [OF a] s'(1,3)] object_off_pages [OF w(1) u [OF a]] sp [OF a] by blast
  moreover have "span a (unat n) \<inter> span b (unat k) = {}" if "(a, n) \<in> set H" "(b, k) \<in> set H" "a \<noteq> b" for a n b k
    using in_use_spans [OF s'(1) u u] sp that by blast
  ultimately show ?thesis using k_invD(2) [OF w(1)] w(2) by blast
qed

text \<open>A thread and an object from the start on.\<close>

lemma first_thread_and_object:
  obtains k0 k1 w a n where "kfresh idle0 k0" "sched_init idle0 k0 = Some k1" "k_client idle0 (kernel_start k1) w [(a, 24)]"
    "n \<in> live (k_tasks w)" "n \<noteq> idle0"
proof -
  obtain k0 k1 where k: "kfresh idle0 k0" "sched_init idle0 k0 = Some k1" "kinv idle0 {} k1 (no_tasks(RrHead IDEL_PRIO := [idle0]))"
    "free_frames (kmm k1) = {1020..<1024}" "pids (pid_map_state k1) \<noteq> {0..<256}" "live k1 = {idle0}" by (rule kernel_boot_frames)
  obtain V Q where st: "k_inv idle0 (kernel_start k1) V Q" "in_use V = {}" using start_inv [OF k(1,2)] by (auto simp: k_holds_def)
  let ?c = "CSpawn 0 0 0 0 None"
  have al: "allowed idle0 (k_sems (kernel_start k1)) ?c (k_tasks (kernel_start k1))"
    using k(4,5) by (simp add: kernel_start_def NR_PRIO_def)
  obtain w1 Q1 where w1: "k_call ?c (kernel_start k1) = Some w1" "k_inv idle0 w1 V Q1" "objs_kept V (kernel_start k1) w1"
    by (rule call_step [OF st(1) al])
  have ne: "free_frames (kmm k1) \<noteq> {}" using k(4) by simp
  obtain n k2 where k2: "kernel_thread 0 0 0 0 None k1 = Some (n, k2)" "n \<noteq> idle0" "live k2 = {idle0, n}"
    by (rule first_thread [OF k(3,6) ne k(5)])
  have kt: "k_tasks w1 = k2" "km_mm (k_objs w1) = kmm k2" using w1(1) k2(1) by (auto simp: k_call_def kernel_start_def with_tasks_def)
  have "buddy_inv (kmm k1)" using kinvD(7) [OF k(3)] by (simp add: pages_ok_def)
  from alloc_page_step [OF this] kernel_thread_mem(1) [OF k2(1)] ne obtain f where "free_frames (kmm k2) = free_frames (kmm k1) - {f}" by auto
  then have "3 \<le> card (free_frames (kmm k2))" using k(4) by (simp add: card_Diff_singleton_if)
  then have c: "can_alloc 24 (k_objs w1)" using kt(2) by (simp add: can_alloc_def)
  obtain a w2 W where w2: "k_alloc 24 w1 = Some (a, w2)" "k_inv idle0 w2 W Q1" "in_use W = insert (a, size_class 24) (in_use V)"
    by (rule alloc_step [OF w1(2) c])
  have q: "k_quiet idle0 [] (kernel_start k1) w1" unfolding k_quiet_def using al w1(1) by blast
  have "k_client idle0 (kernel_start k1) (kernel_start k1) []" by (rule obj_start)
  then have "k_client idle0 (kernel_start k1) w1 []" using q by (rule obj_quiet)
  then have "k_client idle0 (kernel_start k1) w2 [(a, 24)]" using c w2(1) by (rule obj_alloc)
  moreover have "k_tasks w2 = (k_tasks w1)\<lparr>kmm := kmm (k_tasks w2), kmem := kmem (k_tasks w2)\<rparr>"
    using w2(1) by (auto simp: k_alloc_def with_objs_def split: Option.bind_splits)
  then have "live (k_tasks w2) = live k2" unfolding live_def kt(1) by (metis kstate.select_convs(7) kstate.surjective kstate.update_convs(9,10))
  ultimately show thesis using that [OF k(1,2)] k2(2,3) by blast
qed

theorem kernel_memory_safe_witness:
  "\<exists>k1 w a n. k_client idle0 (kernel_start k1) w [(a, 24)] \<and> n \<in> live (k_tasks w) \<and> n \<noteq> idle0
    \<and> a \<noteq> 0 \<and> (\<forall>j < 4096. n + of_nat j \<notin> span a (unat (24 :: u32)))"
proof -
  obtain k0 k1 w a n where k: "kfresh idle0 k0" "sched_init idle0 k0 = Some k1" "k_client idle0 (kernel_start k1) w [(a, 24)]"
    "n \<in> live (k_tasks w)" "n \<noteq> idle0" by (rule first_thread_and_object)
  have "(a, 24) \<in> set [(a, 24 :: u32)]" by simp
  with kernel_memory_safe [OF k(1-3), THEN conjunct2, THEN conjunct2, THEN conjunct1]
  have "a \<noteq> 0 \<and> (\<forall>t \<in> live (k_tasks w) - {idle0}. \<forall>j < 4096. t + of_nat j \<notin> span a (unat (24 :: u32)))" by blast
  with k(3-5) show ?thesis by blast
qed

text \<open>C13. In every state reached so each call that is allowed (\<open>kmalloc\<close> for at most 4096 bytes with two frames free) returns, and it leaves alone what belongs to the other part: the calls of
  the tasks keep all words of the objects, \<open>kmalloc\<close>, \<open>kfree\<close> and the round of \<open>kfree_km_cache\<close> keep all words of the pages of
  the tasks.\<close>

theorem kernel_calls_keep:
  assumes "kfresh idle k0" and "sched_init idle k0 = Some k1" and "k_client idle (kernel_start k1) w H"
  shows "(\<forall>c. allowed idle (k_sems w) c (k_tasks w) \<longrightarrow>
        (\<exists>w'. k_call c w = Some w' \<and> (\<forall>(a, n) \<in> set H. \<forall>x \<in> span a (unat n). words (k_objs w') x = words (k_objs w) x)))
    \<and> (\<forall>len. can_alloc len (k_objs w) \<longrightarrow> (\<exists>a w'. k_alloc len w = Some (a, w') \<and> stacks_kept idle w w'))
    \<and> (\<forall>(a, n) \<in> set H. can_free n (k_objs w) \<longrightarrow> (\<exists>w'. k_release a w = Some w' \<and> stacks_kept idle w w'))
    \<and> (\<exists>w'. kfree_km_cache_round w = Some w' \<and> stacks_kept idle w w')"
proof -
  obtain V Q where w: "k_inv idle w V Q" "distinct (map fst H)"
    "\<forall>a n. (a, n) \<in> set H \<longrightarrow> (a, size_class n) \<in> in_use V \<and> span a (unat n) \<subseteq> span a (osz (size_class n))" by (rule k_client_view [OF assms])
  note u = w(3) [rule_format, THEN conjunct1] and sp = w(3) [rule_format, THEN conjunct2, THEN subsetD]
  have "\<exists>w'. k_call c w = Some w' \<and> (\<forall>(a, n) \<in> set H. \<forall>x \<in> span a (unat n). words (k_objs w') x = words (k_objs w) x)"
    if al: "allowed idle (k_sems w) c (k_tasks w)" for c
  proof -
    obtain w' where w': "k_call c w = Some w'" "objs_kept V w w'" by (rule call_step [OF w(1) al])
    have "words (k_objs w') x = words (k_objs w) x" if "(a, n) \<in> set H" "x \<in> span a (unat n)" for a n x
      using w'(2) u [OF that(1)] sp [OF that] by (auto simp: objs_kept_def keeps_def)
    with w'(1) show ?thesis by blast
  qed
  moreover have "\<exists>a w'. k_alloc len w = Some (a, w') \<and> stacks_kept idle w w'" if "can_alloc len (k_objs w)" for len
    by (rule alloc_step [OF w(1) that]) blast
  moreover have "\<exists>w'. k_release a w = Some w' \<and> stacks_kept idle w w'" if "(a, n) \<in> set H" "can_free n (k_objs w)" for a n
    by (rule release_step [OF w(1) u [OF that(1)] that(2)]) blast
  moreover have "\<exists>w'. kfree_km_cache_round w = Some w' \<and> stacks_kept idle w w'" by (rule round_step [OF w(1)]) blast
  ultimately show ?thesis by blast
qed

theorem kernel_calls_keep_witness:
  "\<exists>k1 w w' a n. k_client idle0 (kernel_start k1) w [(a, 24)] \<and> n \<in> live (k_tasks w) \<and> n \<noteq> idle0
    \<and> kfree_km_cache_round w = Some w' \<and> (\<forall>j < 4096. kmem (k_tasks w') (n + of_nat j) = kmem (k_tasks w) (n + of_nat j))"
proof -
  obtain k0 k1 w a n where k: "kfresh idle0 k0" "sched_init idle0 k0 = Some k1" "k_client idle0 (kernel_start k1) w [(a, 24)]"
    "n \<in> live (k_tasks w)" "n \<noteq> idle0" by (rule first_thread_and_object)
  from kernel_calls_keep [OF k(1-3), THEN conjunct2, THEN conjunct2, THEN conjunct2]
  obtain w' where w': "kfree_km_cache_round w = Some w'" "stacks_kept idle0 w w'" by blast
  have "n \<in> live (k_tasks w) - {idle0}" using k(4,5) by simp
  then have "\<forall>j < 4096. kmem (k_tasks w') (n + of_nat j) = kmem (k_tasks w) (n + of_nat j)" using w'(2) unfolding stacks_kept_def by blast
  with k(3-5) w'(1) show ?thesis by blast
qed

end
