(* ===== verification/Bitmap.thy ===== *)
theory Bitmap
  imports Frames
begin

text \<open>
  The first frame manager, \<open>mm/bitmap.c\<close>, which \<open>mm/buddy.c\<close> has replaced: a bitmap with a bit for each
  frame, 32 in a row. \<open>bm_alloc_frame\<close> looks for the first clear bit, the macros \<open>set_frame\<close> and \<open>clear_frame\<close>
  count the references of a frame and keep the bit and the number of free frames with the count. The lemmas
  show that the three agree after every operation and that the search is the least free frame.
  \<^term>\<open>None\<close> is \<open>panic\<close> or a frame outside the table.
\<close>

section \<open>The code\<close>

record bm_state =
  bm_frames :: mm_state
  frame_map :: "u32 list"
  n_free_frames :: u32

definition idx_to_row :: "u32 \<Rightarrow> u32" where "idx_to_row i = drop_bit 5 i"
definition row_to_idx :: "u32 \<Rightarrow> u32" where "row_to_idx i = push_bit 5 i"

definition frame_bit :: "u32 \<Rightarrow> u32" where
  "frame_bit idx = push_bit (unat (idx AND 0x1F)) 0x1"

definition set_frame :: "u32 \<Rightarrow> bm_state \<Rightarrow> bm_state option" where
  "set_frame idx s = do {
     f \<leftarrow> get_frame idx (bm_frames s);
     m \<leftarrow> upd_frame idx (\<lambda>f. f\<lparr>ref_cnt := ref_cnt f + 1\<rparr>) (bm_frames s);
     let s = s\<lparr>bm_frames := m\<rparr>;
     Some (if ref_cnt f = 0 then
       let row = unat (idx_to_row idx);
           s = s\<lparr>frame_map := (frame_map s)[row := frame_map s ! row OR frame_bit idx]\<rparr>
       in s\<lparr>n_free_frames := n_free_frames s - 1\<rparr>
     else s) }"

definition clear_frame :: "u32 \<Rightarrow> bm_state \<Rightarrow> bm_state option" where
  "clear_frame idx s = do {
     m \<leftarrow> upd_frame idx (\<lambda>f. f\<lparr>ref_cnt := ref_cnt f - 1\<rparr>) (bm_frames s);
     let s = s\<lparr>bm_frames := m\<rparr>;
     f \<leftarrow> get_frame idx (bm_frames s);
     Some (if ref_cnt f = 0 then
       let row = unat (idx_to_row idx);
           s = s\<lparr>frame_map := (frame_map s)[row := frame_map s ! row AND NOT (frame_bit idx)]\<rparr>
       in s\<lparr>n_free_frames := n_free_frames s + 1\<rparr>
     else s) }"

text \<open>The number of the lowest set bit of a word that is not 0.\<close>

definition bit_number :: "u32 \<Rightarrow> u32" where
  "bit_number wd =
    (let j = 0;
         (j, wd) = (if wd AND 0xFFFF = 0 then (j + 16, drop_bit 16 wd) else (j, wd));
         (j, wd) = (if wd AND 0xFF = 0 then (j + 8, drop_bit 8 wd) else (j, wd));
         (j, wd) = (if wd AND 0xF = 0 then (j + 4, drop_bit 4 wd) else (j, wd));
         (j, wd) = (if wd AND 0x3 = 0 then (j + 2, drop_bit 2 wd) else (j, wd))
     in if wd AND 0x1 = 0 then j + 1 else j)"

function bm_scan :: "u32 list \<Rightarrow> u32 \<Rightarrow> u32" where
  "bm_scan rows i =
    (if i < idx_to_row MAX_FRAME_NUM then
       let wd = NOT (rows ! unat i) AND (rows ! unat i + 1)
       in if wd \<noteq> 0 then row_to_idx i + bit_number wd else bm_scan rows (i + 1)
     else 0)"
  by pat_completeness auto
termination
proof (relation "measure (\<lambda>(rows, i). 256 - unat i)")
  fix rows :: "u32 list" and i wd :: u32
  assume "i < idx_to_row MAX_FRAME_NUM"
  then have "unat i < 256" by (simp add: idx_to_row_def MAX_FRAME_NUM_def word_less_nat_alt)
  then show "((rows, i + 1), rows, i) \<in> measure (\<lambda>(rows, i). 256 - unat i)" by (simp add: unat_word_ariths)
qed simp

declare bm_scan.simps [simp del]

definition bm_alloc_frame :: "bm_state \<Rightarrow> u32 option" where
  "bm_alloc_frame s = (let frame = bm_scan (frame_map s) 0 in if frame = 0 then None else Some frame)"

section \<open>The lowest clear bit of a row\<close>

lemma bit_number_exp: "k < 32 \<Longrightarrow> bit_number (push_bit k 1) = of_nat k"
proof -
  have "list_all (\<lambda>k. bit_number (push_bit k 1) = of_nat k) [0..<32]" by code_simp
  then show "k < 32 \<Longrightarrow> bit_number (push_bit k 1) = of_nat k" by (simp add: list_all_iff)
qed

lemma isolate_clear:
  fixes w :: u32
  assumes low: "lowest (\<lambda>i. \<not> bit w i) k" and k: "k < 32"
  shows "NOT w AND (w + 1) = push_bit k 1"
proof -
  define h where "h = w AND NOT (mask (Suc k))"
  have h: "bit h n \<longleftrightarrow> Suc k \<le> n \<and> bit w n" for n
    by (auto simp: h_def bit_and_iff bit_not_iff bit_mask_iff dest: bit_imp_le_length)
  have w: "bit w n \<longleftrightarrow> bit h n \<or> n < k" for n
    using lowestD [OF low] lowest_below [OF low, of n] h [of n] by (cases "n < k"; cases "n = k") auto
  have "w = h OR mask k" by (rule bit_word_eqI) (use w k in \<open>auto simp: bit_or_iff bit_mask_iff\<close>)
  also have "\<dots> = h + mask k"
    by (rule disjunctive_add [symmetric]) (use h in \<open>auto simp: bit_mask_iff\<close>)
  finally have "w + 1 = h + (mask k + 1)" by (simp add: add.assoc)
  also have "mask k + 1 = (push_bit k 1 :: u32)" by (simp add: mask_eq_exp_minus_1)
  also have "h + push_bit k 1 = h OR push_bit k 1"
    by (rule disjunctive_add) (use h in \<open>auto simp: bit_one_shift simp del: push_bit_of_1\<close>)
  finally have s: "w + 1 = h OR push_bit k 1" .
  show ?thesis unfolding s
    by (rule bit_word_eqI) (use lowestD [OF low] k h in \<open>auto simp: bit_and_iff bit_or_iff bit_not_iff bit_one_shift simp del: push_bit_of_1 dest: lowest_below [OF low]\<close>)
qed

lemma row_word:
  "NOT w AND (w + 1) \<noteq> 0 \<longleftrightarrow> (\<exists>i < 32. \<not> bit w i)" for w :: u32
proof
  assume "NOT w AND (w + 1) \<noteq> 0"
  then have "w \<noteq> - 1" by auto
  then show "\<exists>i < 32. \<not> bit w i" using word_not_all_ones [of w] by simp
next
  assume "\<exists>i < 32. \<not> bit w i"
  then obtain i where i: "i < 32" "\<not> bit w i" by blast
  let ?k = "LEAST i. \<not> bit w i"
  have low: "lowest (\<lambda>i. \<not> bit w i) ?k"
    unfolding lowest_def using LeastI [of "\<lambda>i. \<not> bit w i", OF i(2)] not_less_Least by blast
  have "?k < 32" using Least_le [of "\<lambda>i. \<not> bit w i", OF i(2)] i(1) by simp
  then show "NOT w AND (w + 1) \<noteq> 0" unfolding isolate_clear [OF low \<open>?k < 32\<close>] by (auto simp: word_nonzero bit_one_shift simp del: push_bit_of_1)
qed

section \<open>The bitmap as a set of frames\<close>

definition bm_cell :: "bm_state \<Rightarrow> nat \<Rightarrow> nat \<Rightarrow> bool" where
  "bm_cell s y x \<longleftrightarrow> bit (frame_map s ! y) x"

definition bm_taken :: "bm_state \<Rightarrow> nat set" where
  "bm_taken s = {p. p < 8192 \<and> bm_cell s (p div 32) (p mod 32)}"

interpretation bm_free: two_level 32 256 "\<lambda>y x. \<not> bm_cell s y x" for s
  by unfold_locales simp

lemma bm_free_flat: "bm_free.flat s p \<longleftrightarrow> p < 8192 \<and> p \<notin> bm_taken s"
  by (auto simp: bm_free.flat_def bm_taken_def)

lemma bm_free_row: "bm_free.row_hit s y \<longleftrightarrow> y < 256 \<and> (\<exists>x < 32. \<not> bit (frame_map s ! y) x)"
  unfolding bm_free.row_hit_def unfolding bm_cell_def ..

lemma rows: "i < idx_to_row MAX_FRAME_NUM \<longleftrightarrow> unat i < 256"
  by (simp add: idx_to_row_def MAX_FRAME_NUM_def word_less_nat_alt)

text \<open>The search goes on from the first row that is not full.\<close>

lemma bm_scan_from:
  assumes "n \<le> 256" and "\<forall>y < n. \<not> bm_free.row_hit s y"
  shows "bm_scan (frame_map s) (of_nat n) = (if \<exists>p. bm_free.flat s p then of_nat (LEAST p. bm_free.flat s p) else 0)"
  using assms
proof (induction "256 - n" arbitrary: n)
  case 0
  then have "n = 256" by simp
  with 0 have "\<not> bm_free.flat s p" for p
    by (intro bm_free.no_row_no_flat) (auto simp: bm_free_row)
  moreover have "bm_scan (frame_map s) (of_nat n) = 0" using \<open>n = 256\<close> by (subst bm_scan.simps) (simp add: rows)
  ultimately show ?case by simp
next
  case (Suc k)
  then have n: "n < 256" by simp
  let ?w = "frame_map s ! n"
  have u: "unat (of_nat n :: u32) = n" using n by (simp add: unat_small)
  show ?case
  proof (cases "bm_free.row_hit s n")
    case True
    then obtain i where i: "i < 32" "\<not> bit ?w i" by (auto simp: bm_free_row)
    let ?k = "LEAST i. \<not> bit ?w i"
    have low: "lowest (\<lambda>i. \<not> bit ?w i) ?k"
      unfolding lowest_def using LeastI [of "\<lambda>i. \<not> bit ?w i", OF i(2)] not_less_Least by blast
    have k: "?k < 32" using Least_le [of "\<lambda>i. \<not> bit ?w i", OF i(2)] i(1) by simp
    have flat: "lowest (bm_free.flat s) (32 * n + ?k)"
    proof (rule bm_free.two_level_lowest)
      show "lowest (bm_free.row_hit s) n" using True Suc.prems(2) by (simp add: lowest_def)
      show "lowest (\<lambda>x. x < 32 \<and> \<not> bm_cell s n x) ?k"
        using k by (intro lowest_cong [OF low]) (auto simp: bm_cell_def)
    qed
    have "NOT ?w AND (?w + 1) \<noteq> 0" unfolding row_word using i by blast
    then have "bm_scan (frame_map s) (of_nat n) = row_to_idx (of_nat n) + bit_number (push_bit ?k 1)"
      using n isolate_clear [OF low k] by (subst bm_scan.simps) (simp add: rows u Let_def del: push_bit_of_1)
    also have "\<dots> = of_nat (32 * n + ?k)" using bit_number_exp [OF k] by (simp add: row_to_idx_def push_bit_eq_mult)
    finally show ?thesis using flat lowest_Least [OF flat] by (auto dest: lowestD)
  next
    case False
    then have "\<not> (NOT ?w AND (?w + 1) \<noteq> 0)" unfolding row_word using n by (simp add: bm_free_row)
    then have "bm_scan (frame_map s) (of_nat n) = bm_scan (frame_map s) (of_nat (Suc n))"
      using n by (subst bm_scan.simps) (simp add: rows u add.commute)
    also have "\<dots> = (if \<exists>p. bm_free.flat s p then of_nat (LEAST p. bm_free.flat s p) else 0)"
      using Suc.hyps(2) Suc.prems(2) False n by (intro Suc.hyps(1)) (auto simp: less_Suc_eq)
    finally show ?thesis .
  qed
qed

lemma bm_alloc_frame_eq:
  "bm_alloc_frame s = (if 0 \<in> bm_taken s \<and> (\<exists>p < 8192. p \<notin> bm_taken s)
     then Some (of_nat (LEAST p. p < 8192 \<and> p \<notin> bm_taken s)) else None)"
proof -
  let ?l = "LEAST p. p < 8192 \<and> p \<notin> bm_taken s"
  have f: "bm_free.flat s = (\<lambda>p. p < 8192 \<and> p \<notin> bm_taken s)" by (rule ext) (rule bm_free_flat)
  have "bm_scan (frame_map s) (of_nat 0) = (if \<exists>p. bm_free.flat s p then of_nat (LEAST p. bm_free.flat s p) else 0)"
    by (rule bm_scan_from) simp_all
  then have scan: "bm_scan (frame_map s) 0 = (if \<exists>p < 8192. p \<notin> bm_taken s then of_nat ?l else 0)" unfolding f by simp
  show ?thesis
  proof (cases "\<exists>p < 8192. p \<notin> bm_taken s")
    case True
    then have l: "?l < 8192 \<and> ?l \<notin> bm_taken s" by (intro LeastI_ex [of "\<lambda>p. p < 8192 \<and> p \<notin> bm_taken s"]) blast
    then have "?l < 4294967296" by (elim conjE) (erule order_less_trans, simp)
    then have "(of_nat ?l :: u32) = of_nat 0 \<longleftrightarrow> ?l = 0" by (rule of_nat_eq_word) simp
    then have "(of_nat ?l :: u32) = 0 \<longleftrightarrow> ?l = 0" unfolding semiring_1_class.of_nat_0 .
    moreover have "?l = 0 \<longleftrightarrow> 0 \<notin> bm_taken s"
    proof
      assume "?l = 0"
      then show "0 \<notin> bm_taken s" using l by simp
    next
      assume "0 \<notin> bm_taken s"
      then have "?l \<le> 0" by (intro Least_le) simp
      then show "?l = 0" by simp
    qed
    ultimately show ?thesis using True scan by (simp add: bm_alloc_frame_def)
  next
    case False
    then have "bm_scan (frame_map s) 0 = 0" using scan by (simp only: if_False)
    then show ?thesis using False by (auto simp: bm_alloc_frame_def)
  qed
qed

section \<open>Counting references\<close>

definition refs_of :: "bm_state \<Rightarrow> u32 \<Rightarrow> u16" where
  "refs_of s frame = ref_cnt (frame_tab (bm_frames s) frame)"

text \<open>The bits, the counts of references and the number of free frames belong together.\<close>

definition bm_ok :: "bm_state \<Rightarrow> bool" where
  "bm_ok s \<longleftrightarrow> length (frame_map s) = 256
    \<and> (\<forall>p < 8192. p \<in> bm_taken s \<longleftrightarrow> ref_cnt (frame_tab (bm_frames s) (of_nat p)) \<noteq> 0)
    \<and> n_free_frames s = of_nat (card ({..<8192} - bm_taken s))"

lemma bm_taken_bound: "bm_taken s \<subseteq> {..<8192}"
  by (auto simp: bm_taken_def)

lemma frame_row: "p < 8192 \<Longrightarrow> unat (idx_to_row (of_nat p)) = p div 32" "p < 8192 \<Longrightarrow> p div 32 < 256"
  by (simp_all add: idx_to_row_def drop_bit_eq_div unat_div unat_small)

lemma frame_bit_bit: "p < 8192 \<Longrightarrow> bit (frame_bit (of_nat p)) x \<longleftrightarrow> x = p mod 32"
proof -
  assume p: "p < 8192"
  have "(of_nat p :: u32) AND 0x1F = take_bit 5 (of_nat p)" by (simp add: take_bit_eq_mask mask_numeral)
  then have "unat ((of_nat p :: u32) AND 0x1F) = p mod 32"
    using p by (simp only: unsigned_take_bit_eq unat_small) (simp add: unat_small take_bit_eq_mod)
  then show ?thesis by (auto simp: frame_bit_def bit_one_shift simp del: push_bit_of_1)
qed

text \<open>A row written with one bit changed.\<close>

lemma bm_mark:
  assumes p: "p < 8192" and len: "length (frame_map s) = 256"
    and row: "\<forall>x. bit w x \<longleftrightarrow> (if x = p mod 32 then b else bit (frame_map s ! (p div 32)) x)"
    and t: "frame_map t = (frame_map s)[p div 32 := w]"
  shows "bm_taken t = (if b then insert p (bm_taken s) else bm_taken s - {p})"
proof -
  have "bm_cell t (q div 32) (q mod 32) \<longleftrightarrow> (if q = p then b else bm_cell s (q div 32) (q mod 32))" if "q < 8192" for q
  proof (cases "q div 32 = p div 32")
    case True
    have "q mod 32 = p mod 32 \<longleftrightarrow> q = p" using True by (metis div_mult_mod_eq)
    then show ?thesis using True row frame_row(2) [OF p] len by (simp add: bm_cell_def t)
  next
    case False
    then show ?thesis by (auto simp: bm_cell_def t)
  qed
  then have "q \<in> bm_taken t \<longleftrightarrow> q < 8192 \<and> (if q = p then b else q \<in> bm_taken s)" for q
    by (cases "q < 8192") (simp_all add: bm_taken_def)
  then show ?thesis using p bm_taken_bound [of s] by (auto split: if_splits)
qed

lemma frame_of: "p < 8192 \<Longrightarrow> q < 8192 \<Longrightarrow> (of_nat p :: u32) = of_nat q \<longleftrightarrow> p = q"
  by (rule of_nat_eq_word) simp_all

lemma bm_ok_step:
  assumes ok: "bm_ok s" and p: "p < 8192" and len: "length (frame_map t) = 256"
    and tab: "frame_tab (bm_frames t) = (frame_tab (bm_frames s))(of_nat p := f)"
    and here: "p \<in> bm_taken t \<longleftrightarrow> ref_cnt f \<noteq> 0" and others: "\<forall>q. q \<noteq> p \<longrightarrow> (q \<in> bm_taken t \<longleftrightarrow> q \<in> bm_taken s)"
    and free: "n_free_frames t = of_nat (card ({..<8192} - bm_taken t))"
  shows "bm_ok t"
proof -
  have "q \<in> bm_taken t \<longleftrightarrow> ref_cnt (frame_tab (bm_frames t) (of_nat q)) \<noteq> 0" if q: "q < 8192" for q
  proof (cases "q = p")
    case True
    then show ?thesis using here tab by simp
  next
    case False
    then have "(of_nat q :: u32) \<noteq> of_nat p" using frame_of [OF q p] by simp
    then show ?thesis using False others tab ok q by (simp add: bm_ok_def)
  qed
  then show ?thesis using len free by (simp add: bm_ok_def)
qed

lemma set_frame_keeps:
  assumes ok: "bm_ok s" and p: "p < 8192" and c: "refs_of s (of_nat p) \<noteq> - 1"
  shows "\<exists>s'. set_frame (of_nat p) s = Some s' \<and> bm_ok s' \<and> bm_taken s' = insert p (bm_taken s)
    \<and> refs_of s' = (refs_of s)(of_nat p := refs_of s (of_nat p) + 1)"
proof -
  let ?r = "ref_cnt (frame_tab (bm_frames s) (of_nat p))"
  note ok' = ok [unfolded bm_ok_def]
  have f: "(of_nat p :: u32) < MAX_FRAME_NUM" using p by (simp add: max_frame_num unat_small)
  have nz: "?r + 1 \<noteq> 0" using c unfolding refs_of_def by (metis add.commute add_eq_0_iff)
  let ?f = "(frame_tab (bm_frames s) (of_nat p))\<lparr>ref_cnt := ?r + 1\<rparr>"
  let ?m = "(bm_frames s)\<lparr>frame_tab := (frame_tab (bm_frames s))(of_nat p := ?f)\<rparr>"
  show ?thesis
  proof (cases "?r = 0")
    case True
    let ?w = "frame_map s ! (p div 32) OR frame_bit (of_nat p)"
    let ?s = "s\<lparr>bm_frames := ?m, frame_map := (frame_map s)[p div 32 := ?w], n_free_frames := n_free_frames s - 1\<rparr>"
    have run: "set_frame (of_nat p) s = Some ?s"
      using True f by (simp add: set_frame_def get_frame_def upd_frame_def frame_row [OF p] Let_def)
    have t: "bm_taken ?s = insert p (bm_taken s)"
      using bm_mark [OF p, of s ?w True ?s] ok' by (auto simp: bit_or_iff frame_bit_bit [OF p])
    have free: "p \<in> {..<8192} - bm_taken s" using ok' p True by simp
    have "{..<8192} - bm_taken ?s = ({..<8192} - bm_taken s) - {p}" using t by auto
    moreover have "card ({..<8192} - bm_taken s) = Suc (card (({..<8192} - bm_taken s) - {p}))"
      by (rule card.remove) (use free in simp_all)
    ultimately have "n_free_frames ?s = of_nat (card ({..<8192} - bm_taken ?s))" using ok' by simp
    then have "bm_ok ?s" by (intro bm_ok_step [OF ok p, where f = ?f]) (use ok' t nz in simp_all)
    with run t show ?thesis by (simp add: refs_of_def fun_eq_iff)
  next
    case False
    let ?s = "s\<lparr>bm_frames := ?m\<rparr>"
    have run: "set_frame (of_nat p) s = Some ?s" using False f by (simp add: set_frame_def get_frame_def upd_frame_def)
    have t: "bm_taken ?s = bm_taken s" by (simp add: bm_taken_def bm_cell_def)
    have "p \<in> bm_taken s" using ok' p False by simp
    moreover from this have "bm_ok ?s" by (intro bm_ok_step [OF ok p, where f = ?f]) (use ok' t nz in simp_all)
    ultimately show ?thesis using run t by (simp add: insert_absorb refs_of_def fun_eq_iff)
  qed
qed

lemma clear_frame_keeps:
  assumes ok: "bm_ok s" and p: "p \<in> bm_taken s"
  shows "\<exists>s'. clear_frame (of_nat p) s = Some s' \<and> bm_ok s'
    \<and> bm_taken s' = (if refs_of s (of_nat p) = 1 then bm_taken s - {p} else bm_taken s)
    \<and> refs_of s' = (refs_of s)(of_nat p := refs_of s (of_nat p) - 1)"
proof -
  let ?r = "ref_cnt (frame_tab (bm_frames s) (of_nat p))"
  note ok' = ok [unfolded bm_ok_def]
  have q: "p < 8192" using p by (simp add: bm_taken_def)
  then have f: "(of_nat p :: u32) < MAX_FRAME_NUM" by (simp add: max_frame_num unat_small)
  let ?f = "(frame_tab (bm_frames s) (of_nat p))\<lparr>ref_cnt := ?r - 1\<rparr>"
  let ?m = "(bm_frames s)\<lparr>frame_tab := (frame_tab (bm_frames s))(of_nat p := ?f)\<rparr>"
  have z: "?r - 1 = 0 \<longleftrightarrow> ?r = 1" by simp
  show ?thesis
  proof (cases "?r = 1")
    case True
    let ?w = "frame_map s ! (p div 32) AND NOT (frame_bit (of_nat p))"
    let ?s = "s\<lparr>bm_frames := ?m, frame_map := (frame_map s)[p div 32 := ?w], n_free_frames := n_free_frames s + 1\<rparr>"
    have run: "clear_frame (of_nat p) s = Some ?s"
      using True f by (simp add: clear_frame_def get_frame_def upd_frame_def frame_row [OF q] Let_def)
    have "\<forall>x. bit ?w x \<longleftrightarrow> (if x = p mod 32 then False else bit (frame_map s ! (p div 32)) x)"
      by (auto simp: bit_and_iff bit_not_iff frame_bit_bit [OF q] dest: bit_imp_le_length)
    then have t: "bm_taken ?s = bm_taken s - {p}" using bm_mark [OF q, of s ?w False ?s] ok' by simp
    have "{..<8192} - bm_taken ?s = insert p ({..<8192} - bm_taken s)" using t q by auto
    moreover have "card (insert p ({..<8192} - bm_taken s)) = Suc (card ({..<8192} - bm_taken s))"
      by (rule card_insert_disjoint) (use p in simp_all)
    ultimately have "n_free_frames ?s = of_nat (card ({..<8192} - bm_taken ?s))" using ok' by simp
    then have "bm_ok ?s" by (intro bm_ok_step [OF ok q, where f = ?f]) (use ok' t True in simp_all)
    with run t True show ?thesis by (simp add: refs_of_def fun_eq_iff)
  next
    case False
    let ?s = "s\<lparr>bm_frames := ?m\<rparr>"
    have run: "clear_frame (of_nat p) s = Some ?s" using False f z by (simp add: clear_frame_def get_frame_def upd_frame_def)
    have t: "bm_taken ?s = bm_taken s" by (simp add: bm_taken_def bm_cell_def)
    then have "bm_ok ?s" by (intro bm_ok_step [OF ok q, where f = ?f]) (use ok' z False p in simp_all)
    with run t False show ?thesis by (simp add: refs_of_def fun_eq_iff)
  qed
qed

lemma bm_alloc_least:
  assumes "bm_ok s"
  shows "if 0 \<in> bm_taken s \<and> bm_taken s \<noteq> {..<8192}
    then \<exists>p s' s''. lowest (\<lambda>p. p < 8192 \<and> p \<notin> bm_taken s) p \<and> bm_alloc_frame s = Some (of_nat p)
      \<and> set_frame (of_nat p) s = Some s' \<and> bm_ok s' \<and> bm_taken s' = insert p (bm_taken s)
      \<and> clear_frame (of_nat p) s' = Some s'' \<and> bm_ok s'' \<and> bm_taken s'' = bm_taken s
    else bm_alloc_frame s = None"
proof (cases "0 \<in> bm_taken s \<and> (\<exists>p < 8192. p \<notin> bm_taken s)")
  case True
  let ?p = "LEAST p. p < 8192 \<and> p \<notin> bm_taken s"
  have ex: "\<exists>p. p < 8192 \<and> p \<notin> bm_taken s" using True by blast
  have low: "lowest (\<lambda>p. p < 8192 \<and> p \<notin> bm_taken s) ?p"
    unfolding lowest_def using LeastI_ex [OF ex] not_less_Least by blast
  have alloc: "bm_alloc_frame s = Some (of_nat ?p)" using True bm_alloc_frame_eq by simp
  have p: "?p < 8192" "?p \<notin> bm_taken s" using lowestD [OF low] by blast+
  have r: "refs_of s (of_nat ?p) = 0" using assms p by (simp add: bm_ok_def refs_of_def)
  obtain s' where s': "set_frame (of_nat ?p) s = Some s'" "bm_ok s'" "bm_taken s' = insert ?p (bm_taken s)"
    "refs_of s' (of_nat ?p) = 1"
    using set_frame_keeps [OF assms p(1)] r by auto
  have "?p \<in> bm_taken s'" using s'(3) by blast
  from clear_frame_keeps [OF s'(2) this] s'(4)
  obtain s'' where s'': "clear_frame (of_nat ?p) s' = Some s''" "bm_ok s''" "bm_taken s'' = bm_taken s' - {?p}" by auto
  have "bm_taken s'' = bm_taken s" using s''(3) s'(3) p(2) by blast
  then show ?thesis using low alloc s' s'' True by auto
next
  case False
  then have "bm_alloc_frame s = None" using bm_alloc_frame_eq by simp
  moreover have "0 \<notin> bm_taken s \<or> bm_taken s = {..<8192}" using False bm_taken_bound [of s] by auto
  ultimately show ?thesis by auto
qed

section \<open>Properties\<close>

text \<open>C38. On a bitmap that agrees with the counts of references, \<open>bm_alloc_frame\<close> gives the least free frame, and \<open>panic\<close> is reached
  exactly when no frame is free or frame 0 is; \<open>set_frame\<close> on that frame takes just this frame, and \<open>clear_frame\<close> gives it back. On any
  frame, in use or not, \<open>set_frame\<close> counts one reference more and takes the frame (a count that would wrap excepted); \<open>clear_frame\<close> on a
  frame in use counts one less and gives the frame back only with its last reference. Bits, counts and the number of free frames agree after
  each of them.\<close>

theorem bm_frames_least:
  assumes "bm_ok s"
  shows "(if 0 \<in> bm_taken s \<and> bm_taken s \<noteq> {..<8192}
      then \<exists>p s' s''. lowest (\<lambda>p. p < 8192 \<and> p \<notin> bm_taken s) p \<and> bm_alloc_frame s = Some (of_nat p)
        \<and> set_frame (of_nat p) s = Some s' \<and> bm_ok s' \<and> bm_taken s' = insert p (bm_taken s)
        \<and> clear_frame (of_nat p) s' = Some s'' \<and> bm_ok s'' \<and> bm_taken s'' = bm_taken s
      else bm_alloc_frame s = None)
    \<and> (\<forall>q < 8192. refs_of s (of_nat q) \<noteq> - 1 \<longrightarrow> (\<exists>s'. set_frame (of_nat q) s = Some s' \<and> bm_ok s'
        \<and> bm_taken s' = insert q (bm_taken s) \<and> refs_of s' = (refs_of s)(of_nat q := refs_of s (of_nat q) + 1)))
    \<and> (\<forall>q \<in> bm_taken s. \<exists>s'. clear_frame (of_nat q) s = Some s' \<and> bm_ok s'
        \<and> bm_taken s' = (if refs_of s (of_nat q) = 1 then bm_taken s - {q} else bm_taken s)
        \<and> refs_of s' = (refs_of s)(of_nat q := refs_of s (of_nat q) - 1))"
  using bm_alloc_least [OF assms] set_frame_keeps [OF assms] clear_frame_keeps [OF assms] by blast

definition bm_boot :: "mm_state \<Rightarrow> bm_state" where
  "bm_boot m = \<lparr>bm_frames = m\<lparr>frame_tab := (\<lambda>fr. (frame_tab m fr)\<lparr>ref_cnt := 0\<rparr>)\<rparr>, frame_map = replicate 256 0, n_free_frames = MAX_FRAME_NUM\<rparr>"

lemma bm_boot_ok: "bm_ok (bm_boot m)" "bm_taken (bm_boot m) = {}"
proof -
  show t: "bm_taken (bm_boot m) = {}" by (simp add: bm_taken_def bm_cell_def bm_boot_def div_less_iff_less_mult)
  show "bm_ok (bm_boot m)" unfolding bm_ok_def t by (simp add: bm_boot_def MAX_FRAME_NUM_def)
qed

lemma bm_first_frame:
  "\<exists>s. set_frame (of_nat 0) (bm_boot m) = Some s \<and> bm_ok s \<and> bm_taken s = {0} \<and> refs_of s = (\<lambda>_. 0)(0 := 1)"
proof -
  have r: "refs_of (bm_boot m) = (\<lambda>_. 0)" by (simp add: refs_of_def bm_boot_def fun_eq_iff)
  from set_frame_keeps [OF bm_boot_ok(1), of 0 m] show ?thesis by (simp add: bm_boot_ok r)
qed

theorem bm_frames_least_witness:
  "\<exists>m s s' s2 s3 s4. bm_taken s = {0} \<and> bm_alloc_frame s = Some 1 \<and> set_frame 1 s = Some s' \<and> bm_taken s' = {0, 1}
    \<and> set_frame 0 s = Some s2 \<and> bm_taken s2 = {0} \<and> clear_frame 0 s2 = Some s3 \<and> bm_taken s3 = {0}
    \<and> clear_frame 0 s3 = Some s4 \<and> bm_taken s4 = {} \<and> bm_alloc_frame (bm_boot m) = None"
proof -
  obtain m :: mm_state and s where s: "bm_ok s" "bm_taken s = {0}" "refs_of s = (\<lambda>_. 0)(0 := 1)" using bm_first_frame by blast
  have "5 \<in> {..<8192 :: nat} \<and> 5 \<notin> {0 :: nat}" by simp
  then have "{0} \<noteq> {..<8192 :: nat}" by blast
  then have c: "0 \<in> bm_taken s \<and> bm_taken s \<noteq> {..<8192}" using s(2) by simp
  from bm_frames_least [OF s(1), unfolded if_P [OF c]] obtain p s' where p: "lowest (\<lambda>p. p < 8192 \<and> p \<notin> bm_taken s) p"
    "bm_alloc_frame s = Some (of_nat p)" "set_frame (of_nat p) s = Some s'" "bm_taken s' = insert p (bm_taken s)"
    by (elim exE conjE) (rule that)
  have "lowest (\<lambda>p. p < 8192 \<and> p \<notin> bm_taken s) 1" by (auto simp: lowest_def s(2))
  then have "p = 1" using p(1) lowest_unique by blast
  moreover have "bm_alloc_frame (bm_boot m) = None" using bm_frames_least [OF bm_boot_ok(1), of m] by (simp add: bm_boot_ok(2))
  moreover note p(2-4) s(2)
  moreover obtain s2 where s2: "set_frame 0 s = Some s2" "bm_ok s2" "bm_taken s2 = {0}" "refs_of s2 0 = 2"
    using bm_frames_least [OF s(1), THEN conjunct2, THEN conjunct1, rule_format, of 0] s(2,3) by auto
  moreover obtain s3 where s3: "clear_frame 0 s2 = Some s3" "bm_ok s3" "bm_taken s3 = {0}" "refs_of s3 0 = 1"
    using bm_frames_least [OF s2(2), THEN conjunct2, THEN conjunct2, rule_format, of 0] s2(3,4) by auto
  moreover obtain s4 where "clear_frame 0 s3 = Some s4" "bm_taken s4 = {}"
    using bm_frames_least [OF s3(2), THEN conjunct2, THEN conjunct2, rule_format, of 0] s3(3,4) by auto
  ultimately show ?thesis
    by (intro exI [of _ m] exI [of _ s] exI [of _ s'] exI [of _ s2] exI [of _ s3] exI [of _ s4] conjI) (simp_all add: insert_commute)
qed

end
