(* ===== verification/Spec2Isabelle.thy ===== *)
theory Spec2Isabelle
  imports Startup Fat RbtreeSort KernelMemory Bitmap
begin

text \<open>
  \<^bold>\<open>The kernel tamako\<close>

  tamako is a small kernel for the 32-bit x86. The boot code enters \<open>kern_entry\<close> (\<open>init/entry.c\<close>), which
  sets up the segment and interrupt tables (\<open>init/gdt.c\<close>, \<open>init/idt.c\<close>), the symbol table for the debug
  output (\<open>kernel/elf.c\<close>), the serial line (\<open>drivers/uart.c\<close>), the clock (\<open>drivers/clock.c\<close>), the page tables
  and frames (\<open>mm/\<close>) and the tasks (\<open>kernel/sched.c\<close>). From then on everything happens in threads and in the
  interrupt handlers that \<open>kernel/isr.c\<close> dispatches to.

  \<^bold>\<open>Data.\<close> A C integer of width w is a word of w bits and wraps as in C; where C leaves the overflow of an
  \<open>int\<close> undefined (widths and precisions of the formatted output) it is \<^typ>\<open>int\<close>. An address is a
  \<^typ>\<open>u32\<close>. Each component has the part of the memory it works on as its own state: the list nodes of the
  queues are a heap of nodes named by what they are part of (\<open>Clist\<close>), the frame table is a list of
  frames, page tables are words, strings and images are a memory of bytes (\<open>Cstring\<close>). A machine fault, an
  endless loop and an access outside an array are \<^term>\<open>None\<close>; error values of the code stay values.

  \<^bold>\<open>Theories.\<close>

    \<^item> \<open>Prelude\<close>: the integer types, facts on bits, lowest bits and signed bytes, shared by all.

    \<^item> \<open>Clist\<close> (\<open>include/list.h\<close>): the intrusive lists. \<open>dlist h a xs\<close> says that the nodes \<open>xs\<close> hang on the
      head \<open>a\<close>; each operation is shown to be the one on the list.

    \<^item> \<open>Pid\<close> (\<open>kernel/pid.c\<close>): the two-level bitmap of process ids with its find-first tables.

    \<^item> \<open>Spinlock\<close> (\<open>include/spinlock.h\<close>): \<open>spin_lock\<close> and \<open>spin_unlock\<close>; a step relation of several processors
      at the exchange instruction gives mutual exclusion.

    \<^item> \<open>Frames\<close>, \<open>Buddy\<close> (\<open>include/mm.h\<close>, \<open>mm/buddy.c\<close>): the frame table and the buddy allocator. \<open>BuddyBlocks\<close>
      has the arithmetic of blocks, \<open>BuddyInv\<close> the invariant (free blocks are aligned, disjoint and on the list
      of their order; that two free buddies have been merged is not part of it), \<open>BuddyAlloc\<close>, \<open>BuddyFree\<close> and \<open>BuddyInit\<close> its
      preservation, \<open>BuddySafe\<close> the properties.

    \<^item> \<open>Paging\<close> (\<open>mm/memory.c\<close>): the page tables that \<open>mm_init\<close> writes, read as the processor walks them, and
      the memory it hands to the frame allocator.

    \<^item> \<open>TaskQueue\<close>, \<open>SchedRR\<close> (\<open>kernel/task_queue.c\<close>, \<open>kernel/sched_rr.c\<close>): the queues, stated once in the
      locale \<open>fifo_queue\<close> and interpreted on the code, and the round-robin scheduler with its bitmap of
      priorities.

    \<^item> \<open>Sched\<close>, \<open>Semaphore\<close> (\<open>kernel/sched.c\<close>, \<open>kernel/semaphore.c\<close>, \<open>include/semaphore.h\<close>): the code of tasks
      and semaphores. \<open>KernelQueues\<close> says on which list each task is, \<open>KernelCalls\<close> what the calls do to the
      lists, \<open>KernelFamily\<close> has the tree of parents and children, \<open>KernelThreads\<close> the start and the end of a
      thread, \<open>Kernel\<close> the invariant \<open>kinv\<close> kept by every call and the reachable states, \<open>KernelSafe\<close> the
      properties.

    \<^item> \<open>Cstring\<close> (\<open>include/string.h\<close>): the byte functions; \<open>cstring m a cs\<close> says that the string \<open>cs\<close> is at \<open>a\<close>.

    \<^item> \<open>Ports\<close> (\<open>include/common.h\<close>, \<open>drivers/pic.c\<close>, the table of \<open>kernel/isr.c\<close>): port accesses as a trace; what a
      port answers is a parameter that may depend on all accesses before.

    \<^item> \<open>Uart\<close> (\<open>drivers/uart.c\<close>): the serial driver, shown to implement the transmitter and receive queue
      \<open>line\<close> as long as no buffer overflows.

    \<^item> \<open>Console\<close> (\<open>drivers/console.c\<close>): the text screen; \<open>show_byte\<close> and \<open>paint\<close> say what is to be seen.

    \<^item> \<open>Vsprintf\<close>, \<open>Printk\<close> (\<open>kernel/vsprintf.c\<close>, \<open>kernel/printk.c\<close>): formatted output. \<open>render\<close> is the
      text a format stands for; it reads the directives with \<open>takeWhile\<close> and \<open>dropWhile\<close> (\<open>read_directive\<close>) and not with
      the parser of the code, which is shown to agree with it (\<open>parse_spec_reads\<close>). A format with a star for a width or a
      precision has no such text: the code does not skip the star (\<open>vsprintf_star\<close>).

    \<^item> \<open>Interrupts\<close> (\<open>kernel/isr.c\<close>, \<open>drivers/clock.c\<close>, \<open>page_fault\<close>): dispatch over a machine with the tasks, the
      line and the memory; the invariants of both are kept by every interrupt of the controller.

    \<^item> \<open>Descriptors\<close> (\<open>init/gdt.c\<close>, \<open>init/idt.c\<close>): the segment and interrupt tables, read back as the processor
      reads them.

    \<^item> \<open>Elf\<close> (\<open>kernel/elf.c\<close>): the symbol lookup. \<open>Fat\<close> (\<open>fs/fat.c\<close>): the FAT12 reader.
      Where the clusters of a volume lie and how they are chained is stated from the layout of FAT12 (\<open>cluster_start\<close>,
      \<open>table_entry\<close>); the code agrees with it for one sector in a cluster, \<open>fat_cluster_misplaced\<close> shows that it does not
      for more.

    \<^item> \<open>Rbtree\<close> (\<open>lib/rbtree.c\<close>, \<open>include/rbtree.h\<close>): the red-black tree over nodes named by their addresses.
      \<open>RbtreeRep\<close> relates the nodes to a tree as a value, \<open>RbtreeInsert\<close> and \<open>RbtreeDelete\<close> run the code on it,
      \<open>RbtreeWalk\<close> has the walk and the depth, \<open>RbtreeSort\<close> the sorted store a client sees (locale
      \<open>node_store\<close>). Deleting writes the parent of the sentinel \<open>__rb_null\<close>, which the model keeps.

    \<^item> \<open>Kmalloc\<close> (\<open>lib/kmalloc.c\<close>): the code of the allocator of small objects. \<open>BuddyKeep\<close> shows that the frame
      allocator leaves the descriptors alone, \<open>KmallocMem\<close> has addresses, slots of two words and rings of
      slots, \<open>KmallocInv\<close> the view of a state as a value and the invariant \<open>km_inv\<close>. \<open>KmallocCache\<close>,
      \<open>KmallocPage\<close>, \<open>KmallocDesc\<close>, \<open>KmallocNew\<close>, \<open>KmallocGrow\<close>, \<open>KmallocReclaim\<close> and \<open>KmallocDrop\<close> follow the
      steps of the code on the view, \<open>KmallocSafe\<close> and \<open>KmallocFree\<close> put them together to \<open>kmalloc\<close>,
      \<open>kfree\<close> and \<open>free_cache\<close>, and \<open>KmallocClient\<close> has the interface \<open>object_store\<close> with its interpretation
      and the properties.

    \<^item> \<open>TaskMemory\<close>, \<open>KernelMemory\<close>: tasks and objects together. \<open>TaskMemory\<close> says what the calls of the tasks do to frames and
      words, \<open>KernelMemory\<close> puts both states over the one frame allocator and the one memory (the record
      \<open>kernel\<close>), with the daemon \<open>kfree_km_cache\<close>, and interprets \<open>object_store\<close> on the whole: the calls of the tasks
      are quiet steps of it. \<open>InitThread\<close> has \<open>init\<close>, the first thread.

    \<^item> \<open>Bitmap\<close> (\<open>mm/bitmap.c\<close>): the older frame manager, which \<open>mm_init\<close> no longer chooses: its search and its
      counting of references.

    \<^item> \<open>Debug\<close> (\<open>kernel/debug.c\<close>): the log functions and \<open>panic\<close>, which walks the frames of the callers.
      \<open>Startup\<close> (\<open>init/entry.c\<close>): \<open>kern_entry\<close> over a system with all parts; each part is found in the state
      the theories before start from.

  \<^bold>\<open>Interleaving.\<close> The kernel runs on one processor. A call of \<open>kernel/sched.c\<close> is one step of \<open>kreach\<close>, a
  driver call or an interrupt one step of \<open>uart_run\<close>, a call of \<open>lib/kmalloc.c\<close> or of the tasks one step of
  \<open>k_client\<close>; the properties \<open>sem_post_in_the_gap\<close> and
  \<open>sched_tick_deadlocks\<close> show two places where an interrupt inside a call breaks it (a tick while the lock of the
  scheduler is held hangs when it has to schedule, and only then). \<open>uputc\<close> enables interrupts
  when it returns, also inside a handler; nested handlers are not modelled.

  \<^bold>\<open>Loops and bounds.\<close> Loops over a counter are structural recursion or have a measure. Loops that may not
  end (waiting for input, the end of a string, a chain of clusters, the lists) are partial functions with
  the value \<^term>\<open>None\<close> for not returning, and the theorems state that they return. The digit buffer of \<open>number\<close>
  holds 36 bytes; \<open>digs_length\<close> shows that 32 are enough. The \<open>tmp\<close> array starts with zeros in the model, in
  the code with garbage that is never read.

  \<^bold>\<open>Parameters.\<close> The hardware behind the ports, the addresses the linker gives (tables, stubs, buffers, string
  literals, the end of the kernel), the memory map of the boot loader (together \<open>boot_env\<close> in \<open>Startup\<close>), the
  comparison of nodes and the address of the sentinel of the red-black tree, the frame pointer of the caller
  of \<open>panic\<close>.

  \<^bold>\<open>Bounds of the theorems.\<close> A request of at most 4096 bytes to \<open>kmalloc\<close> is shown to be served as long as two frames
  are free, one for the page and one for a page of descriptors; the steps of \<open>km_client\<close> and \<open>k_client\<close> call it only then.
  Without a free frame \<open>alloc_page\<close> does not fail but gives the address of frame 0 (\<open>alloc_pages_never_null\<close>), and what
  \<open>kmalloc\<close> does with it is not followed further than \<open>bucket_init_no_memory\<close>. \<open>buddy_init\<close> is followed on runs that reach the
  next 4 MB boundary. The texts of \<open>printk\<close> and \<open>panic\<close> have to fit the buffer of 1024 bytes and the queue of the line. \<open>kfree\<close> is followed while the length of the cache, a field
  of 16 bits, does not reach 65535.

  \<^bold>\<open>Virtual memory.\<close> The pages of objects and tasks are flat memory at their addresses in the kernel window; the theories of
  objects and tasks do not read the page tables. \<open>Paging\<close> shows that \<open>mm_init\<close> maps the first 4 MB of the window right and
  (\<open>mm_init_misplaces_second_4MB\<close>) not the next, so on the hardware the theorems on pages speak of frames of the first 4 MB.

  \<^bold>\<open>Not modelled.\<close> The assembler (boot code, interrupt stubs, context switch) is not C; \<open>schedule\<close> is modelled
  up to the choice of the next task. The test code (\<open>sched_test\<close>, \<open>buddy_test\<close>, \<open>rb_test\<close>, \<open>kmalloc_test\<close>) and the
  printing of internal tables (\<open>km_print\<close>, \<open>buddy_print\<close>, \<open>fr_print\<close>, \<open>task_print\<close>, \<open>rb_print\<close>) are left
  out.
\<close>

end
